(* ===== verification/Prelude.thy ===== *)
theory Prelude
  imports Main "HOL-Library.Word"
begin

text \<open>
  Shared types, fault values and helper lemmas of the YJK/OS development.

  The kernel is built for i586: \<open>size_t\<close>, \<open>UINT\<close>, \<open>uintptr_t\<close> and \<open>PHYSPTR\<close>
  are 32 bits wide, \<open>int\<close> and \<open>long\<close> are 32-bit signed. Bit patterns (bitmap words,
  page-table entries, flag sets, bytes) are \<^typ>\<open>32 word\<close>, \<^typ>\<open>16 word\<close> and
  \<^typ>\<open>8 word\<close>. Sizes, counts and addresses are \<^typ>\<open>nat\<close>, with the wrap-around at
  \<open>2 ^ 32\<close> written out by \<open>sz_add\<close>, \<open>sz_sub\<close> and \<open>sz_mul\<close> where the operands are
  not bounded by the code itself; signed values are \<^typ>\<open>int\<close>.

  A C function that can stop the kernel (a failed \<open>assert\<close>, \<open>panic\<close>) or leave
  defined behaviour (an access outside an array, an oversized shift, a null
  dereference, a variable argument of the wrong type, an access to an unmapped page, a division by zero) returns a value of \<open>'a res\<close>, the sum of \<open>fault\<close> and \<open>'a\<close>.
\<close>

unbundle bit_operations_syntax

named_theorems res_simps
named_theorems wrap_simps

type_synonym u8 = "8 word"
type_synonym u16 = "16 word"
type_synonym u32 = "32 word"
type_synonym u64 = "64 word"

datatype fault =
    Panic
  | Assert_fail
  | Out_of_bounds
  | Bad_shift
  | Null_deref
  | Bad_argument
  | Page_fault
  | Div_zero
  | Hang

type_synonym 'a res = "fault + 'a"

definition bind_res :: "'a res \<Rightarrow> ('a \<Rightarrow> 'b res) \<Rightarrow> 'b res" where
  "bind_res m f = (case m of Inl e \<Rightarrow> Inl e | Inr x \<Rightarrow> f x)"

definition assert_res :: "bool \<Rightarrow> unit res" where
  "assert_res b = (if b then Inr () else Inl Assert_fail)"

text \<open>A read and a write of a C array of known length.\<close>

definition load :: "'a list \<Rightarrow> nat \<Rightarrow> 'a res" where
  "load xs i = (if i < length xs then Inr (xs ! i) else Inl Out_of_bounds)"

definition store :: "'a list \<Rightarrow> nat \<Rightarrow> 'a \<Rightarrow> 'a list res" where
  "store xs i x = (if i < length xs then Inr (xs[i := x]) else Inl Out_of_bounds)"

text \<open>Arithmetic on \<open>size_t\<close>: the results wrap at 32 bits.\<close>

definition size_max :: nat where
  "size_max = 2 ^ 32 - 1"

definition sz_add :: "nat \<Rightarrow> nat \<Rightarrow> nat" where
  "sz_add a b = (a + b) mod 2 ^ 32"

definition sz_sub :: "nat \<Rightarrow> nat \<Rightarrow> nat" where
  "sz_sub a b = (a + (2 ^ 32 - b mod 2 ^ 32)) mod 2 ^ 32"

definition sz_mul :: "nat \<Rightarrow> nat \<Rightarrow> nat" where
  "sz_mul a b = (a * b) mod 2 ^ 32"

text \<open>The conversion of a signed value to \<open>size_t\<close>.\<close>

definition to_size :: "int \<Rightarrow> nat" where
  "to_size i = nat (i mod 2 ^ 32)"

text \<open>The conversion of \<open>size_t\<close> to \<open>ssize_t\<close> or \<open>int\<close>.\<close>

definition to_ssize :: "nat \<Rightarrow> int" where
  "to_ssize n = (if n < 2 ^ 31 then int n else int n - 2 ^ 32)"

text \<open>The limit of the transfers of streams (include/kernel/io/stream.h).\<close>

definition STREAM_MAX_TRANSFER_SIZE :: nat where
  "STREAM_MAX_TRANSFER_SIZE = 0x7fffffff"

text \<open>Error numbers of errno.h; functions return them negated.\<close>

definition EPERM :: int where "EPERM = 1"
definition ENOENT :: int where "ENOENT = 2"
definition EIO :: int where "EIO = 5"
definition EBADF :: int where "EBADF = 9"
definition ENOMEM :: int where "ENOMEM = 12"
definition EFAULT :: int where "EFAULT = 14"
definition EEXIST :: int where "EEXIST = 17"
definition ENODEV :: int where "ENODEV = 19"
definition EINVAL :: int where "EINVAL = 22"
definition ENAMETOOLONG :: int where "ENAMETOOLONG = 36"

lemmas errno_defs = EPERM_def ENOENT_def EIO_def EBADF_def ENOMEM_def EFAULT_def
  EEXIST_def ENODEV_def EINVAL_def ENAMETOOLONG_def

lemma bind_res_Inl [simp, res_simps]: "bind_res (Inl e) f = Inl e"
  by (simp add: bind_res_def)

lemma bind_res_Inr [simp, res_simps]: "bind_res (Inr x) f = f x"
  by (simp add: bind_res_def)

lemma bind_res_eq_Inr [res_simps]:
  "bind_res m f = Inr y \<longleftrightarrow> (\<exists>x. m = Inr x \<and> f x = Inr y)"
  by (cases m) simp_all

lemma bind_res_cong [fundef_cong]:
  assumes "m = m'" and "\<And>x. m' = Inr x \<Longrightarrow> f x = g x"
  shows "bind_res m f = bind_res m' g"
  using assms by (cases m') simp_all

lemma bind_res_weak_cong: "m = m' \<Longrightarrow> bind_res m f = bind_res m' f"
  by simp

lemma bind_res_assoc:
  "bind_res (bind_res m f) g = bind_res m (\<lambda>x. bind_res (f x) g)"
  by (cases m) simp_all

lemma assert_res_True [simp, res_simps]: "assert_res True = Inr ()"
  by (simp add: assert_res_def)

lemma assert_res_False [simp, res_simps]: "assert_res False = Inl Assert_fail"
  by (simp add: assert_res_def)

lemma assert_res_eq_Inr [res_simps]: "assert_res b = Inr u \<longleftrightarrow> b"
  by (simp add: assert_res_def)

lemma load_in [simp]: "i < length xs \<Longrightarrow> load xs i = Inr (xs ! i)"
  by (simp add: load_def)

lemma load_out [simp]: "length xs \<le> i \<Longrightarrow> load xs i = Inl Out_of_bounds"
  by (simp add: load_def)

lemma load_eq_Inr [res_simps]: "load xs i = Inr x \<longleftrightarrow> i < length xs \<and> x = xs ! i"
  by (auto simp: load_def)

lemma store_in [simp]: "i < length xs \<Longrightarrow> store xs i x = Inr (xs[i := x])"
  by (simp add: store_def)

lemma store_out [simp]: "length xs \<le> i \<Longrightarrow> store xs i x = Inl Out_of_bounds"
  by (simp add: store_def)

lemma store_eq_Inr [res_simps]: "store xs i x = Inr ys \<longleftrightarrow> i < length xs \<and> ys = xs[i := x]"
  by (auto simp: store_def)

lemma sz_add_no_wrap [wrap_simps]: "a + b < 2 ^ 32 \<Longrightarrow> sz_add a b = a + b"
  by (simp add: sz_add_def)

lemma sz_mul_no_wrap [wrap_simps]: "a * b < 2 ^ 32 \<Longrightarrow> sz_mul a b = a * b"
  by (simp add: sz_mul_def)

lemma sz_sub_no_wrap [wrap_simps]:
  assumes "b \<le> a" and "a < 2 ^ 32"
  shows "sz_sub a b = a - b"
proof -
  have "a + (2 ^ 32 - b mod 2 ^ 32) = (a - b) + 2 ^ 32"
    using assms by simp
  then have "sz_sub a b = ((a - b) + 2 ^ 32) mod 2 ^ 32"
    by (simp only: sz_sub_def)
  also have "\<dots> = (a - b) mod 2 ^ 32"
    by (rule mod_add_self2)
  finally show ?thesis
    using assms by simp
qed

lemma sz_bounds [simp]: "sz_add a b < 2 ^ 32" "sz_sub a b < 2 ^ 32" "sz_mul a b < 2 ^ 32"
  by (simp_all add: sz_add_def sz_sub_def sz_mul_def)

lemma to_size_nonneg [wrap_simps]: "0 \<le> i \<Longrightarrow> i < 2 ^ 32 \<Longrightarrow> to_size i = nat i"
  by (simp add: to_size_def)

lemma to_size_of_nat [wrap_simps]: "n < 2 ^ 32 \<Longrightarrow> to_size (int n) = n"
  by (simp add: to_size_def)

lemma to_ssize_small [wrap_simps]: "n < 2 ^ 31 \<Longrightarrow> to_ssize n = int n"
  by (simp add: to_ssize_def)

text \<open>A flag test on a word is a test of one bit.\<close>

lemma bit_power_word: "bit (2 ^ n :: 'a::len word) k \<longleftrightarrow> k = n \<and> k < LENGTH('a)"
  by (auto simp: bit_simps)

lemma and_power_word: "(w :: 'a::len word) AND 2 ^ n \<noteq> 0 \<longleftrightarrow> bit w n"
proof -
  have "w AND 2 ^ n \<noteq> 0 \<longleftrightarrow> (\<exists>k. bit (w AND 2 ^ n) k)"
    by (metis bit_0_eq bot_apply bot_bool_def bit_word_eqI)
  also have "\<dots> \<longleftrightarrow> bit w n" by (auto simp: bit_and_iff bit_power_word dest: bit_imp_le_length)
  finally show ?thesis .
qed

lemma div_eq_range:
  fixes p k b :: nat
  assumes "0 < k"
  shows "p div k = b \<longleftrightarrow> b * k \<le> p \<and> p < (b + 1) * k"
proof -
  have "p div k = b \<longleftrightarrow> b \<le> p div k \<and> p div k < b + 1" by auto
  then show ?thesis
    using assms by (simp only: less_eq_div_iff_mult_less_eq div_less_iff_less_mult)
qed

subsection \<open>Loops\<close>

text \<open>A loop over a list of indices, and the rule for an invariant of a loop over a range.\<close>

primrec fold_res :: "('x \<Rightarrow> 's \<Rightarrow> 's res) \<Rightarrow> 'x list \<Rightarrow> 's \<Rightarrow> 's res" where
  "fold_res f [] s = Inr s"
| "fold_res f (x # xs) s = bind_res (f x s) (fold_res f xs)"

lemma fold_res_append: "fold_res f (xs @ ys) s = bind_res (fold_res f xs s) (fold_res f ys)"
  by (induction xs arbitrary: s) (simp_all add: bind_res_def split: sum.splits)

lemma fold_res_range:
  assumes "a \<le> b" and "P a s" and "\<And>i s. a \<le> i \<Longrightarrow> i < b \<Longrightarrow> P i s \<Longrightarrow> \<exists>s'. f i s = Inr s' \<and> P (Suc i) s'"
  shows "\<exists>s'. fold_res f [a..<b] s = Inr s' \<and> P b s'"
  using assms(1,3)
proof (induction b rule: dec_induct)
  case base
  then show ?case using assms(2) by simp
next
  case (step n)
  then obtain s' where s': "fold_res f [a..<n] s = Inr s'" "P n s'" by force
  then obtain s'' where "f n s' = Inr s''" "P (Suc n) s''" using step by force
  then show ?case using step(1) s' by (simp add: fold_res_append)
qed

subsection \<open>Results that may be missing\<close>

text \<open>Sequencing of results that may be missing (the call does not return) or a fault.\<close>

definition bind_ro :: "'a res option \<Rightarrow> ('a \<Rightarrow> 'b res option) \<Rightarrow> 'b res option" where
  "bind_ro m f = Option.bind m (\<lambda>r. case r of Inl e \<Rightarrow> Some (Inl e) | Inr x \<Rightarrow> f x)"

lemma bind_ro_simps [simp]:
  "bind_ro None f = None" "bind_ro (Some (Inl e)) f = Some (Inl e)" "bind_ro (Some (Inr x)) f = f x"
  by (simp_all add: bind_ro_def)

lemma bind_ro_mono [partial_function_mono]:
  assumes "mono_option B" and "\<And>y. mono_option (\<lambda>f. C y f)"
  shows "mono_option (\<lambda>f. bind_ro (B f) (\<lambda>y. C y f))"
  unfolding bind_ro_def
proof (intro bind_mono assms(1))
  show "mono_option (\<lambda>f. case y of Inl e \<Rightarrow> Some (Inl e) | Inr x \<Rightarrow> C x f)" for y
    by (cases y) (simp_all add: assms(2) option.const_mono)
qed

lemma bind_ro_Inr: "bind_ro m f = Some (Inr y) \<longleftrightarrow> (\<exists>x. m = Some (Inr x) \<and> f x = Some (Inr y))"
proof (cases m)
  case (Some r)
  then show ?thesis by (cases r) simp_all
qed simp

end
