(* ===== verification/MiscMath.thy ===== *)
theory MiscMath
  imports Prelude
begin

text \<open>
  kernel/lib/miscmath.c: alignment arithmetic on 32-bit sizes and the little-endian
  readers. The pointer variants do the same arithmetic on the pointer's address.
\<close>

definition is_aligned :: "nat \<Rightarrow> nat \<Rightarrow> bool res" where
  "is_aligned x align = bind_res (assert_res (align \<noteq> 0)) (\<lambda>_. Inr (x mod align = 0))"

definition align_up :: "nat \<Rightarrow> nat \<Rightarrow> nat res" where
  "align_up x align =
     bind_res (assert_res (align \<noteq> 0)) (\<lambda>_.
     bind_res (is_aligned x align) (\<lambda>a.
       if a then Inr x else Inr (sz_add x (align - x mod align))))"

definition align_down :: "nat \<Rightarrow> nat \<Rightarrow> nat res" where
  "align_down x align = bind_res (assert_res (align \<noteq> 0)) (\<lambda>_. Inr (x - x mod align))"

definition is_ptr_aligned :: "nat \<Rightarrow> nat \<Rightarrow> bool res" where
  "is_ptr_aligned x align = bind_res (assert_res (align \<noteq> 0)) (\<lambda>_. Inr (x mod align = 0))"

definition align_ptr_up :: "nat \<Rightarrow> nat \<Rightarrow> nat res" where
  "align_ptr_up x align =
     bind_res (assert_res (align \<noteq> 0)) (\<lambda>_.
     bind_res (is_ptr_aligned x align) (\<lambda>a.
       if a then Inr x else Inr (sz_add x (align - x mod align))))"

definition align_ptr_down :: "nat \<Rightarrow> nat \<Rightarrow> nat res" where
  "align_ptr_down x align = bind_res (assert_res (align \<noteq> 0)) (\<lambda>_. Inr (x - x mod align))"

definition size_to_blocks :: "nat \<Rightarrow> nat \<Rightarrow> nat res" where
  "size_to_blocks sz block_size =
     bind_res (assert_res (block_size \<noteq> 0)) (\<lambda>_.
       if sz mod block_size = 0 then Inr (sz div block_size)
       else Inr (sz div block_size + 1))"

definition u16le_at :: "u8 list \<Rightarrow> u16 res" where
  "u16le_at p =
     bind_res (load p 1) (\<lambda>b1. bind_res (load p 0) (\<lambda>b0.
       Inr (ucast (push_bit 8 (ucast b1 :: u32) OR (ucast b0 :: u32)))))"

definition u32le_at :: "u8 list \<Rightarrow> u32 res" where
  "u32le_at p =
     bind_res (load p 3) (\<lambda>b3. bind_res (load p 2) (\<lambda>b2.
     bind_res (load p 1) (\<lambda>b1. bind_res (load p 0) (\<lambda>b0.
       Inr (push_bit 24 (ucast b3) OR push_bit 16 (ucast b2)
            OR push_bit 8 (ucast b1) OR (ucast b0))))))"

text \<open>The bytes of a word as the i586 lays them out, the reference the readers invert.\<close>

definition bytes_le32 :: "u32 \<Rightarrow> u8 list" where
  "bytes_le32 w = [ucast w, ucast (drop_bit 8 w), ucast (drop_bit 16 w), ucast (drop_bit 24 w)]"

definition bytes_le16 :: "u16 \<Rightarrow> u8 list" where
  "bytes_le16 w = [ucast w, ucast (drop_bit 8 w)]"

text \<open>
  The three alignment functions against the reference notions: the next multiple at
  or above, the previous multiple at or below, the number of blocks that cover a size.
\<close>

lemma next_multiple:
  fixes x a :: nat
  assumes "0 < a" and "x mod a \<noteq> 0"
  shows "x + (a - x mod a) = (x div a + 1) * a"
proof -
  have "x mod a < a" using assms(1) by simp
  then have "x + (a - x mod a) = (x - x mod a) + a" by simp
  then show ?thesis by (simp add: minus_mod_eq_div_mult)
qed

lemma ceil_div:
  fixes s b :: nat
  assumes "0 < b"
  shows "(s + b - Suc 0) div b = (if s mod b = 0 then s div b else s div b + 1)"
proof -
  have "s + b - Suc 0 = (s mod b + b - Suc 0) + s div b * b"
    using assms div_mult_mod_eq [of s b] by linarith
  then have "(s + b - Suc 0) div b = s div b + (s mod b + b - Suc 0) div b"
    using assms by (metis div_mult_self1 less_irrefl)
  moreover have "(s mod b + b - Suc 0) div b = (if s mod b = 0 then 0 else 1)"
  proof (cases "s mod b = 0")
    case True
    then show ?thesis using assms by simp
  next
    case False
    have "s mod b < b" using assms by simp
    then have "(s mod b - Suc 0) div b = 0" by simp
    moreover have "s mod b + b - Suc 0 = (s mod b - Suc 0) + b" using False by simp
    ultimately show ?thesis using False assms by (simp only: div_add_self2) simp
  qed
  ultimately show ?thesis by simp
qed

lemma align_up_value:
  assumes "0 < a" and "(x + a - 1) div a * a < 2 ^ 32"
  shows "align_up x a = Inr ((x + a - 1) div a * a)"
proof (cases "x mod a = 0")
  case True
  have "x div a * a = x" using True by auto
  with assms True show ?thesis
    by (simp add: align_up_def is_aligned_def ceil_div [OF assms(1)])
next
  case False
  with assms next_multiple [OF assms(1) False] show ?thesis
    by (simp add: align_up_def is_aligned_def sz_add_no_wrap ceil_div [OF assms(1)])
qed

lemma align_down_value: "0 < a \<Longrightarrow> align_down x a = Inr (x div a * a)"
  by (simp add: align_down_def minus_mod_eq_div_mult)

lemma size_to_blocks_value:
  "0 < b \<Longrightarrow> size_to_blocks s b = Inr ((s + b - 1) div b)"
  by (simp add: size_to_blocks_def ceil_div)

text \<open>
  \<open>align_up\<close> returns the least multiple of the alignment that is at or above
  its argument whenever that multiple fits in \<open>size_t\<close>, and \<open>align_down\<close> the greatest
  multiple at or below it.
\<close>

lemma align_up_least_multiple:
  assumes "0 < a" and "x + a \<le> 2 ^ 32"
  shows "\<exists>u d. align_up x a = Inr u \<and> align_down x a = Inr d \<and>
    a dvd u \<and> x \<le> u \<and> (\<forall>m. a dvd m \<and> x \<le> m \<longrightarrow> u \<le> m) \<and>
    a dvd d \<and> d \<le> x \<and> (\<forall>m. a dvd m \<and> m \<le> x \<longrightarrow> m \<le> d)"
proof -
  let ?u = "(x + a - 1) div a * a" and ?d = "x div a * a"
  have "?u \<le> x + a - 1" by simp
  then have "?u < 2 ^ 32" using assms by linarith
  then have u: "align_up x a = Inr ?u" by (rule align_up_value [OF assms(1)])
  have d: "align_down x a = Inr ?d" by (rule align_down_value [OF assms(1)])
  have "x + a - 1 < ?u + a"
    using assms(1) by (metis dividend_less_times_div add.commute mult.commute)
  then have xu: "x \<le> ?u" using assms(1) by linarith
  have least: "?u \<le> m" if m: "a dvd m" "x \<le> m" for m
  proof -
    obtain q where q: "m = q * a" using m(1) by (metis dvdE mult.commute)
    have "(x + a - 1) div a \<le> (q * a + a - 1) div a"
      by (rule div_le_mono) (use m(2) q in simp)
    also have "\<dots> = q" using assms(1) by (simp add: ceil_div)
    finally show ?thesis using q by simp
  qed
  have great: "m \<le> ?d" if m: "a dvd m" "m \<le> x" for m
  proof -
    obtain q where q: "m = q * a" using m(1) by (metis dvdE mult.commute)
    have "q \<le> x div a" using m(2) q assms(1) by (metis div_le_mono nonzero_mult_div_cancel_right less_irrefl)
    then show ?thesis using q by simp
  qed
  show ?thesis using u d xu least great by (intro exI [of _ ?u] exI [of _ ?d]) auto
qed

lemma u32le_bytes: "u32le_at (bytes_le32 w @ rest) = Inr w"
proof -
  have "push_bit 24 (ucast (ucast (drop_bit 24 w) :: u8)) OR
        push_bit 16 (ucast (ucast (drop_bit 16 w) :: u8)) OR
        push_bit 8 (ucast (ucast (drop_bit 8 w) :: u8)) OR (ucast (ucast w :: u8)) = w"
    by (rule bit_word_eqI) (auto simp: bit_simps, (metis le_add_diff_inverse less_diff_conv2 not_less numeral_plus_numeral add_num_simps)+)
  then show ?thesis
    by (simp add: u32le_at_def bytes_le32_def numeral_eq_Suc)
qed

lemma u16le_bytes: "u16le_at (bytes_le16 h @ rest) = Inr h"
proof -
  have "ucast (push_bit 8 (ucast (ucast (drop_bit 8 h) :: u8) :: u32) OR
        (ucast (ucast h :: u8) :: u32)) = h"
    by (rule bit_word_eqI) (auto simp: bit_simps)
  then show ?thesis
    by (simp add: u16le_at_def bytes_le16_def)
qed

end
