(* ===== verification/Bitmap.thy ===== *)
theory Bitmap
  imports MiscMath
begin

text \<open>
  kernel/lib/bitmap.c: bitmaps over 32-bit words, the metadata of the page and heap
  allocators. A bitmap is the word array and its length. Positions are \<open>long\<close> in the
  code and \<^typ>\<open>int\<close> here (a bitmap with more than \<open>2 ^ 31\<close> bits would not fit the
  kernel's memory), \<open>-1\<close> is "not found". A word access outside the array is the fault
  \<open>Out_of_bounds\<close>.
\<close>

subsection \<open>Operations\<close>

record bitmap =
  words :: "u32 list"
  word_count :: nat

definition BITS_PER_WORD :: nat where
  "BITS_PER_WORD = 32"

definition WORD_ALL_ONES :: u32 where
  "WORD_ALL_ONES = - 1"

text \<open>
  The loop of \<open>findfirstsetbit\<close>: the index stays below 32, so the test for the last
  bit is written as \<open>31 \<le> index\<close>, which makes the recursion total.
\<close>

function ffs_loop :: "u32 \<Rightarrow> nat \<Rightarrow> int" where
  "ffs_loop shifted index =
     (if shifted AND 1 = 0 then
        (if 31 \<le> index then - 1 else ffs_loop (drop_bit 1 shifted) (index + 1))
      else int index)"
  by pat_completeness auto
termination
  by (relation "measure (\<lambda>(s, i). 31 - i)") auto

definition findfirstsetbit :: "u32 \<Rightarrow> int \<Rightarrow> int" where
  "findfirstsetbit word startpos =
     (if startpos < 0 \<or> 32 \<le> startpos then - 1
      else let shifted = drop_bit (nat startpos) word in
        if shifted = 0 then - 1 else ffs_loop shifted (nat startpos))"

lemma drop_bit_odd_decreases:
  assumes "s AND 1 \<noteq> 0"
  shows "unat (drop_bit (Suc 0) s) < unat (s :: u32)"
proof -
  have "s \<noteq> 0" using assms by auto
  then have "0 < unat s" by (simp add: unat_gt_0)
  moreover have "unat (drop_bit (Suc 0) s) = unat s div 2"
    by (simp only: unat_drop_bit_eq) (simp add: drop_bit_Suc)
  ultimately show ?thesis by simp
qed

function flc_loop :: "u32 \<Rightarrow> nat \<Rightarrow> nat" where
  "flc_loop shifted index =
     (if shifted AND 1 \<noteq> 0 then flc_loop (drop_bit 1 shifted) (index + 1) else index)"
  by pat_completeness auto
termination
  by (relation "measure (\<lambda>(s, i). unat s)") (auto simp: drop_bit_odd_decreases)

definition findlastcontiguousbit :: "u32 \<Rightarrow> int \<Rightarrow> int" where
  "findlastcontiguousbit word startpos =
     (if startpos < 0 \<or> 32 \<le> startpos then - 1
      else if word = WORD_ALL_ONES then 31
      else let shifted = drop_bit (nat startpos) word in
        if shifted AND 1 = 0 then - 1
        else int (flc_loop shifted (nat startpos)) - 1)"

declare ffs_loop.simps [simp del] flc_loop.simps [simp del]

text \<open>A shift by 32 or more is undefined in C.\<close>

definition make_bitmask :: "nat \<Rightarrow> nat \<Rightarrow> u32 res" where
  "make_bitmask offset len =
     (if len = 0 then Inr 0
      else if 32 \<le> sz_sub BITS_PER_WORD len \<or> 32 \<le> offset then Inl Bad_shift
      else Inr (push_bit offset (drop_bit (sz_sub BITS_PER_WORD len) WORD_ALL_ONES)))"

definition bitmap_needed_word_count :: "nat \<Rightarrow> nat res" where
  "bitmap_needed_word_count bits = size_to_blocks bits BITS_PER_WORD"

function find_first_loop :: "bitmap \<Rightarrow> nat \<Rightarrow> int \<Rightarrow> int res" where
  "find_first_loop bm word_idx bitoffset =
     (if word_idx < word_count bm then
        bind_res (load (words bm) word_idx) (\<lambda>w.
          let idx = findfirstsetbit w bitoffset in
          if 0 \<le> idx then Inr (int (word_idx * BITS_PER_WORD) + idx)
          else find_first_loop bm (word_idx + 1) 0)
      else Inr (- 1))"
  by pat_completeness auto
termination
  by (relation "measure (\<lambda>(bm, i, off). word_count bm - i)") auto

definition bitmap_find_first_set_bit :: "bitmap \<Rightarrow> int \<Rightarrow> int res" where
  "bitmap_find_first_set_bit self startpos =
     (if startpos < 0 then Inr (- 1)
      else find_first_loop self (nat startpos div BITS_PER_WORD)
             (int (nat startpos mod BITS_PER_WORD)))"

function find_last_loop :: "bitmap \<Rightarrow> nat \<Rightarrow> int \<Rightarrow> int res" where
  "find_last_loop bm word_idx bitoffset =
     (if word_idx < word_count bm then
        bind_res (load (words bm) word_idx) (\<lambda>w.
          let idx = findlastcontiguousbit w bitoffset in
          if idx < 0 then Inr (- 1)
          else if idx \<noteq> 31 then Inr (int (word_idx * BITS_PER_WORD) + idx)
          else if word_idx + 1 < word_count bm then
            bind_res (load (words bm) (word_idx + 1)) (\<lambda>w'.
              if w' AND 1 = 0 then Inr (int (word_idx * BITS_PER_WORD) + idx)
              else find_last_loop bm (word_idx + 1) 0)
          else find_last_loop bm (word_idx + 1) 0)
      else Inr (int (word_count bm * BITS_PER_WORD) - 1))"
  by pat_completeness auto
termination
  by (relation "measure (\<lambda>(bm, i, off). word_count bm - i)") auto

declare find_first_loop.simps [simp del] find_last_loop.simps [simp del]

definition bitmap_find_last_contiguous_bit :: "bitmap \<Rightarrow> int \<Rightarrow> int res" where
  "bitmap_find_last_contiguous_bit self startpos =
     (if startpos < 0 then Inr (- 1)
      else let start_word_idx = nat startpos div BITS_PER_WORD in
        if word_count self \<le> start_word_idx then Inr (- 1)
        else find_last_loop self start_word_idx (int (nat startpos mod BITS_PER_WORD)))"

subsection \<open>The set of bits of a bitmap, and the two searches\<close>

definition bm_get :: "bitmap \<Rightarrow> nat \<Rightarrow> bool" where
  "bm_get bm n \<longleftrightarrow> n < 32 * word_count bm \<and> n div 32 < length (words bm) \<and>
     bit (words bm ! (n div 32)) (n mod 32)"

definition wf_bitmap :: "bitmap \<Rightarrow> bool" where
  "wf_bitmap bm \<longleftrightarrow> word_count bm = length (words bm) \<and> word_count bm < 2 ^ 26"

text \<open>
  The result \<open>r\<close> of a search from \<open>lo\<close> up to \<open>hi\<close>: the first position with \<open>P\<close>; the
  end of the run of \<open>P\<close> that starts at \<open>lo\<close>. The result \<open>-1\<close> is "none".
\<close>

definition first_spec :: "(nat \<Rightarrow> bool) \<Rightarrow> nat \<Rightarrow> nat \<Rightarrow> int \<Rightarrow> bool" where
  "first_spec P lo hi r \<longleftrightarrow>
     r = - 1 \<and> (\<forall>k. lo \<le> k \<and> k < hi \<longrightarrow> \<not> P k) \<or>
     (\<exists>k. r = int k \<and> lo \<le> k \<and> k < hi \<and> P k \<and> (\<forall>j. lo \<le> j \<and> j < k \<longrightarrow> \<not> P j))"

definition run_spec :: "(nat \<Rightarrow> bool) \<Rightarrow> nat \<Rightarrow> nat \<Rightarrow> int \<Rightarrow> bool" where
  "run_spec P lo hi r \<longleftrightarrow>
     r = - 1 \<and> \<not> P lo \<or>
     (\<exists>k. r = int k \<and> lo \<le> k \<and> k < hi \<and> (\<forall>j. lo \<le> j \<and> j \<le> k \<longrightarrow> P j) \<and>
          (k + 1 < hi \<longrightarrow> \<not> P (k + 1)))"

lemma and_one_drop_bit: "drop_bit i w AND 1 = (0 :: u32) \<longleftrightarrow> \<not> bit w i"
  by (simp add: and_one_eq odd_iff_mod_2_eq_one bit_iff_odd_drop_bit flip: even_iff_mod_2_eq_zero)

lemma drop_bit_Suc_shift: "drop_bit (Suc 0) (drop_bit i w) = drop_bit (Suc i) (w :: u32)"
  by (simp only: drop_bit_drop_bit) simp

lemma ffs_loop_step:
  "ffs_loop (drop_bit i w) i =
     (if bit w i then int i else if 31 \<le> i then - 1 else ffs_loop (drop_bit (Suc i) w) (Suc i))"
  by (subst ffs_loop.simps) (simp add: and_one_drop_bit drop_bit_Suc_shift)

lemma flc_loop_step:
  "flc_loop (drop_bit i w) i = (if bit w i then flc_loop (drop_bit (Suc i) w) (Suc i) else i)"
  by (subst flc_loop.simps) (simp add: and_one_drop_bit drop_bit_Suc_shift)

lemma first_spec_skip:
  assumes "\<not> P i" and "first_spec P (Suc i) hi r"
  shows "first_spec P i hi r"
proof -
  have "i \<le> k \<longleftrightarrow> k = i \<or> Suc i \<le> k" for k by auto
  with assms show ?thesis unfolding first_spec_def by metis
qed

lemma first_spec_hit: "P i \<Longrightarrow> i < hi \<Longrightarrow> first_spec P i hi (int i)"
  unfolding first_spec_def by fastforce

lemma first_spec_empty: "hi \<le> lo \<Longrightarrow> first_spec P lo hi (- 1)"
  by (auto simp: first_spec_def)

lemma ffs_loop_spec: "i \<le> 31 \<Longrightarrow> first_spec (bit w) i 32 (ffs_loop (drop_bit i w) i)"
proof (induction "31 - i" arbitrary: i)
  case 0
  then have "i = 31" by simp
  then show ?case
    using first_spec_hit [of "bit w" 31 32] first_spec_skip [of "bit w" 31 32 "- 1"]
    by (cases "bit w 31") (auto simp: ffs_loop_step [of 31] first_spec_empty)
next
  case (Suc d)
  then have IH: "first_spec (bit w) (Suc i) 32 (ffs_loop (drop_bit (Suc i) w) (Suc i))" by simp
  show ?case
  proof (cases "bit w i")
    case True
    then show ?thesis
      using Suc.prems by (simp add: ffs_loop_step first_spec_hit)
  next
    case False
    with Suc.hyps(2) have "ffs_loop (drop_bit i w) i = ffs_loop (drop_bit (Suc i) w) (Suc i)"
      by (subst ffs_loop_step) auto
    then show ?thesis using first_spec_skip [OF False IH] by simp
  qed
qed

lemma findfirstsetbit_spec:
  assumes "0 \<le> i" and "i < 32"
  shows "first_spec (bit w) (nat i) 32 (findfirstsetbit w i)"
proof (cases "drop_bit (nat i) w = 0")
  case True
  have "\<not> bit w k" if "nat i \<le> k" for k
  proof -
    have "bit (drop_bit (nat i) w) (k - nat i) = bit w k"
      using that by (simp add: bit_drop_bit_eq)
    with True show ?thesis by simp
  qed
  with True assms show ?thesis by (auto simp: findfirstsetbit_def first_spec_def)
next
  case False
  with assms ffs_loop_spec [of "nat i" w] show ?thesis
    by (simp add: findfirstsetbit_def)
qed

definition run_end :: "u32 \<Rightarrow> nat \<Rightarrow> nat \<Rightarrow> bool" where
  "run_end w i k \<longleftrightarrow> i \<le> k \<and> k \<le> 32 \<and> (\<forall>j. i \<le> j \<and> j < k \<longrightarrow> bit w j) \<and> \<not> bit w k"

lemma flc_loop_spec: "i \<le> 32 \<Longrightarrow> run_end w i (flc_loop (drop_bit i w) i)"
proof (induction "32 - i" arbitrary: i)
  case 0
  then have "i = 32" and "\<not> bit w i"
    using bit_imp_le_length [of w 32] by auto
  then have "flc_loop (drop_bit i w) i = 32" by (subst flc_loop_step) simp
  with \<open>i = 32\<close> \<open>\<not> bit w i\<close> show ?case by (auto simp: run_end_def)
next
  case (Suc d)
  then have IH: "run_end w (Suc i) (flc_loop (drop_bit (Suc i) w) (Suc i))" by simp
  show ?case
  proof (cases "bit w i")
    case True
    then have "flc_loop (drop_bit i w) i = flc_loop (drop_bit (Suc i) w) (Suc i)"
      by (subst flc_loop_step) simp
    with IH True show ?thesis
      unfolding run_end_def by (metis Suc_leD le_antisym not_less_eq_eq)
  next
    case False
    with Suc.prems show ?thesis by (auto simp: flc_loop_step run_end_def)
  qed
qed

lemma findlastcontiguousbit_spec:
  assumes "0 \<le> i" and "i < 32"
  shows "run_spec (bit w) (nat i) 32 (findlastcontiguousbit w i)"
proof (cases "w = WORD_ALL_ONES")
  case True
  with assms show ?thesis
    by (auto simp: findlastcontiguousbit_def run_spec_def WORD_ALL_ONES_def intro!: exI [of _ 31])
next
  case False
  let ?k = "flc_loop (drop_bit (nat i) w) (nat i)"
  have k: "nat i \<le> ?k \<and> ?k \<le> 32 \<and> (\<forall>j. nat i \<le> j \<and> j < ?k \<longrightarrow> bit w j) \<and> \<not> bit w ?k"
    using flc_loop_spec [of "nat i" w] assms by (simp add: run_end_def)
  show ?thesis
  proof (cases "bit w (nat i)")
    case bit: True
    with k have lt: "nat i < ?k" by (metis le_neq_implies_less)
    have run: "bit w j" if "nat i \<le> j" "j \<le> ?k - 1" for j
    proof -
      have "j < ?k" using that lt by linarith
      with k that show ?thesis by blast
    qed
    have "findlastcontiguousbit w i = int (?k - 1)"
      using lt bit False assms
      by (simp add: findlastcontiguousbit_def and_one_drop_bit of_nat_diff)
    moreover have "nat i \<le> ?k - 1" "?k - 1 < 32" "?k - 1 + 1 = ?k" using lt k by auto
    ultimately show ?thesis
      using k run unfolding run_spec_def by metis
  next
    case bit: False
    with False assms show ?thesis
      by (simp add: findlastcontiguousbit_def run_spec_def and_one_drop_bit)
  qed
qed

lemma bm_get_word:
  assumes "wi < word_count bm" and "wi < length (words bm)" and "off < 32"
  shows "bm_get bm (wi * 32 + off) \<longleftrightarrow> bit (words bm ! wi) off"
  using assms by (simp add: bm_get_def mult.commute)

lemma bm_get_word_range:
  assumes "wi < word_count bm" and "wi < length (words bm)" and "wi * 32 \<le> n" and "n < wi * 32 + 32"
  shows "bm_get bm n \<longleftrightarrow> bit (words bm ! wi) (n - wi * 32)"
  using bm_get_word [of wi bm "n - wi * 32"] assms by simp

lemma first_spec_next_word:
  assumes "\<forall>k. lo \<le> k \<and> k < mid \<longrightarrow> \<not> P k" and "first_spec P mid hi r" and "lo \<le> mid"
  shows "first_spec P lo hi r"
proof -
  have "lo \<le> k \<longleftrightarrow> lo \<le> k \<and> k < mid \<or> mid \<le> k" for k using assms(3) by auto
  with assms(1,2) show ?thesis unfolding first_spec_def by metis
qed

lemma find_first_loop_spec:
  assumes "find_first_loop bm wi (int off) = Inr r" and "off < 32"
  shows "first_spec (bm_get bm) (wi * 32 + off) (32 * word_count bm) r"
  using assms
proof (induction "word_count bm - wi" arbitrary: wi off)
  case 0
  then have "r = - 1" by (simp add: find_first_loop.simps)
  with 0 show ?case by (simp add: first_spec_empty)
next
  case (Suc d)
  then have wi: "wi < word_count bm" by simp
  with Suc.prems(1) have len: "wi < length (words bm)"
    by (subst (asm) find_first_loop.simps) (auto simp: res_simps)
  let ?w = "words bm ! wi"
  have w: "first_spec (bit ?w) off 32 (findfirstsetbit ?w (int off))"
    using findfirstsetbit_spec [of "int off" ?w] Suc.prems(2) by simp
  show ?case
  proof (cases "0 \<le> findfirstsetbit ?w (int off)")
    case True
    with w obtain k where k: "findfirstsetbit ?w (int off) = int k" "off \<le> k" "k < 32" "bit ?w k"
        "\<forall>j. off \<le> j \<and> j < k \<longrightarrow> \<not> bit ?w j"
      unfolding first_spec_def by auto
    have r: "r = int (wi * 32 + k)"
      using Suc.prems(1) wi len k(1)
      by (subst (asm) find_first_loop.simps) (simp add: BITS_PER_WORD_def)
    have "\<not> bm_get bm j" if "wi * 32 + off \<le> j" "j < wi * 32 + k" for j
    proof -
      have "off \<le> j - wi * 32" "j - wi * 32 < k" using that by auto
      moreover have "wi * 32 \<le> j" "j < wi * 32 + 32" using that k(3) by auto
      ultimately show ?thesis using bm_get_word_range [OF wi len, of j] k(5) by blast
    qed
    then show ?thesis
      unfolding r first_spec_def using bm_get_word [OF wi len k(3)] k(2,3,4) wi
      by (intro disjI2 exI [of _ "wi * 32 + k"]) auto
  next
    case False
    then have none: "\<forall>k. off \<le> k \<and> k < 32 \<longrightarrow> \<not> bit ?w k"
      using w unfolding first_spec_def by auto
    have "find_first_loop bm (Suc wi) (int 0) = Inr r"
      using Suc.prems(1) wi len False
      by (subst (asm) find_first_loop.simps) simp
    then have IH: "first_spec (bm_get bm) (Suc wi * 32 + 0) (32 * word_count bm) r"
      using Suc.hyps(1) [of "Suc wi" 0] Suc.hyps(2) by simp
    have "\<not> bm_get bm k" if "wi * 32 + off \<le> k" "k < Suc wi * 32" for k
    proof -
      have "off \<le> k - wi * 32" "k - wi * 32 < 32" "wi * 32 \<le> k" "k < wi * 32 + 32"
        using that by auto
      then show ?thesis using bm_get_word_range [OF wi len, of k] none by blast
    qed
    then show ?thesis
      using first_spec_next_word [OF _ IH, of "wi * 32 + off"] Suc.prems(2) by auto
  qed
qed

lemma bitmap_find_first_set_bit_spec:
  assumes "bitmap_find_first_set_bit bm p = Inr r" and "0 \<le> p"
  shows "first_spec (bm_get bm) (nat p) (32 * word_count bm) r"
proof -
  have "find_first_loop bm (nat p div 32) (int (nat p mod 32)) = Inr r"
    using assms by (simp add: bitmap_find_first_set_bit_def BITS_PER_WORD_def)
  then show ?thesis
    using find_first_loop_spec [of bm "nat p div 32" "nat p mod 32" r] by simp
qed

lemma find_first_loop_total:
  "wf_bitmap bm \<Longrightarrow> \<exists>r. find_first_loop bm wi off = Inr r"
proof (induction "word_count bm - wi" arbitrary: wi off)
  case 0
  then show ?case by (simp add: find_first_loop.simps)
next
  case (Suc d)
  then obtain r where "find_first_loop bm (Suc wi) 0 = Inr r" by fastforce
  with Suc show ?case
    by (subst find_first_loop.simps) (auto simp: wf_bitmap_def Let_def)
qed

lemma run_spec_extend:
  assumes "\<forall>j. lo \<le> j \<and> j < mid \<longrightarrow> P j" and "run_spec P mid hi r" and "P mid" and "lo \<le> mid"
  shows "run_spec P lo hi r"
proof -
  from assms(2,3) obtain k where k: "r = int k" "mid \<le> k" "k < hi"
      "\<forall>j. mid \<le> j \<and> j \<le> k \<longrightarrow> P j" "k + 1 < hi \<longrightarrow> \<not> P (k + 1)"
    unfolding run_spec_def by auto
  have "P j" if "lo \<le> j" "j \<le> k" for j
    using that assms(1) k(4) by (cases "j < mid") auto
  with k assms(4) show ?thesis
    unfolding run_spec_def by (intro disjI2 exI [of _ k]) auto
qed

lemma run_spec_end:
  assumes "\<forall>j. lo \<le> j \<and> j \<le> k \<longrightarrow> P j" and "lo \<le> k" and "k < hi" and "k + 1 < hi \<Longrightarrow> \<not> P (k + 1)"
  shows "run_spec P lo hi (int k)"
  unfolding run_spec_def using assms by (intro disjI2 exI [of _ k]) auto

lemma find_last_loop_spec:
  assumes "find_last_loop bm wi (int off) = Inr r" and "off < 32" and "wi < word_count bm"
  shows "run_spec (bm_get bm) (wi * 32 + off) (32 * word_count bm) r"
  using assms
proof (induction "word_count bm - wi" arbitrary: wi off)
  case 0
  then show ?case by simp
next
  case (Suc d)
  note wi = Suc.prems(3) and off = Suc.prems(2)
  have len: "wi < length (words bm)"
    using Suc.prems(1) wi by (subst (asm) find_last_loop.simps) (auto simp: res_simps)
  let ?w = "words bm ! wi" and ?f = "findlastcontiguousbit (words bm ! wi) (int off)"
  have unf: "find_last_loop bm wi (int off) =
      (if ?f < 0 then Inr (- 1)
       else if ?f \<noteq> 31 then Inr (int (wi * 32) + ?f)
       else if Suc wi < word_count bm then
         bind_res (load (words bm) (Suc wi)) (\<lambda>w'.
           if w' AND 1 = 0 then Inr (int (wi * 32) + ?f) else find_last_loop bm (Suc wi) 0)
       else find_last_loop bm (Suc wi) 0)"
    using wi len by (subst find_last_loop.simps) (simp add: BITS_PER_WORD_def Let_def cong: if_cong)
  have w: "run_spec (bit ?w) off 32 ?f"
    using findlastcontiguousbit_spec [of "int off" ?w] off by simp
  have get: "bm_get bm j \<longleftrightarrow> bit ?w (j - wi * 32)" if "wi * 32 \<le> j" "j < wi * 32 + 32" for j
    using bm_get_word_range [OF wi len that] .
  show ?case
  proof (cases "bit ?w off")
    case False
    with w have "?f = - 1" unfolding run_spec_def by auto
    with Suc.prems(1) have "r = - 1" by (simp add: unf)
    then show ?thesis
      unfolding run_spec_def using get [of "wi * 32 + off"] False off by simp
  next
    case True
    with w obtain k where k: "?f = int k" "off \<le> k" "k < 32" "\<forall>j. off \<le> j \<and> j \<le> k \<longrightarrow> bit ?w j"
        "k + 1 < 32 \<longrightarrow> \<not> bit ?w (k + 1)"
      unfolding run_spec_def by auto
    have run: "bm_get bm j" if "wi * 32 + off \<le> j" "j \<le> wi * 32 + k" for j
    proof -
      have "off \<le> j - wi * 32" "j - wi * 32 \<le> k" "wi * 32 \<le> j" "j < wi * 32 + 32"
        using that k(3) by auto
      then show ?thesis using get [of j] k(4) by blast
    qed
    have fin: "run_spec (bm_get bm) (wi * 32 + off) (32 * word_count bm) (int (wi * 32 + k))"
      if "wi * 32 + k + 1 < 32 * word_count bm \<Longrightarrow> \<not> bm_get bm (wi * 32 + k + 1)"
      using run k(2,3) wi that by (intro run_spec_end) auto
    show ?thesis
    proof (cases "k = 31")
      case lt: False
      then have "r = int (wi * 32 + k)" using Suc.prems(1) k(1) by (simp add: unf)
      moreover have "\<not> bm_get bm (wi * 32 + k + 1)"
        using get [of "wi * 32 + k + 1"] k(3,5) lt by simp
      ultimately show ?thesis using fin by simp
    next
      case k31: True
      show ?thesis
      proof (cases "Suc wi < word_count bm")
        case last: False
        then have "find_last_loop bm (Suc wi) 0 = Inr (int (word_count bm * 32) - 1)"
          by (subst find_last_loop.simps) (simp add: BITS_PER_WORD_def)
        moreover have "word_count bm = Suc wi" using last wi by simp
        ultimately have "r = int (wi * 32 + k)"
          using Suc.prems(1) k(1) k31 by (simp add: unf)
        then show ?thesis using fin \<open>word_count bm = Suc wi\<close> k31 by simp
      next
        case more: True
        have len': "Suc wi < length (words bm)"
          using Suc.prems(1) k(1) k31 more by (auto simp: unf res_simps)
        have next0: "bm_get bm (Suc wi * 32) \<longleftrightarrow> bit (words bm ! Suc wi) 0"
          using bm_get_word [OF more len', of 0] by simp
        have and1: "words bm ! Suc wi AND 1 = 0 \<longleftrightarrow> \<not> bit (words bm ! Suc wi) 0"
          using and_one_drop_bit [of 0 "words bm ! Suc wi"] by simp
        show ?thesis
        proof (cases "bit (words bm ! Suc wi) 0")
          case False
          then have "r = int (wi * 32 + k)"
            using Suc.prems(1) k(1) k31 more len' and1 by (simp add: unf)
          then show ?thesis using fin next0 False k31 by (simp add: add.commute)
        next
          case set: True
          then have "find_last_loop bm (Suc wi) (int 0) = Inr r"
            using Suc.prems(1) k(1) k31 more len' and1 by (simp add: unf)
          then have "run_spec (bm_get bm) (Suc wi * 32 + 0) (32 * word_count bm) r"
            using Suc.hyps(1) [of "Suc wi" 0] Suc.hyps(2) more by simp
          then show ?thesis
            using run_spec_extend [of "wi * 32 + off" "Suc wi * 32" "bm_get bm"] run k31 next0 set off
            by simp
        qed
      qed
    qed
  qed
qed

lemma bitmap_find_last_contiguous_bit_spec:
  assumes "bitmap_find_last_contiguous_bit bm p = Inr r" and "0 \<le> p" and "nat p < 32 * word_count bm"
  shows "run_spec (bm_get bm) (nat p) (32 * word_count bm) r"
proof -
  have "nat p div 32 < word_count bm" using assms(3) by (simp add: div_less_iff_less_mult mult.commute)
  moreover from this have "find_last_loop bm (nat p div 32) (int (nat p mod 32)) = Inr r"
    using assms by (simp add: bitmap_find_last_contiguous_bit_def BITS_PER_WORD_def Let_def)
  ultimately show ?thesis
    using find_last_loop_spec [of bm "nat p div 32" "nat p mod 32" r] by simp
qed

lemma find_last_loop_total:
  "wf_bitmap bm \<Longrightarrow> \<exists>r. find_last_loop bm wi off = Inr r"
proof (induction "word_count bm - wi" arbitrary: wi off)
  case 0
  then show ?case by (simp add: find_last_loop.simps)
next
  case (Suc d)
  then obtain r where "find_last_loop bm (Suc wi) 0 = Inr r" by fastforce
  with Suc show ?case
    by (subst find_last_loop.simps) (auto simp: wf_bitmap_def Let_def)
qed

subsection \<open>Searching for a run of set bits\<close>

lemma search_progress:
  assumes "bitmap_find_first_set_bit bm p = Inr f" and "0 \<le> p" and "0 \<le> f"
    and "bitmap_find_last_contiguous_bit bm f = Inr l"
  shows "p \<le> f \<and> f \<le> l \<and> f < 32 * int (word_count bm)"
proof -
  have "first_spec (bm_get bm) (nat p) (32 * word_count bm) f"
    using assms(1,2) by (rule bitmap_find_first_set_bit_spec)
  then obtain k where k: "f = int k" "nat p \<le> k" "k < 32 * word_count bm" "bm_get bm k"
    using assms(3) unfolding first_spec_def by auto
  then have "run_spec (bm_get bm) k (32 * word_count bm) l"
    using bitmap_find_last_contiguous_bit_spec [OF assms(4)] by simp
  with k assms(2) show ?thesis unfolding run_spec_def by auto
qed

function find_set_bits_loop :: "bitmap \<Rightarrow> int \<Rightarrow> nat \<Rightarrow> int res" where
  "find_set_bits_loop bm first_bit_idx minlen =
     (if first_bit_idx < 0 then Inr (- 1)
      else bind_res (bitmap_find_first_set_bit bm first_bit_idx) (\<lambda>f.
        if f < 0 then Inr (- 1)
        else bind_res (bitmap_find_last_contiguous_bit bm f) (\<lambda>l.
          if minlen \<le> to_size (l - f + 1) then Inr f
          else find_set_bits_loop bm (l + 1) minlen)))"
  by pat_completeness auto
termination
proof (relation "measure (\<lambda>(bm, p, n). nat (32 * int (word_count bm) - p))")
  fix bm :: bitmap and p :: int and minlen :: nat and f l :: int
  assume "\<not> p < 0" "bitmap_find_first_set_bit bm p = Inr f" "\<not> f < 0"
    "bitmap_find_last_contiguous_bit bm f = Inr l"
  then have "p \<le> f \<and> f \<le> l \<and> f < 32 * int (word_count bm)"
    using search_progress [of bm p f l] by simp
  then show "((bm, l + 1, minlen), (bm, p, minlen))
      \<in> measure (\<lambda>(bm, p, n). nat (32 * int (word_count bm) - p))"
    by simp
qed simp

declare find_set_bits_loop.simps [simp del]

definition bitmap_find_set_bits :: "bitmap \<Rightarrow> int \<Rightarrow> nat \<Rightarrow> int res" where
  "bitmap_find_set_bits self startpos minlen =
     (if startpos < 0 then Inr (- 1) else find_set_bits_loop self startpos minlen)"

text \<open>The reference: a run of at least \<open>minlen\<close> set bits (and at least one) starts at \<open>q\<close>.\<close>

definition fits :: "bitmap \<Rightarrow> nat \<Rightarrow> nat \<Rightarrow> bool" where
  "fits bm minlen q \<longleftrightarrow> bm_get bm q \<and> (\<forall>j<minlen. bm_get bm (q + j))"

lemma find_set_bits_loop_spec:
  assumes "find_set_bits_loop bm p minlen = Inr r" and "0 \<le> p" and "wf_bitmap bm"
  shows "first_spec (fits bm minlen) (nat p) (32 * word_count bm) r"
  using assms
proof (induction bm p minlen rule: find_set_bits_loop.induct)
  case (1 bm p minlen)
  note unf = find_set_bits_loop.simps [of bm p minlen]
  from "1.prems"(1,2) obtain f where f: "bitmap_find_first_set_bit bm p = Inr f"
    by (auto simp: unf res_simps)
  let ?hi = "32 * word_count bm"
  have fs: "first_spec (bm_get bm) (nat p) ?hi f"
    using f "1.prems"(2) by (rule bitmap_find_first_set_bit_spec)
  show ?case
  proof (cases "f < 0")
    case True
    then have "r = - 1" using "1.prems"(1,2) f by (simp add: unf)
    moreover have "\<forall>k. nat p \<le> k \<and> k < ?hi \<longrightarrow> \<not> bm_get bm k"
      using fs True unfolding first_spec_def by auto
    ultimately show ?thesis unfolding first_spec_def fits_def by blast
  next
    case False
    with fs obtain a where a: "f = int a" "nat p \<le> a" "a < ?hi" "bm_get bm a"
        "\<forall>j. nat p \<le> j \<and> j < a \<longrightarrow> \<not> bm_get bm j"
      unfolding first_spec_def by auto
    from "1.prems"(1,2) f False obtain l where l: "bitmap_find_last_contiguous_bit bm f = Inr l"
      by (auto simp: unf res_simps)
    then have "run_spec (bm_get bm) a ?hi l"
      using bitmap_find_last_contiguous_bit_spec [OF l] a by simp
    then obtain b where b: "l = int b" "a \<le> b" "b < ?hi" "\<forall>j. a \<le> j \<and> j \<le> b \<longrightarrow> bm_get bm j"
        "b + 1 < ?hi \<longrightarrow> \<not> bm_get bm (b + 1)"
      using a(4) unfolding run_spec_def by auto
    have len: "to_size (l - f + 1) = b - a + 1"
    proof -
      have "l - f + 1 = int (b - a + 1)" using a(1) b(1,2) by simp
      moreover have "b - a + 1 < 2 ^ 32" using b(3) "1.prems"(3) by (auto simp: wf_bitmap_def)
      ultimately show ?thesis by (simp only: to_size_of_nat)
    qed
    have before: "\<not> fits bm minlen q" if "nat p \<le> q" "q < a" for q
      using a(5) that by (simp add: fits_def)
    show ?thesis
    proof (cases "minlen \<le> b - a + 1")
      case True
      then have "r = int a" using "1.prems"(1,2) f False l len a(1) by (simp add: unf)
      moreover have "fits bm minlen a"
        unfolding fits_def using a(4) b(2,4) True by simp
      ultimately show ?thesis
        unfolding first_spec_def using a(2,3) before by blast
    next
      case short: False
      then have rec: "find_set_bits_loop bm (l + 1) minlen = Inr r"
        using "1.prems"(1,2) f False l len by (simp add: unf)
      have "first_spec (fits bm minlen) (nat (l + 1)) ?hi r"
      proof (rule "1.IH" [OF _ f False l _ rec])
        show "\<not> p < 0" using "1.prems"(2) by simp
        show "\<not> minlen \<le> to_size (l - f + 1)" using short len by simp
      qed (use b(1) "1.prems"(3) in simp_all)
      moreover have "\<not> fits bm minlen q" if "nat p \<le> q" "q < nat (l + 1)" for q
      proof (cases "q < a")
        case True
        then show ?thesis using before that by blast
      next
        case False
        then have "q \<le> b" using that b(1) by auto
        then have "b + 1 - q < minlen" using False short b(2) by linarith
        moreover have "\<not> bm_get bm (q + (b + 1 - q))"
          using b(5) \<open>q \<le> b\<close> by (auto simp: bm_get_def)
        ultimately show ?thesis unfolding fits_def by blast
      qed
      moreover have "nat p \<le> nat (l + 1)" using a(2) b(1,2) by simp
      ultimately show ?thesis using first_spec_next_word by blast
    qed
  qed
qed

lemma find_totals:
  assumes "wf_bitmap bm"
  shows "\<exists>r. bitmap_find_first_set_bit bm p = Inr r" and
    "\<exists>r. bitmap_find_last_contiguous_bit bm p = Inr r"
  using assms
  by (simp_all add: bitmap_find_first_set_bit_def bitmap_find_last_contiguous_bit_def Let_def
      find_first_loop_total find_last_loop_total)

lemma find_set_bits_loop_total:
  "wf_bitmap bm \<Longrightarrow> \<exists>r. find_set_bits_loop bm p minlen = Inr r"
proof (induction bm p minlen rule: find_set_bits_loop.induct)
  case (1 bm p minlen)
  show ?case
  proof (cases "p < 0")
    case True
    then show ?thesis by (subst find_set_bits_loop.simps) simp
  next
    case False
    obtain f where f: "bitmap_find_first_set_bit bm p = Inr f"
      using find_totals(1) [OF "1.prems"] by blast
    obtain l where l: "bitmap_find_last_contiguous_bit bm f = Inr l"
      using find_totals(2) [OF "1.prems"] by blast
    show ?thesis
      using "1.IH" [OF False f _ l _ "1.prems"] False f l
      by (subst find_set_bits_loop.simps) auto
  qed
qed

subsection \<open>Reading and writing ranges of bits\<close>

text \<open>How many bits of the current word the range loops handle.\<close>

definition current_len :: "nat \<Rightarrow> nat \<Rightarrow> nat" where
  "current_len bitoffset remaininglen =
     (if BITS_PER_WORD < sz_add bitoffset remaininglen then BITS_PER_WORD - bitoffset
      else remaininglen)"

function are_bits_set_loop :: "bitmap \<Rightarrow> nat \<Rightarrow> nat \<Rightarrow> nat \<Rightarrow> bool res" where
  "are_bits_set_loop bm word_idx bitoffset remaininglen =
     (if remaininglen = 0 then Inr True
      else if word_count bm \<le> word_idx then Inr False
      else bind_res (load (words bm) word_idx) (\<lambda>w.
        if w = 0 then Inr False
        else let currentlen = current_len bitoffset remaininglen in
          bind_res (make_bitmask bitoffset currentlen) (\<lambda>mask.
            if w AND mask \<noteq> mask then Inr False
            else are_bits_set_loop bm (word_idx + 1) 0 (remaininglen - currentlen))))"
  by pat_completeness auto
termination
  by (relation "measure (\<lambda>(bm, i, off, n). word_count bm - i)") auto

definition bitmap_are_bits_set :: "bitmap \<Rightarrow> int \<Rightarrow> nat \<Rightarrow> bool res" where
  "bitmap_are_bits_set self offset len =
     (if offset < 0 \<or> len = 0 then Inr False
      else are_bits_set_loop self (to_size offset div BITS_PER_WORD)
             (to_size offset mod BITS_PER_WORD) len)"

text \<open>
  \<open>bitmap_set_bits\<close> and \<open>bitmap_clear_bits\<close> share their loop up to the operation on the
  word; \<open>upd\<close> is \<open>w | mask\<close> or \<open>w & ~mask\<close>.
\<close>

function update_bits_loop :: "(u32 \<Rightarrow> u32 \<Rightarrow> u32) \<Rightarrow> bitmap \<Rightarrow> nat \<Rightarrow> nat \<Rightarrow> nat \<Rightarrow> bitmap res" where
  "update_bits_loop upd bm word_idx bitoffset remaininglen =
     (if remaininglen = 0 then Inr bm
      else if word_count bm \<le> word_idx then Inr bm
      else let currentlen = current_len bitoffset remaininglen in
        bind_res (make_bitmask bitoffset currentlen) (\<lambda>mask.
        bind_res (load (words bm) word_idx) (\<lambda>w.
          update_bits_loop upd (bm\<lparr>words := (words bm)[word_idx := upd w mask]\<rparr>)
            (word_idx + 1) 0 (remaininglen - currentlen))))"
  by pat_completeness auto
termination
  by (relation "measure (\<lambda>(upd, bm, i, off, n). word_count bm - i)") auto

declare are_bits_set_loop.simps [simp del] update_bits_loop.simps [simp del]

definition bitmap_set_bits :: "bitmap \<Rightarrow> int \<Rightarrow> nat \<Rightarrow> bitmap res" where
  "bitmap_set_bits self offset len =
     (if len = 0 then Inr self
      else update_bits_loop (\<lambda>w mask. w OR mask) self (to_size offset div BITS_PER_WORD)
             (to_size offset mod BITS_PER_WORD) len)"

definition bitmap_clear_bits :: "bitmap \<Rightarrow> int \<Rightarrow> nat \<Rightarrow> bitmap res" where
  "bitmap_clear_bits self offset len =
     (if len = 0 then Inr self
      else update_bits_loop (\<lambda>w mask. w AND NOT mask) self (to_size offset div BITS_PER_WORD)
             (to_size offset mod BITS_PER_WORD) len)"

text \<open>
  The single-bit operations refuse an offset only when its word index is \<^emph>\<open>beyond\<close>
  \<open>word_count\<close>; the index \<open>word_count\<close> itself passes the check.
\<close>

definition bitmap_set_bit :: "bitmap \<Rightarrow> int \<Rightarrow> bitmap res" where
  "bitmap_set_bit self offset =
     (if offset < 0 \<or> word_count self < nat offset div BITS_PER_WORD then Inr self
      else bind_res (load (words self) (nat offset div BITS_PER_WORD)) (\<lambda>w.
        Inr (self\<lparr>words := (words self)[nat offset div BITS_PER_WORD :=
               w OR push_bit (nat offset mod BITS_PER_WORD) 1]\<rparr>)))"

definition bitmap_clear_bit :: "bitmap \<Rightarrow> int \<Rightarrow> bitmap res" where
  "bitmap_clear_bit self offset =
     (if offset < 0 \<or> word_count self < nat offset div BITS_PER_WORD then Inr self
      else bind_res (load (words self) (nat offset div BITS_PER_WORD)) (\<lambda>w.
        Inr (self\<lparr>words := (words self)[nat offset div BITS_PER_WORD :=
               w AND NOT (push_bit (nat offset mod BITS_PER_WORD) 1)]\<rparr>)))"

definition bitmap_is_bit_set :: "bitmap \<Rightarrow> int \<Rightarrow> bool res" where
  "bitmap_is_bit_set self offset =
     (if offset < 0 \<or> word_count self < nat offset div BITS_PER_WORD then Inr False
      else bind_res (load (words self) (nat offset div BITS_PER_WORD)) (\<lambda>w.
        Inr (w AND push_bit (nat offset mod BITS_PER_WORD) 1 \<noteq> 0)))"

subsection \<open>What the range and single-bit operations do to the set of bits\<close>

lemma make_bitmask_bits:
  assumes "0 < len" and "len \<le> 32" and "off < 32"
  shows "\<exists>mask. make_bitmask off len = Inr mask \<and>
    (\<forall>k<32. bit mask k \<longleftrightarrow> off \<le> k \<and> k < off + len)"
proof -
  have sub: "sz_sub BITS_PER_WORD len = 32 - len"
    using assms sz_sub_no_wrap [of len 32] by (simp add: BITS_PER_WORD_def)
  let ?m = "push_bit off (drop_bit (32 - len) WORD_ALL_ONES)"
  have "make_bitmask off len = Inr ?m"
    using assms by (simp add: make_bitmask_def sub)
  moreover have "bit ?m k \<longleftrightarrow> off \<le> k \<and> k < off + len" if "k < 32" for k
    using that assms by (auto simp: WORD_ALL_ONES_def bit_simps)
  ultimately show ?thesis by blast
qed

lemma current_len_value:
  assumes "off < 32" and "0 < n" and "off + n < 2 ^ 32"
  shows "current_len off n = min n (32 - off)"
  using assms by (auto simp: current_len_def sz_add_no_wrap BITS_PER_WORD_def min_def)

lemma bm_get_update:
  assumes "wi < length (words bm)"
  shows "bm_get (bm\<lparr>words := (words bm)[wi := x]\<rparr>) k \<longleftrightarrow>
    (if k div 32 = wi then k < 32 * word_count bm \<and> bit x (k mod 32) else bm_get bm k)"
  using assms by (auto simp: bm_get_def)

text \<open>
  One step of the range loops, as the set of positions the rest of the range covers:
  the part in the current word, then the range from the next word on.
\<close>

lemma range_split:
  fixes wi off n k :: nat
  assumes "off < 32"
  shows "wi * 32 + off \<le> k \<and> k < wi * 32 + off + n \<longleftrightarrow>
    (if k div 32 = wi then off \<le> k mod 32 \<and> k mod 32 < off + n
     else Suc wi * 32 \<le> k \<and> k < Suc wi * 32 + (n - min n (32 - off)))"
proof -
  have k: "k = k div 32 * 32 + k mod 32" "k mod 32 < 32" by simp_all
  show ?thesis
  proof (cases "k div 32 = wi")
    case True
    then have "k = wi * 32 + k mod 32" using k(1) by simp
    then show ?thesis using True by (metis add_le_cancel_left nat_add_left_cancel_less add.assoc)
  next
    case False
    then consider "k div 32 < wi" | "wi < k div 32" by linarith
    then show ?thesis
    proof cases
      case 1
      then have "k < wi * 32" by (simp add: div_less_iff_less_mult)
      then show ?thesis using False by auto
    next
      case 2
      then have "Suc wi * 32 \<le> k" by (metis Suc_leI less_eq_div_iff_mult_less_eq zero_less_numeral)
      then show ?thesis using False assms by (auto simp: min_def)
    qed
  qed
qed

lemma update_bits_loop_spec:
  assumes upd: "\<And>w m k. k < 32 \<Longrightarrow> bit (upd w m) k \<longleftrightarrow> (if bit m k then v else bit w k)"
    and "wf_bitmap bm" and "off < 32" and "off + n < 2 ^ 32"
  shows "\<exists>bm'. update_bits_loop upd bm wi off n = Inr bm' \<and> wf_bitmap bm' \<and>
    word_count bm' = word_count bm \<and>
    (\<forall>k<32 * word_count bm. bm_get bm' k \<longleftrightarrow>
       (if wi * 32 + off \<le> k \<and> k < wi * 32 + off + n then v else bm_get bm k))"
  using assms(2-4)
proof (induction "word_count bm - wi" arbitrary: bm wi off n)
  case 0
  have "\<not> (wi * 32 + off \<le> k \<and> k < wi * 32 + off + n)" if "k < 32 * word_count bm" for k
    using that 0 by auto
  with 0 show ?case by (subst update_bits_loop.simps) auto
next
  case (Suc d)
  show ?case
  proof (cases "n = 0")
    case True
    with Suc show ?thesis by (subst update_bits_loop.simps) auto
  next
    case False
    let ?c = "min n (32 - off)" and ?w = "words bm ! wi"
    have wi: "wi < word_count bm" using Suc.hyps(2) by simp
    with Suc.prems(1) have len: "wi < length (words bm)" by (simp add: wf_bitmap_def)
    have cur: "current_len off n = ?c"
      using current_len_value Suc.prems False by simp
    have c: "0 < ?c" "?c \<le> 32" using Suc.prems(2) False by auto
    obtain mask where mask: "make_bitmask off ?c = Inr mask"
        "\<forall>k<32. bit mask k \<longleftrightarrow> off \<le> k \<and> k < off + ?c"
      using make_bitmask_bits [OF c Suc.prems(2)] by blast
    let ?bm = "bm\<lparr>words := (words bm)[wi := upd ?w mask]\<rparr>"
    have "wf_bitmap ?bm" "d = word_count ?bm - Suc wi" "0 + (n - ?c) < 2 ^ 32"
      using Suc.prems Suc.hyps(2) by (auto simp: wf_bitmap_def)
    then obtain bm' where IH: "update_bits_loop upd ?bm (Suc wi) 0 (n - ?c) = Inr bm'"
        "wf_bitmap bm'" "word_count bm' = word_count bm"
        "\<forall>k<32 * word_count bm. bm_get bm' k \<longleftrightarrow>
           (if Suc wi * 32 + 0 \<le> k \<and> k < Suc wi * 32 + 0 + (n - ?c) then v else bm_get ?bm k)"
      using Suc.hyps(1) [of ?bm "Suc wi" 0 "n - ?c"] by auto
    have step: "update_bits_loop upd bm wi off n = Inr bm'"
      using IH(1) mask(1) wi len False
      by (subst update_bits_loop.simps) (simp add: cur Let_def)
    have "bm_get bm' k \<longleftrightarrow> (if wi * 32 + off \<le> k \<and> k < wi * 32 + off + n then v else bm_get bm k)"
      if k: "k < 32 * word_count bm" for k
    proof (cases "k div 32 = wi")
      case True
      then have "\<not> Suc wi * 32 \<le> k"
        using div_less_iff_less_mult [of 32 k "Suc wi"] by simp
      then have "bm_get bm' k \<longleftrightarrow> bit (upd ?w mask) (k mod 32)"
        using IH(4) k bm_get_update [OF len, of "upd ?w mask" k] True by simp
      also have "\<dots> \<longleftrightarrow> (if bit mask (k mod 32) then v else bit ?w (k mod 32))"
        by (rule upd) simp
      also have "bit mask (k mod 32) \<longleftrightarrow> off \<le> k mod 32 \<and> k mod 32 < off + ?c"
        using mask(2) by simp
      also have "\<dots> \<longleftrightarrow> wi * 32 + off \<le> k \<and> k < wi * 32 + off + n"
        using range_split [OF Suc.prems(2), of wi k n] True by (auto simp: min_def)
      also have "bit ?w (k mod 32) \<longleftrightarrow> bm_get bm k"
        using True k len by (simp add: bm_get_def)
      finally show ?thesis .
    next
      case False
      then show ?thesis
        using IH(4) k bm_get_update [OF len, of "upd ?w mask" k]
          range_split [OF Suc.prems(2), of wi k n] by simp
    qed
    with step IH show ?thesis by blast
  qed
qed

lemma are_bits_set_loop_spec:
  assumes "wf_bitmap bm" and "off < 32" and "off + n < 2 ^ 32"
  shows "are_bits_set_loop bm wi off n =
    Inr (\<forall>k. wi * 32 + off \<le> k \<and> k < wi * 32 + off + n \<longrightarrow> bm_get bm k)"
  using assms
proof (induction "word_count bm - wi" arbitrary: wi off n)
  case 0
  then show ?case
    by (subst are_bits_set_loop.simps) (auto simp: bm_get_def intro!: exI [of _ "wi * 32 + off"])
next
  case (Suc d)
  show ?case
  proof (cases "n = 0")
    case True
    then show ?thesis by (subst are_bits_set_loop.simps) auto
  next
    case False
    let ?c = "min n (32 - off)" and ?w = "words bm ! wi"
    have wi: "wi < word_count bm" using Suc.hyps(2) by simp
    with Suc.prems(1) have len: "wi < length (words bm)" by (simp add: wf_bitmap_def)
    have c: "0 < ?c" "?c \<le> 32" using Suc.prems(2) False by auto
    obtain mask where mask: "make_bitmask off ?c = Inr mask"
        "\<forall>k<32. bit mask k \<longleftrightarrow> off \<le> k \<and> k < off + ?c"
      using make_bitmask_bits [OF c Suc.prems(2)] by blast
    have IH: "are_bits_set_loop bm (Suc wi) 0 (n - ?c) =
        Inr (\<forall>k. Suc wi * 32 + 0 \<le> k \<and> k < Suc wi * 32 + 0 + (n - ?c) \<longrightarrow> bm_get bm k)"
      using Suc.hyps Suc.prems by (intro Suc.hyps(1)) auto
    have here: "?w AND mask = mask \<longleftrightarrow> (\<forall>j. off \<le> j \<and> j < off + ?c \<longrightarrow> bit ?w j)"
    proof -
      have "?w AND mask = mask \<longleftrightarrow> (\<forall>j<32. bit mask j \<longrightarrow> bit ?w j)"
        by (auto simp: bit_eq_iff bit_and_iff)
      also have "\<dots> \<longleftrightarrow> (\<forall>j. off \<le> j \<and> j < off + ?c \<longrightarrow> bit ?w j)"
        using mask(2) Suc.prems(2) by auto
      finally show ?thesis .
    qed
    have get: "bm_get bm k \<longleftrightarrow> bit ?w (k mod 32)" if "k div 32 = wi" for k
      using that wi len by (auto simp: bm_get_def) 
    have all: "(\<forall>k. wi * 32 + off \<le> k \<and> k < wi * 32 + off + n \<longrightarrow> bm_get bm k) \<longleftrightarrow>
        ?w AND mask = mask \<and>
        (\<forall>k. Suc wi * 32 + 0 \<le> k \<and> k < Suc wi * 32 + 0 + (n - ?c) \<longrightarrow> bm_get bm k)"
      (is "?L \<longleftrightarrow> ?A \<and> ?B")
    proof
      assume L: ?L
      have "bit ?w j" if "off \<le> j" "j < off + ?c" for j
        using L [rule_format, of "wi * 32 + j"] get [of "wi * 32 + j"] that Suc.prems(2) by auto
      moreover have "wi * 32 + off \<le> k \<and> k < wi * 32 + off + n"
        if "Suc wi * 32 + 0 \<le> k" "k < Suc wi * 32 + 0 + (n - ?c)" for k
        using that Suc.prems(2) by (auto simp: min_def split: if_splits)
      ultimately show "?A \<and> ?B" using L here by blast
    next
      assume R: "?A \<and> ?B"
      show ?L
      proof (intro allI impI)
        fix k assume k: "wi * 32 + off \<le> k \<and> k < wi * 32 + off + n"
        show "bm_get bm k"
          using k R here get [of k] range_split [OF Suc.prems(2), of wi k n]
          by (cases "k div 32 = wi") auto
      qed
    qed
    have "bit mask off" using mask(2) c(1) Suc.prems(2) by simp
    then have zero: "?w = 0 \<Longrightarrow> ?w AND mask \<noteq> mask" by auto
    have "current_len off n = ?c" using current_len_value Suc.prems False by simp
    then show ?thesis
      unfolding all using IH mask(1) wi len False zero
      by (subst are_bits_set_loop.simps) (auto simp: Let_def)
  qed
qed

lemma to_size_split:
  assumes "n < 2 ^ 32"
  shows "to_size (int n) div 32 * 32 + to_size (int n) mod 32 = n"
  using assms by (simp add: to_size_of_nat)

lemma or_mask_bit: "bit (w OR m) k \<longleftrightarrow> (if bit m k then True else bit (w :: u32) k)"
  by (auto simp: bit_or_iff)

lemma andnot_mask_bit: "k < 32 \<Longrightarrow> bit (w AND NOT m) k \<longleftrightarrow> (if bit m k then False else bit (w :: u32) k)"
  by (auto simp: bit_and_iff bit_not_iff)

lemma range_update_spec:
  assumes "\<And>w m k. k < 32 \<Longrightarrow> bit (upd w m) k \<longleftrightarrow> (if bit m k then v else bit w k)"
    and "wf_bitmap bm" and "n + len < 2 ^ 32"
  shows "\<exists>bm'. update_bits_loop upd bm (to_size (int n) div BITS_PER_WORD)
      (to_size (int n) mod BITS_PER_WORD) len = Inr bm' \<and> wf_bitmap bm' \<and>
    word_count bm' = word_count bm \<and>
    (\<forall>k<32 * word_count bm. bm_get bm' k \<longleftrightarrow> (if n \<le> k \<and> k < n + len then v else bm_get bm k))"
proof -
  have n: "to_size (int n) = n" using assms(3) by (simp add: to_size_of_nat)
  have "n mod 32 + len < 2 ^ 32"
    using assms(3) mod_less_eq_dividend [of n 32] by linarith
  then show ?thesis
    using update_bits_loop_spec [of upd v bm "n mod 32" len "n div 32"] assms(1,2)
    by (simp add: n BITS_PER_WORD_def)
qed

definition bm_set :: "bitmap \<Rightarrow> nat \<Rightarrow> bitmap" where
  "bm_set bm n = bm\<lparr>words := (words bm)[n div 32 := words bm ! (n div 32) OR push_bit (n mod 32) 1]\<rparr>"

definition bm_clear :: "bitmap \<Rightarrow> nat \<Rightarrow> bitmap" where
  "bm_clear bm n =
     bm\<lparr>words := (words bm)[n div 32 := words bm ! (n div 32) AND NOT (push_bit (n mod 32) 1)]\<rparr>"

lemma single_bit_in_range:
  assumes "wf_bitmap bm" and "n < 32 * word_count bm"
  shows "n div 32 < length (words bm)" and "\<not> word_count bm < n div 32"
  using assms by (auto simp: wf_bitmap_def div_less_iff_less_mult mult.commute)

lemma bitmap_set_bit_eq:
  "wf_bitmap bm \<Longrightarrow> n < 32 * word_count bm \<Longrightarrow> bitmap_set_bit bm (int n) = Inr (bm_set bm n)"
  using single_bit_in_range [of bm n]
  by (simp add: bitmap_set_bit_def bm_set_def BITS_PER_WORD_def)

lemma bitmap_clear_bit_eq:
  "wf_bitmap bm \<Longrightarrow> n < 32 * word_count bm \<Longrightarrow> bitmap_clear_bit bm (int n) = Inr (bm_clear bm n)"
  using single_bit_in_range [of bm n]
  by (simp add: bitmap_clear_bit_def bm_clear_def BITS_PER_WORD_def)

lemma bit_single: "bit (2 ^ j :: u32) k \<longleftrightarrow> k = j \<and> k < 32"
  by (auto simp: bit_simps)

lemma and_single: "(w :: u32) AND 2 ^ j \<noteq> 0 \<longleftrightarrow> j < 32 \<and> bit w j"
proof -
  have "w AND 2 ^ j \<noteq> 0 \<longleftrightarrow> (\<exists>k<32. bit w k \<and> bit (2 ^ j :: u32) k)"
    by (auto simp: bit_eq_iff bit_and_iff)
  then show ?thesis by (auto simp: bit_single)
qed

lemma bitmap_is_bit_set_eq:
  "wf_bitmap bm \<Longrightarrow> n < 32 * word_count bm \<Longrightarrow> bitmap_is_bit_set bm (int n) = Inr (bm_get bm n)"
  using single_bit_in_range [of bm n]
  by (simp add: bitmap_is_bit_set_def bm_get_def BITS_PER_WORD_def and_single)

lemma bm_shape [simp]:
  "word_count (bm_set bm n) = word_count bm" "word_count (bm_clear bm n) = word_count bm"
  "wf_bitmap (bm_set bm n) \<longleftrightarrow> wf_bitmap bm" "wf_bitmap (bm_clear bm n) \<longleftrightarrow> wf_bitmap bm"
  by (simp_all add: bm_set_def bm_clear_def wf_bitmap_def)

lemma bm_get_set:
  assumes "wf_bitmap bm" and "n < 32 * word_count bm"
  shows "bm_get (bm_set bm n) k \<longleftrightarrow> k = n \<or> bm_get bm k"
proof (cases "k div 32 = n div 32")
  case True
  then have "k = n \<longleftrightarrow> k mod 32 = n mod 32" by (metis div_mult_mod_eq)
  moreover have "k < 32 * word_count bm"
    using assms(2) True single_bit_in_range(1) [OF assms] assms(1)
    by (metis div_less_iff_less_mult mult.commute wf_bitmap_def zero_less_numeral)
  ultimately show ?thesis
    unfolding bm_set_def
    using bm_get_update [OF single_bit_in_range(1) [OF assms]] True single_bit_in_range(1) [OF assms]
    by (auto simp: bit_or_iff bit_single bm_get_def)
next
  case False
  then show ?thesis
    unfolding bm_set_def using bm_get_update [OF single_bit_in_range(1) [OF assms]] by auto
qed

lemma bm_get_clear:
  assumes "wf_bitmap bm" and "n < 32 * word_count bm"
  shows "bm_get (bm_clear bm n) k \<longleftrightarrow> k \<noteq> n \<and> bm_get bm k"
proof (cases "k div 32 = n div 32")
  case True
  then have "k = n \<longleftrightarrow> k mod 32 = n mod 32" by (metis div_mult_mod_eq)
  then show ?thesis
    unfolding bm_clear_def
    using bm_get_update [OF single_bit_in_range(1) [OF assms]] True single_bit_in_range(1) [OF assms]
    by (auto simp: bit_and_iff bit_not_iff bit_single bm_get_def)
next
  case False
  then show ?thesis
    unfolding bm_clear_def using bm_get_update [OF single_bit_in_range(1) [OF assms]] by auto
qed

subsection \<open>The interface the allocators rely on\<close>

text \<open>
  A store of numbered flags, as the page allocator, the heap and the commit bitmaps of
  the virtual memory manager use it: flags can be set, cleared and tested one by one, and
  the first set flag at or after a position can be found.
\<close>

locale flag_store =
  fixes inv :: "'s \<Rightarrow> bool"
    and capacity :: "'s \<Rightarrow> nat"
    and flag :: "'s \<Rightarrow> nat \<Rightarrow> bool"
    and set_flag :: "'s \<Rightarrow> int \<Rightarrow> 's res"
    and clear_flag :: "'s \<Rightarrow> int \<Rightarrow> 's res"
    and test_flag :: "'s \<Rightarrow> int \<Rightarrow> bool res"
    and find_flag :: "'s \<Rightarrow> int \<Rightarrow> nat \<Rightarrow> int res"
  assumes set_flag: "inv s \<Longrightarrow> n < capacity s \<Longrightarrow>
      \<exists>s'. set_flag s (int n) = Inr s' \<and> inv s' \<and> capacity s' = capacity s \<and>
        (\<forall>k. flag s' k \<longleftrightarrow> k = n \<or> flag s k)"
    and clear_flag: "inv s \<Longrightarrow> n < capacity s \<Longrightarrow>
      \<exists>s'. clear_flag s (int n) = Inr s' \<and> inv s' \<and> capacity s' = capacity s \<and>
        (\<forall>k. flag s' k \<longleftrightarrow> k \<noteq> n \<and> flag s k)"
    and test_flag: "inv s \<Longrightarrow> n < capacity s \<Longrightarrow> test_flag s (int n) = Inr (flag s n)"
    and find_flag: "inv s \<Longrightarrow>
      \<exists>r. find_flag s (int n) 1 = Inr r \<and> first_spec (flag s) n (capacity s) r"
begin

lemma move_flag:
  assumes "inv s" and "m < capacity s" and "n < capacity s"
  shows "\<exists>s'. bind_res (clear_flag s (int m)) (\<lambda>s. set_flag s (int n)) = Inr s' \<and> inv s' \<and>
    capacity s' = capacity s \<and> (\<forall>k. flag s' k \<longleftrightarrow> k = n \<or> (k \<noteq> m \<and> flag s k))"
proof -
  obtain t where t: "clear_flag s (int m) = Inr t" "inv t" "capacity t = capacity s"
      "\<forall>k. flag t k \<longleftrightarrow> k \<noteq> m \<and> flag s k"
    using clear_flag [OF assms(1,2)] by blast
  obtain s' where "set_flag t (int n) = Inr s'" "inv s'" "capacity s' = capacity t"
      "\<forall>k. flag s' k \<longleftrightarrow> k = n \<or> flag t k"
    using set_flag [OF t(2), of n] assms(3) t(3) by auto
  with t show ?thesis by auto
qed

lemma set_then_test:
  assumes "inv s" and "n < capacity s" and "set_flag s (int n) = Inr s'"
  shows "test_flag s' (int n) = Inr True"
  using set_flag [OF assms(1,2)] assms test_flag by auto

lemma find_in_range:
  assumes "inv s" and "find_flag s (int lo) 1 = Inr r" and "hi \<le> capacity s"
  shows "0 \<le> r \<and> r < int hi \<longleftrightarrow> (\<exists>k. lo \<le> k \<and> k < hi \<and> flag s k)"
    and "0 \<le> r \<Longrightarrow> flag s (nat r) \<and> lo \<le> nat r"
proof -
  have f: "first_spec (flag s) lo (capacity s) r"
    using find_flag [OF assms(1), of lo] assms(2) by auto
  show "0 \<le> r \<and> r < int hi \<longleftrightarrow> (\<exists>k. lo \<le> k \<and> k < hi \<and> flag s k)"
  proof
    assume "0 \<le> r \<and> r < int hi"
    then show "\<exists>k. lo \<le> k \<and> k < hi \<and> flag s k" using f unfolding first_spec_def by auto
  next
    assume "\<exists>k. lo \<le> k \<and> k < hi \<and> flag s k"
    then obtain k where "lo \<le> k" "k < hi" "flag s k" by blast
    then show "0 \<le> r \<and> r < int hi"
      using f assms(3) unfolding first_spec_def 
      by (metis le_less_trans less_le_trans not_less of_nat_0_le_iff of_nat_less_iff)
  qed
  show "0 \<le> r \<Longrightarrow> flag s (nat r) \<and> lo \<le> nat r" using f unfolding first_spec_def by auto
qed

end

lemma bitmap_find_set_bits_spec:
  assumes "wf_bitmap bm" and "0 \<le> p"
  shows "\<exists>r. bitmap_find_set_bits bm p minlen = Inr r \<and>
    first_spec (fits bm minlen) (nat p) (32 * word_count bm) r"
proof -
  obtain r where r: "find_set_bits_loop bm p minlen = Inr r"
    using find_set_bits_loop_total [OF assms(1)] by blast
  with find_set_bits_loop_spec [OF r assms(2,1)] assms(2) show ?thesis
    by (simp add: bitmap_find_set_bits_def)
qed

lemma fits_one: "fits bm 1 = bm_get bm"
  by (auto simp: fits_def)

interpretation bm: flag_store wf_bitmap "\<lambda>bm. 32 * word_count bm" bm_get
  bitmap_set_bit bitmap_clear_bit bitmap_is_bit_set bitmap_find_set_bits
proof unfold_locales
  fix bm :: bitmap and n :: nat
  assume bm: "wf_bitmap bm" "n < 32 * word_count bm"
  show "\<exists>s'. bitmap_set_bit bm (int n) = Inr s' \<and> wf_bitmap s' \<and>
      32 * word_count s' = 32 * word_count bm \<and> (\<forall>k. bm_get s' k \<longleftrightarrow> k = n \<or> bm_get bm k)"
    using bm by (simp add: bitmap_set_bit_eq bm_get_set)
  show "\<exists>s'. bitmap_clear_bit bm (int n) = Inr s' \<and> wf_bitmap s' \<and>
      32 * word_count s' = 32 * word_count bm \<and> (\<forall>k. bm_get s' k \<longleftrightarrow> k \<noteq> n \<and> bm_get bm k)"
    using bm by (simp add: bitmap_clear_bit_eq bm_get_clear)
  show "bitmap_is_bit_set bm (int n) = Inr (bm_get bm n)"
    using bm by (rule bitmap_is_bit_set_eq)
next
  fix bm :: bitmap and n :: nat
  assume "wf_bitmap bm"
  then show "\<exists>r. bitmap_find_set_bits bm (int n) 1 = Inr r \<and>
      first_spec (bm_get bm) n (32 * word_count bm) r"
    using bitmap_find_set_bits_spec [of bm "int n" 1] by (simp only: fits_one) simp
qed

subsection \<open>Properties\<close>

text \<open>
  Claim C16: on a well-formed bitmap \<open>bitmap_find_set_bits\<close> always returns, and what it
  returns is the first fit: the least position at or after the start from which
  \<open>minlen\<close> consecutive bits are set, or \<open>-1\<close> when there is none.
\<close>

theorem find_set_bits_first_fit:
  assumes "wf_bitmap bm" and "0 \<le> p" and "0 < minlen"
  shows "\<exists>r. bitmap_find_set_bits bm p minlen = Inr r \<and>
    (r = - 1 \<and> (\<nexists>q. nat p \<le> q \<and> (\<forall>j<minlen. bm_get bm (q + j))) \<or>
     (\<exists>q. r = int q \<and> nat p \<le> q \<and> (\<forall>j<minlen. bm_get bm (q + j)) \<and>
          (\<forall>q'. nat p \<le> q' \<and> q' < q \<longrightarrow> \<not> (\<forall>j<minlen. bm_get bm (q' + j)))))"
proof -
  have fits: "fits bm minlen q \<longleftrightarrow> (\<forall>j<minlen. bm_get bm (q + j))" for q
    using assms(3) by (auto simp: fits_def dest: spec [of _ 0])
  have "q < 32 * word_count bm" if "\<forall>j<minlen. bm_get bm (q + j)" for q
    using that assms(3) by (auto simp: bm_get_def)
  with bitmap_find_set_bits_spec [OF assms(1,2), of minlen] show ?thesis
    unfolding first_spec_def fits by blast
qed

theorem find_set_bits_first_fit_witness:
  "\<exists>r. bitmap_find_set_bits \<lparr>words = [12], word_count = 1\<rparr> 0 2 = Inr r \<and>
    (r = - 1 \<and> (\<nexists>q. nat 0 \<le> q \<and> (\<forall>j<2. bm_get \<lparr>words = [12], word_count = 1\<rparr> (q + j))) \<or>
     (\<exists>q. r = int q \<and> nat 0 \<le> q \<and> (\<forall>j<2. bm_get \<lparr>words = [12], word_count = 1\<rparr> (q + j)) \<and>
          (\<forall>q'. nat 0 \<le> q' \<and> q' < q \<longrightarrow>
             \<not> (\<forall>j<2. bm_get \<lparr>words = [12], word_count = 1\<rparr> (q' + j)))))"
  by (rule find_set_bits_first_fit) (simp_all add: wf_bitmap_def)

text \<open>
  The range operations work on exactly the bits of their range: setting or
  clearing \<open>len\<close> bits from \<open>n\<close> never faults and changes those bits (as far as they exist)
  and no others, and \<open>bitmap_are_bits_set\<close> answers whether all of them are set.
\<close>

lemma range_operations_exact:
  assumes "wf_bitmap bm" and "n + len < 2 ^ 31" and "0 < len"
  shows "\<exists>s c. bitmap_set_bits bm (int n) len = Inr s \<and> bitmap_clear_bits bm (int n) len = Inr c \<and>
    wf_bitmap s \<and> wf_bitmap c \<and>
    (\<forall>k<32 * word_count bm. bm_get s k \<longleftrightarrow> n \<le> k \<and> k < n + len \<or> bm_get bm k) \<and>
    (\<forall>k<32 * word_count bm. bm_get c k \<longleftrightarrow> \<not> (n \<le> k \<and> k < n + len) \<and> bm_get bm k) \<and>
    bitmap_are_bits_set bm (int n) len = Inr (\<forall>k. n \<le> k \<and> k < n + len \<longrightarrow> bm_get bm k)"
proof -
  have lt: "n + len < 2 ^ 32" using assms(2) by simp
  obtain s where s: "bitmap_set_bits bm (int n) len = Inr s" "wf_bitmap s"
      "\<forall>k<32 * word_count bm. bm_get s k \<longleftrightarrow> (if n \<le> k \<and> k < n + len then True else bm_get bm k)"
    using range_update_spec [OF or_mask_bit assms(1) lt] assms(3) by (auto simp: bitmap_set_bits_def)
  obtain c where c: "bitmap_clear_bits bm (int n) len = Inr c" "wf_bitmap c"
      "\<forall>k<32 * word_count bm. bm_get c k \<longleftrightarrow> (if n \<le> k \<and> k < n + len then False else bm_get bm k)"
    using range_update_spec [OF andnot_mask_bit assms(1) lt] assms(3) by (auto simp: bitmap_clear_bits_def)
  have "n mod 32 + len < 2 ^ 32" using lt mod_less_eq_dividend [of n 32] by linarith
  then have "bitmap_are_bits_set bm (int n) len = Inr (\<forall>k. n \<le> k \<and> k < n + len \<longrightarrow> bm_get bm k)"
    using are_bits_set_loop_spec [of bm "n mod 32" len "n div 32"] assms lt
    by (simp add: bitmap_are_bits_set_def BITS_PER_WORD_def to_size_of_nat)
  with s c show ?thesis by auto
qed

text \<open>
  The bound check of the single-bit operations is off by one: for every offset
  in the word right after the bitmap's last one, setting, clearing and testing the bit
  access the array out of bounds, while one word further they are refused.
\<close>

lemma single_bit_past_end:
  assumes "wf_bitmap bm" and "32 * word_count bm \<le> n" and "n < 32 * word_count bm + 32"
  shows "bitmap_set_bit bm (int n) = Inl Out_of_bounds \<and>
    bitmap_clear_bit bm (int n) = Inl Out_of_bounds \<and>
    bitmap_is_bit_set bm (int n) = Inl Out_of_bounds \<and>
    bitmap_set_bit bm (int (n + 32)) = Inr bm"
proof -
  have "n div 32 = word_count bm" "(n + 32) div 32 = word_count bm + 1"
    using assms(2,3) by auto
  then show ?thesis
    using assms(1) by (simp add: bitmap_set_bit_def bitmap_clear_bit_def bitmap_is_bit_set_def
        BITS_PER_WORD_def wf_bitmap_def nat_int_add)
qed

end
