(* ===== verification/Buddy.thy ===== *)
theory Buddy
  imports Prelude
begin

text \<open>
  The abstract specification of the physical page allocator: sets of blocks of a buddy
  system. A pool of \<open>2 ^ L\<close> pages has levels \<open>0 .. L\<close>; block \<open>b\<close> of level \<open>l\<close> is the pair
  \<open>(l, b)\<close> with \<open>b < 2 ^ l\<close> and covers the \<open>2 ^ (L - l)\<close> pages whose number divided by
  \<open>2 ^ (L - l)\<close> is \<open>b\<close>. The state of a pool is the set of its available blocks.
\<close>

type_synonym block = "nat \<times> nat"

definition block_at :: "nat \<Rightarrow> nat \<Rightarrow> nat \<Rightarrow> block" where
  "block_at L p l = (l, p div 2 ^ (L - l))"

definition pages :: "nat \<Rightarrow> block \<Rightarrow> nat set" where
  "pages L B = {p. p < 2 ^ L \<and> p div 2 ^ (L - fst B) = snd B}"

definition valid_block :: "nat \<Rightarrow> block \<Rightarrow> bool" where
  "valid_block L B \<longleftrightarrow> fst B \<le> L \<and> snd B < 2 ^ fst B"

definition free_pages :: "nat \<Rightarrow> block set \<Rightarrow> nat set" where
  "free_pages L S = (\<Union>B\<in>S. pages L B)"

text \<open>
  The invariant: only valid blocks, no page in two available blocks, and no two
  available halves of one block.
\<close>

definition no_overlap :: "nat \<Rightarrow> block set \<Rightarrow> bool" where
  "no_overlap L S \<longleftrightarrow> (\<forall>B\<in>S. \<forall>C\<in>S. B \<noteq> C \<longrightarrow> pages L B \<inter> pages L C = {})"

definition coalesced :: "block set \<Rightarrow> bool" where
  "coalesced S \<longleftrightarrow> (\<forall>l b. \<not> ((Suc l, 2 * b) \<in> S \<and> (Suc l, 2 * b + 1) \<in> S))"

definition buddy_inv :: "nat \<Rightarrow> block set \<Rightarrow> bool" where
  "buddy_inv L S \<longleftrightarrow> (\<forall>B\<in>S. valid_block L B) \<and> no_overlap L S \<and> coalesced S"

lemma pages_interval:
  assumes "valid_block L (l, b)"
  shows "pages L (l, b) = {b * 2 ^ (L - l) ..< (b + 1) * 2 ^ (L - l)}"
proof -
  have l: "l \<le> L" and b: "b < 2 ^ l" using assms by (auto simp: valid_block_def)
  have "(b + 1) * 2 ^ (L - l) \<le> 2 ^ l * 2 ^ (L - l)" using b by (intro mult_right_mono) auto
  also have "\<dots> = 2 ^ L" using l by (simp flip: power_add)
  finally have le: "(b + 1) * 2 ^ (L - l) \<le> 2 ^ L" .
  have "p div 2 ^ (L - l) = b \<longleftrightarrow> b * 2 ^ (L - l) \<le> p \<and> p < (b + 1) * 2 ^ (L - l)" for p
    by (rule div_eq_range) simp
  moreover have "p < 2 ^ L" if "p < (b + 1) * 2 ^ (L - l)" for p
    using that le by (rule less_le_trans)
  ultimately show ?thesis
    unfolding pages_def fst_conv snd_conv atLeastLessThan_def lessThan_def atLeast_def by blast
qed

lemma pages_nonempty: "valid_block L B \<Longrightarrow> \<exists>p. p \<in> pages L B"
  by (cases B) (auto simp: pages_interval)

lemma pages_inject:
  assumes "pages L A = pages L B" and "valid_block L A" and "valid_block L B"
  shows "A = B"
proof -
  obtain l b m c where AB: "A = (l, b)" "B = (m, c)" by (cases A, cases B)
  let ?k = "2 ^ (L - l) :: nat" and ?j = "2 ^ (L - m) :: nat"
  have "{b * ?k ..< (b + 1) * ?k} = {c * ?j ..< (c + 1) * ?j}"
    using assms by (simp add: AB pages_interval)
  moreover have "b * ?k < (b + 1) * ?k" "c * ?j < (c + 1) * ?j" by simp_all
  ultimately have *: "b * ?k = c * ?j" "(b + 1) * ?k = (c + 1) * ?j"
    by (simp_all only: atLeastLessThan_inj)
  then have "?k = ?j" by (simp add: algebra_simps)
  then have "L - l = L - m" by simp
  then have "l = m" using assms(2,3) by (auto simp: AB valid_block_def)
  with * show ?thesis by (simp add: AB)
qed

lemma div_div_power2:
  assumes "Suc l \<le> L"
  shows "(p :: nat) div 2 ^ (L - l) = p div 2 ^ (L - Suc l) div 2"
proof -
  have "L - l = Suc (L - Suc l)" using assms by simp
  then show ?thesis by (simp add: div_mult2_eq mult.commute [of 2])
qed

lemma pages_halves:
  assumes "Suc l \<le> L"
  shows "pages L (l, b) = pages L (Suc l, 2 * b) \<union> pages L (Suc l, 2 * b + 1)"
    and "pages L (Suc l, 2 * b) \<inter> pages L (Suc l, 2 * b + 1) = {}"
  using div_div_power2 [OF assms] assms by (auto simp: pages_def)

lemma valid_halves:
  "Suc l \<le> L \<Longrightarrow> valid_block L (l, b) \<Longrightarrow>
     valid_block L (Suc l, 2 * b) \<and> valid_block L (Suc l, 2 * b + 1)"
  by (auto simp: valid_block_def)

lemma no_overlapD:
  "no_overlap L S \<Longrightarrow> B \<in> S \<Longrightarrow> C \<in> S \<Longrightarrow> p \<in> pages L B \<Longrightarrow> p \<in> pages L C \<Longrightarrow> B = C"
  by (auto simp: no_overlap_def)

lemma no_overlap_insert:
  assumes "B \<notin> S"
  shows "no_overlap L (insert B S) \<longleftrightarrow> no_overlap L S \<and> pages L B \<inter> free_pages L S = {}"
proof
  assume *: "no_overlap L (insert B S)"
  then show "no_overlap L S \<and> pages L B \<inter> free_pages L S = {}"
    using assms by (auto simp: no_overlap_def free_pages_def)
next
  assume *: "no_overlap L S \<and> pages L B \<inter> free_pages L S = {}"
  then have "pages L B \<inter> pages L C = {}" if "C \<in> S" for C
    using that by (auto simp: free_pages_def)
  with * show "no_overlap L (insert B S)"
    unfolding no_overlap_def by (simp add: Int_commute)
qed

lemma free_pages_insert: "free_pages L (insert B S) = pages L B \<union> free_pages L S"
  by (auto simp: free_pages_def)

lemma free_pages_bound: "p \<in> free_pages L S \<Longrightarrow> p < 2 ^ L"
  by (auto simp: free_pages_def pages_def)

lemma parent_not_in:
  assumes "no_overlap L (insert (l, b) S)" and "(l, b) \<notin> S" and "valid_block L (l, b)" and "Suc l \<le> L"
  shows "(Suc l, 2 * b) \<notin> S" and "(Suc l, 2 * b + 1) \<notin> S"
proof -
  have "C \<notin> S" if "C = (Suc l, 2 * b) \<or> C = (Suc l, 2 * b + 1)" for C
  proof
    assume "C \<in> S"
    have "valid_block L C" using valid_halves [OF assms(4,3)] that by blast
    then obtain p where "p \<in> pages L C" using pages_nonempty by blast
    moreover from this have "p \<in> pages L (l, b)" using pages_halves(1) [OF assms(4)] that by auto
    ultimately show False
      using assms(1,2) \<open>C \<in> S\<close> by (auto simp: no_overlap_def)
  qed
  then show "(Suc l, 2 * b) \<notin> S" and "(Suc l, 2 * b + 1) \<notin> S" by blast+
qed

text \<open>
  Splitting and merging: a held block \<open>(l, b)\<close> outside \<open>S\<close> may be replaced by its first
  half when the second half goes into \<open>S\<close>, and back.
\<close>

lemma split_block:
  assumes "no_overlap L (insert (l, b) S)" and "(l, b) \<notin> S" and "coalesced S"
    and "valid_block L (l, b)" and "Suc l \<le> L"
  defines "S' \<equiv> insert (Suc l, 2 * b + 1) S"
  shows "no_overlap L (insert (Suc l, 2 * b) S')" and "(Suc l, 2 * b) \<notin> S'" and "coalesced S'"
    and "free_pages L (insert (Suc l, 2 * b) S') = free_pages L (insert (l, b) S)"
proof -
  note out = parent_not_in [OF assms(1,2,4,5)] and halves = pages_halves [OF assms(5), of b]
  show nin: "(Suc l, 2 * b) \<notin> S'" using out by (simp add: S'_def)
  show "no_overlap L (insert (Suc l, 2 * b) S')"
    using assms(1,2) out halves nin
    by (simp add: S'_def no_overlap_insert free_pages_insert) blast
  show "free_pages L (insert (Suc l, 2 * b) S') = free_pages L (insert (l, b) S)"
    using halves by (simp add: S'_def free_pages_insert) blast
  show "coalesced S'"
    unfolding coalesced_def
  proof (intro allI notI)
    fix m c assume both: "(Suc m, 2 * c) \<in> S' \<and> (Suc m, 2 * c + 1) \<in> S'"
    have "2 * c \<noteq> 2 * b + 1" by presburger
    then have "(Suc m, 2 * c) \<in> S" using both by (auto simp: S'_def)
    moreover have "(Suc m, 2 * c + 1) \<in> S \<or> m = l \<and> c = b" using both by (auto simp: S'_def)
    ultimately show False using assms(3) out by (auto simp: coalesced_def)
  qed
qed

text \<open>The other half of a block's parent.\<close>

definition neighbor :: "nat \<Rightarrow> nat" where
  "neighbor b = (if even b then b + 1 else b - 1)"

lemma merge_block:
  assumes "no_overlap L (insert (Suc l, b) S)" and "(Suc l, b) \<notin> S" and "coalesced S"
    and "(Suc l, b') \<in> S" and "b' = neighbor b" and "Suc l \<le> L"
    and "\<forall>B\<in>insert (Suc l, b) S. valid_block L B"
  defines "S' \<equiv> S - {(Suc l, b')}"
  shows "no_overlap L (insert (l, b div 2) S')" and "(l, b div 2) \<notin> S'" and "coalesced S'"
    and "free_pages L (insert (l, b div 2) S') = free_pages L (insert (Suc l, b) S)"
    and "\<forall>B\<in>insert (l, b div 2) S'. valid_block L B"
proof -
  have S: "S = insert (Suc l, b') S'" using assms(4) by (auto simp: S'_def)
  have S'b: "(Suc l, b') \<notin> S'" by (simp add: S'_def)
  have un: "pages L (l, b div 2) = pages L (Suc l, b) \<union> pages L (Suc l, b')"
    using pages_halves(1) [OF assms(6), of "b div 2"] assms(5)
    by (cases "even b") (auto simp: neighbor_def even_two_times_div_two odd_two_times_div_two_succ Un_commute)
  have dj: "no_overlap L S" "pages L (Suc l, b) \<inter> free_pages L S = {}"
    using assms(1,2) by (simp_all add: no_overlap_insert)
  then have dj': "no_overlap L S'" "pages L (Suc l, b') \<inter> free_pages L S' = {}"
    unfolding S using S'b by (simp_all add: no_overlap_insert)
  have pg: "pages L (l, b div 2) \<inter> free_pages L S' = {}"
    using un dj(2) dj'(2) unfolding S free_pages_insert by blast
  have v: "valid_block L (l, b div 2)" using assms(7) by (auto simp: valid_block_def)
  show out: "(l, b div 2) \<notin> S'"
  proof
    assume "(l, b div 2) \<in> S'"
    moreover obtain p where "p \<in> pages L (l, b div 2)" using pages_nonempty v by blast
    ultimately show False using pg by (auto simp: free_pages_def)
  qed
  show "no_overlap L (insert (l, b div 2) S')" using out dj' pg by (simp add: no_overlap_insert)
  show "coalesced S'" using assms(3) by (auto simp: S'_def coalesced_def)
  show "free_pages L (insert (l, b div 2) S') = free_pages L (insert (Suc l, b) S)"
    unfolding S by (simp add: free_pages_insert un Un_assoc)
  show "\<forall>B\<in>insert (l, b div 2) S'. valid_block L B" using v assms(7) by (auto simp: S'_def)
qed

text \<open>
  In a coalesced pool a block whose pages are all free lies inside an available block:
  an allocation that finds no available block at its level or a lower one is right to fail.
\<close>

lemma covered_by_ancestor:
  assumes "buddy_inv L S" and "valid_block L (l, b)" and "pages L (l, b) \<subseteq> free_pages L S"
  shows "\<exists>m\<le>l. (m, b div 2 ^ (l - m)) \<in> S"
  using assms(2,3)
proof (induction "L - l" arbitrary: l b)
  case 0
  then have [simp]: "l = L" by (simp add: valid_block_def)
  with 0 have "b \<in> free_pages L S" by (auto simp: pages_def valid_block_def)
  then obtain m c where m: "(m, c) \<in> S" "b \<in> pages L (m, c)" by (auto simp: free_pages_def)
  then have "m \<le> L" using assms(1) by (auto simp: buddy_inv_def valid_block_def)
  with m show ?case by (auto simp: pages_def)
next
  case (Suc d)
  then have l: "Suc l \<le> L" by simp
  have half: "\<exists>m\<le>Suc l. (m, c div 2 ^ (Suc l - m)) \<in> S" if "c = 2 * b \<or> c = 2 * b + 1" for c
    using that pages_halves(1) [OF l, of b] valid_halves [OF l Suc.prems(1)] Suc.prems(2) Suc.hyps(2)
    by (intro Suc.hyps(1)) auto
  have up: "(m, b div 2 ^ (l - m)) \<in> S"
    if "(m, c div 2 ^ (Suc l - m)) \<in> S" "c = 2 * b \<or> c = 2 * b + 1" "m \<le> l" for m c
  proof -
    have "c div 2 ^ (Suc l - m) = c div 2 div 2 ^ (l - m)"
      using that(3) by (simp add: Suc_diff_le div_mult2_eq)
    with that show ?thesis by auto
  qed
  from half [of "2 * b"] half [of "2 * b + 1"] obtain m n where
    "m \<le> Suc l" "(m, (2 * b) div 2 ^ (Suc l - m)) \<in> S"
    "n \<le> Suc l" "(n, (2 * b + 1) div 2 ^ (Suc l - n)) \<in> S" by auto
  moreover have "\<not> (m = Suc l \<and> n = Suc l)"
    using calculation assms(1) by (auto simp: buddy_inv_def coalesced_def)
  ultimately show ?case using up le_Suc_eq by metis
qed

lemma neighbor_valid: "valid_block L (Suc l, b) \<Longrightarrow> valid_block L (Suc l, neighbor b)"
  by (auto simp: valid_block_def neighbor_def elim!: evenE)

lemma coalesced_insert:
  assumes "coalesced S" and "l = 0 \<or> (l, neighbor b) \<notin> S"
  shows "coalesced (insert (l, b) S)"
  unfolding coalesced_def
proof (intro allI notI, elim conjE)
  fix m c assume "(Suc m, 2 * c) \<in> insert (l, b) S" and "(Suc m, 2 * c + 1) \<in> insert (l, b) S"
  moreover have "2 * c \<noteq> 2 * c + 1" by simp
  ultimately consider "(Suc m, 2 * c) \<in> S" "(Suc m, 2 * c + 1) \<in> S"
    | "l = Suc m" "b = 2 * c" "(Suc m, 2 * c + 1) \<in> S"
    | "l = Suc m" "b = 2 * c + 1" "(Suc m, 2 * c) \<in> S"
    by auto
  then show False
    using assms by cases (auto simp: coalesced_def neighbor_def)
qed

text \<open>
  Coalesced sets are canonical: the free pages determine the available blocks.
\<close>

lemma ancestor_pages:
  assumes "m \<le> l" and "l \<le> L"
  shows "pages L (l, b) \<subseteq> pages L (m, b div 2 ^ (l - m))"
proof -
  have "L - m = (L - l) + (l - m)" using assms by simp
  then have "p div 2 ^ (L - m) = p div 2 ^ (L - l) div 2 ^ (l - m)" for p :: nat
    by (simp add: power_add div_mult2_eq)
  then show ?thesis by (auto simp: pages_def)
qed

lemma buddy_subset:
  assumes "buddy_inv L S" and "buddy_inv L T" and "free_pages L S = free_pages L T"
  shows "S \<subseteq> T"
proof
  fix B assume B: "B \<in> S"
  obtain l b where lb: "B = (l, b)" by (cases B)
  have cover: "\<exists>A\<in>Y. pages L C \<subseteq> pages L A" if "buddy_inv L X" "buddy_inv L Y" "C \<in> X"
      "free_pages L X = free_pages L Y" for X Y C
  proof -
    obtain m c where C: "C = (m, c)" by (cases C)
    have v: "valid_block L (m, c)" using that(1,3) C by (auto simp: buddy_inv_def)
    have "pages L (m, c) \<subseteq> free_pages L Y" using that(3,4) C by (auto simp: free_pages_def)
    from covered_by_ancestor [OF that(2) v this] obtain k where
      "k \<le> m" "(k, c div 2 ^ (m - k)) \<in> Y" by blast
    then show ?thesis using ancestor_pages [of k m L c] v C by (auto simp: valid_block_def)
  qed
  obtain A where A: "A \<in> T" "pages L B \<subseteq> pages L A" using cover [OF assms(1,2) B assms(3)] by blast
  obtain C where C: "C \<in> S" "pages L A \<subseteq> pages L C" using cover [OF assms(2,1) A(1)] assms(3) by auto
  obtain p where "p \<in> pages L B"
    using assms(1) B pages_nonempty [of L B] by (auto simp: buddy_inv_def)
  then have "B = C" using A(2) C B assms(1) no_overlapD [of L S B C p] by (auto simp: buddy_inv_def)
  with A C have "pages L A = pages L B" by blast
  moreover have "valid_block L A" "valid_block L B" using assms A B by (auto simp: buddy_inv_def)
  ultimately have "A = B" by (rule pages_inject)
  with A show "B \<in> T" by simp
qed

end
