(* ===== verification/Pmm.thy ===== *)
theory Pmm
  imports Bitmap Buddy
begin

text \<open>
  The physical memory manager (kernel/mem/pmm.c): a list of page pools, each a buddy system
  whose available blocks are the set bits of a bitmap. Block \<open>b\<close> of level \<open>l\<close> is bit
  \<open>2 ^ l - 1 + b\<close>. The list \<open>s_firstpool\<close> is a HOL list, its head the first pool.

  The C code holds bit indices in \<open>long\<close>; the model keeps them in \<^typ>\<open>int\<close> without
  wrap-around, as \<open>wf_bitmap\<close> keeps every index below \<open>2 ^ 31\<close>. The interrupt lock taken by
  \<open>pmm_alloc\<close> and \<open>pmm_free\<close> makes each call one step. \<open>CONFIG_TEST_POOL\<close> is false, so the
  sequential pool test is not part of \<open>pmm_register_mem\<close>.
\<close>

definition ARCH_PAGESIZE :: nat where
  "ARCH_PAGESIZE = 4096"

definition PHYSICALPTR_NULL :: nat where
  "PHYSICALPTR_NULL = 0"

record pagepool =
  pool_bitmap :: bitmap
  base_addr :: nat
  page_count :: nat
  level_count :: u8

subsection \<open>Operations\<close>

text \<open>The result is (page count, level count, bit count).\<close>

function calc_sizes_loop :: "nat \<Rightarrow> nat \<Rightarrow> nat \<Rightarrow> nat \<Rightarrow> nat \<times> nat \<times> nat" where
  "calc_sizes_loop current result levels bits =
     (if 1 < current
      then calc_sizes_loop (current div 2) (result * 2) (levels + 1) (sz_add bits current)
      else (result, levels, bits))"
  by pat_completeness auto
termination by (relation "measure (\<lambda>(c, _). c)") auto

declare calc_sizes_loop.simps [simp del]

definition calculate_pagepool_sizes :: "nat \<Rightarrow> nat \<times> nat \<times> nat" where
  "calculate_pagepool_sizes n = calc_sizes_loop n 1 1 1"

function level_range_loop :: "nat \<Rightarrow> nat \<Rightarrow> int \<Rightarrow> int \<Rightarrow> int \<times> int" where
  "level_range_loop currentlevel level bitoffset blockinlevel =
     (if currentlevel < level
      then level_range_loop (currentlevel + 1) level (bitoffset + blockinlevel) (blockinlevel * 2)
      else (bitoffset, bitoffset + blockinlevel - 1))"
  by pat_completeness auto
termination by (relation "measure (\<lambda>(c, l, _). l - c)") auto

declare level_range_loop.simps [simp del]

definition bit_indices_range_for_level :: "nat \<Rightarrow> int \<times> int" where
  "bit_indices_range_for_level level = level_range_loop 0 level 0 1"

definition bit_index_for_pagepool_block :: "nat \<Rightarrow> nat \<Rightarrow> int res" where
  "bit_index_for_pagepool_block level block =
     (case bit_indices_range_for_level level of (start, end) \<Rightarrow>
        bind_res (assert_res (block < to_size (end - start + 1))) (\<lambda>_.
        Inr (start + int block)))"

function pool_level_loop :: "nat \<Rightarrow> nat \<Rightarrow> nat \<Rightarrow> nat" where
  "pool_level_loop sz sizeperblock currentlevel =
     (if sz < sizeperblock then pool_level_loop sz (sizeperblock div 2) (currentlevel + 1)
      else currentlevel)"
  by pat_completeness auto
termination by (relation "measure (\<lambda>(_, s, _). s)") auto

declare pool_level_loop.simps [simp del]

definition block_size_to_pagepool_level :: "pagepool \<Rightarrow> nat \<Rightarrow> nat" where
  "block_size_to_pagepool_level pool sz = pool_level_loop sz (page_count pool) 0"

text \<open>
  Rounding a page count up to a power of two. The loop starts at 1; the guard on 0 only
  makes the function total. \<open>None\<close> is the exit taken when doubling would overflow.
\<close>

function round_block_size :: "nat \<Rightarrow> nat \<Rightarrow> nat option" where
  "round_block_size block_size n =
     (if block_size \<noteq> 0 \<and> block_size < n
      then if size_max div 2 < block_size then None else round_block_size (block_size * 2) n
      else Some block_size)"
  by pat_completeness auto
termination by (relation "measure (\<lambda>(b, n). n - b)") auto

declare round_block_size.simps [simp del]

fun find_level_loop :: "bitmap \<Rightarrow> nat \<Rightarrow> (nat \<times> nat) option res" where
  "find_level_loop bm found_level =
     (case bit_indices_range_for_level found_level of (bit_start, bit_end) \<Rightarrow>
        bind_res (bitmap_find_set_bits bm bit_start 1) (\<lambda>found_at.
        if 0 \<le> found_at \<and> found_at \<le> bit_end
        then Inr (Some (found_level, to_size (found_at - bit_start)))
        else if found_level = 0 then Inr None
        else find_level_loop bm (found_level - 1)))"

declare find_level_loop.simps [simp del]

function split_loop :: "bitmap \<Rightarrow> nat \<Rightarrow> nat \<Rightarrow> nat \<Rightarrow> (bitmap \<times> nat) res" where
  "split_loop bm currentlevel wanted_level block_index =
     (if currentlevel < wanted_level
      then bind_res (bit_index_for_pagepool_block currentlevel block_index) (\<lambda>bit_index.
           bind_res (bitmap_clear_bit bm bit_index) (\<lambda>bm.
           bind_res (bit_index_for_pagepool_block (currentlevel + 1) (block_index * 2 + 1)) (\<lambda>bit_index.
           bind_res (bitmap_set_bit bm bit_index) (\<lambda>bm.
           split_loop bm (currentlevel + 1) wanted_level (block_index * 2)))))
      else Inr (bm, block_index))"
  by pat_completeness auto
termination by (relation "measure (\<lambda>(_, c, w, _). w - c)") auto

declare split_loop.simps [simp del]

text \<open>The result is the pool, the address (0 for failure) and the updated page count.\<close>

definition alloc_from_pool :: "pagepool \<Rightarrow> nat \<Rightarrow> (pagepool \<times> nat \<times> nat) res" where
  "alloc_from_pool pool n =
     bind_res (assert_res (n \<noteq> 0)) (\<lambda>_.
     case round_block_size 1 n of
       None \<Rightarrow> Inr (pool, PHYSICALPTR_NULL, n)
     | Some block_size \<Rightarrow>
         if page_count pool < block_size then Inr (pool, PHYSICALPTR_NULL, n)
         else
           (let wanted_level = block_size_to_pagepool_level pool block_size in
            bind_res (find_level_loop (pool_bitmap pool) wanted_level) (\<lambda>found.
            case found of
              None \<Rightarrow> Inr (pool, PHYSICALPTR_NULL, block_size)
            | Some (found_level, found_block_index) \<Rightarrow>
                bind_res (split_loop (pool_bitmap pool) found_level wanted_level found_block_index)
                  (\<lambda>(bm, current_block_index).
                bind_res (bit_index_for_pagepool_block wanted_level current_block_index) (\<lambda>bit_index.
                bind_res (bitmap_clear_bit bm bit_index) (\<lambda>bm.
                Inr (pool\<lparr>pool_bitmap := bm\<rparr>,
                     sz_add (base_addr pool)
                       (sz_mul (sz_mul block_size current_block_index) ARCH_PAGESIZE),
                     block_size)))))))"

fun free_loop :: "bitmap \<Rightarrow> nat \<Rightarrow> nat \<Rightarrow> bitmap res" where
  "free_loop bm current_level current_block_index =
     bind_res (bit_index_for_pagepool_block current_level current_block_index) (\<lambda>bit_index.
     bind_res (bitmap_is_bit_set bm bit_index) (\<lambda>already.
     if already then Inl Panic
     else
       bind_res (bitmap_set_bit bm bit_index) (\<lambda>bm.
       if current_level = 0 then Inr bm
       else
         (let neighbor_bit_index =
                if current_block_index mod 2 = 0 then bit_index + 1 else bit_index - 1 in
          bind_res (bitmap_is_bit_set bm neighbor_bit_index) (\<lambda>neighbor.
          if \<not> neighbor then Inr bm
          else
            bind_res (bitmap_clear_bit bm bit_index) (\<lambda>bm.
            bind_res (bitmap_clear_bit bm neighbor_bit_index) (\<lambda>bm.
            free_loop bm (current_level - 1) (current_block_index div 2))))))))"

declare free_loop.simps [simp del]

definition free_from_pool :: "pagepool \<Rightarrow> nat \<Rightarrow> nat \<Rightarrow> pagepool res" where
  "free_from_pool pool ptr n =
     (if ptr = 0 then Inr pool
      else if ptr < base_addr pool \<or>
          sz_add (base_addr pool) (sz_mul ARCH_PAGESIZE (page_count pool))
            < sz_add ptr (sz_mul ARCH_PAGESIZE n)
      then Inl Panic
      else
        case round_block_size 1 n of
          None \<Rightarrow> Inl Panic
        | Some block_size \<Rightarrow>
            if page_count pool < block_size then Inl Panic
            else
              (let blk = sz_mul block_size ARCH_PAGESIZE;
                   current_block_index = (ptr - base_addr pool) div blk;
                   current_level = block_size_to_pagepool_level pool block_size in
               bind_res (assert_res ((ptr - base_addr pool) mod blk = 0)) (\<lambda>_.
               bind_res (free_loop (pool_bitmap pool) current_level current_block_index) (\<lambda>bm.
               Inr (pool\<lparr>pool_bitmap := bm\<rparr>)))))"

text \<open>
  \<open>pmm_register_mem\<close> takes its metadata from the kernel heap. \<open>heap_ok\<close> tells which metadata
  sizes \<open>heap_alloc\<close> can serve. A failed allocation makes the C loop run again with nothing
  changed, so it never ends: the value \<open>Hang\<close>. 24 is \<open>sizeof(struct pagepool)\<close> on i586.
\<close>

definition new_pool :: "nat \<Rightarrow> nat \<Rightarrow> nat \<Rightarrow> pagepool" where
  "new_pool nwords base n =
     \<lparr>pool_bitmap = \<lparr>words = replicate nwords 0, word_count = nwords\<rparr>,
      base_addr = base, page_count = n, level_count = 0\<rparr>"

lemma calc_sizes_loop_count:
  assumes "0 < n"
  shows "\<exists>k levels' bits'. calc_sizes_loop n r levels bits = (r * 2 ^ k, levels', bits') \<and>
    2 ^ k \<le> n \<and> n < 2 ^ Suc k"
  using assms
proof (induction n r levels bits rule: calc_sizes_loop.induct)
  case (1 n r levels bits)
  show ?case
  proof (cases "1 < n")
    case True
    then obtain k levels' bits' where k: "calc_sizes_loop (n div 2) (r * 2) (levels + 1) (sz_add bits n)
        = (r * 2 * 2 ^ k, levels', bits')" "2 ^ k \<le> n div 2" "n div 2 < 2 ^ Suc k"
      using 1 by auto
    then have "calc_sizes_loop n r levels bits = (r * 2 ^ Suc k, levels', bits')"
      using True by (simp add: calc_sizes_loop.simps [of n])
    moreover have "2 ^ Suc k \<le> n \<and> n < 2 ^ Suc (Suc k)" using k(2,3) by auto
    ultimately show ?thesis by blast
  next
    case False
    then have "calc_sizes_loop n r levels bits = (r * 2 ^ 0, levels, bits) \<and> 2 ^ 0 \<le> n \<and> n < 2 ^ Suc 0"
      using "1.prems" by (simp add: calc_sizes_loop.simps [of n])
    then show ?thesis by blast
  qed
qed

lemma pagepool_size_pos:
  assumes "calculate_pagepool_sizes n = (c, levels, bits)" and "0 < n"
  shows "0 < c" and "c \<le> n"
  using assms calc_sizes_loop_count [OF assms(2), of 1 1 1]
  by (auto simp: calculate_pagepool_sizes_def)

function register_loop :: "(nat \<Rightarrow> bool) \<Rightarrow> pagepool list \<Rightarrow> nat \<Rightarrow> nat \<Rightarrow> pagepool list res" where
  "register_loop heap_ok pools current_baseaddress remaining =
     (if remaining = 0 then Inr pools
      else
        (case calculate_pagepool_sizes remaining of (poolpage_count, levels, bit_count) \<Rightarrow>
           bind_res (bitmap_needed_word_count bit_count) (\<lambda>nwords.
           let metadatasize = sz_add (sz_mul nwords 4) 24 in
           if \<not> heap_ok metadatasize then Inl Hang
           else
             (let pool = new_pool nwords current_baseaddress poolpage_count in
              bind_res (assert_res (base_addr pool mod ARCH_PAGESIZE = 0)) (\<lambda>_.
              bind_res (bitmap_set_bit (pool_bitmap pool) 0) (\<lambda>bm.
              register_loop heap_ok (pool\<lparr>pool_bitmap := bm\<rparr> # pools)
                (sz_add current_baseaddress (sz_mul ARCH_PAGESIZE poolpage_count))
                (remaining - poolpage_count)))))))"
  by pat_completeness auto
termination
proof (relation "measure (\<lambda>(_, _, _, r). r)", goal_cases)
  case (2 heap_ok pools base remaining c p levels bits)
  then show ?case using pagepool_size_pos [of remaining c levels bits] by simp
qed simp

declare register_loop.simps [simp del]

definition pmm_register_mem :: "(nat \<Rightarrow> bool) \<Rightarrow> pagepool list \<Rightarrow> nat \<Rightarrow> nat \<Rightarrow> pagepool list res" where
  "pmm_register_mem heap_ok pools base n =
     bind_res (assert_res (base \<noteq> 0)) (\<lambda>_. register_loop heap_ok pools base n)"

fun pmm_alloc_loop :: "pagepool list \<Rightarrow> nat \<Rightarrow> (pagepool list \<times> nat \<times> nat) res" where
  "pmm_alloc_loop [] n = Inr ([], PHYSICALPTR_NULL, n)"
| "pmm_alloc_loop (pool # pools) n =
     bind_res (alloc_from_pool pool n) (\<lambda>(pool', result, newpage_count).
     if result \<noteq> PHYSICALPTR_NULL then Inr (pool' # pools, result, newpage_count)
     else bind_res (pmm_alloc_loop pools n) (\<lambda>(pools', r). Inr (pool' # pools', r)))"

definition pmm_alloc :: "pagepool list \<Rightarrow> nat \<Rightarrow> (pagepool list \<times> nat \<times> nat) res" where
  "pmm_alloc pools n = bind_res (assert_res (n \<noteq> 0)) (\<lambda>_. pmm_alloc_loop pools n)"

fun pmm_free_loop :: "pagepool list \<Rightarrow> nat \<Rightarrow> nat \<Rightarrow> pagepool list res" where
  "pmm_free_loop [] ptr n = Inl Panic"
| "pmm_free_loop (pool # pools) ptr n =
     (let pool_data_start = base_addr pool;
          pool_data_end = sz_add pool_data_start (sz_sub (sz_mul ARCH_PAGESIZE (page_count pool)) 1) in
      if ptr < pool_data_start \<or> pool_data_end < ptr
      then bind_res (pmm_free_loop pools ptr n) (\<lambda>pools'. Inr (pool # pools'))
      else
        (let end = sz_add ptr (sz_sub (sz_mul ARCH_PAGESIZE n) 1) in
         if end \<le> pool_data_start \<or> pool_data_end < end then Inl Panic
         else bind_res (free_from_pool pool ptr n) (\<lambda>pool'. Inr (pool' # pools))))"

definition pmm_free :: "pagepool list \<Rightarrow> nat \<Rightarrow> nat \<Rightarrow> pagepool list res" where
  "pmm_free pools ptr n = (if ptr = 0 \<or> n = 0 then Inr pools else pmm_free_loop pools ptr n)"

definition pmm_get_total_mem_size :: "pagepool list \<Rightarrow> nat res" where
  "pmm_get_total_mem_size pools =
     (let n = fold (\<lambda>pool n. sz_add n (page_count pool)) pools 0 in
      bind_res (assert_res (n \<le> size_max div ARCH_PAGESIZE)) (\<lambda>_. Inr (sz_mul n ARCH_PAGESIZE)))"

subsection \<open>Levels, bit indices and the set of available blocks\<close>

definition bit_of :: "nat \<Rightarrow> nat \<Rightarrow> nat" where
  "bit_of l b = 2 ^ l - 1 + b"

definition avail :: "nat \<Rightarrow> bitmap \<Rightarrow> block set" where
  "avail L bm = {(l, b). l \<le> L \<and> b < 2 ^ l \<and> bm_get bm (bit_of l b)}"

definition pool_bits :: "nat \<Rightarrow> bitmap \<Rightarrow> bool" where
  "pool_bits L bm \<longleftrightarrow> wf_bitmap bm \<and> 2 ^ Suc L - 1 \<le> 32 * word_count bm"

lemma level_range_loop_eq:
  "c \<le> l \<Longrightarrow> level_range_loop c l off k = (off + k * (2 ^ (l - c) - 1), off + k * (2 ^ Suc (l - c) - 1) - 1)"
proof (induction "l - c" arbitrary: c off k)
  case 0
  then show ?case by (simp add: level_range_loop.simps [of c])
next
  case (Suc n)
  then have "level_range_loop (c + 1) l (off + k) (k * 2) =
      (off + k + k * 2 * (2 ^ (l - (c + 1)) - 1), off + k + k * 2 * (2 ^ Suc (l - (c + 1)) - 1) - 1)"
    by (intro Suc.hyps) auto
  moreover have "l - c = Suc (l - (c + 1))" using Suc.hyps(2) by simp
  moreover have "c < l" using Suc.hyps(2) by simp
  ultimately show ?case
    by (simp add: level_range_loop.simps [of c] algebra_simps)
qed

lemma bit_of_int: "int (bit_of l b) = 2 ^ l - 1 + int b"
proof -
  have "(1::nat) \<le> 2 ^ l" by simp
  then show ?thesis unfolding bit_of_def by (simp only: of_nat_add of_nat_diff) simp
qed

lemma bit_of_Suc: "Suc (bit_of l b) = 2 ^ l + b"
  by (simp add: bit_of_def)

lemma level_range: "bit_indices_range_for_level l = (int (bit_of l 0), int (bit_of l (2 ^ l - 1)))"
  by (simp add: bit_indices_range_for_level_def level_range_loop_eq bit_of_int of_nat_diff)

lemma pool_bits_level: "pool_bits L bm \<Longrightarrow> L \<le> 30"
proof (rule ccontr)
  assume "pool_bits L bm" and "\<not> L \<le> 30"
  then have "(2::nat) ^ 32 \<le> 2 ^ Suc L" by (intro power_increasing) auto
  moreover have "32 * word_count bm < 2 ^ 31" and "(2::nat) ^ Suc L - 1 \<le> 32 * word_count bm"
    using \<open>pool_bits L bm\<close> by (auto simp: pool_bits_def wf_bitmap_def)
  ultimately show False by simp
qed

lemma block_bit_index:
  assumes "valid_block L (l, b)" and "L \<le> 30"
  shows "bit_index_for_pagepool_block l b = Inr (int (bit_of l b))"
proof -
  have "(2::int) ^ l \<le> 2 ^ 30" using assms by (intro power_increasing) (auto simp: valid_block_def)
  then have "to_size (2 ^ l) = 2 ^ l" by (simp add: to_size_def nat_power_eq)
  moreover have "int (bit_of l (2 ^ l - 1)) - int (bit_of l 0) + 1 = 2 ^ l"
    by (simp add: bit_of_int of_nat_diff)
  ultimately show ?thesis
    using assms(1) by (simp add: bit_index_for_pagepool_block_def level_range valid_block_def bit_of_int)
qed

lemma bit_of_range:
  assumes "valid_block L (l, b)" and "pool_bits L bm"
  shows "bit_of l b < 32 * word_count bm"
proof -
  have "(2::nat) ^ l \<le> 2 ^ L" using assms(1) by (intro power_increasing) (auto simp: valid_block_def)
  moreover have "Suc (bit_of l b) < 2 ^ l + 2 ^ l" using assms(1) by (simp add: bit_of_Suc valid_block_def)
  moreover have "2 ^ L + 2 ^ L \<le> Suc (32 * word_count bm)"
    using assms(2) by (auto simp: pool_bits_def)
  ultimately show ?thesis by linarith
qed

lemma bit_of_inject:
  assumes "b < 2 ^ l" and "c < 2 ^ m"
  shows "bit_of l b = bit_of m c \<longleftrightarrow> l = m \<and> b = c"
proof -
  have *: "l \<le> m" if "(2::nat) ^ l + b = 2 ^ m + c" "b < 2 ^ l" "c < 2 ^ m" for l m b c
  proof (rule ccontr)
    assume "\<not> l \<le> m"
    then have "(2::nat) ^ Suc m \<le> 2 ^ l" by (intro power_increasing) auto
    with that show False by simp
  qed
  have "bit_of l b = bit_of m c \<longleftrightarrow> 2 ^ l + b = 2 ^ m + c"
    by (metis bit_of_Suc nat.inject)
  then show ?thesis using *[of l b m c] *[of m c l b] assms by auto
qed

lemma avail_valid: "B \<in> avail L bm \<Longrightarrow> valid_block L B"
  by (auto simp: avail_def valid_block_def)

lemma avail_iff: "valid_block L (l, b) \<Longrightarrow> (l, b) \<in> avail L bm \<longleftrightarrow> bm_get bm (bit_of l b)"
  by (auto simp: avail_def valid_block_def)

lemma avail_set:
  assumes "pool_bits L bm" and "valid_block L (l, b)"
  shows "avail L (bm_set bm (bit_of l b)) = insert (l, b) (avail L bm)"
  using assms bit_of_range [OF assms(2,1)]
  by (auto simp: avail_def bm_get_set pool_bits_def valid_block_def bit_of_inject)

lemma avail_clear:
  assumes "pool_bits L bm" and "valid_block L (l, b)"
  shows "avail L (bm_clear bm (bit_of l b)) = avail L bm - {(l, b)}"
  using assms bit_of_range [OF assms(2,1)]
  by (auto simp: avail_def bm_get_clear pool_bits_def valid_block_def bit_of_inject)

lemma pool_bits_update [simp]:
  "pool_bits L (bm_set bm n) \<longleftrightarrow> pool_bits L bm" "pool_bits L (bm_clear bm n) \<longleftrightarrow> pool_bits L bm"
  by (simp_all add: pool_bits_def)

text \<open>One bit of a block through the interface of the bitmap.\<close>

lemma block_ops:
  assumes "pool_bits L bm" and "valid_block L (l, b)"
  shows "bitmap_set_bit bm (int (bit_of l b)) = Inr (bm_set bm (bit_of l b))"
    and "bitmap_clear_bit bm (int (bit_of l b)) = Inr (bm_clear bm (bit_of l b))"
    and "bitmap_is_bit_set bm (int (bit_of l b)) = Inr ((l, b) \<in> avail L bm)"
  using assms bit_of_range [OF assms(2,1)]
  by (simp_all add: bitmap_set_bit_eq bitmap_clear_bit_eq bitmap_is_bit_set_eq pool_bits_def avail_iff)

subsection \<open>The loops\<close>

lemma round_block_size_spec:
  assumes "0 < n" and "n < 2 ^ 32" and "k \<le> 31" and "k = 0 \<or> 2 ^ (k - 1) < n"
  shows "(\<exists>j. round_block_size (2 ^ k) n = Some (2 ^ j) \<and> k \<le> j \<and> j \<le> 31 \<and> n \<le> 2 ^ j \<and> (j = 0 \<or> 2 ^ (j - 1) < n))
    \<or> (round_block_size (2 ^ k) n = None \<and> 2 ^ 31 < n)"
  using assms(3,4)
proof (induction "31 - k" arbitrary: k)
  case 0
  then have k: "k = 31" by simp
  show ?case
  proof (cases "n \<le> 2 ^ 31")
    case True
    then have "round_block_size (2 ^ k) n = Some (2 ^ k)" by (simp add: k round_block_size.simps)
    moreover have "n \<le> 2 ^ k" using True by (simp only: k)
    ultimately show ?thesis using 0(2,3) by blast
  next
    case False
    then show ?thesis by (simp add: k round_block_size.simps [of _ n] size_max_def)
  qed
next
  case (Suc d)
  show ?case
  proof (cases "2 ^ k < n")
    case True
    have "(2::nat) ^ k \<le> 2 ^ 30" using Suc.hyps(2) by (intro power_increasing) auto
    then have "round_block_size (2 ^ k) n = round_block_size (2 ^ Suc k) n"
      using True by (simp add: round_block_size.simps [of "2 ^ k"] size_max_def mult.commute)
    moreover have "(\<exists>j. round_block_size (2 ^ Suc k) n = Some (2 ^ j) \<and> Suc k \<le> j \<and> j \<le> 31 \<and> n \<le> 2 ^ j \<and> (j = 0 \<or> 2 ^ (j - 1) < n))
        \<or> (round_block_size (2 ^ Suc k) n = None \<and> 2 ^ 31 < n)"
      using Suc.hyps True by (intro Suc.hyps(1)) auto
    ultimately show ?thesis using Suc_leD by metis
  next
    case False
    then have "round_block_size (2 ^ k) n = Some (2 ^ k)" by (simp add: round_block_size.simps)
    with False Suc.prems show ?thesis by auto
  qed
qed

text \<open>The order of the block an allocation of \<open>n\<close> pages gets: the least \<open>j\<close> with \<open>n \<le> 2 ^ j\<close>.\<close>

definition block_order :: "nat \<Rightarrow> nat" where
  "block_order n = (LEAST j. n \<le> 2 ^ j)"

lemma block_order_eqI:
  assumes "n \<le> 2 ^ j" and "j = 0 \<or> 2 ^ (j - 1) < n"
  shows "block_order n = j"
  unfolding block_order_def
proof (rule Least_equality)
  fix i assume "n \<le> 2 ^ i"
  show "j \<le> i"
  proof (rule ccontr)
    assume "\<not> j \<le> i"
    then have "(2::nat) ^ i \<le> 2 ^ (j - 1)" by (intro power_increasing) auto
    moreover have "2 ^ (j - 1) < n" using assms(2) \<open>\<not> j \<le> i\<close> by auto
    ultimately show False using \<open>n \<le> 2 ^ i\<close> by linarith
  qed
qed (fact assms)

lemma block_order_bounds: "n \<le> 2 ^ block_order n" "block_order n \<noteq> 0 \<Longrightarrow> 2 ^ (block_order n - 1) < n"
proof -
  have "n \<le> 2 ^ n" by (rule less_imp_le) (rule less_exp)
  then show "n \<le> 2 ^ block_order n" unfolding block_order_def by (rule LeastI)
  assume "block_order n \<noteq> 0"
  then have "\<not> n \<le> 2 ^ (block_order n - 1)"
    using not_less_Least [of "block_order n - 1" "\<lambda>j. n \<le> 2 ^ j"] unfolding block_order_def by auto
  then show "2 ^ (block_order n - 1) < n" by simp
qed

lemma round_block_size_eq:
  assumes "0 < n" and "n < 2 ^ 32"
  shows "round_block_size 1 n = (if n \<le> 2 ^ 31 then Some (2 ^ block_order n) else None)"
proof -
  consider j where "round_block_size 1 n = Some (2 ^ j)" "j \<le> 31" "n \<le> 2 ^ j" "j = 0 \<or> 2 ^ (j - 1) < n"
    | "round_block_size 1 n = None" "2 ^ 31 < n"
    using round_block_size_spec [OF assms, of 0] by auto
  then show ?thesis
  proof cases
    case (1 j)
    then have "(2::nat) ^ j \<le> 2 ^ 31" by (intro power_increasing) auto
    then have "n \<le> 2 ^ 31" using 1(3) by linarith
    with 1 show ?thesis by (simp add: block_order_eqI)
  qed simp
qed

lemma pool_level_loop_eq:
  "j \<le> L \<Longrightarrow> pool_level_loop (2 ^ j) (2 ^ L) c = c + (L - j)"
proof (induction "L - j" arbitrary: L c)
  case 0
  then show ?case by (simp add: pool_level_loop.simps)
next
  case (Suc d)
  then obtain M where L: "L = Suc M" "j \<le> M" by (cases L) auto
  then have "(2::nat) ^ j < 2 ^ L" by (intro power_strict_increasing) auto
  then have "pool_level_loop (2 ^ j) (2 ^ L) c = pool_level_loop (2 ^ j) (2 ^ M) (c + 1)"
    by (subst pool_level_loop.simps) (simp add: L)
  with Suc L show ?case by (simp add: Suc_diff_le)
qed

lemma level_bits:
  "bit_of l 0 \<le> k \<and> k < Suc (bit_of l (2 ^ l - 1)) \<longleftrightarrow> (\<exists>b<2 ^ l. k = bit_of l b)"
proof
  assume k: "bit_of l 0 \<le> k \<and> k < Suc (bit_of l (2 ^ l - 1))"
  then have "2 ^ l \<le> Suc k \<and> Suc k < 2 ^ l + 2 ^ l" using bit_of_Suc [of l 0] bit_of_Suc [of l "2 ^ l - 1"]
    by (auto simp: Suc_le_eq)
  then obtain b where "Suc k = 2 ^ l + b" "b < 2 ^ l" by (metis add_less_cancel_left le_Suc_ex)
  then show "\<exists>b<2 ^ l. k = bit_of l b" using bit_of_Suc [of l b] by auto
qed (auto simp: bit_of_def)

lemma level_search:
  assumes "pool_bits L bm" and "l \<le> L"
  shows "\<exists>f. bitmap_find_set_bits bm (int (bit_of l 0)) 1 = Inr f \<and>
    (if 0 \<le> f \<and> f \<le> int (bit_of l (2 ^ l - 1)) then \<exists>b. f = int (bit_of l b) \<and> (l, b) \<in> avail L bm
     else \<forall>b. (l, b) \<notin> avail L bm)"
proof -
  have wf: "wf_bitmap bm" using assms(1) by (simp add: pool_bits_def)
  obtain f where f: "bitmap_find_set_bits bm (int (bit_of l 0)) 1 = Inr f"
    using bm.find_flag [OF wf] by blast
  have "valid_block L (l, 2 ^ l - 1)" using assms(2) by (simp add: valid_block_def)
  then have hi: "Suc (bit_of l (2 ^ l - 1)) \<le> 32 * word_count bm" using bit_of_range [OF _ assms(1)] by force
  note range = bm.find_in_range [OF wf f hi]
  have "\<exists>b. f = int (bit_of l b) \<and> (l, b) \<in> avail L bm"
    if in_level: "0 \<le> f \<and> f \<le> int (bit_of l (2 ^ l - 1))"
  proof -
    have g: "bm_get bm (nat f)" "bit_of l 0 \<le> nat f" using range(2) in_level by auto
    then obtain b where "b < 2 ^ l" "nat f = bit_of l b"
      using level_bits [of l "nat f"] in_level by auto
    with g in_level assms(2) show ?thesis by (auto simp: avail_def intro!: exI [of _ b])
  qed
  moreover have "(l, b) \<notin> avail L bm" if "\<not> (0 \<le> f \<and> f \<le> int (bit_of l (2 ^ l - 1)))" for b
    using range(1) level_bits [of l "bit_of l b"] that by (auto simp: avail_def)
  ultimately show ?thesis using f by auto
qed

lemma find_level_step:
  assumes "pool_bits L bm" and "l \<le> L"
  shows "(\<exists>b. find_level_loop bm l = Inr (Some (l, b)) \<and> (l, b) \<in> avail L bm) \<or>
    (\<forall>b. (l, b) \<notin> avail L bm) \<and>
      find_level_loop bm l = (if l = 0 then Inr None else find_level_loop bm (l - 1))"
proof -
  obtain f where f: "bitmap_find_set_bits bm (int (bit_of l 0)) 1 = Inr f"
    and r: "if 0 \<le> f \<and> f \<le> int (bit_of l (2 ^ l - 1)) then \<exists>b. f = int (bit_of l b) \<and> (l, b) \<in> avail L bm
      else \<forall>b. (l, b) \<notin> avail L bm"
    using level_search [OF assms] by blast
  note unf = find_level_loop.simps [of bm l]
  show ?thesis
  proof (cases "0 \<le> f \<and> f \<le> int (bit_of l (2 ^ l - 1))")
    case True
    then obtain b where b: "f = int (bit_of l b)" "(l, b) \<in> avail L bm" using r by auto
    have "b < 2 ^ 32"
      using b(2) pool_bits_level [OF assms(1)] assms(2) power_increasing [of l 32 "2::nat"]
      by (auto simp: avail_def)
    then have "to_size (f - int (bit_of l 0)) = b" by (simp add: b(1) bit_of_int to_size_def)
    then have "find_level_loop bm l = Inr (Some (l, b))"
      unfolding unf level_range using f True by simp
    with b(2) show ?thesis by blast
  next
    case False
    then have "find_level_loop bm l = (if l = 0 then Inr None else find_level_loop bm (l - 1))"
      unfolding unf level_range using f False by (cases "l = 0") auto
    with r False show ?thesis by simp
  qed
qed

lemma find_level_loop_spec:
  assumes "pool_bits L bm" and "l \<le> L"
  shows "\<exists>r. find_level_loop bm l = Inr r \<and>
    (case r of
       None \<Rightarrow> \<forall>m b. m \<le> l \<longrightarrow> (m, b) \<notin> avail L bm
     | Some (m, b) \<Rightarrow> m \<le> l \<and> (m, b) \<in> avail L bm)"
  using assms(2)
proof (induction l)
  case 0
  then show ?case using find_level_step [OF assms(1), of 0] by auto
next
  case (Suc l)
  then obtain r where r: "find_level_loop bm l = Inr r"
      "case r of None \<Rightarrow> \<forall>m b. m \<le> l \<longrightarrow> (m, b) \<notin> avail L bm
       | Some (m, b) \<Rightarrow> m \<le> l \<and> (m, b) \<in> avail L bm"
    by auto
  show ?case
    using find_level_step [OF assms(1) Suc.prems]
  proof (elim disjE exE conjE)
    assume "\<forall>b. (Suc l, b) \<notin> avail L bm"
      and "find_level_loop bm (Suc l) = (if Suc l = 0 then Inr None else find_level_loop bm (Suc l - 1))"
    with r show ?thesis by (auto simp: le_Suc_eq split: option.splits)
  qed auto
qed

text \<open>
  Splitting: the block found is held, its second halves become available, and the block
  returned covers the first pages of the block found.
\<close>

lemma split_loop_spec:
  assumes "pool_bits L bm" and "valid_block L (c, i)" and "c \<le> w" and "w \<le> L"
    and "no_overlap L (insert (c, i) (avail L bm))" and "coalesced (avail L bm - {(c, i)})"
  shows "\<exists>bm' b. split_loop bm c w i = Inr (bm', b) \<and> pool_bits L bm' \<and> valid_block L (w, b) \<and>
    no_overlap L (insert (w, b) (avail L bm')) \<and> coalesced (avail L bm' - {(w, b)}) \<and>
    free_pages L (insert (w, b) (avail L bm')) = free_pages L (insert (c, i) (avail L bm))"
  using assms
proof (induction "w - c" arbitrary: bm c i)
  case 0
  then show ?case by (simp add: split_loop.simps)
next
  case (Suc d)
  let ?S = "avail L bm - {(c, i)}"
  let ?bm = "bm_set (bm_clear bm (bit_of c i)) (bit_of (Suc c) (Suc (2 * i)))"
  have c: "c < w" "Suc c \<le> L" using Suc by auto
  note v = valid_halves [OF c(2) Suc.prems(2)]
  have "no_overlap L (insert (c, i) ?S)" using Suc.prems(5) by simp
  note sp = split_block [OF this _ Suc.prems(6) Suc.prems(2) c(2)]
  have av: "avail L ?bm = insert (Suc c, Suc (2 * i)) ?S"
    using Suc.prems(1,2) v by (simp add: avail_set avail_clear)
  have "split_loop bm c w i = split_loop ?bm (Suc c) w (2 * i)"
    using c Suc.prems(1,2) v pool_bits_level [OF Suc.prems(1)]
    by (simp add: split_loop.simps [of bm c] block_bit_index [where L = L] block_ops [where L = L] mult.commute)
  moreover have "\<exists>bm' b. split_loop ?bm (Suc c) w (2 * i) = Inr (bm', b) \<and> pool_bits L bm' \<and> valid_block L (w, b) \<and>
    no_overlap L (insert (w, b) (avail L bm')) \<and> coalesced (avail L bm' - {(w, b)}) \<and>
    free_pages L (insert (w, b) (avail L bm')) = free_pages L (insert (Suc c, 2 * i) (avail L ?bm))"
    using Suc c v sp by (intro Suc.hyps(1)) (simp_all add: av)
  ultimately show ?case using sp(4) by (simp add: av)
qed

text \<open>Freeing: the block becomes available and merges upwards as far as its neighbors are available.\<close>

lemma neighbor_bit:
  assumes "valid_block L (Suc l, b)"
  shows "(if b mod 2 = 0 then int (bit_of (Suc l) b) + 1 else int (bit_of (Suc l) b) - 1)
    = int (bit_of (Suc l) (neighbor b))"
  using odd_pos [of b] by (auto simp: bit_of_int neighbor_def of_nat_diff even_iff_mod_2_eq_zero)

lemma free_loop_spec:
  assumes "pool_bits L bm" and "valid_block L (l, b)" and "(l, b) \<notin> avail L bm"
    and "no_overlap L (insert (l, b) (avail L bm))" and "coalesced (avail L bm)"
  shows "\<exists>bm'. free_loop bm l b = Inr bm' \<and> pool_bits L bm' \<and> buddy_inv L (avail L bm') \<and>
    free_pages L (avail L bm') = pages L (l, b) \<union> free_pages L (avail L bm)"
  using assms
proof (induction l arbitrary: bm b)
  case 0
  let ?bm = "bm_set bm (bit_of 0 b)"
  have "free_loop bm 0 b = Inr ?bm"
    using 0 pool_bits_level [OF "0.prems"(1)]
    by (simp add: free_loop.simps [of bm 0] block_bit_index [where L = L] block_ops [where L = L])
  moreover have "avail L ?bm = insert (0, b) (avail L bm)" using 0 by (simp add: avail_set)
  moreover have "buddy_inv L (insert (0, b) (avail L bm))"
    using 0 by (auto simp: buddy_inv_def coalesced_insert dest: avail_valid)
  ultimately show ?case using 0 by (simp add: free_pages_insert)
next
  case (Suc l)
  note pb = Suc.prems(1) and v = Suc.prems(2)
  let ?S = "avail L bm" and ?bm = "bm_set bm (bit_of (Suc l) b)" and ?n = "neighbor b"
  have av: "avail L ?bm = insert (Suc l, b) ?S" using pb v by (simp add: avail_set)
  have vn: "valid_block L (Suc l, ?n)" using neighbor_valid v .
  have nb: "?n \<noteq> b" using odd_pos [of b] by (auto simp: neighbor_def)
  have head: "free_loop bm (Suc l) b =
      (if (Suc l, ?n) \<notin> ?S then Inr ?bm
       else free_loop (bm_clear (bm_clear ?bm (bit_of (Suc l) b)) (bit_of (Suc l) ?n)) l (b div 2))"
    using pb v vn Suc.prems(3) pool_bits_level [OF pb] nb
    by (simp add: free_loop.simps [of bm "Suc l"] block_bit_index [where L = L] block_ops [where L = L]
        neighbor_bit [OF v] av)
  show ?case
  proof (cases "(Suc l, ?n) \<in> ?S")
    case False
    moreover have "buddy_inv L (insert (Suc l, b) ?S)"
      using Suc.prems False by (auto simp: buddy_inv_def coalesced_insert dest: avail_valid)
    ultimately show ?thesis using head pb av by (simp add: free_pages_insert)
  next
    case True
    let ?bm2 = "bm_clear (bm_clear ?bm (bit_of (Suc l) b)) (bit_of (Suc l) ?n)"
    have av2: "avail L ?bm2 = ?S - {(Suc l, ?n)}"
      using pb v vn Suc.prems(3) by (simp add: avail_clear av)
    have valid: "\<forall>B\<in>insert (Suc l, b) ?S. valid_block L B" using v avail_valid by auto
    have l: "Suc l \<le> L" using v by (simp add: valid_block_def)
    note m = merge_block [OF Suc.prems(4,3,5) True refl l valid]
    have "\<exists>bm'. free_loop ?bm2 l (b div 2) = Inr bm' \<and> pool_bits L bm' \<and> buddy_inv L (avail L bm') \<and>
        free_pages L (avail L bm') = pages L (l, b div 2) \<union> free_pages L (avail L ?bm2)"
      using pb m by (intro Suc.IH) (simp_all add: av2)
    moreover have "pages L (l, b div 2) \<union> free_pages L (avail L ?bm2) = pages L (Suc l, b) \<union> free_pages L ?S"
      using m(4) by (simp add: av2 free_pages_insert)
    ultimately show ?thesis using head True by simp
  qed
qed

subsection \<open>Pools\<close>

definition pool_levels :: "pagepool \<Rightarrow> nat" where
  "pool_levels pool = block_size_to_pagepool_level pool 1"

definition pool_avail :: "pagepool \<Rightarrow> block set" where
  "pool_avail pool = avail (pool_levels pool) (pool_bitmap pool)"

definition pool_free :: "pagepool \<Rightarrow> nat set" where
  "pool_free pool = free_pages (pool_levels pool) (pool_avail pool)"

text \<open>
  The invariant of a pool: a power of two of pages, a bitmap large enough for its blocks, a
  buddy system in the bitmap, and a page-aligned range that ends below the 4 GiB limit.
\<close>

definition wf_pool :: "pagepool \<Rightarrow> bool" where
  "wf_pool pool \<longleftrightarrow> page_count pool = 2 ^ pool_levels pool \<and>
     pool_bits (pool_levels pool) (pool_bitmap pool) \<and> buddy_inv (pool_levels pool) (pool_avail pool) \<and>
     0 < base_addr pool \<and> base_addr pool mod 4096 = 0 \<and>
     base_addr pool + 4096 * page_count pool < 2 ^ 32"

definition order_pages :: "nat \<Rightarrow> nat \<Rightarrow> nat set" where
  "order_pages j i = {i * 2 ^ j ..< (i + 1) * 2 ^ j}"

lemma wf_pool_level: "wf_pool pool \<Longrightarrow> j \<le> pool_levels pool \<Longrightarrow>
    block_size_to_pagepool_level pool (2 ^ j) = pool_levels pool - j"
  by (simp add: block_size_to_pagepool_level_def wf_pool_def pool_level_loop_eq)

lemma pool_update [simp]:
  "pool_levels (pool\<lparr>pool_bitmap := bm\<rparr>) = pool_levels pool"
  "pool_avail (pool\<lparr>pool_bitmap := bm\<rparr>) = avail (pool_levels pool) bm"
  by (simp_all add: pool_levels_def block_size_to_pagepool_level_def pool_avail_def)

lemma order_block:
  assumes "j \<le> L" and "valid_block L (L - j, b)"
  shows "pages L (L - j, b) = order_pages j b"
  using assms by (simp add: pages_interval order_pages_def)

lemma order_pages_card: "finite (order_pages j i)" "card (order_pages j i) = 2 ^ j"
  by (simp_all add: order_pages_def)

lemma no_free_block_beyond:
  assumes "L < j"
  shows "\<not> order_pages j i \<subseteq> free_pages L S"
proof
  assume "order_pages j i \<subseteq> free_pages L S"
  also have "\<dots> \<subseteq> {..<2 ^ L}" using free_pages_bound by blast
  finally have "card (order_pages j i) \<le> card {..<(2::nat) ^ L}" by (rule card_mono [rotated]) simp
  then show False using assms power_strict_increasing [of L j "2::nat"] by (simp add: order_pages_card)
qed

lemma free_block_valid:
  assumes "order_pages j i \<subseteq> free_pages L S" and "j \<le> L"
  shows "valid_block L (L - j, i)"
proof -
  have "i * 2 ^ j \<in> order_pages j i" by (simp add: order_pages_def)
  then have "i * 2 ^ j < 2 ^ L" using assms(1) free_pages_bound by blast
  also have "(2::nat) ^ L = 2 ^ (L - j) * 2 ^ j" using assms(2) by (simp flip: power_add)
  finally show ?thesis by (simp add: valid_block_def)
qed

lemma pool_block_address:
  assumes "wf_pool pool" and "j \<le> pool_levels pool" and "i < 2 ^ (pool_levels pool - j)"
  shows "(i + 1) * 2 ^ j \<le> page_count pool"
    and "base_addr pool + 4096 * ((i + 1) * 2 ^ j) < 2 ^ 32"
proof -
  have "(i + 1) * 2 ^ j \<le> 2 ^ (pool_levels pool - j) * 2 ^ j" using assms(3) by (intro mult_right_mono) auto
  also have "\<dots> = page_count pool" using assms(1,2) by (simp add: wf_pool_def flip: power_add)
  finally show *: "(i + 1) * 2 ^ j \<le> page_count pool" .
  then have "4096 * ((i + 1) * 2 ^ j) \<le> 4096 * page_count pool" by (rule mult_le_mono2)
  then show "base_addr pool + 4096 * ((i + 1) * 2 ^ j) < 2 ^ 32" using assms(1) by (simp add: wf_pool_def)
qed

text \<open>
  What one allocation may answer on a pool: null, when no aligned block of the rounded size is
  free, with the pool as it was; or the address of a free block of the rounded size, which is
  no longer free in the new pool.
\<close>

definition alloc_result :: "pagepool \<Rightarrow> nat \<Rightarrow> pagepool \<Rightarrow> nat \<Rightarrow> nat \<Rightarrow> bool" where
  "alloc_result pool j pool' r k \<longleftrightarrow>
     r = 0 \<and> pool' = pool \<and> (\<forall>i. \<not> order_pages j i \<subseteq> pool_free pool) \<or>
     (\<exists>i. r = base_addr pool + 4096 * (i * 2 ^ j) \<and> k = 2 ^ j \<and> (i + 1) * 2 ^ j \<le> page_count pool \<and>
        order_pages j i \<subseteq> pool_free pool \<and> wf_pool pool' \<and>
        base_addr pool' = base_addr pool \<and> page_count pool' = page_count pool \<and>
        pool_free pool' = pool_free pool - order_pages j i)"

lemma take_block:
  assumes "wf_pool pool" and "j \<le> pool_levels pool"
    and "(m, b) \<in> pool_avail pool" and "m \<le> pool_levels pool - j"
  defines "w \<equiv> pool_levels pool - j"
  shows "\<exists>bm i. split_loop (pool_bitmap pool) m w b = Inr (bm, i) \<and> valid_block (pool_levels pool) (w, i) \<and>
    pool_bits (pool_levels pool) bm \<and>
    buddy_inv (pool_levels pool) (avail (pool_levels pool) bm - {(w, i)}) \<and>
    order_pages j i \<subseteq> pool_free pool \<and>
    free_pages (pool_levels pool) (avail (pool_levels pool) bm - {(w, i)}) = pool_free pool - order_pages j i"
proof -
  let ?L = "pool_levels pool" and ?S = "pool_avail pool"
  have S: "insert (m, b) ?S = ?S" and inv: "buddy_inv ?L ?S" using assms(1,3) by (auto simp: wf_pool_def)
  have "coalesced (?S - {(m, b)})" using inv by (auto simp: buddy_inv_def coalesced_def)
  then obtain bm i where sp: "split_loop (pool_bitmap pool) m w b = Inr (bm, i)" "pool_bits ?L bm"
      "valid_block ?L (w, i)" "no_overlap ?L (insert (w, i) (avail ?L bm))"
      "coalesced (avail ?L bm - {(w, i)})"
      "free_pages ?L (insert (w, i) (avail ?L bm)) = free_pages ?L ?S"
    using split_loop_spec [of ?L "pool_bitmap pool" m b w] assms S inv
    by (auto simp: wf_pool_def pool_avail_def buddy_inv_def)
  let ?T = "avail ?L bm - {(w, i)}"
  have nov: "no_overlap ?L ?T" "pages ?L (w, i) \<inter> free_pages ?L ?T = {}"
    using sp(4) no_overlap_insert [of "(w, i)" ?T ?L] by simp_all
  have un: "pages ?L (w, i) \<union> free_pages ?L ?T = pool_free pool"
    using sp(6) free_pages_insert [of ?L "(w, i)" ?T] by (simp add: pool_free_def)
  have pg: "pages ?L (w, i) = order_pages j i" using order_block assms(2) sp(3) by (simp add: w_def)
  have "buddy_inv ?L ?T" using nov(1) sp(5) by (auto simp: buddy_inv_def dest: avail_valid)
  with sp pg nov(2) un show ?thesis by blast
qed

lemma alloc_rounding:
  assumes "wf_pool pool" and "0 < n" and "n < 2 ^ 32" and "block_order n \<le> pool_levels pool"
  shows "round_block_size 1 n = Some (2 ^ block_order n)"
    and "\<not> page_count pool < 2 ^ block_order n"
    and "block_size_to_pagepool_level pool (2 ^ block_order n) = pool_levels pool - block_order n"
proof -
  have "pool_levels pool \<le> 30" using assms(1) pool_bits_level by (auto simp: wf_pool_def)
  then have "(2::nat) ^ block_order n \<le> 2 ^ 31" using assms(4) by (intro power_increasing) auto
  then have "n \<le> 2 ^ 31" using block_order_bounds(1) [of n] by linarith
  then show "round_block_size 1 n = Some (2 ^ block_order n)"
    using round_block_size_eq [OF assms(2,3)] by simp
  show "\<not> page_count pool < 2 ^ block_order n" using assms(1,4) by (simp add: wf_pool_def)
  show "block_size_to_pagepool_level pool (2 ^ block_order n) = pool_levels pool - block_order n"
    using assms(1,4) by (rule wf_pool_level)
qed

lemma none_means_no_block:
  assumes "wf_pool pool" and "j \<le> pool_levels pool"
    and none: "\<forall>m b. m \<le> pool_levels pool - j \<longrightarrow> (m, b) \<notin> pool_avail pool"
  shows "\<not> order_pages j i \<subseteq> pool_free pool"
proof
  let ?L = "pool_levels pool"
  assume sub: "order_pages j i \<subseteq> pool_free pool"
  then have v: "valid_block ?L (?L - j, i)" using free_block_valid assms(2) by (auto simp: pool_free_def)
  then have "pages ?L (?L - j, i) \<subseteq> free_pages ?L (pool_avail pool)"
    using sub assms(2) by (simp add: order_block pool_free_def)
  moreover have "buddy_inv ?L (pool_avail pool)" using assms(1) by (simp add: wf_pool_def)
  ultimately show False using covered_by_ancestor v none by blast
qed

lemma alloc_found:
  assumes "wf_pool pool" and "0 < n" and "n < 2 ^ 32" and "block_order n \<le> pool_levels pool"
    and f: "find_level_loop (pool_bitmap pool) (pool_levels pool - block_order n) = Inr (Some (m, b))"
    and mb: "m \<le> pool_levels pool - block_order n" "(m, b) \<in> pool_avail pool"
  shows "\<exists>pool' r k. alloc_from_pool pool n = Inr (pool', r, k) \<and> alloc_result pool (block_order n) pool' r k"
proof -
  let ?L = "pool_levels pool" and ?j = "block_order n"
  let ?w = "?L - ?j"
  have L: "?L \<le> 30" using assms(1) pool_bits_level by (auto simp: wf_pool_def)
  obtain bm i where t: "split_loop (pool_bitmap pool) m ?w b = Inr (bm, i)" "valid_block ?L (?w, i)"
      "pool_bits ?L bm" "buddy_inv ?L (avail ?L bm - {(?w, i)})" "order_pages ?j i \<subseteq> pool_free pool"
      "free_pages ?L (avail ?L bm - {(?w, i)}) = pool_free pool - order_pages ?j i"
    using take_block [OF assms(1,4) mb(2,1)] by blast
  let ?bm = "bm_clear bm (bit_of ?w i)" and ?r = "base_addr pool + 4096 * (i * 2 ^ ?j)"
  let ?pool = "pool\<lparr>pool_bitmap := ?bm\<rparr>"
  have av: "avail ?L ?bm = avail ?L bm - {(?w, i)}" using t(2,3) by (simp add: avail_clear)
  have "i < 2 ^ ?w" using t(2) by (simp add: valid_block_def)
  note adr = pool_block_address [OF assms(1,4) this]
  have "sz_mul (sz_mul (2 ^ ?j) i) ARCH_PAGESIZE = 4096 * (i * 2 ^ ?j)"
    using adr(2) by (simp add: sz_mul_def ARCH_PAGESIZE_def mult.commute)
  then have adr_eq: "sz_add (base_addr pool) (sz_mul (sz_mul (2 ^ ?j) i) ARCH_PAGESIZE) = ?r"
    using adr(2) by (simp add: sz_add_def)
  have "alloc_from_pool pool n = Inr (?pool, ?r, 2 ^ ?j)"
    unfolding alloc_from_pool_def alloc_rounding [OF assms(1-4)] option.case Let_def
    using assms(2) alloc_rounding(2) [OF assms(1-4)] f t(1)
    by (simp add: block_bit_index [OF t(2) L] block_ops [OF t(3,2)] adr_eq)
  moreover have "wf_pool ?pool" using assms(1) t(3,4) av by (simp add: wf_pool_def)
  moreover have "pool_free ?pool = pool_free pool - order_pages ?j i" using t(6) av by (simp add: pool_free_def)
  ultimately show ?thesis unfolding alloc_result_def using t(5) adr(1) by fastforce
qed

lemma alloc_from_pool_spec:
  assumes "wf_pool pool" and "0 < n" and "n < 2 ^ 32"
  shows "\<exists>pool' r k. alloc_from_pool pool n = Inr (pool', r, k) \<and> alloc_result pool (block_order n) pool' r k"
proof (cases "block_order n \<le> pool_levels pool")
  case False
  then have "\<exists>k. alloc_from_pool pool n = Inr (pool, 0, k)"
    unfolding alloc_from_pool_def round_block_size_eq [OF assms(2,3)]
    using assms by (simp add: PHYSICALPTR_NULL_def wf_pool_def)
  with False show ?thesis
    using no_free_block_beyond [of "pool_levels pool"] by (auto simp: alloc_result_def pool_free_def)
next
  case True
  have pb: "pool_bits (pool_levels pool) (pool_bitmap pool)" using assms(1) by (simp add: wf_pool_def)
  let ?w = "pool_levels pool - block_order n"
  obtain r where r: "find_level_loop (pool_bitmap pool) ?w = Inr r"
      "case r of None \<Rightarrow> \<forall>m b. m \<le> ?w \<longrightarrow> (m, b) \<notin> pool_avail pool
       | Some (m, b) \<Rightarrow> m \<le> ?w \<and> (m, b) \<in> pool_avail pool"
    using find_level_loop_spec [OF pb diff_le_self] unfolding pool_avail_def by blast
  show ?thesis
  proof (cases r)
    case None
    then have "\<not> order_pages (block_order n) i \<subseteq> pool_free pool" for i
      using none_means_no_block [OF assms(1) True] r(2) by simp
    moreover have "alloc_from_pool pool n = Inr (pool, 0, 2 ^ block_order n)"
      unfolding alloc_from_pool_def alloc_rounding [OF assms True] option.case Let_def
      using assms(2) alloc_rounding(2) [OF assms True] r(1) None by (simp add: PHYSICALPTR_NULL_def)
    ultimately show ?thesis by (auto simp: alloc_result_def)
  next
    case (Some mb)
    then show ?thesis using alloc_found [OF assms True] r by (cases mb) auto
  qed
qed

lemma pool_end_check:
  assumes "wf_pool pool" and "(i + 1) * k \<le> page_count pool" and "4096 * n \<le> 4096 * k"
  shows "\<not> sz_add (base_addr pool) (sz_mul ARCH_PAGESIZE (page_count pool))
    < sz_add (base_addr pool + 4096 * (i * k)) (sz_mul ARCH_PAGESIZE n)"
proof -
  have lim: "base_addr pool + 4096 * page_count pool < 2 ^ 32" using assms(1) by (simp add: wf_pool_def)
  have le: "4096 * (i * k) + 4096 * n \<le> 4096 * page_count pool" using assms(2,3) by simp
  have "sz_mul ARCH_PAGESIZE (page_count pool) = 4096 * page_count pool"
      "sz_mul ARCH_PAGESIZE n = 4096 * n"
    using lim le by (simp_all add: ARCH_PAGESIZE_def sz_mul_no_wrap)
  moreover have "sz_add (base_addr pool) (4096 * page_count pool) = base_addr pool + 4096 * page_count pool"
      "sz_add (base_addr pool + 4096 * (i * k)) (4096 * n) = base_addr pool + 4096 * (i * k) + 4096 * n"
    using lim le by (simp_all add: sz_add_no_wrap)
  ultimately show ?thesis using le by simp
qed

lemma free_from_pool_spec:
  assumes "wf_pool pool" and "0 < n" and "j = block_order n" and "j \<le> pool_levels pool"
    and "i < 2 ^ (pool_levels pool - j)" and "order_pages j i \<inter> pool_free pool = {}"
  shows "\<exists>pool'. free_from_pool pool (base_addr pool + 4096 * (i * 2 ^ j)) n = Inr pool' \<and> wf_pool pool' \<and>
    base_addr pool' = base_addr pool \<and> page_count pool' = page_count pool \<and>
    pool_free pool' = pool_free pool \<union> order_pages j i"
proof -
  let ?L = "pool_levels pool" and ?w = "pool_levels pool - j" and ?off = "4096 * (i * 2 ^ j)"
  have pb: "pool_bits ?L (pool_bitmap pool)" and L: "?L \<le> 30"
    using assms(1) pool_bits_level by (auto simp: wf_pool_def)
  have v: "valid_block ?L (?w, i)" using assms(5) by (simp add: valid_block_def)
  have pg: "pages ?L (?w, i) = order_pages j i" using order_block assms(4) v by simp
  note adr = pool_block_address [OF assms(1,4,5)]
  have nle: "n \<le> 2 ^ j" unfolding assms(3) by (rule block_order_bounds)
  have "(2::nat) ^ j \<le> 2 ^ 30" using assms(4) L by (intro power_increasing) auto
  then have rnd: "round_block_size 1 n = Some (2 ^ j)"
    using round_block_size_eq [of n] assms(2) nle by (simp add: assms(3))
  have pc: "\<not> page_count pool < 2 ^ j" using assms(1,4) by (simp add: wf_pool_def)
  have lvl: "block_size_to_pagepool_level pool (2 ^ j) = ?w" using assms(1,4) by (rule wf_pool_level)
  have nin: "(?w, i) \<notin> pool_avail pool"
    using assms(6) pages_nonempty [OF v] pg by (auto simp: pool_free_def free_pages_def)
  then have nov: "no_overlap ?L (insert (?w, i) (pool_avail pool))"
    using assms(1,6) pg by (simp add: no_overlap_insert wf_pool_def buddy_inv_def pool_free_def)
  obtain bm where bm: "free_loop (pool_bitmap pool) ?w i = Inr bm" "pool_bits ?L bm"
      "buddy_inv ?L (avail ?L bm)" "free_pages ?L (avail ?L bm) = order_pages j i \<union> pool_free pool"
    using free_loop_spec [OF pb v] nin nov assms(1) pg
    by (auto simp: wf_pool_def pool_avail_def buddy_inv_def pool_free_def)
  have "4096 * n \<le> 4096 * 2 ^ j" using nle by simp
  then have bound: "\<not> sz_add (base_addr pool) (sz_mul ARCH_PAGESIZE (page_count pool))
      < sz_add (base_addr pool + ?off) (sz_mul ARCH_PAGESIZE n)"
    using pool_end_check [OF assms(1) adr(1)] by simp
  have blk: "sz_mul (2 ^ j) ARCH_PAGESIZE = 4096 * 2 ^ j"
    using adr(2) by (simp add: sz_mul_def ARCH_PAGESIZE_def)
  have off: "?off = i * (4096 * 2 ^ j)" by simp
  have "(base_addr pool + ?off - base_addr pool) div (4096 * 2 ^ j) = i"
      "(base_addr pool + ?off - base_addr pool) mod (4096 * 2 ^ j) = 0"
    unfolding off by simp_all
  moreover have "base_addr pool \<noteq> 0" using assms(1) by (simp add: wf_pool_def)
  ultimately have "free_from_pool pool (base_addr pool + ?off) n = Inr (pool\<lparr>pool_bitmap := bm\<rparr>)"
    unfolding free_from_pool_def rnd Let_def option.case blk lvl using bound pc bm(1) by simp
  moreover have "wf_pool (pool\<lparr>pool_bitmap := bm\<rparr>) \<and> pool_free (pool\<lparr>pool_bitmap := bm\<rparr>) = pool_free pool \<union> order_pages j i"
    using assms(1) bm by (auto simp: wf_pool_def pool_free_def)
  ultimately show ?thesis by auto
qed

subsection \<open>The list of pools\<close>

text \<open>Page frames are numbered by their address divided by the page size.\<close>

definition frames_at :: "nat \<Rightarrow> nat \<Rightarrow> nat set" where
  "frames_at ptr k = {ptr div 4096 ..< ptr div 4096 + k}"

definition pool_span :: "pagepool \<Rightarrow> nat set" where
  "pool_span pool = frames_at (base_addr pool) (page_count pool)"

definition pool_frames :: "pagepool \<Rightarrow> nat set" where
  "pool_frames pool = (\<lambda>p. base_addr pool div 4096 + p) ` pool_free pool"

definition free_frames :: "pagepool list \<Rightarrow> nat set" where
  "free_frames pools = (\<Union>pool\<in>set pools. pool_frames pool)"

fun wf_pmm :: "pagepool list \<Rightarrow> bool" where
  "wf_pmm [] \<longleftrightarrow> True"
| "wf_pmm (pool # pools) \<longleftrightarrow>
     wf_pool pool \<and> (\<forall>q\<in>set pools. pool_span pool \<inter> pool_span q = {}) \<and> wf_pmm pools"

text \<open>\<open>pool_block pools ptr n\<close>: \<open>ptr\<close> is where a pool has a block of the order of \<open>n\<close> pages.\<close>

definition in_pool :: "pagepool \<Rightarrow> nat \<Rightarrow> nat \<Rightarrow> bool" where
  "in_pool pool ptr j \<longleftrightarrow> (\<exists>i. ptr = base_addr pool + 4096 * (i * 2 ^ j) \<and> (i + 1) * 2 ^ j \<le> page_count pool)"

definition pool_block :: "pagepool list \<Rightarrow> nat \<Rightarrow> nat \<Rightarrow> bool" where
  "pool_block pools ptr n \<longleftrightarrow> (\<exists>pool\<in>set pools. in_pool pool ptr (block_order n))"

lemma frames_of_block:
  "frames_at (base_addr pool + 4096 * (i * 2 ^ j)) (2 ^ j) =
    (\<lambda>p. base_addr pool div 4096 + p) ` order_pages j i"
proof -
  have "(base_addr pool + 4096 * (i * 2 ^ j)) div 4096 = base_addr pool div 4096 + i * 2 ^ j" by simp
  then show ?thesis
    by (simp only: frames_at_def order_pages_def image_add_atLeastLessThan) (simp add: algebra_simps)
qed

lemma pool_frames_span: "wf_pool pool \<Longrightarrow> pool_frames pool \<subseteq> pool_span pool"
  using free_pages_bound
  by (fastforce simp: pool_frames_def pool_span_def frames_at_def pool_free_def wf_pool_def)

lemma pool_block_span:
  assumes "in_pool pool ptr j"
  shows "frames_at ptr (2 ^ j) \<subseteq> pool_span pool"
  using assms by (auto simp: in_pool_def frames_at_def pool_span_def)

lemma free_frames_Cons: "free_frames (pool # pools) = pool_frames pool \<union> free_frames pools"
  by (simp add: free_frames_def)

lemma free_frames_span: "wf_pmm pools \<Longrightarrow> free_frames pools \<subseteq> (\<Union>pool\<in>set pools. pool_span pool)"
  by (induction pools) (use pool_frames_span in \<open>auto simp: free_frames_def\<close>)

lemma image_frames_diff: "(\<lambda>p. b + p) ` (A - B) = (\<lambda>p. b + p) ` A - (\<lambda>p. b + p) ` (B :: nat set)"
  by (rule image_set_diff) simp

text \<open>The two outcomes of \<open>pmm_alloc\<close>.\<close>

definition no_block :: "pagepool list \<Rightarrow> nat \<Rightarrow> bool" where
  "no_block pools n \<longleftrightarrow> (\<forall>ptr. pool_block pools ptr n \<longrightarrow> \<not> frames_at ptr (2 ^ block_order n) \<subseteq> free_frames pools)"

definition got_block :: "pagepool list \<Rightarrow> nat \<Rightarrow> pagepool list \<Rightarrow> nat \<Rightarrow> nat \<Rightarrow> bool" where
  "got_block pools n pools' ptr k \<longleftrightarrow> k = 2 ^ block_order n \<and> pool_block pools ptr n \<and>
     frames_at ptr k \<subseteq> free_frames pools \<and> free_frames pools' = free_frames pools - frames_at ptr k"

lemma alloc_result_frames:
  assumes "wf_pool pool" and "alloc_result pool j pool' r k"
  shows "r = 0 \<and> pool' = pool \<and> (\<forall>ptr. in_pool pool ptr j \<longrightarrow> \<not> frames_at ptr (2 ^ j) \<subseteq> pool_frames pool) \<or>
    r \<noteq> 0 \<and> k = 2 ^ j \<and> in_pool pool r j \<and> frames_at r k \<subseteq> pool_frames pool \<and> wf_pool pool' \<and>
    pool_span pool' = pool_span pool \<and> base_addr pool' = base_addr pool \<and>
    page_count pool' = page_count pool \<and> pool_frames pool' = pool_frames pool - frames_at r k"
proof -
  note fb = frames_of_block
  show ?thesis
    using assms(2) unfolding alloc_result_def
  proof (elim disjE exE conjE)
    assume "r = 0" "pool' = pool" and no: "\<forall>i. \<not> order_pages j i \<subseteq> pool_free pool"
    have "\<not> frames_at ptr (2 ^ j) \<subseteq> pool_frames pool" if inp: "in_pool pool ptr j" for ptr
    proof -
      obtain i where "ptr = base_addr pool + 4096 * (i * 2 ^ j)" using inp by (auto simp: in_pool_def)
      then show ?thesis using no by (auto simp: fb pool_frames_def inj_image_subset_iff)
    qed
    with \<open>r = 0\<close> \<open>pool' = pool\<close> show ?thesis by blast
  next
    fix i assume i: "r = base_addr pool + 4096 * (i * 2 ^ j)" "k = 2 ^ j" "(i + 1) * 2 ^ j \<le> page_count pool"
      "order_pages j i \<subseteq> pool_free pool" "wf_pool pool'" "base_addr pool' = base_addr pool"
      "page_count pool' = page_count pool" "pool_free pool' = pool_free pool - order_pages j i"
    have "frames_at r k \<subseteq> pool_frames pool" using i(4) by (simp add: i(1,2) fb pool_frames_def image_mono)
    moreover have "pool_frames pool' = pool_frames pool - frames_at r k"
      by (simp add: i(1,2,6,8) fb pool_frames_def image_frames_diff)
    moreover have "in_pool pool r j" using i(1,3) by (auto simp: in_pool_def)
    ultimately show ?thesis using i assms(1) by (auto simp: pool_span_def wf_pool_def)
  qed
qed

text \<open>The shape of the pools, which no allocation or release changes.\<close>

definition pmm_shape :: "pagepool list \<Rightarrow> (nat \<times> nat) list" where
  "pmm_shape pools = map (\<lambda>pool. (base_addr pool, page_count pool)) pools"

lemma pmm_shape_simps [simp]:
  "pmm_shape [] = []"
  "pmm_shape (pool # pools) = (base_addr pool, page_count pool) # pmm_shape pools"
  by (simp_all add: pmm_shape_def)

lemma pool_block_shape: "pool_block pools ptr n \<longleftrightarrow>
    (\<exists>(base, k)\<in>set (pmm_shape pools). \<exists>i. ptr = base + 4096 * (i * 2 ^ block_order n) \<and>
       (i + 1) * 2 ^ block_order n \<le> k)"
  by (auto simp: pool_block_def in_pool_def pmm_shape_def)

lemma spans_shape: "pool_span ` set pools = (\<lambda>(base, k). frames_at base k) ` set (pmm_shape pools)"
  by (auto simp: pmm_shape_def pool_span_def)

lemma disjoint_shape:
  assumes "pmm_shape pools' = pmm_shape pools" and "\<forall>q\<in>set pools. X \<inter> pool_span q = {}"
  shows "\<forall>q\<in>set pools'. X \<inter> pool_span q = {}"
proof -
  have "(\<forall>s\<in>pool_span ` set pools'. X \<inter> s = {}) \<longleftrightarrow> (\<forall>s\<in>pool_span ` set pools. X \<inter> s = {})"
    by (simp only: spans_shape assms(1))
  with assms(2) show ?thesis by simp
qed

lemma disjoint_free:
  assumes "wf_pmm pools" and "\<forall>q\<in>set pools. X \<inter> pool_span q = {}"
  shows "X \<inter> free_frames pools = {}"
  using free_frames_span [OF assms(1)] assms(2) by blast

lemma pool_block_Cons: "pool_block (pool # pools) ptr n \<longleftrightarrow> in_pool pool ptr (block_order n) \<or> pool_block pools ptr n"
  by (simp add: pool_block_def)

lemma frames_nonempty: "frames_at ptr (2 ^ j) \<noteq> {}"
  by (simp add: frames_at_def)

lemma split_frames:
  assumes "wf_pmm (pool # pools)"
  shows "in_pool pool ptr j \<Longrightarrow> frames_at ptr (2 ^ j) \<inter> free_frames pools = {}"
    and "pool_block pools ptr n \<Longrightarrow> frames_at ptr (2 ^ block_order n) \<inter> pool_frames pool = {}"
proof -
  have dj: "\<forall>q\<in>set pools. pool_span pool \<inter> pool_span q = {}" "wf_pmm pools" "wf_pool pool" using assms by auto
  show "in_pool pool ptr j \<Longrightarrow> frames_at ptr (2 ^ j) \<inter> free_frames pools = {}"
    using pool_block_span [of pool ptr j] disjoint_free [OF dj(2,1)] by blast
  assume "pool_block pools ptr n"
  then obtain q where "q \<in> set pools" "frames_at ptr (2 ^ block_order n) \<subseteq> pool_span q"
    using pool_block_span by (auto simp: pool_block_def)
  then show "frames_at ptr (2 ^ block_order n) \<inter> pool_frames pool = {}"
    using pool_frames_span [OF dj(3)] dj(1) by blast
qed

lemma pmm_alloc_loop_spec:
  assumes "wf_pmm pools" and "0 < n" and "n < 2 ^ 32"
  shows "\<exists>pools' r k. pmm_alloc_loop pools n = Inr (pools', r, k) \<and> wf_pmm pools' \<and>
    pmm_shape pools' = pmm_shape pools \<and>
    (r = 0 \<and> pools' = pools \<and> no_block pools n \<or> r \<noteq> 0 \<and> got_block pools n pools' r k)"
  using assms(1)
proof (induction pools)
  case Nil
  then show ?case by (simp add: no_block_def pool_block_def PHYSICALPTR_NULL_def)
next
  case (Cons pool pools)
  let ?j = "block_order n"
  have wf: "wf_pool pool" "\<forall>q\<in>set pools. pool_span pool \<inter> pool_span q = {}" "wf_pmm pools" using Cons.prems by auto
  obtain pool1 r1 k1 where a: "alloc_from_pool pool n = Inr (pool1, r1, k1)" "alloc_result pool ?j pool1 r1 k1"
    using alloc_from_pool_spec [OF wf(1) assms(2,3)] by blast
  from alloc_result_frames [OF wf(1) a(2)] show ?case
  proof (elim disjE conjE)
    assume *: "r1 \<noteq> 0" "k1 = 2 ^ ?j" "in_pool pool r1 ?j" "frames_at r1 k1 \<subseteq> pool_frames pool" "wf_pool pool1"
      "pool_span pool1 = pool_span pool" "base_addr pool1 = base_addr pool" "page_count pool1 = page_count pool"
      "pool_frames pool1 = pool_frames pool - frames_at r1 k1"
    have "frames_at r1 k1 \<inter> free_frames pools = {}" using split_frames(1) [OF Cons.prems *(3)] *(2) by simp
    then have "got_block (pool # pools) n (pool1 # pools) r1 k1"
      using * by (auto simp: got_block_def pool_block_Cons free_frames_Cons)
    then show ?thesis using a(1) * wf by (simp add: PHYSICALPTR_NULL_def)
  next
    assume *: "r1 = 0" "pool1 = pool" "\<forall>ptr. in_pool pool ptr ?j \<longrightarrow> \<not> frames_at ptr (2 ^ ?j) \<subseteq> pool_frames pool"
    obtain pools' r k where ih: "pmm_alloc_loop pools n = Inr (pools', r, k)" "wf_pmm pools'"
        "pmm_shape pools' = pmm_shape pools"
        "r = 0 \<and> pools' = pools \<and> no_block pools n \<or> r \<noteq> 0 \<and> got_block pools n pools' r k"
      using Cons.IH wf(3) by blast
    have run: "pmm_alloc_loop (pool # pools) n = Inr (pool # pools', r, k)"
      using a(1) * ih(1) by (simp add: PHYSICALPTR_NULL_def)
    have wf': "wf_pmm (pool # pools')" using wf ih(2) disjoint_shape [OF ih(3) wf(2)] by simp
    from ih(4) have "r = 0 \<and> pools' = pools \<and> no_block (pool # pools) n \<or> r \<noteq> 0 \<and> got_block (pool # pools) n (pool # pools') r k"
    proof (elim disjE conjE)
      assume "r = 0" "pools' = pools" and no: "no_block pools n"
      have "\<not> frames_at ptr (2 ^ ?j) \<subseteq> free_frames (pool # pools)" if "pool_block (pool # pools) ptr n" for ptr
        using that *(3) no split_frames [OF Cons.prems, of ptr] frames_nonempty [of ptr ?j]
        unfolding pool_block_Cons free_frames_Cons no_block_def by blast
      then show ?thesis using \<open>r = 0\<close> \<open>pools' = pools\<close> by (simp add: no_block_def)
    next
      assume "r \<noteq> 0" and g: "got_block pools n pools' r k"
      then have "frames_at r k \<inter> pool_frames pool = {}"
        using split_frames(2) [OF Cons.prems, of r n] by (simp add: got_block_def)
      then show ?thesis using \<open>r \<noteq> 0\<close> g by (auto simp: got_block_def pool_block_Cons free_frames_Cons)
    qed
    with run wf' ih(3) show ?thesis by auto
  qed
qed

lemma pool_end:
  assumes "wf_pool pool"
  shows "sz_add (base_addr pool) (sz_sub (sz_mul ARCH_PAGESIZE (page_count pool)) 1)
    = base_addr pool + 4096 * page_count pool - 1"
proof -
  have *: "base_addr pool + 4096 * page_count pool < 2 ^ 32" "0 < page_count pool"
    using assms by (auto simp: wf_pool_def)
  then have "sz_sub (sz_mul ARCH_PAGESIZE (page_count pool)) 1 = 4096 * page_count pool - 1"
    by (simp add: ARCH_PAGESIZE_def sz_mul_no_wrap sz_sub_no_wrap)
  with * show ?thesis by (simp add: sz_add_no_wrap)
qed

lemma in_span_range:
  assumes "base_addr pool mod 4096 = 0"
  shows "ptr div 4096 \<in> pool_span pool \<longleftrightarrow> base_addr pool \<le> ptr \<and> ptr < base_addr pool + 4096 * page_count pool"
proof -
  obtain b where b: "base_addr pool = 4096 * b" using assms by (metis mod_0_imp_dvd dvdE)
  have "b \<le> ptr div 4096 \<longleftrightarrow> 4096 * b \<le> ptr" by (simp add: less_eq_div_iff_mult_less_eq mult.commute)
  moreover have "ptr div 4096 < b + page_count pool \<longleftrightarrow> ptr < 4096 * (b + page_count pool)"
    by (simp add: div_less_iff_less_mult mult.commute)
  ultimately show ?thesis by (simp add: pool_span_def frames_at_def b distrib_left)
qed

lemma block_first_frame: "ptr div 4096 \<in> frames_at ptr (2 ^ j)"
  by (simp add: frames_at_def)

lemma free_from_pool_frames:
  assumes "wf_pool pool" and "0 < n" and "in_pool pool ptr (block_order n)"
    and "frames_at ptr (2 ^ block_order n) \<inter> pool_frames pool = {}"
  shows "\<exists>pool'. free_from_pool pool ptr n = Inr pool' \<and> wf_pool pool' \<and>
    base_addr pool' = base_addr pool \<and> page_count pool' = page_count pool \<and>
    pool_frames pool' = pool_frames pool \<union> frames_at ptr (2 ^ block_order n)"
proof -
  let ?j = "block_order n" and ?L = "pool_levels pool"
  obtain i where i: "ptr = base_addr pool + 4096 * (i * 2 ^ ?j)" "(i + 1) * 2 ^ ?j \<le> 2 ^ ?L"
    using assms(1,3) by (auto simp: in_pool_def wf_pool_def)
  have "(2::nat) ^ ?j \<le> 2 ^ ?L" using i(2) by (simp add: add_leD1)
  then have j: "?j \<le> ?L" by simp
  then have "(2::nat) ^ ?L = 2 ^ (?L - ?j) * 2 ^ ?j" by (simp flip: power_add)
  with i(2) have "i < 2 ^ (?L - ?j)" by (simp only: mult_le_cancel2) auto
  moreover have "order_pages ?j i \<inter> pool_free pool = {}"
    using assms(4) unfolding i(1) frames_of_block pool_frames_def by auto
  ultimately obtain pool' where p: "free_from_pool pool ptr n = Inr pool'" "wf_pool pool'"
      "base_addr pool' = base_addr pool" "page_count pool' = page_count pool"
      "pool_free pool' = pool_free pool \<union> order_pages ?j i"
    using free_from_pool_spec [OF assms(1,2) refl j] i(1) by blast
  then have "pool_frames pool' = pool_frames pool \<union> frames_at ptr (2 ^ ?j)"
    unfolding i(1) frames_of_block pool_frames_def by (simp add: image_Un)
  with p show ?thesis by blast
qed

lemma pmm_free_head:
  assumes "wf_pool pool" and "0 < n" and "in_pool pool ptr (block_order n)"
  shows "pmm_free_loop (pool # pools) ptr n = bind_res (free_from_pool pool ptr n) (\<lambda>pool'. Inr (pool' # pools))"
proof -
  let ?k = "2 ^ block_order n :: nat"
  obtain i where i: "ptr = base_addr pool + 4096 * (i * ?k)" "(i + 1) * ?k \<le> page_count pool"
    using assms(3) by (auto simp: in_pool_def)
  have lim: "base_addr pool + 4096 * page_count pool < 2 ^ 32" using assms(1) by (simp add: wf_pool_def)
  have n: "n \<le> ?k" by (rule block_order_bounds)
  have pend: "ptr + 4096 * n \<le> base_addr pool + 4096 * page_count pool" using i n by simp
  then have "sz_sub (sz_mul ARCH_PAGESIZE n) 1 = 4096 * n - 1"
    using lim assms(2) by (simp add: ARCH_PAGESIZE_def sz_mul_no_wrap sz_sub_no_wrap)
  then have last: "sz_add ptr (sz_sub (sz_mul ARCH_PAGESIZE n) 1) = ptr + 4096 * n - 1"
    using lim pend assms(2) by (simp add: sz_add_no_wrap)
  have "\<not> (ptr < base_addr pool \<or> base_addr pool + 4096 * page_count pool - 1 < ptr)"
      "\<not> (ptr + 4096 * n - 1 \<le> base_addr pool \<or>
        base_addr pool + 4096 * page_count pool - 1 < ptr + 4096 * n - 1)"
    using pend assms(2) i(1) by auto
  then show ?thesis
    unfolding pmm_free_loop.simps pool_end [OF assms(1)] Let_def last by (simp only: if_False)
qed

lemma pmm_free_loop_spec:
  assumes "wf_pmm pools" and "0 < n" and "pool_block pools ptr n"
    and "frames_at ptr (2 ^ block_order n) \<inter> free_frames pools = {}"
  shows "\<exists>pools'. pmm_free_loop pools ptr n = Inr pools' \<and> wf_pmm pools' \<and>
    pmm_shape pools' = pmm_shape pools \<and>
    free_frames pools' = free_frames pools \<union> frames_at ptr (2 ^ block_order n)"
  using assms(1,3,4)
proof (induction pools)
  case Nil
  then show ?case by (simp add: pool_block_def)
next
  case (Cons pool pools)
  have wf: "wf_pool pool" "\<forall>q\<in>set pools. pool_span pool \<inter> pool_span q = {}" "wf_pmm pools" using Cons.prems by auto
  show ?case
  proof (cases "in_pool pool ptr (block_order n)")
    case True
    then obtain pool' where p: "free_from_pool pool ptr n = Inr pool'" "wf_pool pool'"
        "base_addr pool' = base_addr pool" "page_count pool' = page_count pool"
        "pool_frames pool' = pool_frames pool \<union> frames_at ptr (2 ^ block_order n)"
      using free_from_pool_frames [OF wf(1) assms(2) True] Cons.prems(3) by (auto simp: free_frames_Cons)
    then show ?thesis
      using pmm_free_head [OF wf(1) assms(2) True] wf by (auto simp: free_frames_Cons pool_span_def)
  next
    case False
    then have pb: "pool_block pools ptr n" using Cons.prems(2) by (simp add: pool_block_Cons)
    then obtain q where "q \<in> set pools" "ptr div 4096 \<in> pool_span q"
      using pool_block_span block_first_frame by (fastforce simp: pool_block_def)
    then have "ptr div 4096 \<notin> pool_span pool" using wf(2) by blast
    then have "pmm_free_loop (pool # pools) ptr n = bind_res (pmm_free_loop pools ptr n) (\<lambda>pools'. Inr (pool # pools'))"
      using in_span_range [of pool ptr] wf(1)
      unfolding pmm_free_loop.simps pool_end [OF wf(1)] Let_def by (auto simp: wf_pool_def)
    moreover obtain pools' where ih: "pmm_free_loop pools ptr n = Inr pools'" "wf_pmm pools'"
        "pmm_shape pools' = pmm_shape pools"
        "free_frames pools' = free_frames pools \<union> frames_at ptr (2 ^ block_order n)"
      using Cons.IH wf(3) pb Cons.prems(3) by (auto simp: free_frames_Cons)
    ultimately show ?thesis
      using wf(1) disjoint_shape [OF ih(3) wf(2)] by (auto simp: free_frames_Cons)
  qed
qed

subsection \<open>Registering memory\<close>

lemma calc_sizes_loop_bits:
  assumes "0 < n" and "bits + 2 * n < 2 ^ 32"
  shows "\<exists>k levels' bits'. calc_sizes_loop n r levels bits = (r * 2 ^ k, levels', bits') \<and>
    2 ^ k \<le> n \<and> n < 2 ^ Suc k \<and> bits + 2 ^ Suc k \<le> bits' + 2 \<and> bits' \<le> bits + 2 * n"
  using assms
proof (induction n r levels bits rule: calc_sizes_loop.induct)
  case (1 n r levels bits)
  show ?case
  proof (cases "1 < n")
    case True
    have add: "sz_add bits n = bits + n" using "1.prems" by (simp add: sz_add_no_wrap)
    have half: "2 * (n div 2) \<le> n" by simp
    then obtain k levels' bits' where k: "calc_sizes_loop (n div 2) (r * 2) (levels + 1) (bits + n)
        = (r * 2 * 2 ^ k, levels', bits')" "2 ^ k \<le> n div 2" "n div 2 < 2 ^ Suc k"
        "bits + n + 2 ^ Suc k \<le> bits' + 2" "bits' \<le> bits + n + 2 * (n div 2)"
      using 1 True unfolding add by fastforce
    then have "calc_sizes_loop n r levels bits = (r * 2 ^ Suc k, levels', bits')"
      using True by (simp add: calc_sizes_loop.simps [of n] add)
    moreover have "2 ^ Suc k \<le> n" "n < 2 ^ Suc (Suc k)" "bits + 2 ^ Suc (Suc k) \<le> bits' + 2" "bits' \<le> bits + 2 * n"
      using k half by auto
    ultimately show ?thesis by blast
  next
    case False
    then have "calc_sizes_loop n r levels bits = (r * 2 ^ 0, levels, bits) \<and> 2 ^ 0 \<le> n \<and> n < 2 ^ Suc 0
        \<and> bits + 2 ^ Suc 0 \<le> bits + 2 \<and> bits \<le> bits + 2 * n"
      using "1.prems" by (simp add: calc_sizes_loop.simps [of n])
    then show ?thesis by blast
  qed
qed

lemma fresh_bitmap_get: "\<not> bm_get \<lparr>words = replicate w 0, word_count = w\<rparr> k"
  by (simp add: bm_get_def)

lemma fresh_pool:
  assumes "w < 2 ^ 26" and "2 ^ Suc k - 1 \<le> 32 * w"
    and "0 < base" and "base mod 4096 = 0" and "base + 4096 * 2 ^ k < 2 ^ 32"
  defines "pool \<equiv> new_pool w base (2 ^ k)"
  shows "\<exists>bm. bitmap_set_bit (pool_bitmap pool) 0 = Inr bm \<and> wf_pool (pool\<lparr>pool_bitmap := bm\<rparr>) \<and>
    pool_free (pool\<lparr>pool_bitmap := bm\<rparr>) = {..<2 ^ k}"
proof -
  let ?bm = "pool_bitmap pool"
  have L: "pool_levels pool = k"
    using pool_level_loop_eq [of 0 k 0]
    by (simp add: pool_levels_def block_size_to_pagepool_level_def pool_def new_pool_def)
  have pb: "pool_bits k ?bm" using assms by (simp add: pool_bits_def wf_bitmap_def pool_def new_pool_def)
  have v: "valid_block k (0, 0)" by (simp add: valid_block_def)
  have "avail k ?bm = {}" by (simp add: avail_def pool_def new_pool_def fresh_bitmap_get)
  then have av: "avail k (bm_set ?bm (bit_of 0 0)) = {(0, 0)}" using avail_set [OF pb v] by simp
  have inv: "buddy_inv k {(0, 0)}" by (simp add: buddy_inv_def valid_block_def no_overlap_def coalesced_def)
  have fp: "free_pages k {(0, 0)} = {..<2 ^ k}"
    using pages_interval [OF v] by (auto simp: free_pages_def)
  have "bitmap_set_bit ?bm 0 = Inr (bm_set ?bm (bit_of 0 0))"
    using block_ops(1) [OF pb v] by (simp add: bit_of_def)
  moreover have "base_addr pool = base" "page_count pool = 2 ^ k" by (simp_all add: pool_def new_pool_def)
  ultimately show ?thesis
    using assms(3-5) pb av inv fp L by (simp add: wf_pool_def pool_free_def)
qed

lemma needed_words:
  assumes "2 ^ Suc k \<le> bits + 1" and "bits \<le> 2 * n + 1" and "4096 * n < 2 ^ 32"
  obtains w where "bitmap_needed_word_count bits = Inr w" "w < 2 ^ 26" "2 ^ Suc k - 1 \<le> 32 * w"
proof
  let ?w = "(bits + 31) div 32"
  show "bitmap_needed_word_count bits = Inr ?w"
    using size_to_blocks_value [of 32 bits] by (simp add: bitmap_needed_word_count_def BITS_PER_WORD_def)
  show "?w < 2 ^ 26" using assms(2,3) by (simp add: div_less_iff_less_mult)
  have "bits \<le> 32 * ?w" by presburger
  then show "2 ^ Suc k - 1 \<le> 32 * ?w" using assms(1) by linarith
qed

lemma register_step:
  assumes "0 < n" and "0 < base" and "base mod 4096 = 0" and "base + 4096 * n < 2 ^ 32" and "\<forall>s. heap_ok s"
  shows "\<exists>pool k. register_loop heap_ok pools base n = register_loop heap_ok (pool # pools) (base + 4096 * 2 ^ k) (n - 2 ^ k) \<and>
    2 ^ k \<le> n \<and> wf_pool pool \<and> base_addr pool = base \<and> page_count pool = 2 ^ k \<and> pool_free pool = {..<2 ^ k}"
proof -
  have "1 + 2 * n < 2 ^ 32" using assms(4) by simp
  then obtain k levels bits where c: "calculate_pagepool_sizes n = (2 ^ k, levels, bits)" "2 ^ k \<le> n"
      "2 ^ Suc k \<le> bits + 1" "bits \<le> 2 * n + 1"
    using calc_sizes_loop_bits [OF assms(1), of 1 1 1] by (auto simp: calculate_pagepool_sizes_def)
  have "4096 * n < 2 ^ 32" using assms(4) by simp
  then obtain w where w: "bitmap_needed_word_count bits = Inr w" "w < 2 ^ 26" "2 ^ Suc k - 1 \<le> 32 * w"
    using needed_words [OF c(3,4)] by blast
  let ?new = "new_pool w base (2 ^ k)"
  have "4096 * 2 ^ k \<le> 4096 * n" using c(2) by simp
  then have lim: "base + 4096 * 2 ^ k < 2 ^ 32" using assms(4) by linarith
  obtain bm where bm: "bitmap_set_bit (pool_bitmap ?new) 0 = Inr bm"
      "wf_pool (?new\<lparr>pool_bitmap := bm\<rparr>)" "pool_free (?new\<lparr>pool_bitmap := bm\<rparr>) = {..<2 ^ k}"
    using fresh_pool [OF w(2,3) assms(2,3) lim] by blast
  have nx: "sz_add base (sz_mul ARCH_PAGESIZE (2 ^ k)) = base + 4096 * 2 ^ k"
    using lim by (simp add: ARCH_PAGESIZE_def sz_add_def sz_mul_def)
  have fields: "base_addr ?new = base" "page_count ?new = 2 ^ k" by (simp_all add: new_pool_def)
  have "assert_res (base_addr ?new mod ARCH_PAGESIZE = 0) = Inr ()"
    using assms(3) by (simp add: fields ARCH_PAGESIZE_def)
  then have "register_loop heap_ok pools base n =
      register_loop heap_ok (?new\<lparr>pool_bitmap := bm\<rparr> # pools) (base + 4096 * 2 ^ k) (n - 2 ^ k)"
    unfolding register_loop.simps [of heap_ok pools base n] c(1) prod.case w(1) Let_def
    using assms(1,5) by (simp only: bind_res_Inr bm(1) nx) simp
  then show ?thesis using c(2) bm(2,3) fields by (intro exI conjI) auto
qed

lemma register_loop_spec:
  assumes "wf_pmm pools" and "0 < base" and "base mod 4096 = 0" and "base + 4096 * n < 2 ^ 32"
    and "\<forall>s. heap_ok s" and "\<forall>q\<in>set pools. frames_at base n \<inter> pool_span q = {}"
  shows "\<exists>pools'. register_loop heap_ok pools base n = Inr pools' \<and> wf_pmm pools' \<and>
    free_frames pools' = free_frames pools \<union> frames_at base n"
  using assms(1,2,3,4,6)
proof (induction n arbitrary: pools base rule: less_induct)
  case (less n)
  show ?case
  proof (cases "n = 0")
    case True
    then show ?thesis using less.prems by (simp add: register_loop.simps frames_at_def)
  next
    case False
    then obtain pool k where p: "register_loop heap_ok pools base n =
          register_loop heap_ok (pool # pools) (base + 4096 * 2 ^ k) (n - 2 ^ k)"
        "2 ^ k \<le> n" "wf_pool pool" "base_addr pool = base" "page_count pool = 2 ^ k" "pool_free pool = {..<2 ^ k}"
      using register_step [of n base heap_ok pools] less.prems assms(5) by auto
    have fr: "frames_at base n = frames_at base (2 ^ k) \<union> frames_at (base + 4096 * 2 ^ k) (n - 2 ^ k)"
      "frames_at (base + 4096 * 2 ^ k) (n - 2 ^ k) \<inter> frames_at base (2 ^ k) = {}"
      using p(2) by (auto simp: frames_at_def)
    have span: "pool_span pool = frames_at base (2 ^ k)" by (simp add: pool_span_def p)
    have pf: "pool_frames pool = frames_at base (2 ^ k)"
      by (simp add: pool_frames_def p frames_at_def lessThan_atLeast0 image_add_atLeastLessThan add.commute)
    have "4096 * 2 ^ k + 4096 * (n - 2 ^ k) = 4096 * n" using p(2) by (simp add: diff_mult_distrib2)
    then have lim: "base + 4096 * 2 ^ k + 4096 * (n - 2 ^ k) < 2 ^ 32" using less.prems(4) by simp
    have "\<exists>pools'. register_loop heap_ok (pool # pools) (base + 4096 * 2 ^ k) (n - 2 ^ k) = Inr pools' \<and> wf_pmm pools' \<and>
        free_frames pools' = free_frames (pool # pools) \<union> frames_at (base + 4096 * 2 ^ k) (n - 2 ^ k)"
    proof (rule less.IH)
      show "n - 2 ^ k < n" using False by simp
      show "wf_pmm (pool # pools)" using less.prems(1,5) p(3) span fr by auto
      show "\<forall>q\<in>set (pool # pools). frames_at (base + 4096 * 2 ^ k) (n - 2 ^ k) \<inter> pool_span q = {}"
        using less.prems(5) span fr by auto
    qed (use less.prems lim in auto)
    then show ?thesis using p(1) fr(1) by (auto simp: free_frames_Cons pf)
  qed
qed

subsection \<open>The allocator's contract\<close>

text \<open>
  What the users of the physical memory manager rely on. \<open>block s p k\<close>: \<open>p\<close> is the address of
  a block of \<open>k\<close> pages of the allocator.
\<close>

locale page_allocator =
  fixes inv :: "'s \<Rightarrow> bool"
    and free_of :: "'s \<Rightarrow> nat set"
    and block :: "'s \<Rightarrow> nat \<Rightarrow> nat \<Rightarrow> bool"
    and shape :: "'s \<Rightarrow> 'h"
    and alloc :: "'s \<Rightarrow> nat \<Rightarrow> ('s \<times> nat \<times> nat) res"
    and release :: "'s \<Rightarrow> nat \<Rightarrow> nat \<Rightarrow> 's res"
  assumes alloc: "inv s \<Longrightarrow> 0 < n \<Longrightarrow> n < 2 ^ 32 \<Longrightarrow>
      \<exists>s' p k. alloc s n = Inr (s', p, k) \<and> inv s' \<and> block s' = block s \<and> shape s' = shape s \<and>
        (p = 0 \<and> s' = s \<or>
         p \<noteq> 0 \<and> n \<le> k \<and> block s p k \<and> frames_at p k \<subseteq> free_of s \<and> free_of s' = free_of s - frames_at p k)"
    and release: "inv s \<Longrightarrow> block s p k \<Longrightarrow> frames_at p k \<inter> free_of s = {} \<Longrightarrow>
      \<exists>s'. release s p k = Inr s' \<and> inv s' \<and> block s' = block s \<and> shape s' = shape s \<and> free_of s' = free_of s \<union> frames_at p k"
begin

lemma allocD:
  assumes "inv s" and "0 < n" and "n < 2 ^ 32" and "alloc s n = Inr (s', p, k)" and "p \<noteq> 0"
  shows "inv s'" and "block s' = block s" and "n \<le> k" and "block s p k" and "frames_at p k \<subseteq> free_of s"
    and "free_of s' = free_of s - frames_at p k" and "shape s' = shape s"
  using alloc [OF assms(1-3)] assms(4,5) by auto

lemma alloc_release:
  assumes "inv s" and "0 < n" and "n < 2 ^ 32" and "alloc s n = Inr (s', p, k)" and "p \<noteq> 0"
  shows "\<exists>s''. release s' p k = Inr s'' \<and> inv s'' \<and> shape s'' = shape s \<and> free_of s'' = free_of s"
proof -
  note a = allocD [OF assms]
  have "frames_at p k \<inter> free_of s' = {}" using a(6) by blast
  then obtain s'' where "release s' p k = Inr s''" "inv s''" "shape s'' = shape s'" "free_of s'' = free_of s' \<union> frames_at p k"
    using release [of s' p k] a by auto
  with a show ?thesis by auto
qed

lemma alloc_alloc:
  assumes "inv s" and "0 < n" "n < 2 ^ 32" and "0 < m" "m < 2 ^ 32"
    and "alloc s n = Inr (s1, p, k)" and "p \<noteq> 0" and "alloc s1 m = Inr (s2, q, l)" and "q \<noteq> 0"
  shows "frames_at p k \<inter> frames_at q l = {}"
    and "\<exists>s3. release s2 p k = Inr s3 \<and> inv s3 \<and>
      (\<exists>s4. release s3 q l = Inr s4 \<and> inv s4 \<and> free_of s4 = free_of s)"
proof -
  note a = allocD [OF assms(1,2,3,6,7)]
  note b = allocD [OF a(1) assms(4,5,8,9)]
  show dj: "frames_at p k \<inter> frames_at q l = {}" using a(6) b(5) by blast
  obtain s3 where s3: "release s2 p k = Inr s3" "inv s3" "block s3 = block s2" "free_of s3 = free_of s2 \<union> frames_at p k"
    using release [of s2 p k] a b by auto
  moreover from this have "frames_at q l \<inter> free_of s3 = {}" using b(6) dj by blast
  ultimately obtain s4 where "release s3 q l = Inr s4" "inv s4" "free_of s4 = free_of s3 \<union> frames_at q l"
    using release [of s3 q l] a b by auto
  with s3 a b have "free_of s4 = free_of s" by auto
  with s3 \<open>release s3 q l = Inr s4\<close> \<open>inv s4\<close> show "\<exists>s3. release s2 p k = Inr s3 \<and> inv s3 \<and>
      (\<exists>s4. release s3 q l = Inr s4 \<and> inv s4 \<and> free_of s4 = free_of s)" by blast
qed

end

lemma block_order_power [simp]: "block_order (2 ^ j) = j"
  by (rule block_order_eqI) auto

definition pmm_block :: "pagepool list \<Rightarrow> nat \<Rightarrow> nat \<Rightarrow> bool" where
  "pmm_block pools ptr k \<longleftrightarrow> k = 2 ^ block_order k \<and> pool_block pools ptr k \<and> ptr \<noteq> 0"

lemma pmm_block_shape: "pmm_shape ps = pmm_shape qs \<Longrightarrow> pmm_block ps = pmm_block qs"
  by (intro ext) (simp add: pmm_block_def pool_block_shape)

lemma pool_block_power: "pool_block pools ptr (2 ^ block_order n) \<longleftrightarrow> pool_block pools ptr n"
  by (simp add: pool_block_def)

interpretation pmm: page_allocator wf_pmm free_frames pmm_block pmm_shape pmm_alloc pmm_free
proof unfold_locales
  fix pools :: "pagepool list" and n :: nat
  assume *: "wf_pmm pools" "0 < n" "n < 2 ^ 32"
  obtain pools' r k where a: "pmm_alloc_loop pools n = Inr (pools', r, k)" "wf_pmm pools'"
      "pmm_shape pools' = pmm_shape pools"
      "r = 0 \<and> pools' = pools \<and> no_block pools n \<or> r \<noteq> 0 \<and> got_block pools n pools' r k"
    using pmm_alloc_loop_spec [OF *] by blast
  have "pmm_alloc pools n = Inr (pools', r, k)" using a(1) *(2) by (simp add: pmm_alloc_def)
  moreover have "n \<le> k \<and> pmm_block pools r k" if "r \<noteq> 0" "got_block pools n pools' r k"
    using that block_order_bounds(1) [of n] by (auto simp: got_block_def pmm_block_def pool_block_power)
  ultimately show "\<exists>pools' p k. pmm_alloc pools n = Inr (pools', p, k) \<and> wf_pmm pools' \<and> pmm_block pools' = pmm_block pools \<and> pmm_shape pools' = pmm_shape pools \<and>
      (p = 0 \<and> pools' = pools \<or> p \<noteq> 0 \<and> n \<le> k \<and> pmm_block pools p k \<and> frames_at p k \<subseteq> free_frames pools \<and>
        free_frames pools' = free_frames pools - frames_at p k)"
    using a(2-4) pmm_block_shape [OF a(3)] unfolding got_block_def by blast
next
  fix pools :: "pagepool list" and p k :: nat
  assume *: "wf_pmm pools" "pmm_block pools p k" "frames_at p k \<inter> free_frames pools = {}"
  then have k: "k = 2 ^ block_order k" "pool_block pools p k" "p \<noteq> 0" by (auto simp: pmm_block_def)
  then have "0 < k" by (metis zero_less_power zero_less_numeral)
  obtain pools' where f: "pmm_free_loop pools p k = Inr pools'" "wf_pmm pools'" "pmm_shape pools' = pmm_shape pools"
      "free_frames pools' = free_frames pools \<union> frames_at p k"
    using pmm_free_loop_spec [OF *(1) \<open>0 < k\<close> k(2)] *(3) k(1) by auto
  then have "pmm_free pools p k = Inr pools'" using k(3) \<open>0 < k\<close> by (simp add: pmm_free_def)
  with f show "\<exists>pools'. pmm_free pools p k = Inr pools' \<and> wf_pmm pools' \<and> pmm_block pools' = pmm_block pools \<and> pmm_shape pools' = pmm_shape pools \<and>
      free_frames pools' = free_frames pools \<union> frames_at p k"
    using pmm_block_shape by blast
qed

text \<open>The free frames determine the available blocks of every pool.\<close>

lemma same_frames_same_blocks:
  assumes "wf_pmm ps" and "wf_pmm qs" and "pmm_shape ps = pmm_shape qs" and "free_frames ps = free_frames qs"
  shows "map pool_avail ps = map pool_avail qs"
  using assms
proof (induction ps arbitrary: qs)
  case Nil
  then show ?case by (simp add: pmm_shape_def)
next
  case (Cons p ps)
  then obtain q qs' where qs: "qs = q # qs'" by (cases qs) (auto simp: pmm_shape_def)
  have sh: "base_addr p = base_addr q" "page_count p = page_count q" "pmm_shape ps = pmm_shape qs'"
    using Cons.prems(3) by (simp_all add: qs)
  then have span: "pool_span p = pool_span q" by (simp add: pool_span_def)
  have wf: "wf_pool p" "wf_pool q" "wf_pmm ps" "wf_pmm qs'"
      "\<forall>r\<in>set ps. pool_span p \<inter> pool_span r = {}" "\<forall>r\<in>set qs'. pool_span q \<inter> pool_span r = {}"
    using Cons.prems(1,2) by (auto simp: qs)
  have dj: "pool_span p \<inter> free_frames ps = {}" "pool_span p \<inter> free_frames qs' = {}"
    using disjoint_free [OF wf(3,5)] disjoint_free [OF wf(4,6)] span by auto
  have un: "pool_frames p \<union> free_frames ps = pool_frames q \<union> free_frames qs'"
    using Cons.prems(4) by (simp add: qs free_frames_Cons)
  note fs = pool_frames_span [OF wf(1)] pool_frames_span [OF wf(2)]
  have pf: "pool_frames p = pool_frames q" and ff: "free_frames ps = free_frames qs'"
    using un dj fs span by blast+
  have "pool_free p = pool_free q"
    using pf sh(1) by (simp add: pool_frames_def inj_image_eq_iff)
  moreover have L: "pool_levels p = pool_levels q"
    using sh(2) by (simp add: pool_levels_def block_size_to_pagepool_level_def)
  ultimately have "pool_avail p = pool_avail q"
    using buddy_subset [of "pool_levels p" "pool_avail p" "pool_avail q"]
      buddy_subset [of "pool_levels p" "pool_avail q" "pool_avail p"] wf(1,2)
    by (simp add: wf_pool_def pool_free_def subset_antisym)
  then show ?case using Cons.IH [OF wf(3,4) sh(3) ff] by (simp add: qs)
qed

subsection \<open>Properties\<close>

text \<open>A pool of two pages at address 4096 on which the properties are instantiated.\<close>

definition two_page_pool :: pagepool where
  "two_page_pool = \<lparr>pool_bitmap = \<lparr>words = [1], word_count = 1\<rparr>, base_addr = 4096, page_count = 2, level_count = 0\<rparr>"

lemma two_page_pool_wf: "wf_pool two_page_pool" "pool_free two_page_pool = {..<2}"
proof -
  have "new_pool 1 4096 2\<lparr>pool_bitmap := \<lparr>words = [1], word_count = 1\<rparr>\<rparr> = two_page_pool"
    by (simp add: new_pool_def two_page_pool_def)
  moreover have "bitmap_set_bit (pool_bitmap (new_pool 1 4096 2)) 0 = Inr \<lparr>words = [1], word_count = 1\<rparr>"
    by (simp add: new_pool_def bitmap_set_bit_def BITS_PER_WORD_def)
  ultimately show "wf_pool two_page_pool" "pool_free two_page_pool = {..<2}"
    using fresh_pool [of 1 1 4096] by auto
qed

lemma two_page_pool_facts:
  "pool_levels two_page_pool = 1" "(0, 0) \<in> pool_avail two_page_pool" "wf_pmm [two_page_pool]"
proof -
  show L: "pool_levels two_page_pool = 1"
    by (simp add: pool_levels_def block_size_to_pagepool_level_def two_page_pool_def pool_level_loop.simps)
  show "(0, 0) \<in> pool_avail two_page_pool"
    by (simp add: pool_avail_def avail_def L) (simp add: two_page_pool_def bm_get_def bit_of_def)
  show "wf_pmm [two_page_pool]" by (simp add: two_page_pool_wf)
qed

lemma block_order_1: "block_order 1 = 0" "block_order (Suc 0) = 0"
  using block_order_power [of 0] by simp_all

lemma two_page_pool_frames: "free_frames [two_page_pool] = {1, 2}"
proof -
  have "base_addr two_page_pool div 4096 = 1" by (simp add: two_page_pool_def)
  moreover have "{..<2} = {0, 1 :: nat}" by auto
  ultimately show ?thesis by (simp add: free_frames_def pool_frames_def two_page_pool_wf(2) numeral_2_eq_2)
qed

lemma alloc_one_page:
  assumes "wf_pmm pools" and "pool_block pools p 1" and "frames_at p 1 \<subseteq> free_frames pools"
  shows "\<exists>pools' ptr. pmm_alloc pools 1 = Inr (pools', ptr, 1) \<and> ptr \<noteq> 0 \<and> wf_pmm pools' \<and>
    pool_block pools ptr 1 \<and> pmm_shape pools' = pmm_shape pools \<and>
    free_frames pools' = free_frames pools - frames_at ptr 1"
proof -
  have "\<not> no_block pools 1" using assms(2,3) by (auto simp: no_block_def block_order_1)
  moreover have "pmm_alloc pools 1 = pmm_alloc_loop pools 1" by (simp add: pmm_alloc_def)
  ultimately show ?thesis
    using pmm_alloc_loop_spec [OF assms(1), of 1] by (auto simp: got_block_def block_order_1)
qed

lemma two_page_pool_block: "pool_block [two_page_pool] (4096 + 4096 * i) 1 \<longleftrightarrow> i < 2"
  unfolding pool_block_def in_pool_def block_order_1 by (auto simp: two_page_pool_def)

lemma two_page_pool_alloc:
  "\<exists>pools' ptr. pmm_alloc [two_page_pool] 1 = Inr (pools', ptr, 1) \<and> ptr \<noteq> 0 \<and> wf_pmm pools' \<and>
     pool_block [two_page_pool] ptr 1 \<and> pmm_shape pools' = pmm_shape [two_page_pool] \<and>
     free_frames pools' = free_frames [two_page_pool] - frames_at ptr 1"
  using alloc_one_page [OF two_page_pool_facts(3), of 4096] two_page_pool_block [of 0]
  by (simp add: two_page_pool_frames frames_at_def)

lemma two_page_pool_second:
  assumes "wf_pmm pools1" and "pool_block [two_page_pool] p 1" and "pmm_shape pools1 = pmm_shape [two_page_pool]"
    and "free_frames pools1 = free_frames [two_page_pool] - frames_at p 1"
  shows "\<exists>pools2 q l. pmm_alloc pools1 1 = Inr (pools2, q, l) \<and> q \<noteq> 0"
proof -
  obtain i where i: "p = 4096 + 4096 * i"
    using assms(2) unfolding pool_block_def in_pool_def block_order_1 by (auto simp: two_page_pool_def)
  then have "i < 2" using assms(2) by (simp only: two_page_pool_block)
  let ?q = "4096 + 4096 * (1 - i) :: nat"
  have "pool_block pools1 ?q 1"
    using two_page_pool_block [of "1 - i"] unfolding pool_block_shape assms(3) by simp
  moreover have "frames_at ?q 1 \<subseteq> free_frames pools1"
    using i \<open>i < 2\<close> unfolding assms(4) two_page_pool_frames by (cases i) (auto simp: frames_at_def)
  ultimately show ?thesis using alloc_one_page [OF assms(1)] by blast
qed

text \<open>
  Claim C5: \<open>pmm_alloc\<close> on well-formed pools always returns. It answers null only when no pool has
  a free block of the request rounded up to a power of two, and then changes nothing; otherwise
  it returns a page-aligned block of that size which was entirely free, updates the page count to the
  block's size, and exactly the frames of the block stop being free.
\<close>

theorem pmm_alloc_correct:
  assumes "wf_pmm pools" and "0 < n" and "n < 2 ^ 32"
  shows "\<exists>pools' r k. pmm_alloc pools n = Inr (pools', r, k) \<and> wf_pmm pools' \<and>
    (r = 0 \<longleftrightarrow> no_block pools n) \<and>
    (r = 0 \<longrightarrow> pools' = pools) \<and>
    (r \<noteq> 0 \<longrightarrow> n \<le> k \<and> k < 2 * n \<and> pool_block pools r n \<and> frames_at r k \<subseteq> free_frames pools \<and>
       free_frames pools' = free_frames pools - frames_at r k)"
proof -
  obtain pools' r k where a: "pmm_alloc_loop pools n = Inr (pools', r, k)" "wf_pmm pools'"
      "r = 0 \<and> pools' = pools \<and> no_block pools n \<or> r \<noteq> 0 \<and> got_block pools n pools' r k"
    using pmm_alloc_loop_spec [OF assms] by blast
  have b: "n \<le> 2 ^ block_order n" "(2::nat) ^ block_order n < 2 * n"
    using block_order_bounds [of n] assms(2) by (cases "block_order n"; simp)+
  moreover have "\<not> no_block pools n" if "got_block pools n pools' r k"
    using that by (auto simp: got_block_def no_block_def)
  moreover have "pmm_alloc pools n = Inr (pools', r, k)" using a(1) assms(2) by (simp add: pmm_alloc_def)
  ultimately show ?thesis using a(2,3) by (auto simp: got_block_def)
qed

theorem pmm_alloc_correct_witness:
  "\<exists>pools' r k. pmm_alloc [two_page_pool] 2 = Inr (pools', r, k) \<and> wf_pmm pools' \<and>
    (r = 0 \<longleftrightarrow> no_block [two_page_pool] 2) \<and>
    (r = 0 \<longrightarrow> pools' = [two_page_pool]) \<and>
    (r \<noteq> 0 \<longrightarrow> 2 \<le> k \<and> k < 2 * 2 \<and> pool_block [two_page_pool] r 2 \<and> frames_at r k \<subseteq> free_frames [two_page_pool] \<and>
       free_frames pools' = free_frames [two_page_pool] - frames_at r k)"
  by (rule pmm_alloc_correct) (simp_all add: two_page_pool_wf)

text \<open>
  Claim C7: a block that was allocated can be given back: \<open>pmm_free\<close> with the address and page
  count returned by \<open>pmm_alloc\<close> does not panic, keeps the pools well formed, and leaves every
  pool with exactly the available blocks it had before the allocation (all splits are undone).
\<close>

theorem pmm_free_undoes_alloc:
  assumes "wf_pmm pools" and "0 < n" and "n < 2 ^ 32" and "pmm_alloc pools n = Inr (pools', ptr, k)" and "ptr \<noteq> 0"
  shows "\<exists>pools''. pmm_free pools' ptr k = Inr pools'' \<and> wf_pmm pools'' \<and>
    map pool_avail pools'' = map pool_avail pools"
proof -
  obtain pools'' where "pmm_free pools' ptr k = Inr pools''" "wf_pmm pools''" "pmm_shape pools'' = pmm_shape pools"
      "free_frames pools'' = free_frames pools"
    using pmm.alloc_release [OF assms] by blast
  then show ?thesis using same_frames_same_blocks assms(1) by blast
qed

theorem pmm_free_undoes_alloc_witness:
  "\<exists>pools' ptr. pmm_alloc [two_page_pool] 1 = Inr (pools', ptr, 1) \<and> ptr \<noteq> 0 \<and>
    (\<exists>pools''. pmm_free pools' ptr 1 = Inr pools'' \<and> wf_pmm pools'' \<and>
      map pool_avail pools'' = map pool_avail [two_page_pool])"
proof -
  obtain pools' ptr where a: "pmm_alloc [two_page_pool] 1 = Inr (pools', ptr, 1)" "ptr \<noteq> 0"
    using two_page_pool_alloc by blast
  then show ?thesis using pmm_free_undoes_alloc [OF two_page_pool_facts(3) _ _ a] by auto
qed

text \<open>
  Claim C34: two allocations never share a page frame, and the two blocks can be released in the
  order of their allocation, after which the same frames are free as before.
\<close>

theorem pmm_allocations_disjoint:
  assumes "wf_pmm pools" and "0 < n" "n < 2 ^ 32" and "0 < m" "m < 2 ^ 32"
    and "pmm_alloc pools n = Inr (pools1, p, k)" and "p \<noteq> 0"
    and "pmm_alloc pools1 m = Inr (pools2, q, l)" and "q \<noteq> 0"
  shows "frames_at p k \<inter> frames_at q l = {} \<and>
    (\<exists>pools3. pmm_free pools2 p k = Inr pools3 \<and> wf_pmm pools3 \<and>
      (\<exists>pools4. pmm_free pools3 q l = Inr pools4 \<and> wf_pmm pools4 \<and> free_frames pools4 = free_frames pools))"
  using pmm.alloc_alloc [OF assms] by simp

theorem pmm_allocations_disjoint_witness:
  "\<exists>pools1 p pools2 q l. pmm_alloc [two_page_pool] 1 = Inr (pools1, p, 1) \<and> p \<noteq> 0 \<and>
    pmm_alloc pools1 1 = Inr (pools2, q, l) \<and> q \<noteq> 0 \<and> frames_at p 1 \<inter> frames_at q l = {}"
proof -
  obtain pools1 p where a: "pmm_alloc [two_page_pool] 1 = Inr (pools1, p, 1)" "p \<noteq> 0" "wf_pmm pools1"
      "pool_block [two_page_pool] p 1" "pmm_shape pools1 = pmm_shape [two_page_pool]"
      "free_frames pools1 = free_frames [two_page_pool] - frames_at p 1"
    using two_page_pool_alloc by blast
  obtain pools2 q l where b: "pmm_alloc pools1 1 = Inr (pools2, q, l)" "q \<noteq> 0"
    using two_page_pool_second [OF a(3-6)] by blast
  have "frames_at p 1 \<inter> frames_at q l = {}"
    using pmm_allocations_disjoint [OF two_page_pool_facts(3) _ _ _ _ a(1,2) b] by simp
  with a b show ?thesis by blast
qed

text \<open>
  \<open>pmm_register_mem\<close>, when the heap serves its requests, ends and adds pools that make
  exactly the pages of the given range free, whatever the page count (it need not be a power
  of two), and keeps the pools well formed.
\<close>

lemma pmm_register_mem_adds_range:
  assumes "wf_pmm pools" and "0 < base" and "base mod 4096 = 0" and "base + 4096 * n < 2 ^ 32"
    and "\<forall>s. heap_ok s" and "\<forall>q\<in>set pools. frames_at base n \<inter> pool_span q = {}"
  shows "\<exists>pools'. pmm_register_mem heap_ok pools base n = Inr pools' \<and> wf_pmm pools' \<and>
    free_frames pools' = free_frames pools \<union> frames_at base n"
  using register_loop_spec [OF assms] assms(2) by (simp add: pmm_register_mem_def)


text \<open>
  The double-free check of \<open>free_from_pool\<close> is incomplete. In a pool that is
  entirely free (every allocation has been returned, and the blocks have merged), freeing any
  single page once more is not detected: the call returns, and the bitmap then holds the page
  both as a block of its own and inside the block of the whole pool.
\<close>

lemma pmm_double_free_undetected:
  assumes "wf_pool pool" and "(0, 0) \<in> pool_avail pool" and "0 < pool_levels pool" and "i < page_count pool"
  shows "\<exists>pool'. free_from_pool pool (base_addr pool + 4096 * i) 1 = Inr pool' \<and> \<not> wf_pool pool' \<and>
    (0, 0) \<in> pool_avail pool' \<and> (pool_levels pool, i) \<in> pool_avail pool'"
proof -
  let ?L = "pool_levels pool" and ?bm = "pool_bitmap pool"
  have L: "page_count pool = 2 ^ ?L" "?L \<le> 30" and pb: "pool_bits ?L ?bm" and inv: "no_overlap ?L (pool_avail pool)"
    using assms(1) pool_bits_level by (auto simp: wf_pool_def buddy_inv_def)
  have all: "p \<in> pages ?L (0, 0)" if "p < 2 ^ ?L" for p using that by (simp add: pages_def)
  have only: "B = (0, 0)" if "B \<in> pool_avail pool" for B
  proof -
    have "valid_block ?L B" using that assms(1) by (auto simp: wf_pool_def buddy_inv_def)
    then obtain p where "p \<in> pages ?L B" using pages_nonempty by blast
    then show ?thesis using no_overlapD [OF inv that assms(2)] all by (auto simp: pages_def)
  qed
  have v: "valid_block ?L (?L, i)" "valid_block ?L (?L, neighbor i)"
    using assms(3,4) L neighbor_valid [of ?L "?L - 1" i] by (auto simp: valid_block_def)
  have nin: "(?L, i) \<notin> avail ?L ?bm" "(?L, neighbor i) \<notin> avail ?L ?bm" "neighbor i \<noteq> i"
    using only [of "(?L, i)"] only [of "(?L, neighbor i)"] assms(3) odd_pos [of i]
    by (auto simp: pool_avail_def) (auto simp: neighbor_def split: if_splits)
  let ?bm' = "bm_set ?bm (bit_of ?L i)"
  have av: "avail ?L ?bm' = insert (?L, i) (pool_avail pool)" using avail_set [OF pb v(1)] by (simp add: pool_avail_def)
  obtain l where l: "?L = Suc l" using assms(3) by (cases ?L) auto
  have nb: "(if i mod 2 = 0 then int (bit_of ?L i) + 1 else int (bit_of ?L i) - 1) = int (bit_of ?L (neighbor i))"
    using neighbor_bit [of ?L l i] v(1) unfolding l by blast
  have "free_loop ?bm ?L i = Inr ?bm'"
    using nin assms(3) v pb L(2)
    by (simp add: free_loop.simps [of ?bm ?L] block_bit_index [where L = ?L] block_ops [where L = ?L] nb av
        flip: pool_avail_def)
  moreover have rnd: "round_block_size 1 1 = Some 1" by (simp add: round_block_size.simps)
  moreover have "block_size_to_pagepool_level pool 1 = ?L" by (simp add: pool_levels_def)
  moreover have "\<not> sz_add (base_addr pool) (sz_mul ARCH_PAGESIZE (page_count pool))
      < sz_add (base_addr pool + 4096 * (i * 1)) (sz_mul ARCH_PAGESIZE 1)"
    using pool_end_check [OF assms(1), of i 1 1] assms(4) by simp
  moreover have "sz_mul 1 ARCH_PAGESIZE = 4096" by (simp add: sz_mul_def ARCH_PAGESIZE_def)
  moreover have "base_addr pool \<noteq> 0" "0 < page_count pool" using assms(1,4) by (auto simp: wf_pool_def)
  ultimately have run: "free_from_pool pool (base_addr pool + 4096 * i) 1 = Inr (pool\<lparr>pool_bitmap := ?bm'\<rparr>)"
    unfolding free_from_pool_def rnd option.case Let_def by simp
  have "i \<in> pages ?L (?L, i)" using assms(4) L by (simp add: pages_def)
  then have "\<not> no_overlap ?L (insert (?L, i) (pool_avail pool))"
    using no_overlapD [of ?L "insert (?L, i) (pool_avail pool)" "(?L, i)" "(0, 0)" i] assms(2,3,4) all L by auto
  then have "\<not> wf_pool (pool\<lparr>pool_bitmap := ?bm'\<rparr>)" by (simp add: wf_pool_def buddy_inv_def av)
  with run show ?thesis using assms(2) by (auto simp: av)
qed

end
