(* ===== verification/Linked_List.thy ===== *)
theory Linked_List
  imports Prelude
begin

text \<open>
  The intrusive doubly linked list (kernel/lib/list.c). Nodes live in a heap from addresses to
  nodes; 0 is the null pointer, and an access through a pointer that no node has is a fault.
  The relation \<open>dll\<close> says that a list header represents a HOL list of (node address, data)
  pairs, and each operation is shown to refine the operation on HOL lists.
\<close>

record list_node =
  nnext :: nat
  nprev :: nat
  ndata :: nat

record llist =
  lfront :: nat
  lback :: nat

type_synonym node_heap = "nat \<rightharpoonup> list_node"

subsection \<open>Field accesses\<close>

definition get_node :: "node_heap \<Rightarrow> nat \<Rightarrow> list_node res" where
  "get_node h p = (case h p of None \<Rightarrow> Inl Null_deref | Some n \<Rightarrow> Inr n)"

definition set_next :: "node_heap \<Rightarrow> nat \<Rightarrow> nat \<Rightarrow> node_heap res" where
  "set_next h p v = bind_res (get_node h p) (\<lambda>n. Inr (h(p \<mapsto> n\<lparr>nnext := v\<rparr>)))"

definition set_prev :: "node_heap \<Rightarrow> nat \<Rightarrow> nat \<Rightarrow> node_heap res" where
  "set_prev h p v = bind_res (get_node h p) (\<lambda>n. Inr (h(p \<mapsto> n\<lparr>nprev := v\<rparr>)))"

definition set_data :: "node_heap \<Rightarrow> nat \<Rightarrow> nat \<Rightarrow> node_heap res" where
  "set_data h p v = bind_res (get_node h p) (\<lambda>n. Inr (h(p \<mapsto> n\<lparr>ndata := v\<rparr>)))"

subsection \<open>Operations\<close>

definition list_init :: llist where
  "list_init = \<lparr>lfront = 0, lback = 0\<rparr>"

definition list_insert_front :: "node_heap \<Rightarrow> llist \<Rightarrow> nat \<Rightarrow> nat \<Rightarrow> (node_heap \<times> llist) res" where
  "list_insert_front h l node data =
     bind_res (if lfront l \<noteq> 0 then set_prev h (lfront l) node else Inr h) (\<lambda>h.
     bind_res (set_prev h node 0) (\<lambda>h.
     bind_res (set_next h node (lfront l)) (\<lambda>h.
     bind_res (set_data h node data) (\<lambda>h.
     let l = l\<lparr>lfront := node\<rparr> in
     Inr (h, if lback l = 0 then l\<lparr>lback := node\<rparr> else l)))))"

definition list_insert_back :: "node_heap \<Rightarrow> llist \<Rightarrow> nat \<Rightarrow> nat \<Rightarrow> (node_heap \<times> llist) res" where
  "list_insert_back h l node data =
     bind_res (if lback l \<noteq> 0 then set_next h (lback l) node else Inr h) (\<lambda>h.
     bind_res (set_next h node 0) (\<lambda>h.
     bind_res (set_prev h node (lback l)) (\<lambda>h.
     bind_res (set_data h node data) (\<lambda>h.
     let l = l\<lparr>lback := node\<rparr> in
     Inr (h, if lfront l = 0 then l\<lparr>lfront := node\<rparr> else l)))))"

definition list_insert_after :: "node_heap \<Rightarrow> llist \<Rightarrow> nat \<Rightarrow> nat \<Rightarrow> nat \<Rightarrow> (node_heap \<times> llist) res" where
  "list_insert_after h l after node data =
     bind_res (set_prev h node after) (\<lambda>h.
     bind_res (get_node h after) (\<lambda>a.
     bind_res (set_next h node (nnext a)) (\<lambda>h.
     bind_res (set_data h node data) (\<lambda>h.
     bind_res (if nnext a \<noteq> 0 then set_prev h (nnext a) node else Inr h) (\<lambda>h.
     bind_res (set_next h after node) (\<lambda>h.
     Inr (h, if lback l = after then l\<lparr>lback := node\<rparr> else l)))))))"

definition list_insert_before :: "node_heap \<Rightarrow> llist \<Rightarrow> nat \<Rightarrow> nat \<Rightarrow> nat \<Rightarrow> (node_heap \<times> llist) res" where
  "list_insert_before h l before node data =
     bind_res (set_next h node before) (\<lambda>h.
     bind_res (get_node h before) (\<lambda>b.
     bind_res (set_prev h node (nprev b)) (\<lambda>h.
     bind_res (set_data h node data) (\<lambda>h.
     bind_res (if nprev b \<noteq> 0 then set_next h (nprev b) node else Inr h) (\<lambda>h.
     bind_res (set_prev h before node) (\<lambda>h.
     Inr (h, if lfront l = before then l\<lparr>lfront := node\<rparr> else l)))))))"

definition list_remove_front :: "node_heap \<Rightarrow> llist \<Rightarrow> (node_heap \<times> llist \<times> nat) res" where
  "list_remove_front h l =
     (let removed = lfront l in
      if removed = 0 then Inr (h, l, 0)
      else bind_res (get_node h removed) (\<lambda>n.
        let l = l\<lparr>lfront := nnext n\<rparr> in
        if lfront l \<noteq> 0 then bind_res (set_prev h (lfront l) 0) (\<lambda>h. Inr (h, l, removed))
        else Inr (h, l\<lparr>lback := 0\<rparr>, removed)))"

definition list_remove_back :: "node_heap \<Rightarrow> llist \<Rightarrow> (node_heap \<times> llist \<times> nat) res" where
  "list_remove_back h l =
     (let removed = lback l in
      if removed = 0 then Inr (h, l, 0)
      else bind_res (get_node h removed) (\<lambda>n.
        let l = l\<lparr>lback := nprev n\<rparr> in
        if lback l \<noteq> 0 then bind_res (set_next h (lback l) 0) (\<lambda>h. Inr (h, l, removed))
        else Inr (h, l\<lparr>lfront := 0\<rparr>, removed)))"

definition list_remove_node :: "node_heap \<Rightarrow> llist \<Rightarrow> nat \<Rightarrow> (node_heap \<times> llist) res" where
  "list_remove_node h l node =
     bind_res (get_node h node) (\<lambda>n.
     bind_res (if nprev n \<noteq> 0 then set_next h (nprev n) (nnext n) else Inr h) (\<lambda>h.
     bind_res (get_node h node) (\<lambda>n.
     bind_res (if nnext n \<noteq> 0 then set_prev h (nnext n) (nprev n) else Inr h) (\<lambda>h.
     bind_res (get_node h node) (\<lambda>n.
     let l = if node = lfront l then l\<lparr>lfront := nnext n\<rparr> else l;
         l = if node = lback l then l\<lparr>lback := nprev n\<rparr> else l in
     Inr (h, if lfront l = 0 \<or> lback l = 0 then l\<lparr>lfront := 0, lback := 0\<rparr> else l))))))"

definition list_get_data_or_null :: "node_heap \<Rightarrow> nat \<Rightarrow> nat res" where
  "list_get_data_or_null h node =
     (if node = 0 then Inr 0
      else bind_res (get_node h node) (\<lambda>n.
        bind_res (assert_res (ndata n \<noteq> 0)) (\<lambda>_. Inr (ndata n))))"

text \<open>
  The nodes that the loop of \<open>LIST_FOREACH\<close> visits from a node on. On a heap with a cycle the loop
  does not end, and the value is \<open>None\<close>; so is the value after a bad pointer.
\<close>

partial_function (option) list_foreach :: "node_heap \<Rightarrow> nat \<Rightarrow> nat list option" where
  "list_foreach h p =
     (if p = 0 then Some []
      else case h p of
        None \<Rightarrow> None
      | Some n \<Rightarrow> Option.bind (list_foreach h (nnext n)) (\<lambda>ps. Some (p # ps)))"

subsection \<open>The representation relation\<close>

definition head_or :: "(nat \<times> nat) list \<Rightarrow> nat \<Rightarrow> nat" where
  "head_or xs nx = (case xs of [] \<Rightarrow> nx | x # _ \<Rightarrow> fst x)"

definition last_or :: "nat \<Rightarrow> (nat \<times> nat) list \<Rightarrow> nat" where
  "last_or pv xs = (if xs = [] then pv else fst (last xs))"

fun dseg :: "node_heap \<Rightarrow> nat \<Rightarrow> (nat \<times> nat) list \<Rightarrow> nat \<Rightarrow> bool" where
  "dseg h pv [] nx \<longleftrightarrow> True"
| "dseg h pv (x # xs) nx \<longleftrightarrow>
     h (fst x) = Some \<lparr>nnext = head_or xs nx, nprev = pv, ndata = snd x\<rparr> \<and> dseg h (fst x) xs nx"

definition dll :: "node_heap \<Rightarrow> llist \<Rightarrow> (nat \<times> nat) list \<Rightarrow> bool" where
  "dll h l xs \<longleftrightarrow> distinct (map fst xs) \<and> 0 \<notin> fst ` set xs \<and>
     lfront l = head_or xs 0 \<and> lback l = last_or 0 xs \<and> dseg h 0 xs 0"

lemma head_or_simps [simp]: "head_or [] nx = nx" "head_or (x # xs) nx = fst x"
  by (simp_all add: head_or_def)

lemma last_or_simps [simp]:
  "last_or pv [] = pv" "last_or pv (x # xs) = last_or (fst x) xs" "last_or pv (xs @ [x]) = fst x"
  by (simp_all add: last_or_def)

lemma head_or_append: "head_or (xs @ ys) nx = head_or xs (head_or ys nx)"
  by (cases xs) simp_all

lemma last_or_append [simp]: "last_or pv (xs @ ys) = last_or (last_or pv xs) ys"
  by (simp add: last_or_def)

lemma dseg_append:
  "dseg h pv (xs @ ys) nx \<longleftrightarrow> dseg h pv xs (head_or ys nx) \<and> dseg h (last_or pv xs) ys nx"
  by (induction xs arbitrary: pv) (auto simp: head_or_append)

lemma dseg_frame [simp]: "a \<notin> fst ` set xs \<Longrightarrow> dseg (h(a \<mapsto> n)) pv xs nx \<longleftrightarrow> dseg h pv xs nx"
  by (induction xs arbitrary: pv) auto

lemma head_or_in: "xs \<noteq> [] \<Longrightarrow> head_or xs nx \<in> fst ` set xs"
  by (cases xs) auto

lemma last_or_in: "xs \<noteq> [] \<Longrightarrow> last_or pv xs \<in> fst ` set xs"
  by (simp add: last_or_def)

lemma head_or_neq: "a \<notin> fst ` set xs \<Longrightarrow> a \<noteq> nx \<Longrightarrow> head_or xs nx \<noteq> a"
  by (cases xs) auto

lemma last_or_neq: "a \<notin> fst ` set xs \<Longrightarrow> a \<noteq> pv \<Longrightarrow> last_or pv xs \<noteq> a"
  by (cases xs rule: rev_cases) auto

text \<open>The first node of a segment with its \<open>nprev\<close> field, and the last with its \<open>next\<close> field, rewritten.\<close>

lemma dseg_set_prev:
  assumes "dseg h pv (x # xs) nx" and "fst x \<notin> fst ` set xs"
  shows "\<exists>n. h (fst x) = Some n \<and> dseg (h(fst x \<mapsto> n\<lparr>nprev := pv'\<rparr>)) pv' (x # xs) nx"
  using assms by auto

lemma dseg_set_next:
  assumes "dseg h pv (xs @ [x]) nx" and "fst x \<notin> fst ` set xs"
  shows "\<exists>n. h (fst x) = Some n \<and> dseg (h(fst x \<mapsto> n\<lparr>nnext := nx'\<rparr>)) pv (xs @ [x]) nx'"
  using assms by (auto simp: dseg_append)

lemma dseg_lookup: "dseg h pv (xs @ x # ys) nx \<Longrightarrow>
    h (fst x) = Some \<lparr>nnext = head_or ys nx, nprev = last_or pv xs, ndata = snd x\<rparr>"
  by (simp add: dseg_append)

lemma get_node_Some [simp]: "h p = Some n \<Longrightarrow> get_node h p = Inr n"
  by (simp add: get_node_def)

lemmas field_defs = set_next_def set_prev_def set_data_def

lemma dll_null [simp]: "dll h l xs \<Longrightarrow> lfront l = 0 \<longleftrightarrow> xs = []" "dll h l xs \<Longrightarrow> lback l = 0 \<longleftrightarrow> xs = []"
  by (cases xs; auto simp: dll_def) (cases xs rule: rev_cases; auto simp: dll_def)

subsection \<open>Refinement of the operations\<close>

text \<open>
  \<open>relinked h r xs touched\<close>: the result \<open>r\<close> of an operation is a heap and a list that represents
  \<open>xs\<close>, and only nodes in \<open>touched\<close> were written.
\<close>

definition relinked :: "node_heap \<Rightarrow> (node_heap \<times> llist) res \<Rightarrow> (nat \<times> nat) list \<Rightarrow> nat set \<Rightarrow> bool" where
  "relinked h r xs touched \<longleftrightarrow>
     (\<exists>h' l'. r = Inr (h', l') \<and> dll h' l' xs \<and> (\<forall>a. a \<notin> touched \<longrightarrow> h' a = h a))"

lemma insert_front_dll:
  assumes "dll h l xs" and "node \<notin> fst ` set xs" and "node \<noteq> 0" and "h node = Some n"
  shows "relinked h (list_insert_front h l node d) ((node, d) # xs) (insert node (fst ` set xs))"
proof (cases xs)
  case Nil
  then show ?thesis using assms by (simp add: dll_def list_insert_front_def field_defs Let_def relinked_def)
next
  case (Cons x ys)
  then show ?thesis
    using assms by (cases "ys = []")
      (auto simp: dll_def list_insert_front_def field_defs Let_def relinked_def last_or_def)
qed

lemma insert_back_dll:
  assumes "dll h l xs" and "node \<notin> fst ` set xs" and "node \<noteq> 0" and "h node = Some n"
  shows "relinked h (list_insert_back h l node d) (xs @ [(node, d)]) (insert node (fst ` set xs))"
proof (cases xs rule: rev_cases)
  case Nil
  then show ?thesis using assms by (simp add: dll_def list_insert_back_def field_defs Let_def relinked_def)
next
  case (snoc ys x)
  have "head_or xs 0 \<noteq> 0" using assms(1) snoc by (cases ys) (auto simp: dll_def)
  then show ?thesis
    using assms snoc
    by (auto simp: dll_def list_insert_back_def field_defs Let_def relinked_def dseg_append head_or_append image_Un)
qed

lemma insert_after_dll:
  assumes "dll h l (xs @ x # ys)" and "node \<notin> fst ` set (xs @ x # ys)" and "node \<noteq> 0" and "h node = Some n"
  shows "relinked h (list_insert_after h l (fst x) node d) (xs @ x # (node, d) # ys) (insert node (fst ` set (xs @ x # ys)))"
proof (cases ys)
  case Nil
  then show ?thesis using assms
    by (auto simp: dll_def list_insert_after_def field_defs Let_def relinked_def dseg_append head_or_append image_Un)
next
  case (Cons y zs)
  then have "last_or (fst y) zs \<noteq> fst x"
    using assms(1) by (intro last_or_neq) (simp_all add: dll_def Cons)
  then show ?thesis
    using assms Cons
    by (auto simp: dll_def list_insert_after_def field_defs Let_def relinked_def dseg_append head_or_append image_Un)
qed

lemma insert_before_dll:
  assumes "dll h l (xs @ x # ys)" and "node \<notin> fst ` set (xs @ x # ys)" and "node \<noteq> 0" and "h node = Some n"
  shows "relinked h (list_insert_before h l (fst x) node d) (xs @ (node, d) # x # ys) (insert node (fst ` set (xs @ x # ys)))"
proof (cases xs rule: rev_cases)
  case Nil
  then show ?thesis using assms
    by (auto simp: dll_def list_insert_before_def field_defs Let_def relinked_def dseg_append head_or_append image_Un)
next
  case (snoc zs y)
  then have "head_or zs (fst y) \<noteq> fst x"
    using assms(1) by (intro head_or_neq) (auto simp: dll_def)
  then show ?thesis
    using assms snoc
    by (auto simp: dll_def list_insert_before_def field_defs Let_def relinked_def dseg_append head_or_append image_Un)
qed

lemma remove_front_dll:
  assumes "dll h l (x # xs)"
  shows "\<exists>h' l'. list_remove_front h l = Inr (h', l', fst x) \<and> dll h' l' xs \<and> (\<forall>a. a \<notin> fst ` set xs \<longrightarrow> h' a = h a)"
  using assms by (cases xs) (auto simp: dll_def list_remove_front_def field_defs Let_def)

lemma remove_back_dll:
  assumes "dll h l (xs @ [x])"
  shows "\<exists>h' l'. list_remove_back h l = Inr (h', l', fst x) \<and> dll h' l' xs \<and> (\<forall>a. a \<notin> fst ` set xs \<longrightarrow> h' a = h a)"
  using assms
  by (cases xs rule: rev_cases)
    (auto simp: dll_def list_remove_back_def field_defs Let_def dseg_append head_or_append)

lemma remove_node_dll:
  assumes "dll h l (xs @ x # ys)"
  shows "relinked h (list_remove_node h l (fst x)) (xs @ ys) (fst ` set (xs @ ys))"
proof (cases xs rule: rev_cases)
  case Nil
  then show ?thesis using assms
    by (cases ys) (auto simp: dll_def list_remove_node_def field_defs Let_def relinked_def last_or_def split: if_splits)
next
  case (snoc zs y)
  have "head_or zs (fst y) \<noteq> fst x" "head_or zs (fst y) \<noteq> 0"
    using assms snoc head_or_neq [of "fst x" zs "fst y"] head_or_neq [of 0 zs "fst y"]
    by (auto simp: dll_def image_Un)
  then show ?thesis
    using assms snoc
    by (cases ys) (auto simp: dll_def list_remove_node_def field_defs Let_def relinked_def dseg_append head_or_append image_Un last_or_def split: if_splits)
qed

lemma foreach_dseg: "dseg h pv xs 0 \<Longrightarrow> 0 \<notin> fst ` set xs \<Longrightarrow> list_foreach h (head_or xs 0) = Some (map fst xs)"
proof (induction xs arbitrary: pv)
  case Nil
  then show ?case by (simp add: list_foreach.simps [of h 0])
next
  case (Cons x xs)
  then have "list_foreach h (head_or xs 0) = Some (map fst xs)" by auto
  with Cons.prems show ?case by (simp add: list_foreach.simps [of h "fst x"])
qed

subsection \<open>The interface used by the list's clients\<close>

text \<open>
  The clients (the scheduler's queues, the mutex waiters, the mount table) take nodes from the
  front and put them at the back. \<open>spare s xs node\<close>: the node is allocated and not in the list.
\<close>

locale node_sequence =
  fixes rep :: "'s \<Rightarrow> (nat \<times> nat) list \<Rightarrow> bool"
    and spare :: "'s \<Rightarrow> (nat \<times> nat) list \<Rightarrow> nat \<Rightarrow> bool"
    and push_back :: "'s \<Rightarrow> nat \<Rightarrow> nat \<Rightarrow> 's res"
    and pop_front :: "'s \<Rightarrow> ('s \<times> nat) res"
    and unlink :: "'s \<Rightarrow> nat \<Rightarrow> 's res"
  assumes push_back: "rep s xs \<Longrightarrow> spare s xs node \<Longrightarrow>
      \<exists>s'. push_back s node d = Inr s' \<and> rep s' (xs @ [(node, d)])"
    and pop_front: "rep s (x # xs) \<Longrightarrow>
      \<exists>s'. pop_front s = Inr (s', fst x) \<and> rep s' xs \<and> spare s' xs (fst x)"
    and pop_empty: "rep s [] \<Longrightarrow> pop_front s = Inr (s, 0)"
    and unlink: "rep s (xs @ x # ys) \<Longrightarrow>
      \<exists>s'. unlink s (fst x) = Inr s' \<and> rep s' (xs @ ys) \<and> spare s' (xs @ ys) (fst x)"
begin

lemma rotate_front:
  assumes "rep s (x # xs)"
  shows "\<exists>s' s''. pop_front s = Inr (s', fst x) \<and> push_back s' (fst x) (snd x) = Inr s'' \<and> rep s'' (xs @ [x])"
proof -
  obtain s' where s': "pop_front s = Inr (s', fst x)" "rep s' xs" "spare s' xs (fst x)"
    using pop_front [OF assms] by blast
  with push_back [OF s'(2,3), of "snd x"] show ?thesis by auto
qed

lemma unlink_push_back:
  assumes "rep s (xs @ x # ys)"
  shows "\<exists>s' s''. unlink s (fst x) = Inr s' \<and> push_back s' (fst x) (snd x) = Inr s'' \<and> rep s'' (xs @ ys @ [x])"
proof -
  obtain s' where s': "unlink s (fst x) = Inr s'" "rep s' (xs @ ys)" "spare s' (xs @ ys) (fst x)"
    using unlink [OF assms] by blast
  with push_back [OF s'(2,3), of "snd x"] show ?thesis by auto
qed

end

definition list_spare :: "node_heap \<times> llist \<Rightarrow> (nat \<times> nat) list \<Rightarrow> nat \<Rightarrow> bool" where
  "list_spare s xs node \<longleftrightarrow> node \<noteq> 0 \<and> node \<notin> fst ` set xs \<and> fst s node \<noteq> None"

lemma dll_node: "dll h l (xs @ x # ys) \<Longrightarrow> fst x \<noteq> 0 \<and> fst x \<notin> fst ` set (xs @ ys) \<and> h (fst x) \<noteq> None"
  by (auto simp: dll_def dseg_append image_Un)

interpretation ll: node_sequence "\<lambda>s. dll (fst s) (snd s)" list_spare
  "\<lambda>s. list_insert_back (fst s) (snd s)"
  "\<lambda>s. bind_res (list_remove_front (fst s) (snd s)) (\<lambda>(h, l, p). Inr ((h, l), p))"
  "\<lambda>s. list_remove_node (fst s) (snd s)"
proof unfold_locales
  fix s :: "node_heap \<times> llist" and xs node d
  assume "dll (fst s) (snd s) xs" "list_spare s xs node"
  then show "\<exists>s'. list_insert_back (fst s) (snd s) node d = Inr s' \<and> dll (fst s') (snd s') (xs @ [(node, d)])"
    using insert_back_dll [of "fst s" "snd s" xs node] by (fastforce simp: list_spare_def relinked_def)
next
  fix s :: "node_heap \<times> llist" and x xs
  assume d: "dll (fst s) (snd s) (x # xs)"
  then obtain h' l' where r: "list_remove_front (fst s) (snd s) = Inr (h', l', fst x)" "dll h' l' xs"
      "\<forall>a. a \<notin> fst ` set xs \<longrightarrow> h' a = fst s a"
    using remove_front_dll by blast
  moreover have "list_spare (h', l') xs (fst x)"
    using dll_node [of "fst s" "snd s" "[]" x xs] d r(3) by (simp add: list_spare_def)
  ultimately show "\<exists>s'. bind_res (list_remove_front (fst s) (snd s)) (\<lambda>(h, l, p). Inr ((h, l), p)) = Inr (s', fst x) \<and>
      dll (fst s') (snd s') xs \<and> list_spare s' xs (fst x)" by auto
next
  fix s :: "node_heap \<times> llist"
  assume "dll (fst s) (snd s) []"
  then show "bind_res (list_remove_front (fst s) (snd s)) (\<lambda>(h, l, p). Inr ((h, l), p)) = Inr (s, 0)"
    by (simp add: dll_def list_remove_front_def)
next
  fix s :: "node_heap \<times> llist" and xs x ys
  assume d: "dll (fst s) (snd s) (xs @ x # ys)"
  then obtain h' l' where r: "list_remove_node (fst s) (snd s) (fst x) = Inr (h', l')" "dll h' l' (xs @ ys)"
      "\<forall>a. a \<notin> fst ` set (xs @ ys) \<longrightarrow> h' a = fst s a"
    using remove_node_dll unfolding relinked_def by blast
  moreover have "list_spare (h', l') (xs @ ys) (fst x)"
    using dll_node [OF d] r(3) by (simp add: list_spare_def)
  ultimately show "\<exists>s'. list_remove_node (fst s) (snd s) (fst x) = Inr s' \<and> dll (fst s') (snd s') (xs @ ys) \<and>
      list_spare s' (xs @ ys) (fst x)" by auto
qed

subsection \<open>Properties\<close>

text \<open>
  Inserting into a list that represents \<open>xs @ x # ys\<close> a node that is not in it gives a list
  with the node and its data at the front, at the back, after \<open>x\<close> or before \<open>x\<close>, with both link
  directions and the ends right, and writes no node outside the list and the new one.
\<close>

lemma list_insertions_refine:
  assumes "dll h l (xs @ x # ys)" and "node \<notin> fst ` set (xs @ x # ys)" and "node \<noteq> 0" and "h node = Some n"
  shows "relinked h (list_insert_front h l node d) ((node, d) # xs @ x # ys) (insert node (fst ` set (xs @ x # ys))) \<and>
    relinked h (list_insert_back h l node d) (xs @ x # ys @ [(node, d)]) (insert node (fst ` set (xs @ x # ys))) \<and>
    relinked h (list_insert_after h l (fst x) node d) (xs @ x # (node, d) # ys) (insert node (fst ` set (xs @ x # ys))) \<and>
    relinked h (list_insert_before h l (fst x) node d) (xs @ (node, d) # x # ys) (insert node (fst ` set (xs @ x # ys)))"
  using insert_front_dll [OF assms] insert_back_dll [OF assms, of d] insert_after_dll [OF assms] insert_before_dll [OF assms]
  by simp

text \<open>A heap with a two-node list at addresses 1 and 2 and a spare node at 3.\<close>

definition sample_heap :: node_heap where
  "sample_heap = [1 \<mapsto> \<lparr>nnext = 2, nprev = 0, ndata = 10\<rparr>, 2 \<mapsto> \<lparr>nnext = 0, nprev = 1, ndata = 20\<rparr>,
     3 \<mapsto> \<lparr>nnext = 0, nprev = 0, ndata = 0\<rparr>]"

lemma sample_dll: "dll sample_heap \<lparr>lfront = 1, lback = 2\<rparr> [(1, 10), (2, 20)]" "sample_heap 3 = Some \<lparr>nnext = 0, nprev = 0, ndata = 0\<rparr>"
  by (simp_all add: dll_def sample_heap_def)

text \<open>
  Claim C15: removing the first, the last or any other node of a list unlinks exactly that node: the
  remaining nodes form the list without it, in the same order, and no node outside the remaining
  list is written (the removed node keeps its data and stays allocated).
\<close>

theorem list_removals_refine:
  assumes "dll h l (xs @ x # ys)"
  shows "relinked h (list_remove_node h l (fst x)) (xs @ ys) (fst ` set (xs @ ys)) \<and>
    (xs = [] \<longrightarrow> (\<exists>h' l'. list_remove_front h l = Inr (h', l', fst x) \<and> dll h' l' ys \<and>
       (\<forall>a. a \<notin> fst ` set ys \<longrightarrow> h' a = h a))) \<and>
    (ys = [] \<longrightarrow> (\<exists>h' l'. list_remove_back h l = Inr (h', l', fst x) \<and> dll h' l' xs \<and>
       (\<forall>a. a \<notin> fst ` set xs \<longrightarrow> h' a = h a)))"
  using remove_node_dll [OF assms] remove_front_dll [of h l x ys] remove_back_dll [of h l xs x] assms
  by auto

theorem list_removals_refine_witness:
  "\<exists>h' l'. list_remove_front sample_heap \<lparr>lfront = 1, lback = 2\<rparr> = Inr (h', l', 1) \<and> dll h' l' [(2, 20)] \<and>
    (\<forall>a. a \<notin> fst ` set [(2, 20)] \<longrightarrow> h' a = sample_heap a)"
proof -
  have "dll sample_heap \<lparr>lfront = 1, lback = 2\<rparr> ([] @ (1, 10) # [(2, 20)])" using sample_dll by simp
  from list_removals_refine [OF this] show ?thesis by simp
qed

text \<open>
  \<open>LIST_FOREACH\<close> on a represented list ends and visits each node once, in order; taking the
  front node and inserting it at the back rotates the list.
\<close>

lemma list_foreach_and_rotation:
  assumes "dll h l (x # xs)"
  shows "list_foreach h (lfront l) = Some (map fst (x # xs)) \<and>
    (\<exists>h1 l1 h2 l2. list_remove_front h l = Inr (h1, l1, fst x) \<and>
       list_insert_back h1 l1 (fst x) (snd x) = Inr (h2, l2) \<and> dll h2 l2 (xs @ [x]) \<and>
       list_foreach h2 (lfront l2) = Some (map fst (xs @ [x])))"
proof -
  have visits: "list_foreach g (lfront m) = Some (map fst zs)" if "dll g m zs" for g m zs
    using that foreach_dseg [of g 0 zs] by (simp add: dll_def)
  obtain h1 l1 h2 l2 where r: "list_remove_front h l = Inr (h1, l1, fst x)"
      "list_insert_back h1 l1 (fst x) (snd x) = Inr (h2, l2)" "dll h2 l2 (xs @ [x])"
    using ll.rotate_front [of "(h, l)" x xs] assms by (auto simp: res_simps)
  with visits [OF assms] visits [OF r(3)] show ?thesis by blast
qed

end
