(* ===== verification/Mmu.thy ===== *)
theory Mmu
  imports MiscMath
begin

text \<open>
  Paging (kernel/arch/i586/mmu.c). Physical memory is a map from page frames to their 1024 entries, as
  far as frames are used as tables. The page directory is the frame in \<open>cr3\<close>; the window \<open>s_pagetables\<close>
  of the recursive directory entry shows, for a directory entry that is present, the table in the frame it
  names, and is a page fault otherwise. \<open>tlb\<close> is the entry the processor may have cached for a page, and
  \<open>frames\<close> are the pages that \<open>pmm_alloc\<close> will hand out.
\<close>

abbreviation ENTRY_COUNT :: nat where "ENTRY_COUNT \<equiv> 1024"
abbreviation PAGE_SIZE :: nat where "PAGE_SIZE \<equiv> 4096"
abbreviation PAGEDIR_PDE :: nat where "PAGEDIR_PDE \<equiv> 1023"
abbreviation SCRATCH_PDE :: nat where "SCRATCH_PDE \<equiv> 1022"
abbreviation SCRATCH_PTE :: nat where "SCRATCH_PTE \<equiv> 1023"

definition FLAG_P :: u32 where "FLAG_P = push_bit 0 1"
definition FLAG_RW :: u32 where "FLAG_RW = push_bit 1 1"
definition FLAG_US :: u32 where "FLAG_US = push_bit 2 1"
definition FLAG_PCD :: u32 where "FLAG_PCD = push_bit 4 1"

definition MAP_PROT_READ :: u8 where "MAP_PROT_READ = push_bit 0 1"
definition MAP_PROT_WRITE :: u8 where "MAP_PROT_WRITE = push_bit 1 1"
definition MAP_PROT_EXEC :: u8 where "MAP_PROT_EXEC = push_bit 2 1"
definition MAP_PROT_NOCACHE :: u8 where "MAP_PROT_NOCACHE = push_bit 3 1"

record mmu =
  cr3 :: u32
  mem :: "u32 \<Rightarrow> nat \<Rightarrow> u32"
  tlb :: "nat \<Rightarrow> u32 option"
  frames :: "u32 list"

subsection \<open>Indices and tables\<close>

definition ENTRY_BIT_MASK :: u32 where "ENTRY_BIT_MASK = 0x3ff"

definition pde_index :: "nat \<Rightarrow> nat" where
  "pde_index ptr = unat (drop_bit 22 ((word_of_nat ptr :: u32) AND push_bit 22 ENTRY_BIT_MASK))"

definition pte_index :: "nat \<Rightarrow> nat" where
  "pte_index ptr = unat (drop_bit 12 ((word_of_nat ptr :: u32) AND push_bit 12 ENTRY_BIT_MASK))"

definition frame_of :: "u32 \<Rightarrow> u32" where
  "frame_of e = e AND NOT 0xfff"

definition pagedir :: "mmu \<Rightarrow> nat \<Rightarrow> u32" where
  "pagedir m pde = mem m (cr3 m) pde"

definition set_pagedir :: "mmu \<Rightarrow> nat \<Rightarrow> u32 \<Rightarrow> mmu" where
  "set_pagedir m pde e = m\<lparr>mem := (mem m)(cr3 m := (mem m (cr3 m))(pde := e))\<rparr>"

definition read_pt :: "mmu \<Rightarrow> nat \<Rightarrow> nat \<Rightarrow> u32 res" where
  "read_pt m pde pte =
     (if pagedir m pde AND FLAG_P = 0 then Inl Page_fault else Inr (mem m (frame_of (pagedir m pde)) pte))"

definition write_pt :: "mmu \<Rightarrow> nat \<Rightarrow> nat \<Rightarrow> u32 \<Rightarrow> mmu res" where
  "write_pt m pde pte e =
     (if pagedir m pde AND FLAG_P = 0 then Inl Page_fault
      else (let f = frame_of (pagedir m pde) in Inr (m\<lparr>mem := (mem m)(f := (mem m f)(pte := e))\<rparr>)))"

definition arch_mmu_flush_tlb_for :: "mmu \<Rightarrow> nat \<Rightarrow> mmu" where
  "arch_mmu_flush_tlb_for m ptr = m\<lparr>tlb := (tlb m)(ptr div PAGE_SIZE := None)\<rparr>"

definition arch_mmu_flush_tlb :: "mmu \<Rightarrow> mmu" where
  "arch_mmu_flush_tlb m = m\<lparr>tlb := (\<lambda>_. None)\<rparr>"

definition MAKE_VIRTADDR :: "nat \<Rightarrow> nat \<Rightarrow> nat \<Rightarrow> nat" where
  "MAKE_VIRTADDR pde pte offset =
     unat (push_bit 22 (word_of_nat pde :: u32) OR push_bit 12 (word_of_nat pte) OR word_of_nat offset)"

subsection \<open>Translation\<close>

text \<open>The results are the physical address (unspecified on an error) and the return value.\<close>

definition arch_mmu_emulate :: "mmu \<Rightarrow> nat \<Rightarrow> u8 \<Rightarrow> bool \<Rightarrow> (u32 \<times> int) res" where
  "arch_mmu_emulate m virtaddr flags is_from_user =
     (let pde = pde_index virtaddr;
          pte = pte_index virtaddr;
          is_write = flags AND MAP_PROT_WRITE \<noteq> 0;
          pd_entry = pagedir m pde in
      if pd_entry AND FLAG_P = 0 then Inr (0, - EFAULT)
      else if pd_entry AND FLAG_RW = 0 \<and> is_write then Inr (0, - EPERM)
      else if pd_entry AND FLAG_US = 0 \<and> is_from_user then Inr (0, - EPERM)
      else
        bind_res (read_pt m pde pte) (\<lambda>pt_entry.
        if pt_entry AND FLAG_P = 0 then Inr (0, - EFAULT)
        else if pt_entry AND FLAG_RW = 0 \<and> is_write then Inr (0, - EPERM)
        else if pt_entry AND FLAG_US = 0 \<and> is_from_user then Inr (0, - EPERM)
        else Inr (frame_of pt_entry, 0)))"

definition arch_mmu_virtual_to_physical :: "mmu \<Rightarrow> nat \<Rightarrow> (u32 \<times> int) res" where
  "arch_mmu_virtual_to_physical m virt =
     (let pde = pde_index virt;
          pte = pte_index virt in
      if pagedir m pde AND FLAG_P = 0 then Inr (0, - EFAULT)
      else
        bind_res (read_pt m pde pte) (\<lambda>pt_entry.
        if pt_entry AND FLAG_P = 0 then Inr (0, - EFAULT)
        else Inr (frame_of pt_entry + (word_of_nat virt AND 0xfff), 0)))"

subsection \<open>Mapping\<close>

definition addr_valid :: "nat \<Rightarrow> nat \<Rightarrow> bool" where
  "addr_valid addr count \<longleftrightarrow> addr \<noteq> 0 \<and> count \<le> (2 ^ 32 - 1) div PAGE_SIZE \<and> \<not> (2 ^ 32 - 1 - addr < count * PAGE_SIZE)"

definition pmm_alloc_page :: "mmu \<Rightarrow> mmu \<times> u32" where
  "pmm_alloc_page m = (case frames m of [] \<Rightarrow> (m, 0) | f # fs \<Rightarrow> (m\<lparr>frames := fs\<rparr>, f))"

text \<open>The argument of \<open>create_pd\<close> is a \<open>uint8_t\<close>.\<close>

definition create_pd :: "mmu \<Rightarrow> nat \<Rightarrow> (mmu \<times> int) res" where
  "create_pd m pde0 =
     (let pde = pde0 mod 2 ^ 8;
          (m, addr) = pmm_alloc_page m in
      if addr = 0 then Inr (m, - ENOMEM)
      else
        (let m = set_pagedir m pde (addr OR FLAG_P OR FLAG_RW OR FLAG_US);
             m = arch_mmu_flush_tlb_for m (MAKE_VIRTADDR PAGEDIR_PDE pde 0);
             m = m\<lparr>mem := (mem m)(frame_of (pagedir m pde) := (\<lambda>_. 0))\<rparr>;
             m = foldl (\<lambda>m i. arch_mmu_flush_tlb_for m (MAKE_VIRTADDR pde i 0)) m [0..<ENTRY_COUNT] in
         Inr (m, 0)))"

definition new_pte :: "u32 \<Rightarrow> u8 \<Rightarrow> bool \<Rightarrow> u32" where
  "new_pte base flags user_access =
     base OR (if flags AND MAP_PROT_WRITE \<noteq> 0 then FLAG_RW else 0) OR (if flags AND MAP_PROT_NOCACHE \<noteq> 0 then FLAG_PCD else 0) OR
     (if user_access then FLAG_US else 0)"

definition map_single_page :: "mmu \<Rightarrow> nat \<Rightarrow> u32 \<Rightarrow> u8 \<Rightarrow> bool \<Rightarrow> mmu res" where
  "map_single_page m virt phys flags user_access =
     (let pde = pde_index virt;
          pte = pte_index virt in
      bind_res (read_pt m pde pte) (\<lambda>oldpte.
      let shouldflush =
            (oldpte AND FLAG_P \<noteq> 0 \<and>
               (oldpte AND FLAG_RW \<noteq> 0 \<and> flags AND MAP_PROT_WRITE = 0 \<or> oldpte AND FLAG_US \<noteq> 0 \<and> \<not> user_access \<or>
                frame_of oldpte \<noteq> phys)) in
      bind_res (write_pt m pde pte (new_pte (phys OR FLAG_P) flags user_access)) (\<lambda>m.
      Inr (if shouldflush then arch_mmu_flush_tlb_for m virt else m))))"

text \<open>
  The two loops of \<open>arch_mmu_map\<close>, over the addresses of the pages. The inner declaration of \<open>ret\<close> hides
  the one that is returned: after a failure of \<open>create_pd\<close> the loop is left with \<open>False\<close>.
\<close>

fun create_loop :: "mmu \<Rightarrow> nat list \<Rightarrow> (mmu \<times> bool) res" where
  "create_loop m [] = Inr (m, True)"
| "create_loop m (v # vs) =
     (if pagedir m (pde_index v) AND FLAG_P \<noteq> 0 then create_loop m vs
      else bind_res (create_pd m (pde_index v)) (\<lambda>(m, ret). if ret < 0 then Inr (m, False) else create_loop m vs))"

fun map_loop :: "mmu \<Rightarrow> (nat \<times> u32) list \<Rightarrow> u8 \<Rightarrow> bool \<Rightarrow> mmu res" where
  "map_loop m [] flags user_access = Inr m"
| "map_loop m ((v, p) # vps) flags user_access =
     bind_res (map_single_page m v p flags user_access) (\<lambda>m. map_loop m vps flags user_access)"

definition page_addrs :: "nat \<Rightarrow> nat \<Rightarrow> nat list" where
  "page_addrs base n = map (\<lambda>i. sz_add base (i * PAGE_SIZE)) [0..<n]"

definition arch_mmu_map :: "mmu \<Rightarrow> nat \<Rightarrow> u32 \<Rightarrow> nat \<Rightarrow> u8 \<Rightarrow> bool \<Rightarrow> (mmu \<times> int) res" where
  "arch_mmu_map m virt_base physbase page_count flags user_access =
     bind_res (assert_res (addr_valid virt_base page_count)) (\<lambda>_.
     bind_res (assert_res (addr_valid (unat physbase) page_count)) (\<lambda>_.
     bind_res (is_aligned (unat physbase) PAGE_SIZE) (\<lambda>aligned.
     bind_res (assert_res aligned) (\<lambda>_.
     if flags AND MAP_PROT_READ = 0 then Inr (m, - EPERM)
     else
       bind_res (create_loop m (page_addrs virt_base page_count)) (\<lambda>(m, ok).
       if \<not> ok then Inr (m, 0)
       else
         bind_res (map_loop m (zip (page_addrs virt_base page_count) (map (\<lambda>i. physbase + word_of_nat (i * PAGE_SIZE)) [0..<page_count]))
           flags user_access) (\<lambda>m. Inr (m, 0)))))))"

definition check_presence :: "mmu \<Rightarrow> nat \<Rightarrow> int res" where
  "check_presence m virt =
     (let pde = pde_index virt;
          pte = pte_index virt in
      if pagedir m pde AND FLAG_P = 0 then Inr (- EFAULT)
      else bind_res (read_pt m pde pte) (\<lambda>oldpte. if oldpte AND FLAG_P = 0 then Inr (- EFAULT) else Inr 0))"

fun presence_loop :: "mmu \<Rightarrow> nat list \<Rightarrow> int res" where
  "presence_loop m [] = Inr 0"
| "presence_loop m (v # vs) = bind_res (check_presence m v) (\<lambda>ret. if ret < 0 then Inr ret else presence_loop m vs)"

definition remap_single_page :: "mmu \<Rightarrow> nat \<Rightarrow> u8 \<Rightarrow> bool \<Rightarrow> mmu res" where
  "remap_single_page m virt flags user_access =
     (let pde = pde_index virt;
          pte = pte_index virt in
      bind_res (read_pt m pde pte) (\<lambda>oldpte.
      let should_flush =
            (oldpte AND FLAG_RW \<noteq> 0 \<and> flags AND MAP_PROT_WRITE = 0 \<or> oldpte AND FLAG_US \<noteq> 0 \<and> \<not> user_access) in
      bind_res (write_pt m pde pte (new_pte (oldpte AND NOT (0xfff AND NOT FLAG_P)) flags user_access)) (\<lambda>m.
      Inr (if should_flush then arch_mmu_flush_tlb_for m virt else m))))"

fun remap_loop :: "mmu \<Rightarrow> nat list \<Rightarrow> u8 \<Rightarrow> bool \<Rightarrow> mmu res" where
  "remap_loop m [] flags user_access = Inr m"
| "remap_loop m (v # vs) flags user_access =
     bind_res (remap_single_page m v flags user_access) (\<lambda>m. remap_loop m vs flags user_access)"

definition arch_mmu_remap :: "mmu \<Rightarrow> nat \<Rightarrow> nat \<Rightarrow> u8 \<Rightarrow> bool \<Rightarrow> (mmu \<times> int) res" where
  "arch_mmu_remap m virt_base page_count flags user_access =
     bind_res (assert_res (addr_valid virt_base page_count)) (\<lambda>_.
     if flags AND MAP_PROT_READ = 0 then Inr (m, - EPERM)
     else
       bind_res (presence_loop m (page_addrs virt_base page_count)) (\<lambda>ret.
       if ret < 0 then Inr (m, ret)
       else bind_res (remap_loop m (page_addrs virt_base page_count) flags user_access) (\<lambda>m. Inr (m, 0))))"

fun unmap_loop :: "mmu \<Rightarrow> nat list \<Rightarrow> mmu res" where
  "unmap_loop m [] = Inr m"
| "unmap_loop m (v # vs) =
     bind_res (write_pt m (pde_index v) (pte_index v) 0) (\<lambda>m. unmap_loop (arch_mmu_flush_tlb_for m v) vs)"

definition arch_mmu_unmap :: "mmu \<Rightarrow> nat \<Rightarrow> nat \<Rightarrow> (mmu \<times> int) res" where
  "arch_mmu_unmap m virt_base page_count =
     bind_res (assert_res (addr_valid virt_base page_count)) (\<lambda>_.
     bind_res (presence_loop m (page_addrs virt_base page_count)) (\<lambda>ret.
     if ret < 0 then Inr (m, ret)
     else bind_res (unmap_loop m (page_addrs virt_base page_count)) (\<lambda>m. Inr (m, 1))))"

definition arch_mmu_scratch_map :: "mmu \<Rightarrow> u32 \<Rightarrow> bool \<Rightarrow> mmu res" where
  "arch_mmu_scratch_map m physaddr cache_inhibit =
     bind_res (is_aligned (unat physaddr) PAGE_SIZE) (\<lambda>aligned.
     bind_res (assert_res aligned) (\<lambda>_.
     bind_res (assert_res (pagedir m SCRATCH_PDE AND FLAG_P \<noteq> 0)) (\<lambda>_.
     bind_res (read_pt m SCRATCH_PDE SCRATCH_PTE) (\<lambda>oldpte.
     let should_flush = (oldpte AND FLAG_P \<noteq> 0 \<and> (oldpte AND FLAG_US \<noteq> 0 \<or> frame_of oldpte \<noteq> physaddr)) in
     bind_res (write_pt m SCRATCH_PDE SCRATCH_PTE (physaddr OR FLAG_P OR FLAG_RW OR (if cache_inhibit then FLAG_PCD else 0))) (\<lambda>m.
     Inr (if should_flush then arch_mmu_flush_tlb_for m (MAKE_VIRTADDR SCRATCH_PDE SCRATCH_PTE 0) else m))))))"

subsection \<open>Indices and entries\<close>

lemma unat_shift: "v < 2 ^ 32 \<Longrightarrow> unat (drop_bit n (word_of_nat v :: u32)) = v div 2 ^ n"
proof -
  assume v: "v < 2 ^ 32"
  have "unat (drop_bit n (word_of_nat v :: u32)) = drop_bit n (take_bit 32 (unat (word_of_nat v :: u32)))"
    by (subst unsigned_drop_bit_eq) simp
  also have "take_bit 32 (unat (word_of_nat v :: u32)) = v" using v by (simp add: unsigned_of_nat take_bit_nat_eq_self)
  finally show ?thesis by (simp add: drop_bit_eq_div)
qed

lemma pde_index_div: "v < 2 ^ 32 \<Longrightarrow> pde_index v = v div 2 ^ 22"
proof -
  assume v: "v < 2 ^ 32"
  have "ENTRY_BIT_MASK = mask 10" by (simp add: ENTRY_BIT_MASK_def mask_eq_exp_minus_1)
  moreover have "drop_bit 22 ((word_of_nat v :: u32) AND push_bit 22 (mask 10)) = drop_bit 22 (word_of_nat v)"
    by (rule bit_word_eqI) (auto simp: bit_simps)
  ultimately show ?thesis unfolding pde_index_def by (simp only: unat_shift [OF v])
qed

lemma pte_index_mod: "v < 2 ^ 32 \<Longrightarrow> pte_index v = v div 2 ^ 12 mod 1024"
proof -
  assume v: "v < 2 ^ 32"
  have "ENTRY_BIT_MASK = mask 10" by (simp add: ENTRY_BIT_MASK_def mask_eq_exp_minus_1)
  moreover have "drop_bit 12 ((word_of_nat v :: u32) AND push_bit 12 (mask 10)) = take_bit 10 (drop_bit 12 (word_of_nat v))"
    by (rule bit_word_eqI) (auto simp: bit_simps)
  ultimately have "pte_index v = take_bit 10 (unat (drop_bit 12 (word_of_nat v :: u32)))"
    unfolding pte_index_def by (simp only: unsigned_take_bit_eq)
  then show ?thesis unfolding unat_shift [OF v] by (simp add: take_bit_eq_mod)
qed

lemma index_page:
  assumes "v < 2 ^ 32"
  shows "pde_index v = v div PAGE_SIZE div ENTRY_COUNT" and "pte_index v = v div PAGE_SIZE mod ENTRY_COUNT"
  using assms by (simp_all add: pde_index_div pte_index_mod div_mult2_eq [symmetric])

lemma flag_bits:
  "e AND FLAG_P \<noteq> 0 \<longleftrightarrow> bit e 0" "e AND FLAG_RW \<noteq> 0 \<longleftrightarrow> bit e 1" "e AND FLAG_US \<noteq> 0 \<longleftrightarrow> bit e 2"
  using and_power_word [of e 0] and_power_word [of e 1] and_power_word [of e 2]
  by (simp_all add: FLAG_P_def FLAG_RW_def FLAG_US_def)

lemma bit_flags:
  "bit FLAG_P k \<longleftrightarrow> k = 0" "bit FLAG_RW k \<longleftrightarrow> k = 1" "bit FLAG_US k \<longleftrightarrow> k = 2" "bit FLAG_PCD k \<longleftrightarrow> k = 4"
  using bit_power_word [of 0 k, where ?'a = 32] bit_power_word [of 1 k, where ?'a = 32] bit_power_word [of 2 k, where ?'a = 32]
    bit_power_word [of 4 k, where ?'a = 32]
  by (auto simp: FLAG_P_def FLAG_RW_def FLAG_US_def FLAG_PCD_def)

lemma low_mask: "(0xfff :: u32) = mask 12"
  by (simp add: mask_eq_exp_minus_1)

lemma bit_frame: "bit (frame_of e) k \<longleftrightarrow> 12 \<le> k \<and> bit e k"
  by (auto simp: frame_of_def low_mask bit_and_iff bit_not_iff bit_mask_iff dest: bit_imp_le_length)

definition page_aligned :: "u32 \<Rightarrow> bool" where
  "page_aligned p \<longleftrightarrow> (\<forall>k. bit p k \<longrightarrow> 12 \<le> k)"

lemma bit_new_pte:
  "bit (new_pte b fl us) k \<longleftrightarrow>
    bit b k \<or> k = 1 \<and> fl AND MAP_PROT_WRITE \<noteq> 0 \<or> k = 4 \<and> fl AND MAP_PROT_NOCACHE \<noteq> 0 \<or> k = 2 \<and> us"
  by (auto simp: new_pte_def bit_or_iff bit_flags)

lemma frame_new_pte: "frame_of (new_pte b fl us) = frame_of b"
  by (rule bit_word_eqI) (auto simp: bit_frame bit_new_pte)

lemma frame_base: "page_aligned p \<Longrightarrow> frame_of (p OR FLAG_P) = p"
  by (rule bit_word_eqI) (auto simp: bit_frame bit_or_iff bit_flags page_aligned_def)

lemma frame_kept: "frame_of (e AND NOT (0xfff AND NOT FLAG_P)) = frame_of e"
  by (rule bit_word_eqI) (auto simp: bit_frame bit_and_iff bit_or_iff bit_not_iff low_mask bit_mask_iff)

lemma frame_pde: "page_aligned p \<Longrightarrow> frame_of (p OR FLAG_P OR FLAG_RW OR FLAG_US) = p"
  by (rule bit_word_eqI) (auto simp: bit_frame bit_or_iff bit_flags page_aligned_def)

lemma page_aligned_iff: "page_aligned p \<longleftrightarrow> unat p mod PAGE_SIZE = 0"
proof -
  have "page_aligned p \<longleftrightarrow> take_bit 12 p = 0"
    by (auto simp: page_aligned_def bit_eq_iff bit_take_bit_iff) (metis linorder_not_less order_less_trans numeral_less_iff semiring_norm)
  also have "\<dots> \<longleftrightarrow> unat (take_bit 12 p) = 0" by (simp only: unsigned_eq_0_iff)
  also have "\<dots> \<longleftrightarrow> unat p mod PAGE_SIZE = 0" by (simp only: unsigned_take_bit_eq) (simp add: take_bit_eq_mod)
  finally show ?thesis .
qed

subsection \<open>The invariant\<close>

text \<open>
  The entry of a page of the space below the recursive window, \<open>None\<close> if its table is missing.
\<close>

abbreviation PAGES :: nat where "PAGES \<equiv> 1023 * 1024"

definition present_pd :: "mmu \<Rightarrow> nat \<Rightarrow> bool" where
  "present_pd m pde \<longleftrightarrow> pagedir m pde AND FLAG_P \<noteq> 0"

definition pt :: "mmu \<Rightarrow> nat \<Rightarrow> u32 option" where
  "pt m p = (if present_pd m (p div ENTRY_COUNT)
     then Some (mem m (frame_of (pagedir m (p div ENTRY_COUNT))) (p mod ENTRY_COUNT)) else None)"

text \<open>
  The tables in use are distinct frames and none of them is the directory; the frames that will be
  handed out are page-aligned, not null, distinct and not in use.
\<close>

definition wf_mmu :: "mmu \<Rightarrow> bool" where
  "wf_mmu m \<longleftrightarrow>
     (\<forall>pde<PAGEDIR_PDE. present_pd m pde \<longrightarrow> frame_of (pagedir m pde) \<noteq> cr3 m \<and> frame_of (pagedir m pde) \<notin> set (frames m)) \<and>
     (\<forall>pde<PAGEDIR_PDE. \<forall>pde'<PAGEDIR_PDE. present_pd m pde \<longrightarrow> present_pd m pde' \<longrightarrow>
        frame_of (pagedir m pde) = frame_of (pagedir m pde') \<longrightarrow> pde = pde') \<and>
     distinct (frames m) \<and> cr3 m \<notin> set (frames m) \<and> (\<forall>f\<in>set (frames m). f \<noteq> 0 \<and> page_aligned f)"

lemma wf_tables:
  assumes "wf_mmu m" and "pde < PAGEDIR_PDE" and "present_pd m pde"
  shows "frame_of (pagedir m pde) \<noteq> cr3 m" and "frame_of (pagedir m pde) \<notin> set (frames m)"
    and "pde' < PAGEDIR_PDE \<Longrightarrow> present_pd m pde' \<Longrightarrow> frame_of (pagedir m pde) = frame_of (pagedir m pde') \<longleftrightarrow> pde = pde'"
  using assms unfolding wf_mmu_def by blast+

lemma read_pt_eq: "read_pt m (p div ENTRY_COUNT) (p mod ENTRY_COUNT) = (case pt m p of None \<Rightarrow> Inl Page_fault | Some e \<Rightarrow> Inr e)"
  by (simp add: read_pt_def pt_def present_pd_def)

lemma write_pt_ok:
  assumes wf: "wf_mmu m" and p: "p < PAGES" and some: "pt m p \<noteq> None"
  shows "\<exists>m'. write_pt m (p div ENTRY_COUNT) (p mod ENTRY_COUNT) e = Inr m' \<and> wf_mmu m' \<and> pagedir m' = pagedir m \<and>
    tlb m' = tlb m \<and> frames m' = frames m \<and> (\<forall>q<PAGES. pt m' q = (if q = p then Some e else pt m q))"
proof -
  let ?pde = "p div ENTRY_COUNT" and ?pte = "p mod ENTRY_COUNT"
  let ?f = "frame_of (pagedir m ?pde)"
  let ?m = "m\<lparr>mem := (mem m)(?f := (mem m ?f)(?pte := e))\<rparr>"
  have pde: "?pde < PAGEDIR_PDE" using p by (simp add: div_less_iff_less_mult)
  have pres: "present_pd m ?pde" using some by (auto simp: pt_def split: if_splits)
  note t = wf_tables [OF wf pde pres]
  have dir: "pagedir ?m = pagedir m" using t(1) by (auto simp: pagedir_def fun_eq_iff)
  then have present: "present_pd ?m = present_pd m" by (simp add: present_pd_def fun_eq_iff)
  have "write_pt m ?pde ?pte e = Inr ?m" using pres by (simp add: write_pt_def present_pd_def Let_def)
  moreover have "wf_mmu ?m" using wf by (simp add: wf_mmu_def dir present)
  moreover have "pt ?m q = (if q = p then Some e else pt m q)" if "q < PAGES" for q
  proof (cases "present_pd m (q div ENTRY_COUNT)")
    case True
    have q: "q div ENTRY_COUNT < PAGEDIR_PDE" using that by (simp add: div_less_iff_less_mult)
    have "q = p \<longleftrightarrow> q div ENTRY_COUNT = ?pde \<and> q mod ENTRY_COUNT = ?pte" by (metis div_mult_mod_eq)
    then show ?thesis using True t(3) [OF q True] by (auto simp: pt_def dir present)
  next
    case False
    then show ?thesis using pres by (auto simp: pt_def dir present)
  qed
  ultimately show ?thesis using dir by (intro exI [of _ ?m]) simp
qed

subsection \<open>Page directory entries\<close>

lemma flush_fields [simp]:
  "cr3 (arch_mmu_flush_tlb_for m v) = cr3 m" "mem (arch_mmu_flush_tlb_for m v) = mem m" "frames (arch_mmu_flush_tlb_for m v) = frames m"
  "pagedir (arch_mmu_flush_tlb_for m v) = pagedir m" "present_pd (arch_mmu_flush_tlb_for m v) = present_pd m"
  "pt (arch_mmu_flush_tlb_for m v) = pt m" "wf_mmu (arch_mmu_flush_tlb_for m v) \<longleftrightarrow> wf_mmu m"
  "tlb (arch_mmu_flush_tlb_for m v) = (tlb m)(v div PAGE_SIZE := None)"
  by (simp_all add: arch_mmu_flush_tlb_for_def pagedir_def present_pd_def pt_def wf_mmu_def fun_eq_iff)

text \<open>States that differ in the TLB only, where the second has flushed more.\<close>

definition flushed :: "mmu \<Rightarrow> mmu \<Rightarrow> bool" where
  "flushed m m' \<longleftrightarrow> cr3 m' = cr3 m \<and> mem m' = mem m \<and> frames m' = frames m \<and> (\<forall>p. tlb m' p = tlb m p \<or> tlb m' p = None)"

lemma flushed_refl: "flushed m m"
  by (simp add: flushed_def)

lemma flushed_step: "flushed m m' \<Longrightarrow> flushed m (arch_mmu_flush_tlb_for m' v)"
  by (auto simp: flushed_def)

lemma flushed_fold: "flushed m m' \<Longrightarrow> flushed m (foldl (\<lambda>m i. arch_mmu_flush_tlb_for m (g i)) m' is)"
  by (induction "is" arbitrary: m') (auto intro: flushed_step)

lemma flushed_same:
  assumes "flushed m m'"
  shows "pagedir m' = pagedir m" "present_pd m' = present_pd m" "pt m' = pt m" "wf_mmu m' \<longleftrightarrow> wf_mmu m"
  using assms by (simp_all add: flushed_def pagedir_def present_pd_def pt_def wf_mmu_def fun_eq_iff)

lemma create_pd_ok:
  assumes wf: "wf_mmu m" and pde: "pde < 256" and absent: "\<not> present_pd m pde" and fr: "frames m = f # fs"
  shows "\<exists>m'. create_pd m pde = Inr (m', 0) \<and> wf_mmu m' \<and> frames m' = fs \<and> cr3 m' = cr3 m \<and>
    (\<forall>d. d \<noteq> pde \<longrightarrow> pagedir m' d = pagedir m d) \<and> present_pd m' pde \<and>
    (\<forall>q<PAGES. pt m' q = (if q div ENTRY_COUNT = pde then Some 0 else pt m q)) \<and>
    (\<forall>p. tlb m' p = tlb m p \<or> tlb m' p = None)"
proof -
  let ?e = "f OR FLAG_P OR FLAG_RW OR FLAG_US"
  let ?m1 = "(set_pagedir (m\<lparr>frames := fs\<rparr>) pde ?e)"
  let ?m2 = "arch_mmu_flush_tlb_for ?m1 (MAKE_VIRTADDR PAGEDIR_PDE pde 0)"
  define m3 where "m3 = ?m2\<lparr>mem := (mem ?m2)(frame_of (pagedir ?m2 pde) := (\<lambda>_. 0))\<rparr>"
  define m4 where "m4 = foldl (\<lambda>m i. arch_mmu_flush_tlb_for m (MAKE_VIRTADDR pde i 0)) m3 [0..<ENTRY_COUNT]"
  have f: "f \<noteq> 0" "page_aligned f" "f \<noteq> cr3 m" "f \<notin> set fs" "distinct fs" "cr3 m \<notin> set fs" "\<forall>g\<in>set fs. g \<noteq> 0 \<and> page_aligned g"
    using wf fr by (auto simp: wf_mmu_def)
  have run: "create_pd m pde = Inr (m4, 0)"
    using f(1) fr pde by (simp add: create_pd_def pmm_alloc_page_def Let_def m3_def m4_def del: upt_Suc upt_rec_numeral)
  have dir1: "pagedir ?m1 = (pagedir m)(pde := ?e)" by (auto simp: pagedir_def set_pagedir_def fun_eq_iff)
  have frame: "frame_of ?e = f" by (rule frame_pde [OF f(2)])
  have dir3: "pagedir m3 = (pagedir m)(pde := ?e)"
    using f(3) dir1 frame by (auto simp: m3_def pagedir_def set_pagedir_def fun_eq_iff)
  have "?e AND FLAG_P \<noteq> 0" by (simp add: flag_bits bit_or_iff bit_flags)
  then have pres3: "present_pd m3 d \<longleftrightarrow> d = pde \<or> present_pd m d" for d by (simp add: present_pd_def dir3)
  have other: "frame_of (pagedir m d) \<noteq> f" if "d < PAGEDIR_PDE" "present_pd m d" for d
    using wf that fr by (auto simp: wf_mmu_def)
  have cr: "cr3 m3 = cr3 m" "frames m3 = fs" "\<forall>p. tlb m3 p = tlb m p \<or> tlb m3 p = None" by (auto simp: m3_def set_pagedir_def)
  have mem3: "mem m3 g = (if g = f then (\<lambda>_. 0) else if g = cr3 m then (mem m g)(pde := ?e) else mem m g)" for g
    using dir1 frame by (simp add: m3_def set_pagedir_def)
  have fl: "flushed m3 m4" unfolding m4_def by (intro flushed_fold flushed_refl)
  have "wf_mmu m3"
    unfolding wf_mmu_def
  proof (intro conjI allI impI)
    fix d assume d: "d < PAGEDIR_PDE" "present_pd m3 d"
    show "frame_of (pagedir m3 d) \<noteq> cr3 m3" "frame_of (pagedir m3 d) \<notin> set (frames m3)"
      using d wf f fr frame by (auto simp: pres3 dir3 cr wf_mmu_def)
    fix d' assume d': "d' < PAGEDIR_PDE" "present_pd m3 d'" "frame_of (pagedir m3 d) = frame_of (pagedir m3 d')"
    show "d = d'"
      using d d' other frame wf by (auto simp: pres3 dir3 wf_mmu_def split: if_splits)
  qed (use f cr in auto)
  moreover have "pt m3 q = (if q div ENTRY_COUNT = pde then Some 0 else pt m q)" if q: "q < PAGES" for q
  proof -
    have "q div ENTRY_COUNT < PAGEDIR_PDE" using q by (simp add: div_less_iff_less_mult)
    then show ?thesis
      using other [of "q div ENTRY_COUNT"] frame wf by (auto simp: pt_def pres3 dir3 mem3 wf_mmu_def)
  qed
  moreover have "tlb m4 p = tlb m p \<or> tlb m4 p = None" for p
    using fl cr(3) unfolding flushed_def by metis
  moreover have "cr3 m4 = cr3 m" "frames m4 = fs" using fl cr by (simp_all add: flushed_def)
  ultimately show ?thesis
    using run flushed_same [OF fl] dir3 pres3 by (intro exI [of _ m4]) simp
qed

subsection \<open>Pages\<close>

text \<open>What the processor may have cached allows nothing that the tables do not.\<close>

definition tlb_safe :: "mmu \<Rightarrow> bool" where
  "tlb_safe m \<longleftrightarrow> (\<forall>p<PAGES. \<forall>c. tlb m p = Some c \<longrightarrow>
     (\<exists>e. pt m p = Some e \<and> bit e 0 \<and> frame_of c = frame_of e \<and> (bit c 1 \<longrightarrow> bit e 1) \<and> (bit c 2 \<longrightarrow> bit e 2)))"

lemma addr_pages:
  assumes "v < 2 ^ 32"
  shows "read_pt m (pde_index v) (pte_index v) = (case pt m (v div PAGE_SIZE) of None \<Rightarrow> Inl Page_fault | Some e \<Rightarrow> Inr e)"
    and "present_pd m (pde_index v) \<longleftrightarrow> pt m (v div PAGE_SIZE) \<noteq> None"
  using read_pt_eq [of m "v div PAGE_SIZE"] index_page [OF assms] by (simp_all add: pt_def)

text \<open>One entry replaced: what changes and when it is safe not to flush.\<close>

lemma replace_entry:
  assumes wf: "wf_mmu m" and v: "v < 2 ^ 32" "v div PAGE_SIZE < PAGES" and old: "pt m (v div PAGE_SIZE) = Some old"
    and safe: "tlb_safe m" and flush: "\<not> fl \<longrightarrow> bit old 0 \<longrightarrow>
      bit new 0 \<and> frame_of new = frame_of old \<and> (bit old 1 \<longrightarrow> bit new 1) \<and> (bit old 2 \<longrightarrow> bit new 2)"
  shows "\<exists>m'. bind_res (write_pt m (pde_index v) (pte_index v) new) (\<lambda>m. Inr (if fl then arch_mmu_flush_tlb_for m v else m)) = Inr m' \<and>
    wf_mmu m' \<and> tlb_safe m' \<and> pagedir m' = pagedir m \<and> frames m' = frames m \<and>
    (\<forall>q<PAGES. pt m' q = (if q = v div PAGE_SIZE then Some new else pt m q))"
proof -
  obtain m1 where m1: "write_pt m (pde_index v) (pte_index v) new = Inr m1" "wf_mmu m1" "pagedir m1 = pagedir m" "tlb m1 = tlb m"
      "frames m1 = frames m" "\<forall>q<PAGES. pt m1 q = (if q = v div PAGE_SIZE then Some new else pt m q)"
    using write_pt_ok [OF wf v(2), of new] old index_page [OF v(1)] by auto
  let ?m = "if fl then arch_mmu_flush_tlb_for m1 v else m1"
  have pts: "\<forall>q<PAGES. pt ?m q = (if q = v div PAGE_SIZE then Some new else pt m q)" using m1(6) by simp
  have "tlb_safe ?m"
    unfolding tlb_safe_def
  proof (intro allI impI)
    fix p c assume p: "p < PAGES" and c: "tlb ?m p = Some c"
    have "\<not> (fl \<and> p = v div PAGE_SIZE)" using c by (auto split: if_splits)
    moreover have "tlb m p = Some c" using c m1(4) by (auto split: if_splits)
    then obtain e where e: "pt m p = Some e" "bit e 0" "frame_of c = frame_of e" "bit c 1 \<longrightarrow> bit e 1" "bit c 2 \<longrightarrow> bit e 2"
      using safe p unfolding tlb_safe_def by blast
    ultimately show "\<exists>e. pt ?m p = Some e \<and> bit e 0 \<and> frame_of c = frame_of e \<and> (bit c 1 \<longrightarrow> bit e 1) \<and> (bit c 2 \<longrightarrow> bit e 2)"
      using p pts flush old by (cases "p = v div PAGE_SIZE") auto
  qed
  then show ?thesis using m1 pts by (intro exI [of _ ?m]) simp
qed

lemma map_single_page_ok:
  assumes wf: "wf_mmu m" and v: "v < 2 ^ 32" "v div PAGE_SIZE < PAGES" and old: "pt m (v div PAGE_SIZE) \<noteq> None"
    and safe: "tlb_safe m" and phys: "page_aligned phys"
  shows "\<exists>m'. map_single_page m v phys flags user = Inr m' \<and> wf_mmu m' \<and> tlb_safe m' \<and> pagedir m' = pagedir m \<and> frames m' = frames m \<and>
    (\<forall>q<PAGES. pt m' q = (if q = v div PAGE_SIZE then Some (new_pte (phys OR FLAG_P) flags user) else pt m q))"
proof -
  obtain old where old: "pt m (v div PAGE_SIZE) = Some old" using old by blast
  let ?fl = "old AND FLAG_P \<noteq> 0 \<and> (old AND FLAG_RW \<noteq> 0 \<and> flags AND MAP_PROT_WRITE = 0 \<or> old AND FLAG_US \<noteq> 0 \<and> \<not> user \<or> frame_of old \<noteq> phys)"
  let ?new = "new_pte (phys OR FLAG_P) flags user"
  have "frame_of ?new = phys" by (simp only: frame_new_pte frame_base [OF phys])
  then have "\<not> ?fl \<longrightarrow> bit old 0 \<longrightarrow>
      bit ?new 0 \<and> frame_of ?new = frame_of old \<and> (bit old 1 \<longrightarrow> bit ?new 1) \<and> (bit old 2 \<longrightarrow> bit ?new 2)"
    by (auto simp: flag_bits bit_new_pte bit_or_iff bit_flags)
  note new = replace_entry [OF wf v old safe this]
  have "map_single_page m v phys flags user =
      bind_res (write_pt m (pde_index v) (pte_index v) ?new) (\<lambda>m. Inr (if ?fl then arch_mmu_flush_tlb_for m v else m))"
    using addr_pages(1) [OF v(1), of m] old by (simp only: map_single_page_def Let_def option.case bind_res_Inr)
  then show ?thesis using new by (simp only:)
qed

lemma remap_single_page_ok:
  assumes wf: "wf_mmu m" and v: "v < 2 ^ 32" "v div PAGE_SIZE < PAGES" and old: "pt m (v div PAGE_SIZE) = Some old" "bit old 0"
    and safe: "tlb_safe m"
  shows "\<exists>m'. remap_single_page m v flags user = Inr m' \<and> wf_mmu m' \<and> tlb_safe m' \<and> pagedir m' = pagedir m \<and> frames m' = frames m \<and>
    (\<forall>q<PAGES. pt m' q = (if q = v div PAGE_SIZE then Some (new_pte (frame_of old OR FLAG_P) flags user) else pt m q))"
proof -
  let ?fl = "old AND FLAG_RW \<noteq> 0 \<and> flags AND MAP_PROT_WRITE = 0 \<or> old AND FLAG_US \<noteq> 0 \<and> \<not> user"
  let ?new = "new_pte (frame_of old OR FLAG_P) flags user"
  have low: "old AND NOT (0xfff AND NOT FLAG_P) = frame_of old OR FLAG_P"
    using old(2) by (intro bit_word_eqI)
      (auto simp: bit_frame bit_and_iff bit_or_iff bit_not_iff low_mask bit_mask_iff bit_flags)
  have "frame_of ?new = frame_of old" unfolding frame_new_pte low [symmetric] by (rule frame_kept)
  then have "\<not> ?fl \<longrightarrow> bit old 0 \<longrightarrow>
      bit ?new 0 \<and> frame_of ?new = frame_of old \<and> (bit old 1 \<longrightarrow> bit ?new 1) \<and> (bit old 2 \<longrightarrow> bit ?new 2)"
    by (auto simp: flag_bits bit_new_pte bit_or_iff bit_flags)
  note new = replace_entry [OF wf v old(1) safe this]
  have "remap_single_page m v flags user =
      bind_res (write_pt m (pde_index v) (pte_index v) ?new) (\<lambda>m. Inr (if ?fl then arch_mmu_flush_tlb_for m v else m))"
    using addr_pages(1) [OF v(1), of m] old(1) by (simp only: remap_single_page_def Let_def option.case bind_res_Inr low)
  then show ?thesis using new by (simp only:)
qed

lemma unmap_single_ok:
  assumes wf: "wf_mmu m" and v: "v < 2 ^ 32" "v div PAGE_SIZE < PAGES" and old: "pt m (v div PAGE_SIZE) = Some old" and safe: "tlb_safe m"
  shows "\<exists>m'. write_pt m (pde_index v) (pte_index v) 0 = Inr m' \<and> wf_mmu (arch_mmu_flush_tlb_for m' v) \<and>
    tlb_safe (arch_mmu_flush_tlb_for m' v) \<and> (\<forall>q<PAGES. pt m' q = (if q = v div PAGE_SIZE then Some 0 else pt m q))"
  using replace_entry [OF wf v old safe, of True 0] by (auto simp: bind_res_eq_Inr)

subsection \<open>Ranges of pages\<close>

lemma page_addr:
  assumes "addr_valid base n" and "base < 2 ^ 32" and "i < n"
  shows "sz_add base (i * PAGE_SIZE) = base + i * PAGE_SIZE" and "base + i * PAGE_SIZE < 2 ^ 32"
    and "(base + i * PAGE_SIZE) div PAGE_SIZE = base div PAGE_SIZE + i"
proof -
  have "base + n * PAGE_SIZE < 2 ^ 32" using assms(1,2) by (simp add: addr_valid_def not_less) linarith
  moreover have "i * PAGE_SIZE \<le> n * PAGE_SIZE" using assms(3) by simp
  ultimately show "base + i * PAGE_SIZE < 2 ^ 32" by linarith
  then show "sz_add base (i * PAGE_SIZE) = base + i * PAGE_SIZE" by (simp add: sz_add_no_wrap)
qed simp

lemma page_addrs_eq:
  assumes "addr_valid base n" and "base < 2 ^ 32"
  shows "page_addrs base n = map (\<lambda>i. base + i * PAGE_SIZE) [0..<n]"
  using page_addr(1) [OF assms] by (simp add: page_addrs_def)

text \<open>The directory entries that are missing for a list of addresses.\<close>

definition missing :: "mmu \<Rightarrow> nat list \<Rightarrow> nat set" where
  "missing m vs = {pde \<in> pde_index ` set vs. \<not> present_pd m pde}"

lemma create_safe:
  assumes safe: "tlb_safe m" and absent: "\<not> present_pd m pde"
    and pts: "\<forall>q<PAGES. pt m' q = (if q div ENTRY_COUNT = pde then Some 0 else pt m q)"
    and tlb: "\<forall>p. tlb m' p = tlb m p \<or> tlb m' p = None"
  shows "tlb_safe m'"
  unfolding tlb_safe_def
proof (intro allI impI)
  fix p c assume p: "p < PAGES" and c: "tlb m' p = Some c"
  then have "tlb m p = Some c" using tlb by (metis option.distinct(1))
  then obtain e where e: "pt m p = Some e" "bit e 0 \<and> frame_of c = frame_of e \<and> (bit c 1 \<longrightarrow> bit e 1) \<and> (bit c 2 \<longrightarrow> bit e 2)"
    using safe p unfolding tlb_safe_def by blast
  then have "p div ENTRY_COUNT \<noteq> pde" using absent by (auto simp: pt_def split: if_splits)
  then show "\<exists>e. pt m' p = Some e \<and> bit e 0 \<and> frame_of c = frame_of e \<and> (bit c 1 \<longrightarrow> bit e 1) \<and> (bit c 2 \<longrightarrow> bit e 2)"
    using e pts p by auto
qed

lemma create_loop_ok:
  assumes "wf_mmu m" and "\<forall>pde\<in>missing m vs. pde < 256" and "card (missing m vs) \<le> length (frames m)" and "tlb_safe m"
  shows "\<exists>m'. create_loop m vs = Inr (m', True) \<and> wf_mmu m' \<and> tlb_safe m' \<and>
    (\<forall>pde. present_pd m' pde \<longleftrightarrow> present_pd m pde \<or> pde \<in> missing m vs) \<and>
    (\<forall>q<PAGES. pt m' q = (if q div ENTRY_COUNT \<in> missing m vs then Some 0 else pt m q))"
  using assms
proof (induction vs arbitrary: m)
  case Nil
  then show ?case by (simp add: missing_def)
next
  case (Cons v vs)
  let ?pde = "pde_index v"
  show ?case
  proof (cases "present_pd m ?pde")
    case True
    then have "missing m (v # vs) = missing m vs" by (auto simp: missing_def)
    moreover have "create_loop m (v # vs) = create_loop m vs" using True by (simp add: present_pd_def)
    ultimately show ?thesis using Cons.IH [of m] Cons.prems by (simp only:)
  next
    case False
    have fin: "finite (missing m (v # vs))" by (simp add: missing_def)
    have mem: "?pde \<in> missing m (v # vs)" using False by (simp add: missing_def)
    then have "frames m \<noteq> []" using Cons.prems(3) fin by (auto simp: card_gt_0_iff)
    then obtain f fs where fr: "frames m = f # fs" by (auto simp: neq_Nil_conv)
    have "?pde < 256" using Cons.prems(2) mem by blast
    from create_pd_ok [OF Cons.prems(1) this False fr]
    obtain m1 where m1: "create_pd m ?pde = Inr (m1, 0)" "wf_mmu m1" "frames m1 = fs"
        "\<forall>d. d \<noteq> ?pde \<longrightarrow> pagedir m1 d = pagedir m d" "present_pd m1 ?pde"
        "\<forall>q<PAGES. pt m1 q = (if q div ENTRY_COUNT = ?pde then Some 0 else pt m q)" "\<forall>p. tlb m1 p = tlb m p \<or> tlb m1 p = None"
      by blast
    have pres: "present_pd m1 d \<longleftrightarrow> present_pd m d \<or> d = ?pde" for d
      using m1(4,5) by (cases "d = ?pde") (auto simp: present_pd_def)
    have miss: "missing m1 vs = missing m (v # vs) - {?pde}" by (auto simp: missing_def pres)
    have "card (missing m1 vs) \<le> length (frames m1)"
      unfolding miss using Cons.prems(3) fin mem fr m1(3) by simp
    moreover have "\<forall>pde\<in>missing m1 vs. pde < 256" unfolding miss using Cons.prems(2) by blast
    moreover have "tlb_safe m1" by (rule create_safe [OF Cons.prems(4) False m1(6,7)])
    ultimately obtain m' where m': "create_loop m1 vs = Inr (m', True)" "wf_mmu m'" "tlb_safe m'"
        "\<forall>pde. present_pd m' pde \<longleftrightarrow> present_pd m1 pde \<or> pde \<in> missing m1 vs"
        "\<forall>q<PAGES. pt m' q = (if q div ENTRY_COUNT \<in> missing m1 vs then Some 0 else pt m1 q)"
      using Cons.IH [OF m1(2)] by blast
    have "create_loop m (v # vs) = Inr (m', True)" using False m1(1) m'(1) by (simp add: present_pd_def)
    moreover have "\<forall>q<PAGES. pt m' q = (if q div ENTRY_COUNT \<in> missing m (v # vs) then Some 0 else pt m q)"
      using m'(5) m1(6) mem unfolding miss by auto
    moreover have "\<forall>pde. present_pd m' pde \<longleftrightarrow> present_pd m pde \<or> pde \<in> missing m (v # vs)"
      using m'(4) pres mem unfolding miss by auto
    ultimately show ?thesis using m'(2,3) by blast
  qed
qed

lemma map_loop_ok:
  assumes "wf_mmu m" and "tlb_safe m" and "\<forall>(v, p)\<in>set vps. v < 2 ^ 32 \<and> v div PAGE_SIZE < PAGES \<and> pt m (v div PAGE_SIZE) \<noteq> None \<and> page_aligned p"
    and "distinct (map (\<lambda>(v, p). v div PAGE_SIZE) vps)"
  shows "\<exists>m'. map_loop m vps flags user = Inr m' \<and> wf_mmu m' \<and> tlb_safe m' \<and> pagedir m' = pagedir m \<and>
    (\<forall>q<PAGES. pt m' q = (case map_of (map (\<lambda>(v, p). (v div PAGE_SIZE, p)) vps) q of
       None \<Rightarrow> pt m q | Some p \<Rightarrow> Some (new_pte (p OR FLAG_P) flags user)))"
  using assms
proof (induction vps arbitrary: m)
  case (Cons vp vps)
  obtain v p where vp: "vp = (v, p)" by force
  have v: "v < 2 ^ 32" "v div PAGE_SIZE < PAGES" "pt m (v div PAGE_SIZE) \<noteq> None" "page_aligned p"
    using Cons.prems(3) vp by auto
  from map_single_page_ok [OF Cons.prems(1) v(1-3) Cons.prems(2) v(4), of flags user]
  obtain m1 where m1: "map_single_page m v p flags user = Inr m1" "wf_mmu m1" "tlb_safe m1" "pagedir m1 = pagedir m"
      "\<forall>q<PAGES. pt m1 q = (if q = v div PAGE_SIZE then Some (new_pte (p OR FLAG_P) flags user) else pt m q)" by blast
  have "\<forall>(v, p)\<in>set vps. v < 2 ^ 32 \<and> v div PAGE_SIZE < PAGES \<and> pt m1 (v div PAGE_SIZE) \<noteq> None \<and> page_aligned p"
    using Cons.prems(3) m1(5) by fastforce
  moreover have fresh: "v div PAGE_SIZE \<notin> (\<lambda>(v, p). v div PAGE_SIZE) ` set vps" "distinct (map (\<lambda>(v, p). v div PAGE_SIZE) vps)"
    using Cons.prems(4) vp by auto
  ultimately obtain m' where m': "map_loop m1 vps flags user = Inr m'" "wf_mmu m'" "tlb_safe m'" "pagedir m' = pagedir m1"
      "\<forall>q<PAGES. pt m' q = (case map_of (map (\<lambda>(v, p). (v div PAGE_SIZE, p)) vps) q of
         None \<Rightarrow> pt m1 q | Some p \<Rightarrow> Some (new_pte (p OR FLAG_P) flags user))"
    using Cons.IH [OF m1(2,3)] by blast
  have "map_of (map (\<lambda>(v, p). (v div PAGE_SIZE, p)) vps) (v div PAGE_SIZE) = None"
    using fresh(1) by (force simp: map_of_eq_None_iff)
  then show ?case using m1 m' vp by (intro exI [of _ m']) (auto split: option.splits)
qed simp

lemma v2p_pt:
  assumes "a < 2 ^ 32"
  shows "arch_mmu_virtual_to_physical m a =
    (case pt m (a div PAGE_SIZE) of None \<Rightarrow> Inr (0, - EFAULT)
     | Some e \<Rightarrow> if bit e 0 then Inr (frame_of e + (word_of_nat a AND 0xfff), 0) else Inr (0, - EFAULT))"
proof -
  have "pagedir m (pde_index a) AND FLAG_P = 0 \<longleftrightarrow> pt m (a div PAGE_SIZE) = None"
    using addr_pages(2) [OF assms, of m] by (auto simp: present_pd_def)
  moreover have "e AND FLAG_P = 0 \<longleftrightarrow> \<not> bit e 0" for e using flag_bits(1) [of e] by blast
  ultimately show ?thesis
    using addr_pages(1) [OF assms, of m] by (simp add: arch_mmu_virtual_to_physical_def Let_def split: option.split)
qed

lemma map_of_range:
  "map_of (map (\<lambda>i. (b + i, f i)) [0..<n]) q = (if b \<le> q \<and> q < b + n then Some (f (q - b)) else None)"
  by (induction n) (auto simp: map_add_def)

lemma phys_page:
  assumes "addr_valid (unat p) n" and "page_aligned p" and "i < n"
  shows "page_aligned (p + word_of_nat (i * PAGE_SIZE))"
proof -
  have "unat p < 2 ^ 32" by (rule order_less_le_trans [OF unsigned_less]) simp
  from page_addr(2) [OF assms(1) this assms(3)]
  have "unat (p + word_of_nat (i * PAGE_SIZE)) = unat p + i * PAGE_SIZE"
    by (simp add: unat_word_ariths unsigned_of_nat take_bit_nat_eq_self)
  then show ?thesis using assms(2) by (simp add: page_aligned_iff)
qed

lemma presence_loop_ok:
  assumes "\<forall>v\<in>set vs. v < 2 ^ 32 \<and> (\<exists>e. pt m (v div PAGE_SIZE) = Some e \<and> bit e 0)"
  shows "presence_loop m vs = Inr 0"
  using assms
proof (induction vs)
  case (Cons v vs)
  obtain e where e: "v < 2 ^ 32" "pt m (v div PAGE_SIZE) = Some e" "bit e 0" using Cons.prems by auto
  then have "e AND FLAG_P \<noteq> 0" by (simp add: flag_bits)
  moreover have "pagedir m (pde_index v) AND FLAG_P \<noteq> 0" using addr_pages(2) [OF e(1), of m] e(2) by (simp add: present_pd_def)
  ultimately have "check_presence m v = Inr 0"
    using addr_pages(1) [OF e(1), of m] e(2) by (simp add: check_presence_def Let_def)
  then show ?case using Cons by simp
qed simp

lemma unmap_loop_ok:
  assumes "wf_mmu m" and "tlb_safe m" and "\<forall>v\<in>set vs. v < 2 ^ 32 \<and> v div PAGE_SIZE < PAGES \<and> pt m (v div PAGE_SIZE) \<noteq> None"
  shows "\<exists>m'. unmap_loop m vs = Inr m' \<and> wf_mmu m' \<and> tlb_safe m' \<and>
    (\<forall>q<PAGES. pt m' q = (if q \<in> (\<lambda>v. v div PAGE_SIZE) ` set vs then Some 0 else pt m q))"
  using assms
proof (induction vs arbitrary: m)
  case (Cons v vs)
  obtain old where v: "v < 2 ^ 32" "v div PAGE_SIZE < PAGES" "pt m (v div PAGE_SIZE) = Some old" using Cons.prems(3) by auto
  obtain m1 where m1: "write_pt m (pde_index v) (pte_index v) 0 = Inr m1" "wf_mmu (arch_mmu_flush_tlb_for m1 v)"
      "tlb_safe (arch_mmu_flush_tlb_for m1 v)" "\<forall>q<PAGES. pt m1 q = (if q = v div PAGE_SIZE then Some 0 else pt m q)"
    using unmap_single_ok [OF Cons.prems(1) v Cons.prems(2)] by blast
  have "\<forall>v\<in>set vs. v < 2 ^ 32 \<and> v div PAGE_SIZE < PAGES \<and> pt (arch_mmu_flush_tlb_for m1 v') (v div PAGE_SIZE) \<noteq> None" for v'
    using Cons.prems(3) m1(4) by auto
  then obtain m' where "unmap_loop (arch_mmu_flush_tlb_for m1 v) vs = Inr m'" "wf_mmu m'" "tlb_safe m'"
      "\<forall>q<PAGES. pt m' q = (if q \<in> (\<lambda>v. v div PAGE_SIZE) ` set vs then Some 0 else pt m1 q)"
    using Cons.IH [OF m1(2,3)] by (metis flush_fields(6))
  then show ?case using m1(1,4) by (intro exI [of _ m']) auto
qed simp

lemma remap_loop_ok:
  assumes "wf_mmu m" and "tlb_safe m"
    and "\<forall>v\<in>set vs. v < 2 ^ 32 \<and> v div PAGE_SIZE < PAGES \<and> (\<exists>e. pt m (v div PAGE_SIZE) = Some e \<and> bit e 0)"
    and "distinct (map (\<lambda>v. v div PAGE_SIZE) vs)"
  shows "\<exists>m'. remap_loop m vs flags user = Inr m' \<and> wf_mmu m' \<and> tlb_safe m' \<and>
    (\<forall>q<PAGES. pt m' q = (if q \<in> (\<lambda>v. v div PAGE_SIZE) ` set vs
       then map_option (\<lambda>e. new_pte (frame_of e OR FLAG_P) flags user) (pt m q) else pt m q))"
  using assms
proof (induction vs arbitrary: m)
  case (Cons v vs)
  obtain old where v: "v < 2 ^ 32" "v div PAGE_SIZE < PAGES" "pt m (v div PAGE_SIZE) = Some old" "bit old 0" using Cons.prems(3) by auto
  obtain m1 where m1: "remap_single_page m v flags user = Inr m1" "wf_mmu m1" "tlb_safe m1"
      "\<forall>q<PAGES. pt m1 q = (if q = v div PAGE_SIZE then Some (new_pte (frame_of old OR FLAG_P) flags user) else pt m q)"
    using remap_single_page_ok [OF Cons.prems(1) v Cons.prems(2), of flags user] by blast
  have "bit (new_pte (frame_of old OR FLAG_P) flags user) 0" by (simp add: bit_new_pte bit_or_iff bit_flags)
  then have "\<forall>v\<in>set vs. v < 2 ^ 32 \<and> v div PAGE_SIZE < PAGES \<and> (\<exists>e. pt m1 (v div PAGE_SIZE) = Some e \<and> bit e 0)"
    using Cons.prems(3) m1(4) by auto
  moreover have fresh: "v div PAGE_SIZE \<notin> (\<lambda>v. v div PAGE_SIZE) ` set vs" "distinct (map (\<lambda>v. v div PAGE_SIZE) vs)"
    using Cons.prems(4) by auto
  ultimately obtain m' where "remap_loop m1 vs flags user = Inr m'" "wf_mmu m'" "tlb_safe m'"
      "\<forall>q<PAGES. pt m' q = (if q \<in> (\<lambda>v. v div PAGE_SIZE) ` set vs
        then map_option (\<lambda>e. new_pte (frame_of e OR FLAG_P) flags user) (pt m1 q) else pt m1 q)"
    using Cons.IH [OF m1(2,3)] by blast
  then show ?case using m1(1,4) fresh(1) v(3) by (intro exI [of _ m']) auto
qed simp

lemma range_pages:
  assumes "addr_valid base n" and "base < 2 ^ 32"
  shows "(\<lambda>v. v div PAGE_SIZE) ` set (page_addrs base n) = {base div PAGE_SIZE..<base div PAGE_SIZE + n}"
    and "distinct (map (\<lambda>v. v div PAGE_SIZE) (page_addrs base n))"
    and "v \<in> set (page_addrs base n) \<Longrightarrow> v < 2 ^ 32"
proof -
  have m: "map (\<lambda>v. v div PAGE_SIZE) (page_addrs base n) = map (\<lambda>i. base div PAGE_SIZE + i) [0..<n]"
    using page_addr(3) [OF assms] by (simp add: page_addrs_eq [OF assms])
  show "distinct (map (\<lambda>v. v div PAGE_SIZE) (page_addrs base n))" unfolding m by (simp add: distinct_map inj_on_def)
  have "set (map (\<lambda>v. v div PAGE_SIZE) (page_addrs base n)) = {base div PAGE_SIZE..<base div PAGE_SIZE + n}"
    unfolding m by (auto simp: image_iff)
  then show "(\<lambda>v. v div PAGE_SIZE) ` set (page_addrs base n) = {base div PAGE_SIZE..<base div PAGE_SIZE + n}" by simp
  show "v \<in> set (page_addrs base n) \<Longrightarrow> v < 2 ^ 32"
    using page_addr(2) [OF assms] by (auto simp: page_addrs_eq [OF assms])
qed

subsection \<open>Properties\<close>

text \<open>A request that the code accepts: valid addresses below the recursive window, and enough frames.\<close>

definition mappable :: "mmu \<Rightarrow> nat \<Rightarrow> u32 \<Rightarrow> nat \<Rightarrow> bool" where
  "mappable m virt phys n \<longleftrightarrow> virt < 2 ^ 32 \<and> addr_valid virt n \<and> addr_valid (unat phys) n \<and> page_aligned phys \<and>
     virt div PAGE_SIZE + n \<le> PAGES \<and> (\<forall>pde\<in>missing m (page_addrs virt n). pde < 256) \<and>
     card (missing m (page_addrs virt n)) \<le> length (frames m)"

lemma map_pages:
  assumes wf: "wf_mmu m" "tlb_safe m" and ok: "mappable m virt phys n" and fl: "flags AND MAP_PROT_READ \<noteq> 0"
  shows "\<exists>m'. arch_mmu_map m virt phys n flags user = Inr (m', 0) \<and> wf_mmu m' \<and> tlb_safe m' \<and>
    (\<forall>q<PAGES. pt m' q =
      (if virt div PAGE_SIZE \<le> q \<and> q < virt div PAGE_SIZE + n
       then Some (new_pte ((phys + word_of_nat ((q - virt div PAGE_SIZE) * PAGE_SIZE)) OR FLAG_P) flags user)
       else if q div ENTRY_COUNT \<in> missing m (page_addrs virt n) then Some 0 else pt m q))"
proof -
  let ?vs = "page_addrs virt n" and ?b = "virt div PAGE_SIZE"
  let ?ph = "\<lambda>i. phys + word_of_nat (i * PAGE_SIZE)"
  let ?vps = "zip ?vs (map ?ph [0..<n])"
  have v: "addr_valid virt n" "virt < 2 ^ 32" and p: "addr_valid (unat phys) n" "page_aligned phys" and r: "?b + n \<le> PAGES"
    using ok by (simp_all add: mappable_def)
  note rp = range_pages [OF v]
  obtain m1 where m1: "create_loop m ?vs = Inr (m1, True)" "wf_mmu m1" "tlb_safe m1"
      "\<forall>pde. present_pd m1 pde \<longleftrightarrow> present_pd m pde \<or> pde \<in> missing m ?vs"
      "\<forall>q<PAGES. pt m1 q = (if q div ENTRY_COUNT \<in> missing m ?vs then Some 0 else pt m q)"
    using create_loop_ok [OF wf(1) _ _ wf(2), of ?vs] ok by (auto simp: mappable_def)
  have keys: "map (\<lambda>(v, p). (v div PAGE_SIZE, p)) ?vps = map (\<lambda>i. (?b + i, ?ph i)) [0..<n]"
    using page_addr(3) [OF v] by (simp add: page_addrs_eq [OF v] zip_map_map zip_same_conv_map)
  have "map (\<lambda>(v, p). v div PAGE_SIZE) ?vps = map fst (map (\<lambda>(v, p). (v div PAGE_SIZE, p)) ?vps)" by (simp add: case_prod_beta comp_def)
  then have dist: "distinct (map (\<lambda>(v, p). v div PAGE_SIZE) ?vps)" unfolding keys by (simp add: distinct_map inj_on_def)
  have pages: "\<forall>(v, p)\<in>set ?vps. v < 2 ^ 32 \<and> v div PAGE_SIZE < PAGES \<and> pt m1 (v div PAGE_SIZE) \<noteq> None \<and> page_aligned p"
  proof (intro ballI, clarify)
    fix v q assume vq: "(v, q) \<in> set ?vps"
    then have mem: "v \<in> set ?vs" by (rule set_zip_leftD)
    have lt: "v < 2 ^ 32" by (rule rp(3) [OF mem])
    have "v div PAGE_SIZE \<in> {?b..<?b + n}" using rp(1) mem by blast
    then have "v div PAGE_SIZE < PAGES" using r by (simp only: atLeastLessThan_iff) linarith
    moreover have "present_pd m1 (pde_index v)" using m1(4) mem by (auto simp: missing_def)
    then have "pt m1 (v div PAGE_SIZE) \<noteq> None" using addr_pages(2) [OF lt] by blast
    moreover have "page_aligned q" using set_zip_rightD [OF vq] phys_page [OF p] by auto
    ultimately show "v < 2 ^ 32 \<and> v div PAGE_SIZE < PAGES \<and> pt m1 (v div PAGE_SIZE) \<noteq> None \<and> page_aligned q" using lt by simp
  qed
  obtain m' where m': "map_loop m1 ?vps flags user = Inr m'" "wf_mmu m'" "tlb_safe m'"
      "\<forall>q<PAGES. pt m' q = (case map_of (map (\<lambda>i. (?b + i, ?ph i)) [0..<n]) q of
         None \<Rightarrow> pt m1 q | Some p \<Rightarrow> Some (new_pte (p OR FLAG_P) flags user))"
    using map_loop_ok [OF m1(2,3) pages dist, of flags user] unfolding keys by blast
  have "is_aligned (unat phys) PAGE_SIZE = Inr True" using p(2) by (simp add: is_aligned_def page_aligned_iff)
  then have "arch_mmu_map m virt phys n flags user = Inr (m', 0)"
    using v(1) p(1) fl m1(1) m'(1) by (simp add: arch_mmu_map_def del: create_loop.simps map_loop.simps)
  then show ?thesis using m'(2-4) m1(5) by (intro exI [of _ m']) (simp add: map_of_range)
qed

text \<open>A sample: a directory with one table, one page mapped in it, and one free frame.\<close>

definition sample_mmu :: mmu where
  "sample_mmu = \<lparr>cr3 = 0x1000,
     mem = (\<lambda>f i. if f = 0x1000 \<and> i = 0 then 0x2007 else if f = 0x2000 \<and> i = 1 then 0x6007 else 0),
     tlb = (\<lambda>_. None), frames = [0x3000]\<rparr>"

lemma sample_dir: "pagedir sample_mmu d = (if d = 0 then 0x2007 else 0)" "present_pd sample_mmu d \<longleftrightarrow> d = 0"
  by (auto simp: pagedir_def sample_mmu_def present_pd_def FLAG_P_def)

lemma sample_frame: "frame_of 0x2007 = 0x2000"
  by (simp add: frame_of_def)

lemma sample_wf: "wf_mmu sample_mmu" "tlb_safe sample_mmu"
proof -
  have "cr3 sample_mmu = 0x1000" "frames sample_mmu = [0x3000]" by (simp_all add: sample_mmu_def)
  then show "wf_mmu sample_mmu" by (simp add: wf_mmu_def sample_dir sample_frame page_aligned_iff)
  show "tlb_safe sample_mmu" by (simp add: tlb_safe_def sample_mmu_def)
qed

lemma sample_valid: "addr_valid 0x400000 1" "addr_valid 0x1000 1" "addr_valid (unat (0x5000 :: u32)) 1"
  by (simp_all add: addr_valid_def)

lemma sample_addrs: "page_addrs 0x400000 1 = [0x400000]" "page_addrs 0x1000 1 = [0x1000]"
  by (simp_all add: page_addrs_def sz_add_def)

lemma sample_mappable: "mappable sample_mmu 0x400000 0x5000 1"
proof -
  have "pde_index 0x400000 = 1" by (simp add: pde_index_div)
  then have "missing sample_mmu (page_addrs 0x400000 1) = {1}" unfolding missing_def sample_addrs by (auto simp: sample_dir)
  then show ?thesis using sample_valid by (simp add: mappable_def page_aligned_iff) (simp add: sample_mmu_def)
qed

text \<open>
  Claim C11. Mapping a range of pages makes every address of the range translate to the corresponding
  physical address, changes the translation of no other address below the window of the page tables, and
  leaves the tables well formed and the TLB with nothing that the tables do not allow. Missing tables are
  created; their number must not exceed the free frames, and they must lie in the first gigabyte.
\<close>

theorem mmu_map_correct:
  assumes "wf_mmu m" and "tlb_safe m" and "mappable m virt phys n" and "flags AND MAP_PROT_READ \<noteq> 0"
  shows "\<exists>m'. arch_mmu_map m virt phys n flags user = Inr (m', 0) \<and> wf_mmu m' \<and> tlb_safe m' \<and>
    (\<forall>a<PAGES * PAGE_SIZE. arch_mmu_virtual_to_physical m' a =
      (if virt div PAGE_SIZE \<le> a div PAGE_SIZE \<and> a div PAGE_SIZE < virt div PAGE_SIZE + n
       then Inr (phys + word_of_nat ((a div PAGE_SIZE - virt div PAGE_SIZE) * PAGE_SIZE) + (word_of_nat a AND 0xfff), 0)
       else arch_mmu_virtual_to_physical m a))"
proof -
  obtain m' where m': "arch_mmu_map m virt phys n flags user = Inr (m', 0)" "wf_mmu m'" "tlb_safe m'"
    "\<forall>q<PAGES. pt m' q =
      (if virt div PAGE_SIZE \<le> q \<and> q < virt div PAGE_SIZE + n
       then Some (new_pte ((phys + word_of_nat ((q - virt div PAGE_SIZE) * PAGE_SIZE)) OR FLAG_P) flags user)
       else if q div ENTRY_COUNT \<in> missing m (page_addrs virt n) then Some 0 else pt m q)"
    using map_pages [OF assms] by blast
  have "arch_mmu_virtual_to_physical m' a =
      (if virt div PAGE_SIZE \<le> a div PAGE_SIZE \<and> a div PAGE_SIZE < virt div PAGE_SIZE + n
       then Inr (phys + word_of_nat ((a div PAGE_SIZE - virt div PAGE_SIZE) * PAGE_SIZE) + (word_of_nat a AND 0xfff), 0)
       else arch_mmu_virtual_to_physical m a)" if a: "a < PAGES * PAGE_SIZE" for a
  proof -
    let ?q = "a div PAGE_SIZE"
    have q: "?q < PAGES" "a < 2 ^ 32" using a by (simp_all add: div_less_iff_less_mult)
    have ph: "page_aligned (phys + word_of_nat (i * PAGE_SIZE))" if "i < n" for i
      using assms(3) phys_page [of phys n i] that by (simp add: mappable_def)
    have "pt m ?q = None" if "?q div ENTRY_COUNT \<in> missing m (page_addrs virt n)"
      using that by (simp add: missing_def pt_def)
    moreover have "bit (new_pte (x OR FLAG_P) flags user) 0" for x by (simp add: bit_new_pte bit_or_iff bit_flags)
    ultimately show ?thesis
      using m'(4) q ph [of "?q - virt div PAGE_SIZE"] by (auto simp: v2p_pt frame_new_pte frame_base)
  qed
  then show ?thesis using m'(1-3) by blast
qed

theorem mmu_map_correct_witness:
  "\<exists>m'. arch_mmu_map sample_mmu 0x400000 0x5000 1 MAP_PROT_READ False = Inr (m', 0) \<and>
    arch_mmu_virtual_to_physical m' 0x400123 = Inr (0x5123, 0)"
proof -
  have "MAP_PROT_READ AND MAP_PROT_READ \<noteq> 0" by (simp add: MAP_PROT_READ_def)
  from mmu_map_correct [OF sample_wf sample_mappable this, where user = False]
  obtain m' where m': "arch_mmu_map sample_mmu 0x400000 0x5000 1 MAP_PROT_READ False = Inr (m', 0)"
    and a: "\<forall>a<PAGES * PAGE_SIZE. arch_mmu_virtual_to_physical m' a =
      (if 0x400000 div PAGE_SIZE \<le> a div PAGE_SIZE \<and> a div PAGE_SIZE < 0x400000 div PAGE_SIZE + 1
       then Inr (0x5000 + word_of_nat ((a div PAGE_SIZE - 0x400000 div PAGE_SIZE) * PAGE_SIZE) + (word_of_nat a AND 0xfff), 0)
       else arch_mmu_virtual_to_physical sample_mmu a)" by blast
  have "arch_mmu_virtual_to_physical m' 0x400123 = Inr (0x5123, 0)" using a [rule_format, of "0x400123"] by simp
  then show ?thesis using m' by blast
qed

text \<open>
  Claim C35. Unmapping a range of mapped pages succeeds (with the value 1), makes every address of the range
  fault and changes no other translation; changing the protection of a range keeps every translation.
  Both keep the tables well formed and the TLB within what the tables allow, so that a revoked page or
  write permission is never usable through a stale TLB entry.
\<close>

theorem mmu_unmap_remap_correct:
  assumes wf: "wf_mmu m" "tlb_safe m" and v: "virt < 2 ^ 32" "addr_valid virt n" "virt div PAGE_SIZE + n \<le> PAGES"
    and mapped: "\<forall>q. virt div PAGE_SIZE \<le> q \<longrightarrow> q < virt div PAGE_SIZE + n \<longrightarrow> (\<exists>e. pt m q = Some e \<and> bit e 0)"
    and fl: "flags AND MAP_PROT_READ \<noteq> 0"
  shows "(\<exists>m'. arch_mmu_unmap m virt n = Inr (m', 1) \<and> wf_mmu m' \<and> tlb_safe m' \<and>
      (\<forall>a<PAGES * PAGE_SIZE. arch_mmu_virtual_to_physical m' a =
        (if virt div PAGE_SIZE \<le> a div PAGE_SIZE \<and> a div PAGE_SIZE < virt div PAGE_SIZE + n then Inr (0, - EFAULT)
         else arch_mmu_virtual_to_physical m a))) \<and>
    (\<exists>m'. arch_mmu_remap m virt n flags user = Inr (m', 0) \<and> wf_mmu m' \<and> tlb_safe m' \<and>
      (\<forall>a<PAGES * PAGE_SIZE. arch_mmu_virtual_to_physical m' a = arch_mmu_virtual_to_physical m a))"
proof
  let ?vs = "page_addrs virt n"
  note rp = range_pages [OF v(2,1)]
  have vs: "v < 2 ^ 32 \<and> v div PAGE_SIZE < PAGES \<and> (\<exists>e. pt m (v div PAGE_SIZE) = Some e \<and> bit e 0)" if "v \<in> set ?vs" for v
  proof -
    have "v div PAGE_SIZE \<in> {virt div PAGE_SIZE..<virt div PAGE_SIZE + n}" using rp(1) that by blast
    then show ?thesis using rp(3) [OF that] v(3) mapped by auto
  qed
  have pres: "presence_loop m ?vs = Inr 0" by (rule presence_loop_ok) (use vs in blast)
  have q: "a div PAGE_SIZE < PAGES" "a < 2 ^ 32" if "a < PAGES * PAGE_SIZE" for a using that by (simp_all add: div_less_iff_less_mult)
  obtain m1 where m1: "unmap_loop m ?vs = Inr m1" "wf_mmu m1" "tlb_safe m1"
      "\<forall>q<PAGES. pt m1 q = (if virt div PAGE_SIZE \<le> q \<and> q < virt div PAGE_SIZE + n then Some 0 else pt m q)"
    using unmap_loop_ok [OF wf, of ?vs] vs unfolding rp(1) by auto
  show "\<exists>m'. arch_mmu_unmap m virt n = Inr (m', 1) \<and> wf_mmu m' \<and> tlb_safe m' \<and>
      (\<forall>a<PAGES * PAGE_SIZE. arch_mmu_virtual_to_physical m' a =
        (if virt div PAGE_SIZE \<le> a div PAGE_SIZE \<and> a div PAGE_SIZE < virt div PAGE_SIZE + n then Inr (0, - EFAULT)
         else arch_mmu_virtual_to_physical m a))"
    using m1 pres v(2) q by (intro exI [of _ m1]) (auto simp: arch_mmu_unmap_def v2p_pt)
  obtain m2 where m2: "remap_loop m ?vs flags user = Inr m2" "wf_mmu m2" "tlb_safe m2"
      "\<forall>q<PAGES. pt m2 q = (if virt div PAGE_SIZE \<le> q \<and> q < virt div PAGE_SIZE + n
        then map_option (\<lambda>e. new_pte (frame_of e OR FLAG_P) flags user) (pt m q) else pt m q)"
    using remap_loop_ok [OF wf _ rp(2), of flags user] vs unfolding rp(1) by auto
  have frame: "frame_of (frame_of e OR FLAG_P) = frame_of e" for e
    by (rule frame_base) (simp add: page_aligned_def bit_frame)
  have "bit (new_pte (frame_of e OR FLAG_P) flags user) 0" for e by (simp add: bit_new_pte bit_or_iff bit_flags)
  then have "arch_mmu_virtual_to_physical m2 a = arch_mmu_virtual_to_physical m a" if "a < PAGES * PAGE_SIZE" for a
    using m2(4) q [OF that] mapped by (auto simp: v2p_pt frame_new_pte frame split: option.split)
  then show "\<exists>m'. arch_mmu_remap m virt n flags user = Inr (m', 0) \<and> wf_mmu m' \<and> tlb_safe m' \<and>
      (\<forall>a<PAGES * PAGE_SIZE. arch_mmu_virtual_to_physical m' a = arch_mmu_virtual_to_physical m a)"
    using m2 pres v(2) fl by (intro exI [of _ m2]) (simp add: arch_mmu_remap_def)
qed

theorem mmu_unmap_remap_correct_witness:
  "\<exists>m'. arch_mmu_unmap sample_mmu 0x1000 1 = Inr (m', 1) \<and> arch_mmu_virtual_to_physical m' 0x1004 = Inr (0, - EFAULT)"
proof -
  have fl: "MAP_PROT_READ AND MAP_PROT_READ \<noteq> 0" by (simp add: MAP_PROT_READ_def)
  have v: "(0x1000 :: nat) < 2 ^ 32" "0x1000 div PAGE_SIZE + 1 \<le> PAGES" by simp_all
  have "mem sample_mmu 0x2000 1 = 0x6007" by (simp add: sample_mmu_def)
  then have "pt sample_mmu 1 = Some 0x6007" "bit (0x6007 :: u32) 0"
    by (simp_all add: pt_def sample_dir sample_frame bit_0)
  then have mapped: "\<forall>q. 0x1000 div PAGE_SIZE \<le> q \<longrightarrow> q < 0x1000 div PAGE_SIZE + 1 \<longrightarrow> (\<exists>e. pt sample_mmu q = Some e \<and> bit e 0)"
    by (auto simp: le_less_Suc_eq)
  from mmu_unmap_remap_correct [OF sample_wf v(1) sample_valid(2) v(2) mapped fl, where user = False]
  obtain m' where m': "arch_mmu_unmap sample_mmu 0x1000 1 = Inr (m', 1)"
    and a: "\<forall>a<PAGES * PAGE_SIZE. arch_mmu_virtual_to_physical m' a =
      (if 0x1000 div PAGE_SIZE \<le> a div PAGE_SIZE \<and> a div PAGE_SIZE < 0x1000 div PAGE_SIZE + 1 then Inr (0, - EFAULT)
       else arch_mmu_virtual_to_physical sample_mmu a)" by blast
  have "arch_mmu_virtual_to_physical m' 0x1004 = Inr (0, - EFAULT)" using a [rule_format, of "0x1004"] by simp
  then show ?thesis using m' by blast
qed

lemma create_pd_other:
  assumes "frames m = f # fs" and "f \<noteq> 0" and "page_aligned f" and "f \<noteq> cr3 m"
  shows "\<exists>m'. create_pd m pde = Inr (m', 0) \<and> (\<forall>d. d \<noteq> pde mod 2 ^ 8 \<longrightarrow> pagedir m' d = pagedir m d)"
proof -
  let ?pde = "pde mod 2 ^ 8" and ?e = "f OR FLAG_P OR FLAG_RW OR FLAG_US"
  let ?m1 = "(set_pagedir (m\<lparr>frames := fs\<rparr>) ?pde ?e)"
  let ?m2 = "arch_mmu_flush_tlb_for ?m1 (MAKE_VIRTADDR PAGEDIR_PDE ?pde 0)"
  define m3 where "m3 = ?m2\<lparr>mem := (mem ?m2)(frame_of (pagedir ?m2 ?pde) := (\<lambda>_. 0))\<rparr>"
  define m4 where "m4 = foldl (\<lambda>m i. arch_mmu_flush_tlb_for m (MAKE_VIRTADDR ?pde i 0)) m3 [0..<ENTRY_COUNT]"
  have run: "create_pd m pde = Inr (m4, 0)"
    using assms(1,2) by (simp add: create_pd_def pmm_alloc_page_def Let_def m3_def m4_def del: upt_Suc upt_rec_numeral)
  have "pagedir ?m1 ?pde = ?e" by (simp add: pagedir_def set_pagedir_def)
  then have "pagedir m3 d = pagedir m d" if "d \<noteq> ?pde" for d
    using that assms(4) frame_pde [OF assms(3)] by (auto simp: m3_def pagedir_def set_pagedir_def)
  moreover have "flushed m3 m4" unfolding m4_def by (intro flushed_fold flushed_refl)
  ultimately show ?thesis using run flushed_same(1) by (intro exI [of _ m4]) auto
qed

text \<open>
  Mapping a page whose table is missing fails in two ways that the caller is not told of. If no
  frame is free, nothing is mapped but 0 (success) is returned, as the error code is stored in a variable
  that hides the returned one. If the page lies above the first gigabyte (directory entry 256 or more), the
  entry number is truncated to 8 bits, the table is installed elsewhere, and writing the page's entry
  faults in the kernel.
\<close>

lemma mmu_map_missing_table:
  assumes "virt < 2 ^ 32" and "addr_valid virt 1" and "addr_valid (unat phys) 1" and "page_aligned phys"
    and "flags AND MAP_PROT_READ \<noteq> 0" and "\<not> present_pd m (pde_index virt)"
  shows "(frames m = [] \<longrightarrow> arch_mmu_map m virt phys 1 flags user = Inr (m, 0) \<and>
      arch_mmu_virtual_to_physical m virt = Inr (0, - EFAULT)) \<and>
    (256 \<le> pde_index virt \<and> frames m \<noteq> [] \<and> wf_mmu m \<longrightarrow> arch_mmu_map m virt phys 1 flags user = Inl Page_fault)"
proof (intro conjI impI)
  have al: "is_aligned (unat phys) PAGE_SIZE = Inr True" using assms(4) by (simp add: is_aligned_def page_aligned_iff)
  have addrs: "page_addrs virt 1 = [virt]" using assms(1) by (simp add: page_addrs_def sz_add_def)
  have absent: "pagedir m (pde_index virt) AND FLAG_P = 0" using assms(6) by (simp add: present_pd_def)
  have run: "arch_mmu_map m virt phys 1 flags user =
      bind_res (create_pd m (pde_index virt)) (\<lambda>(m, ret). if ret < 0 then Inr (m, 0)
        else bind_res (map_single_page m virt phys flags user) (\<lambda>m. Inr (m, 0)))"
    using assms(2,3,5) al absent by (cases "create_pd m (pde_index virt)") (auto simp: arch_mmu_map_def addrs upt_rec [of 0 1] bind_res_assoc simp del: One_nat_def)
  show "arch_mmu_map m virt phys 1 flags user = Inr (m, 0)" if "frames m = []"
    using that run by (simp add: create_pd_def pmm_alloc_page_def ENOMEM_def)
  show "arch_mmu_virtual_to_physical m virt = Inr (0, - EFAULT)"
    using absent by (simp add: arch_mmu_virtual_to_physical_def Let_def)
  assume big: "256 \<le> pde_index virt \<and> frames m \<noteq> [] \<and> wf_mmu m"
  then obtain f fs where f: "frames m = f # fs" "f \<noteq> 0" "page_aligned f" "f \<noteq> cr3 m"
    by (auto simp: wf_mmu_def neq_Nil_conv)
  obtain m1 where m1: "create_pd m (pde_index virt) = Inr (m1, 0)" "\<forall>d. d \<noteq> pde_index virt mod 2 ^ 8 \<longrightarrow> pagedir m1 d = pagedir m d"
    using create_pd_other [OF f] by blast
  have "pde_index virt mod 2 ^ 8 < 256" by simp
  then have "pagedir m1 (pde_index virt) = pagedir m (pde_index virt)" using m1(2) big by (metis linorder_not_less)
  then have "map_single_page m1 virt phys flags user = Inl Page_fault"
    using absent by (simp add: map_single_page_def read_pt_def Let_def)
  then show "arch_mmu_map m virt phys 1 flags user = Inl Page_fault" using run m1(1) by simp
qed

end
