(* ===== verification/Vmm.thy ===== *)
theory Vmm
  imports Bitmap Linked_List Mmu
begin

text \<open>
  The virtual memory manager (kernel/mem/vmm.c, compiled with \<open>NEW_VMM\<close>). An address space has a linked list of
  objects, which are its free ranges, and a linked list of uncommitted objects, which are allocated ranges with
  one bit per page that has no physical memory yet. Objects and uncommitted objects live in heaps by address; both
  start with their list node, so a node has the address of its object. \<open>halloc\<close> are the addresses that
  \<open>heap_alloc\<close> will return (0: out of memory). Pages are mapped through \<open>Mmu\<close>, which also has the free page frames.
\<close>

record vmm_object =
  ostart :: nat
  oend :: nat
  ospace :: nat
  ophys :: u32
  oflags :: u8

record uncommited_object =
  uobject :: nat
  ubitmap :: bitmap

record vmm_address_space =
  object_list :: llist
  uncommited_objects :: llist
  is_user :: bool

record vmm =
  vobjs :: "nat \<rightharpoonup> vmm_object"
  uobjs :: "nat \<rightharpoonup> uncommited_object"
  vnodes :: node_heap
  vspaces :: "nat \<rightharpoonup> vmm_address_space"
  kinitialized :: bool
  kernel_vm_start :: nat
  halloc :: "nat list"
  vmmu :: mmu

definition VMM_PHYSADDR_NOMAP :: u32 where "VMM_PHYSADDR_NOMAP = NOT 0"

text \<open>The end of the kernel's range is fixed, its start is where the linker ends the kernel image.\<close>

definition ARCH_KERNEL_SPACE_BASE :: nat where "ARCH_KERNEL_SPACE_BASE = MAKE_VIRTADDR 768 0 0"
definition ARCH_KERNEL_VM_END :: nat where "ARCH_KERNEL_VM_END = MAKE_VIRTADDR SCRATCH_PDE SCRATCH_PTE 0 - 1"

subsection \<open>Accesses\<close>

definition get_obj :: "vmm \<Rightarrow> nat \<Rightarrow> vmm_object res" where
  "get_obj s p = (case vobjs s p of None \<Rightarrow> Inl Null_deref | Some x \<Rightarrow> Inr x)"

definition set_obj :: "vmm \<Rightarrow> nat \<Rightarrow> vmm_object \<Rightarrow> vmm" where
  "set_obj s p x = s\<lparr>vobjs := (vobjs s)(p \<mapsto> x)\<rparr>"

definition get_uobj :: "vmm \<Rightarrow> nat \<Rightarrow> uncommited_object res" where
  "get_uobj s p = (case uobjs s p of None \<Rightarrow> Inl Null_deref | Some x \<Rightarrow> Inr x)"

definition get_space :: "vmm \<Rightarrow> nat \<Rightarrow> vmm_address_space res" where
  "get_space s p = (case vspaces s p of None \<Rightarrow> Inl Null_deref | Some x \<Rightarrow> Inr x)"

definition set_space :: "vmm \<Rightarrow> nat \<Rightarrow> vmm_address_space \<Rightarrow> vmm" where
  "set_space s p x = s\<lparr>vspaces := (vspaces s)(p \<mapsto> x)\<rparr>"

definition null_node :: list_node where
  "null_node = \<lparr>nnext = 0, nprev = 0, ndata = 0\<rparr>"

definition vm_heap_alloc :: "vmm \<Rightarrow> vmm \<times> nat" where
  "vm_heap_alloc s = (case halloc s of [] \<Rightarrow> (s, 0) | a # as \<Rightarrow> (s\<lparr>halloc := as\<rparr>, a))"

definition vm_heap_free :: "vmm \<Rightarrow> nat \<Rightarrow> vmm" where
  "vm_heap_free s p =
     s\<lparr>vobjs := (vobjs s)(p := None), uobjs := (uobjs s)(p := None), vnodes := (vnodes s)(p := None)\<rparr>"

text \<open>
  A \<open>LIST_FOREACH\<close> loop that stops at the first node whose data satisfies a test; the result is the node, 0 at the end
  of the list. On a cyclic list without such a node the loop does not end.
\<close>

partial_function (option) search_loop :: "node_heap \<Rightarrow> (nat \<Rightarrow> bool res) \<Rightarrow> nat \<Rightarrow> nat res option" where
  "search_loop h test p =
     (if p = 0 then Some (Inr 0)
      else case get_node h p of
        Inl e \<Rightarrow> Some (Inl e)
      | Inr n \<Rightarrow> (case test (ndata n) of
          Inl e \<Rightarrow> Some (Inl e)
        | Inr found \<Rightarrow> if found then Some (Inr p) else search_loop h test (nnext n)))"

definition list_search :: "node_heap \<Rightarrow> (nat \<Rightarrow> bool res) \<Rightarrow> llist \<Rightarrow> nat res" where
  "list_search h test l = (case search_loop h test (lfront l) of None \<Rightarrow> Inl Hang | Some r \<Rightarrow> r)"

subsection \<open>Objects and the list of free ranges\<close>

definition vmm_get_object_size :: "vmm_object \<Rightarrow> nat" where
  "vmm_get_object_size x = sz_add (sz_sub (oend x) (ostart x)) 1"

definition take_object :: "vmm \<Rightarrow> nat \<Rightarrow> nat \<Rightarrow> vmm res" where
  "take_object s self obj =
     bind_res (get_space s self) (\<lambda>sp.
     bind_res (list_remove_node (vnodes s) (object_list sp) obj) (\<lambda>(h, l).
     Inr (set_space (s\<lparr>vnodes := h\<rparr>) self (sp\<lparr>object_list := l\<rparr>))))"

definition has_min_size :: "vmm \<Rightarrow> nat \<Rightarrow> nat \<Rightarrow> bool res" where
  "has_min_size s page_count data =
     bind_res (assert_res (data \<noteq> 0)) (\<lambda>_.
     bind_res (get_obj s data) (\<lambda>x.
     bind_res (size_to_blocks (vmm_get_object_size x) PAGE_SIZE) (\<lambda>n.
     Inr (\<not> n < page_count))))"

definition take_object_with_min_size :: "vmm \<Rightarrow> nat \<Rightarrow> nat \<Rightarrow> (vmm \<times> nat) res" where
  "take_object_with_min_size s self page_count =
     bind_res (assert_res (page_count \<noteq> 0)) (\<lambda>_.
     bind_res (get_space s self) (\<lambda>sp.
     bind_res (assert_res (lfront (object_list sp) \<noteq> 0)) (\<lambda>_.
     bind_res (list_search (vnodes s) (has_min_size s page_count) (object_list sp)) (\<lambda>node.
     if node = 0 then Inr (s, 0)
     else
       bind_res (get_node (vnodes s) node) (\<lambda>n.
       bind_res (take_object s self (ndata n)) (\<lambda>s.
       Inr (s, ndata n)))))))"

definition range_included :: "vmm \<Rightarrow> nat \<Rightarrow> nat \<Rightarrow> nat \<Rightarrow> bool res" where
  "range_included s st en data =
     bind_res (assert_res (data \<noteq> 0)) (\<lambda>_.
     bind_res (get_obj s data) (\<lambda>x.
     Inr (\<not> (st < ostart x \<or> oend x < st \<or> en < ostart x \<or> oend x < en))))"

text \<open>The object is found but, unlike above, not unlinked.\<close>

definition take_object_including :: "vmm \<Rightarrow> nat \<Rightarrow> nat \<Rightarrow> nat \<Rightarrow> nat res" where
  "take_object_including s self st en =
     bind_res (size_to_blocks (sz_add (sz_sub en st) 1) PAGE_SIZE) (\<lambda>page_count.
     bind_res (assert_res (page_count \<noteq> 0)) (\<lambda>_.
     if 2 ^ 32 - 1 - st < sz_mul page_count PAGE_SIZE then Inr 0
     else
       let en = sz_add st (sz_sub (sz_mul page_count PAGE_SIZE) 1) in
       bind_res (get_space s self) (\<lambda>sp.
       bind_res (list_search (vnodes s) (range_included s st en) (object_list sp)) (\<lambda>node.
       if node = 0 then Inr 0
       else bind_res (get_node (vnodes s) node) (\<lambda>n. Inr (ndata n))))))"

text \<open>The object after which a new one goes: the last one in the list that ends before the new one starts.\<close>

fun insert_after_loop :: "vmm \<Rightarrow> nat \<Rightarrow> nat list \<Rightarrow> nat \<Rightarrow> nat res" where
  "insert_after_loop s st [] after = Inr after"
| "insert_after_loop s st (node # ns) after =
     bind_res (get_node (vnodes s) node) (\<lambda>n.
     bind_res (list_get_data_or_null (vnodes s) (ndata n)) (\<lambda>old.
     bind_res (get_obj s old) (\<lambda>x.
     insert_after_loop s st ns (if oend x < st then old else after))))"

definition add_object_to_address_space :: "vmm \<Rightarrow> nat \<Rightarrow> nat \<Rightarrow> (vmm \<times> bool) res" where
  "add_object_to_address_space s self obj =
     bind_res (get_obj s obj) (\<lambda>x.
     bind_res (is_aligned (vmm_get_object_size x) PAGE_SIZE) (\<lambda>aligned.
     bind_res (assert_res aligned) (\<lambda>_.
     bind_res (get_space s self) (\<lambda>sp.
     bind_res (case list_foreach (vnodes s) (lfront (object_list sp)) of None \<Rightarrow> Inl Hang | Some ns \<Rightarrow> Inr ns) (\<lambda>ns.
     bind_res (insert_after_loop s (ostart x) ns 0) (\<lambda>after.
     if after = 0 then
       bind_res (list_insert_back (vnodes s) (object_list sp) obj obj) (\<lambda>(h, l).
       Inr (set_space (s\<lparr>vnodes := h\<rparr>) self (sp\<lparr>object_list := l\<rparr>), True))
     else
       bind_res (get_node (vnodes s) after) (\<lambda>a.
       bind_res (list_get_data_or_null (vnodes s) (nnext a)) (\<lambda>nx.
       bind_res (if nx = 0 then Inr False else bind_res (get_obj s nx) (\<lambda>y. Inr (ostart y < oend x))) (\<lambda>bad.
       if bad then Inr (s, True)
       else
         bind_res (list_insert_after (vnodes s) (object_list sp) after obj obj) (\<lambda>(h, l).
         Inr (set_space (s\<lparr>vnodes := h\<rparr>) self (sp\<lparr>object_list := l\<rparr>), True)))))))))))"

definition create_object :: "vmm \<Rightarrow> nat \<Rightarrow> nat \<Rightarrow> nat \<Rightarrow> u32 \<Rightarrow> u8 \<Rightarrow> vmm \<times> nat" where
  "create_object s self st en phys_base mapflags =
     (let (s, obj) = vm_heap_alloc s in
      if obj = 0 then (s, 0)
      else (s\<lparr>vnodes := (vnodes s)(obj \<mapsto> null_node),
              vobjs := (vobjs s)(obj \<mapsto> \<lparr>ostart = st, oend = en, ospace = self, ophys = phys_base, oflags = mapflags\<rparr>)\<rparr>, obj))"

definition create_uncommited_object :: "vmm \<Rightarrow> nat \<Rightarrow> nat \<Rightarrow> (vmm \<times> nat) res" where
  "create_uncommited_object s obj page_count =
     bind_res (bitmap_needed_word_count page_count) (\<lambda>wordcount.
     let (s, u) = vm_heap_alloc s in
     if u = 0 then Inr (s, 0)
     else
       bind_res (bitmap_set_bits \<lparr>words = replicate wordcount 0, word_count = wordcount\<rparr> 0 page_count) (\<lambda>bm.
       Inr (s\<lparr>vnodes := (vnodes s)(u \<mapsto> null_node), uobjs := (uobjs s)(u \<mapsto> \<lparr>uobject = obj, ubitmap = bm\<rparr>)\<rparr>, u)))"

definition covers_page :: "vmm \<Rightarrow> nat \<Rightarrow> nat \<Rightarrow> bool res" where
  "covers_page s page_base data =
     bind_res (assert_res (data \<noteq> 0)) (\<lambda>_.
     bind_res (get_uobj s data) (\<lambda>u.
     bind_res (get_obj s (uobject u)) (\<lambda>x.
     Inr (ostart x \<le> page_base \<and> page_base \<le> oend x))))"

definition find_object_in_uncommited :: "vmm \<Rightarrow> nat \<Rightarrow> nat \<Rightarrow> nat res" where
  "find_object_in_uncommited s self ptr =
     bind_res (align_ptr_down ptr PAGE_SIZE) (\<lambda>page_base.
     bind_res (get_space s self) (\<lambda>sp.
     bind_res (list_search (vnodes s) (covers_page s page_base) (uncommited_objects sp)) (\<lambda>node.
     if node = 0 then Inr 0
     else bind_res (get_node (vnodes s) node) (\<lambda>n. Inr (ndata n)))))"

subsection \<open>Address spaces\<close>

text \<open>The address of the static kernel address space; address spaces have a heap of their own.\<close>

definition kernel_address_space :: nat where "kernel_address_space = 1"

definition vmm_init_address_space :: "vmm \<Rightarrow> nat \<Rightarrow> nat \<Rightarrow> nat \<Rightarrow> bool \<Rightarrow> (vmm \<times> bool) res" where
  "vmm_init_address_space s out st en user =
     (let s = set_space s out \<lparr>object_list = list_init, uncommited_objects = list_init, is_user = user\<rparr>;
          (s, obj) = create_object s out st en VMM_PHYSADDR_NOMAP 0 in
      if obj = 0 then Inr (vm_heap_free s obj, False)
      else
        bind_res (add_object_to_address_space s out obj) (\<lambda>(s, ok).
        if ok then Inr (s, True) else Inr (vm_heap_free s obj, False)))"

partial_function (option) deinit_loop :: "vmm \<Rightarrow> nat \<Rightarrow> vmm res option" where
  "deinit_loop s self =
     (case bind_res (get_space s self) (\<lambda>sp.
           bind_res (list_remove_front (vnodes s) (object_list sp)) (\<lambda>(h, l, node).
           let s = set_space (s\<lparr>vnodes := h\<rparr>) self (sp\<lparr>object_list := l\<rparr>) in
           if node = 0 then Inr (s, False)
           else bind_res (get_node (vnodes s) node) (\<lambda>n. Inr (vm_heap_free s (ndata n), True)))) of
        Inl e \<Rightarrow> Some (Inl e)
      | Inr r \<Rightarrow> if snd r then deinit_loop (fst r) self else Some (Inr (fst r)))"

definition vmm_deinit_address_space :: "vmm \<Rightarrow> nat \<Rightarrow> vmm res" where
  "vmm_deinit_address_space s self = (case deinit_loop s self of None \<Rightarrow> Inl Hang | Some r \<Rightarrow> r)"

definition vmm_get_kernel_address_space :: "vmm \<Rightarrow> (vmm \<times> nat) res" where
  "vmm_get_kernel_address_space s =
     (if kinitialized s then Inr (s, kernel_address_space)
      else
        bind_res (vmm_init_address_space s kernel_address_space (kernel_vm_start s) ARCH_KERNEL_VM_END False) (\<lambda>(s, ok).
        if \<not> ok then Inl Panic else Inr (s\<lparr>kinitialized := True\<rparr>, kernel_address_space)))"

definition vmm_get_address_space_of :: "vmm \<Rightarrow> nat \<Rightarrow> (vmm \<times> nat) res" where
  "vmm_get_address_space_of s ptr =
     (if kernel_vm_start s \<le> ptr \<and> ptr \<le> ARCH_KERNEL_VM_END then vmm_get_kernel_address_space s
      else if ptr < ARCH_KERNEL_SPACE_BASE then Inr (s, 0)
      else Inr (s, 0))"

subsection \<open>Allocation\<close>

definition uncommited_insert_back :: "vmm \<Rightarrow> nat \<Rightarrow> nat \<Rightarrow> vmm res" where
  "uncommited_insert_back s self u =
     bind_res (get_space s self) (\<lambda>sp.
     bind_res (list_insert_back (vnodes s) (uncommited_objects sp) u u) (\<lambda>(h, l).
     Inr (set_space (s\<lparr>vnodes := h\<rparr>) self (sp\<lparr>uncommited_objects := l\<rparr>))))"

definition uncommited_remove :: "vmm \<Rightarrow> nat \<Rightarrow> nat \<Rightarrow> vmm res" where
  "uncommited_remove s self u =
     bind_res (get_space s self) (\<lambda>sp.
     bind_res (list_remove_node (vnodes s) (uncommited_objects sp) u) (\<lambda>(h, l).
     Inr (set_space (s\<lparr>vnodes := h\<rparr>) self (sp\<lparr>uncommited_objects := l\<rparr>))))"

text \<open>A range that became empty is freed, any other goes back into the list.\<close>

definition put_back :: "vmm \<Rightarrow> nat \<Rightarrow> nat \<Rightarrow> vmm res" where
  "put_back s self obj =
     bind_res (get_obj s obj) (\<lambda>x.
     if oend x < ostart x then Inr (vm_heap_free s obj)
     else bind_res (add_object_to_address_space s self obj) (\<lambda>(s, ret). Inr s))"

definition assert_phys_aligned :: "u32 \<Rightarrow> unit res" where
  "assert_phys_aligned phys_base =
     (if phys_base \<noteq> VMM_PHYSADDR_NOMAP
      then bind_res (is_aligned (unat phys_base) PAGE_SIZE) assert_res
      else Inr ())"

definition vmm_alloc_object :: "vmm \<Rightarrow> nat \<Rightarrow> u32 \<Rightarrow> nat \<Rightarrow> u8 \<Rightarrow> (vmm \<times> nat) res" where
  "vmm_alloc_object s self phys_base sz mapflags =
     bind_res (size_to_blocks sz PAGE_SIZE) (\<lambda>page_count.
     bind_res (assert_phys_aligned phys_base) (\<lambda>_.
     let (s, newobject) = create_object s self 0 0 phys_base mapflags in
     bind_res (create_uncommited_object s newobject page_count) (\<lambda>(s, u).
     bind_res (take_object_with_min_size s self page_count) (\<lambda>(s, oldobject).
     if newobject = 0 \<or> oldobject = 0 then
       Inr (vm_heap_free (vm_heap_free (vm_heap_free s u) oldobject) newobject, newobject)
     else
       let newsize = sz_mul page_count PAGE_SIZE in
       bind_res (get_obj s oldobject) (\<lambda>old.
       bind_res (get_obj s newobject) (\<lambda>new.
       let s = set_obj s newobject (new\<lparr>ostart := ostart old, oend := sz_sub (sz_add (ostart old) newsize) 1\<rparr>);
           s = set_obj s oldobject (old\<lparr>ostart := sz_add (ostart old) newsize\<rparr>) in
       bind_res (put_back s self oldobject) (\<lambda>s.
       bind_res (uncommited_insert_back s self u) (\<lambda>s.
       Inr (s, newobject)))))))))"

definition vmm_alloc_object_at :: "vmm \<Rightarrow> nat \<Rightarrow> nat \<Rightarrow> u32 \<Rightarrow> nat \<Rightarrow> u8 \<Rightarrow> (vmm \<times> nat) res" where
  "vmm_alloc_object_at s self virt_base phys_base sz mapflags =
     bind_res (assert_res (virt_base \<noteq> 0)) (\<lambda>_.
     bind_res (size_to_blocks sz PAGE_SIZE) (\<lambda>page_count.
     bind_res (assert_phys_aligned phys_base) (\<lambda>_.
     bind_res (is_aligned virt_base PAGE_SIZE) (\<lambda>aligned.
     bind_res (assert_res (\<not> aligned)) (\<lambda>_.
     if size_max div PAGE_SIZE < page_count then Inr (s, 0)
     else
       let actualsize = sz_mul PAGE_SIZE page_count in
       if 2 ^ 32 - 1 - virt_base < actualsize then Inr (s, 0)
       else
         let en = sz_sub (sz_add virt_base actualsize) 1;
             (s, newobject) = create_object s self 0 0 phys_base mapflags;
             (s, rightobject) = create_object s self 0 0 VMM_PHYSADDR_NOMAP 0 in
         bind_res (create_uncommited_object s newobject page_count) (\<lambda>(s, u).
         bind_res (if newobject = 0 \<or> rightobject = 0 \<or> u = 0 then Inr 0 else take_object_including s self virt_base en) (\<lambda>lobject.
         if lobject = 0 then
           Inr (vm_heap_free (vm_heap_free (vm_heap_free s u) newobject) rightobject, 0)
         else
           let newsize = sz_mul page_count PAGE_SIZE in
           bind_res (get_obj s lobject) (\<lambda>l.
           let s = set_obj s newobject \<lparr>ostart = virt_base, oend = sz_sub (sz_add virt_base newsize) 1, ospace = self, ophys = phys_base, oflags = mapflags\<rparr>;
               s = set_obj s lobject (l\<lparr>oend := sz_sub virt_base 1\<rparr>);
               s = set_obj s rightobject \<lparr>ostart = sz_add virt_base newsize, oend = oend l, ospace = self, ophys = VMM_PHYSADDR_NOMAP, oflags = 0\<rparr> in
           bind_res (put_back s self lobject) (\<lambda>s.
           bind_res (put_back s self rightobject) (\<lambda>s.
           bind_res (uncommited_insert_back s self u) (\<lambda>s.
           Inr (s, newobject))))))))))))"

definition vmm_alloc :: "vmm \<Rightarrow> nat \<Rightarrow> nat \<Rightarrow> u8 \<Rightarrow> (vmm \<times> nat) res" where
  "vmm_alloc s self sz mapflags = vmm_alloc_object s self VMM_PHYSADDR_NOMAP sz mapflags"

definition vmm_alloc_at :: "vmm \<Rightarrow> nat \<Rightarrow> nat \<Rightarrow> nat \<Rightarrow> u8 \<Rightarrow> (vmm \<times> nat) res" where
  "vmm_alloc_at s self virt_base sz mapflags = vmm_alloc_object_at s self virt_base VMM_PHYSADDR_NOMAP sz mapflags"

definition vmm_map_mem :: "vmm \<Rightarrow> nat \<Rightarrow> u32 \<Rightarrow> nat \<Rightarrow> u8 \<Rightarrow> (vmm \<times> nat) res" where
  "vmm_map_mem s self phys_base sz mapflags =
     bind_res (assert_res (phys_base \<noteq> VMM_PHYSADDR_NOMAP)) (\<lambda>_. vmm_alloc_object s self phys_base sz mapflags)"

definition vmm_map_memory_at :: "vmm \<Rightarrow> nat \<Rightarrow> nat \<Rightarrow> u32 \<Rightarrow> nat \<Rightarrow> u8 \<Rightarrow> (vmm \<times> nat) res" where
  "vmm_map_memory_at s self virt_base phys_base sz mapflags =
     bind_res (assert_res (phys_base \<noteq> VMM_PHYSADDR_NOMAP)) (\<lambda>_. vmm_alloc_object_at s self virt_base phys_base sz mapflags)"

definition vmm_ezmap :: "vmm \<Rightarrow> u32 \<Rightarrow> nat \<Rightarrow> (vmm \<times> nat) res" where
  "vmm_ezmap s base sz =
     (let offset = unat base mod PAGE_SIZE;
          pagebase = base - word_of_nat offset;
          actualsize = sz_add sz offset in
      bind_res (vmm_get_kernel_address_space s) (\<lambda>(s, self).
      bind_res (vmm_map_mem s self pagebase actualsize (MAP_PROT_READ OR MAP_PROT_WRITE)) (\<lambda>(s, obj).
      if obj = 0 then Inl Panic
      else bind_res (get_obj s obj) (\<lambda>x. Inr (s, sz_add (ostart x) offset)))))"

subsection \<open>Release\<close>

definition vm_pmm_free :: "vmm \<Rightarrow> u32 \<Rightarrow> vmm" where
  "vm_pmm_free s frame = s\<lparr>vmmu := (vmmu s)\<lparr>frames := frame # frames (vmmu s)\<rparr>\<rparr>"

definition free_page :: "vmm \<Rightarrow> u32 \<Rightarrow> nat \<Rightarrow> vmm res" where
  "free_page s phys_base ptr =
     bind_res (arch_mmu_virtual_to_physical (vmmu s) ptr) (\<lambda>(physaddr, ret).
     if ret = 0 then
       let s = if phys_base = VMM_PHYSADDR_NOMAP then vm_pmm_free s physaddr else s in
       bind_res (arch_mmu_unmap (vmmu s) ptr 1) (\<lambda>(m, ret).
       if ret < 0 then Inl Panic else Inr (s\<lparr>vmmu := m\<rparr>))
     else Inr s)"

partial_function (option) free_pages_loop :: "vmm \<Rightarrow> u32 \<Rightarrow> nat \<Rightarrow> nat \<Rightarrow> vmm res option" where
  "free_pages_loop s phys_base ptr en =
     (if ptr \<le> en then
        (case free_page s phys_base ptr of
           Inl e \<Rightarrow> Some (Inl e)
         | Inr s \<Rightarrow> free_pages_loop s phys_base (sz_add ptr PAGE_SIZE) en)
      else Some (Inr s))"

definition vmm_free :: "vmm \<Rightarrow> nat \<Rightarrow> vmm res" where
  "vmm_free s obj =
     bind_res (get_obj s obj) (\<lambda>x.
     bind_res (find_object_in_uncommited s (ospace x) (ostart x)) (\<lambda>u.
     bind_res (if u \<noteq> 0 then bind_res (uncommited_remove s (ospace x) u) (\<lambda>s. Inr (vm_heap_free s u)) else Inr s) (\<lambda>s.
     bind_res (case free_pages_loop s (ophys x) (ostart x) (oend x) of None \<Rightarrow> Inl Hang | Some r \<Rightarrow> r) (\<lambda>s.
     bind_res (add_object_to_address_space s (ospace x) obj) (\<lambda>(s, ret). Inr s)))))"

subsection \<open>Page faults\<close>

definition vm_pmm_alloc :: "vmm \<Rightarrow> vmm \<times> u32" where
  "vm_pmm_alloc s = (let (m, f) = pmm_alloc_page (vmmu s) in (s\<lparr>vmmu := m\<rparr>, f))"

text \<open>A fault that cannot be served is the value \<open>Inl Panic\<close>.\<close>

definition vmm_page_fault :: "vmm \<Rightarrow> nat \<Rightarrow> bool \<Rightarrow> bool \<Rightarrow> bool \<Rightarrow> vmm res" where
  "vmm_page_fault s ptr was_present was_write was_user =
     bind_res (align_ptr_down ptr PAGE_SIZE) (\<lambda>page_base.
     bind_res (arch_mmu_emulate (vmmu s) ptr (MAP_PROT_READ OR (if was_write then MAP_PROT_WRITE else 0)) was_user) (\<lambda>(physaddr, ret).
     if ret = 0 then Inr (s\<lparr>vmmu := arch_mmu_flush_tlb_for (vmmu s) ptr\<rparr>)
     else if was_present then Inl Panic
     else if page_base = 0 then Inl Panic
     else
       bind_res (vmm_get_address_space_of s page_base) (\<lambda>(s, self).
       if self = 0 then Inl Panic
       else
         bind_res (find_object_in_uncommited s self ptr) (\<lambda>u.
         if u = 0 then Inl Panic
         else
           bind_res (get_uobj s u) (\<lambda>uo.
           bind_res (get_obj s (uobject uo)) (\<lambda>x.
           let page_index = to_ssize (sz_sub page_base (ostart x) div PAGE_SIZE) in
           bind_res (bitmap_is_bit_set (ubitmap uo) page_index) (\<lambda>uncommited.
           if \<not> uncommited then Inl Panic
           else
             bind_res (bitmap_clear_bit (ubitmap uo) page_index) (\<lambda>bm.
             let s = s\<lparr>uobjs := (uobjs s)(u \<mapsto> uo\<lparr>ubitmap := bm\<rparr>)\<rparr>;
                 (s, physaddr) =
                   (if ophys x \<noteq> VMM_PHYSADDR_NOMAP then (s, ophys x + word_of_int page_index * word_of_nat PAGE_SIZE) else vm_pmm_alloc s) in
             if ophys x = VMM_PHYSADDR_NOMAP \<and> physaddr = 0 then Inl Panic
             else
               bind_res (get_space s (ospace x)) (\<lambda>sp.
               bind_res (arch_mmu_map (vmmu s) page_base physaddr 1 (oflags x) (is_user sp)) (\<lambda>(m, ret).
               let s = s\<lparr>vmmu := m\<rparr> in
               if ret < 0 then Inl Panic
               else
                 bind_res (bitmap_find_first_set_bit bm 0) (\<lambda>first.
                 if first < 0 then bind_res (uncommited_remove s (ospace x) u) (\<lambda>s. Inr (vm_heap_free s u))
                 else Inr s)))))))))))"

subsection \<open>Ranges\<close>

definition span :: "vmm_object \<Rightarrow> nat set" where
  "span x = {ostart x..oend x}"

definition npages :: "vmm_object \<Rightarrow> nat" where
  "npages x = (oend x + 1 - ostart x) div PAGE_SIZE"

text \<open>Whole pages, not the null page, and not the last page of the address space (where loops over pages wrap around).\<close>

definition wf_obj :: "vmm_object \<Rightarrow> bool" where
  "wf_obj x \<longleftrightarrow> 0 < ostart x \<and> ostart x \<le> oend x \<and> ostart x mod PAGE_SIZE = 0 \<and> (oend x + 1) mod PAGE_SIZE = 0 \<and>
     oend x + 1 + PAGE_SIZE \<le> 2 ^ 32"

lemma wf_obj_size:
  assumes "wf_obj x"
  shows "vmm_get_object_size x = oend x + 1 - ostart x" "vmm_get_object_size x mod PAGE_SIZE = 0"
    "size_to_blocks (vmm_get_object_size x) PAGE_SIZE = Inr (npages x)" "oend x + 1 = ostart x + npages x * PAGE_SIZE"
    "0 < npages x"
proof -
  note x = assms [unfolded wf_obj_def]
  have "oend x - ostart x + 1 \<le> oend x + 1" by simp
  also have "\<dots> < 2 ^ 32" using x by simp
  finally show size: "vmm_get_object_size x = oend x + 1 - ostart x"
    using x by (simp add: vmm_get_object_size_def sz_sub_no_wrap sz_add_no_wrap Suc_diff_le)
  have dvd: "PAGE_SIZE dvd (oend x + 1) - ostart x" using x by (intro dvd_diff_nat) (simp_all add: mod_eq_0_iff_dvd)
  then show mod: "vmm_get_object_size x mod PAGE_SIZE = 0" unfolding size by (rule dvd_imp_mod_0)
  then show "size_to_blocks (vmm_get_object_size x) PAGE_SIZE = Inr (npages x)"
    unfolding size by (simp add: size_to_blocks_def npages_def)
  have "npages x * PAGE_SIZE = oend x + 1 - ostart x" unfolding npages_def using dvd by (rule dvd_div_mult_self)
  then show e: "oend x + 1 = ostart x + npages x * PAGE_SIZE" using x by simp
  show "0 < npages x" using e x by (cases "npages x") auto
qed

subsection \<open>Lists of objects\<close>

abbreviation self_data :: "nat list \<Rightarrow> (nat \<times> nat) list" where
  "self_data \<equiv> map (\<lambda>p. (p, p))"

lemma self_data_set [simp]: "fst ` (\<lambda>p. (p, p)) ` A = A" "map (fst \<circ> (\<lambda>p. (p, p))) xs = xs"
  by (force, simp add: comp_def)

lemma search_loop_dseg:
  assumes "dseg h pv (self_data xs) 0" and "0 \<notin> set xs" and "\<forall>p\<in>set xs. test p = Inr (P p)"
  shows "search_loop h test (head_or (self_data xs) 0) = Some (Inr (case find P xs of None \<Rightarrow> 0 | Some p \<Rightarrow> p))"
  using assms
proof (induction xs arbitrary: pv)
  case Nil
  then show ?case by (simp add: search_loop.simps)
next
  case (Cons p xs)
  have "search_loop h test (head_or (self_data xs) 0) = Some (Inr (case find P xs of None \<Rightarrow> 0 | Some p \<Rightarrow> p))"
    using Cons.IH [of p] Cons.prems by simp
  then show ?case using Cons.prems by (subst search_loop.simps) simp
qed

lemma list_search_dll:
  assumes "dll h l (self_data xs)" and "\<forall>p\<in>set xs. test p = Inr (P p)"
  shows "list_search h test l = Inr (case find P xs of None \<Rightarrow> 0 | Some p \<Rightarrow> p)"
  using search_loop_dseg [of h 0 xs test P] assms by (simp add: list_search_def dll_def)

lemma dll_self_node:
  assumes "dll h l (self_data xs)" and "p \<in> set xs"
  shows "\<exists>n. h p = Some n \<and> ndata n = p \<and> p \<noteq> 0"
proof -
  obtain ys zs where xs: "xs = ys @ p # zs" using assms(2) by (meson split_list)
  then show ?thesis using assms(1) dseg_lookup [of h 0 "self_data ys" "(p, p)" "self_data zs" 0] by (auto simp: dll_def)
qed

lemma foreach_self: "dll h l (self_data xs) \<Longrightarrow> list_foreach h (lfront l) = Some xs"
  using foreach_dseg [of h 0 "self_data xs"] by (simp add: dll_def)

definition last_before :: "(nat \<Rightarrow> bool) \<Rightarrow> nat list \<Rightarrow> nat \<Rightarrow> nat \<Rightarrow> bool" where
  "last_before P xs a0 r \<longleftrightarrow> r = a0 \<and> (\<forall>p\<in>set xs. \<not> P p) \<or> (\<exists>ys zs. xs = ys @ r # zs \<and> P r \<and> (\<forall>z\<in>set zs. \<not> P z))"

lemma last_before_Cons: "last_before P xs (if P p then p else a0) r \<Longrightarrow> last_before P (p # xs) a0 r"
  unfolding last_before_def by (metis append_Cons append_Nil set_ConsD)

lemma insert_after_loop_spec:
  assumes "\<forall>p\<in>set xs. \<exists>n x. vnodes s p = Some n \<and> ndata n = p \<and> p \<noteq> 0 \<and> vobjs s p = Some x"
  shows "\<exists>r. insert_after_loop s st xs a0 = Inr r \<and> last_before (\<lambda>p. oend (the (vobjs s p)) < st) xs a0 r"
  using assms
proof (induction xs arbitrary: a0)
  case Nil
  then show ?case by (simp add: last_before_def)
next
  case (Cons p xs)
  obtain n x where p: "vnodes s p = Some n" "ndata n = p" "p \<noteq> 0" "vobjs s p = Some x" using Cons.prems by auto
  have step: "insert_after_loop s st (p # xs) a0 = insert_after_loop s st xs (if oend x < st then p else a0)"
    using p by (simp add: list_get_data_or_null_def get_obj_def)
  obtain r where r: "insert_after_loop s st xs (if oend x < st then p else a0) = Inr r"
      "last_before (\<lambda>p. oend (the (vobjs s p)) < st) xs (if oend x < st then p else a0) r"
    using Cons by (meson list.set_intros(2))
  moreover have "last_before (\<lambda>p. oend (the (vobjs s p)) < st) (p # xs) a0 r"
    using last_before_Cons [of "\<lambda>p. oend (the (vobjs s p)) < st" xs p a0 r] r(2) p(4) by simp
  ultimately show ?case using step by auto
qed

definition with_objects :: "vmm \<Rightarrow> nat \<Rightarrow> vmm_address_space \<Rightarrow> node_heap \<Rightarrow> llist \<Rightarrow> vmm" where
  "with_objects s self sp h l = set_space (s\<lparr>vnodes := h\<rparr>) self (sp\<lparr>object_list := l\<rparr>)"

lemma with_objects_fields [simp]:
  "vobjs (with_objects s self sp h l) = vobjs s" "uobjs (with_objects s self sp h l) = uobjs s"
  "vnodes (with_objects s self sp h l) = h" "halloc (with_objects s self sp h l) = halloc s"
  "vmmu (with_objects s self sp h l) = vmmu s" "kinitialized (with_objects s self sp h l) = kinitialized s"
  "kernel_vm_start (with_objects s self sp h l) = kernel_vm_start s"
  "vspaces (with_objects s self sp h l) = (vspaces s)(self \<mapsto> sp\<lparr>object_list := l\<rparr>)"
  by (simp_all add: with_objects_def set_space_def)

text \<open>Inserting a range that is disjoint from the ranges in the list always succeeds.\<close>

lemma add_object_ok:
  assumes sp: "vspaces s self = Some sp" and dl: "dll (vnodes s) (object_list sp) (self_data xs)"
    and x: "vobjs s p = Some x" "wf_obj x" and p: "p \<notin> set xs" "p \<noteq> 0" "vnodes s p \<noteq> None"
    and xs: "\<forall>q\<in>set xs. \<exists>y. vobjs s q = Some y \<and> ostart y \<le> oend y \<and> span y \<inter> span x = {}"
  shows "\<exists>h l xs'. add_object_to_address_space s self p = Inr (with_objects s self sp h l, True) \<and>
    dll h l (self_data xs') \<and> set xs' = insert p (set xs) \<and> (\<forall>a. a \<notin> insert p (set xs) \<longrightarrow> h a = vnodes s a)"
proof -
  have al: "is_aligned (vmm_get_object_size x) PAGE_SIZE = Inr True"
    using wf_obj_size(2) [OF x(2)] by (simp add: is_aligned_def)
  have nodes: "\<forall>q\<in>set xs. \<exists>n y. vnodes s q = Some n \<and> ndata n = q \<and> q \<noteq> 0 \<and> vobjs s q = Some y"
    using dll_self_node [OF dl] xs by blast
  define P where "P q = (oend (the (vobjs s q)) < ostart x)" for q
  obtain r where r: "insert_after_loop s (ostart x) xs 0 = Inr r" "last_before P xs 0 r"
    using insert_after_loop_spec [OF nodes, of "ostart x" 0] unfolding P_def by blast
  obtain n where n: "vnodes s p = Some n" using p(3) by blast
  have sx: "ostart x \<le> oend x" using x(2) by (simp add: wf_obj_def)
  show ?thesis
  proof (cases "r = 0")
    case True
    obtain h l where b: "list_insert_back (vnodes s) (object_list sp) p p = Inr (h, l)" "dll h l (self_data xs @ [(p, p)])"
        "\<forall>a. a \<notin> insert p (set xs) \<longrightarrow> h a = vnodes s a"
      using insert_back_dll [OF dl _ p(2) n, of p] p(1) unfolding relinked_def by auto
    have "add_object_to_address_space s self p = Inr (with_objects s self sp h l, True)"
      using x(1) al sp foreach_self [OF dl] r(1) True b(1) by (simp add: add_object_to_address_space_def get_obj_def get_space_def with_objects_def)
    then show ?thesis using b by (intro exI [of _ h] exI [of _ l] exI [of _ "xs @ [p]"]) simp
  next
    case False
    then obtain ys zs where s: "xs = ys @ r # zs" "P r" "\<forall>z\<in>set zs. \<not> P z" using r(2) unfolding last_before_def by blast
    let ?d = "self_data ys @ (r, r) # self_data zs"
    have dl': "dll (vnodes s) (object_list sp) ?d" using dl s(1) by simp
    then have rn: "vnodes s r = Some \<lparr>nnext = head_or (self_data zs) 0, nprev = last_or 0 (self_data ys), ndata = r\<rparr>"
      using dseg_lookup [of "vnodes s" 0 "self_data ys" "(r, r)" "self_data zs" 0] by (simp add: dll_def)
    have nx: "\<exists>y. list_get_data_or_null (vnodes s) (head_or (self_data zs) 0) = Inr y \<and>
        (y \<noteq> 0 \<longrightarrow> (\<exists>o'. vobjs s y = Some o' \<and> \<not> ostart o' < oend x))"
    proof (cases zs)
      case Nil
      then show ?thesis by (simp add: list_get_data_or_null_def)
    next
      case (Cons z zs')
      obtain m y where z: "vnodes s z = Some m" "ndata m = z" "z \<noteq> 0" "vobjs s z = Some y"
        using nodes s(1) Cons by auto
      have "\<not> oend y < ostart x" using s(3) Cons z(4) by (simp add: P_def)
      moreover have "span y \<inter> span x = {}" "ostart y \<le> oend y" using xs s(1) Cons z(4) by auto
      ultimately have "\<not> ostart y < oend x" using sx unfolding span_def
        by (metis (no_types, opaque_lifting) IntI atLeastAtMost_iff empty_iff le_cases less_le_not_le linorder_not_less order_refl)
      then show ?thesis using Cons z by (simp add: list_get_data_or_null_def)
    qed
    obtain h l where b: "list_insert_after (vnodes s) (object_list sp) r p p = Inr (h, l)"
        "dll h l (self_data ys @ (r, r) # (p, p) # self_data zs)" "\<forall>a. a \<notin> insert p (set xs) \<longrightarrow> h a = vnodes s a"
      using insert_after_dll [OF dl' _ p(2) n, of p] p(1) s(1) unfolding relinked_def by (auto simp: image_Un insert_commute)
    have "add_object_to_address_space s self p = Inr (with_objects s self sp h l, True)"
      using x(1) al sp foreach_self [OF dl] r(1) False rn nx b(1)
      by (auto simp: add_object_to_address_space_def get_obj_def get_space_def with_objects_def)
    then show ?thesis using b s(1) by (intro exI [of _ h] exI [of _ l] exI [of _ "ys @ r # p # zs"]) auto
  qed
qed

subsection \<open>The invariant of an address space\<close>

text \<open>
  The objects of an address space are the free ranges, which are in the object list, and the allocated ones. They
  consist of whole pages, do not overlap and together make up the range the address space was created with. Each
  uncommitted object belongs to one allocated object and has a bit for each of its pages.
\<close>

definition owned :: "vmm \<Rightarrow> nat \<Rightarrow> nat \<Rightarrow> vmm_object \<Rightarrow> bool" where
  "owned s self p x \<longleftrightarrow> vobjs s p = Some x \<and> ospace x = self"

definition bits_ok :: "uncommited_object \<Rightarrow> vmm_object \<Rightarrow> bool" where
  "bits_ok u x \<longleftrightarrow> wf_bitmap (ubitmap u) \<and> npages x \<le> 32 * word_count (ubitmap u) \<and> (\<forall>k. bm_get (ubitmap u) k \<longrightarrow> k < npages x)"

definition ranges_ok :: "vmm \<Rightarrow> nat \<Rightarrow> nat \<Rightarrow> nat \<Rightarrow> bool" where
  "ranges_ok s self lo hi \<longleftrightarrow>
     (\<forall>p x. owned s self p x \<longrightarrow> p \<noteq> 0 \<and> wf_obj x \<and> vnodes s p \<noteq> None \<and> uobjs s p = None) \<and>
     (\<forall>p x q y. owned s self p x \<longrightarrow> owned s self q y \<longrightarrow> p \<noteq> q \<longrightarrow> span x \<inter> span y = {}) \<and>
     (\<Union>x\<in>{x. \<exists>p. owned s self p x}. span x) = {lo..hi}"

definition pending_ok :: "vmm \<Rightarrow> nat \<Rightarrow> nat list \<Rightarrow> nat list \<Rightarrow> bool" where
  "pending_ok s self xs us \<longleftrightarrow>
     (\<forall>u\<in>set us. vobjs s u = None \<and> (\<exists>uo x. uobjs s u = Some uo \<and> owned s self (uobject uo) x \<and> uobject uo \<notin> set xs \<and> bits_ok uo x)) \<and>
     inj_on (\<lambda>u. uobject (the (uobjs s u))) (set us)"

definition vm_inv :: "vmm \<Rightarrow> nat \<Rightarrow> nat list \<Rightarrow> nat list \<Rightarrow> nat \<Rightarrow> nat \<Rightarrow> bool" where
  "vm_inv s self xs us lo hi \<longleftrightarrow>
     (\<exists>sp. vspaces s self = Some sp \<and> dll (vnodes s) (object_list sp) (self_data xs) \<and>
        dll (vnodes s) (uncommited_objects sp) (self_data us)) \<and>
     (\<forall>p\<in>set xs. \<exists>x. owned s self p x) \<and> ranges_ok s self lo hi \<and> pending_ok s self xs us"

lemma ranges_wf:
  assumes "ranges_ok s self lo hi" and "owned s self p x"
  shows "vobjs s p = Some x" "ospace x = self" "p \<noteq> 0" "wf_obj x" "vnodes s p \<noteq> None" "uobjs s p = None" "span x \<subseteq> {lo..hi}"
  using assms unfolding ranges_ok_def owned_def by blast+

lemma ranges_disjoint: "ranges_ok s self lo hi \<Longrightarrow> owned s self p x \<Longrightarrow> owned s self q y \<Longrightarrow> p \<noteq> q \<Longrightarrow> span x \<inter> span y = {}"
  unfolding ranges_ok_def by blast

lemma dseg_same: "dseg h pv xs nx \<Longrightarrow> (\<forall>a\<in>fst ` set xs. h' a = h a) \<Longrightarrow> dseg h' pv xs nx"
  by (induction xs arbitrary: pv) auto

lemma dll_same: "dll h l xs \<Longrightarrow> (\<forall>a\<in>fst ` set xs. h' a = h a) \<Longrightarrow> dll h' l xs"
  using dseg_same unfolding dll_def by blast

definition fresh_at :: "vmm \<Rightarrow> nat \<Rightarrow> bool" where
  "fresh_at s a \<longleftrightarrow> a \<noteq> 0 \<and> vobjs s a = None \<and> uobjs s a = None"

lemma find_first: "find P xs = Some p \<Longrightarrow> p \<in> set xs \<and> P p"
  by (auto simp: find_Some_iff)

lemma min_size_search:
  assumes dl: "dll (vnodes s) l (self_data xs)" and xs: "\<forall>q\<in>set xs. \<exists>y. vobjs s q = Some y \<and> wf_obj y"
  shows "list_search (vnodes s) (has_min_size s n) l = Inr (case find (\<lambda>q. n \<le> npages (the (vobjs s q))) xs of None \<Rightarrow> 0 | Some p \<Rightarrow> p)"
proof -
  have "has_min_size s n q = Inr (n \<le> npages (the (vobjs s q)))" if q: "q \<in> set xs" for q
  proof -
    obtain y where y: "vobjs s q = Some y" "wf_obj y" using xs q by blast
    moreover have "q \<noteq> 0" using dll_self_node [OF dl q] by blast
    ultimately show ?thesis using wf_obj_size(3) [OF y(2)] by (simp add: has_min_size_def get_obj_def not_less)
  qed
  then show ?thesis by (intro list_search_dll [OF dl]) blast
qed

text \<open>Taking the first range that is large enough out of the list.\<close>

lemma take_min_size_ok:
  assumes sp: "vspaces s self = Some sp" and dl: "dll (vnodes s) (object_list sp) (self_data xs)"
    and xs: "\<forall>q\<in>set xs. \<exists>y. vobjs s q = Some y \<and> wf_obj y" and n: "0 < n"
    and f: "find (\<lambda>q. n \<le> npages (the (vobjs s q))) xs = Some p"
  shows "\<exists>h l. take_object_with_min_size s self n = Inr (with_objects s self sp h l, p) \<and>
    dll h l (self_data (remove1 p xs)) \<and> h p = vnodes s p \<and> (\<forall>a. a \<notin> set xs \<longrightarrow> h a = vnodes s a)"
proof -
  have p: "p \<in> set xs" using find_first [OF f] by simp
  then obtain m where m: "vnodes s p = Some m" "ndata m = p" "p \<noteq> 0" using dll_self_node [OF dl] by blast
  have search: "list_search (vnodes s) (has_min_size s n) (object_list sp) = Inr p"
    using min_size_search [OF dl xs, of n] f by simp
  obtain ys zs where e: "xs = ys @ p # zs" using p by (meson split_list)
  have dist: "distinct xs" using dl by (simp add: dll_def)
  obtain h l where r: "list_remove_node (vnodes s) (object_list sp) p = Inr (h, l)" "dll h l (self_data ys @ self_data zs)"
      "\<forall>a. a \<notin> set ys \<union> set zs \<longrightarrow> h a = vnodes s a"
    using remove_node_dll [of "vnodes s" "object_list sp" "self_data ys" "(p, p)" "self_data zs"] dl e
    unfolding relinked_def by (auto simp: image_Un)
  have "lfront (object_list sp) \<noteq> 0" using dl p by auto
  then have "take_object_with_min_size s self n = Inr (with_objects s self sp h l, p)"
    using n sp search m r(1) by (simp add: take_object_with_min_size_def take_object_def get_space_def with_objects_def)
  moreover have "remove1 p xs = ys @ zs" using dist e by (simp add: remove1_append)
  ultimately show ?thesis using r(2,3) dist e by (intro exI [of _ h] exI [of _ l]) auto
qed

text \<open>A new uncommitted object has one set bit for each page.\<close>

lemma create_uncommited_ok:
  assumes "halloc s = u # as" and "u \<noteq> 0" and "0 < n" and "n \<le> 2 ^ 20"
  shows "\<exists>bm. create_uncommited_object s p n =
      Inr (s\<lparr>halloc := as, vnodes := (vnodes s)(u \<mapsto> null_node), uobjs := (uobjs s)(u \<mapsto> \<lparr>uobject = p, ubitmap = bm\<rparr>)\<rparr>, u) \<and>
    wf_bitmap bm \<and> n \<le> 32 * word_count bm \<and> (\<forall>k. bm_get bm k \<longleftrightarrow> k < n)"
proof -
  define w where "w = (n + 32 - 1) div 32"
  have wc: "bitmap_needed_word_count n = Inr w"
    by (simp add: bitmap_needed_word_count_def BITS_PER_WORD_def size_to_blocks_value w_def)
  have "w \<le> (2 ^ 20 + 32 - 1) div 32" unfolding w_def using assms(4) by (intro div_le_mono diff_le_mono add_le_mono) simp_all
  then have w: "n \<le> 32 * w" "w < 2 ^ 26" by (simp_all add: w_def) linarith?
  let ?bm = "\<lparr>words = replicate w 0, word_count = w\<rparr>"
  have wf: "wf_bitmap ?bm" using w(2) by (simp add: wf_bitmap_def)
  have lt: "0 + n < 2 ^ 32" using assms(4) by simp
  obtain bm where bm: "bitmap_set_bits ?bm (int 0) n = Inr bm" "wf_bitmap bm" "word_count bm = word_count ?bm"
      "\<forall>k<32 * word_count ?bm. bm_get bm k \<longleftrightarrow> (if 0 \<le> k \<and> k < 0 + n then True else bm_get ?bm k)"
    using range_update_spec [OF or_mask_bit wf lt] assms(3) by (auto simp: bitmap_set_bits_def)
  have "bm_get bm k \<longleftrightarrow> k < n" for k
  proof (cases "k < 32 * w")
    case True
    have "\<not> bm_get ?bm k" by (auto simp: bm_get_def)
    then show ?thesis using bm(4) True by simp
  next
    case False
    then show ?thesis using w bm(3) by (simp add: bm_get_def)
  qed
  moreover have "create_uncommited_object s p n =
      Inr (s\<lparr>halloc := as, vnodes := (vnodes s)(u \<mapsto> null_node), uobjs := (uobjs s)(u \<mapsto> \<lparr>uobject = p, ubitmap = bm\<rparr>)\<rparr>, u)"
    using assms(1,2) wc bm(1) by (simp add: create_uncommited_object_def vm_heap_alloc_def)
  ultimately show ?thesis using bm(2,3) w(1) by (intro exI [of _ bm]) simp
qed

text \<open>What the list operations leave alone.\<close>

definition same_rest :: "vmm \<Rightarrow> vmm \<Rightarrow> bool" where
  "same_rest s s' \<longleftrightarrow> vmmu s' = vmmu s \<and> kinitialized s' = kinitialized s \<and> kernel_vm_start s' = kernel_vm_start s \<and> halloc s' = halloc s"

lemma put_back_ok:
  assumes sp: "vspaces s self = Some sp" and dl: "dll (vnodes s) (object_list sp) (self_data xs)"
    and x: "vobjs s p = Some x" "0 < ostart x" "if k = 0 then oend x + 1 = ostart x else wf_obj x"
    and p: "p \<notin> set xs" "p \<noteq> 0" "vnodes s p \<noteq> None" "uobjs s p = None"
    and xs: "\<forall>q\<in>set xs. \<exists>y. vobjs s q = Some y \<and> ostart y \<le> oend y \<and> (0 < (k::nat) \<longrightarrow> span y \<inter> span x = {})"
  shows "\<exists>s' l xs'. put_back s self p = Inr s' \<and> vspaces s' = (vspaces s)(self \<mapsto> sp\<lparr>object_list := l\<rparr>) \<and>
    dll (vnodes s') l (self_data xs') \<and> set xs' = (if k = 0 then set xs else insert p (set xs)) \<and>
    vobjs s' = (if k = 0 then (vobjs s)(p := None) else vobjs s) \<and> uobjs s' = uobjs s \<and>
    (\<forall>a. a \<notin> insert p (set xs) \<longrightarrow> vnodes s' a = vnodes s a) \<and> same_rest s s'"
proof (cases "k = 0")
  case True
  let ?s = "vm_heap_free s p"
  have "put_back s self p = Inr ?s" using x True by (simp add: put_back_def get_obj_def)
  moreover have "dll (vnodes ?s) (object_list sp) (self_data xs)"
    using dl p(1) by (rule_tac dll_same) (auto simp: vm_heap_free_def)
  moreover have "uobjs ?s = uobjs s" using p(4) by (auto simp: vm_heap_free_def fun_eq_iff)
  ultimately show ?thesis using True sp
    by (intro exI [of _ ?s] exI [of _ "object_list sp"] exI [of _ xs]) (auto simp: vm_heap_free_def same_rest_def fun_eq_iff)
next
  case False
  then have wf: "wf_obj x" using x(3) by simp
  have xs': "\<forall>q\<in>set xs. \<exists>y. vobjs s q = Some y \<and> ostart y \<le> oend y \<and> span y \<inter> span x = {}" using xs False by blast
  obtain h l xs' where a: "add_object_to_address_space s self p = Inr (with_objects s self sp h l, True)"
      "dll h l (self_data xs')" "set xs' = insert p (set xs)" "\<forall>a. a \<notin> insert p (set xs) \<longrightarrow> h a = vnodes s a"
    using add_object_ok [OF sp dl x(1) wf p(1,2,3) xs'] by blast
  have "put_back s self p = Inr (with_objects s self sp h l)"
    using x(1) wf a(1) by (simp add: put_back_def get_obj_def wf_obj_def)
  then show ?thesis using a False by (intro exI [of _ "with_objects s self sp h l"] exI [of _ l] exI [of _ xs']) (simp add: same_rest_def)
qed

lemma uncommited_insert_ok:
  assumes "vspaces s self = Some sp" and "dll (vnodes s) (uncommited_objects sp) (self_data us)"
    and "u \<notin> set us" and "u \<noteq> 0" and "vnodes s u \<noteq> None"
  shows "\<exists>h l. uncommited_insert_back s self u = Inr (set_space (s\<lparr>vnodes := h\<rparr>) self (sp\<lparr>uncommited_objects := l\<rparr>)) \<and>
    dll h l (self_data (us @ [u])) \<and> (\<forall>a. a \<notin> insert u (set us) \<longrightarrow> h a = vnodes s a)"
proof -
  obtain n where n: "vnodes s u = Some n" using assms(5) by blast
  obtain h l where "list_insert_back (vnodes s) (uncommited_objects sp) u u = Inr (h, l)" "dll h l (self_data us @ [(u, u)])"
      "\<forall>a. a \<notin> insert u (set us) \<longrightarrow> h a = vnodes s a"
    using insert_back_dll [OF assms(2) _ assms(4) n, of u] assms(3) unfolding relinked_def by auto
  then show ?thesis using assms(1) by (intro exI [of _ h] exI [of _ l]) (simp add: uncommited_insert_back_def get_space_def)
qed

text \<open>Cutting the first \<open>k\<close> pages off a range keeps the partition of the address space.\<close>

lemma split_range:
  assumes x: "wf_obj x" "0 < k" "k \<le> npages x"
    and new: "ostart new = ostart x" "oend new + 1 = ostart x + k * PAGE_SIZE"
    and rem: "ostart rem = ostart x + k * PAGE_SIZE" "oend rem = oend x"
  shows "wf_obj new" "npages new = k" "k < npages x \<Longrightarrow> wf_obj rem" "k = npages x \<Longrightarrow> oend rem + 1 = ostart rem"
    "span new \<inter> span rem = {}" "span new \<union> span rem = span x"
proof -
  note e = wf_obj_size(4) [OF x(1)] and w = x(1) [unfolded wf_obj_def]
  have le: "k * PAGE_SIZE \<le> npages x * PAGE_SIZE" using x(3) by simp
  have pos: "PAGE_SIZE \<le> k * PAGE_SIZE" using x(2) by simp
  have "(ostart x + k * PAGE_SIZE) mod PAGE_SIZE = ostart x mod PAGE_SIZE" by (rule mod_mult_self1)
  then have al: "(ostart x + k * PAGE_SIZE) mod PAGE_SIZE = 0" using w by simp
  have b: "ostart x + k * PAGE_SIZE \<le> oend x + 1" using e le by linarith
  show "wf_obj new" unfolding wf_obj_def new(1) new(2) using w al b pos new(2) by (intro conjI; linarith)
  have "oend new + 1 - ostart new = k * PAGE_SIZE" using new by simp
  then show "npages new = k" by (simp only: npages_def)
  show "wf_obj rem" if "k < npages x"
  proof -
    have "(k + 1) * PAGE_SIZE \<le> npages x * PAGE_SIZE" using that by (intro mult_le_mono1) simp
    then show ?thesis unfolding wf_obj_def rem using w al e by (intro conjI; simp)
  qed
  show "oend rem + 1 = ostart rem" if "k = npages x" using that rem e by simp
  show "span new \<inter> span rem = {}" using new rem by (auto simp: span_def)
  show "span new \<union> span rem = span x" unfolding span_def using new rem b pos by auto
qed

lemma ranges_split:
  assumes r: "ranges_ok s self lo hi" and p: "owned s self p x" and k: "0 < k" "k \<le> npages x"
    and new: "ostart new = ostart x" "oend new + 1 = ostart x + k * PAGE_SIZE"
    and rem: "ostart rem = ostart x + k * PAGE_SIZE" "oend rem = oend x"
    and own: "\<And>q y. owned s' self q y \<longleftrightarrow> q = a \<and> y = new \<or> q \<noteq> a \<and> q = p \<and> k < npages x \<and> y = rem \<or> q \<noteq> a \<and> q \<noteq> p \<and> owned s self q y"
    and a: "a \<noteq> 0" "vobjs s a = None" and nodes: "\<And>q y. owned s' self q y \<Longrightarrow> vnodes s' q \<noteq> None \<and> uobjs s' q = None"
  shows "ranges_ok s' self lo hi"
proof -
  have x: "wf_obj x" "p \<noteq> 0" and ap: "a \<noteq> p" using r p a(2) by (auto simp: ranges_ok_def owned_def)
  note sr = split_range [OF x(1) k new rem]
  have "\<And>q y. owned s' self q y \<Longrightarrow> q \<noteq> 0 \<and> wf_obj y"
    using own r x sr(1,3) a(1) by (auto simp: ranges_ok_def)
  moreover have "span y \<inter> span z = {}" if "owned s' self q y" "owned s' self q' z" "q \<noteq> q'" for q y q' z
  proof -
    have disj: "span v \<inter> span x = {}" if "owned s self j v" "j \<noteq> p" for j v
      using r p that unfolding ranges_ok_def by blast
    have "span new \<subseteq> span x" "span rem \<subseteq> span x" using sr(6) by blast+
    then have "span v \<inter> span new = {} \<and> span v \<inter> span rem = {}" if "owned s self j v" "j \<noteq> p" for j v
      using disj [OF that] by blast
    moreover have "owned s self q y \<Longrightarrow> owned s self q' z \<Longrightarrow> span y \<inter> span z = {}"
      using r that(3) unfolding ranges_ok_def by blast
    ultimately show ?thesis using that own sr(5) by (metis inf_commute)
  qed
  moreover have "(\<Union>y\<in>{y. \<exists>q. owned s' self q y}. span y) = {lo..hi}"
  proof -
    let ?others = "\<Union>y\<in>{y. \<exists>q. q \<noteq> p \<and> owned s self q y}. span y"
    have "{y. \<exists>q. owned s self q y} = insert x {y. \<exists>q. q \<noteq> p \<and> owned s self q y}"
      using p by (auto simp: owned_def) (metis option.inject)
    then have old: "span x \<union> ?others = {lo..hi}" using r by (simp add: ranges_ok_def)
    have "owned s self q y \<Longrightarrow> q \<noteq> a" for q y using a(2) by (auto simp: owned_def)
    then have "{y. \<exists>q. owned s' self q y} = insert new ((if k < npages x then {rem} else {}) \<union> {y. \<exists>q. q \<noteq> p \<and> owned s self q y})"
      using own ap by (auto split: if_splits)
    moreover have "\<not> k < npages x \<Longrightarrow> span rem = {}" using sr(4) k(2) by (simp add: span_def)
    ultimately have "(\<Union>y\<in>{y. \<exists>q. owned s' self q y}. span y) = span new \<union> span rem \<union> ?others" by auto
    then show ?thesis using sr(6) old by simp
  qed
  ultimately show ?thesis using nodes unfolding ranges_ok_def by blast
qed

definition aligned_phys :: "u32 \<Rightarrow> bool" where
  "aligned_phys phys \<longleftrightarrow> phys = VMM_PHYSADDR_NOMAP \<or> page_aligned phys"

lemma assert_phys: "aligned_phys phys \<Longrightarrow> assert_phys_aligned phys = Inr ()"
  by (auto simp: assert_phys_aligned_def aligned_phys_def is_aligned_def page_aligned_iff)

definition blocks :: "nat \<Rightarrow> nat" where
  "blocks sz = (sz + PAGE_SIZE - 1) div PAGE_SIZE"

lemma blocks_eq: "size_to_blocks sz PAGE_SIZE = Inr (blocks sz)"
  by (simp add: size_to_blocks_value blocks_def)

text \<open>The object that a successful allocation returns, and the one its first fit leaves.\<close>

definition new_object :: "nat \<Rightarrow> u32 \<Rightarrow> u8 \<Rightarrow> vmm_object \<Rightarrow> nat \<Rightarrow> vmm_object" where
  "new_object self phys fl old k =
     \<lparr>ostart = ostart old, oend = ostart old + k * PAGE_SIZE - 1, ospace = self, ophys = phys, oflags = fl\<rparr>"

definition rest_object :: "vmm_object \<Rightarrow> nat \<Rightarrow> vmm_object" where
  "rest_object old k = old\<lparr>ostart := ostart old + k * PAGE_SIZE\<rparr>"

lemma alloc_addresses:
  assumes "wf_obj x" and "0 < k" and "k \<le> npages x"
  shows "sz_mul k PAGE_SIZE = k * PAGE_SIZE" "sz_add (ostart x) (k * PAGE_SIZE) = ostart x + k * PAGE_SIZE"
    "sz_sub (ostart x + k * PAGE_SIZE) 1 = ostart x + k * PAGE_SIZE - 1" "k \<le> 2 ^ 20"
    "oend (new_object self phys fl x k) + 1 = ostart x + k * PAGE_SIZE"
proof -
  have "ostart x + k * PAGE_SIZE \<le> oend x + 1"
    using wf_obj_size(4) [OF assms(1)] assms(3) mult_le_mono1 [of k "npages x" PAGE_SIZE] by linarith
  then have b: "ostart x + k * PAGE_SIZE < 2 ^ 32" using assms(1) by (simp add: wf_obj_def)
  then show "sz_mul k PAGE_SIZE = k * PAGE_SIZE" "sz_add (ostart x) (k * PAGE_SIZE) = ostart x + k * PAGE_SIZE"
    "sz_sub (ostart x + k * PAGE_SIZE) 1 = ostart x + k * PAGE_SIZE - 1" "k \<le> 2 ^ 20"
    "oend (new_object self phys fl x k) + 1 = ostart x + k * PAGE_SIZE"
    using assms(2) by (simp_all add: sz_mul_no_wrap sz_add_no_wrap sz_sub_no_wrap new_object_def)
qed

lemma vm_invD:
  assumes "vm_inv s self xs us lo hi"
  obtains sp where "vspaces s self = Some sp" "dll (vnodes s) (object_list sp) (self_data xs)"
    "dll (vnodes s) (uncommited_objects sp) (self_data us)" "\<forall>p\<in>set xs. \<exists>x. owned s self p x"
    "ranges_ok s self lo hi" "pending_ok s self xs us" "set xs \<inter> set us = {}"
proof -
  have "p \<notin> set us" if "p \<in> set xs" for p
    using assms that unfolding vm_inv_def ranges_ok_def pending_ok_def by (metis option.distinct(1))
  then show ?thesis using that assms unfolding vm_inv_def by blast
qed

lemma free_wf: "ranges_ok s self lo hi \<Longrightarrow> \<forall>p\<in>set xs. \<exists>x. owned s self p x \<Longrightarrow> \<forall>q\<in>set xs. \<exists>y. vobjs s q = Some y \<and> wf_obj y"
  unfolding ranges_ok_def owned_def by meson

text \<open>The free range that fits first, found, unlinked, cut and put back: \<open>k\<close> pages go to the object \<open>a\<close>.\<close>

lemma cut_ok:
  assumes sp: "vspaces s self = Some sp" "dll (vnodes s) (object_list sp) (self_data xs)"
    and xs: "\<forall>q\<in>set xs. \<exists>y. vobjs s q = Some y \<and> wf_obj y \<and> uobjs s q = None"
    and k: "0 < k" and f: "find (\<lambda>q. k \<le> npages (the (vobjs s q))) xs = Some p" "vobjs s p = Some old"
    and disj: "\<forall>q\<in>set xs. \<forall>y. vobjs s q = Some y \<longrightarrow> q \<noteq> p \<longrightarrow> span y \<inter> span old = {}" and a: "a \<notin> set xs"
  shows "\<exists>t s' l xs'. take_object_with_min_size s self k = Inr (t, p) \<and> vobjs t = vobjs s \<and>
    put_back (set_obj (set_obj t a new) p (rest_object old k)) self p = Inr s' \<and>
    vspaces s' self = Some (sp\<lparr>object_list := l\<rparr>) \<and> dll (vnodes s') l (self_data xs') \<and>
    set xs' = (if k < npages old then set xs else set xs - {p}) \<and>
    vobjs s' = (vobjs s)(a \<mapsto> new, p := (if k < npages old then Some (rest_object old k) else None)) \<and>
    uobjs s' = uobjs s \<and> (\<forall>q. q \<notin> set xs \<longrightarrow> vnodes s' q = vnodes s q) \<and> same_rest s s'"
proof -
  have p: "p \<in> set xs" "k \<le> npages old" using find_first [OF f(1)] f(2) by simp_all
  have old: "wf_obj old" "uobjs s p = None" "p \<noteq> a" using xs p(1) f(2) a by auto
  have xs1: "\<forall>q\<in>set xs. \<exists>y. vobjs s q = Some y \<and> wf_obj y" using xs by blast
  obtain h l where t: "take_object_with_min_size s self k = Inr (with_objects s self sp h l, p)" "dll h l (self_data (remove1 p xs))"
      "h p = vnodes s p" "\<forall>q. q \<notin> set xs \<longrightarrow> h q = vnodes s q"
    using take_min_size_ok [OF sp xs1 k f(1)] by blast
  let ?sp = "sp\<lparr>object_list := l\<rparr>" and ?r = "rest_object old k"
  define s1 where "s1 = set_obj (set_obj (with_objects s self sp h l) a new) p ?r"
  have s1: "vspaces s1 self = Some ?sp" "vnodes s1 = h" "vobjs s1 p = Some ?r" "uobjs s1 = uobjs s"
      "vobjs s1 = (vobjs s)(a \<mapsto> new, p \<mapsto> ?r)" "same_rest s s1"
    using old(3) by (simp_all add: s1_def set_obj_def same_rest_def)
  have dist: "distinct xs" using sp(2) by (simp add: dll_def)
  have pnode: "\<exists>n. vnodes s p = Some n \<and> ndata n = p \<and> p \<noteq> 0" by (rule dll_self_node [OF sp(2) p(1)])
  have rem: "ostart ?r = ostart old + k * PAGE_SIZE" "oend ?r = oend old" by (simp_all add: rest_object_def)
  have r: "if npages old - k = 0 then oend ?r + 1 = ostart ?r else wf_obj ?r"
    using split_range(3,4) [OF old(1) k p(2) _ _ rem, of "new_object self 0 0 old k"] alloc_addresses(5) [OF old(1) k p(2), of self 0 0] p(2)
    by (auto simp: new_object_def)
  have xs2: "\<exists>y. vobjs s1 q = Some y \<and> ostart y \<le> oend y \<and> (0 < npages old - k \<longrightarrow> span y \<inter> span ?r = {})"
    if "q \<in> set (remove1 p xs)" for q
  proof -
    have q: "q \<in> set xs" "q \<noteq> p" "q \<noteq> a" using dist that a by auto
    then obtain y where y: "vobjs s q = Some y" "wf_obj y" using xs1 by blast
    moreover have "span y \<inter> span old = {}" using disj q y(1) by blast
    moreover have "span ?r \<subseteq> span old" using rem by (auto simp: span_def)
    ultimately show ?thesis using q s1(5) by (intro exI [of _ y]) (auto simp: wf_obj_def)
  qed
  have dl1: "dll (vnodes s1) (object_list ?sp) (self_data (remove1 p xs))" using t(2) s1(2) by simp
  have pos: "0 < ostart ?r" using old(1) rem by (simp add: wf_obj_def)
  have p1: "p \<notin> set (remove1 p xs)" "p \<noteq> 0" "vnodes s1 p \<noteq> None" "uobjs s1 p = None" using dist pnode t(3) s1(2,4) old(2) by auto
  obtain s2 l2 xs' where s2: "put_back s1 self p = Inr s2" "vspaces s2 = (vspaces s1)(self \<mapsto> ?sp\<lparr>object_list := l2\<rparr>)"
      "dll (vnodes s2) l2 (self_data xs')" "set xs' = (if npages old - k = 0 then set (remove1 p xs) else insert p (set (remove1 p xs)))"
      "vobjs s2 = (if npages old - k = 0 then (vobjs s1)(p := None) else vobjs s1)" "uobjs s2 = uobjs s1"
      "\<forall>q. q \<notin> insert p (set (remove1 p xs)) \<longrightarrow> vnodes s2 q = vnodes s1 q" "same_rest s1 s2"
    using put_back_ok [OF s1(1) dl1 s1(3) pos r p1] xs2 by blast
  have "vnodes s2 q = vnodes s q" if "q \<notin> set xs" for q
    using that s2(7) t(4) s1(2) p(1) by (auto dest: notin_set_remove1)
  moreover have "set xs' = (if k < npages old then set xs else set xs - {p})" using s2(4) p dist by auto
  moreover have "same_rest s s2" using s1(6) s2(8) by (simp add: same_rest_def)
  ultimately show ?thesis using t(1) s2 s1(4,5) p(2)
    by (intro exI [of _ "with_objects s self sp h l"] exI [of _ s2] exI [of _ l2] exI [of _ xs']) (simp add: s1_def)
qed

text \<open>The result of an allocation that took \<open>k\<close> pages from the free range \<open>p\<close>.\<close>

definition allocated_from :: "vmm \<Rightarrow> vmm \<Rightarrow> nat \<Rightarrow> vmm_object \<Rightarrow> nat \<Rightarrow> nat \<Rightarrow> nat \<Rightarrow> vmm_object \<Rightarrow> bool" where
  "allocated_from s s' p old k a b new \<longleftrightarrow>
     vobjs s' = (vobjs s)(a \<mapsto> new, p := (if k < npages old then Some (rest_object old k) else None)) \<and>
     (\<exists>bm. uobjs s' = (uobjs s)(b \<mapsto> \<lparr>uobject = a, ubitmap = bm\<rparr>) \<and> wf_bitmap bm \<and> k \<le> 32 * word_count bm \<and> (\<forall>j. bm_get bm j \<longleftrightarrow> j < k))"

text \<open>The two objects that an allocation creates first.\<close>

lemma prepare_ok:
  assumes heap: "halloc s = a # b # as" "a \<noteq> 0" "b \<noteq> 0" and k: "0 < k" "k \<le> 2 ^ 20"
  shows "\<exists>s1 s2 bm. create_object s self 0 0 phys fl = (s1, a) \<and> create_uncommited_object s1 a k = Inr (s2, b) \<and>
    vobjs s2 = (vobjs s)(a \<mapsto> \<lparr>ostart = 0, oend = 0, ospace = self, ophys = phys, oflags = fl\<rparr>) \<and>
    uobjs s2 = (uobjs s)(b \<mapsto> \<lparr>uobject = a, ubitmap = bm\<rparr>) \<and> vspaces s2 = vspaces s \<and>
    vnodes s2 = (vnodes s)(a \<mapsto> null_node, b \<mapsto> null_node) \<and> same_rest (s\<lparr>halloc := as\<rparr>) s2 \<and>
    wf_bitmap bm \<and> k \<le> 32 * word_count bm \<and> (\<forall>j. bm_get bm j \<longleftrightarrow> j < k)"
proof -
  define s1 where "s1 = s\<lparr>halloc := b # as, vnodes := (vnodes s)(a \<mapsto> null_node),
    vobjs := (vobjs s)(a \<mapsto> \<lparr>ostart = 0, oend = 0, ospace = self, ophys = phys, oflags = fl\<rparr>)\<rparr>"
  have c1: "create_object s self 0 0 phys fl = (s1, a)" using heap by (simp add: create_object_def vm_heap_alloc_def s1_def)
  have "halloc s1 = b # as" by (simp add: s1_def)
  from create_uncommited_ok [OF this heap(3) k, of a] obtain bm where bm: "create_uncommited_object s1 a k =
      Inr (s1\<lparr>halloc := as, vnodes := (vnodes s1)(b \<mapsto> null_node), uobjs := (uobjs s1)(b \<mapsto> \<lparr>uobject = a, ubitmap = bm\<rparr>)\<rparr>, b)"
      "wf_bitmap bm" "k \<le> 32 * word_count bm" "\<forall>j. bm_get bm j \<longleftrightarrow> j < k" by blast
  show ?thesis
    by (rule exI [of _ s1], rule exI, rule exI [of _ bm], intro conjI, rule c1, rule bm(1)) (simp_all add: bm s1_def same_rest_def)
qed

lemma vm_alloc_run:
  assumes inv: "vm_inv s self xs us lo hi" and heap: "halloc s = a # b # as" "fresh_at s a" "fresh_at s b" "a \<noteq> b"
    and sz: "0 < sz" and ph: "aligned_phys phys" and f: "find (\<lambda>q. blocks sz \<le> npages (the (vobjs s q))) xs = Some p" "vobjs s p = Some old"
  shows "\<exists>s' xs' sp. vmm_alloc_object s self phys sz fl = Inr (s', a) \<and>
    allocated_from s s' p old (blocks sz) a b (new_object self phys fl old (blocks sz)) \<and> vspaces s' self = Some sp \<and>
    dll (vnodes s') (object_list sp) (self_data xs') \<and> dll (vnodes s') (uncommited_objects sp) (self_data (us @ [b])) \<and>
    set xs' = (if blocks sz < npages old then set xs else set xs - {p}) \<and> vnodes s' a \<noteq> None \<and>
    (\<forall>q. q \<notin> set xs \<union> set us \<union> {a, b} \<longrightarrow> vnodes s' q = vnodes s q) \<and> same_rest (s\<lparr>halloc := as\<rparr>) s'"
proof -
  obtain sp where sp: "vspaces s self = Some sp" "dll (vnodes s) (object_list sp) (self_data xs)"
      "dll (vnodes s) (uncommited_objects sp) (self_data us)" "\<forall>p\<in>set xs. \<exists>x. owned s self p x"
      "ranges_ok s self lo hi" "pending_ok s self xs us" "set xs \<inter> set us = {}" using vm_invD [OF inv] by blast
  let ?k = "blocks sz" and ?new = "new_object self phys fl old (blocks sz)"
  have p: "p \<in> set xs" "?k \<le> npages old" using find_first [OF f(1)] f(2) by simp_all
  have own: "\<forall>q\<in>set xs. \<exists>y. vobjs s q = Some y \<and> wf_obj y \<and> uobjs s q = None \<and> q \<noteq> a \<and> q \<noteq> b"
    using sp(4,5) heap(2,3) unfolding ranges_ok_def owned_def fresh_at_def by (metis option.distinct(1))
  have usab: "a \<notin> set us" "b \<notin> set us" using sp(6) heap(2,3) by (auto simp: pending_ok_def fresh_at_def)
  have k: "0 < ?k" "?k \<le> 2 ^ 20" "wf_obj old"
    using sz own p f(2) alloc_addresses(4) [of old ?k] by (auto simp: blocks_def div_greater_zero_iff)
  note adr = alloc_addresses(1-3) [OF k(3,1) p(2)]
  have ab: "a \<noteq> 0" "b \<noteq> 0" using heap(2,3) by (simp_all add: fresh_at_def)
  obtain s1 s2 bm where c1: "create_object s self 0 0 phys fl = (s1, a)" and bm1: "create_uncommited_object s1 a ?k = Inr (s2, b)"
    and s2: "vobjs s2 = (vobjs s)(a \<mapsto> \<lparr>ostart = 0, oend = 0, ospace = self, ophys = phys, oflags = fl\<rparr>)"
      "uobjs s2 = (uobjs s)(b \<mapsto> \<lparr>uobject = a, ubitmap = bm\<rparr>)" "vspaces s2 = vspaces s"
      "vnodes s2 = (vnodes s)(a \<mapsto> null_node, b \<mapsto> null_node)" "same_rest (s\<lparr>halloc := as\<rparr>) s2"
    and bm: "wf_bitmap bm" "?k \<le> 32 * word_count bm" "\<forall>j. bm_get bm j \<longleftrightarrow> j < ?k"
    using prepare_ok [OF heap(1) ab k(1,2), of self phys fl] by blast
  have same: "\<forall>q\<in>set xs. vobjs s2 q = vobjs s q" using own s2(1) by auto
  have dl2: "dll (vnodes s2) (object_list sp) (self_data xs)" "dll (vnodes s2) (uncommited_objects sp) (self_data us)"
    using own usab s2(4) by (auto intro!: dll_same [OF sp(2)] dll_same [OF sp(3)])
  have xs2: "\<forall>q\<in>set xs. \<exists>y. vobjs s2 q = Some y \<and> wf_obj y \<and> uobjs s2 q = None" using own s2(2) same by auto
  have f2: "find (\<lambda>q. ?k \<le> npages (the (vobjs s2 q))) xs = Some p" "vobjs s2 p = Some old"
    using f p(1) same find_cong [of xs xs "\<lambda>q. ?k \<le> npages (the (vobjs s2 q))" "\<lambda>q. ?k \<le> npages (the (vobjs s q))"] by simp_all
  have disj: "\<forall>q\<in>set xs. \<forall>y. vobjs s2 q = Some y \<longrightarrow> q \<noteq> p \<longrightarrow> span y \<inter> span old = {}"
    using sp(4,5) p(1) f(2) same unfolding ranges_ok_def owned_def by (metis option.inject)
  have sps: "vspaces s2 self = Some sp" using sp(1) s2(3) by simp
  obtain t s3 l xs' where s3: "take_object_with_min_size s2 self ?k = Inr (t, p)" "vobjs t = vobjs s2"
      "put_back (set_obj (set_obj t a ?new) p (rest_object old ?k)) self p = Inr s3" "vspaces s3 self = Some (sp\<lparr>object_list := l\<rparr>)"
      "dll (vnodes s3) l (self_data xs')" "set xs' = (if ?k < npages old then set xs else set xs - {p})"
      "vobjs s3 = (vobjs s2)(a \<mapsto> ?new, p := (if ?k < npages old then Some (rest_object old ?k) else None))"
      "uobjs s3 = uobjs s2" "\<forall>q. q \<notin> set xs \<longrightarrow> vnodes s3 q = vnodes s2 q" "same_rest s2 s3"
    using cut_ok [OF sps dl2(1) xs2 k(1) f2 disj, of a ?new] own by blast
  have dl3: "dll (vnodes s3) (uncommited_objects (sp\<lparr>object_list := l\<rparr>)) (self_data us)"
    using dl2(2) sp(7) s3(9) by (auto intro!: dll_same [OF dl2(2)])
  have b3: "b \<notin> set xs" "vnodes s3 b \<noteq> None" using own s3(9) s2(4) by auto
  obtain h4 l4 where u4: "uncommited_insert_back s3 self b = Inr (set_space (s3\<lparr>vnodes := h4\<rparr>) self (sp\<lparr>object_list := l, uncommited_objects := l4\<rparr>))"
      "dll h4 l4 (self_data (us @ [b]))" "\<forall>q. q \<notin> insert b (set us) \<longrightarrow> h4 q = vnodes s3 q"
    using uncommited_insert_ok [OF s3(4) dl3 usab(2) ab(2) b3(2)] by auto
  let ?s = "set_space (s3\<lparr>vnodes := h4\<rparr>) self (sp\<lparr>object_list := l, uncommited_objects := l4\<rparr>)"
  have n4: "h4 q = vnodes s3 q" if "q \<in> set xs \<or> q = a" for q using that u4(3) b3 sp(7) usab heap(4) by auto
  have "set xs' \<subseteq> set xs" using s3(6) by (simp split: if_splits)
  then have "dll h4 l (self_data xs')" using n4 by (intro dll_same [OF s3(5)]) auto
  moreover have got: "get_obj t p = Inr old" "get_obj t a = Inr \<lparr>ostart = 0, oend = 0, ospace = self, ophys = phys, oflags = fl\<rparr>" and p0: "p \<noteq> 0"
    using f2(2) s3(2) s2(1) dll_self_node [OF sp(2) p(1)] by (auto simp: get_obj_def)
  moreover have "vmm_alloc_object s self phys sz fl = Inr (?s, a)"
    using c1 bm1 s3(1,3) u4(1) adr ab p0 got assert_phys [OF ph]
    by (simp add: vmm_alloc_object_def blocks_eq new_object_def rest_object_def Let_def)
  moreover have "allocated_from s ?s p old ?k a b ?new"
    using s3(7,8) s2(1,2) bm by (auto simp: allocated_from_def set_space_def fun_eq_iff)
  moreover have "vnodes ?s a \<noteq> None" using n4 [of a] s3(9) s2(4) own heap(4) by (auto simp: set_space_def)
  moreover have "\<forall>q. q \<notin> set xs \<union> set us \<union> {a, b} \<longrightarrow> vnodes ?s q = vnodes s q"
    using u4(3) s3(9) s2(4) by (auto simp: set_space_def)
  moreover have "same_rest (s\<lparr>halloc := as\<rparr>) ?s" using s3(10) s2(5) by (simp add: same_rest_def set_space_def)
  ultimately show ?thesis using u4(2) s3(6)
    by (intro exI [of _ ?s] exI [of _ xs'] exI [of _ "sp\<lparr>object_list := l, uncommited_objects := l4\<rparr>"]) (simp add: set_space_def)
qed

lemma pending_alloc:
  assumes pend: "pending_ok s self xs us" and al: "allocated_from s s' p old k a b new" and p: "p \<in> set xs" "vobjs s p = Some old"
    and heap: "fresh_at s a" "fresh_at s b" "a \<noteq> b" and xs': "set xs' \<subseteq> set xs" "a \<notin> set xs'"
    and new: "ospace new = self" "npages new = k"
  shows "pending_ok s' self xs' (us @ [b])"
proof -
  obtain bm where bm: "uobjs s' = (uobjs s)(b \<mapsto> \<lparr>uobject = a, ubitmap = bm\<rparr>)" "wf_bitmap bm" "k \<le> 32 * word_count bm" "\<forall>j. bm_get bm j \<longleftrightarrow> j < k"
    and v: "vobjs s' = (vobjs s)(a \<mapsto> new, p := (if k < npages old then Some (rest_object old k) else None))"
    using al unfolding allocated_from_def by blast
  have ap: "a \<noteq> p" and us: "b \<notin> set us" using heap p pend by (auto simp: fresh_at_def pending_ok_def)
  have novobj: "vobjs s' u = None" if "u \<in> set (us @ [b])" for u
    using that pend heap p ap unfolding v pending_ok_def fresh_at_def by auto
  have old: "\<exists>uo x. uobjs s' u = Some uo \<and> uobjs s u = Some uo \<and> owned s' self (uobject uo) x \<and> uobject uo \<notin> set xs' \<and> uobject uo \<noteq> a \<and> bits_ok uo x"
    if u: "u \<in> set us" for u
  proof -
    obtain uo x where uo: "uobjs s u = Some uo" "owned s self (uobject uo) x" "uobject uo \<notin> set xs" "bits_ok uo x"
      using pend u by (auto simp: pending_ok_def)
    then have "uobject uo \<noteq> p" "uobject uo \<noteq> a" using p heap by (auto simp: owned_def fresh_at_def)
    then show ?thesis using uo u us bm(1) v xs'(1) by (intro exI [of _ uo] exI [of _ x]) (auto simp: owned_def)
  qed
  have "bits_ok \<lparr>uobject = a, ubitmap = bm\<rparr> new" using bm new by (simp add: bits_ok_def)
  moreover have "owned s' self a new" using v ap new by (simp add: owned_def)
  moreover have "inj_on (\<lambda>u. uobject (the (uobjs s' u))) (set (us @ [b]))"
  proof (rule inj_onI)
    fix u u' assume u: "u \<in> set (us @ [b])" "u' \<in> set (us @ [b])" "uobject (the (uobjs s' u)) = uobject (the (uobjs s' u'))"
    have new_b: "uobject (the (uobjs s' b)) = a" using bm(1) by simp
    have "uobject (the (uobjs s' w)) \<noteq> a" if "w \<in> set us" for w using old [OF that] by auto
    moreover have "u \<in> set us \<Longrightarrow> u' \<in> set us \<Longrightarrow> u = u'"
      using pend u(3) old [of u] old [of u'] unfolding pending_ok_def inj_on_def by force
    ultimately show "u = u'" using u new_b by fastforce
  qed
  ultimately show ?thesis using old novobj xs'(2) bm(1) unfolding pending_ok_def by fastforce
qed

lemma vm_alloc_ok:
  assumes inv: "vm_inv s self xs us lo hi" and heap: "halloc s = a # b # as" "fresh_at s a" "fresh_at s b" "a \<noteq> b"
    and sz: "0 < sz" and ph: "aligned_phys phys" and f: "find (\<lambda>q. blocks sz \<le> npages (the (vobjs s q))) xs = Some p" "vobjs s p = Some old"
  shows "\<exists>s' xs'. vmm_alloc_object s self phys sz fl = Inr (s', a) \<and> vm_inv s' self xs' (us @ [b]) lo hi \<and>
    allocated_from s s' p old (blocks sz) a b (new_object self phys fl old (blocks sz)) \<and>
    set xs' = (if blocks sz < npages old then set xs else set xs - {p}) \<and> same_rest (s\<lparr>halloc := as\<rparr>) s'"
proof -
  let ?k = "blocks sz"
  define new where "new = new_object self phys fl old ?k"
  obtain sp where sp: "\<forall>p\<in>set xs. \<exists>x. owned s self p x" "ranges_ok s self lo hi" "pending_ok s self xs us" "set xs \<inter> set us = {}"
    using vm_invD [OF inv] by blast
  obtain s' xs' sp' where run: "vmm_alloc_object s self phys sz fl = Inr (s', a)" "allocated_from s s' p old ?k a b new" "vspaces s' self = Some sp'"
    "dll (vnodes s') (object_list sp') (self_data xs')" "dll (vnodes s') (uncommited_objects sp') (self_data (us @ [b]))"
    "set xs' = (if ?k < npages old then set xs else set xs - {p})" "vnodes s' a \<noteq> None"
    "\<forall>q. q \<notin> set xs \<union> set us \<union> {a, b} \<longrightarrow> vnodes s' q = vnodes s q" "same_rest (s\<lparr>halloc := as\<rparr>) s'"
    using vm_alloc_run [OF assms, of fl] unfolding new_def by blast
  have p: "p \<in> set xs" "?k \<le> npages old" using find_first [OF f(1)] f(2) by simp_all
  have po: "owned s self p old" using sp(1) p(1) f(2) by (auto simp: owned_def)
  then have old: "wf_obj old" "ospace old = self" using sp(2) by (auto simp: ranges_ok_def owned_def)
  have k: "0 < ?k" using sz by (simp add: blocks_def div_greater_zero_iff)
  have v: "vobjs s' = (vobjs s)(a \<mapsto> new, p := (if ?k < npages old then Some (rest_object old ?k) else None))"
    using run(2) by (simp add: allocated_from_def)
  have ap: "a \<noteq> p" using heap(2) f(2) by (auto simp: fresh_at_def)
  have new: "ostart new = ostart old" "oend new + 1 = ostart old + ?k * PAGE_SIZE" "ospace new = self"
    using alloc_addresses(5) [OF old(1) k p(2), of self phys fl] by (simp_all add: new_def new_object_def)
  have rem: "ostart (rest_object old ?k) = ostart old + ?k * PAGE_SIZE" "oend (rest_object old ?k) = oend old" by (simp_all add: rest_object_def)
  have own: "owned s' self q y \<longleftrightarrow> q = a \<and> y = new \<or> q \<noteq> a \<and> q = p \<and> ?k < npages old \<and> y = rest_object old ?k \<or> q \<noteq> a \<and> q \<noteq> p \<and> owned s self q y" for q y
    using ap new(3) old(2) by (auto simp: owned_def v rest_object_def)
  have nodes: "vnodes s' q \<noteq> None \<and> uobjs s' q = None" if q: "owned s' self q y" for q y
  proof -
    have "q = a \<or> (\<exists>z. owned s self q z)" using q own po by blast
    then have "uobjs s q = None" "q \<noteq> b" "q = a \<or> vnodes s q \<noteq> None" using sp(2) heap(2-4) by (auto simp: ranges_ok_def owned_def fresh_at_def)
    moreover have "q \<notin> set us" using sp(3) \<open>uobjs s q = None\<close> by (auto simp: pending_ok_def)
    moreover have "vnodes s' q \<noteq> None" if "q \<in> set xs"
    proof (cases "q \<in> set xs'")
      case True then show ?thesis using dll_self_node [OF run(4)] by auto
    next
      case False then show ?thesis using that run(6) q own ap heap(2) f(2) by (auto simp: fresh_at_def split: if_splits)
    qed
    ultimately show ?thesis using run(2,7,8) by (cases "q = a"; cases "q \<in> set xs") (auto simp: allocated_from_def)
  qed
  have "ranges_ok s' self lo hi"
    by (rule ranges_split [OF sp(2) po k p(2) new(1,2) rem own]) (use heap(2) nodes in \<open>auto simp: fresh_at_def\<close>)
  moreover have "set xs' \<subseteq> set xs" using run(6) by (simp split: if_splits)
  moreover have "a \<notin> set xs" using sp(1) heap(2) by (auto simp: owned_def fresh_at_def)
  moreover have "npages new = ?k" by (rule split_range(2) [OF old(1) k p(2) new(1,2) rem])
  moreover have "\<exists>y. owned s' self q y" if "q \<in> set xs'" for q
  proof (cases "q = p")
    case True then show ?thesis using that run(6) own ap by (auto split: if_splits)
  next
    case False
    have "q \<in> set xs" using that run(6) by (simp split: if_splits)
    then show ?thesis using False sp(1) own heap(2) by (metis fresh_at_def option.distinct(1) owned_def)
  qed
  ultimately have "vm_inv s' self xs' (us @ [b]) lo hi"
    using pending_alloc [OF sp(3) run(2) p(1) f(2) heap(2-4), of xs'] new(3) run(3-5) unfolding vm_inv_def by auto
  then show ?thesis using run(1,2,6,9) unfolding new_def by blast
qed

definition free_space :: "vmm \<Rightarrow> nat list \<Rightarrow> nat set" where
  "free_space s xs = (\<Union>p\<in>set xs. span (the (vobjs s p)))"

lemma alloc_spec:
  assumes "vm_inv s self xs us lo hi" and "halloc s = a # b # as" "fresh_at s a" "fresh_at s b" "a \<noteq> b"
    and "0 < sz" and "aligned_phys phys" and "\<exists>q\<in>set xs. blocks sz \<le> npages (the (vobjs s q))"
  shows "\<exists>s' x xs' bm. vmm_alloc_object s self phys sz fl = Inr (s', a) \<and> vm_inv s' self xs' (us @ [b]) lo hi \<and>
    vobjs s' a = Some x \<and> a \<notin> set xs' \<and> npages x = blocks sz \<and> ophys x = phys \<and> oflags x = fl \<and>
    span x \<subseteq> free_space s xs \<and> free_space s' xs' = free_space s xs - span x \<and>
    (\<forall>q y. owned s self q y \<and> q \<notin> set xs \<longrightarrow> vobjs s' q = Some y) \<and>
    uobjs s' b = Some \<lparr>uobject = a, ubitmap = bm\<rparr> \<and> (\<forall>k. bm_get bm k \<longleftrightarrow> k < blocks sz) \<and> vmmu s' = vmmu s \<and>
    (\<forall>q y. owned s' self q y \<longrightarrow> q = a \<or> (\<exists>z. owned s self q z \<and> ophys y = ophys z)) \<and> set xs' \<subseteq> set xs \<and> ospace x = self"
proof -
  obtain p where p: "find (\<lambda>q. blocks sz \<le> npages (the (vobjs s q))) xs = Some p"
    using assms(8) by (metis (no_types, lifting) find_None_iff not_None_eq)
  obtain sp where sp: "vspaces s self = Some sp" "\<forall>p\<in>set xs. \<exists>x. owned s self p x" "ranges_ok s self lo hi"
    using vm_invD [OF assms(1)] by blast
  have px: "p \<in> set xs" using find_first [OF p] by blast
  then obtain old where old: "owned s self p old" using sp(2) by blast
  note w = ranges_wf(1,4) [OF sp(3) old]
  obtain s' xs' where r: "vmm_alloc_object s self phys sz fl = Inr (s', a)" "vm_inv s' self xs' (us @ [b]) lo hi"
      "allocated_from s s' p old (blocks sz) a b (new_object self phys fl old (blocks sz))"
      "set xs' = (if blocks sz < npages old then set xs else set xs - {p})" "same_rest (s\<lparr>halloc := as\<rparr>) s'"
    using vm_alloc_ok [OF assms(1-7) p w(1), of fl] by blast
  let ?k = "blocks sz" and ?x = "new_object self phys fl old (blocks sz)"
  have k: "0 < ?k" "?k \<le> npages old" using assms(6) find_first [OF p] w(1) by (simp_all add: blocks_def div_greater_zero_iff)
  have rem: "ostart (rest_object old ?k) = ostart old + ?k * PAGE_SIZE" "oend (rest_object old ?k) = oend old" by (simp_all add: rest_object_def)
  have new: "ostart ?x = ostart old" "oend ?x + 1 = ostart old + ?k * PAGE_SIZE"
    using alloc_addresses(5) [OF w(2) k, of self phys fl] by (simp_all add: new_object_def)
  note sr = split_range [OF w(2) k new rem]
  have a: "a \<notin> set xs" "a \<noteq> p" using sp(2) px assms(3) by (auto simp: owned_def fresh_at_def)
  obtain bm where v: "vobjs s' = (vobjs s)(a \<mapsto> ?x, p := (if ?k < npages old then Some (rest_object old ?k) else None))"
      "uobjs s' = (uobjs s)(b \<mapsto> \<lparr>uobject = a, ubitmap = bm\<rparr>)" "\<forall>j. bm_get bm j \<longleftrightarrow> j < ?k"
    using r(3) unfolding allocated_from_def by blast
  define others where "others = (\<Union>q\<in>set xs - {p}. span (the (vobjs s q)))"
  have "span (the (vobjs s q)) \<inter> span old = {}" if "q \<in> set xs - {p}" for q
    using that sp(2) ranges_disjoint [OF sp(3) _ old] ranges_wf(1) [OF sp(3)] by (metis DiffD1 DiffD2 option.sel singletonI)
  then have disj: "others \<inter> span old = {}" unfolding others_def by blast
  have f: "free_space s xs = span old \<union> others" unfolding free_space_def others_def using px w(1) by auto
  have same: "vobjs s' q = vobjs s q" if "q \<in> set xs - {p}" for q using that a v(1) by auto
  have "\<not> ?k < npages old \<Longrightarrow> span (rest_object old ?k) = {}" using sr(4) k(2) by (simp add: span_def)
  moreover have xs': "set xs' - {p} = set xs - {p}" "p \<in> set xs' \<longleftrightarrow> ?k < npages old" using r(4) px by auto
  have "free_space s' xs' = (if p \<in> set xs' then span (the (vobjs s' p)) else {}) \<union> (\<Union>q\<in>set xs' - {p}. span (the (vobjs s' q)))"
    unfolding free_space_def by auto
  then have "free_space s' xs' = (if ?k < npages old then span (rest_object old ?k) else {}) \<union> others"
    unfolding xs' others_def using same v(1) by simp
  ultimately have f': "free_space s' xs' = span (rest_object old ?k) \<union> others" by auto
  have "vobjs s' q = Some y" if "owned s self q y \<and> q \<notin> set xs" for q y
    using that v(1) px assms(3) by (auto simp: owned_def fresh_at_def)
  moreover have "vobjs s' a = Some ?x" "a \<notin> set xs'" "ophys ?x = phys" "oflags ?x = fl" using v(1) a r(4) by (auto simp: new_object_def)
  moreover have "span ?x \<subseteq> free_space s xs" "free_space s' xs' = free_space s xs - span ?x" using f f' sr(5,6) disj by blast+
  moreover have "\<forall>q y. owned s' self q y \<longrightarrow> q = a \<or> (\<exists>z. owned s self q z \<and> ophys y = ophys z)"
    using old w(1) by (auto simp: owned_def v(1) rest_object_def split: if_splits)
  moreover have "set xs' \<subseteq> set xs" "ospace ?x = self" using r(4) by (auto simp: new_object_def split: if_splits)
  ultimately show ?thesis using r(1,2,5) v(2,3) sr(2)
    by (intro exI [of _ s'] exI [of _ ?x] exI [of _ xs'] exI [of _ bm]) (simp add: same_rest_def)
qed

end
