(* ===== verification/Vmm_Pages.thy ===== *)
theory Vmm_Pages
  imports Vmm
begin

text \<open>
  The virtual memory manager and the page tables: releasing the pages of an object, committing a page on a fault,
  the interface of the manager as an allocator of ranges, and the properties of the operations.
\<close>

subsection \<open>Releasing pages\<close>

text \<open>A frame that is not a table and not free may be given back; mapped pages of one object have frames of their own.\<close>

definition in_use :: "mmu \<Rightarrow> u32 \<Rightarrow> bool" where
  "in_use m f \<longleftrightarrow> f \<noteq> 0 \<and> page_aligned f \<and> f \<notin> set (frames m) \<and> f \<noteq> cr3 m \<and>
     (\<forall>pde<PAGEDIR_PDE. present_pd m pde \<longrightarrow> frame_of (pagedir m pde) \<noteq> f)"

definition mapped_at :: "mmu \<Rightarrow> nat \<Rightarrow> u32 \<Rightarrow> bool" where
  "mapped_at m q f \<longleftrightarrow> (\<exists>e. pt m q = Some e \<and> bit e 0 \<and> frame_of e = f)"

definition own_frames :: "mmu \<Rightarrow> nat set \<Rightarrow> bool" where
  "own_frames m Q \<longleftrightarrow> (\<forall>q\<in>Q. \<forall>f. mapped_at m q f \<longrightarrow> in_use m f) \<and>
     (\<forall>q\<in>Q. \<forall>q'\<in>Q. \<forall>f. mapped_at m q f \<longrightarrow> mapped_at m q' f \<longrightarrow> q = q')"

lemma give_frame:
  assumes "wf_mmu m" and "tlb_safe m" and "in_use m f"
  shows "wf_mmu (m\<lparr>frames := f # frames m\<rparr>)" "tlb_safe (m\<lparr>frames := f # frames m\<rparr>)" "pt (m\<lparr>frames := fs\<rparr>) = pt m"
    "pagedir (m\<lparr>frames := fs\<rparr>) = pagedir m" "present_pd (m\<lparr>frames := fs\<rparr>) = present_pd m"
proof -
  show d: "pagedir (m\<lparr>frames := fs\<rparr>) = pagedir m" for fs by (simp add: pagedir_def fun_eq_iff)
  show p: "present_pd (m\<lparr>frames := fs\<rparr>) = present_pd m" for fs by (simp add: present_pd_def d fun_eq_iff)
  show q: "pt (m\<lparr>frames := fs\<rparr>) = pt m" for fs by (simp add: pt_def p d fun_eq_iff)
  show "wf_mmu (m\<lparr>frames := f # frames m\<rparr>)" using assms(1,3) unfolding wf_mmu_def in_use_def by (auto simp: p d)
  show "tlb_safe (m\<lparr>frames := f # frames m\<rparr>)" using assms(2) by (simp add: tlb_safe_def q)
qed

lemma unmap_page_ok:
  assumes wf: "wf_mmu m" "tlb_safe m" and v: "addr_valid v 1" "v < 2 ^ 32" "v div PAGE_SIZE < PAGES"
    and e: "pt m (v div PAGE_SIZE) = Some e" "bit e 0"
  shows "\<exists>m'. arch_mmu_unmap m v 1 = Inr (m', 1) \<and> wf_mmu m' \<and> tlb_safe m' \<and> cr3 m' = cr3 m \<and> frames m' = frames m \<and>
    present_pd m' = present_pd m \<and> pagedir m' = pagedir m \<and> (\<forall>q<PAGES. pt m' q = (if q = v div PAGE_SIZE then Some 0 else pt m q))"
proof -
  have vs: "page_addrs v 1 = [v]" using v(2) by (simp add: page_addrs_def sz_add_def)
  have pres: "presence_loop m [v] = Inr 0" using v(2) e by (intro presence_loop_ok) auto
  obtain m1 where m1: "write_pt m (pde_index v) (pte_index v) 0 = Inr m1" "wf_mmu (arch_mmu_flush_tlb_for m1 v)"
      "tlb_safe (arch_mmu_flush_tlb_for m1 v)" "\<forall>q<PAGES. pt m1 q = (if q = v div PAGE_SIZE then Some 0 else pt m q)"
    using unmap_single_ok [OF wf(1) v(2,3) e(1) wf(2)] by blast
  have some: "pt m (v div PAGE_SIZE) \<noteq> None" using e by simp
  have "pagedir m1 = pagedir m"
    using write_pt_ok [OF wf(1) v(3) some, of 0] m1(1) by (auto simp: index_page [OF v(2)])
  then have "present_pd m1 = present_pd m" "pagedir m1 = pagedir m" by (simp_all add: present_pd_def fun_eq_iff)
  moreover have "cr3 m1 = cr3 m" "frames m1 = frames m" using m1(1) by (auto simp: write_pt_def Let_def split: if_splits)
  moreover have "arch_mmu_unmap m v 1 = Inr (arch_mmu_flush_tlb_for m1 v, 1)"
    using v(1) vs pres m1(1) by (simp add: arch_mmu_unmap_def)
  ultimately show ?thesis using m1 by (intro exI [of _ "arch_mmu_flush_tlb_for m1 v"]) (simp add: fun_eq_iff)
qed

definition released :: "mmu \<Rightarrow> mmu \<Rightarrow> nat set \<Rightarrow> u32 \<Rightarrow> bool" where
  "released m m' Q phys \<longleftrightarrow> wf_mmu m' \<and> tlb_safe m' \<and> cr3 m' = cr3 m \<and> present_pd m' = present_pd m \<and> pagedir m' = pagedir m \<and>
     (\<forall>q<PAGES. pt m' q = (if q \<in> Q \<and> (\<exists>f. mapped_at m q f) then Some 0 else pt m q)) \<and>
     set (frames m') = set (frames m) \<union> (if phys = VMM_PHYSADDR_NOMAP then {f. \<exists>q\<in>Q. mapped_at m q f} else {})"

lemma page_offset: "(word_of_nat (q * PAGE_SIZE) :: u32) AND 0xfff = 0"
proof -
  have "(word_of_nat (q * PAGE_SIZE) :: u32) AND mask 12 = word_of_nat (take_bit 12 (q * PAGE_SIZE))"
    by (simp only: take_bit_eq_mask [symmetric] take_bit_of_nat)
  then show ?thesis by (simp add: low_mask take_bit_eq_mod)
qed

lemma page_number:
  assumes "0 < q" and "q < PAGES"
  shows "addr_valid (q * PAGE_SIZE) 1" "q * PAGE_SIZE < 2 ^ 32" "q * PAGE_SIZE div PAGE_SIZE = q"
  using assms by (simp_all add: addr_valid_def)

lemma free_page_ok:
  assumes wf: "wf_mmu (vmmu s)" "tlb_safe (vmmu s)" and q: "0 < q" "q < PAGES"
    and own: "phys = VMM_PHYSADDR_NOMAP \<Longrightarrow> own_frames (vmmu s) {q}"
  shows "\<exists>m'. free_page s phys (q * PAGE_SIZE) = Inr (s\<lparr>vmmu := m'\<rparr>) \<and> released (vmmu s) m' {q} phys"
proof (cases "\<exists>f. mapped_at (vmmu s) q f")
  case False
  then have "arch_mmu_virtual_to_physical (vmmu s) (q * PAGE_SIZE) = Inr (0, - EFAULT)"
    using page_number [OF q] by (auto simp: v2p_pt mapped_at_def split: option.split)
  then show ?thesis using wf False by (intro exI [of _ "vmmu s"]) (auto simp: free_page_def EFAULT_def released_def)
next
  case True
  then obtain f e where e: "pt (vmmu s) q = Some e" "bit e 0" "frame_of e = f" "mapped_at (vmmu s) q f" by (auto simp: mapped_at_def)
  then have only: "mapped_at (vmmu s) q g \<longleftrightarrow> g = f" for g by (auto simp: mapped_at_def)
  note n = page_number [OF q]
  have v2p: "arch_mmu_virtual_to_physical (vmmu s) (q * PAGE_SIZE) = Inr (f, 0)"
    unfolding v2p_pt [OF n(2)] n(3) using e page_offset [of q] by (simp add: mult.commute)
  let ?fs = "if phys = VMM_PHYSADDR_NOMAP then f # frames (vmmu s) else frames (vmmu s)"
  let ?m = "(vmmu s)\<lparr>frames := ?fs\<rparr>"
  have use: "phys = VMM_PHYSADDR_NOMAP \<Longrightarrow> in_use (vmmu s) f" using own e(4) by (simp add: own_frames_def)
  then have m: "wf_mmu ?m" "tlb_safe ?m" "pt ?m = pt (vmmu s)" "pagedir ?m = pagedir (vmmu s)" "present_pd ?m = present_pd (vmmu s)"
    using give_frame [OF wf, of f] wf by (auto simp: pt_def present_pd_def pagedir_def fun_eq_iff)
  have "pt ?m (q * PAGE_SIZE div PAGE_SIZE) = Some e" unfolding m(3) n(3) by (rule e(1))
  from unmap_page_ok [OF m(1,2) n(1,2) _ this e(2)] obtain m' where m': "arch_mmu_unmap ?m (q * PAGE_SIZE) 1 = Inr (m', 1)" "wf_mmu m'" "tlb_safe m'"
      "cr3 m' = cr3 ?m" "frames m' = ?fs" "present_pd m' = present_pd ?m" "pagedir m' = pagedir ?m" "\<forall>j<PAGES. pt m' j = (if j = q then Some 0 else pt ?m j)"
    unfolding n(3) using q(2) by auto
  have "free_page s phys (q * PAGE_SIZE) = Inr (s\<lparr>vmmu := m'\<rparr>)"
    using v2p m'(1) by (simp add: free_page_def vm_pmm_free_def split: if_splits)
  moreover have "released (vmmu s) m' {q} phys" using m'(2-) m(3-5) only by (auto simp: released_def)
  ultimately show ?thesis by blast
qed

lemma released_same: "released m m' {q} phys \<Longrightarrow> j \<noteq> q \<Longrightarrow> j < PAGES \<Longrightarrow> mapped_at m' j f \<longleftrightarrow> mapped_at m j f"
  by (simp add: released_def mapped_at_def)

lemma released_own:
  assumes own: "own_frames m Q" and r: "released m m' {q} phys" and q: "q \<in> Q" "Q \<subseteq> {..<PAGES}"
  shows "own_frames m' (Q - {q})"
proof -
  have same: "mapped_at m' j f \<longleftrightarrow> mapped_at m j f" if "j \<in> Q - {q}" for j f
    using that q released_same [OF r] by blast
  have "in_use m' f" if "j \<in> Q - {q}" "mapped_at m j f" for j f
  proof -
    have "in_use m f" "\<not> mapped_at m q f" using own that q(1) unfolding own_frames_def by blast+
    then show ?thesis using r by (auto simp: released_def in_use_def split: if_splits)
  qed
  then show ?thesis using own same unfolding own_frames_def by (meson Diff_iff)
qed

lemma released_trans:
  assumes "released m m1 {q} phys" and "released m1 m2 Q phys" and "q \<notin> Q" and "Q \<subseteq> {..<PAGES}"
  shows "released m m2 (insert q Q) phys"
proof -
  have same: "mapped_at m1 j f \<longleftrightarrow> mapped_at m j f" if "j \<in> Q" for j f
    using that assms(3,4) by (intro released_same [OF assms(1)]) auto
  have pt1: "\<forall>j<PAGES. pt m1 j = (if j = q \<and> (\<exists>f. mapped_at m q f) then Some 0 else pt m j)" using assms(1) by (auto simp: released_def)
  have pt2: "\<forall>j<PAGES. pt m2 j = (if j \<in> Q \<and> (\<exists>f. mapped_at m j f) then Some 0 else pt m1 j)" using assms(2) same by (auto simp: released_def)
  have "{f. \<exists>j\<in>Q. mapped_at m1 j f} = {f. \<exists>j\<in>Q. mapped_at m j f}" using same by blast
  moreover have "\<forall>j<PAGES. pt m2 j = (if j \<in> insert q Q \<and> (\<exists>f. mapped_at m j f) then Some 0 else pt m j)"
    using pt1 pt2 assms(3) by auto
  ultimately show ?thesis using assms(1,2) unfolding released_def by auto
qed

lemma free_pages_ok:
  assumes "wf_mmu (vmmu s)" "tlb_safe (vmmu s)" and "0 < q" "q + n \<le> PAGES" and "en + 1 = (q + n) * PAGE_SIZE"
    and "phys = VMM_PHYSADDR_NOMAP \<Longrightarrow> own_frames (vmmu s) {q..<q + n}"
  shows "\<exists>m'. free_pages_loop s phys (q * PAGE_SIZE) en = Some (Inr (s\<lparr>vmmu := m'\<rparr>)) \<and> released (vmmu s) m' {q..<q + n} phys"
  using assms
proof (induction n arbitrary: q s)
  case 0
  then show ?case by (subst free_pages_loop.simps) (auto simp: released_def intro!: exI [of _ "vmmu s"])
next
  case (Suc n)
  have q: "0 < q" "q < PAGES" and own1: "phys = VMM_PHYSADDR_NOMAP \<Longrightarrow> own_frames (vmmu s) {q}" using Suc.prems by (auto simp: own_frames_def)
  obtain m1 where m1: "free_page s phys (q * PAGE_SIZE) = Inr (s\<lparr>vmmu := m1\<rparr>)" "released (vmmu s) m1 {q} phys"
    using free_page_ok [OF Suc.prems(1,2) q own1] by blast
  have rng: "{q..<q + Suc n} - {q} = {Suc q..<Suc q + n}" by auto
  have sub: "{q..<q + Suc n} \<subseteq> {..<PAGES}" using Suc.prems(4) by (auto simp del: mult_numeral_left_semiring_numeral)
  then have own: "own_frames m1 {Suc q..<Suc q + n}" if "phys = VMM_PHYSADDR_NOMAP"
    using released_own [OF Suc.prems(6) [OF that] m1(2)] unfolding rng by simp
  have "wf_mmu m1" "tlb_safe m1" using m1(2) by (simp_all add: released_def)
  then obtain m2 where m2: "free_pages_loop (s\<lparr>vmmu := m1\<rparr>) phys (Suc q * PAGE_SIZE) en = Some (Inr (s\<lparr>vmmu := m2\<rparr>))" "released m1 m2 {Suc q..<Suc q + n} phys"
    using Suc.IH [of "s\<lparr>vmmu := m1\<rparr>" "Suc q"] Suc.prems(4,5) own by auto
  have le: "q * PAGE_SIZE \<le> en" using Suc.prems(5) by simp
  have nxt: "sz_add (q * PAGE_SIZE) PAGE_SIZE = Suc q * PAGE_SIZE" using q(2) by (simp add: sz_add_no_wrap)
  have "free_pages_loop s phys (q * PAGE_SIZE) en = Some (Inr (s\<lparr>vmmu := m2\<rparr>))"
    unfolding free_pages_loop.simps [of s phys "q * PAGE_SIZE" en] using le m1(1) m2(1) by (simp only: nxt if_True sum.case)
  moreover have "released (vmmu s) m2 (insert q {Suc q..<Suc q + n}) phys"
    by (rule released_trans [OF m1(2) m2(2)]) (use sub in \<open>auto simp: subset_iff\<close>)
  moreover have "insert q {Suc q..<Suc q + n} = {q..<q + Suc n}" by auto
  ultimately show ?case by auto
qed

subsection \<open>Finding and removing uncommitted objects\<close>

lemma page_base_in_span:
  assumes "wf_obj x" and "ptr \<in> span x"
  shows "ptr - ptr mod PAGE_SIZE \<in> span x"
proof -
  have "ostart x = ostart x div PAGE_SIZE * PAGE_SIZE" using assms(1) by (auto simp: wf_obj_def)
  also have "\<dots> \<le> ptr div PAGE_SIZE * PAGE_SIZE" using assms(2) by (intro mult_le_mono1 div_le_mono) (simp add: span_def)
  finally have "ostart x \<le> ptr - ptr mod PAGE_SIZE" by (simp only: minus_mod_eq_div_mult)
  then show ?thesis using assms(2) by (auto simp: span_def)
qed

lemma find_uncommited_ok:
  assumes inv: "vm_inv s self xs us lo hi" and x: "owned s self p x" and ptr: "ptr \<in> span x"
  shows "find_object_in_uncommited s self ptr = Inr (case find (\<lambda>u. uobject (the (uobjs s u)) = p) us of None \<Rightarrow> 0 | Some u \<Rightarrow> u)"
proof -
  obtain sp where sp: "vspaces s self = Some sp" "dll (vnodes s) (uncommited_objects sp) (self_data us)"
      "ranges_ok s self lo hi" "pending_ok s self xs us" using vm_invD [OF inv] by blast
  let ?b = "ptr - ptr mod PAGE_SIZE"
  have b: "?b \<in> span x" by (rule page_base_in_span [OF ranges_wf(4) [OF sp(3) x] ptr])
  have test: "covers_page s ?b u = Inr (uobject (the (uobjs s u)) = p)" if u: "u \<in> set us" for u
  proof -
    obtain uo y where uo: "uobjs s u = Some uo" "owned s self (uobject uo) y" using sp(4) u by (auto simp: pending_ok_def)
    have "?b \<in> span y \<longleftrightarrow> uobject uo = p"
    proof
      assume "?b \<in> span y" then show "uobject uo = p" using ranges_disjoint [OF sp(3) x uo(2)] b by blast
    next
      assume "uobject uo = p" then show "?b \<in> span y" using x uo(2) b by (auto simp: owned_def)
    qed
    then show ?thesis using uo dll_self_node [OF sp(2) u] by (auto simp: covers_page_def get_uobj_def get_obj_def owned_def span_def)
  qed
  then have "list_search (vnodes s) (covers_page s ?b) (uncommited_objects sp) =
      Inr (case find (\<lambda>u. uobject (the (uobjs s u)) = p) us of None \<Rightarrow> 0 | Some u \<Rightarrow> u)"
    by (intro list_search_dll [OF sp(2)]) blast
  moreover have "bind_res (get_node (vnodes s) u) (\<lambda>n. Inr (ndata n)) = Inr u" if "u \<in> set us" for u
    using dll_self_node [OF sp(2) that] by auto
  ultimately show ?thesis using sp(1)
    by (auto simp: find_object_in_uncommited_def align_ptr_down_def get_space_def dest!: find_first split: option.splits)
qed

lemma uncommited_remove_ok:
  assumes "vspaces s self = Some sp" and "dll (vnodes s) (uncommited_objects sp) (self_data us)" and "u \<in> set us"
  shows "\<exists>h l. uncommited_remove s self u = Inr (set_space (s\<lparr>vnodes := h\<rparr>) self (sp\<lparr>uncommited_objects := l\<rparr>)) \<and>
    dll h l (self_data (remove1 u us)) \<and> (\<forall>a. a \<notin> set us \<longrightarrow> h a = vnodes s a)"
proof -
  obtain ys zs where e: "us = ys @ u # zs" using assms(3) by (meson split_list)
  have dist: "distinct us" using assms(2) by (simp add: dll_def)
  obtain h l where "list_remove_node (vnodes s) (uncommited_objects sp) u = Inr (h, l)" "dll h l (self_data ys @ self_data zs)"
      "\<forall>a. a \<notin> set ys \<union> set zs \<longrightarrow> h a = vnodes s a"
    using remove_node_dll [of "vnodes s" "uncommited_objects sp" "self_data ys" "(u, u)" "self_data zs"] assms(2) e
    unfolding relinked_def by (auto simp: image_Un)
  moreover have "remove1 u us = ys @ zs" using dist e by (simp add: remove1_append)
  ultimately show ?thesis using assms(1) e by (intro exI [of _ h] exI [of _ l]) (simp add: uncommited_remove_def get_space_def)
qed

text \<open>Dropping an uncommitted object, as both the release of its range and the commitment of its last page do.\<close>

lemma drop_uncommited_ok:
  assumes inv: "vm_inv s self xs us lo hi" and u: "u \<in> set us"
  shows "\<exists>s'. bind_res (uncommited_remove s self u) (\<lambda>s. Inr (vm_heap_free s u)) = Inr s' \<and> vm_inv s' self xs (remove1 u us) lo hi \<and>
    vobjs s' = vobjs s \<and> uobjs s' = (uobjs s)(u := None) \<and> same_rest s s' \<and> map_option is_user (vspaces s' self) = map_option is_user (vspaces s self)"
proof -
  obtain sp where sp: "vspaces s self = Some sp" "dll (vnodes s) (object_list sp) (self_data xs)"
      "dll (vnodes s) (uncommited_objects sp) (self_data us)" "\<forall>p\<in>set xs. \<exists>x. owned s self p x"
      "ranges_ok s self lo hi" "pending_ok s self xs us" "set xs \<inter> set us = {}" using vm_invD [OF inv] by blast
  obtain h l where r: "uncommited_remove s self u = Inr (set_space (s\<lparr>vnodes := h\<rparr>) self (sp\<lparr>uncommited_objects := l\<rparr>))"
      "dll h l (self_data (remove1 u us))" "\<forall>a. a \<notin> set us \<longrightarrow> h a = vnodes s a"
    using uncommited_remove_ok [OF sp(1,3) u] by blast
  let ?s = "vm_heap_free (set_space (s\<lparr>vnodes := h\<rparr>) self (sp\<lparr>uncommited_objects := l\<rparr>)) u"
  have uv: "vobjs s u = None" and dist: "distinct us" using sp(3,6) u by (simp_all add: pending_ok_def dll_def)
  have f: "vobjs ?s = vobjs s" "uobjs ?s = (uobjs s)(u := None)" "vnodes ?s = h(u := None)" "vspaces ?s self = Some (sp\<lparr>uncommited_objects := l\<rparr>)"
    using uv by (auto simp: vm_heap_free_def set_space_def fun_eq_iff)
  have own: "owned ?s self = owned s self" by (simp add: owned_def f fun_eq_iff)
  have "dll (vnodes ?s) (object_list sp) (self_data xs)" "dll (vnodes ?s) l (self_data (remove1 u us))"
    using sp(7) u r(3) dist unfolding f(3) by (auto intro!: dll_same [OF sp(2)] dll_same [OF r(2)] simp: disjoint_iff)
  moreover have "q \<notin> set us" if "owned s self q y" for q y using that sp(6) by (auto simp: owned_def pending_ok_def)
  then have "ranges_ok ?s self lo hi" using sp(5) r(3) u unfolding ranges_ok_def own f by auto
  moreover have "pending_ok ?s self xs (remove1 u us)"
    using sp(6) dist unfolding pending_ok_def own f by (auto simp: inj_on_def)
  ultimately show ?thesis using r(1) sp(1,4) f own
    by (intro exI [of _ ?s]) (simp add: vm_inv_def same_rest_def, simp add: vm_heap_free_def set_space_def)
qed

lemma add_object_inv:
  assumes inv: "vm_inv s self xs us lo hi" and x: "owned s self p x" "p \<notin> set xs" and us: "\<forall>u\<in>set us. uobject (the (uobjs s u)) \<noteq> p"
  shows "\<exists>s' xs'. add_object_to_address_space s self p = Inr (s', True) \<and> vm_inv s' self xs' us lo hi \<and> set xs' = insert p (set xs) \<and>
    vobjs s' = vobjs s \<and> uobjs s' = uobjs s \<and> same_rest s s'"
proof -
  obtain sp where sp: "vspaces s self = Some sp" "dll (vnodes s) (object_list sp) (self_data xs)"
      "dll (vnodes s) (uncommited_objects sp) (self_data us)" "\<forall>p\<in>set xs. \<exists>x. owned s self p x"
      "ranges_ok s self lo hi" "pending_ok s self xs us" "set xs \<inter> set us = {}" using vm_invD [OF inv] by blast
  note p = ranges_wf(1,4,3,5,6) [OF sp(5) x(1)]
  have "\<exists>y. vobjs s q = Some y \<and> ostart y \<le> oend y \<and> span y \<inter> span x = {}" if q: "q \<in> set xs" for q
  proof -
    obtain y where y: "owned s self q y" using sp(4) q by blast
    moreover have "q \<noteq> p" using q x(2) by blast
    ultimately show ?thesis using ranges_wf(1,4) [OF sp(5) y] ranges_disjoint [OF sp(5) y x(1)] by (auto simp: wf_obj_def)
  qed
  then obtain h l xs' where a: "add_object_to_address_space s self p = Inr (with_objects s self sp h l, True)"
    "dll h l (self_data xs')" "set xs' = insert p (set xs)" "\<forall>a. a \<notin> insert p (set xs) \<longrightarrow> h a = vnodes s a"
    using add_object_ok [OF sp(1,2) p(1,2) x(2) p(3,4)] by blast
  let ?s = "with_objects s self sp h l"
  have own: "owned ?s self = owned s self" by (simp add: owned_def fun_eq_iff)
  have pu: "p \<notin> set us" using sp(6) p(1) by (auto simp: pending_ok_def)
  have "\<forall>q\<in>set us. h q = vnodes s q" using sp(7) a(4) pu by (metis disjoint_iff insertE)
  then have "dll h (uncommited_objects sp) (self_data us)" by (auto intro!: dll_same [OF sp(3)])
  moreover have "ranges_ok ?s self lo hi"
  proof -
    have "h q \<noteq> None" if "owned s self q y" for q y
      using that sp(5) a(4) dll_self_node [OF a(2), of q] a(3) by (cases "q \<in> set xs'") (auto simp: ranges_ok_def)
    then show ?thesis using sp(5) by (simp add: ranges_ok_def own)
  qed
  moreover have "pending_ok ?s self xs' us" using sp(6) us a(3) unfolding pending_ok_def own by (auto, metis option.sel)
  moreover have "\<forall>q\<in>set xs'. \<exists>y. owned ?s self q y" using sp(4) x(1) a(3) own by auto
  ultimately have "vm_inv ?s self xs' us lo hi" using a(2) sp(1) unfolding vm_inv_def by simp
  then show ?thesis using a(1,3) by (intro exI [of _ ?s] exI [of _ xs']) (simp add: same_rest_def)
qed

lemma vm_inv_mmu: "vm_inv (s\<lparr>vmmu := m\<rparr>) self xs us lo hi \<longleftrightarrow> vm_inv s self xs us lo hi"
  by (simp add: vm_inv_def ranges_ok_def pending_ok_def owned_def)

definition pages_of :: "vmm_object \<Rightarrow> nat set" where
  "pages_of x = {ostart x div PAGE_SIZE..<ostart x div PAGE_SIZE + npages x}"

lemma object_pages:
  assumes "wf_obj x"
  shows "ostart x = ostart x div PAGE_SIZE * PAGE_SIZE" "0 < ostart x div PAGE_SIZE"
    "oend x + 1 = (ostart x div PAGE_SIZE + npages x) * PAGE_SIZE" "oend x < PAGES * PAGE_SIZE \<Longrightarrow> ostart x div PAGE_SIZE + npages x \<le> PAGES"
proof -
  show s: "ostart x = ostart x div PAGE_SIZE * PAGE_SIZE" using assms by (auto simp: wf_obj_def)
  show "0 < ostart x div PAGE_SIZE" using assms s by (cases "ostart x div PAGE_SIZE") (simp_all add: wf_obj_def)
  show e: "oend x + 1 = (ostart x div PAGE_SIZE + npages x) * PAGE_SIZE" using wf_obj_size(4) [OF assms] s by (simp add: add_mult_distrib)
  show "ostart x div PAGE_SIZE + npages x \<le> PAGES" if "oend x < PAGES * PAGE_SIZE"
  proof -
    have "(ostart x div PAGE_SIZE + npages x) * PAGE_SIZE \<le> PAGES * PAGE_SIZE" unfolding e [symmetric] using that by linarith
    then show ?thesis by (simp only: mult_le_cancel2)
  qed
qed

lemma remove_owner:
  assumes "pending_ok s self xs us" and "find (\<lambda>u. uobject (the (uobjs s u)) = p) us = Some u" and "distinct us"
  shows "\<forall>w\<in>set (remove1 u us). uobject (the (uobjs s w)) \<noteq> p"
proof
  fix w assume "w \<in> set (remove1 u us)"
  then have w: "w \<in> set us" "w \<noteq> u" using assms(3) by simp_all
  have "u \<in> set us" "uobject (the (uobjs s u)) = p" using find_first [OF assms(2)] by simp_all
  then show "uobject (the (uobjs s w)) \<noteq> p" using assms(1) w unfolding pending_ok_def inj_on_def by blast
qed

lemma drop_owner_ok:
  assumes inv: "vm_inv s self xs us lo hi" and u: "u = (case find (\<lambda>u. uobject (the (uobjs s u)) = p) us of None \<Rightarrow> 0 | Some u \<Rightarrow> u)"
  shows "\<exists>s1 us'. (if u \<noteq> 0 then bind_res (uncommited_remove s self u) (\<lambda>s. Inr (vm_heap_free s u)) else Inr s) = Inr s1 \<and>
    vm_inv s1 self xs us' lo hi \<and> vobjs s1 = vobjs s \<and> vmmu s1 = vmmu s \<and> set us' = {u \<in> set us. uobject (the (uobjs s u)) \<noteq> p} \<and>
    (\<forall>u\<in>set us'. uobjs s1 u = uobjs s u)"
proof -
  obtain sp where sp0: "vspaces s self = Some sp" and sp: "dll (vnodes s) (uncommited_objects sp) (self_data us)"
      "ranges_ok s self lo hi" "pending_ok s self xs us"
    using vm_invD [OF inv] by blast
  show ?thesis
  proof (cases "find (\<lambda>u. uobject (the (uobjs s u)) = p) us")
    case None
    then have "set us = {u \<in> set us. uobject (the (uobjs s u)) \<noteq> p}" by (auto simp: find_None_iff)
    then show ?thesis using inv None u by (intro exI [of _ s] exI [of _ us]) simp
  next
    case (Some w)
    then have w: "w \<in> set us" "uobject (the (uobjs s w)) = p" "w \<noteq> 0" "u = w" using find_first [OF Some] dll_self_node [OF sp(1), of w] u by auto
    obtain s' where s': "bind_res (uncommited_remove s self w) (\<lambda>s. Inr (vm_heap_free s w)) = Inr s'" "vm_inv s' self xs (remove1 w us) lo hi"
        "vobjs s' = vobjs s" "uobjs s' = (uobjs s)(w := None)" "same_rest s s'"
      using drop_uncommited_ok [OF inv w(1)] by blast
    have dist: "distinct us" using sp(1) by (simp add: dll_def)
    then have "set (remove1 w us) = {u \<in> set us. uobject (the (uobjs s u)) \<noteq> p}" using remove_owner [OF sp(3) Some] w by auto
    then show ?thesis using s' w by (intro exI [of _ s'] exI [of _ "remove1 w us"]) (auto simp: same_rest_def)
  qed
qed

lemma vm_free_ok:
  assumes inv: "vm_inv s self xs us lo hi" and x: "owned s self p x" "p \<notin> set xs" and hi: "hi < PAGES * PAGE_SIZE"
    and m: "wf_mmu (vmmu s)" "tlb_safe (vmmu s)" and own: "ophys x = VMM_PHYSADDR_NOMAP \<Longrightarrow> own_frames (vmmu s) (pages_of x)"
  shows "\<exists>s' xs' us'. vmm_free s p = Inr s' \<and> vm_inv s' self xs' us' lo hi \<and> set xs' = insert p (set xs) \<and> vobjs s' = vobjs s \<and>
    set us' = {u \<in> set us. uobject (the (uobjs s u)) \<noteq> p} \<and> (\<forall>u\<in>set us'. uobjs s' u = uobjs s u) \<and> released (vmmu s) (vmmu s') (pages_of x) (ophys x)"
proof -
  obtain sp where "vspaces s self = Some sp" and sp: "dll (vnodes s) (uncommited_objects sp) (self_data us)"
      "ranges_ok s self lo hi" "pending_ok s self xs us"
    using vm_invD [OF inv] by blast
  note wx = ranges_wf(4,1,2) [OF sp(2) x(1)]
  have st: "ostart x \<in> span x" "oend x \<in> span x" using wx(1) by (simp_all add: span_def wf_obj_def)
  define u where "u = (case find (\<lambda>u. uobject (the (uobjs s u)) = p) us of None \<Rightarrow> 0 | Some u \<Rightarrow> u)"
  have find: "find_object_in_uncommited s self (ostart x) = Inr u"
    unfolding u_def by (rule find_uncommited_ok [OF inv x(1) st(1)])
  obtain s1 us' where s1: "(if u \<noteq> 0 then bind_res (uncommited_remove s self u) (\<lambda>s. Inr (vm_heap_free s u)) else Inr s) = Inr s1"
      "vm_inv s1 self xs us' lo hi" "vobjs s1 = vobjs s" "vmmu s1 = vmmu s" "set us' = {u \<in> set us. uobject (the (uobjs s u)) \<noteq> p}" "\<forall>u\<in>set us'. uobjs s1 u = uobjs s u"
    using drop_owner_ok [OF inv u_def] by blast
  note pg = object_pages [OF wx(1)]
  have "oend x \<in> {lo..hi}" using ranges_wf(7) [OF sp(2) x(1)] st(2) by blast
  then have "oend x \<le> hi" by simp
  note le = pg(4) [OF order.strict_trans1 [OF this hi]]
  obtain m' where m': "free_pages_loop s1 (ophys x) (ostart x) (oend x) = Some (Inr (s1\<lparr>vmmu := m'\<rparr>))" "released (vmmu s) m' (pages_of x) (ophys x)"
    using free_pages_ok [of s1, OF _ _ pg(2) le pg(3), of "ophys x"] m own unfolding pages_of_def s1(4) pg(1) [symmetric] by blast
  have inv1: "vm_inv (s1\<lparr>vmmu := m'\<rparr>) self xs us' lo hi" using s1(2) by (simp add: vm_inv_mmu)
  have "owned (s1\<lparr>vmmu := m'\<rparr>) self p x" "\<forall>u\<in>set us'. uobject (the (uobjs (s1\<lparr>vmmu := m'\<rparr>) u)) \<noteq> p" using x(1) s1(3,5,6) by (auto simp: owned_def)
  from add_object_inv [OF inv1 this(1) x(2) this(2)] obtain s3 xs' where s3: "add_object_to_address_space (s1\<lparr>vmmu := m'\<rparr>) self p = Inr (s3, True)"
      "vm_inv s3 self xs' us' lo hi" "set xs' = insert p (set xs)" "vobjs s3 = vobjs s1" "uobjs s3 = uobjs s1" "same_rest (s1\<lparr>vmmu := m'\<rparr>) s3" by auto
  have "vmm_free s p = Inr s3" using wx(2,3) find s1(1) m'(1) s3(1) by (cases "u = 0") (simp_all add: vmm_free_def get_obj_def)
  then show ?thesis using s3 s1(3,5,6) m'(2) by (intro exI [of _ s3] exI [of _ xs'] exI [of _ us']) (simp add: same_rest_def)
qed

subsection \<open>Committing a page\<close>

lemma vm_inv_clear:
  assumes inv: "vm_inv s self xs us lo hi" and u: "u \<in> set us" "uobjs s u = Some uo" and bm: "wf_bitmap bm" "word_count bm = word_count (ubitmap uo)"
    "\<forall>k. bm_get bm k \<longrightarrow> bm_get (ubitmap uo) k"
  shows "vm_inv (s\<lparr>uobjs := (uobjs s)(u \<mapsto> uo\<lparr>ubitmap := bm\<rparr>)\<rparr>) self xs us lo hi"
proof -
  let ?s = "s\<lparr>uobjs := (uobjs s)(u \<mapsto> uo\<lparr>ubitmap := bm\<rparr>)\<rparr>"
  have own: "owned ?s self = owned s self" by (simp add: owned_def fun_eq_iff)
  obtain sp where sp0: "vspaces s self = Some sp" and sp: "dll (vnodes s) (object_list sp) (self_data xs)"
      "dll (vnodes s) (uncommited_objects sp) (self_data us)" "\<forall>p\<in>set xs. \<exists>x. owned s self p x"
      "ranges_ok s self lo hi" "pending_ok s self xs us" "set xs \<inter> set us = {}"
    using vm_invD [OF inv] by blast
  have "q \<noteq> u" if "owned s self q y" for q y using ranges_wf(6) [OF sp(4) that] u(2) by auto
  then have r: "ranges_ok ?s self lo hi" using sp(4) unfolding ranges_ok_def own by auto
  have "bits_ok (uo\<lparr>ubitmap := bm\<rparr>) y" if "bits_ok uo y" for y using that bm by (auto simp: bits_ok_def)
  then have "\<exists>uo' x. uobjs ?s w = Some uo' \<and> owned s self (uobject uo') x \<and> uobject uo' \<notin> set xs \<and> bits_ok uo' x" if "w \<in> set us" for w
    using sp(5) that u by (cases "w = u") (fastforce simp: pending_ok_def)+
  moreover have "uobject (the (uobjs ?s w)) = uobject (the (uobjs s w))" for w using u(2) by simp
  ultimately have "pending_ok ?s self xs us" using sp(5) unfolding pending_ok_def own by simp
  then show ?thesis using sp0 sp own r unfolding vm_inv_def by simp
qed

lemma find_first_total:
  assumes "wf_bitmap bm"
  shows "\<exists>r. bitmap_find_first_set_bit bm 0 = Inr r \<and> (r < 0 \<longleftrightarrow> (\<forall>k. \<not> bm_get bm k))"
proof -
  have "\<exists>r. find_first_loop bm i off = Inr r" for i off
    using assms
  proof (induction bm i off rule: find_first_loop.induct)
    case (1 bm i off)
    then show ?case
      by (subst find_first_loop.simps) (auto simp: wf_bitmap_def Let_def)
  qed
  then obtain r where r: "bitmap_find_first_set_bit bm 0 = Inr r" unfolding bitmap_find_first_set_bit_def by fastforce
  have "first_spec (bm_get bm) (nat 0) (32 * word_count bm) r" by (rule bitmap_find_first_set_bit_spec [OF r]) simp
  then show ?thesis using r by (auto simp: first_spec_def bm_get_def)
qed

lemma kernel_vm_end: "ARCH_KERNEL_VM_END = 0xFFBFEFFF" "ARCH_KERNEL_VM_END < PAGES * PAGE_SIZE"
  by (simp_all add: ARCH_KERNEL_VM_END_def MAKE_VIRTADDR_def)

lemma emulate_unmapped:
  assumes "v < 2 ^ 32" and "pt m (v div PAGE_SIZE) = Some e" and "\<not> bit e 0"
  shows "\<exists>r. arch_mmu_emulate m v fl user = Inr (0, r) \<and> r \<noteq> 0"
proof -
  have "e AND FLAG_P = 0" using assms(3) flag_bits(1) [of e] by blast
  then show ?thesis using addr_pages(1) [OF assms(1), of m] assms(2)
    by (auto simp: arch_mmu_emulate_def Let_def EFAULT_def EPERM_def)
qed

lemma emulate_mapped:
  assumes "v < 2 ^ 32" and "pt m (v div PAGE_SIZE) = Some e" "bit e 0"
    and "fl AND MAP_PROT_WRITE \<noteq> 0 \<Longrightarrow> bit e 1 \<and> bit (pagedir m (pde_index v)) 1" and "user \<Longrightarrow> bit e 2 \<and> bit (pagedir m (pde_index v)) 2"
  shows "arch_mmu_emulate m v fl user = Inr (frame_of e, 0)"
proof -
  let ?d = "pagedir m (pde_index v)"
  have rd: "read_pt m (pde_index v) (pte_index v) = Inr e" using addr_pages(1) [OF assms(1), of m] assms(2) by simp
  have "?d AND FLAG_P \<noteq> 0" using addr_pages(2) [OF assms(1), of m] assms(2) by (simp add: present_pd_def)
  moreover have "\<not> (?d AND FLAG_RW = 0 \<and> fl AND MAP_PROT_WRITE \<noteq> 0)" "\<not> (e AND FLAG_RW = 0 \<and> fl AND MAP_PROT_WRITE \<noteq> 0)"
    using assms(4) flag_bits(2) [of ?d] flag_bits(2) [of e] by blast+
  moreover have "\<not> (?d AND FLAG_US = 0 \<and> user)" "\<not> (e AND FLAG_US = 0 \<and> user)"
    using assms(5) flag_bits(3) [of ?d] flag_bits(3) [of e] by blast+
  moreover have "e AND FLAG_P \<noteq> 0" using assms(3) flag_bits(1) [of e] by blast
  ultimately show ?thesis unfolding arch_mmu_emulate_def Let_def rd bind_res_Inr by (simp only: if_False simp_thms)
qed

lemma take_frame:
  assumes "wf_mmu m" and "tlb_safe m" and "frames m = f # fs"
  shows "wf_mmu (m\<lparr>frames := fs\<rparr>)" "tlb_safe (m\<lparr>frames := fs\<rparr>)" "pt (m\<lparr>frames := fs\<rparr>) = pt m" "present_pd (m\<lparr>frames := fs\<rparr>) = present_pd m"
    "pagedir (m\<lparr>frames := fs\<rparr>) = pagedir m" "f \<noteq> 0" "page_aligned f"
proof -
  show d: "pagedir (m\<lparr>frames := fs\<rparr>) = pagedir m" by (simp add: pagedir_def fun_eq_iff)
  show p: "present_pd (m\<lparr>frames := fs\<rparr>) = present_pd m" by (simp add: present_pd_def d fun_eq_iff)
  show q: "pt (m\<lparr>frames := fs\<rparr>) = pt m" by (simp add: pt_def p d fun_eq_iff)
  show "wf_mmu (m\<lparr>frames := fs\<rparr>)" using assms(1,3) unfolding wf_mmu_def by (simp add: p d)
  show "tlb_safe (m\<lparr>frames := fs\<rparr>)" using assms(2) by (simp add: tlb_safe_def q)
  show "f \<noteq> 0" "page_aligned f" using assms(1,3) by (simp_all add: wf_mmu_def)
qed

text \<open>The physical page that the page with number \<open>k\<close> of an object gets.\<close>

definition commit_frame :: "mmu \<Rightarrow> vmm_object \<Rightarrow> nat \<Rightarrow> u32" where
  "commit_frame m x k = (if ophys x = VMM_PHYSADDR_NOMAP then hd (frames m) else ophys x + word_of_nat (k * PAGE_SIZE))"

definition committable :: "mmu \<Rightarrow> vmm_object \<Rightarrow> nat \<Rightarrow> bool" where
  "committable m x k \<longleftrightarrow> (ophys x = VMM_PHYSADDR_NOMAP \<longrightarrow> frames m \<noteq> []) \<and> page_aligned (commit_frame m x k) \<and>
     addr_valid (unat (commit_frame m x k)) 1 \<and> oflags x AND MAP_PROT_READ \<noteq> 0"

lemma commit_map:
  assumes m: "wf_mmu m" "tlb_safe m" and q: "0 < q" "q < PAGES" "pt m q \<noteq> None" and c: "committable m x k"
  shows "\<exists>m1 m'. (if ophys x \<noteq> VMM_PHYSADDR_NOMAP then (m, ophys x + word_of_nat (k * PAGE_SIZE)) else pmm_alloc_page m) = (m1, commit_frame m x k) \<and>
    commit_frame m x k \<noteq> 0 \<and> arch_mmu_map m1 (q * PAGE_SIZE) (commit_frame m x k) 1 (oflags x) user = Inr (m', 0) \<and> wf_mmu m' \<and> tlb_safe m' \<and>
    pagedir m' = pagedir m \<and> (\<forall>j<PAGES. pt m' j = (if j = q then Some (new_pte (commit_frame m x k OR FLAG_P) (oflags x) user) else pt m j))"
proof -
  let ?f = "commit_frame m x k"
  have f: "page_aligned ?f" "addr_valid (unat ?f) 1" "oflags x AND MAP_PROT_READ \<noteq> 0" using c by (simp_all add: committable_def)
  then have f0: "?f \<noteq> 0" by (auto simp: addr_valid_def)
  obtain m1 where m1: "(if ophys x \<noteq> VMM_PHYSADDR_NOMAP then (m, ophys x + word_of_nat (k * PAGE_SIZE)) else pmm_alloc_page m) = (m1, ?f)"
      "wf_mmu m1" "tlb_safe m1" "pt m1 = pt m" "pagedir m1 = pagedir m"
  proof (cases "ophys x = VMM_PHYSADDR_NOMAP")
    case True
    then obtain g fs where g: "frames m = g # fs" using c by (auto simp: committable_def neq_Nil_conv)
    show thesis by (rule that [of "m\<lparr>frames := fs\<rparr>"]) (use True g take_frame [OF m g] in \<open>simp_all add: pmm_alloc_page_def commit_frame_def\<close>)
  next
    case False
    then show thesis using m by (intro that [of m]) (simp_all add: commit_frame_def)
  qed
  note n = page_number [OF q(1,2)]
  have ad: "page_addrs (q * PAGE_SIZE) 1 = [q * PAGE_SIZE]" using n(2) by (simp add: page_addrs_def sz_add_def)
  have some: "pt m1 (q * PAGE_SIZE div PAGE_SIZE) \<noteq> None" "q * PAGE_SIZE div PAGE_SIZE < PAGES" using q(2,3) m1(4) n(3) by simp_all
  have "present_pd m1 (pde_index (q * PAGE_SIZE))" using addr_pages(2) [OF n(2), of m1] some by simp
  then have create: "create_loop m1 [q * PAGE_SIZE] = Inr (m1, True)" by (simp add: present_pd_def)
  obtain m' where m': "map_single_page m1 (q * PAGE_SIZE) ?f (oflags x) user = Inr m'" "wf_mmu m'" "tlb_safe m'" "pagedir m' = pagedir m1"
      "\<forall>j<PAGES. pt m' j = (if j = q then Some (new_pte (?f OR FLAG_P) (oflags x) user) else pt m1 j)"
    using map_single_page_ok [OF m1(2) n(2) some(2,1) m1(3) f(1), of "oflags x" user] unfolding n(3) by blast
  have al: "is_aligned (unat ?f) PAGE_SIZE = Inr True" using f(1) by (simp add: is_aligned_def page_aligned_iff)
  have "arch_mmu_map m1 (q * PAGE_SIZE) ?f 1 (oflags x) user = Inr (m', 0)"
    using n(1) f al create m'(1) unfolding arch_mmu_map_def ad by (simp del: create_loop.simps)
  then show ?thesis using m1 f0 m'(2-) by (intro exI [of _ m1] exI [of _ m']) simp
qed

lemma page_index_ok:
  assumes "wf_obj x" and "ptr \<in> span x"
  shows "to_ssize (sz_sub (ptr - ptr mod PAGE_SIZE) (ostart x) div PAGE_SIZE) = int (ptr div PAGE_SIZE - ostart x div PAGE_SIZE)"
    "ptr - ptr mod PAGE_SIZE = ptr div PAGE_SIZE * PAGE_SIZE" "ptr < 2 ^ 32" "0 < ptr div PAGE_SIZE"
    "ptr div PAGE_SIZE - ostart x div PAGE_SIZE < npages x" "ostart x div PAGE_SIZE \<le> ptr div PAGE_SIZE"
proof -
  let ?q = "ptr div PAGE_SIZE" and ?a = "ostart x div PAGE_SIZE"
  note pg = object_pages [OF assms(1)]
  show lt: "ptr < 2 ^ 32" using assms by (simp add: span_def wf_obj_def)
  show base: "ptr - ptr mod PAGE_SIZE = ?q * PAGE_SIZE" by (simp only: minus_mod_eq_div_mult)
  show le: "?a \<le> ?q" using assms(2) by (intro div_le_mono) (simp add: span_def)
  then show "0 < ?q" using pg(2) by linarith
  have "ptr < (?a + npages x) * PAGE_SIZE" using assms(2) pg(3) by (simp add: span_def)
  then have "?q < ?a + npages x" by (simp only: div_less_iff_less_mult)
  then show "?q - ?a < npages x" using le pg(2) by linarith
  have "?q * PAGE_SIZE \<le> ptr" by simp
  then have "sz_sub (?q * PAGE_SIZE) (?a * PAGE_SIZE) = ?q * PAGE_SIZE - ?a * PAGE_SIZE"
    using le lt by (intro sz_sub_no_wrap) simp_all
  also have "\<dots> = (?q - ?a) * PAGE_SIZE" by (simp only: diff_mult_distrib)
  finally have "sz_sub (?q * PAGE_SIZE) (ostart x) = (?q - ?a) * PAGE_SIZE" using pg(1) by simp
  then have "sz_sub (ptr - ptr mod PAGE_SIZE) (ostart x) div PAGE_SIZE = ?q - ?a" unfolding base by simp
  moreover have "?q - ?a < 2 ^ 31" using lt by simp
  ultimately show "to_ssize (sz_sub (ptr - ptr mod PAGE_SIZE) (ostart x) div PAGE_SIZE) = int (?q - ?a)" by (simp add: to_ssize_small)
qed

lemma find_unique:
  assumes "pending_ok s self xs us" and "u \<in> set us" and "uobject (the (uobjs s u)) = p"
  shows "find (\<lambda>u. uobject (the (uobjs s u)) = p) us = Some u"
proof (cases "find (\<lambda>u. uobject (the (uobjs s u)) = p) us")
  case None
  then show ?thesis using assms(2,3) by (auto simp: find_None_iff)
next
  case (Some w)
  then show ?thesis using find_first [OF Some] assms unfolding pending_ok_def inj_on_def by auto
qed

lemma page_fault_ok:
  assumes inv: "vm_inv s kernel_address_space xs us (kernel_vm_start s) ARCH_KERNEL_VM_END" and ki: "kinitialized s"
    and x: "owned s kernel_address_space p x" and ptr: "ptr \<in> span x" and u: "u \<in> set us" "uobjs s u = Some uo" "uobject uo = p"
    and k: "k = ptr div PAGE_SIZE - ostart x div PAGE_SIZE" "bm_get (ubitmap uo) k" and m: "wf_mmu (vmmu s)" "tlb_safe (vmmu s)"
    and e: "pt (vmmu s) (ptr div PAGE_SIZE) = Some e" "\<not> bit e 0" and c: "committable (vmmu s) x k"
    and user: "map_option is_user (vspaces s kernel_address_space) = Some user"
  shows "\<exists>s' us'. vmm_page_fault s ptr False was_write was_user = Inr s' \<and> vm_inv s' kernel_address_space xs us' (kernel_vm_start s) ARCH_KERNEL_VM_END \<and>
    vobjs s' = vobjs s \<and> wf_mmu (vmmu s') \<and> tlb_safe (vmmu s') \<and> pagedir (vmmu s') = pagedir (vmmu s) \<and>
    (\<forall>j<PAGES. pt (vmmu s') j = (if j = ptr div PAGE_SIZE then Some (new_pte (commit_frame (vmmu s) x k OR FLAG_P) (oflags x) user) else pt (vmmu s) j)) \<and>
    set us' = (if \<exists>j. j \<noteq> k \<and> bm_get (ubitmap uo) j then set us else set us - {u}) \<and>
    (\<forall>w\<in>set us'. uobjs s' w = (if w = u then Some (uo\<lparr>ubitmap := bm_clear (ubitmap uo) k\<rparr>) else uobjs s w))"
proof -
  let ?K = kernel_address_space and ?q = "ptr div PAGE_SIZE" and ?f = "commit_frame (vmmu s) x k"
  obtain sp where sp: "vspaces s ?K = Some sp" "dll (vnodes s) (uncommited_objects sp) (self_data us)"
      "ranges_ok s ?K (kernel_vm_start s) ARCH_KERNEL_VM_END" "pending_ok s ?K xs us" using vm_invD [OF inv] by blast
  note wx = ranges_wf(1,2,4,7) [OF sp(3) x]
  note pi = page_index_ok [OF wx(3) ptr]
  have us: "is_user sp = user" using user sp(1) by simp
  have u0: "u \<noteq> 0" using dll_self_node [OF sp(2) u(1)] by blast
  have bits: "wf_bitmap (ubitmap uo)" "k < 32 * word_count (ubitmap uo)"
    using sp(4) u k(2) wx(1) by (auto simp: pending_ok_def bits_ok_def bm_get_def)
  have range: "?q * PAGE_SIZE \<in> {kernel_vm_start s..ARCH_KERNEL_VM_END}"
    using wx(4) page_base_in_span [OF wx(3) ptr] unfolding pi(2) by blast
  have "?q < PAGES" using range kernel_vm_end by simp
  have "pt (vmmu s) ?q \<noteq> None" using e by simp
  from commit_map [OF m pi(4) \<open>?q < PAGES\<close> this c, of user] obtain m1 m' where
    m1: "(if ophys x \<noteq> VMM_PHYSADDR_NOMAP then (vmmu s, ophys x + word_of_nat (k * PAGE_SIZE)) else pmm_alloc_page (vmmu s)) = (m1, ?f)" "?f \<noteq> 0"
    and m': "arch_mmu_map m1 (?q * PAGE_SIZE) ?f 1 (oflags x) user = Inr (m', 0)" "wf_mmu m'" "tlb_safe m'" "pagedir m' = pagedir (vmmu s)"
      "\<forall>j<PAGES. pt m' j = (if j = ?q then Some (new_pte (?f OR FLAG_P) (oflags x) user) else pt (vmmu s) j)" by blast
  define s1 where "s1 = s\<lparr>uobjs := (uobjs s)(u \<mapsto> uo\<lparr>ubitmap := bm_clear (ubitmap uo) k\<rparr>)\<rparr>"
  have alloc: "(if ophys x \<noteq> VMM_PHYSADDR_NOMAP then (s1, ophys x + word_of_int (int k) * word_of_nat PAGE_SIZE) else vm_pmm_alloc s1) = (s1\<lparr>vmmu := m1\<rparr>, ?f)"
    using m1(1) by (auto simp: vm_pmm_alloc_def s1_def split: if_splits)
  have "vm_inv s1 ?K xs us (kernel_vm_start s) ARCH_KERNEL_VM_END"
    unfolding s1_def using bits by (intro vm_inv_clear [OF inv u(1,2)]) (simp_all add: bm_get_clear)
  then have inv1: "vm_inv (s1\<lparr>vmmu := m'\<rparr>) ?K xs us (kernel_vm_start s) ARCH_KERNEL_VM_END" by (simp add: vm_inv_mmu)
  obtain r where r: "bitmap_find_first_set_bit (bm_clear (ubitmap uo) k) 0 = Inr r" "r < 0 \<longleftrightarrow> (\<forall>j. \<not> bm_get (bm_clear (ubitmap uo) k) j)"
    using find_first_total [of "bm_clear (ubitmap uo) k"] bits by auto
  have last: "r < 0 \<longleftrightarrow> \<not> (\<exists>j. j \<noteq> k \<and> bm_get (ubitmap uo) j)" using r(2) bits by (simp add: bm_get_clear)
  obtain re where re: "arch_mmu_emulate (vmmu s) ptr (MAP_PROT_READ OR (if was_write then MAP_PROT_WRITE else 0)) was_user = Inr (0, re)" "re \<noteq> 0"
    using emulate_unmapped [OF pi(3) e] by blast
  have find: "find_object_in_uncommited s ?K ptr = Inr u"
    using find_uncommited_ok [OF inv x ptr] find_unique [OF sp(4) u(1), of p] u by simp
  have run: "vmm_page_fault s ptr False was_write was_user =
      (if r < 0 then bind_res (uncommited_remove (s1\<lparr>vmmu := m'\<rparr>) ?K u) (\<lambda>s. Inr (vm_heap_free s u)) else Inr (s1\<lparr>vmmu := m'\<rparr>))"
  proof -
    have pb: "align_ptr_down ptr PAGE_SIZE = Inr (?q * PAGE_SIZE)" by (simp only: align_ptr_down_def pi(2)) simp
    have self: "vmm_get_address_space_of s (?q * PAGE_SIZE) = Inr (s, ?K)"
      using range ki by (simp add: vmm_get_address_space_of_def vmm_get_kernel_address_space_def)
    have idx: "to_ssize (sz_sub (?q * PAGE_SIZE) (ostart x) div PAGE_SIZE) = int k" using pi(1) k(1) unfolding pi(2) by simp
    have bit: "bitmap_is_bit_set (ubitmap uo) (int k) = Inr True" "bitmap_clear_bit (ubitmap uo) (int k) = Inr (bm_clear (ubitmap uo) k)"
      using bitmap_is_bit_set_eq [OF bits] bitmap_clear_bit_eq [OF bits] k(2) by simp_all
    have got: "get_uobj s u = Inr uo" "get_obj s (uobject uo) = Inr x" "get_space (s1\<lparr>vmmu := m1\<rparr>) ?K = Inr sp" "?q * PAGE_SIZE \<noteq> 0" "?K \<noteq> 0"
      using u wx(1) sp(1) pi(4) by (simp_all add: get_uobj_def get_obj_def get_space_def s1_def kernel_address_space_def)
    show ?thesis
      unfolding vmm_page_fault_def pb re(1) bind_res_Inr prod.case self find got(1,2) idx bit Let_def s1_def [symmetric] alloc wx(2)
      using re(2) u0 got(3-5) m1(2) m'(1) us r(1) by simp
  qed
  show ?thesis
  proof (cases "r < 0")
    case False
    then show ?thesis using run inv1 m' last by (intro exI [of _ "s1\<lparr>vmmu := m'\<rparr>"] exI [of _ us]) (simp add: s1_def)
  next
    case True
    obtain s' where s': "bind_res (uncommited_remove (s1\<lparr>vmmu := m'\<rparr>) ?K u) (\<lambda>s. Inr (vm_heap_free s u)) = Inr s'"
        "vm_inv s' ?K xs (remove1 u us) (kernel_vm_start s) ARCH_KERNEL_VM_END" "vobjs s' = vobjs (s1\<lparr>vmmu := m'\<rparr>)"
        "uobjs s' = (uobjs (s1\<lparr>vmmu := m'\<rparr>))(u := None)" "same_rest (s1\<lparr>vmmu := m'\<rparr>) s'"
      using drop_uncommited_ok [OF inv1 u(1)] by blast
    have "distinct us" using sp(2) by (simp add: dll_def)
    then show ?thesis using run True s' m' last by (intro exI [of _ s'] exI [of _ "remove1 u us"]) (auto simp: s1_def same_rest_def)
  qed
qed

subsection \<open>Properties\<close>

text \<open>
  A sample kernel address space of fifteen pages: two are allocated (object 11) and not committed, the rest is free
  (object 10). The page table for them is present and empty.
\<close>

definition sample_vmmu :: mmu where
  "sample_vmmu = \<lparr>cr3 = 0x1000, mem = (\<lambda>f i. if f = 0x1000 \<and> i = 1022 then 0x2003 else 0), tlb = (\<lambda>_. None), frames = [0x3000]\<rparr>"

definition sample_live :: vmm_object where
  "sample_live = \<lparr>ostart = 0xFFBF0000, oend = 0xFFBF1FFF, ospace = kernel_address_space, ophys = VMM_PHYSADDR_NOMAP, oflags = 3\<rparr>"

definition sample_free :: vmm_object where
  "sample_free = \<lparr>ostart = 0xFFBF2000, oend = 0xFFBFEFFF, ospace = kernel_address_space, ophys = VMM_PHYSADDR_NOMAP, oflags = 0\<rparr>"

definition sample_vm :: vmm where
  "sample_vm = \<lparr>vobjs = [10 \<mapsto> sample_free, 11 \<mapsto> sample_live], uobjs = [12 \<mapsto> \<lparr>uobject = 11, ubitmap = \<lparr>words = [3], word_count = 1\<rparr>\<rparr>],
     vnodes = [10 \<mapsto> \<lparr>nnext = 0, nprev = 0, ndata = 10\<rparr>, 11 \<mapsto> null_node, 12 \<mapsto> \<lparr>nnext = 0, nprev = 0, ndata = 12\<rparr>],
     vspaces = [kernel_address_space \<mapsto> \<lparr>object_list = \<lparr>lfront = 10, lback = 10\<rparr>, uncommited_objects = \<lparr>lfront = 12, lback = 12\<rparr>, is_user = False\<rparr>],
     kinitialized = True, kernel_vm_start = 0xFFBF0000, halloc = [20, 21], vmmu = sample_vmmu\<rparr>"

lemma sample_objects: "wf_obj sample_live" "wf_obj sample_free" "npages sample_live = 2" "npages sample_free = 13"
  by (simp_all add: wf_obj_def npages_def sample_live_def sample_free_def)

lemma sample_owned: "owned sample_vm kernel_address_space p x \<longleftrightarrow> p = 10 \<and> x = sample_free \<or> p = 11 \<and> x = sample_live"
  by (auto simp: owned_def sample_vm_def sample_live_def sample_free_def)

lemma sample_bits: "bm_get \<lparr>words = [3], word_count = 1\<rparr> k \<longleftrightarrow> k < 2"
proof -
  have three: "(3 :: u32) = mask 2" by (simp add: mask_eq_exp_minus_1)
  show ?thesis unfolding three by (auto simp: bm_get_def bit_mask_iff)
qed

lemma sample_vm_inv: "vm_inv sample_vm kernel_address_space [10] [12] 0xFFBF0000 ARCH_KERNEL_VM_END"
proof -
  have nodes: "vnodes sample_vm 10 = Some \<lparr>nnext = 0, nprev = 0, ndata = 10\<rparr>" "vnodes sample_vm 11 = Some null_node"
      "vnodes sample_vm 12 = Some \<lparr>nnext = 0, nprev = 0, ndata = 12\<rparr>" "uobjs sample_vm 10 = None" "uobjs sample_vm 11 = None"
      "uobjs sample_vm 12 = Some \<lparr>uobject = 11, ubitmap = \<lparr>words = [3], word_count = 1\<rparr>\<rparr>" "vobjs sample_vm 12 = None"
    by (simp_all add: sample_vm_def)
  have "{x. \<exists>p. owned sample_vm kernel_address_space p x} = {sample_free, sample_live}" by (auto simp: sample_owned)
  then have union: "(\<Union>x\<in>{x. \<exists>p. owned sample_vm kernel_address_space p x}. span x) = {0xFFBF0000..ARCH_KERNEL_VM_END}"
    by (auto simp: span_def sample_free_def sample_live_def kernel_vm_end(1))
  have "span sample_free \<inter> span sample_live = {}" by (auto simp: span_def sample_free_def sample_live_def)
  then have "ranges_ok sample_vm kernel_address_space 0xFFBF0000 ARCH_KERNEL_VM_END"
    unfolding ranges_ok_def union using sample_objects nodes by (auto simp: sample_owned)
  moreover have "pending_ok sample_vm kernel_address_space [10] [12]"
    using nodes sample_bits sample_objects(3) by (auto simp: pending_ok_def sample_owned bits_ok_def wf_bitmap_def)
  moreover have "vspaces sample_vm kernel_address_space = Some \<lparr>object_list = \<lparr>lfront = 10, lback = 10\<rparr>, uncommited_objects = \<lparr>lfront = 12, lback = 12\<rparr>, is_user = False\<rparr>"
    by (simp add: sample_vm_def)
  ultimately show ?thesis using nodes unfolding vm_inv_def by (auto simp: dll_def sample_owned)
qed

text \<open>
  Claim C6. Allocating a range of virtual memory when a free range is large enough returns the new object, whose range
  has exactly the requested number of pages and was free before; it is taken out of the free space and nothing
  else is, the other allocated objects stay as they are, every page of the range is uncommitted, and the
  invariant of the address space is kept: its objects do not overlap and make up the whole address range.
\<close>

theorem vmm_alloc_correct:
  assumes "vm_inv s self xs us lo hi" and "halloc s = a # b # as" "fresh_at s a" "fresh_at s b" "a \<noteq> b"
    and "0 < sz" and "aligned_phys phys" and "\<exists>q\<in>set xs. blocks sz \<le> npages (the (vobjs s q))"
  shows "\<exists>s' x xs' bm. vmm_alloc_object s self phys sz fl = Inr (s', a) \<and> vm_inv s' self xs' (us @ [b]) lo hi \<and>
    vobjs s' a = Some x \<and> a \<notin> set xs' \<and> npages x = blocks sz \<and> ophys x = phys \<and> oflags x = fl \<and>
    span x \<subseteq> free_space s xs \<and> free_space s' xs' = free_space s xs - span x \<and>
    (\<forall>q y. owned s self q y \<and> q \<notin> set xs \<longrightarrow> vobjs s' q = Some y) \<and>
    uobjs s' b = Some \<lparr>uobject = a, ubitmap = bm\<rparr> \<and> (\<forall>k. bm_get bm k \<longleftrightarrow> k < blocks sz) \<and> vmmu s' = vmmu s"
  using alloc_spec [OF assms, of fl] by blast

lemma sample_fresh: "halloc sample_vm = [20, 21]" "fresh_at sample_vm 20" "fresh_at sample_vm 21" "vobjs sample_vm 10 = Some sample_free"
    "vobjs sample_vm 11 = Some sample_live" "vmmu sample_vm = sample_vmmu"
  by (simp_all add: sample_vm_def fresh_at_def)

theorem vmm_alloc_correct_witness:
  "\<exists>s' x xs'. vmm_alloc_object sample_vm kernel_address_space VMM_PHYSADDR_NOMAP 5000 3 = Inr (s', 20) \<and> vobjs s' 20 = Some x \<and>
    npages x = 2 \<and> free_space s' xs' = free_space sample_vm [10] - span x \<and> vobjs s' 11 = Some sample_live"
proof -
  have fit: "\<exists>q\<in>set [10]. blocks 5000 \<le> npages (the (vobjs sample_vm q))" using sample_objects(4) by (simp add: blocks_def sample_fresh)
  have "aligned_phys VMM_PHYSADDR_NOMAP" by (simp add: aligned_phys_def)
  from vmm_alloc_correct [OF sample_vm_inv sample_fresh(1-3) _ _ this fit, of 3] obtain s' x xs' where
    "vmm_alloc_object sample_vm kernel_address_space VMM_PHYSADDR_NOMAP 5000 3 = Inr (s', 20)" "vobjs s' 20 = Some x" "npages x = blocks 5000"
    "free_space s' xs' = free_space sample_vm [10] - span x" "\<forall>q y. owned sample_vm kernel_address_space q y \<and> q \<notin> set [10] \<longrightarrow> vobjs s' q = Some y" by auto
  moreover have "blocks 5000 = 2" by (simp add: blocks_def)
  moreover have "owned sample_vm kernel_address_space 11 sample_live" by (simp add: sample_owned)
  ultimately show ?thesis by (intro exI [of _ s'] exI [of _ x] exI [of _ xs']) simp
qed

text \<open>
  When no free range is large enough, \<open>vmm_alloc_object\<close> does not return the null pointer that its callers test
  for: it frees the new object and returns the pointer to it. When there is no free range at all, an assertion
  fails.
\<close>

lemma vmm_alloc_dangling:
  assumes "vm_inv s self xs us lo hi" and "halloc s = a # b # as" "fresh_at s a" "fresh_at s b"
    and "0 < sz" and "blocks sz \<le> 2 ^ 20" and "aligned_phys phys" and "\<forall>q\<in>set xs. npages (the (vobjs s q)) < blocks sz"
  shows "if xs = [] then vmm_alloc_object s self phys sz fl = Inl Assert_fail
    else \<exists>s'. vmm_alloc_object s self phys sz fl = Inr (s', a) \<and> a \<noteq> 0 \<and> vobjs s' a = None"
proof -
  obtain sp where sp: "vspaces s self = Some sp" "dll (vnodes s) (object_list sp) (self_data xs)"
      "dll (vnodes s) (uncommited_objects sp) (self_data us)" "\<forall>p\<in>set xs. \<exists>x. owned s self p x" "ranges_ok s self lo hi"
    using vm_invD [OF assms(1)] by blast
  have k: "0 < blocks sz" using assms(5) by (simp add: blocks_def div_greater_zero_iff)
  have ab: "a \<noteq> 0" "b \<noteq> 0" using assms(3,4) by (simp_all add: fresh_at_def)
  obtain s1 s2 bm where c: "create_object s self 0 0 phys fl = (s1, a)" "create_uncommited_object s1 a (blocks sz) = Inr (s2, b)"
      "vobjs s2 = (vobjs s)(a \<mapsto> \<lparr>ostart = 0, oend = 0, ospace = self, ophys = phys, oflags = fl\<rparr>)" "vspaces s2 = vspaces s"
      "vnodes s2 = (vnodes s)(a \<mapsto> null_node, b \<mapsto> null_node)"
    using prepare_ok [OF assms(2) ab k assms(6), of self phys fl] by blast
  have own: "\<forall>q\<in>set xs. \<exists>y. vobjs s q = Some y \<and> wf_obj y \<and> q \<noteq> a \<and> q \<noteq> b"
    using sp(4) ranges_wf(1,4) [OF sp(5)] assms(3,4) unfolding fresh_at_def by (metis option.distinct(1))
  have dl: "dll (vnodes s2) (object_list sp) (self_data xs)" using own c(5) by (auto intro!: dll_same [OF sp(2)])
  have xs2: "\<forall>q\<in>set xs. \<exists>y. vobjs s2 q = Some y \<and> wf_obj y" using own c(3) by auto
  have "find (\<lambda>q. blocks sz \<le> npages (the (vobjs s2 q))) xs = None" using assms(8) own c(3) by (auto simp: find_None_iff)
  then have search: "list_search (vnodes s2) (has_min_size s2 (blocks sz)) (object_list sp) = Inr 0"
    using min_size_search [OF dl xs2, of "blocks sz"] by simp
  have "0 < lfront (object_list sp) \<longleftrightarrow> xs \<noteq> []" using dl by (auto simp: neq0_conv [symmetric] simp del: neq0_conv)
  then have take: "take_object_with_min_size s2 self (blocks sz) = (if xs = [] then Inl Assert_fail else Inr (s2, 0))"
    using k sp(1) c(4) search by (simp add: take_object_with_min_size_def get_space_def)
  show ?thesis
    using c(1,2) take assert_phys [OF assms(7)] ab by (simp add: vmm_alloc_object_def blocks_eq vm_heap_free_def)
qed

text \<open>
  Claim C8. Releasing an allocated object puts its range back into the free space, whatever the order of allocations and
  releases was; its pages are unmapped and no other page is, the frames of its committed pages are free again
  (unless the object maps given physical memory), its uncommitted object is gone, and the invariant is kept.
\<close>

theorem vmm_free_correct:
  assumes "vm_inv s self xs us lo hi" and "owned s self p x" "p \<notin> set xs" and "hi < PAGES * PAGE_SIZE"
    and "wf_mmu (vmmu s)" "tlb_safe (vmmu s)" and "ophys x = VMM_PHYSADDR_NOMAP \<Longrightarrow> own_frames (vmmu s) (pages_of x)"
  shows "\<exists>s' xs' us'. vmm_free s p = Inr s' \<and> vm_inv s' self xs' us' lo hi \<and> free_space s' xs' = free_space s xs \<union> span x \<and>
    set us' = {u \<in> set us. uobject (the (uobjs s u)) \<noteq> p} \<and> wf_mmu (vmmu s') \<and> tlb_safe (vmmu s') \<and>
    (\<forall>q<PAGES. pt (vmmu s') q = (if q \<in> pages_of x \<and> (\<exists>f. mapped_at (vmmu s) q f) then Some 0 else pt (vmmu s) q)) \<and>
    set (frames (vmmu s')) = set (frames (vmmu s)) \<union>
      (if ophys x = VMM_PHYSADDR_NOMAP then {f. \<exists>q\<in>pages_of x. mapped_at (vmmu s) q f} else {})"
proof -
  obtain s' xs' us' where r: "vmm_free s p = Inr s'" "vm_inv s' self xs' us' lo hi" "set xs' = insert p (set xs)" "vobjs s' = vobjs s"
    "set us' = {u \<in> set us. uobject (the (uobjs s u)) \<noteq> p}" "released (vmmu s) (vmmu s') (pages_of x) (ophys x)"
    using vm_free_ok [OF assms] by blast
  have "free_space s' xs' = free_space s xs \<union> span x" using r(3,4) assms(2) by (auto simp: free_space_def owned_def)
  then show ?thesis using r unfolding released_def by blast
qed

lemma sample_tables: "present_pd sample_vmmu d \<longleftrightarrow> d = 1022" "pt sample_vmmu q = (if q div 1024 = 1022 then Some 0 else None)"
proof -
  have dir: "pagedir sample_vmmu d = (if d = 1022 then 0x2003 else 0)" for d by (simp add: pagedir_def sample_vmmu_def)
  have "(0x2003 :: u32) AND FLAG_P \<noteq> 0" by (simp add: FLAG_P_def)
  then show p: "present_pd sample_vmmu d \<longleftrightarrow> d = 1022" for d by (auto simp: present_pd_def dir)
  have "mem sample_vmmu (frame_of 0x2003) i = 0" for i by (simp add: sample_vmmu_def frame_of_def)
  then show "pt sample_vmmu q = (if q div 1024 = 1022 then Some 0 else None)" by (simp add: pt_def p dir)
qed

lemma sample_vmmu: "wf_mmu sample_vmmu" "tlb_safe sample_vmmu" "\<not> mapped_at sample_vmmu q f"
proof -
  have f: "cr3 sample_vmmu = 0x1000" "frames sample_vmmu = [0x3000]" "pagedir sample_vmmu 1022 = 0x2003" by (simp_all add: sample_vmmu_def pagedir_def)
  have "frame_of 0x2003 = 0x2000" by (simp add: frame_of_def)
  then show "wf_mmu sample_vmmu" by (simp add: wf_mmu_def sample_tables f page_aligned_iff)
  show "tlb_safe sample_vmmu" by (simp add: tlb_safe_def sample_vmmu_def)
  show "\<not> mapped_at sample_vmmu q f" by (simp add: mapped_at_def sample_tables)
qed

theorem vmm_free_correct_witness:
  "\<exists>s' xs'. vmm_free sample_vm 11 = Inr s' \<and> vm_inv s' kernel_address_space xs' [] 0xFFBF0000 ARCH_KERNEL_VM_END \<and>
    free_space s' xs' = free_space sample_vm [10] \<union> span sample_live"
proof -
  have own: "own_frames (vmmu sample_vm) (pages_of sample_live)" using sample_vmmu(3) by (simp add: own_frames_def sample_fresh)
  have live: "owned sample_vm kernel_address_space 11 sample_live" "11 \<notin> set [10 :: nat]" by (simp_all add: sample_owned)
  have m: "wf_mmu (vmmu sample_vm)" "tlb_safe (vmmu sample_vm)" using sample_vmmu by (simp_all add: sample_fresh)
  obtain s' xs' us' where r: "vmm_free sample_vm 11 = Inr s'" "vm_inv s' kernel_address_space xs' us' 0xFFBF0000 ARCH_KERNEL_VM_END"
    "free_space s' xs' = free_space sample_vm [10] \<union> span sample_live" "set us' = {u \<in> set [12]. uobject (the (uobjs sample_vm u)) \<noteq> 11}"
    using vmm_free_correct [OF sample_vm_inv live kernel_vm_end(2) m own] by blast
  have "uobject (the (uobjs sample_vm 12)) = 11" by (simp add: sample_vm_def)
  then have "set us' = {}" unfolding r(4) by simp
  then show ?thesis using r(1-3) by auto
qed

text \<open>
  Claim C2. A fault on an uncommitted page of an allocated object is served: the page is mapped, to the next free frame or to
  its place in the given physical range, no other page changes, its bit is cleared (and the uncommitted object
  dropped with its last bit), and the access that faulted succeeds when it is repeated, provided the
  object's protection and the directory entry allow it.
\<close>

theorem page_fault_commits:
  assumes "vm_inv s kernel_address_space xs us (kernel_vm_start s) ARCH_KERNEL_VM_END" and "kinitialized s"
    and "owned s kernel_address_space p x" and "ptr \<in> span x" and "u \<in> set us" "uobjs s u = Some uo" "uobject uo = p"
    and "k = ptr div PAGE_SIZE - ostart x div PAGE_SIZE" "bm_get (ubitmap uo) k" and "wf_mmu (vmmu s)" "tlb_safe (vmmu s)"
    and "pt (vmmu s) (ptr div PAGE_SIZE) = Some e" "\<not> bit e 0" and "committable (vmmu s) x k"
    and "map_option is_user (vspaces s kernel_address_space) = Some user"
    and "was_write \<Longrightarrow> oflags x AND MAP_PROT_WRITE \<noteq> 0 \<and> bit (pagedir (vmmu s) (pde_index ptr)) 1"
    and "was_user \<Longrightarrow> user \<and> bit (pagedir (vmmu s) (pde_index ptr)) 2"
  shows "\<exists>s' us'. vmm_page_fault s ptr False was_write was_user = Inr s' \<and>
    vm_inv s' kernel_address_space xs us' (kernel_vm_start s) ARCH_KERNEL_VM_END \<and> wf_mmu (vmmu s') \<and> tlb_safe (vmmu s') \<and>
    arch_mmu_emulate (vmmu s') ptr (MAP_PROT_READ OR (if was_write then MAP_PROT_WRITE else 0)) was_user = Inr (commit_frame (vmmu s) x k, 0) \<and>
    (\<forall>q<PAGES. q \<noteq> ptr div PAGE_SIZE \<longrightarrow> pt (vmmu s') q = pt (vmmu s) q) \<and>
    (if \<exists>j. j \<noteq> k \<and> bm_get (ubitmap uo) j
     then set us' = set us \<and> (\<exists>bm. uobjs s' u = Some (uo\<lparr>ubitmap := bm\<rparr>) \<and> (\<forall>j. bm_get bm j \<longleftrightarrow> j \<noteq> k \<and> bm_get (ubitmap uo) j))
     else set us' = set us - {u})"
proof -
  let ?e = "new_pte (commit_frame (vmmu s) x k OR FLAG_P) (oflags x) user"
  obtain s' us' where r: "vmm_page_fault s ptr False was_write was_user = Inr s'" "vm_inv s' kernel_address_space xs us' (kernel_vm_start s) ARCH_KERNEL_VM_END"
      "wf_mmu (vmmu s')" "tlb_safe (vmmu s')" "pagedir (vmmu s') = pagedir (vmmu s)"
      "\<forall>j<PAGES. pt (vmmu s') j = (if j = ptr div PAGE_SIZE then Some ?e else pt (vmmu s) j)"
      "set us' = (if \<exists>j. j \<noteq> k \<and> bm_get (ubitmap uo) j then set us else set us - {u})"
      "\<forall>w\<in>set us'. uobjs s' w = (if w = u then Some (uo\<lparr>ubitmap := bm_clear (ubitmap uo) k\<rparr>) else uobjs s w)"
    using page_fault_ok [OF assms(1-15), of was_write was_user] by blast
  obtain sp where sp: "vspaces s kernel_address_space = Some sp" "ranges_ok s kernel_address_space (kernel_vm_start s) ARCH_KERNEL_VM_END"
      "pending_ok s kernel_address_space xs us" using vm_invD [OF assms(1)] by blast
  note wx = ranges_wf(1,4,7) [OF sp(2) assms(3)]
  have ptr: "ptr < 2 ^ 32" by (rule page_index_ok(3) [OF wx(2) assms(4)])
  have "ptr \<le> ARCH_KERNEL_VM_END" using wx(3) assms(4) by auto
  then have "ptr div PAGE_SIZE < PAGES" by (simp add: kernel_vm_end(1))
  then have e: "pt (vmmu s') (ptr div PAGE_SIZE) = Some ?e" using r(6) by simp
  have w: "(MAP_PROT_READ OR (if was_write then MAP_PROT_WRITE else 0)) AND MAP_PROT_WRITE \<noteq> 0 \<longleftrightarrow> was_write"
    by (simp add: MAP_PROT_READ_def MAP_PROT_WRITE_def)
  have bits: "bit ?e 0" "oflags x AND MAP_PROT_WRITE \<noteq> 0 \<Longrightarrow> bit ?e 1" "user \<Longrightarrow> bit ?e 2" by (simp_all add: bit_new_pte bit_or_iff bit_flags)
  have "frame_of ?e = commit_frame (vmmu s) x k" using assms(14) by (simp add: frame_new_pte frame_base committable_def)
  moreover have "arch_mmu_emulate (vmmu s') ptr (MAP_PROT_READ OR (if was_write then MAP_PROT_WRITE else 0)) was_user = Inr (frame_of ?e, 0)"
    by (rule emulate_mapped [OF ptr e bits(1)]) (use w bits assms(16,17) r(5) in auto)
  moreover have "bm_get (bm_clear (ubitmap uo) k) j \<longleftrightarrow> j \<noteq> k \<and> bm_get (ubitmap uo) j" for j
    using sp(3) assms(5-9) wx(1) by (intro bm_get_clear) (auto simp: pending_ok_def bits_ok_def bm_get_def)
  ultimately show ?thesis using r(1-4,6-8) assms(5)
    by (intro exI [of _ s'] exI [of _ us'] conjI) (auto split: if_splits)
qed

theorem page_fault_commits_witness:
  "\<exists>s'. vmm_page_fault sample_vm 0xFFBF1004 False True False = Inr s' \<and>
    arch_mmu_emulate (vmmu s') 0xFFBF1004 (MAP_PROT_READ OR MAP_PROT_WRITE) False = Inr (0x3000, 0)"
proof -
  have inv: "vm_inv sample_vm kernel_address_space [10] [12] (kernel_vm_start sample_vm) ARCH_KERNEL_VM_END"
    using sample_vm_inv by (simp add: sample_vm_def)
  have ki: "kinitialized sample_vm" "uobjs sample_vm 12 = Some \<lparr>uobject = 11, ubitmap = \<lparr>words = [3], word_count = 1\<rparr>\<rparr>"
      "map_option is_user (vspaces sample_vm kernel_address_space) = Some False" by (simp_all add: sample_vm_def)
  have live: "owned sample_vm kernel_address_space 11 sample_live" "0xFFBF1004 \<in> span sample_live" "oflags sample_live = 3"
    by (simp_all add: sample_owned span_def sample_live_def)
  have k: "(1 :: nat) = 0xFFBF1004 div PAGE_SIZE - ostart sample_live div PAGE_SIZE" by (simp add: sample_live_def)
  have m: "wf_mmu (vmmu sample_vm)" "tlb_safe (vmmu sample_vm)" "pt (vmmu sample_vm) (0xFFBF1004 div PAGE_SIZE) = Some 0"
    using sample_vmmu by (simp_all add: sample_fresh sample_tables)
  have f: "commit_frame (vmmu sample_vm) sample_live 1 = 0x3000" by (simp add: commit_frame_def sample_fresh sample_vmmu_def sample_live_def)
  have c: "committable (vmmu sample_vm) sample_live 1"
    unfolding committable_def f by (simp add: page_aligned_iff addr_valid_def live(3) MAP_PROT_READ_def) (simp add: sample_fresh sample_vmmu_def)
  have "pde_index 0xFFBF1004 = 1022" by (simp add: pde_index_div)
  then have d: "oflags sample_live AND MAP_PROT_WRITE \<noteq> 0 \<and> bit (pagedir (vmmu sample_vm) (pde_index 0xFFBF1004)) 1"
    using flag_bits(2) [of "0x2003"] by (simp add: live(3) MAP_PROT_WRITE_def sample_fresh sample_vmmu_def pagedir_def FLAG_RW_def)
  have b: "bm_get \<lparr>words = [3], word_count = 1\<rparr> 1" unfolding sample_bits by simp
  show ?thesis
    using page_fault_commits [where was_write = True and was_user = False, OF inv ki(1) live(1,2) _ ki(2) _ k _ m _ c ki(3)] d b f by auto
qed

text \<open>The heap hands out no pointer to an object that is in use.\<close>

definition heap_apart :: "vmm \<Rightarrow> nat list \<Rightarrow> bool" where
  "heap_apart s xs \<longleftrightarrow> set (halloc s) \<inter> set xs = {}"

definition keeps :: "vmm \<Rightarrow> vmm \<Rightarrow> nat \<Rightarrow> bool" where
  "keeps s s' r \<longleftrightarrow> r \<in> insert 0 (set (halloc s)) \<and> set (halloc s') \<subseteq> set (halloc s) \<and> vspaces s' = vspaces s \<and>
     (\<forall>q. q \<notin> set (halloc s) \<longrightarrow> vobjs s' q = vobjs s q \<and> vnodes s' q = vnodes s q)"

lemma create_object_keeps:
  assumes "create_object s self st en phys fl = (s', r)"
  shows "keeps s s' r"
  using assms by (auto simp: create_object_def vm_heap_alloc_def keeps_def split: list.splits if_splits)

lemma create_uncommited_keeps:
  assumes "n \<le> 2 ^ 20"
  shows "\<exists>s' u. create_uncommited_object s p n = Inr (s', u) \<and> keeps s s' u"
proof -
  define w where "w = (n + 32 - 1) div 32"
  have wc: "bitmap_needed_word_count n = Inr w"
    by (simp add: bitmap_needed_word_count_def BITS_PER_WORD_def size_to_blocks_value w_def)
  have "w \<le> (2 ^ 20 + 32 - 1) div 32" unfolding w_def using assms by (intro div_le_mono diff_le_mono add_le_mono) simp_all
  then have wf: "wf_bitmap \<lparr>words = replicate w 0, word_count = w\<rparr>" by (simp add: wf_bitmap_def)
  have lt: "0 + n < 2 ^ 32" using assms by simp
  obtain bm where "bitmap_set_bits \<lparr>words = replicate w 0, word_count = w\<rparr> 0 n = Inr bm"
    using range_update_spec [OF or_mask_bit wf lt] by (cases "n = 0") (auto simp: bitmap_set_bits_def)
  then show ?thesis using wc by (cases "halloc s") (auto simp: create_uncommited_object_def vm_heap_alloc_def keeps_def)
qed

text \<open>
  Putting back the part of a free range before an address that is not page aligned fails an assertion.
\<close>

lemma put_back_unaligned:
  assumes "vobjs s p = Some x" and "ostart x mod PAGE_SIZE = 0" and "oend x + 1 = v" and "ostart x \<le> v" and "v mod PAGE_SIZE \<noteq> 0" and "v < 2 ^ 32"
  shows "put_back s self p = Inl Assert_fail"
proof -
  have le: "ostart x \<le> oend x" using assms(2-5) by (metis Suc_eq_plus1 le_Suc_eq)
  have "oend x - ostart x + 1 \<le> oend x + 1" by simp
  also have "\<dots> < 2 ^ 32" using assms(3,6) by simp
  finally have "sz_add (oend x - ostart x) 1 = v - ostart x" using le assms(3) by (simp add: sz_add_no_wrap Suc_diff_le)
  then have "vmm_get_object_size x = v - ostart x"
    using le assms(3,6) by (simp add: vmm_get_object_size_def sz_sub_no_wrap)
  moreover have "(v - ostart x) mod PAGE_SIZE \<noteq> 0"
    using assms(2,4,5) by (metis dvd_diffD dvd_imp_mod_0 mod_0_imp_dvd)
  ultimately show ?thesis using assms(1) le by (simp add: put_back_def get_obj_def add_object_to_address_space_def is_aligned_def)
qed

lemma take_including_ok:
  assumes "vspaces s self = Some sp" and "dll (vnodes s) (object_list sp) (self_data xs)" and "\<forall>q\<in>set xs. \<exists>y. vobjs s q = Some y"
  shows "take_object_including s self st en = Inl Assert_fail \<or>
    (\<exists>q. take_object_including s self st en = Inr q \<and> (q \<noteq> 0 \<longrightarrow> q \<in> set xs \<and> ostart (the (vobjs s q)) \<le> st))"
proof -
  define P where "P e q = (\<not> (st < ostart (the (vobjs s q)) \<or> oend (the (vobjs s q)) < st \<or> e < ostart (the (vobjs s q)) \<or> oend (the (vobjs s q)) < e))" for e q
  have "range_included s st e q = Inr (P e q)" if q: "q \<in> set xs" for e q
    using assms(3) dll_self_node [OF assms(2) q] q by (auto simp: range_included_def get_obj_def P_def)
  then have search: "list_search (vnodes s) (range_included s st e) (object_list sp) = Inr (case find (P e) xs of None \<Rightarrow> 0 | Some q \<Rightarrow> q)" for e
    by (intro list_search_dll [OF assms(2)]) blast
  have node: "bind_res (get_node (vnodes s) q) (\<lambda>n. Inr (ndata n)) = Inr q" if "q \<in> set xs" for q
    using dll_self_node [OF assms(2) that] by auto
  show ?thesis
    unfolding take_object_including_def Let_def size_to_blocks_def using assms(1) search node
    by (auto simp: get_space_def assert_res_def P_def dest!: find_first split: option.splits)
qed

lemma keeps_list:
  assumes "keeps s s' r" and "heap_apart s xs"
  shows "heap_apart s' xs" "r \<notin> set xs - {0}" "\<And>q. q \<in> set xs \<Longrightarrow> vobjs s' q = vobjs s q \<and> vnodes s' q = vnodes s q" "vspaces s' = vspaces s"
  using assms by (auto simp: keeps_def heap_apart_def)

text \<open>
  \<open>vmm_alloc_object_at\<close> never gives out memory. A page-aligned address fails the assertion that it must not be
  aligned; any other address inside a free range leaves a range of part of a page, which fails the
  assertion of \<open>add_object_to_address_space\<close>; in all other cases the result is null.
\<close>

lemma vmm_alloc_at_never_allocates:
  assumes inv: "vm_inv s self xs us lo hi" and heap: "heap_apart s xs" and v: "v < 2 ^ 32" and ph: "aligned_phys phys"
  shows "vmm_alloc_object_at s self v phys sz fl = Inl Assert_fail \<or> (\<exists>s'. vmm_alloc_object_at s self v phys sz fl = Inr (s', 0))"
proof (cases "v = 0 \<or> v mod PAGE_SIZE = 0 \<or> size_max div PAGE_SIZE < blocks sz \<or> 2 ^ 32 - 1 - v < sz_mul PAGE_SIZE (blocks sz)")
  case True
  then show ?thesis using assert_phys [OF ph]
    by (cases "v = 0"; cases "v mod PAGE_SIZE = 0") (auto simp: vmm_alloc_object_at_def blocks_eq is_aligned_def Let_def)
next
  case False
  obtain sp where sp: "vspaces s self = Some sp" "dll (vnodes s) (object_list sp) (self_data xs)" "dll (vnodes s) (uncommited_objects sp) (self_data us)"
      "\<forall>p\<in>set xs. \<exists>x. owned s self p x" "ranges_ok s self lo hi" using vm_invD [OF inv] by blast
  have k: "blocks sz \<le> 2 ^ 20" using False by (simp add: size_max_def)
  obtain s1 new where c1: "create_object s self 0 0 phys fl = (s1, new)" by fastforce
  obtain s2 right where c2: "create_object s1 self 0 0 VMM_PHYSADDR_NOMAP 0 = (s2, right)" by fastforce
  obtain s3 u where c3: "create_uncommited_object s2 new (blocks sz) = Inr (s3, u)" "keeps s2 s3 u" using create_uncommited_keeps [OF k] by blast
  note k1 = keeps_list [OF create_object_keeps [OF c1] heap]
  note k2 = keeps_list [OF create_object_keeps [OF c2] k1(1)]
  note k3 = keeps_list [OF c3(2) k2(1)]
  have same: "vobjs s3 q = vobjs s q \<and> vnodes s3 q = vnodes s q" if "q \<in> set xs" for q using k1(3) k2(3) k3(3) that by simp
  have sp3: "vspaces s3 self = Some sp" "dll (vnodes s3) (object_list sp) (self_data xs)" "\<forall>q\<in>set xs. \<exists>y. vobjs s3 q = Some y"
    using sp same k1(4) k2(4) k3(4) by (auto intro!: dll_same [OF sp(2)] simp: owned_def)
  let ?en = "sz_sub (sz_add v (sz_mul PAGE_SIZE (blocks sz))) 1"
  define l where "l = (if new = 0 \<or> right = 0 \<or> u = 0 then Inr 0 else take_object_including s3 self v ?en)"
  have "l = Inl Assert_fail \<or> (\<exists>q. l = Inr q \<and> (q \<noteq> 0 \<longrightarrow> new \<noteq> 0 \<and> right \<noteq> 0 \<and> q \<in> set xs \<and> ostart (the (vobjs s3 q)) \<le> v))"
    using take_including_ok [OF sp3, of v ?en] unfolding l_def by auto
  then consider "l = Inl Assert_fail" | "l = Inr 0"
    | q where "l = Inr q" "q \<noteq> 0" "new \<noteq> 0" "right \<noteq> 0" "q \<in> set xs" "ostart (the (vobjs s3 q)) \<le> v" by blast
  moreover have run: "vmm_alloc_object_at s self v phys sz fl = bind_res l (\<lambda>lobject.
      if lobject = 0 then Inr (vm_heap_free (vm_heap_free (vm_heap_free s3 u) new) right, 0)
      else bind_res (get_obj s3 lobject) (\<lambda>x.
        let s = set_obj s3 new \<lparr>ostart = v, oend = sz_sub (sz_add v (sz_mul (blocks sz) PAGE_SIZE)) 1, ospace = self, ophys = phys, oflags = fl\<rparr>;
            s = set_obj s lobject (x\<lparr>oend := sz_sub v 1\<rparr>);
            s = set_obj s right \<lparr>ostart = sz_add v (sz_mul (blocks sz) PAGE_SIZE), oend = oend x, ospace = self, ophys = VMM_PHYSADDR_NOMAP, oflags = 0\<rparr> in
        bind_res (put_back s self lobject) (\<lambda>s. bind_res (put_back s self right) (\<lambda>s. bind_res (uncommited_insert_back s self u) (\<lambda>s. Inr (s, new))))))"
    using False assert_phys [OF ph] unfolding l_def vmm_alloc_object_at_def Let_def by (simp add: blocks_eq is_aligned_def c1 c2 c3(1))
  ultimately show ?thesis
  proof cases
    case 1
    then show ?thesis using run by simp
  next
    case 2
    then show ?thesis using run by simp
  next
    case 3
    obtain x where x: "owned s self q x" using sp(4) 3(5) by blast
    have wx: "vobjs s3 q = Some x" "ostart x mod PAGE_SIZE = 0" using ranges_wf(1,4) [OF sp(5) x] same [OF 3(5)] by (simp_all add: wf_obj_def)
    have ne: "right \<noteq> q" using k2(2) 3(2,5) by blast
    have v1: "sz_sub v 1 = v - 1" "0 < v" using False v by (simp_all add: sz_sub_no_wrap)
    have "put_back (set_obj (set_obj (set_obj s3 new n) q (x\<lparr>oend := sz_sub v 1\<rparr>)) right r) self q = Inl Assert_fail" for n r
      by (rule put_back_unaligned [where x = "x\<lparr>oend := sz_sub v 1\<rparr>" and v = v])
        (use ne wx v v1 False 3(6) in \<open>simp_all add: set_obj_def\<close>)
    then show ?thesis using run 3(1,2) wx(1) by (simp add: Let_def get_obj_def)
  qed
qed

subsection \<open>The interface of the range allocator\<close>

text \<open>
  What a client of the manager relies on: an allocated range was free and stays the client's until it is
  released; releasing makes it free again. \<open>holds s p R\<close>: the object \<open>p\<close> is allocated and has the range \<open>R\<close>.
\<close>

locale range_allocator =
  fixes inv :: "'s \<Rightarrow> bool"
    and free :: "'s \<Rightarrow> nat set"
    and holds :: "'s \<Rightarrow> nat \<Rightarrow> nat set \<Rightarrow> bool"
    and can :: "'s \<Rightarrow> nat \<Rightarrow> bool"
    and grab :: "'s \<Rightarrow> nat \<Rightarrow> ('s \<times> nat) res"
    and release :: "'s \<Rightarrow> nat \<Rightarrow> 's res"
  assumes grab: "inv s \<Longrightarrow> can s n \<Longrightarrow> \<exists>s' p R. grab s n = Inr (s', p) \<and> inv s' \<and> holds s' p R \<and> R \<subseteq> free s \<and>
      free s' = free s - R \<and> (\<forall>q S. holds s q S \<longrightarrow> holds s' q S)"
    and release: "inv s \<Longrightarrow> holds s p R \<Longrightarrow> \<exists>s'. release s p = Inr s' \<and> inv s' \<and> free s' = free s \<union> R \<and>
      (\<forall>q S. q \<noteq> p \<and> holds s q S \<longrightarrow> holds s' q S)"
    and apart: "inv s \<Longrightarrow> holds s p R \<Longrightarrow> R \<inter> free s = {}"
begin

lemma grab_release:
  assumes "inv s" and "can s n"
  shows "\<exists>s' p s''. grab s n = Inr (s', p) \<and> release s' p = Inr s'' \<and> inv s'' \<and> free s'' = free s"
proof -
  obtain s' p R where r: "grab s n = Inr (s', p)" "inv s'" "holds s' p R" "R \<subseteq> free s" "free s' = free s - R"
    using grab [OF assms] by blast
  moreover obtain s'' where "release s' p = Inr s''" "inv s''" "free s'' = free s' \<union> R" using release [OF r(2,3)] by blast
  ultimately show ?thesis by (metis Diff_partition Un_commute)
qed

lemma grab_twice_disjoint:
  assumes "inv s" and "grab s n = Inr (s', p)" and "can s n" and "can s' k"
  shows "\<exists>R s'' q S. holds s' p R \<and> grab s' k = Inr (s'', q) \<and> inv s'' \<and> holds s'' p R \<and> holds s'' q S \<and> R \<inter> S = {}"
proof -
  obtain R where r: "inv s'" "holds s' p R" "free s' = free s - R" using grab [OF assms(1,3)] assms(2) by auto
  obtain s'' q S where g: "grab s' k = Inr (s'', q)" "inv s''" "holds s'' q S" "S \<subseteq> free s'" "\<forall>q S. holds s' q S \<longrightarrow> holds s'' q S"
    using grab [OF r(1) assms(4)] by blast
  then show ?thesis using r by (intro exI [of _ R] exI [of _ s''] exI [of _ q] exI [of _ S]) auto
qed

end

text \<open>The free list of an address space, and the manager's state between calls: anonymous memory only, mapped pages have frames of their own.\<close>

definition free_list :: "vmm \<Rightarrow> nat \<Rightarrow> nat list" where
  "free_list s self = (case vspaces s self of None \<Rightarrow> [] | Some sp \<Rightarrow> (case list_foreach (vnodes s) (lfront (object_list sp)) of None \<Rightarrow> [] | Some ps \<Rightarrow> ps))"

lemma free_list_inv: "vm_inv s self xs us lo hi \<Longrightarrow> free_list s self = xs"
  using foreach_self by (auto simp: vm_inv_def free_list_def)

definition vm_ready :: "nat \<Rightarrow> nat \<Rightarrow> nat \<Rightarrow> vmm \<Rightarrow> bool" where
  "vm_ready self lo hi s \<longleftrightarrow> (\<exists>us. vm_inv s self (free_list s self) us lo hi) \<and> hi < PAGES * PAGE_SIZE \<and> wf_mmu (vmmu s) \<and> tlb_safe (vmmu s) \<and>
     (\<forall>p x. owned s self p x \<longrightarrow> ophys x = VMM_PHYSADDR_NOMAP) \<and> own_frames (vmmu s) {lo div PAGE_SIZE..hi div PAGE_SIZE}"

definition holds_range :: "nat \<Rightarrow> vmm \<Rightarrow> nat \<Rightarrow> nat set \<Rightarrow> bool" where
  "holds_range self s p R \<longleftrightarrow> (\<exists>x. owned s self p x \<and> p \<notin> set (free_list s self) \<and> R = span x)"

definition can_alloc :: "nat \<Rightarrow> vmm \<Rightarrow> nat \<Rightarrow> bool" where
  "can_alloc self s n \<longleftrightarrow> 0 < n \<and> (\<exists>a b as. halloc s = a # b # as \<and> fresh_at s a \<and> fresh_at s b \<and> a \<noteq> b) \<and>
     (\<exists>q\<in>set (free_list s self). blocks n \<le> npages (the (vobjs s q)))"

lemma ready_pages:
  assumes "ranges_ok s self lo hi" and "owned s self p x"
  shows "pages_of x \<subseteq> {lo div PAGE_SIZE..hi div PAGE_SIZE}"
proof -
  note w = ranges_wf(4,7) [OF assms]
  have "ostart x \<in> span x" "oend x \<in> span x" using w(1) by (simp_all add: span_def wf_obj_def)
  then have "lo \<le> ostart x" "oend x \<le> hi" using w(2) by auto
  then have "lo div PAGE_SIZE \<le> ostart x div PAGE_SIZE" "oend x div PAGE_SIZE \<le> hi div PAGE_SIZE" by (simp_all add: div_le_mono)
  moreover have "oend x div PAGE_SIZE + 1 = ostart x div PAGE_SIZE + npages x"
  proof -
    have "oend x = (ostart x div PAGE_SIZE + npages x - 1) * PAGE_SIZE + (PAGE_SIZE - 1)"
      using object_pages(2,3) [OF w(1)] by (simp add: diff_mult_distrib)
    then have "oend x div PAGE_SIZE = ostart x div PAGE_SIZE + npages x - 1" by (simp add: div_mult_self3)
    then show ?thesis using object_pages(2) [OF w(1)] by simp
  qed
  ultimately show ?thesis unfolding pages_of_def by auto
qed

lemma own_frames_subset: "own_frames m Q \<Longrightarrow> Q' \<subseteq> Q \<Longrightarrow> own_frames m Q'"
  unfolding own_frames_def by (meson subsetD)

lemma own_frames_released:
  assumes "own_frames m Q" and "released m m' P VMM_PHYSADDR_NOMAP" and "P \<subseteq> Q" and "Q \<subseteq> {..<PAGES}"
  shows "own_frames m' Q"
proof -
  have same: "mapped_at m' j f \<longleftrightarrow> j \<notin> P \<and> mapped_at m j f" if "j \<in> Q" for j f
  proof -
    have "j < PAGES" using that assms(4) by blast
    then have "pt m' j = (if j \<in> P \<and> (\<exists>f. mapped_at m j f) then Some 0 else pt m j)" using assms(2) by (simp add: released_def)
    then show ?thesis by (auto simp: mapped_at_def)
  qed
  have "in_use m' f" if "j \<in> Q" "j \<notin> P" "mapped_at m j f" for j f
  proof -
    have "in_use m f" "\<And>q. q \<in> P \<Longrightarrow> \<not> mapped_at m q f" using assms(1,3) that unfolding own_frames_def by blast+
    then show ?thesis using assms(2) by (auto simp: released_def in_use_def)
  qed
  then show ?thesis using assms(1) same unfolding own_frames_def by meson
qed

lemma ready_alloc:
  assumes rdy: "vm_ready self lo hi s" and can: "can_alloc self s n"
  shows "\<exists>s' p R. vmm_alloc s self n fl = Inr (s', p) \<and> vm_ready self lo hi s' \<and> holds_range self s' p R \<and> R \<subseteq> free_space s (free_list s self) \<and>
    free_space s' (free_list s' self) = free_space s (free_list s self) - R \<and> (\<forall>q S. holds_range self s q S \<longrightarrow> holds_range self s' q S)"
proof -
  obtain us where inv: "vm_inv s self (free_list s self) us lo hi" and m: "hi < PAGES * PAGE_SIZE" "wf_mmu (vmmu s)" "tlb_safe (vmmu s)"
      "\<forall>p x. owned s self p x \<longrightarrow> ophys x = VMM_PHYSADDR_NOMAP" "own_frames (vmmu s) {lo div PAGE_SIZE..hi div PAGE_SIZE}"
    using rdy unfolding vm_ready_def by blast
  obtain a b as where h: "halloc s = a # b # as" "fresh_at s a" "fresh_at s b" "a \<noteq> b" "0 < n"
      "\<exists>q\<in>set (free_list s self). blocks n \<le> npages (the (vobjs s q))" using can unfolding can_alloc_def by blast
  have ph: "aligned_phys VMM_PHYSADDR_NOMAP" by (simp add: aligned_phys_def)
  obtain s' x xs' where r: "vmm_alloc_object s self VMM_PHYSADDR_NOMAP n fl = Inr (s', a)" "vm_inv s' self xs' (us @ [b]) lo hi" "vobjs s' a = Some x"
      "a \<notin> set xs'" "ophys x = VMM_PHYSADDR_NOMAP" "span x \<subseteq> free_space s (free_list s self)"
      "free_space s' xs' = free_space s (free_list s self) - span x" "\<forall>q y. owned s self q y \<and> q \<notin> set (free_list s self) \<longrightarrow> vobjs s' q = Some y"
      "vmmu s' = vmmu s" "\<forall>q y. owned s' self q y \<longrightarrow> q = a \<or> (\<exists>z. owned s self q z \<and> ophys y = ophys z)" "set xs' \<subseteq> set (free_list s self)" "ospace x = self"
    using alloc_spec [OF inv h(1-5) ph h(6), of fl] by blast
  have xs': "free_list s' self = xs'" by (rule free_list_inv [OF r(2)])
  have "vm_ready self lo hi s'" unfolding vm_ready_def xs' r(9) using r(2,3,5,10) m by (metis option.inject owned_def)
  moreover have "holds_range self s' a (span x)" unfolding holds_range_def xs' using r(3,4,12) by (auto simp: owned_def)
  moreover have "holds_range self s' q S" if "holds_range self s q S" for q S
    using that r(8,11) unfolding holds_range_def xs' by (auto simp: owned_def)
  ultimately show ?thesis using r(1,6,7) xs' by (intro exI [of _ s'] exI [of _ a] exI [of _ "span x"]) (simp add: vmm_alloc_def)
qed

lemma ready_free:
  assumes rdy: "vm_ready self lo hi s" and hold: "holds_range self s p R"
  shows "\<exists>s'. vmm_free s p = Inr s' \<and> vm_ready self lo hi s' \<and> free_space s' (free_list s' self) = free_space s (free_list s self) \<union> R \<and>
    (\<forall>q S. q \<noteq> p \<and> holds_range self s q S \<longrightarrow> holds_range self s' q S)"
proof -
  obtain us where inv: "vm_inv s self (free_list s self) us lo hi" and m: "hi < PAGES * PAGE_SIZE" "wf_mmu (vmmu s)" "tlb_safe (vmmu s)"
      "\<forall>p x. owned s self p x \<longrightarrow> ophys x = VMM_PHYSADDR_NOMAP" "own_frames (vmmu s) {lo div PAGE_SIZE..hi div PAGE_SIZE}"
    using rdy unfolding vm_ready_def by blast
  obtain x where x: "owned s self p x" "p \<notin> set (free_list s self)" "R = span x" using hold unfolding holds_range_def by blast
  have rg: "ranges_ok s self lo hi" using inv by (simp add: vm_inv_def)
  have nomap: "ophys x = VMM_PHYSADDR_NOMAP" using m(4) x(1) by blast
  have own: "own_frames (vmmu s) (pages_of x)" by (rule own_frames_subset [OF m(5) ready_pages [OF rg x(1)]])
  obtain s' xs' us' where r: "vmm_free s p = Inr s'" "vm_inv s' self xs' us' lo hi" "set xs' = insert p (set (free_list s self))" "vobjs s' = vobjs s"
      "released (vmmu s) (vmmu s') (pages_of x) (ophys x)"
    using vm_free_ok [OF inv x(1,2) m(1-3) own] by blast
  have xs': "free_list s' self = xs'" by (rule free_list_inv [OF r(2)])
  have owned: "owned s' self = owned s self" by (simp add: owned_def r(4) fun_eq_iff)
  have "hi div PAGE_SIZE < PAGES" using m(1) by (simp only: div_less_iff_less_mult)
  then have "own_frames (vmmu s') {lo div PAGE_SIZE..hi div PAGE_SIZE}"
    by (intro own_frames_released [OF m(5) r(5) [unfolded nomap] ready_pages [OF rg x(1)]]) auto
  then have "vm_ready self lo hi s'" using r(2,5) m(1,4) unfolding vm_ready_def xs' owned released_def by blast
  moreover have "free_space s' xs' = free_space s (free_list s self) \<union> R" using r(3,4) x(1,3) by (auto simp: free_space_def owned_def)
  ultimately show ?thesis using r(1,3) by (intro exI [of _ s']) (auto simp: holds_range_def owned xs')
qed

interpretation vmem: range_allocator "vm_ready self lo hi" "\<lambda>s. free_space s (free_list s self)" "holds_range self" "can_alloc self"
  "\<lambda>s n. vmm_alloc s self n fl" vmm_free for self lo hi fl
proof unfold_locales
  fix s p R assume rdy: "vm_ready self lo hi s" and hold: "holds_range self s p R"
  then obtain us x where inv: "vm_inv s self (free_list s self) us lo hi" and x: "owned s self p x" "p \<notin> set (free_list s self)" "R = span x"
    unfolding vm_ready_def holds_range_def by blast
  have own: "\<forall>q\<in>set (free_list s self). \<exists>y. owned s self q y" "ranges_ok s self lo hi" using inv unfolding vm_inv_def by blast+
  have "span (the (vobjs s q)) \<inter> span x = {}" if q: "q \<in> set (free_list s self)" for q
  proof -
    obtain y where y: "owned s self q y" using own(1) q by blast
    have "q \<noteq> p" using q x(2) by blast
    then show ?thesis using ranges_disjoint [OF own(2) y x(1)] y by (simp add: owned_def)
  qed
  then show "R \<inter> free_space s (free_list s self) = {}" unfolding free_space_def x(3) by blast
qed (use ready_alloc ready_free in blast)+

text \<open>
  Claim C30. Allocating a range and releasing it gives back the free space of before, for every address space of
  anonymous memory in which the request can be met.
\<close>

theorem vmm_alloc_free_restores:
  assumes "vm_ready self lo hi s" and "can_alloc self s n"
  shows "\<exists>s' p s''. vmm_alloc s self n fl = Inr (s', p) \<and> vmm_free s' p = Inr s'' \<and> vm_ready self lo hi s'' \<and>
    free_space s'' (free_list s'' self) = free_space s (free_list s self)"
  using assms by (rule vmem.grab_release)

lemma sample_ready: "vm_ready kernel_address_space 0xFFBF0000 ARCH_KERNEL_VM_END sample_vm" "can_alloc kernel_address_space sample_vm 5000"
proof -
  have l: "free_list sample_vm kernel_address_space = [10]" by (rule free_list_inv [OF sample_vm_inv])
  have "ophys x = VMM_PHYSADDR_NOMAP" if "owned sample_vm kernel_address_space p x" for p x
    using that by (auto simp: sample_owned sample_live_def sample_free_def)
  moreover have "own_frames (vmmu sample_vm) Q" for Q using sample_vmmu(3) by (simp add: own_frames_def sample_fresh)
  ultimately show "vm_ready kernel_address_space 0xFFBF0000 ARCH_KERNEL_VM_END sample_vm"
    unfolding vm_ready_def l using sample_vm_inv kernel_vm_end(2) sample_vmmu(1,2) by (metis sample_fresh(6))
  show "can_alloc kernel_address_space sample_vm 5000"
    using sample_fresh(1-4) sample_objects(4) by (simp add: can_alloc_def l blocks_def)
qed

theorem vmm_alloc_free_restores_witness:
  "\<exists>s' p s''. vmm_alloc sample_vm kernel_address_space 5000 3 = Inr (s', p) \<and> vmm_free s' p = Inr s'' \<and>
    free_space s'' (free_list s'' kernel_address_space) = free_space sample_vm (free_list sample_vm kernel_address_space)"
  using vmm_alloc_free_restores [OF sample_ready, of 3] by blast

text \<open>
  Initialising an address space whose range consists of whole pages establishes the invariant: one free object
  that covers the range, and nothing allocated. The kernel's address space is created by its first use.
\<close>

lemma vmm_init_establishes:
  assumes "halloc s = a # as" and "fresh_at s a" and "\<forall>p x. vobjs s p = Some x \<longrightarrow> ospace x \<noteq> self"
    and "0 < lo" "lo \<le> hi" "lo mod PAGE_SIZE = 0" "(hi + 1) mod PAGE_SIZE = 0" "hi + 1 + PAGE_SIZE \<le> 2 ^ 32"
  shows "\<exists>s'. vmm_init_address_space s self lo hi user = Inr (s', True) \<and> vm_inv s' self [a] [] lo hi \<and> free_space s' [a] = {lo..hi} \<and>
    vmmu s' = vmmu s \<and> (\<not> kinitialized s \<and> self = kernel_address_space \<and> lo = kernel_vm_start s \<and> hi = ARCH_KERNEL_VM_END \<and> \<not> user \<longrightarrow>
      vmm_get_kernel_address_space s = Inr (s'\<lparr>kinitialized := True\<rparr>, kernel_address_space))"
proof -
  let ?x = "\<lparr>ostart = lo, oend = hi, ospace = self, ophys = VMM_PHYSADDR_NOMAP, oflags = 0\<rparr>"
  let ?sp = "\<lparr>object_list = list_init, uncommited_objects = list_init, is_user = user\<rparr>"
  have a: "a \<noteq> 0" "vobjs s a = None" "uobjs s a = None" using assms(2) by (simp_all add: fresh_at_def)
  define s1 where "s1 = (set_space s self ?sp)\<lparr>halloc := as, vnodes := (vnodes s)(a \<mapsto> null_node), vobjs := (vobjs s)(a \<mapsto> ?x)\<rparr>"
  have c: "create_object (set_space s self ?sp) self lo hi VMM_PHYSADDR_NOMAP 0 = (s1, a)"
    using assms(1) a by (simp add: create_object_def vm_heap_alloc_def s1_def set_space_def)
  have f: "vspaces s1 self = Some ?sp" "vobjs s1 a = Some ?x" "vnodes s1 a = Some null_node" "uobjs s1 = uobjs s" "vmmu s1 = vmmu s"
      "vobjs s1 = (vobjs s)(a \<mapsto> ?x)"
    by (simp_all add: s1_def set_space_def)
  have wf: "wf_obj ?x" using assms(4-8) by (simp add: wf_obj_def)
  have nil: "dll (vnodes s1) (object_list ?sp) (self_data [])" "dll h (uncommited_objects ?sp) (self_data [])" for h by (simp_all add: dll_def list_init_def)
  obtain h l xs where r: "add_object_to_address_space s1 self a = Inr (with_objects s1 self ?sp h l, True)" "dll h l (self_data xs)" "set xs = {a}"
    using add_object_ok [OF f(1) nil(1) f(2) wf] a(1) f(3) by auto
  let ?s = "with_objects s1 self ?sp h l"
  have "distinct xs" using r(2) by (simp add: dll_def)
  then have xs: "xs = [a]" using r(3) by (metis distinct.simps(2) empty_iff empty_set insert_eq_iff list.exhaust list.set(2) list.set_intros(1) singletonD)
  have own: "owned ?s self p x \<longleftrightarrow> p = a \<and> x = ?x" for p x using assms(3) f(6) by (auto simp: owned_def)
  have "h a \<noteq> None" using dll_self_node [OF r(2), of a] r(3) by auto
  then have "ranges_ok ?s self lo hi" using a(1,3) wf f(4) unfolding ranges_ok_def own by (auto simp: span_def)
  moreover have "\<exists>x. owned ?s self a x" using own by blast
  ultimately have inv: "vm_inv ?s self [a] [] lo hi" using r(2) nil(2) unfolding vm_inv_def xs by (simp add: pending_ok_def)
  have init: "vmm_init_address_space s self lo hi user = Inr (?s, True)"
    using c a(1) r(1) by (simp add: vmm_init_address_space_def Let_def)
  moreover have "free_space ?s [a] = {lo..hi}" using f(2) by (simp add: free_space_def span_def)
  ultimately show ?thesis using inv f(5)
    by (intro exI [of _ ?s]) (auto simp: vmm_get_kernel_address_space_def)
qed

end
