(* ===== verification/Strutil.thy ===== *)
theory Strutil
  imports Prelude
begin

text \<open>
  C strings and memory blocks (kernel/lib/strutil.c, kernel/lib/libc/ctype.c). A buffer is a list of
  bytes; a pointer into it is an offset. Reading or writing outside the buffer is the fault
  \<open>Out_of_bounds\<close>, so a missing terminator shows. \<open>char\<close> is signed on i586: comparisons of
  characters as \<open>int\<close> use \<open>sint\<close>. A length is bounded by the buffer and does not wrap.
\<close>

subsection \<open>Character classes\<close>

definition CCLASS_FLAG_SPACE :: u8 where "CCLASS_FLAG_SPACE = push_bit 0 1"
definition CCLASS_FLAG_DIGIT :: u8 where "CCLASS_FLAG_DIGIT = push_bit 1 1"

definition CHARS :: "u8 list" where
  "CHARS = (replicate 128 0)
     [48 := CCLASS_FLAG_DIGIT, 49 := CCLASS_FLAG_DIGIT, 50 := CCLASS_FLAG_DIGIT, 51 := CCLASS_FLAG_DIGIT,
      52 := CCLASS_FLAG_DIGIT, 53 := CCLASS_FLAG_DIGIT, 54 := CCLASS_FLAG_DIGIT, 55 := CCLASS_FLAG_DIGIT,
      56 := CCLASS_FLAG_DIGIT, 57 := CCLASS_FLAG_DIGIT, 9 := CCLASS_FLAG_SPACE, 32 := CCLASS_FLAG_SPACE]"

definition CCLASS_MAX_CHAR :: int where
  "CCLASS_MAX_CHAR = int (length CHARS) - 1"

definition isspace :: "int \<Rightarrow> bool" where
  "isspace c = (if c < 0 \<or> CCLASS_MAX_CHAR \<le> c then False else CHARS ! nat c AND CCLASS_FLAG_SPACE \<noteq> 0)"

definition isdigit :: "int \<Rightarrow> bool" where
  "isdigit c = (if c < 0 \<or> CCLASS_MAX_CHAR \<le> c then False else CHARS ! nat c AND CCLASS_FLAG_DIGIT \<noteq> 0)"

subsection \<open>Strings\<close>

function kstrlen_loop :: "u8 list \<Rightarrow> nat \<Rightarrow> nat \<Rightarrow> nat res" where
  "kstrlen_loop b nxt len =
     (if nxt < length b
      then if b ! nxt \<noteq> 0 then kstrlen_loop b (nxt + 1) (len + 1) else Inr len
      else Inl Out_of_bounds)"
  by pat_completeness auto
termination by (relation "measure (\<lambda>(b, n, _). length b - n)") auto

definition kstrlen :: "u8 list \<Rightarrow> nat \<Rightarrow> nat res" where
  "kstrlen b s = kstrlen_loop b s 0"

function kstrcmp_loop :: "u8 list \<Rightarrow> nat \<Rightarrow> u8 list \<Rightarrow> nat \<Rightarrow> nat \<Rightarrow> int res" where
  "kstrcmp_loop b1 s1 b2 s2 idx =
     (if s1 + idx < length b1 \<and> s2 + idx < length b2
      then if b1 ! (s1 + idx) \<noteq> b2 ! (s2 + idx) then Inr (sint (b1 ! (s1 + idx)) - sint (b2 ! (s2 + idx)))
           else if b1 ! (s1 + idx) = 0 then Inr 0
           else kstrcmp_loop b1 s1 b2 s2 (idx + 1)
      else Inl Out_of_bounds)"
  by pat_completeness auto
termination by (relation "measure (\<lambda>(b1, s1, _, _, idx). length b1 - (s1 + idx))") auto

definition kstrcmp :: "u8 list \<Rightarrow> nat \<Rightarrow> u8 list \<Rightarrow> nat \<Rightarrow> int res" where
  "kstrcmp b1 s1 b2 s2 = kstrcmp_loop b1 s1 b2 s2 0"

function kstrncmp_loop :: "u8 list \<Rightarrow> nat \<Rightarrow> u8 list \<Rightarrow> nat \<Rightarrow> nat \<Rightarrow> nat \<Rightarrow> int res" where
  "kstrncmp_loop b1 s1 b2 s2 n idx =
     (if idx < n then
        (if s1 + idx < length b1 \<and> s2 + idx < length b2
         then if b1 ! (s1 + idx) \<noteq> b2 ! (s2 + idx) then Inr (sint (b1 ! (s1 + idx)) - sint (b2 ! (s2 + idx)))
              else if b1 ! (s1 + idx) = 0 then Inr 0
              else kstrncmp_loop b1 s1 b2 s2 n (idx + 1)
         else Inl Out_of_bounds)
      else Inr 0)"
  by pat_completeness auto
termination by (relation "measure (\<lambda>(_, _, _, _, n, idx). n - idx)") auto

definition kstrncmp :: "u8 list \<Rightarrow> nat \<Rightarrow> u8 list \<Rightarrow> nat \<Rightarrow> nat \<Rightarrow> int res" where
  "kstrncmp b1 s1 b2 s2 n = kstrncmp_loop b1 s1 b2 s2 n 0"

text \<open>\<open>None\<close> is the null pointer.\<close>

function kstrchr :: "u8 list \<Rightarrow> nat \<Rightarrow> int \<Rightarrow> nat option res" where
  "kstrchr b nxt c =
     (if nxt < length b
      then if sint (b ! nxt) = c then Inr (Some nxt)
           else if b ! nxt = 0 then Inr None
           else kstrchr b (nxt + 1) c
      else Inl Out_of_bounds)"
  by pat_completeness auto
termination by (relation "measure (\<lambda>(b, n, _). length b - n)") auto

function kstrrchr_loop :: "u8 list \<Rightarrow> nat \<Rightarrow> int \<Rightarrow> nat option \<Rightarrow> nat option res" where
  "kstrrchr_loop b nxt c result =
     (if nxt < length b
      then (let result = if sint (b ! nxt) = c then Some nxt else result in
            if b ! nxt = 0 then Inr result else kstrrchr_loop b (nxt + 1) c result)
      else Inl Out_of_bounds)"
  by pat_completeness auto
termination by (relation "measure (\<lambda>(b, n, _, _). length b - n)") auto

definition kstrrchr :: "u8 list \<Rightarrow> nat \<Rightarrow> int \<Rightarrow> nat option res" where
  "kstrrchr b s c = kstrrchr_loop b s c None"

declare kstrlen_loop.simps [simp del] kstrcmp_loop.simps [simp del] kstrncmp_loop.simps [simp del]
  kstrchr.simps [simp del] kstrrchr_loop.simps [simp del]

subsection \<open>Memory blocks\<close>

fun vmemset :: "u8 list \<Rightarrow> nat \<Rightarrow> u8 \<Rightarrow> nat \<Rightarrow> u8 list res" where
  "vmemset b s c 0 = Inr b"
| "vmemset b s c (Suc n) = bind_res (store b s c) (\<lambda>b. vmemset b (s + 1) c n)"

text \<open>\<open>rep movsb\<close>: \<open>n\<close> bytes, from low addresses to high; the blocks do not overlap (\<open>restrict\<close>).\<close>

fun vmemcpy :: "u8 list \<Rightarrow> nat \<Rightarrow> u8 list \<Rightarrow> nat \<Rightarrow> nat \<Rightarrow> u8 list res" where
  "vmemcpy d dest b src 0 = Inr d"
| "vmemcpy d dest b src (Suc n) =
     bind_res (load b src) (\<lambda>x.
     bind_res (store d dest x) (\<lambda>d. vmemcpy d (dest + 1) b (src + 1) n))"

definition vmemcpy32 :: "u8 list \<Rightarrow> nat \<Rightarrow> u8 list \<Rightarrow> nat \<Rightarrow> nat \<Rightarrow> u8 list res" where
  "vmemcpy32 d s1 b s2 n = vmemcpy d s1 b s2 (4 * n)"

text \<open>
  \<open>heap_ok\<close> tells whether \<open>heap_alloc\<close> can serve a size; the fresh block's bytes are arbitrary, given
  by \<open>junk\<close>. \<open>None\<close> is the null pointer.
\<close>

definition kstrdup :: "(nat \<Rightarrow> bool) \<Rightarrow> (nat \<Rightarrow> u8) \<Rightarrow> u8 list \<Rightarrow> nat \<Rightarrow> u8 list option res" where
  "kstrdup heap_ok junk b s =
     bind_res (kstrlen b s) (\<lambda>len.
     let sz = sz_add len 1 in
     if sz = 0 then Inr None
     else if \<not> heap_ok sz then Inr None
     else
       bind_res (vmemcpy (map junk [0..<sz]) 0 b s (sz - 1)) (\<lambda>mem.
       bind_res (store mem (sz - 1) 0) (\<lambda>mem. Inr (Some mem))))"

subsection \<open>The string matcher\<close>

record smatcher =
  sm_buf :: "u8 list"
  sm_str :: nat
  sm_len :: nat
  currentindex :: nat

definition smatcher_init_with_len :: "u8 list \<Rightarrow> nat \<Rightarrow> nat \<Rightarrow> smatcher" where
  "smatcher_init_with_len b s len = \<lparr>sm_buf = b, sm_str = s, sm_len = len, currentindex = 0\<rparr>"

definition smatcher_init :: "u8 list \<Rightarrow> nat \<Rightarrow> smatcher res" where
  "smatcher_init b s = bind_res (kstrlen b s) (\<lambda>len. Inr (smatcher_init_with_len b s len))"

definition smatcher_slice :: "smatcher \<Rightarrow> nat \<Rightarrow> nat \<Rightarrow> smatcher res" where
  "smatcher_slice self firstchar lastchar =
     bind_res (assert_res (firstchar \<le> lastchar)) (\<lambda>_.
     Inr (smatcher_init_with_len (sm_buf self) (sm_str self + firstchar) (lastchar - firstchar + 1)))"

definition smatcher_consume_str_if_match :: "smatcher \<Rightarrow> u8 list \<Rightarrow> nat \<Rightarrow> (smatcher \<times> bool) res" where
  "smatcher_consume_str_if_match self b str =
     bind_res (kstrlen b str) (\<lambda>len.
     if sz_sub (sm_len self) (currentindex self) < len then Inr (self, False)
     else
       bind_res (kstrncmp (sm_buf self) (sm_str self + currentindex self) b str len) (\<lambda>r.
       if r \<noteq> 0 then Inr (self, False)
       else Inr (self\<lparr>currentindex := currentindex self + len\<rparr>, True)))"

definition smatcher_consume_word_if_match :: "smatcher \<Rightarrow> u8 list \<Rightarrow> nat \<Rightarrow> (smatcher \<times> bool) res" where
  "smatcher_consume_word_if_match self b str =
     bind_res (kstrlen b str) (\<lambda>len.
     if sz_sub (sm_len self) (currentindex self) < len then Inr (self, False)
     else
       bind_res (kstrncmp (sm_buf self) (sm_str self + currentindex self) b str len) (\<lambda>r.
       if r \<noteq> 0 then Inr (self, False)
       else
         bind_res (load (sm_buf self) (sm_str self + (currentindex self + len))) (\<lambda>nextchar.
         if currentindex self + len \<noteq> sm_len self \<and> \<not> isspace (sint nextchar) then Inr (self, False)
         else Inr (self\<lparr>currentindex := currentindex self + len\<rparr>, True))))"

function skip_loop :: "u8 list \<Rightarrow> nat \<Rightarrow> nat \<Rightarrow> nat res" where
  "skip_loop b s i =
     (if s + i < length b
      then if isspace (sint (b ! (s + i))) then skip_loop b s (i + 1) else Inr i
      else Inl Out_of_bounds)"
  by pat_completeness auto
termination by (relation "measure (\<lambda>(b, s, i). length b - (s + i))") auto

definition smatcher_skip_whitespaces :: "smatcher \<Rightarrow> smatcher res" where
  "smatcher_skip_whitespaces self =
     bind_res (skip_loop (sm_buf self) (sm_str self) (currentindex self)) (\<lambda>i.
     Inr (self\<lparr>currentindex := i\<rparr>))"

function word_loop :: "u8 list \<Rightarrow> nat \<Rightarrow> nat \<Rightarrow> nat \<Rightarrow> nat \<Rightarrow> (nat \<times> nat) res" where
  "word_loop b s len i n =
     (if i < len then
        (if s + i < length b
         then if \<not> isspace (sint (b ! (s + i))) then word_loop b s len (i + 1) (n + 1) else Inr (i, n)
         else Inl Out_of_bounds)
      else Inr (i, n))"
  by pat_completeness auto
termination by (relation "measure (\<lambda>(b, s, len, i, n). len - i)") auto

declare skip_loop.simps [simp del] word_loop.simps [simp del]

text \<open>The result is the matcher and, for a word, its offset and its length.\<close>

definition smatcher_consume_word :: "smatcher \<Rightarrow> (smatcher \<times> (nat \<times> nat) option) res" where
  "smatcher_consume_word self =
     (if currentindex self = sm_len self then Inr (self, None)
      else
        bind_res (load (sm_buf self) (sm_str self + currentindex self)) (\<lambda>c.
        if isspace (sint c) then Inr (self, None)
        else
          bind_res (word_loop (sm_buf self) (sm_str self) (sm_len self) (currentindex self) 0) (\<lambda>(i, n).
          Inr (self\<lparr>currentindex := i\<rparr>, Some (sm_str self + currentindex self, n)))))"

subsection \<open>Strings in buffers\<close>

text \<open>\<open>cstr b p s\<close>: the buffer holds the bytes of \<open>s\<close>, none of them zero, and a terminator at \<open>p\<close>.\<close>

definition cstr :: "u8 list \<Rightarrow> nat \<Rightarrow> u8 list \<Rightarrow> bool" where
  "cstr b p s \<longleftrightarrow> 0 \<notin> set s \<and> (\<exists>rest. drop p b = s @ 0 # rest)"

lemma drop_Cons_nth: "drop p b = x # xs \<Longrightarrow> p < length b \<and> b ! p = x \<and> drop (Suc p) b = xs"
  by (metis drop_eq_Nil2 drop_Suc hd_drop_conv_nth list.discI list.sel(1,3) not_less tl_drop)

lemma cstr_Nil: "cstr b p [] \<Longrightarrow> p < length b \<and> b ! p = 0"
  by (auto simp: cstr_def dest: drop_Cons_nth)

lemma cstr_Cons: "cstr b p (x # s) \<Longrightarrow> p < length b \<and> b ! p = x \<and> x \<noteq> 0 \<and> cstr b (Suc p) s"
  by (auto simp: cstr_def dest!: drop_Cons_nth)

lemma cstr_bound: "cstr b p s \<Longrightarrow> p + length s < length b"
proof -
  assume "cstr b p s"
  then obtain rest where "drop p b = s @ 0 # rest" by (auto simp: cstr_def)
  then have "length b - p = length s + Suc (length rest)" by (metis length_drop length_append length_Cons)
  then show ?thesis by linarith
qed

lemma cstr_drop: "cstr b p s \<Longrightarrow> i \<le> length s \<Longrightarrow> cstr b (p + i) (drop i s)"
  by (auto simp: cstr_def add.commute simp flip: drop_drop dest: in_set_dropD)

lemma cstr_bytes: "cstr b p s \<Longrightarrow> take (length s) (drop p b) = s"
  by (auto simp: cstr_def)

lemma kstrlen_loop_eq: "cstr b p s \<Longrightarrow> kstrlen_loop b p n = Inr (n + length s)"
proof (induction s arbitrary: p n)
  case Nil
  then show ?case by (auto simp: kstrlen_loop.simps [of b p] dest: cstr_Nil)
next
  case (Cons x s)
  then show ?case using cstr_Cons [OF Cons.prems] by (simp add: kstrlen_loop.simps [of b p])
qed

lemma kstrlen_eq: "cstr b p s \<Longrightarrow> kstrlen b p = Inr (length s)"
  by (simp add: kstrlen_def kstrlen_loop_eq)

lemma sint_zero_iff: "sint (x :: u8) = 0 \<longleftrightarrow> x = 0"
  by (metis sint_0 signed_word_eqI)

lemma kstrchr_eq:
  assumes "cstr b p s"
  shows "kstrchr b p c = Inr (if c = 0 \<or> (\<exists>x\<in>set s. sint x = c)
    then Some (p + length (takeWhile (\<lambda>x. sint x \<noteq> c) s)) else None)"
  using assms
proof (induction s arbitrary: p)
  case Nil
  then show ?case by (auto simp: kstrchr.simps [of b p] dest: cstr_Nil)
next
  case (Cons x s)
  then show ?case using cstr_Cons [OF Cons.prems] sint_zero_iff [of x] by (auto simp: kstrchr.simps [of b p])
qed

text \<open>The position of the last occurrence, from an offset.\<close>

fun last_pos :: "(u8 \<Rightarrow> bool) \<Rightarrow> nat \<Rightarrow> u8 list \<Rightarrow> nat option \<Rightarrow> nat option" where
  "last_pos P p [] r = r"
| "last_pos P p (x # s) r = last_pos P (Suc p) s (if P x then Some p else r)"

lemma kstrrchr_loop_eq:
  assumes "cstr b p s" and "c \<noteq> 0"
  shows "kstrrchr_loop b p c r = Inr (last_pos (\<lambda>x. sint x = c) p s r)"
  using assms(1)
proof (induction s arbitrary: p r)
  case Nil
  then show ?case using assms(2) by (auto simp: kstrrchr_loop.simps [of b p] dest: cstr_Nil)
next
  case (Cons x s)
  then show ?case using cstr_Cons [OF Cons.prems] by (simp add: kstrrchr_loop.simps [of b p])
qed

lemma last_pos_append: "last_pos P p (s @ t) r = last_pos P (p + length s) t (last_pos P p s r)"
  by (induction s arbitrary: p r) auto

lemma last_pos_none: "\<forall>x\<in>set s. \<not> P x \<Longrightarrow> last_pos P p s r = r"
  by (induction s arbitrary: p r) auto

text \<open>The comparison of two strings by signed characters.\<close>

fun str_cmp :: "u8 list \<Rightarrow> u8 list \<Rightarrow> int" where
  "str_cmp [] [] = 0"
| "str_cmp [] (y # t) = - sint y"
| "str_cmp (x # s) [] = sint x"
| "str_cmp (x # s) (y # t) = (if x = y then str_cmp s t else sint x - sint y)"

lemma str_cmp_zero: "0 \<notin> set s \<Longrightarrow> 0 \<notin> set t \<Longrightarrow> str_cmp s t = 0 \<longleftrightarrow> s = t"
  by (induction s t rule: str_cmp.induct) (auto simp: sint_zero_iff signed_word_eqI)

lemma kstrcmp_loop_shift:
  "kstrcmp_loop b1 p b2 q (Suc i) = kstrcmp_loop b1 (Suc p) b2 (Suc q) i"
proof (induction "length b1 - (p + i)" arbitrary: i rule: less_induct)
  case less
  show ?case using less.hyps [of "Suc i"]
    by (cases "Suc (p + i) < length b1")
      (simp_all add: kstrcmp_loop.simps [of b1 p b2 q "Suc i"] kstrcmp_loop.simps [of b1 "Suc p" b2 "Suc q" i])
qed

lemma kstrcmp_eq:
  assumes "cstr b1 p s" and "cstr b2 q t"
  shows "kstrcmp b1 p b2 q = Inr (str_cmp s t)"
  unfolding kstrcmp_def using assms
proof (induction s t arbitrary: p q rule: str_cmp.induct)
  case 1
  then show ?case using cstr_Nil [OF "1"(1)] cstr_Nil [OF "1"(2)] by (simp add: kstrcmp_loop.simps)
next
  case (2 y t)
  then show ?case using cstr_Nil [OF "2"(1)] cstr_Cons [OF "2"(2)] by (simp add: kstrcmp_loop.simps)
next
  case (3 x s)
  then show ?case using cstr_Cons [OF "3"(1)] cstr_Nil [OF "3"(2)] by (simp add: kstrcmp_loop.simps)
next
  case (4 x s y t)
  show ?case
  proof (cases "x = y")
    case True
    then show ?thesis
      using 4 cstr_Cons [OF "4.prems"(1)] cstr_Cons [OF "4.prems"(2)]
      by (simp add: kstrcmp_loop.simps [of b1 p b2 q 0] kstrcmp_loop_shift)
  next
    case False
    then show ?thesis using cstr_Cons [OF "4.prems"(1)] cstr_Cons [OF "4.prems"(2)] by (simp add: kstrcmp_loop.simps)
  qed
qed

lemma kstrncmp_loop_shift:
  "kstrncmp_loop b1 p b2 q (Suc n) (Suc i) = kstrncmp_loop b1 (Suc p) b2 (Suc q) n i"
proof (induction "n - i" arbitrary: i rule: less_induct)
  case less
  show ?case using less.hyps [of "Suc i"]
    by (simp add: kstrncmp_loop.simps [of b1 p b2 q "Suc n" "Suc i"] kstrncmp_loop.simps [of b1 "Suc p" b2 "Suc q" n i])
qed

lemma kstrncmp_eq:
  assumes "cstr b1 p s" and "cstr b2 q t"
  shows "kstrncmp b1 p b2 q n = Inr (str_cmp (take n s) (take n t))"
  unfolding kstrncmp_def using assms
proof (induction s t arbitrary: p q n rule: str_cmp.induct)
  case 1
  then show ?case using cstr_Nil [OF "1"(1)] cstr_Nil [OF "1"(2)] by (simp add: kstrncmp_loop.simps)
next
  case (2 y t)
  then show ?case using cstr_Nil [OF "2"(1)] cstr_Cons [OF "2"(2)] by (cases n) (simp_all add: kstrncmp_loop.simps)
next
  case (3 x s)
  then show ?case using cstr_Cons [OF "3"(1)] cstr_Nil [OF "3"(2)] by (cases n) (simp_all add: kstrncmp_loop.simps)
next
  case (4 x s y t)
  show ?case
  proof (cases n)
    case 0
    then show ?thesis by (simp add: kstrncmp_loop.simps)
  next
    case (Suc m)
    then show ?thesis
      using 4 cstr_Cons [OF "4.prems"(1)] cstr_Cons [OF "4.prems"(2)]
      by (cases "x = y") (simp_all add: kstrncmp_loop.simps [of b1 p b2 q "Suc m" 0] kstrncmp_loop_shift)
  qed
qed

lemma vmemcpy_eq:
  "dest + n \<le> length d \<Longrightarrow> src + n \<le> length b \<Longrightarrow>
   vmemcpy d dest b src n = Inr (take dest d @ take n (drop src b) @ drop (dest + n) d)"
proof (induction n arbitrary: d dest src)
  case 0
  then show ?case by simp
next
  case (Suc n)
  have "vmemcpy d dest b src (Suc n) = vmemcpy (d[dest := b ! src]) (Suc dest) b (Suc src) n"
    using Suc.prems by simp
  also have "\<dots> = Inr (take (Suc dest) (d[dest := b ! src]) @ take n (drop (Suc src) b) @ drop (Suc dest + n) (d[dest := b ! src]))"
    using Suc.prems by (intro Suc.IH) auto
  also have "take (Suc dest) (d[dest := b ! src]) = take dest d @ [b ! src]"
    using Suc.prems by (simp add: take_Suc_conv_app_nth)
  finally show ?case using Suc.prems by (simp add: take_Suc_conv_app_nth Cons_nth_drop_Suc [symmetric] take_Suc_Cons)
qed

lemma vmemset_eq: "p + n \<le> length b \<Longrightarrow> vmemset b p c n = Inr (take p b @ replicate n c @ drop (p + n) b)"
proof (induction n arbitrary: b p)
  case 0
  then show ?case by simp
next
  case (Suc n)
  have "vmemset b p c (Suc n) = vmemset (b[p := c]) (Suc p) c n" using Suc.prems by simp
  also have "\<dots> = Inr (take (Suc p) (b[p := c]) @ replicate n c @ drop (Suc p + n) (b[p := c]))"
    using Suc.prems by (intro Suc.IH) auto
  finally show ?case using Suc.prems by (simp add: take_Suc_conv_app_nth)
qed

lemma kstrdup_eq:
  assumes "cstr b p s" and "heap_ok (length s + 1)" and "length s + 1 < 2 ^ 32"
  shows "\<exists>mem. kstrdup heap_ok junk b p = Inr (Some mem) \<and> cstr mem 0 s \<and> length mem = length s + 1"
proof -
  have b: "p + length s \<le> length b" using cstr_bound [OF assms(1)] by simp
  have "kstrdup heap_ok junk b p = Inr (Some (s @ [0]))"
    using assms cstr_bytes [OF assms(1)] b vmemcpy_eq [of 0 "length s" "map junk [0..<length s + 1]" p b]
    by (simp add: kstrdup_def kstrlen_eq sz_add_no_wrap Let_def store_def)
  moreover have "cstr (s @ [0]) 0 s" using assms(1) by (auto simp: cstr_def)
  ultimately show ?thesis by simp
qed

subsection \<open>The matcher on a string\<close>

definition sp :: "u8 \<Rightarrow> bool" where
  "sp c = isspace (sint c)"

text \<open>A matcher at position \<open>i\<close> of the string \<open>s\<close>.\<close>

definition matches :: "smatcher \<Rightarrow> u8 list \<Rightarrow> bool" where
  "matches m s \<longleftrightarrow> cstr (sm_buf m) (sm_str m) s \<and> sm_len m = length s \<and> currentindex m \<le> length s \<and> length s < 2 ^ 32"

lemma sp_zero: "\<not> sp 0"
  by (simp add: sp_def isspace_def CHARS_def)

lemma skip_loop_eq:
  "cstr b (p + i) s \<Longrightarrow> skip_loop b p i = Inr (i + length (takeWhile sp s))"
proof (induction s arbitrary: i)
  case Nil
  then show ?case using cstr_Nil [OF Nil] sp_zero by (simp add: skip_loop.simps [of b p i] sp_def)
next
  case (Cons x s)
  then show ?case using cstr_Cons [OF Cons.prems] by (simp add: skip_loop.simps [of b p i] sp_def)
qed

lemma word_loop_eq:
  "cstr b (p + i) s \<Longrightarrow> word_loop b p (i + length s) i n =
     Inr (i + length (takeWhile (\<lambda>c. \<not> sp c) s), n + length (takeWhile (\<lambda>c. \<not> sp c) s))"
proof (induction s arbitrary: i n)
  case Nil
  then show ?case by (simp add: word_loop.simps)
next
  case (Cons x s)
  have "word_loop b p (Suc i + length s) (Suc i) (Suc n) =
      Inr (Suc i + length (takeWhile (\<lambda>c. \<not> sp c) s), Suc n + length (takeWhile (\<lambda>c. \<not> sp c) s))"
    using cstr_Cons [OF Cons.prems] by (intro Cons.IH) simp
  then show ?case using cstr_Cons [OF Cons.prems] by (simp add: word_loop.simps [of b p _ i] sp_def)
qed

lemma matches_rest:
  assumes "matches m s"
  shows "cstr (sm_buf m) (sm_str m + currentindex m) (drop (currentindex m) s)"
    and "currentindex m + length (drop (currentindex m) s) = sm_len m"
    and "sz_sub (sm_len m) (currentindex m) = length (drop (currentindex m) s)"
  using assms cstr_drop by (auto simp: matches_def sz_sub_no_wrap)

lemma drop_takeWhile: "drop (i + length (takeWhile P (drop i s))) s = dropWhile P (drop i s)"
  by (metis add.commute drop_drop dropWhile_eq_drop)

lemma takeWhile_bound: "i \<le> length s \<Longrightarrow> i + length (takeWhile P (drop i s)) \<le> length s"
  using length_takeWhile_le [of P "drop i s"] by simp

lemma consume_str_eq:
  assumes "matches m s" and "cstr b q w"
  shows "smatcher_consume_str_if_match m b q =
    (let i = currentindex m; hit = take (length w) (drop i s) = w in
     Inr (if hit then m\<lparr>currentindex := i + length w\<rparr> else m, hit))"
proof -
  let ?rest = "drop (currentindex m) s"
  note r = matches_rest [OF assms(1)]
  have nz: "0 \<notin> set (take (length w) ?rest)" "0 \<notin> set w"
    using r(1) assms(2) by (auto simp: cstr_def dest: in_set_takeD)
  have cmp: "kstrncmp (sm_buf m) (sm_str m + currentindex m) b q (length w) = Inr (str_cmp (take (length w) ?rest) w)"
    using kstrncmp_eq [OF r(1) assms(2)] by simp
  have short: "take (length w) ?rest \<noteq> w" if "length ?rest < length w" using that by (metis length_take min_less_iff_conj not_less_iff_gr_or_eq)
  show ?thesis
    using r(3) cmp short str_cmp_zero [OF nz]
    by (auto simp: smatcher_consume_str_if_match_def kstrlen_eq [OF assms(2)] Let_def)
qed

subsection \<open>Properties\<close>

text \<open>
  On terminated strings the string functions read no byte outside the buffers and compute
  the length, the first occurrence of a character (the terminator for 0), equality of the
  strings, and equality of the first \<open>n\<close> characters.
\<close>

lemma string_functions_spec:
  assumes "cstr b p s" and "cstr b' q t"
  shows "kstrlen b p = Inr (length s) \<and>
    kstrchr b p c = Inr (if c = 0 \<or> (\<exists>x\<in>set s. sint x = c)
      then Some (p + length (takeWhile (\<lambda>x. sint x \<noteq> c) s)) else None) \<and>
    (\<exists>r. kstrcmp b p b' q = Inr r \<and> (r = 0 \<longleftrightarrow> s = t)) \<and>
    (\<exists>r. kstrncmp b p b' q n = Inr r \<and> (r = 0 \<longleftrightarrow> take n s = take n t))"
proof -
  have nz: "0 \<notin> set s" "0 \<notin> set t" using assms by (auto simp: cstr_def)
  have "0 \<notin> set (take n s)" "0 \<notin> set (take n t)" using nz in_set_takeD by fastforce+
  then show ?thesis
    using kstrlen_eq [OF assms(1)] kstrchr_eq [OF assms(1)] kstrcmp_eq [OF assms] kstrncmp_eq [OF assms]
      str_cmp_zero nz by auto
qed

text \<open>
  the matcher splits a string into words. On a matcher whose unread text is \<open>rest\<close>,
  \<open>smatcher_skip_whitespaces\<close> leaves \<open>rest\<close> without its leading blanks;
  \<open>smatcher_consume_word\<close> returns nothing at the end or at a blank, and otherwise the longest
  prefix of \<open>rest\<close> without blanks, moving past it; \<open>smatcher_consume_str_if_match\<close> succeeds exactly
  when the given string is a prefix of \<open>rest\<close>. All keep the matcher inside its string.
\<close>

lemma smatcher_splits_words:
  assumes "matches m s" and "cstr b q w"
  defines "rest \<equiv> drop (currentindex m) s"
  shows "(\<exists>m'. smatcher_skip_whitespaces m = Inr m' \<and> matches m' s \<and> drop (currentindex m') s = dropWhile sp rest) \<and>
    (\<exists>m' r. smatcher_consume_word m = Inr (m', r) \<and> matches m' s \<and>
      (if rest = [] \<or> sp (hd rest) then r = None \<and> m' = m
       else r = Some (sm_str m + currentindex m, length (takeWhile (\<lambda>c. \<not> sp c) rest)) \<and>
         drop (currentindex m') s = dropWhile (\<lambda>c. \<not> sp c) rest)) \<and>
    (\<exists>m' ok. smatcher_consume_str_if_match m b q = Inr (m', ok) \<and> matches m' s \<and>
      (ok \<longleftrightarrow> take (length w) rest = w) \<and> drop (currentindex m') s = (if ok then drop (length w) rest else rest))"
proof (intro conjI)
  note r = matches_rest [OF assms(1)]
  have i: "currentindex m \<le> length s" using assms(1) by (simp add: matches_def)
  show "\<exists>m'. smatcher_skip_whitespaces m = Inr m' \<and> matches m' s \<and> drop (currentindex m') s = dropWhile sp rest"
    using skip_loop_eq [OF r(1)] assms(1) takeWhile_bound [OF i] drop_takeWhile [of "currentindex m" sp s]
    by (simp add: smatcher_skip_whitespaces_def matches_def rest_def)
  show "\<exists>m' r. smatcher_consume_word m = Inr (m', r) \<and> matches m' s \<and>
      (if rest = [] \<or> sp (hd rest) then r = None \<and> m' = m
       else r = Some (sm_str m + currentindex m, length (takeWhile (\<lambda>c. \<not> sp c) rest)) \<and>
         drop (currentindex m') s = dropWhile (\<lambda>c. \<not> sp c) rest)"
  proof (cases rest)
    case Nil
    then show ?thesis using assms(1) i by (simp add: smatcher_consume_word_def matches_def rest_def)
  next
    case (Cons x xs)
    then have "currentindex m \<noteq> sm_len m" using assms(1) by (auto simp: rest_def matches_def)
    moreover have "sm_str m + currentindex m < length (sm_buf m) \<and> sm_buf m ! (sm_str m + currentindex m) = x"
      using cstr_Cons r(1) Cons by (simp add: rest_def)
    ultimately show ?thesis
      using word_loop_eq [OF r(1), of 0] r(2) assms(1) Cons takeWhile_bound [OF i, of "\<lambda>c. \<not> sp c"]
        drop_takeWhile [of "currentindex m" "\<lambda>c. \<not> sp c" s]
      by (auto simp: smatcher_consume_word_def matches_def rest_def sp_def)
  qed
  have "currentindex m + length w \<le> length s" if "take (length w) rest = w"
    using that i unfolding rest_def by (metis length_drop length_take min.absorb_iff2 min.commute le_diff_conv2 add.commute min.cobounded1)
  then show "\<exists>m' ok. smatcher_consume_str_if_match m b q = Inr (m', ok) \<and> matches m' s \<and>
      (ok \<longleftrightarrow> take (length w) rest = w) \<and> drop (currentindex m') s = (if ok then drop (length w) rest else rest)"
    unfolding consume_str_eq [OF assms(1,2)] using assms(1)
    by (auto simp: Let_def matches_def rest_def add.commute)
qed

end
