(* ===== verification/Path_Reader.thy ===== *)
theory Path_Reader
  imports Strutil
begin

text \<open>
  The path reader (kernel/lib/pathreader.c): it hands out the components of a path one by one. A
  component that a slash follows is copied to \<open>name_buf\<close>; the last one is returned in place.
\<close>

definition NAME_MAX :: nat where
  "NAME_MAX = 255"

record path_reader =
  pr_path :: "u8 list"
  remaining_path :: nat
  name_buf :: "u8 list"

text \<open>The pointer stored in \<open>name_out\<close>: into the reader's buffer or into the path itself.\<close>

datatype name_ptr = Name_buf | Path_at nat

definition pathreader_init :: "path_reader \<Rightarrow> u8 list \<Rightarrow> nat \<Rightarrow> path_reader" where
  "pathreader_init out path p = out\<lparr>pr_path := path, remaining_path := p\<rparr>"

lemma kstrchr_range: "kstrchr b p c = Inr (Some q) \<Longrightarrow> p \<le> q \<and> q < length b"
proof (induction b p c rule: kstrchr.induct)
  case (1 b p c)
  then show ?case by (fastforce simp: kstrchr.simps [of b p] split: if_splits)
qed

text \<open>
  The result is the reader, the return code and, for code 0, the name. When no slash follows, the
  name starts with the character the loop has just read, so it is not empty. The null result of
  the search for the terminator cannot occur.
\<close>

function pathreader_next :: "path_reader \<Rightarrow> (path_reader \<times> int \<times> name_ptr option) res" where
  "pathreader_next self =
     bind_res (load (pr_path self) (remaining_path self)) (\<lambda>c.
     if c = 0 then Inr (self, - ENOENT, None)
     else
       bind_res (kstrchr (pr_path self) (remaining_path self) 47) (\<lambda>nextslash.
       case nextslash of
         None \<Rightarrow>
           bind_res (kstrchr (pr_path self) (remaining_path self) 0) (\<lambda>e.
           case e of
             None \<Rightarrow> Inl Null_deref
           | Some e \<Rightarrow> Inr (self\<lparr>remaining_path := e\<rparr>, 0, Some (Path_at (remaining_path self))))
       | Some slash \<Rightarrow>
           (let len = slash - remaining_path self in
            if NAME_MAX < len then Inr (self, - ENAMETOOLONG, None)
            else
              bind_res (vmemcpy (name_buf self) 0 (pr_path self) (remaining_path self) len) (\<lambda>buf.
              bind_res (store buf len 0) (\<lambda>buf.
              let self = self\<lparr>name_buf := buf, remaining_path := slash + 1\<rparr> in
              bind_res (load buf 0) (\<lambda>c0.
              if c0 = 0 then pathreader_next self else Inr (self, 0, Some Name_buf)))))))"
  by pat_completeness auto
termination
proof (relation "measure (\<lambda>r. length (pr_path r) - remaining_path r)", goal_cases)
  case (2 self c ns slash len buf buf' r c0)
  then show ?case using kstrchr_range [of "pr_path self" "remaining_path self" 47 slash] by auto
qed simp

declare pathreader_next.simps [simp del]

text \<open>The string a returned name pointer points to.\<close>

definition name_at :: "path_reader \<Rightarrow> name_ptr \<Rightarrow> u8 list \<Rightarrow> bool" where
  "name_at r p s = (case p of Name_buf \<Rightarrow> cstr (name_buf r) 0 s | Path_at q \<Rightarrow> cstr (pr_path r) q s)"

subsection \<open>The components of a path\<close>

fun split_slash :: "u8 list \<Rightarrow> u8 list list" where
  "split_slash [] = [[]]"
| "split_slash (x # s) =
     (if x = 47 then [] # split_slash s
      else case split_slash s of [] \<Rightarrow> [[x]] | c # cs \<Rightarrow> (x # c) # cs)"

definition components :: "u8 list \<Rightarrow> u8 list list" where
  "components s = filter (\<lambda>c. c \<noteq> []) (split_slash s)"

lemma split_slash_nonempty [simp]: "split_slash s \<noteq> []"
  by (induction s) (auto split: list.splits)

lemma split_slash_no: "47 \<notin> set s \<Longrightarrow> split_slash s = [s]"
  by (induction s) auto

lemma split_slash_append: "47 \<notin> set s \<Longrightarrow> split_slash (s @ 47 # t) = s # split_slash t"
  by (induction s) auto

lemma components_simps:
  "components [] = []"
  "47 \<notin> set s \<Longrightarrow> s \<noteq> [] \<Longrightarrow> components s = [s]"
  "components (47 # t) = components t"
  "47 \<notin> set s \<Longrightarrow> s \<noteq> [] \<Longrightarrow> components (s @ 47 # t) = s # components t"
  by (simp_all add: components_def split_slash_no split_slash_append)

lemma sint_slash: "sint (x :: u8) = 47 \<longleftrightarrow> x = 47"
proof -
  have "sint (47 :: u8) = 47" by simp
  then show ?thesis by (metis signed_word_eqI)
qed

lemma first_component:
  obtains (last) "47 \<notin> set s" | (slash) a t where "s = a @ 47 # t" "47 \<notin> set a"
  by (metis split_list_first)

text \<open>A reader whose unread path is \<open>s\<close>.\<close>

definition reads :: "path_reader \<Rightarrow> u8 list \<Rightarrow> bool" where
  "reads r s \<longleftrightarrow> cstr (pr_path r) (remaining_path r) s \<and> length (name_buf r) = NAME_MAX + 1"

lemma next_slash:
  assumes "cstr b p (a @ 47 # t)" and "47 \<notin> set a"
  shows "kstrchr b p 47 = Inr (Some (p + length a))" and "cstr b (p + length a + 1) t"
proof -
  have "\<forall>x\<in>set a. x \<noteq> 47" using assms(2) by blast
  then have "\<forall>x\<in>set a. sint x \<noteq> 47" by (simp only: sint_slash)
  then have "takeWhile (\<lambda>x. sint x \<noteq> 47) (a @ 47 # t) = a" by simp
  then show "kstrchr b p 47 = Inr (Some (p + length a))" using kstrchr_eq [OF assms(1), of 47] by (simp add: sint_slash)
  show "cstr b (p + length a + 1) t" using cstr_drop [OF assms(1), of "length a + 1"] by simp
qed

lemma next_end:
  assumes "reads r s" and "47 \<notin> set s"
  shows "pathreader_next r = (if s = [] then Inr (r, - ENOENT, None)
    else Inr (r\<lparr>remaining_path := remaining_path r + length s\<rparr>, 0, Some (Path_at (remaining_path r))))"
proof -
  have c: "cstr (pr_path r) (remaining_path r) s" using assms(1) by (simp add: reads_def)
  have "\<forall>x\<in>set s. x \<noteq> 0" using c by (auto simp: cstr_def)
  then have nz: "takeWhile (\<lambda>x. sint x \<noteq> 0) s = s" by (simp only: takeWhile_eq_all_conv sint_zero_iff)
  have "\<forall>x\<in>set s. x \<noteq> 47" using assms(2) by blast
  then have "\<forall>x\<in>set s. sint x \<noteq> 47" by (simp only: sint_slash)
  then have "kstrchr (pr_path r) (remaining_path r) 47 = Inr None"
    using kstrchr_eq [OF c, of 47] by simp
  moreover have "kstrchr (pr_path r) (remaining_path r) 0 = Inr (Some (remaining_path r + length s))"
    using kstrchr_eq [OF c, of 0] nz by simp
  moreover have "load (pr_path r) (remaining_path r) = Inr (if s = [] then 0 else hd s)" "s \<noteq> [] \<Longrightarrow> hd s \<noteq> 0"
    using c by (cases s; auto dest: cstr_Nil cstr_Cons)+
  ultimately show ?thesis
    by (cases "s = []") (simp_all add: pathreader_next.simps [of r])
qed

lemma next_step:
  assumes "reads r (a @ 47 # t)" and "47 \<notin> set a" and "length a \<le> NAME_MAX"
  shows "\<exists>r'. reads r' t \<and> pr_path r' = pr_path r \<and> cstr (name_buf r') 0 a \<and>
    pathreader_next r = (if a = [] then pathreader_next r' else Inr (r', 0, Some Name_buf))"
proof -
  let ?b = "pr_path r" and ?p = "remaining_path r"
  have c: "cstr ?b ?p (a @ 47 # t)" and nb: "length (name_buf r) = NAME_MAX + 1" using assms(1) by (auto simp: reads_def)
  note s = next_slash [OF c assms(2)]
  have bound: "?p + length a \<le> length ?b" using cstr_bound [OF c] by simp
  have bytes: "take (length a) (drop ?p ?b) = a" using c by (auto simp: cstr_def)
  let ?buf = "a @ 0 # drop (length a + 1) (name_buf r)"
  have "vmemcpy (name_buf r) 0 ?b ?p (length a) = Inr (a @ drop (length a) (name_buf r))"
    using vmemcpy_eq [of 0 "length a" "name_buf r" ?p ?b] bound nb assms(3) bytes by simp
  moreover have "store (a @ drop (length a) (name_buf r)) (length a) 0 = Inr ?buf"
    using nb assms(3) by (simp add: store_def list_update_append Cons_nth_drop_Suc [symmetric])
  moreover have "load ?buf 0 = Inr (if a = [] then 0 else hd a)"
    by (cases a) (simp_all add: load_def)
  moreover have "load ?b ?p = Inr (if a = [] then 47 else hd a)"
    using c cstr_Cons [of ?b ?p] by (cases a) (auto simp: load_def)
  moreover have "a \<noteq> [] \<Longrightarrow> hd a \<noteq> 0" using c by (cases a) (auto simp: cstr_def)
  ultimately have "pathreader_next r = (let r' = r\<lparr>name_buf := ?buf, remaining_path := ?p + length a + 1\<rparr> in
      if a = [] then pathreader_next r' else Inr (r', 0, Some Name_buf))"
    using s(1) assms(3) by (cases "a = []") (simp_all add: pathreader_next.simps [of r] Let_def)
  moreover have "cstr ?buf 0 a" using c by (auto simp: cstr_def)
  ultimately show ?thesis
    using s(2) nb assms(3) by (intro exI [of _ "r\<lparr>name_buf := ?buf, remaining_path := ?p + length a + 1\<rparr>"])
      (auto simp: reads_def Let_def)
qed

lemma next_too_long:
  assumes "reads r (a @ 47 # t)" and "47 \<notin> set a" and "NAME_MAX < length a"
  shows "pathreader_next r = Inr (r, - ENAMETOOLONG, None)"
proof -
  have c: "cstr (pr_path r) (remaining_path r) (a @ 47 # t)" using assms(1) by (simp add: reads_def)
  then have "load (pr_path r) (remaining_path r) = Inr (hd a)" "hd a \<noteq> 0"
    using assms(3) cstr_Cons [of "pr_path r" "remaining_path r" "hd a" "tl a @ 47 # t"] by (cases a; auto)+
  then show ?thesis using next_slash(1) [OF c assms(2)] assms(3) by (simp add: pathreader_next.simps [of r])
qed

subsection \<open>Reading a whole path\<close>

lemma pathreader_next_spec:
  assumes "reads r s" and "\<forall>c\<in>set (components s). length c \<le> NAME_MAX"
  shows "case components s of
      [] \<Rightarrow> \<exists>r'. pathreader_next r = Inr (r', - ENOENT, None) \<and> reads r' []
    | c # cs \<Rightarrow> \<exists>r' p s'. pathreader_next r = Inr (r', 0, Some p) \<and> name_at r' p c \<and>
        reads r' s' \<and> components s' = cs"
  using assms
proof (induction "length s" arbitrary: r s rule: less_induct)
  case less
  show ?case
  proof (cases s rule: first_component)
    case last
    then have n: "pathreader_next r = (if s = [] then Inr (r, - ENOENT, None)
        else Inr (r\<lparr>remaining_path := remaining_path r + length s\<rparr>, 0, Some (Path_at (remaining_path r))))"
      using next_end less.prems(1) by blast
    have "reads (r\<lparr>remaining_path := remaining_path r + length s\<rparr>) []"
      using less.prems(1) cstr_drop [of "pr_path r" "remaining_path r" s "length s"] by (simp add: reads_def)
    then show ?thesis
      using n less.prems(1) last
      by (cases "s = []") (auto simp: components_simps name_at_def reads_def intro!: exI [of _ "[]"])
  next
    case (slash a t)
    have "length a \<le> NAME_MAX" using less.prems(2) slash by (cases "a = []") (auto simp: components_simps)
    then obtain r' where r': "reads r' t" "cstr (name_buf r') 0 a"
        "pathreader_next r = (if a = [] then pathreader_next r' else Inr (r', 0, Some Name_buf))"
      using next_step less.prems(1) slash by blast
    show ?thesis
    proof (cases "a = []")
      case True
      then show ?thesis
        using less.hyps [of t r'] r' less.prems(2) slash
        by (simp add: components_simps split: list.splits)
    next
      case False
      then show ?thesis using r' slash by (auto simp: components_simps name_at_def)
    qed
  qed
qed

text \<open>
  The loop of the path reader's clients: call \<open>pathreader_next\<close> until \<open>-ENOENT\<close>. The list collects the
  strings the returned pointers designate at that time; \<open>None\<close> is an error code, a fault, or no fuel.
\<close>

fun read_string :: "nat \<Rightarrow> u8 list \<Rightarrow> nat \<Rightarrow> u8 list" where
  "read_string 0 b p = []"
| "read_string (Suc n) b p = (if p < length b \<and> b ! p \<noteq> 0 then b ! p # read_string n b (p + 1) else [])"

definition name_string :: "path_reader \<Rightarrow> name_ptr \<Rightarrow> u8 list" where
  "name_string r p = (case p of
     Name_buf \<Rightarrow> read_string (length (name_buf r)) (name_buf r) 0
   | Path_at q \<Rightarrow> read_string (length (pr_path r)) (pr_path r) q)"

fun read_names :: "nat \<Rightarrow> path_reader \<Rightarrow> u8 list list option" where
  "read_names 0 r = None"
| "read_names (Suc n) r =
     (case pathreader_next r of
        Inl _ \<Rightarrow> None
      | Inr (r', ret, name) \<Rightarrow>
          if ret = - ENOENT then Some []
          else case name of
            None \<Rightarrow> None
          | Some p \<Rightarrow> map_option (\<lambda>cs. name_string r' p # cs) (read_names n r'))"

lemma read_string_cstr: "cstr b p s \<Longrightarrow> length s \<le> n \<Longrightarrow> read_string n b p = s"
proof (induction s arbitrary: p n)
  case Nil
  then show ?case using cstr_Nil [OF Nil(1)] by (cases n) simp_all
next
  case (Cons x s)
  then show ?case using cstr_Cons [OF Cons.prems(1)] by (cases n) auto
qed

lemma name_string_eq: "name_at r p s \<Longrightarrow> name_string r p = s"
  using cstr_bound [of "name_buf r" 0 s] cstr_bound [of "pr_path r" _ s]
  by (cases p) (force simp: name_at_def name_string_def intro!: read_string_cstr)+

lemma read_names_eq:
  assumes "reads r s" and "\<forall>c\<in>set (components s). length c \<le> NAME_MAX" and "length (components s) < n"
  shows "read_names n r = Some (components s)"
  using assms
proof (induction n arbitrary: r s)
  case 0
  then show ?case by simp
next
  case (Suc n)
  show ?case
  proof (cases "components s")
    case Nil
    then show ?thesis using pathreader_next_spec [OF Suc.prems(1,2)] by auto
  next
    case (Cons c cs)
    then obtain r' p s' where n: "pathreader_next r = Inr (r', 0, Some p)" "name_at r' p c" "reads r' s'" "components s' = cs"
      using pathreader_next_spec [OF Suc.prems(1,2)] by auto
    then have "read_names n r' = Some cs" using Suc Cons by auto
    with n show ?thesis by (simp add: Cons name_string_eq ENOENT_def)
  qed
qed

subsection \<open>Properties\<close>

text \<open>
  Reading a path to its end yields exactly its nonempty components between slashes, in
  order, whatever leading, repeated or trailing slashes it has, and never reads or writes outside the
  path and the name buffer, when no component is longer than \<open>NAME_MAX\<close>. The loop ends.
\<close>

lemma pathreader_reads_components:
  assumes "cstr path p s" and "length (name_buf r) = NAME_MAX + 1"
    and "\<forall>c\<in>set (components s). length c \<le> NAME_MAX"
  shows "read_names (length (components s) + 1) (pathreader_init r path p) = Some (components s)"
  using read_names_eq [of "pathreader_init r path p" s "length (components s) + 1"] assms
  by (simp add: reads_def pathreader_init_def)

text \<open>
  the limit on the length of a component is applied only before a slash: a component of
  more than \<open>NAME_MAX\<close> characters gives \<open>-ENAMETOOLONG\<close> when a slash follows it, and is returned as a
  name when it ends the path.
\<close>

lemma name_limit_not_applied_to_last:
  assumes "cstr b p a" and "47 \<notin> set a" and "NAME_MAX < length a"
    and "cstr b' q (a @ 47 # t)" and "length (name_buf r) = NAME_MAX + 1"
  shows "pathreader_next (pathreader_init r b' q) = Inr (pathreader_init r b' q, - ENAMETOOLONG, None) \<and>
    (\<exists>r'. pathreader_next (pathreader_init r b p) = Inr (r', 0, Some (Path_at p)) \<and> name_at r' (Path_at p) a)"
proof -
  have "reads (pathreader_init r b p) a" "reads (pathreader_init r b' q) (a @ 47 # t)"
    using assms by (simp_all add: reads_def pathreader_init_def)
  then show ?thesis
    using next_too_long [of "pathreader_init r b' q" a t] next_end [of "pathreader_init r b p" a] assms
    by (auto simp: name_at_def pathreader_init_def)
qed

end
