(* ===== verification/Queue.thy ===== *)
theory Queue
  imports Strutil
begin

text \<open>
  The ring buffer (kernel/lib/queue.c). The storage is a byte array of \<open>cap\<close> slots of \<open>item_size\<close> bytes;
  items are copied in and out with \<open>vmemcpy\<close>. It is shown to refine a bounded FIFO list of items.
\<close>

record queue =
  qbuf :: "u8 list"
  enqueue_index :: nat
  dequeue_index :: nat
  item_size :: nat
  cap :: nat
  last_was_enqueue :: bool

definition queue_init :: "u8 list \<Rightarrow> nat \<Rightarrow> nat \<Rightarrow> queue" where
  "queue_init buf itemsize n =
     \<lparr>qbuf = buf, enqueue_index = 0, dequeue_index = 0, item_size = itemsize, cap = n, last_was_enqueue = False\<rparr>"

definition queue_is_full :: "queue \<Rightarrow> bool" where
  "queue_is_full self \<longleftrightarrow> enqueue_index self = dequeue_index self \<and> last_was_enqueue self"

definition queue_is_empty :: "queue \<Rightarrow> bool" where
  "queue_is_empty self \<longleftrightarrow> enqueue_index self = dequeue_index self \<and> \<not> last_was_enqueue self"

definition queue_enqueue :: "queue \<Rightarrow> u8 list \<Rightarrow> nat \<Rightarrow> (queue \<times> int) res" where
  "queue_enqueue self data itemsize =
     bind_res (assert_res (itemsize = item_size self)) (\<lambda>_.
     if queue_is_full self then Inr (self, - ENOMEM)
     else
       (let i = (enqueue_index self + 1) mod cap self in
        bind_res (vmemcpy (qbuf self) (enqueue_index self * itemsize) data 0 itemsize) (\<lambda>buf.
        Inr (self\<lparr>qbuf := buf, enqueue_index := i, last_was_enqueue := True\<rparr>, 0))))"

text \<open>The output buffer is the item read; \<open>None\<close> when the queue is empty (the C result is false).\<close>

definition queue_dequeue :: "queue \<Rightarrow> nat \<Rightarrow> (queue \<times> u8 list option) res" where
  "queue_dequeue self itemsize =
     bind_res (assert_res (itemsize = item_size self)) (\<lambda>_.
     if queue_is_empty self then Inr (self, None)
     else
       (let i = (dequeue_index self + 1) mod cap self in
        bind_res (vmemcpy (replicate itemsize 0) 0 (qbuf self) (dequeue_index self * itemsize) itemsize) (\<lambda>out.
        Inr (self\<lparr>dequeue_index := i, last_was_enqueue := False\<rparr>, Some out))))"

text \<open>\<open>queue_peek\<close> returns the offset of the oldest item in the storage.\<close>

definition queue_peek :: "queue \<Rightarrow> nat \<Rightarrow> nat option res" where
  "queue_peek self itemsize =
     bind_res (assert_res (itemsize = item_size self)) (\<lambda>_.
     Inr (if queue_is_empty self then None else Some (dequeue_index self * itemsize)))"

subsection \<open>Abstraction to a FIFO list\<close>

definition slot :: "queue \<Rightarrow> nat \<Rightarrow> u8 list" where
  "slot q i = take (item_size q) (drop (i * item_size q) (qbuf q))"

definition queue_length :: "queue \<Rightarrow> nat" where
  "queue_length q =
     (if queue_is_full q then cap q
      else if dequeue_index q \<le> enqueue_index q then enqueue_index q - dequeue_index q
      else cap q + enqueue_index q - dequeue_index q)"

definition queue_items :: "queue \<Rightarrow> u8 list list" where
  "queue_items q = map (\<lambda>k. slot q ((dequeue_index q + k) mod cap q)) [0..<queue_length q]"

definition wf_queue :: "queue \<Rightarrow> bool" where
  "wf_queue q \<longleftrightarrow> 0 < cap q \<and> 0 < item_size q \<and> length (qbuf q) = cap q * item_size q \<and>
     enqueue_index q < cap q \<and> dequeue_index q < cap q"

lemma queue_length_bound: "wf_queue q \<Longrightarrow> queue_length q \<le> cap q"
  by (auto simp: wf_queue_def queue_length_def)

lemma empty_iff: "wf_queue q \<Longrightarrow> queue_is_empty q \<longleftrightarrow> queue_items q = []"
  by (auto simp: wf_queue_def queue_length_def queue_items_def queue_is_full_def queue_is_empty_def)

lemma full_iff: "wf_queue q \<Longrightarrow> queue_is_full q \<longleftrightarrow> length (queue_items q) = cap q"
  by (auto simp: wf_queue_def queue_length_def queue_items_def queue_is_full_def)

lemma slot_range: "wf_queue q \<Longrightarrow> i < cap q \<Longrightarrow> i * item_size q + item_size q \<le> length (qbuf q)"
  unfolding wf_queue_def by (metis add.commute mult_Suc mult_le_mono1 Suc_leI)

lemma ring_position:
  assumes "(d :: nat) < c" and "k \<le> c"
  shows "(d + k) mod c = (if d + k < c then d + k else d + k - c)"
  using assms by (simp add: le_mod_geq)

lemma ring_next: "(d :: nat) < c \<Longrightarrow> Suc d mod c = (if Suc d = c then 0 else Suc d)"
  by (simp add: mod_Suc)

lemma enqueue_position: "wf_queue q \<Longrightarrow> (dequeue_index q + queue_length q) mod cap q = enqueue_index q"
  using ring_position [of "dequeue_index q" "cap q" "queue_length q"] queue_length_bound [of q]
  by (auto simp: wf_queue_def queue_length_def queue_is_full_def)

lemma position_distinct:
  assumes "wf_queue q" and "k < queue_length q" and "\<not> queue_is_full q"
  shows "(dequeue_index q + k) mod cap q \<noteq> enqueue_index q"
proof -
  have "k \<le> cap q" using assms(1,2) queue_length_bound by force
  then show ?thesis
    using ring_position [of "dequeue_index q" "cap q" k] assms
    by (auto simp: wf_queue_def queue_length_def split: if_splits)
qed

lemma slot_write:
  assumes "length data = n" and "e * n + n \<le> length b" and "i \<noteq> e"
  shows "take n (drop (i * n) (take (e * n) b @ data @ drop (e * n + n) b)) = take n (drop (i * n) b)"
proof (cases "i < e")
  case True
  then have "i * n + n \<le> e * n" by (metis Suc_leI add.commute mult_Suc mult_le_mono1)
  then have "i * n \<le> e * n" "n \<le> e * n - i * n" "e * n \<le> length b" using assms(2) by linarith+
  then show ?thesis by (simp add: drop_take min_absorb1 min_absorb2)
next
  case False
  then have "e * n + n \<le> i * n" using assms(3) by (metis Suc_leI add.commute mult_Suc mult_le_mono1 linorder_neqE_nat)
  then have "e * n \<le> i * n" "e * n - i * n = 0" by linarith+
  with assms \<open>e * n + n \<le> i * n\<close> show ?thesis by simp
qed

lemma queue_enqueue_spec:
  assumes "wf_queue q" and "length data = item_size q"
  shows "\<exists>q' r. queue_enqueue q data (item_size q) = Inr (q', r) \<and> wf_queue q' \<and> cap q' = cap q \<and> item_size q' = item_size q \<and>
    (if length (queue_items q) = cap q then r = - ENOMEM \<and> q' = q
     else r = 0 \<and> queue_items q' = queue_items q @ [data])"
proof (cases "queue_is_full q")
  case True
  then show ?thesis using assms full_iff [OF assms(1)] by (simp add: queue_enqueue_def)
next
  case False
  let ?n = "item_size q" and ?e = "enqueue_index q"
  let ?buf = "take (?e * ?n) (qbuf q) @ data @ drop (?e * ?n + ?n) (qbuf q)"
  let ?q = "q\<lparr>qbuf := ?buf, enqueue_index := (?e + 1) mod cap q, last_was_enqueue := True\<rparr>"
  have e: "?e < cap q" using assms(1) by (simp add: wf_queue_def)
  note sr = slot_range [OF assms(1) e]
  have run: "queue_enqueue q data ?n = Inr (?q, 0)"
    using False sr assms(2) vmemcpy_eq [of "?e * ?n" ?n "qbuf q" 0 data] by (simp add: queue_enqueue_def Let_def)
  have wf: "wf_queue ?q" using assms sr by (auto simp: wf_queue_def)
  have len: "queue_length ?q = Suc (queue_length q)"
    using assms(1) False by (auto simp: queue_length_def queue_is_full_def wf_queue_def ring_next split: if_splits)
  have old: "slot ?q i = slot q i" if "i \<noteq> ?e" for i
    using slot_write [OF assms(2) sr that] by (simp add: slot_def)
  have new: "slot ?q ?e = data" using sr assms(2) by (simp add: slot_def min_def)
  have "queue_items ?q = queue_items q @ [data]"
    using len position_distinct [OF assms(1) _ False] old new enqueue_position [OF assms(1)]
    by (simp add: queue_items_def)
  then show ?thesis using run wf False full_iff [OF assms(1)] by simp
qed

lemma queue_dequeue_spec:
  assumes "wf_queue q"
  shows "\<exists>q' r. queue_dequeue q (item_size q) = Inr (q', r) \<and> wf_queue q' \<and> cap q' = cap q \<and> item_size q' = item_size q \<and>
    (case queue_items q of [] \<Rightarrow> r = None \<and> q' = q | x # xs \<Rightarrow> r = Some x \<and> queue_items q' = xs)"
proof (cases "queue_is_empty q")
  case True
  then show ?thesis using assms empty_iff [OF assms] by (simp add: queue_dequeue_def)
next
  case False
  let ?n = "item_size q" and ?d = "dequeue_index q"
  let ?q = "q\<lparr>dequeue_index := (?d + 1) mod cap q, last_was_enqueue := False\<rparr>"
  have d: "?d < cap q" using assms by (simp add: wf_queue_def)
  have run: "queue_dequeue q ?n = Inr (?q, Some (slot q ?d))"
    using False slot_range [OF assms d] vmemcpy_eq [of 0 ?n "replicate ?n 0" "?d * ?n" "qbuf q"]
    by (simp add: queue_dequeue_def Let_def slot_def)
  have len: "queue_length q = Suc (queue_length ?q)"
    using assms False by (auto simp: queue_length_def queue_is_full_def queue_is_empty_def wf_queue_def ring_next split: if_splits)
  have "queue_items q = slot q ?d # queue_items ?q"
    using len d by (simp add: queue_items_def slot_def upt_conv_Cons map_Suc_upt [symmetric] comp_def mod_add_left_eq mod_Suc_eq del: upt_Suc)
  moreover have "wf_queue ?q" using assms by (simp add: wf_queue_def)
  ultimately show ?thesis using run by simp
qed

subsection \<open>The interface of a bounded FIFO\<close>

text \<open>
  The contract on which the clients (the PS/2 ports, the keyboard events and the commands) rely.
\<close>

locale bounded_fifo =
  fixes inv :: "'q \<Rightarrow> bool"
    and items :: "'q \<Rightarrow> 'a list"
    and capacity :: "'q \<Rightarrow> nat"
    and fits :: "'q \<Rightarrow> 'a \<Rightarrow> bool"
    and put :: "'q \<Rightarrow> 'a \<Rightarrow> ('q \<times> int) res"
    and get :: "'q \<Rightarrow> ('q \<times> 'a option) res"
  assumes put: "inv q \<Longrightarrow> fits q x \<Longrightarrow>
      \<exists>q' r. put q x = Inr (q', r) \<and> inv q' \<and> capacity q' = capacity q \<and> fits q' = fits q \<and>
        (if length (items q) = capacity q then r = - ENOMEM \<and> q' = q else r = 0 \<and> items q' = items q @ [x])"
    and get: "inv q \<Longrightarrow>
      \<exists>q' r. get q = Inr (q', r) \<and> inv q' \<and> capacity q' = capacity q \<and> fits q' = fits q \<and>
        (case items q of [] \<Rightarrow> r = None \<and> q' = q | x # xs \<Rightarrow> r = Some x \<and> items q' = xs)"
    and bound: "inv q \<Longrightarrow> length (items q) \<le> capacity q"
begin

text \<open>A run of puts and a run of gets, each stopping at the first refusal.\<close>

fun put_all :: "'q \<Rightarrow> 'a list \<Rightarrow> ('q \<times> int) res" where
  "put_all q [] = Inr (q, 0)"
| "put_all q (x # xs) = bind_res (put q x) (\<lambda>(q, r). if r \<noteq> 0 then Inr (q, r) else put_all q xs)"

fun get_all :: "nat \<Rightarrow> 'q \<Rightarrow> ('q \<times> 'a list) res" where
  "get_all 0 q = Inr (q, [])"
| "get_all (Suc n) q = bind_res (get q) (\<lambda>(q, r).
     case r of None \<Rightarrow> Inr (q, []) | Some x \<Rightarrow> bind_res (get_all n q) (\<lambda>(q, xs). Inr (q, x # xs)))"

lemma put_all_items:
  "inv q \<Longrightarrow> \<forall>x\<in>set xs. fits q x \<Longrightarrow> length (items q) + length xs \<le> capacity q \<Longrightarrow>
   \<exists>q'. put_all q xs = Inr (q', 0) \<and> inv q' \<and> capacity q' = capacity q \<and> items q' = items q @ xs"
proof (induction xs arbitrary: q)
  case Nil
  then show ?case by simp
next
  case (Cons x xs)
  obtain q1 r where p: "put q x = Inr (q1, r)" "inv q1" "capacity q1 = capacity q" "fits q1 = fits q"
      "r = 0" "items q1 = items q @ [x]"
    using put [OF Cons.prems(1), of x] Cons.prems by auto
  then obtain q' where "put_all q1 xs = Inr (q', 0)" "inv q'" "capacity q' = capacity q1" "items q' = items q1 @ xs"
    using Cons.IH [of q1] Cons.prems by auto
  with p show ?case by simp
qed

lemma get_all_items:
  "inv q \<Longrightarrow> n \<le> length (items q) \<Longrightarrow>
   \<exists>q'. get_all n q = Inr (q', take n (items q)) \<and> inv q' \<and> capacity q' = capacity q \<and> items q' = drop n (items q)"
proof (induction n arbitrary: q)
  case 0
  then show ?case by simp
next
  case (Suc n)
  then obtain x xs where items: "items q = x # xs" by (cases "items q") auto
  then obtain q1 where g: "get q = Inr (q1, Some x)" "inv q1" "capacity q1 = capacity q" "items q1 = xs"
    using get [OF Suc.prems(1)] by auto
  then show ?case using Suc.IH [of q1] Suc.prems(2) items by auto
qed

lemma fifo_order:
  assumes "inv q" and "items q = []" and "\<forall>x\<in>set xs. fits q x" and "length xs \<le> capacity q"
  shows "\<exists>q1 q2. put_all q xs = Inr (q1, 0) \<and> get_all (length xs) q1 = Inr (q2, xs) \<and> inv q2 \<and> items q2 = []"
proof -
  obtain q1 where q1: "put_all q xs = Inr (q1, 0)" "inv q1" "items q1 = xs"
    using put_all_items [of q xs] assms by auto
  then show ?thesis using get_all_items [of q1 "length xs"] by auto
qed

lemma full_refuses:
  assumes "inv q" and "fits q x" and "length (items q) = capacity q"
  shows "put q x = Inr (q, - ENOMEM)"
  using put [OF assms(1,2)] assms(3) by auto

end

definition item_fits :: "queue \<Rightarrow> u8 list \<Rightarrow> bool" where
  "item_fits q x \<longleftrightarrow> length x = item_size q"

interpretation ring: bounded_fifo wf_queue queue_items cap item_fits
  "\<lambda>q x. queue_enqueue q x (item_size q)" "\<lambda>q. queue_dequeue q (item_size q)"
proof unfold_locales
  fix q :: queue and x :: "u8 list"
  assume "wf_queue q" "item_fits q x"
  then show "\<exists>q' r. queue_enqueue q x (item_size q) = Inr (q', r) \<and> wf_queue q' \<and> cap q' = cap q \<and> item_fits q' = item_fits q \<and>
      (if length (queue_items q) = cap q then r = - ENOMEM \<and> q' = q else r = 0 \<and> queue_items q' = queue_items q @ [x])"
    using queue_enqueue_spec [of q x] by (fastforce simp: item_fits_def fun_eq_iff)
next
  fix q :: queue
  assume "wf_queue q"
  then show "\<exists>q' r. queue_dequeue q (item_size q) = Inr (q', r) \<and> wf_queue q' \<and> cap q' = cap q \<and> item_fits q' = item_fits q \<and>
      (case queue_items q of [] \<Rightarrow> r = None \<and> q' = q | x # xs \<Rightarrow> r = Some x \<and> queue_items q' = xs)"
    using queue_dequeue_spec [of q] by (fastforce simp: item_fits_def fun_eq_iff)
next
  fix q :: queue
  assume "wf_queue q"
  then show "length (queue_items q) \<le> cap q" by (simp add: queue_items_def queue_length_bound)
qed

subsection \<open>Properties\<close>

text \<open>
  Claim C12: the ring buffer refines a bounded FIFO of items. Enqueueing appends the item, or returns
  \<open>-ENOMEM\<close> and changes nothing when all \<open>cap\<close> slots are used; dequeueing removes and returns the
  oldest item, or reports an empty queue; the byte storage is never accessed out of bounds.
\<close>

theorem queue_refines_fifo:
  assumes "wf_queue q" and "length data = item_size q"
  shows "(\<exists>q' r. queue_enqueue q data (item_size q) = Inr (q', r) \<and> wf_queue q' \<and>
      (if length (queue_items q) = cap q then r = - ENOMEM \<and> q' = q
       else r = 0 \<and> queue_items q' = queue_items q @ [data])) \<and>
    (\<exists>q' r. queue_dequeue q (item_size q) = Inr (q', r) \<and> wf_queue q' \<and>
      (case queue_items q of [] \<Rightarrow> r = None \<and> q' = q | x # xs \<Rightarrow> r = Some x \<and> queue_items q' = xs))"
  using queue_enqueue_spec [OF assms] queue_dequeue_spec [OF assms(1)] by blast

theorem queue_refines_fifo_witness:
  "\<exists>q' r. queue_enqueue (queue_init [0, 0, 0, 0] 2 2) [7, 8] 2 = Inr (q', r) \<and> wf_queue q' \<and> r = 0 \<and> queue_items q' = [[7, 8]]"
proof -
  have "wf_queue (queue_init [0, 0, 0, 0] 2 2)" "queue_items (queue_init [0, 0, 0, 0] 2 2) = []"
    by (simp_all add: wf_queue_def queue_init_def queue_items_def queue_length_def queue_is_full_def)
  with queue_refines_fifo [of "queue_init [0, 0, 0, 0] 2 2" "[7, 8]"] show ?thesis
    by (simp add: queue_init_def)
qed

text \<open>
  A fresh queue returns items in the order they were put in: up to \<open>cap\<close> items enqueued
  one after the other all succeed, and as many dequeues return exactly these items in order and
  leave the queue empty.
\<close>

lemma queue_fifo_order:
  assumes "0 < n" and "0 < itemsize" and "length buf = n * itemsize"
    and "\<forall>x\<in>set xs. length x = itemsize" and "length xs \<le> n"
  shows "\<exists>q1 q2. ring.put_all (queue_init buf itemsize n) xs = Inr (q1, 0) \<and>
    ring.get_all (length xs) q1 = Inr (q2, xs) \<and> queue_items q2 = []"
proof -
  have "wf_queue (queue_init buf itemsize n)" "queue_items (queue_init buf itemsize n) = []"
    using assms(1-3) by (simp_all add: wf_queue_def queue_init_def queue_items_def queue_length_def queue_is_full_def)
  moreover have "\<forall>x\<in>set xs. item_fits (queue_init buf itemsize n) x" using assms(4) by (simp add: item_fits_def queue_init_def)
  moreover have "cap (queue_init buf itemsize n) = n" by (simp add: queue_init_def)
  ultimately show ?thesis using ring.fifo_order [of "queue_init buf itemsize n" xs] assms(5) by auto
qed

end
