(* ===== verification/Sched.thy ===== *)
theory Sched
  imports Prelude "HOL-Library.Multiset"
begin

text \<open>
  Threads, mutexes and the scheduler (kernel/tasks/thread.c, mutex.c, sched.c). Threads, mutexes and
  scheduler queues are named by their addresses; 0 is the null pointer. The linked lists are HOL
  lists, front first, which is what the refinement lemmas of the list component justify. Every
  operation runs with interrupts disabled and is one step of the model; a context switch
  changes \<open>running\<close>. Memory from the heap is an argument \<open>mem\<close>: the address that \<open>heap_alloc\<close> would return,
  or 0.
\<close>

record source_location =
  sl_filename :: nat
  sl_function :: nat
  sl_line :: int

record mutex =
  locksource :: source_location
  locked :: bool

record thread =
  waitingmutex :: nat
  desired_locksource :: source_location
  t_priority :: int
  shutdown :: bool

record sched_queue =
  q_addr :: nat
  q_priority :: int
  opportunities :: nat
  q_threads :: "nat list"

record sched =
  queues :: "sched_queue list"
  current_queue :: nat
  running :: nat
  mutexwait :: "nat list"
  thread_of :: "nat \<Rightarrow> thread"
  mutex_of :: "nat \<Rightarrow> mutex"
  freed :: "nat list"

definition BOOT_THREAD_PRIORITY :: int where
  "BOOT_THREAD_PRIORITY = 20"

definition no_location :: source_location where
  "no_location = \<lparr>sl_filename = 0, sl_function = 0, sl_line = 0\<rparr>"

subsection \<open>Mutexes\<close>

definition mutex_init :: mutex where
  "mutex_init = \<lparr>locksource = no_location, locked = False\<rparr>"

definition set_mutex :: "nat \<Rightarrow> mutex \<Rightarrow> sched \<Rightarrow> sched" where
  "set_mutex m x s = s\<lparr>mutex_of := (mutex_of s)(m := x)\<rparr>"

definition set_thread :: "nat \<Rightarrow> thread \<Rightarrow> sched \<Rightarrow> sched" where
  "set_thread t x s = s\<lparr>thread_of := (thread_of s)(t := x)\<rparr>"

definition mutex_try_lock :: "nat \<Rightarrow> source_location \<Rightarrow> sched \<Rightarrow> sched \<times> bool" where
  "mutex_try_lock m loc s =
     (if locked (mutex_of s m) then (s, False)
      else (set_mutex m \<lparr>locksource = loc, locked = True\<rparr> s, True))"

definition mutex_unlock :: "nat \<Rightarrow> sched \<Rightarrow> sched" where
  "mutex_unlock m s = set_mutex m \<lparr>locksource = no_location, locked = False\<rparr> s"

subsection \<open>Threads\<close>

text \<open>\<open>arch_mem\<close> is the outcome of \<open>arch_thread_create\<close>; without it the thread's memory is freed again.\<close>

definition thread_create :: "nat \<Rightarrow> nat \<Rightarrow> sched \<Rightarrow> sched \<times> nat" where
  "thread_create mem arch_mem s =
     (if mem = 0 then (s, 0)
      else if arch_mem = 0 then (s, 0)
      else (set_thread mem \<lparr>waitingmutex = 0, desired_locksource = no_location, t_priority = 0, shutdown = False\<rparr>
        (s\<lparr>freed := removeAll mem (freed s)\<rparr>), mem))"

definition thread_delete :: "nat \<Rightarrow> sched \<Rightarrow> sched" where
  "thread_delete t s = (if t = 0 then s else s\<lparr>freed := t # freed s\<rparr>)"

definition thread_switch :: "nat \<Rightarrow> nat \<Rightarrow> sched \<Rightarrow> sched" where
  "thread_switch old to s = s\<lparr>running := to\<rparr>"

subsection \<open>Queues\<close>





fun reset_loop :: "nat \<Rightarrow> sched_queue list \<Rightarrow> sched_queue list" where
  "reset_loop n [] = []"
| "reset_loop n (q # qs) = q\<lparr>opportunities := n\<rparr> # reset_loop (n + 1) qs"

definition reset_queues :: "sched \<Rightarrow> sched" where
  "reset_queues s = s\<lparr>queues := reset_loop 1 (queues s)\<rparr>"

definition update_queue :: "nat \<Rightarrow> (sched_queue \<Rightarrow> sched_queue) \<Rightarrow> sched_queue list \<Rightarrow> sched_queue list" where
  "update_queue a f = map (\<lambda>q. if q_addr q = a then f q else q)"

text \<open>
  A position in the queue list is the suffix that starts there. The inner loop of \<open>pick_next_queue\<close>
  skips the current queue and queues without opportunities or without threads.
\<close>

fun scan_queues :: "nat \<Rightarrow> sched_queue list \<Rightarrow> sched_queue list" where
  "scan_queues cur [] = []"
| "scan_queues cur (q # qs) =
     (if q_addr q = cur then scan_queues cur qs
      else if opportunities q \<noteq> 0 \<and> q_threads q \<noteq> [] then q # qs
      else scan_queues cur qs)"

definition pick_next_queue :: "sched \<Rightarrow> sched \<times> nat" where
  "pick_next_queue s =
     (let cur = current_queue s;
          node = if cur \<noteq> 0 then dropWhile (\<lambda>q. q_addr q \<noteq> cur) (queues s) else [];
          node = scan_queues cur node;
          node = if node = [] then queues s else node;
          node = scan_queues cur node in
      case node of
        q # _ \<Rightarrow>
          (s\<lparr>queues := update_queue (q_addr q) (\<lambda>q. q\<lparr>opportunities := sz_sub (opportunities q) 1\<rparr>) (queues s),
             current_queue := q_addr q\<rparr>, q_addr q)
      | [] \<Rightarrow>
          (case queues s of
             [] \<Rightarrow> (s, 0)
           | q # _ \<Rightarrow>
               (let s = reset_queues s in
                (s\<lparr>queues := update_queue (q_addr q) (\<lambda>q. q\<lparr>opportunities := sz_sub (opportunities q) 1\<rparr>) (queues s),
                   current_queue := q_addr q\<rparr>, q_addr q))))"

text \<open>The loop over the mutex wait list; the first argument are the nodes still to visit.\<close>

fun waitlist_loop :: "nat list \<Rightarrow> sched \<Rightarrow> (sched \<times> nat) res" where
  "waitlist_loop [] s = Inr (s, 0)"
| "waitlist_loop (t # ts) s =
     (let m = waitingmutex (thread_of s t) in
      bind_res (assert_res (m \<noteq> 0)) (\<lambda>_.
      case mutex_try_lock m (desired_locksource (thread_of s t)) s of (s, ok) \<Rightarrow>
        if ok then
          (let s = s\<lparr>mutexwait := remove1 t (mutexwait s)\<rparr>;
               s = if shutdown (thread_of s t) then mutex_unlock m s else s in
           Inr (set_thread t ((thread_of s t)\<lparr>waitingmutex := 0\<rparr>) s, t))
        else waitlist_loop ts s))"

definition pick_next_task_from_mutex_waitlist :: "sched \<Rightarrow> (sched \<times> nat) res" where
  "pick_next_task_from_mutex_waitlist s = waitlist_loop (mutexwait s) s"

definition queue_threads :: "nat \<Rightarrow> sched \<Rightarrow> nat list" where
  "queue_threads a s = (case find (\<lambda>q. q_addr q = a) (queues s) of None \<Rightarrow> [] | Some q \<Rightarrow> q_threads q)"

definition pick_task_from_queue :: "sched \<Rightarrow> sched \<times> nat" where
  "pick_task_from_queue s =
     (case pick_next_queue s of (s, queue) \<Rightarrow>
        if queue = 0 then (s, 0)
        else
          (let ts = queue_threads queue s in
           if ts = [] then (s, 0)
           else (s\<lparr>queues := update_queue queue (\<lambda>q. q\<lparr>q_threads := butlast (q_threads q)\<rparr>) (queues s)\<rparr>, last ts)))"

definition pick_once :: "sched \<Rightarrow> (sched \<times> nat) res" where
  "pick_once s =
     bind_res (pick_next_task_from_mutex_waitlist s) (\<lambda>(s, result).
     Inr (if result = 0 then pick_task_from_queue s else (s, result)))"

definition waiting_count :: "sched \<Rightarrow> nat" where
  "waiting_count s = length (mutexwait s) + sum_list (map (\<lambda>q. length (q_threads q)) (queues s))"

subsection \<open>Frame facts and the termination of the task choice\<close>

lemma update_queue_maps:
  "map q_addr (update_queue a (\<lambda>q. q\<lparr>opportunities := f q\<rparr>) qs) = map q_addr qs"
  "map q_threads (update_queue a (\<lambda>q. q\<lparr>opportunities := f q\<rparr>) qs) = map q_threads qs"
  "map q_priority (update_queue a (\<lambda>q. q\<lparr>opportunities := f q\<rparr>) qs) = map q_priority qs"
  by (simp_all add: update_queue_def)

lemma reset_loop_maps:
  "map q_addr (reset_loop n qs) = map q_addr qs" "map q_threads (reset_loop n qs) = map q_threads qs"
  "map q_priority (reset_loop n qs) = map q_priority qs"
  by (induction qs arbitrary: n) simp_all

definition take_turn :: "nat \<Rightarrow> sched \<Rightarrow> sched" where
  "take_turn a s = s\<lparr>queues := update_queue a (\<lambda>q. q\<lparr>opportunities := sz_sub (opportunities q) 1\<rparr>) (queues s),
     current_queue := a\<rparr>"

lemma scan_queues_suffix: "scan_queues c qs = q # rest \<Longrightarrow>
    q \<in> set qs \<and> q_addr q \<noteq> c \<and> opportunities q \<noteq> 0 \<and> q_threads q \<noteq> []"
  by (induction qs) (auto split: if_splits)

lemma scan_queues_none: "scan_queues c qs = [] \<longleftrightarrow> (\<forall>q\<in>set qs. q_addr q = c \<or> opportunities q = 0 \<or> q_threads q = [])"
  by (induction qs) auto

text \<open>The outcomes of \<open>pick_next_queue\<close>: nothing, a queue with a turn left, or the front queue after a reset.\<close>

lemma pick_next_queue_cases:
  obtains (empty) "queues s = []" "pick_next_queue s = (s, 0)"
  | (turn) q where "q \<in> set (queues s)" "q_addr q \<noteq> current_queue s" "opportunities q \<noteq> 0" "q_threads q \<noteq> []"
      "pick_next_queue s = (take_turn (q_addr q) s, q_addr q)"
  | (reset) q qs where "queues s = q # qs" "pick_next_queue s = (take_turn (q_addr q) (reset_queues s), q_addr q)"
      "\<forall>q\<in>set (queues s). q_addr q = current_queue s \<or> opportunities q = 0 \<or> q_threads q = []"
proof -
  let ?cur = "current_queue s"
  let ?n0 = "if ?cur \<noteq> 0 then dropWhile (\<lambda>q. q_addr q \<noteq> ?cur) (queues s) else []"
  let ?n1 = "scan_queues ?cur ?n0"
  let ?n2 = "if ?n1 = [] then queues s else ?n1"
  let ?n3 = "scan_queues ?cur ?n2"
  have sub: "set ?n2 \<subseteq> set (queues s)"
  proof (cases ?n1)
    case (Cons q qs)
    have "set (scan_queues c xs) \<subseteq> set xs" for c xs by (induction xs) auto
    then have "set ?n1 \<subseteq> set ?n0" by blast
    also have "\<dots> \<subseteq> set (queues s)" by (auto dest: set_dropWhileD)
    finally show ?thesis by (simp add: Cons)
  qed simp
  show thesis
  proof (cases ?n3)
    case (Cons q qs)
    note hit = scan_queues_suffix [OF Cons]
    have "pick_next_queue s = (take_turn (q_addr q) s, q_addr q)"
      unfolding pick_next_queue_def Let_def Cons list.case take_turn_def ..
    with hit sub show thesis using turn by blast
  next
    case Nil
    have none: "?n1 = []"
    proof (rule ccontr)
      assume "?n1 \<noteq> []"
      then obtain q qs where n1: "?n1 = q # qs" by (cases ?n1) auto
      with Nil scan_queues_suffix [OF n1] show False by simp
    qed
    have all: "\<forall>q\<in>set (queues s). q_addr q = ?cur \<or> opportunities q = 0 \<or> q_threads q = []"
      using Nil unfolding none by (simp add: scan_queues_none)
    show thesis
    proof (cases "queues s")
      case Nil': Nil
      then have "pick_next_queue s = (s, 0)" unfolding pick_next_queue_def Let_def by simp
      with Nil' show thesis by (rule empty)
    next
      case Cons': (Cons q qs)
      have "pick_next_queue s = (take_turn (q_addr q) (reset_queues s), q_addr q)"
        unfolding pick_next_queue_def Let_def Nil list.case unfolding Cons' list.case take_turn_def ..
      with Cons' all show thesis using reset by blast
    qed
  qed
qed

lemma turn_maps [simp]:
  "map q_addr (queues (take_turn a s)) = map q_addr (queues s)"
  "map q_threads (queues (take_turn a s)) = map q_threads (queues s)"
  "map q_priority (queues (take_turn a s)) = map q_priority (queues s)"
  "map q_addr (queues (reset_queues s)) = map q_addr (queues s)"
  "map q_threads (queues (reset_queues s)) = map q_threads (queues s)"
  "map q_priority (queues (reset_queues s)) = map q_priority (queues s)"
  by (simp_all add: take_turn_def reset_queues_def update_queue_maps reset_loop_maps)

lemma turn_frame [simp]:
  "running (take_turn a s) = running s" "mutexwait (take_turn a s) = mutexwait s" "thread_of (take_turn a s) = thread_of s"
  "mutex_of (take_turn a s) = mutex_of s" "freed (take_turn a s) = freed s" "current_queue (take_turn a s) = a"
  "running (reset_queues s) = running s" "mutexwait (reset_queues s) = mutexwait s" "thread_of (reset_queues s) = thread_of s"
  "mutex_of (reset_queues s) = mutex_of s" "freed (reset_queues s) = freed s"
  by (simp_all add: take_turn_def reset_queues_def)

lemma pick_next_queue_frame:
  assumes "pick_next_queue s = (s', a)"
  shows "map q_addr (queues s') = map q_addr (queues s)" and "map q_threads (queues s') = map q_threads (queues s)"
    and "map q_priority (queues s') = map q_priority (queues s)"
    and "running s' = running s" and "mutexwait s' = mutexwait s" and "thread_of s' = thread_of s"
    and "mutex_of s' = mutex_of s" and "freed s' = freed s"
    and "s' = s \<and> a = 0 \<or> current_queue s' = a \<and> a \<in> q_addr ` set (queues s)"
  by (cases s rule: pick_next_queue_cases; use assms in force)+

lemma waitlist_hit:
  assumes "m = waitingmutex (thread_of s t)" and "m \<noteq> 0" and "\<not> locked (mutex_of s m)"
  shows "waitlist_loop (t # ts) s = Inr (s\<lparr>mutexwait := remove1 t (mutexwait s),
      mutex_of := (mutex_of s)(m := if shutdown (thread_of s t) then \<lparr>locksource = no_location, locked = False\<rparr>
        else \<lparr>locksource = desired_locksource (thread_of s t), locked = True\<rparr>),
      thread_of := (thread_of s)(t := (thread_of s t)\<lparr>waitingmutex := 0\<rparr>)\<rparr>, t)"
  using assms by (simp add: mutex_try_lock_def Let_def set_mutex_def set_thread_def mutex_unlock_def)

lemma waitlist_miss:
  assumes "m = waitingmutex (thread_of s t)" and "m \<noteq> 0" and "locked (mutex_of s m)"
  shows "waitlist_loop (t # ts) s = waitlist_loop ts s"
  using assms by (simp add: mutex_try_lock_def Let_def)

text \<open>The loop over the waiters chooses the first one whose mutex is free, and locks it for that thread.\<close>

lemma waitlist_loop_cases:
  assumes "waitlist_loop ts s = Inr (s', r)"
  shows "(s' = s \<and> r = 0 \<and> (\<forall>t\<in>set ts. locked (mutex_of s (waitingmutex (thread_of s t))))) \<or>
    (\<exists>us vs. ts = us @ r # vs \<and> (\<forall>t\<in>set us. locked (mutex_of s (waitingmutex (thread_of s t)))) \<and>
      waitingmutex (thread_of s r) \<noteq> 0 \<and> \<not> locked (mutex_of s (waitingmutex (thread_of s r))) \<and>
      waitlist_loop [r] s = Inr (s', r))"
  using assms
proof (induction ts)
  case Nil
  then show ?case by simp
next
  case (Cons t ts)
  let ?m = "waitingmutex (thread_of s t)"
  have m: "?m \<noteq> 0" using Cons.prems by (auto simp: Let_def res_simps)
  show ?case
  proof (cases "locked (mutex_of s ?m)")
    case True
    then have "waitlist_loop ts s = Inr (s', r)" using Cons.prems waitlist_miss [OF refl m True] by simp
    from Cons.IH [OF this] show ?thesis
    proof (elim disjE exE conjE)
      fix us vs assume "ts = us @ r # vs" "\<forall>t\<in>set us. locked (mutex_of s (waitingmutex (thread_of s t)))"
        "waitingmutex (thread_of s r) \<noteq> 0" "\<not> locked (mutex_of s (waitingmutex (thread_of s r)))" "waitlist_loop [r] s = Inr (s', r)"
      then show ?thesis using True by (intro disjI2 exI [of _ "t # us"] exI [of _ vs]) simp
    qed (use True in simp)
  next
    case False
    then have "r = t" "waitlist_loop [r] s = Inr (s', r)"
      using Cons.prems waitlist_hit [OF refl m False] by auto
    with False m show ?thesis by (intro disjI2 exI [of _ "[]"] exI [of _ ts]) auto
  qed
qed

definition thread_count :: "sched_queue list \<Rightarrow> nat" where
  "thread_count qs = sum_list (map length (map q_threads qs))"

lemma thread_count_pop:
  assumes "find (\<lambda>q. q_addr q = a) qs = Some q0" and "q_threads q0 \<noteq> []"
  shows "thread_count (update_queue a (\<lambda>q. q\<lparr>q_threads := butlast (q_threads q)\<rparr>) qs) < thread_count qs"
  using assms
proof (induction qs)
  case Nil
  then show ?case by simp
next
  case (Cons q qs)
  have le: "thread_count (update_queue a (\<lambda>q. q\<lparr>q_threads := butlast (q_threads q)\<rparr>) xs) \<le> thread_count xs" for xs
    by (induction xs) (auto simp: update_queue_def thread_count_def)
  show ?case
  proof (cases "q_addr q = a")
    case True
    then have "length (butlast (q_threads q)) < length (q_threads q)" using Cons.prems by simp
    then show ?thesis using le [of qs] True by (simp add: update_queue_def thread_count_def)
  next
    case False
    then show ?thesis using Cons by (simp add: update_queue_def thread_count_def)
  qed
qed

lemma waiting_count_alt: "waiting_count s = length (mutexwait s) + thread_count (queues s)"
  by (simp add: waiting_count_def thread_count_def comp_def)

lemma pick_task_from_queue_eq:
  assumes "pick_next_queue s = (s1, a)"
  shows "pick_task_from_queue s =
    (if a = 0 \<or> queue_threads a s1 = [] then (s1, 0)
     else (s1\<lparr>queues := update_queue a (\<lambda>q. q\<lparr>q_threads := butlast (q_threads q)\<rparr>) (queues s1)\<rparr>, last (queue_threads a s1)))"
  using assms by (simp add: pick_task_from_queue_def Let_def)

lemma pick_task_from_queue_decreases:
  assumes "pick_task_from_queue s = (s', r)" and "r \<noteq> 0"
  shows "waiting_count s' < waiting_count s"
proof -
  obtain s1 a where p: "pick_next_queue s = (s1, a)" by (cases "pick_next_queue s")
  note f = pick_next_queue_frame [OF p]
  have ts: "queue_threads a s1 \<noteq> []"
      "s' = s1\<lparr>queues := update_queue a (\<lambda>q. q\<lparr>q_threads := butlast (q_threads q)\<rparr>) (queues s1)\<rparr>"
    using assms pick_task_from_queue_eq [OF p] by (auto split: if_splits)
  then obtain q0 where "find (\<lambda>q. q_addr q = a) (queues s1) = Some q0" "q_threads q0 \<noteq> []"
    by (auto simp: queue_threads_def split: option.splits)
  from thread_count_pop [OF this] show ?thesis
    using f(2,5) ts(2) by (simp add: waiting_count_alt) (simp add: thread_count_def)
qed

lemma pick_once_decreases:
  assumes "pick_once s = Inr (s', r)" and "r \<noteq> 0"
  shows "waiting_count s' < waiting_count s"
proof -
  obtain s1 r1 where w: "waitlist_loop (mutexwait s) s = Inr (s1, r1)"
      "(s', r) = (if r1 = 0 then pick_task_from_queue s1 else (s1, r1))"
    using assms(1) by (auto simp: pick_once_def pick_next_task_from_mutex_waitlist_def res_simps)
  have le: "waiting_count s1 \<le> waiting_count s \<and> (r1 \<noteq> 0 \<longrightarrow> waiting_count s1 < waiting_count s)"
    using waitlist_loop_cases [OF w(1)]
  proof (elim disjE exE conjE)
    fix us vs assume h: "mutexwait s = us @ r1 # vs" "waitingmutex (thread_of s r1) \<noteq> 0"
      "\<not> locked (mutex_of s (waitingmutex (thread_of s r1)))" "waitlist_loop [r1] s = Inr (s1, r1)"
    then have "mutexwait s1 = remove1 r1 (mutexwait s)" "queues s1 = queues s"
      using waitlist_hit [OF refl h(2,3), of "[]"] by auto
    moreover have "r1 \<in> set (mutexwait s)" using h(1) by simp
    ultimately have "waiting_count s1 < waiting_count s"
      by (auto simp: waiting_count_def length_remove1 dest: length_pos_if_in_set)
    then show ?thesis by simp
  qed auto
  show ?thesis
  proof (cases "r1 = 0")
    case True
    then show ?thesis using pick_task_from_queue_decreases [of s1 s' r] assms(2) w(2) le by auto
  next
    case False
    then show ?thesis using w(2) le by auto
  qed
qed

subsection \<open>Choosing the next task; the entry points\<close>

function pick_next_task :: "sched \<Rightarrow> (sched \<times> nat) res" where
  "pick_next_task s =
     bind_res (pick_once s) (\<lambda>(s', result).
     if result = 0 \<or> \<not> shutdown (thread_of s' result) then Inr (s', result)
     else pick_next_task (thread_delete result s'))"
  by pat_completeness auto
termination
proof (relation "measure waiting_count", goal_cases)
  case (2 s p s' r)
  then show ?case using pick_once_decreases [of s s' r] by (simp add: thread_delete_def waiting_count_def)
qed simp

declare pick_next_task.simps [simp del] waitlist_loop.simps [simp del]

definition sched_wait_mutex :: "nat \<Rightarrow> source_location \<Rightarrow> sched \<Rightarrow> sched res" where
  "sched_wait_mutex m loc s =
     bind_res (assert_res (locked (mutex_of s m))) (\<lambda>_.
     if running s = 0 then Inl Null_deref
     else
       (let s = set_thread (running s) ((thread_of s (running s))\<lparr>desired_locksource := loc\<rparr>) s in
        bind_res (pick_next_task s) (\<lambda>(s, nextthread).
        if nextthread = 0 then Inl Hang
        else
          (let old = running s in
           bind_res (assert_res (old \<noteq> 0)) (\<lambda>_.
           bind_res (assert_res (waitingmutex (thread_of s old) = 0)) (\<lambda>_.
           let s = set_thread old ((thread_of s old)\<lparr>waitingmutex := m\<rparr>) s;
               s = s\<lparr>mutexwait := old # mutexwait s\<rparr> in
           bind_res (assert_res (nextthread \<noteq> old)) (\<lambda>_.
           Inr (thread_switch old nextthread s))))))))"



definition sched_init_boot_thread :: "nat \<Rightarrow> nat \<Rightarrow> sched \<Rightarrow> sched res" where
  "sched_init_boot_thread mem arch_mem s =
     bind_res (assert_res (running s = 0)) (\<lambda>_.
     case thread_create mem arch_mem s of (s, t) \<Rightarrow>
       bind_res (assert_res (t \<noteq> 0)) (\<lambda>_.
       let s = s\<lparr>running := t\<rparr> in
       Inr (set_thread t ((thread_of s t)\<lparr>t_priority := BOOT_THREAD_PRIORITY\<rparr>) s)))"


subsection \<open>Invariant\<close>








lemma update_queue_threads_maps [simp]:
  "map q_addr (update_queue a (\<lambda>q. q\<lparr>q_threads := f q\<rparr>) qs) = map q_addr qs"
  "map q_priority (update_queue a (\<lambda>q. q\<lparr>q_threads := f q\<rparr>) qs) = map q_priority qs"
  by (simp_all add: update_queue_def)














subsection \<open>Queueing a thread\<close>





subsection \<open>The entry points keep the invariant\<close>









subsection \<open>Runs of the system\<close>














subsection \<open>Properties\<close>


definition idle_sched :: sched where
  "idle_sched = \<lparr>queues = [], current_queue = 0, running = 1, mutexwait = [],
     thread_of = (\<lambda>_. \<lparr>waitingmutex = 0, desired_locksource = no_location, t_priority = 20, shutdown = False\<rparr>),
     mutex_of = (\<lambda>_. mutex_init), freed = []\<rparr>"





text \<open>
  the wait list is served from its front: the thread resumed is the first in the list
  whose mutex is free, and that mutex is then locked with the location this thread gave. As
  \<open>sched_wait_mutex\<close> inserts at the front, of several threads that wait for one mutex the one that came
  last gets it first.
\<close>

lemma waitlist_last_in_first_out:
  assumes "mutexwait s = us @ t # vs" and "\<forall>u\<in>set us. waitingmutex (thread_of s u) \<noteq> 0 \<and> locked (mutex_of s (waitingmutex (thread_of s u)))"
    and "waitingmutex (thread_of s t) = m" and "m \<noteq> 0" and "\<not> locked (mutex_of s m)" and "\<not> shutdown (thread_of s t)"
  shows "\<exists>s'. pick_next_task_from_mutex_waitlist s = Inr (s', t) \<and> mutexwait s' = remove1 t (mutexwait s) \<and>
    mutex_of s' = (mutex_of s)(m := \<lparr>locksource = desired_locksource (thread_of s t), locked = True\<rparr>)"
proof -
  have "waitlist_loop (us @ t # vs) s = waitlist_loop (t # vs) s"
    using assms(2) by (induction us) (use waitlist_miss [OF refl] in auto)
  moreover have "waitlist_loop (t # vs) s = Inr (s\<lparr>mutexwait := remove1 t (mutexwait s),
      mutex_of := (mutex_of s)(m := \<lparr>locksource = desired_locksource (thread_of s t), locked = True\<rparr>),
      thread_of := (thread_of s)(t := (thread_of s t)\<lparr>waitingmutex := 0\<rparr>)\<rparr>, t)"
    using waitlist_hit [of m s t vs] assms(3-6) by simp
  ultimately show ?thesis by (simp add: pick_next_task_from_mutex_waitlist_def assms(1))
qed

text \<open>
  A runnable thread can be overlooked. With two queues, no waiters, and threads only in the
  second queue, which is also the current one, \<open>pick_next_task\<close> skips the current queue, falls back to
  the empty front queue and returns null; \<open>sched_wait_mutex\<close> called in that state hangs although a
  thread could run.
\<close>

lemma runnable_thread_overlooked:
  assumes "queues s = [qa, qb]" and "q_threads qa = []" and "current_queue s = q_addr qb" and "q_addr qa \<noteq> q_addr qb"
    and "mutexwait s = []" and "running s \<noteq> 0" and "locked (mutex_of s m)"
  shows "(\<exists>s'. pick_next_task s = Inr (s', 0)) \<and> sched_wait_mutex m loc s = Inl Hang"
proof -
  have *: "\<exists>s'. pick_next_task x = Inr (s', 0)"
    if x: "queues x = [qa, qb]" "current_queue x = q_addr qb" "mutexwait x = []" for x
  proof -
    have "pick_next_queue x = (take_turn (q_addr qa) (reset_queues x), q_addr qa)"
    proof (cases x rule: pick_next_queue_cases)
      case (turn q)
      then show ?thesis using x assms(2,3) by auto
    qed (use x in auto)
    moreover have "queue_threads (q_addr qa) (take_turn (q_addr qa) (reset_queues x)) = []"
      using x assms(2,4) by (simp add: queue_threads_def take_turn_def reset_queues_def update_queue_def)
    ultimately have "pick_task_from_queue x = (take_turn (q_addr qa) (reset_queues x), 0)"
      using pick_task_from_queue_eq by simp
    then show ?thesis
      using x(3) by (simp add: pick_next_task.simps [of x] pick_once_def pick_next_task_from_mutex_waitlist_def waitlist_loop.simps)
  qed
  let ?s0 = "set_thread (running s) ((thread_of s (running s))\<lparr>desired_locksource := loc\<rparr>) s"
  obtain s' where "pick_next_task ?s0 = Inr (s', 0)"
    using * [of ?s0] assms by (auto simp: set_thread_def)
  then show ?thesis using * [of s] assms by (simp add: sched_wait_mutex_def Let_def)
qed

definition two_queue_sched :: sched where
  "two_queue_sched = idle_sched\<lparr>queues :=
     [\<lparr>q_addr = 100, q_priority = 0, opportunities = 1, q_threads = []\<rparr>,
      \<lparr>q_addr = 200, q_priority = 20, opportunities = 1, q_threads = [5]\<rparr>],
     current_queue := 200, mutex_of := (\<lambda>_. \<lparr>locksource = no_location, locked = True\<rparr>)\<rparr>"

end
