(* ===== verification/Iodev.thy ===== *)
theory Iodev
  imports Prelude
begin

text \<open>
  The registry of I/O devices (kernel/io/iodev.c): a list of device types, each with its name, the next
  free id and its devices in the order of registration. The linked lists are HOL lists, as
  \<open>Linked_List\<close> justifies. The outcome of \<open>heap_alloc\<close> for a new type is the argument \<open>oom\<close>.
\<close>

record iodev =
  devtype :: string
  dev_id :: nat
  dev_data :: nat

record iodevtype =
  devices :: "iodev list"
  type_name :: string
  nextid :: nat

definition getiodevtypefor :: "iodevtype list \<Rightarrow> string \<Rightarrow> iodevtype option" where
  "getiodevtypefor ts n = find (\<lambda>t. type_name t = n) ts"

text \<open>Replace the type that \<open>getiodevtypefor\<close> found.\<close>

fun update_type :: "iodevtype list \<Rightarrow> string \<Rightarrow> iodevtype \<Rightarrow> iodevtype list" where
  "update_type [] n t' = []"
| "update_type (t # ts) n t' = (if type_name t = n then t' # ts else t # update_type ts n t')"

definition iodev_register :: "bool \<Rightarrow> iodevtype list \<Rightarrow> string \<Rightarrow> nat \<Rightarrow> (iodevtype list \<times> iodev \<times> int) res" where
  "iodev_register oom ts n data =
     (let dev = \<lparr>devtype = n, dev_id = 0, dev_data = data\<rparr> in
      if getiodevtypefor ts n = None \<and> oom then Inr (ts, dev, - ENOMEM)
      else
        (let (ts, desttype) =
               (case getiodevtypefor ts n of
                  None \<Rightarrow> (let t = \<lparr>devices = [], type_name = n, nextid = 0\<rparr> in (ts @ [t], t))
                | Some t \<Rightarrow> (ts, t));
             dev = dev\<lparr>dev_id := nextid desttype\<rparr>;
             desttype = desttype\<lparr>nextid := sz_add (nextid desttype) 1\<rparr> in
         if dev_id dev = size_max then Inl Panic
         else Inr (update_type ts n (desttype\<lparr>devices := devices desttype @ [dev]\<rparr>), dev, 0)))"

definition iodev_get_list :: "iodevtype list \<Rightarrow> string \<Rightarrow> iodev list option" where
  "iodev_get_list ts n = map_option devices (getiodevtypefor ts n)"

subsection \<open>Invariant and lemmas\<close>

text \<open>Every type is listed once, and its devices have the ids 0, 1, 2 and so on.\<close>

definition registry_ok :: "iodevtype list \<Rightarrow> bool" where
  "registry_ok ts \<longleftrightarrow> distinct (map type_name ts) \<and>
     (\<forall>t\<in>set ts. nextid t = length (devices t) \<and> nextid t < 2 ^ 32 \<and> map dev_id (devices t) = [0..<length (devices t)] \<and>
        (\<forall>d\<in>set (devices t). devtype d = type_name t))"

definition devices_of :: "iodevtype list \<Rightarrow> string \<Rightarrow> iodev list" where
  "devices_of ts n = (case iodev_get_list ts n of None \<Rightarrow> [] | Some ds \<Rightarrow> ds)"

lemma find_Some_name: "getiodevtypefor ts n = Some t \<Longrightarrow> t \<in> set ts \<and> type_name t = n"
  by (auto simp: getiodevtypefor_def find_Some_iff)

lemma find_None_name: "getiodevtypefor ts n = None \<longleftrightarrow> n \<notin> type_name ` set ts"
  by (auto simp: getiodevtypefor_def find_None_iff)

lemma update_type_names: "type_name t' = n \<Longrightarrow> map type_name (update_type ts n t') = map type_name ts"
  by (induction ts) auto

lemma update_type_find:
  assumes "type_name t' = n" and "n \<in> type_name ` set ts"
  shows "getiodevtypefor (update_type ts n t') m = (if m = n then Some t' else getiodevtypefor ts m)"
  using assms by (induction ts) (auto simp: getiodevtypefor_def)

lemma update_type_set: "set (update_type ts n t') \<subseteq> insert t' (set ts)"
  by (induction ts) auto

lemma update_type_ok:
  assumes "registry_ok ts" and "type_name t' = n" and "nextid t' = length (devices t')" and "nextid t' < 2 ^ 32"
    and "map dev_id (devices t') = [0..<length (devices t')]" and "\<forall>d\<in>set (devices t'). devtype d = n"
  shows "registry_ok (update_type ts n t')"
  using assms update_type_set [of ts n t'] by (auto simp: registry_ok_def update_type_names subset_iff)

lemma append_type_ok:
  assumes "registry_ok ts" and "getiodevtypefor ts n = None"
  shows "registry_ok (ts @ [\<lparr>devices = [], type_name = n, nextid = 0\<rparr>])"
  using assms by (auto simp: registry_ok_def find_None_name)

lemma append_type_find:
  assumes "getiodevtypefor ts n = None"
  shows "getiodevtypefor (ts @ [\<lparr>devices = [], type_name = n, nextid = 0\<rparr>]) m =
    (if m = n then Some \<lparr>devices = [], type_name = n, nextid = 0\<rparr> else getiodevtypefor ts m)"
  using assms by (induction ts) (auto simp: getiodevtypefor_def)

text \<open>The part after the type has been found or created.\<close>

lemma register_in_type:
  assumes ok: "registry_ok ts" and t: "getiodevtypefor ts n = Some t" and room: "length (devices t) < size_max"
  shows "\<exists>dev ts'. iodev_register oom ts n data = Inr (ts', dev, 0) \<and> registry_ok ts' \<and>
    dev_id dev = length (devices t) \<and> devtype dev = n \<and> dev_data dev = data \<and>
    (\<forall>m. iodev_get_list ts' m = (if m = n then Some (devices t @ [dev]) else iodev_get_list ts m))"
proof -
  let ?dev = "\<lparr>devtype = n, dev_id = nextid t, dev_data = data\<rparr>"
  let ?t = "t\<lparr>nextid := sz_add (nextid t) 1, devices := devices t @ [?dev]\<rparr>"
  have mem: "t \<in> set ts" "type_name t = n" using t find_Some_name by blast+
  with ok have inv: "nextid t = length (devices t)" "map dev_id (devices t) = [0..<length (devices t)]"
    "\<forall>d\<in>set (devices t). devtype d = n" by (auto simp: registry_ok_def)
  have wrap: "sz_add (nextid t) 1 = Suc (length (devices t))" "Suc (length (devices t)) < 2 ^ 32"
    using room inv by (simp_all add: wrap_simps size_max_def)
  have new: "iodev_register oom ts n data = Inr (update_type ts n ?t, ?dev, 0)"
    using t room inv by (simp add: iodev_register_def Let_def)
  have "registry_ok (update_type ts n ?t)"
    by (rule update_type_ok [OF ok]) (use mem inv wrap in auto)
  moreover have "iodev_get_list (update_type ts n ?t) m = (if m = n then Some (devices t @ [?dev]) else iodev_get_list ts m)" for m
    using mem by (subst iodev_get_list_def, subst update_type_find) (auto simp: iodev_get_list_def)
  ultimately show ?thesis using new inv(1) by (intro exI conjI) auto
qed

text \<open>Registering a new type's first device is creating the type and registering in it.\<close>

lemma register_new_type:
  assumes "getiodevtypefor ts n = None"
  shows "iodev_register False ts n data =
    iodev_register oom (ts @ [\<lparr>devices = [], type_name = n, nextid = 0\<rparr>]) n data"
  using assms by (simp add: iodev_register_def append_type_find Let_def)

lemma register_device:
  assumes "registry_ok ts" and "getiodevtypefor ts n = None \<longrightarrow> \<not> oom" and "length (devices_of ts n) < size_max"
  shows "\<exists>dev ts'. iodev_register oom ts n data = Inr (ts', dev, 0) \<and> registry_ok ts' \<and>
    dev_id dev = length (devices_of ts n) \<and> devtype dev = n \<and> dev_data dev = data \<and>
    (\<forall>m. devices_of ts' m = (if m = n then devices_of ts n @ [dev] else devices_of ts m))"
proof (cases "getiodevtypefor ts n")
  case (Some t)
  then have "devices_of ts n = devices t" by (simp add: devices_of_def iodev_get_list_def)
  then show ?thesis using register_in_type [OF assms(1) Some, of oom data] assms(3) by (fastforce simp: devices_of_def)
next
  case None
  let ?ts = "ts @ [\<lparr>devices = [], type_name = n, nextid = 0\<rparr>]"
  have t: "getiodevtypefor ?ts n = Some \<lparr>devices = [], type_name = n, nextid = 0\<rparr>"
    by (simp add: append_type_find [OF None])
  have lists: "iodev_get_list ?ts m = (if m = n then Some [] else iodev_get_list ts m)" for m
    by (simp add: iodev_get_list_def append_type_find [OF None])
  have "devices_of ts n = []" using None by (simp add: devices_of_def iodev_get_list_def)
  moreover have "\<not> oom" using assms(2) None by simp
  moreover obtain dev ts' where "iodev_register False ts n data = Inr (ts', dev, 0)" "registry_ok ts'"
      "dev_id dev = 0" "devtype dev = n" "dev_data dev = data"
      and l: "\<And>m. iodev_get_list ts' m = (if m = n then Some [dev] else iodev_get_list ?ts m)"
    using register_in_type [OF append_type_ok [OF assms(1) None] t, of False data] register_new_type [OF None, of data False]
    by (auto simp: size_max_def)
  moreover have "devices_of ts' m = (if m = n then [dev] else devices_of ts m)" for m
    using l [of m] by (simp add: devices_of_def lists)
  ultimately show ?thesis by auto
qed

subsection \<open>Properties\<close>

text \<open>
  Registering a device that does not run out of memory gives it the next id of its type
  (the number of devices the type had), adds it at the end of that type's list, leaves the lists of
  all other types as they were, and keeps the registry well formed: one entry per type name and the
  ids 0, 1, 2, ... within each type.
\<close>

lemma iodev_register_correct:
  assumes "registry_ok ts" and "getiodevtypefor ts n = None \<longrightarrow> \<not> oom" and "length (devices_of ts n) < size_max"
  shows "\<exists>dev ts'. iodev_register oom ts n data = Inr (ts', dev, 0) \<and> registry_ok ts' \<and>
    dev_id dev = length (devices_of ts n) \<and> devtype dev = n \<and> dev_data dev = data \<and>
    (\<forall>m. devices_of ts' m = (if m = n then devices_of ts n @ [dev] else devices_of ts m))"
  using assms by (rule register_device)

end
