(* ===== verification/Kbd.thy ===== *)
theory Kbd
  imports Iodev
begin

text \<open>
  Keyboard events (kernel/io/kbd.c, include/kernel/io/kbd.h): keys that are pressed and released become
  events with the key to report and its character, depending on the lock and modifier keys. Keys are
  the numbers of the C enumeration, as they index the arrays. The event queue of 500 entries is a
  bounded list, as the ring buffer component shows for the C queue.
\<close>

subsection \<open>Keys and flags\<close>

text \<open>Lock and modifier flags.\<close>

definition KBD_FLAG_LOCK_CAPS :: u16 where "KBD_FLAG_LOCK_CAPS = push_bit 0 1"
definition KBD_FLAG_LOCK_NUM :: u16 where "KBD_FLAG_LOCK_NUM = push_bit 1 1"
definition KBD_FLAG_LOCK_SCROLL :: u16 where "KBD_FLAG_LOCK_SCROLL = push_bit 2 1"
definition KBD_FLAG_MOD_LSHIFT :: u16 where "KBD_FLAG_MOD_LSHIFT = push_bit 8 1"
definition KBD_FLAG_MOD_RSHIFT :: u16 where "KBD_FLAG_MOD_RSHIFT = push_bit 9 1"
definition KBD_FLAG_MOD_LCTRL :: u16 where "KBD_FLAG_MOD_LCTRL = push_bit 10 1"
definition KBD_FLAG_MOD_RCTRL :: u16 where "KBD_FLAG_MOD_RCTRL = push_bit 11 1"
definition KBD_FLAG_MOD_LALT :: u16 where "KBD_FLAG_MOD_LALT = push_bit 12 1"
definition KBD_FLAG_MOD_RALT :: u16 where "KBD_FLAG_MOD_RALT = push_bit 13 1"
definition KBD_FLAG_MOD_LSUPER :: u16 where "KBD_FLAG_MOD_LSUPER = push_bit 14 1"
definition KBD_FLAG_MOD_RSUPER :: u16 where "KBD_FLAG_MOD_RSUPER = push_bit 15 1"
definition KBD_FLAG_MOD_SHIFT :: u16 where "KBD_FLAG_MOD_SHIFT = KBD_FLAG_MOD_LSHIFT OR KBD_FLAG_MOD_RSHIFT"

lemmas kbd_flag_defs = KBD_FLAG_LOCK_CAPS_def KBD_FLAG_LOCK_NUM_def KBD_FLAG_LOCK_SCROLL_def KBD_FLAG_MOD_LSHIFT_def KBD_FLAG_MOD_RSHIFT_def KBD_FLAG_MOD_LCTRL_def KBD_FLAG_MOD_RCTRL_def KBD_FLAG_MOD_LALT_def KBD_FLAG_MOD_RALT_def KBD_FLAG_MOD_LSUPER_def KBD_FLAG_MOD_RSUPER_def KBD_FLAG_MOD_SHIFT_def

text \<open>The enumeration \<open>KBD_KEY\<close>.\<close>

abbreviation KBD_KEY_INVALID :: nat where "KBD_KEY_INVALID \<equiv> 0"
abbreviation KBD_KEY_ESCAPE :: nat where "KBD_KEY_ESCAPE \<equiv> 1"
abbreviation KBD_KEY_F1 :: nat where "KBD_KEY_F1 \<equiv> 2"
abbreviation KBD_KEY_F2 :: nat where "KBD_KEY_F2 \<equiv> 3"
abbreviation KBD_KEY_F3 :: nat where "KBD_KEY_F3 \<equiv> 4"
abbreviation KBD_KEY_F4 :: nat where "KBD_KEY_F4 \<equiv> 5"
abbreviation KBD_KEY_F5 :: nat where "KBD_KEY_F5 \<equiv> 6"
abbreviation KBD_KEY_F6 :: nat where "KBD_KEY_F6 \<equiv> 7"
abbreviation KBD_KEY_F7 :: nat where "KBD_KEY_F7 \<equiv> 8"
abbreviation KBD_KEY_F8 :: nat where "KBD_KEY_F8 \<equiv> 9"
abbreviation KBD_KEY_F9 :: nat where "KBD_KEY_F9 \<equiv> 10"
abbreviation KBD_KEY_F10 :: nat where "KBD_KEY_F10 \<equiv> 11"
abbreviation KBD_KEY_F11 :: nat where "KBD_KEY_F11 \<equiv> 12"
abbreviation KBD_KEY_F12 :: nat where "KBD_KEY_F12 \<equiv> 13"
abbreviation KBD_KEY_PRINT_SCREEN :: nat where "KBD_KEY_PRINT_SCREEN \<equiv> 14"
abbreviation KBD_KEY_SCROLL_LOCK :: nat where "KBD_KEY_SCROLL_LOCK \<equiv> 15"
abbreviation KBD_KEY_PAUSE :: nat where "KBD_KEY_PAUSE \<equiv> 16"
abbreviation KBD_KEY_BACK_TICK :: nat where "KBD_KEY_BACK_TICK \<equiv> 17"
abbreviation KBD_KEY_1 :: nat where "KBD_KEY_1 \<equiv> 18"
abbreviation KBD_KEY_2 :: nat where "KBD_KEY_2 \<equiv> 19"
abbreviation KBD_KEY_3 :: nat where "KBD_KEY_3 \<equiv> 20"
abbreviation KBD_KEY_4 :: nat where "KBD_KEY_4 \<equiv> 21"
abbreviation KBD_KEY_5 :: nat where "KBD_KEY_5 \<equiv> 22"
abbreviation KBD_KEY_6 :: nat where "KBD_KEY_6 \<equiv> 23"
abbreviation KBD_KEY_7 :: nat where "KBD_KEY_7 \<equiv> 24"
abbreviation KBD_KEY_8 :: nat where "KBD_KEY_8 \<equiv> 25"
abbreviation KBD_KEY_9 :: nat where "KBD_KEY_9 \<equiv> 26"
abbreviation KBD_KEY_0 :: nat where "KBD_KEY_0 \<equiv> 27"
abbreviation KBD_KEY_MINUS :: nat where "KBD_KEY_MINUS \<equiv> 28"
abbreviation KBD_KEY_EQUALS :: nat where "KBD_KEY_EQUALS \<equiv> 29"
abbreviation KBD_KEY_BACKSPACE :: nat where "KBD_KEY_BACKSPACE \<equiv> 30"
abbreviation KBD_KEY_TAB :: nat where "KBD_KEY_TAB \<equiv> 31"
abbreviation KBD_KEY_Q :: nat where "KBD_KEY_Q \<equiv> 32"
abbreviation KBD_KEY_W :: nat where "KBD_KEY_W \<equiv> 33"
abbreviation KBD_KEY_E :: nat where "KBD_KEY_E \<equiv> 34"
abbreviation KBD_KEY_R :: nat where "KBD_KEY_R \<equiv> 35"
abbreviation KBD_KEY_T :: nat where "KBD_KEY_T \<equiv> 36"
abbreviation KBD_KEY_Y :: nat where "KBD_KEY_Y \<equiv> 37"
abbreviation KBD_KEY_U :: nat where "KBD_KEY_U \<equiv> 38"
abbreviation KBD_KEY_I :: nat where "KBD_KEY_I \<equiv> 39"
abbreviation KBD_KEY_O :: nat where "KBD_KEY_O \<equiv> 40"
abbreviation KBD_KEY_P :: nat where "KBD_KEY_P \<equiv> 41"
abbreviation KBD_KEY_OPEN_BRACKET :: nat where "KBD_KEY_OPEN_BRACKET \<equiv> 42"
abbreviation KBD_KEY_CLOSE_BRACKET :: nat where "KBD_KEY_CLOSE_BRACKET \<equiv> 43"
abbreviation KBD_KEY_BASKSLASH :: nat where "KBD_KEY_BASKSLASH \<equiv> 44"
abbreviation KBD_KEY_CAPS_LOCK :: nat where "KBD_KEY_CAPS_LOCK \<equiv> 45"
abbreviation KBD_KEY_A :: nat where "KBD_KEY_A \<equiv> 46"
abbreviation KBD_KEY_S :: nat where "KBD_KEY_S \<equiv> 47"
abbreviation KBD_KEY_D :: nat where "KBD_KEY_D \<equiv> 48"
abbreviation KBD_KEY_F :: nat where "KBD_KEY_F \<equiv> 49"
abbreviation KBD_KEY_G :: nat where "KBD_KEY_G \<equiv> 50"
abbreviation KBD_KEY_H :: nat where "KBD_KEY_H \<equiv> 51"
abbreviation KBD_KEY_J :: nat where "KBD_KEY_J \<equiv> 52"
abbreviation KBD_KEY_K :: nat where "KBD_KEY_K \<equiv> 53"
abbreviation KBD_KEY_L :: nat where "KBD_KEY_L \<equiv> 54"
abbreviation KBD_KEY_SEMICOLON :: nat where "KBD_KEY_SEMICOLON \<equiv> 55"
abbreviation KBD_KEY_QUOTE :: nat where "KBD_KEY_QUOTE \<equiv> 56"
abbreviation KBD_KEY_ENTER :: nat where "KBD_KEY_ENTER \<equiv> 57"
abbreviation KBD_KEY_LSHIFT :: nat where "KBD_KEY_LSHIFT \<equiv> 58"
abbreviation KBD_KEY_Z :: nat where "KBD_KEY_Z \<equiv> 59"
abbreviation KBD_KEY_X :: nat where "KBD_KEY_X \<equiv> 60"
abbreviation KBD_KEY_C :: nat where "KBD_KEY_C \<equiv> 61"
abbreviation KBD_KEY_V :: nat where "KBD_KEY_V \<equiv> 62"
abbreviation KBD_KEY_B :: nat where "KBD_KEY_B \<equiv> 63"
abbreviation KBD_KEY_N :: nat where "KBD_KEY_N \<equiv> 64"
abbreviation KBD_KEY_M :: nat where "KBD_KEY_M \<equiv> 65"
abbreviation KBD_KEY_COMMA :: nat where "KBD_KEY_COMMA \<equiv> 66"
abbreviation KBD_KEY_DOT :: nat where "KBD_KEY_DOT \<equiv> 67"
abbreviation KBD_KEY_SLASH :: nat where "KBD_KEY_SLASH \<equiv> 68"
abbreviation KBD_KEY_RSHIFT :: nat where "KBD_KEY_RSHIFT \<equiv> 69"
abbreviation KBD_KEY_LCTRL :: nat where "KBD_KEY_LCTRL \<equiv> 70"
abbreviation KBD_KEY_LSUPER :: nat where "KBD_KEY_LSUPER \<equiv> 71"
abbreviation KBD_KEY_LALT :: nat where "KBD_KEY_LALT \<equiv> 72"
abbreviation KBD_KEY_SPACE :: nat where "KBD_KEY_SPACE \<equiv> 73"
abbreviation KBD_KEY_RALT :: nat where "KBD_KEY_RALT \<equiv> 74"
abbreviation KBD_KEY_RSUPER :: nat where "KBD_KEY_RSUPER \<equiv> 75"
abbreviation KBD_KEY_MENU :: nat where "KBD_KEY_MENU \<equiv> 76"
abbreviation KBD_KEY_RCTRL :: nat where "KBD_KEY_RCTRL \<equiv> 77"
abbreviation KBD_KEY_INSERT :: nat where "KBD_KEY_INSERT \<equiv> 78"
abbreviation KBD_KEY_DELETE :: nat where "KBD_KEY_DELETE \<equiv> 79"
abbreviation KBD_KEY_HOME :: nat where "KBD_KEY_HOME \<equiv> 80"
abbreviation KBD_KEY_END :: nat where "KBD_KEY_END \<equiv> 81"
abbreviation KBD_KEY_PAGE_UP :: nat where "KBD_KEY_PAGE_UP \<equiv> 82"
abbreviation KBD_KEY_PAGE_DOWN :: nat where "KBD_KEY_PAGE_DOWN \<equiv> 83"
abbreviation KBD_KEY_UP :: nat where "KBD_KEY_UP \<equiv> 84"
abbreviation KBD_KEY_DOWN :: nat where "KBD_KEY_DOWN \<equiv> 85"
abbreviation KBD_KEY_LEFT :: nat where "KBD_KEY_LEFT \<equiv> 86"
abbreviation KBD_KEY_RIGHT :: nat where "KBD_KEY_RIGHT \<equiv> 87"
abbreviation KBD_KEY_NUM_LOCK :: nat where "KBD_KEY_NUM_LOCK \<equiv> 88"
abbreviation KBD_KEY_NUMPAD_DIV :: nat where "KBD_KEY_NUMPAD_DIV \<equiv> 89"
abbreviation KBD_KEY_NUMPAD_MUL :: nat where "KBD_KEY_NUMPAD_MUL \<equiv> 90"
abbreviation KBD_KEY_NUMPAD_SUB :: nat where "KBD_KEY_NUMPAD_SUB \<equiv> 91"
abbreviation KBD_KEY_NUMPAD_7 :: nat where "KBD_KEY_NUMPAD_7 \<equiv> 92"
abbreviation KBD_KEY_NUMPAD_8 :: nat where "KBD_KEY_NUMPAD_8 \<equiv> 93"
abbreviation KBD_KEY_NUMPAD_9 :: nat where "KBD_KEY_NUMPAD_9 \<equiv> 94"
abbreviation KBD_KEY_NUMPAD_4 :: nat where "KBD_KEY_NUMPAD_4 \<equiv> 95"
abbreviation KBD_KEY_NUMPAD_5 :: nat where "KBD_KEY_NUMPAD_5 \<equiv> 96"
abbreviation KBD_KEY_NUMPAD_6 :: nat where "KBD_KEY_NUMPAD_6 \<equiv> 97"
abbreviation KBD_KEY_NUMPAD_ADD :: nat where "KBD_KEY_NUMPAD_ADD \<equiv> 98"
abbreviation KBD_KEY_NUMPAD_1 :: nat where "KBD_KEY_NUMPAD_1 \<equiv> 99"
abbreviation KBD_KEY_NUMPAD_2 :: nat where "KBD_KEY_NUMPAD_2 \<equiv> 100"
abbreviation KBD_KEY_NUMPAD_3 :: nat where "KBD_KEY_NUMPAD_3 \<equiv> 101"
abbreviation KBD_KEY_NUMPAD_0 :: nat where "KBD_KEY_NUMPAD_0 \<equiv> 102"
abbreviation KBD_KEY_NUMPAD_POINT :: nat where "KBD_KEY_NUMPAD_POINT \<equiv> 103"
abbreviation KBD_KEY_NUMPAD_ENTER :: nat where "KBD_KEY_NUMPAD_ENTER \<equiv> 104"
abbreviation KBD_KEY_COUNT :: nat where "KBD_KEY_COUNT \<equiv> 105"

subsection \<open>The key map\<close>

definition KEYMAP_FLAG_SHIFT :: u8 where "KEYMAP_FLAG_SHIFT = push_bit 0 1"
definition KEYMAP_FLAG_CAPSLOCK :: u8 where "KEYMAP_FLAG_CAPSLOCK = push_bit 1 1"
definition KEYMAP_FLAG_NUMLOCK :: u8 where "KEYMAP_FLAG_NUMLOCK = push_bit 2 1"

lemmas keymap_flag_defs = KEYMAP_FLAG_SHIFT_def KEYMAP_FLAG_CAPSLOCK_def KEYMAP_FLAG_NUMLOCK_def

record keymapentry =
  key_alt :: nat
  chr :: nat
  chralt :: nat
  km_flags :: u8

definition KEY_NOCHAR :: keymapentry where
  "KEY_NOCHAR = \<lparr>key_alt = 0, chr = 0, chralt = 0, km_flags = 0\<rparr>"
definition KEY_CHAR :: "nat \<Rightarrow> keymapentry" where
  "KEY_CHAR c = \<lparr>key_alt = 0, chr = c, chralt = c, km_flags = 0\<rparr>"
definition KEY_CHAR_WITH_SHIFT :: "nat \<Rightarrow> nat \<Rightarrow> keymapentry" where
  "KEY_CHAR_WITH_SHIFT c calt = \<lparr>key_alt = 0, chr = c, chralt = calt, km_flags = KEYMAP_FLAG_SHIFT\<rparr>"
definition KEY_CHAR_WITH_CAPSLOCK :: "nat \<Rightarrow> nat \<Rightarrow> keymapentry" where
  "KEY_CHAR_WITH_CAPSLOCK c calt =
     \<lparr>key_alt = 0, chr = c, chralt = calt, km_flags = KEYMAP_FLAG_SHIFT OR KEYMAP_FLAG_CAPSLOCK\<rparr>"
definition KEY_CHAR_WITH_NUMLOCK :: "nat \<Rightarrow> nat \<Rightarrow> keymapentry" where
  "KEY_CHAR_WITH_NUMLOCK k c = \<lparr>key_alt = k, chr = c, chralt = c, km_flags = KEYMAP_FLAG_NUMLOCK\<rparr>"

text \<open>The initialisers of the array \<open>KEYMAP\<close>; an entry that is not listed is zero.\<close>

definition KEYMAP :: "(nat \<times> keymapentry) list" where
  "KEYMAP = [
     (KBD_KEY_ESCAPE, KEY_NOCHAR),
     (KBD_KEY_F1, KEY_NOCHAR),
     (KBD_KEY_F2, KEY_NOCHAR),
     (KBD_KEY_F3, KEY_NOCHAR),
     (KBD_KEY_F4, KEY_NOCHAR),
     (KBD_KEY_F5, KEY_NOCHAR),
     (KBD_KEY_F6, KEY_NOCHAR),
     (KBD_KEY_F7, KEY_NOCHAR),
     (KBD_KEY_F8, KEY_NOCHAR),
     (KBD_KEY_F9, KEY_NOCHAR),
     (KBD_KEY_F10, KEY_NOCHAR),
     (KBD_KEY_F11, KEY_NOCHAR),
     (KBD_KEY_F12, KEY_NOCHAR),
     (KBD_KEY_PRINT_SCREEN, KEY_NOCHAR),
     (KBD_KEY_SCROLL_LOCK, KEY_NOCHAR),
     (KBD_KEY_PAUSE, KEY_NOCHAR),
     (KBD_KEY_BACK_TICK, KEY_CHAR_WITH_SHIFT 96 126),
     (KBD_KEY_1, KEY_CHAR_WITH_SHIFT 49 33),
     (KBD_KEY_2, KEY_CHAR_WITH_SHIFT 50 64),
     (KBD_KEY_3, KEY_CHAR_WITH_SHIFT 51 35),
     (KBD_KEY_4, KEY_CHAR_WITH_SHIFT 52 36),
     (KBD_KEY_5, KEY_CHAR_WITH_SHIFT 53 37),
     (KBD_KEY_6, KEY_CHAR_WITH_SHIFT 54 94),
     (KBD_KEY_7, KEY_CHAR_WITH_SHIFT 55 38),
     (KBD_KEY_8, KEY_CHAR_WITH_SHIFT 56 42),
     (KBD_KEY_9, KEY_CHAR_WITH_SHIFT 57 40),
     (KBD_KEY_0, KEY_CHAR_WITH_SHIFT 48 41),
     (KBD_KEY_MINUS, KEY_CHAR_WITH_SHIFT 45 95),
     (KBD_KEY_EQUALS, KEY_CHAR_WITH_SHIFT 61 43),
     (KBD_KEY_BACKSPACE, KEY_CHAR 8),
     (KBD_KEY_TAB, KEY_CHAR 9),
     (KBD_KEY_Q, KEY_CHAR_WITH_CAPSLOCK 113 81),
     (KBD_KEY_W, KEY_CHAR_WITH_CAPSLOCK 119 87),
     (KBD_KEY_E, KEY_CHAR_WITH_CAPSLOCK 101 69),
     (KBD_KEY_R, KEY_CHAR_WITH_CAPSLOCK 114 82),
     (KBD_KEY_T, KEY_CHAR_WITH_CAPSLOCK 116 84),
     (KBD_KEY_Y, KEY_CHAR_WITH_CAPSLOCK 121 89),
     (KBD_KEY_U, KEY_CHAR_WITH_CAPSLOCK 117 85),
     (KBD_KEY_I, KEY_CHAR_WITH_CAPSLOCK 105 73),
     (KBD_KEY_O, KEY_CHAR_WITH_CAPSLOCK 111 79),
     (KBD_KEY_P, KEY_CHAR_WITH_CAPSLOCK 112 80),
     (KBD_KEY_OPEN_BRACKET, KEY_CHAR_WITH_SHIFT 91 123),
     (KBD_KEY_CLOSE_BRACKET, KEY_CHAR_WITH_SHIFT 93 125),
     (KBD_KEY_BASKSLASH, KEY_CHAR_WITH_SHIFT 92 124),
     (KBD_KEY_CAPS_LOCK, KEY_NOCHAR),
     (KBD_KEY_A, KEY_CHAR_WITH_CAPSLOCK 97 65),
     (KBD_KEY_S, KEY_CHAR_WITH_CAPSLOCK 115 83),
     (KBD_KEY_D, KEY_CHAR_WITH_CAPSLOCK 100 68),
     (KBD_KEY_F, KEY_CHAR_WITH_CAPSLOCK 102 70),
     (KBD_KEY_G, KEY_CHAR_WITH_CAPSLOCK 103 71),
     (KBD_KEY_H, KEY_CHAR_WITH_CAPSLOCK 104 72),
     (KBD_KEY_J, KEY_CHAR_WITH_CAPSLOCK 106 74),
     (KBD_KEY_K, KEY_CHAR_WITH_CAPSLOCK 107 75),
     (KBD_KEY_L, KEY_CHAR_WITH_CAPSLOCK 108 76),
     (KBD_KEY_SEMICOLON, KEY_CHAR_WITH_SHIFT 59 58),
     (KBD_KEY_QUOTE, KEY_CHAR_WITH_SHIFT 39 34),
     (KBD_KEY_ENTER, KEY_CHAR 10),
     (KBD_KEY_LSHIFT, KEY_NOCHAR),
     (KBD_KEY_Z, KEY_CHAR_WITH_CAPSLOCK 122 90),
     (KBD_KEY_X, KEY_CHAR_WITH_CAPSLOCK 120 88),
     (KBD_KEY_C, KEY_CHAR_WITH_CAPSLOCK 99 67),
     (KBD_KEY_V, KEY_CHAR_WITH_CAPSLOCK 118 86),
     (KBD_KEY_B, KEY_CHAR_WITH_CAPSLOCK 98 66),
     (KBD_KEY_N, KEY_CHAR_WITH_CAPSLOCK 110 78),
     (KBD_KEY_M, KEY_CHAR_WITH_CAPSLOCK 109 77),
     (KBD_KEY_COMMA, KEY_CHAR_WITH_SHIFT 44 60),
     (KBD_KEY_DOT, KEY_CHAR_WITH_SHIFT 46 62),
     (KBD_KEY_SLASH, KEY_CHAR_WITH_SHIFT 47 63),
     (KBD_KEY_RSHIFT, KEY_NOCHAR),
     (KBD_KEY_LCTRL, KEY_NOCHAR),
     (KBD_KEY_LSUPER, KEY_NOCHAR),
     (KBD_KEY_LALT, KEY_NOCHAR),
     (KBD_KEY_SPACE, KEY_CHAR 32),
     (KBD_KEY_RALT, KEY_NOCHAR),
     (KBD_KEY_RSUPER, KEY_NOCHAR),
     (KBD_KEY_MENU, KEY_NOCHAR),
     (KBD_KEY_RCTRL, KEY_NOCHAR),
     (KBD_KEY_INSERT, KEY_NOCHAR),
     (KBD_KEY_DELETE, KEY_NOCHAR),
     (KBD_KEY_HOME, KEY_NOCHAR),
     (KBD_KEY_END, KEY_NOCHAR),
     (KBD_KEY_PAGE_UP, KEY_NOCHAR),
     (KBD_KEY_PAGE_DOWN, KEY_NOCHAR),
     (KBD_KEY_UP, KEY_NOCHAR),
     (KBD_KEY_DOWN, KEY_NOCHAR),
     (KBD_KEY_LEFT, KEY_NOCHAR),
     (KBD_KEY_RIGHT, KEY_NOCHAR),
     (KBD_KEY_NUM_LOCK, KEY_NOCHAR),
     (KBD_KEY_NUMPAD_MUL, KEY_CHAR 42),
     (KBD_KEY_NUMPAD_DIV, KEY_CHAR 47),
     (KBD_KEY_NUMPAD_SUB, KEY_CHAR 45),
     (KBD_KEY_NUMPAD_7, KEY_CHAR_WITH_NUMLOCK KBD_KEY_HOME 55),
     (KBD_KEY_NUMPAD_8, KEY_CHAR_WITH_NUMLOCK KBD_KEY_UP 56),
     (KBD_KEY_NUMPAD_9, KEY_CHAR_WITH_NUMLOCK KBD_KEY_PAGE_UP 57),
     (KBD_KEY_NUMPAD_4, KEY_CHAR_WITH_NUMLOCK KBD_KEY_LEFT 52),
     (KBD_KEY_NUMPAD_5, KEY_CHAR_WITH_NUMLOCK KBD_KEY_INVALID 53),
     (KBD_KEY_NUMPAD_6, KEY_CHAR_WITH_NUMLOCK KBD_KEY_RIGHT 54),
     (KBD_KEY_NUMPAD_ADD, KEY_CHAR 43),
     (KBD_KEY_NUMPAD_1, KEY_CHAR_WITH_NUMLOCK KBD_KEY_END 49),
     (KBD_KEY_NUMPAD_2, KEY_CHAR_WITH_NUMLOCK KBD_KEY_DOWN 50),
     (KBD_KEY_NUMPAD_3, KEY_CHAR_WITH_NUMLOCK KBD_KEY_PAGE_DOWN 51),
     (KBD_KEY_NUMPAD_0, KEY_CHAR_WITH_NUMLOCK KBD_KEY_INSERT 48),
     (KBD_KEY_NUMPAD_POINT, KEY_CHAR 46),
     (KBD_KEY_NUMPAD_ENTER, KEY_CHAR 10)]"

definition keymap :: "nat \<Rightarrow> keymapentry" where
  "keymap key = (case map_of KEYMAP key of None \<Rightarrow> KEY_NOCHAR | Some e \<Rightarrow> e)"

subsection \<open>State and operations\<close>

record kbd_key_event =
  ev_key :: nat
  ev_chr :: nat
  is_down :: bool

text \<open>
  \<open>led_calls\<close> records the calls of the devices' \<open>updateleds\<close> (device, scroll, caps, num). An index at or
  above \<open>KBD_KEY_COUNT\<close> is outside both arrays.
\<close>

record kbd =
  events :: "kbd_key_event list"
  keyboard_list :: "nat list"
  s_flags :: u16
  keysdown :: "nat \<Rightarrow> bool"
  led_calls :: "(nat \<times> bool \<times> bool \<times> bool) list"

definition event_queue_cap :: nat where
  "event_queue_cap = 500"

definition update_leds :: "kbd \<Rightarrow> kbd" where
  "update_leds s =
     (let scroll = s_flags s AND KBD_FLAG_LOCK_SCROLL \<noteq> 0;
          caps = s_flags s AND KBD_FLAG_LOCK_CAPS \<noteq> 0;
          num = s_flags s AND KBD_FLAG_LOCK_NUM \<noteq> 0 in
      s\<lparr>led_calls := led_calls s @ map (\<lambda>dev. (dev, scroll, caps, num)) (keyboard_list s)\<rparr>)"

text \<open>A full queue drops the event (with a message).\<close>

definition enqueue_event :: "kbd_key_event \<Rightarrow> kbd \<Rightarrow> kbd" where
  "enqueue_event e s = (if length (events s) < event_queue_cap then s\<lparr>events := events s @ [e]\<rparr> else s)"

definition kbd_pull_event :: "kbd \<Rightarrow> kbd \<times> kbd_key_event option" where
  "kbd_pull_event s = (case events s of [] \<Rightarrow> (s, None) | e # es \<Rightarrow> (s\<lparr>events := es\<rparr>, Some e))"

text \<open>The modifier keys of the \<open>switch\<close> statements.\<close>

definition modifier_flag :: "nat \<Rightarrow> u16" where
  "modifier_flag key =
     (if key = KBD_KEY_LSHIFT then KBD_FLAG_MOD_LSHIFT
      else if key = KBD_KEY_RSHIFT then KBD_FLAG_MOD_RSHIFT
      else if key = KBD_KEY_LCTRL then KBD_FLAG_MOD_LCTRL
      else if key = KBD_KEY_RCTRL then KBD_FLAG_MOD_RCTRL
      else if key = KBD_KEY_LALT then KBD_FLAG_MOD_LALT
      else if key = KBD_KEY_RALT then KBD_FLAG_MOD_RALT
      else if key = KBD_KEY_LSUPER then KBD_FLAG_MOD_LSUPER
      else if key = KBD_KEY_RSUPER then KBD_FLAG_MOD_RSUPER
      else 0)"

text \<open>The key to report and its character.\<close>

definition key_report :: "u16 \<Rightarrow> nat \<Rightarrow> nat \<times> nat" where
  "key_report flags key =
     (let entry = keymap key in
      if km_flags entry AND KEYMAP_FLAG_NUMLOCK \<noteq> 0 \<and> flags AND KBD_FLAG_LOCK_NUM = 0
      then (key_alt entry, 0)
      else if (km_flags entry AND KEYMAP_FLAG_CAPSLOCK \<noteq> 0 \<and> flags AND KBD_FLAG_LOCK_CAPS \<noteq> 0) \<or>
              (km_flags entry AND KEYMAP_FLAG_SHIFT \<noteq> 0 \<and> flags AND KBD_FLAG_MOD_SHIFT \<noteq> 0)
      then (key, chralt entry)
      else (key, chr entry))"

definition kbd_key_released :: "nat \<Rightarrow> kbd \<Rightarrow> kbd res" where
  "kbd_key_released key s =
     (if KBD_KEY_COUNT \<le> key then Inl Out_of_bounds
      else
        (let s = s\<lparr>s_flags := s_flags s AND NOT (modifier_flag key)\<rparr>;
             (key_to_report, c) = key_report (s_flags s) key in
         if \<not> keysdown s key then Inr s
         else
           (let s = s\<lparr>keysdown := (keysdown s)(key := False)\<rparr> in
            if key_to_report \<noteq> KBD_KEY_INVALID
            then Inr (enqueue_event \<lparr>ev_key = key_to_report, ev_chr = c, is_down = False\<rparr> s)
            else Inr s)))"

fun release_loop :: "nat list \<Rightarrow> nat \<Rightarrow> kbd \<Rightarrow> kbd res" where
  "release_loop [] except s = Inr s"
| "release_loop (key # ks) except s =
     (if key = except then release_loop ks except s
      else if keysdown s key then bind_res (kbd_key_released key s) (release_loop ks except)
      else release_loop ks except s)"

definition release_all_keys_except :: "nat \<Rightarrow> kbd \<Rightarrow> kbd res" where
  "release_all_keys_except except s = release_loop [1..<KBD_KEY_COUNT] except s"

definition kbd_key_pressed :: "nat \<Rightarrow> kbd \<Rightarrow> kbd res" where
  "kbd_key_pressed key s =
     (if KBD_KEY_COUNT \<le> key then Inl Out_of_bounds
      else
        bind_res
          (if key = KBD_KEY_CAPS_LOCK then Inr (update_leds (s\<lparr>s_flags := s_flags s XOR KBD_FLAG_LOCK_CAPS\<rparr>))
           else if key = KBD_KEY_NUM_LOCK
           then release_all_keys_except KBD_KEY_NUM_LOCK (update_leds (s\<lparr>s_flags := s_flags s XOR KBD_FLAG_LOCK_NUM\<rparr>))
           else if key = KBD_KEY_SCROLL_LOCK then Inr (update_leds (s\<lparr>s_flags := s_flags s XOR KBD_FLAG_LOCK_SCROLL\<rparr>))
           else Inr (s\<lparr>s_flags := s_flags s OR modifier_flag key\<rparr>)) (\<lambda>s.
        let (key_to_report, c) = key_report (s_flags s) key;
            s = s\<lparr>keysdown := (keysdown s)(key := True)\<rparr> in
        if key_to_report \<noteq> KBD_KEY_INVALID
        then Inr (enqueue_event \<lparr>ev_key = key_to_report, ev_chr = c, is_down = True\<rparr> s)
        else Inr s))"

text \<open>
  \<open>kbd_register\<close> fills in the device and registers it with the I/O device layer; it does not touch the
  keyboard state \<open>s\<close>. The operations of a device are the argument \<open>ops\<close> (a number that names them).
\<close>

record kbd_dev =
  kd_iodev :: iodev
  kd_ops :: nat
  kd_data :: nat

definition kbd_register :: "bool \<Rightarrow> iodevtype list \<Rightarrow> nat \<Rightarrow> nat \<Rightarrow> nat \<Rightarrow> kbd \<Rightarrow> (iodevtype list \<times> kbd \<times> kbd_dev \<times> int) res" where
  "kbd_register oom ts dev_out ops data s =
     bind_res (iodev_register oom ts ''kbd'' dev_out) (\<lambda>(ts, d, result).
     Inr (ts, s, \<lparr>kd_iodev = d, kd_ops = ops, kd_data = data\<rparr>, result))"

subsection \<open>Lemmas\<close>

lemma fun_upd_same: "\<not> f k \<Longrightarrow> f(k := False) = f"
  by (simp add: fun_eq_iff)

lemma pressed_down:
  assumes "key < KBD_KEY_COUNT" and "key \<noteq> KBD_KEY_NUM_LOCK"
  shows "\<exists>s'. kbd_key_pressed key s = Inr s' \<and> keysdown s' = (keysdown s)(key := True) \<and> keyboard_list s' = keyboard_list s"
  using assms by (auto simp: kbd_key_pressed_def update_leds_def enqueue_event_def Let_def split: prod.splits)

lemma released_up:
  assumes "key < KBD_KEY_COUNT"
  shows "\<exists>s'. kbd_key_released key s = Inr s' \<and> keysdown s' = (keysdown s)(key := False) \<and>
    s_flags s' = s_flags s AND NOT (modifier_flag key) \<and> keyboard_list s' = keyboard_list s \<and> led_calls s' = led_calls s"
  using assms by (auto simp: kbd_key_released_def enqueue_event_def Let_def fun_upd_same split: prod.splits)

text \<open>
  The modifier flags agree with the keys that are down; the other flags are the three lock flags.
\<close>

definition modifier_keys :: "nat list" where
  "modifier_keys = [KBD_KEY_LSHIFT, KBD_KEY_RSHIFT, KBD_KEY_LCTRL, KBD_KEY_RCTRL, KBD_KEY_LALT, KBD_KEY_RALT,
     KBD_KEY_LSUPER, KBD_KEY_RSUPER]"

definition flags_ok :: "kbd \<Rightarrow> bool" where
  "flags_ok s \<longleftrightarrow> (\<forall>key\<in>set modifier_keys. s_flags s AND modifier_flag key \<noteq> 0 \<longleftrightarrow> keysdown s key)"

definition flag_bit :: "nat \<Rightarrow> nat" where
  "flag_bit key =
     (if key = KBD_KEY_LSHIFT then 8 else if key = KBD_KEY_RSHIFT then 9 else if key = KBD_KEY_LCTRL then 10
      else if key = KBD_KEY_RCTRL then 11 else if key = KBD_KEY_LALT then 12 else if key = KBD_KEY_RALT then 13
      else if key = KBD_KEY_LSUPER then 14 else 15)"

lemma modifier_flag_bit: "key \<in> set modifier_keys \<Longrightarrow> modifier_flag key = 2 ^ flag_bit key"
  by (auto simp: modifier_keys_def modifier_flag_def flag_bit_def kbd_flag_defs)

lemma modifier_flag_other: "key \<notin> set modifier_keys \<Longrightarrow> modifier_flag key = 0"
  by (auto simp: modifier_keys_def modifier_flag_def)

lemma flag_bit_range: "8 \<le> flag_bit key" "flag_bit key < 16"
  by (simp_all add: flag_bit_def)

lemma flag_bit_inj: "k \<in> set modifier_keys \<Longrightarrow> j \<in> set modifier_keys \<Longrightarrow> flag_bit k = flag_bit j \<longleftrightarrow> k = j"
  by (auto simp: modifier_keys_def flag_bit_def)

lemma bit_power16: "bit (2 ^ n :: u16) k \<longleftrightarrow> k = n \<and> k < 16"
  by (auto simp: bit_simps)

lemma and_power_bit: "(w :: u16) AND 2 ^ n \<noteq> 0 \<longleftrightarrow> n < 16 \<and> bit w n"
proof -
  have "w AND 2 ^ n \<noteq> 0 \<longleftrightarrow> (\<exists>k<16. bit (w AND 2 ^ n) k)"
    by (auto simp: bit_eq_iff)
  also have "\<dots> \<longleftrightarrow> n < 16 \<and> bit w n" by (auto simp: bit_and_iff bit_power16)
  finally show ?thesis .
qed

lemma flags_ok_bits: "flags_ok s \<longleftrightarrow> (\<forall>key\<in>set modifier_keys. bit (s_flags s) (flag_bit key) \<longleftrightarrow> keysdown s key)"
  using flag_bit_range(2) by (simp add: flags_ok_def modifier_flag_bit and_power_bit)

lemma flags_bits_released:
  assumes "flags_ok s" and "keysdown s' = (keysdown s)(key := False)" and "s_flags s' = s_flags s AND NOT (modifier_flag key)"
  shows "flags_ok s'"
proof (cases "key \<in> set modifier_keys")
  case True
  then show ?thesis using assms flag_bit_range(2)
    by (auto simp: flags_ok_bits modifier_flag_bit bit_and_iff bit_not_iff bit_power16 flag_bit_inj)
next
  case False
  then show ?thesis using assms by (auto simp: flags_ok_bits modifier_flag_other)
qed

lemma flags_ok_released:
  assumes "flags_ok s" and "key < KBD_KEY_COUNT"
  shows "\<exists>s'. kbd_key_released key s = Inr s' \<and> keysdown s' = (keysdown s)(key := False) \<and> flags_ok s'"
  using released_up [OF assms(2), of s] flags_bits_released [OF assms(1)] by blast

lemma release_loop_flags:
  assumes "flags_ok s" and "\<forall>k\<in>set ks. k < KBD_KEY_COUNT"
  shows "\<exists>s'. release_loop ks except s = Inr s' \<and> flags_ok s' \<and>
    keysdown s' = (\<lambda>k. keysdown s k \<and> (k = except \<or> k \<notin> set ks))"
  using assms
proof (induction ks arbitrary: s)
  case Nil
  then show ?case by simp
next
  case (Cons key ks)
  show ?case
  proof (cases "key \<noteq> except \<and> keysdown s key")
    case True
    then obtain s1 where s1: "kbd_key_released key s = Inr s1" "keysdown s1 = (keysdown s)(key := False)" "flags_ok s1"
      using flags_ok_released [OF Cons.prems(1), of key] Cons.prems(2) by auto
    with Cons obtain s' where "release_loop ks except s1 = Inr s'" "flags_ok s'"
      "keysdown s' = (\<lambda>k. keysdown s1 k \<and> (k = except \<or> k \<notin> set ks))" by fastforce
    with True s1 show ?thesis by (intro exI [of _ s']) (auto simp: fun_eq_iff)
  next
    case False
    with Cons obtain s' where "release_loop ks except s = Inr s'" "flags_ok s'"
      "keysdown s' = (\<lambda>k. keysdown s k \<and> (k = except \<or> k \<notin> set ks))" by fastforce
    with False show ?thesis by (intro exI [of _ s']) (auto simp: fun_eq_iff)
  qed
qed

lemma lock_bits:
  "8 \<le> n \<Longrightarrow> \<not> bit KBD_FLAG_LOCK_CAPS n" "8 \<le> n \<Longrightarrow> \<not> bit KBD_FLAG_LOCK_NUM n" "8 \<le> n \<Longrightarrow> \<not> bit KBD_FLAG_LOCK_SCROLL n"
proof -
  have "bit KBD_FLAG_LOCK_CAPS n \<Longrightarrow> n = 0" "bit KBD_FLAG_LOCK_NUM n \<Longrightarrow> n = 1" "bit KBD_FLAG_LOCK_SCROLL n \<Longrightarrow> n = 2"
    using bit_power16 [of 0 n] bit_power16 [of 1 n] bit_power16 [of 2 n] by (simp_all add: kbd_flag_defs)
  then show "\<not> bit KBD_FLAG_LOCK_CAPS n" "\<not> bit KBD_FLAG_LOCK_NUM n" "\<not> bit KBD_FLAG_LOCK_SCROLL n" if "8 \<le> n"
    using that by auto
qed

lemma flags_ok_lock:
  assumes "flags_ok s" and "f \<in> {KBD_FLAG_LOCK_CAPS, KBD_FLAG_LOCK_NUM, KBD_FLAG_LOCK_SCROLL}"
  shows "flags_ok (update_leds (s\<lparr>s_flags := s_flags s XOR f\<rparr>))"
proof -
  have "\<not> bit f (flag_bit key)" for key
    using assms(2) lock_bits [OF flag_bit_range(1) [of key]] by auto
  then show ?thesis using assms(1) by (simp add: flags_ok_bits update_leds_def bit_xor_iff)
qed

lemma flags_ok_modifier:
  assumes "flags_ok s" and "keysdown s' = (keysdown s)(key := True)" and "s_flags s' = s_flags s OR modifier_flag key"
  shows "flags_ok s'"
proof (cases "key \<in> set modifier_keys")
  case True
  then show ?thesis using assms flag_bit_range(2)
    by (auto simp: flags_ok_bits modifier_flag_bit bit_or_iff bit_power16 flag_bit_inj)
next
  case False
  then show ?thesis using assms by (auto simp: flags_ok_bits modifier_flag_other)
qed

text \<open>The last part of \<open>kbd_key_pressed\<close>, after the flags are updated.\<close>

definition report_press :: "nat \<Rightarrow> kbd \<Rightarrow> kbd" where
  "report_press key s =
     (let (key_to_report, c) = key_report (s_flags s) key;
          s = s\<lparr>keysdown := (keysdown s)(key := True)\<rparr> in
      if key_to_report \<noteq> KBD_KEY_INVALID
      then enqueue_event \<lparr>ev_key = key_to_report, ev_chr = c, is_down = True\<rparr> s else s)"

lemma report_press_fields [simp]:
  "keysdown (report_press key s) = (keysdown s)(key := True)" "s_flags (report_press key s) = s_flags s"
  "keyboard_list (report_press key s) = keyboard_list s" "led_calls (report_press key s) = led_calls s"
  by (simp_all add: report_press_def enqueue_event_def Let_def split: prod.split)

lemma pressed_cases:
  assumes "key < KBD_KEY_COUNT"
  shows "kbd_key_pressed key s =
    bind_res
      (if key = KBD_KEY_CAPS_LOCK then Inr (update_leds (s\<lparr>s_flags := s_flags s XOR KBD_FLAG_LOCK_CAPS\<rparr>))
       else if key = KBD_KEY_NUM_LOCK
       then release_all_keys_except KBD_KEY_NUM_LOCK (update_leds (s\<lparr>s_flags := s_flags s XOR KBD_FLAG_LOCK_NUM\<rparr>))
       else if key = KBD_KEY_SCROLL_LOCK then Inr (update_leds (s\<lparr>s_flags := s_flags s XOR KBD_FLAG_LOCK_SCROLL\<rparr>))
       else Inr (s\<lparr>s_flags := s_flags s OR modifier_flag key\<rparr>)) (\<lambda>s. Inr (report_press key s))"
  using assms unfolding kbd_key_pressed_def
  by (auto simp: report_press_def Let_def split_beta intro!: arg_cong2 [where f = bind_res])

lemma flags_ok_report: "flags_ok s \<Longrightarrow> key \<notin> set modifier_keys \<Longrightarrow> flags_ok (report_press key s)"
  by (auto simp: flags_ok_def)

lemma report_press_ok:
  assumes "flags_ok s"
  shows "flags_ok (report_press key (s\<lparr>s_flags := s_flags s OR modifier_flag key\<rparr>))"
  using flags_ok_modifier [OF assms, of "report_press key (s\<lparr>s_flags := s_flags s OR modifier_flag key\<rparr>)" key] by simp

subsection \<open>Sequences of keys\<close>

datatype key_input = Press nat | Release nat

fun input_key :: "key_input \<Rightarrow> nat" where
  "input_key (Press k) = k"
| "input_key (Release k) = k"

fun run_keys :: "key_input list \<Rightarrow> kbd \<Rightarrow> kbd res" where
  "run_keys [] s = Inr s"
| "run_keys (Press k # is) s = bind_res (kbd_key_pressed k s) (run_keys is)"
| "run_keys (Release k # is) s = bind_res (kbd_key_released k s) (run_keys is)"

text \<open>Which keys should be down: pressing NumLock releases all others.\<close>

fun keys_after :: "key_input list \<Rightarrow> nat set \<Rightarrow> nat set" where
  "keys_after [] d = d"
| "keys_after (Press k # is) d = keys_after is (if k = KBD_KEY_NUM_LOCK then {k} else insert k d)"
| "keys_after (Release k # is) d = keys_after is (d - {k})"

definition kbd_ok :: "kbd \<Rightarrow> bool" where
  "kbd_ok s \<longleftrightarrow> flags_ok s \<and> {k. keysdown s k} \<subseteq> {1..<KBD_KEY_COUNT}"

lemma press_numlock:
  assumes "flags_ok s"
  shows "\<exists>s'. kbd_key_pressed KBD_KEY_NUM_LOCK s = Inr s' \<and> flags_ok s' \<and>
    {k. keysdown s' k} = insert KBD_KEY_NUM_LOCK ({k. keysdown s k} - {1..<KBD_KEY_COUNT})"
proof -
  let ?t = "update_leds (s\<lparr>s_flags := s_flags s XOR KBD_FLAG_LOCK_NUM\<rparr>)"
  have ok: "flags_ok ?t" by (rule flags_ok_lock [OF assms]) simp
  obtain u where u: "release_loop [1..<KBD_KEY_COUNT] KBD_KEY_NUM_LOCK ?t = Inr u" "flags_ok u"
      "keysdown u = (\<lambda>k. keysdown ?t k \<and> (k = KBD_KEY_NUM_LOCK \<or> k \<notin> set [1..<KBD_KEY_COUNT]))"
    using release_loop_flags [OF ok, of "[1..<KBD_KEY_COUNT]" KBD_KEY_NUM_LOCK] by auto
  have "KBD_KEY_NUM_LOCK \<notin> set modifier_keys" by (simp add: modifier_keys_def)
  then have "flags_ok (report_press KBD_KEY_NUM_LOCK u)" by (rule flags_ok_report [OF u(2)])
  then show ?thesis
    using u(1,3) by (intro exI [of _ "report_press KBD_KEY_NUM_LOCK u"])
      (auto simp: pressed_cases release_all_keys_except_def update_leds_def simp del: upt_Suc upt_rec_numeral)
qed

lemma press_other:
  assumes "flags_ok s" and "key < KBD_KEY_COUNT" and "key \<noteq> KBD_KEY_NUM_LOCK"
  shows "\<exists>s'. kbd_key_pressed key s = Inr s' \<and> flags_ok s' \<and> {k. keysdown s' k} = insert key {k. keysdown s k}"
proof -
  have locks: "KBD_KEY_CAPS_LOCK \<notin> set modifier_keys" "KBD_KEY_SCROLL_LOCK \<notin> set modifier_keys"
    by (simp_all add: modifier_keys_def)
  obtain s' where s': "kbd_key_pressed key s = Inr s'" "keysdown s' = (keysdown s)(key := True)"
    using pressed_down [OF assms(2,3), of s] by blast
  have "flags_ok s'"
    using s'(1) assms(2,3) flags_ok_report [OF flags_ok_lock [OF assms(1)]] locks report_press_ok [OF assms(1), of key]
    by (auto simp: pressed_cases split: if_splits)
  then show ?thesis using s' by (intro exI [of _ s']) auto
qed

lemma press_ok:
  assumes "kbd_ok s" and "0 < key" and "key < KBD_KEY_COUNT"
  shows "\<exists>s'. kbd_key_pressed key s = Inr s' \<and> kbd_ok s' \<and>
    {k. keysdown s' k} = (if key = KBD_KEY_NUM_LOCK then {key} else insert key {k. keysdown s k})"
proof (cases "key = KBD_KEY_NUM_LOCK")
  case True
  then show ?thesis using press_numlock [of s] assms by (auto simp: kbd_ok_def)
next
  case False
  then show ?thesis using press_other [of s key] assms by (auto simp: kbd_ok_def)
qed

lemma release_ok:
  assumes "kbd_ok s" and "key < KBD_KEY_COUNT"
  shows "\<exists>s'. kbd_key_released key s = Inr s' \<and> kbd_ok s' \<and> {k. keysdown s' k} = {k. keysdown s k} - {key}"
proof -
  obtain s' where s': "kbd_key_released key s = Inr s'" "keysdown s' = (keysdown s)(key := False)" "flags_ok s'"
    using flags_ok_released [of s key] assms by (auto simp: kbd_ok_def)
  then have "{k. keysdown s' k} = {k. keysdown s k} - {key}" by auto
  with s' assms show ?thesis by (auto simp: kbd_ok_def)
qed

text \<open>
  After any sequence of key presses and releases (of keys of the enumeration), the keyboard
  module has not failed, the keys it holds as down are exactly those that were pressed and not released
  since (a press of NumLock releases every other key), and each of the eight modifier flags is set
  exactly when its key is down.
\<close>

lemma kbd_tracks_keys:
  assumes "kbd_ok s" and "\<forall>i\<in>set is. 0 < input_key i \<and> input_key i < KBD_KEY_COUNT"
  shows "\<exists>s'. run_keys is s = Inr s' \<and> kbd_ok s' \<and> {k. keysdown s' k} = keys_after is {k. keysdown s k} \<and>
    (\<forall>key\<in>set modifier_keys. s_flags s' AND modifier_flag key \<noteq> 0 \<longleftrightarrow> key \<in> keys_after is {k. keysdown s k})"
proof -
  have "\<exists>s'. run_keys is s = Inr s' \<and> kbd_ok s' \<and> {k. keysdown s' k} = keys_after is {k. keysdown s k}"
    using assms
  proof (induction "is" arbitrary: s)
    case (Cons i "is")
    have valid: "\<forall>i\<in>set is. 0 < input_key i \<and> input_key i < KBD_KEY_COUNT" using Cons.prems(2) by simp
    show ?case
    proof (cases i)
      case (Press key)
      with Cons.prems obtain s1 where "kbd_key_pressed key s = Inr s1" "kbd_ok s1"
          "{k. keysdown s1 k} = (if key = KBD_KEY_NUM_LOCK then {key} else insert key {k. keysdown s k})"
        using press_ok [of s key] by auto
      with Press Cons.IH [of s1] valid show ?thesis by (simp split: if_splits)
    next
      case (Release key)
      with Cons.prems obtain s1 where "kbd_key_released key s = Inr s1" "kbd_ok s1"
          "{k. keysdown s1 k} = {k. keysdown s k} - {key}"
        using release_ok [of s key] by auto
      with Release Cons.IH [of s1] valid show ?thesis by simp
    qed
  qed simp
  then show ?thesis unfolding kbd_ok_def flags_ok_def by blast
qed

definition kbd_boot :: kbd where
  "kbd_boot = \<lparr>events = [], keyboard_list = [], s_flags = 0, keysdown = (\<lambda>_. False), led_calls = []\<rparr>"

subsection \<open>Reported events\<close>

text \<open>Keys whose report does not depend on the flags.\<close>

lemma keymap_special:
  "keymap KBD_KEY_LSHIFT = KEY_NOCHAR"
  "keymap KBD_KEY_RSHIFT = KEY_NOCHAR"
  "keymap KBD_KEY_LCTRL = KEY_NOCHAR"
  "keymap KBD_KEY_RCTRL = KEY_NOCHAR"
  "keymap KBD_KEY_LALT = KEY_NOCHAR"
  "keymap KBD_KEY_RALT = KEY_NOCHAR"
  "keymap KBD_KEY_LSUPER = KEY_NOCHAR"
  "keymap KBD_KEY_RSUPER = KEY_NOCHAR"
  "keymap KBD_KEY_CAPS_LOCK = KEY_NOCHAR"
  "keymap KBD_KEY_SCROLL_LOCK = KEY_NOCHAR"
  "keymap KBD_KEY_NUM_LOCK = KEY_NOCHAR"
  by (simp_all add: keymap_def KEYMAP_def)

lemma keymap_of_special:
  "key \<in> set modifier_keys \<union> {KBD_KEY_CAPS_LOCK, KBD_KEY_SCROLL_LOCK, KBD_KEY_NUM_LOCK} \<Longrightarrow> keymap key = KEY_NOCHAR"
  using keymap_special by (auto simp: modifier_keys_def)

lemma key_report_special:
  "key \<in> set modifier_keys \<union> {KBD_KEY_CAPS_LOCK, KBD_KEY_SCROLL_LOCK, KBD_KEY_NUM_LOCK} \<Longrightarrow> key_report flags key = (key, 0)"
  by (simp only: key_report_def keymap_of_special) (simp add: KEY_NOCHAR_def)

text \<open>The flags before the report of a press, for keys other than NumLock.\<close>

definition press_flags :: "nat \<Rightarrow> u16 \<Rightarrow> u16" where
  "press_flags key f =
     (if key = KBD_KEY_CAPS_LOCK then f XOR KBD_FLAG_LOCK_CAPS
      else if key = KBD_KEY_SCROLL_LOCK then f XOR KBD_FLAG_LOCK_SCROLL else f OR modifier_flag key)"

lemma pressed_events:
  assumes "key < KBD_KEY_COUNT" and "key \<noteq> KBD_KEY_NUM_LOCK" and "length (events s) < event_queue_cap"
    and "key_report (press_flags key (s_flags s)) key = (rk, c)"
  shows "\<exists>s'. kbd_key_pressed key s = Inr s' \<and> s_flags s' = press_flags key (s_flags s) \<and> keysdown s' key \<and>
    events s' = events s @ (if rk = KBD_KEY_INVALID then [] else [\<lparr>ev_key = rk, ev_chr = c, is_down = True\<rparr>])"
  using assms by (auto simp: kbd_key_pressed_def update_leds_def enqueue_event_def press_flags_def Let_def split: prod.splits if_splits)

lemma released_events:
  assumes "key < KBD_KEY_COUNT" and "keysdown s key" and "length (events s) < event_queue_cap"
    and "key_report (s_flags s AND NOT (modifier_flag key)) key = (rk, c)"
  shows "\<exists>s'. kbd_key_released key s = Inr s' \<and> s_flags s' = s_flags s AND NOT (modifier_flag key) \<and>
    keysdown s' = (keysdown s)(key := False) \<and>
    events s' = events s @ (if rk = KBD_KEY_INVALID then [] else [\<lparr>ev_key = rk, ev_chr = c, is_down = False\<rparr>])"
  using assms by (auto simp: kbd_key_released_def enqueue_event_def Let_def split: prod.splits if_splits)

lemma report_stable:
  assumes "key \<noteq> KBD_KEY_NUM_LOCK"
  shows "key_report (press_flags key f) key = key_report f key"
    and "key_report (press_flags key f AND NOT (modifier_flag key)) key = key_report f key"
proof -
  have "key_report g key = key_report f key" if "g = f \<or> g \<noteq> f \<and> key \<in> set modifier_keys \<union> {KBD_KEY_CAPS_LOCK, KBD_KEY_SCROLL_LOCK}" for g
    using that key_report_special [of key] by auto
  moreover have "press_flags key f = f \<or> key \<in> set modifier_keys \<union> {KBD_KEY_CAPS_LOCK, KBD_KEY_SCROLL_LOCK}"
      "press_flags key f AND NOT (modifier_flag key) = f \<or> key \<in> set modifier_keys \<union> {KBD_KEY_CAPS_LOCK, KBD_KEY_SCROLL_LOCK}"
    using modifier_flag_other [of key] by (auto simp: press_flags_def)
  ultimately show "key_report (press_flags key f) key = key_report f key"
    and "key_report (press_flags key f AND NOT (modifier_flag key)) key = key_report f key" by blast+
qed

text \<open>
  Pressing and releasing any key but NumLock, with room in the event queue, queues a
  matching pair of events: key down and key up with the same key and the same character, the ones the
  key map gives under the current lock and modifier flags (no event when the key map maps the key to
  nothing, as for keypad 5 without NumLock).
\<close>

lemma key_events_paired:
  assumes "key < KBD_KEY_COUNT" and "key \<noteq> KBD_KEY_NUM_LOCK" and "length (events s) + 1 < event_queue_cap"
    and "key_report (s_flags s) key = (rk, c)"
  shows "\<exists>s1 s2. kbd_key_pressed key s = Inr s1 \<and> kbd_key_released key s1 = Inr s2 \<and>
    events s2 = events s @ (if rk = KBD_KEY_INVALID then []
      else [\<lparr>ev_key = rk, ev_chr = c, is_down = True\<rparr>, \<lparr>ev_key = rk, ev_chr = c, is_down = False\<rparr>])"
proof -
  obtain s1 where s1: "kbd_key_pressed key s = Inr s1" "s_flags s1 = press_flags key (s_flags s)" "keysdown s1 key"
      "events s1 = events s @ (if rk = KBD_KEY_INVALID then [] else [\<lparr>ev_key = rk, ev_chr = c, is_down = True\<rparr>])"
    using pressed_events [OF assms(1,2), of s rk c] report_stable(1) [OF assms(2), of "s_flags s"] assms(3,4) by auto
  have len: "length (events s1) < event_queue_cap" using s1(4) assms(3) by auto
  have report: "key_report (s_flags s1 AND NOT (modifier_flag key)) key = (rk, c)"
    using report_stable(2) [OF assms(2), of "s_flags s"] assms(4) s1(2) by simp
  show ?thesis using released_events [OF assms(1) s1(3) len report] s1(1,4) by auto
qed

text \<open>The release loop with one key down.\<close>

lemma release_loop_none:
  "\<forall>k\<in>set ks. \<not> keysdown s k \<or> k = except \<Longrightarrow> release_loop ks except s = Inr s"
  by (induction ks) auto

lemma release_loop_append:
  "release_loop (ks @ ls) except s = bind_res (release_loop ks except s) (release_loop ls except)"
  by (induction ks arbitrary: s) (auto simp: bind_res_assoc intro: bind_res_cong)

lemma release_loop_one:
  assumes "\<And>k. keysdown s k \<longleftrightarrow> k = key" and "key \<noteq> except" and "0 < key" and "key < KBD_KEY_COUNT"
  shows "release_loop [1..<KBD_KEY_COUNT] except s = kbd_key_released key s"
proof -
  obtain s' where s': "kbd_key_released key s = Inr s'" "keysdown s' = (keysdown s)(key := False)"
    using released_up [OF assms(4), of s] by blast
  have "[1..<KBD_KEY_COUNT] = [1..<key] @ key # [Suc key..<KBD_KEY_COUNT]"
    using assms(3,4) upt_add_eq_append [of 1 key "KBD_KEY_COUNT - key"] upt_conv_Cons [of key KBD_KEY_COUNT] by simp
  moreover have "release_loop [1..<key] except s = Inr s" by (rule release_loop_none) (simp add: assms(1))
  moreover have "release_loop [Suc key..<KBD_KEY_COUNT] except s' = Inr s'"
    by (rule release_loop_none) (use s' assms in auto)
  ultimately show ?thesis using s' assms(1,2) by (simp only: release_loop_append) simp
qed

text \<open>The keypad keys with another meaning when NumLock is off.\<close>

definition numpad_keys :: "nat list" where
  "numpad_keys = [KBD_KEY_NUMPAD_7, KBD_KEY_NUMPAD_8, KBD_KEY_NUMPAD_9, KBD_KEY_NUMPAD_4, KBD_KEY_NUMPAD_6,
     KBD_KEY_NUMPAD_1, KBD_KEY_NUMPAD_2, KBD_KEY_NUMPAD_3, KBD_KEY_NUMPAD_0]"

lemma numpad_range: "key \<in> set numpad_keys \<Longrightarrow> 0 < key \<and> key < KBD_KEY_COUNT \<and> key \<noteq> KBD_KEY_NUM_LOCK \<and>
    key \<notin> set modifier_keys \<and> key \<noteq> KBD_KEY_CAPS_LOCK \<and> key \<noteq> KBD_KEY_SCROLL_LOCK"
  by (auto simp: numpad_keys_def modifier_keys_def)

lemma numpad_keymap:
  "key \<in> set numpad_keys \<Longrightarrow> km_flags (keymap key) = KEYMAP_FLAG_NUMLOCK \<and> key_alt (keymap key) \<noteq> KBD_KEY_INVALID \<and> key_alt (keymap key) \<noteq> key"
proof -
  have "\<forall>k\<in>set numpad_keys. km_flags (keymap k) = KEYMAP_FLAG_NUMLOCK \<and> key_alt (keymap k) \<noteq> KBD_KEY_INVALID \<and> key_alt (keymap k) \<noteq> k"
    by (simp add: numpad_keys_def keymap_def KEYMAP_def KEY_CHAR_WITH_NUMLOCK_def)
  then show "key \<in> set numpad_keys \<Longrightarrow> km_flags (keymap key) = KEYMAP_FLAG_NUMLOCK \<and> key_alt (keymap key) \<noteq> KBD_KEY_INVALID \<and> key_alt (keymap key) \<noteq> key"
    by blast
qed

lemma numpad_report:
  assumes "key \<in> set numpad_keys"
  shows "key_report f key = (if f AND KBD_FLAG_LOCK_NUM = 0 then (key_alt (keymap key), 0) else (key, chr (keymap key)))"
  using numpad_keymap [OF assms] by (simp add: key_report_def Let_def keymap_flag_defs)

lemma toggle_num: "f AND KBD_FLAG_LOCK_NUM = 0 \<Longrightarrow> (f XOR KBD_FLAG_LOCK_NUM) AND KBD_FLAG_LOCK_NUM \<noteq> 0"
proof -
  assume f: "f AND KBD_FLAG_LOCK_NUM = 0"
  have n: "KBD_FLAG_LOCK_NUM = 2 ^ 1" by (simp add: kbd_flag_defs)
  have "\<not> bit f 1" using f and_power_bit [of f 1] by (simp add: n)
  then have "bit (f XOR KBD_FLAG_LOCK_NUM) 1" using bit_power16 [of 1 1] by (simp add: bit_xor_iff n)
  then show "(f XOR KBD_FLAG_LOCK_NUM) AND KBD_FLAG_LOCK_NUM \<noteq> 0" using and_power_bit [of "f XOR KBD_FLAG_LOCK_NUM" 1] by (simp add: n)
qed

text \<open>
  With NumLock off and no key down, a keypad key that is held while NumLock is pressed is
  reported down under its alternative key (Home for keypad 7, and so on) but reported up as the digit
  key: the flag is toggled before the held keys are released. The release of the alternative key is
  never reported, not even when the keypad key is let go.
\<close>

lemma numlock_release_mismatch:
  assumes "key \<in> set numpad_keys" and "keysdown s = (\<lambda>_. False)" and "s_flags s AND KBD_FLAG_LOCK_NUM = 0" and "events s = []"
  shows "\<exists>s'. run_keys [Press key, Press KBD_KEY_NUM_LOCK, Release key] s = Inr s' \<and> \<not> keysdown s' key \<and>
    key_alt (keymap key) \<noteq> key \<and>
    events s' = [\<lparr>ev_key = key_alt (keymap key), ev_chr = 0, is_down = True\<rparr>,
      \<lparr>ev_key = key, ev_chr = chr (keymap key), is_down = False\<rparr>,
      \<lparr>ev_key = KBD_KEY_NUM_LOCK, ev_chr = 0, is_down = True\<rparr>]"
proof -
  note r = numpad_range [OF assms(1)] and m = numpad_keymap [OF assms(1)]
  have mf: "modifier_flag key = 0" using r modifier_flag_other by simp
  have "kbd_key_pressed key s = Inr (s\<lparr>keysdown := (\<lambda>_. False)(key := True),
      events := [\<lparr>ev_key = key_alt (keymap key), ev_chr = 0, is_down = True\<rparr>]\<rparr>)" (is "_ = Inr ?s1")
    using r m mf assms by (simp add: kbd_key_pressed_def numpad_report enqueue_event_def event_queue_cap_def)
  moreover have "kbd_key_pressed KBD_KEY_NUM_LOCK ?s1 = Inr s'" if "s' = (update_leds (?s1\<lparr>s_flags := s_flags s XOR KBD_FLAG_LOCK_NUM\<rparr>))
      \<lparr>keysdown := (\<lambda>_. False)(KBD_KEY_NUM_LOCK := True),
       events := [\<lparr>ev_key = key_alt (keymap key), ev_chr = 0, is_down = True\<rparr>,
         \<lparr>ev_key = key, ev_chr = chr (keymap key), is_down = False\<rparr>,
         \<lparr>ev_key = KBD_KEY_NUM_LOCK, ev_chr = 0, is_down = True\<rparr>]\<rparr>" for s'
  proof -
    let ?t = "update_leds (?s1\<lparr>s_flags := s_flags s XOR KBD_FLAG_LOCK_NUM\<rparr>)"
    have "release_loop [1..<KBD_KEY_COUNT] KBD_KEY_NUM_LOCK ?t = kbd_key_released key ?t"
      by (rule release_loop_one) (use r in \<open>auto simp: update_leds_def\<close>)
    moreover have "kbd_key_released key ?t = Inr (?t\<lparr>keysdown := (\<lambda>_. False)(key := False),
        events := events ?s1 @ [\<lparr>ev_key = key, ev_chr = chr (keymap key), is_down = False\<rparr>]\<rparr>)"
      using r mf assms toggle_num [OF assms(3)]
      by (simp add: kbd_key_released_def update_leds_def numpad_report enqueue_event_def event_queue_cap_def)
    ultimately show ?thesis using that
      by (simp add: pressed_cases release_all_keys_except_def report_press_def key_report_special enqueue_event_def
          event_queue_cap_def update_leds_def fun_upd_same del: upt_Suc upt_rec_numeral)
  qed
  ultimately show ?thesis using r m mf by (simp add: kbd_key_released_def key_report_def update_leds_def split_beta Let_def)
qed

text \<open>No operation adds a keyboard to the list that \<open>update_leds\<close> walks.\<close>

lemma released_leds:
  "kbd_key_released key s = Inr s' \<Longrightarrow> keyboard_list s' = keyboard_list s \<and> led_calls s' = led_calls s"
  by (auto simp: kbd_key_released_def enqueue_event_def Let_def split: if_splits prod.splits)

lemma release_loop_leds:
  "release_loop ks except s = Inr s' \<Longrightarrow> keyboard_list s' = keyboard_list s \<and> led_calls s' = led_calls s"
  by (induction ks arbitrary: s) (auto simp: bind_res_eq_Inr dest!: released_leds split: if_splits)

lemma pressed_leds:
  assumes "kbd_key_pressed key s = Inr s'" and "keyboard_list s = []"
  shows "keyboard_list s' = [] \<and> led_calls s' = led_calls s"
proof -
  have "key < KBD_KEY_COUNT" using assms(1) by (auto simp: kbd_key_pressed_def split: if_splits)
  with assms show ?thesis
    by (auto simp: pressed_cases bind_res_eq_Inr release_all_keys_except_def update_leds_def
        simp del: upt_Suc upt_rec_numeral dest!: release_loop_leds split: if_splits)
qed

lemma run_keys_leds:
  assumes "run_keys is s = Inr s'" and "keyboard_list s = []"
  shows "keyboard_list s' = [] \<and> led_calls s' = led_calls s"
  using assms
proof (induction "is" s rule: run_keys.induct)
  case (2 k "is" s)
  then show ?case by (fastforce simp: bind_res_eq_Inr dest: pressed_leds)
next
  case (3 k "is" s)
  then show ?case by (fastforce simp: bind_res_eq_Inr dest: released_leds)
qed simp

text \<open>
  Registering a keyboard does not add it to the list of keyboards whose LEDs are updated, and
  no other operation does: from a state with an empty list, whatever devices are registered and whatever
  keys are pressed (the lock keys included), no device's \<open>updateleds\<close> is ever called.
\<close>

lemma leds_never_updated:
  assumes "keyboard_list s = []" and "kbd_register oom ts dev_out ops data s = Inr (ts', s1, dev, r)"
    and "run_keys is s1 = Inr s2"
  shows "keyboard_list s2 = [] \<and> led_calls s2 = led_calls s"
proof -
  have "s1 = s" using assms(2) by (auto simp: kbd_register_def bind_res_eq_Inr)
  then show ?thesis using run_keys_leds [OF assms(3)] assms(1) by simp
qed

end
