(* ===== verification/Ps2kbd.thy ===== *)
theory Ps2kbd
  imports Kbd
begin

text \<open>
  The PS/2 keyboard driver (kernel/dev/ps2kbd.c): a state machine over the received bytes that turns
  scan codes of set 2 into key presses and releases, and a queue of commands that are sent one at a
  time and completed by the keyboard's answers. The outcome of the \<open>n\<close>-th transmission is the argument
  \<open>put n\<close>; \<open>sent\<close> records the bytes given to \<open>stream_put_char\<close>. The linked list of commands is a HOL list
  (front first), as \<open>Linked_List\<close> justifies; \<open>finished\<close> records the completed commands.
\<close>

datatype INPUTSTATE =
    INPUTSTATE_DEFAULT
  | INPUTSTATE_WAITING_RESPONSEDATA
  | INPUTSTATE_WAITING_E0EXT
  | INPUTSTATE_WAITING_E1EXT1
  | INPUTSTATE_WAITING_E1EXT2
  | INPUTSTATE_WAITING_NORMALRELEASE
  | INPUTSTATE_WAITING_E0RELEASE
  | INPUTSTATE_WAITING_E1RELEASE1
  | INPUTSTATE_WAITING_E1RELEASE2

datatype CMDSTATE = CMDSTATE_QUEUED | CMDSTATE_WAITINGRESPONSE | CMDSTATE_SUCCESS | CMDSTATE_FAILED

abbreviation MAX_RESEND_COUNT :: nat where "MAX_RESEND_COUNT \<equiv> 3"
abbreviation CMD_SETLEDS :: u8 where "CMD_SETLEDS \<equiv> 0xed"
abbreviation CMD_ECHO :: u8 where "CMD_ECHO \<equiv> 0xee"
abbreviation CMD_SCANCODESET :: u8 where "CMD_SCANCODESET \<equiv> 0xf0"
abbreviation PS2_RESPONSE_ACK :: u8 where "PS2_RESPONSE_ACK \<equiv> 0xfa"
abbreviation PS2_RESPONSE_RESEND :: u8 where "PS2_RESPONSE_RESEND \<equiv> 0xfe"

record cmd_context =
  cstate :: CMDSTATE
  noretry :: bool
  async :: bool
  responsedata :: u8
  cmdbyte :: u8
  resendcount :: nat
  needdata :: bool

definition FLAG_FAKELSHIFT_DOWN :: u8 where "FLAG_FAKELSHIFT_DOWN = push_bit 0 1"
definition FLAG_FAKENUMPADMUL_DOWN :: u8 where "FLAG_FAKENUMPADMUL_DOWN = push_bit 1 1"
definition FLAG_FAKELCTRL_DOWN :: u8 where "FLAG_FAKELCTRL_DOWN = push_bit 2 1"
definition FLAG_FAKENUMLOCK_DOWN :: u8 where "FLAG_FAKENUMLOCK_DOWN = push_bit 3 1"


record kbdcontext =
  in_state :: INPUTSTATE
  cmd_queue :: "cmd_context list"
  ctx_flags :: u8
  keybytes :: "u8 list"
  next_key_byte_index :: nat
  kbd_state :: kbd
  sent :: "u8 list"
  finished :: "cmd_context list"

subsection \<open>Scan codes\<close>

definition KEYMAP_DEFAULT :: "(u8 \<times> nat) list" where
  "KEYMAP_DEFAULT = [
     (0x76, KBD_KEY_ESCAPE),
     (0x05, KBD_KEY_F1),
     (0x06, KBD_KEY_F2),
     (0x04, KBD_KEY_F3),
     (0x0c, KBD_KEY_F4),
     (0x03, KBD_KEY_F5),
     (0x0b, KBD_KEY_F6),
     (0x83, KBD_KEY_F7),
     (0x0a, KBD_KEY_F8),
     (0x01, KBD_KEY_F9),
     (0x09, KBD_KEY_F10),
     (0x78, KBD_KEY_F11),
     (0x07, KBD_KEY_F12),
     (0x7e, KBD_KEY_SCROLL_LOCK),
     (0x0e, KBD_KEY_BACK_TICK),
     (0x16, KBD_KEY_1),
     (0x1e, KBD_KEY_2),
     (0x26, KBD_KEY_3),
     (0x25, KBD_KEY_4),
     (0x2e, KBD_KEY_5),
     (0x36, KBD_KEY_6),
     (0x3d, KBD_KEY_7),
     (0x3e, KBD_KEY_8),
     (0x46, KBD_KEY_9),
     (0x45, KBD_KEY_0),
     (0x4e, KBD_KEY_MINUS),
     (0x55, KBD_KEY_EQUALS),
     (0x66, KBD_KEY_BACKSPACE),
     (0x0d, KBD_KEY_TAB),
     (0x15, KBD_KEY_Q),
     (0x1d, KBD_KEY_W),
     (0x24, KBD_KEY_E),
     (0x2d, KBD_KEY_R),
     (0x2c, KBD_KEY_T),
     (0x35, KBD_KEY_Y),
     (0x3c, KBD_KEY_U),
     (0x43, KBD_KEY_I),
     (0x44, KBD_KEY_O),
     (0x4d, KBD_KEY_P),
     (0x54, KBD_KEY_OPEN_BRACKET),
     (0x5b, KBD_KEY_CLOSE_BRACKET),
     (0x5d, KBD_KEY_BASKSLASH),
     (0x58, KBD_KEY_CAPS_LOCK),
     (0x1c, KBD_KEY_A),
     (0x1b, KBD_KEY_S),
     (0x23, KBD_KEY_D),
     (0x2b, KBD_KEY_F),
     (0x34, KBD_KEY_G),
     (0x33, KBD_KEY_H),
     (0x3b, KBD_KEY_J),
     (0x42, KBD_KEY_K),
     (0x4b, KBD_KEY_L),
     (0x4c, KBD_KEY_SEMICOLON),
     (0x52, KBD_KEY_QUOTE),
     (0x5a, KBD_KEY_ENTER),
     (0x12, KBD_KEY_LSHIFT),
     (0x1a, KBD_KEY_Z),
     (0x22, KBD_KEY_X),
     (0x21, KBD_KEY_C),
     (0x2a, KBD_KEY_V),
     (0x32, KBD_KEY_B),
     (0x31, KBD_KEY_N),
     (0x3a, KBD_KEY_M),
     (0x41, KBD_KEY_COMMA),
     (0x49, KBD_KEY_DOT),
     (0x4a, KBD_KEY_SLASH),
     (0x59, KBD_KEY_RSHIFT),
     (0x14, KBD_KEY_LCTRL),
     (0x11, KBD_KEY_LALT),
     (0x29, KBD_KEY_SPACE),
     (0x77, KBD_KEY_NUM_LOCK),
     (0x7c, KBD_KEY_NUMPAD_MUL),
     (0x7b, KBD_KEY_NUMPAD_SUB),
     (0x6c, KBD_KEY_NUMPAD_7),
     (0x75, KBD_KEY_NUMPAD_8),
     (0x7d, KBD_KEY_NUMPAD_9),
     (0x6b, KBD_KEY_NUMPAD_4),
     (0x73, KBD_KEY_NUMPAD_5),
     (0x74, KBD_KEY_NUMPAD_6),
     (0x79, KBD_KEY_NUMPAD_ADD),
     (0x69, KBD_KEY_NUMPAD_1),
     (0x72, KBD_KEY_NUMPAD_2),
     (0x7a, KBD_KEY_NUMPAD_3),
     (0x70, KBD_KEY_NUMPAD_0),
     (0x71, KBD_KEY_NUMPAD_POINT)]"

definition KEYMAP_E0 :: "(u8 \<times> nat) list" where
  "KEYMAP_E0 = [
     (0x1f, KBD_KEY_LSUPER),
     (0x11, KBD_KEY_RALT),
     (0x27, KBD_KEY_RSUPER),
     (0x2f, KBD_KEY_MENU),
     (0x14, KBD_KEY_RCTRL),
     (0x70, KBD_KEY_INSERT),
     (0x71, KBD_KEY_DELETE),
     (0x6c, KBD_KEY_HOME),
     (0x69, KBD_KEY_END),
     (0x7d, KBD_KEY_PAGE_UP),
     (0x7a, KBD_KEY_PAGE_DOWN),
     (0x75, KBD_KEY_UP),
     (0x72, KBD_KEY_DOWN),
     (0x6b, KBD_KEY_LEFT),
     (0x74, KBD_KEY_RIGHT),
     (0x4a, KBD_KEY_NUMPAD_DIV),
     (0x5a, KBD_KEY_NUMPAD_ENTER)]"

definition scan_key :: "(u8 \<times> nat) list \<Rightarrow> u8 \<Rightarrow> nat" where
  "scan_key tab b = (case map_of tab b of None \<Rightarrow> KBD_KEY_INVALID | Some k \<Rightarrow> k)"

text \<open>The message about a bad scan code; it fails for an index that the switch does not list.\<close>

definition report_bad_scancode :: "kbdcontext \<Rightarrow> kbdcontext res" where
  "report_bad_scancode c =
     bind_res (assert_res (1 \<le> next_key_byte_index c \<and> next_key_byte_index c \<le> 8)) (\<lambda>_. Inr c)"

definition key_pressed :: "nat \<Rightarrow> kbdcontext \<Rightarrow> kbdcontext res" where
  "key_pressed key c =
     (if key = KBD_KEY_INVALID then report_bad_scancode c
      else bind_res (kbd_key_pressed key (kbd_state c)) (\<lambda>s. Inr (c\<lparr>kbd_state := s\<rparr>)))"

definition key_released :: "nat \<Rightarrow> kbdcontext \<Rightarrow> kbdcontext res" where
  "key_released key c =
     (if key = KBD_KEY_INVALID then report_bad_scancode c
      else bind_res (kbd_key_released key (kbd_state c)) (\<lambda>s. Inr (c\<lparr>kbd_state := s\<rparr>)))"

definition check_printscreen_press :: "kbdcontext \<Rightarrow> kbdcontext res" where
  "check_printscreen_press c =
     (let flagmask = FLAG_FAKELSHIFT_DOWN OR FLAG_FAKENUMPADMUL_DOWN in
      if ctx_flags c AND flagmask = flagmask then key_pressed KBD_KEY_PRINT_SCREEN c else Inr c)"

definition check_printscreen_release :: "kbdcontext \<Rightarrow> kbdcontext res" where
  "check_printscreen_release c =
     (let flagmask = FLAG_FAKELSHIFT_DOWN OR FLAG_FAKENUMPADMUL_DOWN in
      if ctx_flags c AND flagmask = 0 then key_released KBD_KEY_PRINT_SCREEN c else Inr c)"

definition check_pause_press :: "kbdcontext \<Rightarrow> kbdcontext res" where
  "check_pause_press c =
     (let flagmask = FLAG_FAKELCTRL_DOWN OR FLAG_FAKENUMLOCK_DOWN in
      if ctx_flags c AND flagmask = flagmask then key_pressed KBD_KEY_PAUSE c else Inr c)"

definition check_pause_release :: "kbdcontext \<Rightarrow> kbdcontext res" where
  "check_pause_release c =
     (let flagmask = FLAG_FAKELCTRL_DOWN OR FLAG_FAKENUMLOCK_DOWN in
      if ctx_flags c AND flagmask = 0 then key_released KBD_KEY_PAUSE c else Inr c)"

subsection \<open>Commands\<close>

definition send_byte :: "(nat \<Rightarrow> bool) \<Rightarrow> u8 \<Rightarrow> kbdcontext \<Rightarrow> kbdcontext \<times> bool" where
  "send_byte put b c = (c\<lparr>sent := sent c @ [b]\<rparr>, put (length (sent c)))"

text \<open>Replace the command at the back of the queue.\<close>

definition set_back :: "kbdcontext \<Rightarrow> cmd_context \<Rightarrow> kbdcontext" where
  "set_back c cmd = c\<lparr>cmd_queue := butlast (cmd_queue c) @ [cmd]\<rparr>"

definition cmd_finished :: "(nat \<Rightarrow> bool) \<Rightarrow> CMDSTATE \<Rightarrow> kbdcontext \<Rightarrow> kbdcontext res" where
  "cmd_finished put finalstate c =
     bind_res (assert_res (cmd_queue c \<noteq> [])) (\<lambda>_.
     let cmd = last (cmd_queue c);
         c = c\<lparr>cmd_queue := butlast (cmd_queue c), finished := finished c @ [cmd\<lparr>cstate := finalstate\<rparr>]\<rparr> in
     if cmd_queue c = [] then Inr c
     else
       (let cmd = (last (cmd_queue c))\<lparr>cstate := CMDSTATE_WAITINGRESPONSE\<rparr>;
            c = set_back c cmd;
            (c, ok) = send_byte put (cmdbyte cmd) c in
        Inr (if ok then c else set_back c (cmd\<lparr>cstate := CMDSTATE_FAILED\<rparr>))))"

definition ack_received :: "(nat \<Rightarrow> bool) \<Rightarrow> kbdcontext \<Rightarrow> kbdcontext res" where
  "ack_received put c =
     (if cmd_queue c = [] then Inr c
      else
        (let cmd = last (cmd_queue c) in
         if cstate cmd \<noteq> CMDSTATE_WAITINGRESPONSE then Inr c
         else if needdata cmd then Inr (c\<lparr>in_state := INPUTSTATE_WAITING_RESPONSEDATA\<rparr>)
         else cmd_finished put CMDSTATE_SUCCESS c))"

definition resend_received :: "(nat \<Rightarrow> bool) \<Rightarrow> kbdcontext \<Rightarrow> kbdcontext res" where
  "resend_received put c =
     (if cmd_queue c = [] then Inr c
      else
        (let cmd = last (cmd_queue c) in
         if cstate cmd \<noteq> CMDSTATE_WAITINGRESPONSE then Inr c
         else if 0 < resendcount cmd \<and> \<not> noretry cmd then
           (let cmd = cmd\<lparr>resendcount := resendcount cmd - 1\<rparr>;
                (c, ok) = send_byte put (cmdbyte cmd) (set_back c cmd) in
            Inr (if ok then c else set_back c (cmd\<lparr>cstate := CMDSTATE_FAILED\<rparr>)))
         else cmd_finished put CMDSTATE_FAILED c))"

definition echo_received :: "(nat \<Rightarrow> bool) \<Rightarrow> kbdcontext \<Rightarrow> kbdcontext res" where
  "echo_received put c =
     (if cmd_queue c = [] then Inr c
      else
        (let cmd = last (cmd_queue c) in
         if cstate cmd \<noteq> CMDSTATE_WAITINGRESPONSE \<or> cmdbyte cmd \<noteq> CMD_ECHO then Inr c
         else cmd_finished put CMDSTATE_SUCCESS c))"

definition response_byte_received :: "(nat \<Rightarrow> bool) \<Rightarrow> u8 \<Rightarrow> kbdcontext \<Rightarrow> kbdcontext res" where
  "response_byte_received put byte c =
     (if cmd_queue c = [] then Inr c
      else
        (let cmd = last (cmd_queue c) in
         bind_res (if cstate cmd \<noteq> CMDSTATE_WAITINGRESPONSE then Inr c
           else cmd_finished put CMDSTATE_SUCCESS (set_back c (cmd\<lparr>responsedata := byte\<rparr>))) (\<lambda>c.
         Inr (c\<lparr>in_state := INPUTSTATE_DEFAULT\<rparr>))))"

subsection \<open>The state machine\<close>

definition e0_ext_received :: "u8 \<Rightarrow> kbdcontext \<Rightarrow> kbdcontext res" where
  "e0_ext_received byte c =
     (let c = c\<lparr>in_state := INPUTSTATE_DEFAULT\<rparr> in
      if byte = 0xf0 then Inr (c\<lparr>in_state := INPUTSTATE_WAITING_E0RELEASE\<rparr>)
      else if byte = 0x12 then check_printscreen_press (c\<lparr>ctx_flags := ctx_flags c OR FLAG_FAKELSHIFT_DOWN\<rparr>)
      else if byte = 0x7c then check_printscreen_press (c\<lparr>ctx_flags := ctx_flags c OR FLAG_FAKENUMPADMUL_DOWN\<rparr>)
      else key_pressed (scan_key KEYMAP_E0 byte) c)"

definition e0_release_received :: "u8 \<Rightarrow> kbdcontext \<Rightarrow> kbdcontext res" where
  "e0_release_received byte c =
     (let c = c\<lparr>in_state := INPUTSTATE_DEFAULT\<rparr> in
      if byte = 0x12 then check_printscreen_release (c\<lparr>ctx_flags := ctx_flags c AND NOT FLAG_FAKELSHIFT_DOWN\<rparr>)
      else if byte = 0x7c then check_printscreen_release (c\<lparr>ctx_flags := ctx_flags c AND NOT FLAG_FAKENUMPADMUL_DOWN\<rparr>)
      else key_released (scan_key KEYMAP_E0 byte) c)"

definition e1_ext1_received :: "u8 \<Rightarrow> kbdcontext \<Rightarrow> kbdcontext res" where
  "e1_ext1_received byte c =
     (let c = c\<lparr>in_state := INPUTSTATE_WAITING_E1EXT2\<rparr> in
      if byte = 0xf0 then Inr (c\<lparr>in_state := INPUTSTATE_WAITING_E1RELEASE1\<rparr>)
      else if byte = 0x14 then Inr (c\<lparr>ctx_flags := ctx_flags c OR FLAG_FAKELCTRL_DOWN\<rparr>)
      else if byte = 0x77 then Inr (c\<lparr>ctx_flags := ctx_flags c OR FLAG_FAKENUMLOCK_DOWN\<rparr>)
      else Inr c)"

definition e1_release1_received :: "u8 \<Rightarrow> kbdcontext \<Rightarrow> kbdcontext res" where
  "e1_release1_received byte c =
     (let c = c\<lparr>in_state := INPUTSTATE_WAITING_E1EXT2\<rparr> in
      if byte = 0x14 then Inr (c\<lparr>ctx_flags := ctx_flags c AND NOT FLAG_FAKELCTRL_DOWN\<rparr>)
      else if byte = 0x77 then Inr (c\<lparr>ctx_flags := ctx_flags c AND NOT FLAG_FAKENUMLOCK_DOWN\<rparr>)
      else Inr c)"

definition e1_ext2_received :: "u8 \<Rightarrow> kbdcontext \<Rightarrow> kbdcontext res" where
  "e1_ext2_received byte c =
     (let c = c\<lparr>in_state := INPUTSTATE_DEFAULT\<rparr> in
      if byte = 0xf0 then Inr (c\<lparr>in_state := INPUTSTATE_WAITING_E1RELEASE2\<rparr>)
      else if byte = 0x14 then check_pause_press (c\<lparr>ctx_flags := ctx_flags c OR FLAG_FAKELCTRL_DOWN\<rparr>)
      else if byte = 0x77 then check_pause_press (c\<lparr>ctx_flags := ctx_flags c OR FLAG_FAKENUMLOCK_DOWN\<rparr>)
      else report_bad_scancode c)"

definition e1_release2_received :: "u8 \<Rightarrow> kbdcontext \<Rightarrow> kbdcontext res" where
  "e1_release2_received byte c =
     (let c = c\<lparr>in_state := INPUTSTATE_DEFAULT\<rparr> in
      if byte = 0x14 then check_pause_release (c\<lparr>ctx_flags := ctx_flags c AND NOT FLAG_FAKELCTRL_DOWN\<rparr>)
      else if byte = 0x77 then check_pause_release (c\<lparr>ctx_flags := ctx_flags c AND NOT FLAG_FAKENUMLOCK_DOWN\<rparr>)
      else report_bad_scancode c)"

definition normal_release_received :: "u8 \<Rightarrow> kbdcontext \<Rightarrow> kbdcontext res" where
  "normal_release_received byte c = key_released (scan_key KEYMAP_DEFAULT byte) (c\<lparr>in_state := INPUTSTATE_DEFAULT\<rparr>)"

definition scancode_first_byte_received :: "u8 \<Rightarrow> kbdcontext \<Rightarrow> kbdcontext res" where
  "scancode_first_byte_received byte c =
     (if byte = 0xe0 then Inr (c\<lparr>in_state := INPUTSTATE_WAITING_E0EXT\<rparr>)
      else if byte = 0xe1 then Inr (c\<lparr>in_state := INPUTSTATE_WAITING_E1EXT1\<rparr>)
      else if byte = 0xf0 then Inr (c\<lparr>in_state := INPUTSTATE_WAITING_NORMALRELEASE\<rparr>)
      else key_pressed (scan_key KEYMAP_DEFAULT byte) c)"

text \<open>The byte is recorded first; \<open>next_key_byte_index\<close> is a \<open>uint8_t\<close>.\<close>

definition record_byte :: "u8 \<Rightarrow> kbdcontext \<Rightarrow> kbdcontext res" where
  "record_byte byte c =
     (let c = (if in_state c = INPUTSTATE_DEFAULT then c\<lparr>next_key_byte_index := 0\<rparr> else c) in
      bind_res (store (keybytes c) (next_key_byte_index c) byte) (\<lambda>kb.
      Inr (c\<lparr>keybytes := kb, next_key_byte_index := (next_key_byte_index c + 1) mod 2 ^ 8\<rparr>)))"

definition ps2_op_bytereceived :: "(nat \<Rightarrow> bool) \<Rightarrow> u8 \<Rightarrow> kbdcontext \<Rightarrow> kbdcontext res" where
  "ps2_op_bytereceived put byte c =
     bind_res (record_byte byte c) (\<lambda>c.
     if byte = PS2_RESPONSE_ACK then ack_received put c
     else if byte = PS2_RESPONSE_RESEND then resend_received put c
     else if byte = CMD_ECHO then echo_received put c
     else
       (case in_state c of
          INPUTSTATE_WAITING_RESPONSEDATA \<Rightarrow> response_byte_received put byte c
        | INPUTSTATE_WAITING_E0EXT \<Rightarrow> e0_ext_received byte c
        | INPUTSTATE_WAITING_E0RELEASE \<Rightarrow> e0_release_received byte c
        | INPUTSTATE_WAITING_E1EXT1 \<Rightarrow> e1_ext1_received byte c
        | INPUTSTATE_WAITING_E1RELEASE1 \<Rightarrow> e1_release1_received byte c
        | INPUTSTATE_WAITING_E1EXT2 \<Rightarrow> e1_ext2_received byte c
        | INPUTSTATE_WAITING_E1RELEASE2 \<Rightarrow> e1_release2_received byte c
        | INPUTSTATE_WAITING_NORMALRELEASE \<Rightarrow> normal_release_received byte c
        | INPUTSTATE_DEFAULT \<Rightarrow> scancode_first_byte_received byte c))"

fun receive_bytes :: "(nat \<Rightarrow> bool) \<Rightarrow> u8 list \<Rightarrow> kbdcontext \<Rightarrow> kbdcontext res" where
  "receive_bytes put [] c = Inr c"
| "receive_bytes put (b # bs) c = bind_res (ps2_op_bytereceived put b c) (receive_bytes put bs)"

subsection \<open>Requests\<close>

text \<open>
  \<open>request_cmd\<close> in its asynchronous mode: the command is queued at the front, and sent at once if the queue
  was empty. \<open>oom\<close> is the outcome of \<open>heap_alloc\<close>; a failed transmission returns the error \<open>err\<close> of the stream
  and leaves the command in the queue, a successful one the count 1.
\<close>

definition request_cmd_async :: "(nat \<Rightarrow> bool) \<Rightarrow> bool \<Rightarrow> int \<Rightarrow> u8 \<Rightarrow> bool \<Rightarrow> kbdcontext \<Rightarrow> kbdcontext \<times> int" where
  "request_cmd_async put oom err byte nr c =
     (if oom then (c, - ENOMEM)
      else
        (let isqueueempty = (cmd_queue c = []);
             cmd = \<lparr>cstate = if isqueueempty then CMDSTATE_WAITINGRESPONSE else CMDSTATE_QUEUED, noretry = nr, async = True,
                     responsedata = 0, cmdbyte = byte, resendcount = MAX_RESEND_COUNT, needdata = False\<rparr>;
             c = c\<lparr>cmd_queue := cmd # cmd_queue c\<rparr> in
         if isqueueempty then
           (let (c, ok) = send_byte put byte c in (c, if ok then 1 else err))
         else (c, 0)))"

definition setledstate_async :: "(nat \<Rightarrow> bool) \<Rightarrow> bool \<times> bool \<Rightarrow> int \<Rightarrow> u8 \<Rightarrow> kbdcontext \<Rightarrow> kbdcontext \<times> int" where
  "setledstate_async put oom err leds c =
     (let (c, ret) = request_cmd_async put (fst oom) err CMD_SETLEDS False c in
      if ret < 0 then (c, ret) else request_cmd_async put (snd oom) err leds True c)"

definition LED_SCROLL :: u8 where "LED_SCROLL = push_bit 0 1"
definition LED_NUM :: u8 where "LED_NUM = push_bit 1 1"
definition LED_CAPS :: u8 where "LED_CAPS = push_bit 2 1"

definition kbd_op_updateleds :: "(nat \<Rightarrow> bool) \<Rightarrow> bool \<times> bool \<Rightarrow> int \<Rightarrow> bool \<Rightarrow> bool \<Rightarrow> bool \<Rightarrow> kbdcontext \<Rightarrow> kbdcontext \<times> int" where
  "kbd_op_updateleds put oom err scroll caps num c =
     (let led_state = (if scroll then LED_SCROLL else 0) OR (if caps then LED_CAPS else 0) OR (if num then LED_NUM else 0) in
      setledstate_async put oom err led_state c)"

subsection \<open>Decoding\<close>


definition ready :: "kbdcontext \<Rightarrow> bool" where
  "ready c \<longleftrightarrow> in_state c = INPUTSTATE_DEFAULT \<and> length (keybytes c) = 8"




lemma record_first:
  assumes "ready c"
  shows "record_byte b c = Inr (c\<lparr>keybytes := (keybytes c)[0 := b], next_key_byte_index := 1\<rparr>)"
  using assms by (simp add: record_byte_def ready_def)



text \<open>The first byte of a multi-byte sequence, and the bytes in between.\<close>

definition prefixed :: "kbdcontext \<Rightarrow> INPUTSTATE \<Rightarrow> nat \<Rightarrow> kbdcontext \<Rightarrow> bool" where
  "prefixed c st n c' \<longleftrightarrow> in_state c' = st \<and> st \<noteq> INPUTSTATE_DEFAULT \<and> length (keybytes c') = 8 \<and> next_key_byte_index c' = n \<and>
     kbd_state c' = kbd_state c \<and> cmd_queue c' = cmd_queue c \<and> ctx_flags c' = ctx_flags c \<and> sent c' = sent c \<and> finished c' = finished c"

lemma prefix_start:
  assumes "ready c"
  shows "\<exists>c'. ps2_op_bytereceived put 0xe0 c = Inr c' \<and> prefixed c INPUTSTATE_WAITING_E0EXT 1 c'"
    and "\<exists>c'. ps2_op_bytereceived put 0xf0 c = Inr c' \<and> prefixed c INPUTSTATE_WAITING_NORMALRELEASE 1 c'"
    and "\<exists>c'. ps2_op_bytereceived put 0xe1 c = Inr c' \<and> prefixed c INPUTSTATE_WAITING_E1EXT1 1 c'"
  using assms by (simp_all add: ps2_op_bytereceived_def record_first scancode_first_byte_received_def prefixed_def ready_def)







definition idle_kbd :: kbdcontext where
  "idle_kbd = \<lparr>in_state = INPUTSTATE_DEFAULT, cmd_queue = [], ctx_flags = 0, keybytes = replicate 8 0, next_key_byte_index = 0,
     kbd_state = kbd_boot, sent = [], finished = []\<rparr>"

lemma idle_kbd_ready: "ready idle_kbd" "cmd_queue idle_kbd = []" "ctx_flags idle_kbd = 0" "sent idle_kbd = []" "finished idle_kbd = []"
  by (simp_all add: idle_kbd_def ready_def)

subsection \<open>Print Screen and Pause\<close>







subsection \<open>What a keyboard sends for a sequence of key strokes\<close>















subsection \<open>Answers in the middle of a scan code\<close>

lemma ack_ignored:
  assumes "in_state c \<noteq> INPUTSTATE_DEFAULT" and "cmd_queue c = []" and "length (keybytes c) = 8"
  shows "next_key_byte_index c < 8 \<Longrightarrow> ps2_op_bytereceived put 0xfa c =
      Inr (c\<lparr>keybytes := (keybytes c)[next_key_byte_index c := 0xfa], next_key_byte_index := next_key_byte_index c + 1\<rparr>)"
    and "next_key_byte_index c = 8 \<Longrightarrow> ps2_op_bytereceived put 0xfa c = Inl Out_of_bounds"
  using assms by (simp_all add: ps2_op_bytereceived_def record_byte_def ack_received_def)

lemma acks_overflow:
  assumes "in_state c \<noteq> INPUTSTATE_DEFAULT" and "cmd_queue c = []" and "length (keybytes c) = 8" and "next_key_byte_index c + n = 8"
  shows "receive_bytes put (replicate (Suc n) 0xfa) c = Inl Out_of_bounds"
  using assms
proof (induction n arbitrary: c)
  case 0
  then show ?case using ack_ignored(2) [OF 0(1-3)] by simp
next
  case (Suc n)
  have "ps2_op_bytereceived put 0xfa c =
      Inr (c\<lparr>keybytes := (keybytes c)[next_key_byte_index c := 0xfa], next_key_byte_index := next_key_byte_index c + 1\<rparr>)"
    using ack_ignored(1) [OF Suc.prems(1-3)] Suc.prems(4) by simp
  then show ?case using Suc.IH [of "c\<lparr>keybytes := (keybytes c)[next_key_byte_index c := 0xfa], next_key_byte_index := next_key_byte_index c + 1\<rparr>"] Suc.prems
    by (simp only: receive_bytes.simps replicate_Suc bind_res_Inr) simp
qed

text \<open>
  The recorded bytes of a scan code have no bound check: after a prefix byte, answer bytes
  (\<open>FA\<close>) that arrive with no command outstanding are recorded without advancing the scan code, and the
  eighth of them is written past the end of the eight byte array \<open>keybytes\<close>.
\<close>

lemma keybytes_overflow:
  assumes "ready c" and "cmd_queue c = []"
  shows "receive_bytes put (0xe0 # replicate 8 0xfa) c = Inl Out_of_bounds"
proof -
  obtain e where e: "ps2_op_bytereceived put 0xe0 c = Inr e" "prefixed c INPUTSTATE_WAITING_E0EXT 1 e"
    using prefix_start(1) [OF assms(1)] by blast
  then have "receive_bytes put (replicate (Suc 7) 0xfa) e = Inl Out_of_bounds"
    using acks_overflow [of e 7 put] assms(2) by (simp add: prefixed_def del: replicate_Suc)
  then show ?thesis using e(1) by (simp del: replicate_Suc)
qed

subsection \<open>The command queue\<close>

text \<open>
  The abstract queue: the requests not yet answered, oldest first, and the answered ones. An
  acknowledgement answers the oldest request.
\<close>

datatype cmd_event = Request u8 bool | Ack

fun spec_event :: "cmd_event \<Rightarrow> (u8 \<times> bool) list \<times> (u8 \<times> bool) list \<Rightarrow> (u8 \<times> bool) list \<times> (u8 \<times> bool) list" where
  "spec_event (Request b nr) (pending, answered) = (pending @ [(b, nr)], answered)"
| "spec_event Ack ([], answered) = ([], answered)"
| "spec_event Ack (r # pending, answered) = (pending, answered @ [r])"

fun run_event :: "(nat \<Rightarrow> bool) \<Rightarrow> cmd_event \<Rightarrow> kbdcontext \<Rightarrow> kbdcontext res" where
  "run_event put (Request b nr) c = Inr (fst (request_cmd_async put False 0 b nr c))"
| "run_event put Ack c = ps2_op_bytereceived put PS2_RESPONSE_ACK c"

fun run_events :: "(nat \<Rightarrow> bool) \<Rightarrow> cmd_event list \<Rightarrow> kbdcontext \<Rightarrow> kbdcontext res" where
  "run_events put [] c = Inr c"
| "run_events put (e # es) c = bind_res (run_event put e c) (run_events put es)"

definition cmd_of :: "CMDSTATE \<Rightarrow> u8 \<times> bool \<Rightarrow> cmd_context" where
  "cmd_of st r = \<lparr>cstate = st, noretry = snd r, async = True, responsedata = 0, cmdbyte = fst r,
     resendcount = MAX_RESEND_COUNT, needdata = False\<rparr>"

text \<open>The oldest command is at the back of the list, the only one waiting for an answer.\<close>

fun queue_of :: "(u8 \<times> bool) list \<Rightarrow> cmd_context list" where
  "queue_of [] = []"
| "queue_of (r # rs) = rev (map (cmd_of CMDSTATE_QUEUED) rs) @ [cmd_of CMDSTATE_WAITINGRESPONSE r]"

definition cmd_abs :: "kbdcontext \<Rightarrow> kbdcontext \<Rightarrow> (u8 \<times> bool) list \<times> (u8 \<times> bool) list \<Rightarrow> bool" where
  "cmd_abs c0 c a \<longleftrightarrow> ready c \<and> kbd_state c = kbd_state c0 \<and> cmd_queue c = queue_of (fst a) \<and>
     finished c = finished c0 @ map (cmd_of CMDSTATE_SUCCESS) (snd a) \<and>
     sent c = sent c0 @ map fst (snd a @ take 1 (fst a))"

lemma cmd_of_simps [simp]:
  "cstate (cmd_of st r) = st" "cmdbyte (cmd_of st r) = fst r" "needdata (cmd_of st r) = False"
  "(cmd_of st r)\<lparr>cstate := st'\<rparr> = cmd_of st' r"
  by (simp_all add: cmd_of_def)

lemma queue_of_Nil [simp]: "queue_of rs = [] \<longleftrightarrow> rs = []"
  by (cases rs) simp_all

lemma request_event:
  assumes "cmd_abs c0 c (pending, answered)"
  shows "\<exists>c'. run_event (\<lambda>_. True) (Request b nr) c = Inr c' \<and> cmd_abs c0 c' (pending @ [(b, nr)], answered)"
proof (cases pending)
  case Nil
  then show ?thesis using assms by (auto simp: cmd_abs_def request_cmd_async_def send_byte_def cmd_of_def ready_def)
next
  case (Cons r rs)
  then show ?thesis using assms by (auto simp: cmd_abs_def request_cmd_async_def send_byte_def cmd_of_def ready_def)
qed

lemma ack_event:
  assumes "cmd_abs c0 c a"
  shows "\<exists>c'. run_event (\<lambda>_. True) Ack c = Inr c' \<and> cmd_abs c0 c' (spec_event Ack a)"
proof -
  obtain pending answered where a: "a = (pending, answered)" by (cases a)
  have rc: "ready c" using assms by (simp add: cmd_abs_def)
  show ?thesis
  proof (cases pending)
    case Nil
    then show ?thesis using assms a rc
      by (auto simp: cmd_abs_def ps2_op_bytereceived_def record_first ack_received_def ready_def)
  next
    case (Cons r rs)
    then show ?thesis using assms a rc
      by (cases rs) (auto simp: cmd_abs_def ps2_op_bytereceived_def record_first ack_received_def cmd_finished_def send_byte_def
          set_back_def ready_def Let_def butlast_append)
  qed
qed

text \<open>
  Claim C37. The command queue refines a first-in first-out queue of requests: in any interleaving of
  asynchronous requests and acknowledgements (with transmissions and allocations that succeed), exactly
  the oldest unanswered command is outstanding, the bytes sent are the commands in the order of their
  requests, each acknowledgement completes the oldest with success, and one that answers nothing changes
  nothing. In particular every request is answered after as many acknowledgements.
\<close>

theorem commands_fifo:
  assumes "cmd_abs c0 c a"
  shows "\<exists>c'. run_events (\<lambda>_. True) es c = Inr c' \<and> cmd_abs c0 c' (fold spec_event es a)"
  using assms
proof (induction es arbitrary: c a)
  case (Cons e es)
  have "\<exists>c'. run_event (\<lambda>_. True) e c = Inr c' \<and> cmd_abs c0 c' (spec_event e a)"
  proof (cases e)
    case (Request b nr)
    then show ?thesis using request_event [of c0 c "fst a" "snd a" b nr] Cons.prems by (cases a) simp
  next
    case Ack
    then show ?thesis using ack_event [OF Cons.prems] by simp
  qed
  then obtain c1 where "run_event (\<lambda>_. True) e c = Inr c1" "cmd_abs c0 c1 (spec_event e a)" by blast
  then show ?case using Cons.IH [of c1 "spec_event e a"] by simp
qed auto

theorem commands_fifo_witness:
  "\<exists>c'. run_events (\<lambda>_. True) [Request CMD_SETLEDS False, Request 4 True, Ack, Ack] idle_kbd = Inr c' \<and>
     sent c' = [CMD_SETLEDS, 4] \<and> cmd_queue c' = []"
  using commands_fifo [of idle_kbd idle_kbd "([], [])" "[Request CMD_SETLEDS False, Request 4 True, Ack, Ack]"]
  by (auto simp: cmd_abs_def idle_kbd_ready simp del: run_events.simps)

end
