(* ===== verification/Disk.thy ===== *)
theory Disk
  imports Iodev MiscMath
begin

text \<open>
  Logical disks (kernel/io/disk.c): a partition is a range of blocks of a physical disk, found in the
  master boot record. The driver's operations are arguments: \<open>op_read\<close> and \<open>op_write\<close> of a disk
  in state \<open>'d\<close> with blocks of type \<open>'b\<close>. Block addresses and counts are 32 bits wide.
\<close>

record ('d, 'b) pdisk_ops =
  op_write :: "'d \<Rightarrow> 'b list \<Rightarrow> nat \<Rightarrow> nat \<Rightarrow> 'd \<times> int"
  op_read :: "'d \<Rightarrow> nat \<Rightarrow> nat \<Rightarrow> 'd \<times> int \<times> 'b list"

record ldisk =
  physdisk :: nat
  startblockaddr :: nat
  block_count :: nat

subsection \<open>Reading and writing\<close>

text \<open>The first absolute block and the number of blocks of a request.\<close>

definition to_abs_block_range :: "ldisk \<Rightarrow> nat \<Rightarrow> nat \<Rightarrow> nat \<times> nat" where
  "to_abs_block_range self block_addr count =
     (let disk_first_blockaddr = startblockaddr self;
          disk_last_blockaddr = sz_add (startblockaddr self) (sz_sub (block_count self) 1) in
      if sz_sub disk_last_blockaddr disk_first_blockaddr < block_addr then (0, 0)
      else
        (let first_abs_addr = sz_add disk_first_blockaddr block_addr;
             left = sz_add (sz_sub disk_last_blockaddr first_abs_addr) 1 in
         (first_abs_addr, if left < count then left else count)))"

definition ldisk_read :: "('d, 'b) pdisk_ops \<Rightarrow> 'd \<Rightarrow> ldisk \<Rightarrow> nat \<Rightarrow> nat \<Rightarrow> 'd \<times> int \<times> 'b list" where
  "ldisk_read ops d self block_addr count =
     (let (first_abs_addr, final_blockcount) = to_abs_block_range self block_addr count in
      if final_blockcount \<noteq> 0 then
        (let (d, ret, buf) = op_read ops d first_abs_addr final_blockcount in
         (d, if ret < 0 then ret else to_ssize final_blockcount, buf))
      else (d, to_ssize final_blockcount, []))"

definition ldisk_write :: "('d, 'b) pdisk_ops \<Rightarrow> 'd \<Rightarrow> ldisk \<Rightarrow> 'b list \<Rightarrow> nat \<Rightarrow> nat \<Rightarrow> 'd \<times> int" where
  "ldisk_write ops d self buf block_addr count =
     (let (firstabsaddr, final_block_count) = to_abs_block_range self block_addr count in
      if final_block_count \<noteq> 0 then
        (let (d, ret) = op_write ops d buf firstabsaddr final_block_count in
         (d, if ret < 0 then ret else to_ssize final_block_count))
      else (d, to_ssize final_block_count))"

definition ldisk_read_exact :: "('d, 'b) pdisk_ops \<Rightarrow> 'd \<Rightarrow> ldisk \<Rightarrow> nat \<Rightarrow> nat \<Rightarrow> 'd \<times> int \<times> 'b list" where
  "ldisk_read_exact ops d self block_addr count =
     (let (d, ret, buf) = ldisk_read ops d self block_addr count in
      (d, if ret < 0 then ret else if to_size ret \<noteq> count then - EINVAL else 0, buf))"

definition ldisk_write_exact :: "('d, 'b) pdisk_ops \<Rightarrow> 'd \<Rightarrow> ldisk \<Rightarrow> 'b list \<Rightarrow> nat \<Rightarrow> nat \<Rightarrow> 'd \<times> int" where
  "ldisk_write_exact ops d self buf block_addr count =
     (let (d, ret) = ldisk_write ops d self buf block_addr count in
      (d, if to_size ret \<noteq> count then - EINVAL else 0))"

subsection \<open>Partitions\<close>

text \<open>
  The registry of devices, the physical and the logical disks (a disk's address is its position
  plus one), and a count of the calls of \<open>heap_alloc\<close>: call \<open>k\<close> fails when \<open>oom k\<close>.
\<close>

record pdisk =
  pd_ops :: nat
  block_size :: nat
  pd_data :: nat

record dstate =
  registry :: "iodevtype list"
  pdisks :: "pdisk list"
  ldisks :: "ldisk list"
  allocs :: nat

definition register_ldisk :: "(nat \<Rightarrow> bool) \<Rightarrow> dstate \<Rightarrow> nat \<Rightarrow> nat \<Rightarrow> nat \<Rightarrow> (dstate \<times> int) res" where
  "register_ldisk oom s pdisk start count =
     (if oom (allocs s) then Inr (s\<lparr>allocs := allocs s + 1\<rparr>, - ENOMEM)
      else
        (let disk = \<lparr>physdisk = pdisk, startblockaddr = start, block_count = count\<rparr> in
         bind_res (iodev_register (oom (allocs s + 1)) (registry s) ''ldisk'' (length (ldisks s) + 1)) (\<lambda>(reg, dev, result).
         let s = s\<lparr>registry := reg, allocs := allocs s + 2\<rparr> in
         if result < 0 then Inr (s, result)
         else Inr (s\<lparr>ldisks := ldisks s @ [disk]\<rparr>, result))))"

record mbr_entry =
  startlba :: u32
  sectorcount :: u32
  partitiontype :: u8
  mbr_flags :: u8

definition mbr_entry_at :: "u8 list \<Rightarrow> mbr_entry res" where
  "mbr_entry_at ptr =
     bind_res (load ptr 0) (\<lambda>flags.
     bind_res (load ptr 4) (\<lambda>ty.
     bind_res (u32le_at (drop 8 ptr)) (\<lambda>lba.
     bind_res (u32le_at (drop 12 ptr)) (\<lambda>cnt.
     Inr \<lparr>startlba = lba, sectorcount = cnt, partitiontype = ty, mbr_flags = flags\<rparr>))))"

fun register_loop_mbr :: "(nat \<Rightarrow> bool) \<Rightarrow> nat \<Rightarrow> mbr_entry list \<Rightarrow> dstate \<Rightarrow> dstate res" where
  "register_loop_mbr oom disk [] s = Inr s"
| "register_loop_mbr oom disk (e # es) s =
     (if partitiontype e = 0 then register_loop_mbr oom disk es s
      else bind_res (register_ldisk oom s disk (unat (startlba e)) (unat (sectorcount e)))
             (\<lambda>(s, ret). register_loop_mbr oom disk es s))"

definition parse_mbr :: "(nat \<Rightarrow> bool) \<Rightarrow> dstate \<Rightarrow> nat \<Rightarrow> u8 list \<Rightarrow> nat \<Rightarrow> (dstate \<times> bool) res" where
  "parse_mbr oom s disk first_block bsize =
     bind_res (assert_res (512 = bsize)) (\<lambda>_.
     bind_res (load first_block 510) (\<lambda>b510.
     bind_res (load first_block 511) (\<lambda>b511.
     if b510 \<noteq> 0x55 \<or> b511 \<noteq> 0xaa then Inr (s, False)
     else
       bind_res (mbr_entry_at (drop 0x1be first_block)) (\<lambda>e0.
       bind_res (mbr_entry_at (drop 0x1ce first_block)) (\<lambda>e1.
       bind_res (mbr_entry_at (drop 0x1de first_block)) (\<lambda>e2.
       bind_res (mbr_entry_at (drop 0x1ee first_block)) (\<lambda>e3.
       bind_res (register_loop_mbr oom disk [e0, e1, e2, e3] s) (\<lambda>s. Inr (s, True)))))))))"

definition pdisk_register :: "(nat \<Rightarrow> bool) \<Rightarrow> dstate \<Rightarrow> nat \<Rightarrow> nat \<Rightarrow> nat \<Rightarrow> (dstate \<times> int) res" where
  "pdisk_register oom s bsize ops data =
     (let disk_out = \<lparr>pd_ops = ops, block_size = bsize, pd_data = data\<rparr> in
      bind_res (iodev_register (oom (allocs s)) (registry s) ''pdisk'' (length (pdisks s) + 1)) (\<lambda>(reg, dev, result).
      Inr (s\<lparr>registry := reg, allocs := allocs s + 1, pdisks := pdisks s @ [disk_out]\<rparr>, result)))"

text \<open>
  \<open>first_read disk\<close> is what the driver returns for the first block of the physical disk \<open>disk\<close>.
\<close>

definition discover_disk :: "(nat \<Rightarrow> bool) \<Rightarrow> (nat \<Rightarrow> int \<times> u8 list) \<Rightarrow> nat \<Rightarrow> dstate \<Rightarrow> dstate res" where
  "discover_disk oom first_read disk s =
     bind_res (load (pdisks s) (disk - 1)) (\<lambda>pd.
     let failed = oom (allocs s);
         s = s\<lparr>allocs := allocs s + 1\<rparr>;
         (ret, first_block) = first_read disk in
     if failed \<or> ret < 0 then Inr s
     else bind_res (parse_mbr oom s disk first_block (block_size pd)) (\<lambda>(s, found). Inr s))"

fun discover_loop :: "(nat \<Rightarrow> bool) \<Rightarrow> (nat \<Rightarrow> int \<times> u8 list) \<Rightarrow> iodev list \<Rightarrow> dstate \<Rightarrow> dstate res" where
  "discover_loop oom first_read [] s = Inr s"
| "discover_loop oom first_read (d # ds) s =
     bind_res (discover_disk oom first_read (dev_data d) s) (discover_loop oom first_read ds)"

definition ldisk_discover :: "(nat \<Rightarrow> bool) \<Rightarrow> (nat \<Rightarrow> int \<times> u8 list) \<Rightarrow> dstate \<Rightarrow> dstate res" where
  "ldisk_discover oom first_read s =
     (case iodev_get_list (registry s) ''pdisk'' of
        None \<Rightarrow> Inr s
      | Some devlist \<Rightarrow> discover_loop oom first_read devlist s)"

subsection \<open>Ranges\<close>

definition ldisk_ok :: "ldisk \<Rightarrow> bool" where
  "ldisk_ok ld \<longleftrightarrow> 0 < block_count ld \<and> block_count ld < 2 ^ 32 \<and> startblockaddr ld + block_count ld \<le> 2 ^ 32"

lemma abs_range:
  assumes "ldisk_ok ld"
  shows "to_abs_block_range ld addr n =
    (if addr < block_count ld then (startblockaddr ld + addr, min n (block_count ld - addr)) else (0, 0))"
proof -
  let ?s = "startblockaddr ld" and ?c = "block_count ld"
  have b: "?c < 2 ^ 32" "?s + (?c - 1) < 2 ^ 32" "0 < ?c" using assms by (auto simp: ldisk_ok_def)
  have last: "sz_add ?s (sz_sub ?c 1) = ?s + (?c - 1)" using b by (simp add: wrap_simps)
  have width: "sz_sub (?s + (?c - 1)) ?s = ?c - 1" using b by (simp add: sz_sub_no_wrap)
  show ?thesis
  proof (cases "addr < ?c")
    case True
    have "sz_add ?s addr = ?s + addr" using True b by (simp add: sz_add_no_wrap)
    moreover have "sz_sub (?s + (?c - 1)) (?s + addr) = ?c - 1 - addr" using True b by (simp add: sz_sub_no_wrap)
    moreover have "sz_add (?c - 1 - addr) 1 = ?c - addr" using True b by (simp add: sz_add_no_wrap)
    ultimately show ?thesis using True last width by (simp add: to_abs_block_range_def Let_def)
  next
    case False
    then have "sz_sub (?s + (?c - 1)) ?s < addr" using width b by simp
    then show ?thesis using False last by (simp add: to_abs_block_range_def Let_def)
  qed
qed

text \<open>
  The contract of a driver: a disk holds a list of blocks; reading and writing within it succeed, a
  read returns the blocks, and a write replaces exactly the blocks it names.
\<close>

definition overwrite :: "'b list \<Rightarrow> nat \<Rightarrow> 'b list \<Rightarrow> 'b list" where
  "overwrite bs i new = take i bs @ new @ drop (i + length new) bs"

definition block_device :: "('d, 'b) pdisk_ops \<Rightarrow> ('d \<Rightarrow> 'b list) \<Rightarrow> bool" where
  "block_device ops blocks \<longleftrightarrow>
     (\<forall>d first n. first + n \<le> length (blocks d) \<longrightarrow>
        (\<exists>d'. op_read ops d first n = (d', 0, take n (drop first (blocks d))) \<and> blocks d' = blocks d)) \<and>
     (\<forall>d buf first n. first + n \<le> length (blocks d) \<longrightarrow> n \<le> length buf \<longrightarrow>
        (\<exists>d'. op_write ops d buf first n = (d', 0) \<and> blocks d' = overwrite (blocks d) first (take n buf)))"

text \<open>The blocks of a partition.\<close>

definition part_blocks :: "('d \<Rightarrow> 'b list) \<Rightarrow> ldisk \<Rightarrow> 'd \<Rightarrow> 'b list" where
  "part_blocks blocks ld d = take (block_count ld) (drop (startblockaddr ld) (blocks d))"

definition fits :: "('d \<Rightarrow> 'b list) \<Rightarrow> ldisk \<Rightarrow> 'd \<Rightarrow> bool" where
  "fits blocks ld d \<longleftrightarrow> ldisk_ok ld \<and> startblockaddr ld + block_count ld \<le> length (blocks d)"

lemma read_within:
  assumes dev: "block_device ops blocks" and ok: "fits blocks ld d" and n: "n < 2 ^ 31"
  shows "\<exists>d'. ldisk_read ops d ld addr n = (d', int (min n (block_count ld - addr)), take n (drop addr (part_blocks blocks ld d))) \<and>
    blocks d' = blocks d"
proof (cases "addr < block_count ld \<and> n \<noteq> 0")
  case True
  let ?m = "min n (block_count ld - addr)"
  have "startblockaddr ld + addr + ?m \<le> length (blocks d)" using True ok by (auto simp: fits_def)
  then obtain d' where "op_read ops d (startblockaddr ld + addr) ?m = (d', 0, take ?m (drop (startblockaddr ld + addr) (blocks d)))"
      "blocks d' = blocks d"
    using dev unfolding block_device_def by blast
  moreover have "take ?m (drop (startblockaddr ld + addr) (blocks d)) = take n (drop addr (part_blocks blocks ld d))"
    by (simp add: part_blocks_def drop_take add.commute)
  moreover have "?m < 2 ^ 31" "?m \<noteq> 0" using n True by auto
  ultimately show ?thesis using True ok by (simp add: ldisk_read_def abs_range fits_def to_ssize_small)
next
  case False
  then show ?thesis using ok by (auto simp: ldisk_read_def abs_range fits_def to_ssize_def part_blocks_def)
qed

lemma overwrite_part:
  assumes "s + c \<le> length bs" and "i + length new \<le> c"
  shows "take c (drop s (overwrite bs (s + i) new)) = overwrite (take c (drop s bs)) i new"
    and "take s (overwrite bs (s + i) new) = take s bs"
    and "drop (s + c) (overwrite bs (s + i) new) = drop (s + c) bs"
proof -
  define A B C D E where "A = take s bs" and "B = take i (drop s bs)" and "C = take (length new) (drop (s + i) bs)"
    and "D = take (c - (i + length new)) (drop (s + i + length new) bs)" and "E = drop (s + c) bs"
  have "bs = A @ drop s bs" by (simp add: A_def)
  also have "drop s bs = B @ drop (s + i) bs" unfolding B_def by (metis append_take_drop_id drop_drop add.commute)
  also have "drop (s + i) bs = C @ drop (s + i + length new) bs" unfolding C_def by (metis append_take_drop_id drop_drop add.commute)
  also have "drop (s + i + length new) bs = D @ E"
  proof -
    have "E = drop (c - (i + length new)) (drop (s + i + length new) bs)" using assms(2) by (simp add: E_def add.commute add.left_commute)
    then show ?thesis unfolding D_def by (metis append_take_drop_id)
  qed
  finally have bs: "bs = A @ B @ C @ D @ E" .
  have len: "length A = s" "length B = i" "length C = length new" "i + length new + length D = c"
    using assms by (auto simp: A_def B_def C_def D_def)
  have "overwrite bs (s + i) new = A @ B @ new @ D @ E" unfolding bs overwrite_def using len by simp
  then show "take c (drop s (overwrite bs (s + i) new)) = overwrite (take c (drop s bs)) i new"
    and "take s (overwrite bs (s + i) new) = take s bs"
    and "drop (s + c) (overwrite bs (s + i) new) = drop (s + c) bs"
    unfolding len(4) [symmetric] by (simp_all add: bs overwrite_def len(1-3))
qed

lemma write_within:
  assumes dev: "block_device ops blocks" and ok: "fits blocks ld d" and n: "n < 2 ^ 31" and buf: "n \<le> length buf"
    and addr: "addr < block_count ld"
  shows "\<exists>d'. ldisk_write ops d ld buf addr n = (d', int (min n (block_count ld - addr))) \<and>
    part_blocks blocks ld d' = overwrite (part_blocks blocks ld d) addr (take (min n (block_count ld - addr)) buf) \<and>
    take (startblockaddr ld) (blocks d') = take (startblockaddr ld) (blocks d) \<and>
    drop (startblockaddr ld + block_count ld) (blocks d') = drop (startblockaddr ld + block_count ld) (blocks d)"
proof (cases "n = 0")
  case True
  then show ?thesis using ok addr by (auto simp: ldisk_write_def abs_range fits_def to_ssize_def overwrite_def)
next
  case False
  let ?m = "min n (block_count ld - addr)"
  have m: "?m \<noteq> 0" "?m < 2 ^ 31" "?m \<le> length buf" using False addr n buf by auto
  have fit: "startblockaddr ld + addr + ?m \<le> length (blocks d)" using addr ok by (auto simp: fits_def)
  obtain d' where d': "op_write ops d buf (startblockaddr ld + addr) ?m = (d', 0)"
      "blocks d' = overwrite (blocks d) (startblockaddr ld + addr) (take ?m buf)"
    using dev fit m(3) unfolding block_device_def by blast
  have "startblockaddr ld + block_count ld \<le> length (blocks d)" "addr + length (take ?m buf) \<le> block_count ld"
    using ok addr by (auto simp: fits_def)
  note o = overwrite_part [OF this]
  show ?thesis
    using d' m o ok addr by (simp add: ldisk_write_def abs_range fits_def to_ssize_small part_blocks_def)
qed

subsection \<open>The master boot record\<close>

text \<open>The sixteen bytes of an entry; the bytes of the CHS addresses are arbitrary.\<close>

definition mbr_bytes :: "u8 list \<Rightarrow> u8 list \<Rightarrow> mbr_entry \<Rightarrow> u8 list" where
  "mbr_bytes chs1 chs2 e = [mbr_flags e] @ chs1 @ [partitiontype e] @ chs2 @ bytes_le32 (startlba e) @ bytes_le32 (sectorcount e)"

lemma mbr_entry_roundtrip:
  assumes "length chs1 = 3" and "length chs2 = 3"
  shows "mbr_entry_at (mbr_bytes chs1 chs2 e @ rest) = Inr e"
proof -
  obtain a b c where "chs1 = [a, b, c]" using assms(1) by (auto simp: eval_nat_numeral length_Suc_conv)
  moreover obtain x y z where "chs2 = [x, y, z]" using assms(2) by (auto simp: eval_nat_numeral length_Suc_conv)
  moreover have "length (bytes_le32 w) = 4" for w by (simp add: bytes_le32_def)
  ultimately show ?thesis
    using u32le_bytes by (simp add: mbr_entry_at_def mbr_bytes_def load_def)
qed

definition part_of :: "nat \<Rightarrow> mbr_entry \<Rightarrow> ldisk" where
  "part_of disk e = \<lparr>physdisk = disk, startblockaddr = unat (startlba e), block_count = unat (sectorcount e)\<rparr>"

lemma register_ldisk_ok:
  assumes "registry_ok (registry s)" and "length (devices_of (registry s) ''ldisk'') < size_max" and "\<forall>k. \<not> oom k"
  shows "\<exists>s'. register_ldisk oom s disk st n = Inr (s', 0) \<and> registry_ok (registry s') \<and>
    length (devices_of (registry s') ''ldisk'') = length (devices_of (registry s) ''ldisk'') + 1 \<and>
    ldisks s' = ldisks s @ [\<lparr>physdisk = disk, startblockaddr = st, block_count = n\<rparr>]"
proof -
  obtain dev reg where "iodev_register False (registry s) ''ldisk'' (length (ldisks s) + 1) = Inr (reg, dev, 0)" "registry_ok reg"
      "devices_of reg ''ldisk'' = devices_of (registry s) ''ldisk'' @ [dev]"
    using register_device [OF assms(1), of "''ldisk''" False "length (ldisks s) + 1"] assms(2) by auto
  then show ?thesis using assms(3) by (simp add: register_ldisk_def)
qed

lemma register_loop_ok:
  assumes "registry_ok (registry s)" and "length (devices_of (registry s) ''ldisk'') + length es < size_max" and "\<forall>k. \<not> oom k"
  shows "\<exists>s'. register_loop_mbr oom disk es s = Inr s' \<and> registry_ok (registry s') \<and>
    ldisks s' = ldisks s @ map (part_of disk) (filter (\<lambda>e. partitiontype e \<noteq> 0) es)"
  using assms(1,2)
proof (induction es arbitrary: s)
  case (Cons e es)
  show ?case
  proof (cases "partitiontype e = 0")
    case True
    then show ?thesis using Cons.IH [OF Cons.prems(1)] Cons.prems(2) by simp
  next
    case False
    have room: "length (devices_of (registry s) ''ldisk'') < size_max" using Cons.prems(2) by simp
    obtain s1 where s1: "register_ldisk oom s disk (unat (startlba e)) (unat (sectorcount e)) = Inr (s1, 0)"
        "registry_ok (registry s1)" "length (devices_of (registry s1) ''ldisk'') = length (devices_of (registry s) ''ldisk'') + 1"
        "ldisks s1 = ldisks s @ [part_of disk e]"
      using register_ldisk_ok [OF Cons.prems(1) room assms(3)] unfolding part_of_def by blast
    with Cons.IH [OF s1(2)] Cons.prems(2) False show ?thesis by auto
  qed
qed simp

lemma length_mbr_bytes: "length chs1 = 3 \<Longrightarrow> length chs2 = 3 \<Longrightarrow> length (mbr_bytes chs1 chs2 e) = 16"
  by (simp add: mbr_bytes_def bytes_le32_def)

text \<open>A boot sector with its four entries.\<close>

definition boot_sector :: "u8 list \<Rightarrow> u8 list \<Rightarrow> u8 list \<Rightarrow> mbr_entry \<Rightarrow> mbr_entry \<Rightarrow> mbr_entry \<Rightarrow> mbr_entry \<Rightarrow> u8 list" where
  "boot_sector code chs1 chs2 e0 e1 e2 e3 =
     code @ mbr_bytes chs1 chs2 e0 @ mbr_bytes chs1 chs2 e1 @ mbr_bytes chs1 chs2 e2 @ mbr_bytes chs1 chs2 e3 @ [0x55, 0xaa]"

lemma boot_sector_slices:
  assumes "length code = 446" and "length chs1 = 3" and "length chs2 = 3"
  shows "mbr_entry_at (drop 0x1be (boot_sector code chs1 chs2 e0 e1 e2 e3)) = Inr e0"
    and "mbr_entry_at (drop 0x1ce (boot_sector code chs1 chs2 e0 e1 e2 e3)) = Inr e1"
    and "mbr_entry_at (drop 0x1de (boot_sector code chs1 chs2 e0 e1 e2 e3)) = Inr e2"
    and "mbr_entry_at (drop 0x1ee (boot_sector code chs1 chs2 e0 e1 e2 e3)) = Inr e3"
    and "load (boot_sector code chs1 chs2 e0 e1 e2 e3) 510 = Inr 0x55"
    and "load (boot_sector code chs1 chs2 e0 e1 e2 e3) 511 = Inr 0xaa"
  using assms length_mbr_bytes [OF assms(2,3)] mbr_entry_roundtrip [OF assms(2,3)]
  by (simp_all add: boot_sector_def load_def nth_append)

subsection \<open>Properties\<close>

text \<open>
  Claim C14. On a driver that keeps its contract, a partition that lies within its disk behaves as a disk
  of its own: a write at a block of the partition changes exactly the blocks of the partition it names
  (cut at the end of the partition, the number of blocks being returned) and no block outside, a read
  returns the blocks of the partition from the given one on, cut the same way, and reading what has
  just been written gives it back.
\<close>

theorem ldisk_confined_to_partition:
  assumes "block_device ops blocks" and "fits blocks ld d" and "n < 2 ^ 31" and "n \<le> length buf" and "addr < block_count ld"
    and "m = min n (block_count ld - addr)"
  shows "\<exists>d' d''. ldisk_write ops d ld buf addr n = (d', int m) \<and>
    part_blocks blocks ld d' = overwrite (part_blocks blocks ld d) addr (take m buf) \<and>
    take (startblockaddr ld) (blocks d') = take (startblockaddr ld) (blocks d) \<and>
    drop (startblockaddr ld + block_count ld) (blocks d') = drop (startblockaddr ld + block_count ld) (blocks d) \<and>
    ldisk_read ops d' ld addr n = (d'', int m, take m buf) \<and> blocks d'' = blocks d'"
proof -
  obtain d' where w: "ldisk_write ops d ld buf addr n = (d', int m)"
      "part_blocks blocks ld d' = overwrite (part_blocks blocks ld d) addr (take m buf)"
      "take (startblockaddr ld) (blocks d') = take (startblockaddr ld) (blocks d)"
      "drop (startblockaddr ld + block_count ld) (blocks d') = drop (startblockaddr ld + block_count ld) (blocks d)"
    using write_within [OF assms(1-5)] unfolding assms(6) by blast
  have len: "length (part_blocks blocks ld d) = block_count ld" using assms(2) by (auto simp: part_blocks_def fits_def)
  have "length (part_blocks blocks ld d') = block_count ld"
    using w(2) len assms(4-6) by (auto simp: overwrite_def)
  then have "block_count ld \<le> length (blocks d') - startblockaddr ld" by (simp add: part_blocks_def)
  then have fit: "fits blocks ld d'" using assms(2) by (auto simp: fits_def ldisk_ok_def)
  have "take n (drop addr (part_blocks blocks ld d')) = take m buf"
    using w(2) len assms(4-6) by (auto simp: overwrite_def min_def)
  then show ?thesis using read_within [OF assms(1) fit assms(3), of addr] w assms(6) by auto
qed

definition mem_disk :: "(nat list, nat) pdisk_ops" where
  "mem_disk = \<lparr>op_write = (\<lambda>d buf first n. (overwrite d first (take n buf), 0)),
     op_read = (\<lambda>d first n. (d, 0, take n (drop first d)))\<rparr>"

theorem ldisk_confined_to_partition_witness:
  "\<exists>d' d''. ldisk_write mem_disk [1, 2, 3, 4, 5] \<lparr>physdisk = 1, startblockaddr = 1, block_count = 3\<rparr> [8, 9] 2 2 = (d', 1) \<and>
     take 1 d' = [1] \<and> drop 4 d' = [5] \<and>
     ldisk_read mem_disk d' \<lparr>physdisk = 1, startblockaddr = 1, block_count = 3\<rparr> 2 2 = (d'', 1, [8])"
proof -
  have "block_device mem_disk (\<lambda>d. d)" by (simp add: block_device_def mem_disk_def)
  from ldisk_confined_to_partition [OF this, of "\<lparr>physdisk = 1, startblockaddr = 1, block_count = 3\<rparr>" "[1, 2, 3, 4, 5]" 2 "[8, 9]" 2 1]
  show ?thesis by (auto simp: fits_def ldisk_ok_def min_def)
qed

text \<open>
  Reading a boot sector (any code, any CHS bytes, four entries, the signature) registers exactly
  the entries whose type is not 0 as logical disks of that physical disk, in order and with their start
  and size; without the signature nothing is registered.
\<close>

lemma mbr_partitions_registered:
  assumes "length code = 446" and "length chs1 = 3" and "length chs2 = 3" and "registry_ok (registry s)"
    and "length (devices_of (registry s) ''ldisk'') + 4 < size_max" and "\<forall>k. \<not> oom k"
  shows "(\<exists>s'. parse_mbr oom s disk (boot_sector code chs1 chs2 e0 e1 e2 e3) 512 = Inr (s', True) \<and> registry_ok (registry s') \<and>
      ldisks s' = ldisks s @ map (part_of disk) (filter (\<lambda>e. partitiontype e \<noteq> 0) [e0, e1, e2, e3])) \<and>
    (length b = 512 \<longrightarrow> (b ! 510, b ! 511) \<noteq> (0x55, 0xaa) \<longrightarrow> parse_mbr oom s disk b 512 = Inr (s, False))"
proof -
  have "\<exists>s'. register_loop_mbr oom disk [e0, e1, e2, e3] s = Inr s' \<and> registry_ok (registry s') \<and>
      ldisks s' = ldisks s @ map (part_of disk) (filter (\<lambda>e. partitiontype e \<noteq> 0) [e0, e1, e2, e3])"
    by (rule register_loop_ok) (use assms in auto)
  then show ?thesis
    using boot_sector_slices [OF assms(1-3), of e0 e1 e2 e3] by (auto simp: parse_mbr_def load_def simp del: register_loop_mbr.simps)
qed

text \<open>
  A partition with no blocks (an entry with sector count 0 is registered like any other) is
  not empty to its users: any request from its block 1 on is passed to the physical disk unchanged, at
  the absolute address \<open>startblockaddr + addr\<close> outside the partition, since \<open>block_count - 1\<close> wraps.
\<close>

lemma empty_partition_not_confined:
  assumes "block_count ld = 0" and "0 < addr" and "startblockaddr ld + addr < 2 ^ 32" and "n + addr \<le> 2 ^ 32"
  shows "to_abs_block_range ld addr n = (startblockaddr ld + addr, n)"
proof -
  let ?s = "startblockaddr ld"
  have "sz_sub 0 1 = 2 ^ 32 - 1" by (simp add: sz_sub_def)
  then have last: "sz_add ?s (sz_sub (block_count ld) 1) = sz_sub ?s 1"
    using assms(1) by (simp add: sz_add_def sz_sub_def)
  have wide: "sz_sub (sz_sub ?s 1) ?s = 2 ^ 32 - 1"
  proof (cases "?s = 0")
    case False
    then have "sz_sub ?s 1 = ?s - 1" using assms(3) by (simp add: sz_sub_no_wrap)
    then show ?thesis using False assms(3) by (simp add: sz_sub_def)
  qed (simp add: sz_sub_def)
  have first: "sz_add ?s addr = ?s + addr" using assms(3) by (simp add: sz_add_no_wrap)
  have "sz_add (sz_sub (sz_sub ?s 1) (?s + addr)) 1 = 2 ^ 32 - addr"
  proof (cases "?s = 0")
    case True
    then show ?thesis using assms(2,3) by (auto simp: sz_sub_def sz_add_def le_mod_geq Suc_diff_Suc)
  next
    case False
    then have "sz_sub ?s 1 = ?s - 1" using assms(3) by (simp add: sz_sub_no_wrap)
    moreover have "sz_sub (?s - 1) (?s + addr) = 2 ^ 32 - 1 - addr"
      using False assms(2,3) by (auto simp: sz_sub_def)
    ultimately show ?thesis using assms(2,3) by (simp add: sz_add_def Suc_diff_Suc)
  qed
  moreover have "addr \<le> 2 ^ 32 - 1" using assms(3) by simp
  ultimately show ?thesis using last wide first assms(4) by (auto simp: to_abs_block_range_def Let_def)
qed

end
