(* ===== verification/Ata.thy ===== *)
theory Ata
  imports Disk
begin

text \<open>
  The driver of ATA disks (kernel/dev/atadisk.c, include/kernel/dev/atadisk.h). The operations of the bus below it
  (\<open>struct atadisk_ops\<close>) are arguments, as functions on the state \<open>'d\<close> of bus and drive; so is the clock
  \<open>g_ticktime\<close>, which an interrupt handler advances: every read of it is an operation of its own. The loops that wait for
  the drive end by the clock, so they are partial functions into \<open>option\<close>. \<open>dma_data\<close> is what a finished DMA read has put
  into the destination. The source of a write is a list of bytes; reading behind its end is a fault. Messages are left out.
\<close>

subsection \<open>The bus\<close>

datatype ATA_DMASTATUS =
    ATA_DMASTATUS_FAIL_UDMA_CRC
  | ATA_DMASTATUS_FAIL_OTHER_IO
  | ATA_DMASTATUS_FAIL_NOMEM
  | ATA_DMASTATUS_SUCCESS
  | ATA_DMASTATUS_BUSY

record 'd atadisk_ops =
  dma_begin_session :: "'d \<Rightarrow> 'd \<times> bool"
  dma_end_session :: "'d \<Rightarrow> 'd"
  ata_lock :: "'d \<Rightarrow> 'd"
  ata_unlock :: "'d \<Rightarrow> 'd"
  read_status :: "'d \<Rightarrow> 'd \<times> u8"
  select_disk :: "'d \<Rightarrow> 'd"
  set_features_param :: "u16 \<Rightarrow> 'd \<Rightarrow> 'd"
  set_count_param :: "u16 \<Rightarrow> 'd \<Rightarrow> 'd"
  set_lba_param :: "u32 \<Rightarrow> 'd \<Rightarrow> 'd"
  set_device_param :: "u8 \<Rightarrow> 'd \<Rightarrow> 'd"
  get_lba_output :: "'d \<Rightarrow> 'd \<times> u32"
  issue_command :: "u8 \<Rightarrow> 'd \<Rightarrow> 'd"
  get_irq_flag :: "'d \<Rightarrow> 'd \<times> bool"
  clear_irq_flag :: "'d \<Rightarrow> 'd"
  read_data :: "'d \<Rightarrow> 'd \<times> u16 list"
  write_data :: "u16 list \<Rightarrow> 'd \<Rightarrow> 'd"
  soft_reset :: "'d \<Rightarrow> 'd"
  dma_init_transfer :: "u8 list \<Rightarrow> nat \<Rightarrow> bool \<Rightarrow> 'd \<Rightarrow> 'd \<times> int"
  dma_begin_transfer :: "'d \<Rightarrow> 'd \<times> int"
  dma_check_transfer :: "'d \<Rightarrow> 'd \<times> ATA_DMASTATUS"
  dma_end_transfer :: "bool \<Rightarrow> 'd \<Rightarrow> 'd"
  dma_deinit_transfer :: "'d \<Rightarrow> 'd"
  dma_data :: "'d \<Rightarrow> u8 list"
  g_ticktime :: "'d \<Rightarrow> 'd \<times> u64"

definition ATA_STATUSFLAG_ERR :: u8 where "ATA_STATUSFLAG_ERR = push_bit 0 1"
definition ATA_STATUSFLAG_DRQ :: u8 where "ATA_STATUSFLAG_DRQ = push_bit 3 1"
definition ATA_STATUSFLAG_DF :: u8 where "ATA_STATUSFLAG_DF = push_bit 5 1"
definition ATA_STATUSFLAG_BSY :: u8 where "ATA_STATUSFLAG_BSY = push_bit 7 1"

definition ATA_CMD_FLUSH_CACHE :: u8 where "ATA_CMD_FLUSH_CACHE = 0xe7"
definition ATA_CMD_IDENTIFY_DEVICE :: u8 where "ATA_CMD_IDENTIFY_DEVICE = 0xec"
definition ATA_CMD_READ_DMA :: u8 where "ATA_CMD_READ_DMA = 0xc8"
definition ATA_CMD_READ_SECTORS :: u8 where "ATA_CMD_READ_SECTORS = 0x20"
definition ATA_CMD_WRITE_DMA :: u8 where "ATA_CMD_WRITE_DMA = 0xca"
definition ATA_CMD_WRITE_SECTORS :: u8 where "ATA_CMD_WRITE_SECTORS = 0x30"

definition ATA_MAX_SECTORS_PER_TRANSFER :: nat where "ATA_MAX_SECTORS_PER_TRANSFER = 256"
definition ATA_SECTOR_SIZE :: nat where "ATA_SECTOR_SIZE = 512"
definition ATA_TIMEOUT :: u64 where "ATA_TIMEOUT = 5000"
definition MAX_RETRIES :: nat where "MAX_RETRIES = 3"
definition STATUS_POLL_PERIOD :: u64 where "STATUS_POLL_PERIOD = 10"

definition failed_status :: "u8 \<Rightarrow> bool" where
  "failed_status diskstatus \<longleftrightarrow> diskstatus AND (ATA_STATUSFLAG_ERR OR ATA_STATUSFLAG_DF) \<noteq> 0"

subsection \<open>Waiting\<close>

text \<open>The status check inside the loop of wait_irq: \<open>None\<close> when the drive reports an error, otherwise \<open>lastchecktime\<close>.\<close>

definition poll_status :: "'d atadisk_ops \<Rightarrow> 'd \<Rightarrow> u64 \<Rightarrow> 'd \<times> u64 option" where
  "poll_status io d lastchecktime =
     (let (d, now) = g_ticktime io d in
      if STATUS_POLL_PERIOD \<le> lastchecktime - now then
        (let (d, diskstatus) = read_status io d in
         if failed_status diskstatus then (d, None) else let (d, now) = g_ticktime io d in (d, Some now))
      else (d, Some lastchecktime))"

partial_function (option) wait_irq_loop :: "'d atadisk_ops \<Rightarrow> 'd \<Rightarrow> u64 \<Rightarrow> u64 \<Rightarrow> ('d \<times> int) option" where
  "wait_irq_loop io d starttime lastchecktime =
     (let (d, now) = g_ticktime io d in
      if now - starttime < ATA_TIMEOUT then
        (case poll_status io d lastchecktime of
           (d, None) \<Rightarrow> Some (d, - EIO)
         | (d, Some lastchecktime) \<Rightarrow>
             (let (d, flag) = get_irq_flag io d in
              if flag then Some (clear_irq_flag io d, 0) else wait_irq_loop io d starttime lastchecktime))
      else Some (d, - EIO))"

definition wait_irq :: "'d atadisk_ops \<Rightarrow> 'd \<Rightarrow> ('d \<times> int) option" where
  "wait_irq io d = (let (d, starttime) = g_ticktime io d in wait_irq_loop io d starttime 0)"

partial_function (option) wait_busy_clear_loop :: "'d atadisk_ops \<Rightarrow> 'd \<Rightarrow> u64 \<Rightarrow> ('d \<times> int) option" where
  "wait_busy_clear_loop io d starttime =
     (let (d, now) = g_ticktime io d in
      if now - starttime < ATA_TIMEOUT then
        (let (d, diskstatus) = read_status io d in
         if diskstatus AND ATA_STATUSFLAG_BSY = 0 then Some (d, 0)
         else if failed_status diskstatus then Some (d, - EIO)
         else wait_busy_clear_loop io d starttime)
      else Some (d, - EIO))"

definition wait_busy_clear :: "'d atadisk_ops \<Rightarrow> 'd \<Rightarrow> ('d \<times> int) option" where
  "wait_busy_clear io d = (let (d, starttime) = g_ticktime io d in wait_busy_clear_loop io d starttime)"

partial_function (option) wait_busy_clear_irq :: "'d atadisk_ops \<Rightarrow> 'd \<Rightarrow> ('d \<times> int) option" where
  "wait_busy_clear_irq io d =
     Option.bind (wait_irq io d) (\<lambda>r.
     if snd r < 0 then Some r
     else
       (let (d, diskstatus) = read_status io (fst r) in
        if diskstatus AND ATA_STATUSFLAG_BSY = 0 then Some (d, snd r) else wait_busy_clear_irq io d))"

partial_function (option) wait_drq_set_loop :: "'d atadisk_ops \<Rightarrow> 'd \<Rightarrow> u64 \<Rightarrow> ('d \<times> int) option" where
  "wait_drq_set_loop io d starttime =
     (let (d, now) = g_ticktime io d in
      if now - starttime < ATA_TIMEOUT then
        (let (d, diskstatus) = read_status io d in
         if failed_status diskstatus then Some (d, - EIO)
         else if diskstatus AND ATA_STATUSFLAG_DRQ \<noteq> 0 then Some (d, 0)
         else wait_drq_set_loop io d starttime)
      else Some (d, - EIO))"

definition wait_drq_set :: "'d atadisk_ops \<Rightarrow> 'd \<Rightarrow> ('d \<times> int) option" where
  "wait_drq_set io d = (let (d, starttime) = g_ticktime io d in wait_drq_set_loop io d starttime)"

subsection \<open>Identification\<close>

text \<open>
  The words \<open>start_offset\<close> to \<open>endoffset\<close> of the data, high byte first. identify_device zeroes the arrays
  first, so \<open>padded\<close> fills the bytes behind the string with zeros.
\<close>

definition extract_string_from_identify_data :: "u16 list \<Rightarrow> nat \<Rightarrow> nat \<Rightarrow> u8 list" where
  "extract_string_from_identify_data raw_data start_offset endoffset =
     concat (map (\<lambda>i. [ucast (drop_bit 8 (raw_data ! i)), ucast (raw_data ! i)]) [start_offset..<endoffset + 1])"

record identify_result =
  serial :: "u8 list"
  firmware :: "u8 list"
  modelnum :: "u8 list"

definition padded :: "nat \<Rightarrow> u8 list \<Rightarrow> u8 list" where
  "padded n xs = xs @ replicate (n - length xs) 0"

definition identify_strings :: "u16 list \<Rightarrow> identify_result" where
  "identify_strings buffer =
     \<lparr>serial = padded 41 (extract_string_from_identify_data buffer 10 19),
      firmware = padded 9 (extract_string_from_identify_data buffer 23 26),
      modelnum = padded 41 (extract_string_from_identify_data buffer 27 46)\<rparr>"

partial_function (option) identify_loop :: "'d atadisk_ops \<Rightarrow> 'd \<Rightarrow> u64 \<Rightarrow> ('d \<times> int) option" where
  "identify_loop io d starttime =
     (let (d, now) = g_ticktime io d in
      if now - starttime < ATA_TIMEOUT then
        (let (d, lba) = get_lba_output io d in
         if lba AND 0xffff00 \<noteq> 0 then Some (d, - ENODEV)
         else
           (let (d, diskstatus) = read_status io d in
            if failed_status diskstatus then Some (d, - EIO)
            else if diskstatus AND ATA_STATUSFLAG_DRQ \<noteq> 0 then Some (d, 0)
            else identify_loop io d starttime))
      else Some (d, - EIO))"

definition identify_device :: "'d atadisk_ops \<Rightarrow> 'd \<Rightarrow> ('d \<times> int \<times> identify_result option) option" where
  "identify_device io d =
     (let d = issue_command io ATA_CMD_IDENTIFY_DEVICE (set_lba_param io 0 (select_disk io d));
          (d, diskstatus) = read_status io d in
      if diskstatus = 0 then Some (d, - ENODEV, None)
      else
        Option.bind (wait_busy_clear_irq io d) (\<lambda>(d, ret).
        if ret < 0 then Some (d, ret, None)
        else
          (let (d, starttime) = g_ticktime io d in
           Option.bind (identify_loop io d starttime) (\<lambda>(d, ret').
           if ret' < 0 then Some (d, ret', None)
           else let (d, buffer) = read_data io d in Some (d, ret, Some (identify_strings buffer))))))"

subsection \<open>Transfers\<close>

definition flush_cache :: "'d atadisk_ops \<Rightarrow> 'd \<Rightarrow> ('d \<times> int) option" where
  "flush_cache io d = wait_busy_clear io (issue_command io ATA_CMD_FLUSH_CACHE (select_disk io d))"

text \<open>
  The loop that waits for a DMA transfer: the state, the code, whether the failure is a CRC error, and whether the
  transfer still runs.
\<close>

partial_function (option) dma_loop :: "'d atadisk_ops \<Rightarrow> 'd \<Rightarrow> ('d \<times> int \<times> bool \<times> bool) option" where
  "dma_loop io d =
     Option.bind (wait_irq io d) (\<lambda>r.
     if snd r < 0 then Some (fst r, snd r, False, True)
     else
       (let (d, dmastatus) = dma_check_transfer io (fst r) in
        case dmastatus of
          ATA_DMASTATUS_BUSY \<Rightarrow> dma_loop io d
        | ATA_DMASTATUS_SUCCESS \<Rightarrow> Some (d, snd r, False, False)
        | ATA_DMASTATUS_FAIL_UDMA_CRC \<Rightarrow> Some (d, - EIO, True, True)
        | ATA_DMASTATUS_FAIL_OTHER_IO \<Rightarrow> Some (d, - EIO, False, True)
        | ATA_DMASTATUS_FAIL_NOMEM \<Rightarrow> Some (d, - ENOMEM, False, True)))"

text \<open>try_write_dma and try_read_dma, which differ in the command.\<close>

definition try_dma :: "u8 \<Rightarrow> 'd atadisk_ops \<Rightarrow> 'd \<Rightarrow> ('d \<times> int \<times> bool) option" where
  "try_dma cmd io d =
     (let (d, ret) = dma_begin_transfer io (issue_command io cmd d) in
      if ret < 0 then Some (d, ret, False)
      else
        Option.bind (dma_loop io d) (\<lambda>(d, ret, is_crc_error, dma_running).
        if dma_running then Some (dma_end_transfer io False d, ret, is_crc_error)
        else Some (dma_deinit_transfer io (dma_end_transfer io True d), ret, is_crc_error)))"

definition try_write_dma :: "'d atadisk_ops \<Rightarrow> 'd \<Rightarrow> ('d \<times> int \<times> bool) option" where
  "try_write_dma = try_dma ATA_CMD_WRITE_DMA"

definition try_read_dma :: "'d atadisk_ops \<Rightarrow> 'd \<Rightarrow> ('d \<times> int \<times> bool) option" where
  "try_read_dma = try_dma ATA_CMD_READ_DMA"

text \<open>The 256 words of a sector from its bytes, and the bytes of 256 words.\<close>

fun pack_words :: "nat \<Rightarrow> u8 list \<Rightarrow> u16 list res" where
  "pack_words 0 src = Inr []"
| "pack_words (Suc n) src =
     bind_res (load src 1) (\<lambda>hi.
     bind_res (load src 0) (\<lambda>lo.
     bind_res (pack_words n (drop 2 src)) (\<lambda>ws. Inr ((push_bit 8 (ucast hi) OR ucast lo) # ws))))"

definition unpack_words :: "u16 list \<Rightarrow> u8 list" where
  "unpack_words ws = concat (map (\<lambda>w. [ucast w, ucast (drop_bit 8 w)]) ws)"

primrec write_pio_loop :: "nat \<Rightarrow> 'd atadisk_ops \<Rightarrow> 'd \<Rightarrow> u8 list \<Rightarrow> int \<Rightarrow> ('d \<times> int) res option" where
  "write_pio_loop 0 io d srcbuf ret = Some (Inr (d, ret))"
| "write_pio_loop (Suc n) io d srcbuf ret =
     Option.bind (wait_busy_clear io d) (\<lambda>(d, ret).
     if ret < 0 then Some (Inr (d, ret))
     else
       Option.bind (wait_drq_set io d) (\<lambda>(d, ret).
       if ret < 0 then Some (Inr (d, ret))
       else
         (case pack_words 256 srcbuf of
            Inl e \<Rightarrow> Some (Inl e)
          | Inr buffer \<Rightarrow>
              Option.bind (wait_busy_clear_irq io (write_data io buffer d)) (\<lambda>(d, ret).
              if ret < 0 then Some (Inr (d, ret)) else write_pio_loop n io d (drop 512 srcbuf) ret))))"

definition try_write_pio :: "'d atadisk_ops \<Rightarrow> 'd \<Rightarrow> u8 list \<Rightarrow> nat \<Rightarrow> ('d \<times> int) res option" where
  "try_write_pio io d srcbuf sector_count =
     write_pio_loop sector_count io (issue_command io ATA_CMD_WRITE_SECTORS d) srcbuf 0"

primrec read_pio_loop :: "nat \<Rightarrow> 'd atadisk_ops \<Rightarrow> 'd \<Rightarrow> u8 list \<Rightarrow> int \<Rightarrow> ('d \<times> int \<times> u8 list) option" where
  "read_pio_loop 0 io d destbuf ret = Some (d, ret, destbuf)"
| "read_pio_loop (Suc n) io d destbuf ret =
     Option.bind (wait_busy_clear_irq io d) (\<lambda>(d, ret).
     if ret < 0 then Some (d, ret, destbuf)
     else
       Option.bind (wait_drq_set io d) (\<lambda>(d, ret).
       if ret < 0 then Some (d, ret, destbuf)
       else
         (let (d, buffer) = read_data io d in
          read_pio_loop n io d (destbuf @ unpack_words buffer) ret)))"

definition try_read_pio :: "'d atadisk_ops \<Rightarrow> 'd \<Rightarrow> nat \<Rightarrow> ('d \<times> int \<times> u8 list) option" where
  "try_read_pio io d sector_count =
     read_pio_loop sector_count io (issue_command io ATA_CMD_READ_SECTORS d) [] 0"

text \<open>The registers of a transfer: device, features, sector count (0 stands for 256) and address.\<close>

definition set_params :: "'d atadisk_ops \<Rightarrow> 'd \<Rightarrow> u32 \<Rightarrow> nat \<Rightarrow> 'd" where
  "set_params io d lba sector_count =
     set_lba_param io lba
       (set_count_param io (if sector_count = ATA_MAX_SECTORS_PER_TRANSFER then 0 else of_nat sector_count)
         (set_features_param io 0 (select_disk io d)))"

definition try_write :: "'d atadisk_ops \<Rightarrow> 'd \<Rightarrow> u8 list \<Rightarrow> bool \<Rightarrow> u32 \<Rightarrow> nat \<Rightarrow> ('d \<times> int \<times> bool) res option" where
  "try_write io d srcbuf can_dma lba sector_count =
     (let (d, ret, dma_initialized) =
        (if can_dma then
           (let (d, ret) = dma_init_transfer io srcbuf (sector_count * ATA_SECTOR_SIZE) False d in (d, ret, \<not> ret < 0))
         else (d, 0, False)) in
      if can_dma \<and> \<not> dma_initialized then Some (Inr (d, ret, False))
      else
        (let d = set_params io d lba sector_count in
         bind_ro
           (if can_dma then Option.bind (try_write_dma io d) (\<lambda>r. Some (Inr r))
            else bind_ro (try_write_pio io d srcbuf sector_count) (\<lambda>(d, ret). Some (Inr (d, ret, False)))) (\<lambda>(d, ret, is_crc_error).
         let finish = (\<lambda>(d, ret). Some (Inr (if dma_initialized then dma_deinit_transfer io d else d, ret, is_crc_error))) in
         if ret < 0 then finish (d, ret)
         else
           Option.bind (wait_busy_clear io d) (\<lambda>(d, ret).
           if ret < 0 then finish (d, ret) else Option.bind (flush_cache io d) finish))))"

text \<open>The destination of a read: its old contents do not matter, so zeros stand for them.\<close>

definition blank_dest :: "nat \<Rightarrow> u8 list" where
  "blank_dest sector_count = replicate (sector_count * ATA_SECTOR_SIZE) 0"

definition try_read :: "'d atadisk_ops \<Rightarrow> 'd \<Rightarrow> bool \<Rightarrow> u32 \<Rightarrow> nat \<Rightarrow> ('d \<times> int \<times> bool \<times> u8 list) option" where
  "try_read io d can_dma lba sector_count =
     (let (d, ret, dma_initialized) =
        (if can_dma then
           (let (d, ret) = dma_init_transfer io (blank_dest sector_count) (sector_count * ATA_SECTOR_SIZE) True d in (d, ret, \<not> ret < 0))
         else (d, 0, False)) in
      if can_dma \<and> \<not> dma_initialized then Some (d, ret, False, [])
      else
        (let d = set_params io d lba sector_count in
         Option.bind
           (if can_dma then Option.bind (try_read_dma io d) (\<lambda>(d, ret, is_crc_error). Some (d, ret, dma_data io d))
            else try_read_pio io d sector_count) (\<lambda>(d, ret, bytes).
         Some (if dma_initialized then dma_deinit_transfer io d else d, ret, False, bytes))))"

subsection \<open>Requests\<close>

text \<open>
  The loop over the tries of one chunk: \<open>tries\<close> counts the tries that may still follow. The result is the state, the last code
  and, for a read, the bytes.
\<close>

primrec write_try_loop :: "nat \<Rightarrow> 'd atadisk_ops \<Rightarrow> 'd \<Rightarrow> u8 list \<Rightarrow> bool \<Rightarrow> u32 \<Rightarrow> nat \<Rightarrow> ('d \<times> int) res option" where
  "write_try_loop 0 io d srcbuf can_dma lba n =
     bind_ro (try_write io d srcbuf can_dma lba n) (\<lambda>(d, ret, is_crc_error). Some (Inr (d, ret)))"
| "write_try_loop (Suc tries) io d srcbuf can_dma lba n =
     bind_ro (try_write io d srcbuf can_dma lba n) (\<lambda>(d, ret, is_crc_error).
     if ret < 0
     then write_try_loop tries io (if \<not> is_crc_error \<and> can_dma then soft_reset io d else d) srcbuf can_dma lba n
     else Some (Inr (d, ret)))"

function write_loop :: "'d atadisk_ops \<Rightarrow> 'd \<Rightarrow> u8 list \<Rightarrow> bool \<Rightarrow> u32 \<Rightarrow> nat \<Rightarrow> int \<Rightarrow> ('d \<times> int) res option" where
  "write_loop io d srcbuf can_dma current_lba remaining ret =
     (if remaining = 0 then Some (Inr (d, ret))
      else
        (let n = if ATA_MAX_SECTORS_PER_TRANSFER < remaining then ATA_MAX_SECTORS_PER_TRANSFER else remaining in
         bind_ro (write_try_loop MAX_RETRIES io d srcbuf can_dma current_lba n) (\<lambda>(d, ret).
         if ret < 0 then Some (Inr (d, ret))
         else write_loop io d (drop (n * ATA_SECTOR_SIZE) srcbuf) can_dma (current_lba + of_nat n) (remaining - n) ret)))"
  by pat_completeness auto
termination
  by (relation "measure (\<lambda>(_, _, _, _, _, n, _). n)") (auto simp: ATA_MAX_SECTORS_PER_TRANSFER_def)

declare write_loop.simps [simp del]

definition write_sectors :: "'d atadisk_ops \<Rightarrow> 'd \<Rightarrow> u32 \<Rightarrow> nat \<Rightarrow> u8 list \<Rightarrow> ('d \<times> int) res option" where
  "write_sectors io d lba sector_count buffer =
     (let (d, can_dma) = dma_begin_session io (ata_lock io d) in
      bind_ro (write_loop io d buffer can_dma lba sector_count 0) (\<lambda>(d, ret).
      Some (Inr (ata_unlock io (if can_dma then dma_end_session io d else d), ret))))"

primrec read_try_loop :: "nat \<Rightarrow> 'd atadisk_ops \<Rightarrow> 'd \<Rightarrow> bool \<Rightarrow> u32 \<Rightarrow> nat \<Rightarrow> ('d \<times> int \<times> u8 list) option" where
  "read_try_loop 0 io d can_dma lba n =
     Option.bind (try_read io d can_dma lba n) (\<lambda>(d, ret, is_crc_error, bytes). Some (d, ret, bytes))"
| "read_try_loop (Suc tries) io d can_dma lba n =
     Option.bind (try_read io d can_dma lba n) (\<lambda>(d, ret, is_crc_error, bytes).
     if ret < 0
     then read_try_loop tries io (if \<not> is_crc_error \<and> can_dma then soft_reset io d else d) can_dma lba n
     else Some (d, ret, bytes))"

function read_loop_ata :: "'d atadisk_ops \<Rightarrow> 'd \<Rightarrow> bool \<Rightarrow> u32 \<Rightarrow> nat \<Rightarrow> int \<Rightarrow> u8 list \<Rightarrow> ('d \<times> int \<times> u8 list) option" where
  "read_loop_ata io d can_dma current_lba remaining ret destbuf =
     (if remaining = 0 then Some (d, ret, destbuf)
      else
        (let n = if ATA_MAX_SECTORS_PER_TRANSFER < remaining then ATA_MAX_SECTORS_PER_TRANSFER else remaining in
         Option.bind (read_try_loop MAX_RETRIES io d can_dma current_lba n) (\<lambda>(d, ret, bytes).
         if ret < 0 then Some (d, ret, destbuf)
         else read_loop_ata io d can_dma (current_lba + of_nat n) (remaining - n) ret (destbuf @ bytes))))"
  by pat_completeness auto
termination
  by (relation "measure (\<lambda>(_, _, _, _, n, _, _). n)") (auto simp: ATA_MAX_SECTORS_PER_TRANSFER_def)

declare read_loop_ata.simps [simp del]

definition read_sectors :: "'d atadisk_ops \<Rightarrow> 'd \<Rightarrow> u32 \<Rightarrow> nat \<Rightarrow> ('d \<times> int \<times> u8 list) option" where
  "read_sectors io d lba sector_count =
     (let (d, can_dma) = dma_begin_session io (ata_lock io d) in
      Option.bind (read_loop_ata io d can_dma lba sector_count 0 []) (\<lambda>(d, ret, bytes).
      Some (ata_unlock io (if can_dma then dma_end_session io d else d), ret, bytes)))"

definition ata_op_read :: "'d atadisk_ops \<Rightarrow> 'd \<Rightarrow> nat \<Rightarrow> nat \<Rightarrow> ('d \<times> int \<times> u8 list) option" where
  "ata_op_read io d block_addr blk_count = read_sectors io d (of_nat block_addr) blk_count"

definition ata_op_write :: "'d atadisk_ops \<Rightarrow> 'd \<Rightarrow> u8 list \<Rightarrow> nat \<Rightarrow> nat \<Rightarrow> ('d \<times> int) res option" where
  "ata_op_write io d buffer block_addr blk_count = write_sectors io d (of_nat block_addr) blk_count buffer"

text \<open>\<open>ops\<close> and \<open>data\<close> are the addresses of the operations above and of the disk.\<close>

definition atadisk_register :: "'d atadisk_ops \<Rightarrow> 'd \<Rightarrow> (nat \<Rightarrow> bool) \<Rightarrow> dstate \<Rightarrow> nat \<Rightarrow> nat \<Rightarrow> ('d \<times> dstate \<times> int) res option" where
  "atadisk_register io d oom s ops data =
     Option.bind (identify_device io d) (\<lambda>(d, ret, result).
     if ret < 0 then Some (Inr (d, s, ret))
     else
       (case pdisk_register oom s ATA_SECTOR_SIZE ops data of
          Inl e \<Rightarrow> Some (Inl e)
        | Inr (s, ret) \<Rightarrow> Some (Inr (d, s, ret))))"

end
