(* ===== verification/Ata_Disk.thy ===== *)
theory Ata_Disk
  imports Ata
begin

text \<open>
  Properties of the ATA driver: transfers on a drive that follows the PIO protocol move exactly the sectors of the request,
  whatever their number; the bus lock and the DMA session are released on every path; DMA buffers are not.
\<close>

subsection \<open>Sectors and words\<close>




text \<open>The first \<open>n\<close> sectors of a buffer.\<close>

fun sectors :: "nat \<Rightarrow> u8 list \<Rightarrow> u8 list list" where
  "sectors 0 src = []"
| "sectors (Suc n) src = take 512 src # sectors n (drop 512 src)"

lemma length_sectors [simp]: "length (sectors n src) = n"
  by (induction n arbitrary: src) simp_all





subsection \<open>Drives that follow the protocol\<close>

text \<open>
  A drive is idle or within a transfer (the next sector and the number of sectors left); \<open>irq\<close> is its pending interrupt and
  \<open>media\<close> its sectors. It is ready whenever it is asked, and the clock stands still long enough to ask.
\<close>

datatype ata_phase = Ata_idle | Ata_reading nat nat | Ata_writing nat nat

definition transfer_phase :: "(nat \<Rightarrow> nat \<Rightarrow> ata_phase) \<Rightarrow> nat \<Rightarrow> nat \<Rightarrow> ata_phase" where
  "transfer_phase f l k = (if k = 0 then Ata_idle else f l k)"








subsection \<open>Waiting on such a drive\<close>





subsection \<open>PIO transfers\<close>








subsection \<open>Resources\<close>

text \<open>
  A count of a resource that the operations of a transfer leave alone, except those that take and release DMA buffers, the
  bus lock and the DMA session.
\<close>

definition neutral :: "'d atadisk_ops \<Rightarrow> ('d \<Rightarrow> int) \<Rightarrow> bool" where
  "neutral io g \<longleftrightarrow>
     (\<forall>d. g (fst (read_status io d)) = g d \<and> g (select_disk io d) = g d \<and> g (fst (get_irq_flag io d)) = g d \<and>
        g (clear_irq_flag io d) = g d \<and> g (fst (read_data io d)) = g d \<and> g (soft_reset io d) = g d \<and>
        g (fst (dma_begin_transfer io d)) = g d \<and> g (fst (dma_check_transfer io d)) = g d \<and> g (fst (g_ticktime io d)) = g d) \<and>
     (\<forall>v d. g (set_features_param io v d) = g d) \<and> (\<forall>v d. g (set_count_param io v d) = g d) \<and>
     (\<forall>v d. g (set_lba_param io v d) = g d) \<and> (\<forall>v d. g (issue_command io v d) = g d) \<and>
     (\<forall>v d. g (write_data io v d) = g d) \<and> (\<forall>v d. g (dma_end_transfer io v d) = g d)"

lemma neutral_pair:
  assumes "neutral io g"
  shows "read_status io d = (d', st) \<Longrightarrow> g d' = g d" "get_irq_flag io d = (d', b) \<Longrightarrow> g d' = g d" "read_data io d = (d', ws) \<Longrightarrow> g d' = g d"
    "dma_begin_transfer io d = (d', r) \<Longrightarrow> g d' = g d" "dma_check_transfer io d = (d', ds) \<Longrightarrow> g d' = g d" "g_ticktime io d = (d', t) \<Longrightarrow> g d' = g d"
  using assms unfolding neutral_def by (metis fst_conv)+

lemma neutral_fun:
  assumes "neutral io g"
  shows "g (select_disk io d) = g d" "g (clear_irq_flag io d) = g d" "g (soft_reset io d) = g d" "g (issue_command io c d) = g d"
    "g (write_data io ws d) = g d" "g (dma_end_transfer io e d) = g d" "g (set_params io d lba n) = g d"
  using assms unfolding neutral_def by (auto simp: set_params_def)

lemma poll_status_neutral: "neutral io g \<Longrightarrow> poll_status io d l = (d', r) \<Longrightarrow> g d' = g d"
  by (auto simp: poll_status_def split: prod.splits if_splits) (metis neutral_pair(1,6))+

lemma wait_irq_loop_neutral:
  assumes "wait_irq_loop io d st l = Some y" and "neutral io g"
  shows "g (fst y) = g d"
proof -
  have "neutral io g \<longrightarrow> g (fst y) = g d"
  proof (rule wait_irq_loop.raw_induct [of "\<lambda>io d st l y. neutral io g \<longrightarrow> g (fst y) = g d", OF _ assms(1)], rule impI)
    fix f :: "'a atadisk_ops \<Rightarrow> 'a \<Rightarrow> u64 \<Rightarrow> u64 \<Rightarrow> ('a \<times> int) option" and io d st l y
    assume ih: "\<And>io d st l y. f io d st l = Some y \<Longrightarrow> neutral io g \<longrightarrow> g (fst y) = g d" and n: "neutral io g"
      and e: "(let (d, now) = g_ticktime io d in
        if now - st < ATA_TIMEOUT then
          (case poll_status io d l of
             (d, None) \<Rightarrow> Some (d, - EIO)
           | (d, Some lastchecktime) \<Rightarrow>
               (let (d, flag) = get_irq_flag io d in
                if flag then Some (clear_irq_flag io d, 0) else f io d st lastchecktime))
        else Some (d, - EIO)) = Some y"
    obtain d1 t1 where 1: "g_ticktime io d = (d1, t1)" by (cases "g_ticktime io d")
    obtain d2 r where 2: "poll_status io d1 l = (d2, r)" by (cases "poll_status io d1 l")
    obtain d3 b where 3: "get_irq_flag io d2 = (d3, b)" by (cases "get_irq_flag io d2")
    have g: "g d1 = g d" "g d2 = g d" "g d3 = g d"
      using neutral_pair(6) [OF n 1] poll_status_neutral [OF n 2] neutral_pair(2) [OF n 3] by simp_all
    show "g (fst y) = g d"
    proof (cases r)
      case None
      then show ?thesis using e 1 2 g by (auto split: if_splits)
    next
      case (Some l')
      show ?thesis using e 1 2 3 g ih [of io d3 st l' y] n neutral_fun(2) [OF n, of d3] by (auto simp: Some split: if_splits)
    qed
  qed
  then show ?thesis using assms(2) by blast
qed

lemma wait_irq_neutral: "wait_irq io d = Some y \<Longrightarrow> neutral io g \<Longrightarrow> g (fst y) = g d"
  unfolding wait_irq_def by (cases "g_ticktime io d") (simp, metis wait_irq_loop_neutral neutral_pair(6))

lemma wait_busy_clear_loop_neutral:
  assumes "wait_busy_clear_loop io d st = Some y" and "neutral io g"
  shows "g (fst y) = g d"
proof -
  have "neutral io g \<longrightarrow> g (fst y) = g d"
  proof (rule wait_busy_clear_loop.raw_induct [of "\<lambda>io d st y. neutral io g \<longrightarrow> g (fst y) = g d", OF _ assms(1)], rule impI)
    fix f :: "'a atadisk_ops \<Rightarrow> 'a \<Rightarrow> u64 \<Rightarrow> ('a \<times> int) option" and io d st y
    assume ih: "\<And>io d st y. f io d st = Some y \<Longrightarrow> neutral io g \<longrightarrow> g (fst y) = g d" and n: "neutral io g"
      and e: "(let (d, now) = g_ticktime io d in
        if now - st < ATA_TIMEOUT then
          (let (d, diskstatus) = read_status io d in
           if diskstatus AND ATA_STATUSFLAG_BSY = 0 then Some (d, 0)
           else if failed_status diskstatus then Some (d, - EIO) else f io d st)
        else Some (d, - EIO)) = Some y"
    obtain d1 t1 where 1: "g_ticktime io d = (d1, t1)" by (cases "g_ticktime io d")
    obtain d2 r where 2: "read_status io d1 = (d2, r)" by (cases "read_status io d1")
    have "g d1 = g d" "g d2 = g d" using neutral_pair(6) [OF n 1] neutral_pair(1) [OF n 2] by simp_all
    then show "g (fst y) = g d" using e 1 2 ih [of io d2 st y] n by (auto split: if_splits)
  qed
  then show ?thesis using assms(2) by blast
qed

lemma wait_busy_clear_neutral: "wait_busy_clear io d = Some y \<Longrightarrow> neutral io g \<Longrightarrow> g (fst y) = g d"
  unfolding wait_busy_clear_def by (cases "g_ticktime io d") (simp, metis wait_busy_clear_loop_neutral neutral_pair(6))

lemma wait_drq_set_loop_neutral:
  assumes "wait_drq_set_loop io d st = Some y" and "neutral io g"
  shows "g (fst y) = g d"
proof -
  have "neutral io g \<longrightarrow> g (fst y) = g d"
  proof (rule wait_drq_set_loop.raw_induct [of "\<lambda>io d st y. neutral io g \<longrightarrow> g (fst y) = g d", OF _ assms(1)], rule impI)
    fix f :: "'a atadisk_ops \<Rightarrow> 'a \<Rightarrow> u64 \<Rightarrow> ('a \<times> int) option" and io d st y
    assume ih: "\<And>io d st y. f io d st = Some y \<Longrightarrow> neutral io g \<longrightarrow> g (fst y) = g d" and n: "neutral io g"
      and e: "(let (d, now) = g_ticktime io d in
        if now - st < ATA_TIMEOUT then
          (let (d, diskstatus) = read_status io d in
           if failed_status diskstatus then Some (d, - EIO)
           else if diskstatus AND ATA_STATUSFLAG_DRQ \<noteq> 0 then Some (d, 0) else f io d st)
        else Some (d, - EIO)) = Some y"
    obtain d1 t1 where 1: "g_ticktime io d = (d1, t1)" by (cases "g_ticktime io d")
    obtain d2 r where 2: "read_status io d1 = (d2, r)" by (cases "read_status io d1")
    have "g d1 = g d" "g d2 = g d" using neutral_pair(6) [OF n 1] neutral_pair(1) [OF n 2] by simp_all
    then show "g (fst y) = g d" using e 1 2 ih [of io d2 st y] n by (auto split: if_splits)
  qed
  then show ?thesis using assms(2) by blast
qed

lemma wait_drq_set_neutral: "wait_drq_set io d = Some y \<Longrightarrow> neutral io g \<Longrightarrow> g (fst y) = g d"
  unfolding wait_drq_set_def by (cases "g_ticktime io d") (simp, metis wait_drq_set_loop_neutral neutral_pair(6))

lemma wait_busy_clear_irq_neutral:
  assumes "wait_busy_clear_irq io d = Some y" and "neutral io g"
  shows "g (fst y) = g d"
proof -
  have "neutral io g \<longrightarrow> g (fst y) = g d"
  proof (rule wait_busy_clear_irq.raw_induct [of "\<lambda>io d y. neutral io g \<longrightarrow> g (fst y) = g d", OF _ assms(1)], rule impI)
    fix f :: "'a atadisk_ops \<Rightarrow> 'a \<Rightarrow> ('a \<times> int) option" and io d y
    assume ih: "\<And>io d y. f io d = Some y \<Longrightarrow> neutral io g \<longrightarrow> g (fst y) = g d" and n: "neutral io g"
      and e: "Option.bind (wait_irq io d) (\<lambda>r.
        if snd r < 0 then Some r
        else (let (d, diskstatus) = read_status io (fst r) in
              if diskstatus AND ATA_STATUSFLAG_BSY = 0 then Some (d, snd r) else f io d)) = Some y"
    obtain r where 1: "wait_irq io d = Some r" using e by (cases "wait_irq io d") auto
    obtain d2 st where 2: "read_status io (fst r) = (d2, st)" by (cases "read_status io (fst r)")
    have "g (fst r) = g d" "g d2 = g d" using wait_irq_neutral [OF 1 n] neutral_pair(1) [OF n 2] by simp_all
    then show "g (fst y) = g d" using e 1 2 ih [of io d2 y] n by (auto split: if_splits)
  qed
  then show ?thesis using assms(2) by blast
qed

lemma dma_loop_neutral:
  assumes "dma_loop io d = Some y" and "neutral io g"
  shows "g (fst y) = g d \<and> (snd (snd (snd y)) = False \<longrightarrow> 0 \<le> fst (snd y)) \<and> (snd (snd (snd y)) = True \<longrightarrow> fst (snd y) < 0)"
proof -
  let ?P = "\<lambda>d y. g (fst y) = g d \<and> (snd (snd (snd y)) = False \<longrightarrow> 0 \<le> fst (snd y)) \<and> (snd (snd (snd y)) = True \<longrightarrow> fst (snd y) < 0)"
  have "neutral io g \<longrightarrow> ?P d y"
  proof (rule dma_loop.raw_induct [of "\<lambda>io d y. neutral io g \<longrightarrow> ?P d y", OF _ assms(1)], rule impI)
    fix f :: "'a atadisk_ops \<Rightarrow> 'a \<Rightarrow> ('a \<times> int \<times> bool \<times> bool) option" and io d y
    assume ih: "\<And>io d y. f io d = Some y \<Longrightarrow> neutral io g \<longrightarrow> ?P d y" and n: "neutral io g"
      and e: "Option.bind (wait_irq io d) (\<lambda>r.
        if snd r < 0 then Some (fst r, snd r, False, True)
        else
          (let (d, dmastatus) = dma_check_transfer io (fst r) in
           case dmastatus of
             ATA_DMASTATUS_BUSY \<Rightarrow> f io d
           | ATA_DMASTATUS_SUCCESS \<Rightarrow> Some (d, snd r, False, False)
           | ATA_DMASTATUS_FAIL_UDMA_CRC \<Rightarrow> Some (d, - EIO, True, True)
           | ATA_DMASTATUS_FAIL_OTHER_IO \<Rightarrow> Some (d, - EIO, False, True)
           | ATA_DMASTATUS_FAIL_NOMEM \<Rightarrow> Some (d, - ENOMEM, False, True))) = Some y"
    obtain r where 1: "wait_irq io d = Some r" using e by (cases "wait_irq io d") auto
    obtain d2 ds where 2: "dma_check_transfer io (fst r) = (d2, ds)" by (cases "dma_check_transfer io (fst r)")
    have g: "g (fst r) = g d" "g d2 = g d" using wait_irq_neutral [OF 1 n] neutral_pair(5) [OF n 2] by simp_all
    show "?P d y"
    proof (cases "snd r < 0")
      case True
      then show ?thesis using e 1 g by auto
    next
      case False
      then show ?thesis using e 1 2 g ih [of io d2 y] n by (cases ds) (auto simp: EIO_def ENOMEM_def)
    qed
  qed
  then show ?thesis using assms(2) by blast
qed

text \<open>A DMA transfer that succeeds releases its buffers; one that fails does not.\<close>

lemma try_dma_count:
  assumes "try_dma cmd io d = Some (d', ret, crc)" and n: "neutral io g" and deinit: "\<forall>d. g (dma_deinit_transfer io d) = g d - k"
  shows "g d' = g d - (if ret < 0 then 0 else k)"
proof -
  let ?d = "issue_command io cmd d"
  obtain d1 r where 1: "dma_begin_transfer io ?d = (d1, r)" by (cases "dma_begin_transfer io ?d")
  have g1: "g d1 = g d" using neutral_pair(4) [OF n 1] neutral_fun(4) [OF n] by simp
  show ?thesis
  proof (cases "r < 0")
    case True
    then show ?thesis using assms(1) 1 g1 by (auto simp: try_dma_def)
  next
    case False
    then obtain d2 r2 c2 run where 2: "dma_loop io d1 = Some (d2, r2, c2, run)"
      using assms(1) 1 by (cases "dma_loop io d1") (auto simp: try_dma_def)
    have g2: "g d2 = g d" "run \<longrightarrow> r2 < 0" "\<not> run \<longrightarrow> 0 \<le> r2" using dma_loop_neutral [OF 2 n] g1 by auto
    show ?thesis
      using assms(1) 1 2 False g2 neutral_fun(6) [OF n] deinit by (cases run) (auto simp: try_dma_def)
  qed
qed

lemma read_pio_neutral:
  assumes "neutral io g"
  shows "read_pio_loop n io d dest ret = Some (d', r, b) \<Longrightarrow> g d' = g d"
proof (induction n arbitrary: d dest ret)
  case (Suc n)
  obtain d1 r1 where 1: "wait_busy_clear_irq io d = Some (d1, r1)" using Suc.prems by (cases "wait_busy_clear_irq io d") auto
  have g1: "g d1 = g d" using wait_busy_clear_irq_neutral [OF 1 assms] by simp
  show ?case
  proof (cases "r1 < 0")
    case True
    then show ?thesis using Suc.prems 1 g1 by simp
  next
    case False
    then obtain d2 r2 where 2: "wait_drq_set io d1 = Some (d2, r2)" using Suc.prems 1 by (cases "wait_drq_set io d1") auto
    obtain d3 ws where 3: "read_data io d2 = (d3, ws)" by (cases "read_data io d2")
    have "g d2 = g d" "g d3 = g d" using wait_drq_set_neutral [OF 2 assms] neutral_pair(3) [OF assms 3] g1 by simp_all
    then show ?thesis using Suc.prems 1 2 3 False Suc.IH [of d3 "dest @ unpack_words ws" r2] by (auto split: if_splits)
  qed
qed simp

lemma write_pio_neutral:
  assumes "neutral io g"
  shows "write_pio_loop n io d src ret = Some (Inr (d', r)) \<Longrightarrow> g d' = g d"
proof (induction n arbitrary: d src ret)
  case (Suc n)
  obtain d1 r1 where 1: "wait_busy_clear io d = Some (d1, r1)" using Suc.prems by (cases "wait_busy_clear io d") auto
  have g1: "g d1 = g d" using wait_busy_clear_neutral [OF 1 assms] by simp
  show ?case
  proof (cases "r1 < 0")
    case True
    then show ?thesis using Suc.prems 1 g1 by simp
  next
    case f1: False
    then obtain d2 r2 where 2: "wait_drq_set io d1 = Some (d2, r2)" using Suc.prems 1 by (cases "wait_drq_set io d1") auto
    have g2: "g d2 = g d" using wait_drq_set_neutral [OF 2 assms] g1 by simp
    show ?thesis
    proof (cases "r2 < 0")
      case True
      then show ?thesis using Suc.prems 1 2 f1 g2 by simp
    next
      case f2: False
      obtain ws where 3: "pack_words 256 src = Inr ws" using Suc.prems 1 2 f1 f2 by (cases "pack_words 256 src") auto
      obtain d4 r4 where 4: "wait_busy_clear_irq io (write_data io ws d2) = Some (d4, r4)"
        using Suc.prems 1 2 3 f1 f2 by (cases "wait_busy_clear_irq io (write_data io ws d2)") auto
      have "g d4 = g d" using wait_busy_clear_irq_neutral [OF 4 assms] neutral_fun(5) [OF assms] g2 by simp
      then show ?thesis using Suc.prems 1 2 3 4 f1 f2 Suc.IH [of d4 "drop 512 src" r4] by (auto split: if_splits)
    qed
  qed
qed simp

text \<open>A count of DMA buffers: taken \<open>k\<close> at a time by a transfer that can be set up, released \<open>k\<close> at a time.\<close>

definition dma_count :: "'d atadisk_ops \<Rightarrow> ('d \<Rightarrow> int) \<Rightarrow> int \<Rightarrow> bool" where
  "dma_count io g k \<longleftrightarrow> neutral io g \<and> (\<forall>d. g (dma_deinit_transfer io d) = g d - k) \<and>
     (\<forall>b n r d. g (fst (dma_init_transfer io b n r d)) = g d + (if snd (dma_init_transfer io b n r d) < 0 then 0 else k))"

lemma dma_countD:
  assumes "dma_count io g k"
  shows "neutral io g" "\<forall>d. g (dma_deinit_transfer io d) = g d - k" "dma_init_transfer io b n r d = (d', ret) \<Longrightarrow> g d' = g d + (if ret < 0 then 0 else k)"
  using assms unfolding dma_count_def by (simp, simp, metis fst_conv snd_conv)

lemma try_read_count:
  assumes "try_read io d can_dma lba n = Some (d', ret, crc, bytes)" and c: "dma_count io g k"
  shows "g d' = g d - (if can_dma \<and> 0 \<le> ret then k else 0)"
proof (cases can_dma)
  case False
  then obtain b where "try_read_pio io (set_params io d lba n) n = Some (d', ret, b)"
    using assms(1) by (cases "try_read_pio io (set_params io d lba n) n") (auto simp: try_read_def)
  then show ?thesis
    using False read_pio_neutral [OF dma_countD(1) [OF c]] neutral_fun(4,7) [OF dma_countD(1) [OF c]] by (auto simp: try_read_pio_def)
next
  case True
  obtain d1 r1 where 1: "dma_init_transfer io (blank_dest n) (n * ATA_SECTOR_SIZE) True d = (d1, r1)" by (cases "dma_init_transfer io (blank_dest n) (n * ATA_SECTOR_SIZE) True d")
  have g1: "g d1 = g d + (if r1 < 0 then 0 else k)" by (rule dma_countD(3) [OF c 1])
  show ?thesis
  proof (cases "r1 < 0")
    case neg: True
    then show ?thesis using assms(1) True 1 g1 by (auto simp: try_read_def)
  next
    case pos: False
    let ?d = "set_params io d1 lba n"
    obtain d2 r2 c2 where 2: "try_dma ATA_CMD_READ_DMA io ?d = Some (d2, r2, c2)"
      using assms(1) True 1 pos by (cases "try_dma ATA_CMD_READ_DMA io ?d") (auto simp: try_read_def try_read_dma_def)
    have "g d2 = g d1 - (if r2 < 0 then 0 else k)"
      using try_dma_count [OF 2 dma_countD(1,2) [OF c]] neutral_fun(7) [OF dma_countD(1) [OF c]] by simp
    then show ?thesis using assms(1) True 1 2 pos g1 dma_countD(2) [OF c] by (auto simp: try_read_def try_read_dma_def)
  qed
qed

text \<open>The end of try_write.\<close>

lemma try_write_finish:
  assumes "(if ret < 0 then finish (d, ret) else Option.bind (wait_busy_clear io d) (\<lambda>(d, ret).
      if ret < 0 then finish (d, ret) else Option.bind (flush_cache io d) finish)) = Some (Inr (d', ret', crc'))"
    and fin: "\<And>d ret. finish (d, ret) = Some (Inr (if b then dma_deinit_transfer io d else d, ret, crc))" and c: "dma_count io g k"
  shows "g d' = g d - (if b then k else 0)" "0 \<le> ret' \<Longrightarrow> 0 \<le> ret"
proof -
  have fd: "finish (d1, r1) = Some (Inr (d', ret', crc')) \<Longrightarrow> g d' = g d1 - (if b then k else 0) \<and> r1 = ret'" for d1 r1
    using dma_countD(2) [OF c] by (auto simp: fin split: if_splits)
  have "g d' = g d - (if b then k else 0) \<and> (0 \<le> ret' \<longrightarrow> 0 \<le> ret)"
  proof (cases "ret < 0")
    case True
    then show ?thesis using assms(1) fd [of d ret] by auto
  next
    case f: False
    then obtain d1 r1 where 1: "wait_busy_clear io d = Some (d1, r1)" using assms(1) by (cases "wait_busy_clear io d") auto
    have g1: "g d1 = g d" using wait_busy_clear_neutral [OF 1 dma_countD(1) [OF c]] by simp
    show ?thesis
    proof (cases "r1 < 0")
      case True
      then show ?thesis using assms(1) f 1 g1 fd [of d1 r1] by auto
    next
      case f1: False
      then obtain d2 r2 where 2: "flush_cache io d1 = Some (d2, r2)" using assms(1) f 1 by (cases "flush_cache io d1") auto
      have "g d2 = g d"
        using wait_busy_clear_neutral [OF 2 [unfolded flush_cache_def] dma_countD(1) [OF c]] neutral_fun(1,4) [OF dma_countD(1) [OF c]] g1 by simp
      then show ?thesis using assms(1) f f1 1 2 fd [of d2 r2] by auto
    qed
  qed
  then show "g d' = g d - (if b then k else 0)" "0 \<le> ret' \<Longrightarrow> 0 \<le> ret" by simp_all
qed

lemma try_write_count:
  fixes io :: "'d atadisk_ops"
  assumes "try_write io d src can_dma lba n = Some (Inr (d', ret, crc))" and c: "dma_count io g k" and ok: "0 \<le> ret \<or> k = 0"
  shows "g d' = g d - (if can_dma then k else 0)"
proof (cases can_dma)
  case False
  let ?d = "set_params io d lba n"
  obtain d2 r2 where 2: "try_write_pio io ?d src n = Some (Inr (d2, r2))"
    using assms(1) False by (cases "try_write_pio io ?d src n"; cases "the (try_write_pio io ?d src n)") (auto simp: try_write_def)
  have g2: "g d2 = g d"
    using write_pio_neutral [OF dma_countD(1) [OF c] 2 [unfolded try_write_pio_def]] neutral_fun(4,7) [OF dma_countD(1) [OF c]] by simp
  have e: "(if r2 < 0 then (\<lambda>(d, ret). Some (Inr (if False then dma_deinit_transfer io d else d, ret, False))) (d2, r2) else Option.bind (wait_busy_clear io d2) (\<lambda>(d, ret).
      if ret < 0 then (\<lambda>(d, ret). Some (Inr (if False then dma_deinit_transfer io d else d, ret, False))) (d, ret)
      else Option.bind (flush_cache io d) (\<lambda>(d, ret). Some (Inr (if False then dma_deinit_transfer io d else d, ret, False))))) = (Some (Inr (d', ret, crc)) :: ('d \<times> int \<times> bool) res option)"
    using assms(1) False 2 by (cases "r2 < 0") (simp_all add: try_write_def Let_def)
  have "g d' = g d2 - (if False then k else 0)" by (rule try_write_finish(1) [where crc = False, OF e _ c]) simp
  then show ?thesis using g2 False by simp
next
  case True
  obtain d1 r1 where 1: "dma_init_transfer io src (n * ATA_SECTOR_SIZE) False d = (d1, r1)" by (cases "dma_init_transfer io src (n * ATA_SECTOR_SIZE) False d")
  have g1: "g d1 = g d + (if r1 < 0 then 0 else k)" by (rule dma_countD(3) [OF c 1])
  show ?thesis
  proof (cases "r1 < 0")
    case neg: True
    then show ?thesis using assms(1) True 1 g1 ok by (auto simp: try_write_def)
  next
    case pos: False
    let ?d = "set_params io d1 lba n"
    obtain d2 r2 c2 where 2: "try_dma ATA_CMD_WRITE_DMA io ?d = Some (d2, r2, c2)"
      using assms(1) True 1 pos by (cases "try_dma ATA_CMD_WRITE_DMA io ?d") (auto simp: try_write_def try_write_dma_def)
    have g2: "g d2 = g d1 - (if r2 < 0 then 0 else k)"
      using try_dma_count [OF 2 dma_countD(1,2) [OF c]] neutral_fun(7) [OF dma_countD(1) [OF c]] by simp
    have e: "(if r2 < 0 then (\<lambda>(d, ret). Some (Inr (dma_deinit_transfer io d, ret, c2))) (d2, r2) else Option.bind (wait_busy_clear io d2) (\<lambda>(d, ret).
        if ret < 0 then (\<lambda>(d, ret). Some (Inr (dma_deinit_transfer io d, ret, c2))) (d, ret)
        else Option.bind (flush_cache io d) (\<lambda>(d, ret). Some (Inr (dma_deinit_transfer io d, ret, c2))))) = (Some (Inr (d', ret, crc)) :: ('d \<times> int \<times> bool) res option)"
      using assms(1) True 1 2 pos by (simp add: try_write_def try_write_dma_def Let_def)
    have "g d' = g d2 - (if True then k else 0)" "0 \<le> ret \<longrightarrow> 0 \<le> r2"
      using try_write_finish [OF e _ c, of True c2] by auto
    then show ?thesis using g1 g2 pos True ok by auto
  qed
qed

lemma read_loop_count:
  assumes c: "dma_count io g 0"
  shows "read_loop_ata io d can_dma lba r ret dest = Some (d', ret', b) \<Longrightarrow> g d' = g d"
proof (induction r arbitrary: d lba ret dest rule: less_induct)
  case (less r)
  have try_ok: "read_try_loop m io d can_dma lba n = Some (d', r', b) \<Longrightarrow> g d' = g d" for m d d' lba n r' b
  proof (induction m arbitrary: d)
    case 0
    then obtain c' where "try_read io d can_dma lba n = Some (d', r', c', b)" by (cases "try_read io d can_dma lba n") auto
    from try_read_count [OF this c] show ?case by simp
  next
    case (Suc m)
    obtain d1 r1 c1 b1 where 1: "try_read io d can_dma lba n = Some (d1, r1, c1, b1)" using Suc.prems by (cases "try_read io d can_dma lba n") auto
    have g1: "g d1 = g d" using try_read_count [OF 1 c] by simp
    then have "g (if \<not> c1 \<and> can_dma then soft_reset io d1 else d1) = g d" using neutral_fun(3) [OF dma_countD(1) [OF c]] by simp
    then show ?case using Suc.prems Suc.IH 1 g1 by (auto split: if_splits)
  qed
  show ?case
  proof (cases "r = 0")
    case True
    then show ?thesis using less.prems by (simp add: read_loop_ata.simps)
  next
    case False
    define n where "n = (if ATA_MAX_SECTORS_PER_TRANSFER < r then ATA_MAX_SECTORS_PER_TRANSFER else r)"
    have n: "r - n < r" using False by (auto simp: n_def ATA_MAX_SECTORS_PER_TRANSFER_def)
    note e = less.prems [unfolded read_loop_ata.simps [of io d] if_not_P [OF False] Let_def n_def [symmetric]]
    obtain d1 r1 b1 where 1: "read_try_loop MAX_RETRIES io d can_dma lba n = Some (d1, r1, b1)"
      using e by (cases "read_try_loop MAX_RETRIES io d can_dma lba n") auto
    show ?thesis using e 1 try_ok [OF 1] less.IH [OF n] by (auto split: if_splits)
  qed
qed

lemma write_loop_count:
  assumes c: "dma_count io g 0"
  shows "write_loop io d src can_dma lba r ret = Some (Inr (d', ret')) \<Longrightarrow> g d' = g d"
proof (induction r arbitrary: d src lba ret rule: less_induct)
  case (less r)
  have try_ok: "write_try_loop m io d src can_dma lba n = Some (Inr (d', r')) \<Longrightarrow> g d' = g d" for m d d' src lba n r'
  proof (induction m arbitrary: d)
    case 0
    then obtain c' where "try_write io d src can_dma lba n = Some (Inr (d', r', c'))" by (auto simp: bind_ro_Inr)
    from try_write_count [OF this c] show ?case by simp
  next
    case (Suc m)
    obtain d1 r1 c1 where 1: "try_write io d src can_dma lba n = Some (Inr (d1, r1, c1))"
      using Suc.prems by (auto simp: bind_ro_Inr)
    have g1: "g d1 = g d" using try_write_count [OF 1 c] by simp
    then have "g (if \<not> c1 \<and> can_dma then soft_reset io d1 else d1) = g d" using neutral_fun(3) [OF dma_countD(1) [OF c]] by simp
    then show ?case using Suc.prems Suc.IH 1 g1 by (auto split: if_splits)
  qed
  show ?case
  proof (cases "r = 0")
    case True
    then show ?thesis using less.prems by (simp add: write_loop.simps)
  next
    case False
    define n where "n = (if ATA_MAX_SECTORS_PER_TRANSFER < r then ATA_MAX_SECTORS_PER_TRANSFER else r)"
    have n: "r - n < r" using False by (auto simp: n_def ATA_MAX_SECTORS_PER_TRANSFER_def)
    note e = less.prems [unfolded write_loop.simps [of io d] if_not_P [OF False] Let_def n_def [symmetric]]
    obtain d1 r1 where 1: "write_try_loop MAX_RETRIES io d src can_dma lba n = Some (Inr (d1, r1))"
      using e by (auto simp: bind_ro_Inr)
    show ?thesis using e 1 try_ok [OF 1] less.IH [OF n] by (auto split: if_splits)
  qed
qed

subsection \<open>Properties\<close>


text \<open>A drive that keeps its phase, its interrupt, its registers and its sectors, and counts DMA buffers, locks and sessions.\<close>

record model_drive =
  md_phase :: ata_phase
  md_irq :: bool
  md_words :: "u16 list list"
  md_lba :: nat
  md_count :: nat
  md_buffers :: int
  md_locks :: int
  md_sessions :: int


definition model_ops :: "bool \<Rightarrow> model_drive atadisk_ops" where
  "model_ops dma = \<lparr>dma_begin_session = (\<lambda>d. (if dma then d\<lparr>md_sessions := md_sessions d + 1\<rparr> else d, dma)),
     dma_end_session = (\<lambda>d. d\<lparr>md_sessions := md_sessions d - 1\<rparr>),
     ata_lock = (\<lambda>d. d\<lparr>md_locks := md_locks d + 1\<rparr>), ata_unlock = (\<lambda>d. d\<lparr>md_locks := md_locks d - 1\<rparr>),
     read_status = (\<lambda>d. (d, 0x08)), select_disk = (\<lambda>d. d), set_features_param = (\<lambda>_ d. d),
     set_count_param = (\<lambda>v d. d\<lparr>md_count := if v = 0 then 256 else unat v\<rparr>), set_lba_param = (\<lambda>v d. d\<lparr>md_lba := unat v\<rparr>), set_device_param = (\<lambda>_ d. d),
     get_lba_output = (\<lambda>d. (d, 0)),
     issue_command = (\<lambda>c d. if c = ATA_CMD_READ_SECTORS then d\<lparr>md_phase := Ata_reading (md_lba d) (md_count d), md_irq := True\<rparr>
       else if c = ATA_CMD_WRITE_SECTORS then d\<lparr>md_phase := Ata_writing (md_lba d) (md_count d)\<rparr> else d\<lparr>md_irq := True\<rparr>),
     get_irq_flag = (\<lambda>d. (d, md_irq d)), clear_irq_flag = (\<lambda>d. d\<lparr>md_irq := False\<rparr>),
     read_data = (\<lambda>d. case md_phase d of
         Ata_reading l (Suc k) \<Rightarrow> (d\<lparr>md_phase := transfer_phase Ata_reading (l + 1) k, md_irq := True\<rparr>, md_words d ! l)
       | _ \<Rightarrow> (d, [])),
     write_data = (\<lambda>ws d. case md_phase d of
         Ata_writing l (Suc k) \<Rightarrow> d\<lparr>md_phase := transfer_phase Ata_writing (l + 1) k, md_irq := True, md_words := (md_words d)[l := ws]\<rparr>
       | _ \<Rightarrow> d),
     soft_reset = (\<lambda>d. d), dma_init_transfer = (\<lambda>_ _ _ d. (d\<lparr>md_buffers := md_buffers d + 1\<rparr>, 0)), dma_begin_transfer = (\<lambda>d. (d, 0)),
     dma_check_transfer = (\<lambda>d. (d, ATA_DMASTATUS_SUCCESS)), dma_end_transfer = (\<lambda>_ d. d),
     dma_deinit_transfer = (\<lambda>d. d\<lparr>md_buffers := md_buffers d - 1\<rparr>), dma_data = (\<lambda>_. []), g_ticktime = (\<lambda>d. (d, 0))\<rparr>"

definition blank_drive :: model_drive where
  "blank_drive = \<lparr>md_phase = Ata_idle, md_irq = False, md_words = [[1, 2], [3, 4], [5, 6]], md_lba = 0, md_count = 0, md_buffers = 0, md_locks = 0, md_sessions = 0\<rparr>"






text \<open>Observations that count the locks held and the DMA sessions begun.\<close>

definition lock_count :: "'d atadisk_ops \<Rightarrow> ('d \<Rightarrow> int) \<Rightarrow> bool" where
  "lock_count io g \<longleftrightarrow> dma_count io g 0 \<and> (\<forall>d. g (ata_lock io d) = g d + 1 \<and> g (ata_unlock io d) = g d - 1 \<and>
     g (fst (dma_begin_session io d)) = g d \<and> g (dma_end_session io d) = g d)"

definition session_count :: "'d atadisk_ops \<Rightarrow> ('d \<Rightarrow> int) \<Rightarrow> bool" where
  "session_count io g \<longleftrightarrow> dma_count io g 0 \<and> (\<forall>d. g (ata_lock io d) = g d \<and> g (ata_unlock io d) = g d \<and>
     g (fst (dma_begin_session io d)) = g d + (if snd (dma_begin_session io d) then 1 else 0) \<and> g (dma_end_session io d) = g d - 1)"

text \<open>
  Claim C26. The bus is given back on every path: whatever the drive does (errors, time-outs, failed DMA set-up, retries), a read or
  write that returns has released the lock it took, and has ended the DMA session exactly when it began one.
\<close>

theorem ata_bus_released:
  assumes "lock_count io locks" and "session_count io sessions"
    and "read_sectors io d lba n = Some (d', ret, bytes) \<or> write_sectors io d lba n src = Some (Inr (d', ret))"
  shows "locks d' = locks d \<and> sessions d' = sessions d"
proof -
  obtain d1 b where 1: "dma_begin_session io (ata_lock io d) = (d1, b)" by (cases "dma_begin_session io (ata_lock io d)")
  have L: "dma_count io locks 0" "locks d1 = locks d + 1" "\<And>d. locks (ata_unlock io d) = locks d - 1" "\<And>d. locks (dma_end_session io d) = locks d"
    using assms(1) 1 unfolding lock_count_def by (simp, metis fst_conv, simp, simp)
  have S: "dma_count io sessions 0" "sessions d1 = sessions d + (if b then 1 else 0)" "\<And>d. sessions (ata_unlock io d) = sessions d"
      "\<And>d. sessions (dma_end_session io d) = sessions d - 1"
    using assms(2) 1 unfolding session_count_def by (simp, metis fst_conv snd_conv, simp, simp)
  obtain d2 where 2: "locks d2 = locks d1 \<and> sessions d2 = sessions d1" "d' = ata_unlock io (if b then dma_end_session io d2 else d2)"
    using assms(3)
  proof
    assume r: "read_sectors io d lba n = Some (d', ret, bytes)"
    then obtain d2 r2 b2 where 2: "read_loop_ata io d1 b lba n 0 [] = Some (d2, r2, b2)"
      using 1 by (cases "read_loop_ata io d1 b lba n 0 []") (auto simp: read_sectors_def)
    have "d' = ata_unlock io (if b then dma_end_session io d2 else d2)" using r 1 2 by (simp add: read_sectors_def)
    then show ?thesis using that [of d2] read_loop_count [OF L(1) 2] read_loop_count [OF S(1) 2] by simp
  next
    assume w: "write_sectors io d lba n src = Some (Inr (d', ret))"
    then obtain d2 r2 where 2: "write_loop io d1 src b lba n 0 = Some (Inr (d2, r2))" using 1 by (auto simp: write_sectors_def bind_ro_Inr)
    have "d' = ata_unlock io (if b then dma_end_session io d2 else d2)" using w 1 2 by (simp add: write_sectors_def)
    then show ?thesis using that [of d2] write_loop_count [OF L(1) 2] write_loop_count [OF S(1) 2] by simp
  qed
  then show ?thesis using L S by simp
qed

text \<open>
  The buffers of a DMA transfer are released twice: each transfer that succeeds takes its buffers once, and releases them
  at the end of the transfer and again at the end of the try, so a count of the buffers in use drops by one for every command.
  (A read that fails releases them once.)
\<close>

lemma ata_dma_released_twice:
  assumes "dma_count io g 1"
  shows "(try_read io d True lba n = Some (d', ret, crc, bytes) \<longrightarrow> g d' = g d - (if 0 \<le> ret then 1 else 0)) \<and>
    (try_write io d src True lba n = Some (Inr (d', ret, crc)) \<longrightarrow> 0 \<le> ret \<longrightarrow> g d' = g d - 1)"
  using try_read_count [OF _ assms, of d True lba n d' ret crc bytes] try_write_count [OF _ assms, of d src True lba n d' ret crc] by auto

lemma model_neutral: "neutral (model_ops dma) md_buffers" "neutral (model_ops dma) md_locks" "neutral (model_ops dma) md_sessions"
  by (auto simp: neutral_def model_ops_def split: ata_phase.splits nat.splits)

theorem ata_bus_released_witness:
  "\<exists>d' ret bytes. read_sectors (model_ops True) blank_drive 0 0 = Some (d', ret, bytes) \<and> md_locks d' = 0 \<and> md_sessions d' = 0"
proof -
  have c: "lock_count (model_ops True) md_locks" "session_count (model_ops True) md_sessions"
    using model_neutral by (simp_all add: lock_count_def session_count_def dma_count_def) (simp_all add: model_ops_def)
  obtain d' ret bytes where r: "read_sectors (model_ops True) blank_drive 0 0 = Some (d', ret, bytes)"
    by (simp add: read_sectors_def model_ops_def read_loop_ata.simps)
  have "md_locks d' = md_locks blank_drive \<and> md_sessions d' = md_sessions blank_drive"
    by (rule ata_bus_released [OF c]) (use r in blast)
  then show ?thesis using r by (simp add: blank_drive_def)
qed

end
