(* ===== verification/Tty.thy ===== *)
theory Tty
  imports Kbd
begin

text \<open>
  Text consoles: the terminal over a screen driver (kernel/io/vt100tty.c, include/kernel/io/vt100tty.h), the VGA text
  console (kernel/arch/i586/vgatty.c) and the registration of consoles (kernel/io/co.c).

  The cells of a console are the list \<open>chars\<close>; an access behind its end is a fault. The callbacks of
  \<open>struct vt100tty_ops\<close> are arguments: \<open>scroll\<close> moves what the device (\<open>tdata\<close>) shows, \<open>update_screen\<close> reads the terminal and
  clears flags of cells. Bytes are \<^typ>\<open>u8\<close>: the conversions between \<open>char\<close>, \<open>int\<close> and \<open>uint8_t\<close> keep them.
\<close>

subsection \<open>Consoles\<close>

record consoles =
  s_primary_stream :: nat
  s_debug_stream :: nat

definition co_set_primary_console :: "nat \<Rightarrow> consoles \<Rightarrow> consoles" where
  "co_set_primary_console device co = co\<lparr>s_primary_stream := device\<rparr>"

definition co_set_debug_console :: "nat \<Rightarrow> consoles \<Rightarrow> consoles" where
  "co_set_debug_console device co = co\<lparr>s_debug_stream := device\<rparr>"

subsection \<open>Terminal\<close>

record vt100tty_char =
  chr :: u8
  need_supdate :: bool

record vt100tty_line_info =
  is_continuation :: bool
  line_need_supdate :: bool

record 'd vt100tty =
  lineinfos :: "vt100tty_line_info list"
  chars :: "vt100tty_char list"
  tdata :: 'd
  columns :: int
  rows :: int
  currentcolumn :: int
  currentrow :: int

record 'd vt100tty_ops =
  update_screen :: "'d vt100tty \<Rightarrow> vt100tty_char list \<times> 'd"
  scroll :: "(int \<Rightarrow> 'd \<Rightarrow> 'd) option"

definition char_at :: "'d vt100tty \<Rightarrow> int \<Rightarrow> int \<Rightarrow> nat res" where
  "char_at self row column =
     bind_res (assert_res (0 \<le> row)) (\<lambda>_.
     bind_res (assert_res (0 \<le> column)) (\<lambda>_.
     bind_res (assert_res (row < rows self)) (\<lambda>_.
     bind_res (assert_res (column < columns self)) (\<lambda>_.
     Inr (nat (row * columns self + column))))))"

text \<open>The copy of \<open>n\<close> cells, and an update of \<open>n\<close> cells one after the other.\<close>

definition copy_cells :: "'a list \<Rightarrow> nat \<Rightarrow> nat \<Rightarrow> nat \<Rightarrow> 'a list res" where
  "copy_cells cs dest src n =
     fold_res (\<lambda>i cs'. bind_res (load cs (src + i)) (\<lambda>x. store cs' (dest + i) x)) [0..<n] cs"

definition update_cells :: "('a \<Rightarrow> 'a) \<Rightarrow> nat \<Rightarrow> nat \<Rightarrow> 'a list \<Rightarrow> 'a list res" where
  "update_cells f at n cs = fold_res (\<lambda>i cs. bind_res (load cs (at + i)) (\<lambda>x. store cs (at + i) (f x))) [0..<n] cs"

definition update_line :: "(vt100tty_line_info \<Rightarrow> vt100tty_line_info) \<Rightarrow> int \<Rightarrow> 'd vt100tty \<Rightarrow> 'd vt100tty res" where
  "update_line f row self =
     bind_res (load (lineinfos self) (nat row)) (\<lambda>l.
     bind_res (store (lineinfos self) (nat row) (f l)) (\<lambda>ls. Inr (self\<lparr>lineinfos := ls\<rparr>)))"

definition mark :: "vt100tty_char \<Rightarrow> vt100tty_char" where
  "mark c = c\<lparr>need_supdate := True\<rparr>"

definition put_chr :: "u8 \<Rightarrow> vt100tty_char \<Rightarrow> vt100tty_char" where
  "put_chr ch c = c\<lparr>chr := ch, need_supdate := True\<rparr>"

text \<open>The body of the loop of advanceline over the lines: line \<open>srcline\<close> moves up.\<close>

definition move_line :: "bool \<Rightarrow> nat \<Rightarrow> 'd vt100tty \<Rightarrow> 'd vt100tty res" where
  "move_line hasscroll srcline self =
     (let destline = int srcline - 1; n = nat (columns self) in
      bind_res (char_at self destline 0) (\<lambda>dest.
      bind_res (char_at self (int srcline) 0) (\<lambda>src.
      bind_res (copy_cells (chars self) dest src n) (\<lambda>cs.
      bind_res (if hasscroll then Inr cs else bind_res (update_cells mark dest n cs) (update_cells mark src n)) (\<lambda>cs.
      bind_res (load (lineinfos self) srcline) (\<lambda>l.
      update_line (\<lambda>d. d\<lparr>is_continuation := is_continuation l, line_need_supdate := line_need_supdate d \<or> \<not> hasscroll\<rparr>) destline
        (self\<lparr>chars := cs\<rparr>)))))))"

lemma move_line_keeps: "move_line has l self = Inr self' \<Longrightarrow>
    rows self' = rows self \<and> columns self' = columns self \<and> currentrow self' = currentrow self \<and> currentcolumn self' = currentcolumn self \<and> tdata self' = tdata self"
  by (auto simp: move_line_def update_line_def Let_def res_simps)

lemma move_lines_keep: "fold_res (move_line has) ls self = Inr self' \<Longrightarrow>
    rows self' = rows self \<and> columns self' = columns self \<and> currentrow self' = currentrow self \<and> currentcolumn self' = currentcolumn self \<and> tdata self' = tdata self"
  by (induction ls arbitrary: self) (auto simp: res_simps dest: move_line_keeps)

text \<open>The rest of the loop body: the row that has become free is blanked.\<close>

definition blank_row :: "'d vt100tty \<Rightarrow> 'd vt100tty res" where
  "blank_row self =
     (if currentrow self < rows self then
        bind_res (char_at self (currentrow self) 0) (\<lambda>dest.
        bind_res (update_cells (put_chr 32) dest (nat (columns self)) (chars self)) (\<lambda>cs.
        update_line (\<lambda>l. l\<lparr>line_need_supdate := True\<rparr>) (currentrow self) (self\<lparr>chars := cs\<rparr>)))
      else Inr self)"

lemma blank_row_keeps: "blank_row self = Inr self' \<Longrightarrow> rows self' = rows self \<and> currentrow self' = currentrow self"
  by (auto simp: blank_row_def update_line_def res_simps split: if_splits)

definition scroll_device :: "'d vt100tty_ops \<Rightarrow> 'd vt100tty \<Rightarrow> 'd vt100tty" where
  "scroll_device ops self = (case scroll ops of None \<Rightarrow> self | Some f \<Rightarrow> self\<lparr>tdata := f 1 (tdata self)\<rparr>)"

lemma scroll_device_keeps [simp]:
  "rows (scroll_device ops self) = rows self" "columns (scroll_device ops self) = columns self" "currentrow (scroll_device ops self) = currentrow self"
  "currentcolumn (scroll_device ops self) = currentcolumn self" "chars (scroll_device ops self) = chars self" "lineinfos (scroll_device ops self) = lineinfos self"
  by (simp_all add: scroll_device_def split: option.splits)

function scroll_loop :: "'d vt100tty_ops \<Rightarrow> 'd vt100tty \<Rightarrow> 'd vt100tty res" where
  "scroll_loop ops self =
     (if rows self \<le> currentrow self then
        bind_res (fold_res (move_line (scroll ops \<noteq> None)) [1..<nat (rows self)] self) (\<lambda>self.
        bind_res (blank_row (scroll_device ops (self\<lparr>currentrow := currentrow self - 1\<rparr>))) (scroll_loop ops))
      else Inr self)"
  by pat_completeness auto
termination
proof (relation "measure (\<lambda>(_, self). nat (currentrow self - rows self + 1))")
  fix ops :: "'d vt100tty_ops" and self x y
  assume "rows self \<le> currentrow self"
    and x: "fold_res (move_line (scroll ops \<noteq> None)) [1..<nat (rows self)] self = Inr x"
    and y: "blank_row (scroll_device ops (x\<lparr>currentrow := currentrow x - 1\<rparr>)) = Inr y"
  with move_lines_keep [OF x] blank_row_keeps [OF y]
  show "((ops, y), ops, self) \<in> measure (\<lambda>(_, self). nat (currentrow self - rows self + 1))" by simp
qed simp

declare scroll_loop.simps [simp del]

definition advanceline :: "'d vt100tty_ops \<Rightarrow> 'd vt100tty \<Rightarrow> bool \<Rightarrow> 'd vt100tty res" where
  "advanceline ops self wastextoverflow =
     bind_res (scroll_loop ops (self\<lparr>currentcolumn := 0, currentrow := currentrow self + 1\<rparr>)) (\<lambda>self.
     bind_res (update_line (\<lambda>l. l\<lparr>is_continuation := False\<rparr>) 0 self) (\<lambda>self.
     update_line (\<lambda>l. l\<lparr>is_continuation := wastextoverflow\<rparr>) (currentrow self) self))"

definition write_char :: "'d vt100tty_ops \<Rightarrow> 'd vt100tty \<Rightarrow> u8 \<Rightarrow> 'd vt100tty res" where
  "write_char ops self c =
     (if c = 10 then advanceline ops self False
      else if c = 13 then Inr (self\<lparr>currentcolumn := 0\<rparr>)
      else
        bind_res (if columns self \<le> currentcolumn self then advanceline ops self True else Inr self) (\<lambda>self.
        bind_res (char_at self (currentrow self) (currentcolumn self)) (\<lambda>dest.
        bind_res (update_cells (put_chr c) dest 1 (chars self)) (\<lambda>cs.
        bind_res (update_line (\<lambda>l. l\<lparr>line_need_supdate := True\<rparr>) (currentrow self) (self\<lparr>chars := cs\<rparr>)) (\<lambda>self.
        Inr (self\<lparr>currentcolumn := currentcolumn self + 1\<rparr>))))))"

definition stream_op_write :: "'d vt100tty_ops \<Rightarrow> 'd vt100tty \<Rightarrow> u8 list \<Rightarrow> ('d vt100tty \<times> int) res" where
  "stream_op_write ops self bytes =
     bind_res (assert_res (length bytes \<le> STREAM_MAX_TRANSFER_SIZE)) (\<lambda>_.
     bind_res (fold_res (\<lambda>c self. write_char ops self c) bytes self) (\<lambda>self. Inr (self, int (length bytes))))"

text \<open>The loop over \<open>idx\<close> of stream_op_read, here and in the VGA console: \<open>n\<close> rounds are left.\<close>

primrec read_events :: "nat \<Rightarrow> kbd \<Rightarrow> u8 list \<Rightarrow> int \<Rightarrow> (kbd \<times> u8 list \<times> int) res" where
  "read_events 0 k buf read_len = Inr (k, buf, read_len)"
| "read_events (Suc n) k buf read_len =
     (case kbd_pull_event k of
        (k, None) \<Rightarrow> Inr (k, buf, read_len)
      | (k, Some event) \<Rightarrow>
          if \<not> is_down event \<or> ev_chr event = 0 then read_events n k buf read_len
          else bind_res (store buf 0 (of_nat (ev_chr event))) (\<lambda>buf. read_events n k buf (read_len + 1)))"

definition stream_op_read :: "kbd \<Rightarrow> u8 list \<Rightarrow> nat \<Rightarrow> (kbd \<times> u8 list \<times> int) res" where
  "stream_op_read k buf n =
     bind_res (assert_res (n \<le> STREAM_MAX_TRANSFER_SIZE)) (\<lambda>_. read_events n k buf 0)"

definition stream_op_flush :: "'d vt100tty_ops \<Rightarrow> 'd vt100tty \<Rightarrow> 'd vt100tty res" where
  "stream_op_flush ops self =
     (let (cs, d) = update_screen ops self in
      fold_res (\<lambda>r self. update_line (\<lambda>l. l\<lparr>line_need_supdate := False\<rparr>) (currentrow self) self) [0..<nat (rows self)]
        (self\<lparr>chars := cs, tdata := d\<rparr>))"

definition init_row :: "nat \<Rightarrow> 'd vt100tty \<Rightarrow> 'd vt100tty res" where
  "init_row r out =
     bind_res (fold_res (\<lambda>c out. bind_res (char_at out (int r) (int c)) (\<lambda>dest.
         bind_res (update_cells (put_chr 32) dest 1 (chars out)) (\<lambda>cs. Inr (out\<lparr>chars := cs\<rparr>)))) [0..<nat (columns out)] out) (\<lambda>out.
     update_line (\<lambda>l. l\<lparr>line_need_supdate := True\<rparr>) (int r) out)"

definition vt100tty_init ::
  "consoles \<Rightarrow> nat \<Rightarrow> 'd vt100tty \<Rightarrow> vt100tty_line_info list \<Rightarrow> vt100tty_char list \<Rightarrow> int \<Rightarrow> int \<Rightarrow> (consoles \<times> 'd vt100tty) res" where
  "vt100tty_init co stream out ls cs cols rws =
     (let out = out\<lparr>columns := cols, rows := rws, lineinfos := ls, chars := cs\<rparr> in
      bind_res (fold_res init_row [0..<nat rws] out) (\<lambda>out. Inr (co_set_primary_console stream co, out)))"

subsection \<open>VGA text console\<close>

record vga_chr =
  vchr :: u8
  attr :: u8

record vgatty =
  s_chars :: "vga_chr list"
  s_totalcolumns :: nat
  s_totalrows :: nat
  s_currentcolumn :: u16
  s_currentrow :: u16

definition write_char_at :: "u16 \<Rightarrow> u16 \<Rightarrow> u8 \<Rightarrow> vgatty \<Rightarrow> vgatty res" where
  "write_char_at row col c s =
     bind_res (update_cells (\<lambda>x. x\<lparr>vchr := c\<rparr>) (sz_add (sz_mul (unat row) (s_totalcolumns s)) (unat col)) 1 (s_chars s)) (\<lambda>cs.
     Inr (s\<lparr>s_chars := cs\<rparr>))"

definition write_attr_at :: "u16 \<Rightarrow> u16 \<Rightarrow> u8 \<Rightarrow> vgatty \<Rightarrow> vgatty res" where
  "write_attr_at row col a s =
     bind_res (update_cells (\<lambda>x. x\<lparr>attr := a\<rparr>) (sz_add (sz_mul (unat row) (s_totalcolumns s)) (unat col)) 1 (s_chars s)) (\<lambda>cs.
     Inr (s\<lparr>s_chars := cs\<rparr>))"

definition vga_move_line :: "nat \<Rightarrow> vgatty \<Rightarrow> vgatty res" where
  "vga_move_line src_line s =
     bind_res (copy_cells (s_chars s) (sz_mul (src_line - 1) (s_totalcolumns s)) (sz_mul src_line (s_totalcolumns s)) (s_totalcolumns s)) (\<lambda>cs.
     Inr (s\<lparr>s_chars := cs\<rparr>))"

definition vga_blank_row :: "vgatty \<Rightarrow> vgatty res" where
  "vga_blank_row s =
     (if unat (s_currentrow s) < s_totalrows s
      then fold_res (\<lambda>i s. write_char_at (s_currentrow s) (of_nat i) 32 s) [0..<s_totalcolumns s] s
      else Inr s)"

lemma vga_keep:
  "vga_move_line l s = Inr s' \<Longrightarrow> s_totalrows s' = s_totalrows s \<and> s_currentrow s' = s_currentrow s"
  "write_char_at r c x s = Inr s' \<Longrightarrow> s_totalrows s' = s_totalrows s \<and> s_currentrow s' = s_currentrow s"
  by (auto simp: vga_move_line_def write_char_at_def res_simps)

lemma vga_move_lines_keep: "fold_res vga_move_line ls s = Inr s' \<Longrightarrow> s_totalrows s' = s_totalrows s \<and> s_currentrow s' = s_currentrow s"
  by (induction ls arbitrary: s) (auto simp: res_simps dest: vga_keep)

lemma vga_blank_row_keeps: "vga_blank_row s = Inr s' \<Longrightarrow> s_totalrows s' = s_totalrows s \<and> s_currentrow s' = s_currentrow s"
proof -
  have "fold_res (\<lambda>i s. write_char_at (s_currentrow s) (of_nat i) 32 s) is s = Inr s' \<Longrightarrow> s_totalrows s' = s_totalrows s \<and> s_currentrow s' = s_currentrow s" for "is" s
    by (induction "is" arbitrary: s) (auto simp: res_simps dest: vga_keep(2))
  then show "vga_blank_row s = Inr s' \<Longrightarrow> ?thesis" by (auto simp: vga_blank_row_def split: if_splits)
qed

text \<open>
  The loop of advance_line. A screen without rows would go on for ever (the row counter wraps from 0 to 65535, which is
  not below 0), so the loop is a partial function.
\<close>

partial_function (option) vga_scroll_loop :: "vgatty \<Rightarrow> vgatty res option" where
  "vga_scroll_loop s =
     (if s_totalrows s \<le> unat (s_currentrow s) then
        bind_ro (Some (bind_res (fold_res vga_move_line [1..<s_totalrows s] s) (\<lambda>s. vga_blank_row (s\<lparr>s_currentrow := s_currentrow s - 1\<rparr>))))
          vga_scroll_loop
      else Some (Inr s))"

definition advance_line :: "vgatty \<Rightarrow> vgatty res option" where
  "advance_line s = vga_scroll_loop (s\<lparr>s_currentcolumn := 0, s_currentrow := s_currentrow s + 1\<rparr>)"

definition vga_write_char :: "vgatty \<Rightarrow> u8 \<Rightarrow> vgatty res option" where
  "vga_write_char s c =
     (if c = 10 then advance_line s
      else if c = 13 then Some (Inr (s\<lparr>s_currentcolumn := 0\<rparr>))
      else
        bind_ro (if s_totalcolumns s \<le> unat (s_currentcolumn s) then advance_line s else Some (Inr s)) (\<lambda>s.
        Some (bind_res (write_char_at (s_currentrow s) (s_currentcolumn s) c s) (\<lambda>s.
        Inr (s\<lparr>s_currentcolumn := s_currentcolumn s + 1\<rparr>)))))"

primrec vga_write_loop :: "u8 list \<Rightarrow> vgatty \<Rightarrow> vgatty res option" where
  "vga_write_loop [] s = Some (Inr s)"
| "vga_write_loop (c # cs) s = bind_ro (vga_write_char s c) (vga_write_loop cs)"

definition vga_stream_op_write :: "vgatty \<Rightarrow> u8 list \<Rightarrow> (vgatty \<times> int) res option" where
  "vga_stream_op_write s bytes =
     bind_ro (Some (assert_res (length bytes \<le> STREAM_MAX_TRANSFER_SIZE))) (\<lambda>_.
     bind_ro (vga_write_loop bytes s) (\<lambda>s. Some (Inr (s, int (length bytes)))))"

definition archi586_vgatty_init_early_debug :: "consoles \<Rightarrow> nat \<Rightarrow> vgatty \<Rightarrow> vga_chr list \<Rightarrow> consoles \<times> vgatty" where
  "archi586_vgatty_init_early_debug co stream s mem =
     (co_set_debug_console stream co, s\<lparr>s_totalcolumns := 80, s_totalrows := 25, s_chars := mem\<rparr>)"

text \<open>\<open>mem\<close> is the memory that vmm_ezmap has mapped.\<close>

definition archi586_vgatty_init :: "consoles \<Rightarrow> nat \<Rightarrow> vgatty \<Rightarrow> vga_chr list \<Rightarrow> nat \<Rightarrow> nat \<Rightarrow> nat \<Rightarrow> (consoles \<times> vgatty) res" where
  "archi586_vgatty_init co stream s mem cols rws bytes_per_row =
     bind_res (assert_res (sz_mul cols 2 = bytes_per_row)) (\<lambda>_.
     bind_res (fold_res (\<lambda>r s. fold_res (\<lambda>c s. bind_res (write_char_at (of_nat r) (of_nat c) 32 s) (write_attr_at (of_nat r) (of_nat c) 7))
         [0..<cols] s) [0..<rws] (s\<lparr>s_totalcolumns := cols, s_totalrows := rws, s_chars := mem\<rparr>)) (\<lambda>s.
     Inr (co_set_primary_console stream co, s)))"

end
