(* ===== verification/Tty_Screen.thy ===== *)
theory Tty_Screen
  imports Tty
begin

text \<open>
  What text consoles show. A console as a grid of bytes with a cursor makes the steps \<open>console_step\<close>; the locale
  \<open>text_console\<close> states this contract of a console and shows once that text appears as its last lines, wrapped at the width of
  the screen. The terminal over a device and the VGA console are instances. For the terminal the cells that differ from what the
  device shows are always marked, so a flush shows them.
\<close>

subsection \<open>Text on a grid\<close>

type_synonym screen = "u8 list list \<times> nat \<times> nat"

definition console_newline :: "nat \<Rightarrow> screen \<Rightarrow> screen" where
  "console_newline w s = (case s of (g, r, c) \<Rightarrow>
     if r + 1 < length g then (g, r + 1, 0) else (tl g @ [replicate w 32], r, 0))"

definition console_step :: "nat \<Rightarrow> u8 \<Rightarrow> screen \<Rightarrow> screen" where
  "console_step w ch s =
     (if ch = 10 then console_newline w s
      else if ch = 13 then (case s of (g, r, c) \<Rightarrow> (g, r, 0))
      else
        (case (if w \<le> snd (snd s) then console_newline w s else s) of (g, r, c) \<Rightarrow>
           (g[r := (g ! r)[c := ch]], r, c + 1)))"

text \<open>The lines of a text, wrapped at width \<open>w\<close>.\<close>

function wrap :: "nat \<Rightarrow> u8 list \<Rightarrow> u8 list list" where
  "wrap w xs = (if w = 0 \<or> length xs \<le> w then [xs] else take w xs # wrap w (drop w xs))"
  by pat_completeness auto
termination by (relation "measure (\<lambda>(_, xs). length xs)") auto

declare wrap.simps [simp del]

fun split_lines :: "u8 list \<Rightarrow> u8 list list" where
  "split_lines [] = [[]]"
| "split_lines (c # cs) = (if c = 10 then [] # split_lines cs else (c # hd (split_lines cs)) # tl (split_lines cs))"

definition text_lines :: "nat \<Rightarrow> u8 list \<Rightarrow> u8 list list" where
  "text_lines w text = concat (map (wrap w) (split_lines text))"

definition pad_line :: "nat \<Rightarrow> u8 list \<Rightarrow> u8 list" where
  "pad_line w l = l @ replicate (w - length l) 32"

text \<open>The last \<open>h\<close> lines on a screen of \<open>h\<close> rows, with blank rows below.\<close>

definition show_lines :: "nat \<Rightarrow> nat \<Rightarrow> u8 list list \<Rightarrow> screen" where
  "show_lines w h ls =
     (map (pad_line w) (drop (length ls - h) ls) @ replicate (h - length ls) (replicate w 32), min (length ls) h - 1, length (last ls))"

lemma wrap_ne [simp]: "wrap w xs \<noteq> []"
  by (subst wrap.simps) simp

lemma wrap_snoc: "0 < w \<Longrightarrow> wrap w (xs @ [c]) =
    (if length (last (wrap w xs)) = w then wrap w xs @ [[c]] else butlast (wrap w xs) @ [last (wrap w xs) @ [c]])"
proof (induction w xs rule: wrap.induct)
  case (1 w xs)
  show ?case
  proof (cases "length xs \<le> w")
    case True
    then have "wrap w xs = [xs]" by (subst wrap.simps) simp
    moreover have "wrap w (xs @ [c]) = (if length xs = w then [xs, [c]] else [xs @ [c]])"
      using True 1(2) by (subst wrap.simps) (auto simp: wrap.simps [of w "[c]"])
    ultimately show ?thesis by simp
  next
    case False
    then have e: "wrap w xs = take w xs # wrap w (drop w xs)" "wrap w (xs @ [c]) = take w xs # wrap w (drop w xs @ [c])"
      using 1(2) by (subst wrap.simps, simp)+
    show ?thesis unfolding e using 1 False by simp
  qed
qed

lemma wrap_last_le: "0 < w \<Longrightarrow> length (last (wrap w xs)) \<le> w"
proof (induction w xs rule: wrap.induct)
  case (1 w xs)
  then show ?case by (subst wrap.simps) auto
qed

lemma split_ne [simp]: "split_lines t \<noteq> []"
  by (cases t) auto

lemma split_snoc: "split_lines (t @ [c]) =
    (if c = 10 then split_lines t @ [[]] else butlast (split_lines t) @ [last (split_lines t) @ [c]])"
proof (induction t)
  case (Cons a t)
  then show ?case by (cases "split_lines t") auto
qed simp

lemma text_lines_Nil: "text_lines w [] = [[]]"
  by (simp add: text_lines_def wrap.simps)

lemma text_lines_ne [simp]: "text_lines w t \<noteq> []"
  by (simp add: text_lines_def)

lemma text_lines_decomp: "text_lines w t = concat (map (wrap w) (butlast (split_lines t))) @ wrap w (last (split_lines t))"
  unfolding text_lines_def by (subst append_butlast_last_id [OF split_ne, of t, symmetric], subst map_append) simp

lemma text_lines_last: "0 < w \<Longrightarrow> length (last (text_lines w t)) \<le> w"
  by (simp add: text_lines_decomp wrap_last_le)

lemma text_lines_snoc:
  assumes "0 < w"
  shows "text_lines w (t @ [c]) =
    (if c = 10 then text_lines w t @ [[]]
     else if length (last (text_lines w t)) = w then text_lines w t @ [[c]]
     else butlast (text_lines w t) @ [last (text_lines w t) @ [c]])"
proof (cases "c = 10")
  case True
  then show ?thesis by (simp add: text_lines_def split_snoc wrap.simps)
next
  case False
  then have "text_lines w (t @ [c]) = concat (map (wrap w) (butlast (split_lines t))) @ wrap w (last (split_lines t) @ [c])"
    by (simp add: text_lines_def split_snoc)
  then show ?thesis using False by (auto simp: wrap_snoc [OF assms] text_lines_decomp [of w t] butlast_append)
qed

subsection \<open>Steps of a console\<close>

lemma pad_Nil: "pad_line w [] = replicate w 32"
  by (simp add: pad_line_def)

lemma pad_update:
  assumes "length l < w"
  shows "(pad_line w l)[length l := c] = pad_line w (l @ [c])"
proof -
  have "replicate (w - length l) (32 :: u8) = 32 # replicate (w - length l - 1) 32" using assms by (cases "w - length l") auto
  then show ?thesis by (simp add: pad_line_def)
qed

lemma show_newline:
  assumes "0 < h" "ls \<noteq> []"
  shows "console_newline w (show_lines w h ls) = show_lines w h (ls @ [[]])"
proof (cases "length ls < h")
  case True
  have r: "replicate (h - length ls) (replicate w (32 :: u8)) = pad_line w [] # replicate (h - Suc (length ls)) (replicate w 32)"
    using True by (cases "h - length ls") (auto simp: pad_Nil)
  have "0 < length ls" using assms by simp
  then show ?thesis using True r by (auto simp: console_newline_def show_lines_def)
next
  case False
  have "drop (length ls - h) ls \<noteq> []" using False assms by simp
  moreover have "tl (drop (length ls - h) ls) = drop (Suc (length ls) - h) ls" using False by (simp add: drop_Suc tl_drop Suc_diff_le)
  ultimately show ?thesis using False assms by (simp add: console_newline_def show_lines_def map_tl [symmetric] pad_Nil tl_append2)
qed

lemma show_char:
  assumes "0 < h" "ls \<noteq> []" "length (last ls) < w" "c \<noteq> 10" "c \<noteq> 13"
  shows "console_step w c (show_lines w h ls) = show_lines w h (butlast ls @ [last ls @ [c]])"
proof -
  define fs where "fs = butlast ls"
  define l where "l = last ls"
  have ls: "ls = fs @ [l]" using assms(2) by (simp add: fs_def l_def)
  have d: "drop (Suc 0 - h) [x] = [x]" for x :: "u8 list" using assms(1) by (cases h) simp_all
  have n: "length (drop (Suc (length fs) - h) fs) = min (Suc (length fs)) h - 1" using assms(1) by auto
  have u: "(map (pad_line w) (drop (Suc (length fs) - h) fs) @ pad_line w l # t) [min (Suc (length fs)) h - 1 := pad_line w (l @ [c])] =
      map (pad_line w) (drop (Suc (length fs) - h) fs) @ pad_line w (l @ [c]) # t"
      "(map (pad_line w) (drop (Suc (length fs) - h) fs) @ pad_line w l # t) ! (min (Suc (length fs)) h - 1) = pad_line w l" for t
    unfolding n [symmetric] by (simp_all add: list_update_append nth_append)
  show ?thesis using assms(3-5) u by (simp add: ls console_step_def show_lines_def d pad_update)
qed

lemma step_shows:
  assumes "0 < w" "0 < h" "c \<noteq> 13"
  shows "console_step w c (show_lines w h (text_lines w t)) = show_lines w h (text_lines w (t @ [c]))"
proof -
  let ?ls = "text_lines w t"
  note n = show_newline [OF assms(2) text_lines_ne [of w t], of w]
  show ?thesis
  proof (cases "c = 10")
    case True
    then show ?thesis using n by (simp add: console_step_def text_lines_snoc [OF assms(1)])
  next
    case c: False
    show ?thesis
    proof (cases "length (last ?ls) = w")
      case True
      have "console_step w c (show_lines w h ?ls) = console_step w c (show_lines w h (?ls @ [[]]))"
        using c assms True by (simp add: console_step_def n [symmetric]) (simp add: show_lines_def console_newline_def)
      also have "\<dots> = show_lines w h (?ls @ [[c]])" using show_char [of h "?ls @ [[]]" w c] assms c by simp
      finally show ?thesis using c True by (simp add: text_lines_snoc [OF assms(1)])
    next
      case False
      then have "length (last ?ls) < w" using text_lines_last [OF assms(1), of t] by simp
      from show_char [OF assms(2) text_lines_ne this c assms(3)] show ?thesis using c False by (simp add: text_lines_snoc [OF assms(1)])
    qed
  qed
qed

primrec run_list :: "('s \<Rightarrow> 'c \<Rightarrow> 's \<Rightarrow> bool) \<Rightarrow> 's \<Rightarrow> 'c list \<Rightarrow> 's \<Rightarrow> bool" where
  "run_list runs s [] s' \<longleftrightarrow> s' = s"
| "run_list runs s (c # cs) s' \<longleftrightarrow> (\<exists>t. runs s c t \<and> run_list runs t cs s')"

locale text_console =
  fixes runs :: "'s \<Rightarrow> u8 \<Rightarrow> 's \<Rightarrow> bool"
    and ok :: "'s \<Rightarrow> bool"
    and width :: "'s \<Rightarrow> nat"
    and view :: "'s \<Rightarrow> screen"
  assumes step: "ok s \<Longrightarrow> \<exists>s'. runs s c s' \<and> ok s' \<and> width s' = width s \<and> view s' = console_step (width s) c (view s)"
begin

lemma shows_text:
  assumes "ok s" and "0 < width s" and "0 < h" and "13 \<notin> set cs" and "view s = show_lines (width s) h (text_lines (width s) t)"
  shows "\<exists>s'. run_list runs s cs s' \<and> ok s' \<and> width s' = width s \<and> view s' = show_lines (width s) h (text_lines (width s) (t @ cs))"
  using assms
proof (induction cs arbitrary: s t)
  case (Cons c cs)
  obtain s1 where 1: "runs s c s1" "ok s1" "width s1 = width s" "view s1 = console_step (width s) c (view s)" using step [OF Cons.prems(1)] by blast
  have "view s1 = show_lines (width s1) h (text_lines (width s1) (t @ [c]))"
    using 1 Cons.prems step_shows [of "width s" h c t] by simp
  from Cons.IH [OF 1(2) _ Cons.prems(3) _ this] 1 Cons.prems show ?case by auto
qed simp

end

subsection \<open>Cells\<close>

lemma update_cells_ok:
  assumes "at + n \<le> length cs"
  shows "\<exists>cs'. update_cells f at n cs = Inr cs' \<and> length cs' = length cs \<and>
    (\<forall>k < length cs. cs' ! k = (if at \<le> k \<and> k < at + n then f (cs ! k) else cs ! k))"
  unfolding update_cells_def
proof (rule fold_res_range [where P = "\<lambda>i cs'. length cs' = length cs \<and> (\<forall>k < length cs. cs' ! k = (if at \<le> k \<and> k < at + i then f (cs ! k) else cs ! k))"])
  fix i cs'
  assume "i < n" "length cs' = length cs \<and> (\<forall>k < length cs. cs' ! k = (if at \<le> k \<and> k < at + i then f (cs ! k) else cs ! k))"
  then show "\<exists>s'. bind_res (load cs' (at + i)) (\<lambda>x. store cs' (at + i) (f x)) = Inr s' \<and> length s' = length cs \<and>
      (\<forall>k < length cs. s' ! k = (if at \<le> k \<and> k < at + Suc i then f (cs ! k) else cs ! k))"
    using assms by (auto simp: nth_list_update)
qed auto

lemma copy_cells_ok:
  assumes "src + n \<le> length cs" "dest + n \<le> length cs"
  shows "\<exists>cs'. copy_cells cs dest src n = Inr cs' \<and> length cs' = length cs \<and>
    (\<forall>k < length cs. cs' ! k = (if dest \<le> k \<and> k < dest + n then cs ! (src + (k - dest)) else cs ! k))"
  unfolding copy_cells_def
proof (rule fold_res_range [where P = "\<lambda>i cs'. length cs' = length cs \<and> (\<forall>k < length cs. cs' ! k = (if dest \<le> k \<and> k < dest + i then cs ! (src + (k - dest)) else cs ! k))"])
  fix i cs'
  assume "i < n" "length cs' = length cs \<and> (\<forall>k < length cs. cs' ! k = (if dest \<le> k \<and> k < dest + i then cs ! (src + (k - dest)) else cs ! k))"
  then show "\<exists>s'. bind_res (load cs (src + i)) (\<lambda>x. store cs' (dest + i) x) = Inr s' \<and> length s' = length cs \<and>
      (\<forall>k < length cs. s' ! k = (if dest \<le> k \<and> k < dest + Suc i then cs ! (src + (k - dest)) else cs ! k))"
    using assms by (auto simp: nth_list_update)
qed auto

text \<open>A list of cells as a grid.\<close>

definition grid :: "('a \<Rightarrow> u8) \<Rightarrow> nat \<Rightarrow> nat \<Rightarrow> 'a list \<Rightarrow> u8 list list" where
  "grid f h w cs = map (\<lambda>r. map (\<lambda>c. f (cs ! (r * w + c))) [0..<w]) [0..<h]"

lemma grid_eqI:
  assumes "\<And>r c. r < h \<Longrightarrow> c < w \<Longrightarrow> f (cs ! (r * w + c)) = g ! r ! c" and "length g = h" and "\<And>r. r < h \<Longrightarrow> length (g ! r) = w"
  shows "grid f h w cs = g"
  using assms by (auto simp: grid_def intro!: nth_equalityI)

lemma length_grid [simp]: "length (grid f h w cs) = h"
  by (simp add: grid_def)

lemma grid_nth: "r < h \<Longrightarrow> c < w \<Longrightarrow> grid f h w cs ! r ! c = f (cs ! (r * w + c))"
  by (simp add: grid_def)

lemma length_grid_row [simp]: "r < h \<Longrightarrow> length (grid f h w cs ! r) = w"
  by (simp add: grid_def)

lemma cell_index: "r < h \<Longrightarrow> c < w \<Longrightarrow> r * w + c < h * w" for r h c w :: nat
  by (metis add_less_mono1 add_mult_distrib less_le_trans mult_1 mult_le_mono1 nat_add_left_cancel_less Suc_leI Suc_eq_plus1)

lemma cell_index_eq:
  fixes r r' c c' w :: nat
  assumes "c < w" "c' < w"
  shows "r * w + c = r' * w + c' \<longleftrightarrow> r = r' \<and> c = c'"
  by (metis assms div_mult_self1_is_m mod_less mod_mult_self3 add.commute add_right_cancel div_mult_self3 div_less add_0_right gr_implies_not0)

lemma cell_in_row:
  fixes r r' c w :: nat
  assumes "c < w"
  shows "r' * w \<le> r * w + c \<and> r * w + c < r' * w + w \<longleftrightarrow> r = r'"
  using div_eq_range [of w "r * w + c" r'] assms by (auto simp: add.commute)

lemma grid_scrolled:
  assumes "0 < h" and "\<And>r c. r + 1 < h \<Longrightarrow> c < w \<Longrightarrow> f (cs' ! (r * w + c)) = f (cs ! ((r + 1) * w + c))"
    and "\<And>c. c < w \<Longrightarrow> f (cs' ! ((h - 1) * w + c)) = 32"
  shows "grid f h w cs' = tl (grid f h w cs) @ [replicate w 32]"
proof (rule grid_eqI)
  fix r c
  assume r: "r < h" "c < w"
  show "f (cs' ! (r * w + c)) = (tl (grid f h w cs) @ [replicate w 32]) ! r ! c"
  proof (cases "r + 1 < h")
    case True
    then have "r < h - 1" by simp
    then show ?thesis using r True assms(2) by (simp add: nth_append nth_tl grid_nth)
  next
    case False
    then have "r = h - 1" using r by simp
    then show ?thesis using r assms(1,3) by (simp add: nth_append)
  qed
next
  fix r
  assume "r < h"
  then show "length ((tl (grid f h w cs) @ [replicate w 32]) ! r) = w" by (cases "r = h - 1") (auto simp: nth_append nth_tl)
qed (use assms in simp)

lemma grid_updated:
  assumes "r0 < h" "c0 < w" and "\<And>r c. r < h \<Longrightarrow> c < w \<Longrightarrow> f (cs' ! (r * w + c)) = (if r = r0 \<and> c = c0 then x else f (cs ! (r * w + c)))"
  shows "grid f h w cs' = (grid f h w cs)[r0 := (grid f h w cs ! r0)[c0 := x]]"
  using assms by (intro grid_eqI) (auto simp: nth_list_update grid_nth)

subsection \<open>The terminal\<close>

definition tty_shape :: "'d vt100tty \<Rightarrow> bool" where
  "tty_shape self \<longleftrightarrow> 0 < columns self \<and> 0 < rows self \<and> nat (rows self) * nat (columns self) \<le> length (chars self) \<and>
     nat (rows self) \<le> length (lineinfos self)"

definition tty_view :: "'d vt100tty \<Rightarrow> screen" where
  "tty_view self = (grid chr (nat (rows self)) (nat (columns self)) (chars self), nat (currentrow self), nat (currentcolumn self))"

text \<open>Cells that are not marked are shown by the device; scrolling the device moves what it shows up by one row.\<close>

definition tty_clean :: "('d \<Rightarrow> nat \<Rightarrow> nat \<Rightarrow> u8) \<Rightarrow> 'd vt100tty \<Rightarrow> bool" where
  "tty_clean shown self \<longleftrightarrow> (\<forall>r < nat (rows self). \<forall>c < nat (columns self).
     \<not> need_supdate (chars self ! (r * nat (columns self) + c)) \<longrightarrow> shown (tdata self) r c = chr (chars self ! (r * nat (columns self) + c)))"

definition device_scrolls :: "'d vt100tty_ops \<Rightarrow> ('d \<Rightarrow> nat \<Rightarrow> nat \<Rightarrow> u8) \<Rightarrow> nat \<Rightarrow> nat \<Rightarrow> bool" where
  "device_scrolls ops shown h w \<longleftrightarrow> (case scroll ops of None \<Rightarrow> True
     | Some f \<Rightarrow> \<forall>d r c. r + 1 < h \<longrightarrow> c < w \<longrightarrow> shown (f 1 d) r c = shown d (r + 1) c)"

lemma char_at_ok:
  assumes "0 \<le> r" "r < rows self" "0 \<le> c" "c < columns self"
  shows "char_at self r c = Inr (nat r * nat (columns self) + nat c)"
  using assms by (simp add: char_at_def nat_add_distrib nat_mult_distrib)

lemma update_line_ok:
  assumes "nat (rows self) \<le> length (lineinfos self)" "0 \<le> r" "r < rows self"
  shows "\<exists>ls. update_line f r self = Inr (self\<lparr>lineinfos := ls\<rparr>) \<and> length ls = length (lineinfos self)"
  using assms by (auto simp: update_line_def)

lemma row_fits: "k < h \<Longrightarrow> k * w + w \<le> h * w" for k h w :: nat
  by (metis Suc_leI add.commute mult_Suc mult_le_mono1)

lemma move_line_ok:
  fixes self :: "'d vt100tty"
  defines "w \<equiv> nat (columns self)"
  assumes shape: "tty_shape self" and k: "1 \<le> k" "k < nat (rows self)"
  shows "\<exists>cs ls. move_line has k self = Inr (self\<lparr>chars := cs, lineinfos := ls\<rparr>) \<and> length cs = length (chars self) \<and> length ls = length (lineinfos self) \<and>
    (\<forall>i < length (chars self).
      if (k - 1) * w \<le> i \<and> i < k * w
      then chr (cs ! i) = chr (chars self ! (i + w)) \<and> (need_supdate (cs ! i) \<longleftrightarrow> \<not> has \<or> need_supdate (chars self ! (i + w)))
      else chr (cs ! i) = chr (chars self ! i) \<and> (need_supdate (chars self ! i) \<longrightarrow> need_supdate (cs ! i)) \<and> (has \<longrightarrow> need_supdate (cs ! i) = need_supdate (chars self ! i)))"
proof -
  have kw: "(k - 1) * w + w = k * w" using k by (cases k) simp_all
  have fit: "k * w + w \<le> length (chars self)" using row_fits [OF k(2), of w] shape by (simp add: tty_shape_def w_def)
  have at: "char_at self (int k - 1) 0 = Inr ((k - 1) * w)" "char_at self (int k) 0 = Inr (k * w)"
    using k shape by (subst char_at_ok; simp add: tty_shape_def w_def nat_diff_distrib)+
  obtain cs1 where 1: "copy_cells (chars self) ((k - 1) * w) (k * w) w = Inr cs1" "length cs1 = length (chars self)"
      "\<forall>i < length (chars self). cs1 ! i = (if (k - 1) * w \<le> i \<and> i < k * w then chars self ! (k * w + (i - (k - 1) * w)) else chars self ! i)"
    using copy_cells_ok [of "k * w" w "chars self" "(k - 1) * w"] fit kw by auto
  obtain cs2 where 2: "update_cells mark ((k - 1) * w) w cs1 = Inr cs2" "length cs2 = length cs1"
      "\<forall>i < length cs1. cs2 ! i = (if (k - 1) * w \<le> i \<and> i < k * w then mark (cs1 ! i) else cs1 ! i)"
    using update_cells_ok [of "(k - 1) * w" w cs1 mark] fit kw 1(2) by auto
  obtain cs3 where 3: "update_cells mark (k * w) w cs2 = Inr cs3" "length cs3 = length cs2"
      "\<forall>i < length cs2. cs3 ! i = (if k * w \<le> i \<and> i < k * w + w then mark (cs2 ! i) else cs2 ! i)"
    using update_cells_ok [of "k * w" w cs2 mark] fit 1(2) 2(2) by auto
  define cs where "cs = (if has then cs1 else cs3)"
  have e: "bind_res (if has then Inr cs1 else bind_res (update_cells mark ((k - 1) * w) w cs1) (update_cells mark (k * w) w)) g = g cs" for g :: "_ \<Rightarrow> 'd vt100tty res"
    using 2(1) 3(1) by (simp add: cs_def)
  have l: "k < length (lineinfos self)" using shape k by (simp add: tty_shape_def)
  obtain ls where ls: "update_line (\<lambda>d. d\<lparr>is_continuation := is_continuation (lineinfos self ! k), line_need_supdate := line_need_supdate d \<or> \<not> has\<rparr>) (int k - 1)
      (self\<lparr>chars := cs\<rparr>) = Inr (self\<lparr>chars := cs, lineinfos := ls\<rparr>)" "length ls = length (lineinfos self)"
  proof -
    have "int k - 1 < rows self" using k by linarith
    then show ?thesis using that update_line_ok [of "self\<lparr>chars := cs\<rparr>" "int k - 1"] shape k by (force simp: tty_shape_def)
  qed
  have m: "move_line has k self = Inr (self\<lparr>chars := cs, lineinfos := ls\<rparr>)"
    unfolding move_line_def Let_def w_def [symmetric] at 1(1) bind_res_Inr e load_in [OF l] by (rule ls(1))
  have x: "k * w + (i - (k - 1) * w) = i + w" if "(k - 1) * w \<le> i" for i using that kw by simp
  have "\<forall>i < length (chars self).
      if (k - 1) * w \<le> i \<and> i < k * w
      then chr (cs ! i) = chr (chars self ! (i + w)) \<and> (need_supdate (cs ! i) \<longleftrightarrow> \<not> has \<or> need_supdate (chars self ! (i + w)))
      else chr (cs ! i) = chr (chars self ! i) \<and> (need_supdate (chars self ! i) \<longrightarrow> need_supdate (cs ! i)) \<and> (has \<longrightarrow> need_supdate (cs ! i) = need_supdate (chars self ! i))"
    using 1(2,3) 2(2,3) 3(2,3) x by (auto simp: cs_def mark_def)
  then show ?thesis using m ls(2) 1(2) 2(2) 3(2) by (intro exI [of _ cs] exI [of _ ls]) (auto simp: cs_def)
qed

lemma move_lines_ok:
  fixes self :: "'d vt100tty"
  defines "w \<equiv> nat (columns self)" and "h \<equiv> nat (rows self)"
  assumes shape: "tty_shape self"
  shows "\<exists>cs ls. fold_res (move_line has) [1..<h] self = Inr (self\<lparr>chars := cs, lineinfos := ls\<rparr>) \<and> length cs = length (chars self) \<and> length ls = length (lineinfos self) \<and>
    (\<forall>i. i < (h - 1) * w \<longrightarrow> chr (cs ! i) = chr (chars self ! (i + w)) \<and> (need_supdate (cs ! i) \<longleftrightarrow> \<not> has \<or> need_supdate (chars self ! (i + w))))"
proof -
  let ?P = "\<lambda>k self'. \<exists>cs ls. self' = self\<lparr>chars := cs, lineinfos := ls\<rparr> \<and> length cs = length (chars self) \<and> length ls = length (lineinfos self) \<and>
    (\<forall>i < length (chars self). if i < (k - 1) * w
      then chr (cs ! i) = chr (chars self ! (i + w)) \<and> (need_supdate (cs ! i) \<longleftrightarrow> \<not> has \<or> need_supdate (chars self ! (i + w)))
      else chr (cs ! i) = chr (chars self ! i) \<and> (has \<longrightarrow> need_supdate (cs ! i) = need_supdate (chars self ! i)))"
  have "\<exists>self'. fold_res (move_line has) [1..<h] self = Inr self' \<and> ?P h self'"
  proof (rule fold_res_range)
    show "1 \<le> h" using shape unfolding tty_shape_def h_def by linarith
    show "?P 1 self" by (intro exI [of _ "chars self"] exI [of _ "lineinfos self"]) simp
  next
    fix k and self' :: "'d vt100tty"
    assume k: "1 \<le> k" "k < h" and "?P k self'"
    then obtain cs ls where s: "self' = self\<lparr>chars := cs, lineinfos := ls\<rparr>" "length cs = length (chars self)" "length ls = length (lineinfos self)"
      and c: "\<And>i. i < length (chars self) \<Longrightarrow> if i < (k - 1) * w
        then chr (cs ! i) = chr (chars self ! (i + w)) \<and> (need_supdate (cs ! i) \<longleftrightarrow> \<not> has \<or> need_supdate (chars self ! (i + w)))
        else chr (cs ! i) = chr (chars self ! i) \<and> (has \<longrightarrow> need_supdate (cs ! i) = need_supdate (chars self ! i))" by blast
    have "tty_shape self'" "k < nat (rows self')" using shape k s by (simp_all add: tty_shape_def h_def)
    from move_line_ok [OF this(1) k(1) this(2), of has]
    obtain cs' ls' where s': "move_line has k self' = Inr (self\<lparr>chars := cs', lineinfos := ls'\<rparr>)" "length cs' = length (chars self)" "length ls' = length (lineinfos self)"
      and c': "\<And>i. i < length (chars self) \<Longrightarrow>
        if (k - 1) * w \<le> i \<and> i < k * w
        then chr (cs' ! i) = chr (cs ! (i + w)) \<and> (need_supdate (cs' ! i) \<longleftrightarrow> \<not> has \<or> need_supdate (cs ! (i + w)))
        else chr (cs' ! i) = chr (cs ! i) \<and> (need_supdate (cs ! i) \<longrightarrow> need_supdate (cs' ! i)) \<and> (has \<longrightarrow> need_supdate (cs' ! i) = need_supdate (cs ! i))"
      using s by (auto simp: w_def)
    have fit: "k * w + w \<le> length (chars self)" using row_fits [of k h w] k shape by (simp add: tty_shape_def w_def h_def)
    have kw: "(k - 1) * w \<le> k * w" by simp
    have "if i < (Suc k - 1) * w
      then chr (cs' ! i) = chr (chars self ! (i + w)) \<and> (need_supdate (cs' ! i) \<longleftrightarrow> \<not> has \<or> need_supdate (chars self ! (i + w)))
      else chr (cs' ! i) = chr (chars self ! i) \<and> (has \<longrightarrow> need_supdate (cs' ! i) = need_supdate (chars self ! i))" if i: "i < length (chars self)" for i
    proof (cases "(k - 1) * w \<le> i \<and> i < k * w")
      case True
      then have "i + w < length (chars self)" "\<not> i + w < (k - 1) * w" using fit by linarith+
      then show ?thesis using c' [OF i] c [of "i + w"] True by auto
    next
      case False
      then consider "i < (k - 1) * w" "i < k * w" | "k * w \<le> i" "\<not> i < (k - 1) * w" using kw by linarith
      then show ?thesis using c' [OF i] c [OF i] False by cases auto
    qed
    then show "\<exists>s'. move_line has k self' = Inr s' \<and> ?P (Suc k) s'" using s' by blast
  qed
  then obtain cs ls where r: "fold_res (move_line has) [1..<h] self = Inr (self\<lparr>chars := cs, lineinfos := ls\<rparr>)" "length cs = length (chars self)" "length ls = length (lineinfos self)"
    and c: "\<And>i. i < length (chars self) \<Longrightarrow> if i < (h - 1) * w
      then chr (cs ! i) = chr (chars self ! (i + w)) \<and> (need_supdate (cs ! i) \<longleftrightarrow> \<not> has \<or> need_supdate (chars self ! (i + w)))
      else chr (cs ! i) = chr (chars self ! i) \<and> (has \<longrightarrow> need_supdate (cs ! i) = need_supdate (chars self ! i))" by blast
  moreover have "(h - 1) * w \<le> h * w" by simp
  then have "i < (h - 1) * w \<Longrightarrow> i < length (chars self)" for i using shape unfolding tty_shape_def w_def h_def by linarith
  ultimately have "\<forall>i. i < (h - 1) * w \<longrightarrow> chr (cs ! i) = chr (chars self ! (i + w)) \<and> (need_supdate (cs ! i) \<longleftrightarrow> \<not> has \<or> need_supdate (chars self ! (i + w)))"
    by presburger
  with r show ?thesis by blast
qed

lemma scroll_once:
  fixes self :: "'d vt100tty"
  assumes shape: "tty_shape self" and row: "currentrow self = rows self"
  shows "\<exists>self'. scroll_loop ops self = Inr self' \<and> tty_shape self' \<and> rows self' = rows self \<and> columns self' = columns self \<and>
    currentrow self' = rows self - 1 \<and> currentcolumn self' = currentcolumn self \<and>
    grid chr (nat (rows self)) (nat (columns self)) (chars self') = tl (grid chr (nat (rows self)) (nat (columns self)) (chars self)) @ [replicate (nat (columns self)) 32] \<and>
    (device_scrolls ops shown (nat (rows self)) (nat (columns self)) \<longrightarrow> tty_clean shown self \<longrightarrow> tty_clean shown self')"
proof -
  define w where "w = nat (columns self)"
  define h where "h = nat (rows self)"
  define has where "has \<longleftrightarrow> scroll ops \<noteq> None"
  have hw: "0 < h" "0 < w" "h * w \<le> length (chars self)" "int h = rows self" "int w = columns self"
    using shape by (auto simp: tty_shape_def h_def w_def)
  have hw1: "(h - 1) * w + w = h * w" using hw(1) by (cases h) simp_all
  obtain cs ls where 1: "fold_res (move_line has) [1..<h] self = Inr (self\<lparr>chars := cs, lineinfos := ls\<rparr>)" "length cs = length (chars self)" "length ls = length (lineinfos self)"
      "\<And>i. i < (h - 1) * w \<Longrightarrow> chr (cs ! i) = chr (chars self ! (i + w)) \<and> (need_supdate (cs ! i) \<longleftrightarrow> \<not> has \<or> need_supdate (chars self ! (i + w)))"
    using move_lines_ok [OF shape, of has] unfolding w_def h_def by blast
  define s1 where "s1 = scroll_device ops (self\<lparr>chars := cs, lineinfos := ls, currentrow := rows self - 1\<rparr>)"
  have s1: "rows s1 = rows self" "columns s1 = columns self" "currentrow s1 = rows self - 1" "currentcolumn s1 = currentcolumn self" "chars s1 = cs" "lineinfos s1 = ls"
    by (simp_all add: s1_def)
  have at: "char_at s1 (currentrow s1) 0 = Inr ((h - 1) * w)"
    using hw by (subst char_at_ok) (auto simp: s1 w_def h_def nat_diff_distrib)
  obtain cs' where 2: "update_cells (put_chr 32) ((h - 1) * w) w cs = Inr cs'" "length cs' = length cs"
      "\<And>i. i < length cs \<Longrightarrow> cs' ! i = (if (h - 1) * w \<le> i \<and> i < h * w then put_chr 32 (cs ! i) else cs ! i)"
    using update_cells_ok [of "(h - 1) * w" w cs "put_chr 32"] hw hw1 1(2) by auto
  obtain ls' where 3: "update_line (\<lambda>l. l\<lparr>line_need_supdate := True\<rparr>) (currentrow s1) (s1\<lparr>chars := cs'\<rparr>) = Inr (s1\<lparr>chars := cs', lineinfos := ls'\<rparr>)" "length ls' = length ls"
    using update_line_ok [of "s1\<lparr>chars := cs'\<rparr>" "currentrow s1"] hw s1 1(3) shape by (force simp: tty_shape_def)
  let ?s = "s1\<lparr>chars := cs', lineinfos := ls'\<rparr>"
  have b: "blank_row s1 = Inr ?s" unfolding blank_row_def using at 2(1) 3(1) s1 by (simp add: w_def)
  have "scroll_loop ops self = bind_res (blank_row s1) (scroll_loop ops)"
    using row 1(1) by (subst scroll_loop.simps) (simp add: has_def h_def s1_def)
  also have "\<dots> = Inr ?s" using b s1 by (simp add: scroll_loop.simps [of ops ?s])
  finally have loop: "scroll_loop ops self = Inr ?s" .
  have up: "chr (cs' ! (r * w + c)) = chr (chars self ! ((r + 1) * w + c)) \<and> (need_supdate (cs' ! (r * w + c)) \<longleftrightarrow> \<not> has \<or> need_supdate (chars self ! ((r + 1) * w + c)))"
    if "r + 1 < h" "c < w" for r c
  proof -
    have i: "r * w + c < (h - 1) * w" using cell_index [of r "h - 1" c w] that by simp
    then have "r * w + c < length cs" using hw 1(2) hw1 by linarith
    then show ?thesis using 1(4) [OF i] 2(3) [of "r * w + c"] i by (simp add: algebra_simps)
  qed
  have low: "chr (cs' ! ((h - 1) * w + c)) = 32 \<and> need_supdate (cs' ! ((h - 1) * w + c))" if "c < w" for c
    using 2(3) [of "(h - 1) * w + c"] that hw hw1 1(2) by (simp add: put_chr_def)
  have g: "grid chr h w cs' = tl (grid chr h w (chars self)) @ [replicate w 32]"
    using up low by (intro grid_scrolled [OF hw(1)]) auto
  have "tty_clean shown ?s" if d: "device_scrolls ops shown h w" and c: "tty_clean shown self"
  proof -
    have "shown (tdata ?s) r c = chr (cs' ! (r * w + c))" if rc: "r < h" "c < w" and n: "\<not> need_supdate (cs' ! (r * w + c))" for r c
    proof -
      have "r + 1 < h" using low [OF rc(2)] n rc(1) by (cases "r = h - 1") auto
      note u = up [OF this rc(2)]
      then obtain f where f: "scroll ops = Some f" using n by (auto simp: has_def)
      then have "shown (tdata ?s) r c = shown (tdata self) (r + 1) c" using d \<open>r + 1 < h\<close> rc(2) by (simp add: s1_def scroll_device_def device_scrolls_def)
      also have "\<dots> = chr (chars self ! ((r + 1) * w + c))" using c n u \<open>r + 1 < h\<close> rc(2) by (simp add: tty_clean_def h_def w_def)
      finally show ?thesis using u by simp
    qed
    then show ?thesis by (simp add: tty_clean_def s1 h_def w_def)
  qed
  moreover have "tty_shape ?s" using shape s1 1 2 3 by (simp add: tty_shape_def)
  ultimately show ?thesis using loop s1 g by (auto simp: h_def w_def)
qed

lemma advanceline_ok:
  assumes shape: "tty_shape self" and row: "0 \<le> currentrow self" "currentrow self < rows self"
  shows "\<exists>self'. advanceline ops self b = Inr self' \<and> tty_shape self' \<and> rows self' = rows self \<and> columns self' = columns self \<and>
    0 \<le> currentrow self' \<and> currentrow self' < rows self \<and> currentcolumn self' = 0 \<and> tty_view self' = console_newline (nat (columns self)) (tty_view self) \<and>
    (device_scrolls ops shown (nat (rows self)) (nat (columns self)) \<longrightarrow> tty_clean shown self \<longrightarrow> tty_clean shown self')"
proof -
  let ?s = "self\<lparr>currentcolumn := 0, currentrow := currentrow self + 1\<rparr>"
  have s: "tty_shape ?s" "tty_clean shown ?s \<longleftrightarrow> tty_clean shown self" using shape by (simp_all add: tty_shape_def tty_clean_def)
  obtain s1 where 1: "scroll_loop ops ?s = Inr s1" "tty_shape s1" "rows s1 = rows self" "columns s1 = columns self" "currentcolumn s1 = 0" "0 \<le> currentrow s1" "currentrow s1 < rows self"
    and v: "tty_view s1 = console_newline (nat (columns self)) (tty_view self)"
    and c: "device_scrolls ops shown (nat (rows self)) (nat (columns self)) \<longrightarrow> tty_clean shown self \<longrightarrow> tty_clean shown s1"
  proof (cases "currentrow self + 1 < rows self")
    case True
    then have "scroll_loop ops ?s = Inr ?s" by (simp add: scroll_loop.simps)
    moreover have "tty_view ?s = console_newline (nat (columns self)) (tty_view self)"
      using True row by (simp add: tty_view_def console_newline_def nat_add_distrib)
    ultimately show ?thesis using that [of ?s] s True row by simp
  next
    case False
    then have e: "currentrow self + 1 = rows self" using row by simp
    then obtain s1 where s1: "scroll_loop ops ?s = Inr s1" "tty_shape s1" "rows s1 = rows self" "columns s1 = columns self" "currentrow s1 = rows self - 1" "currentcolumn s1 = 0"
        "grid chr (nat (rows self)) (nat (columns self)) (chars s1) = tl (grid chr (nat (rows self)) (nat (columns self)) (chars self)) @ [replicate (nat (columns self)) 32]"
        "device_scrolls ops shown (nat (rows self)) (nat (columns self)) \<longrightarrow> tty_clean shown ?s \<longrightarrow> tty_clean shown s1"
      using scroll_once [OF s(1), of ops shown] by auto
    have n: "\<not> nat (currentrow self) + 1 < nat (rows self)" "rows self - 1 = currentrow self" using e row by linarith+
    then have "tty_view s1 = console_newline (nat (columns self)) (tty_view self)"
      using s1 by (simp add: tty_view_def console_newline_def)
    then show ?thesis using that [of s1] s1 s(2) row n(2) by simp
  qed
  obtain l1 where 2: "update_line (\<lambda>l. l\<lparr>is_continuation := False\<rparr>) 0 s1 = Inr (s1\<lparr>lineinfos := l1\<rparr>)" "length l1 = length (lineinfos s1)"
    using update_line_ok [of s1 0] 1 by (force simp: tty_shape_def)
  obtain l2 where 3: "update_line (\<lambda>l. l\<lparr>is_continuation := b\<rparr>) (currentrow s1) (s1\<lparr>lineinfos := l1\<rparr>) = Inr (s1\<lparr>lineinfos := l2\<rparr>)" "length l2 = length (lineinfos s1)"
    using update_line_ok [of "s1\<lparr>lineinfos := l1\<rparr>" "currentrow s1"] 1 2(2) by (force simp: tty_shape_def)
  have "advanceline ops self b = Inr (s1\<lparr>lineinfos := l2\<rparr>)" using 1(1) 2(1) 3(1) by (simp add: advanceline_def)
  moreover have "tty_shape (s1\<lparr>lineinfos := l2\<rparr>)" "tty_view (s1\<lparr>lineinfos := l2\<rparr>) = tty_view s1" "tty_clean shown (s1\<lparr>lineinfos := l2\<rparr>) = tty_clean shown s1"
    using 1(2) 3(2) by (simp_all add: tty_shape_def tty_view_def tty_clean_def)
  ultimately show ?thesis using 1 v c by (intro exI [of _ "s1\<lparr>lineinfos := l2\<rparr>"]) simp
qed

definition tty_ok :: "'d vt100tty \<Rightarrow> bool" where
  "tty_ok self \<longleftrightarrow> tty_shape self \<and> 0 \<le> currentrow self \<and> currentrow self < rows self \<and> 0 \<le> currentcolumn self \<and> currentcolumn self \<le> columns self"

definition tty_sound :: "'d vt100tty_ops \<Rightarrow> ('d \<Rightarrow> nat \<Rightarrow> nat \<Rightarrow> u8) \<Rightarrow> 'd vt100tty \<Rightarrow> bool" where
  "tty_sound ops shown self \<longleftrightarrow> tty_ok self \<and> (device_scrolls ops shown (nat (rows self)) (nat (columns self)) \<longrightarrow> tty_clean shown self)"

text \<open>The last part of write_char: a byte goes into the cell at the cursor.\<close>

lemma put_ok:
  fixes self :: "'d vt100tty"
  assumes shape: "tty_shape self" and row: "0 \<le> currentrow self" "currentrow self < rows self" and col: "0 \<le> currentcolumn self" "currentcolumn self < columns self"
  shows "\<exists>self'. bind_res (char_at self (currentrow self) (currentcolumn self)) (\<lambda>dest.
        bind_res (update_cells (put_chr c) dest 1 (chars self)) (\<lambda>cs.
        bind_res (update_line (\<lambda>l. l\<lparr>line_need_supdate := True\<rparr>) (currentrow self) (self\<lparr>chars := cs\<rparr>)) (\<lambda>self.
        Inr (self\<lparr>currentcolumn := currentcolumn self + 1\<rparr>)))) = Inr self' \<and>
    tty_ok self' \<and> rows self' = rows self \<and> columns self' = columns self \<and>
    tty_view self' = (case tty_view self of (g, r, k) \<Rightarrow> (g[r := (g ! r)[k := c]], r, k + 1)) \<and> (tty_clean shown self \<longrightarrow> tty_clean shown self')"
proof -
  define w where "w = nat (columns self)"
  define h where "h = nat (rows self)"
  define r0 where "r0 = nat (currentrow self)"
  define c0 where "c0 = nat (currentcolumn self)"
  have b: "r0 < h" "c0 < w" "h * w \<le> length (chars self)" using assms by (auto simp: w_def h_def r0_def c0_def tty_shape_def)
  have fit: "r0 * w + c0 < length (chars self)" using cell_index [OF b(1,2)] b(3) by simp
  obtain cs where 1: "update_cells (put_chr c) (r0 * w + c0) 1 (chars self) = Inr cs" "length cs = length (chars self)"
      "\<And>i. i < length (chars self) \<Longrightarrow> cs ! i = (if i = r0 * w + c0 then put_chr c (chars self ! i) else chars self ! i)"
    using update_cells_ok [of "r0 * w + c0" 1 "chars self" "put_chr c"] fit by (auto simp: le_less_Suc_eq)
  obtain ls where 2: "update_line (\<lambda>l. l\<lparr>line_need_supdate := True\<rparr>) (currentrow self) (self\<lparr>chars := cs\<rparr>) = Inr (self\<lparr>chars := cs, lineinfos := ls\<rparr>)" "length ls = length (lineinfos self)"
    using update_line_ok [of "self\<lparr>chars := cs\<rparr>" "currentrow self"] assms by (force simp: tty_shape_def)
  let ?s = "self\<lparr>chars := cs, lineinfos := ls, currentcolumn := currentcolumn self + 1\<rparr>"
  have cell: "cs ! (r * w + k) = (if r = r0 \<and> k = c0 then put_chr c (chars self ! (r * w + k)) else chars self ! (r * w + k))" if "r < h" "k < w" for r k
    using 1(3) [of "r * w + k"] cell_index [OF that] b cell_index_eq [of k w c0 r r0] that by simp
  have "grid chr h w cs = (grid chr h w (chars self))[r0 := (grid chr h w (chars self) ! r0)[c0 := c]]"
    using cell by (intro grid_updated [OF b(1,2)]) (simp add: put_chr_def)
  then have "tty_view ?s = (case tty_view self of (g, r, k) \<Rightarrow> (g[r := (g ! r)[k := c]], r, k + 1))"
    using col by (simp add: tty_view_def h_def w_def r0_def c0_def nat_add_distrib)
  moreover have "tty_clean shown self \<longrightarrow> tty_clean shown ?s"
    using cell by (auto simp: tty_clean_def h_def w_def put_chr_def)
  moreover have "tty_ok ?s" using assms 1(2) 2(2) by (simp add: tty_ok_def tty_shape_def)
  ultimately show ?thesis
    using 1(1) 2(1) assms by (simp add: char_at_ok w_def [symmetric] r0_def [symmetric] c0_def [symmetric])
qed

lemma write_char_ok:
  assumes ok: "tty_ok self"
  shows "\<exists>self'. write_char ops self c = Inr self' \<and> tty_ok self' \<and> rows self' = rows self \<and> columns self' = columns self \<and>
    tty_view self' = console_step (nat (columns self)) c (tty_view self) \<and>
    (device_scrolls ops shown (nat (rows self)) (nat (columns self)) \<longrightarrow> tty_clean shown self \<longrightarrow> tty_clean shown self')"
proof -
  have o: "tty_shape self" "0 \<le> currentrow self" "currentrow self < rows self" "0 \<le> currentcolumn self" "currentcolumn self \<le> columns self"
    using ok by (simp_all add: tty_ok_def)
  note adv = advanceline_ok [OF o(1,2,3), of ops _ shown]
  consider "c = 10" | "c = 13" | "c \<noteq> 10" "c \<noteq> 13" by blast
  then show ?thesis
  proof cases
    case 1
    then show ?thesis using adv [of False] by (fastforce simp: write_char_def console_step_def tty_ok_def tty_shape_def)
  next
    case 2
    then show ?thesis using o by (simp add: write_char_def console_step_def tty_ok_def tty_shape_def tty_view_def tty_clean_def)
  next
    case 3
    obtain s1 where 1: "(if columns self \<le> currentcolumn self then advanceline ops self True else Inr self) = Inr s1" "tty_shape s1" "rows s1 = rows self" "columns s1 = columns self"
        "0 \<le> currentrow s1" "currentrow s1 < rows s1" "0 \<le> currentcolumn s1" "currentcolumn s1 < columns s1"
        "tty_view s1 = (if nat (columns self) \<le> snd (snd (tty_view self)) then console_newline (nat (columns self)) (tty_view self) else tty_view self)"
        "device_scrolls ops shown (nat (rows self)) (nat (columns self)) \<longrightarrow> tty_clean shown self \<longrightarrow> tty_clean shown s1"
    proof (cases "columns self \<le> currentcolumn self")
      case True
      then have "nat (columns self) \<le> snd (snd (tty_view self))" by (simp add: tty_view_def)
      then show ?thesis using adv [of True] True o(1) that by (force simp: tty_shape_def)
    next
      case False
      then have "\<not> nat (columns self) \<le> snd (snd (tty_view self))" using o by (simp add: tty_view_def)
      then show ?thesis using that [of self] False o by simp
    qed
    from put_ok [OF 1(2,5-8), of c shown] obtain s2 where
      "bind_res (char_at s1 (currentrow s1) (currentcolumn s1)) (\<lambda>dest.
        bind_res (update_cells (put_chr c) dest 1 (chars s1)) (\<lambda>cs.
        bind_res (update_line (\<lambda>l. l\<lparr>line_need_supdate := True\<rparr>) (currentrow s1) (s1\<lparr>chars := cs\<rparr>)) (\<lambda>self.
        Inr (self\<lparr>currentcolumn := currentcolumn self + 1\<rparr>)))) = Inr s2" "tty_ok s2" "rows s2 = rows s1" "columns s2 = columns s1"
      "tty_view s2 = (case tty_view s1 of (g, r, k) \<Rightarrow> (g[r := (g ! r)[k := c]], r, k + 1))" "tty_clean shown s1 \<longrightarrow> tty_clean shown s2" by blast
    moreover from this(5) have "tty_view s2 = console_step (nat (columns self)) c (tty_view self)" unfolding 1(9) console_step_def using 3 by simp
    ultimately show ?thesis using 1 3 by (intro exI [of _ s2]) (simp add: write_char_def)
  qed
qed

interpretation vt_console: text_console "\<lambda>s c s'. write_char ops s c = Inr s'" "tty_sound ops shown" "\<lambda>s. nat (columns s)" tty_view
proof
  fix s c
  assume "tty_sound ops shown s"
  then show "\<exists>s'. write_char ops s c = Inr s' \<and> tty_sound ops shown s' \<and> nat (columns s') = nat (columns s) \<and>
      tty_view s' = console_step (nat (columns s)) c (tty_view s)"
    using write_char_ok [of s ops c shown] by (auto simp: tty_sound_def)
qed

lemma run_list_fold: "run_list (\<lambda>s c s'. write_char ops s c = Inr s') s cs s' \<longleftrightarrow> fold_res (\<lambda>c self. write_char ops self c) cs s = Inr s'"
  by (induction cs arbitrary: s) (auto simp: bind_res_eq_Inr)

text \<open>A device that shows the marked cells and clears the marks.\<close>

definition device_draws :: "'d vt100tty_ops \<Rightarrow> ('d \<Rightarrow> nat \<Rightarrow> nat \<Rightarrow> u8) \<Rightarrow> bool" where
  "device_draws ops shown \<longleftrightarrow> (\<forall>self cs d. tty_shape self \<longrightarrow> update_screen ops self = (cs, d) \<longrightarrow> length cs = length (chars self) \<and>
     (\<forall>r < nat (rows self). \<forall>c < nat (columns self). let i = r * nat (columns self) + c in
        chr (cs ! i) = chr (chars self ! i) \<and> \<not> need_supdate (cs ! i) \<and>
        shown d r c = (if need_supdate (chars self ! i) then chr (chars self ! i) else shown (tdata self) r c)))"

lemma clear_lines_ok:
  assumes "tty_ok self"
  shows "\<exists>ls. fold_res (\<lambda>r self. update_line (\<lambda>l. l\<lparr>line_need_supdate := False\<rparr>) (currentrow self) self) [0..<n] self = Inr (self\<lparr>lineinfos := ls\<rparr>) \<and>
    length ls = length (lineinfos self)"
proof -
  let ?P = "\<lambda>_ s. \<exists>ls. s = self\<lparr>lineinfos := ls\<rparr> \<and> length ls = length (lineinfos self)"
  have "\<exists>s'. fold_res (\<lambda>r self. update_line (\<lambda>l. l\<lparr>line_need_supdate := False\<rparr>) (currentrow self) self) [0..<n] self = Inr s' \<and> ?P n s'"
  proof (rule fold_res_range)
    show "?P 0 self" by (rule exI [of _ "lineinfos self"]) simp
  next
    fix i s
    assume "?P i s"
    then obtain ls where s: "s = self\<lparr>lineinfos := ls\<rparr>" "length ls = length (lineinfos self)" by blast
    then show "\<exists>s'. update_line (\<lambda>l. l\<lparr>line_need_supdate := False\<rparr>) (currentrow s) s = Inr s' \<and> ?P (Suc i) s'"
      using update_line_ok [of s "currentrow s"] assms by (force simp: tty_ok_def tty_shape_def)
  qed simp
  then show ?thesis by blast
qed

lemma flush_ok:
  assumes ok: "tty_ok self" and d: "device_draws ops shown"
  shows "\<exists>self'. stream_op_flush ops self = Inr self' \<and> tty_ok self' \<and> rows self' = rows self \<and> columns self' = columns self \<and> tty_view self' = tty_view self \<and>
    (tty_clean shown self \<longrightarrow> tty_clean shown self' \<and>
      (\<forall>r < nat (rows self). \<forall>c < nat (columns self). shown (tdata self') r c = fst (tty_view self) ! r ! c))"
proof -
  obtain cs e where u: "update_screen ops self = (cs, e)" by (cases "update_screen ops self")
  let ?h = "nat (rows self)" and ?w = "nat (columns self)"
  have dr: "length cs = length (chars self)" "\<And>r c. r < ?h \<Longrightarrow> c < ?w \<Longrightarrow> chr (cs ! (r * ?w + c)) = chr (chars self ! (r * ?w + c)) \<and> \<not> need_supdate (cs ! (r * ?w + c)) \<and>
      shown e r c = (if need_supdate (chars self ! (r * ?w + c)) then chr (chars self ! (r * ?w + c)) else shown (tdata self) r c)"
    using d ok u unfolding device_draws_def tty_ok_def Let_def by blast+
  have ok1: "tty_ok (self\<lparr>chars := cs, tdata := e\<rparr>)" using ok dr(1) by (simp add: tty_ok_def tty_shape_def)
  obtain ls where l: "stream_op_flush ops self = Inr (self\<lparr>chars := cs, tdata := e, lineinfos := ls\<rparr>)" "length ls = length (lineinfos self)"
    using clear_lines_ok [OF ok1, of ?h] u by (auto simp: stream_op_flush_def)
  let ?s = "self\<lparr>chars := cs, tdata := e, lineinfos := ls\<rparr>"
  have g: "grid chr ?h ?w cs = grid chr ?h ?w (chars self)" using dr by (simp add: grid_def)
  have sh: "shown e r c = chr (chars self ! (r * ?w + c))" if "tty_clean shown self" "r < ?h" "c < ?w" for r c
    using dr(2) [OF that(2,3)] that by (auto simp: tty_clean_def)
  have "tty_ok ?s" using ok1 l(2) by (simp add: tty_ok_def tty_shape_def)
  then show ?thesis using l(1) g sh dr by (intro exI [of _ ?s]) (simp add: tty_view_def tty_clean_def grid_nth)
qed

subsection \<open>Start\<close>

lemma init_cell_ok:
  assumes "tty_shape out" "r < nat (rows out)" "c < nat (columns out)"
  shows "\<exists>cs. bind_res (char_at out (int r) (int c)) (\<lambda>dest. bind_res (update_cells (put_chr 32) dest 1 (chars out)) (\<lambda>cs. Inr (out\<lparr>chars := cs\<rparr>))) =
      Inr (out\<lparr>chars := cs\<rparr>) \<and> length cs = length (chars out) \<and>
      (\<forall>i < length (chars out). cs ! i = (if i = r * nat (columns out) + c then put_chr 32 (chars out ! i) else chars out ! i))"
proof -
  have "r * nat (columns out) + c < length (chars out)" using cell_index [OF assms(2,3)] assms(1) by (simp add: tty_shape_def)
  then obtain cs where "update_cells (put_chr 32) (r * nat (columns out) + c) 1 (chars out) = Inr cs" "length cs = length (chars out)"
      "\<forall>i < length (chars out). cs ! i = (if i = r * nat (columns out) + c then put_chr 32 (chars out ! i) else chars out ! i)"
    using update_cells_ok [of "r * nat (columns out) + c" 1 "chars out" "put_chr 32"] by (auto simp: le_less_Suc_eq)
  then show ?thesis using assms by (intro exI [of _ cs]) (simp add: char_at_ok)
qed

lemma init_row_ok:
  fixes out :: "'d vt100tty"
  defines "w \<equiv> nat (columns out)"
  assumes shape: "tty_shape out" and r: "r < nat (rows out)" and prev: "\<And>i. i < r * w \<Longrightarrow> chr (chars out ! i) = 32 \<and> need_supdate (chars out ! i)"
  shows "\<exists>cs ls. init_row r out = Inr (out\<lparr>chars := cs, lineinfos := ls\<rparr>) \<and> length cs = length (chars out) \<and> length ls = length (lineinfos out) \<and>
    (\<forall>i < Suc r * w. chr (cs ! i) = 32 \<and> need_supdate (cs ! i))"
proof -
  let ?f = "\<lambda>c out. bind_res (char_at out (int r) (int c)) (\<lambda>dest. bind_res (update_cells (put_chr 32) dest 1 (chars out)) (\<lambda>cs. Inr (out\<lparr>chars := cs\<rparr>)))"
  let ?P = "\<lambda>c s. \<exists>cs. s = out\<lparr>chars := cs\<rparr> \<and> length cs = length (chars out) \<and> (\<forall>i < r * w + c. chr (cs ! i) = 32 \<and> need_supdate (cs ! i))"
  have "\<exists>s. fold_res ?f [0..<w] out = Inr s \<and> ?P w s"
  proof (rule fold_res_range [where P = ?P])
    show "?P 0 out" using prev by (intro exI [of _ "chars out"]) simp
  next
    fix c s
    assume c: "c < w" and "?P c s"
    then obtain cs where s: "s = out\<lparr>chars := cs\<rparr>" "length cs = length (chars out)" "\<forall>i < r * w + c. chr (cs ! i) = 32 \<and> need_supdate (cs ! i)" by blast
    have sh: "tty_shape s" using shape s by (simp add: tty_shape_def)
    have fit: "r * w + c < length (chars out)" using cell_index [OF r c [unfolded w_def]] shape by (simp add: tty_shape_def w_def)
    obtain cs' where "?f c s = Inr (out\<lparr>chars := cs'\<rparr>)" "length cs' = length (chars out)"
        "\<forall>i < length (chars out). cs' ! i = (if i = r * w + c then put_chr 32 (cs ! i) else cs ! i)"
      using init_cell_ok [OF sh, of r c] s r c by (auto simp: w_def)
    moreover from this(3) s(3) fit have "\<forall>i < r * w + Suc c. chr (cs' ! i) = 32 \<and> need_supdate (cs' ! i)" by (auto simp: put_chr_def less_Suc_eq)
    ultimately show "\<exists>s'. ?f c s = Inr s' \<and> ?P (Suc c) s'" by blast
  qed simp
  then obtain cs where 1: "fold_res ?f [0..<w] out = Inr (out\<lparr>chars := cs\<rparr>)" "length cs = length (chars out)" "\<forall>i < r * w + w. chr (cs ! i) = 32 \<and> need_supdate (cs ! i)" by blast
  obtain ls where "update_line (\<lambda>l. l\<lparr>line_need_supdate := True\<rparr>) (int r) (out\<lparr>chars := cs\<rparr>) = Inr (out\<lparr>chars := cs, lineinfos := ls\<rparr>)" "length ls = length (lineinfos out)"
    using update_line_ok [of "out\<lparr>chars := cs\<rparr>" "int r"] shape r by (force simp: tty_shape_def)
  moreover from this(1) have "init_row r out = Inr (out\<lparr>chars := cs, lineinfos := ls\<rparr>)" using 1(1) by (simp add: init_row_def w_def)
  ultimately show ?thesis using 1(2,3) by (intro exI [of _ cs] exI [of _ ls]) (simp add: add.commute)
qed

lemma init_ok:
  fixes out :: "'d vt100tty"
  assumes "0 < cols" "0 < rws" "nat rws * nat cols \<le> length cs" "nat rws \<le> length ls" "currentrow out = 0" "currentcolumn out = 0"
  shows "\<exists>tty. vt100tty_init co stream out ls cs cols rws = Inr (co\<lparr>s_primary_stream := stream\<rparr>, tty) \<and> tty_ok tty \<and> rows tty = rws \<and> columns tty = cols \<and>
    tty_view tty = show_lines (nat cols) (nat rws) (text_lines (nat cols) []) \<and> tty_clean shown tty"
proof -
  let ?w = "nat cols" and ?h = "nat rws"
  let ?o = "out\<lparr>columns := cols, rows := rws, lineinfos := ls, chars := cs\<rparr>"
  let ?P = "\<lambda>r s. \<exists>cs' ls'. s = ?o\<lparr>chars := cs', lineinfos := ls'\<rparr> \<and> length cs' = length cs \<and> length ls' = length ls \<and>
    (\<forall>i < r * ?w. chr (cs' ! i) = 32 \<and> need_supdate (cs' ! i))"
  have "\<exists>s. fold_res init_row [0..<?h] ?o = Inr s \<and> ?P ?h s"
  proof (rule fold_res_range)
    show "?P 0 ?o" by (intro exI [of _ cs] exI [of _ ls]) simp
  next
    fix r and s :: "'d vt100tty"
    assume r: "r < ?h" and "?P r s"
    then obtain cs' ls' where s: "s = ?o\<lparr>chars := cs', lineinfos := ls'\<rparr>" "length cs' = length cs" "length ls' = length ls"
      "\<forall>i < r * ?w. chr (cs' ! i) = 32 \<and> need_supdate (cs' ! i)" by blast
    have "tty_shape s" using assms s by (simp add: tty_shape_def)
    moreover have "columns s = cols" "rows s = rws" "chars s = cs'" "lineinfos s = ls'" using s(1) by simp_all
    ultimately obtain cs1 ls1 where "init_row r s = Inr (s\<lparr>chars := cs1, lineinfos := ls1\<rparr>)" "length cs1 = length cs" "length ls1 = length ls"
      "\<forall>i < Suc r * ?w. chr (cs1 ! i) = 32 \<and> need_supdate (cs1 ! i)"
      using init_row_ok [of s r] r s(2-4) by (metis (no_types, lifting))
    moreover have "s\<lparr>chars := cs1, lineinfos := ls1\<rparr> = ?o\<lparr>chars := cs1, lineinfos := ls1\<rparr>" using s(1) by simp
    ultimately show "\<exists>s'. init_row r s = Inr s' \<and> ?P (Suc r) s'" by blast
  qed simp
  then obtain cs' ls' where i: "fold_res init_row [0..<?h] ?o = Inr (?o\<lparr>chars := cs', lineinfos := ls'\<rparr>)" "length cs' = length cs" "length ls' = length ls"
    "\<forall>i < ?h * ?w. chr (cs' ! i) = 32 \<and> need_supdate (cs' ! i)" by blast
  let ?t = "?o\<lparr>chars := cs', lineinfos := ls'\<rparr>"
  have cell: "chr (cs' ! (r * ?w + c)) = 32 \<and> need_supdate (cs' ! (r * ?w + c))" if "r < ?h" "c < ?w" for r c
    using i(4) cell_index [OF that] by blast
  have "grid chr ?h ?w cs' = replicate ?h (replicate ?w 32)" using cell by (intro grid_eqI) auto
  moreover have "replicate ?h (replicate ?w (32 :: u8)) = replicate ?w 32 # replicate (?h - 1) (replicate ?w 32)"
    using assms(2) by (cases ?h) auto
  ultimately have "tty_view ?t = show_lines ?w ?h (text_lines ?w [])"
    using assms by (simp add: tty_view_def show_lines_def text_lines_Nil pad_Nil min_def)
  moreover have "tty_clean shown ?t" using cell by (simp add: tty_clean_def)
  moreover have "tty_ok ?t" using assms i by (simp add: tty_ok_def tty_shape_def)
  ultimately show ?thesis using i(1) by (intro exI [of _ ?t]) (simp add: vt100tty_init_def Let_def co_set_primary_console_def)
qed

subsection \<open>The VGA console\<close>

definition vga_shape :: "vgatty \<Rightarrow> bool" where
  "vga_shape s \<longleftrightarrow> 0 < s_totalcolumns s \<and> s_totalcolumns s < 2 ^ 16 \<and> 0 < s_totalrows s \<and> s_totalrows s < 2 ^ 16 \<and>
     s_totalrows s * s_totalcolumns s \<le> length (s_chars s)"

definition vga_ok :: "vgatty \<Rightarrow> bool" where
  "vga_ok s \<longleftrightarrow> vga_shape s \<and> unat (s_currentrow s) < s_totalrows s \<and> unat (s_currentcolumn s) \<le> s_totalcolumns s"

definition vga_view :: "vgatty \<Rightarrow> screen" where
  "vga_view s = (grid vchr (s_totalrows s) (s_totalcolumns s) (s_chars s), unat (s_currentrow s), unat (s_currentcolumn s))"

lemma vga_index:
  assumes "vga_shape s" "r < s_totalrows s" "c < s_totalcolumns s"
  shows "sz_add (sz_mul r (s_totalcolumns s)) c = r * s_totalcolumns s + c" "sz_mul r (s_totalcolumns s) = r * s_totalcolumns s"
proof -
  have "s_totalrows s * s_totalcolumns s \<le> (2 ^ 16 - 1) * (2 ^ 16 - 1)" using assms(1) by (intro mult_le_mono) (auto simp: vga_shape_def)
  then have "r * s_totalcolumns s + c < 2 ^ 32" using cell_index [OF assms(2,3)] by simp
  then show "sz_add (sz_mul r (s_totalcolumns s)) c = r * s_totalcolumns s + c" "sz_mul r (s_totalcolumns s) = r * s_totalcolumns s"
    by (simp_all add: wrap_simps)
qed

lemma vga_put_ok:
  assumes "vga_shape s" "unat r < s_totalrows s" "unat c < s_totalcolumns s"
  shows "\<exists>cs. write_char_at r c x s = Inr (s\<lparr>s_chars := cs\<rparr>) \<and> length cs = length (s_chars s) \<and>
    (\<forall>i < length (s_chars s). cs ! i = (if i = unat r * s_totalcolumns s + unat c then (s_chars s ! i)\<lparr>vchr := x\<rparr> else s_chars s ! i))"
proof -
  have "unat r * s_totalcolumns s + unat c < length (s_chars s)" using cell_index [OF assms(2,3)] assms(1) by (simp add: vga_shape_def)
  then obtain cs where "update_cells (\<lambda>y. y\<lparr>vchr := x\<rparr>) (unat r * s_totalcolumns s + unat c) 1 (s_chars s) = Inr cs" "length cs = length (s_chars s)"
      "\<forall>i < length (s_chars s). cs ! i = (if i = unat r * s_totalcolumns s + unat c then (s_chars s ! i)\<lparr>vchr := x\<rparr> else s_chars s ! i)"
    using update_cells_ok [of "unat r * s_totalcolumns s + unat c" 1 "s_chars s" "\<lambda>y. y\<lparr>vchr := x\<rparr>"] by (auto simp: le_less_Suc_eq)
  then show ?thesis by (intro exI [of _ cs]) (simp add: write_char_at_def vga_index(1) [OF assms])
qed

lemma vga_move_lines_ok:
  fixes s :: vgatty
  defines "w \<equiv> s_totalcolumns s" and "h \<equiv> s_totalrows s"
  assumes shape: "vga_shape s"
  shows "\<exists>cs. fold_res vga_move_line [1..<h] s = Inr (s\<lparr>s_chars := cs\<rparr>) \<and> length cs = length (s_chars s) \<and>
    (\<forall>i. i < (h - 1) * w \<longrightarrow> cs ! i = s_chars s ! (i + w))"
proof -
  let ?P = "\<lambda>k s'. \<exists>cs. s' = s\<lparr>s_chars := cs\<rparr> \<and> length cs = length (s_chars s) \<and>
    (\<forall>i < length (s_chars s). cs ! i = (if i < (k - 1) * w then s_chars s ! (i + w) else s_chars s ! i))"
  have hw: "h * w \<le> length (s_chars s)" "1 \<le> h" using shape by (auto simp: vga_shape_def h_def w_def)
  have "\<exists>s'. fold_res vga_move_line [1..<h] s = Inr s' \<and> ?P h s'"
  proof (rule fold_res_range [where P = ?P])
    show "?P 1 s" by (intro exI [of _ "s_chars s"]) simp
  next
    fix k s'
    assume k: "1 \<le> k" "k < h" and "?P k s'"
    then obtain cs where s': "s' = s\<lparr>s_chars := cs\<rparr>" "length cs = length (s_chars s)"
      and c: "\<And>i. i < length (s_chars s) \<Longrightarrow> cs ! i = (if i < (k - 1) * w then s_chars s ! (i + w) else s_chars s ! i)" by blast
    have kw: "(k - 1) * w + w = k * w" using k by (cases k) simp_all
    have fit: "k * w + w \<le> length cs" using row_fits [OF k(2), of w] hw s'(2) by simp
    obtain cs' where cs': "copy_cells cs ((k - 1) * w) (k * w) w = Inr cs'" "length cs' = length cs"
        "\<And>i. i < length cs \<Longrightarrow> cs' ! i = (if (k - 1) * w \<le> i \<and> i < k * w then cs ! (k * w + (i - (k - 1) * w)) else cs ! i)"
      using copy_cells_ok [of "k * w" w cs "(k - 1) * w"] fit kw by auto
    have "sz_mul k w = k * w" "sz_mul (k - 1) w = (k - 1) * w"
      using vga_index(2) [OF shape, of k 0] vga_index(2) [OF shape, of "k - 1" 0] k shape by (auto simp: w_def h_def vga_shape_def)
    then have "vga_move_line k s' = Inr (s\<lparr>s_chars := cs'\<rparr>)" using s'(1) cs'(1) by (simp add: vga_move_line_def w_def)
    moreover have "cs' ! i = (if i < (Suc k - 1) * w then s_chars s ! (i + w) else s_chars s ! i)" if i: "i < length (s_chars s)" for i
    proof (cases "(k - 1) * w \<le> i \<and> i < k * w")
      case True
      then have e: "k * w + (i - (k - 1) * w) = i + w" using kw by linarith
      have "i + w < length (s_chars s)" "\<not> i + w < (k - 1) * w" using True fit s'(2) by linarith+
      then show ?thesis using True cs'(3) [of i] c [of "i + w"] i s'(2) e by simp
    next
      case False
      then consider "i < (k - 1) * w" "i < k * w" | "k * w \<le> i" "\<not> i < (k - 1) * w" using kw by linarith
      then show ?thesis using False cs'(3) [of i] c [OF i] i s'(2) by cases auto
    qed
    ultimately show "\<exists>s''. vga_move_line k s' = Inr s'' \<and> ?P (Suc k) s''" using cs'(2) s'(2) by (intro exI [of _ "s\<lparr>s_chars := cs'\<rparr>"]) auto
  qed (rule hw(2))
  then obtain cs where "fold_res vga_move_line [1..<h] s = Inr (s\<lparr>s_chars := cs\<rparr>)" "length cs = length (s_chars s)"
    and c: "\<And>i. i < length (s_chars s) \<Longrightarrow> cs ! i = (if i < (h - 1) * w then s_chars s ! (i + w) else s_chars s ! i)" by blast
  moreover have "(h - 1) * w \<le> length (s_chars s)" using hw(1) by (rule order_trans [rotated]) simp
  then have "\<forall>i. i < (h - 1) * w \<longrightarrow> cs ! i = s_chars s ! (i + w)" using c by (metis order_less_le_trans)
  ultimately show ?thesis by blast
qed

lemma vga_blank_ok:
  fixes s :: vgatty
  defines "w \<equiv> s_totalcolumns s" and "r \<equiv> unat (s_currentrow s)"
  assumes shape: "vga_shape s" and r: "r < s_totalrows s"
  shows "\<exists>cs. vga_blank_row s = Inr (s\<lparr>s_chars := cs\<rparr>) \<and> length cs = length (s_chars s) \<and>
    (\<forall>i < length (s_chars s). vchr (cs ! i) = (if r * w \<le> i \<and> i < r * w + w then 32 else vchr (s_chars s ! i)))"
proof -
  let ?P = "\<lambda>k s'. \<exists>cs. s' = s\<lparr>s_chars := cs\<rparr> \<and> length cs = length (s_chars s) \<and>
    (\<forall>i < length (s_chars s). vchr (cs ! i) = (if r * w \<le> i \<and> i < r * w + k then 32 else vchr (s_chars s ! i)))"
  have "\<exists>s'. fold_res (\<lambda>i s. write_char_at (s_currentrow s) (of_nat i) 32 s) [0..<w] s = Inr s' \<and> ?P w s'"
  proof (rule fold_res_range [where P = ?P])
    show "?P 0 s" by (intro exI [of _ "s_chars s"]) auto
  next
    fix k s'
    assume k: "k < w" and "?P k s'"
    then obtain cs where s': "s' = s\<lparr>s_chars := cs\<rparr>" "length cs = length (s_chars s)"
      and c: "\<And>i. i < length (s_chars s) \<Longrightarrow> vchr (cs ! i) = (if r * w \<le> i \<and> i < r * w + k then 32 else vchr (s_chars s ! i))" by blast
    have u: "unat (of_nat k :: u16) = k" using k shape by (simp add: unat_of_nat vga_shape_def w_def)
    have "vga_shape s'" using shape s' by (simp add: vga_shape_def)
    from vga_put_ok [OF this, of "s_currentrow s" "of_nat k" 32] obtain cs' where "write_char_at (s_currentrow s') (of_nat k) 32 s' = Inr (s\<lparr>s_chars := cs'\<rparr>)" "length cs' = length cs"
        "\<forall>i < length cs. cs' ! i = (if i = r * w + k then (cs ! i)\<lparr>vchr := 32\<rparr> else cs ! i)"
      using s' r k u by (auto simp: w_def r_def)
    moreover from this(3) have "\<forall>i < length (s_chars s). vchr (cs' ! i) = (if r * w \<le> i \<and> i < r * w + Suc k then 32 else vchr (s_chars s ! i))"
      using c s'(2) by auto
    ultimately show "\<exists>s''. write_char_at (s_currentrow s') (of_nat k) 32 s' = Inr s'' \<and> ?P (Suc k) s''"
      using s'(2) by (intro exI [of _ "s\<lparr>s_chars := cs'\<rparr>"] conjI exI [of _ cs']) simp_all
  qed simp
  then show ?thesis using r by (auto simp: vga_blank_row_def w_def r_def)
qed

lemma unat_Suc16: "unat x + 1 < 2 ^ 16 \<Longrightarrow> unat (x + 1 :: u16) = unat x + 1"
  by (simp add: unat_word_ariths)

lemma vga_advance_ok:
  assumes ok: "vga_ok s"
  shows "\<exists>s'. advance_line s = Some (Inr s') \<and> vga_ok s' \<and> s_totalcolumns s' = s_totalcolumns s \<and> s_currentcolumn s' = 0 \<and>
    vga_view s' = console_newline (s_totalcolumns s) (vga_view s)"
proof -
  let ?s = "s\<lparr>s_currentcolumn := 0, s_currentrow := s_currentrow s + 1\<rparr>"
  define w where "w = s_totalcolumns s"
  define h where "h = s_totalrows s"
  have shape: "vga_shape s" "vga_shape ?s" using ok by (simp_all add: vga_ok_def vga_shape_def)
  have hw: "0 < h" "0 < w" "h < 2 ^ 16" "h * w \<le> length (s_chars s)" "unat (s_currentrow s) < h" using ok by (auto simp: vga_ok_def vga_shape_def h_def w_def)
  have row: "unat (s_currentrow s + 1) = unat (s_currentrow s) + 1" using hw by (intro unat_Suc16) simp
  show ?thesis
  proof (cases "unat (s_currentrow s) + 1 < h")
    case True
    then have "advance_line s = Some (Inr ?s)" using row by (simp add: advance_line_def vga_scroll_loop.simps h_def)
    then show ?thesis using ok True row by (intro exI [of _ ?s]) (simp add: vga_ok_def vga_shape_def vga_view_def console_newline_def h_def)
  next
    case False
    then have e: "unat (s_currentrow s) = h - 1" using hw(5) by simp
    obtain cs where 1: "fold_res vga_move_line [1..<h] ?s = Inr (?s\<lparr>s_chars := cs\<rparr>)" "length cs = length (s_chars s)"
        "\<And>i. i < (h - 1) * w \<Longrightarrow> cs ! i = s_chars s ! (i + w)"
      using vga_move_lines_ok [OF shape(2)] by (auto simp: h_def w_def)
    let ?t = "?s\<lparr>s_chars := cs, s_currentrow := s_currentrow s\<rparr>"
    have t: "vga_shape ?t" using shape 1(2) by (simp add: vga_shape_def)
    obtain cs' where 2: "vga_blank_row ?t = Inr (?t\<lparr>s_chars := cs'\<rparr>)" "length cs' = length cs"
        "\<And>i. i < length cs \<Longrightarrow> vchr (cs' ! i) = (if (h - 1) * w \<le> i \<and> i < (h - 1) * w + w then 32 else vchr (cs ! i))"
      using vga_blank_ok [OF t] hw e by (auto simp: h_def w_def)
    let ?u = "?t\<lparr>s_chars := cs'\<rparr>"
    have "advance_line s = bind_ro (Some (vga_blank_row ?t)) vga_scroll_loop"
      using 1(1) row False by (simp add: advance_line_def vga_scroll_loop.simps [of ?s] h_def)
    also have "\<dots> = vga_scroll_loop ?u" unfolding 2(1) by simp
    also have "\<dots> = Some (Inr ?u)" using hw(5) by (subst vga_scroll_loop.simps) (simp add: h_def)
    finally have adv: "advance_line s = Some (Inr ?u)" .
    have hw1: "(h - 1) * w + w = h * w" using hw(1) by (cases h) simp_all
    have "grid vchr h w cs' = tl (grid vchr h w (s_chars s)) @ [replicate w 32]"
    proof (rule grid_scrolled [OF hw(1)])
      fix r c assume rc: "r + 1 < h" "c < w"
      have i: "r * w + c < (h - 1) * w" using cell_index [of r "h - 1" c w] rc by simp
      then have "r * w + c < length cs" using hw(4) hw1 1(2) by linarith
      then show "vchr (cs' ! (r * w + c)) = vchr (s_chars s ! ((r + 1) * w + c))" using 2(3) [of "r * w + c"] 1(3) [OF i] i by (simp add: algebra_simps)
    next
      fix c assume "c < w"
      then show "vchr (cs' ! ((h - 1) * w + c)) = 32" using 2(3) [of "(h - 1) * w + c"] hw(4) hw1 1(2) by simp
    qed
    then have "vga_view ?u = console_newline w (vga_view s)" using False by (simp add: vga_view_def console_newline_def h_def w_def)
    moreover have "vga_ok ?u" using ok 1(2) 2(2) by (simp add: vga_ok_def vga_shape_def)
    ultimately show ?thesis using adv by (intro exI [of _ ?u]) (simp add: w_def)
  qed
qed

lemma vga_write_ok:
  assumes ok: "vga_ok s"
  shows "\<exists>s'. vga_write_char s c = Some (Inr s') \<and> vga_ok s' \<and> s_totalcolumns s' = s_totalcolumns s \<and> vga_view s' = console_step (s_totalcolumns s) c (vga_view s)"
proof -
  note adv = vga_advance_ok [OF ok]
  consider "c = 10" | "c = 13" | "c \<noteq> 10" "c \<noteq> 13" by blast
  then show ?thesis
  proof cases
    case 1
    then show ?thesis using adv by (auto simp: vga_write_char_def console_step_def)
  next
    case 2
    then show ?thesis using ok by (simp add: vga_write_char_def console_step_def vga_ok_def vga_shape_def vga_view_def)
  next
    case 3
    obtain s1 where 1: "(if s_totalcolumns s \<le> unat (s_currentcolumn s) then advance_line s else Some (Inr s)) = Some (Inr s1)" "vga_ok s1" "s_totalcolumns s1 = s_totalcolumns s"
        "unat (s_currentcolumn s1) < s_totalcolumns s1"
        "vga_view s1 = (if s_totalcolumns s \<le> snd (snd (vga_view s)) then console_newline (s_totalcolumns s) (vga_view s) else vga_view s)"
    proof (cases "s_totalcolumns s \<le> unat (s_currentcolumn s)")
      case True
      moreover have "0 < s_totalcolumns s" using ok by (simp add: vga_ok_def vga_shape_def)
      ultimately show ?thesis using adv that by (force simp: vga_view_def)
    next
      case False
      then show ?thesis using that [of s] ok by (simp add: vga_view_def)
    qed
    define w where "w = s_totalcolumns s1"
    define h where "h = s_totalrows s1"
    have o: "vga_shape s1" "unat (s_currentrow s1) < h" "unat (s_currentcolumn s1) < w" using 1 by (simp_all add: vga_ok_def h_def w_def)
    obtain cs where 2: "write_char_at (s_currentrow s1) (s_currentcolumn s1) c s1 = Inr (s1\<lparr>s_chars := cs\<rparr>)" "length cs = length (s_chars s1)"
        "\<And>i. i < length (s_chars s1) \<Longrightarrow> cs ! i = (if i = unat (s_currentrow s1) * w + unat (s_currentcolumn s1) then (s_chars s1 ! i)\<lparr>vchr := c\<rparr> else s_chars s1 ! i)"
      using vga_put_ok [OF o(1), of "s_currentrow s1" "s_currentcolumn s1" c] o unfolding h_def w_def by blast
    have cell: "vchr (cs ! (r * w + k)) = (if r = unat (s_currentrow s1) \<and> k = unat (s_currentcolumn s1) then c else vchr (s_chars s1 ! (r * w + k)))" if "r < h" "k < w" for r k
      using 2(3) [of "r * w + k"] cell_index [OF that] o cell_index_eq [OF that(2) o(3), of r "unat (s_currentrow s1)"] by (simp add: vga_shape_def h_def w_def)
    let ?s = "s1\<lparr>s_chars := cs, s_currentcolumn := s_currentcolumn s1 + 1\<rparr>"
    have col: "unat (s_currentcolumn s1 + 1) = unat (s_currentcolumn s1) + 1" using o by (intro unat_Suc16) (simp add: vga_shape_def w_def)
    have "vga_view ?s = (case vga_view s1 of (g, r, k) \<Rightarrow> (g[r := (g ! r)[k := c]], r, k + 1))"
      using grid_updated [OF o(2,3), of vchr cs c "s_chars s1"] cell col by (simp add: vga_view_def h_def w_def)
    then have "vga_view ?s = console_step (s_totalcolumns s) c (vga_view s)" unfolding 1(5) console_step_def using 3 by simp
    moreover have "vga_ok ?s" using 1 2(2) col by (simp add: vga_ok_def vga_shape_def)
    moreover have "vga_write_char s c = Some (Inr ?s)" using 1(1) 2(1) 3 by (simp add: vga_write_char_def)
    ultimately show ?thesis using 1(3) by (intro exI [of _ ?s]) simp
  qed
qed

interpretation vga_console: text_console "\<lambda>s c s'. vga_write_char s c = Some (Inr s')" vga_ok s_totalcolumns vga_view
  by unfold_locales (rule vga_write_ok)

lemma run_list_vga: "run_list (\<lambda>s c s'. vga_write_char s c = Some (Inr s')) s cs s' \<longleftrightarrow> vga_write_loop cs s = Some (Inr s')"
  by (induction cs arbitrary: s) (auto simp: bind_ro_Inr)

text \<open>The start of the VGA console blanks its cells.\<close>

lemma vga_init_cell:
  assumes "vga_shape s" "r < s_totalrows s" "c < s_totalcolumns s"
  shows "\<exists>cs. bind_res (write_char_at (of_nat r) (of_nat c) 32 s) (write_attr_at (of_nat r) (of_nat c) 7) = Inr (s\<lparr>s_chars := cs\<rparr>) \<and> length cs = length (s_chars s) \<and>
    (\<forall>i < length (s_chars s). vchr (cs ! i) = (if i = r * s_totalcolumns s + c then 32 else vchr (s_chars s ! i)))"
proof -
  let ?i = "r * s_totalcolumns s + c"
  have u: "unat (of_nat r :: u16) = r" "unat (of_nat c :: u16) = c" using assms by (simp_all add: unat_of_nat vga_shape_def)
  have i: "?i < length (s_chars s)" using cell_index [OF assms(2,3)] assms(1) by (simp add: vga_shape_def)
  obtain cs where 1: "write_char_at (of_nat r) (of_nat c) 32 s = Inr (s\<lparr>s_chars := cs\<rparr>)" "length cs = length (s_chars s)"
      "\<forall>i < length (s_chars s). cs ! i = (if i = ?i then (s_chars s ! i)\<lparr>vchr := 32\<rparr> else s_chars s ! i)"
    using vga_put_ok [OF assms(1), of "of_nat r" "of_nat c" 32] assms u by auto
  obtain cs' where 2: "update_cells (\<lambda>x. x\<lparr>attr := 7\<rparr>) ?i 1 cs = Inr cs'" "length cs' = length cs"
      "\<forall>i < length cs. cs' ! i = (if ?i \<le> i \<and> i < ?i + 1 then (cs ! i)\<lparr>attr := 7\<rparr> else cs ! i)"
    using update_cells_ok [of ?i 1 cs "\<lambda>x. x\<lparr>attr := 7\<rparr>"] i 1(2) by auto
  have "write_attr_at (of_nat r) (of_nat c) 7 (s\<lparr>s_chars := cs\<rparr>) = Inr (s\<lparr>s_chars := cs'\<rparr>)"
    using 2(1) u vga_index(1) [OF assms] by (simp add: write_attr_at_def)
  then show ?thesis using 1 2(2,3) by (intro exI [of _ cs']) auto
qed

lemma vga_init_ok:
  fixes s :: vgatty
  assumes "0 < cols" "cols < 2 ^ 16" "0 < rws" "rws < 2 ^ 16" "rws * cols \<le> length mem" "s_currentrow s = 0" "s_currentcolumn s = 0"
  shows "\<exists>t. archi586_vgatty_init co stream s mem cols rws (cols * 2) = Inr (co\<lparr>s_primary_stream := stream\<rparr>, t) \<and> vga_ok t \<and> s_totalcolumns t = cols \<and>
    vga_view t = show_lines cols rws (text_lines cols [])"
proof -
  let ?s = "s\<lparr>s_totalcolumns := cols, s_totalrows := rws, s_chars := mem\<rparr>"
  let ?f = "\<lambda>r c s. bind_res (write_char_at (of_nat r) (of_nat c) 32 s) (write_attr_at (of_nat r) (of_nat c) 7)"
  let ?P = "\<lambda>n t. \<exists>cs. t = ?s\<lparr>s_chars := cs\<rparr> \<and> length cs = length mem \<and> (\<forall>i < n. vchr (cs ! i) = 32)"
  have shape: "vga_shape (?s\<lparr>s_chars := cs\<rparr>)" if "length cs = length mem" for cs using that assms by (simp add: vga_shape_def)
  have row: "\<exists>t'. fold_res (?f r) [0..<cols] t = Inr t' \<and> ?P (r * cols + cols) t'" if r: "r < rws" and t: "?P (r * cols) t" for r t
  proof (rule fold_res_range [where P = "\<lambda>c. ?P (r * cols + c)"])
    fix c t
    assume c: "c < cols" and "?P (r * cols + c) t"
    then obtain cs where t: "t = ?s\<lparr>s_chars := cs\<rparr>" "length cs = length mem" "\<forall>i < r * cols + c. vchr (cs ! i) = 32" by blast
    have i: "r * cols + c < length mem" using cell_index [OF r c] assms(5) by simp
    obtain cs' where "?f r c t = Inr (?s\<lparr>s_chars := cs'\<rparr>)" "length cs' = length mem" "\<forall>i < length mem. vchr (cs' ! i) = (if i = r * cols + c then 32 else vchr (cs ! i))"
      using vga_init_cell [OF shape [OF t(2)], of r c] r c t(1,2) by auto
    moreover from this(3) t(3) i have "\<forall>i < r * cols + Suc c. vchr (cs' ! i) = 32" by (auto simp: less_Suc_eq)
    ultimately show "\<exists>t'. ?f r c t = Inr t' \<and> ?P (r * cols + Suc c) t'" by blast
  qed (use t in simp_all)
  have "\<exists>t. fold_res (\<lambda>r. fold_res (?f r) [0..<cols]) [0..<rws] ?s = Inr t \<and> ?P (rws * cols) t"
  proof (rule fold_res_range [where P = "\<lambda>r. ?P (r * cols)"])
    show "?P (0 * cols) ?s" by (rule exI [of _ mem]) simp
  next
    fix r t
    assume r: "r < rws" and t: "?P (r * cols) t"
    show "\<exists>t'. fold_res (?f r) [0..<cols] t = Inr t' \<and> ?P (Suc r * cols) t'" using row [OF r t] by (simp only: mult_Suc add.commute)
  qed simp
  then obtain cs where i: "fold_res (\<lambda>r. fold_res (?f r) [0..<cols]) [0..<rws] ?s = Inr (?s\<lparr>s_chars := cs\<rparr>)" "length cs = length mem" "\<forall>i < rws * cols. vchr (cs ! i) = 32" by blast
  have "grid vchr rws cols cs = replicate rws (replicate cols 32)" using i(3) cell_index by (intro grid_eqI) auto
  moreover have "replicate rws (replicate cols (32 :: u8)) = replicate cols 32 # replicate (rws - 1) (replicate cols 32)" using assms(3) by (cases rws) auto
  ultimately have "vga_view (?s\<lparr>s_chars := cs\<rparr>) = show_lines cols rws (text_lines cols [])"
    using assms by (simp add: vga_view_def show_lines_def text_lines_Nil pad_Nil min_def)
  moreover have "sz_mul cols 2 = cols * 2" using assms(2) by (simp add: wrap_simps)
  moreover have "vga_ok (?s\<lparr>s_chars := cs\<rparr>)" using shape [OF i(2)] assms by (simp add: vga_ok_def)
  ultimately show ?thesis using i(1) by (intro exI [of _ "?s\<lparr>s_chars := cs\<rparr>"]) (simp add: archi586_vgatty_init_def co_set_primary_console_def)
qed

subsection \<open>Properties\<close>

text \<open>A read stores every character at the start of the buffer, so all but the last one are lost.\<close>

lemma read_stores_first: "stream_op_read k buf n = Inr (k', buf', m) \<Longrightarrow> tl buf' = tl buf"
proof -
  have "read_events n k buf r = Inr (k', buf', m) \<Longrightarrow> tl buf' = tl buf" for r
  proof (induction n arbitrary: k buf r)
    case (Suc n)
    show ?case
    proof (cases "kbd_pull_event k")
      case (Pair k1 ev)
      have "tl (buf[0 := x]) = tl buf" for x by (cases buf) simp_all
      then show ?thesis using Suc.prems Suc.IH Pair by (cases ev) (fastforce simp: res_simps split: if_splits)+
    qed
  qed simp
  then show "stream_op_read k buf n = Inr (k', buf', m) \<Longrightarrow> ?thesis" by (auto simp: stream_op_read_def res_simps)
qed

lemma write_flush_ok:
  assumes d: "device_draws ops shown" and sc: "device_scrolls ops shown h w" and hw: "0 < h" "0 < w"
    and t: "tty_ok s" "nat (rows s) = h" "nat (columns s) = w" "tty_clean shown s" "tty_view s = show_lines w h (text_lines w before)"
    and n: "length bytes \<le> STREAM_MAX_TRANSFER_SIZE" "13 \<notin> set bytes"
  shows "\<exists>s'. bind_res (stream_op_write ops s bytes) (\<lambda>(s, n). stream_op_flush ops s) = Inr s' \<and> tty_ok s' \<and> nat (rows s') = h \<and> nat (columns s') = w \<and> tty_clean shown s' \<and>
    tty_view s' = show_lines w h (text_lines w (before @ bytes)) \<and> (\<forall>r < h. \<forall>c < w. shown (tdata s') r c = fst (tty_view s') ! r ! c)"
proof -
  have "tty_sound ops shown s" using t by (simp add: tty_sound_def)
  from vt_console.shows_text [OF this _ hw(1) n(2)] obtain s1 where 1: "fold_res (\<lambda>c self. write_char ops self c) bytes s = Inr s1" "tty_sound ops shown s1" "nat (columns s1) = w"
      "tty_view s1 = show_lines w h (text_lines w (before @ bytes))" using t hw by (auto simp: run_list_fold)
  have "nat (rows s1) = length (fst (tty_view s1))" by (simp add: tty_view_def)
  also have "\<dots> = h" using 1(4) by (simp add: show_lines_def)
  finally have h: "nat (rows s1) = h" .
  then have "tty_ok s1" "tty_clean shown s1" using 1 sc by (simp_all add: tty_sound_def)
  with flush_ok [OF this(1) d] 1 h n(1) show ?thesis by (auto simp: stream_op_write_def)
qed

text \<open>
  Claim C27. After the start of the terminal, any sequence of writes (of any bytes but carriage returns), each followed by a flush,
  leaves on the device exactly the last rows of the text, wrapped at the width of the screen, padded with blanks: scrolling loses no
  cell, and the cells the terminal marks for an update are all that have changed. The device is any that shows the marked cells and
  scrolls (or cannot scroll).
\<close>

theorem terminal_shows_text:
  assumes "device_draws ops shown" and "device_scrolls ops shown (nat rws) (nat cols)"
    and "0 < cols" "0 < rws" "nat rws * nat cols \<le> length cs" "nat rws \<le> length ls" "currentrow out = 0" "currentcolumn out = 0"
    and "\<forall>t \<in> set texts. length t \<le> STREAM_MAX_TRANSFER_SIZE \<and> 13 \<notin> set t" and "texts \<noteq> []"
  shows "\<exists>tty tty'. vt100tty_init co stream out ls cs cols rws = Inr (co\<lparr>s_primary_stream := stream\<rparr>, tty) \<and>
    fold_res (\<lambda>t s. bind_res (stream_op_write ops s t) (\<lambda>(s, n). stream_op_flush ops s)) texts tty = Inr tty' \<and>
    tty_view tty' = show_lines (nat cols) (nat rws) (text_lines (nat cols) (concat texts)) \<and>
    (\<forall>r < nat rws. \<forall>c < nat cols. shown (tdata tty') r c = fst (tty_view tty') ! r ! c)"
proof -
  let ?w = "nat cols" and ?h = "nat rws"
  obtain tty where i: "vt100tty_init co stream out ls cs cols rws = Inr (co\<lparr>s_primary_stream := stream\<rparr>, tty)" "tty_ok tty" "rows tty = rws" "columns tty = cols"
      "tty_view tty = show_lines ?w ?h (text_lines ?w [])" "tty_clean shown tty"
    using init_ok [OF assms(3-8), of co stream shown] by blast
  let ?Q = "\<lambda>before s. tty_ok s \<and> nat (rows s) = ?h \<and> nat (columns s) = ?w \<and> tty_clean shown s \<and> tty_view s = show_lines ?w ?h (text_lines ?w before)"
  have "\<exists>s'. fold_res (\<lambda>t s. bind_res (stream_op_write ops s t) (\<lambda>(s, n). stream_op_flush ops s)) texts s = Inr s' \<and> ?Q (before @ concat texts) s' \<and>
      (\<forall>r < ?h. \<forall>c < ?w. shown (tdata s') r c = fst (tty_view s') ! r ! c)" if "?Q before s" for before s
    using assms(9,10) that
  proof (induction texts arbitrary: before s)
    case (Cons t ts)
    from Cons.prems write_flush_ok [OF assms(1,2), of s before t] assms(3,4) obtain s1 where
      1: "bind_res (stream_op_write ops s t) (\<lambda>(s, n). stream_op_flush ops s) = Inr s1" "?Q (before @ t) s1" "\<forall>r < ?h. \<forall>c < ?w. shown (tdata s1) r c = fst (tty_view s1) ! r ! c" by auto
    show ?case
    proof (cases "ts = []")
      case True
      then show ?thesis using 1 by simp
    next
      case False
      then show ?thesis using Cons.IH [where before = "before @ t" and s = s1] Cons.prems 1 by simp
    qed
  qed simp
  from this [where before = "[]" and s = tty] i show ?thesis by auto
qed

text \<open>A device that keeps what it shows as a function of row and column.\<close>

definition canvas_ops :: "(nat \<Rightarrow> nat \<Rightarrow> u8) vt100tty_ops" where
  "canvas_ops = \<lparr>update_screen = (\<lambda>self. (map (\<lambda>c. c\<lparr>need_supdate := False\<rparr>) (chars self),
       \<lambda>r c. let x = chars self ! (r * nat (columns self) + c) in if need_supdate x then chr x else tdata self r c)),
     scroll = Some (\<lambda>n d r c. d (r + nat n) c)\<rparr>"

lemma canvas_draws: "device_draws canvas_ops (\<lambda>d. d)"
  unfolding device_draws_def
proof (intro allI impI)
  fix self :: "(nat \<Rightarrow> nat \<Rightarrow> u8) vt100tty" and cs d
  assume s: "tty_shape self" and u: "update_screen canvas_ops self = (cs, d)"
  have "r * nat (columns self) + c < length (chars self)" if "r < nat (rows self)" "c < nat (columns self)" for r c
    using cell_index [OF that] s by (simp add: tty_shape_def)
  then show "length cs = length (chars self) \<and> (\<forall>r < nat (rows self). \<forall>c < nat (columns self). let i = r * nat (columns self) + c in
      chr (cs ! i) = chr (chars self ! i) \<and> \<not> need_supdate (cs ! i) \<and> d r c = (if need_supdate (chars self ! i) then chr (chars self ! i) else tdata self r c))"
    using u by (auto simp: canvas_ops_def Let_def)
qed

theorem terminal_shows_text_witness:
  "\<exists>tty tty'. vt100tty_init \<lparr>s_primary_stream = 0, s_debug_stream = 0\<rparr> 1
      \<lparr>lineinfos = [], chars = [], tdata = (\<lambda>_ _. 0), columns = 0, rows = 0, currentcolumn = 0, currentrow = 0\<rparr>
      (replicate 2 \<lparr>is_continuation = False, line_need_supdate = False\<rparr>) (replicate 6 \<lparr>chr = 0, need_supdate = False\<rparr>) 3 2 = Inr (\<lparr>s_primary_stream = 1, s_debug_stream = 0\<rparr>, tty) \<and>
    fold_res (\<lambda>t s. bind_res (stream_op_write canvas_ops s t) (\<lambda>(s, n). stream_op_flush canvas_ops s)) [[65, 10, 66, 67], [68, 69]] tty = Inr tty' \<and>
    tty_view tty' = ([[66, 67, 68], [69, 32, 32]], 1, 1) \<and> tdata tty' 0 2 = 68"
proof -
  have sc: "device_scrolls canvas_ops (\<lambda>d. d) (nat 2) (nat 3)" by (simp add: device_scrolls_def canvas_ops_def)
  have v: "show_lines 3 2 (text_lines 3 [65, 10, 66, 67, 68, 69]) = ([[66, 67, 68], [69, 32, 32]], 1, 1)" by code_simp
  have l: "\<forall>t \<in> set [[65, 10, 66, 67], [68, 69]]. length t \<le> STREAM_MAX_TRANSFER_SIZE \<and> (13 :: u8) \<notin> set t" by (simp add: STREAM_MAX_TRANSFER_SIZE_def)
  show ?thesis
    using terminal_shows_text [OF canvas_draws sc, of "replicate 6 \<lparr>chr = 0, need_supdate = False\<rparr>" "replicate 2 \<lparr>is_continuation = False, line_need_supdate = False\<rparr>"
        "\<lparr>lineinfos = [], chars = [], tdata = (\<lambda>_ _. 0), columns = 0, rows = 0, currentcolumn = 0, currentrow = 0\<rparr>" "[[65, 10, 66, 67], [68, 69]]"
        "\<lparr>s_primary_stream = 0, s_debug_stream = 0\<rparr>" 1] l v
    by force
qed

text \<open>
  Claim C28. The VGA console shows the same: after its start, any sequence of bytes but carriage returns in one write leaves in
  the video memory the last rows of the text, wrapped at the width of the screen, and the cursor behind its end. The write
  returns, although its scroll loop need not.
\<close>

theorem vga_shows_text:
  assumes "0 < cols" "cols < 2 ^ 16" "0 < rws" "rws < 2 ^ 16" "rws * cols \<le> length mem" "s_currentrow s = 0" "s_currentcolumn s = 0"
    and "length bytes \<le> STREAM_MAX_TRANSFER_SIZE" and "13 \<notin> set bytes"
  shows "\<exists>t t'. archi586_vgatty_init co stream s mem cols rws (cols * 2) = Inr (co\<lparr>s_primary_stream := stream\<rparr>, t) \<and>
    vga_stream_op_write t bytes = Some (Inr (t', int (length bytes))) \<and> vga_view t' = show_lines cols rws (text_lines cols bytes)"
proof -
  obtain t where t: "archi586_vgatty_init co stream s mem cols rws (cols * 2) = Inr (co\<lparr>s_primary_stream := stream\<rparr>, t)" "vga_ok t" "s_totalcolumns t = cols"
      "vga_view t = show_lines cols rws (text_lines cols [])" using vga_init_ok [OF assms(1-7), of co stream] by blast
  have "\<exists>t'. run_list (\<lambda>s c s'. vga_write_char s c = Some (Inr s')) t bytes t' \<and> vga_ok t' \<and> s_totalcolumns t' = s_totalcolumns t \<and>
      vga_view t' = show_lines (s_totalcolumns t) rws (text_lines (s_totalcolumns t) ([] @ bytes))"
    by (rule vga_console.shows_text [OF t(2) _ assms(3,9)]) (simp_all add: t assms)
  then obtain t' where "vga_write_loop bytes t = Some (Inr t')" "vga_view t' = show_lines cols rws (text_lines cols bytes)" using t(3) by (auto simp: run_list_vga)
  then show ?thesis using t(1) assms(8) by (auto simp: vga_stream_op_write_def)
qed

theorem vga_shows_text_witness:
  "\<exists>t t'. archi586_vgatty_init \<lparr>s_primary_stream = 0, s_debug_stream = 0\<rparr> 1
      \<lparr>s_chars = [], s_totalcolumns = 0, s_totalrows = 0, s_currentcolumn = 0, s_currentrow = 0\<rparr> (replicate 6 \<lparr>vchr = 0, attr = 0\<rparr>) 3 2 6 =
        Inr (\<lparr>s_primary_stream = 1, s_debug_stream = 0\<rparr>, t) \<and>
    vga_stream_op_write t [65, 10, 66, 67, 68, 69] = Some (Inr (t', 6)) \<and> vga_view t' = ([[66, 67, 68], [69, 32, 32]], 1, 1)"
proof -
  have v: "show_lines 3 2 (text_lines 3 [65, 10, 66, 67, 68, 69]) = ([[66, 67, 68], [69, 32, 32]], 1, 1)" by code_simp
  show ?thesis
    using vga_shows_text [of 3 2 "replicate 6 \<lparr>vchr = 0, attr = 0\<rparr>" "\<lparr>s_chars = [], s_totalcolumns = 0, s_totalrows = 0, s_currentcolumn = 0, s_currentrow = 0\<rparr>"
        "[65, 10, 66, 67, 68, 69]" "\<lparr>s_primary_stream = 0, s_debug_stream = 0\<rparr>" 1] v by (simp add: STREAM_MAX_TRANSFER_SIZE_def)
qed

end
