(* ===== verification/Pci.thy ===== *)
theory Pci
  imports Prelude
begin

text \<open>
  PCI configuration space (kernel/dev/pci.c, kernel/arch/i586/pci.c). The input and output instructions of
  kernel/arch/i586/ioport.c are arguments: functions on the state \<open>'p\<close> of the machine behind the ports. A bridge may lead back to a
  bus that is being probed, so probing is a partial function. Messages are left out.
\<close>

record 'p ports =
  archi586_in8 :: "u16 \<Rightarrow> 'p \<Rightarrow> 'p \<times> u8"
  archi586_out8 :: "u16 \<Rightarrow> u8 \<Rightarrow> 'p \<Rightarrow> 'p"
  archi586_in16 :: "u16 \<Rightarrow> 'p \<Rightarrow> 'p \<times> u16"
  archi586_out16 :: "u16 \<Rightarrow> u16 \<Rightarrow> 'p \<Rightarrow> 'p"
  archi586_in32 :: "u16 \<Rightarrow> 'p \<Rightarrow> 'p \<times> u32"
  archi586_out32 :: "u16 \<Rightarrow> u32 \<Rightarrow> 'p \<Rightarrow> 'p"

type_synonym PCIPATH = u16

subsection \<open>Paths and configuration access\<close>

definition pci_make_path :: "u8 \<Rightarrow> u8 \<Rightarrow> u8 \<Rightarrow> PCIPATH res" where
  "pci_make_path bus device function =
     bind_res (assert_res (device < 32)) (\<lambda>_.
     bind_res (assert_res (function < 8)) (\<lambda>_.
     Inr (ucast (push_bit 8 (ucast bus :: u32) OR push_bit 3 (ucast device) OR ucast function))))"

definition pcipath_get_bus :: "PCIPATH \<Rightarrow> u8" where
  "pcipath_get_bus path = ucast (drop_bit 8 path)"

definition pcipath_get_device :: "PCIPATH \<Rightarrow> u8" where
  "pcipath_get_device path = ucast (drop_bit 3 (ucast path :: u32) AND 0x1f)"

definition pcipath_get_func :: "PCIPATH \<Rightarrow> u8" where
  "pcipath_get_func path = ucast (path AND 7)"

definition CONFIG_ADDRESS_PORT :: u16 where "CONFIG_ADDRESS_PORT = 0xcf8"
definition CONFIG_DATA_PORT :: u16 where "CONFIG_DATA_PORT = 0xcfc"

definition makeconfigaddr :: "PCIPATH \<Rightarrow> u8 \<Rightarrow> u32" where
  "makeconfigaddr path offset =
     push_bit 31 1 OR push_bit 16 (ucast (pcipath_get_bus path)) OR push_bit 11 (ucast (pcipath_get_device path)) OR
     push_bit 8 (ucast (pcipath_get_func path)) OR ucast offset"

definition arch_pci_read_config :: "'p ports \<Rightarrow> PCIPATH \<Rightarrow> u8 \<Rightarrow> 'p \<Rightarrow> ('p \<times> u32) res" where
  "arch_pci_read_config io path offset p =
     bind_res (assert_res (offset mod 4 = 0)) (\<lambda>_.
     Inr (archi586_in32 io CONFIG_DATA_PORT (archi586_out32 io CONFIG_ADDRESS_PORT (makeconfigaddr path offset) p)))"

definition arch_pci_write_config :: "'p ports \<Rightarrow> PCIPATH \<Rightarrow> u8 \<Rightarrow> u32 \<Rightarrow> 'p \<Rightarrow> 'p res" where
  "arch_pci_write_config io path offset word p =
     bind_res (assert_res (offset mod 4 = 0)) (\<lambda>_.
     Inr (archi586_out32 io CONFIG_DATA_PORT word (archi586_out32 io CONFIG_ADDRESS_PORT (makeconfigaddr path offset) p)))"

text \<open>A read of a configuration word, with a function of the word as result.\<close>

definition read_field :: "'p ports \<Rightarrow> PCIPATH \<Rightarrow> u8 \<Rightarrow> (u32 \<Rightarrow> 'a) \<Rightarrow> 'p \<Rightarrow> ('p \<times> 'a) res" where
  "read_field io path offset f p = bind_res (arch_pci_read_config io path offset p) (\<lambda>(p, word). Inr (p, f word))"

subsection \<open>Registers\<close>

definition pci_read_ven_dev_id :: "'p ports \<Rightarrow> PCIPATH \<Rightarrow> 'p \<Rightarrow> ('p \<times> u16 \<times> u16) res" where
  "pci_read_ven_dev_id io path = read_field io path 0x00 (\<lambda>word. (ucast word, ucast (drop_bit 16 word)))"

definition pci_read_class :: "'p ports \<Rightarrow> PCIPATH \<Rightarrow> 'p \<Rightarrow> ('p \<times> u8 \<times> u8) res" where
  "pci_read_class io path = read_field io path 0x08 (\<lambda>word. (ucast (drop_bit 24 word AND 0xff), ucast (drop_bit 16 word AND 0xff)))"

definition pci_read_config_header_type :: "'p ports \<Rightarrow> PCIPATH \<Rightarrow> 'p \<Rightarrow> ('p \<times> u8) res" where
  "pci_read_config_header_type io path = read_field io path 0x0c (\<lambda>word. ucast (drop_bit 16 word AND 0xff))"

definition headertype :: "'p ports \<Rightarrow> PCIPATH \<Rightarrow> 'p \<Rightarrow> ('p \<times> u8) res" where
  "headertype io path p = bind_res (pci_read_config_header_type io path p) (\<lambda>(p, b). Inr (p, b AND 0x7f))"

definition pci_read_progif :: "'p ports \<Rightarrow> PCIPATH \<Rightarrow> 'p \<Rightarrow> ('p \<times> u8) res" where
  "pci_read_progif io path = read_field io path 0x08 (\<lambda>word. ucast (drop_bit 8 word AND 0xff))"

definition pci_write_progif :: "'p ports \<Rightarrow> PCIPATH \<Rightarrow> u8 \<Rightarrow> 'p \<Rightarrow> 'p res" where
  "pci_write_progif io path progif p =
     bind_res (arch_pci_read_config io path 0x08 p) (\<lambda>(p, word).
     arch_pci_write_config io path 0x08 ((word AND NOT (push_bit 8 0xff)) OR push_bit 8 (ucast progif)) p)"

definition pci_read_irq_line :: "'p ports \<Rightarrow> PCIPATH \<Rightarrow> 'p \<Rightarrow> ('p \<times> u8) res" where
  "pci_read_irq_line io path = read_field io path 0x3c (\<lambda>word. ucast (word AND 0xff))"

definition pci_read_cmd_reg :: "'p ports \<Rightarrow> PCIPATH \<Rightarrow> 'p \<Rightarrow> ('p \<times> u16) res" where
  "pci_read_cmd_reg io path = read_field io path 0x4 (\<lambda>word. ucast (word AND 0xffff))"

definition pci_write_cmd_reg :: "'p ports \<Rightarrow> PCIPATH \<Rightarrow> u16 \<Rightarrow> 'p \<Rightarrow> 'p res" where
  "pci_write_cmd_reg io path value = arch_pci_write_config io path 0x4 (ucast value)"

definition pci_read_status_reg :: "'p ports \<Rightarrow> PCIPATH \<Rightarrow> 'p \<Rightarrow> ('p \<times> u16) res" where
  "pci_read_status_reg io path = read_field io path 0x4 (\<lambda>word. ucast (drop_bit 16 word AND 0xffff))"

definition pci_write_status_reg :: "'p ports \<Rightarrow> PCIPATH \<Rightarrow> u16 \<Rightarrow> 'p \<Rightarrow> 'p res" where
  "pci_write_status_reg io path value p =
     bind_res (arch_pci_read_config io path 0x4 p) (\<lambda>(p, word).
     arch_pci_write_config io path 0x4 (push_bit 16 (ucast value) OR (word AND 0xffff)) p)"

record bar_info =
  bar_addr :: u32
  isiobar :: bool
  isprefetchable :: bool

definition pci_read_bar :: "'p ports \<Rightarrow> PCIPATH \<Rightarrow> u8 \<Rightarrow> 'p \<Rightarrow> ('p \<times> (int + bar_info)) res" where
  "pci_read_bar io path bar p =
     bind_res (assert_res (bar \<le> 5)) (\<lambda>_.
     bind_res (arch_pci_read_config io path (0x10 + bar * 4) p) (\<lambda>(p, word).
     Inr (p,
       if word AND 1 = 0 then
         (let type = drop_bit 1 word AND 3 in
          if type = 0 \<or> type = 1
          then Inr \<lparr>bar_addr = word AND NOT 0xf, isiobar = False, isprefetchable = word AND push_bit 3 1 \<noteq> 0\<rparr>
          else Inl (- EIO))
       else Inr \<lparr>bar_addr = word AND NOT 3, isiobar = True, isprefetchable = False\<rparr>)))"

definition pci_read_mem_bar :: "'p ports \<Rightarrow> PCIPATH \<Rightarrow> u8 \<Rightarrow> 'p \<Rightarrow> ('p \<times> (int + bar_info)) res" where
  "pci_read_mem_bar io path bar p =
     bind_res (pci_read_bar io path bar p) (\<lambda>(p, r).
     Inr (p, case r of Inl e \<Rightarrow> Inl e | Inr b \<Rightarrow> if isiobar b then Inl (- EIO) else Inr b))"

definition pci_read_io_bar :: "'p ports \<Rightarrow> PCIPATH \<Rightarrow> u8 \<Rightarrow> 'p \<Rightarrow> ('p \<times> (int + u32)) res" where
  "pci_read_io_bar io path bar p =
     bind_res (pci_read_bar io path bar p) (\<lambda>(p, r).
     Inr (p, case r of Inl e \<Rightarrow> Inl e | Inr b \<Rightarrow> if \<not> isiobar b then Inl (- EIO) else Inr (bar_addr b)))"

subsection \<open>Probing\<close>

text \<open>The callback is a function on the state; it may not return or fault.\<close>

type_synonym 'p pci_callback = "PCIPATH \<Rightarrow> u16 \<Rightarrow> u16 \<Rightarrow> u8 \<Rightarrow> u8 \<Rightarrow> 'p \<Rightarrow> 'p res option"

primrec fold_ro :: "('x \<Rightarrow> 's \<Rightarrow> 's res option) \<Rightarrow> 'x list \<Rightarrow> 's \<Rightarrow> 's res option" where
  "fold_ro f [] s = Some (Inr s)"
| "fold_ro f (x # xs) s = bind_ro (f x s) (fold_ro f xs)"

lemma fold_ro_mono [partial_function_mono]:
  assumes "\<And>x s. mono_option (\<lambda>F. C x s F)"
  shows "mono_option (\<lambda>F. fold_ro (\<lambda>x s. C x s F) xs s)"
proof (induction xs arbitrary: s)
  case Nil
  then show ?case by (simp add: option.const_mono)
next
  case (Cons x xs)
  then show ?case unfolding fold_ro.simps by (intro bind_ro_mono assms)
qed

text \<open>The secondary bus of a bridge, if the function is one; a mismatch of the other fields is only reported.\<close>

definition bridge_bus :: "'p ports \<Rightarrow> PCIPATH \<Rightarrow> u8 \<Rightarrow> u8 \<Rightarrow> 'p \<Rightarrow> ('p \<times> u8 option) res" where
  "bridge_bus io path baseclass subclass p =
     (if baseclass = 0x6 \<and> subclass = 0x4 then
        bind_res (headertype io path p) (\<lambda>(p, _).
        bind_res (arch_pci_read_config io path 0x18 p) (\<lambda>(p, word).
        Inr (p, Some (ucast (drop_bit 8 word AND 0xff)))))
      else Inr (p, None))"

text \<open>One function of a device: \<open>None\<close> if it is absent, otherwise its identification and the bus behind it.\<close>

definition read_function :: "'p ports \<Rightarrow> PCIPATH \<Rightarrow> 'p \<Rightarrow> ('p \<times> (u16 \<times> u16 \<times> u8 \<times> u8 \<times> u8 option) option) res" where
  "read_function io path p =
     bind_res (pci_read_ven_dev_id io path p) (\<lambda>(p, venid, devid).
     if venid = 0xffff then Inr (p, None)
     else
       bind_res (pci_read_class io path p) (\<lambda>(p, baseclass, subclass).
       bind_res (bridge_bus io path baseclass subclass p) (\<lambda>(p, secondary).
       Inr (p, Some (venid, devid, baseclass, subclass, secondary)))))"

text \<open>The number of functions of a device: 0 if there is no device.\<close>

definition count_functions :: "'p ports \<Rightarrow> u8 \<Rightarrow> u8 \<Rightarrow> 'p \<Rightarrow> ('p \<times> nat) res" where
  "count_functions io bus device p =
     bind_res (pci_make_path bus device 0) (\<lambda>path.
     bind_res (pci_read_ven_dev_id io path p) (\<lambda>(p, venid, devid).
     if venid = 0xffff then Inr (p, 0)
     else bind_res (pci_read_config_header_type io path p) (\<lambda>(p, h). Inr (p, if h AND 0x80 \<noteq> 0 then 8 else 1))))"

partial_function (option) probe_bus :: "'p ports \<Rightarrow> 'p pci_callback \<Rightarrow> u8 \<Rightarrow> 'p \<Rightarrow> 'p res option" where
  "probe_bus io callback bus p =
     fold_ro (\<lambda>device p.
       bind_ro (Some (count_functions io bus (of_nat device) p)) (\<lambda>(p, n).
       fold_ro (\<lambda>func p.
         bind_ro (Some (pci_make_path bus (of_nat device) (of_nat func))) (\<lambda>path.
         bind_ro (Some (read_function io path p)) (\<lambda>(p, r).
         case r of
           None \<Rightarrow> Some (Inr p)
         | Some (venid, devid, baseclass, subclass, secondary) \<Rightarrow>
             bind_ro (case secondary of None \<Rightarrow> Some (Inr p) | Some b \<Rightarrow> probe_bus io callback b p) (\<lambda>p.
             callback path venid devid baseclass subclass p)))) [0..<n] p)) [0..<32] p"

definition pci_probe_bus :: "'p ports \<Rightarrow> 'p pci_callback \<Rightarrow> 'p \<Rightarrow> 'p res option" where
  "pci_probe_bus io callback p =
     bind_ro (Some (bind_res (pci_make_path 0 0 0) (\<lambda>path. pci_read_config_header_type io path p))) (\<lambda>(p, h).
     fold_ro (\<lambda>bus p.
       bind_ro (Some (pci_make_path 0 0 (of_nat bus))) (\<lambda>path.
       bind_ro (Some (pci_read_ven_dev_id io path p)) (\<lambda>(p, venid, devid).
       if venid = 0xffff then Some (Inr p)
       else
         bind_ro (Some (pci_read_class io path p)) (\<lambda>(p, baseclass, subclass).
         if baseclass \<noteq> 0x60 \<and> subclass \<noteq> 0x00 then Some (Inr p) else probe_bus io callback (of_nat bus) p))))
       [0..<if h AND 0x80 \<noteq> 0 then 8 else 1] p)"

definition pci_print_bus :: "'p ports \<Rightarrow> 'p \<Rightarrow> 'p res option" where
  "pci_print_bus io p = pci_probe_bus io (\<lambda>path venid devid baseclass subclass p. Some (Inr p)) p"

end
