(* ===== verification/Pstring.thy ===== *)
theory Pstring
  imports Pmm
begin

text \<open>
  Copies between kernel memory and physical memory (kernel/lib/pstring.c). Physical memory is reached through one scratch page:
  \<open>window\<close> is the physical page that arch_mmu_scratch_map has put there (theory \<open>Mmu\<close> models the mapping and its flush), and a byte
  at an offset of the scratch page is a byte of that page. The cache mode does not matter for the bytes. A source in kernel memory
  is a list; reading behind its end is a fault.
\<close>

record physmem =
  phys :: "nat \<Rightarrow> u8"
  window :: nat

definition scratch_map :: "nat \<Rightarrow> physmem \<Rightarrow> physmem" where
  "scratch_map page m = m\<lparr>window := page\<rparr>"

definition window_read :: "nat \<Rightarrow> nat \<Rightarrow> physmem \<Rightarrow> u8 list" where
  "window_read offset n m = map (\<lambda>k. phys m (window m + offset + k)) [0..<n]"

definition window_write :: "nat \<Rightarrow> u8 list \<Rightarrow> physmem \<Rightarrow> physmem" where
  "window_write offset bytes m =
     m\<lparr>phys := (\<lambda>a. if window m + offset \<le> a \<and> a < window m + offset + length bytes then bytes ! (a - (window m + offset)) else phys m a)\<rparr>"

text \<open>The length of the next piece: what is left, but not beyond the end of the page.\<close>

definition copylen :: "nat \<Rightarrow> nat \<Rightarrow> nat \<Rightarrow> nat" where
  "copylen len i offset = min (len - i) (ARCH_PAGESIZE - offset)"

function pmemcpy_in_loop :: "nat \<Rightarrow> nat \<Rightarrow> nat \<Rightarrow> nat \<Rightarrow> u8 list \<Rightarrow> physmem \<Rightarrow> physmem \<times> u8 list" where
  "pmemcpy_in_loop len srcpage offset i dest m =
     (if i < len then
        (let n = copylen len i offset; m = scratch_map srcpage m in
         pmemcpy_in_loop len (sz_add srcpage ARCH_PAGESIZE) 0 (i + n) (dest @ window_read offset n m) m)
      else (m, dest))"
  by pat_completeness auto
termination
  by (relation "measure (\<lambda>(len, _, offset, i, _, _). 2 * (len - i) + (if offset = 0 then 0 else 1))") (auto simp: copylen_def ARCH_PAGESIZE_def)

function pmemcpy_out_loop :: "nat \<Rightarrow> nat \<Rightarrow> nat \<Rightarrow> nat \<Rightarrow> u8 list \<Rightarrow> physmem \<Rightarrow> physmem res" where
  "pmemcpy_out_loop len destpage offset i src m =
     (if i < len then
        (let n = copylen len i offset in
         bind_res (if n \<le> length src then Inr (take n src) else Inl Out_of_bounds) (\<lambda>bytes.
         pmemcpy_out_loop len (sz_add destpage ARCH_PAGESIZE) 0 (i + n) (drop n src) (window_write offset bytes (scratch_map destpage m))))
      else Inr m)"
  by pat_completeness auto
termination
  by (relation "measure (\<lambda>(len, _, offset, i, _, _). 2 * (len - i) + (if offset = 0 then 0 else 1))") (auto simp: copylen_def ARCH_PAGESIZE_def)

function pmemset_loop :: "nat \<Rightarrow> nat \<Rightarrow> nat \<Rightarrow> nat \<Rightarrow> u8 \<Rightarrow> physmem \<Rightarrow> physmem" where
  "pmemset_loop len destpage offset i byte m =
     (if i < len then
        (let n = copylen len i offset in
         pmemset_loop len (sz_add destpage ARCH_PAGESIZE) 0 (i + n) byte (window_write offset (replicate n byte) (scratch_map destpage m)))
      else m)"
  by pat_completeness auto
termination
  by (relation "measure (\<lambda>(len, _, offset, i, _, _). 2 * (len - i) + (if offset = 0 then 0 else 1))") (auto simp: copylen_def ARCH_PAGESIZE_def)

declare pmemcpy_in_loop.simps [simp del] pmemcpy_out_loop.simps [simp del] pmemset_loop.simps [simp del]

definition pmemcpy_in :: "nat \<Rightarrow> nat \<Rightarrow> physmem \<Rightarrow> (physmem \<times> u8 list) res" where
  "pmemcpy_in src len m =
     bind_res (align_down src ARCH_PAGESIZE) (\<lambda>srcpage. Inr (pmemcpy_in_loop len srcpage (src - srcpage) 0 [] m))"

definition pmemcpy_out :: "nat \<Rightarrow> u8 list \<Rightarrow> nat \<Rightarrow> physmem \<Rightarrow> physmem res" where
  "pmemcpy_out dest src len m =
     bind_res (align_down dest ARCH_PAGESIZE) (\<lambda>destpage. pmemcpy_out_loop len destpage (dest - destpage) 0 src m)"

definition pmemset :: "nat \<Rightarrow> u8 \<Rightarrow> nat \<Rightarrow> physmem \<Rightarrow> physmem res" where
  "pmemset dest byte len m =
     bind_res (align_down dest ARCH_PAGESIZE) (\<lambda>destpage. Inr (pmemset_loop len destpage (dest - destpage) 0 byte m))"

definition ppeek8 :: "nat \<Rightarrow> physmem \<Rightarrow> (physmem \<times> u8) res" where
  "ppeek8 at m = bind_res (pmemcpy_in at 1 m) (\<lambda>(m, bytes). bind_res (load bytes 0) (\<lambda>b. Inr (m, b)))"

definition ppeek16 :: "nat \<Rightarrow> physmem \<Rightarrow> (physmem \<times> u16) res" where
  "ppeek16 at m = bind_res (pmemcpy_in at 2 m) (\<lambda>(m, bytes). bind_res (u16le_at bytes) (\<lambda>w. Inr (m, w)))"

definition ppeek32 :: "nat \<Rightarrow> physmem \<Rightarrow> (physmem \<times> u32) res" where
  "ppeek32 at m = bind_res (pmemcpy_in at 4 m) (\<lambda>(m, bytes). bind_res (u32le_at bytes) (\<lambda>w. Inr (m, w)))"

definition ppoke8 :: "nat \<Rightarrow> u8 \<Rightarrow> physmem \<Rightarrow> physmem res" where
  "ppoke8 to val m = pmemcpy_out to [val] 1 m"

definition ppoke16 :: "nat \<Rightarrow> u16 \<Rightarrow> physmem \<Rightarrow> physmem res" where
  "ppoke16 to val m = pmemcpy_out to (bytes_le16 val) 2 m"

definition ppoke32 :: "nat \<Rightarrow> u32 \<Rightarrow> physmem \<Rightarrow> physmem res" where
  "ppoke32 to val m = pmemcpy_out to (bytes_le32 val) 4 m"

definition pmemcpy :: "nat \<Rightarrow> nat \<Rightarrow> nat \<Rightarrow> physmem \<Rightarrow> physmem res" where
  "pmemcpy dest src len =
     fold_res (\<lambda>i m. bind_res (ppeek8 (sz_add src i) m) (\<lambda>(m, b). ppoke8 (sz_add dest i) b m)) [0..<len]"

subsection \<open>Copies are copies\<close>

definition phys_bytes :: "(nat \<Rightarrow> u8) \<Rightarrow> nat \<Rightarrow> nat \<Rightarrow> u8 list" where
  "phys_bytes f a n = map f [a..<a + n]"

definition phys_put :: "(nat \<Rightarrow> u8) \<Rightarrow> nat \<Rightarrow> u8 list \<Rightarrow> nat \<Rightarrow> u8" where
  "phys_put f a bs = (\<lambda>x. if a \<le> x \<and> x < a + length bs then bs ! (x - a) else f x)"

lemma phys_bytes_append: "phys_bytes f a (n + k) = phys_bytes f a n @ phys_bytes f (a + n) k"
  unfolding phys_bytes_def using upt_add_eq_append [of a "a + n" k] by (simp add: add.assoc)

lemma phys_put_append: "phys_put (phys_put f a xs) (a + length xs) ys = phys_put f a (xs @ ys)"
  by (rule ext) (auto simp: phys_put_def nth_append)

lemma phys_bytes_put: "phys_bytes (phys_put f a bs) a (length bs) = bs"
  by (rule nth_equalityI) (auto simp: phys_bytes_def phys_put_def)

lemma phys_bytes_put_other: "a + n \<le> b \<or> b + length bs \<le> a \<Longrightarrow> phys_bytes (phys_put f b bs) a n = phys_bytes f a n"
  by (auto simp: phys_bytes_def phys_put_def)

lemma window_read_bytes: "window_read off n (scratch_map p m) = phys_bytes (phys m) (p + off) n"
  unfolding window_read_def phys_bytes_def scratch_map_def by (rule nth_equalityI) (auto simp: add.assoc)

lemma window_write_put: "phys (window_write off bs (scratch_map p m)) = phys_put (phys m) (p + off) bs"
  by (auto simp: window_write_def phys_put_def scratch_map_def)

text \<open>The next page: after a whole piece, page and offset stand for the address behind it, if there is one.\<close>

lemma next_piece:
  assumes "off < ARCH_PAGESIZE" "page + off + (len - i) \<le> 2 ^ 32" "page mod ARCH_PAGESIZE = 0" "i < len" "i + copylen len i off < len"
  shows "sz_add page ARCH_PAGESIZE = page + off + copylen len i off"
    and "page + off + copylen len i off + (len - (i + copylen len i off)) \<le> 2 ^ 32" and "sz_add page ARCH_PAGESIZE mod ARCH_PAGESIZE = 0"
proof -
  have c: "copylen len i off = ARCH_PAGESIZE - off" using assms(5) by (auto simp: copylen_def min_def split: if_splits)
  then have "page + ARCH_PAGESIZE < 2 ^ 32" using assms by linarith
  then have s: "sz_add page ARCH_PAGESIZE = page + ARCH_PAGESIZE" by (simp add: sz_add_def)
  show "sz_add page ARCH_PAGESIZE = page + off + copylen len i off" using s c assms(1) by simp
  show "page + off + copylen len i off + (len - (i + copylen len i off)) \<le> 2 ^ 32" using assms by linarith
  show "sz_add page ARCH_PAGESIZE mod ARCH_PAGESIZE = 0" using s assms(3) by simp
qed

lemma copylen_pos: "i < len \<Longrightarrow> off < ARCH_PAGESIZE \<Longrightarrow> 0 < copylen len i off"
  by (simp add: copylen_def)

lemma copylen_le: "copylen len i off \<le> len - i"
  by (simp add: copylen_def)

lemma pmemcpy_in_loop_bytes:
  "off < ARCH_PAGESIZE \<Longrightarrow> page + off + (len - i) \<le> 2 ^ 32 \<Longrightarrow> page mod ARCH_PAGESIZE = 0 \<Longrightarrow> i \<le> len \<Longrightarrow>
   \<exists>w. pmemcpy_in_loop len page off i dest m = (m\<lparr>window := w\<rparr>, dest @ phys_bytes (phys m) (page + off) (len - i))"
proof (induction len page off i dest m rule: pmemcpy_in_loop.induct)
  case (1 len page off i dest m)
  show ?case
  proof (cases "i < len")
    case False
    then have "m\<lparr>window := window m\<rparr> = m" "phys_bytes (phys m) (page + off) (len - i) = []" by (simp_all add: phys_bytes_def)
    then show ?thesis using False by (subst pmemcpy_in_loop.simps) (auto intro!: exI [of _ "window m"])
  next
    case True
    let ?n = "copylen len i off" and ?m = "scratch_map page m"
    have loop: "pmemcpy_in_loop len page off i dest m = pmemcpy_in_loop len (sz_add page ARCH_PAGESIZE) 0 (i + ?n) (dest @ window_read off ?n ?m) ?m"
      using True by (subst pmemcpy_in_loop.simps) (simp add: Let_def)
    have le: "?n \<le> len - i" by (rule copylen_le)
    then have sum: "?n + (len - (i + ?n)) = len - i" using True by linarith
    show ?thesis
    proof (cases "i + ?n < len")
      case more: True
      note n = next_piece [OF 1(2,3,4) True more]
      have "\<exists>w. pmemcpy_in_loop len (sz_add page ARCH_PAGESIZE) 0 (i + ?n) (dest @ window_read off ?n ?m) ?m =
          (?m\<lparr>window := w\<rparr>, (dest @ window_read off ?n ?m) @ phys_bytes (phys ?m) (sz_add page ARCH_PAGESIZE + 0) (len - (i + ?n)))"
        by (rule 1(1) [OF True refl refl]) (use n more in \<open>simp_all add: ARCH_PAGESIZE_def\<close>)
      moreover have "phys_bytes (phys m) (page + off) (len - i) = phys_bytes (phys m) (page + off) ?n @ phys_bytes (phys m) (page + off + ?n) (len - (i + ?n))"
        using phys_bytes_append [of "phys m" "page + off" ?n "len - (i + ?n)"] sum by simp
      ultimately show ?thesis unfolding loop using n(1) by (auto simp: window_read_bytes) (auto simp: scratch_map_def)
    next
      case False
      then have "?n = len - i" using le by linarith
      then show ?thesis unfolding loop using False by (subst pmemcpy_in_loop.simps) (simp add: window_read_bytes, auto simp: scratch_map_def)
    qed
  qed
qed

lemma pmemcpy_out_loop_bytes:
  "off < ARCH_PAGESIZE \<Longrightarrow> page + off + (len - i) \<le> 2 ^ 32 \<Longrightarrow> page mod ARCH_PAGESIZE = 0 \<Longrightarrow> i \<le> len \<Longrightarrow> len - i \<le> length src \<Longrightarrow>
   \<exists>m'. pmemcpy_out_loop len page off i src m = Inr m' \<and> phys m' = phys_put (phys m) (page + off) (take (len - i) src)"
proof (induction len page off i src m rule: pmemcpy_out_loop.induct)
  case (1 len page off i src m)
  show ?case
  proof (cases "i < len")
    case False
    then show ?thesis by (subst pmemcpy_out_loop.simps) (auto simp: phys_put_def fun_eq_iff)
  next
    case True
    let ?n = "copylen len i off" and ?m = "window_write off (take (copylen len i off) src) (scratch_map page m)"
    have le: "?n \<le> len - i" by (rule copylen_le)
    then have fit: "?n \<le> length src" and sum: "?n + (len - (i + ?n)) = len - i" using 1(6) True by linarith+
    have loop: "pmemcpy_out_loop len page off i src m = pmemcpy_out_loop len (sz_add page ARCH_PAGESIZE) 0 (i + ?n) (drop ?n src) ?m"
      using True fit by (subst pmemcpy_out_loop.simps) (simp add: Let_def)
    have p: "phys ?m = phys_put (phys m) (page + off) (take ?n src)" by (rule window_write_put)
    show ?thesis
    proof (cases "i + ?n < len")
      case more: True
      note n = next_piece [OF 1(2,3,4) True more]
      have "\<exists>m'. pmemcpy_out_loop len (sz_add page ARCH_PAGESIZE) 0 (i + ?n) (drop ?n src) ?m = Inr m' \<and>
          phys m' = phys_put (phys ?m) (sz_add page ARCH_PAGESIZE + 0) (take (len - (i + ?n)) (drop ?n src))"
        by (rule 1(1) [OF True refl]) (use n more fit 1(6) in \<open>simp_all add: ARCH_PAGESIZE_def\<close>)
      moreover have "phys_put (phys ?m) (page + off + ?n) (take (len - (i + ?n)) (drop ?n src)) = phys_put (phys m) (page + off) (take (len - i) src)"
        using phys_put_append [of "phys m" "page + off" "take ?n src" "take (len - (i + ?n)) (drop ?n src)"] fit p take_add [of ?n "len - (i + ?n)" src] sum by simp
      ultimately show ?thesis unfolding loop using n(1) by simp
    next
      case False
      then have "?n = len - i" using le by linarith
      then show ?thesis unfolding loop using False p by (subst pmemcpy_out_loop.simps) simp
    qed
  qed
qed

lemma pmemcpy_in_bytes:
  assumes "src + len \<le> 2 ^ 32"
  shows "\<exists>w. pmemcpy_in src len m = Inr (m\<lparr>window := w\<rparr>, phys_bytes (phys m) src len)"
  using pmemcpy_in_loop_bytes [of "src mod ARCH_PAGESIZE" "src - src mod ARCH_PAGESIZE" len 0 "[]" m] assms
  by (auto simp: pmemcpy_in_def align_down_def ARCH_PAGESIZE_def)

lemma pmemcpy_out_bytes:
  assumes "dest + len \<le> 2 ^ 32" "len \<le> length src"
  shows "\<exists>m'. pmemcpy_out dest src len m = Inr m' \<and> phys m' = phys_put (phys m) dest (take len src)"
  using pmemcpy_out_loop_bytes [of "dest mod ARCH_PAGESIZE" "dest - dest mod ARCH_PAGESIZE" len 0 src m] assms
  by (auto simp: pmemcpy_out_def align_down_def ARCH_PAGESIZE_def)

end
