(* ===== verification/Stream_Printf.thy ===== *)
theory Stream_Printf
  imports Prelude
begin

text \<open>
  Formatted output (kernel/io/stream.c). The \<open>write\<close> operation of a stream is an argument: it takes the
  stream's state and one byte, and returns the new state and a count or a negative error. Format strings
  and strings end where the HOL list ends (the terminating NUL). \<open>ULONG\<close> is 32 bits wide; values are
  printed from 64-bit variables.
\<close>

type_synonym 's writer = "'s \<Rightarrow> char \<Rightarrow> 's \<times> int"

subsection \<open>Characters and strings\<close>

definition stream_put_char :: "'s writer \<Rightarrow> 's \<Rightarrow> char \<Rightarrow> ('s \<times> int) res" where
  "stream_put_char write s c =
     (let (s, result) = write s c in
      if result < 0 then Inr (s, result)
      else if result = 0 then Inl Assert_fail else Inr (s, result))"

fun put_string_loop :: "'s writer \<Rightarrow> 's \<Rightarrow> string \<Rightarrow> nat \<Rightarrow> ('s \<times> int) res" where
  "put_string_loop write s [] written_count = Inr (s, to_ssize written_count)"
| "put_string_loop write s (c # cs) written_count =
     bind_res (stream_put_char write s c) (\<lambda>(s, result).
     if result < 0 then Inr (s, result) else put_string_loop write s cs (sz_add written_count 1))"

definition stream_put_string :: "'s writer \<Rightarrow> 's \<Rightarrow> string option \<Rightarrow> ('s \<times> int) res" where
  "stream_put_string write s str = put_string_loop write s (case str of None \<Rightarrow> ''<null>'' | Some cs \<Rightarrow> cs) 0"

subsection \<open>Numbers\<close>

text \<open>
  The loops of the measuring and printing functions, for base \<open>b\<close> (10 or 16). The divisor is 32 bits
  wide, the value printed 64 bits.
\<close>

function divisor_loop :: "nat \<Rightarrow> nat \<Rightarrow> nat \<Rightarrow> nat" where
  "divisor_loop b current divisor =
     (if 1 < b \<and> current div b \<noteq> 0 then divisor_loop b (current div b) (sz_mul divisor b) else divisor)"
  by auto
termination
  by (relation "measure (\<lambda>(b, c, d). c)") (auto simp: div_greater_zero_iff)

function measure_loop :: "nat \<Rightarrow> nat \<Rightarrow> nat \<Rightarrow> nat" where
  "measure_loop b divisor len = (if 1 < b \<and> divisor \<noteq> 0 then measure_loop b (divisor div b) (sz_add len 1) else len)"
  by auto
termination
  by (relation "measure (\<lambda>(b, d, l). d)") auto

function print_loop :: "'s writer \<Rightarrow> (nat \<Rightarrow> char) \<Rightarrow> nat \<Rightarrow> 's \<Rightarrow> nat \<Rightarrow> nat \<Rightarrow> nat \<Rightarrow> ('s \<times> int) res" where
  "print_loop write dig b s i divisor written_count =
     (if 1 < b \<and> divisor \<noteq> 0 then
        bind_res (stream_put_char write s (dig (i div divisor mod b))) (\<lambda>(s, result).
        if result < 0 then Inr (s, result) else print_loop write dig b s i (divisor div b) (sz_add written_count 1))
      else Inr (s, to_ssize written_count))"
  by auto
termination
  by (relation "measure (\<lambda>(w, g, b, s, i, d, n). d)") auto

declare divisor_loop.simps [simp del] measure_loop.simps [simp del] print_loop.simps [simp del]

definition dec_digit :: "nat \<Rightarrow> char" where
  "dec_digit digit = char_of (48 + digit)"

definition hex_digit :: "bool \<Rightarrow> nat \<Rightarrow> char" where
  "hex_digit uppercase digit = (if digit < 10 then char_of (48 + digit) else char_of ((if uppercase then 65 else 97) + (digit - 10)))"

definition measure_dec_unsigned :: "nat \<Rightarrow> nat" where
  "measure_dec_unsigned i = measure_loop 10 (divisor_loop 10 (i mod 2 ^ 32) 1) 0"


definition print_dec_unsigned :: "'s writer \<Rightarrow> 's \<Rightarrow> nat \<Rightarrow> ('s \<times> int) res" where
  "print_dec_unsigned write s i = print_loop write dec_digit 10 s i (divisor_loop 10 (i mod 2 ^ 32) 1) 0"


definition measurehex :: "nat \<Rightarrow> nat" where
  "measurehex i = measure_loop 16 (divisor_loop 16 (i mod 2 ^ 32) 1) 0"

definition print_hex :: "'s writer \<Rightarrow> 's \<Rightarrow> nat \<Rightarrow> bool \<Rightarrow> ('s \<times> int) res" where
  "print_hex write s i uppercase = print_loop write (hex_digit uppercase) 16 s i (divisor_loop 16 (i mod 2 ^ 32) 1) 0"

subsection \<open>Format strings\<close>































definition stream_get_char :: "('s \<Rightarrow> 's \<times> int \<times> u8) \<Rightarrow> 's \<Rightarrow> u8 \<Rightarrow> 's \<times> int" where
  "stream_get_char read s chr0 =
     (let (s, sz, chr) = read s in
      if sz = 0 then (s, -1) else (s, if sz < 0 then uint chr0 else uint chr))"

subsection \<open>Writing a string\<close>













subsection \<open>Printing numbers\<close>

text \<open>The reference: the digits of a number in base \<open>b\<close>.\<close>

function radix :: "(nat \<Rightarrow> char) \<Rightarrow> nat \<Rightarrow> nat \<Rightarrow> string" where
  "radix dig b n = (if 1 < b \<and> b \<le> n then radix dig b (n div b) @ [dig (n mod b)] else [dig n])"
  by auto
termination
  by (relation "measure (\<lambda>(g, b, n). n)") auto

declare radix.simps [simp del]

function top_exp :: "nat \<Rightarrow> nat \<Rightarrow> nat" where
  "top_exp b n = (if 1 < b \<and> b \<le> n then Suc (top_exp b (n div b)) else 0)"
  by auto
termination
  by (relation "measure (\<lambda>(b, n). n)") auto

declare top_exp.simps [simp del]

fun digits :: "(nat \<Rightarrow> char) \<Rightarrow> nat \<Rightarrow> nat \<Rightarrow> nat \<Rightarrow> string" where
  "digits dig b i 0 = [dig (i mod b)]"
| "digits dig b i (Suc k) = dig (i div b ^ Suc k mod b) # digits dig b i k"

lemma digits_snoc: "digits dig b i (Suc k) = digits dig b (i div b) k @ [dig (i mod b)]"
  by (induction k) (simp_all add: div_mult2_eq)

lemma radix_digits: "1 < b \<Longrightarrow> radix dig b n = digits dig b n (top_exp b n)"
proof (induction dig b n rule: radix.induct)
  case (1 dig b n)
  show ?case
  proof (cases "b \<le> n")
    case True
    then show ?thesis using 1 by (simp add: radix.simps [of dig b n] top_exp.simps [of b n] digits_snoc del: digits.simps)
  next
    case False
    then show ?thesis by (simp add: radix.simps [of dig b n] top_exp.simps [of b n])
  qed
qed

lemma length_radix: "1 < b \<Longrightarrow> length (radix dig b n) = Suc (top_exp b n)"
proof -
  have "length (digits dig b n k) = Suc k" for k by (induction k) simp_all
  then show "1 < b \<Longrightarrow> length (radix dig b n) = Suc (top_exp b n)" by (simp add: radix_digits)
qed

lemma power_top: "1 < b \<Longrightarrow> 0 < n \<Longrightarrow> b ^ top_exp b n \<le> n"
proof (induction b n rule: top_exp.induct)
  case (1 b n)
  show ?case
  proof (cases "b \<le> n")
    case True
    then have "b ^ top_exp b (n div b) \<le> n div b" using 1 by (simp add: div_greater_zero_iff)
    then have "b * b ^ top_exp b (n div b) \<le> n" by (metis mult_le_mono2 order_trans times_div_less_eq_dividend)
    then show ?thesis using True 1(2) by (simp add: top_exp.simps [of b n])
  qed (use 1(3) in \<open>simp add: top_exp.simps [of b n]\<close>)
qed

lemma power_top32: "1 < b \<Longrightarrow> n < 2 ^ 32 \<Longrightarrow> b ^ top_exp b n < 2 ^ 32"
  using power_top [of b n] by (cases "n = 0") (auto simp: top_exp.simps [of b 0])

lemma top_small: "1 < b \<Longrightarrow> n < 2 ^ 32 \<Longrightarrow> top_exp b n < 32"
proof -
  assume "1 < b" "n < 2 ^ 32"
  then have "b ^ top_exp b n < 2 ^ 32" by (rule power_top32)
  moreover have "(2 :: nat) ^ top_exp b n \<le> b ^ top_exp b n" using \<open>1 < b\<close> by (simp add: power_mono)
  ultimately have "(2 :: nat) ^ top_exp b n < 2 ^ 32" by (rule le_less_trans [rotated])
  then show "top_exp b n < 32" by (rule power_less_imp_less_exp [rotated]) simp
qed

lemma divisor_loop_power:
  "1 < b \<Longrightarrow> d * b ^ top_exp b n < 2 ^ 32 \<Longrightarrow> divisor_loop b n d = d * b ^ top_exp b n"
proof (induction b n d rule: divisor_loop.induct)
  case (1 b n d)
  show ?case
  proof (cases "b \<le> n")
    case True
    then have t: "top_exp b n = Suc (top_exp b (n div b))" "n div b \<noteq> 0" using 1(2) by (auto simp: top_exp.simps [of b n] div_eq_0_iff)
    have "d * b \<le> d * b * b ^ top_exp b (n div b)" using 1(2) by simp
    also have "\<dots> < 2 ^ 32" using 1(3) unfolding t(1) by (simp add: mult.assoc)
    finally have "d * b < 2 ^ 32" .
    then have "sz_mul d b = d * b" by (simp add: sz_mul_no_wrap)
    then show ?thesis using 1 t by (simp add: divisor_loop.simps [of b n d] mult.assoc)
  qed (use 1(2) in \<open>simp add: divisor_loop.simps [of b n d] top_exp.simps [of b n]\<close>)
qed

lemma measure_loop_power:
  "1 < b \<Longrightarrow> l + Suc k < 2 ^ 32 \<Longrightarrow> measure_loop b (b ^ k) l = l + Suc k"
proof (induction k arbitrary: l)
  case 0
  then show ?case by (simp add: measure_loop.simps [of b "Suc 0"] measure_loop.simps [of b 0] sz_add_def)
next
  case (Suc k)
  have "sz_add l 1 = Suc l" using Suc.prems by (simp add: sz_add_def)
  then show ?case using Suc by (simp add: measure_loop.simps [of b "b * b ^ k"])
qed

lemma print_loop_power:
  "1 < b \<Longrightarrow> print_loop write dig b s i (b ^ k) w = put_string_loop write s (digits dig b i k) w"
proof (induction k arbitrary: s w)
  case 0
  then show ?case by (auto simp: print_loop.simps [of "write" dig b s i "Suc 0"] print_loop.simps [of "write" dig b _ i 0] intro!: bind_res_cong)
next
  case (Suc k)
  then show ?case by (auto simp: print_loop.simps [of "write" dig b s i "b * b ^ k"] intro!: bind_res_cong)
qed

text \<open>The functions for values of at most 32 bits.\<close>

definition dec :: "nat \<Rightarrow> string" where
  "dec n = radix dec_digit 10 n"

definition hex :: "bool \<Rightarrow> nat \<Rightarrow> string" where
  "hex uppercase n = radix (hex_digit uppercase) 16 n"


lemma divisor_power: "1 < b \<Longrightarrow> n < 2 ^ 32 \<Longrightarrow> divisor_loop b (n mod 2 ^ 32) 1 = b ^ top_exp b n"
  using divisor_loop_power [of b 1 n] power_top32 [of b n] by simp

lemma base_gt: "(1 :: nat) < 10" "(1 :: nat) < 16"
  by simp_all

lemmas divisor_powers = divisor_power [OF base_gt(1)] divisor_power [OF base_gt(2)]

lemma print_unsigned_eq:
  "n < 2 ^ 32 \<Longrightarrow> print_dec_unsigned write s n = put_string_loop write s (dec n) 0"
  "n < 2 ^ 32 \<Longrightarrow> print_hex write s n up = put_string_loop write s (hex up n) 0"
  unfolding print_dec_unsigned_def print_hex_def dec_def hex_def
  by (simp_all only: divisor_powers base_gt print_loop_power radix_digits)

lemma measure_unsigned_eq:
  "n < 2 ^ 32 \<Longrightarrow> measure_dec_unsigned n = length (dec n)" "n < 2 ^ 32 \<Longrightarrow> measurehex n = length (hex up n)"
proof -
  have "measure_loop b (b ^ top_exp b n) 0 = Suc (top_exp b n)" if "n < 2 ^ 32" "1 < b" for b
    using measure_loop_power [of b 0 "top_exp b n"] top_small [of b n] that by simp
  then show "n < 2 ^ 32 \<Longrightarrow> measure_dec_unsigned n = length (dec n)" "n < 2 ^ 32 \<Longrightarrow> measurehex n = length (hex up n)"
    unfolding measure_dec_unsigned_def measurehex_def dec_def hex_def
    by (simp_all only: divisor_powers base_gt length_radix)
qed




subsection \<open>The reference formatter\<close>















text \<open>The value of a string of decimal digits.\<close>

definition dec_value :: "string \<Rightarrow> nat" where
  "dec_value cs = foldl (\<lambda>v c. v * 10 + (of_char c - 48)) 0 cs"

lemma dec_value_dec: "dec_value (dec n) = n"
proof -
  have digit: "of_char (dec_digit d) = 48 + d" if "d < 10" for d
    using that by (simp add: dec_digit_def)
  have "foldl (\<lambda>v c. v * 10 + (of_char c - 48)) 0 (radix dec_digit 10 n) = n"
    by (induction n rule: less_induct) (simp add: radix.simps [of _ 10] digit)
  then show ?thesis by (simp add: dec_value_def dec_def)
qed

lemma dec_no_leading_zero: "10 \<le> n \<Longrightarrow> hd (dec n) \<noteq> CHR ''0''"
proof -
  have zero: "dec_digit d \<noteq> CHR ''0''" if "0 < d" "d < 10" for d
  proof
    assume "dec_digit d = CHR ''0''"
    then have "(of_char (dec_digit d) :: nat) = 48" by simp
    then show False using that by (simp add: dec_digit_def)
  qed
  have ne: "radix dec_digit 10 m \<noteq> []" for m by (simp add: radix.simps [of _ 10])
  have "0 < n \<longrightarrow> hd (radix dec_digit 10 n) \<noteq> CHR ''0''"
    by (induction n rule: less_induct) (auto simp: radix.simps [of _ 10] zero ne hd_append)
  then show "10 \<le> n \<Longrightarrow> hd (dec n) \<noteq> CHR ''0''" by (simp add: dec_def)
qed

subsection \<open>Properties\<close>





text \<open>
  Printing an unsigned value below \<open>2 ^ 32\<close> in decimal writes digits that read back as the value,
  without a leading zero, and the measuring function (used for the padding) returns their number.
\<close>

lemma print_dec_roundtrip:
  assumes "i < 2 ^ 32"
  shows "\<exists>txt. print_dec_unsigned write s i = stream_put_string write s (Some txt) \<and> dec_value txt = i \<and>
    measure_dec_unsigned i = length txt \<and> (10 \<le> i \<longrightarrow> hd txt \<noteq> CHR ''0'')"
  using print_unsigned_eq(1) [OF assms, of "write" s] dec_value_dec dec_no_leading_zero measure_unsigned_eq(1) [OF assms]
  by (intro exI [of _ "dec i"]) (simp add: stream_put_string_def)

text \<open>
  Larger values are not printed: the divisor is computed from the low 32 bits of the value only,
  so of a multiple of \<open>2 ^ 32\<close> just the last decimal digit is written (\<open>4294967296\<close> prints as \<open>6\<close>).
\<close>

lemma print_dec_64bit_truncated:
  assumes "i mod 2 ^ 32 = 0"
  shows "print_dec_unsigned write s i = stream_put_string write s (Some [dec_digit (i mod 10)])"
proof -
  have "divisor_loop 10 (i mod 2 ^ 32) 1 = 10 ^ 0" unfolding assms by (simp add: divisor_loop.simps [of 10 0])
  then show ?thesis
    using print_loop_power [of 10 "write" dec_digit s i 0 0] by (simp add: print_dec_unsigned_def stream_put_string_def)
qed

end
