(* ===== verification/Heap.thy ===== *)
theory Heap
  imports Bitmap
begin

text \<open>
  The kernel heap (kernel/mem/heap.c): pools of 64 byte blocks with a bitmap of free blocks, allocations
  with a header in front and a poison pattern behind the data, and the check of all poison patterns at
  the start and end of every operation.

  Memory is a map from addresses to bytes. The headers of pools and allocations are records in the lists
  \<open>s_heap_pool_list\<close> and \<open>s_alloc_list\<close> (with the address of the structure), not bytes of this map; a pointer
  is followed by looking its address up. What the C compiler and the linker decide (sizes and alignment of
  the structures, the address of the initial heap) and which addresses are mapped is the record \<open>platform\<close>.
\<close>

record platform =
  sizeof_alloc_header :: nat
  sizeof_pool_header :: nat
  max_align :: nat
  s_initial_heap_memory :: nat
  mapped :: "nat \<Rightarrow> bool"

definition initial_heap_size :: nat where "initial_heap_size = 1024 * 1024 * 2"

definition POISONVALUES :: "u8 list" where
  "POISONVALUES = [0xe9, 0x29, 0xf3, 0xfb, 0xd7, 0x67, 0xaa, 0x5a]"

definition BLOCK_SIZE :: nat where "BLOCK_SIZE = 64"
definition HEAP_PAGESIZE :: nat where "HEAP_PAGESIZE = 4096"
definition HEAP_FLAG_ZEROMEMORY :: u8 where "HEAP_FLAG_ZEROMEMORY = push_bit 0 1"

record pool_header =
  pool_addr :: nat
  blockpool :: nat
  blockbitmap :: bitmap
  block_count :: nat
  usedblock_count :: nat
  page_count :: nat

record alloc_header =
  alloc_addr :: nat
  alloc_pool :: nat
  alloc_block_count :: nat
  alloc_size :: nat

record heap =
  s_free_block_count :: nat
  s_heap_pool_list :: "pool_header list"
  s_alloc_list :: "alloc_header list"
  s_initial_heap_initialized :: bool
  mem :: "nat \<Rightarrow> u8"

subsection \<open>Memory\<close>

definition mem_fill :: "(nat \<Rightarrow> u8) \<Rightarrow> nat \<Rightarrow> nat \<Rightarrow> u8 \<Rightarrow> nat \<Rightarrow> u8" where
  "mem_fill m a n v = (\<lambda>x. if sz_sub x a < n then v else m x)"

definition mem_copy :: "(nat \<Rightarrow> u8) \<Rightarrow> nat \<Rightarrow> nat \<Rightarrow> nat \<Rightarrow> nat \<Rightarrow> u8" where
  "mem_copy m dest src n = (\<lambda>x. if sz_sub x dest < n then m (sz_add src (sz_sub x dest)) else m x)"

definition mem_poison :: "(nat \<Rightarrow> u8) \<Rightarrow> nat \<Rightarrow> nat \<Rightarrow> u8" where
  "mem_poison m a = (\<lambda>x. if sz_sub x a < length POISONVALUES then POISONVALUES ! sz_sub x a else m x)"

subsection \<open>Operations\<close>

definition actual_alloc_size :: "platform \<Rightarrow> nat \<Rightarrow> nat" where
  "actual_alloc_size pf sz = sz_add (sz_add sz (sizeof_alloc_header pf)) (length POISONVALUES)"

definition alloc_data :: "platform \<Rightarrow> alloc_header \<Rightarrow> nat" where
  "alloc_data pf a = sz_add (alloc_addr a) (sizeof_alloc_header pf)"

definition poison_ok :: "platform \<Rightarrow> (nat \<Rightarrow> u8) \<Rightarrow> alloc_header \<Rightarrow> bool" where
  "poison_ok pf m a \<longleftrightarrow>
     list_all (\<lambda>i. m (sz_add (sz_add (alloc_data pf a) (alloc_size a)) i) = POISONVALUES ! i) [0..<length POISONVALUES]"

definition heap_check_overflow :: "platform \<Rightarrow> heap \<Rightarrow> unit res" where
  "heap_check_overflow pf h =
     (if list_all (\<lambda>a. mapped pf (alloc_addr a) \<and> poison_ok pf (mem h) a) (s_alloc_list h) then Inr () else Inl Panic)"

fun assert_bits_loop :: "bool \<Rightarrow> bitmap \<Rightarrow> int \<Rightarrow> nat list \<Rightarrow> unit res" where
  "assert_bits_loop v bm block_index [] = Inr ()"
| "assert_bits_loop v bm block_index (i # is) =
     bind_res (bitmap_is_bit_set bm (block_index + int i)) (\<lambda>b.
     bind_res (assert_res (b = v)) (\<lambda>_. assert_bits_loop v bm block_index is))"

text \<open>\<open>alloc_from_pool\<close> on the pool at position \<open>i\<close> of the pool list.\<close>

definition alloc_from_heap_pool :: "platform \<Rightarrow> nat \<Rightarrow> nat \<Rightarrow> heap \<Rightarrow> (heap \<times> nat option) res" where
  "alloc_from_heap_pool pf i sz h =
     (if sz = 0 then Inr (h, None)
      else if size_max - sizeof_alloc_header pf < sz then Inr (h, None)
      else
        (let self = s_heap_pool_list h ! i in
         bind_res (size_to_blocks (actual_alloc_size pf sz) BLOCK_SIZE) (\<lambda>block_count'.
         bind_res (bitmap_find_set_bits (blockbitmap self) 0 block_count') (\<lambda>block_index.
         if block_index < 0 then Inr (h, None)
         else
           bind_res (assert_bits_loop True (blockbitmap self) block_index [0..<block_count']) (\<lambda>_.
           bind_res (bitmap_clear_bits (blockbitmap self) block_index block_count') (\<lambda>bm.
           bind_res (assert_bits_loop False bm block_index [0..<block_count']) (\<lambda>_.
           let alloc_off = sz_mul (to_size block_index) BLOCK_SIZE in
           bind_res (is_aligned alloc_off (max_align pf)) (\<lambda>al.
           bind_res (assert_res al) (\<lambda>_.
           let alloc = \<lparr>alloc_addr = sz_add (blockpool self) alloc_off, alloc_pool = pool_addr self,
                 alloc_block_count = block_count', alloc_size = sz\<rparr>;
               h = h\<lparr>s_heap_pool_list := (s_heap_pool_list h)[i := self\<lparr>blockbitmap := bm,
                 usedblock_count := sz_add (usedblock_count self) block_count'\<rparr>]\<rparr> in
           bind_res (assert_res (block_count' \<le> s_free_block_count h)) (\<lambda>_.
           let data = alloc_data pf alloc;
               m = mem_poison (mem_fill (mem h) data sz 0x90) (sz_add data sz);
               h = h\<lparr>s_free_block_count := s_free_block_count h - block_count', mem := m,
                     s_alloc_list := s_alloc_list h @ [alloc]\<rparr> in
           bind_res (heap_check_overflow pf h) (\<lambda>_. Inr (h, Some data))))))))))))"

text \<open>Reduce the page count until the pages fit into the memory.\<close>

fun shrink_pages :: "nat \<Rightarrow> nat \<Rightarrow> nat" where
  "shrink_pages memsize 0 = 0"
| "shrink_pages memsize (Suc n) =
     (if memsize < sz_mul (Suc n) HEAP_PAGESIZE then shrink_pages memsize n else Suc n)"

definition add_mem :: "platform \<Rightarrow> nat \<Rightarrow> nat \<Rightarrow> heap \<Rightarrow> heap res" where
  "add_mem pf addr memsize h =
     bind_res (size_to_blocks memsize BLOCK_SIZE) (\<lambda>max_block_count.
     bind_res (bitmap_needed_word_count max_block_count) (\<lambda>word_count'.
     let metadata_size = sz_add (sizeof_pool_header pf) (sz_mul word_count' 4);
         maxsize = sz_add metadata_size (sz_mul max_block_count BLOCK_SIZE) in
     bind_res (size_to_blocks maxsize HEAP_PAGESIZE) (\<lambda>pages.
     let page_count' = shrink_pages memsize pages in
     bind_res (size_to_blocks (sz_mul page_count' HEAP_PAGESIZE) BLOCK_SIZE) (\<lambda>totalblock_count.
     bind_res (bitmap_needed_word_count totalblock_count) (\<lambda>word_count'.
     let bitmapsize = sz_mul word_count' 4;
         bitmapsize = sz_add bitmapsize (max_align pf - bitmapsize mod max_align pf);
         totalsize = sz_mul totalblock_count BLOCK_SIZE;
         maxpoolsize = sz_sub (sz_sub totalsize bitmapsize) (sizeof_pool_header pf);
         poolblock_count = maxpoolsize div BLOCK_SIZE;
         poolstart = sz_add (sz_add addr (sizeof_pool_header pf)) bitmapsize in
     bind_res (assert_res (poolstart mod max_align pf = 0)) (\<lambda>_.
     bind_res (bitmap_set_bits \<lparr>words = replicate word_count' 0, word_count = word_count'\<rparr> 0 poolblock_count) (\<lambda>bm.
     let pool = \<lparr>pool_addr = addr, blockpool = poolstart, blockbitmap = bm, block_count = poolblock_count,
           usedblock_count = 0, page_count = page_count'\<rparr> in
     Inr (h\<lparr>s_initial_heap_initialized := True,
            s_free_block_count := sz_add (s_free_block_count h) poolblock_count,
            s_heap_pool_list := s_heap_pool_list h @ [pool]\<rparr>))))))))"

fun alloc_pools_loop :: "platform \<Rightarrow> nat \<Rightarrow> nat list \<Rightarrow> heap \<Rightarrow> (heap \<times> nat option) res" where
  "alloc_pools_loop pf sz [] h = Inr (h, None)"
| "alloc_pools_loop pf sz (i # is) h =
     bind_res (alloc_from_heap_pool pf i sz h) (\<lambda>(h, r).
     if r \<noteq> None then Inr (h, r) else alloc_pools_loop pf sz is h)"

definition heap_alloc :: "platform \<Rightarrow> nat \<Rightarrow> u8 \<Rightarrow> heap \<Rightarrow> (heap \<times> nat option) res" where
  "heap_alloc pf sz flags h =
     bind_res (size_to_blocks (actual_alloc_size pf sz) BLOCK_SIZE) (\<lambda>actualblock_count.
     if sz = 0 then Inr (h, None)
     else if size_max - sizeof_alloc_header pf < sz then Inr (h, None)
     else
       bind_res (heap_check_overflow pf h) (\<lambda>_.
       bind_res (if s_initial_heap_initialized h then Inr h else add_mem pf (s_initial_heap_memory pf) initial_heap_size h) (\<lambda>h.
       bind_res (if actualblock_count < s_free_block_count h
                 then alloc_pools_loop pf sz [0..<length (s_heap_pool_list h)] h else Inr (h, None)) (\<lambda>(h, result).
       bind_res (heap_check_overflow pf h) (\<lambda>_.
       if flags AND HEAP_FLAG_ZEROMEMORY \<noteq> 0 then
         (case result of None \<Rightarrow> Inl Null_deref
          | Some p \<Rightarrow> Inr (h\<lparr>mem := mem_fill (mem h) p sz 0\<rparr>, result))
       else Inr (h, result))))))"

definition alloc_header_of :: "platform \<Rightarrow> nat \<Rightarrow> nat option res" where
  "alloc_header_of pf ptr =
     (if ptr = 0 then Inr None
      else bind_res (is_aligned ptr (max_align pf)) (\<lambda>al.
        if \<not> al \<or> ptr < sizeof_alloc_header pf then Inr None
        else Inr (Some (ptr - sizeof_alloc_header pf))))"

text \<open>Following a pointer to a header: only the headers of live allocations can be read.\<close>

definition find_alloc :: "nat \<Rightarrow> heap \<Rightarrow> alloc_header res" where
  "find_alloc a h = (case find (\<lambda>x. alloc_addr x = a) (s_alloc_list h) of None \<Rightarrow> Inl Bad_argument | Some x \<Rightarrow> Inr x)"

definition find_pool :: "nat \<Rightarrow> heap \<Rightarrow> nat res" where
  "find_pool a h =
     (case find (\<lambda>i. pool_addr (s_heap_pool_list h ! i) = a) [0..<length (s_heap_pool_list h)] of
        None \<Rightarrow> Inl Bad_argument | Some i \<Rightarrow> Inr i)"

definition heap_free :: "platform \<Rightarrow> nat \<Rightarrow> heap \<Rightarrow> heap res" where
  "heap_free pf ptr h =
     (if ptr = 0 then Inr h
      else
        bind_res (alloc_header_of pf ptr) (\<lambda>ao.
        bind_res (heap_check_overflow pf h) (\<lambda>_.
        case ao of None \<Rightarrow> Inl Null_deref
        | Some aa \<Rightarrow>
          bind_res (find_alloc aa h) (\<lambda>alloc.
          let h = h\<lparr>s_alloc_list := filter (\<lambda>x. alloc_addr x \<noteq> aa) (s_alloc_list h)\<rparr> in
          if alloc_pool alloc = 0 then Inl Panic
          else
          bind_res (find_pool (alloc_pool alloc) h) (\<lambda>i.
          let pool = s_heap_pool_list h ! i;
              poolstartaddr = blockpool pool;
              poolendaddr = sz_add poolstartaddr (sz_mul (block_count pool) BLOCK_SIZE);
              allocendaddr = sz_add aa (sz_mul (alloc_block_count alloc) BLOCK_SIZE) in
          if ptr < poolstartaddr \<or> poolendaddr \<le> ptr then Inl Panic
          else if allocendaddr \<le> poolstartaddr \<or> poolendaddr < allocendaddr then Inl Panic
          else if usedblock_count pool < alloc_block_count alloc then Inl Panic
          else
            (let blockindex = sz_sub aa poolstartaddr div BLOCK_SIZE in
             bind_res (bitmap_set_bits (blockbitmap pool) (int blockindex) (alloc_block_count alloc)) (\<lambda>bm.
             let h = h\<lparr>s_heap_pool_list := (s_heap_pool_list h)[i := pool\<lparr>blockbitmap := bm,
                         usedblock_count := usedblock_count pool - alloc_block_count alloc\<rparr>],
                       s_free_block_count := sz_add (s_free_block_count h) (alloc_block_count alloc),
                       mem := mem_fill (mem h) aa (sz_mul (alloc_block_count alloc) BLOCK_SIZE) 0x6f\<rparr> in
             bind_res (heap_check_overflow pf h) (\<lambda>_. Inr h)))))))) "

definition heap_realloc :: "platform \<Rightarrow> nat \<Rightarrow> nat \<Rightarrow> u8 \<Rightarrow> heap \<Rightarrow> (heap \<times> nat option) res" where
  "heap_realloc pf ptr newsize flags h =
     (if ptr = 0 then heap_alloc pf newsize flags h
      else
        bind_res (alloc_header_of pf ptr) (\<lambda>ao.
        bind_res (heap_check_overflow pf h) (\<lambda>_.
        case ao of None \<Rightarrow> Inl Panic
        | Some aa \<Rightarrow>
          bind_res (find_alloc aa h) (\<lambda>alloc.
          let copysize = (if newsize < alloc_size alloc then newsize else alloc_size alloc) in
          bind_res (heap_alloc pf newsize flags h) (\<lambda>(h, newmem).
          case newmem of None \<Rightarrow> Inr (h, None)
          | Some p \<Rightarrow>
            bind_res (heap_free pf ptr (h\<lparr>mem := mem_copy (mem h) p ptr copysize\<rparr>)) (\<lambda>h. Inr (h, Some p)))))))"

definition heap_calloc :: "platform \<Rightarrow> nat \<Rightarrow> nat \<Rightarrow> u8 \<Rightarrow> heap \<Rightarrow> (heap \<times> nat option) res" where
  "heap_calloc pf sz elements flags h =
     (if sz = 0 then Inl Div_zero
      else if size_max div sz < elements then Inr (h, None)
      else heap_alloc pf (sz_mul sz elements) flags h)"

definition heap_realloc_array :: "platform \<Rightarrow> nat \<Rightarrow> nat \<Rightarrow> nat \<Rightarrow> u8 \<Rightarrow> heap \<Rightarrow> (heap \<times> nat option) res" where
  "heap_realloc_array pf ptr newsize newelements flags h =
     (if newsize = 0 then Inl Div_zero
      else if size_max div newsize < newelements then Inr (h, None)
      else heap_realloc pf ptr (sz_mul newsize newelements) flags h)"

definition MAXEXPANDSIZE :: nat where "MAXEXPANDSIZE = 16 * 1024 * 1024"

text \<open>
  \<open>heap_expand\<close>: \<open>total_mem\<close> is the result of \<open>pmm_get_total_mem_size\<close>, and \<open>vmm_alloc n\<close> the start and sz of a
  fresh mapping for a request of \<open>n\<close> bytes, or \<open>None\<close>.
\<close>

definition heap_expand :: "platform \<Rightarrow> nat \<Rightarrow> (nat \<Rightarrow> (nat \<times> nat) option) \<Rightarrow> heap \<Rightarrow> heap res" where
  "heap_expand pf total_mem vmm_alloc h =
     (let heapsize = (if MAXEXPANDSIZE < total_mem then MAXEXPANDSIZE else total_mem) in
      case vmm_alloc heapsize of None \<Rightarrow> Inr h | Some (start, n) \<Rightarrow> add_mem pf start n h)"

subsection \<open>Memory and bit ranges\<close>

lemma sz_sub_range:
  assumes "a + n \<le> 2 ^ 32" and "x < 2 ^ 32"
  shows "sz_sub x a < n \<longleftrightarrow> a \<le> x \<and> x < a + n"
proof (cases "a \<le> x")
  case True
  then show ?thesis using assms sz_sub_no_wrap [of a x] by auto
next
  case False
  have "sz_sub x a = x + (2 ^ 32 - a)"
  proof -
    have "a mod 2 ^ 32 = a \<or> n = 0 \<and> a = 2 ^ 32" using assms False by (cases "a = 2 ^ 32") auto
    then show ?thesis using False assms by (auto simp: sz_sub_def)
  qed
  then show ?thesis using False assms by linarith
qed

lemma clear_bits_get:
  assumes "wf_bitmap bm" and "n + len < 2 ^ 32"
  shows "\<exists>c. bitmap_clear_bits bm (int n) len = Inr c \<and> wf_bitmap c \<and> word_count c = word_count bm \<and>
    (\<forall>k. bm_get c k \<longleftrightarrow> \<not> (n \<le> k \<and> k < n + len) \<and> bm_get bm k)"
proof (cases "len = 0")
  case False
  obtain c where c: "bitmap_clear_bits bm (int n) len = Inr c" "wf_bitmap c" "word_count c = word_count bm"
      "\<forall>k<32 * word_count bm. bm_get c k \<longleftrightarrow> (if n \<le> k \<and> k < n + len then False else bm_get bm k)"
    using range_update_spec [OF andnot_mask_bit assms] False by (auto simp: bitmap_clear_bits_def)
  have "bm_get c k \<longleftrightarrow> \<not> (n \<le> k \<and> k < n + len) \<and> bm_get bm k" for k
    using c(3,4) by (cases "k < 32 * word_count bm") (auto simp: bm_get_def)
  with c show ?thesis by blast
qed (auto simp: bitmap_clear_bits_def assms)

lemma set_bits_get:
  assumes "wf_bitmap bm" and "n + len \<le> 32 * word_count bm" and "n + len < 2 ^ 32"
  shows "\<exists>s. bitmap_set_bits bm (int n) len = Inr s \<and> wf_bitmap s \<and> word_count s = word_count bm \<and>
    (\<forall>k. bm_get s k \<longleftrightarrow> n \<le> k \<and> k < n + len \<or> bm_get bm k)"
proof (cases "len = 0")
  case False
  obtain s where s: "bitmap_set_bits bm (int n) len = Inr s" "wf_bitmap s" "word_count s = word_count bm"
      "\<forall>k<32 * word_count bm. bm_get s k \<longleftrightarrow> (if n \<le> k \<and> k < n + len then True else bm_get bm k)"
    using range_update_spec [OF or_mask_bit assms(1,3)] False by (auto simp: bitmap_set_bits_def)
  have "bm_get s k \<longleftrightarrow> n \<le> k \<and> k < n + len \<or> bm_get bm k" for k
    using s(3,4) assms(2) by (cases "k < 32 * word_count bm") (auto simp: bm_get_def)
  with s show ?thesis by blast
qed (auto simp: bitmap_set_bits_def assms)

lemma assert_bits:
  assumes "wf_bitmap bm" and "\<forall>i\<in>set is. n + i < 32 * word_count bm \<and> bm_get bm (n + i) = v"
  shows "assert_bits_loop v bm (int n) is = Inr ()"
  using assms(2)
proof (induction "is")
  case (Cons i "is")
  have "bitmap_is_bit_set bm (int n + int i) = Inr v"
    using bitmap_is_bit_set_eq [OF assms(1), of "n + i"] Cons.prems by simp
  then show ?case using Cons by simp
qed simp

subsection \<open>Well-formed heaps\<close>

definition platform_ok :: "platform \<Rightarrow> bool" where
  "platform_ok pf \<longleftrightarrow> 0 < max_align pf \<and> max_align pf dvd BLOCK_SIZE \<and> 0 < sizeof_alloc_header pf \<and>
     max_align pf dvd sizeof_alloc_header pf \<and> max_align pf dvd sizeof_pool_header pf \<and>
     sizeof_alloc_header pf < 2 ^ 16 \<and> sizeof_pool_header pf < 2 ^ 10"

definition free_blocks :: "pool_header \<Rightarrow> nat set" where
  "free_blocks p = {k. bm_get (blockbitmap p) k}"

definition pool_span :: "pool_header \<Rightarrow> nat set" where
  "pool_span p = {blockpool p..<blockpool p + BLOCK_SIZE * block_count p}"

definition wf_heap_pool :: "platform \<Rightarrow> pool_header \<Rightarrow> bool" where
  "wf_heap_pool pf p \<longleftrightarrow> wf_bitmap (blockbitmap p) \<and> block_count p \<le> 32 * word_count (blockbitmap p) \<and>
     free_blocks p \<subseteq> {..<block_count p} \<and> usedblock_count p = block_count p - card (free_blocks p) \<and>
     0 < pool_addr p \<and> max_align pf dvd blockpool p \<and> blockpool p + BLOCK_SIZE * block_count p < 2 ^ 32 \<and>
     (\<forall>x\<in>pool_span p. mapped pf x)"

definition alloc_span :: "alloc_header \<Rightarrow> nat set" where
  "alloc_span a = {alloc_addr a..<alloc_addr a + BLOCK_SIZE * alloc_block_count a}"

text \<open>The allocation occupies the blocks from \<open>b\<close> of the pool \<open>p\<close>.\<close>

definition alloc_in :: "platform \<Rightarrow> pool_header \<Rightarrow> alloc_header \<Rightarrow> nat \<Rightarrow> bool" where
  "alloc_in pf p a b \<longleftrightarrow> alloc_pool a = pool_addr p \<and> alloc_addr a = blockpool p + BLOCK_SIZE * b \<and>
     b + alloc_block_count a \<le> block_count p \<and> {b..<b + alloc_block_count a} \<inter> free_blocks p = {}"

definition alloc_fits :: "platform \<Rightarrow> alloc_header \<Rightarrow> bool" where
  "alloc_fits pf a \<longleftrightarrow> 0 < alloc_size a \<and>
     sizeof_alloc_header pf + alloc_size a + length POISONVALUES \<le> BLOCK_SIZE * alloc_block_count a"

definition wf_heap :: "platform \<Rightarrow> heap \<Rightarrow> bool" where
  "wf_heap pf h \<longleftrightarrow> platform_ok pf \<and> s_initial_heap_initialized h \<and>
     (\<forall>p\<in>set (s_heap_pool_list h). wf_heap_pool pf p) \<and>
     distinct (map pool_addr (s_heap_pool_list h)) \<and>
     sorted_wrt (\<lambda>p q. pool_span p \<inter> pool_span q = {}) (s_heap_pool_list h) \<and>
     s_free_block_count h = (\<Sum>p\<leftarrow>s_heap_pool_list h. card (free_blocks p)) \<and>
     (\<Sum>p\<leftarrow>s_heap_pool_list h. block_count p) < 2 ^ 32 \<and>
     (\<forall>a\<in>set (s_alloc_list h). alloc_fits pf a \<and> poison_ok pf (mem h) a \<and>
        (\<exists>p\<in>set (s_heap_pool_list h). \<exists>b. alloc_in pf p a b)) \<and>
     sorted_wrt (\<lambda>a b. alloc_span a \<inter> alloc_span b = {}) (s_alloc_list h)"

lemma wf_heapD:
  assumes "wf_heap pf h"
  shows "platform_ok pf" "s_initial_heap_initialized h"
    and "\<And>p. p \<in> set (s_heap_pool_list h) \<Longrightarrow> wf_heap_pool pf p"
    and "distinct (map pool_addr (s_heap_pool_list h))"
    and "sorted_wrt (\<lambda>p q. pool_span p \<inter> pool_span q = {}) (s_heap_pool_list h)"
    and "s_free_block_count h = (\<Sum>p\<leftarrow>s_heap_pool_list h. card (free_blocks p))"
    and "(\<Sum>p\<leftarrow>s_heap_pool_list h. block_count p) < 2 ^ 32"
    and "\<And>a. a \<in> set (s_alloc_list h) \<Longrightarrow> alloc_fits pf a \<and> poison_ok pf (mem h) a"
    and "\<And>a. a \<in> set (s_alloc_list h) \<Longrightarrow> \<exists>p\<in>set (s_heap_pool_list h). \<exists>b. alloc_in pf p a b"
    and "sorted_wrt (\<lambda>a b. alloc_span a \<inter> alloc_span b = {}) (s_alloc_list h)"
  using assms unfolding wf_heap_def by blast+

lemma wf_poolD:
  assumes "wf_heap_pool pf p"
  shows "wf_bitmap (blockbitmap p)" "block_count p \<le> 32 * word_count (blockbitmap p)" "free_blocks p \<subseteq> {..<block_count p}"
    and "finite (free_blocks p)" "card (free_blocks p) \<le> block_count p" "max_align pf dvd blockpool p"
    and "blockpool p + BLOCK_SIZE * block_count p < 2 ^ 32" "usedblock_count p = block_count p - card (free_blocks p)"
    and "\<And>x. x \<in> pool_span p \<Longrightarrow> mapped pf x" "0 < pool_addr p"
proof -
  show sub: "free_blocks p \<subseteq> {..<block_count p}" using assms by (simp add: wf_heap_pool_def)
  show "finite (free_blocks p)" using sub finite_subset by blast
  show "card (free_blocks p) \<le> block_count p" using card_mono [OF _ sub] by simp
qed (use assms in \<open>simp_all add: wf_heap_pool_def\<close>)

lemma alloc_in_span:
  assumes "alloc_in pf p a b"
  shows "alloc_span a = {blockpool p + BLOCK_SIZE * b..<blockpool p + BLOCK_SIZE * (b + alloc_block_count a)}"
    and "alloc_span a \<subseteq> pool_span p"
  using assms by (auto simp: alloc_in_def alloc_span_def pool_span_def BLOCK_SIZE_def)

lemma alloc_bounds:
  assumes "alloc_in pf p a b" and "wf_heap_pool pf p" and "alloc_fits pf a"
  shows "alloc_addr a + BLOCK_SIZE * alloc_block_count a < 2 ^ 32" and "0 < alloc_block_count a"
    and "alloc_data pf a = alloc_addr a + sizeof_alloc_header pf" and "alloc_addr a \<in> pool_span p"
proof -
  have n: "0 < alloc_block_count a" using assms(3) by (cases "alloc_block_count a") (auto simp: alloc_fits_def)
  have "BLOCK_SIZE * (b + alloc_block_count a) \<le> BLOCK_SIZE * block_count p" using assms(1) by (simp add: alloc_in_def)
  then show e: "alloc_addr a + BLOCK_SIZE * alloc_block_count a < 2 ^ 32"
    using assms(1) wf_poolD(7) [OF assms(2)] by (simp add: alloc_in_def distrib_left)
  show "0 < alloc_block_count a" by (rule n)
  show "alloc_data pf a = alloc_addr a + sizeof_alloc_header pf"
    using e assms(3) by (simp add: alloc_data_def alloc_fits_def sz_add_no_wrap)
  show "alloc_addr a \<in> pool_span p" using alloc_in_span(2) [OF assms(1)] n by (auto simp: alloc_span_def BLOCK_SIZE_def)
qed

lemma poison_ok_iff:
  assumes "alloc_addr a + BLOCK_SIZE * alloc_block_count a < 2 ^ 32" and "alloc_fits pf a"
  shows "poison_ok pf m a \<longleftrightarrow>
    (\<forall>i<length POISONVALUES. m (alloc_addr a + sizeof_alloc_header pf + alloc_size a + i) = POISONVALUES ! i)"
proof -
  have "sz_add (sz_add (alloc_data pf a) (alloc_size a)) i = alloc_addr a + sizeof_alloc_header pf + alloc_size a + i"
    if "i < length POISONVALUES" for i
    using assms that by (simp add: alloc_data_def alloc_fits_def sz_add_no_wrap)
  then show ?thesis by (auto simp: poison_ok_def list_all_iff)
qed

lemma poison_cong:
  assumes "alloc_addr a + BLOCK_SIZE * alloc_block_count a < 2 ^ 32" and "alloc_fits pf a" and "\<And>x. x \<in> alloc_span a \<Longrightarrow> m' x = m x"
  shows "poison_ok pf m' a \<longleftrightarrow> poison_ok pf m a"
proof -
  have "alloc_addr a + sizeof_alloc_header pf + alloc_size a + i \<in> alloc_span a" if "i < length POISONVALUES" for i
    using assms(2) that by (auto simp: alloc_span_def alloc_fits_def)
  then show ?thesis using assms(3) by (simp add: poison_ok_iff [OF assms(1,2)])
qed

lemma wf_heap_alloc_bounds:
  assumes "wf_heap pf h" and "a \<in> set (s_alloc_list h)"
  shows "alloc_addr a + BLOCK_SIZE * alloc_block_count a < 2 ^ 32" and "0 < alloc_block_count a"
    and "alloc_data pf a = alloc_addr a + sizeof_alloc_header pf" and "mapped pf (alloc_addr a)" and "alloc_fits pf a"
proof -
  obtain p b where p: "p \<in> set (s_heap_pool_list h)" "alloc_in pf p a b" using wf_heapD(9) [OF assms] by blast
  show f: "alloc_fits pf a" using wf_heapD(8) [OF assms] by blast
  note b = alloc_bounds [OF p(2) wf_heapD(3) [OF assms(1) p(1)] f]
  show "mapped pf (alloc_addr a)" using b(4) wf_poolD(9) [OF wf_heapD(3) [OF assms(1) p(1)]] by blast
  show "alloc_addr a + BLOCK_SIZE * alloc_block_count a < 2 ^ 32" "0 < alloc_block_count a"
      "alloc_data pf a = alloc_addr a + sizeof_alloc_header pf" by (fact b)+
qed

lemma wf_check: "wf_heap pf h \<Longrightarrow> heap_check_overflow pf h = Inr ()"
  using wf_heap_alloc_bounds(4) wf_heapD(8) by (auto simp: heap_check_overflow_def list_all_iff)

subsection \<open>Changing one pool\<close>

lemma sum_list_map_update:
  fixes f :: "'a \<Rightarrow> nat"
  assumes "i < length xs"
  shows "(\<Sum>x\<leftarrow>xs[i := y]. f x) + f (xs ! i) = (\<Sum>x\<leftarrow>xs. f x) + f y"
  using assms elem_le_sum_list [of i "map f xs"] by (simp add: map_update sum_list_update)

definition same_shape :: "pool_header \<Rightarrow> pool_header \<Rightarrow> bool" where
  "same_shape p q \<longleftrightarrow> pool_addr q = pool_addr p \<and> blockpool q = blockpool p \<and> block_count q = block_count p"

lemma same_shape_span: "same_shape p q \<Longrightarrow> pool_span q = pool_span p"
  by (simp add: same_shape_def pool_span_def)

lemma map_update_same: "i < length xs \<Longrightarrow> f y = f (xs ! i) \<Longrightarrow> map f (xs[i := y]) = map f xs"
  by (metis list_update_id map_update nth_map)

lemma sorted_wrt_spans:
  "sorted_wrt (\<lambda>p q. f p \<inter> f q = {}) xs \<longleftrightarrow> sorted_wrt (\<lambda>A B. A \<inter> B = {}) (map f xs)"
  by (simp add: sorted_wrt_map)

lemma pools_disjoint:
  assumes "wf_heap pf h" and "i < length (s_heap_pool_list h)" and "j < length (s_heap_pool_list h)" and "i \<noteq> j"
  shows "pool_span (s_heap_pool_list h ! i) \<inter> pool_span (s_heap_pool_list h ! j) = {}"
  using wf_heapD(5) [OF assms(1)] assms(2-4) unfolding sorted_wrt_iff_nth_less by (metis inf_commute nat_neq_iff)

text \<open>The parts of the invariant that speak about the pools survive a change of one pool's bitmap.\<close>

lemma update_pool:
  assumes wf: "wf_heap pf h" and i: "i < length (s_heap_pool_list h)"
    and q: "same_shape (s_heap_pool_list h ! i) q" "wf_heap_pool pf q"
  shows "\<forall>p\<in>set ((s_heap_pool_list h)[i := q]). wf_heap_pool pf p"
    and "distinct (map pool_addr ((s_heap_pool_list h)[i := q]))"
    and "sorted_wrt (\<lambda>p q. pool_span p \<inter> pool_span q = {}) ((s_heap_pool_list h)[i := q])"
    and "(\<Sum>p\<leftarrow>(s_heap_pool_list h)[i := q]. block_count p) < 2 ^ 32"
    and "(\<Sum>p\<leftarrow>(s_heap_pool_list h)[i := q]. card (free_blocks p)) + card (free_blocks (s_heap_pool_list h ! i)) =
      s_free_block_count h + card (free_blocks q)"
proof -
  show "\<forall>p\<in>set ((s_heap_pool_list h)[i := q]). wf_heap_pool pf p"
  proof
    fix p assume "p \<in> set ((s_heap_pool_list h)[i := q])"
    then have "p = q \<or> p \<in> set (s_heap_pool_list h)" using set_update_subset_insert [of "s_heap_pool_list h" i q] by blast
    then show "wf_heap_pool pf p" using wf_heapD(3) [OF wf] q(2) by metis
  qed
  show "distinct (map pool_addr ((s_heap_pool_list h)[i := q]))"
    using wf_heapD(4) [OF wf] i q(1) by (simp add: map_update_same same_shape_def)
  show "sorted_wrt (\<lambda>p q. pool_span p \<inter> pool_span q = {}) ((s_heap_pool_list h)[i := q])"
    using wf_heapD(5) [OF wf] i same_shape_span [OF q(1)]
    by (simp only: sorted_wrt_spans [of pool_span "s_heap_pool_list h"] sorted_wrt_spans [of pool_span "(s_heap_pool_list h)[i := q]"] map_update_same)
  show "(\<Sum>p\<leftarrow>(s_heap_pool_list h)[i := q]. block_count p) < 2 ^ 32"
    using wf_heapD(7) [OF wf] i q(1) by (simp add: map_update_same same_shape_def)
  show "(\<Sum>p\<leftarrow>(s_heap_pool_list h)[i := q]. card (free_blocks p)) + card (free_blocks (s_heap_pool_list h ! i)) =
      s_free_block_count h + card (free_blocks q)"
    using sum_list_map_update [OF i, of "\<lambda>p. card (free_blocks p)" q] wf_heapD(6) [OF wf] by simp
qed

lemma take_blocks:
  assumes "wf_heap_pool pf p" and "{b..<b + n} \<subseteq> free_blocks p" and "wf_bitmap bm" "word_count bm = word_count (blockbitmap p)"
    and "\<forall>k. bm_get bm k \<longleftrightarrow> \<not> (b \<le> k \<and> k < b + n) \<and> bm_get (blockbitmap p) k"
    and q: "q = p\<lparr>blockbitmap := bm, usedblock_count := sz_add (usedblock_count p) n\<rparr>"
  shows "wf_heap_pool pf q"
    and "free_blocks q = free_blocks p - {b..<b + n}" and "card (free_blocks q) + n = card (free_blocks p)"
proof -
  show f: "free_blocks q = free_blocks p - {b..<b + n}" 
    by (rule set_eqI) (simp add: free_blocks_def q assms(5) conj_commute)
  have n: "n \<le> card (free_blocks p)" using card_mono [OF wf_poolD(4) [OF assms(1)] assms(2)] by simp
  show c: "card (free_blocks q) + n = card (free_blocks p)"
  proof -
    have "card (free_blocks p - {b..<b + n}) = card (free_blocks p) - card {b..<b + n}" using assms(2) by (intro card_Diff_subset) auto
    then show ?thesis unfolding f using n by simp
  qed
  note w = wf_poolD [OF assms(1)]
  have "block_count p < 2 ^ 32" using w(7) by (simp add: BLOCK_SIZE_def)
  then have "sz_add (usedblock_count p) n = block_count p - card (free_blocks q)"
    using w(5,8) c n by (simp add: sz_add_no_wrap)
  then show "wf_heap_pool pf q"
    using assms(1,3,4) w(3) unfolding wf_heap_pool_def f by (auto simp: pool_span_def q)
qed

lemma put_blocks:
  assumes "wf_heap_pool pf p" and "{b..<b + n} \<inter> free_blocks p = {}" and "b + n \<le> block_count p"
    and "wf_bitmap bm" "word_count bm = word_count (blockbitmap p)"
    and "\<forall>k. bm_get bm k \<longleftrightarrow> b \<le> k \<and> k < b + n \<or> bm_get (blockbitmap p) k"
    and q: "q = p\<lparr>blockbitmap := bm, usedblock_count := usedblock_count p - n\<rparr>"
  shows "wf_heap_pool pf q"
    and "free_blocks q = free_blocks p \<union> {b..<b + n}" and "card (free_blocks q) = card (free_blocks p) + n"
    and "n \<le> usedblock_count p"
proof -
  note w = wf_poolD [OF assms(1)]
  show f: "free_blocks q = free_blocks p \<union> {b..<b + n}" 
    by (rule set_eqI) (simp add: free_blocks_def q assms(6) disj_commute)
  show c: "card (free_blocks q) = card (free_blocks p) + n"
  proof -
    have "card (free_blocks p \<union> {b..<b + n}) = card (free_blocks p) + card {b..<b + n}"
      using w(4) assms(2) by (intro card_Un_disjoint) auto
    then show ?thesis unfolding f by simp
  qed
  have sub: "free_blocks q \<subseteq> {..<block_count p}" unfolding f using w(3) assms(3) by auto
  then have "card (free_blocks q) \<le> block_count p" using card_mono [OF _ sub] by simp
  then show n: "n \<le> usedblock_count p" using c w(8) by simp
  show "wf_heap_pool pf q"
    using assms(1,4,5) sub c w(8) n unfolding wf_heap_pool_def by (auto simp: pool_span_def q)
qed

subsection \<open>Allocation\<close>

text \<open>Blocks of different allocations, and allocations of different pools, do not meet.\<close>

lemma block_ranges_disjoint:
  assumes "{b..<b + n} \<inter> {c..<c + k} = {}"
  shows "{base + BLOCK_SIZE * b..<base + BLOCK_SIZE * (b + n)} \<inter> {base + BLOCK_SIZE * c..<base + BLOCK_SIZE * (c + k)} = {}"
proof (rule ccontr)
  assume "\<not> ?thesis"
  then obtain x where "x \<in> {base + 64 * b..<base + 64 * (b + n)} \<inter> {base + 64 * c..<base + 64 * (c + k)}"
    unfolding BLOCK_SIZE_def by blast
  then have x: "base + 64 * b \<le> x" "x < base + 64 * (b + n)" "base + 64 * c \<le> x" "x < base + 64 * (c + k)" by simp_all
  then have "(x - base) div 64 \<in> {b..<b + n} \<inter> {c..<c + k}" by auto
  with assms show False by blast
qed

lemma free_run_bound:
  assumes "wf_heap_pool pf p" and "{b..<b + n} \<subseteq> free_blocks p" and "0 < n"
  shows "b + n \<le> block_count p"
proof -
  have "b + n - 1 \<in> free_blocks p" using assms(2,3) by (auto simp: subset_iff)
  then have "b + n - 1 < block_count p" using wf_poolD(3) [OF assms(1)] by blast
  then show ?thesis using assms(3) by simp
qed

lemma new_span_disjoint:
  assumes wf: "wf_heap pf h" and i: "i < length (s_heap_pool_list h)" and a: "a \<in> set (s_alloc_list h)"
    and free: "{b..<b + n} \<subseteq> free_blocks (s_heap_pool_list h ! i)"
  shows "alloc_span a \<inter> {blockpool (s_heap_pool_list h ! i) + BLOCK_SIZE * b..<blockpool (s_heap_pool_list h ! i) + BLOCK_SIZE * (b + n)} = {}"
proof -
  let ?p = "s_heap_pool_list h ! i"
  obtain j c where j: "j < length (s_heap_pool_list h)" "alloc_in pf (s_heap_pool_list h ! j) a c"
    using wf_heapD(9) [OF wf a] by (auto simp: in_set_conv_nth)
  show ?thesis
  proof (cases "j = i")
    case True
    then have "{c..<c + alloc_block_count a} \<inter> {b..<b + n} = {}" using j(2) free unfolding alloc_in_def by blast
    then show ?thesis using block_ranges_disjoint [of c "alloc_block_count a" b n "blockpool ?p"] alloc_in_span(1) [OF j(2)] True by simp
  next
    case False
    have "wf_heap_pool pf ?p" using wf_heapD(3) [OF wf] i by simp
    then have "n = 0 \<or> b + n \<le> block_count ?p" using free_run_bound [OF _ free] by blast
    then have "{blockpool ?p + BLOCK_SIZE * b..<blockpool ?p + BLOCK_SIZE * (b + n)} \<subseteq> pool_span ?p"
      by (auto simp: pool_span_def BLOCK_SIZE_def)
    then show ?thesis using alloc_in_span(2) [OF j(2)] pools_disjoint [OF wf j(1) i False] by blast
  qed
qed

definition new_alloc :: "pool_header \<Rightarrow> nat \<Rightarrow> nat \<Rightarrow> nat \<Rightarrow> alloc_header" where
  "new_alloc p b n sz = \<lparr>alloc_addr = blockpool p + BLOCK_SIZE * b, alloc_pool = pool_addr p, alloc_block_count = n, alloc_size = sz\<rparr>"

lemma alloc_step:
  assumes wf: "wf_heap pf h" and i: "i < length (s_heap_pool_list h)" and p: "p = s_heap_pool_list h ! i"
    and fits: "0 < sz" "sizeof_alloc_header pf + sz + length POISONVALUES \<le> BLOCK_SIZE * n"
    and free: "{b..<b + n} \<subseteq> free_blocks p"
    and bm: "wf_bitmap bm" "word_count bm = word_count (blockbitmap p)"
      "\<forall>k. bm_get bm k \<longleftrightarrow> \<not> (b \<le> k \<and> k < b + n) \<and> bm_get (blockbitmap p) k"
    and q: "q = p\<lparr>blockbitmap := bm, usedblock_count := sz_add (usedblock_count p) n\<rparr>"
    and m: "\<And>x. x < 2 ^ 32 \<Longrightarrow> x \<notin> alloc_span (new_alloc p b n sz) \<Longrightarrow> m x = mem h x" "poison_ok pf m (new_alloc p b n sz)"
  shows "wf_heap pf (h\<lparr>s_heap_pool_list := (s_heap_pool_list h)[i := q], s_free_block_count := s_free_block_count h - n, mem := m,
    s_alloc_list := s_alloc_list h @ [new_alloc p b n sz]\<rparr>)"
proof -
  let ?a = "new_alloc p b n sz"
  have pin: "p \<in> set (s_heap_pool_list h)" using i p by simp
  have wp: "wf_heap_pool pf p" using wf_heapD(3) [OF wf pin] .
  note t = take_blocks [OF wp free bm q]
  have shape: "same_shape (s_heap_pool_list h ! i) q" using p q by (simp add: same_shape_def)
  note u = update_pool [OF wf i shape t(1)]
  have n: "0 < n" using fits by (cases n) auto
  have b: "b + n \<le> block_count p" using free_run_bound [OF wp free n] .
  have inq: "alloc_in pf q ?a b" using b t(2) q by (auto simp: alloc_in_def new_alloc_def)
  have qin: "q \<in> set ((s_heap_pool_list h)[i := q])" using i by (simp add: set_update_memI)
  have afits: "alloc_fits pf ?a" using fits by (simp add: alloc_fits_def new_alloc_def)
  have aspan: "alloc_span ?a = {blockpool p + BLOCK_SIZE * b..<blockpool p + BLOCK_SIZE * (b + n)}"
    by (simp add: alloc_span_def new_alloc_def distrib_left add.assoc)
  have dis: "alloc_span a \<inter> alloc_span ?a = {}" if "a \<in> set (s_alloc_list h)" for a
    using new_span_disjoint [OF wf i that] free p aspan by simp
  have old: "alloc_fits pf a \<and> poison_ok pf m a \<and> (\<exists>r\<in>set ((s_heap_pool_list h)[i := q]). \<exists>c. alloc_in pf r a c)"
    if a: "a \<in> set (s_alloc_list h)" for a
  proof -
    note ab = wf_heap_alloc_bounds [OF wf a]
    have "m x = mem h x" if "x \<in> alloc_span a" for x
      using m(1) [of x] dis [OF a] that ab(1) by (auto simp: alloc_span_def)
    then have "poison_ok pf m a" using poison_cong [OF ab(1,5), of m "mem h"] wf_heapD(8) [OF wf a] by blast
    moreover obtain j c where j: "j < length (s_heap_pool_list h)" "alloc_in pf (s_heap_pool_list h ! j) a c"
      using wf_heapD(9) [OF wf a] by (auto simp: in_set_conv_nth)
    have "\<exists>r\<in>set ((s_heap_pool_list h)[i := q]). \<exists>c. alloc_in pf r a c"
    proof (cases "j = i")
      case True
      then have "alloc_in pf q a c" using j(2) t(2) q p by (auto simp: alloc_in_def)
      with qin show ?thesis by blast
    next
      case False
      then have "s_heap_pool_list h ! j \<in> set ((s_heap_pool_list h)[i := q])"
        using j(1) by (metis length_list_update nth_list_update_neq nth_mem)
      with j(2) show ?thesis by blast
    qed
    ultimately show ?thesis using ab(5) by blast
  qed
  have sum: "(\<Sum>p\<leftarrow>(s_heap_pool_list h)[i := q]. card (free_blocks p)) = s_free_block_count h - n"
    using u(5) t(3) p by simp
  show ?thesis
    unfolding wf_heap_def using wf_heapD(1,2) [OF wf] u(1-4) sum old afits m(2) inq qin wf_heapD(10) [OF wf] dis
    by (auto simp: sorted_wrt_append)
qed

lemma alloc_memory:
  assumes "alloc_addr a + BLOCK_SIZE * alloc_block_count a < 2 ^ 32" and "alloc_fits pf a"
    and d: "d = alloc_addr a + sizeof_alloc_header pf"
    and m: "m = mem_poison (mem_fill m0 d (alloc_size a) v) (sz_add d (alloc_size a))"
  shows "\<And>x. x < 2 ^ 32 \<Longrightarrow> x \<notin> alloc_span a \<Longrightarrow> m x = m0 x" and "poison_ok pf m a"
    and "\<And>x. d \<le> x \<Longrightarrow> x < d + alloc_size a \<Longrightarrow> m x = v"
proof -
  have e: "sz_add d (alloc_size a) = d + alloc_size a" and lim: "d + alloc_size a + length POISONVALUES < 2 ^ 32"
    using assms(1,2) d by (simp_all add: alloc_fits_def sz_add_no_wrap)
  have mx: "m x = (if d + alloc_size a \<le> x \<and> x < d + alloc_size a + length POISONVALUES then POISONVALUES ! (x - (d + alloc_size a))
      else if d \<le> x \<and> x < d + alloc_size a then v else m0 x)" if "x < 2 ^ 32" for x
    using that lim unfolding m e mem_poison_def mem_fill_def
    by (simp add: sz_sub_range sz_sub_no_wrap) linarith
  show "\<And>x. x < 2 ^ 32 \<Longrightarrow> x \<notin> alloc_span a \<Longrightarrow> m x = m0 x"
    using assms(2) d by (auto simp: mx alloc_span_def alloc_fits_def)
  show "poison_ok pf m a" using lim d by (simp add: poison_ok_iff [OF assms(1,2)] mx)
  show "\<And>x. d \<le> x \<Longrightarrow> x < d + alloc_size a \<Longrightarrow> m x = v" using lim by (simp add: mx)
qed

text \<open>
  The effect of a successful allocation of \<open>sz\<close> bytes at \<open>d\<close>: one more allocation, whose blocks were free and whose
  data starts at \<open>d\<close>; memory changes inside its blocks only.
\<close>

definition allocated :: "platform \<Rightarrow> heap \<Rightarrow> heap \<Rightarrow> nat \<Rightarrow> nat \<Rightarrow> u8 \<Rightarrow> bool" where
  "allocated pf h h' sz d v \<longleftrightarrow> (\<exists>a. s_alloc_list h' = s_alloc_list h @ [a] \<and> alloc_data pf a = d \<and> alloc_size a = sz \<and>
     (\<forall>x<2 ^ 32. x \<notin> alloc_span a \<longrightarrow> mem h' x = mem h x) \<and> (\<forall>x. d \<le> x \<and> x < d + sz \<longrightarrow> mem h' x = v))"

definition needed_blocks :: "platform \<Rightarrow> nat \<Rightarrow> nat" where
  "needed_blocks pf sz = (sz + sizeof_alloc_header pf + length POISONVALUES + 63) div 64"

definition size_ok :: "platform \<Rightarrow> nat \<Rightarrow> bool" where
  "size_ok pf sz \<longleftrightarrow> 0 < sz \<and> sz + sizeof_alloc_header pf + length POISONVALUES < 2 ^ 32"

lemma blocks_needed:
  assumes "size_ok pf sz"
  shows "size_to_blocks (actual_alloc_size pf sz) BLOCK_SIZE = Inr (needed_blocks pf sz)"
    and "sizeof_alloc_header pf + sz + length POISONVALUES \<le> BLOCK_SIZE * needed_blocks pf sz" and "0 < needed_blocks pf sz"
    and "needed_blocks pf sz < 2 ^ 27" and "\<not> size_max - sizeof_alloc_header pf < sz" and "sz \<noteq> 0"
proof -
  have "actual_alloc_size pf sz = sz + sizeof_alloc_header pf + length POISONVALUES"
    using assms by (simp add: actual_alloc_size_def size_ok_def sz_add_no_wrap)
  then show "size_to_blocks (actual_alloc_size pf sz) BLOCK_SIZE = Inr (needed_blocks pf sz)"
    using size_to_blocks_value [of 64] by (simp add: BLOCK_SIZE_def needed_blocks_def)
  show "sizeof_alloc_header pf + sz + length POISONVALUES \<le> BLOCK_SIZE * needed_blocks pf sz" "0 < needed_blocks pf sz"
    using assms unfolding needed_blocks_def size_ok_def BLOCK_SIZE_def by linarith+
  show "needed_blocks pf sz < 2 ^ 27"
    using assms by (simp add: needed_blocks_def size_ok_def div_less_iff_less_mult)
  have "size_max = 4294967295" by (simp add: size_max_def)
  then show "\<not> size_max - sizeof_alloc_header pf < sz" using assms by (simp add: size_ok_def) linarith
  show "sz \<noteq> 0" using assms by (simp add: size_ok_def)
qed

lemma alloc_from_heap_pool_spec:
  assumes wf: "wf_heap pf h" and i: "i < length (s_heap_pool_list h)" and sz: "size_ok pf sz"
  shows "alloc_from_heap_pool pf i sz h = Inr (h, None) \<and>
      (\<nexists>b. {b..<b + needed_blocks pf sz} \<subseteq> free_blocks (s_heap_pool_list h ! i)) \<or>
    (\<exists>h' d. alloc_from_heap_pool pf i sz h = Inr (h', Some d) \<and> wf_heap pf h' \<and> allocated pf h h' sz d 0x90)"
proof -
  let ?p = "s_heap_pool_list h ! i" and ?n = "needed_blocks pf sz"
  have wp: "wf_heap_pool pf ?p" using wf_heapD(3) [OF wf] i by simp
  note w = wf_poolD [OF wp] and nb = blocks_needed [OF sz]
  obtain r where r: "bitmap_find_set_bits (blockbitmap ?p) 0 ?n = Inr r"
      "first_spec (fits (blockbitmap ?p) ?n) 0 (32 * word_count (blockbitmap ?p)) r"
    using bitmap_find_set_bits_spec [OF w(1), of 0 ?n] by auto
  have run: "fits (blockbitmap ?p) ?n b \<longleftrightarrow> {b..<b + ?n} \<subseteq> free_blocks ?p" for b
  proof -
    have "(\<forall>j<?n. bm_get (blockbitmap ?p) (b + j)) \<longleftrightarrow> {b..<b + ?n} \<subseteq> free_blocks ?p"
      unfolding free_blocks_def subset_iff by (metis atLeastLessThan_iff le_add1 le_add_diff_inverse mem_Collect_eq nat_add_left_cancel_less)
    then show ?thesis using nb(3) unfolding fits_def by (metis add_0_right)
  qed
  show ?thesis
  proof (cases "r < 0")
    case True
    then have "\<not> fits (blockbitmap ?p) ?n b" if "b < 32 * word_count (blockbitmap ?p)" for b
      using r(2) that unfolding first_spec_def by auto
    moreover have "b < 32 * word_count (blockbitmap ?p)" if "{b..<b + ?n} \<subseteq> free_blocks ?p" for b
      using free_run_bound [OF wp that nb(3)] w(2) nb(3) by linarith
    ultimately have "\<nexists>b. {b..<b + ?n} \<subseteq> free_blocks ?p" using run by blast
    moreover have "alloc_from_heap_pool pf i sz h = Inr (h, None)"
      using True r(1) nb(1,5,6) by (simp add: alloc_from_heap_pool_def)
    ultimately show ?thesis by blast
  next
    case False
    then obtain b where b: "r = int b" "{b..<b + ?n} \<subseteq> free_blocks ?p"
      using r(2) unfolding first_spec_def run by auto
    have bn: "b + ?n \<le> block_count ?p" using free_run_bound [OF wp b(2) nb(3)] .
    have lim: "block_count ?p < 2 ^ 26" using w(7) by (simp add: BLOCK_SIZE_def)
    obtain bm where bm: "bitmap_clear_bits (blockbitmap ?p) (int b) ?n = Inr bm" "wf_bitmap bm"
        "word_count bm = word_count (blockbitmap ?p)"
        "\<forall>k. bm_get bm k \<longleftrightarrow> \<not> (b \<le> k \<and> k < b + ?n) \<and> bm_get (blockbitmap ?p) k"
      using clear_bits_get [OF w(1), of b ?n] bn lim by auto
    have t1: "assert_bits_loop True (blockbitmap ?p) (int b) [0..<?n] = Inr ()"
    proof (rule assert_bits [OF w(1)], intro ballI)
      fix j assume "j \<in> set [0..<?n]"
      then have "b + j \<in> free_blocks ?p" using b(2) by auto
      then show "b + j < 32 * word_count (blockbitmap ?p) \<and> bm_get (blockbitmap ?p) (b + j) = True"
        by (simp add: free_blocks_def bm_get_def)
    qed
    have t2: "assert_bits_loop False bm (int b) [0..<?n] = Inr ()"
      using assert_bits [OF bm(2), of "[0..<?n]" b False] bm(3,4) bn w(2) by auto
    have off: "sz_mul (to_size (int b)) BLOCK_SIZE = BLOCK_SIZE * b"
      using bn lim by (simp add: to_size_of_nat sz_mul_no_wrap BLOCK_SIZE_def)
    have al: "is_aligned (BLOCK_SIZE * b) (max_align pf) = Inr True"
      using wf_heapD(1) [OF wf] by (auto simp: platform_ok_def is_aligned_def dvd_eq_mod_eq_0 [symmetric])
    have addr: "sz_add (blockpool ?p) (BLOCK_SIZE * b) = blockpool ?p + BLOCK_SIZE * b"
    proof (rule sz_add_no_wrap)
      have "BLOCK_SIZE * b \<le> BLOCK_SIZE * block_count ?p" using bn by simp
      then show "blockpool ?p + BLOCK_SIZE * b < 2 ^ 32" using w(7) by linarith
    qed
    have left: "?n \<le> s_free_block_count h"
    proof -
      have "?n \<le> card (free_blocks ?p)" using card_mono [OF w(4) b(2)] by simp
      also have "\<dots> \<le> s_free_block_count h"
        using elem_le_sum_list [of i "map (\<lambda>p. card (free_blocks p)) (s_heap_pool_list h)"] i wf_heapD(6) [OF wf] by simp
      finally show ?thesis .
    qed
    let ?a = "new_alloc ?p b ?n sz" and ?q = "?p\<lparr>blockbitmap := bm, usedblock_count := sz_add (usedblock_count ?p) ?n\<rparr>"
    let ?d = "alloc_data pf ?a"
    let ?m = "mem_poison (mem_fill (mem h) ?d sz 0x90) (sz_add ?d sz)"
    let ?h = "h\<lparr>s_heap_pool_list := (s_heap_pool_list h)[i := ?q], s_free_block_count := s_free_block_count h - ?n, mem := ?m,
      s_alloc_list := s_alloc_list h @ [?a]\<rparr>"
    have fits: "alloc_fits pf ?a" using nb(2) sz by (simp add: alloc_fits_def new_alloc_def size_ok_def)
    have a_end: "alloc_addr ?a + BLOCK_SIZE * alloc_block_count ?a < 2 ^ 32"
    proof -
      have "BLOCK_SIZE * (b + ?n) \<le> BLOCK_SIZE * block_count ?p" using bn by simp
      then show ?thesis using w(7) by (simp add: new_alloc_def distrib_left)
    qed
    have d: "?d = alloc_addr ?a + sizeof_alloc_header pf" using a_end fits by (simp add: alloc_data_def alloc_fits_def sz_add_no_wrap)
    have asz: "alloc_size ?a = sz" by (simp add: new_alloc_def)
    note mm = alloc_memory [OF a_end fits d, of ?m "mem h" "0x90", unfolded asz, OF refl]
    have wf': "wf_heap pf ?h"
      using alloc_step [OF wf i refl _ nb(2) b(2) bm(2-4) refl mm(1,2)] sz by (simp add: size_ok_def)
    moreover have "allocated pf h ?h sz ?d 0x90" unfolding allocated_def using mm(1,3) asz by auto
    moreover have "alloc_from_heap_pool pf i sz h = Inr (?h, Some ?d)"
      using t1 t2 off al addr left wf_check [OF wf'] r(1) b(1) bm(1) nb(1,5,6)
      by (simp add: alloc_from_heap_pool_def new_alloc_def Let_def)
    ultimately show ?thesis by blast
  qed
qed

text \<open>Writing into the data of an allocation keeps the heap well-formed.\<close>

definition data_span :: "platform \<Rightarrow> alloc_header \<Rightarrow> nat set" where
  "data_span pf a = {alloc_addr a + sizeof_alloc_header pf..<alloc_addr a + sizeof_alloc_header pf + alloc_size a}"

lemma data_span_sub: "alloc_fits pf a \<Longrightarrow> data_span pf a \<subseteq> alloc_span a"
  by (auto simp: data_span_def alloc_span_def alloc_fits_def)

lemma allocs_disjoint:
  assumes "wf_heap pf h" and "a \<in> set (s_alloc_list h)" and "b \<in> set (s_alloc_list h)" and "a \<noteq> b"
  shows "alloc_span a \<inter> alloc_span b = {}"
proof -
  obtain i j where ij: "i < length (s_alloc_list h)" "j < length (s_alloc_list h)" "a = s_alloc_list h ! i" "b = s_alloc_list h ! j"
    using assms(2,3) by (auto simp: in_set_conv_nth)
  then have "i \<noteq> j" using assms(4) by auto
  then show ?thesis using wf_heapD(10) [OF assms(1)] ij unfolding sorted_wrt_iff_nth_less by (metis inf_commute nat_neq_iff)
qed

lemma alloc_addr_inj:
  assumes "wf_heap pf h" and "a \<in> set (s_alloc_list h)" and "b \<in> set (s_alloc_list h)" and "alloc_addr a = alloc_addr b"
  shows "a = b"
proof (rule ccontr)
  assume "a \<noteq> b"
  moreover have "alloc_addr a \<in> alloc_span a" "alloc_addr b \<in> alloc_span b"
    using wf_heap_alloc_bounds(2) [OF assms(1)] assms(2,3) by (auto simp: alloc_span_def BLOCK_SIZE_def)
  ultimately show False using allocs_disjoint [OF assms(1-3)] assms(4) by auto
qed

lemma write_data_wf:
  assumes wf: "wf_heap pf h" and a: "a \<in> set (s_alloc_list h)"
    and m: "\<And>x. x < 2 ^ 32 \<Longrightarrow> x \<notin> data_span pf a \<Longrightarrow> m x = mem h x"
  shows "wf_heap pf (h\<lparr>mem := m\<rparr>)"
proof -
  have "poison_ok pf m b" if b: "b \<in> set (s_alloc_list h)" for b
  proof -
    note bb = wf_heap_alloc_bounds [OF wf b]
    have pb: "poison_ok pf (mem h) b" using wf_heapD(8) [OF wf b] by blast
    show ?thesis
    proof (cases "b = a")
      case True
      have "m (alloc_addr a + sizeof_alloc_header pf + alloc_size a + i) = mem h (alloc_addr a + sizeof_alloc_header pf + alloc_size a + i)"
        if "i < length POISONVALUES" for i
        by (rule m) (use bb(1,5) True that in \<open>auto simp: alloc_fits_def data_span_def\<close>)
      then show ?thesis using pb by (simp add: poison_ok_iff [OF bb(1,5) [unfolded True]] True)
    next
      case False
      have "m x = mem h x" if "x \<in> alloc_span b" for x
        by (rule m) (use that bb(1) data_span_sub [of pf a] wf_heap_alloc_bounds(5) [OF wf a] allocs_disjoint [OF wf b a False]
            in \<open>auto simp: alloc_span_def\<close>)
      then show ?thesis using poison_cong [OF bb(1,5), of m "mem h"] pb by blast
    qed
  qed
  then show ?thesis using wf unfolding wf_heap_def by simp
qed

lemma alloc_pools_loop_spec:
  assumes "wf_heap pf h" and "\<forall>i\<in>set is. i < length (s_heap_pool_list h)" and "size_ok pf sz"
  shows "alloc_pools_loop pf sz is h = Inr (h, None) \<and>
      (\<forall>i\<in>set is. \<nexists>b. {b..<b + needed_blocks pf sz} \<subseteq> free_blocks (s_heap_pool_list h ! i)) \<or>
    (\<exists>h' d. alloc_pools_loop pf sz is h = Inr (h', Some d) \<and> wf_heap pf h' \<and> allocated pf h h' sz d 0x90)"
  using assms(2)
proof (induction "is")
  case (Cons i "is")
  then show ?case using alloc_from_heap_pool_spec [OF assms(1) _ assms(3), of i] by auto
qed simp

text \<open>No pool has room: not enough blocks in all, or no pool with a long enough run of free blocks.\<close>

definition no_room :: "platform \<Rightarrow> heap \<Rightarrow> nat \<Rightarrow> bool" where
  "no_room pf h sz \<longleftrightarrow> s_free_block_count h \<le> needed_blocks pf sz \<or>
     (\<forall>p\<in>set (s_heap_pool_list h). \<nexists>b. {b..<b + needed_blocks pf sz} \<subseteq> free_blocks p)"

lemma allocated_last:
  assumes "allocated pf h h' sz d v" and "wf_heap pf h'"
  obtains a where "s_alloc_list h' = s_alloc_list h @ [a]" "a \<in> set (s_alloc_list h')" "d = alloc_addr a + sizeof_alloc_header pf"
    "alloc_size a = sz" "data_span pf a = {d..<d + sz}"
    "\<And>x. x < 2 ^ 32 \<Longrightarrow> x \<notin> alloc_span a \<Longrightarrow> mem h' x = mem h x" "\<And>x. x \<in> data_span pf a \<Longrightarrow> mem h' x = v" "d + sz < 2 ^ 32"
proof -
  obtain a where a: "s_alloc_list h' = s_alloc_list h @ [a]" "alloc_data pf a = d" "alloc_size a = sz"
      "\<forall>x<2 ^ 32. x \<notin> alloc_span a \<longrightarrow> mem h' x = mem h x" "\<forall>x. d \<le> x \<and> x < d + sz \<longrightarrow> mem h' x = v"
    using assms(1) unfolding allocated_def by blast
  have m: "a \<in> set (s_alloc_list h')" using a(1) by simp
  note b = wf_heap_alloc_bounds [OF assms(2) m]
  show thesis
    by (rule that [of a]) (use a m b in \<open>auto simp: data_span_def alloc_fits_def\<close>)
qed

lemma heap_alloc_spec:
  assumes wf: "wf_heap pf h" and sz: "size_ok pf sz" and zero: "z \<longleftrightarrow> flags AND HEAP_FLAG_ZEROMEMORY \<noteq> 0"
  shows "no_room pf h sz \<and> heap_alloc pf sz flags h = (if z then Inl Null_deref else Inr (h, None)) \<or>
    (\<exists>h' d. heap_alloc pf sz flags h = Inr (h', Some d) \<and> wf_heap pf h' \<and> allocated pf h h' sz d (if z then 0 else 0x90))"
proof -
  let ?ids = "[0..<length (s_heap_pool_list h)]" and ?f = "alloc_pools_loop pf sz [0..<length (s_heap_pool_list h)] h"
  note nb = blocks_needed [OF sz]
  have start: "heap_alloc pf sz flags h =
      bind_res (if needed_blocks pf sz < s_free_block_count h then ?f else Inr (h, None)) (\<lambda>(h, result).
      bind_res (heap_check_overflow pf h) (\<lambda>_.
      if z then (case result of None \<Rightarrow> Inl Null_deref | Some p \<Rightarrow> Inr (h\<lparr>mem := mem_fill (mem h) p sz 0\<rparr>, result))
      else Inr (h, result)))"
    using nb(1,5,6) wf_check [OF wf] wf_heapD(2) [OF wf] zero by (simp add: heap_alloc_def)
  have none: "heap_alloc pf sz flags h = (if z then Inl Null_deref else Inr (h, None))"
    if "\<not> needed_blocks pf sz < s_free_block_count h \<or> ?f = Inr (h, None)"
    using that start wf_check [OF wf] by auto
  consider (full) "\<not> needed_blocks pf sz < s_free_block_count h"
    | (norun) "?f = Inr (h, None)" "\<forall>i\<in>set ?ids. \<nexists>b. {b..<b + needed_blocks pf sz} \<subseteq> free_blocks (s_heap_pool_list h ! i)"
    | (ok) h' d where "needed_blocks pf sz < s_free_block_count h" "?f = Inr (h', Some d)" "wf_heap pf h'" "allocated pf h h' sz d 0x90"
    using alloc_pools_loop_spec [OF wf _ sz, of ?ids] by fastforce
  then show ?thesis
  proof cases
    case full
    then show ?thesis using none by (simp add: no_room_def)
  next
    case norun
    then have "no_room pf h sz" unfolding no_room_def by (auto simp: in_set_conv_nth)
    then show ?thesis using none norun(1) by blast
  next
    case ok
    let ?h = "h'\<lparr>mem := mem_fill (mem h') d sz 0\<rparr>"
    have run: "heap_alloc pf sz flags h = Inr (if z then ?h else h', Some d)"
      using start ok wf_check [OF ok(3)] by simp
    obtain a where a: "s_alloc_list h' = s_alloc_list h @ [a]" "a \<in> set (s_alloc_list h')" "d = alloc_addr a + sizeof_alloc_header pf"
        "alloc_size a = sz" "data_span pf a = {d..<d + sz}"
        "\<And>x. x < 2 ^ 32 \<Longrightarrow> x \<notin> alloc_span a \<Longrightarrow> mem h' x = mem h x" "d + sz < 2 ^ 32"
      using allocated_last [OF ok(4,3)] by metis
    note ab = wf_heap_alloc_bounds [OF ok(3) a(2)]
    have fill: "mem_fill (mem h') d sz 0 x = (if x \<in> data_span pf a then 0 else mem h' x)" if "x < 2 ^ 32" for x
      using that a(5,7) by (simp add: mem_fill_def sz_sub_range)
    have "wf_heap pf ?h" by (rule write_data_wf [OF ok(3) a(2)]) (simp add: fill)
    moreover have "allocated pf h ?h sz d 0"
      unfolding allocated_def
    proof (intro exI conjI allI impI)
      show "s_alloc_list ?h = s_alloc_list h @ [a]" "alloc_data pf a = d" "alloc_size a = sz" using a ab by simp_all
      show "mem ?h x = mem h x" if "x < 2 ^ 32" "x \<notin> alloc_span a" for x
        using that a(6) data_span_sub [OF ab(5)] fill [OF that(1)] by auto
      show "mem ?h x = 0" if "d \<le> x \<and> x < d + sz" for x using that a(5,7) fill [of x] by simp
    qed
    ultimately show ?thesis using run ok(3,4) by (cases z) auto
  qed
qed

subsection \<open>Release\<close>

lemma find_pool_eq:
  assumes "wf_heap pf h" and "i < length (s_heap_pool_list h)" and "s_heap_pool_list h' = s_heap_pool_list h"
  shows "find_pool (pool_addr (s_heap_pool_list h ! i)) h' = Inr i"
proof -
  have "find (\<lambda>j. pool_addr (s_heap_pool_list h ! j) = pool_addr (s_heap_pool_list h ! i)) [0..<length (s_heap_pool_list h)] = Some i"
    using assms(2) wf_heapD(4) [OF assms(1)]
    by (auto simp: find_Some_iff distinct_conv_nth intro!: exI [of _ i])
  then show ?thesis using assms(3) by (simp add: find_pool_def)
qed

lemma find_alloc_eq:
  assumes "wf_heap pf h" and "a \<in> set (s_alloc_list h)"
  shows "find_alloc (alloc_addr a) h = Inr a"
proof -
  obtain x where x: "find (\<lambda>x. alloc_addr x = alloc_addr a) (s_alloc_list h) = Some x"
    using assms(2) by (cases "find (\<lambda>x. alloc_addr x = alloc_addr a) (s_alloc_list h)") (auto simp: find_None_iff)
  then have "x \<in> set (s_alloc_list h)" "alloc_addr x = alloc_addr a" by (auto simp: find_Some_iff)
  then show ?thesis using alloc_addr_inj [OF assms(1) _ assms(2)] x by (auto simp: find_alloc_def)
qed

lemma alloc_header_of_eq:
  assumes wf: "wf_heap pf h" and a: "a \<in> set (s_alloc_list h)"
  shows "alloc_header_of pf (alloc_data pf a) = Inr (Some (alloc_addr a))" and "alloc_data pf a \<noteq> 0"
proof -
  obtain p b where p: "p \<in> set (s_heap_pool_list h)" "alloc_in pf p a b" using wf_heapD(9) [OF wf a] by blast
  have "max_align pf dvd alloc_addr a"
    using p(2) wf_poolD(6) [OF wf_heapD(3) [OF wf p(1)]] wf_heapD(1) [OF wf] by (simp add: alloc_in_def platform_ok_def)
  then have "max_align pf dvd alloc_data pf a"
    using wf_heap_alloc_bounds(3) [OF wf a] wf_heapD(1) [OF wf] by (simp add: platform_ok_def)
  then show "alloc_header_of pf (alloc_data pf a) = Inr (Some (alloc_addr a))" "alloc_data pf a \<noteq> 0"
    using wf_heap_alloc_bounds(3) [OF wf a] wf_heapD(1) [OF wf]
    by (simp_all add: alloc_header_of_def is_aligned_def platform_ok_def dvd_eq_mod_eq_0)
qed

definition live_after_free :: "heap \<Rightarrow> alloc_header \<Rightarrow> alloc_header list" where
  "live_after_free h a = filter (\<lambda>x. alloc_addr x \<noteq> alloc_addr a) (s_alloc_list h)"

lemma free_step:
  assumes wf: "wf_heap pf h" and a: "a \<in> set (s_alloc_list h)" and i: "i < length (s_heap_pool_list h)"
    and p: "p = s_heap_pool_list h ! i" and b: "alloc_in pf p a b"
    and bm: "wf_bitmap bm" "word_count bm = word_count (blockbitmap p)"
      "\<forall>k. bm_get bm k \<longleftrightarrow> b \<le> k \<and> k < b + alloc_block_count a \<or> bm_get (blockbitmap p) k"
    and q: "q = p\<lparr>blockbitmap := bm, usedblock_count := usedblock_count p - alloc_block_count a\<rparr>"
    and m: "\<And>x. x < 2 ^ 32 \<Longrightarrow> x \<notin> alloc_span a \<Longrightarrow> m x = mem h x"
  shows "wf_heap pf (h\<lparr>s_alloc_list := live_after_free h a, s_heap_pool_list := (s_heap_pool_list h)[i := q],
    s_free_block_count := sz_add (s_free_block_count h) (alloc_block_count a), mem := m\<rparr>)"
proof -
  have wp: "wf_heap_pool pf p" using wf_heapD(3) [OF wf] i p by simp
  have bb: "{b..<b + alloc_block_count a} \<inter> free_blocks p = {}" "b + alloc_block_count a \<le> block_count p"
    using b by (simp_all add: alloc_in_def)
  note t = put_blocks [OF wp bb bm q]
  have shape: "same_shape (s_heap_pool_list h ! i) q" using p q by (simp add: same_shape_def)
  note u = update_pool [OF wf i shape t(1)]
  have live: "x \<in> set (live_after_free h a) \<longleftrightarrow> x \<in> set (s_alloc_list h) \<and> x \<noteq> a" for x
    using alloc_addr_inj [OF wf _ a] by (auto simp: live_after_free_def)
  have sum: "(\<Sum>p\<leftarrow>(s_heap_pool_list h)[i := q]. card (free_blocks p)) = s_free_block_count h + alloc_block_count a"
    using u(5) t(3) p by simp
  have "(\<Sum>p\<leftarrow>(s_heap_pool_list h)[i := q]. card (free_blocks p)) \<le> (\<Sum>p\<leftarrow>(s_heap_pool_list h)[i := q]. block_count p)"
    by (rule sum_list_mono) (use u(1) wf_poolD(5) in blast)
  then have "sz_add (s_free_block_count h) (alloc_block_count a) = s_free_block_count h + alloc_block_count a"
    using sum u(4) by (simp add: sz_add_no_wrap)
  moreover have old: "alloc_fits pf x \<and> poison_ok pf m x \<and> (\<exists>r\<in>set ((s_heap_pool_list h)[i := q]). \<exists>c. alloc_in pf r x c)"
    if x: "x \<in> set (s_alloc_list h)" "x \<noteq> a" for x
  proof -
    note xb = wf_heap_alloc_bounds [OF wf x(1)] and dis = allocs_disjoint [OF wf x(1) a x(2)]
    have "m y = mem h y" if "y \<in> alloc_span x" for y
      using m [of y] dis that xb(1) by (auto simp: alloc_span_def)
    then have "poison_ok pf m x" using poison_cong [OF xb(1,5), of m "mem h"] wf_heapD(8) [OF wf x(1)] by blast
    moreover obtain j c where j: "j < length (s_heap_pool_list h)" "alloc_in pf (s_heap_pool_list h ! j) x c"
      using wf_heapD(9) [OF wf x(1)] by (auto simp: in_set_conv_nth)
    have "\<exists>r\<in>set ((s_heap_pool_list h)[i := q]). \<exists>c. alloc_in pf r x c"
    proof (cases "j = i")
      case True
      have "{c..<c + alloc_block_count x} \<inter> {b..<b + alloc_block_count a} = {}"
      proof (rule ccontr)
        assume "\<not> ?thesis"
        then obtain k where "k \<in> {c..<c + alloc_block_count x}" "k \<in> {b..<b + alloc_block_count a}" by blast
        then have "blockpool p + BLOCK_SIZE * k \<in> alloc_span x \<inter> alloc_span a"
          unfolding alloc_in_span(1) [OF b] alloc_in_span(1) [OF j(2)] using True p by (auto simp: BLOCK_SIZE_def)
        with dis show False by blast
      qed
      then have "alloc_in pf q x c" using j(2) t(2) q p True unfolding alloc_in_def by auto
      then show ?thesis using i by (metis set_update_memI)
    next
      case False
      then have "s_heap_pool_list h ! j \<in> set ((s_heap_pool_list h)[i := q])"
        using j(1) by (metis length_list_update nth_list_update_neq nth_mem)
      with j(2) show ?thesis by blast
    qed
    ultimately show ?thesis using xb(5) by blast
  qed
  moreover have "sorted_wrt (\<lambda>a b. alloc_span a \<inter> alloc_span b = {}) (live_after_free h a)"
    unfolding live_after_free_def using wf_heapD(10) [OF wf] by (rule sorted_wrt_filter)
  ultimately show ?thesis unfolding wf_heap_def using wf_heapD(1,2) [OF wf] u(1-4) sum live by auto
qed

lemma heap_free_spec:
  assumes wf: "wf_heap pf h" and a: "a \<in> set (s_alloc_list h)"
  shows "\<exists>h'. heap_free pf (alloc_data pf a) h = Inr h' \<and> wf_heap pf h' \<and> s_alloc_list h' = live_after_free h a \<and>
    s_free_block_count h' = s_free_block_count h + alloc_block_count a \<and>
    (\<forall>x<2 ^ 32. x \<notin> alloc_span a \<longrightarrow> mem h' x = mem h x)"
proof -
  obtain i b where i: "i < length (s_heap_pool_list h)" and b: "alloc_in pf (s_heap_pool_list h ! i) a b"
    using wf_heapD(9) [OF wf a] by (auto simp: in_set_conv_nth)
  let ?p = "s_heap_pool_list h ! i" and ?n = "alloc_block_count a"
  have wp: "wf_heap_pool pf ?p" using wf_heapD(3) [OF wf] i by simp
  note w = wf_poolD [OF wp] and ab = wf_heap_alloc_bounds [OF wf a]
  have bb: "{b..<b + ?n} \<inter> free_blocks ?p = {}" "b + ?n \<le> block_count ?p" "alloc_pool a = pool_addr ?p"
      "alloc_addr a = blockpool ?p + BLOCK_SIZE * b"
    using b by (simp_all add: alloc_in_def)
  have lim: "block_count ?p < 2 ^ 26" using w(7) by (simp add: BLOCK_SIZE_def)
  obtain bm where bm: "bitmap_set_bits (blockbitmap ?p) (int b) ?n = Inr bm" "wf_bitmap bm" "word_count bm = word_count (blockbitmap ?p)"
      "\<forall>k. bm_get bm k \<longleftrightarrow> b \<le> k \<and> k < b + ?n \<or> bm_get (blockbitmap ?p) k"
    using set_bits_get [OF w(1), of b ?n] bb(2) w(2) lim by auto
  let ?q = "?p\<lparr>blockbitmap := bm, usedblock_count := usedblock_count ?p - ?n\<rparr>"
  let ?m = "mem_fill (mem h) (alloc_addr a) (BLOCK_SIZE * ?n) 0x6f"
  let ?h = "h\<lparr>s_alloc_list := live_after_free h a, s_heap_pool_list := (s_heap_pool_list h)[i := ?q],
    s_free_block_count := sz_add (s_free_block_count h) ?n, mem := ?m\<rparr>"
  have m: "?m x = mem h x" if "x < 2 ^ 32" "x \<notin> alloc_span a" for x
    using that ab(1) by (auto simp: mem_fill_def sz_sub_range alloc_span_def)
  have wf': "wf_heap pf ?h" by (rule free_step [OF wf a i refl b bm(2-4) refl m])
  have used: "?n \<le> usedblock_count ?p" by (rule put_blocks(4) [OF wp bb(1,2) bm(2-4) refl])
  have mul: "sz_mul (block_count ?p) BLOCK_SIZE = BLOCK_SIZE * block_count ?p" "sz_mul ?n BLOCK_SIZE = BLOCK_SIZE * ?n"
    using lim bb(2) by (simp_all add: sz_mul_no_wrap BLOCK_SIZE_def)
  have ends: "sz_add (blockpool ?p) (BLOCK_SIZE * block_count ?p) = blockpool ?p + BLOCK_SIZE * block_count ?p"
      "sz_add (alloc_addr a) (BLOCK_SIZE * ?n) = alloc_addr a + BLOCK_SIZE * ?n"
    using w(7) ab(1) by (simp_all add: sz_add_no_wrap)
  have mono: "BLOCK_SIZE * b + BLOCK_SIZE * ?n \<le> BLOCK_SIZE * block_count ?p"
    using bb(2) by (simp add: BLOCK_SIZE_def)
  have n0: "0 < BLOCK_SIZE * ?n" using ab(2) by (simp add: BLOCK_SIZE_def)
  have hdr: "sizeof_alloc_header pf < BLOCK_SIZE * ?n" using ab(5) by (simp add: alloc_fits_def)
  have checks: "\<not> (alloc_data pf a < blockpool ?p \<or> blockpool ?p + BLOCK_SIZE * block_count ?p \<le> alloc_data pf a)"
      "\<not> (alloc_addr a + BLOCK_SIZE * ?n \<le> blockpool ?p \<or> blockpool ?p + BLOCK_SIZE * block_count ?p < alloc_addr a + BLOCK_SIZE * ?n)"
    unfolding ab(3) bb(4) using mono n0 hdr by linarith+
  have idx: "sz_sub (alloc_addr a) (blockpool ?p) div BLOCK_SIZE = b"
    using bb(4) ab(1) by (simp add: sz_sub_no_wrap BLOCK_SIZE_def)
  have "heap_free pf (alloc_data pf a) h = Inr ?h"
    using alloc_header_of_eq [OF wf a] wf_check [OF wf] wf_check [OF wf'] find_alloc_eq [OF wf a] find_pool_eq [OF wf i]
      w(10) used mul ends checks idx bm(1) bb(3)
    by (simp add: heap_free_def Let_def live_after_free_def not_le not_less)
  moreover have "s_free_block_count ?h = s_free_block_count h + ?n"
    using wf_heapD(6) [OF wf'] update_pool(5) [OF wf i _ put_blocks(1) [OF wp bb(1,2) bm(2-4) refl]] 
      put_blocks(3) [OF wp bb(1,2) bm(2-4) refl] by (simp add: same_shape_def)
  ultimately show ?thesis using wf' m by auto
qed

subsection \<open>The contract of the allocator\<close>

text \<open>
  What the rest of the kernel relies on: \<open>region s d n\<close> says that the bytes \<open>d\<close>, ..., \<open>d + n - 1\<close> belong to a live
  allocation; \<open>bytes\<close> are the contents of memory.
\<close>

locale byte_allocator =
  fixes inv :: "'s \<Rightarrow> bool"
    and region :: "'s \<Rightarrow> nat \<Rightarrow> nat \<Rightarrow> bool"
    and bytes :: "'s \<Rightarrow> nat \<Rightarrow> u8"
    and ok :: "nat \<Rightarrow> bool"
    and alloc :: "'s \<Rightarrow> nat \<Rightarrow> ('s \<times> nat option) res"
    and release :: "'s \<Rightarrow> nat \<Rightarrow> 's res"
  assumes alloc: "inv s \<Longrightarrow> ok n \<Longrightarrow>
      alloc s n = Inr (s, None) \<or>
      (\<exists>s' d. alloc s n = Inr (s', Some d) \<and> inv s' \<and> (\<forall>e m. region s' e m \<longleftrightarrow> region s e m \<or> (e, m) = (d, n)) \<and>
        (\<forall>e m. region s e m \<longrightarrow> e \<noteq> d \<and> (\<forall>x\<in>{e..<e + m}. bytes s' x = bytes s x)))"
    and release: "inv s \<Longrightarrow> region s d n \<Longrightarrow>
      \<exists>s'. release s d = Inr s' \<and> inv s' \<and> (\<forall>e m. region s' e m \<longleftrightarrow> region s e m \<and> e \<noteq> d) \<and>
        (\<forall>e m. region s' e m \<longrightarrow> (\<forall>x\<in>{e..<e + m}. bytes s' x = bytes s x))"
    and disjoint: "inv s \<Longrightarrow> region s d n \<Longrightarrow> region s e m \<Longrightarrow> d \<noteq> e \<Longrightarrow> {d..<d + n} \<inter> {e..<e + m} = {}"
begin

lemma alloc_release:
  assumes "inv s" and "ok n" and "alloc s n = Inr (s1, Some d)"
  shows "\<exists>s2. release s1 d = Inr s2 \<and> inv s2 \<and> region s2 = region s \<and>
    (\<forall>e m. region s e m \<longrightarrow> (\<forall>x\<in>{e..<e + m}. bytes s2 x = bytes s x))"
proof -
  from alloc [OF assms(1,2)] assms(3) have s1: "inv s1" "\<forall>e m. region s1 e m \<longleftrightarrow> region s e m \<or> (e, m) = (d, n)"
      "\<forall>e m. region s e m \<longrightarrow> e \<noteq> d \<and> (\<forall>x\<in>{e..<e + m}. bytes s1 x = bytes s x)" by auto
  then obtain s2 where s2: "release s1 d = Inr s2" "inv s2" "\<forall>e m. region s2 e m \<longleftrightarrow> region s1 e m \<and> e \<noteq> d"
      "\<forall>e m. region s2 e m \<longrightarrow> (\<forall>x\<in>{e..<e + m}. bytes s2 x = bytes s1 x)"
    using release [of s1 d n] by blast
  have "region s2 = region s" by (intro ext) (use s1(2,3) s2(3) in auto)
  then show ?thesis using s1(3) s2 by auto
qed

lemma new_region_disjoint:
  assumes "inv s" and "ok n" and "alloc s n = Inr (s1, Some d)" and "region s e m"
  shows "{d..<d + n} \<inter> {e..<e + m} = {}"
proof -
  from alloc [OF assms(1,2)] assms(3,4) have "inv s1" "region s1 d n" "region s1 e m" "d \<noteq> e" by fastforce+
  then show ?thesis by (rule disjoint)
qed

end

definition heap_region :: "platform \<Rightarrow> heap \<Rightarrow> nat \<Rightarrow> nat \<Rightarrow> bool" where
  "heap_region pf h d n \<longleftrightarrow> (\<exists>a\<in>set (s_alloc_list h). alloc_data pf a = d \<and> alloc_size a = n)"

lemma heap_region_span:
  assumes "wf_heap pf h" and "heap_region pf h d n"
  obtains a where "a \<in> set (s_alloc_list h)" "alloc_data pf a = d" "alloc_size a = n" "data_span pf a = {d..<d + n}"
    "d = alloc_addr a + sizeof_alloc_header pf" "d + n < 2 ^ 32" "{d..<d + n} \<subseteq> alloc_span a"
proof -
  obtain a where a: "a \<in> set (s_alloc_list h)" "alloc_data pf a = d" "alloc_size a = n"
    using assms(2) unfolding heap_region_def by blast
  note b = wf_heap_alloc_bounds [OF assms(1) a(1)]
  have sp: "data_span pf a = {d..<d + n}" using a(2,3) b(3) by (simp add: data_span_def)
  have "d + n < 2 ^ 32" using a(2,3) b by (auto simp: alloc_fits_def)
  then show thesis using that [OF a sp] a(2) b(3) data_span_sub [OF b(5)] sp by simp
qed

lemma heap_region_disjoint:
  assumes wf: "wf_heap pf h" and d: "heap_region pf h d n" and e: "heap_region pf h e m" and ne: "d \<noteq> e"
  shows "{d..<d + n} \<inter> {e..<e + m} = {}"
proof -
  obtain a where a: "a \<in> set (s_alloc_list h)" "alloc_data pf a = d" "{d..<d + n} \<subseteq> alloc_span a" using heap_region_span [OF wf d] by metis
  obtain b where b: "b \<in> set (s_alloc_list h)" "alloc_data pf b = e" "{e..<e + m} \<subseteq> alloc_span b" using heap_region_span [OF wf e] by metis
  have "a \<noteq> b" using a(2) b(2) ne by auto
  then show ?thesis using allocs_disjoint [OF wf a(1) b(1)] a(3) b(3) by blast
qed

lemma allocated_regions:
  assumes wf: "wf_heap pf h" and wf': "wf_heap pf h'" and al: "allocated pf h h' n d v"
  shows "heap_region pf h' e m \<longleftrightarrow> heap_region pf h e m \<or> (e, m) = (d, n)"
    and "heap_region pf h e m \<Longrightarrow> e \<noteq> d \<and> (\<forall>x\<in>{e..<e + m}. mem h' x = mem h x)"
    and "\<And>x. x \<in> {d..<d + n} \<Longrightarrow> mem h' x = v"
proof -
  obtain a where a: "s_alloc_list h' = s_alloc_list h @ [a]" "a \<in> set (s_alloc_list h')" "d = alloc_addr a + sizeof_alloc_header pf"
      "alloc_size a = n" "data_span pf a = {d..<d + n}"
      "\<And>x. x < 2 ^ 32 \<Longrightarrow> x \<notin> alloc_span a \<Longrightarrow> mem h' x = mem h x" "\<And>x. x \<in> data_span pf a \<Longrightarrow> mem h' x = v"
    using allocated_last [OF al wf'] by metis
  have ad: "alloc_data pf a = d" using wf_heap_alloc_bounds(3) [OF wf' a(2)] a(3) by simp
  show "heap_region pf h' e m \<longleftrightarrow> heap_region pf h e m \<or> (e, m) = (d, n)"
    using a(1,4) ad by (auto simp: heap_region_def)
  show "\<And>x. x \<in> {d..<d + n} \<Longrightarrow> mem h' x = v" using a(5,7) by blast
  assume e: "heap_region pf h e m"
  obtain b where b: "b \<in> set (s_alloc_list h)" "alloc_data pf b = e" "{e..<e + m} \<subseteq> alloc_span b" "e + m < 2 ^ 32"
      "e = alloc_addr b + sizeof_alloc_header pf"
    using heap_region_span [OF wf e] by metis
  have bs: "sorted_wrt (\<lambda>a b. alloc_span a \<inter> alloc_span b = {}) (s_alloc_list h @ [a])" using wf_heapD(10) [OF wf'] a(1) by simp
  then have dis: "alloc_span b \<inter> alloc_span a = {}" using b(1) by (simp add: sorted_wrt_append)
  have "alloc_addr a \<in> alloc_span a" using wf_heap_alloc_bounds(2) [OF wf' a(2)] by (simp add: alloc_span_def BLOCK_SIZE_def)
  moreover have "alloc_addr b \<in> alloc_span b" using wf_heap_alloc_bounds(2) [OF wf b(1)] by (simp add: alloc_span_def BLOCK_SIZE_def)
  ultimately have "e \<noteq> d" using dis a(3) b(5) by auto
  moreover have "mem h' x = mem h x" if "x \<in> {e..<e + m}" for x
    by (rule a(6)) (use that b(3,4) dis in auto)
  ultimately show "e \<noteq> d \<and> (\<forall>x\<in>{e..<e + m}. mem h' x = mem h x)" by blast
qed

lemma freed_regions:
  assumes wf: "wf_heap pf h" and a: "a \<in> set (s_alloc_list h)" and live: "s_alloc_list h' = live_after_free h a"
    and m: "\<forall>x<2 ^ 32. x \<notin> alloc_span a \<longrightarrow> mem h' x = mem h x"
  shows "heap_region pf h' e k \<longleftrightarrow> heap_region pf h e k \<and> e \<noteq> alloc_data pf a"
    and "heap_region pf h' e k \<Longrightarrow> \<forall>x\<in>{e..<e + k}. mem h' x = mem h x"
proof -
  have lv: "x \<in> set (s_alloc_list h') \<longleftrightarrow> x \<in> set (s_alloc_list h) \<and> x \<noteq> a" for x
    using alloc_addr_inj [OF wf _ a] live by (auto simp: live_after_free_def)
  have inj: "x = a" if "x \<in> set (s_alloc_list h)" "alloc_data pf x = alloc_data pf a" for x
    using alloc_addr_inj [OF wf that(1) a] that(2) wf_heap_alloc_bounds(3) [OF wf] a that(1) by simp
  show reg: "heap_region pf h' e k \<longleftrightarrow> heap_region pf h e k \<and> e \<noteq> alloc_data pf a"
    unfolding heap_region_def using lv inj by blast
  assume "heap_region pf h' e k"
  then have e: "heap_region pf h e k" "e \<noteq> alloc_data pf a" using reg by blast+
  obtain b where b: "b \<in> set (s_alloc_list h)" "alloc_data pf b = e" "{e..<e + k} \<subseteq> alloc_span b" "e + k < 2 ^ 32"
    using heap_region_span [OF wf e(1)] by metis
  have "b \<noteq> a" using b(2) e(2) by auto
  then have "alloc_span b \<inter> alloc_span a = {}" using allocs_disjoint [OF wf b(1) a] by blast
  then have "x \<notin> alloc_span a \<and> x < 2 ^ 32" if "x \<in> {e..<e + k}" for x using that b(3,4) by (auto simp: disjoint_iff)
  then show "\<forall>x\<in>{e..<e + k}. mem h' x = mem h x" using m by simp
qed

interpretation kheap: byte_allocator "wf_heap pf" "heap_region pf" mem "size_ok pf" "\<lambda>h n. heap_alloc pf n 0 h" "\<lambda>h d. heap_free pf d h" for pf
proof unfold_locales
  fix h :: heap and n :: nat
  assume wf: "wf_heap pf h" and n: "size_ok pf n"
  show "heap_alloc pf n 0 h = Inr (h, None) \<or>
      (\<exists>s' d. heap_alloc pf n 0 h = Inr (s', Some d) \<and> wf_heap pf s' \<and>
        (\<forall>e m. heap_region pf s' e m \<longleftrightarrow> heap_region pf h e m \<or> (e, m) = (d, n)) \<and>
        (\<forall>e m. heap_region pf h e m \<longrightarrow> e \<noteq> d \<and> (\<forall>x\<in>{e..<e + m}. mem s' x = mem h x)))"
  proof -
    consider "heap_alloc pf n 0 h = Inr (h, None)"
      | h' d where "heap_alloc pf n 0 h = Inr (h', Some d)" "wf_heap pf h'" "allocated pf h h' n d 0x90"
      using heap_alloc_spec [OF wf n, of False 0] by auto
    then show ?thesis
    proof cases
      case 2
      note r = allocated_regions [OF wf 2(2,3)]
      show ?thesis by (rule disjI2, rule exI [of _ h'], rule exI [of _ d]) (use 2(1,2) r(1,2) in simp)
    qed blast
  qed
next
  fix h :: heap and d n :: nat
  assume wf: "wf_heap pf h" and "heap_region pf h d n"
  then obtain a where a: "a \<in> set (s_alloc_list h)" "alloc_data pf a = d" by (auto simp: heap_region_def)
  obtain h' where h': "heap_free pf d h = Inr h'" "wf_heap pf h'" "s_alloc_list h' = live_after_free h a"
      "\<forall>x<2 ^ 32. x \<notin> alloc_span a \<longrightarrow> mem h' x = mem h x"
    using heap_free_spec [OF wf a(1)] a(2) by auto
  then show "\<exists>s'. heap_free pf d h = Inr s' \<and> wf_heap pf s' \<and> (\<forall>e m. heap_region pf s' e m \<longleftrightarrow> heap_region pf h e m \<and> e \<noteq> d) \<and>
      (\<forall>e m. heap_region pf s' e m \<longrightarrow> (\<forall>x\<in>{e..<e + m}. mem s' x = mem h x))"
    using freed_regions [OF wf a(1) h'(3,4)] a(2) by blast
next
  fix h :: heap and d n e m :: nat
  assume "wf_heap pf h" "heap_region pf h d n" "heap_region pf h e m" "d \<noteq> e"
  then show "{d..<d + n} \<inter> {e..<e + m} = {}" by (rule heap_region_disjoint)
qed

subsection \<open>Adding memory\<close>

lemma shrink_pages_eq:
  assumes "k \<le> n" and "4096 * n < 2 ^ 32"
  shows "shrink_pages (4096 * k) n = k"
  using assms
proof (induction n)
  case (Suc n)
  have "sz_mul (Suc n) HEAP_PAGESIZE = Suc n * 4096" using Suc.prems(2) by (subst sz_mul_no_wrap) (simp_all add: HEAP_PAGESIZE_def)
  then show ?case using Suc by (cases "k = Suc n") auto
qed simp

definition bitmap_bytes :: "platform \<Rightarrow> nat \<Rightarrow> nat" where
  "bitmap_bytes pf k = 8 * k + (max_align pf - (8 * k) mod max_align pf)"

definition pool_of_pages :: "platform \<Rightarrow> nat \<Rightarrow> nat \<Rightarrow> bitmap \<Rightarrow> pool_header" where
  "pool_of_pages pf addr k bm = \<lparr>pool_addr = addr, blockpool = addr + sizeof_pool_header pf + bitmap_bytes pf k, blockbitmap = bm,
     block_count = (4096 * k - bitmap_bytes pf k - sizeof_pool_header pf) div 64, usedblock_count = 0, page_count = k\<rparr>"

lemma bitmap_bytes_bounds:
  assumes "platform_ok pf" and "0 < k"
  shows "8 * k \<le> bitmap_bytes pf k" and "bitmap_bytes pf k \<le> 8 * k + 64" and "max_align pf dvd bitmap_bytes pf k"
    and "bitmap_bytes pf k + sizeof_pool_header pf < 4096 * k"
proof -
  have "max_align pf \<le> 64" using assms(1) by (auto simp: platform_ok_def BLOCK_SIZE_def intro: dvd_imp_le)
  then show b: "8 * k \<le> bitmap_bytes pf k" "bitmap_bytes pf k \<le> 8 * k + 64" by (simp_all add: bitmap_bytes_def)
  then show "bitmap_bytes pf k + sizeof_pool_header pf < 4096 * k" using assms by (simp add: platform_ok_def)
  have "(8 * k) mod max_align pf < max_align pf" using assms(1) by (simp add: platform_ok_def)
  then have "8 * k + (max_align pf - (8 * k) mod max_align pf) = max_align pf * ((8 * k) div max_align pf) + max_align pf"
    using mult_div_mod_eq [of "max_align pf" "8 * k"] by linarith
  then show "max_align pf dvd bitmap_bytes pf k" by (simp add: bitmap_bytes_def)
qed

lemma add_mem_eq:
  assumes pf: "platform_ok pf" and k: "0 < k" "4096 * k \<le> 2 ^ 31" and addr: "max_align pf dvd addr" "addr + 4096 * k < 2 ^ 32"
  shows "\<exists>bm. add_mem pf addr (4096 * k) h = Inr (h\<lparr>s_initial_heap_initialized := True,
      s_free_block_count := sz_add (s_free_block_count h) (block_count (pool_of_pages pf addr k bm)),
      s_heap_pool_list := s_heap_pool_list h @ [pool_of_pages pf addr k bm]\<rparr>) \<and>
    wf_bitmap bm \<and> word_count bm = 2 * k \<and> (\<forall>j. bm_get bm j \<longleftrightarrow> j < block_count (pool_of_pages pf addr k bm))"
proof -
  note b = bitmap_bytes_bounds [OF pf k(1)]
  let ?n = "(4096 * k - bitmap_bytes pf k - sizeof_pool_header pf) div 64" and ?bm = "\<lparr>words = replicate (2 * k) (0 :: u32), word_count = 2 * k\<rparr>"
  have wf0: "wf_bitmap ?bm" using k(2) by (simp add: wf_bitmap_def)
  have get0: "\<not> bm_get ?bm j" for j by (auto simp: bm_get_def)
  have n: "?n \<le> 32 * (2 * k)" using div_le_mono [of "4096 * k - bitmap_bytes pf k - sizeof_pool_header pf" "4096 * k" 64] by simp
  obtain bm where bm: "bitmap_set_bits ?bm (int 0) ?n = Inr bm" "wf_bitmap bm" "word_count bm = 2 * k" "\<forall>j. bm_get bm j \<longleftrightarrow> j < ?n"
    using set_bits_get [OF wf0, of 0 ?n] n k(2) get0 by auto
  let ?pages = "(sizeof_pool_header pf + 8 * k + 4096 * k + 4095) div 4096"
  have hdr: "sizeof_pool_header pf < 1024" using pf by (simp add: platform_ok_def)
  have "sizeof_pool_header pf + 8 * k + 4096 * k + 4095 < 2 ^ 32" using k(2) hdr by simp
  then have pages: "k \<le> ?pages" "4096 * ?pages < 2 ^ 32"
    using times_div_less_eq_dividend [of 4096 "sizeof_pool_header pf + 8 * k + 4096 * k + 4095"] by (simp, linarith)
  have s1: "size_to_blocks (4096 * k) BLOCK_SIZE = Inr (64 * k)" by (simp add: size_to_blocks_def BLOCK_SIZE_def)
  have s2: "bitmap_needed_word_count (64 * k) = Inr (2 * k)" by (simp add: bitmap_needed_word_count_def size_to_blocks_def BITS_PER_WORD_def)
  have s3: "sz_add (sz_add (sizeof_pool_header pf) (sz_mul (2 * k) 4)) (sz_mul (64 * k) BLOCK_SIZE) = sizeof_pool_header pf + 8 * k + 4096 * k"
    using k(2) hdr by (simp add: sz_add_no_wrap sz_mul_no_wrap BLOCK_SIZE_def)
  have s4: "size_to_blocks (sizeof_pool_header pf + 8 * k + 4096 * k) HEAP_PAGESIZE = Inr ?pages"
    using size_to_blocks_value [of 4096 "sizeof_pool_header pf + 8 * k + 4096 * k"] by (simp add: HEAP_PAGESIZE_def)
  have s5: "size_to_blocks (sz_mul k HEAP_PAGESIZE) BLOCK_SIZE = Inr (64 * k)"
    using s1 k(2) by (simp add: sz_mul_no_wrap HEAP_PAGESIZE_def mult.commute)
  have s6: "sz_add (sz_mul (2 * k) 4) (max_align pf - sz_mul (2 * k) 4 mod max_align pf) = bitmap_bytes pf k"
    using k(2) b(2) by (simp add: sz_mul_no_wrap sz_add_no_wrap bitmap_bytes_def)
  have s7: "sz_sub (sz_sub (sz_mul (64 * k) BLOCK_SIZE) (bitmap_bytes pf k)) (sizeof_pool_header pf) = 4096 * k - bitmap_bytes pf k - sizeof_pool_header pf"
    using k(2) b(4) by (simp add: sz_mul_no_wrap sz_sub_no_wrap BLOCK_SIZE_def)
  have s8: "sz_add (sz_add addr (sizeof_pool_header pf)) (bitmap_bytes pf k) = addr + sizeof_pool_header pf + bitmap_bytes pf k"
    using addr(2) b(4) by (simp add: sz_add_no_wrap)
  have s9: "(addr + sizeof_pool_header pf + bitmap_bytes pf k) mod max_align pf = 0"
    using addr(1) b(3) pf by (simp add: platform_ok_def)
  have "add_mem pf addr (4096 * k) h = Inr (h\<lparr>s_initial_heap_initialized := True,
      s_free_block_count := sz_add (s_free_block_count h) ?n, s_heap_pool_list := s_heap_pool_list h @ [pool_of_pages pf addr k bm]\<rparr>)"
    using s1 s2 s3 s4 s5 s6 s7 s8 s9 bm(1) shrink_pages_eq [OF pages]
    by (simp add: add_mem_def pool_of_pages_def BLOCK_SIZE_def Let_def)
  then show ?thesis using bm by (auto simp: pool_of_pages_def)
qed

definition mem_addable :: "platform \<Rightarrow> heap \<Rightarrow> nat \<Rightarrow> nat \<Rightarrow> bool" where
  "mem_addable pf h addr k \<longleftrightarrow> 0 < k \<and> 4096 * k \<le> 2 ^ 31 \<and> 0 < addr \<and> max_align pf dvd addr \<and> addr + 4096 * k < 2 ^ 32 \<and>
     (\<forall>x\<in>{addr..<addr + 4096 * k}. mapped pf x) \<and>
     (\<forall>p\<in>set (s_heap_pool_list h). pool_addr p \<noteq> addr \<and> pool_span p \<inter> {addr..<addr + 4096 * k} = {}) \<and>
     (\<Sum>p\<leftarrow>s_heap_pool_list h. block_count p) + 64 * k < 2 ^ 32"

lemma add_mem_wf:
  assumes wf: "wf_heap pf (h\<lparr>s_initial_heap_initialized := True\<rparr>)" and ok: "mem_addable pf h addr k"
  shows "\<exists>h' p. add_mem pf addr (4096 * k) h = Inr h' \<and> wf_heap pf h' \<and> s_heap_pool_list h' = s_heap_pool_list h @ [p] \<and>
    s_alloc_list h' = s_alloc_list h \<and> mem h' = mem h \<and> s_free_block_count h' = s_free_block_count h + block_count p \<and>
    free_blocks p = {..<block_count p} \<and> pool_span p \<subseteq> {addr + sizeof_pool_header pf + 8 * k..<addr + 4096 * k} \<and>
    4096 * k < 64 * block_count p + sizeof_pool_header pf + 8 * k + 128"
proof -
  have pf: "platform_ok pf" using wf_heapD(1) [OF wf] .
  have k: "0 < k" "4096 * k \<le> 2 ^ 31" and addr: "max_align pf dvd addr" "addr + 4096 * k < 2 ^ 32" and a0: "0 < addr"
    using ok by (simp_all add: mem_addable_def)
  note b = bitmap_bytes_bounds [OF pf k(1)]
  obtain bm where bm: "add_mem pf addr (4096 * k) h = Inr (h\<lparr>s_initial_heap_initialized := True,
      s_free_block_count := sz_add (s_free_block_count h) (block_count (pool_of_pages pf addr k bm)),
      s_heap_pool_list := s_heap_pool_list h @ [pool_of_pages pf addr k bm]\<rparr>)"
      "wf_bitmap bm" "word_count bm = 2 * k" "\<forall>j. bm_get bm j \<longleftrightarrow> j < block_count (pool_of_pages pf addr k bm)"
    using add_mem_eq [OF pf k addr, of h] by blast
  let ?p = "pool_of_pages pf addr k bm"
  have n: "64 * block_count ?p \<le> 4096 * k - bitmap_bytes pf k - sizeof_pool_header pf"
      "4096 * k - bitmap_bytes pf k - sizeof_pool_header pf < 64 * block_count ?p + 64" by (simp_all add: pool_of_pages_def)
  have free: "free_blocks ?p = {..<block_count ?p}" using bm(4) by (auto simp: free_blocks_def pool_of_pages_def)
  have span: "pool_span ?p \<subseteq> {addr + sizeof_pool_header pf + 8 * k..<addr + 4096 * k}"
    using n(1) b(1,4) by (auto simp: pool_span_def pool_of_pages_def BLOCK_SIZE_def)
  have sub: "pool_span ?p \<subseteq> {addr..<addr + 4096 * k}" using span by auto
  have wp: "wf_heap_pool pf ?p"
    unfolding wf_heap_pool_def free
  proof (intro conjI)
    show "blockpool ?p + BLOCK_SIZE * block_count ?p < 2 ^ 32"
      using n(1) b(4) addr(2) by (simp add: pool_of_pages_def BLOCK_SIZE_def)
    show "max_align pf dvd blockpool ?p" using addr(1) b(3) pf by (simp add: pool_of_pages_def platform_ok_def)
    show "\<forall>x\<in>pool_span ?p. mapped pf x" using sub ok unfolding mem_addable_def by blast
    show "block_count ?p \<le> 32 * word_count (blockbitmap ?p)" using n(1) bm(3) by (simp add: pool_of_pages_def)
  qed (use bm a0 in \<open>simp_all add: pool_of_pages_def\<close>)
  have le: "s_free_block_count h \<le> (\<Sum>p\<leftarrow>s_heap_pool_list h. block_count p)"
    using wf_heapD(6) [OF wf] sum_list_mono [of "s_heap_pool_list h" "\<lambda>p. card (free_blocks p)" block_count]
      wf_poolD(5) [OF wf_heapD(3) [OF wf]] by simp
  have tot: "(\<Sum>p\<leftarrow>s_heap_pool_list h. block_count p) + block_count ?p < 2 ^ 32"
  proof -
    have "block_count ?p \<le> 64 * k" using n(1) by linarith
    then show ?thesis using ok by (simp add: mem_addable_def)
  qed
  have add: "sz_add (s_free_block_count h) (block_count ?p) = s_free_block_count h + block_count ?p" using le tot by (simp add: sz_add_no_wrap)
  have dis: "\<forall>q\<in>set (s_heap_pool_list h). pool_addr q \<noteq> addr \<and> pool_span q \<inter> pool_span ?p = {}"
    using ok sub unfolding mem_addable_def by blast
  let ?h = "h\<lparr>s_initial_heap_initialized := True, s_free_block_count := s_free_block_count h + block_count ?p,
      s_heap_pool_list := s_heap_pool_list h @ [?p]\<rparr>"
  have "wf_heap pf ?h"
    using wf wp dis tot free unfolding wf_heap_def by (auto simp: sorted_wrt_append pool_of_pages_def)
  then show ?thesis
    using bm(1) add free span n b(2) by (intro exI [of _ ?h] exI [of _ ?p]) simp
qed

subsection \<open>Properties\<close>

text \<open>
  Claim C10. On a well-formed heap, a request for at least one byte (whose rounded size fits 32 bits) either
  finds no room, and then leaves the heap as it is (with the zeroing flag it writes through the null
  pointer), or returns the start of a fresh region of the requested size: disjoint from every live region,
  filled with the pattern 90 (or with zeros if the flag asks for them). All other live regions keep their
  contents and the heap stays well-formed.
\<close>

theorem heap_alloc_correct:
  assumes "wf_heap pf h" and "size_ok pf sz" and "z \<longleftrightarrow> flags AND HEAP_FLAG_ZEROMEMORY \<noteq> 0"
  shows "no_room pf h sz \<and> heap_alloc pf sz flags h = (if z then Inl Null_deref else Inr (h, None)) \<or>
    (\<exists>h' d. heap_alloc pf sz flags h = Inr (h', Some d) \<and> wf_heap pf h' \<and>
      (\<forall>e m. heap_region pf h' e m \<longleftrightarrow> heap_region pf h e m \<or> (e, m) = (d, sz)) \<and>
      (\<forall>x\<in>{d..<d + sz}. mem h' x = (if z then 0 else 0x90)) \<and>
      (\<forall>e m. heap_region pf h e m \<longrightarrow> {d..<d + sz} \<inter> {e..<e + m} = {} \<and> (\<forall>x\<in>{e..<e + m}. mem h' x = mem h x)))"
proof -
  have "\<exists>h' d. heap_alloc pf sz flags h = Inr (h', Some d) \<and> wf_heap pf h' \<and>
      (\<forall>e m. heap_region pf h' e m \<longleftrightarrow> heap_region pf h e m \<or> (e, m) = (d, sz)) \<and>
      (\<forall>x\<in>{d..<d + sz}. mem h' x = (if z then 0 else 0x90)) \<and>
      (\<forall>e m. heap_region pf h e m \<longrightarrow> {d..<d + sz} \<inter> {e..<e + m} = {} \<and> (\<forall>x\<in>{e..<e + m}. mem h' x = mem h x))"
    if h': "heap_alloc pf sz flags h = Inr (h', Some d)" "wf_heap pf h'" "allocated pf h h' sz d (if z then 0 else 0x90)" for h' d
  proof -
    note r = allocated_regions [OF assms(1) h'(2,3)]
    have "{d..<d + sz} \<inter> {e..<e + m} = {}" if "heap_region pf h e m" for e m
      using heap_region_disjoint [OF h'(2), of d sz e m] r(1,2) that by auto
    then show ?thesis by (intro exI [of _ h'] exI [of _ d] conjI) (use h'(1,2) r in auto)
  qed
  then show ?thesis using heap_alloc_spec [OF assms] by blast
qed

text \<open>
  Claim C31. Releasing an allocation right after it was made never fails and undoes it: the live regions are the
  same as before, each with the same contents, and the heap is well-formed. Releasing any live region, at
  any later time, ends this region and keeps all others with their contents.
\<close>

theorem heap_free_undoes_alloc:
  assumes "wf_heap pf h"
  shows "(size_ok pf sz \<and> heap_alloc pf sz 0 h = Inr (h1, Some d) \<longrightarrow>
      (\<exists>h2. heap_free pf d h1 = Inr h2 \<and> wf_heap pf h2 \<and> heap_region pf h2 = heap_region pf h \<and>
        (\<forall>e m. heap_region pf h e m \<longrightarrow> (\<forall>x\<in>{e..<e + m}. mem h2 x = mem h x)))) \<and>
    (heap_region pf h p n \<longrightarrow>
      (\<exists>h2. heap_free pf p h = Inr h2 \<and> wf_heap pf h2 \<and> (\<forall>e m. heap_region pf h2 e m \<longleftrightarrow> heap_region pf h e m \<and> e \<noteq> p) \<and>
        (\<forall>e m. heap_region pf h2 e m \<longrightarrow> (\<forall>x\<in>{e..<e + m}. mem h2 x = mem h x))))"
proof (intro conjI impI)
  assume "size_ok pf sz \<and> heap_alloc pf sz 0 h = Inr (h1, Some d)"
  then show "\<exists>h2. heap_free pf d h1 = Inr h2 \<and> wf_heap pf h2 \<and> heap_region pf h2 = heap_region pf h \<and>
        (\<forall>e m. heap_region pf h e m \<longrightarrow> (\<forall>x\<in>{e..<e + m}. mem h2 x = mem h x))"
    using kheap.alloc_release [OF assms, of sz h1 d] by blast
next
  assume "heap_region pf h p n"
  then show "\<exists>h2. heap_free pf p h = Inr h2 \<and> wf_heap pf h2 \<and> (\<forall>e m. heap_region pf h2 e m \<longleftrightarrow> heap_region pf h e m \<and> e \<noteq> p) \<and>
        (\<forall>e m. heap_region pf h2 e m \<longrightarrow> (\<forall>x\<in>{e..<e + m}. mem h2 x = mem h x))"
    by (rule kheap.release [OF assms])
qed

text \<open>
  Claim C33. A write past the end of an allocation is detected: once any of the eight poison bytes behind the data
  of a live allocation has changed, every further request, release of a live region and check stops the
  kernel with a panic.
\<close>

theorem heap_overflow_detected:
  assumes "wf_heap pf h" and "a \<in> set (s_alloc_list h)" and "i < length POISONVALUES" and "v \<noteq> POISONVALUES ! i"
    and "size_ok pf sz" and "heap_region pf h p n"
    and "h' = h\<lparr>mem := (mem h)(alloc_addr a + sizeof_alloc_header pf + alloc_size a + i := v)\<rparr>"
  shows "heap_check_overflow pf h' = Inl Panic \<and> heap_alloc pf sz flags h' = Inl Panic \<and> heap_free pf p h' = Inl Panic"
proof -
  note b = wf_heap_alloc_bounds [OF assms(1,2)]
  have "\<not> poison_ok pf (mem h') a" using assms(3,4) unfolding poison_ok_iff [OF b(1,5)] assms(7) by auto
  then have chk: "heap_check_overflow pf h' = Inl Panic" using assms(2,7) by (auto simp: heap_check_overflow_def list_all_iff)
  obtain c where c: "c \<in> set (s_alloc_list h)" "alloc_data pf c = p" using assms(6) by (auto simp: heap_region_def)
  show ?thesis
    using chk blocks_needed [OF assms(5)] alloc_header_of_eq [OF assms(1) c(1)] c(2) by (simp add: heap_alloc_def heap_free_def)
qed

text \<open>
  Adding a page-aligned amount of mapped memory, disjoint from the existing pools, never fails and
  keeps the heap well-formed: one more pool, all of its blocks free, that lies inside the memory behind its
  header and its bitmap and uses all of it but less than 128 bytes. Allocations and memory are untouched.
\<close>

lemma add_mem_correct:
  assumes "wf_heap pf (h\<lparr>s_initial_heap_initialized := True\<rparr>)" and "mem_addable pf h addr k"
  shows "\<exists>h' p. add_mem pf addr (4096 * k) h = Inr h' \<and> wf_heap pf h' \<and> s_heap_pool_list h' = s_heap_pool_list h @ [p] \<and>
    s_alloc_list h' = s_alloc_list h \<and> mem h' = mem h \<and> s_free_block_count h' = s_free_block_count h + block_count p \<and>
    free_blocks p = {..<block_count p} \<and> pool_span p \<subseteq> {addr + sizeof_pool_header pf + 8 * k..<addr + 4096 * k} \<and>
    4096 * k < 64 * block_count p + sizeof_pool_header pf + 8 * k + 128"
  by (rule add_mem_wf [OF assms])

definition sample_platform :: platform where
  "sample_platform = \<lparr>sizeof_alloc_header = 24, sizeof_pool_header = 40, max_align = 8, s_initial_heap_memory = 0x200000, mapped = (\<lambda>_. True)\<rparr>"

definition no_heap :: heap where
  "no_heap = \<lparr>s_free_block_count = 0, s_heap_pool_list = [], s_alloc_list = [], s_initial_heap_initialized = False, mem = (\<lambda>_. 0)\<rparr>"

lemma no_heap_wf:
  "wf_heap sample_platform (no_heap\<lparr>s_initial_heap_initialized := True\<rparr>)" "mem_addable sample_platform no_heap 0x100000 1"
  by (simp_all add: wf_heap_def platform_ok_def mem_addable_def sample_platform_def no_heap_def BLOCK_SIZE_def)

lemma sample_heap:
  obtains h p where "wf_heap sample_platform h" "s_heap_pool_list h = [p]" "free_blocks p = {..<block_count p}" "61 \<le> block_count p"
    "s_free_block_count h = block_count p" "s_alloc_list h = []"
  using add_mem_wf [OF no_heap_wf] by (fastforce simp: no_heap_def sample_platform_def)

lemma sample_alloc:
  obtains h h1 d where "wf_heap sample_platform h" "s_alloc_list h = []" "size_ok sample_platform 100"
    "heap_alloc sample_platform 100 0 h = Inr (h1, Some d)" "wf_heap sample_platform h1" "heap_region sample_platform h1 d 100"
    "\<not> no_room sample_platform h 100" "\<not> no_room sample_platform h 20"
proof -
  obtain h p where h: "wf_heap sample_platform h" "s_heap_pool_list h = [p]" "free_blocks p = {..<block_count p}" "61 \<le> block_count p"
      "s_free_block_count h = block_count p" "s_alloc_list h = []"
    using sample_heap by metis
  have sz: "size_ok sample_platform 100" by (simp add: size_ok_def sample_platform_def POISONVALUES_def)
  have n: "needed_blocks sample_platform 100 = 3" "needed_blocks sample_platform 20 = 1"
    by (simp_all add: needed_blocks_def sample_platform_def POISONVALUES_def)
  have "{0..<0 + 3} \<subseteq> free_blocks p" "{0..<0 + 1} \<subseteq> free_blocks p" unfolding h(3) using h(4) by (auto simp only: atLeastLessThan_iff lessThan_iff)
  then have room: "\<not> no_room sample_platform h 100" "\<not> no_room sample_platform h 20"
    using h(4,5) unfolding no_room_def n h(2) by (simp, blast)+
  then obtain h1 d where h1: "heap_alloc sample_platform 100 0 h = Inr (h1, Some d)" "wf_heap sample_platform h1"
      "allocated sample_platform h h1 100 d 0x90"
    using heap_alloc_spec [OF h(1) sz, of False 0] by auto
  have "heap_region sample_platform h1 d 100" using allocated_regions(1) [OF h(1) h1(2,3)] by blast
  then show thesis using that [OF h(1,6) sz h1(1,2)] room by blast
qed

theorem heap_alloc_correct_witness:
  "\<exists>h h' d. wf_heap sample_platform h \<and> heap_alloc sample_platform 100 0 h = Inr (h', Some d) \<and>
     wf_heap sample_platform h' \<and> (\<forall>x\<in>{d..<d + 100}. mem h' x = 0x90)"
proof -
  obtain h h1 d where h: "wf_heap sample_platform h" "size_ok sample_platform 100"
      "heap_alloc sample_platform 100 0 h = Inr (h1, Some d)" "\<not> no_room sample_platform h 100"
    using sample_alloc by metis
  then show ?thesis using heap_alloc_correct [OF h(1,2), of False 0] by auto
qed

theorem heap_free_undoes_alloc_witness:
  "\<exists>h h1 d h2. wf_heap sample_platform h \<and> heap_alloc sample_platform 100 0 h = Inr (h1, Some d) \<and>
     heap_free sample_platform d h1 = Inr h2 \<and> heap_region sample_platform h2 = heap_region sample_platform h"
proof -
  obtain h h1 d where h: "wf_heap sample_platform h" "size_ok sample_platform 100" "heap_alloc sample_platform 100 0 h = Inr (h1, Some d)"
    using sample_alloc by metis
  then obtain h2 where "heap_free sample_platform d h1 = Inr h2" "heap_region sample_platform h2 = heap_region sample_platform h"
    using heap_free_undoes_alloc [OF h(1), of 100 h1 d 0 0] by (elim conjE) blast
  then show ?thesis using h by blast
qed

theorem heap_overflow_detected_witness:
  "\<exists>h1 d a. heap_region sample_platform h1 d 100 \<and> a \<in> set (s_alloc_list h1) \<and>
     heap_free sample_platform d (h1\<lparr>mem := (mem h1)(alloc_addr a + sizeof_alloc_header sample_platform + alloc_size a + 0 := 0)\<rparr>) = Inl Panic"
proof -
  obtain h1 d where h: "wf_heap sample_platform h1" "size_ok sample_platform 100" "heap_region sample_platform h1 d 100"
    using sample_alloc by metis
  then obtain a where a: "a \<in> set (s_alloc_list h1)" by (auto simp: heap_region_def)
  have "0 < length POISONVALUES" "(0 :: u8) \<noteq> POISONVALUES ! 0" by (simp_all add: POISONVALUES_def)
  then show ?thesis using heap_overflow_detected [OF h(1) a _ _ h(2,3) refl] a h(3) by blast
qed



text \<open>
  Claim C39. The guard of \<open>heap_alloc\<close> leaves out the poison bytes: a request for a size just below \<open>2 ^ 32\<close> passes it, its
  total size wraps to less than one block, and it is not refused: with a free block in the first pool (and two
  in all) the call never returns the null pointer for it.
\<close>

theorem heap_alloc_size_wraps:
  assumes "wf_heap pf h" and "sz \<le> size_max - sizeof_alloc_header pf" and "2 ^ 32 \<le> sz + sizeof_alloc_header pf + length POISONVALUES"
    and "s_heap_pool_list h = p # ps" and "free_blocks p \<noteq> {}" and "2 \<le> s_free_block_count h"
  shows "\<exists>n\<le>1. size_to_blocks (actual_alloc_size pf sz) BLOCK_SIZE = Inr n \<and> (\<forall>h'. heap_alloc pf sz 0 h \<noteq> Inr (h', None))"
proof -
  have pl: "length POISONVALUES = 8" by (simp add: POISONVALUES_def)
  have hdr: "sizeof_alloc_header pf < 2 ^ 16" using wf_heapD(1) [OF assms(1)] by (simp add: platform_ok_def)
  have sm: "size_max = 2 ^ 32 - 1" by (simp add: size_max_def)
  have "actual_alloc_size pf sz = (sz + sizeof_alloc_header pf + 8) mod 2 ^ 32"
    by (simp add: actual_alloc_size_def sz_add_def pl mod_simps)
  then have act: "actual_alloc_size pf sz = sz + sizeof_alloc_header pf + 8 - 2 ^ 32"
    using assms(2,3) hdr sm by (simp add: pl le_mod_geq)
  have sz0: "sz \<noteq> 0" "\<not> size_max - sizeof_alloc_header pf < sz" using assms(2,3) hdr by (auto simp: pl)
  have "actual_alloc_size pf sz < 64" unfolding act using assms(2) hdr unfolding sm by simp
  then have "size_to_blocks (actual_alloc_size pf sz) BLOCK_SIZE = Inr (if actual_alloc_size pf sz = 0 then 0 else 1)"
    by (simp add: size_to_blocks_def BLOCK_SIZE_def)
  then obtain n where n: "size_to_blocks (actual_alloc_size pf sz) BLOCK_SIZE = Inr n" "n \<le> 1" by (auto split: if_splits)
  have wp: "wf_heap_pool pf p" using wf_heapD(3) [OF assms(1)] assms(4) by simp
  obtain r where r: "bitmap_find_set_bits (blockbitmap p) 0 n = Inr r"
      "first_spec (fits (blockbitmap p) n) 0 (32 * word_count (blockbitmap p)) r"
    using bitmap_find_set_bits_spec [OF wf_poolD(1) [OF wp], of 0 n] by auto
  obtain k where k: "k \<in> free_blocks p" using assms(5) by blast
  then have "fits (blockbitmap p) n k" "k < 32 * word_count (blockbitmap p)"
    using n(2) by (auto simp: fits_def free_blocks_def bm_get_def less_Suc_eq le_Suc_eq)
  then have "0 \<le> r" using r(2) unfolding first_spec_def by auto
  then have no: "alloc_from_heap_pool pf 0 sz h \<noteq> Inr (h', None)" for h'
    using sz0 n(1) r(1) assms(4) by (auto simp: alloc_from_heap_pool_def bind_res_eq_Inr Let_def)
  have "alloc_pools_loop pf sz [0..<length (s_heap_pool_list h)] h \<noteq> Inr (h', None)" for h'
  proof -
    have "[0..<length (s_heap_pool_list h)] = 0 # [1..<length (s_heap_pool_list h)]" using assms(4) by (simp add: upt_rec)
    then show ?thesis using no by (auto simp: bind_res_eq_Inr split: if_splits)
  qed
  then have "heap_alloc pf sz 0 h \<noteq> Inr (h', None)" for h'
    using sz0 n assms(6) wf_heapD(2) [OF assms(1)] by (auto simp: heap_alloc_def bind_res_eq_Inr)
  with n show ?thesis by blast
qed

theorem heap_alloc_size_wraps_witness:
  "\<exists>h. wf_heap sample_platform h \<and>
    (\<exists>n\<le>1. size_to_blocks (actual_alloc_size sample_platform (2 ^ 32 - 30)) BLOCK_SIZE = Inr n \<and>
       (\<forall>h'. heap_alloc sample_platform (2 ^ 32 - 30) 0 h \<noteq> Inr (h', None)))"
proof -
  obtain h p where h: "wf_heap sample_platform h" "s_heap_pool_list h = [p]" "free_blocks p = {..<block_count p}" "61 \<le> block_count p"
      "s_free_block_count h = block_count p"
    using sample_heap by metis
  have "free_blocks p \<noteq> {}" "2 \<le> s_free_block_count h" using h(3-5) by (auto simp: lessThan_empty_iff)
  then show ?thesis
    using heap_alloc_size_wraps [OF h(1) _ _ h(2), of "2 ^ 32 - 30"] h(1)
    by (auto simp: sample_platform_def size_max_def POISONVALUES_def)
qed

end
