(* ===== verification/Vfs.thy ===== *)
theory Vfs
  imports Path_Reader
begin

text \<open>
  The virtual file system (kernel/fs/vfs.c): removal of \<open>.\<close> and \<open>..\<close> from paths, the table of mounted file
  systems and the choice of the file system for a path. The operations of a file system driver are a record of
  functions on the state \<open>'w\<close> of the drivers; contexts, disks, files and directories are numbers (addresses).
\<close>

record 'w vfs_fstype_ops =
  op_mount :: "'w \<Rightarrow> nat \<Rightarrow> 'w \<times> int \<times> nat"
  op_umount :: "'w \<Rightarrow> nat \<Rightarrow> 'w \<times> int"
  op_open :: "('w \<Rightarrow> nat \<Rightarrow> u8 list \<Rightarrow> nat \<Rightarrow> int \<Rightarrow> 'w \<times> int \<times> nat) option"
  op_open_directory :: "('w \<Rightarrow> nat \<Rightarrow> u8 list \<Rightarrow> nat \<Rightarrow> 'w \<times> int \<times> nat) option"
  op_close_directory :: "('w \<Rightarrow> nat \<Rightarrow> 'w \<times> int) option"
  op_read_directory :: "('w \<Rightarrow> nat \<Rightarrow> 'w \<times> int \<times> u8 list) option"

record 'w vfs_fstype =
  fs_name :: "u8 list"
  fs_ops :: "'w vfs_fstype_ops"

record 'w vfs_fscontext =
  ctx_addr :: nat
  mount_path :: "u8 list"
  ctx_fstype :: "'w vfs_fstype"
  open_file_count :: nat

record 'w vfs =
  s_next_fd_num :: int
  s_fstypes :: "'w vfs_fstype list"
  s_mounts :: "'w vfs_fscontext list"
  drivers :: 'w

record vfs_file =
  file_ops :: nat
  file_fscontext :: nat
  file_data :: nat
  file_id :: int

text \<open>
  What the operations take from elsewhere: which sizes \<open>heap_alloc\<close> serves, the bytes of a fresh block, and the
  path reader on the stack before its initialisation.
\<close>

record vfs_env =
  heap_ok :: "nat \<Rightarrow> bool"
  junk :: "nat \<Rightarrow> u8"
  stack_reader :: path_reader

subsection \<open>Open files\<close>

definition count_files :: "nat \<Rightarrow> (nat \<Rightarrow> nat) \<Rightarrow> 'w vfs \<Rightarrow> 'w vfs" where
  "count_files c f s =
     s\<lparr>s_mounts := map (\<lambda>x. if ctx_addr x = c then x\<lparr>open_file_count := f (open_file_count x)\<rparr> else x) (s_mounts s)\<rparr>"

definition vfs_register_file :: "nat \<Rightarrow> nat \<Rightarrow> nat \<Rightarrow> 'w vfs \<Rightarrow> ('w vfs \<times> vfs_file \<times> int) res" where
  "vfs_register_file ops fscontext data s =
     (let i = s_next_fd_num s in
      if i = 2 ^ 31 - 1 then Inl Panic
      else
        Inr (count_files fscontext (\<lambda>n. sz_add n 1) (s\<lparr>s_next_fd_num := i + 1\<rparr>),
             \<lparr>file_ops = ops, file_fscontext = fscontext, file_data = data, file_id = i\<rparr>, 0))"

definition vfs_unregister_file :: "vfs_file option \<Rightarrow> 'w vfs \<Rightarrow> 'w vfs" where
  "vfs_unregister_file self s =
     (case self of None \<Rightarrow> s | Some f \<Rightarrow> count_files (file_fscontext f) (\<lambda>n. sz_sub n 1) s)"

subsection \<open>Relative path components\<close>

definition name_loc :: "path_reader \<Rightarrow> name_ptr \<Rightarrow> u8 list \<times> nat" where
  "name_loc r p = (case p of Name_buf \<Rightarrow> (name_buf r, 0) | Path_at q \<Rightarrow> (pr_path r, q))"

definition add_name :: "u8 list \<Rightarrow> nat \<Rightarrow> u8 list \<times> nat \<Rightarrow> (u8 list \<times> nat) res" where
  "add_name new_path dest = (\<lambda>(nb, q).
     bind_res (kstrcmp nb q [46, 0] 0) (\<lambda>dot.
     if dot = 0 then Inr (new_path, dest)
     else
       bind_res (kstrcmp nb q [46, 46, 0] 0) (\<lambda>dotdot.
       if dotdot = 0 then
         bind_res (kstrrchr new_path 0 47) (\<lambda>found_pos.
         let dest = (case found_pos of None \<Rightarrow> 0 | Some x \<Rightarrow> x) in
         bind_res (store new_path dest 0) (\<lambda>new_path. Inr (new_path, dest)))
       else
         bind_res (load nb q) (\<lambda>c.
         if c \<noteq> 0 then
           bind_res (store new_path dest 47) (\<lambda>new_path.
           bind_res (kstrlen nb q) (\<lambda>name_len.
           bind_res (vmemcpy new_path (dest + 1) nb q name_len) (\<lambda>new_path.
           Inr (new_path, dest + 1 + name_len))))
         else Inr (new_path, dest)))))"

lemma kstrchr_zero: "kstrchr b p 0 = Inr (Some e) \<Longrightarrow> b ! e = 0"
proof (induction b p "0 :: int" rule: kstrchr.induct)
  case (1 b p)
  then show ?case by (fastforce simp: kstrchr.simps [of b p] sint_zero_iff split: if_splits)
qed

lemma pathreader_progress:
  "pathreader_next r = Inr (r', ret, Some p) \<Longrightarrow>
    remaining_path r < remaining_path r' \<and> remaining_path r' \<le> length (pr_path r') \<and> pr_path r' = pr_path r"
proof (induction r arbitrary: r' ret p rule: pathreader_next.induct)
  case (1 self)
  let ?b = "pr_path self" and ?r = "remaining_path self"
  obtain c where c: "load ?b ?r = Inr c" "c \<noteq> 0"
    using "1.prems" by (auto simp: pathreader_next.simps [of self] bind_res_eq_Inr split: if_splits)
  then have c': "?r < length ?b" "?b ! ?r \<noteq> 0" by (auto simp: load_eq_Inr)
  obtain ns where ns: "kstrchr ?b ?r 47 = Inr ns"
    using "1.prems" c by (auto simp: pathreader_next.simps [of self] bind_res_eq_Inr)
  show ?case
  proof (cases ns)
    case None
    then obtain e where e: "kstrchr ?b ?r 0 = Inr (Some e)" "r' = self\<lparr>remaining_path := e\<rparr>"
      using "1.prems" c ns by (auto simp: pathreader_next.simps [of self] bind_res_eq_Inr split: option.splits)
    have "e \<noteq> ?r" using kstrchr_zero [OF e(1)] c'(2) by auto
    then show ?thesis using kstrchr_range [OF e(1)] e(2) by auto
  next
    case (Some slash)
    note sl = kstrchr_range [OF ns [unfolded Some]]
    obtain buf buf' c0 where b: "vmemcpy (name_buf self) 0 ?b ?r (slash - ?r) = Inr buf" "store buf (slash - ?r) 0 = Inr buf'"
        "load buf' 0 = Inr c0" "\<not> NAME_MAX < slash - ?r"
      using "1.prems" c ns Some by (auto simp: pathreader_next.simps [of self] bind_res_eq_Inr Let_def split: if_splits)
    let ?s = "self\<lparr>name_buf := buf', remaining_path := slash + 1\<rparr>"
    show ?thesis
    proof (cases "c0 = 0")
      case True
      have "pathreader_next self = pathreader_next ?s"
        using c ns Some b True by (simp add: pathreader_next.simps [of self])
      then have "pathreader_next ?s = Inr (r', ret, Some p)" using "1.prems" by simp
      from "1.IH" [OF c ns Some refl b(4) b(1,2) refl b(3) True this] show ?thesis using sl by auto
    next
      case False
      have "pathreader_next self = Inr (?s, 0, Some Name_buf)" using c ns Some b False by (simp add: pathreader_next.simps [of self])
      then show ?thesis using "1.prems" sl by auto
    qed
  qed
qed

text \<open>
  The loop over the components. The result is the return code of the path reader (0 at the end of the path), the
  buffer and the position behind the last component.
\<close>

function rel_path_loop :: "path_reader \<Rightarrow> u8 list \<Rightarrow> nat \<Rightarrow> (int \<times> u8 list \<times> nat) res" where
  "rel_path_loop reader new_path dest =
     (case pathreader_next reader of
        Inl e \<Rightarrow> Inl e
      | Inr (reader', ret, name) \<Rightarrow>
          if ret = - ENOENT then Inr (0, new_path, dest)
          else if ret < 0 then Inr (ret, new_path, dest)
          else
            (case name of
               None \<Rightarrow> Inl Null_deref
             | Some p \<Rightarrow>
                 (case add_name new_path dest (name_loc reader' p) of
                    Inl e \<Rightarrow> Inl e
                  | Inr (new_path, dest) \<Rightarrow> rel_path_loop reader' new_path dest)))"
  by pat_completeness auto
termination
  by (relation "measure (\<lambda>(r, _, _). length (pr_path r) - remaining_path r)") (auto dest!: pathreader_progress)

declare rel_path_loop.simps [simp del]

text \<open>The return code, and the new path (\<open>None\<close> when \<open>newpath_out\<close> is not set).\<close>

definition remove_rel_path :: "vfs_env \<Rightarrow> u8 list \<Rightarrow> nat \<Rightarrow> (int \<times> u8 list option) res" where
  "remove_rel_path env path p =
     bind_res (kstrlen path p) (\<lambda>len.
     let sz = sz_add len 2 in
     if sz = 0 then Inr (- ENOMEM, None)
     else if \<not> heap_ok env sz then Inr (- ENOMEM, None)
     else
       bind_res (rel_path_loop (pathreader_init (stack_reader env) path p) (map (junk env) [0..<sz]) 0) (\<lambda>(ret, new_path, dest).
       if ret < 0 then Inr (ret, None)
       else bind_res (store new_path dest 0) (\<lambda>new_path. Inr (0, Some new_path))))"

subsection \<open>Mounting\<close>

text \<open>
  When the path cannot be built, \<open>mount\<close> frees its variable \<open>newmountpath\<close> without having set it.
\<close>

definition mount :: "vfs_env \<Rightarrow> 'w vfs_fstype \<Rightarrow> nat \<Rightarrow> u8 list \<Rightarrow> nat \<Rightarrow> 'w vfs \<Rightarrow> ('w vfs \<times> int) res" where
  "mount env fstype disk mountpath p s =
     bind_res (remove_rel_path env mountpath p) (\<lambda>(ret, newmountpath).
     case newmountpath of None \<Rightarrow> Inl Bad_argument
     | Some path \<Rightarrow>
         (case op_mount (fs_ops fstype) (drivers s) disk of (w, ret, context) \<Rightarrow>
            if ret < 0 then Inr (s\<lparr>drivers := w\<rparr>, ret)
            else
              Inr (s\<lparr>drivers := w, s_mounts := s_mounts s @
                     [\<lparr>ctx_addr = context, mount_path = path, ctx_fstype = fstype, open_file_count = 0\<rparr>]\<rparr>, ret)))"

fun find_mount_loop :: "u8 list \<Rightarrow> 'w vfs_fscontext list \<Rightarrow> 'w vfs_fscontext option res" where
  "find_mount_loop newmountpath [] = Inr None"
| "find_mount_loop newmountpath (entry # es) =
     bind_res (kstrcmp (mount_path entry) 0 newmountpath 0) (\<lambda>d.
     if d = 0 then Inr (Some entry) else find_mount_loop newmountpath es)"

definition findmount :: "vfs_env \<Rightarrow> u8 list \<Rightarrow> nat \<Rightarrow> 'w vfs \<Rightarrow> (int \<times> 'w vfs_fscontext option) res" where
  "findmount env mountpath p s =
     bind_res (remove_rel_path env mountpath p) (\<lambda>(ret, newmountpath).
     case newmountpath of None \<Rightarrow> Inr (ret, None)
     | Some path \<Rightarrow>
         bind_res (assert_res (s_mounts s \<noteq> [])) (\<lambda>_.
         bind_res (find_mount_loop path (s_mounts s)) (\<lambda>r.
         case r of None \<Rightarrow> Inr (- EINVAL, None) | Some c \<Rightarrow> Inr (ret, Some c))))"

fun mount_any_loop :: "vfs_env \<Rightarrow> nat \<Rightarrow> u8 list \<Rightarrow> nat \<Rightarrow> 'w vfs_fstype list \<Rightarrow> int \<Rightarrow> 'w vfs \<Rightarrow> ('w vfs \<times> int) res" where
  "mount_any_loop env disk mountpath p [] ret s = Inr (s, ret)"
| "mount_any_loop env disk mountpath p (t # ts) ret s =
     bind_res (mount env t disk mountpath p s) (\<lambda>(s, ret).
     if ret < 0 \<and> ret \<noteq> - EINVAL then Inr (s, ret)
     else if ret = 0 then Inr (s, ret)
     else mount_any_loop env disk mountpath p ts 0 s)"

text \<open>The last file system type with the given name.\<close>

fun find_fstype_loop :: "u8 list \<Rightarrow> 'w vfs_fstype list \<Rightarrow> 'w vfs_fstype option \<Rightarrow> 'w vfs_fstype option res" where
  "find_fstype_loop fstype [] result = Inr result"
| "find_fstype_loop fstype (t # ts) result =
     bind_res (kstrcmp (fs_name t) 0 fstype 0) (\<lambda>d. find_fstype_loop fstype ts (if d = 0 then Some t else result))"

definition vfs_mount :: "vfs_env \<Rightarrow> u8 list option \<Rightarrow> nat \<Rightarrow> u8 list \<Rightarrow> nat \<Rightarrow> 'w vfs \<Rightarrow> ('w vfs \<times> int) res" where
  "vfs_mount env fstype disk mountpath p s =
     (case fstype of
        None \<Rightarrow> mount_any_loop env disk mountpath p (s_fstypes s) (- ENODEV) s
      | Some name \<Rightarrow>
          bind_res (find_fstype_loop name (s_fstypes s) None) (\<lambda>r.
          case r of None \<Rightarrow> Inr (s, - ENODEV) | Some t \<Rightarrow> mount env t disk mountpath p s))"

definition vfs_umount :: "vfs_env \<Rightarrow> u8 list \<Rightarrow> nat \<Rightarrow> 'w vfs \<Rightarrow> ('w vfs \<times> int) res" where
  "vfs_umount env mountpath p s =
     bind_res (findmount env mountpath p s) (\<lambda>(ret, c).
     if ret < 0 then Inr (s, ret)
     else
       (case c of None \<Rightarrow> Inl Null_deref
        | Some c \<Rightarrow> (case op_umount (fs_ops (ctx_fstype c)) (drivers s) (ctx_addr c) of (w, ret) \<Rightarrow> Inr (s\<lparr>drivers := w\<rparr>, ret))))"

definition vfs_register_fstype :: "u8 list \<Rightarrow> 'w vfs_fstype_ops \<Rightarrow> 'w vfs \<Rightarrow> 'w vfs" where
  "vfs_register_fstype name ops s = s\<lparr>s_fstypes := s_fstypes s @ [\<lparr>fs_name = name, fs_ops = ops\<rparr>]\<rparr>"

definition dummyfs_name :: "u8 list" where "dummyfs_name = [100, 117, 109, 109, 121, 102, 115, 0]"
definition root_path :: "u8 list" where "root_path = [47, 0]"

fun mount_root_loop :: "vfs_env \<Rightarrow> nat list \<Rightarrow> 'w vfs \<Rightarrow> 'w vfs res" where
  "mount_root_loop env [] s = Inr s"
| "mount_root_loop env (disk # ds) s =
     bind_res (vfs_mount env None disk root_path 0 s) (\<lambda>(s, status).
     if status < 0 then mount_root_loop env ds s else Inr s)"

text \<open>\<open>disks\<close>: the registered logical disks, in order.\<close>

definition vfs_mount_root :: "vfs_env \<Rightarrow> nat list \<Rightarrow> 'w vfs \<Rightarrow> 'w vfs res" where
  "vfs_mount_root env disks s =
     (if disks = [] then
        bind_res (vfs_mount env (Some dummyfs_name) 0 root_path 0 s) (\<lambda>(s, ret).
        bind_res (assert_res (0 \<le> ret)) (\<lambda>_. Inr s))
      else mount_root_loop env disks s)"

subsection \<open>Resolving paths\<close>

fun resolve_loop :: "u8 list \<Rightarrow> nat \<Rightarrow> 'w vfs_fscontext list \<Rightarrow> 'w vfs_fscontext option \<Rightarrow> nat \<Rightarrow> ('w vfs_fscontext option \<times> nat) res" where
  "resolve_loop path p [] result lastmatchlen = Inr (result, lastmatchlen)"
| "resolve_loop path p (entry # es) result lastmatchlen =
     bind_res (kstrlen (mount_path entry) 0) (\<lambda>len.
     if lastmatchlen \<le> len then
       bind_res (kstrncmp (mount_path entry) 0 path p len) (\<lambda>d.
       if d = 0 then resolve_loop path p es (Some entry) len else resolve_loop path p es result lastmatchlen)
     else resolve_loop path p es result lastmatchlen)"

text \<open>The callback is called with the context and the position \<open>lastmatchlen\<close> of the new path.\<close>

definition resolve_path :: "vfs_env \<Rightarrow> u8 list \<Rightarrow> nat \<Rightarrow> ('w vfs_fscontext \<Rightarrow> u8 list \<Rightarrow> nat \<Rightarrow> 'w \<Rightarrow> 'w \<times> 'r) \<Rightarrow> 'w vfs \<Rightarrow>
    ('w vfs \<times> int \<times> 'r option) res" where
  "resolve_path env path p callback s =
     bind_res (remove_rel_path env path p) (\<lambda>(ret, newpath).
     case newpath of None \<Rightarrow> Inr (s, ret, None)
     | Some np \<Rightarrow>
         bind_res (assert_res (s_mounts s \<noteq> [])) (\<lambda>_.
         bind_res (resolve_loop path p (s_mounts s) None 0) (\<lambda>(result, lastmatchlen).
         case result of None \<Rightarrow> Inl Assert_fail
         | Some c \<Rightarrow>
             if length np \<le> lastmatchlen then Inl Out_of_bounds
             else (case callback c np lastmatchlen (drivers s) of (w, r) \<Rightarrow> Inr (s\<lparr>drivers := w\<rparr>, ret, Some r)))))"

definition resolve_path_callback_open_file :: "int \<Rightarrow> 'w vfs_fscontext \<Rightarrow> u8 list \<Rightarrow> nat \<Rightarrow> 'w \<Rightarrow> 'w \<times> int \<times> nat" where
  "resolve_path_callback_open_file flags c path p w =
     (case op_open (fs_ops (ctx_fstype c)) of None \<Rightarrow> (w, - ENOENT, 0) | Some f \<Rightarrow> f w (ctx_addr c) path p flags)"

definition vfs_open_file :: "vfs_env \<Rightarrow> u8 list \<Rightarrow> nat \<Rightarrow> int \<Rightarrow> 'w vfs \<Rightarrow> ('w vfs \<times> int \<times> nat option) res" where
  "vfs_open_file env path p flags s =
     bind_res (resolve_path env path p (resolve_path_callback_open_file flags) s) (\<lambda>(s, ret, r).
     case r of None \<Rightarrow> Inr (s, ret, None)
     | Some (ret, f) \<Rightarrow> Inr (if ret < 0 then (s, ret, None) else (s, 0, Some f)))"

definition resolve_path_callback_open_directory :: "'w vfs_fscontext \<Rightarrow> u8 list \<Rightarrow> nat \<Rightarrow> 'w \<Rightarrow> 'w \<times> int \<times> nat" where
  "resolve_path_callback_open_directory c path p w =
     (case op_open_directory (fs_ops (ctx_fstype c)) of None \<Rightarrow> (w, - ENOENT, 0) | Some f \<Rightarrow> f w (ctx_addr c) path p)"

definition vfs_open_directory :: "vfs_env \<Rightarrow> u8 list \<Rightarrow> nat \<Rightarrow> 'w vfs \<Rightarrow> ('w vfs \<times> int \<times> nat option) res" where
  "vfs_open_directory env path p s =
     bind_res (resolve_path env path p resolve_path_callback_open_directory s) (\<lambda>(s, ret, r).
     case r of None \<Rightarrow> Inr (s, ret, None)
     | Some (ret, d) \<Rightarrow> Inr (if ret < 0 then (s, ret, None) else (s, 0, Some d)))"

text \<open>An open directory: its context and its address; \<open>None\<close> is the null pointer.\<close>

definition vfs_close_directory :: "('w vfs_fscontext \<times> nat) option \<Rightarrow> 'w vfs \<Rightarrow> 'w vfs \<times> int" where
  "vfs_close_directory dir s =
     (case dir of None \<Rightarrow> (s, - EBADF)
      | Some (c, d) \<Rightarrow>
          (case op_close_directory (fs_ops (ctx_fstype c)) of None \<Rightarrow> (s, - EBADF)
           | Some f \<Rightarrow> (case f (drivers s) d of (w, ret) \<Rightarrow> (s\<lparr>drivers := w\<rparr>, ret))))"

definition vfs_read_directory :: "('w vfs_fscontext \<times> nat) option \<Rightarrow> 'w vfs \<Rightarrow> 'w vfs \<times> int \<times> u8 list" where
  "vfs_read_directory dir s =
     (case dir of None \<Rightarrow> (s, - EBADF, [])
      | Some (c, d) \<Rightarrow>
          (case op_read_directory (fs_ops (ctx_fstype c)) of None \<Rightarrow> (s, - EBADF, [])
           | Some f \<Rightarrow> (case f (drivers s) d of (w, ret, e) \<Rightarrow> (s\<lparr>drivers := w\<rparr>, ret, e))))"

subsection \<open>Normal paths\<close>

definition join_path :: "u8 list list \<Rightarrow> u8 list" where
  "join_path cs = concat (map (\<lambda>c. 47 # c) cs)"

text \<open>The part of the buffer before \<open>dest\<close> is the path built so far.\<close>

definition built :: "u8 list \<Rightarrow> nat \<Rightarrow> u8 list \<Rightarrow> bool" where
  "built buf dest s \<longleftrightarrow> dest = length s \<and> dest \<le> length buf \<and> take dest buf = s"

lemma name_loc_cstr: "name_at r p c \<longleftrightarrow> cstr (fst (name_loc r p)) (snd (name_loc r p)) c"
  by (cases p) (simp_all add: name_at_def name_loc_def)

lemma dot_cstrs: "cstr [46, 0] 0 [46]" "cstr [46, 46, 0] 0 [46, 46]"
  by (simp_all add: cstr_def)

lemma add_name_dot:
  assumes "cstr nb q [46]"
  shows "add_name buf dest (nb, q) = Inr (buf, dest)"
  using kstrcmp_eq [OF assms dot_cstrs(1)] by (simp add: add_name_def)

lemma add_name_plain:
  assumes c: "cstr nb q c" and ne: "c \<noteq> []" "c \<noteq> [46]" "c \<noteq> [46, 46]" and b: "built buf dest s" and room: "dest + 1 + length c \<le> length buf"
  shows "\<exists>buf'. add_name buf dest (nb, q) = Inr (buf', dest + 1 + length c) \<and> built buf' (dest + 1 + length c) (s @ 47 # c) \<and>
    length buf' = length buf \<and> drop (dest + 1 + length c) buf' = drop (dest + 1 + length c) buf"
proof -
  have z: "0 \<notin> set c" using c by (simp add: cstr_def)
  then have cmp: "kstrcmp nb q [46, 0] 0 = Inr (str_cmp c [46])" "str_cmp c [46] \<noteq> 0"
      "kstrcmp nb q [46, 46, 0] 0 = Inr (str_cmp c [46, 46])" "str_cmp c [46, 46] \<noteq> 0"
    using kstrcmp_eq [OF c dot_cstrs(1)] kstrcmp_eq [OF c dot_cstrs(2)] ne str_cmp_zero [of c] by auto
  obtain x xs where x: "c = x # xs" using ne(1) by (cases c) auto
  then have ld: "load nb q = Inr x" "x \<noteq> 0" using cstr_Cons [of nb q x xs] c by auto
  obtain rest where rest: "drop q nb = c @ 0 # rest" using c by (auto simp: cstr_def)
  then have len: "q + length c \<le> length nb" by (metis append_eq_conv_conj drop_drop drop_eq_Nil le_cases length_append length_drop list.discI nat_le_linear add.commute)
  let ?b1 = "buf[dest := 47]"
  have "vmemcpy ?b1 (dest + 1) nb q (length c) = Inr (take (dest + 1) ?b1 @ take (length c) (drop q nb) @ drop (dest + 1 + length c) ?b1)"
    using vmemcpy_eq [of "dest + 1" "length c" ?b1 q nb] room len by simp
  moreover have "take (dest + 1) ?b1 = s @ [47]" "drop (dest + 1 + length c) ?b1 = drop (dest + 1 + length c) buf" "take (length c) (drop q nb) = c"
    using b room rest by (auto simp: built_def take_Suc_conv_app_nth)
  ultimately have "add_name buf dest (nb, q) = Inr (s @ 47 # c @ drop (dest + 1 + length c) buf, dest + 1 + length c)"
    using cmp ld room kstrlen_eq [OF c] by (simp add: add_name_def)
  then show ?thesis using b room by (auto simp: built_def)
qed

lemma join_path_simps [simp]: "join_path [] = []" "join_path (c # cs) = 47 # c @ join_path cs" "join_path (cs @ ds) = join_path cs @ join_path ds"
  by (simp_all add: join_path_def)

lemma join_path_filter: "length (join_path (filter P cs)) \<le> length (join_path cs)"
  by (induction cs) auto

lemma components_nonempty: "c \<in> set (components s) \<Longrightarrow> c \<noteq> []"
  by (simp add: components_def)

lemma components_no_zero:
  assumes "cstr b p s" and "c \<in> set (components s)"
  shows "0 \<notin> set c"
proof -
  have "0 \<notin> set c" if "c \<in> set (split_slash s)" "0 \<notin> set s" for c s
    using that by (induction s arbitrary: c rule: split_slash.induct) (auto split: if_splits list.splits)
  then show ?thesis using assms by (auto simp: cstr_def components_def)
qed

lemma components_bound: "length (join_path (components s)) \<le> length s + 1"
proof -
  have "length (join_path (split_slash s)) = length s + 1"
  proof (induction s rule: split_slash.induct)
    case (2 x xs)
    then show ?case using split_slash_nonempty [of xs] by (cases "split_slash xs") auto
  qed simp
  then show ?thesis using join_path_filter [of "\<lambda>c. c \<noteq> []" "split_slash s"] by (simp add: components_def)
qed

abbreviation no_dots :: "u8 list list \<Rightarrow> u8 list list" where
  "no_dots cs \<equiv> filter (\<lambda>c. c \<noteq> [46]) cs"

lemma rel_path_step:
  assumes "reads r s" and "components s = c # cs" and "\<forall>c\<in>set (components s). length c \<le> NAME_MAX"
  obtains r' s' nb q where "reads r' s'" "components s' = cs" "cstr nb q c"
    "rel_path_loop r buf dest = (case add_name buf dest (nb, q) of Inl e \<Rightarrow> Inl e | Inr (buf, dest) \<Rightarrow> rel_path_loop r' buf dest)"
proof -
  obtain r' p s' where r': "pathreader_next r = Inr (r', 0, Some p)" "name_at r' p c" "reads r' s'" "components s' = cs"
    using pathreader_next_spec [OF assms(1,3)] assms(2) by auto
  show thesis
    by (rule that [OF r'(3,4), of "fst (name_loc r' p)" "snd (name_loc r' p)"])
      (use r'(1,2) in \<open>simp_all add: name_loc_cstr rel_path_loop.simps [of r] ENOENT_def\<close>)
qed

lemma rel_path_prefix:
  assumes "reads r s" and "components s = pre @ post" and "\<forall>c\<in>set (components s). length c \<le> NAME_MAX" and "[46, 46] \<notin> set pre"
    and "built buf dest t" and "dest + length (join_path pre) \<le> length buf"
  shows "\<exists>r' s' buf' dest'. rel_path_loop r buf dest = rel_path_loop r' buf' dest' \<and> reads r' s' \<and> components s' = post \<and>
    built buf' dest' (t @ join_path (no_dots pre)) \<and> length buf' = length buf \<and> drop dest' buf' = drop dest' buf"
  using assms
proof (induction pre arbitrary: r s buf dest t)
  case Nil
  then show ?case by auto
next
  case (Cons c cs)
  have comp: "components s = c # (cs @ post)" using Cons.prems(2) by simp
  obtain r1 s1 nb q where r1: "reads r1 s1" "components s1 = cs @ post" "cstr nb q c"
      "rel_path_loop r buf dest = (case add_name buf dest (nb, q) of Inl e \<Rightarrow> Inl e | Inr (buf, dest) \<Rightarrow> rel_path_loop r1 buf dest)"
    using rel_path_step [OF Cons.prems(1) comp Cons.prems(3)] by metis
  have lim: "\<forall>c\<in>set (components s1). length c \<le> NAME_MAX" using Cons.prems(3) comp r1(2) by simp
  have nd: "[46, 46] \<notin> set cs" "c \<noteq> [46, 46]" using Cons.prems(4) by auto
  show ?case
  proof (cases "c = [46]")
    case True
    then have "rel_path_loop r buf dest = rel_path_loop r1 buf dest" using r1(3,4) add_name_dot by simp
    then show ?thesis using Cons.IH [OF r1(1,2) lim nd(1) Cons.prems(5)] Cons.prems(6) True by simp
  next
    case False
    have "c \<noteq> []" using components_nonempty [of c s] comp by simp
    then obtain buf1 where b1: "add_name buf dest (nb, q) = Inr (buf1, dest + 1 + length c)"
        "built buf1 (dest + 1 + length c) (t @ 47 # c)" "length buf1 = length buf"
        "drop (dest + 1 + length c) buf1 = drop (dest + 1 + length c) buf"
      using add_name_plain [OF r1(3) _ False nd(2) Cons.prems(5)] Cons.prems(6) by auto
    obtain r' s' buf' dest' where e: "rel_path_loop r1 buf1 (dest + 1 + length c) = rel_path_loop r' buf' dest'" "reads r' s'"
        "components s' = post" "built buf' dest' ((t @ 47 # c) @ join_path (no_dots cs))" "length buf' = length buf1"
        "drop dest' buf' = drop dest' buf1"
      using Cons.IH [OF r1(1,2) lim nd(1) b1(2)] Cons.prems(6) b1(3) by auto
    have d': "dest' = length (join_path (no_dots cs)) + (dest + 1 + length c)" using e(4) b1(2) by (simp add: built_def)
    have "drop dest' buf1 = drop dest' buf" 
      using arg_cong [OF b1(4), of "drop (length (join_path (no_dots cs)))"] unfolding d' drop_drop by simp
    then show ?thesis 
      using r1(4) b1(1,3) e False by (intro exI [of _ r'] exI [of _ s'] exI [of _ buf'] exI [of _ dest']) simp
  qed
qed

lemma overread:
  assumes "0 \<notin> set b"
  shows "kstrrchr_loop b p c r = Inl Out_of_bounds"
  using assms
proof (induction b p c r rule: kstrrchr_loop.induct)
  case (1 b p c r)
  show ?case
  proof (cases "p < length b")
    case True
    then have "b ! p \<noteq> 0" using "1.prems" by (metis nth_mem)
    then show ?thesis using "1.IH" [OF True refl] True "1.prems" by (simp add: kstrrchr_loop.simps [of b p] Let_def)
  qed (simp add: kstrrchr_loop.simps)
qed

lemma remove_rel_path_start:
  assumes "cstr path p s" and "length s + 2 < 2 ^ 32" and "heap_ok env (length s + 2)"
  shows "remove_rel_path env path p =
    bind_res (rel_path_loop (pathreader_init (stack_reader env) path p) (map (junk env) [0..<length s + 2]) 0) (\<lambda>(ret, new_path, dest).
       if ret < 0 then Inr (ret, None) else bind_res (store new_path dest 0) (\<lambda>new_path. Inr (0, Some new_path)))"
  using assms kstrlen_eq [OF assms(1)] by (simp add: remove_rel_path_def sz_add_no_wrap del: upt_Suc)

definition env_ok :: "vfs_env \<Rightarrow> nat \<Rightarrow> bool" where
  "env_ok env n \<longleftrightarrow> length (name_buf (stack_reader env)) = NAME_MAX + 1 \<and> heap_ok env (n + 2) \<and> n + 2 < 2 ^ 32"

lemma remove_rel_path_plain:
  assumes "cstr path p s" and "env_ok env (length s)" and "\<forall>c\<in>set (components s). length c \<le> NAME_MAX" and "[46, 46] \<notin> set (components s)"
  shows "\<exists>buf. remove_rel_path env path p = Inr (0, Some buf) \<and> cstr buf 0 (join_path (no_dots (components s))) \<and> length buf = length s + 2"
proof -
  let ?buf = "map (junk env) [0..<length s + 2]" and ?r = "pathreader_init (stack_reader env) path p"
  have r: "reads ?r s" using assms(1,2) by (simp add: reads_def pathreader_init_def env_ok_def)
  have b0: "built ?buf 0 []" by (simp add: built_def del: upt_Suc)
  have room: "length (join_path (components s)) \<le> length s + 1" by (rule components_bound)
  obtain r' s' buf dest where e: "rel_path_loop ?r ?buf 0 = rel_path_loop r' buf dest" "reads r' s'" "components s' = []"
      "built buf dest (join_path (no_dots (components s)))" "length buf = length s + 2"
    using rel_path_prefix [OF r _ assms(3,4) b0, of "[]"] room by (auto simp del: upt_Suc)
  obtain r'' where "pathreader_next r' = Inr (r'', - ENOENT, None)" using pathreader_next_spec [OF e(2)] e(3) by auto
  then have loop: "rel_path_loop ?r ?buf 0 = Inr (0, buf, dest)" using e(1) by (simp add: rel_path_loop.simps [of r'])
  have z: "0 \<notin> set (join_path (no_dots (components s)))" using components_no_zero [OF assms(1)] by (auto simp: join_path_def)
  have d: "dest < length buf" using e(4,5) room join_path_filter [of "\<lambda>c. c \<noteq> [46]" "components s"] by (simp add: built_def)
  have "cstr (buf[dest := 0]) 0 (join_path (no_dots (components s)))"
    using e(4) d z unfolding cstr_def built_def by (auto simp: upd_conv_take_nth_drop)
  then show ?thesis
    using remove_rel_path_start [OF assms(1), of env] assms(2) loop d e(5) by (simp add: env_ok_def del: upt_Suc)
qed

subsection \<open>Choosing the mount\<close>

text \<open>\<open>mp e\<close> is the string in the buffer \<open>mount_path e\<close>.\<close>

lemma resolve_loop_spec:
  assumes "cstr path p s" and "\<forall>e\<in>set es. cstr (mount_path e) 0 (mp e)"
    and "result = None \<and> n = 0 \<or> (\<exists>c. result = Some c \<and> n = length (mp c) \<and> take n s = mp c)"
  shows "\<exists>r l. resolve_loop path p es result n = Inr (r, l) \<and>
    (r = None \<and> result = None \<and> (\<forall>e\<in>set es. take (length (mp e)) s \<noteq> mp e) \<or>
     (\<exists>c. r = Some c \<and> l = length (mp c) \<and> (c \<in> set es \<or> result = Some c) \<and> take l s = mp c \<and> n \<le> l \<and>
        (\<forall>e\<in>set es. take (length (mp e)) s = mp e \<longrightarrow> length (mp e) \<le> l)))"
  using assms(2,3)
proof (induction es arbitrary: result n)
  case Nil
  then show ?case by auto
next
  case (Cons e es)
  have e: "cstr (mount_path e) 0 (mp e)" using Cons.prems(1) by simp
  have z: "0 \<notin> set (mp e)" "0 \<notin> set (take (length (mp e)) s)" using e assms(1) by (auto simp: cstr_def dest: in_set_takeD)
  have cmp: "kstrncmp (mount_path e) 0 path p (length (mp e)) = Inr (str_cmp (mp e) (take (length (mp e)) s))"
    using kstrncmp_eq [OF e assms(1), of "length (mp e)"] by simp
  have es: "\<forall>e\<in>set es. cstr (mount_path e) 0 (mp e)" using Cons.prems(1) by simp
  show ?case
  proof (cases "n \<le> length (mp e) \<and> take (length (mp e)) s = mp e")
    case True
    then have "resolve_loop path p (e # es) result n = resolve_loop path p es (Some e) (length (mp e))"
      using kstrlen_eq [OF e] cmp str_cmp_zero [OF z(1,1)] by simp
    then show ?thesis using Cons.IH [OF es, of "Some e" "length (mp e)"] True by fastforce
  next
    case False
    then have step: "resolve_loop path p (e # es) result n = resolve_loop path p es result n"
      using kstrlen_eq [OF e] cmp str_cmp_zero [OF z] by auto
    show ?thesis using Cons.IH [OF es Cons.prems(2)] False Cons.prems(2) unfolding step by fastforce
  qed
qed

subsection \<open>Properties\<close>

definition sample_env :: vfs_env where
  "sample_env = \<lparr>heap_ok = (\<lambda>n. n < 1000), junk = (\<lambda>_. 0x90), stack_reader = \<lparr>pr_path = [], remaining_path = 0, name_buf = replicate 256 0\<rparr>\<rparr>"

lemma sample_env_ok: "n < 900 \<Longrightarrow> env_ok sample_env n"
  by (simp add: env_ok_def sample_env_def NAME_MAX_def)

text \<open>
  For a path with a \<open>..\<close> component, \<open>remove_rel_path\<close> searches for the previous slash with \<open>kstrrchr\<close> before the
  buffer has been terminated: if the fresh block holds no zero byte (the heap fills it with 90), the search
  reads past the end of the buffer.
\<close>

lemma dotdot_reads_past_buffer:
  assumes "cstr path p s" and "env_ok env (length s)" and "\<forall>c\<in>set (components s). length c \<le> NAME_MAX" and "[46, 46] \<in> set (components s)"
    and "\<forall>i. junk env i \<noteq> 0"
  shows "remove_rel_path env path p = Inl Out_of_bounds"
proof -
  let ?buf = "map (junk env) [0..<length s + 2]" and ?r = "pathreader_init (stack_reader env) path p"
  obtain pre post where pp: "components s = pre @ [46, 46] # post" "[46, 46] \<notin> set pre" using split_list_first [OF assms(4)] by blast
  have r: "reads ?r s" using assms(1,2) by (simp add: reads_def pathreader_init_def env_ok_def)
  have b0: "built ?buf 0 []" by (simp add: built_def del: upt_Suc)
  have room: "length (join_path pre) \<le> length s + 1" using components_bound [of s] pp(1) by simp
  obtain r1 s1 buf dest where e: "rel_path_loop ?r ?buf 0 = rel_path_loop r1 buf dest" "reads r1 s1" "components s1 = [46, 46] # post"
      "built buf dest (join_path (no_dots pre))" "drop dest buf = drop dest ?buf"
    using rel_path_prefix [OF r pp(1) assms(3) pp(2) b0] room by (auto simp del: upt_Suc)
  have lim: "\<forall>c\<in>set (components s1). length c \<le> NAME_MAX" using assms(3) pp(1) e(3) by simp
  obtain r2 nb q where r2: "cstr nb q [46, 46]"
      "rel_path_loop r1 buf dest = (case add_name buf dest (nb, q) of Inl e \<Rightarrow> Inl e | Inr (buf, dest) \<Rightarrow> rel_path_loop r2 buf dest)"
    using rel_path_step [OF e(2,3) lim] by metis
  have z: "0 \<notin> set (join_path (no_dots pre))" using components_no_zero [OF assms(1)] pp(1) by (auto simp: join_path_def)
  have "0 \<notin> set (drop dest ?buf)" using assms(5) by (auto dest!: in_set_dropD simp del: upt_Suc)
  moreover have "set buf = set (take dest buf) \<union> set (drop dest buf)" by (metis append_take_drop_id set_append)
  ultimately have "0 \<notin> set buf" using e(4,5) z unfolding built_def by auto
  then have "kstrrchr buf 0 47 = Inl Out_of_bounds" by (simp add: kstrrchr_def overread)
  moreover have "kstrcmp nb q [46, 0] 0 = Inr (str_cmp [46, 46] [46])" "kstrcmp nb q [46, 46, 0] 0 = Inr 0"
    using kstrcmp_eq [OF r2(1) dot_cstrs(1)] kstrcmp_eq [OF r2(1) dot_cstrs(2)] by simp_all
  ultimately have "add_name buf dest (nb, q) = Inl Out_of_bounds" by (simp add: add_name_def)
  then have "rel_path_loop ?r ?buf 0 = Inl Out_of_bounds" using e(1) r2(2) by simp
  then show ?thesis using remove_rel_path_start [OF assms(1), of env] assms(2) by (simp add: env_ok_def del: upt_Suc)
qed

text \<open>
  Claim C38. A path without \<open>..\<close> is resolved to the mounted file system whose mount path is the longest string that
  the path begins with (whether or not a component ends there), and this file system is called with the normal
  form of the path behind that many characters. When the path is already normal, the callback gets exactly what
  follows the mount path.
\<close>

theorem resolve_path_longest_prefix:
  assumes "cstr path p s" and "env_ok env (length s)" and "\<forall>c\<in>set (components s). length c \<le> NAME_MAX" and "[46, 46] \<notin> set (components s)"
    and "\<forall>e\<in>set (s_mounts v). cstr (mount_path e) 0 (mp e)" and "e0 \<in> set (s_mounts v)" and "take (length (mp e0)) s = mp e0"
  shows "\<exists>c\<in>set (s_mounts v). \<exists>np. take (length (mp c)) s = mp c \<and>
    (\<forall>e\<in>set (s_mounts v). take (length (mp e)) s = mp e \<longrightarrow> length (mp e) \<le> length (mp c)) \<and>
    cstr np 0 (join_path (no_dots (components s))) \<and>
    (s = join_path (no_dots (components s)) \<longrightarrow> cstr np (length (mp c)) (drop (length (mp c)) s)) \<and>
    resolve_path env path p callback v =
      (case callback c np (length (mp c)) (drivers v) of (w, r) \<Rightarrow> Inr (v\<lparr>drivers := w\<rparr>, 0, Some r))"
proof -
  obtain np where np: "remove_rel_path env path p = Inr (0, Some np)" "cstr np 0 (join_path (no_dots (components s)))" "length np = length s + 2"
    using remove_rel_path_plain [OF assms(1-4)] by blast
  obtain c l where c: "resolve_loop path p (s_mounts v) None 0 = Inr (Some c, l)" "l = length (mp c)" "c \<in> set (s_mounts v)" "take l s = mp c"
      "\<forall>e\<in>set (s_mounts v). take (length (mp e)) s = mp e \<longrightarrow> length (mp e) \<le> l"
    using resolve_loop_spec [OF assms(1,5), of None 0] assms(6,7) by auto
  have "length (mp c) \<le> length s" using c(2,4) by (metis length_take min.cobounded1)
  then have l: "l < length np" using np(3) c(2) by simp
  have "s_mounts v \<noteq> []" using c(3) by auto
  have "cstr np (length (mp c)) (drop (length (mp c)) s)" if "s = join_path (no_dots (components s))"
    using cstr_drop [of np 0 s "length (mp c)"] np(2) that \<open>length (mp c) \<le> length s\<close> by simp
  moreover have "resolve_path env path p callback v =
      (case callback c np (length (mp c)) (drivers v) of (w, r) \<Rightarrow> Inr (v\<lparr>drivers := w\<rparr>, 0, Some r))"
    using np(1) c(1,2) l \<open>s_mounts v \<noteq> []\<close> by (auto simp: resolve_path_def split: prod.split)
  ultimately show ?thesis using c np(2) by blast
qed

definition sample_ops :: "unit vfs_fstype_ops" where
  "sample_ops = \<lparr>op_mount = (\<lambda>w d. (w, - EINVAL, 0)), op_umount = (\<lambda>w c. (w, 0)), op_open = None, op_open_directory = None,
     op_close_directory = None, op_read_directory = None\<rparr>"

definition sample_mount :: "nat \<Rightarrow> u8 list \<Rightarrow> unit vfs_fscontext" where
  "sample_mount c m = \<lparr>ctx_addr = c, mount_path = m @ [0], ctx_fstype = \<lparr>fs_name = [97, 0], fs_ops = sample_ops\<rparr>, open_file_count = 0\<rparr>"

definition sample_vfs :: "unit vfs" where
  "sample_vfs = \<lparr>s_next_fd_num = 0, s_fstypes = [\<lparr>fs_name = [97, 0], fs_ops = sample_ops\<rparr>],
     s_mounts = [sample_mount 1 [], sample_mount 2 [47, 109]], drivers = ()\<rparr>"

text \<open>The mount at \<open>/m\<close> is also chosen for the path \<open>/mx\<close>, of which it gets the rest \<open>x\<close>.\<close>

theorem resolve_path_longest_prefix_witness:
  "resolve_path sample_env [47, 109, 120, 0] 0 (\<lambda>c np l w. (w, ctx_addr c, l)) sample_vfs = Inr (sample_vfs, 0, Some (2, 2))"
proof -
  let ?s = "[47, 109, 120] :: u8 list"
  have comp: "components ?s = [[109, 120]]" by (simp add: components_def)
  have join: "join_path (no_dots (components ?s)) = ?s" by (simp add: comp)
  have mp: "\<forall>e\<in>set (s_mounts sample_vfs). cstr (mount_path e) 0 (butlast (mount_path e))"
    by (simp add: sample_vfs_def sample_mount_def cstr_def)
  have pre: "cstr [47, 109, 120, 0] 0 ?s" "env_ok sample_env (length ?s)" "\<forall>c\<in>set (components ?s). length c \<le> NAME_MAX"
      "[46, 46] \<notin> set (components ?s)"
    by (simp_all add: cstr_def sample_env_ok comp NAME_MAX_def)
  have e0: "sample_mount 1 [] \<in> set (s_mounts sample_vfs)" by (simp add: sample_vfs_def)
  obtain c where c: "c \<in> set (s_mounts sample_vfs)" "take (length (butlast (mount_path c))) ?s = butlast (mount_path c)"
      "\<forall>e\<in>set (s_mounts sample_vfs). take (length (butlast (mount_path e))) ?s = butlast (mount_path e) \<longrightarrow>
        length (butlast (mount_path e)) \<le> length (butlast (mount_path c))"
      "resolve_path sample_env [47, 109, 120, 0] 0 (\<lambda>c np l w. (w, ctx_addr c, l)) sample_vfs =
        (case (drivers sample_vfs, ctx_addr c, length (butlast (mount_path c))) of (w, r) \<Rightarrow> Inr (sample_vfs\<lparr>drivers := w\<rparr>, 0, Some r))"
    using resolve_path_longest_prefix [OF pre mp e0, of "\<lambda>c np l w. (w, ctx_addr c, l)"] join
    by (auto simp: sample_mount_def)
  have "c = sample_mount 2 [47, 109]" using c(1,3) by (auto simp: sample_vfs_def sample_mount_def)
  then show ?thesis using c(4) by (simp add: sample_vfs_def sample_mount_def)
qed

text \<open>
  When no file system is named and every registered driver rejects the disk as not its own (\<open>-EINVAL\<close>),
  \<open>vfs_mount\<close> reports success although nothing has been mounted.
\<close>

lemma mount_unrecognised_succeeds:
  assumes "cstr path p s" and "env_ok env (length s)" and "\<forall>c\<in>set (components s). length c \<le> NAME_MAX" and "[46, 46] \<notin> set (components s)"
    and "\<forall>t\<in>set (s_fstypes v). \<forall>w. \<exists>w' c. op_mount (fs_ops t) w disk = (w', - EINVAL, c)" and "s_fstypes v \<noteq> []"
  shows "\<exists>w. vfs_mount env None disk path p v = Inr (v\<lparr>drivers := w\<rparr>, 0)"
proof -
  obtain buf where buf: "remove_rel_path env path p = Inr (0, Some buf)" using remove_rel_path_plain [OF assms(1-4)] by blast
  have one: "\<exists>w'. mount env t disk path p (v\<lparr>drivers := w\<rparr>) = Inr (v\<lparr>drivers := w'\<rparr>, - EINVAL)" if t: "t \<in> set (s_fstypes v)" for t w
  proof -
    obtain w' c where "op_mount (fs_ops t) w disk = (w', - EINVAL, c)" using assms(5) t by blast
    then show ?thesis using buf by (auto simp: mount_def EINVAL_def)
  qed
  have loop: "\<exists>w'. mount_any_loop env disk path p ts r (v\<lparr>drivers := w\<rparr>) = Inr (v\<lparr>drivers := w'\<rparr>, if ts = [] then r else 0)"
    if "set ts \<subseteq> set (s_fstypes v)" for ts r w
    using that
  proof (induction ts arbitrary: r w)
    case (Cons t ts)
    obtain w1 where w1: "mount env t disk path p (v\<lparr>drivers := w\<rparr>) = Inr (v\<lparr>drivers := w1\<rparr>, - EINVAL)"
      using one [of t w] Cons.prems by (meson list.set_intros(1) subsetD)
    show ?case using Cons.IH [of 0 w1] Cons.prems w1 by (simp add: EINVAL_def)
  qed auto
  show ?thesis using loop [of "s_fstypes v" "- ENODEV" "drivers v"] assms(6) by (simp add: vfs_mount_def)
qed

end
