(* ===== verification/Ext2.thy ===== *)
theory Ext2
  imports Disk Path_Reader "HOL-Library.Signed_Division"
begin

text \<open>
  The ext2 driver (kernel/fs/fs_ext2.c), part one: the contexts of a file system and of an inode, reading blocks,
  locating inodes, the iterator over the blocks of an inode (direct pointers, then singly, doubly and triply indirect
  tables), skipping, seeking, reading, and opening an inode.

  The disk driver and the outcomes of \<open>heap_alloc\<close> are arguments (\<open>xio\<close>): allocation number \<open>k\<close> fails when
  \<open>x_oom k\<close>. The state \<open>xs\<close> holds the disk's state, the number of allocations and the number of live blocks. The
  type \<open>blksize_t\<close> is a signed 32-bit integer and \<open>off_t\<close> a signed 64-bit integer (\<^typ>\<open>int\<close>); \<open>uint32_t\<close>
  is \<^typ>\<open>u32\<close>; \<open>size_t\<close> is \<^typ>\<open>nat\<close>. Diagnostics printed on the console are not modelled.
\<close>

subsection \<open>Contexts\<close>

definition ENOTDIR :: int where "ENOTDIR = 20"
definition EISDIR :: int where "EISDIR = 21"

lemmas ext2_errno_defs = errno_defs ENOTDIR_def EISDIR_def

definition RWMOUNT_FEATUREFLAG_64BIT_FILE_SIZE :: u32 where
  "RWMOUNT_FEATUREFLAG_64BIT_FILE_SIZE = push_bit 1 1"

record fscontext =
  superblock_block_num :: u32
  total_inodes :: nat
  total_blocks :: nat
  total_unallocated_blocks :: nat
  total_unallocated_inodes :: nat
  reserved_blocks_for_su :: nat
  blocksize :: int
  blocks_in_block_group :: nat
  inodes_in_block_group :: nat
  last_mount_time :: nat
  last_written_time :: nat
  mounts_since_last_fsck :: u16
  mounts_before_fsck_required :: u16
  signature :: u16
  fs_state :: u16
  err_action :: u16
  minor_ver :: u16
  last_fsck_time :: nat
  fsck_interval :: nat
  creator_os_id :: u32
  major_ver :: u32
  reserved_block_uid :: u16
  reserved_block_gid :: u16
  block_group :: u32
  first_non_reserved_inode :: nat
  inode_size :: nat
  optional_features :: u32
  required_features :: u32
  required_features_rw :: u32
  compressionalgorithms :: u32
  preallocatefileblks :: u8
  preallocatedirblks :: u8
  journalinode :: u32
  journaldevice :: u32
  orphaninodelisthead :: u32
  filesystem_id :: "u8 list"
  journalid :: "u8 list"
  volumename :: "u8 list"
  last_mount_path :: "u8 list"
  fs_disk :: ldisk
  fs_physdisk :: pdisk
  blk_group_count :: nat
  blk_group_descriptor_blk :: nat

record block_group_descriptor =
  blkusagebitmap :: u32
  inodeusagebitmap :: u32
  inodetable :: u32
  unallocatedblocks :: nat
  unallocatedinodes :: nat
  directories :: nat

record blkbuf =
  offset_in_buf :: int
  buf :: "u8 list option"

record ino_context =
  ino_size :: int
  hardlinks :: nat
  disksectors :: nat
  direct_block_ptrs :: "u32 list"
  singly_indirect_table :: u32
  doublyindirecttable :: u32
  triplyindirecttable :: u32
  lastaccesstime :: u32
  creationtime :: u32
  lastmodifiedtime :: u32
  deletiontime :: u32
  ino_flags :: u32
  generationnumber :: u32
  typeandpermissions :: u16
  ino_uid :: u16
  ino_gid :: u16
  current_block_addr :: u32
  next_direct_ptr_index :: nat
  cnt :: nat
  singly_indirect_buf :: blkbuf
  doubly_indirect_buf :: blkbuf
  triply_indirect_buf :: blkbuf
  blockbuf :: blkbuf
  singly_indirect_used :: bool
  doubly_indirect_used :: bool
  triply_indirect_used :: bool

record 'd xio =
  x_ops :: "('d, u8 list) pdisk_ops"
  x_oom :: "nat \<Rightarrow> bool"

record 'd xs =
  x_dev :: 'd
  x_allocs :: nat
  x_live :: int

definition no_buf :: blkbuf where
  "no_buf = \<lparr>offset_in_buf = 0, buf = None\<rparr>"

subsection \<open>Memory\<close>

text \<open>\<open>heap_alloc\<close>: whether it succeeds. \<open>heap_free\<close> accepts the null pointer.\<close>

definition xalloc :: "'d xio \<Rightarrow> 'd xs \<Rightarrow> 'd xs \<times> bool" where
  "xalloc io s =
     (if x_oom io (x_allocs s) then (s\<lparr>x_allocs := x_allocs s + 1\<rparr>, False)
      else (s\<lparr>x_allocs := x_allocs s + 1, x_live := x_live s + 1\<rparr>, True))"

definition xfree :: "'a option \<Rightarrow> 'd xs \<Rightarrow> 'd xs" where
  "xfree p s = (case p of None \<Rightarrow> s | Some _ \<Rightarrow> s\<lparr>x_live := x_live s - 1\<rparr>)"

definition div_res :: "nat \<Rightarrow> nat \<Rightarrow> nat res" where
  "div_res a b = (if b = 0 then Inl Div_zero else Inr (a div b))"

subsection \<open>Reading blocks\<close>

text \<open>The result is the return code and the bytes stored in the buffer.\<close>

definition read_blocks :: "'d xio \<Rightarrow> fscontext \<Rightarrow> 'd xs \<Rightarrow> u32 \<Rightarrow> nat \<Rightarrow> ('d xs \<times> int \<times> u8 list) res" where
  "read_blocks io self s block_addr blkcount =
     (let bs = to_size (blocksize self); pbs = block_size (fs_physdisk self) in
      bind_res (div_res bs pbs) (\<lambda>q.
      bind_res (assert_res (bs mod pbs = 0)) (\<lambda>_.
      let diskblockaddr = sz_mul (unat block_addr) q;
          diskblkcount = sz_mul blkcount q in
      (case ldisk_read_exact (x_ops io) (x_dev s) (fs_disk self) diskblockaddr diskblkcount of
         (d, ret, bs) \<Rightarrow> Inr (s\<lparr>x_dev := d\<rparr>, ret, concat bs)))))"

text \<open>\<open>heap_calloc\<close> refuses a product that does not fit.\<close>

definition alloc_block_buf :: "'d xio \<Rightarrow> fscontext \<Rightarrow> 'd xs \<Rightarrow> nat \<Rightarrow> ('d xs \<times> bool) res" where
  "alloc_block_buf io self s count =
     bind_res (div_res size_max count) (\<lambda>m.
     Inr (if m < to_size (blocksize self) then (s, False) else xalloc io s))"

definition readblocks_alloc :: "'d xio \<Rightarrow> fscontext \<Rightarrow> 'd xs \<Rightarrow> u32 \<Rightarrow> nat \<Rightarrow> ('d xs \<times> int \<times> u8 list option) res" where
  "readblocks_alloc io self s block_addr bcount =
     bind_res (alloc_block_buf io self s bcount) (\<lambda>(s, ok).
     if \<not> ok then Inr (s, - ENOMEM, None)
     else
       bind_res (read_blocks io self s block_addr bcount) (\<lambda>(s, ret, bytes).
       if ret < 0 then Inr (xfree (Some bytes) s, ret, None)
       else Inr (s, ret, Some bytes)))"

text \<open>The pointer \<open>out\<close> is set exactly when the return code is not negative.\<close>

definition buf_of :: "u8 list option \<Rightarrow> u8 list res" where
  "buf_of b = (case b of None \<Rightarrow> Inl Null_deref | Some bytes \<Rightarrow> Inr bytes)"

subsection \<open>Locating an inode\<close>

definition descriptor_at :: "u8 list \<Rightarrow> block_group_descriptor res" where
  "descriptor_at data =
     bind_res (u32le_at (drop 0x00 data)) (\<lambda>bub.
     bind_res (u32le_at (drop 0x04 data)) (\<lambda>iub.
     bind_res (u32le_at (drop 0x08 data)) (\<lambda>it.
     bind_res (u16le_at (drop 0x0c data)) (\<lambda>ub.
     bind_res (u16le_at (drop 0x0e data)) (\<lambda>ui.
     bind_res (u16le_at (drop 0x10 data)) (\<lambda>dirs.
     Inr \<lparr>blkusagebitmap = bub, inodeusagebitmap = iub, inodetable = it,
          unallocatedblocks = unat ub, unallocatedinodes = unat ui, directories = unat dirs\<rparr>))))))"

definition DESCRIPTOR_SIZE :: nat where
  "DESCRIPTOR_SIZE = 32"

definition read_block_group_descriptor ::
    "'d xio \<Rightarrow> fscontext \<Rightarrow> 'd xs \<Rightarrow> u32 \<Rightarrow> ('d xs \<times> int \<times> block_group_descriptor option) res" where
  "read_block_group_descriptor io self s bg =
     bind_res (assert_res (unat bg < size_max div DESCRIPTOR_SIZE)) (\<lambda>_.
     let byteoffset = int (unat bg) * int DESCRIPTOR_SIZE in
     if blocksize self = 0 then Inl Div_zero
     else
       (let blockoffset = word_of_int (byteoffset sdiv blocksize self) :: u32;
            byteoffsetinblk = byteoffset smod blocksize self in
        bind_res (assert_res (unat blockoffset < sz_sub size_max (blk_group_descriptor_blk self))) (\<lambda>_.
        let blockoffset = blockoffset + of_nat (blk_group_descriptor_blk self) in
        bind_res (readblocks_alloc io self s blockoffset 1) (\<lambda>(s, ret, b).
        if ret < 0 then Inr (xfree b s, ret, None)
        else
          bind_res (buf_of b) (\<lambda>bytes.
          bind_res (descriptor_at (drop (nat byteoffsetinblk) bytes)) (\<lambda>out.
          Inr (xfree b s, ret, Some out)))))))"

definition block_group_of_inode :: "fscontext \<Rightarrow> nat \<Rightarrow> u32 res" where
  "block_group_of_inode self inodeaddr =
     bind_res (div_res (sz_sub inodeaddr 1) (inodes_in_block_group self)) (\<lambda>q. Inr (of_nat q))"

text \<open>The block and the offset of the inode in it.\<close>

definition locate_inode :: "'d xio \<Rightarrow> fscontext \<Rightarrow> 'd xs \<Rightarrow> nat \<Rightarrow> ('d xs \<times> int \<times> u32 \<times> int) res" where
  "locate_inode io self s inodeaddr =
     bind_res (block_group_of_inode self inodeaddr) (\<lambda>g.
     bind_res (read_block_group_descriptor io self s g) (\<lambda>(s, ret, blkgroup).
     if ret < 0 then Inr (s, ret, 0, 0)
     else
       (case blkgroup of None \<Rightarrow> Inl Null_deref
        | Some bg \<Rightarrow>
            (let index = sz_sub inodeaddr 1 mod inodes_in_block_group self in
             bind_res (div_res size_max (inode_size self)) (\<lambda>m.
             bind_res (assert_res (index < m)) (\<lambda>_.
             Inr (s, ret,
                  word_of_int (int (unat (inodetable bg)) + int (index * inode_size self) sdiv blocksize self),
                  int (index * inode_size self) smod blocksize self)))))))"

subsection \<open>The blocks of an inode\<close>

text \<open>The functions return the state, the inode, the return code and the address stored in \<open>addr_out\<close>.\<close>

definition next_direct_block_ptr :: "ino_context \<Rightarrow> u32 \<Rightarrow> (ino_context \<times> int \<times> u32) res" where
  "next_direct_block_ptr self addr_out =
     bind_res (load (direct_block_ptrs self) (next_direct_ptr_index self)) (\<lambda>result_addr.
     Inr (if result_addr = 0 then (self, - ENOENT, addr_out)
          else (self\<lparr>next_direct_ptr_index := next_direct_ptr_index self + 1\<rparr>, 0, result_addr)))"

text \<open>A buffer that is absent or used up.\<close>

definition used_up :: "fscontext \<Rightarrow> blkbuf \<Rightarrow> bool" where
  "used_up fs b \<longleftrightarrow> buf b = None \<or> blocksize fs \<le> offset_in_buf b"

definition entry_at :: "blkbuf \<Rightarrow> u32 res" where
  "entry_at b = bind_res (buf_of (buf b)) (\<lambda>bytes. u32le_at (drop (nat (offset_in_buf b)) bytes))"

definition next_triply_indirect_table :: "'d xio \<Rightarrow> fscontext \<Rightarrow> 'd xs \<Rightarrow> ino_context \<Rightarrow> ('d xs \<times> ino_context \<times> int) res" where
  "next_triply_indirect_table io fs s self =
     (if triply_indirect_used self then Inr (s, self, - ENOENT)
      else
        (let tableaddr = triplyindirecttable self in
         if tableaddr = 0 then
           Inr (xfree (buf (triply_indirect_buf self)) s, self\<lparr>triply_indirect_buf := no_buf\<rparr>, - ENOENT)
         else
           bind_res (readblocks_alloc io fs s tableaddr 1) (\<lambda>(s, ret, newtable).
           if ret < 0 then Inr (s, self, ret)
           else Inr (xfree (buf (triply_indirect_buf self)) s,
                     self\<lparr>triply_indirect_buf := \<lparr>offset_in_buf = 0, buf = newtable\<rparr>\<rparr>, 0))))"

definition next_triply_block_ptr :: "'d xio \<Rightarrow> fscontext \<Rightarrow> 'd xs \<Rightarrow> ino_context \<Rightarrow> u32 \<Rightarrow> ('d xs \<times> ino_context \<times> int \<times> u32) res" where
  "next_triply_block_ptr io fs s self addr_out =
     bind_res (if used_up fs (triply_indirect_buf self) then next_triply_indirect_table io fs s self
               else Inr (s, self, - ENOENT)) (\<lambda>(s, self', ret).
     if used_up fs (triply_indirect_buf self) \<and> ret < 0 then Inr (s, self', ret, addr_out)
     else
       (let self = self'\<lparr>triply_indirect_used := True\<rparr>; b = triply_indirect_buf self in
        bind_res (entry_at b) (\<lambda>tableaddr.
        Inr (s, self\<lparr>triply_indirect_buf := b\<lparr>offset_in_buf := offset_in_buf b + 4\<rparr>\<rparr>, 0, tableaddr))))"

definition next_doubly_indirect_table :: "'d xio \<Rightarrow> fscontext \<Rightarrow> 'd xs \<Rightarrow> ino_context \<Rightarrow> ('d xs \<times> ino_context \<times> int) res" where
  "next_doubly_indirect_table io fs s self =
     bind_res
       (if \<not> doubly_indirect_used self then
          Inr (s, self\<lparr>doubly_indirect_used := True\<rparr>, if doublyindirecttable self \<noteq> 0 then 0 else - ENOENT, doublyindirecttable self)
        else next_triply_block_ptr io fs s self 0) (\<lambda>(s, self, ret, tableaddr).
     if ret < 0 then Inr (xfree (buf (doubly_indirect_buf self)) s, self\<lparr>doubly_indirect_buf := no_buf\<rparr>, ret)
     else
       bind_res (readblocks_alloc io fs s tableaddr 1) (\<lambda>(s, ret, newtable).
       if ret < 0 then Inr (s, self, ret)
       else Inr (xfree (buf (doubly_indirect_buf self)) s,
                 self\<lparr>doubly_indirect_buf := \<lparr>offset_in_buf = 0, buf = newtable\<rparr>\<rparr>, 0)))"

definition next_doubly_block_ptr :: "'d xio \<Rightarrow> fscontext \<Rightarrow> 'd xs \<Rightarrow> ino_context \<Rightarrow> u32 \<Rightarrow> ('d xs \<times> ino_context \<times> int \<times> u32) res" where
  "next_doubly_block_ptr io fs s self addr_out =
     bind_res (if used_up fs (doubly_indirect_buf self) then next_doubly_indirect_table io fs s self
               else Inr (s, self, - ENOENT)) (\<lambda>(s, self', ret).
     if used_up fs (doubly_indirect_buf self) \<and> ret < 0 then Inr (s, self', ret, addr_out)
     else
       (let b = doubly_indirect_buf self' in
        bind_res (entry_at b) (\<lambda>result_addr.
        let self = self'\<lparr>doubly_indirect_buf := b\<lparr>offset_in_buf := offset_in_buf b + 4\<rparr>\<rparr> in
        Inr (if result_addr = 0 then (s, self, - ENOENT, addr_out) else (s, self, 0, result_addr)))))"

definition next_singly_indirect_table :: "'d xio \<Rightarrow> fscontext \<Rightarrow> 'd xs \<Rightarrow> ino_context \<Rightarrow> ('d xs \<times> ino_context \<times> int) res" where
  "next_singly_indirect_table io fs s self =
     bind_res
       (if \<not> singly_indirect_used self then
          Inr (s, self, if singly_indirect_table self \<noteq> 0 then 0 else - ENOENT, singly_indirect_table self)
        else next_doubly_block_ptr io fs s self 0) (\<lambda>(s, self, ret, tableaddr).
     if ret < 0 then Inr (xfree (buf (singly_indirect_buf self)) s, self\<lparr>singly_indirect_buf := no_buf\<rparr>, - ENOENT)
     else
       bind_res (readblocks_alloc io fs s tableaddr 1) (\<lambda>(s, ret, newtable).
       if ret < 0 then Inr (s, self, ret)
       else Inr (xfree (buf (singly_indirect_buf self)) s,
                 self\<lparr>singly_indirect_buf := \<lparr>offset_in_buf = 0, buf = newtable\<rparr>, singly_indirect_used := True\<rparr>, 0)))"

text \<open>
  The variable \<open>ret\<close> keeps the code of the table change: a zero entry at the head of a fresh table is reported with
  code 0 and leaves \<open>addr_out\<close> as it was.
\<close>

definition next_singly_block_ptr :: "'d xio \<Rightarrow> fscontext \<Rightarrow> 'd xs \<Rightarrow> ino_context \<Rightarrow> u32 \<Rightarrow> ('d xs \<times> ino_context \<times> int \<times> u32) res" where
  "next_singly_block_ptr io fs s self addr_out =
     bind_res (if used_up fs (singly_indirect_buf self) then next_singly_indirect_table io fs s self
               else Inr (s, self, - ENOENT)) (\<lambda>(s, self', ret).
     if used_up fs (singly_indirect_buf self) \<and> ret < 0 then Inr (s, self', ret, addr_out)
     else
       (let b = singly_indirect_buf self' in
        bind_res (entry_at b) (\<lambda>result_addr.
        Inr (if result_addr = 0 then (s, self', ret, addr_out)
             else (s, self'\<lparr>singly_indirect_buf := b\<lparr>offset_in_buf := offset_in_buf b + 4\<rparr>\<rparr>, 0, result_addr)))))"

definition DIRECT_BLOCK_POINTER_COUNT :: nat where
  "DIRECT_BLOCK_POINTER_COUNT = 12"

definition next_inode_block :: "'d xio \<Rightarrow> fscontext \<Rightarrow> 'd xs \<Rightarrow> ino_context \<Rightarrow> ('d xs \<times> ino_context \<times> int) res" where
  "next_inode_block io fs s self =
     bind_res
       (if next_direct_ptr_index self < DIRECT_BLOCK_POINTER_COUNT then
          bind_res (next_direct_block_ptr self 0) (\<lambda>(self, ret, a). Inr (s, self, ret, a))
        else next_singly_block_ptr io fs s self 0) (\<lambda>(s, self, ret, result_addr).
     Inr (s, if ret = 0 then self\<lparr>current_block_addr := result_addr, cnt := sz_add (cnt self) 1\<rparr> else self, ret))"

definition free_bufs :: "ino_context \<Rightarrow> 'd xs \<Rightarrow> 'd xs" where
  "free_bufs self s =
     xfree (buf (triply_indirect_buf self)) (xfree (buf (doubly_indirect_buf self))
       (xfree (buf (singly_indirect_buf self)) (xfree (buf (blockbuf self)) s)))"

definition rewindinode :: "'d xio \<Rightarrow> fscontext \<Rightarrow> 'd xs \<Rightarrow> ino_context \<Rightarrow> ('d xs \<times> ino_context) res" where
  "rewindinode io fs s self =
     (let s = free_bufs self s;
          self = self\<lparr>blockbuf := no_buf, singly_indirect_buf := no_buf, doubly_indirect_buf := no_buf,
                      triply_indirect_buf := no_buf, current_block_addr := 0, next_direct_ptr_index := 0,
                      singly_indirect_used := False, doubly_indirect_used := False, triply_indirect_used := False,
                      cnt := 0\<rparr> in
      bind_res (next_inode_block io fs s self) (\<lambda>(s, self, ret).
      bind_res (assert_res (0 \<le> ret)) (\<lambda>_. Inr (s, self))))"

definition next_inode_block_and_reset_blockbuf :: "'d xio \<Rightarrow> fscontext \<Rightarrow> 'd xs \<Rightarrow> ino_context \<Rightarrow> ('d xs \<times> ino_context \<times> int) res" where
  "next_inode_block_and_reset_blockbuf io fs s self =
     bind_res (next_inode_block io fs s self) (\<lambda>(s, self, ret).
     Inr (if ret < 0 then (s, self, ret)
          else (xfree (buf (blockbuf self)) s, self\<lparr>blockbuf := no_buf\<rparr>, 0)))"

subsection \<open>Skipping and seeking\<close>

lemma sz_sub_le: "b \<le> a \<Longrightarrow> b < 2 ^ 32 \<Longrightarrow> sz_sub a b \<le> a - b"
proof -
  assume b: "b \<le> a" "b < 2 ^ 32"
  have "sz_sub a b = (a - b + 2 ^ 32) mod 2 ^ 32" using b by (simp add: sz_sub_def)
  also have "\<dots> \<le> a - b" by (metis mod_add_self2 mod_less_eq_dividend)
  finally show ?thesis .
qed

lemma sz_mul_le: "sz_mul a b \<le> a * b"
  by (simp add: sz_mul_def)

text \<open>The loop that steps over \<open>n\<close> blocks.\<close>

primrec skip_blocks :: "nat \<Rightarrow> 'd xio \<Rightarrow> fscontext \<Rightarrow> 'd xs \<Rightarrow> ino_context \<Rightarrow> int \<Rightarrow> ('d xs \<times> ino_context \<times> int) res" where
  "skip_blocks 0 io fs s self ret = Inr (s, self, ret)"
| "skip_blocks (Suc n) io fs s self ret =
     bind_res (next_inode_block io fs s self) (\<lambda>(s, self, ret).
     if ret < 0 then Inr (s, self, ret) else skip_blocks n io fs s self ret)"

text \<open>The part of an iteration that steps over whole blocks; the last component is \<open>remaining_len\<close>.\<close>

definition skip_whole :: "'d xio \<Rightarrow> fscontext \<Rightarrow> 'd xs \<Rightarrow> ino_context \<Rightarrow> int \<Rightarrow> nat \<Rightarrow> ('d xs \<times> ino_context \<times> int \<times> nat) res" where
  "skip_whole io fs s self ret remaining_len =
     (if offset_in_buf (blockbuf self) = 0 \<and> to_size (blocksize fs) \<le> remaining_len then
        bind_res (div_res remaining_len (to_size (blocksize fs))) (\<lambda>count.
        bind_res (skip_blocks count io fs s self ret) (\<lambda>(s, self, ret).
        if ret < 0 then Inr (s, self, ret, remaining_len)
        else
          (let skip_len = sz_mul (to_size (blocksize fs)) count in
           Inr (xfree (buf (blockbuf self)) s, self\<lparr>blockbuf := (blockbuf self)\<lparr>buf := None\<rparr>\<rparr>, ret, sz_sub remaining_len skip_len))))
      else Inr (s, self, ret, remaining_len))"

text \<open>The number of bytes an iteration takes from the current block.\<close>

definition chunk_len :: "fscontext \<Rightarrow> ino_context \<Rightarrow> nat \<Rightarrow> nat" where
  "chunk_len fs self remaining_len =
     (let maxlen = to_size (blocksize fs - offset_in_buf (blockbuf self)) in
      if maxlen < remaining_len then maxlen else remaining_len)"

definition advance :: "nat \<Rightarrow> ino_context \<Rightarrow> ino_context" where
  "advance n self = self\<lparr>blockbuf := (blockbuf self)\<lparr>offset_in_buf := offset_in_buf (blockbuf self) + int n\<rparr>\<rparr>"

definition step_block :: "'d xio \<Rightarrow> fscontext \<Rightarrow> 'd xs \<Rightarrow> ino_context \<Rightarrow> int \<Rightarrow> ('d xs \<times> ino_context \<times> int) res" where
  "step_block io fs s self ret =
     (if blocksize fs \<le> offset_in_buf (blockbuf self) then next_inode_block_and_reset_blockbuf io fs s self
      else Inr (s, self, ret))"

lemma skip_whole_le:
  assumes "skip_whole io fs s self ret n = Inr (s', self', ret', n')"
  shows "n' \<le> n"
proof (cases "offset_in_buf (blockbuf self) = 0 \<and> to_size (blocksize fs) \<le> n")
  case True
  let ?b = "to_size (blocksize fs)"
  have "sz_mul ?b (n div ?b) \<le> n" by (rule order.trans [OF sz_mul_le]) simp
  then have "sz_sub n (sz_mul ?b (n div ?b)) \<le> n" using sz_sub_le [of "sz_mul ?b (n div ?b)" n] sz_bounds(3) [of ?b "n div ?b"] by linarith
  then show ?thesis using assms True
    by (auto simp: skip_whole_def bind_res_eq_Inr div_res_def Let_def split: if_splits)
qed (use assms in \<open>auto simp: skip_whole_def\<close>)

function skipread_loop :: "'d xio \<Rightarrow> fscontext \<Rightarrow> 'd xs \<Rightarrow> ino_context \<Rightarrow> int \<Rightarrow> nat \<Rightarrow> ('d xs \<times> ino_context \<times> int) res" where
  "skipread_loop io fs s self ret remaining_len =
     (if remaining_len = 0 then Inr (s, self, ret)
      else
        bind_res (step_block io fs s self ret) (\<lambda>(s, self, ret).
        if ret < 0 then Inr (s, self, ret)
        else
          bind_res (skip_whole io fs s self ret remaining_len) (\<lambda>(s, self, ret, remaining_len).
          if ret < 0 then Inr (s, self, ret)
          else if remaining_len = 0 then Inr (s, self, ret)
          else
            bind_res (assert_res (offset_in_buf (blockbuf self) < blocksize fs)) (\<lambda>_.
            let skiplen = chunk_len fs self remaining_len in
            bind_res (assert_res (skiplen \<noteq> 0)) (\<lambda>_.
            skipread_loop io fs s (advance skiplen self) ret (remaining_len - skiplen))))))"
  by pat_completeness auto
termination
  by (relation "measure (\<lambda>(_, _, _, _, _, n). n)") (auto dest!: skip_whole_le simp: assert_res_eq_Inr)

declare skipread_loop.simps [simp del]

definition skipread_inode :: "'d xio \<Rightarrow> fscontext \<Rightarrow> 'd xs \<Rightarrow> ino_context \<Rightarrow> nat \<Rightarrow> ('d xs \<times> ino_context \<times> int) res" where
  "skipread_inode io fs s self len =
     bind_res (assert_res (len \<le> STREAM_MAX_TRANSFER_SIZE)) (\<lambda>_. skipread_loop io fs s self 0 len)"

function seek_set_loop :: "'d xio \<Rightarrow> fscontext \<Rightarrow> 'd xs \<Rightarrow> ino_context \<Rightarrow> int \<Rightarrow> int \<Rightarrow> ('d xs \<times> ino_context \<times> int) res" where
  "seek_set_loop io fs s self ret remaining =
     (if remaining = 0 then Inr (s, self, ret)
      else
        (let skiplen = (if int size_max < remaining then int size_max else remaining) in
         bind_res (skipread_inode io fs s self (to_size skiplen)) (\<lambda>(s, self, ret).
         if ret = - ENOENT then Inl Assert_fail
         else if ret < 0 then Inr (s, self, ret)
         else seek_set_loop io fs s self ret (remaining - skiplen))))"
  by pat_completeness auto
termination
  by (relation "measure (\<lambda>(_, _, _, _, _, n). nat \<bar>n\<bar>)") (auto simp: size_max_def)

declare seek_set_loop.simps [simp del]

definition SEEK_CUR :: int where "SEEK_CUR = 0"
definition SEEK_END :: int where "SEEK_END = 1"
definition SEEK_SET :: int where "SEEK_SET = 2"

definition seek_inode :: "'d xio \<Rightarrow> fscontext \<Rightarrow> 'd xs \<Rightarrow> ino_context \<Rightarrow> int \<Rightarrow> int \<Rightarrow> ('d xs \<times> ino_context \<times> int) res" where
  "seek_inode io fs s self offset whence =
     (if whence = SEEK_SET then
        bind_res (rewindinode io fs s self) (\<lambda>(s, self). seek_set_loop io fs s self 0 offset)
      else if whence = SEEK_CUR \<or> whence = SEEK_END then Inl Assert_fail
      else Inr (s, self, - EINVAL))"

subsection \<open>Reading\<close>

text \<open>
  The destination is the list of the bytes stored so far; \<open>dest\<close> points behind them. The loop of \<open>n\<close> rounds over the
  blocks of a request gathers neighbouring blocks; its result is the state, the inode, the code, \<open>last_base\<close>,
  \<open>contiguous_len\<close>, the bytes and \<open>remaining_len\<close>.
\<close>

primrec gather_loop :: "nat \<Rightarrow> 'd xio \<Rightarrow> fscontext \<Rightarrow> 'd xs \<Rightarrow> ino_context \<Rightarrow> int \<Rightarrow> u32 \<Rightarrow> nat \<Rightarrow> u8 list \<Rightarrow> nat \<Rightarrow>
    ('d xs \<times> ino_context \<times> int \<times> u32 \<times> nat \<times> u8 list \<times> nat) res" where
  "gather_loop 0 io fs s self ret last_base contiguous_len dest remaining_len =
     Inr (s, self, ret, last_base, contiguous_len, dest, remaining_len)"
| "gather_loop (Suc n) io fs s self ret last_base contiguous_len dest remaining_len =
     bind_res (next_inode_block io fs s self) (\<lambda>(s, self, ret).
     if ret < 0 then Inr (s, self, ret, last_base, contiguous_len, dest, remaining_len)
     else if current_block_addr self \<noteq> last_base + of_nat contiguous_len then
       bind_res (read_blocks io fs s last_base contiguous_len) (\<lambda>(s, ret, bytes).
       if ret < 0 then Inr (s, self, ret, last_base, contiguous_len, dest, remaining_len)
       else
         (let read_size = sz_mul (to_size (blocksize fs)) contiguous_len in
          gather_loop n io fs s self ret (current_block_addr self) 1 (dest @ bytes) (sz_sub remaining_len read_size)))
     else gather_loop n io fs s self ret last_base (sz_add contiguous_len 1) dest remaining_len)"

definition read_inode_blocks :: "'d xio \<Rightarrow> fscontext \<Rightarrow> 'd xs \<Rightarrow> ino_context \<Rightarrow> nat \<Rightarrow> u8 list \<Rightarrow> nat \<Rightarrow>
    ('d xs \<times> ino_context \<times> int \<times> u8 list \<times> nat) res" where
  "read_inode_blocks io fs s self count dest remaining_len =
     bind_res (gather_loop (sz_sub count 1) io fs s self (- ENOENT) (current_block_addr self) 1 dest remaining_len)
       (\<lambda>(s, self, ret, last_base, contiguous_len, dest, remaining_len).
     if sz_sub count 1 \<noteq> 0 \<and> ret < 0 then Inr (s, self, ret, dest, remaining_len)
     else
       bind_res (read_blocks io fs s last_base contiguous_len) (\<lambda>(s, ret, bytes).
       if ret < 0 then Inr (s, self, ret, dest, remaining_len)
       else
         (let readsize = sz_mul (to_size (blocksize fs)) contiguous_len;
              dest = dest @ bytes;
              remaining_len = sz_sub remaining_len readsize;
              s = xfree (buf (blockbuf self)) s;
              self = self\<lparr>blockbuf := (blockbuf self)\<lparr>buf := None\<rparr>\<rparr> in
          bind_res (next_inode_block io fs s self) (\<lambda>(s, self, ret).
          Inr (s, self, if ret < 0 \<and> (ret \<noteq> - ENOENT \<or> remaining_len \<noteq> 0) then ret else 0, dest, remaining_len)))))"

lemma sz_sub_exact:
  assumes "c \<le> b" and "b \<le> r" and "r < 2 ^ 32"
  shows "sz_sub r c = r - c"
  using assms by (intro sz_sub_no_wrap) auto

lemma gather_loop_wide:
  "gather_loop n io fs s self ret lb c dest r = Inr (s', self', ret', lb', c', dest', r') \<Longrightarrow> r' = r \<or> r' < 2 ^ 32"
proof (induction n arbitrary: s self ret lb c dest r)
  case (Suc n)
  from Suc.prems show ?case
    by (auto simp: bind_res_eq_Inr Let_def split: if_splits dest!: Suc.IH simp del: One_nat_def)
      (use sz_bounds(2) in \<open>fastforce simp del: One_nat_def\<close>)+
qed simp

lemma gather_loop_le:
  "gather_loop n io fs s self ret lb c dest r = Inr (s', self', ret', lb', c', dest', r') \<Longrightarrow>
    to_size (blocksize fs) * (c + n) \<le> r \<Longrightarrow> r < 2 ^ 32 \<Longrightarrow> r' \<le> r \<and> (n = 0 \<or> 0 \<le> ret' \<longrightarrow> to_size (blocksize fs) * c' \<le> r')"
proof (induction n arbitrary: s self ret lb c dest r)
  case (Suc n)
  let ?b = "to_size (blocksize fs)"
  obtain s1 self1 ret1 where nb: "next_inode_block io fs s self = Inr (s1, self1, ret1)"
    using Suc.prems(1) by (auto simp: bind_res_eq_Inr)
  show ?case
  proof (cases "ret1 < 0")
    case True
    then show ?thesis using Suc.prems nb by auto
  next
    case ok: False
    show ?thesis
    proof (cases "current_block_addr self1 = lb + of_nat c")
      case True
      have "sz_add c 1 \<le> c + 1" by (simp add: sz_add_def)
      then have "?b * (sz_add c 1 + n) \<le> ?b * (c + Suc n)" by (intro mult_le_mono2) simp
      then have "?b * (sz_add c 1 + n) \<le> r" using Suc.prems(2) by simp
      moreover have "gather_loop n io fs s1 self1 ret1 lb (sz_add c 1) dest r = Inr (s', self', ret', lb', c', dest', r')"
        using Suc.prems(1) nb ok True by simp
      ultimately show ?thesis using Suc.IH [of s1 self1 ret1 lb "sz_add c 1" dest r] Suc.prems(3) ok by auto
    next
      case False
      obtain s2 ret2 bytes where rb: "read_blocks io fs s1 lb c = Inr (s2, ret2, bytes)"
        using Suc.prems(1) nb ok False by (auto simp: bind_res_eq_Inr)
      show ?thesis
      proof (cases "ret2 < 0")
        case True
        then show ?thesis using Suc.prems nb ok False rb by auto
      next
        case ok2: False
        let ?r = "sz_sub r (sz_mul ?b c)"
        have g: "gather_loop n io fs s2 self1 ret2 (current_block_addr self1) 1 (dest @ bytes) ?r =
            Inr (s', self', ret', lb', c', dest', r')"
          using Suc.prems(1) nb ok False rb ok2 by (simp add: Let_def)
        have "?b * c + ?b * (1 + n) \<le> r" using Suc.prems(2) by (simp add: algebra_simps)
        moreover have "sz_mul ?b c \<le> ?b * c" by (rule sz_mul_le)
        moreover have "?r = r - sz_mul ?b c" by (rule sz_sub_exact [of _ "?b * c"]) (use calculation Suc.prems(3) in auto)
        ultimately have "?b * (1 + n) \<le> ?r" "?r \<le> r" by linarith+
        then show ?thesis using Suc.IH [OF g] Suc.prems(3) ok2 by auto
      qed
    qed
  qed
qed auto

lemma read_inode_blocks_le:
  assumes "read_inode_blocks io fs s self count dest r = Inr (s', self', ret', dest', r')"
    and "count = r div to_size (blocksize fs)" and "count \<noteq> 0"
  shows "r' \<le> r"
proof (cases "r < 2 ^ 32")
  case True
  let ?b = "to_size (blocksize fs)"
  have "count \<le> r" using assms(2) by simp
  then have c: "sz_sub count 1 = count - 1" using True assms(3) by (intro sz_sub_no_wrap) auto
  obtain s1 self1 ret1 lb c1 dest1 r1 where
    g: "gather_loop (count - 1) io fs s self (- ENOENT) (current_block_addr self) 1 dest r =
        Inr (s1, self1, ret1, lb, c1, dest1, r1)"
    using assms(1) c by (auto simp: read_inode_blocks_def bind_res_eq_Inr)
  have "?b * (1 + (count - 1)) \<le> r" using assms(2,3) by simp
  note l = gather_loop_le [OF g this True]
  have "r' = r1 \<or> (count - 1 = 0 \<or> 0 \<le> ret1) \<and> r' = sz_sub r1 (sz_mul ?b c1)"
    using assms(1) unfolding read_inode_blocks_def c g by (auto simp: bind_res_eq_Inr Let_def split: if_splits)
  then show ?thesis
  proof
    assume r': "(count - 1 = 0 \<or> 0 \<le> ret1) \<and> r' = sz_sub r1 (sz_mul ?b c1)"
    then have "?b * c1 \<le> r1" using l by blast
    then have "sz_mul ?b c1 \<le> r1" using sz_mul_le [of ?b c1] by linarith
    then have "sz_sub r1 (sz_mul ?b c1) \<le> r1" using sz_sub_le [of "sz_mul ?b c1" r1] sz_bounds(3) [of ?b c1] by linarith
    then show ?thesis using l r' by linarith
  qed (use l in simp)
next
  case False
  obtain s1 self1 ret1 lb c1 dest1 r1 where
    g: "gather_loop (sz_sub count 1) io fs s self (- ENOENT) (current_block_addr self) 1 dest r =
        Inr (s1, self1, ret1, lb, c1, dest1, r1)"
    using assms(1) by (auto simp: read_inode_blocks_def bind_res_eq_Inr)
  have "r' = r1 \<or> r' < 2 ^ 32"
    using assms(1) sz_bounds(2) unfolding read_inode_blocks_def g by (auto simp: bind_res_eq_Inr Let_def split: if_splits)
  then show ?thesis using gather_loop_wide [OF g] False by auto
qed

text \<open>The part of an iteration that reads whole blocks.\<close>

definition read_whole :: "'d xio \<Rightarrow> fscontext \<Rightarrow> 'd xs \<Rightarrow> ino_context \<Rightarrow> int \<Rightarrow> u8 list \<Rightarrow> nat \<Rightarrow>
    ('d xs \<times> ino_context \<times> int \<times> u8 list \<times> nat) res" where
  "read_whole io fs s self ret dest remaining_len =
     (if offset_in_buf (blockbuf self) = 0 \<and> to_size (blocksize fs) \<le> remaining_len then
        bind_res (div_res remaining_len (to_size (blocksize fs))) (\<lambda>blkcount.
        bind_res (read_inode_blocks io fs s self blkcount dest remaining_len) (\<lambda>(s, self, ret, dest, remaining_len).
        if ret < 0 then Inr (s, self, ret, dest, remaining_len)
        else bind_res (assert_res (ret = 0)) (\<lambda>_. Inr (s, self, ret, dest, remaining_len))))
      else Inr (s, self, ret, dest, remaining_len))"

lemma read_whole_le:
  assumes "read_whole io fs s self ret dest r = Inr (s', self', ret', dest', r')"
  shows "r' \<le> r"
proof (cases "offset_in_buf (blockbuf self) = 0 \<and> to_size (blocksize fs) \<le> r")
  case True
  let ?b = "to_size (blocksize fs)"
  have b: "?b \<noteq> 0" using assms True by (auto simp: read_whole_def div_res_def split: if_splits)
  have "r div ?b \<noteq> 0" using True b by (simp add: div_eq_0_iff)
  moreover have "\<exists>ret'. read_inode_blocks io fs s self (r div ?b) dest r = Inr (s', self', ret', dest', r')"
    using assms True b by (auto simp: read_whole_def div_res_def bind_res_eq_Inr split: if_splits)
  ultimately show ?thesis using read_inode_blocks_le [OF _ refl] by blast
qed (use assms in \<open>auto simp: read_whole_def\<close>)

text \<open>The part of an iteration that loads the current block into \<open>blockbuf\<close>.\<close>

definition fill_blockbuf :: "'d xio \<Rightarrow> fscontext \<Rightarrow> 'd xs \<Rightarrow> ino_context \<Rightarrow> int \<Rightarrow> ('d xs \<times> ino_context \<times> int) res" where
  "fill_blockbuf io fs s self ret =
     (if buf (blockbuf self) = None then
        bind_res (readblocks_alloc io fs s (current_block_addr self) 1) (\<lambda>(s, ret, newbuf).
        Inr (if ret < 0 then (s, self, ret) else (s, self\<lparr>blockbuf := (blockbuf self)\<lparr>buf := newbuf\<rparr>\<rparr>, ret)))
      else Inr (s, self, ret))"

text \<open>\<open>vmemcpy\<close> of \<open>n\<close> bytes from the buffered block.\<close>

definition copy_out :: "blkbuf \<Rightarrow> nat \<Rightarrow> u8 list res" where
  "copy_out b n =
     bind_res (buf_of (buf b)) (\<lambda>bytes.
     let off = nat (offset_in_buf b) in
     if off + n \<le> length bytes then Inr (take n (drop off bytes)) else Inl Out_of_bounds)"

function read_loop :: "'d xio \<Rightarrow> fscontext \<Rightarrow> 'd xs \<Rightarrow> ino_context \<Rightarrow> int \<Rightarrow> u8 list \<Rightarrow> nat \<Rightarrow>
    ('d xs \<times> ino_context \<times> int \<times> u8 list) res" where
  "read_loop io fs s self ret dest remaining_len =
     (if remaining_len = 0 then Inr (s, self, ret, dest)
      else
        bind_res (step_block io fs s self ret) (\<lambda>(s, self, ret).
        if ret < 0 then Inr (s, self, ret, dest)
        else
          bind_res (read_whole io fs s self ret dest remaining_len) (\<lambda>(s, self, ret, dest, remaining_len).
          if ret < 0 then Inr (s, self, ret, dest)
          else if remaining_len = 0 then Inr (s, self, ret, dest)
          else
            bind_res (fill_blockbuf io fs s self ret) (\<lambda>(s, self, ret).
            if ret < 0 then Inr (s, self, ret, dest)
            else
              bind_res (assert_res (offset_in_buf (blockbuf self) < blocksize fs)) (\<lambda>_.
              let readlen = chunk_len fs self remaining_len in
              bind_res (assert_res (readlen \<noteq> 0)) (\<lambda>_.
              bind_res (copy_out (blockbuf self) readlen) (\<lambda>bytes.
              read_loop io fs s (advance readlen self) ret (dest @ bytes) (remaining_len - readlen))))))))"
  by pat_completeness auto
termination
  by (relation "measure (\<lambda>(_, _, _, _, _, _, n). n)") (auto dest!: read_whole_le simp: assert_res_eq_Inr)

declare read_loop.simps [simp del]

definition read_inode :: "'d xio \<Rightarrow> fscontext \<Rightarrow> 'd xs \<Rightarrow> ino_context \<Rightarrow> nat \<Rightarrow> ('d xs \<times> ino_context \<times> int \<times> u8 list) res" where
  "read_inode io fs s self len =
     bind_res (assert_res (len \<le> STREAM_MAX_TRANSFER_SIZE)) (\<lambda>_. read_loop io fs s self 0 [] len)"

subsection \<open>Opening and closing an inode\<close>

fun load_ptrs :: "u8 list \<Rightarrow> nat \<Rightarrow> nat \<Rightarrow> u32 list res" where
  "load_ptrs inodedata i 0 = Inr []"
| "load_ptrs inodedata i (Suc n) =
     bind_res (u32le_at (drop (0x28 + 4 * i) inodedata)) (\<lambda>p.
     bind_res (load_ptrs inodedata (i + 1) n) (\<lambda>ps. Inr (p # ps)))"

text \<open>The fields of the inode on disk; \<open>None\<close> is a file size that does not fit \<open>off_t\<close>.\<close>

definition inode_at :: "fscontext \<Rightarrow> u8 list \<Rightarrow> ino_context option res" where
  "inode_at self inodedata =
     bind_res (u16le_at (drop 0x00 inodedata)) (\<lambda>type.
     bind_res (u16le_at (drop 0x02 inodedata)) (\<lambda>uid.
     bind_res (u32le_at (drop 0x04 inodedata)) (\<lambda>sizel.
     bind_res (u32le_at (drop 0x08 inodedata)) (\<lambda>atime.
     bind_res (u32le_at (drop 0x0c inodedata)) (\<lambda>ctime.
     bind_res (u32le_at (drop 0x10 inodedata)) (\<lambda>mtime.
     bind_res (u32le_at (drop 0x14 inodedata)) (\<lambda>dtime.
     bind_res (u16le_at (drop 0x18 inodedata)) (\<lambda>gid.
     bind_res (u16le_at (drop 0x1a inodedata)) (\<lambda>links.
     bind_res (u32le_at (drop 0x1c inodedata)) (\<lambda>sectors.
     bind_res (u32le_at (drop 0x20 inodedata)) (\<lambda>flags.
     bind_res (load_ptrs inodedata 0 12) (\<lambda>ptrs.
     bind_res (u32le_at (drop 0x58 inodedata)) (\<lambda>singly.
     bind_res (u32le_at (drop 0x5c inodedata)) (\<lambda>doubly.
     bind_res (u32le_at (drop 0x60 inodedata)) (\<lambda>triply.
     bind_res (u32le_at (drop 0x64 inodedata)) (\<lambda>generation.
     bind_res (if 1 \<le> major_ver self \<and> required_features_rw self AND RWMOUNT_FEATUREFLAG_64BIT_FILE_SIZE \<noteq> 0
               then u32le_at (drop 0x6c inodedata) else Inr 0) (\<lambda>sizeh.
     Inr (if drop_bit 31 sizeh \<noteq> 0 then None
          else Some
            \<lparr>ino_size = sint (push_bit 32 (ucast sizeh) OR ucast sizel :: u64), hardlinks = unat links,
             disksectors = unat sectors, direct_block_ptrs = ptrs, singly_indirect_table = singly,
             doublyindirecttable = doubly, triplyindirecttable = triply, lastaccesstime = atime,
             creationtime = ctime, lastmodifiedtime = mtime, deletiontime = dtime, ino_flags = flags,
             generationnumber = generation, typeandpermissions = type, ino_uid = uid, ino_gid = gid,
             current_block_addr = 0, next_direct_ptr_index = 0, cnt = 0,
             singly_indirect_buf = no_buf, doubly_indirect_buf = no_buf, triply_indirect_buf = no_buf, blockbuf = no_buf,
             singly_indirect_used = False, doubly_indirect_used = False, triply_indirect_used = False\<rparr>))))))))))))))))))"

text \<open>
  \<open>out\<close> tells whether the pointer \<open>out\<close> is not null; the inode is stored there when the return code is not negative.
\<close>

definition openinode :: "'d xio \<Rightarrow> bool \<Rightarrow> fscontext \<Rightarrow> 'd xs \<Rightarrow> nat \<Rightarrow> ('d xs \<times> int \<times> ino_context option) res" where
  "openinode io out self s inode =
     bind_res (locate_inode io self s inode) (\<lambda>(s, ret, addr, offset).
     if ret < 0 then Inr (s, ret, None)
     else
       bind_res (readblocks_alloc io self s addr 1) (\<lambda>(s, ret, blkdata).
       if ret < 0 then Inr (xfree blkdata s, ret, None)
       else
         if \<not> out then Inl Null_deref else
         bind_res (buf_of blkdata) (\<lambda>bytes.
         bind_res (inode_at self (drop (nat offset) bytes)) (\<lambda>parsed.
         case parsed of None \<Rightarrow> Inr (xfree blkdata s, - EINVAL, None)
         | Some out \<Rightarrow>
             bind_res (next_inode_block io self s out) (\<lambda>(s, out, ret).
             bind_res (assert_res (0 \<le> ret)) (\<lambda>_.
             Inr (xfree blkdata s, ret, Some out)))))))"

definition closeinode :: "ino_context option \<Rightarrow> 'd xs \<Rightarrow> 'd xs" where
  "closeinode self s = (case self of None \<Rightarrow> s | Some ino \<Rightarrow> free_bufs ino s)"

end
