(* ===== verification/Ext2_Blocks.thy ===== *)
theory Ext2_Blocks
  imports Ext2
begin

text \<open>
  The ext2 block iterator against a random-access reference. A volume is a function from block numbers to bytes;
  \<open>serves\<close> says that the disk driver provides it. The reference \<open>file_block\<close> computes the address of block \<open>k\<close> of
  a file from the inode and the tables on the volume; the iterator \<open>next_inode_block\<close> delivers these addresses in order.
\<close>

subsection \<open>Volumes\<close>

definition bsz :: "fscontext \<Rightarrow> nat" where
  "bsz fs = nat (blocksize fs)"

definition disk_ratio :: "fscontext \<Rightarrow> nat" where
  "disk_ratio fs = bsz fs div block_size (fs_physdisk fs)"

definition geometry_ok :: "fscontext \<Rightarrow> bool" where
  "geometry_ok fs \<longleftrightarrow> 0 < block_size (fs_physdisk fs) \<and> 1024 \<le> blocksize fs \<and> blocksize fs < 2 ^ 31 \<and>
     block_size (fs_physdisk fs) dvd bsz fs \<and> 4 dvd bsz fs"

text \<open>The bytes of block \<open>b\<close> of the file system, taken from the blocks of the partition.\<close>

definition vol_block :: "('d \<Rightarrow> u8 list list) \<Rightarrow> fscontext \<Rightarrow> 'd \<Rightarrow> nat \<Rightarrow> u8 list" where
  "vol_block blocks fs d b =
     concat (take (disk_ratio fs) (drop (b * disk_ratio fs) (part_blocks blocks (fs_disk fs) d)))"

definition serves :: "'d xio \<Rightarrow> fscontext \<Rightarrow> (nat \<Rightarrow> u8 list) \<Rightarrow> nat \<Rightarrow> 'd xs \<Rightarrow> bool" where
  "serves io fs V N s \<longleftrightarrow>
     (\<exists>blocks. block_device (x_ops io) blocks \<and> fits blocks (fs_disk fs) (x_dev s) \<and>
        (\<forall>x\<in>set (blocks (x_dev s)). length x = block_size (fs_physdisk fs)) \<and>
        (\<forall>b<N. V b = vol_block blocks fs (x_dev s) b)) \<and>
     block_count (fs_disk fs) < 2 ^ 31 \<and> N * disk_ratio fs \<le> block_count (fs_disk fs) \<and>
     geometry_ok fs \<and> (\<forall>k. \<not> x_oom io k)"

lemma serves_geometry: "serves io fs V N s \<Longrightarrow> geometry_ok fs"
  by (simp add: serves_def)

lemma serves_mem: "serves io fs V N s \<Longrightarrow> x_dev s' = x_dev s \<Longrightarrow> serves io fs V N s'"
  by (simp add: serves_def)

lemma geometry_facts:
  assumes "geometry_ok fs"
  shows "to_size (blocksize fs) = bsz fs" and "blocksize fs = int (bsz fs)" and "1024 \<le> bsz fs" and "bsz fs < 2 ^ 31"
    and "bsz fs = disk_ratio fs * block_size (fs_physdisk fs)" and "0 < disk_ratio fs" and "bsz fs = 4 * (bsz fs div 4)"
proof -
  have b: "1024 \<le> blocksize fs" "blocksize fs < 2 ^ 31" "0 < block_size (fs_physdisk fs)"
    "block_size (fs_physdisk fs) dvd bsz fs" "4 dvd bsz fs"
    using assms by (auto simp: geometry_ok_def)
  show "to_size (blocksize fs) = bsz fs" using b by (simp add: to_size_nonneg bsz_def)
  show c: "blocksize fs = int (bsz fs)" "1024 \<le> bsz fs" "bsz fs < 2 ^ 31" using b by (simp_all add: bsz_def nat_less_iff le_nat_iff)
  show e: "bsz fs = disk_ratio fs * block_size (fs_physdisk fs)" using b by (simp add: disk_ratio_def)
  show "0 < disk_ratio fs" using e c(2) by (cases "disk_ratio fs") auto
  show "bsz fs = 4 * (bsz fs div 4)" using b by simp
qed

lemma serves_small:
  assumes "serves io fs V N s"
  shows "N < 2 ^ 31"
proof -
  have "N * 1 \<le> N * disk_ratio fs" using geometry_facts(6) [OF serves_geometry [OF assms]] by (intro mult_le_mono2) simp
  then show ?thesis using assms unfolding serves_def by linarith
qed

lemma concat_slices:
  "concat (map (\<lambda>b. concat (take q (drop (b * q) xs))) [a..<a + n]) = concat (take (n * q) (drop (a * q) xs))"
proof (induction n)
  case (Suc n)
  have "take (n * q + q) (drop (a * q) xs) = take (n * q) (drop (a * q) xs) @ take q (drop (n * q) (drop (a * q) xs))"
    by (rule take_add)
  moreover have "drop (n * q) (drop (a * q) xs) = drop ((a + n) * q) xs"
    by (simp add: add_mult_distrib add.commute)
  ultimately have "take (Suc n * q) (drop (a * q) xs) = take (n * q) (drop (a * q) xs) @ take q (drop ((a + n) * q) xs)"
    by (simp add: add.commute)
  then show ?case using Suc by simp
qed simp

lemma length_concat_const: "\<forall>x\<in>set xs. length x = k \<Longrightarrow> length (concat xs) = length xs * k"
  by (induction xs) auto

text \<open>Reading a run of blocks returns their bytes and leaves the volume as it is.\<close>

lemma read_blocks_serves:
  assumes sv: "serves io fs V N s" and r: "unat b + n \<le> N"
  shows "\<exists>s'. read_blocks io fs s b n = Inr (s', 0, concat (map V [unat b..<unat b + n])) \<and> serves io fs V N s' \<and>
    x_allocs s' = x_allocs s \<and> x_live s' = x_live s"
proof -
  let ?q = "disk_ratio fs" and ?ld = "fs_disk fs"
  obtain blocks where bl: "block_device (x_ops io) blocks" "fits blocks ?ld (x_dev s)"
      "\<forall>x\<in>set (blocks (x_dev s)). length x = block_size (fs_physdisk fs)" "\<forall>b<N. V b = vol_block blocks fs (x_dev s) b"
    and bc: "block_count ?ld < 2 ^ 31" "N * ?q \<le> block_count ?ld" and g: "geometry_ok fs" and no: "\<forall>k. \<not> x_oom io k"
    using sv unfolding serves_def by blast
  note gf = geometry_facts [OF g]
  have "(unat b + n) * ?q \<le> N * ?q" using r by simp
  then have lim: "unat b * ?q + n * ?q \<le> block_count ?ld" using bc(2) by (simp add: add_mult_distrib)
  then have m: "sz_mul (unat b) ?q = unat b * ?q" "sz_mul n ?q = n * ?q" "n * ?q < 2 ^ 31"
    using bc(1) by (auto intro!: sz_mul_no_wrap)
  obtain d' where d': "ldisk_read (x_ops io) (x_dev s) ?ld (unat b * ?q) (n * ?q) =
      (d', int (min (n * ?q) (block_count ?ld - unat b * ?q)), take (n * ?q) (drop (unat b * ?q) (part_blocks blocks ?ld (x_dev s))))"
      "blocks d' = blocks (x_dev s)"
    using read_within [OF bl(1,2) m(3)] by blast
  have mn: "min (n * ?q) (block_count ?ld - unat b * ?q) = n * ?q" using lim by simp
  have ts: "to_size (int (n * ?q)) = n * ?q" using m(3) by (intro to_size_of_nat) simp
  have ex: "ldisk_read_exact (x_ops io) (x_dev s) ?ld (unat b * ?q) (n * ?q) =
      (d', 0, take (n * ?q) (drop (unat b * ?q) (part_blocks blocks ?ld (x_dev s))))"
    unfolding ldisk_read_exact_def d'(1) mn using ts by (simp del: of_nat_mult)
  have "map V [unat b..<unat b + n] = map (vol_block blocks fs (x_dev s)) [unat b..<unat b + n]"
    using bl(4) r by (intro map_cong) auto
  then have bytes: "concat (take (n * ?q) (drop (unat b * ?q) (part_blocks blocks ?ld (x_dev s)))) = concat (map V [unat b..<unat b + n])"
    unfolding vol_block_def by (simp only: concat_slices)
  have q: "div_res (bsz fs) (block_size (fs_physdisk fs)) = Inr ?q" "bsz fs mod block_size (fs_physdisk fs) = 0"
    using g by (auto simp: div_res_def geometry_ok_def disk_ratio_def)
  have "read_blocks io fs s b n = Inr (s\<lparr>x_dev := d'\<rparr>, 0, concat (map V [unat b..<unat b + n]))"
    unfolding read_blocks_def Let_def gf(1) q bind_res_Inr by (simp add: q m ex bytes)
  moreover have "serves io fs V N (s\<lparr>x_dev := d'\<rparr>)"
  proof -
    have "fits blocks ?ld d'" using bl(2) d'(2) by (simp add: fits_def)
    moreover have "vol_block blocks fs d' = vol_block blocks fs (x_dev s)"
      using d'(2) by (simp add: vol_block_def part_blocks_def fun_eq_iff)
    ultimately show ?thesis unfolding serves_def using bl d'(2) bc g no by (intro conjI exI [of _ blocks]) auto
  qed
  ultimately show ?thesis by auto
qed

lemma serves_block_len:
  assumes "serves io fs V N s" and "b < N"
  shows "length (V b) = bsz fs"
proof -
  let ?q = "disk_ratio fs" and ?ld = "fs_disk fs"
  obtain blocks where bl: "fits blocks ?ld (x_dev s)"
      "\<forall>x\<in>set (blocks (x_dev s)). length x = block_size (fs_physdisk fs)" "\<forall>b<N. V b = vol_block blocks fs (x_dev s) b"
    and bc: "N * ?q \<le> block_count ?ld" and g: "geometry_ok fs"
    using assms(1) unfolding serves_def by blast
  let ?xs = "take ?q (drop (b * ?q) (part_blocks blocks ?ld (x_dev s)))"
  have "(b + 1) * ?q \<le> N * ?q" using assms(2) by (intro mult_le_mono1) simp
  then have "b * ?q + ?q \<le> block_count ?ld" using bc by simp
  then have "length ?xs = ?q" using bl(1) by (auto simp: part_blocks_def fits_def)
  moreover have "\<forall>x\<in>set ?xs. length x = block_size (fs_physdisk fs)"
    using bl(2) unfolding part_blocks_def by (meson in_set_dropD in_set_takeD)
  ultimately have "length (concat ?xs) = ?q * block_size (fs_physdisk fs)"
    using length_concat_const [of ?xs "block_size (fs_physdisk fs)"] by (simp only:)
  then show ?thesis using bl(3) assms(2) geometry_facts(5) [OF g] by (simp add: vol_block_def)
qed

lemma readblocks_alloc_serves:
  assumes sv: "serves io fs V N s" and b: "unat b < N"
  shows "\<exists>s'. readblocks_alloc io fs s b 1 = Inr (s', 0, Some (V (unat b))) \<and> serves io fs V N s'"
proof -
  note gf = geometry_facts [OF serves_geometry [OF sv]]
  let ?s = "s\<lparr>x_allocs := x_allocs s + 1, x_live := x_live s + 1\<rparr>"
  have "alloc_block_buf io fs s 1 = Inr (?s, True)"
    using sv gf(1,4) by (simp add: alloc_block_buf_def div_res_def xalloc_def serves_def size_max_def)
  moreover have "serves io fs V N ?s" by (rule serves_mem [OF sv]) simp
  then obtain s' where "read_blocks io fs ?s b 1 = Inr (s', 0, V (unat b))" "serves io fs V N s'"
    using read_blocks_serves [of io fs V N ?s b 1] b by auto
  ultimately show ?thesis by (simp add: readblocks_alloc_def)
qed

lemma serves_xfree [simp]: "serves io fs V N (xfree p s) = serves io fs V N s"
  by (cases p) (auto simp: xfree_def serves_def)

subsection \<open>The reference\<close>

definition le32 :: "u8 list \<Rightarrow> u32" where
  "le32 bytes = (case u32le_at bytes of Inl _ \<Rightarrow> 0 | Inr w \<Rightarrow> w)"

lemma u32le_le32: "4 \<le> length bytes \<Longrightarrow> u32le_at bytes = Inr (le32 bytes)"
proof -
  assume l: "4 \<le> length bytes"
  then have "0 < length bytes" by linarith
  then have "load bytes 0 = Inr (bytes ! 0)" by (rule load_in)
  then show ?thesis using l by (simp add: le32_def u32le_at_def)
qed

text \<open>Entry \<open>i\<close> of the table in block \<open>a\<close>.\<close>

definition table_entry :: "(nat \<Rightarrow> u8 list) \<Rightarrow> u32 \<Rightarrow> nat \<Rightarrow> u32" where
  "table_entry V a i = le32 (drop (4 * i) (V (unat a)))"

text \<open>
  The doubly indirect tables of a file, its singly indirect tables and its blocks, each by its index; a table has
  \<open>p\<close> entries. Doubly indirect table 0 is named by the inode and the others by the triply indirect table; singly
  indirect table 0 is named by the inode and the others by the doubly indirect tables.
\<close>

definition doubly_addr :: "(nat \<Rightarrow> u8 list) \<Rightarrow> ino_context \<Rightarrow> nat \<Rightarrow> u32" where
  "doubly_addr V ino u = (if u = 0 then doublyindirecttable ino else table_entry V (triplyindirecttable ino) (u - 1))"

definition singly_addr :: "(nat \<Rightarrow> u8 list) \<Rightarrow> nat \<Rightarrow> ino_context \<Rightarrow> nat \<Rightarrow> u32" where
  "singly_addr V p ino t =
     (if t = 0 then singly_indirect_table ino
      else table_entry V (doubly_addr V ino ((t - 1) div p)) ((t - 1) mod p))"

definition file_block :: "(nat \<Rightarrow> u8 list) \<Rightarrow> nat \<Rightarrow> ino_context \<Rightarrow> nat \<Rightarrow> u32" where
  "file_block V p ino k =
     (if k < 12 then direct_block_ptrs ino ! k
      else table_entry V (singly_addr V p ino ((k - 12) div p)) ((k - 12) mod p))"

definition good_ptr :: "nat \<Rightarrow> u32 \<Rightarrow> bool" where
  "good_ptr N a \<longleftrightarrow> a \<noteq> 0 \<and> unat a < N"

text \<open>The first \<open>n\<close> blocks of the file are mapped, and so are the tables that lead to them.\<close>

definition mapped :: "(nat \<Rightarrow> u8 list) \<Rightarrow> nat \<Rightarrow> nat \<Rightarrow> ino_context \<Rightarrow> nat \<Rightarrow> bool" where
  "mapped V N p ino n \<longleftrightarrow> length (direct_block_ptrs ino) = 12 \<and> n \<le> 12 + p * (1 + p + p * p) \<and>
     (\<forall>k<n. good_ptr N (file_block V p ino k)) \<and>
     (\<forall>t. 12 + t * p < n \<longrightarrow> good_ptr N (singly_addr V p ino t)) \<and>
     (\<forall>u. 12 + (1 + u * p) * p < n \<longrightarrow> good_ptr N (doubly_addr V ino u)) \<and>
     (12 + (1 + p) * p < n \<longrightarrow> good_ptr N (triplyindirecttable ino))"

subsection \<open>The position of the iterator\<close>

definition buf_at :: "(nat \<Rightarrow> u8 list) \<Rightarrow> u32 \<Rightarrow> nat \<Rightarrow> blkbuf" where
  "buf_at V a i = \<lparr>offset_in_buf = 4 * int i, buf = Some (V (unat a))\<rparr>"

text \<open>The triply indirect table has named \<open>u\<close> doubly indirect tables.\<close>

definition triply_pos :: "(nat \<Rightarrow> u8 list) \<Rightarrow> ino_context \<Rightarrow> nat \<Rightarrow> bool" where
  "triply_pos V ino u \<longleftrightarrow> triply_indirect_used ino = (0 < u) \<and>
     triply_indirect_buf ino = (if u = 0 then no_buf else buf_at V (triplyindirecttable ino) u)"

text \<open>The doubly indirect tables have named \<open>t\<close> singly indirect tables.\<close>

definition doubly_pos :: "(nat \<Rightarrow> u8 list) \<Rightarrow> nat \<Rightarrow> ino_context \<Rightarrow> nat \<Rightarrow> bool" where
  "doubly_pos V p ino t \<longleftrightarrow> doubly_indirect_used ino = (0 < t) \<and>
     doubly_indirect_buf ino = (if t = 0 then no_buf else buf_at V (doubly_addr V ino ((t - 1) div p)) ((t - 1) mod p + 1)) \<and>
     triply_pos V ino ((t - 1) div p)"

text \<open>The singly indirect tables have named \<open>m\<close> blocks.\<close>

definition singly_pos :: "(nat \<Rightarrow> u8 list) \<Rightarrow> nat \<Rightarrow> ino_context \<Rightarrow> nat \<Rightarrow> bool" where
  "singly_pos V p ino m \<longleftrightarrow> singly_indirect_used ino = (0 < m) \<and>
     singly_indirect_buf ino = (if m = 0 then no_buf else buf_at V (singly_addr V p ino ((m - 1) div p)) ((m - 1) mod p + 1)) \<and>
     doubly_pos V p ino ((m - 1) div p)"

text \<open>\<open>k\<close> blocks have been delivered; the last one is the current block.\<close>

definition block_pos :: "(nat \<Rightarrow> u8 list) \<Rightarrow> nat \<Rightarrow> ino_context \<Rightarrow> nat \<Rightarrow> bool" where
  "block_pos V p ino k \<longleftrightarrow> next_direct_ptr_index ino = min k 12 \<and> singly_pos V p ino (k - 12) \<and>
     (0 < k \<longrightarrow> current_block_addr ino = file_block V p ino (k - 1))"

text \<open>The static part of the inode is not touched.\<close>

definition same_file :: "ino_context \<Rightarrow> ino_context \<Rightarrow> bool" where
  "same_file ino ino' \<longleftrightarrow> direct_block_ptrs ino' = direct_block_ptrs ino \<and> singly_indirect_table ino' = singly_indirect_table ino \<and>
     doublyindirecttable ino' = doublyindirecttable ino \<and> triplyindirecttable ino' = triplyindirecttable ino \<and>
     ino_size ino' = ino_size ino \<and> typeandpermissions ino' = typeandpermissions ino"

lemma odometer:
  assumes "0 < p" and "0 < (t :: nat)"
  shows "(t - 1) mod p + 1 < p \<Longrightarrow> t div p = (t - 1) div p \<and> t mod p = (t - 1) mod p + 1"
    and "\<not> (t - 1) mod p + 1 < p \<Longrightarrow> t div p = (t - 1) div p + 1 \<and> t mod p = 0"
proof -
  let ?i = "(t - 1) mod p" and ?d = "(t - 1) div p"
  have t: "t = ?d * p + (?i + 1)" using assms div_mult_mod_eq [of "t - 1" p] by linarith
  show "t div p = ?d \<and> t mod p = ?i + 1" if "?i + 1 < p"
    using t that by (metis add.commute div_less div_mult_self1 mod_less mod_mult_self1 add_0 assms(1) less_numeral_extra(3))
  show "t div p = ?d + 1 \<and> t mod p = 0" if "\<not> ?i + 1 < p"
  proof -
    have "?i + 1 = p" using that mod_less_divisor [OF assms(1), of "t - 1"] by linarith
    then have "t = (?d + 1) * p" using t by simp
    then show ?thesis using assms(1) by (metis div_mult_self_is_m mod_mult_self2_is_0)
  qed
qed

lemma used_up_simps:
  "used_up fs no_buf"
  "geometry_ok fs \<Longrightarrow> used_up fs (buf_at V a i) \<longleftrightarrow> bsz fs div 4 \<le> i"
proof -
  show "used_up fs no_buf" by (simp add: used_up_def no_buf_def)
  assume "geometry_ok fs"
  note g = geometry_facts(2,7) [OF this]
  show "used_up fs (buf_at V a i) \<longleftrightarrow> bsz fs div 4 \<le> i" unfolding used_up_def buf_at_def g(1) using g(2) by auto
qed

lemma entry_at_buf:
  assumes "serves io fs V N s" and "unat a < N" and "i < bsz fs div 4"
  shows "entry_at (buf_at V a i) = Inr (table_entry V a i)"
proof -
  have "length (V (unat a)) = bsz fs" by (rule serves_block_len [OF assms(1,2)])
  then have "4 \<le> length (drop (4 * i) (V (unat a)))"
    using assms(3) geometry_facts(7) [OF serves_geometry [OF assms(1)]] by simp
  moreover have "nat (4 * int i) = 4 * i" by simp
  ultimately show ?thesis unfolding entry_at_def buf_at_def table_entry_def by (simp add: buf_of_def u32le_le32)
qed

subsection \<open>Steps of the iterator\<close>

lemma addr_upd [simp]:
  "doubly_addr V (ino\<lparr>doubly_indirect_buf := db, doubly_indirect_used := du\<rparr>) = doubly_addr V ino"
  "doubly_addr V (ino\<lparr>triply_indirect_buf := db, triply_indirect_used := du\<rparr>) = doubly_addr V ino"
  "doubly_addr V (ino\<lparr>doubly_indirect_buf := db\<rparr>) = doubly_addr V ino"
  "doubly_addr V (ino\<lparr>doubly_indirect_used := du\<rparr>) = doubly_addr V ino"
  "doubly_addr V (ino\<lparr>triply_indirect_buf := db\<rparr>) = doubly_addr V ino"
  "doubly_addr V (ino\<lparr>triply_indirect_used := du\<rparr>) = doubly_addr V ino"
  "doubly_addr V (ino\<lparr>singly_indirect_buf := db\<rparr>) = doubly_addr V ino"
  "doubly_addr V (ino\<lparr>singly_indirect_used := du\<rparr>) = doubly_addr V ino"
  "singly_addr V p (ino\<lparr>doubly_indirect_buf := db\<rparr>) = singly_addr V p ino"
  "singly_addr V p (ino\<lparr>doubly_indirect_used := du\<rparr>) = singly_addr V p ino"
  "singly_addr V p (ino\<lparr>triply_indirect_buf := db\<rparr>) = singly_addr V p ino"
  "singly_addr V p (ino\<lparr>triply_indirect_used := du\<rparr>) = singly_addr V p ino"
  "singly_addr V p (ino\<lparr>singly_indirect_buf := db\<rparr>) = singly_addr V p ino"
  "singly_addr V p (ino\<lparr>singly_indirect_used := du\<rparr>) = singly_addr V p ino"
  by (simp_all add: doubly_addr_def singly_addr_def fun_eq_iff)

lemma triply_step:
  assumes sv: "serves io fs V N s" and p: "p = bsz fs div 4" and pos: "triply_pos V ino u" and u: "u < p"
    and ptr: "good_ptr N (triplyindirecttable ino)"
  shows "\<exists>s'. next_triply_block_ptr io fs s ino a0 =
      Inr (s', ino\<lparr>triply_indirect_used := True, triply_indirect_buf := buf_at V (triplyindirecttable ino) (u + 1)\<rparr>,
           0, doubly_addr V ino (u + 1)) \<and> serves io fs V N s'"
proof -
  let ?a = "triplyindirecttable ino"
  note g = serves_geometry [OF sv]
  have a: "unat ?a < N" "?a \<noteq> 0" using ptr by (auto simp: good_ptr_def)
  have e: "entry_at (buf_at V ?a u) = Inr (doubly_addr V ino (u + 1))"
    using entry_at_buf [OF sv a(1)] u p by (simp add: doubly_addr_def)
  have adv: "(buf_at V ?a u)\<lparr>offset_in_buf := offset_in_buf (buf_at V ?a u) + 4\<rparr> = buf_at V ?a (u + 1)"
    by (simp add: buf_at_def)
  show ?thesis
  proof (cases "u = 0")
    case True
    then have f: "\<not> triply_indirect_used ino" "triply_indirect_buf ino = no_buf" using pos by (auto simp: triply_pos_def)
    obtain s' where "readblocks_alloc io fs s ?a 1 = Inr (s', 0, Some (V (unat ?a)))" and sv': "serves io fs V N s'"
      using readblocks_alloc_serves [OF sv a(1)] by blast
    then have t: "next_triply_indirect_table io fs s ino =
        Inr (xfree (buf no_buf) s', ino\<lparr>triply_indirect_buf := buf_at V ?a u\<rparr>, 0)"
      using True a f by (simp add: next_triply_indirect_table_def buf_at_def)
    have sv'': "serves io fs V N (xfree (buf no_buf) s')" using sv' by simp
    show ?thesis unfolding next_triply_block_ptr_def f(2) t
      using sv'' e adv by (simp add: used_up_simps(1))
  next
    case False
    then have f: "triply_indirect_used ino" "triply_indirect_buf ino = buf_at V ?a u" using pos by (auto simp: triply_pos_def)
    have "\<not> used_up fs (buf_at V ?a u)" using used_up_simps(2) [OF g] u p by simp
    then show ?thesis unfolding next_triply_block_ptr_def f(2) using f sv e adv by (simp add: Let_def)
  qed
qed

lemma triply_pos_move:
  assumes "triply_pos V ino u" and "triply_indirect_used ino' = triply_indirect_used ino"
    and "triply_indirect_buf ino' = triply_indirect_buf ino" and "triplyindirecttable ino' = triplyindirecttable ino"
  shows "triply_pos V ino' u"
  using assms by (simp add: triply_pos_def)

lemma doubly_pos_move:
  assumes "doubly_pos V p ino t" and "doubly_indirect_used ino' = doubly_indirect_used ino"
    and "doubly_indirect_buf ino' = doubly_indirect_buf ino" and "doublyindirecttable ino' = doublyindirecttable ino"
    and "triply_indirect_used ino' = triply_indirect_used ino"
    and "triply_indirect_buf ino' = triply_indirect_buf ino" and "triplyindirecttable ino' = triplyindirecttable ino"
  shows "doubly_pos V p ino' t"
proof -
  have "doubly_addr V ino' = doubly_addr V ino" using assms by (simp add: doubly_addr_def fun_eq_iff)
  then show ?thesis using assms by (simp add: doubly_pos_def triply_pos_def)
qed

text \<open>Loading the doubly indirect table that names singly indirect table \<open>t + 1\<close>, when the previous one is used up.\<close>

lemma doubly_table:
  assumes sv: "serves io fs V N s" and p: "p = bsz fs div 4" and pos: "doubly_pos V p ino t"
    and up: "t mod p = 0" and ptr: "good_ptr N (doubly_addr V ino (t div p))"
    and tri: "0 < t div p \<Longrightarrow> good_ptr N (triplyindirecttable ino) \<and> t div p \<le> p"
  shows "\<exists>s' tb tu. let ino' = ino\<lparr>doubly_indirect_used := True, doubly_indirect_buf := buf_at V (doubly_addr V ino (t div p)) 0,
      triply_indirect_used := tu, triply_indirect_buf := tb\<rparr> in
    next_doubly_indirect_table io fs s ino = Inr (s', ino', 0) \<and> serves io fs V N s' \<and> triply_pos V ino' (t div p)"
proof -
  have p0: "0 < p" using geometry_facts(3) [OF serves_geometry [OF sv]] p by linarith
  let ?a = "doubly_addr V ino (t div p)"
  have a: "unat ?a < N" "?a \<noteq> 0" using ptr by (auto simp: good_ptr_def)
  show ?thesis
  proof (cases "t = 0")
    case True
    then have f: "\<not> doubly_indirect_used ino" "doubly_indirect_buf ino = no_buf" "triply_pos V ino 0" "?a = doublyindirecttable ino"
      using pos by (auto simp: doubly_pos_def doubly_addr_def)
    obtain s' where s': "readblocks_alloc io fs s ?a 1 = Inr (s', 0, Some (V (unat ?a)))" "serves io fs V N s'"
      using readblocks_alloc_serves [OF sv a(1)] by blast
    have eq: "next_doubly_indirect_table io fs s ino =
        Inr (xfree (buf no_buf) s', ino\<lparr>doubly_indirect_used := True, doubly_indirect_buf := buf_at V ?a 0\<rparr>, 0)"
      using f s'(1) a unfolding f(4) by (simp add: next_doubly_indirect_table_def buf_at_def)
    then show ?thesis unfolding Let_def
      by (intro exI [of _ "xfree (buf no_buf) s'"] exI [of _ "triply_indirect_buf ino"] exI [of _ "triply_indirect_used ino"])
        (use s'(2) f(3) True in \<open>simp add: triply_pos_def\<close>)
  next
    case False
    define u where "u = (t - 1) div p"
    have "(t - 1) mod p < p" using p0 by simp
    then have td: "t div p = u + 1" using odometer(1,2) [of p t] p0 False up by (fastforce simp: u_def)
    have f: "doubly_indirect_used ino" "triply_pos V ino u" using False pos by (auto simp: doubly_pos_def u_def)
    obtain s1 where s1: "next_triply_block_ptr io fs s ino 0 =
      Inr (s1, ino\<lparr>triply_indirect_used := True, triply_indirect_buf := buf_at V (triplyindirecttable ino) (u + 1)\<rparr>, 0, ?a)"
      "serves io fs V N s1"
      using triply_step [OF sv p f(2), of 0] tri td by auto
    obtain s' where s': "readblocks_alloc io fs s1 ?a 1 = Inr (s', 0, Some (V (unat ?a)))" "serves io fs V N s'"
      using readblocks_alloc_serves [OF s1(2) a(1)] by blast
    have "next_doubly_indirect_table io fs s ino =
        Inr (xfree (buf (doubly_indirect_buf ino)) s', ino\<lparr>triply_indirect_used := True,
          triply_indirect_buf := buf_at V (triplyindirecttable ino) (u + 1), doubly_indirect_buf := buf_at V ?a 0\<rparr>, 0)"
      using f s1(1) s'(1) by (simp add: next_doubly_indirect_table_def buf_at_def)
    then show ?thesis unfolding Let_def
      by (intro exI [of _ "xfree (buf (doubly_indirect_buf ino)) s'"] exI [of _ "buf_at V (triplyindirecttable ino) (u + 1)"] exI [of _ True])
        (use s'(2) f(1) td in \<open>simp add: triply_pos_def\<close>)
  qed
qed

lemma doubly_step:
  assumes sv: "serves io fs V N s" and p: "p = bsz fs div 4" and pos: "doubly_pos V p ino t"
    and ptr: "good_ptr N (doubly_addr V ino (t div p))"
    and tri: "0 < t div p \<Longrightarrow> good_ptr N (triplyindirecttable ino) \<and> t div p \<le> p"
    and nz: "singly_addr V p ino (t + 1) \<noteq> 0"
  shows "\<exists>s' db tb tu. let ino' = ino\<lparr>doubly_indirect_used := True, doubly_indirect_buf := db,
      triply_indirect_used := tu, triply_indirect_buf := tb\<rparr> in
    next_doubly_block_ptr io fs s ino a0 = Inr (s', ino', 0, singly_addr V p ino (t + 1)) \<and> serves io fs V N s' \<and>
    doubly_pos V p ino' (t + 1)"
proof -
  note g = serves_geometry [OF sv]
  have p0: "0 < p" using geometry_facts(3) [OF g] p by linarith
  let ?a = "doubly_addr V ino (t div p)"
  have a: "unat ?a < N" using ptr by (auto simp: good_ptr_def)
  have e: "entry_at (buf_at V ?a (t mod p)) = Inr (singly_addr V p ino (t + 1))"
    using entry_at_buf [OF sv a, of "t mod p"] p0 p by (simp add: singly_addr_def)
  have adv: "(buf_at V ?a i)\<lparr>offset_in_buf := offset_in_buf (buf_at V ?a i) + 4\<rparr> = buf_at V ?a (i + 1)" for i
    by (simp add: buf_at_def)
  show ?thesis
  proof (cases "t mod p = 0")
    case True
    have up: "used_up fs (doubly_indirect_buf ino)"
    proof (cases "t = 0")
      case False
      then have "p \<le> (t - 1) mod p + 1" using odometer(1) [of p t] p0 True by linarith
      then show ?thesis using pos False used_up_simps(2) [OF g] p by (simp add: doubly_pos_def)
    qed (use pos in \<open>simp add: doubly_pos_def used_up_simps(1)\<close>)
    obtain s' tb tu where s': "next_doubly_indirect_table io fs s ino = Inr (s', ino\<lparr>doubly_indirect_used := True,
        doubly_indirect_buf := buf_at V ?a 0, triply_indirect_used := tu, triply_indirect_buf := tb\<rparr>, 0)"
      "serves io fs V N s'" "triply_pos V (ino\<lparr>doubly_indirect_used := True,
        doubly_indirect_buf := buf_at V ?a 0, triply_indirect_used := tu, triply_indirect_buf := tb\<rparr>) (t div p)"
      using doubly_table [OF sv p pos True ptr tri] unfolding Let_def by blast
    have tp: "triply_pos V (ino\<lparr>doubly_indirect_used := True,
        doubly_indirect_buf := buf_at V ?a 1, triply_indirect_used := tu, triply_indirect_buf := tb\<rparr>) (t div p)"
      by (rule triply_pos_move [OF s'(3)]) simp_all
    have eq: "next_doubly_block_ptr io fs s ino a0 = Inr (s', ino\<lparr>doubly_indirect_used := True,
        doubly_indirect_buf := buf_at V ?a 1, triply_indirect_used := tu, triply_indirect_buf := tb\<rparr>, 0, singly_addr V p ino (t + 1))"
      unfolding next_doubly_block_ptr_def using up s'(1) e adv [of 0] nz True by simp
    show ?thesis unfolding Let_def
      by (rule exI [of _ s'], rule exI [of _ "buf_at V ?a 1"], rule exI [of _ tb], rule exI [of _ tu])
        
        (use eq s'(2) tp True in \<open>simp add: doubly_pos_def\<close>)
  next
    case False
    then have t: "0 < t" by (cases t) auto
    have o: "(t - 1) mod p + 1 < p" "t div p = (t - 1) div p" "t mod p = (t - 1) mod p + 1"
      using odometer [of p t] p0 t False by linarith+
    have b: "doubly_indirect_buf ino = buf_at V ?a (t mod p)" "doubly_indirect_used ino" "triply_pos V ino (t div p)"
      using pos t o by (auto simp: doubly_pos_def)
    have "\<not> used_up fs (buf_at V ?a (t mod p))" using used_up_simps(2) [OF g] o p by simp
    then have eq: "next_doubly_block_ptr io fs s ino a0 = Inr (s, ino\<lparr>doubly_indirect_buf := buf_at V ?a (t mod p + 1)\<rparr>, 0,
        singly_addr V p ino (t + 1))"
      unfolding next_doubly_block_ptr_def b(1) using e adv [of "t mod p"] nz b(1) by (simp add: Let_def)
    show ?thesis unfolding Let_def
      by (rule exI [of _ s], rule exI [of _ "buf_at V ?a (t mod p + 1)"],
          rule exI [of _ "triply_indirect_buf ino"], rule exI [of _ "triply_indirect_used ino"])
        
        (use eq sv b in \<open>simp add: triply_pos_def doubly_pos_def\<close>)
  qed
qed

text \<open>Loading singly indirect table \<open>t\<close>, when the previous one is used up; \<open>t * p\<close> blocks have come from tables.\<close>

lemma singly_table:
  assumes sv: "serves io fs V N s" and p: "p = bsz fs div 4" and pos: "singly_pos V p ino (t * p)"
    and ptr: "good_ptr N (singly_addr V p ino t)"
    and dbl: "0 < t \<Longrightarrow> good_ptr N (doubly_addr V ino ((t - 1) div p))"
    and tri: "0 < t \<Longrightarrow> 0 < (t - 1) div p \<Longrightarrow> good_ptr N (triplyindirecttable ino) \<and> (t - 1) div p \<le> p"
  shows "\<exists>s' db du tb tu. let ino' = ino\<lparr>singly_indirect_used := True, singly_indirect_buf := buf_at V (singly_addr V p ino t) 0,
      doubly_indirect_used := du, doubly_indirect_buf := db, triply_indirect_used := tu, triply_indirect_buf := tb\<rparr> in
    next_singly_indirect_table io fs s ino = Inr (s', ino', 0) \<and> serves io fs V N s' \<and> doubly_pos V p ino' t"
proof -
  have p0: "0 < p" using geometry_facts(3) [OF serves_geometry [OF sv]] p by linarith
  let ?a = "singly_addr V p ino t"
  have a: "unat ?a < N" "?a \<noteq> 0" using ptr by (auto simp: good_ptr_def)
  show ?thesis
  proof (cases "t = 0")
    case True
    then have f: "\<not> singly_indirect_used ino" "singly_indirect_buf ino = no_buf" "doubly_pos V p ino 0" "?a = singly_indirect_table ino"
      using pos by (auto simp: singly_pos_def singly_addr_def)
    obtain s' where s': "readblocks_alloc io fs s ?a 1 = Inr (s', 0, Some (V (unat ?a)))" "serves io fs V N s'"
      using readblocks_alloc_serves [OF sv a(1)] by blast
    have eq: "next_singly_indirect_table io fs s ino =
        Inr (xfree (buf no_buf) s', ino\<lparr>singly_indirect_used := True, singly_indirect_buf := buf_at V ?a 0\<rparr>, 0)"
      using f s'(1) a unfolding f(4) by (simp add: next_singly_indirect_table_def buf_at_def)
    show ?thesis unfolding Let_def
      by (rule exI [of _ "xfree (buf no_buf) s'"], rule exI [of _ "doubly_indirect_buf ino"],
          rule exI [of _ "doubly_indirect_used ino"], rule exI [of _ "triply_indirect_buf ino"],
          rule exI [of _ "triply_indirect_used ino"])
        
        (use eq s'(2) f(3) True in \<open>simp add: doubly_pos_def triply_pos_def\<close>)
  next
    case False
    have tp: "0 < t * p" "(t * p - 1) div p = t - 1"
    proof -
      show "0 < t * p" using False p0 by simp
      have "t * p - 1 = (t - 1) * p + (p - 1)" using False p0 by (cases t) (auto simp: algebra_simps)
      then show "(t * p - 1) div p = t - 1" using p0 by (metis add.right_neutral diff_less div_less div_mult_self3 less_numeral_extra(1,3))
    qed
    have f: "singly_indirect_used ino" "doubly_pos V p ino (t - 1)" using tp pos by (auto simp: singly_pos_def)
    have nz: "singly_addr V p ino (t - 1 + 1) \<noteq> 0" using a False by simp
    obtain s1 db tb tu where s1: "next_doubly_block_ptr io fs s ino 0 = Inr (s1, ino\<lparr>doubly_indirect_used := True, doubly_indirect_buf := db,
        triply_indirect_used := tu, triply_indirect_buf := tb\<rparr>, 0, ?a)" "serves io fs V N s1"
      "doubly_pos V p (ino\<lparr>doubly_indirect_used := True, doubly_indirect_buf := db, triply_indirect_used := tu, triply_indirect_buf := tb\<rparr>) t"
      using doubly_step [OF sv p f(2) _ _ nz, of 0] dbl tri False unfolding Let_def by auto
    obtain s' where s': "readblocks_alloc io fs s1 ?a 1 = Inr (s', 0, Some (V (unat ?a)))" "serves io fs V N s'"
      using readblocks_alloc_serves [OF s1(2) a(1)] by blast
    have dp: "doubly_pos V p (ino\<lparr>singly_indirect_used := True, singly_indirect_buf := buf_at V ?a 0, doubly_indirect_used := True,
            doubly_indirect_buf := db, triply_indirect_used := tu, triply_indirect_buf := tb\<rparr>) t"
      by (rule doubly_pos_move [OF s1(3)]) simp_all
    have eq: "next_singly_indirect_table io fs s ino = Inr (xfree (buf (singly_indirect_buf ino)) s',
        ino\<lparr>singly_indirect_used := True, singly_indirect_buf := buf_at V ?a 0, doubly_indirect_used := True,
            doubly_indirect_buf := db, triply_indirect_used := tu, triply_indirect_buf := tb\<rparr>, 0)"
      using f s1(1) s'(1) by (simp add: next_singly_indirect_table_def buf_at_def)
    show ?thesis unfolding Let_def
      by (rule exI [of _ "xfree (buf (singly_indirect_buf ino)) s'"], rule exI [of _ db],
          rule exI [of _ True], rule exI [of _ tb], rule exI [of _ tu])
        
        (use eq s'(2) dp in simp)
  qed
qed

lemma singly_step:
  assumes sv: "serves io fs V N s" and p: "p = bsz fs div 4" and pos: "singly_pos V p ino m"
    and mp: "mapped V N p ino n" and m: "12 + m < n"
  shows "\<exists>s' sb db du tb tu. let ino' = ino\<lparr>singly_indirect_used := True, singly_indirect_buf := sb,
      doubly_indirect_used := du, doubly_indirect_buf := db, triply_indirect_used := tu, triply_indirect_buf := tb\<rparr> in
    next_singly_block_ptr io fs s ino a0 = Inr (s', ino', 0, file_block V p ino (12 + m)) \<and> serves io fs V N s' \<and>
    singly_pos V p ino' (m + 1)"
proof -
  note g = serves_geometry [OF sv]
  have p0: "0 < p" using geometry_facts(3) [OF g] p by linarith
  let ?t = "m div p"
  let ?a = "singly_addr V p ino ?t"
  have tm: "?t * p \<le> m" by simp
  have ptr: "good_ptr N ?a" using mp m tm unfolding mapped_def by (meson add_le_cancel_left le_less_trans)
  then have a: "unat ?a < N" by (simp add: good_ptr_def)
  have nz: "file_block V p ino (12 + m) \<noteq> 0" using mp m unfolding mapped_def good_ptr_def by blast
  have e: "entry_at (buf_at V ?a (m mod p)) = Inr (file_block V p ino (12 + m))"
    using entry_at_buf [OF sv a, of "m mod p"] p0 p by (simp add: file_block_def)
  have adv: "(buf_at V ?a i)\<lparr>offset_in_buf := offset_in_buf (buf_at V ?a i) + 4\<rparr> = buf_at V ?a (i + 1)" for i
    by (simp add: buf_at_def)
  show ?thesis
  proof (cases "m mod p = 0")
    case True
    then have mt: "m = ?t * p" by (metis add.right_neutral div_mult_mod_eq)
    have pos': "singly_pos V p ino (?t * p)" using pos by (simp only: mt [symmetric])
    have up: "used_up fs (singly_indirect_buf ino)"
    proof (cases "m = 0")
      case False
      then have "p \<le> (m - 1) mod p + 1" using odometer(1) [of p m] p0 True by linarith
      then show ?thesis using pos False used_up_simps(2) [OF g] p by (simp add: singly_pos_def)
    qed (use pos in \<open>simp add: singly_pos_def used_up_simps(1)\<close>)
    have dbl: "good_ptr N (doubly_addr V ino ((?t - 1) div p))" if t: "0 < ?t"
    proof -
      have "(?t - 1) div p * p \<le> ?t - 1" by simp
      then have "(1 + (?t - 1) div p * p) * p \<le> ?t * p" using t by (intro mult_le_mono1) linarith
      then show ?thesis using mp m tm unfolding mapped_def by (meson add_le_cancel_left le_less_trans order.trans)
    qed
    have tri: "good_ptr N (triplyindirecttable ino) \<and> (?t - 1) div p \<le> p" if t: "0 < ?t" "0 < (?t - 1) div p"
    proof
      have "p \<le> ?t - 1" using t(2) p0 by (simp add: div_greater_zero_iff)
      then have "(1 + p) * p \<le> ?t * p" using t(1) by (intro mult_le_mono1) linarith
      then show "good_ptr N (triplyindirecttable ino)" using mp m tm unfolding mapped_def by (meson add_le_cancel_left le_less_trans order.trans)
      have "m < p * (1 + p + p * p)" using mp m unfolding mapped_def by linarith
      then have "?t < 1 + p + p * p" using p0 by (simp add: div_less_iff_less_mult mult.commute)
      then have "?t - 1 < (p + 1) * p" using t by simp
      then have "(?t - 1) div p < p + 1" using p0 by (simp add: div_less_iff_less_mult)
      then show "(?t - 1) div p \<le> p" by simp
    qed
    obtain s' db du tb tu where s': "next_singly_indirect_table io fs s ino = Inr (s', ino\<lparr>singly_indirect_used := True,
        singly_indirect_buf := buf_at V ?a 0, doubly_indirect_used := du, doubly_indirect_buf := db,
        triply_indirect_used := tu, triply_indirect_buf := tb\<rparr>, 0)" "serves io fs V N s'"
      "doubly_pos V p (ino\<lparr>singly_indirect_used := True, singly_indirect_buf := buf_at V ?a 0, doubly_indirect_used := du,
        doubly_indirect_buf := db, triply_indirect_used := tu, triply_indirect_buf := tb\<rparr>) ?t"
      using singly_table [OF sv p pos' ptr dbl tri] unfolding Let_def by blast
    have dp: "doubly_pos V p (ino\<lparr>singly_indirect_used := True,
        singly_indirect_buf := buf_at V ?a 1, doubly_indirect_used := du, doubly_indirect_buf := db,
        triply_indirect_used := tu, triply_indirect_buf := tb\<rparr>) ?t"
      by (rule doubly_pos_move [OF s'(3)]) simp_all
    have eq: "next_singly_block_ptr io fs s ino a0 = Inr (s', ino\<lparr>singly_indirect_used := True,
        singly_indirect_buf := buf_at V ?a 1, doubly_indirect_used := du, doubly_indirect_buf := db,
        triply_indirect_used := tu, triply_indirect_buf := tb\<rparr>, 0, file_block V p ino (12 + m))"
      unfolding next_singly_block_ptr_def using up s'(1) e adv [of 0] nz True by simp
    show ?thesis unfolding Let_def
      by (rule exI [of _ s'], rule exI [of _ "buf_at V ?a 1"], rule exI [of _ db],
          rule exI [of _ du], rule exI [of _ tb], rule exI [of _ tu])
        
        (use eq s'(2) dp True in \<open>simp add: singly_pos_def\<close>)
  next
    case False
    then have t: "0 < m" by (cases m) auto
    have o: "(m - 1) mod p + 1 < p" "m div p = (m - 1) div p" "m mod p = (m - 1) mod p + 1"
      using odometer [of p m] p0 t False by linarith+
    have b: "singly_indirect_buf ino = buf_at V ?a (m mod p)" "singly_indirect_used ino" "doubly_pos V p ino ?t"
      using pos t o by (auto simp: singly_pos_def)
    have "\<not> used_up fs (buf_at V ?a (m mod p))" using used_up_simps(2) [OF g] o p by simp
    then have eq: "next_singly_block_ptr io fs s ino a0 = Inr (s, ino\<lparr>singly_indirect_buf := buf_at V ?a (m mod p + 1)\<rparr>, 0,
        file_block V p ino (12 + m))"
      unfolding next_singly_block_ptr_def b(1) using e adv [of "m mod p"] nz b(1) by (simp add: Let_def)
    show ?thesis unfolding Let_def
      by (rule exI [of _ s], rule exI [of _ "buf_at V ?a (m mod p + 1)"], rule exI [of _ "doubly_indirect_buf ino"],
          rule exI [of _ "doubly_indirect_used ino"], rule exI [of _ "triply_indirect_buf ino"], rule exI [of _ "triply_indirect_used ino"])
        
        (use eq sv b in \<open>simp add: triply_pos_def doubly_pos_def singly_pos_def\<close>)
  qed
qed

lemma same_file_refl [simp]: "same_file ino ino"
  by (simp add: same_file_def)

lemma same_file_trans: "same_file a b \<Longrightarrow> same_file b c \<Longrightarrow> same_file a c"
  by (simp add: same_file_def)

lemma same_file_addr:
  assumes "same_file ino ino'"
  shows "doubly_addr V ino' = doubly_addr V ino" and "singly_addr V p ino' = singly_addr V p ino"
    and "file_block V p ino' = file_block V p ino" and "mapped V N p ino' n = mapped V N p ino n"
proof -
  show d: "doubly_addr V ino' = doubly_addr V ino" using assms by (simp add: doubly_addr_def fun_eq_iff same_file_def)
  show s: "singly_addr V p ino' = singly_addr V p ino" using assms d by (simp add: singly_addr_def fun_eq_iff same_file_def)
  show f: "file_block V p ino' = file_block V p ino" using assms s by (simp add: file_block_def fun_eq_iff same_file_def)
  show "mapped V N p ino' n = mapped V N p ino n" using assms d s f by (simp add: mapped_def same_file_def)
qed

lemma singly_pos_move:
  assumes "singly_pos V p ino m" and "same_file ino ino'"
    and "singly_indirect_used ino' = singly_indirect_used ino" and "singly_indirect_buf ino' = singly_indirect_buf ino"
    and "doubly_indirect_used ino' = doubly_indirect_used ino" and "doubly_indirect_buf ino' = doubly_indirect_buf ino"
    and "triply_indirect_used ino' = triply_indirect_used ino" and "triply_indirect_buf ino' = triply_indirect_buf ino"
  shows "singly_pos V p ino' m"
proof -
  have "doubly_pos V p ino' ((m - 1) div p)"
    by (rule doubly_pos_move [of _ _ ino]) (use assms in \<open>simp_all add: singly_pos_def same_file_def\<close>)
  then show ?thesis using assms by (simp add: singly_pos_def same_file_addr [OF assms(2)])
qed

text \<open>The iterator delivers block \<open>k\<close> and moves on by one.\<close>

lemma next_block:
  assumes sv: "serves io fs V N s" and p: "p = bsz fs div 4" and mp: "mapped V N p ino n"
    and pos: "block_pos V p ino k" and k: "k < n"
  shows "\<exists>s' ino'. next_inode_block io fs s ino = Inr (s', ino', 0) \<and> serves io fs V N s' \<and> block_pos V p ino' (k + 1) \<and>
    same_file ino ino' \<and> blockbuf ino' = blockbuf ino"
proof (cases "k < 12")
  case True
  let ?a = "direct_block_ptrs ino ! k"
  have f: "file_block V p ino k = ?a" using True by (simp add: file_block_def)
  then have a: "?a \<noteq> 0" using mp k by (auto simp: mapped_def good_ptr_def)
  have i: "next_direct_ptr_index ino = k" using pos True by (simp add: block_pos_def)
  let ?ino = "ino\<lparr>next_direct_ptr_index := k + 1, current_block_addr := ?a, cnt := sz_add (cnt ino) 1\<rparr>"
  have "length (direct_block_ptrs ino) = 12" using mp by (simp add: mapped_def)
  then have "next_inode_block io fs s ino = Inr (s, ?ino, 0)"
    using True i a by (simp add: next_inode_block_def DIRECT_BLOCK_POINTER_COUNT_def next_direct_block_ptr_def)
  moreover have sf: "same_file ino ?ino" by (simp add: same_file_def)
  moreover have "singly_pos V p ?ino (k - 12)"
    by (rule singly_pos_move [OF _ sf]) (use pos in \<open>simp_all add: block_pos_def\<close>)
  then have "block_pos V p ?ino (k + 1)"
    using True f same_file_addr(3) [OF sf, of V p] by (simp add: block_pos_def)
  ultimately show ?thesis using sv by auto
next
  case False
  have sp: "singly_pos V p ino (k - 12)" "next_direct_ptr_index ino = 12" using pos False by (auto simp: block_pos_def)
  have kn: "12 + (k - 12) < n" using False k by simp
  have fb: "file_block V p ino (12 + (k - 12)) = file_block V p ino k" using False by simp
  obtain s' sb db du tb tu where st: "let ino' = ino\<lparr>singly_indirect_used := True, singly_indirect_buf := sb,
      doubly_indirect_used := du, doubly_indirect_buf := db, triply_indirect_used := tu, triply_indirect_buf := tb\<rparr> in
    next_singly_block_ptr io fs s ino 0 = Inr (s', ino', 0, file_block V p ino k) \<and> serves io fs V N s' \<and>
    singly_pos V p ino' (k - 12 + 1)"
    using singly_step [OF sv p sp(1) mp kn, of 0] unfolding fb by blast
  define ino1 where ino1: "ino1 = ino\<lparr>singly_indirect_used := True, singly_indirect_buf := sb,
      doubly_indirect_used := du, doubly_indirect_buf := db, triply_indirect_used := tu, triply_indirect_buf := tb\<rparr>"
  have s': "next_singly_block_ptr io fs s ino 0 = Inr (s', ino1, 0, file_block V p ino k)" "serves io fs V N s'"
      "singly_pos V p ino1 (k - 12 + 1)"
    using st unfolding Let_def ino1 [symmetric] by blast+
  let ?ino = "ino1\<lparr>current_block_addr := file_block V p ino k, cnt := sz_add (cnt ino1) 1\<rparr>"
  have "next_inode_block io fs s ino = Inr (s', ?ino, 0)"
    using sp(2) s'(1) by (simp add: next_inode_block_def DIRECT_BLOCK_POINTER_COUNT_def)
  moreover have sf: "same_file ino1 ?ino" "same_file ino ino1" by (simp_all add: same_file_def ino1)
  moreover have "k - 12 + 1 = k + 1 - 12" using False by simp
  then have "singly_pos V p ?ino (k + 1 - 12)"
    using singly_pos_move [OF s'(3) sf(1)] by simp
  then have "block_pos V p ?ino (k + 1)"
    using False sp(2) same_file_addr(3) [OF same_file_trans [OF sf(2,1)], of V p] by (simp add: block_pos_def ino1)
  ultimately show ?thesis using s'(2) same_file_trans [OF sf(2,1)] by (auto simp: ino1)
qed

text \<open>
  The end of a file of \<open>n\<close> blocks: the next pointer is zero, in the inode, in a partly used table, or in the place
  of the next table.
\<close>

definition file_end :: "(nat \<Rightarrow> u8 list) \<Rightarrow> nat \<Rightarrow> ino_context \<Rightarrow> nat \<Rightarrow> bool" where
  "file_end V p ino n \<longleftrightarrow>
     (if n < 12 then direct_block_ptrs ino ! n = 0
      else if (n - 12) mod p \<noteq> 0 then file_block V p ino n = 0
      else singly_addr V p ino ((n - 12) div p) = 0 \<and>
        (n = 12 \<or> ((n - 12) div p - 1) mod p \<noteq> 0 \<or> ((n - 12) div p = 1 \<and> doublyindirecttable ino = 0)))"

lemma doubly_end:
  assumes sv: "serves io fs V N s" and p: "p = bsz fs div 4" and pos: "doubly_pos V p ino t"
    and z: "singly_addr V p ino (t + 1) = 0" and ptr: "t mod p \<noteq> 0 \<Longrightarrow> good_ptr N (doubly_addr V ino (t div p))"
    and e: "t mod p \<noteq> 0 \<or> t = 0 \<and> doublyindirecttable ino = 0"
  shows "\<exists>s' db du. next_doubly_block_ptr io fs s ino a0 = Inr (s', ino\<lparr>doubly_indirect_used := du, doubly_indirect_buf := db\<rparr>, - ENOENT, a0) \<and>
    serves io fs V N s'"
proof (cases "t mod p = 0")
  case True
  then have "t = 0" "doublyindirecttable ino = 0" using e by auto
  then have f: "\<not> doubly_indirect_used ino" "doubly_indirect_buf ino = no_buf" "doublyindirecttable ino = 0"
    using pos by (auto simp: doubly_pos_def)
  then have "next_doubly_indirect_table io fs s ino =
      Inr (xfree (buf no_buf) s, ino\<lparr>doubly_indirect_used := True, doubly_indirect_buf := no_buf\<rparr>, - ENOENT)"
    by (simp add: next_doubly_indirect_table_def ENOENT_def)
  then have "next_doubly_block_ptr io fs s ino a0 =
      Inr (xfree (buf no_buf) s, ino\<lparr>doubly_indirect_used := True, doubly_indirect_buf := no_buf\<rparr>, - ENOENT, a0)"
    using f by (simp add: next_doubly_block_ptr_def used_up_simps(1) ENOENT_def)
  then show ?thesis using sv by (intro exI [of _ "xfree (buf no_buf) s"] exI [of _ no_buf] exI [of _ True]) simp
next
  case False
  note g = serves_geometry [OF sv]
  have p0: "0 < p" using geometry_facts(3) [OF g] p by linarith
  let ?a = "doubly_addr V ino (t div p)"
  have t: "0 < t" using False by (cases t) auto
  have o: "(t - 1) mod p + 1 < p" "t div p = (t - 1) div p" "t mod p = (t - 1) mod p + 1"
    using odometer [of p t] p0 t False by linarith+
  have b: "doubly_indirect_buf ino = buf_at V ?a (t mod p)" using pos t o by (auto simp: doubly_pos_def)
  have "unat ?a < N" using ptr False by (simp add: good_ptr_def)
  then have en: "entry_at (buf_at V ?a (t mod p)) = Inr 0"
    using entry_at_buf [OF sv, of ?a "t mod p"] p0 p z by (simp add: singly_addr_def)
  have nu: "\<not> used_up fs (buf_at V ?a (t mod p))" using used_up_simps(2) [OF g] o p by simp
  have "next_doubly_block_ptr io fs s ino a0 = Inr (s, ino\<lparr>doubly_indirect_buf :=
      (buf_at V ?a (t mod p))\<lparr>offset_in_buf := offset_in_buf (buf_at V ?a (t mod p)) + 4\<rparr>\<rparr>, - ENOENT, a0)"
    using nu en unfolding next_doubly_block_ptr_def b by (simp add: Let_def b)
  then show ?thesis using sv
    by (intro exI [of _ s] exI [of _ "(buf_at V ?a (t mod p))\<lparr>offset_in_buf := offset_in_buf (buf_at V ?a (t mod p)) + 4\<rparr>"]
        exI [of _ "doubly_indirect_used ino"]) simp
qed

lemma singly_end:
  assumes sv: "serves io fs V N s" and p: "p = bsz fs div 4" and pos: "singly_pos V p ino m"
    and mp: "mapped V N p ino (12 + m)" and e: "file_end V p ino (12 + m)"
  shows "\<exists>s' sb db du. next_singly_block_ptr io fs s ino a0 = Inr (s', ino\<lparr>singly_indirect_buf := sb,
      doubly_indirect_used := du, doubly_indirect_buf := db\<rparr>, - ENOENT, a0) \<and> serves io fs V N s'"
proof (cases "m mod p = 0")
  case False
  note g = serves_geometry [OF sv]
  have p0: "0 < p" using geometry_facts(3) [OF g] p by linarith
  let ?a = "singly_addr V p ino (m div p)"
  have t: "0 < m" using False by (cases m) auto
  have o: "(m - 1) mod p + 1 < p" "m div p = (m - 1) div p" "m mod p = (m - 1) mod p + 1"
    using odometer [of p m] p0 t False by linarith+
  have b: "singly_indirect_buf ino = buf_at V ?a (m mod p)" using pos t o by (auto simp: singly_pos_def)
  have "m div p * p < m" using False div_mult_mod_eq [of m p] by linarith
  then have "unat ?a < N" using mp by (auto simp: mapped_def good_ptr_def)
  moreover have "file_block V p ino (12 + m) = 0" using e False by (simp add: file_end_def)
  ultimately have en: "entry_at (buf_at V ?a (m mod p)) = Inr 0"
    using entry_at_buf [OF sv, of ?a "m mod p"] p0 p by (simp add: file_block_def)
  have nu: "\<not> used_up fs (buf_at V ?a (m mod p))" using used_up_simps(2) [OF g] o p by simp
  have "next_singly_block_ptr io fs s ino a0 = Inr (s, ino, - ENOENT, a0)"
    using nu en unfolding next_singly_block_ptr_def b by (simp add: Let_def b)
  then show ?thesis using sv
    by (intro exI [of _ s]) (rule exI [of _ "singly_indirect_buf ino"], rule exI [of _ "doubly_indirect_buf ino"],
        rule exI [of _ "doubly_indirect_used ino"], simp)
next
  case True
  note g = serves_geometry [OF sv]
  have p0: "0 < p" using geometry_facts(3) [OF g] p by linarith
  let ?t = "m div p"
  have mt: "?t * p = m" using True by auto
  have z: "singly_addr V p ino ?t = 0" and z1: "m = 0 \<or> (?t - 1) mod p \<noteq> 0 \<or> ?t = 1 \<and> doublyindirecttable ino = 0"
    using e True by (auto simp: file_end_def)
  have up: "used_up fs (singly_indirect_buf ino)"
  proof (cases "m = 0")
    case False
    then have "p \<le> (m - 1) mod p + 1" using odometer(1) [of p m] p0 True by linarith
    then show ?thesis using pos False used_up_simps(2) [OF g] p by (simp add: singly_pos_def)
  qed (use pos in \<open>simp add: singly_pos_def used_up_simps(1)\<close>)
  have "\<exists>s' db du. next_singly_indirect_table io fs s ino = Inr (s', ino\<lparr>singly_indirect_buf := no_buf,
      doubly_indirect_used := du, doubly_indirect_buf := db\<rparr>, - ENOENT) \<and> serves io fs V N s'"
  proof (cases "m = 0")
    case m0: True
    then have "next_singly_indirect_table io fs s ino = Inr (xfree (buf (singly_indirect_buf ino)) s, ino\<lparr>singly_indirect_buf := no_buf\<rparr>, - ENOENT)"
      using pos z by (simp add: next_singly_indirect_table_def singly_pos_def singly_addr_def ENOENT_def)
    then show ?thesis using sv
      by (intro exI [of _ "xfree (buf (singly_indirect_buf ino)) s"] exI [of _ "doubly_indirect_buf ino"] exI [of _ "doubly_indirect_used ino"]) simp
  next
    case m0: False
    then have t0: "0 < ?t" using mt by (cases ?t) auto
    have "m - 1 = (?t - 1) * p + (p - 1)"
    proof -
      have "?t * p = (?t - 1) * p + p" using t0 by (metis Suc_pred' mult_Suc add.commute)
      then show ?thesis using mt p0 m0 by linarith
    qed
    then have td: "(m - 1) div p = ?t - 1" using p0 by (metis add.right_neutral diff_less div_less div_mult_self3 less_numeral_extra(1,3))
    have f: "singly_indirect_used ino" "doubly_pos V p ino (?t - 1)" using m0 pos td by (auto simp: singly_pos_def)
    have ptr: "good_ptr N (doubly_addr V ino ((?t - 1) div p))" if nz: "(?t - 1) mod p \<noteq> 0"
    proof -
      have "(?t - 1) div p * p < ?t - 1" using nz div_mult_mod_eq [of "?t - 1" p] by linarith
      then have "(1 + (?t - 1) div p * p) * p < ?t * p" using p0 by (intro mult_strict_right_mono) linarith+
      then show ?thesis using mp mt unfolding mapped_def by simp
    qed
    have z': "singly_addr V p ino (?t - 1 + 1) = 0" using z t0 by simp
    have e': "(?t - 1) mod p \<noteq> 0 \<or> ?t - 1 = 0 \<and> doublyindirecttable ino = 0" using z1 m0 by auto
    obtain s1 db du where "next_doubly_block_ptr io fs s ino 0 = Inr (s1, ino\<lparr>doubly_indirect_used := du, doubly_indirect_buf := db\<rparr>, - ENOENT, 0)"
        "serves io fs V N s1"
      using doubly_end [OF sv p f(2) z' ptr e', of 0] by blast
    then show ?thesis using f(1)
      by (intro exI [of _ "xfree (buf (singly_indirect_buf ino)) s1"] exI [of _ db] exI [of _ du])
        (simp add: next_singly_indirect_table_def ENOENT_def)
  qed
  then obtain s' db du where n: "next_singly_indirect_table io fs s ino = Inr (s', ino\<lparr>singly_indirect_buf := no_buf,
      doubly_indirect_used := du, doubly_indirect_buf := db\<rparr>, - ENOENT)" and sv': "serves io fs V N s'"
    by blast
  have "next_singly_block_ptr io fs s ino a0 = Inr (s', ino\<lparr>singly_indirect_buf := no_buf,
      doubly_indirect_used := du, doubly_indirect_buf := db\<rparr>, - ENOENT, a0)"
    using up n by (simp add: next_singly_block_ptr_def ENOENT_def)
  then show ?thesis using sv' by blast
qed

text \<open>Behind the last block the iterator reports the end; the current block and its buffer stay.\<close>

lemma next_block_end:
  assumes sv: "serves io fs V N s" and p: "p = bsz fs div 4" and mp: "mapped V N p ino n"
    and pos: "block_pos V p ino n" and e: "file_end V p ino n"
  shows "\<exists>s' ino'. next_inode_block io fs s ino = Inr (s', ino', - ENOENT) \<and> serves io fs V N s' \<and> same_file ino ino' \<and>
    blockbuf ino' = blockbuf ino \<and> current_block_addr ino' = current_block_addr ino"
proof (cases "n < 12")
  case True
  then have "direct_block_ptrs ino ! n = 0" "next_direct_ptr_index ino = n" "length (direct_block_ptrs ino) = 12"
    using e pos mp by (auto simp: file_end_def block_pos_def mapped_def)
  then have "next_inode_block io fs s ino = Inr (s, ino, - ENOENT)"
    using True by (simp add: next_inode_block_def DIRECT_BLOCK_POINTER_COUNT_def next_direct_block_ptr_def ENOENT_def)
  then show ?thesis using sv by auto
next
  case False
  then have m: "12 + (n - 12) = n" by simp
  have sp: "singly_pos V p ino (n - 12)" "next_direct_ptr_index ino = 12" using pos False by (auto simp: block_pos_def)
  obtain s' sb db du where "next_singly_block_ptr io fs s ino 0 = Inr (s', ino\<lparr>singly_indirect_buf := sb,
      doubly_indirect_used := du, doubly_indirect_buf := db\<rparr>, - ENOENT, 0)" "serves io fs V N s'"
    using singly_end [OF sv p sp(1), of 0] mp e unfolding m by blast
  then show ?thesis using sp(2)
    by (intro exI [of _ s']) (auto simp: next_inode_block_def DIRECT_BLOCK_POINTER_COUNT_def ENOENT_def same_file_def)
qed

end
