(* ===== verification/Ext2_Read.thy ===== *)
theory Ext2_Read
  imports Ext2_Blocks
begin

text \<open>
  Reading and skipping in an ext2 file. The content of a file of \<open>n\<close> blocks is the concatenation of its blocks;
  \<open>byte_pos\<close> relates an open inode to a position in it. \<open>read_inode\<close> returns the bytes at the position although it
  gathers runs of neighbouring blocks and buffers partial blocks.
\<close>

subsection \<open>Content and positions\<close>

definition blk :: "(nat \<Rightarrow> u8 list) \<Rightarrow> nat \<Rightarrow> ino_context \<Rightarrow> nat \<Rightarrow> u8 list" where
  "blk V p ino k = V (unat (file_block V p ino k))"

definition content :: "(nat \<Rightarrow> u8 list) \<Rightarrow> nat \<Rightarrow> ino_context \<Rightarrow> nat \<Rightarrow> u8 list" where
  "content V p ino n = concat (map (blk V p ino) [0..<n])"

text \<open>Block \<open>k\<close> (counted from one) is current and \<open>off\<close> bytes of it are consumed.\<close>

definition at_pos :: "(nat \<Rightarrow> u8 list) \<Rightarrow> nat \<Rightarrow> fscontext \<Rightarrow> ino_context \<Rightarrow> nat \<Rightarrow> nat \<Rightarrow> nat \<Rightarrow> bool" where
  "at_pos V N fs ino n k off \<longleftrightarrow> mapped V N (bsz fs div 4) ino n \<and> block_pos V (bsz fs div 4) ino k \<and>
     0 < k \<and> k \<le> n \<and> off \<le> bsz fs \<and> offset_in_buf (blockbuf ino) = int off \<and>
     (buf (blockbuf ino) = None \<or> buf (blockbuf ino) = Some (V (unat (current_block_addr ino))))"

definition byte_pos :: "(nat \<Rightarrow> u8 list) \<Rightarrow> nat \<Rightarrow> fscontext \<Rightarrow> ino_context \<Rightarrow> nat \<Rightarrow> nat \<Rightarrow> bool" where
  "byte_pos V N fs ino n q \<longleftrightarrow> (\<exists>k off. at_pos V N fs ino n k off \<and> q = (k - 1) * bsz fs + off)"

lemma blk_len:
  assumes "serves io fs V N s" and "mapped V N p ino n" and "k < n"
  shows "length (blk V p ino k) = bsz fs"
  unfolding blk_def by (rule serves_block_len [OF assms(1)]) (use assms(2,3) in \<open>auto simp: mapped_def good_ptr_def\<close>)

lemma slice_concat:
  assumes "\<forall>k<n. length (f k) = b" and "j + m \<le> n"
  shows "take (m * b) (drop (j * b) (concat (map f [0..<n]))) = concat (map f [j..<j + m])"
proof -
  have c: "length (concat (map f [i..<i + l])) = l * b" if "i + l \<le> n" for i l
    using length_concat_const [of "map f [i..<i + l]" b] assms(1) that by auto
  have "[0..<n] = [0..<j] @ [j..<j + m] @ [j + m..<n]"
    using assms(2) by (metis add.commute le_add1 le_add_same_cancel1 le_trans upt_add_eq_append append.assoc add_0 le_add2 le_iff_add)
  then have "concat (map f [0..<n]) = concat (map f [0..<j]) @ concat (map f [j..<j + m]) @ concat (map f [j + m..<n])" by simp
  moreover have "length (concat (map f [0..<j])) = j * b" using c [of 0 j] assms(2) by simp
  moreover have "length (concat (map f [j..<j + m])) = m * b" using c [of j m] assms(2) by simp
  ultimately show ?thesis by simp
qed

lemma content_blocks:
  assumes "serves io fs V N s" and "mapped V N p ino n" and "j + m \<le> n"
  shows "take (m * bsz fs) (drop (j * bsz fs) (content V p ino n)) = concat (map (blk V p ino) [j..<j + m])"
  unfolding content_def by (rule slice_concat) (use assms blk_len in \<open>auto\<close>)

lemma content_length:
  assumes "serves io fs V N s" and "mapped V N p ino n"
  shows "length (content V p ino n) = n * bsz fs"
  unfolding content_def using length_concat_const [of "map (blk V p ino) [0..<n]" "bsz fs"] blk_len [OF assms] by auto

text \<open>A slice within one block.\<close>

lemma content_within:
  assumes "serves io fs V N s" and "mapped V N p ino n" and "j < n" and "off + m \<le> bsz fs"
  shows "take m (drop (j * bsz fs + off) (content V p ino n)) = take m (drop off (blk V p ino j))"
proof -
  let ?c = "drop (j * bsz fs) (content V p ino n)"
  have "blk V p ino j = take (bsz fs) ?c" using content_blocks [OF assms(1,2), of j 1] assms(3) by simp
  then have "take m (drop off (blk V p ino j)) = take m (drop off (take (bsz fs) ?c))" by simp
  also have "\<dots> = take m (drop off ?c)" using assms(4) by (simp add: drop_take min_def)
  finally show ?thesis by (simp add: add.commute)
qed

subsection \<open>Moving to the next block\<close>

lemma same_file_blockbuf: "same_file ino (ino\<lparr>blockbuf := b\<rparr>)"
  by (simp add: same_file_def)

lemma blockbuf_upd [simp]:
  "file_block V p (ino\<lparr>blockbuf := b\<rparr>) = file_block V p ino"
  "blk V p (ino\<lparr>blockbuf := b\<rparr>) = blk V p ino"
  "mapped V N p (ino\<lparr>blockbuf := b\<rparr>) n = mapped V N p ino n"
  "block_pos V p (ino\<lparr>blockbuf := b\<rparr>) k = block_pos V p ino k"
proof -
  note sf = same_file_blockbuf [of ino b]
  show f: "file_block V p (ino\<lparr>blockbuf := b\<rparr>) = file_block V p ino" by (rule same_file_addr(3) [OF sf])
  then show "blk V p (ino\<lparr>blockbuf := b\<rparr>) = blk V p ino" by (simp add: blk_def fun_eq_iff)
  show "mapped V N p (ino\<lparr>blockbuf := b\<rparr>) n = mapped V N p ino n" by (rule same_file_addr(4) [OF sf])
  have "singly_pos V p (ino\<lparr>blockbuf := b\<rparr>) m = singly_pos V p ino m" for m
    using singly_pos_move [of V p ino m "ino\<lparr>blockbuf := b\<rparr>"] singly_pos_move [of V p "ino\<lparr>blockbuf := b\<rparr>" m ino]
    by (auto simp: same_file_def)
  then show "block_pos V p (ino\<lparr>blockbuf := b\<rparr>) k = block_pos V p ino k" using f by (simp add: block_pos_def)
qed

lemma step_block_ok:
  assumes sv: "serves io fs V N s" and pos: "at_pos V N fs ino n k off" and q: "(k - 1) * bsz fs + off < n * bsz fs"
  shows "\<exists>s' ino' k' off' ret'. step_block io fs s ino ret = Inr (s', ino', ret') \<and> serves io fs V N s' \<and> same_file ino ino' \<and>
    at_pos V N fs ino' n k' off' \<and> off' < bsz fs \<and> (k' - 1) * bsz fs + off' = (k - 1) * bsz fs + off \<and> (ret' = ret \<or> ret' = 0)"
proof (cases "off = bsz fs")
  case False
  then have "off < bsz fs" using pos by (simp add: at_pos_def)
  moreover have "blocksize fs = int (bsz fs)" by (rule geometry_facts(2) [OF serves_geometry [OF sv]])
  ultimately have "step_block io fs s ino ret = Inr (s, ino, ret)" using pos by (simp add: step_block_def at_pos_def)
  then show ?thesis using \<open>off < bsz fs\<close> pos sv same_file_refl by blast
next
  case True
  let ?p = "bsz fs div 4"
  have b0: "0 < bsz fs" using geometry_facts(3) [OF serves_geometry [OF sv]] by linarith
  have k: "0 < k" "mapped V N ?p ino n" "block_pos V ?p ino k" using pos by (auto simp: at_pos_def)
  have kb: "(k - 1) * bsz fs + off = k * bsz fs" using True k(1) by (cases k) auto
  then have "k < n" using q b0 by simp
  then obtain s1 ino1 where n: "next_inode_block io fs s ino = Inr (s1, ino1, 0)" "serves io fs V N s1" "block_pos V ?p ino1 (k + 1)"
      "same_file ino ino1" "blockbuf ino1 = blockbuf ino"
    using next_block [OF sv refl k(2,3)] by blast
  let ?ino = "ino1\<lparr>blockbuf := no_buf\<rparr>"
  have sf: "same_file ino1 ?ino" by (rule same_file_blockbuf)
  have "at_pos V N fs ?ino n (k + 1) 0" using \<open>k < n\<close> n(3) k(2) same_file_addr(4) [OF n(4)] by (simp add: at_pos_def no_buf_def)
  moreover have "step_block io fs s ino ret = Inr (xfree (buf (blockbuf ino1)) s1, ?ino, 0)"
    using True pos geometry_facts(2) [OF serves_geometry [OF sv]] n(1)
    by (simp add: step_block_def at_pos_def next_inode_block_and_reset_blockbuf_def)
  moreover have "(k + 1 - 1) * bsz fs + 0 = (k - 1) * bsz fs + off" using kb by simp
  ultimately show ?thesis using n(2) same_file_trans [OF n(4) sf] b0 serves_xfree by blast
qed

subsection \<open>Gathering runs of blocks\<close>

text \<open>
  Blocks \<open>j\<close> to \<open>j + c - 1\<close> of the file are neighbours on the volume, the first of them at \<open>lb\<close>.
\<close>

definition is_run :: "(nat \<Rightarrow> u8 list) \<Rightarrow> nat \<Rightarrow> ino_context \<Rightarrow> nat \<Rightarrow> nat \<Rightarrow> u32 \<Rightarrow> bool" where
  "is_run V p ino j c lb \<longleftrightarrow> 0 < c \<and> (\<forall>i<c. unat (file_block V p ino (j + i)) = unat lb + i)"

lemma run_bound:
  assumes mp: "mapped V N p ino n" and run: "is_run V p ino j c lb" and jc: "j + c \<le> n"
  shows "unat lb + c \<le> N"
proof -
  have c: "c - 1 < c" "j + (c - 1) < n" using run jc by (auto simp: is_run_def)
  then have "good_ptr N (file_block V p ino (j + (c - 1)))" using mp unfolding mapped_def by blast
  moreover have "unat (file_block V p ino (j + (c - 1))) = unat lb + (c - 1)" using run c(1) unfolding is_run_def by blast
  ultimately show ?thesis using c unfolding good_ptr_def by linarith
qed

lemma read_run:
  assumes sv: "serves io fs V N s" and mp: "mapped V N p ino n" and run: "is_run V p ino j c lb" and jc: "j + c \<le> n"
  shows "\<exists>s'. read_blocks io fs s lb c = Inr (s', 0, concat (map (blk V p ino) [j..<j + c])) \<and> serves io fs V N s'"
proof -
  have "unat lb + c \<le> N" by (rule run_bound [OF mp run jc])
  moreover have "map V [unat lb..<unat lb + c] = map (blk V p ino) [j..<j + c]"
    by (rule nth_equalityI) (use run in \<open>auto simp: is_run_def blk_def\<close>)
  ultimately show ?thesis using read_blocks_serves [OF sv, of lb c] by auto
qed

lemma run_extend:
  assumes sv: "serves io fs V N s" and mp: "mapped V N p ino n" and run: "is_run V p ino j c lb" and jc: "j + c < n"
    and w: "file_block V p ino (j + c) = lb + of_nat c"
  shows "is_run V p ino j (c + 1) lb" and "c + 1 < 2 ^ 32"
proof -
  have l: "unat lb + c \<le> N" using run_bound [OF mp run] jc by simp
  have "N < 2 ^ 31" by (rule serves_small [OF sv])
  then have lc: "unat lb + c < 2 ^ 32" using l by simp
  then have "unat (lb + of_nat c) = unat lb + c" by (simp add: unat_word_ariths unat_of_nat)
  then show "is_run V p ino j (c + 1) lb" using run w by (auto simp: is_run_def less_Suc_eq)
  show "c + 1 < 2 ^ 32" using l \<open>N < 2 ^ 31\<close> by simp
qed

text \<open>
  What the loop leaves behind when it has moved on to block \<open>e\<close>: the blocks from \<open>j\<close> on are stored up to the last
  run, which is still to be read.
\<close>

definition gathered :: "'d xio \<Rightarrow> fscontext \<Rightarrow> (nat \<Rightarrow> u8 list) \<Rightarrow> nat \<Rightarrow> ino_context \<Rightarrow> nat \<Rightarrow> nat \<Rightarrow> u8 list \<Rightarrow> nat \<Rightarrow>
    'd xs \<times> ino_context \<times> int \<times> u32 \<times> nat \<times> u8 list \<times> nat \<Rightarrow> bool" where
  "gathered io fs V N ino e j dest r = (\<lambda>(s', ino', ret', lb', c', dest', r').
     serves io fs V N s' \<and> same_file ino ino' \<and> block_pos V (bsz fs div 4) ino' e \<and> blockbuf ino' = blockbuf ino \<and>
     (\<exists>j'. is_run V (bsz fs div 4) ino j' c' lb' \<and> j' + c' = e \<and> j \<le> j' \<and>
        dest' = dest @ concat (map (blk V (bsz fs div 4) ino) [j..<j']) \<and> r' = r - (j' - j) * bsz fs))"

lemma gathered_move:
  assumes "gathered io fs V N ino1 e j1 dest1 r1 res" and "same_file ino ino1" and "blockbuf ino1 = blockbuf ino"
    and "j \<le> j1" and "dest1 = dest @ concat (map (blk V (bsz fs div 4) ino) [j..<j1])" and "r1 = r - (j1 - j) * bsz fs"
  shows "gathered io fs V N ino e j dest r res"
proof -
  let ?p = "bsz fs div 4"
  note sf = same_file_addr(3) [OF assms(2), of V ?p]
  have b1: "blk V ?p ino1 = blk V ?p ino" by (simp add: blk_def fun_eq_iff sf)
  obtain s' ino' ret' lb' c' dest' r' where res: "res = (s', ino', ret', lb', c', dest', r')" by (cases res) auto
  obtain j' where j': "is_run V ?p ino1 j' c' lb'" "j' + c' = e" "j1 \<le> j'"
      "dest' = dest1 @ concat (map (blk V ?p ino1) [j1..<j'])" "r' = r1 - (j' - j1) * bsz fs"
    and o: "serves io fs V N s'" "same_file ino1 ino'" "block_pos V ?p ino' e" "blockbuf ino' = blockbuf ino1"
    using assms(1) unfolding gathered_def res by auto
  have "[j..<j'] = [j..<j1] @ [j1..<j']" using assms(4) j'(3) by (metis le_iff_add upt_add_eq_append)
  then have "dest' = dest @ concat (map (blk V ?p ino) [j..<j'])" using j'(4) assms(5) b1 by simp
  moreover have "r' = r - (j' - j) * bsz fs"
  proof -
    have "j' - j = (j1 - j) + (j' - j1)" using assms(4) j'(3) by simp
    then show ?thesis using j'(5) assms(6) by (simp add: add_mult_distrib)
  qed
  moreover have "is_run V ?p ino j' c' lb'" using j'(1) by (simp add: is_run_def sf)
  ultimately show ?thesis unfolding gathered_def res
    using o same_file_trans [OF assms(2) o(2)] assms(3,4) j'(2,3) by auto
qed

lemma gather_ok:
  assumes "serves io fs V N s" and "mapped V N (bsz fs div 4) ino n" and "block_pos V (bsz fs div 4) ino k"
    and "is_run V (bsz fs div 4) ino j c lb" and "j + c = k" and "k + m \<le> n" and "(c + m) * bsz fs \<le> r" and "r < 2 ^ 32"
  shows "\<exists>res. gather_loop m io fs s ino ret lb c dest r = Inr res \<and> gathered io fs V N ino (k + m) j dest r res \<and>
    (m = 0 \<or> 0 \<le> fst (snd (snd res)))"
  using assms
proof (induction m arbitrary: s ino k j c lb r ret dest)
  case 0
  then show ?case by (auto simp: gathered_def)
next
  case (Suc m)
  let ?p = "bsz fs div 4"
  obtain s1 ino1 where n: "next_inode_block io fs s ino = Inr (s1, ino1, 0)" "serves io fs V N s1" "block_pos V ?p ino1 (k + 1)"
      "same_file ino ino1" "blockbuf ino1 = blockbuf ino"
    using next_block [OF Suc.prems(1) refl Suc.prems(2,3)] Suc.prems(6) by auto
  note sf = same_file_addr [OF n(4)]
  have mp1: "mapped V N ?p ino1 n" using Suc.prems(2) sf by simp
  have cur: "current_block_addr ino1 = file_block V ?p ino (j + c)" using n(3) Suc.prems(5) sf by (simp add: block_pos_def)
  have run1: "is_run V ?p ino1 a b d = is_run V ?p ino a b d" for a b d by (simp add: is_run_def sf)
  have km: "k + 1 + m = k + Suc m" by simp
  show ?case
  proof (cases "current_block_addr ino1 = lb + of_nat c")
    case True
    have jn: "j + c < n" "file_block V ?p ino (j + c) = lb + of_nat c" using Suc.prems(5,6) True cur by auto
    note ext = run_extend [OF Suc.prems(1,2,4) jn]
    have r: "is_run V ?p ino1 j (c + 1) lb" using ext run1 by simp
    have c1: "sz_add c 1 = c + 1" using ext(2) by (rule sz_add_no_wrap)
    have "\<exists>res. gather_loop m io fs s1 ino1 0 lb (c + 1) dest r = Inr res \<and> gathered io fs V N ino1 (k + 1 + m) j dest r res \<and>
        (m = 0 \<or> 0 \<le> fst (snd (snd res)))"
      by (rule Suc.IH [OF n(2) mp1 n(3) r]) (use Suc.prems in auto)
    then obtain res where res: "gather_loop m io fs s1 ino1 0 lb (c + 1) dest r = Inr res" "gathered io fs V N ino1 (k + 1 + m) j dest r res"
        "m = 0 \<or> 0 \<le> fst (snd (snd res))" by blast
    have "gathered io fs V N ino (k + Suc m) j dest r res"
      using gathered_move [OF res(2) n(4,5) order.refl] unfolding km by simp
    moreover have "gather_loop (Suc m) io fs s ino ret lb c dest r = Inr res" using n(1) True c1 res(1) by simp
    moreover have "0 \<le> fst (snd (snd res))" using res(1,3) by (cases m) auto
    ultimately show ?thesis by blast
  next
    case False
    obtain s2 where s2: "read_blocks io fs s1 lb c = Inr (s2, 0, concat (map (blk V ?p ino) [j..<j + c]))" "serves io fs V N s2"
      using read_run [OF n(2) Suc.prems(2,4)] Suc.prems(5,6) by auto
    let ?d = "dest @ concat (map (blk V ?p ino) [j..<j + c])" and ?r = "r - c * bsz fs"
    have cb: "c * bsz fs + (1 + m) * bsz fs \<le> r" using Suc.prems(7) by (simp add: algebra_simps)
    then have "sz_mul (bsz fs) c = c * bsz fs" using Suc.prems(8) by (simp add: sz_mul_no_wrap mult.commute)
    moreover have "sz_sub r (c * bsz fs) = ?r" using cb Suc.prems(8) by (intro sz_sub_no_wrap) linarith+
    ultimately have rr: "sz_sub r (sz_mul (to_size (blocksize fs)) c) = ?r"
      using geometry_facts(1) [OF serves_geometry [OF Suc.prems(1)]] by simp
    have one: "is_run V ?p ino1 (j + c) 1 (current_block_addr ino1)" using cur by (simp add: is_run_def sf)
    have "\<exists>res. gather_loop m io fs s2 ino1 0 (current_block_addr ino1) 1 ?d ?r = Inr res \<and>
        gathered io fs V N ino1 (k + 1 + m) (j + c) ?d ?r res \<and> (m = 0 \<or> 0 \<le> fst (snd (snd res)))"
      by (rule Suc.IH [OF s2(2) mp1 n(3) one]) (use Suc.prems cb in auto)
    then obtain res where res: "gather_loop m io fs s2 ino1 0 (current_block_addr ino1) 1 ?d ?r = Inr res"
        "gathered io fs V N ino1 (k + 1 + m) (j + c) ?d ?r res" "m = 0 \<or> 0 \<le> fst (snd (snd res))" by blast
    have "gathered io fs V N ino (k + Suc m) j dest r res"
      using gathered_move [OF res(2) n(4,5)] unfolding km by simp
    moreover have "gather_loop (Suc m) io fs s ino ret lb c dest r = Inr res"
      using n(1) False s2(1) rr res(1) by (simp del: One_nat_def)
    moreover have "0 \<le> fst (snd (snd res))" using res(1,3) by (cases m) auto
    ultimately show ?thesis by blast
  qed
qed

lemma file_end_same: "same_file ino ino' \<Longrightarrow> file_end V p ino' n = file_end V p ino n"
proof -
  assume sf: "same_file ino ino'"
  then have "direct_block_ptrs ino' = direct_block_ptrs ino" "doublyindirecttable ino' = doublyindirecttable ino"
    by (simp_all add: same_file_def)
  then show ?thesis unfolding file_end_def same_file_addr [OF sf] by (simp only:)
qed

text \<open>Reading \<open>count\<close> whole blocks. At the end of the file the position is lost, but the bytes are there.\<close>

lemma read_inode_blocks_ok:
  assumes sv: "serves io fs V N s" and pos: "at_pos V N fs ino n k 0" and count: "0 < count" "k - 1 + count \<le> n"
    and r: "count * bsz fs \<le> r" "r < 2 ^ 32"
    and e: "k - 1 + count = n \<Longrightarrow> r = count * bsz fs \<and> file_end V (bsz fs div 4) ino n"
  shows "\<exists>s' ino'. read_inode_blocks io fs s ino count dest r =
      Inr (s', ino', 0, dest @ concat (map (blk V (bsz fs div 4) ino) [k - 1..<k - 1 + count]), r - count * bsz fs) \<and>
    serves io fs V N s' \<and> same_file ino ino' \<and> (k - 1 + count < n \<longrightarrow> at_pos V N fs ino' n (k + count) 0)"
proof -
  let ?p = "bsz fs div 4" and ?m = "count - 1"
  note g = geometry_facts [OF serves_geometry [OF sv]]
  have k: "0 < k" "mapped V N ?p ino n" "block_pos V ?p ino k" "offset_in_buf (blockbuf ino) = 0" using pos by (auto simp: at_pos_def)
  have km: "k + ?m = k - 1 + count" using k(1) count(1) by simp
  have "count * 1 \<le> count * bsz fs" using g(3) by (intro mult_le_mono2) simp
  then have cm: "sz_sub count 1 = ?m" using r count(1) by (intro sz_sub_no_wrap) linarith+
  have run: "is_run V ?p ino (k - 1) 1 (current_block_addr ino)" using k(1,3) by (simp add: is_run_def block_pos_def)
  have "\<exists>res. gather_loop ?m io fs s ino (- ENOENT) (current_block_addr ino) 1 dest r = Inr res \<and>
      gathered io fs V N ino (k + ?m) (k - 1) dest r res \<and> (?m = 0 \<or> 0 \<le> fst (snd (snd res)))"
    by (rule gather_ok [OF sv k(2,3) run]) (use k(1) count r in auto)
  then obtain s1 ino1 ret1 lb c dest1 r1 where gl: "gather_loop ?m io fs s ino (- ENOENT) (current_block_addr ino) 1 dest r =
        Inr (s1, ino1, ret1, lb, c, dest1, r1)" "?m = 0 \<or> 0 \<le> ret1"
      "gathered io fs V N ino (k - 1 + count) (k - 1) dest r (s1, ino1, ret1, lb, c, dest1, r1)" unfolding km by auto
  then obtain j where o: "serves io fs V N s1" "same_file ino ino1" "block_pos V ?p ino1 (k - 1 + count)" "blockbuf ino1 = blockbuf ino"
    and j: "is_run V ?p ino j c lb" "j + c = k - 1 + count" "k - 1 \<le> j"
      "dest1 = dest @ concat (map (blk V ?p ino) [k - 1..<j])" "r1 = r - (j - (k - 1)) * bsz fs"
    unfolding gathered_def by auto
  obtain s2 where s2: "read_blocks io fs s1 lb c = Inr (s2, 0, concat (map (blk V ?p ino) [j..<j + c]))" "serves io fs V N s2"
    using read_run [OF o(1) k(2) j(1)] j(2) count(2) by auto
  have jc: "j - (k - 1) + c = count" using j(2,3) by simp
  then have cb: "(j - (k - 1)) * bsz fs + c * bsz fs \<le> r" using r(1) by (metis add_mult_distrib)
  have rr: "sz_sub r1 (sz_mul (bsz fs) c) = r - count * bsz fs"
  proof -
    have "sz_mul (bsz fs) c = c * bsz fs" using cb r(2) by (simp add: sz_mul_no_wrap mult.commute)
    moreover have "sz_sub r1 (c * bsz fs) = r1 - c * bsz fs" using cb j(5) r(2) by (intro sz_sub_no_wrap) linarith+
    moreover have "count * bsz fs = (j - (k - 1)) * bsz fs + c * bsz fs" using jc by (metis add_mult_distrib)
    ultimately show ?thesis using j(5) by simp
  qed
  have "[k - 1..<k - 1 + count] = [k - 1..<j] @ [j..<j + c]" using j(2,3) by (metis le_iff_add upt_add_eq_append)
  then have dd: "dest1 @ concat (map (blk V ?p ino) [j..<j + c]) = dest @ concat (map (blk V ?p ino) [k - 1..<k - 1 + count])"
    using j(4) by simp
  let ?s = "xfree (buf (blockbuf ino1)) s2" and ?ino = "ino1\<lparr>blockbuf := (blockbuf ino1)\<lparr>buf := None\<rparr>\<rparr>"
  have io2: "serves io fs V N ?s" "block_pos V ?p ?ino (k - 1 + count)" "mapped V N ?p ?ino n" "same_file ino ?ino"
    using s2(2) o(3) k(2) same_file_addr(4) [OF o(2)] same_file_trans [OF o(2) same_file_blockbuf] by simp_all
  have nf: "\<not> (?m \<noteq> 0 \<and> ret1 < 0)" using gl(2) by auto
  have body: "read_inode_blocks io fs s ino count dest r = bind_res (next_inode_block io fs ?s ?ino) (\<lambda>(s, self, ret).
      Inr (s, self, if ret < 0 \<and> (ret \<noteq> - ENOENT \<or> r - count * bsz fs \<noteq> 0) then ret else 0,
           dest @ concat (map (blk V ?p ino) [k - 1..<k - 1 + count]), r - count * bsz fs))"
    unfolding read_inode_blocks_def cm gl(1) bind_res_Inr prod.case if_not_P [OF nf] s2(1)
    by (simp only: Let_def rr dd g(1) less_irrefl if_False)
  show ?thesis
  proof (cases "k - 1 + count = n")
    case True
    then have "file_end V ?p ?ino n" using e file_end_same [OF io2(4)] by blast
    then obtain s3 ino3 where "next_inode_block io fs ?s ?ino = Inr (s3, ino3, - ENOENT)" "serves io fs V N s3" "same_file ?ino ino3"
      using next_block_end [OF io2(1) refl io2(3)] io2(2) True by auto
    then show ?thesis using body e True same_file_trans [OF io2(4)] by auto
  next
    case False
    then have lt: "k - 1 + count < n" using count(2) by simp
    obtain s3 ino3 where n3: "next_inode_block io fs ?s ?ino = Inr (s3, ino3, 0)" "serves io fs V N s3" "block_pos V ?p ino3 (k - 1 + count + 1)"
        "same_file ?ino ino3" "blockbuf ino3 = blockbuf ?ino"
      using next_block [OF io2(1) refl io2(3,2) lt] by blast
    have "k - 1 + count + 1 = k + count" using k(1) by simp
    then have "at_pos V N fs ino3 n (k + count) 0"
      using n3 lt k(4) o(4) io2(3) same_file_addr(4) [OF n3(4)] by (simp add: at_pos_def)
    then show ?thesis using body n3 lt same_file_trans [OF io2(4) n3(4)] by auto
  qed
qed

subsection \<open>Reading\<close>

lemma read_whole_ok:
  assumes sv: "serves io fs V N s" and pos: "at_pos V N fs ino n k off" and off: "off < bsz fs"
    and r: "(k - 1) * bsz fs + off + r \<le> n * bsz fs" "r < 2 ^ 32" and ret: "0 \<le> ret"
    and e: "r < bsz fs \<or> (k - 1) * bsz fs + off + r < n * bsz fs \<or> file_end V (bsz fs div 4) ino n"
  shows "\<exists>s' ino' ret' m. read_whole io fs s ino ret dest r =
      Inr (s', ino', ret', dest @ take (m * bsz fs) (drop ((k - 1) * bsz fs + off) (content V (bsz fs div 4) ino n)), r - m * bsz fs) \<and>
    0 \<le> ret' \<and> serves io fs V N s' \<and> same_file ino ino' \<and> m * bsz fs \<le> r \<and> (r < bsz fs \<longrightarrow> m = 0) \<and>
    (r < bsz fs \<or> (k - 1) * bsz fs + off + r < n * bsz fs \<or> m * bsz fs \<noteq> r \<longrightarrow> at_pos V N fs ino' n (k + m) off)"
proof (cases "off = 0 \<and> bsz fs \<le> r")
  case False
  note g = geometry_facts [OF serves_geometry [OF sv]]
  have o: "offset_in_buf (blockbuf ino) = int off" using pos by (simp add: at_pos_def)
  have c: "\<not> (offset_in_buf (blockbuf ino) = 0 \<and> to_size (blocksize fs) \<le> r)" using False o g(1) by simp
  have "read_whole io fs s ino ret dest r = Inr (s, ino, ret, dest, r)" unfolding read_whole_def if_not_P [OF c] by (rule refl)
  then show ?thesis using sv pos ret by (intro exI [of _ s] exI [of _ ino] exI [of _ ret] exI [of _ "0 :: nat"]) simp
next
  case True
  let ?p = "bsz fs div 4" and ?c = "r div bsz fs"
  note g = geometry_facts [OF serves_geometry [OF sv]]
  have b0: "0 < bsz fs" using g(3) by linarith
  have k: "0 < k" "mapped V N ?p ino n" using pos by (auto simp: at_pos_def)
  have pos0: "at_pos V N fs ino n k 0" using pos True by simp
  have c0: "0 < ?c" using True b0 by (simp add: div_greater_zero_iff)
  have cb: "?c * bsz fs \<le> r" by simp
  have "(k - 1 + ?c) * bsz fs \<le> n * bsz fs" unfolding add_mult_distrib using r(1) cb True by linarith
  then have kc: "k - 1 + ?c \<le> n" using b0 by simp
  have e': "r = ?c * bsz fs \<and> file_end V ?p ino n" if "k - 1 + ?c = n"
  proof -
    have "(k - 1) * bsz fs + ?c * bsz fs = n * bsz fs" using that by (metis add_mult_distrib)
    then have "r = ?c * bsz fs" using r(1) cb True by linarith
    then show ?thesis using e that True \<open>(k - 1) * bsz fs + ?c * bsz fs = n * bsz fs\<close> by auto
  qed
  obtain s' ino' where rd: "read_inode_blocks io fs s ino ?c dest r =
      Inr (s', ino', 0, dest @ concat (map (blk V ?p ino) [k - 1..<k - 1 + ?c]), r - ?c * bsz fs)"
    and o: "serves io fs V N s'" "same_file ino ino'" "k - 1 + ?c < n \<longrightarrow> at_pos V N fs ino' n (k + ?c) 0"
    using read_inode_blocks_ok [OF sv pos0 c0 kc cb r(2) e'] by blast
  have cond: "offset_in_buf (blockbuf ino) = 0 \<and> to_size (blocksize fs) \<le> r" using True pos g(1) by (simp add: at_pos_def)
  have dv: "div_res r (to_size (blocksize fs)) = Inr ?c" using b0 g(1) by (simp add: div_res_def)
  have "read_whole io fs s ino ret dest r =
      Inr (s', ino', 0, dest @ concat (map (blk V ?p ino) [k - 1..<k - 1 + ?c]), r - ?c * bsz fs)"
    unfolding read_whole_def if_P [OF cond] dv bind_res_Inr rd by simp
  moreover have "concat (map (blk V ?p ino) [k - 1..<k - 1 + ?c]) = take (?c * bsz fs) (drop ((k - 1) * bsz fs + off) (content V ?p ino n))"
    using content_blocks [OF sv k(2) kc] True by simp
  moreover have "k - 1 + ?c < n" if "r < bsz fs \<or> (k - 1) * bsz fs + off + r < n * bsz fs \<or> ?c * bsz fs \<noteq> r"
  proof (rule ccontr)
    assume "\<not> k - 1 + ?c < n"
    then have "k - 1 + ?c = n" using kc by simp
    then have "r = ?c * bsz fs" "(k - 1) * bsz fs + ?c * bsz fs = n * bsz fs" using e' by (metis, metis add_mult_distrib)
    then show False using that True by linarith
  qed
  ultimately show ?thesis using o cb True
    by (intro exI [of _ s'] exI [of _ ino'] exI [of _ "0 :: int"] exI [of _ ?c]) auto
qed

lemma fill_blockbuf_ok:
  assumes sv: "serves io fs V N s" and pos: "at_pos V N fs ino n k off" and ret: "0 \<le> ret"
  shows "\<exists>s' ino' ret'. fill_blockbuf io fs s ino ret = Inr (s', ino', ret') \<and> 0 \<le> ret' \<and> serves io fs V N s' \<and> same_file ino ino' \<and>
    at_pos V N fs ino' n k off \<and> buf (blockbuf ino') = Some (blk V (bsz fs div 4) ino (k - 1))"
proof -
  let ?p = "bsz fs div 4" and ?a = "current_block_addr ino"
  have k: "0 < k" "k \<le> n" "mapped V N ?p ino n" "?a = file_block V ?p ino (k - 1)" using pos by (auto simp: at_pos_def block_pos_def)
  have "good_ptr N ?a" unfolding k(4) using k by (simp add: mapped_def)
  then have a: "unat ?a < N" by (simp add: good_ptr_def)
  have b: "blk V ?p ino (k - 1) = V (unat ?a)" using k(4) by (simp add: blk_def)
  show ?thesis
  proof (cases "buf (blockbuf ino) = None")
    case True
    obtain s' where "readblocks_alloc io fs s ?a 1 = Inr (s', 0, Some (V (unat ?a)))" "serves io fs V N s'"
      using readblocks_alloc_serves [OF sv a] by blast
    then have "fill_blockbuf io fs s ino ret = Inr (s', ino\<lparr>blockbuf := (blockbuf ino)\<lparr>buf := Some (V (unat ?a))\<rparr>\<rparr>, 0)"
      using True by (simp add: fill_blockbuf_def)
    then show ?thesis using \<open>serves io fs V N s'\<close> pos b same_file_blockbuf by (auto simp: at_pos_def)
  next
    case False
    then have "fill_blockbuf io fs s ino ret = Inr (s, ino, ret)" unfolding fill_blockbuf_def by (rule if_not_P)
    then show ?thesis using False pos sv ret b by (auto simp: at_pos_def)
  qed
qed

lemma slice_add: "take (a + b) (drop q xs) = take a (drop q xs) @ take b (drop (q + a) xs)"
  by (simp add: take_add add.commute)

lemma content_same: "same_file ino ino' \<Longrightarrow> content V p ino' n = content V p ino n"
  by (simp add: content_def blk_def same_file_addr(3) cong: map_cong)

text \<open>The rest of an iteration: the bytes of the current block.\<close>

lemma skip_chunk:
  assumes sv: "serves io fs V N s" and pos: "at_pos V N fs ino n k off" and off: "off < bsz fs" and r: "0 < r" "r < 2 ^ 32"
  shows "offset_in_buf (blockbuf ino) < blocksize fs" and "chunk_len fs ino r = min r (bsz fs - off)" and "0 < min r (bsz fs - off)"
    and "at_pos V N fs (advance (min r (bsz fs - off)) ino) n k (off + min r (bsz fs - off))"
proof -
  let ?c = "min r (bsz fs - off)"
  note g = geometry_facts [OF serves_geometry [OF sv]]
  have o: "offset_in_buf (blockbuf ino) = int off" using pos by (auto simp: at_pos_def)
  show "offset_in_buf (blockbuf ino) < blocksize fs" using o g(2) off by simp
  have "blocksize fs - int off = int (bsz fs - off)" using g(2) off by simp
  moreover have "bsz fs - off < 2 ^ 32" using g(4) by simp
  ultimately have "to_size (blocksize fs - int off) = bsz fs - off" by (simp add: to_size_of_nat)
  then show "chunk_len fs ino r = ?c" using o by (simp add: chunk_len_def min_def)
  show "0 < ?c" using off r by simp
  show "at_pos V N fs (advance ?c ino) n k (off + ?c)" using pos off by (auto simp: at_pos_def advance_def)
qed

lemma read_chunk:
  assumes sv: "serves io fs V N s" and pos: "at_pos V N fs ino n k off" and off: "off < bsz fs"
    and b: "buf (blockbuf ino) = Some (blk V (bsz fs div 4) ino (k - 1))"
  shows "copy_out (blockbuf ino) (min r (bsz fs - off)) =
      Inr (take (min r (bsz fs - off)) (drop ((k - 1) * bsz fs + off) (content V (bsz fs div 4) ino n)))"
proof -
  let ?p = "bsz fs div 4" and ?c = "min r (bsz fs - off)"
  have o: "offset_in_buf (blockbuf ino) = int off" "0 < k" "k \<le> n" "mapped V N ?p ino n" using pos by (auto simp: at_pos_def)
  have len: "length (blk V ?p ino (k - 1)) = bsz fs" using blk_len [OF sv o(4), of "k - 1"] o by simp
  have "take ?c (drop ((k - 1) * bsz fs + off) (content V ?p ino n)) = take ?c (drop off (blk V ?p ino (k - 1)))"
    by (rule content_within [OF sv o(4)]) (use o off in auto)
  moreover have "off + ?c \<le> bsz fs" using off by simp
  ultimately show ?thesis using o(1) b len by (simp add: copy_out_def buf_of_def)
qed

lemma advance_same: "same_file ino (advance c ino)"
  by (simp add: advance_def same_file_def)

text \<open>The loop of \<open>read_inode\<close>. The position is known afterwards unless whole blocks were read up to the end of the file.\<close>

lemma read_loop_ok:
  assumes "serves io fs V N s" and "at_pos V N fs ino n k off" and "(k - 1) * bsz fs + off + r \<le> n * bsz fs" and "r < 2 ^ 32"
    and "0 \<le> ret" and "r < bsz fs \<or> (k - 1) * bsz fs + off + r < n * bsz fs \<or> file_end V (bsz fs div 4) ino n"
  shows "\<exists>s' ino' ret'. read_loop io fs s ino ret dest r =
      Inr (s', ino', ret', dest @ take r (drop ((k - 1) * bsz fs + off) (content V (bsz fs div 4) ino n))) \<and> 0 \<le> ret' \<and>
    serves io fs V N s' \<and> same_file ino ino' \<and>
    (r < bsz fs \<or> (k - 1) * bsz fs + off + r < n * bsz fs \<longrightarrow> byte_pos V N fs ino' n ((k - 1) * bsz fs + off + r))"
  using assms
proof (induction r arbitrary: s ino k off ret dest rule: less_induct)
  case (less r)
  let ?p = "bsz fs div 4" and ?b = "bsz fs" and ?q = "(k - 1) * bsz fs + off"
  show ?case
  proof (cases "r = 0")
    case True
    then have "read_loop io fs s ino ret dest r = Inr (s, ino, ret, dest)" by (simp add: read_loop.simps)
    then show ?thesis using True less.prems by (auto simp: byte_pos_def)
  next
    case r0: False
    obtain s1 ino1 k1 off1 ret1 where st: "step_block io fs s ino ret = Inr (s1, ino1, ret1)" "serves io fs V N s1" "same_file ino ino1"
        "at_pos V N fs ino1 n k1 off1" "off1 < ?b" "(k1 - 1) * ?b + off1 = ?q" "ret1 = ret \<or> ret1 = 0"
      using step_block_ok [OF less.prems(1,2), of ret] less.prems(3) r0 by auto
    have ret1: "0 \<le> ret1" using st(7) less.prems(5) by auto
    have q1: "(k1 - 1) * ?b + off1 + r \<le> n * ?b" using st(6) less.prems(3) by simp
    have e1: "r < ?b \<or> (k1 - 1) * ?b + off1 + r < n * ?b \<or> file_end V ?p ino1 n"
      using st(6) less.prems(6) file_end_same [OF st(3)] by simp
    obtain s2 ino2 ret2 m where wh: "read_whole io fs s1 ino1 ret1 dest r =
          Inr (s2, ino2, ret2, dest @ take (m * ?b) (drop ?q (content V ?p ino1 n)), r - m * ?b)"
        "0 \<le> ret2" "serves io fs V N s2" "same_file ino1 ino2" "m * ?b \<le> r" "r < ?b \<longrightarrow> m = 0"
        "r < ?b \<or> ?q + r < n * ?b \<or> m * ?b \<noteq> r \<longrightarrow> at_pos V N fs ino2 n (k1 + m) off1"
      using read_whole_ok [OF st(2,4,5) q1 less.prems(4) ret1 e1, of dest] unfolding st(6) by blast
    have c12: "content V ?p ino1 n = content V ?p ino n" "content V ?p ino2 n = content V ?p ino n"
      using content_same st(3) wh(4) by metis+
    have sf2: "same_file ino ino2" by (rule same_file_trans [OF st(3) wh(4)])
    have k1: "0 < k1" using st(4) by (simp add: at_pos_def)
    have qm: "(k1 + m - 1) * ?b + off1 = ?q + m * ?b"
    proof -
      have "k1 + m - 1 = (k1 - 1) + m" using k1 by simp
      then show ?thesis using st(6) by (simp add: add_mult_distrib)
    qed
    show ?thesis
    proof (cases "r - m * ?b = 0")
      case True
      then have mr: "m * ?b = r" using wh(5) by simp
      have "read_loop io fs s ino ret dest r = Inr (s2, ino2, ret2, dest @ take r (drop ?q (content V ?p ino n)))"
        using r0 st(1) ret1 wh(1,2) True mr c12 by (simp add: read_loop.simps [of io fs s])
      moreover have "byte_pos V N fs ino2 n (?q + r)" if "r < ?b \<or> ?q + r < n * ?b"
      proof -
        have "at_pos V N fs ino2 n (k1 + m) off1" using wh(7) that by blast
        then show ?thesis unfolding byte_pos_def using qm mr by metis
      qed
      ultimately show ?thesis using wh(2,3) sf2 by blast
    next
      case rm: False
      then have pos2: "at_pos V N fs ino2 n (k1 + m) off1" using wh(7) by simp
      obtain s3 ino3 ret3 where fl: "fill_blockbuf io fs s2 ino2 ret2 = Inr (s3, ino3, ret3)" "0 \<le> ret3" "serves io fs V N s3"
          "same_file ino2 ino3" "at_pos V N fs ino3 n (k1 + m) off1" "buf (blockbuf ino3) = Some (blk V ?p ino2 (k1 + m - 1))"
        using fill_blockbuf_ok [OF wh(3) pos2 wh(2)] by blast
      have b3: "buf (blockbuf ino3) = Some (blk V ?p ino3 (k1 + m - 1))" using fl(6) same_file_addr(3) [OF fl(4), of V ?p] by (simp add: blk_def)
      define r2 where "r2 = r - m * ?b"
      define c where "c = min r2 (?b - off1)"
      have r2: "0 < r2" "r2 < 2 ^ 32" "m * ?b + r2 = r" using rm less.prems(4) wh(5) by (auto simp: r2_def)
      have sf3: "same_file ino ino3" by (rule same_file_trans [OF sf2 fl(4)])
      have c3: "content V ?p ino3 n = content V ?p ino n" by (rule content_same [OF sf3])
      note ch = skip_chunk [OF fl(3,5) st(5) r2(1,2), folded c_def]
      note cp = read_chunk [OF fl(3,5) st(5) b3, of r2, folded c_def, unfolded qm c3]
      let ?d = "dest @ take (m * ?b) (drop ?q (content V ?p ino n)) @ take c (drop (?q + m * ?b) (content V ?p ino n))"
      have step: "read_loop io fs s ino ret dest r = read_loop io fs s3 (advance c ino3) ret3 ?d (r2 - c)"
        using r0 st(1) ret1 wh(1,2) rm fl(1,2) ch(1,2,3) cp c12 unfolding r2_def [symmetric]
        by (simp add: read_loop.simps [of io fs s])
      have cr: "c \<le> r2" by (simp add: c_def)
      have pos': "?q + m * ?b + c = (k1 + m - 1) * ?b + (off1 + c)" using qm by simp
      have end': "(k1 + m - 1) * ?b + (off1 + c) + (r2 - c) = ?q + r" using qm cr r2(3) by linarith
      have "\<exists>s' ino' ret'. read_loop io fs s3 (advance c ino3) ret3 ?d (r2 - c) =
          Inr (s', ino', ret', ?d @ take (r2 - c) (drop ((k1 + m - 1) * ?b + (off1 + c)) (content V ?p (advance c ino3) n))) \<and> 0 \<le> ret' \<and>
        serves io fs V N s' \<and> same_file (advance c ino3) ino' \<and>
        (r2 - c < ?b \<or> (k1 + m - 1) * ?b + (off1 + c) + (r2 - c) < n * ?b \<longrightarrow>
          byte_pos V N fs ino' n ((k1 + m - 1) * ?b + (off1 + c) + (r2 - c)))"
      proof (rule less.IH)
        show "r2 - c < r" using ch(3) cr r2 by linarith
        show "serves io fs V N s3" "0 \<le> ret3" by (rule fl)+
        show "at_pos V N fs (advance c ino3) n (k1 + m) (off1 + c)" by (rule ch(4))
        show "(k1 + m - 1) * ?b + (off1 + c) + (r2 - c) \<le> n * ?b" unfolding end' by (rule less.prems(3))
        show "r2 - c < 2 ^ 32" using r2 by simp
        show "r2 - c < ?b \<or> (k1 + m - 1) * ?b + (off1 + c) + (r2 - c) < n * ?b \<or> file_end V ?p (advance c ino3) n"
          unfolding end' using less.prems(6) r2(3) cr file_end_same [OF same_file_trans [OF sf3 advance_same]] by auto
      qed
      then obtain s' ino' ret' where fin: "read_loop io fs s3 (advance c ino3) ret3 ?d (r2 - c) =
            Inr (s', ino', ret', ?d @ take (r2 - c) (drop (?q + m * ?b + c) (content V ?p ino n)))" "0 \<le> ret'" "serves io fs V N s'"
          "same_file (advance c ino3) ino'" "r2 - c < ?b \<or> ?q + r < n * ?b \<longrightarrow> byte_pos V N fs ino' n (?q + r)"
        unfolding end' pos' content_same [OF same_file_trans [OF sf3 advance_same]] by blast
      have "?d @ take (r2 - c) (drop (?q + m * ?b + c) (content V ?p ino n)) = dest @ take r (drop ?q (content V ?p ino n))"
      proof -
        have "r = m * ?b + (c + (r2 - c))" using r2(3) cr by simp
        then show ?thesis by (simp only: slice_add append.assoc add.assoc)
      qed
      then show ?thesis using step fin same_file_trans [OF sf3 same_file_trans [OF advance_same fin(4)]] r2(3) by auto
    qed
  qed
qed

lemma read_ok:
  assumes sv: "serves io fs V N s" and pos: "byte_pos V N fs ino n q" and r: "q + len \<le> n * bsz fs" "len \<le> STREAM_MAX_TRANSFER_SIZE"
    and e: "len < bsz fs \<or> q + len < n * bsz fs \<or> file_end V (bsz fs div 4) ino n"
  shows "\<exists>s' ino' ret'. read_inode io fs s ino len = Inr (s', ino', ret', take len (drop q (content V (bsz fs div 4) ino n))) \<and> 0 \<le> ret' \<and>
    serves io fs V N s' \<and> same_file ino ino' \<and> (len < bsz fs \<or> q + len < n * bsz fs \<longrightarrow> byte_pos V N fs ino' n (q + len))"
proof -
  obtain k off where k: "at_pos V N fs ino n k off" and q: "q = (k - 1) * bsz fs + off" using pos unfolding byte_pos_def by blast
  have l: "len < 2 ^ 32" using r(2) by (simp add: STREAM_MAX_TRANSFER_SIZE_def)
  have "read_inode io fs s ino len = read_loop io fs s ino 0 [] len" using r(2) by (simp add: read_inode_def)
  then show ?thesis using read_loop_ok [OF sv k _ l, of 0 "[]"] r(1) e unfolding q by simp
qed

subsection \<open>Skipping and seeking\<close>

lemma skip_blocks_ok:
  assumes "serves io fs V N s" and "mapped V N (bsz fs div 4) ino n" and "block_pos V (bsz fs div 4) ino k" and "k + m \<le> n" and "0 \<le> ret"
  shows "\<exists>s' ino' ret'. skip_blocks m io fs s ino ret = Inr (s', ino', ret') \<and> 0 \<le> ret' \<and> serves io fs V N s' \<and> same_file ino ino' \<and>
    block_pos V (bsz fs div 4) ino' (k + m) \<and> blockbuf ino' = blockbuf ino"
  using assms
proof (induction m arbitrary: s ino k ret)
  case 0
  then show ?case by auto
next
  case (Suc m)
  let ?p = "bsz fs div 4"
  obtain s1 ino1 where n: "next_inode_block io fs s ino = Inr (s1, ino1, 0)" "serves io fs V N s1" "block_pos V ?p ino1 (k + 1)"
      "same_file ino ino1" "blockbuf ino1 = blockbuf ino"
    using next_block [OF Suc.prems(1) refl Suc.prems(2,3)] Suc.prems(4) by auto
  have "mapped V N ?p ino1 n" using Suc.prems(2) same_file_addr(4) [OF n(4)] by simp
  then obtain s' ino' ret' where "skip_blocks m io fs s1 ino1 0 = Inr (s', ino', ret')" "0 \<le> ret'" "serves io fs V N s'" "same_file ino1 ino'"
      "block_pos V ?p ino' (k + 1 + m)" "blockbuf ino' = blockbuf ino1"
    using Suc.IH [OF n(2) _ n(3), of 0] Suc.prems(4) by auto
  then show ?case using n same_file_trans [OF n(4)] by auto
qed

text \<open>Stepping over more blocks than there are reports the end of the file.\<close>

lemma skip_blocks_end:
  assumes "serves io fs V N s" and "mapped V N (bsz fs div 4) ino n" and "block_pos V (bsz fs div 4) ino k" and "k \<le> n" and "n < k + m"
    and "file_end V (bsz fs div 4) ino n"
  shows "\<exists>s' ino'. skip_blocks m io fs s ino ret = Inr (s', ino', - ENOENT) \<and> serves io fs V N s'"
  using assms
proof (induction m arbitrary: s ino k ret)
  case (Suc m)
  let ?p = "bsz fs div 4"
  show ?case
  proof (cases "k = n")
    case True
    then obtain s1 ino1 where "next_inode_block io fs s ino = Inr (s1, ino1, - ENOENT)" "serves io fs V N s1"
      using next_block_end [OF Suc.prems(1) refl Suc.prems(2)] Suc.prems(3,6) by blast
    then show ?thesis by (simp add: ENOENT_def)
  next
    case False
    then obtain s1 ino1 where n: "next_inode_block io fs s ino = Inr (s1, ino1, 0)" "serves io fs V N s1" "block_pos V ?p ino1 (k + 1)"
        "same_file ino ino1"
      using next_block [OF Suc.prems(1) refl Suc.prems(2,3)] Suc.prems(4) by auto
    have "mapped V N ?p ino1 n" "file_end V ?p ino1 n"
      using Suc.prems(2,6) same_file_addr(4) [OF n(4)] file_end_same [OF n(4)] by auto
    then show ?thesis using Suc.IH [OF n(2) _ n(3), of 0] n(1) Suc.prems(4,5) False by auto
  qed
qed simp

lemma skip_whole_ok:
  assumes sv: "serves io fs V N s" and pos: "at_pos V N fs ino n k off" and off: "off < bsz fs" and ret: "0 \<le> ret"
    and r: "r < 2 ^ 32" "r < bsz fs \<or> (k - 1) * bsz fs + off + r < n * bsz fs"
  shows "\<exists>s' ino' ret' m. skip_whole io fs s ino ret r = Inr (s', ino', ret', r - m * bsz fs) \<and>
    0 \<le> ret' \<and> serves io fs V N s' \<and> same_file ino ino' \<and> m * bsz fs \<le> r \<and> at_pos V N fs ino' n (k + m) off"
proof (cases "off = 0 \<and> bsz fs \<le> r")
  case False
  note g = geometry_facts [OF serves_geometry [OF sv]]
  have o: "offset_in_buf (blockbuf ino) = int off" using pos by (simp add: at_pos_def)
  have c: "\<not> (offset_in_buf (blockbuf ino) = 0 \<and> to_size (blocksize fs) \<le> r)" using False o g(1) by simp
  have "skip_whole io fs s ino ret r = Inr (s, ino, ret, r)" unfolding skip_whole_def if_not_P [OF c] by (rule refl)
  then show ?thesis using sv pos ret by (intro exI [of _ s] exI [of _ ino] exI [of _ ret] exI [of _ "0 :: nat"]) simp
next
  case True
  let ?p = "bsz fs div 4" and ?c = "r div bsz fs"
  note g = geometry_facts [OF serves_geometry [OF sv]]
  have b0: "0 < bsz fs" using g(3) by linarith
  have k: "0 < k" "mapped V N ?p ino n" "block_pos V ?p ino k" using pos by (auto simp: at_pos_def)
  have cb: "?c * bsz fs \<le> r" by simp
  have "(k - 1 + ?c) * bsz fs < n * bsz fs" unfolding add_mult_distrib using r(2) cb True by linarith
  then have "k - 1 + ?c < n" by simp
  then have kc: "k + ?c \<le> n" using k(1) by simp
  obtain s1 ino1 ret1 where sk: "skip_blocks ?c io fs s ino ret = Inr (s1, ino1, ret1)" "0 \<le> ret1" "serves io fs V N s1" "same_file ino ino1"
      "block_pos V ?p ino1 (k + ?c)" "blockbuf ino1 = blockbuf ino"
    using skip_blocks_ok [OF sv k(2,3) kc ret] by blast
  have cond: "offset_in_buf (blockbuf ino) = 0 \<and> to_size (blocksize fs) \<le> r" using True pos g(1) by (simp add: at_pos_def)
  have dv: "div_res r (to_size (blocksize fs)) = Inr ?c" using b0 g(1) by (simp add: div_res_def)
  have "bsz fs * ?c < 2 ^ 32" by (rule le_less_trans [OF _ r(1)]) simp
  then have "sz_mul (bsz fs) ?c = ?c * bsz fs" by (simp add: sz_mul_no_wrap mult.commute)
  moreover have "sz_sub r (?c * bsz fs) = r - ?c * bsz fs" using cb r(1) by (rule sz_sub_no_wrap)
  ultimately have rr: "sz_sub r (sz_mul (to_size (blocksize fs)) ?c) = r - ?c * bsz fs" using g(1) by simp
  let ?ino = "ino1\<lparr>blockbuf := (blockbuf ino1)\<lparr>buf := None\<rparr>\<rparr>"
  have nn: "\<not> ret1 < 0" using sk(2) by simp
  have "skip_whole io fs s ino ret r = Inr (xfree (buf (blockbuf ino1)) s1, ?ino, ret1, r - ?c * bsz fs)"
    unfolding skip_whole_def if_P [OF cond] dv bind_res_Inr sk(1) prod.case if_not_P [OF nn] Let_def rr by (rule refl)
  moreover have "at_pos V N fs ?ino n (k + ?c) off"
    using pos sk(5,6) kc same_file_addr(4) [OF sk(4)] by (simp add: at_pos_def)
  moreover have "same_file ino ?ino" by (rule same_file_trans [OF sk(4) same_file_blockbuf])
  ultimately show ?thesis using sk(2,3) cb
    by (intro exI [of _ "xfree (buf (blockbuf ino1)) s1"] exI [of _ ?ino] exI [of _ ret1] exI [of _ ?c]) simp
qed

lemma skip_loop_ok:
  assumes "serves io fs V N s" and "at_pos V N fs ino n k off" and "(k - 1) * bsz fs + off + r \<le> n * bsz fs" and "r < 2 ^ 32"
    and "0 \<le> ret" and "r < bsz fs \<or> (k - 1) * bsz fs + off + r < n * bsz fs"
  shows "\<exists>s' ino' ret'. skipread_loop io fs s ino ret r = Inr (s', ino', ret') \<and> 0 \<le> ret' \<and>
    serves io fs V N s' \<and> same_file ino ino' \<and> byte_pos V N fs ino' n ((k - 1) * bsz fs + off + r)"
  using assms
proof (induction r arbitrary: s ino k off ret rule: less_induct)
  case (less r)
  let ?p = "bsz fs div 4" and ?b = "bsz fs" and ?q = "(k - 1) * bsz fs + off"
  show ?case
  proof (cases "r = 0")
    case True
    then have "skipread_loop io fs s ino ret r = Inr (s, ino, ret)" by (simp add: skipread_loop.simps)
    then show ?thesis using True less.prems by (auto simp: byte_pos_def)
  next
    case r0: False
    obtain s1 ino1 k1 off1 ret1 where st: "step_block io fs s ino ret = Inr (s1, ino1, ret1)" "serves io fs V N s1" "same_file ino ino1"
        "at_pos V N fs ino1 n k1 off1" "off1 < ?b" "(k1 - 1) * ?b + off1 = ?q" "ret1 = ret \<or> ret1 = 0"
      using step_block_ok [OF less.prems(1,2), of ret] less.prems(3) r0 by auto
    have ret1: "0 \<le> ret1" using st(7) less.prems(5) by auto
    have e1: "r < ?b \<or> (k1 - 1) * ?b + off1 + r < n * ?b" using st(6) less.prems(6) by simp
    obtain s2 ino2 ret2 m where wh: "skip_whole io fs s1 ino1 ret1 r = Inr (s2, ino2, ret2, r - m * ?b)"
        "0 \<le> ret2" "serves io fs V N s2" "same_file ino1 ino2" "m * ?b \<le> r" "at_pos V N fs ino2 n (k1 + m) off1"
      using skip_whole_ok [OF st(2,4,5) ret1 less.prems(4) e1] by blast
    have sf2: "same_file ino ino2" by (rule same_file_trans [OF st(3) wh(4)])
    have k1: "0 < k1" using st(4) by (simp add: at_pos_def)
    have "k1 + m - 1 = (k1 - 1) + m" using k1 by simp
    then have qm: "(k1 + m - 1) * ?b + off1 = ?q + m * ?b" using st(6) by (simp add: add_mult_distrib)
    show ?thesis
    proof (cases "r - m * ?b = 0")
      case True
      then have "m * ?b = r" using wh(5) by simp
      then have "byte_pos V N fs ino2 n (?q + r)" unfolding byte_pos_def using wh(6) qm by metis
      moreover have "skipread_loop io fs s ino ret r = Inr (s2, ino2, ret2)"
        using r0 st(1) ret1 wh(1,2) True by (simp add: skipread_loop.simps [of io fs s])
      ultimately show ?thesis using wh(2,3) sf2 by blast
    next
      case rm: False
      define r2 where "r2 = r - m * ?b"
      define c where "c = min r2 (?b - off1)"
      have r2: "0 < r2" "r2 < 2 ^ 32" "m * ?b + r2 = r" using rm less.prems(4) wh(5) by (auto simp: r2_def)
      note ch = skip_chunk [OF wh(3,6) st(5) r2(1,2), folded c_def]
      have step: "skipread_loop io fs s ino ret r = skipread_loop io fs s2 (advance c ino2) ret2 (r2 - c)"
        using r0 st(1) ret1 wh(1,2) rm ch(1,2,3) unfolding r2_def [symmetric] by (simp add: skipread_loop.simps [of io fs s])
      have cr: "c \<le> r2" by (simp add: c_def)
      have end': "(k1 + m - 1) * ?b + (off1 + c) + (r2 - c) = ?q + r" using qm cr r2(3) by linarith
      have "\<exists>s' ino' ret'. skipread_loop io fs s2 (advance c ino2) ret2 (r2 - c) = Inr (s', ino', ret') \<and> 0 \<le> ret' \<and>
        serves io fs V N s' \<and> same_file (advance c ino2) ino' \<and> byte_pos V N fs ino' n ((k1 + m - 1) * ?b + (off1 + c) + (r2 - c))"
      proof (rule less.IH)
        show "r2 - c < r" using ch(3) cr r2 by linarith
        show "serves io fs V N s2" "0 \<le> ret2" by (rule wh)+
        show "at_pos V N fs (advance c ino2) n (k1 + m) (off1 + c)" by (rule ch(4))
        show "(k1 + m - 1) * ?b + (off1 + c) + (r2 - c) \<le> n * ?b" unfolding end' by (rule less.prems(3))
        show "r2 - c < 2 ^ 32" using r2 by simp
        show "r2 - c < ?b \<or> (k1 + m - 1) * ?b + (off1 + c) + (r2 - c) < n * ?b"
          unfolding end' using less.prems(6) r2(3) cr by auto
      qed
      then show ?thesis unfolding end' step using same_file_trans [OF sf2 same_file_trans [OF advance_same]] by blast
    qed
  qed
qed

lemma skip_ok:
  assumes sv: "serves io fs V N s" and pos: "byte_pos V N fs ino n q" and r: "q + len \<le> n * bsz fs" "len \<le> STREAM_MAX_TRANSFER_SIZE"
    and e: "len < bsz fs \<or> q + len < n * bsz fs"
  shows "\<exists>s' ino' ret'. skipread_inode io fs s ino len = Inr (s', ino', ret') \<and> 0 \<le> ret' \<and>
    serves io fs V N s' \<and> same_file ino ino' \<and> byte_pos V N fs ino' n (q + len)"
proof -
  obtain k off where k: "at_pos V N fs ino n k off" and q: "q = (k - 1) * bsz fs + off" using pos unfolding byte_pos_def by blast
  have l: "len < 2 ^ 32" using r(2) by (simp add: STREAM_MAX_TRANSFER_SIZE_def)
  have "skipread_inode io fs s ino len = skipread_loop io fs s ino 0 len" using r(2) by (simp add: skipread_inode_def)
  then show ?thesis using skip_loop_ok [OF sv k _ l, of 0] r(1) e unfolding q by simp
qed

lemma serves_free_bufs [simp]: "serves io fs V N (free_bufs ino s) = serves io fs V N s"
  by (simp add: free_bufs_def)

lemma rewind_ok:
  assumes sv: "serves io fs V N s" and mp: "mapped V N (bsz fs div 4) ino n" and n: "0 < n"
  shows "\<exists>s' ino'. rewindinode io fs s ino = Inr (s', ino') \<and> serves io fs V N s' \<and> same_file ino ino' \<and> at_pos V N fs ino' n 1 0"
proof -
  let ?p = "bsz fs div 4"
  define ino1 where ino1: "ino1 = ino\<lparr>blockbuf := no_buf, singly_indirect_buf := no_buf, doubly_indirect_buf := no_buf,
                      triply_indirect_buf := no_buf, current_block_addr := 0, next_direct_ptr_index := 0,
                      singly_indirect_used := False, doubly_indirect_used := False, triply_indirect_used := False,
                      cnt := 0\<rparr>"
  have sf: "same_file ino ino1" by (simp add: ino1 same_file_def)
  have bp: "block_pos V ?p ino1 0" by (simp add: block_pos_def singly_pos_def doubly_pos_def triply_pos_def ino1)
  have m1: "mapped V N ?p ino1 n" using mp same_file_addr(4) [OF sf] by simp
  obtain s' ino' where n: "next_inode_block io fs (free_bufs ino s) ino1 = Inr (s', ino', 0)" "serves io fs V N s'" "block_pos V ?p ino' 1"
      "same_file ino1 ino'" "blockbuf ino' = blockbuf ino1"
    using next_block [OF _ refl m1 bp n, of io "free_bufs ino s"] sv by auto
  have "rewindinode io fs s ino = Inr (s', ino')" using n(1) unfolding rewindinode_def Let_def ino1 [symmetric] by simp
  moreover have "at_pos V N fs ino' n 1 0"
    using n assms(3) m1 same_file_addr(4) [OF n(4)] by (simp add: at_pos_def ino1 no_buf_def)
  ultimately show ?thesis using n(2) same_file_trans [OF sf n(4)] by blast
qed

text \<open>The offset fits a single call of \<open>skipread_inode\<close>.\<close>

lemma seek_ok:
  assumes sv: "serves io fs V N s" and mp: "mapped V N (bsz fs div 4) ino n"
    and q: "q < n * bsz fs" "q \<le> STREAM_MAX_TRANSFER_SIZE"
  shows "\<exists>s' ino' ret. seek_inode io fs s ino (int q) SEEK_SET = Inr (s', ino', ret) \<and> 0 \<le> ret \<and> serves io fs V N s' \<and> same_file ino ino' \<and>
    byte_pos V N fs ino' n q"
proof -
  have n: "0 < n" using q(1) by (cases n) auto
  obtain s1 ino1 where rw: "rewindinode io fs s ino = Inr (s1, ino1)" "serves io fs V N s1" "same_file ino ino1" "at_pos V N fs ino1 n 1 0"
    using rewind_ok [OF sv mp n] by blast
  have bp: "byte_pos V N fs ino1 n 0" unfolding byte_pos_def using rw(4) by (intro exI [of _ 1] exI [of _ 0]) simp
  have sk: "seek_inode io fs s ino (int q) SEEK_SET = seek_set_loop io fs s1 ino1 0 (int q)" using rw(1) by (simp add: seek_inode_def)
  show ?thesis
  proof (cases "q = 0")
    case True
    then show ?thesis using sk rw(2,3) bp by (auto simp: seek_set_loop.simps)
  next
    case False
    obtain s' ino' ret where o: "skipread_inode io fs s1 ino1 q = Inr (s', ino', ret)" "0 \<le> ret" "serves io fs V N s'" "same_file ino1 ino'"
        "byte_pos V N fs ino' n q"
      using skip_ok [OF rw(2) bp, of q] q by auto
    have small: "\<not> int size_max < int q" using q(2) by (simp add: size_max_def STREAM_MAX_TRANSFER_SIZE_def)
    have ts: "to_size (int q) = q" using q(2) by (intro to_size_of_nat) (simp add: STREAM_MAX_TRANSFER_SIZE_def)
    have "seek_set_loop io fs s1 ino1 0 (int q) = seek_set_loop io fs s' ino' ret 0"
      using False small ts o(1,2) by (subst seek_set_loop.simps) (simp add: Let_def ENOENT_def)
    then show ?thesis using sk o same_file_trans [OF rw(3) o(4)] by (auto simp: seek_set_loop.simps)
  qed
qed

lemma seek_end_ok:
  assumes sv: "serves io fs V N s" and mp: "mapped V N (bsz fs div 4) ino n" and n: "0 < n"
    and q: "n * bsz fs \<le> STREAM_MAX_TRANSFER_SIZE" and e: "file_end V (bsz fs div 4) ino n"
  shows "seek_inode io fs s ino (int (n * bsz fs)) SEEK_SET = Inl Assert_fail"
proof -
  let ?p = "bsz fs div 4" and ?q = "n * bsz fs"
  note g = geometry_facts [OF serves_geometry [OF sv]]
  obtain s1 ino1 where rw: "rewindinode io fs s ino = Inr (s1, ino1)" "serves io fs V N s1" "same_file ino ino1" "at_pos V N fs ino1 n 1 0"
    using rewind_ok [OF sv mp n] by blast
  have b: "0 < bsz fs" "bsz fs \<le> ?q" "0 < ?q" using g(3) n by auto
  have p1: "offset_in_buf (blockbuf ino1) = 0" "block_pos V ?p ino1 1" "mapped V N ?p ino1 n" using rw(4) by (auto simp: at_pos_def)
  obtain s' ino' where sk: "skip_blocks n io fs s1 ino1 0 = Inr (s', ino', - ENOENT)"
    using skip_blocks_end [OF rw(2) p1(3,2), of n 0] n e file_end_same [OF rw(3)] by auto
  have step: "step_block io fs s1 ino1 0 = Inr (s1, ino1, 0)" using p1(1) g(2) b(1) by (simp add: step_block_def)
  have "div_res ?q (to_size (blocksize fs)) = Inr n" using g(1) b(1) by (simp add: div_res_def)
  moreover have cond: "offset_in_buf (blockbuf ino1) = 0 \<and> to_size (blocksize fs) \<le> ?q" using p1(1) g(1) b(2) by simp
  ultimately have wh: "skip_whole io fs s1 ino1 0 ?q = Inr (s', ino', - ENOENT, ?q)"
    unfolding skip_whole_def if_P [OF cond] by (simp add: sk ENOENT_def)
  have "skipread_inode io fs s1 ino1 ?q = Inr (s', ino', - ENOENT)"
    using q b(3) step wh by (simp add: skipread_inode_def skipread_loop.simps [of io fs s1] ENOENT_def)
  moreover have "\<not> int size_max < int ?q" using q by (simp add: size_max_def STREAM_MAX_TRANSFER_SIZE_def del: of_nat_mult)
  moreover have "to_size (int ?q) = ?q" using q by (intro to_size_of_nat) (simp add: STREAM_MAX_TRANSFER_SIZE_def)
  ultimately have "seek_set_loop io fs s1 ino1 0 (int ?q) = Inl Assert_fail"
    using b(3) by (subst seek_set_loop.simps) (simp add: Let_def del: of_nat_mult)
  then show ?thesis using rw(1) by (simp add: seek_inode_def)
qed

end
