(* ===== verification/Ext2_Fs.thy ===== *)
theory Ext2_Fs
  imports Ext2_Read Vfs
begin

text \<open>
  The ext2 driver (kernel/fs/fs_ext2.c), part two: directories, path lookup, open files and mounting. A loop that ends
  only when the disk says so (\<open>while (1)\<close> over directory entries) is a partial function: \<open>None\<close> is a loop that never
  ends.
\<close>

subsection \<open>Directories\<close>

definition REQUIRED_FEATUREFLAG_DIRENTRY_CONTAINS_TYPE_FIELD :: u32 where
  "REQUIRED_FEATUREFLAG_DIRENTRY_CONTAINS_TYPE_FIELD = push_bit 1 1"

definition INODE_TYPE_MASK :: u16 where "INODE_TYPE_MASK = 0xf000"
definition INODE_TYPE_DIRECTORY :: u16 where "INODE_TYPE_DIRECTORY = 0x4000"

record dirent =
  d_ino :: nat
  d_name :: "u8 list"

definition no_dirent :: dirent where
  "no_dirent = \<lparr>d_ino = 0, d_name = replicate (NAME_MAX + 1) 0\<rparr>"

text \<open>The name buffer after \<open>name\<close> was stored at its start.\<close>

definition put_name :: "u8 list \<Rightarrow> dirent \<Rightarrow> dirent" where
  "put_name name e = e\<lparr>d_name := name @ drop (length name) (d_name e)\<rparr>"

text \<open>One round of the loop of \<open>read_directory\<close>; the last component tells whether there is another one.\<close>

definition read_entry :: "'d xio \<Rightarrow> fscontext \<Rightarrow> 'd xs \<Rightarrow> ino_context \<Rightarrow> ('d xs \<times> ino_context \<times> int \<times> dirent \<times> bool) res" where
  "read_entry io fs s ino =
     bind_res (read_inode io fs s ino 8) (\<lambda>(s, ino, ret, header).
     if ret < 0 then Inr (s, ino, ret, no_dirent, False)
     else
       bind_res (u32le_at (drop 0x0 header)) (\<lambda>d.
       bind_res (u16le_at (drop 0x4 header)) (\<lambda>esz.
       bind_res (load header 0x6) (\<lambda>nl.
       let out = no_dirent\<lparr>d_ino := unat d\<rparr>; entrysize = unat esz; namelen = unat nl in
       bind_res (if required_features fs AND REQUIRED_FEATUREFLAG_DIRENTRY_CONTAINS_TYPE_FIELD = 0 then load header 0x7 else Inr 0) (\<lambda>hi.
       if hi \<noteq> 0 then Inr (s, ino, - ENAMETOOLONG, out, False)
       else
         bind_res (read_inode io fs s ino namelen) (\<lambda>(s, ino, ret, name).
         let out = put_name name out in
         if ret < 0 then Inr (s, ino, ret, out, False)
         else
           (let readlen = namelen + 8; skiplen = sz_sub entrysize readlen in
            bind_res (skipread_inode io fs s ino skiplen) (\<lambda>(s, ino, ret).
            if ret < 0 then Inr (s, ino, ret, out, False) else Inr (s, ino, ret, out, d_ino out = 0)))))))))"

partial_function (option) read_directory :: "'d xio \<Rightarrow> fscontext \<Rightarrow> 'd xs \<Rightarrow> ino_context \<Rightarrow> ('d xs \<times> ino_context \<times> int \<times> dirent) res option" where
  "read_directory io fs s ino =
     (case read_entry io fs s ino of
        Inl e \<Rightarrow> Some (Inl e)
      | Inr (s, ino, ret, out, again) \<Rightarrow>
          if again then read_directory io fs s ino else Some (Inr (s, ino, ret, out)))"

declare read_directory.simps [code]

text \<open>The directory is its inode; \<open>None\<close> is the null pointer.\<close>

definition open_directory :: "'d xio \<Rightarrow> fscontext \<Rightarrow> 'd xs \<Rightarrow> nat \<Rightarrow> ('d xs \<times> int \<times> ino_context option) res" where
  "open_directory io self s inode =
     (let (s, ok) = xalloc io s in
      if \<not> ok then Inr (s, - ENOMEM, None)
      else
        bind_res (openinode io True self s inode) (\<lambda>(s, ret, ino).
        if ret < 0 then Inr (xfree (Some ()) s, ret, None)
        else
          (case ino of None \<Rightarrow> Inl Null_deref
           | Some i \<Rightarrow>
               if typeandpermissions i AND INODE_TYPE_MASK \<noteq> INODE_TYPE_DIRECTORY
               then Inr (xfree (Some ()) (closeinode (Some i) s), - ENOTDIR, None)
               else Inr (s, ret, Some i))))"

definition close_directory :: "ino_context option \<Rightarrow> 'd xs \<Rightarrow> 'd xs" where
  "close_directory self s = (case self of None \<Rightarrow> s | Some i \<Rightarrow> xfree (Some ()) (closeinode (Some i) s))"

subsection \<open>Files and paths\<close>

definition openfile :: "'d xio \<Rightarrow> bool \<Rightarrow> fscontext \<Rightarrow> 'd xs \<Rightarrow> nat \<Rightarrow> ('d xs \<times> int \<times> ino_context option) res" where
  "openfile io out self s inode =
     bind_res (openinode io out self s inode) (\<lambda>(s, ret, ino).
     bind_res (assert_res (ret \<noteq> - ENOENT)) (\<lambda>_.
     if ret < 0 then Inr (s, ret, None)
     else
       (case ino of None \<Rightarrow> Inl Null_deref
        | Some i \<Rightarrow>
            if typeandpermissions i AND INODE_TYPE_MASK = INODE_TYPE_DIRECTORY
            then Inr (closeinode (Some i) s, - EISDIR, None)
            else Inr (s, ret, Some i))))"

definition closefile :: "ino_context option \<Rightarrow> 'd xs \<Rightarrow> 'd xs" where
  "closefile self s = (case self of None \<Rightarrow> s | Some i \<Rightarrow> closeinode (Some i) s)"

text \<open>
  The search of a directory for \<open>name\<close> (a buffer and a position in it); the result is the directory, the code and
  \<open>current_ino\<close>.
\<close>

partial_function (option) find_entry ::
    "'d xio \<Rightarrow> fscontext \<Rightarrow> 'd xs \<Rightarrow> ino_context \<Rightarrow> u8 list \<times> nat \<Rightarrow> nat \<Rightarrow> ('d xs \<times> ino_context \<times> int \<times> nat) res option" where
  "find_entry io fs s dir name current_ino =
     (case read_directory io fs s dir of
        None \<Rightarrow> None
      | Some (Inl e) \<Rightarrow> Some (Inl e)
      | Some (Inr (s, dir, ret, ent)) \<Rightarrow>
          if ret = - ENOENT then Some (Inr (s, dir, - ENOENT, current_ino))
          else if ret < 0 then Some (Inr (s, dir, ret, current_ino))
          else
            (case kstrcmp (fst name) (snd name) (d_name ent) 0 of
               Inl e \<Rightarrow> Some (Inl e)
             | Inr d \<Rightarrow> if d = 0 then Some (Inr (s, dir, 0, d_ino ent)) else find_entry io fs s dir name (d_ino ent)))"

declare find_entry.simps [code]

function resolve_names :: "'d xio \<Rightarrow> fscontext \<Rightarrow> 'd xs \<Rightarrow> path_reader \<Rightarrow> nat \<Rightarrow> ('d xs \<times> int \<times> nat) res option" where
  "resolve_names io self s reader current_ino =
     (case pathreader_next reader of
        Inl e \<Rightarrow> Some (Inl e)
      | Inr (reader', ret, name) \<Rightarrow>
          if ret = - ENOENT then Some (Inr (s, 0, current_ino))
          else if ret < 0 then Some (Inr (s, ret, current_ino))
          else
            (case name of
               None \<Rightarrow> Some (Inl Null_deref)
             | Some p \<Rightarrow>
                 (case open_directory io self s current_ino of
                    Inl e \<Rightarrow> Some (Inl e)
                  | Inr (s, ret, dir) \<Rightarrow>
                      if ret < 0 then Some (Inr (s, ret, current_ino))
                      else
                        (case dir of
                           None \<Rightarrow> Some (Inl Null_deref)
                         | Some d \<Rightarrow>
                             (case find_entry io self s d (name_loc reader' p) current_ino of
                                None \<Rightarrow> None
                              | Some (Inl e) \<Rightarrow> Some (Inl e)
                              | Some (Inr (s, d, ret, current_ino)) \<Rightarrow>
                                  (let s = close_directory (Some d) s in
                                   if ret < 0 then Some (Inr (s, ret, current_ino))
                                   else resolve_names io self s reader' current_ino))))))"
  by pat_completeness auto
termination
  by (relation "measure (\<lambda>(_, _, _, r, _). length (pr_path r) - remaining_path r)") (auto dest!: pathreader_progress)

declare resolve_names.simps [simp del]

text \<open>\<open>reader0\<close> is the path reader on the stack before its initialisation.\<close>

definition ext2_resolve_path ::
    "'d xio \<Rightarrow> path_reader \<Rightarrow> fscontext \<Rightarrow> 'd xs \<Rightarrow> nat \<Rightarrow> u8 list \<Rightarrow> nat \<Rightarrow> ('d xs \<times> int \<times> nat) res option" where
  "ext2_resolve_path io reader0 self s parent path p = resolve_names io self s (pathreader_init reader0 path p) parent"

record openfdcontext =
  fd_ino :: ino_context
  fd_file :: vfs_file
  cursorpos :: int

text \<open>The result is the return value of type \<open>ssize_t\<close> and the bytes stored in the buffer.\<close>

definition fd_op_read :: "'d xio \<Rightarrow> fscontext \<Rightarrow> 'd xs \<Rightarrow> openfdcontext \<Rightarrow> nat \<Rightarrow> ('d xs \<times> openfdcontext \<times> int \<times> u8 list) res" where
  "fd_op_read io fs s context len =
     bind_res (assert_res (len \<le> STREAM_MAX_TRANSFER_SIZE)) (\<lambda>_.
     let maxlen = ino_size (fd_ino context) - cursorpos context;
         readlen = (if maxlen < int len then to_size maxlen else len) in
     bind_res (read_inode io fs s (fd_ino context) readlen) (\<lambda>(s, ino, ret, bytes).
     bind_res (assert_res (ret \<noteq> - ENOENT)) (\<lambda>_.
     Inr (if ret < 0 then (s, context\<lparr>fd_ino := ino\<rparr>, - 1, bytes)
          else (s, context\<lparr>fd_ino := ino, cursorpos := cursorpos context + int readlen\<rparr>, to_ssize readlen, bytes)))))"

definition fd_op_write :: "u8 list \<Rightarrow> nat \<Rightarrow> int res" where
  "fd_op_write bytes len = bind_res (assert_res (len \<le> STREAM_MAX_TRANSFER_SIZE)) (\<lambda>_. Inr (- EIO))"

definition fd_op_seek :: "'d xio \<Rightarrow> fscontext \<Rightarrow> 'd xs \<Rightarrow> openfdcontext \<Rightarrow> int \<Rightarrow> int \<Rightarrow> ('d xs \<times> openfdcontext \<times> int) res" where
  "fd_op_seek io fs s context offset whence =
     bind_res (seek_inode io fs s (fd_ino context) offset whence) (\<lambda>(s, ino, ret).
     bind_res (assert_res (ret \<noteq> - ENOENT)) (\<lambda>_. Inr (s, context\<lparr>fd_ino := ino\<rparr>, ret)))"

definition fd_op_close :: "openfdcontext \<Rightarrow> 'd xs \<Rightarrow> 'w vfs \<Rightarrow> 'd xs \<times> 'w vfs" where
  "fd_op_close context s v =
     (xfree (Some ()) (closefile (Some (fd_ino context)) s), vfs_unregister_file (Some (fd_file context)) v)"

subsection \<open>Mounting\<close>

definition EXT2_SIGNATURE :: u16 where "EXT2_SIGNATURE = 0xef53"
definition INODE_ROOTDIRECTORY :: nat where "INODE_ROOTDIRECTORY = 2"

definition SUPPORTED_REQUIRED_FLAGS :: u32 where
  "SUPPORTED_REQUIRED_FLAGS = REQUIRED_FEATUREFLAG_DIRENTRY_CONTAINS_TYPE_FIELD"

definition SUPPORTED_RWMOUNT_FLAGS :: u32 where
  "SUPPORTED_RWMOUNT_FLAGS = push_bit 0 1 OR RWMOUNT_FEATUREFLAG_64BIT_FILE_SIZE"

text \<open>A context cleared to zero.\<close>

definition zero_context :: "ldisk \<Rightarrow> pdisk \<Rightarrow> fscontext" where
  "zero_context disk pd =
     \<lparr>superblock_block_num = 0, total_inodes = 0, total_blocks = 0, total_unallocated_blocks = 0,
      total_unallocated_inodes = 0, reserved_blocks_for_su = 0, blocksize = 0, blocks_in_block_group = 0,
      inodes_in_block_group = 0, last_mount_time = 0, last_written_time = 0, mounts_since_last_fsck = 0,
      mounts_before_fsck_required = 0, signature = 0, fs_state = 0, err_action = 0, minor_ver = 0,
      last_fsck_time = 0, fsck_interval = 0, creator_os_id = 0, major_ver = 0, reserved_block_uid = 0,
      reserved_block_gid = 0, block_group = 0, first_non_reserved_inode = 0, inode_size = 0,
      optional_features = 0, required_features = 0, required_features_rw = 0, compressionalgorithms = 0,
      preallocatefileblks = 0, preallocatedirblks = 0, journalinode = 0, journaldevice = 0,
      orphaninodelisthead = 0, filesystem_id = replicate 16 0, journalid = replicate 16 0,
      volumename = replicate 16 0, last_mount_path = replicate 64 0, fs_disk = disk, fs_physdisk = pd,
      blk_group_count = 0, blk_group_descriptor_blk = 0\<rparr>"

text \<open>The fields every version has; the exponent of the block size is at most 21.\<close>

definition superblock_base :: "u8 list \<Rightarrow> u32 \<Rightarrow> fscontext \<Rightarrow> fscontext res" where
  "superblock_base superblk blocksize_raw context =
     bind_res (u32le_at (drop 0x000 superblk)) (\<lambda>v00.
     bind_res (u32le_at (drop 0x004 superblk)) (\<lambda>v04.
     bind_res (u32le_at (drop 0x008 superblk)) (\<lambda>v08.
     bind_res (u32le_at (drop 0x00c superblk)) (\<lambda>v0c.
     bind_res (u32le_at (drop 0x010 superblk)) (\<lambda>v10.
     bind_res (u32le_at (drop 0x014 superblk)) (\<lambda>v14.
     bind_res (u32le_at (drop 0x020 superblk)) (\<lambda>v20.
     bind_res (u32le_at (drop 0x028 superblk)) (\<lambda>v28.
     bind_res (u32le_at (drop 0x02c superblk)) (\<lambda>v2c.
     bind_res (u32le_at (drop 0x030 superblk)) (\<lambda>v30.
     bind_res (u16le_at (drop 0x034 superblk)) (\<lambda>v34.
     bind_res (u16le_at (drop 0x036 superblk)) (\<lambda>v36.
     bind_res (u16le_at (drop 0x03a superblk)) (\<lambda>v3a.
     bind_res (u16le_at (drop 0x03c superblk)) (\<lambda>v3c.
     bind_res (u16le_at (drop 0x03e superblk)) (\<lambda>v3e.
     bind_res (u32le_at (drop 0x040 superblk)) (\<lambda>v40.
     bind_res (u32le_at (drop 0x044 superblk)) (\<lambda>v44.
     bind_res (u32le_at (drop 0x048 superblk)) (\<lambda>v48.
     bind_res (u32le_at (drop 0x04c superblk)) (\<lambda>v4c.
     bind_res (u16le_at (drop 0x050 superblk)) (\<lambda>v50.
     bind_res (u16le_at (drop 0x052 superblk)) (\<lambda>v52.
     Inr (context\<lparr>
       total_inodes := unat v00, total_blocks := unat v04, reserved_blocks_for_su := unat v08,
       total_unallocated_blocks := unat v0c, total_unallocated_inodes := unat v10, superblock_block_num := v14,
       blocksize := to_ssize (unat (push_bit (unat blocksize_raw) (1024 :: u32))),
       blocks_in_block_group := unat v20, inodes_in_block_group := unat v28, last_mount_time := unat v2c,
       last_written_time := unat v30, mounts_since_last_fsck := v34, mounts_before_fsck_required := v36,
       fs_state := v3a, err_action := v3c, minor_ver := v3e, last_fsck_time := unat v40, fsck_interval := unat v44,
       creator_os_id := v48, major_ver := v4c, reserved_block_uid := v50, reserved_block_gid := v52\<rparr>))))))))))))))))))))))"

text \<open>The last character of a string field is set to zero.\<close>

definition terminate_str :: "u8 list \<Rightarrow> u8 list" where
  "terminate_str str = str[length str - 1 := 0]"

definition copy_bytes :: "u8 list \<Rightarrow> nat \<Rightarrow> nat \<Rightarrow> u8 list res" where
  "copy_bytes b off n = (if off + n \<le> length b then Inr (take n (drop off b)) else Inl Out_of_bounds)"

definition superblock_ext :: "u8 list \<Rightarrow> fscontext \<Rightarrow> fscontext res" where
  "superblock_ext superblk context =
     (if 1 \<le> major_ver context then
        bind_res (u16le_at (drop 0x054 superblk)) (\<lambda>v54.
        bind_res (u16le_at (drop 0x058 superblk)) (\<lambda>v58.
        bind_res (u16le_at (drop 0x05a superblk)) (\<lambda>v5a.
        bind_res (u32le_at (drop 0x05c superblk)) (\<lambda>v5c.
        bind_res (u32le_at (drop 0x060 superblk)) (\<lambda>v60.
        bind_res (u32le_at (drop 0x064 superblk)) (\<lambda>v64.
        bind_res (copy_bytes superblk 0x068 16) (\<lambda>v68.
        bind_res (copy_bytes superblk 0x078 16) (\<lambda>v78.
        bind_res (copy_bytes superblk 0x088 64) (\<lambda>v88.
        bind_res (u32le_at (drop 0x0c8 superblk)) (\<lambda>vc8.
        bind_res (load superblk 0x0cc) (\<lambda>vcc.
        bind_res (load superblk 0x0cd) (\<lambda>vcd.
        bind_res (copy_bytes superblk 0x0d0 16) (\<lambda>vd0.
        bind_res (u32le_at (drop 0x0e0 superblk)) (\<lambda>ve0.
        bind_res (u32le_at (drop 0x0e4 superblk)) (\<lambda>ve4.
        bind_res (u32le_at (drop 0x0e8 superblk)) (\<lambda>ve8.
        Inr (context\<lparr>
          first_non_reserved_inode := unat v54, inode_size := unat v58, block_group := ucast v5a,
          optional_features := v5c, required_features := v60, required_features_rw := v64,
          filesystem_id := v68, volumename := terminate_str v78, last_mount_path := terminate_str v88,
          compressionalgorithms := vc8, preallocatefileblks := vcc, preallocatedirblks := vcd,
          journalid := vd0, journalinode := ve0, journaldevice := ve4, orphaninodelisthead := ve8\<rparr>)))))))))))))))))
      else Inr (context\<lparr>first_non_reserved_inode := 11, inode_size := 128\<rparr>))"

text \<open>The part of \<open>vfs_op_mount\<close> behind the reading of the superblock; \<open>None\<close> is a refused file system (\<open>-EINVAL\<close>).\<close>

definition read_superblock :: "ldisk \<Rightarrow> pdisk \<Rightarrow> u8 list \<Rightarrow> fscontext option res" where
  "read_superblock disk pd superblk =
     bind_res (u16le_at (drop 0x038 superblk)) (\<lambda>sig.
     let context = (zero_context disk pd)\<lparr>signature := sig\<rparr> in
     if signature context \<noteq> EXT2_SIGNATURE then Inr None
     else
       bind_res (u32le_at (drop 0x018 superblk)) (\<lambda>blocksize_raw.
       if 21 < blocksize_raw then Inr None
       else
         bind_res (superblock_base superblk blocksize_raw context) (\<lambda>context.
         bind_res (superblock_ext superblk context) (\<lambda>context.
         bind_res (size_to_blocks (total_blocks context) (blocks_in_block_group context)) (\<lambda>count.
         bind_res (size_to_blocks (total_inodes context) (inodes_in_block_group context)) (\<lambda>count2.
         let context = context\<lparr>blk_group_count := count,
                               blk_group_descriptor_blk := if blocksize context = 1024 then 2 else 1\<rparr> in
         Inr (if required_features context AND NOT SUPPORTED_REQUIRED_FLAGS \<noteq> 0 then None
              else if required_features_rw context AND NOT SUPPORTED_RWMOUNT_FLAGS \<noteq> 0 then None
              else Some context)))))))"

definition vfs_op_mount :: "'d xio \<Rightarrow> ldisk \<Rightarrow> pdisk \<Rightarrow> 'd xs \<Rightarrow> ('d xs \<times> int \<times> fscontext option) res" where
  "vfs_op_mount io disk pd s =
     (let (s, ok) = xalloc io s; context = (if ok then Some () else None) in
      bind_res (div_res 1024 (block_size pd)) (\<lambda>n.
      bind_res (assert_res (1024 mod block_size pd = 0)) (\<lambda>_.
      (case ldisk_read_exact (x_ops io) (x_dev s) disk n n of (d, ret, bs) \<Rightarrow>
         let s = s\<lparr>x_dev := d\<rparr> in
         if ret < 0 then Inr (xfree context s, ret, None)
         else if \<not> ok then Inl Null_deref
         else
           bind_res (read_superblock disk pd (concat bs)) (\<lambda>r.
           case r of None \<Rightarrow> Inr (xfree context s, - EINVAL, None)
           | Some c \<Rightarrow> Inr (s, ret, Some c))))))"

definition vfs_op_umount :: "'d xs \<Rightarrow> 'd xs \<times> int" where
  "vfs_op_umount s = (xfree (Some ()) s, 0)"

text \<open>
  \<open>fd_ops\<close>, \<open>self\<close> and \<open>data\<close> are the addresses of the table of operations, of the \<open>vfs_fscontext\<close> and of the new
  context.
\<close>

definition vfs_op_open :: "'d xio \<Rightarrow> path_reader \<Rightarrow> fscontext \<Rightarrow> nat \<Rightarrow> nat \<Rightarrow> nat \<Rightarrow> u8 list \<Rightarrow> nat \<Rightarrow> 'd xs \<Rightarrow> 'w vfs \<Rightarrow>
    ('d xs \<times> 'w vfs \<times> int \<times> openfdcontext option) res option" where
  "vfs_op_open io reader0 fs fd_ops self data path p s v =
     (let (s, ok) = xalloc io s; fdcontext = (if ok then Some () else None) in
      case ext2_resolve_path io reader0 fs s INODE_ROOTDIRECTORY path p of
        None \<Rightarrow> None
      | Some (Inl e) \<Rightarrow> Some (Inl e)
      | Some (Inr (s, ret, inode)) \<Rightarrow>
          if ret < 0 then Some (Inr (xfree fdcontext s, v, ret, None))
          else
            Some (bind_res (openfile io ok fs s inode) (\<lambda>(s, ret, ino).
              if ret < 0 then Inr (xfree fdcontext s, v, ret, None)
              else
                (case ino of None \<Rightarrow> Inl Null_deref
                 | Some i \<Rightarrow>
                     bind_res (vfs_register_file fd_ops self data v) (\<lambda>(v, f, ret).
                     if ret < 0 then Inr (xfree fdcontext (closefile (Some i) s), v, ret, None)
                     else Inr (s, v, ret, Some \<lparr>fd_ino = i, fd_file = f, cursorpos = 0\<rparr>))))))"

definition vfs_op_opendir :: "'d xio \<Rightarrow> path_reader \<Rightarrow> fscontext \<Rightarrow> u8 list \<Rightarrow> nat \<Rightarrow> 'd xs \<Rightarrow> ('d xs \<times> int \<times> ino_context option) res option" where
  "vfs_op_opendir io reader0 fs path p s =
     (case ext2_resolve_path io reader0 fs s INODE_ROOTDIRECTORY path p of
        None \<Rightarrow> None
      | Some (Inl e) \<Rightarrow> Some (Inl e)
      | Some (Inr (s, ret, inode)) \<Rightarrow>
          if ret < 0 then Some (Inr (s, ret, None)) else Some (open_directory io fs s inode))"

definition vfs_op_closedir :: "ino_context option \<Rightarrow> 'd xs \<Rightarrow> 'd xs \<times> int" where
  "vfs_op_closedir self s = (close_directory self s, 0)"

definition vfs_op_readdir :: "'d xio \<Rightarrow> fscontext \<Rightarrow> 'd xs \<Rightarrow> ino_context \<Rightarrow> ('d xs \<times> ino_context \<times> int \<times> dirent) res option" where
  "vfs_op_readdir io fs s self = read_directory io fs s self"

end
