(* ===== verification/Ext2_Dir.thy ===== *)
theory Ext2_Dir
  imports Ext2_Fs
begin

text \<open>
  Directories of ext2 against an abstract list of entries: \<open>read_directory\<close> returns the live entries in order and
  \<open>-ENOENT\<close> behind the last one, \<open>find_entry\<close> is the search for a name, and a path is resolved by walking from
  directory to directory. What the directory code relies on is the interface \<open>byte_stream\<close> of the inode code.
\<close>

subsection \<open>Streams of bytes\<close>

text \<open>
  A stream over the bytes \<open>X\<close>: \<open>at c X q s i\<close> says that \<open>i\<close> stands at position \<open>q\<close>. Transfers shorter than \<open>lim c\<close>
  that stay within \<open>X\<close> succeed and move on.
\<close>

locale byte_stream =
  fixes rd :: "'c \<Rightarrow> 's \<Rightarrow> 'i \<Rightarrow> nat \<Rightarrow> ('s \<times> 'i \<times> int \<times> u8 list) res"
    and sk :: "'c \<Rightarrow> 's \<Rightarrow> 'i \<Rightarrow> nat \<Rightarrow> ('s \<times> 'i \<times> int) res"
    and at :: "'c \<Rightarrow> u8 list \<Rightarrow> nat \<Rightarrow> 's \<Rightarrow> 'i \<Rightarrow> bool"
    and lim :: "'c \<Rightarrow> nat"
  assumes rd_law: "at c X q s i \<Longrightarrow> q + n \<le> length X \<Longrightarrow> n < lim c \<Longrightarrow>
      \<exists>s' i' r. rd c s i n = Inr (s', i', r, take n (drop q X)) \<and> 0 \<le> r \<and> at c X (q + n) s' i'"
    and sk_law: "at c X q s i \<Longrightarrow> q + n \<le> length X \<Longrightarrow> n < lim c \<Longrightarrow>
      \<exists>s' i' r. sk c s i n = Inr (s', i', r) \<and> 0 \<le> r \<and> at c X (q + n) s' i'"
begin

lemma rd_field:
  assumes "at c X q s i" and "drop q X = a @ rest" and "q \<le> length X" and "length a < lim c"
  shows "\<exists>s' i' r. rd c s i (length a) = Inr (s', i', r, a) \<and> 0 \<le> r \<and> at c X (q + length a) s' i' \<and>
    drop (q + length a) X = rest \<and> q + length a \<le> length X"
proof -
  have "length X = q + length a + length rest" using assms(2,3) by (metis add.assoc append_take_drop_id length_append length_take min.absorb2)
  then have l: "q + length a \<le> length X" by simp
  have "drop (q + length a) X = drop (length a) (drop q X)" by (simp add: add.commute)
  then have "drop (q + length a) X = rest" using assms(2) by simp
  then show ?thesis using rd_law [OF assms(1) l assms(4)] assms(2) l by auto
qed

lemma sk_field:
  assumes "at c X q s i" and "drop q X = a @ rest" and "q \<le> length X" and "length a < lim c"
  shows "\<exists>s' i' r. sk c s i (length a) = Inr (s', i', r) \<and> 0 \<le> r \<and> at c X (q + length a) s' i' \<and>
    drop (q + length a) X = rest \<and> q + length a \<le> length X"
proof -
  have "length X = q + length a + length rest" using assms(2,3) by (metis add.assoc append_take_drop_id length_append length_take min.absorb2)
  then have l: "q + length a \<le> length X" by simp
  have "drop (q + length a) X = drop (length a) (drop q X)" by (simp add: add.commute)
  then have "drop (q + length a) X = rest" using assms(2) by simp
  then show ?thesis using sk_law [OF assms(1) l assms(4)] l by auto
qed

end

text \<open>The inode code provides such a stream over the content of a file of \<open>n\<close> blocks; \<open>i0\<close> is the inode when it was opened.\<close>

definition ino_at :: "'d xio \<times> fscontext \<times> (nat \<Rightarrow> u8 list) \<times> nat \<times> ino_context \<times> nat \<Rightarrow> u8 list \<Rightarrow> nat \<Rightarrow> 'd xs \<Rightarrow> ino_context \<Rightarrow> bool" where
  "ino_at c X q s ino = (case c of (io, fs, V, N, i0, n) \<Rightarrow>
     serves io fs V N s \<and> same_file i0 ino \<and> byte_pos V N fs ino n q \<and> X = content V (bsz fs div 4) i0 n)"

definition ino_lim :: "'d xio \<times> fscontext \<times> (nat \<Rightarrow> u8 list) \<times> nat \<times> ino_context \<times> nat \<Rightarrow> nat" where
  "ino_lim c = (case c of (io, fs, V, N, i0, n) \<Rightarrow> bsz fs)"

lemma byte_pos_mapped: "byte_pos V N fs ino n q \<Longrightarrow> mapped V N (bsz fs div 4) ino n"
  by (auto simp: byte_pos_def at_pos_def)

lemma ino_at_len:
  assumes "ino_at (io, fs, V, N, i0, n) X q s ino"
  shows "length X = n * bsz fs" and "q \<le> length X"
proof -
  have a: "serves io fs V N s" "same_file i0 ino" "byte_pos V N fs ino n q" "X = content V (bsz fs div 4) i0 n"
    using assms by (auto simp: ino_at_def)
  have "mapped V N (bsz fs div 4) i0 n" using byte_pos_mapped [OF a(3)] same_file_addr(4) [OF a(2)] by simp
  then show l: "length X = n * bsz fs" using content_length [OF a(1)] a(4) by simp
  obtain k off where k: "at_pos V N fs ino n k off" "q = (k - 1) * bsz fs + off" using a(3) unfolding byte_pos_def by blast
  then have "0 < k" "k \<le> n" "off \<le> bsz fs" by (auto simp: at_pos_def)
  then have "q \<le> k * bsz fs" using k(2) by (cases k) auto
  also have "\<dots> \<le> n * bsz fs" using \<open>k \<le> n\<close> by simp
  finally show "q \<le> length X" using l by simp
qed

lemma lim_stream:
  assumes "ino_at (io, fs, V, N, i0, n) X q s ino" and "k < ino_lim (io, fs, V, N, i0, n)"
  shows "k < bsz fs" and "k \<le> STREAM_MAX_TRANSFER_SIZE"
proof -
  have "serves io fs V N s" using assms(1) by (simp add: ino_at_def)
  note g = geometry_facts(4) [OF serves_geometry [OF this]]
  show "k < bsz fs" using assms(2) by (simp add: ino_lim_def)
  then show "k \<le> STREAM_MAX_TRANSFER_SIZE" using g by (simp add: STREAM_MAX_TRANSFER_SIZE_def)
qed

interpretation ino_stream: byte_stream "\<lambda>(io, fs, V, N, i0, n). read_inode io fs" "\<lambda>(io, fs, V, N, i0, n). skipread_inode io fs" ino_at ino_lim
proof
  fix c :: "'d xio \<times> fscontext \<times> (nat \<Rightarrow> u8 list) \<times> nat \<times> ino_context \<times> nat" and X q s i and k :: nat
  assume a: "ino_at c X q s i" and l: "q + k \<le> length X" and k: "k < ino_lim c"
  obtain io fs V N i0 n where c: "c = (io, fs, V, N, i0, n)" by (cases c) auto
  note lim = lim_stream [OF a [unfolded c] k [unfolded c]]
  have b: "serves io fs V N s" "same_file i0 i" "byte_pos V N fs i n q" "X = content V (bsz fs div 4) i0 n"
    using a by (auto simp: ino_at_def c)
  have q: "q + k \<le> n * bsz fs" using l ino_at_len(1) [OF a [unfolded c]] by simp
  have X: "X = content V (bsz fs div 4) i n" using b(4) content_same [OF b(2)] by simp
  show "\<exists>s' i' r. (case c of (io, fs, V, N, i0, n) \<Rightarrow> read_inode io fs) s i k = Inr (s', i', r, take k (drop q X)) \<and> 0 \<le> r \<and> ino_at c X (q + k) s' i'"
    using read_ok [OF b(1,3) q lim(2)] lim(1) X b(4) same_file_trans [OF b(2)] unfolding c by (auto simp: ino_at_def)
  show "\<exists>s' i' r. (case c of (io, fs, V, N, i0, n) \<Rightarrow> skipread_inode io fs) s i k = Inr (s', i', r) \<and> 0 \<le> r \<and> ino_at c X (q + k) s' i'"
    using skip_ok [OF b(1,3) q lim(2)] lim(1) X b(4) same_file_trans [OF b(2)] unfolding c by (auto simp: ino_at_def)
qed

subsection \<open>Directory entries\<close>

record dent =
  e_ino :: u32
  e_type :: u8
  e_name :: "u8 list"
  e_pad :: "u8 list"

definition dent_size :: "dent \<Rightarrow> nat" where
  "dent_size e = 8 + length (e_name e) + length (e_pad e)"

text \<open>An entry as it is on the disk.\<close>

definition dent_bytes :: "dent \<Rightarrow> u8 list" where
  "dent_bytes e = (bytes_le32 (e_ino e) @ bytes_le16 (of_nat (dent_size e)) @ [of_nat (length (e_name e)), e_type e]) @ e_name e @ e_pad e"

definition dent_ok :: "fscontext \<Rightarrow> dent \<Rightarrow> bool" where
  "dent_ok fs e \<longleftrightarrow> length (e_name e) \<le> NAME_MAX \<and> 0 \<notin> set (e_name e) \<and> dent_size e \<le> bsz fs \<and> dent_size e < 2 ^ 16 \<and>
     (required_features fs AND REQUIRED_FEATUREFLAG_DIRENTRY_CONTAINS_TYPE_FIELD = 0 \<longrightarrow> e_type e = 0)"

definition dirent_of :: "dent \<Rightarrow> dirent" where
  "dirent_of e = \<lparr>d_ino = unat (e_ino e), d_name = e_name e @ replicate (NAME_MAX + 1 - length (e_name e)) 0\<rparr>"

lemma header_fields:
  assumes "h = bytes_le32 a @ bytes_le16 b @ [c, d]"
  shows "length h = 8" and "u32le_at (drop 0 h) = Inr a" and "u16le_at (drop 4 h) = Inr b" and "load h 6 = Inr c" and "load h 7 = Inr d"
proof -
  have l: "length (bytes_le32 a) = 4" "length (bytes_le16 b) = 2" by (simp_all add: bytes_le32_def bytes_le16_def)
  show "length h = 8" using assms l by simp
  show "u32le_at (drop 0 h) = Inr a" using assms u32le_bytes by simp
  show "u16le_at (drop 4 h) = Inr b" using assms l u16le_bytes [of b "[c, d]"] by simp
  show "load h 6 = Inr c" "load h 7 = Inr d" using assms l by (simp_all add: nth_append)
qed

lemma read_entry_ok:
  assumes at: "ino_at (io, fs, V, N, i0, n) X q s ino" and X: "drop q X = dent_bytes e @ rest" and e: "dent_ok fs e"
  shows "\<exists>s' ino' r. read_entry io fs s ino = Inr (s', ino', r, dirent_of e, e_ino e = 0) \<and> 0 \<le> r \<and>
    ino_at (io, fs, V, N, i0, n) X (q + dent_size e) s' ino' \<and> drop (q + dent_size e) X = rest"
proof -
  let ?c = "(io, fs, V, N, i0, n)"
  define h where "h = bytes_le32 (e_ino e) @ bytes_le16 (of_nat (dent_size e)) @ [of_nat (length (e_name e)), e_type e]"
  note hf = header_fields [OF h_def]
  have ok: "length (e_name e) \<le> 255" "dent_size e \<le> bsz fs" "dent_size e < 2 ^ 16" using e by (auto simp: dent_ok_def NAME_MAX_def)
  have b: "1024 \<le> bsz fs" using at geometry_facts(3) [OF serves_geometry] by (auto simp: ino_at_def)
  have lim: "ino_lim ?c = bsz fs" by (simp add: ino_lim_def)
  have X': "drop q X = h @ (e_name e @ e_pad e @ rest)" using X by (simp add: dent_bytes_def h_def)
  have "length h < ino_lim ?c" using hf(1) lim b by simp
  from ino_stream.rd_field [OF at X' ino_at_len(2) [OF at] this]
  obtain s1 i1 r1 where rd: "read_inode io fs s ino 8 = Inr (s1, i1, r1, h)" "0 \<le> r1" "ino_at ?c X (q + 8) s1 i1"
    and X1: "drop (q + 8) X = e_name e @ (e_pad e @ rest)" and q1: "q + 8 \<le> length X"
    unfolding hf(1) by auto
  have "length (e_name e) < ino_lim ?c" using ok(1) lim b by simp
  from ino_stream.rd_field [OF rd(3) X1 q1 this]
  obtain s2 i2 r2 where nm: "read_inode io fs s1 i1 (length (e_name e)) = Inr (s2, i2, r2, e_name e)" "0 \<le> r2"
      "ino_at ?c X (q + 8 + length (e_name e)) s2 i2"
    and X2: "drop (q + 8 + length (e_name e)) X = e_pad e @ rest" and q2: "q + 8 + length (e_name e) \<le> length X"
    by auto
  have "length (e_pad e) < ino_lim ?c" using ok(2) lim by (simp add: dent_size_def)
  from ino_stream.sk_field [OF nm(3) X2 q2 this]
  obtain s3 i3 r3 where sk: "skipread_inode io fs s2 i2 (length (e_pad e)) = Inr (s3, i3, r3)" "0 \<le> r3"
      "ino_at ?c X (q + 8 + length (e_name e) + length (e_pad e)) s3 i3" "drop (q + 8 + length (e_name e) + length (e_pad e)) X = rest"
    by auto
  have sz: "q + 8 + length (e_name e) + length (e_pad e) = q + dent_size e" by (simp add: dent_size_def)
  have nl: "unat (of_nat (length (e_name e)) :: u8) = length (e_name e)" using ok(1) by (simp add: unat_of_nat)
  have es: "unat (of_nat (dent_size e) :: u16) = dent_size e" using ok(3) by (simp add: unat_of_nat)
  have skip: "sz_sub (dent_size e) (length (e_name e) + 8) = length (e_pad e)"
    using ok(3) by (subst sz_sub_no_wrap) (auto simp: dent_size_def)
  define hi where "hi = (if required_features fs AND REQUIRED_FEATUREFLAG_DIRENTRY_CONTAINS_TYPE_FIELD = 0 then load h 0x7 else Inr 0)"
  have hi: "hi = Inr 0" using e hf(5) by (auto simp: hi_def dent_ok_def)
  have ent: "put_name (e_name e) (no_dirent\<lparr>d_ino := unat (e_ino e)\<rparr>) = dirent_of e"
    by (simp add: put_name_def no_dirent_def dirent_of_def drop_replicate del: replicate_Suc)
  have nn: "\<not> r1 < 0" "\<not> r2 < 0" "\<not> r3 < 0" using rd(2) nm(2) sk(2) by auto
  have "read_entry io fs s ino = Inr (s3, i3, r3, dirent_of e, d_ino (dirent_of e) = 0)"
    unfolding read_entry_def rd(1) bind_res_Inr prod.case if_not_P [OF nn(1)] hf(2-4) Let_def hi_def [symmetric] hi nl nm(1) es ent
    by (simp add: nn skip sk(1))
  moreover have "d_ino (dirent_of e) = 0 \<longleftrightarrow> e_ino e = 0" by (simp add: dirent_of_def unat_eq_0)
  ultimately show ?thesis using sk sz by auto
qed

lemma read_entry_end:
  assumes at: "ino_at (io, fs, V, N, i0, n) X (length X) s ino" and e: "file_end V (bsz fs div 4) i0 n"
  shows "\<exists>s' ino'. read_entry io fs s ino = Inr (s', ino', - ENOENT, no_dirent, False) \<and> serves io fs V N s' \<and> same_file i0 ino'"
proof -
  let ?p = "bsz fs div 4"
  have a: "serves io fs V N s" "same_file i0 ino" "byte_pos V N fs ino n (n * bsz fs)"
    using at ino_at_len(1) [OF at] by (auto simp: ino_at_def)
  note g = geometry_facts [OF serves_geometry [OF a(1)]]
  obtain k off where k: "at_pos V N fs ino n k off" "n * bsz fs = (k - 1) * bsz fs + off" using a(3) unfolding byte_pos_def by blast
  then have kb: "0 < k" "k \<le> n" "off \<le> bsz fs" by (auto simp: at_pos_def)
  have kn: "k = n"
  proof (rule ccontr)
    assume "k \<noteq> n"
    then have "k * bsz fs < n * bsz fs" using kb g(3) by simp
    moreover have "(k - 1) * bsz fs + off \<le> k * bsz fs" using kb by (cases k) auto
    ultimately show False using k(2) by simp
  qed
  have "n * bsz fs = (n - 1) * bsz fs + bsz fs" using kb kn by (cases n) auto
  then have off: "off = bsz fs" using k(2) unfolding kn by linarith
  have pos: "mapped V N ?p ino n" "block_pos V ?p ino n" "offset_in_buf (blockbuf ino) = int (bsz fs)"
    using k(1) off kn by (auto simp: at_pos_def)
  obtain s' ino' where nb: "next_inode_block io fs s ino = Inr (s', ino', - ENOENT)" "serves io fs V N s'" "same_file ino ino'"
    using next_block_end [OF a(1) refl pos(1,2)] e file_end_same [OF a(2)] by blast
  have "step_block io fs s ino 0 = Inr (s', ino', - ENOENT)"
    using pos(3) g(2) nb(1) by (simp add: step_block_def next_inode_block_and_reset_blockbuf_def ENOENT_def)
  then have "read_inode io fs s ino 8 = Inr (s', ino', - ENOENT, [])"
    by (simp add: read_inode_def STREAM_MAX_TRANSFER_SIZE_def read_loop.simps [of io fs s] ENOENT_def)
  then have "read_entry io fs s ino = Inr (s', ino', - ENOENT, no_dirent, False)" by (simp add: read_entry_def ENOENT_def)
  then show ?thesis using nb(2) same_file_trans [OF a(2) nb(3)] by blast
qed

subsection \<open>Reading and searching a directory\<close>

text \<open>The open directory still has the entries \<open>es\<close> to deliver.\<close>

definition dir_pos :: "'d xio \<times> fscontext \<times> (nat \<Rightarrow> u8 list) \<times> nat \<times> ino_context \<times> nat \<Rightarrow> dent list \<Rightarrow> 'd xs \<Rightarrow> ino_context \<Rightarrow> bool" where
  "dir_pos c es s ino = (case c of (io, fs, V, N, i0, n) \<Rightarrow>
     file_end V (bsz fs div 4) i0 n \<and> (\<forall>e\<in>set es. dent_ok fs e) \<and>
     (\<exists>X q. ino_at c X q s ino \<and> drop q X = concat (map dent_bytes es)))"

definition live :: "dent \<Rightarrow> bool" where
  "live e \<longleftrightarrow> e_ino e \<noteq> 0"

text \<open>The next live entry, or the end of the directory.\<close>

lemma read_directory_ok:
  assumes "dir_pos (io, fs, V, N, i0, n) es s ino"
  shows "case dropWhile (\<lambda>e. \<not> live e) es of
      [] \<Rightarrow> \<exists>s' ino'. read_directory io fs s ino = Some (Inr (s', ino', - ENOENT, no_dirent)) \<and> serves io fs V N s'
    | e # es' \<Rightarrow> \<exists>s' ino' r. read_directory io fs s ino = Some (Inr (s', ino', r, dirent_of e)) \<and> 0 \<le> r \<and>
        dir_pos (io, fs, V, N, i0, n) es' s' ino'"
  using assms
proof (induction es arbitrary: s ino)
  case Nil
  then obtain X q where a: "ino_at (io, fs, V, N, i0, n) X q s ino" "drop q X = []" and e: "file_end V (bsz fs div 4) i0 n"
    by (auto simp: dir_pos_def)
  have "q = length X" using a(2) ino_at_len(2) [OF a(1)] by simp
  then have "ino_at (io, fs, V, N, i0, n) X (length X) s ino" using a(1) by simp
  then obtain s' ino' where "read_entry io fs s ino = Inr (s', ino', - ENOENT, no_dirent, False)" "serves io fs V N s'"
    using read_entry_end e by blast
  then have "read_directory io fs s ino = Some (Inr (s', ino', - ENOENT, no_dirent))"
    by (subst read_directory.simps) simp
  then show ?case using \<open>serves io fs V N s'\<close> by simp
next
  case (Cons e es)
  then obtain X q where a: "ino_at (io, fs, V, N, i0, n) X q s ino" "drop q X = dent_bytes e @ concat (map dent_bytes es)"
    and fe: "file_end V (bsz fs div 4) i0 n" and ok: "dent_ok fs e" "\<forall>e\<in>set es. dent_ok fs e"
    by (auto simp: dir_pos_def)
  obtain s1 ino1 r1 where rd: "read_entry io fs s ino = Inr (s1, ino1, r1, dirent_of e, e_ino e = 0)" "0 \<le> r1"
      "ino_at (io, fs, V, N, i0, n) X (q + dent_size e) s1 ino1" "drop (q + dent_size e) X = concat (map dent_bytes es)"
    using read_entry_ok [OF a ok(1)] by blast
  have pos: "dir_pos (io, fs, V, N, i0, n) es s1 ino1" using fe ok(2) rd(3,4) by (auto simp: dir_pos_def)
  show ?case
  proof (cases "live e")
    case True
    then have "read_directory io fs s ino = Some (Inr (s1, ino1, r1, dirent_of e))"
      using rd(1) by (subst read_directory.simps) (simp add: live_def)
    then show ?thesis using True rd(2) pos by auto
  next
    case False
    then have "read_directory io fs s ino = read_directory io fs s1 ino1"
      using rd(1) by (subst read_directory.simps) (simp add: live_def)
    moreover have "dropWhile (\<lambda>e. \<not> live e) (e # es) = dropWhile (\<lambda>e. \<not> live e) es" using False by simp
    ultimately show ?thesis using Cons.IH [OF pos] by (simp only:)
  qed
qed

text \<open>The reference: the inode number of the first live entry with the name.\<close>

definition dir_lookup :: "u8 list \<Rightarrow> dent list \<Rightarrow> nat option" where
  "dir_lookup name es = map_option (\<lambda>e. unat (e_ino e)) (List.find (\<lambda>e. live e \<and> e_name e = name) es)"

lemma dirent_cstr:
  assumes "dent_ok fs e"
  shows "cstr (d_name (dirent_of e)) 0 (e_name e)"
proof -
  have "NAME_MAX + 1 - length (e_name e) = Suc (NAME_MAX - length (e_name e))" using assms by (simp add: dent_ok_def Suc_diff_le)
  then have "d_name (dirent_of e) = e_name e @ 0 # replicate (NAME_MAX - length (e_name e)) 0" by (simp add: dirent_of_def)
  then show ?thesis using assms by (simp add: cstr_def dent_ok_def)
qed

lemma d_ino_of: "d_ino (dirent_of e) = unat (e_ino e)"
  by (simp add: dirent_of_def)

lemma find_dropWhile: "List.find (\<lambda>e. P e \<and> Q e) (dropWhile (\<lambda>e. \<not> P e) es) = List.find (\<lambda>e. P e \<and> Q e) es"
  by (induction es) auto

lemma find_entry_ok:
  assumes "dir_pos (io, fs, V, N, i0, n) es s ino" and "cstr (fst nm) (snd nm) name"
  shows "case dir_lookup name es of
      None \<Rightarrow> \<exists>s' ino' i. find_entry io fs s ino nm cur = Some (Inr (s', ino', - ENOENT, i)) \<and> serves io fs V N s'
    | Some i \<Rightarrow> \<exists>s' ino'. find_entry io fs s ino nm cur = Some (Inr (s', ino', 0, i)) \<and> serves io fs V N s'"
  using assms(1)
proof (induction "length es" arbitrary: es s ino cur rule: less_induct)
  case less
  let ?d = "dropWhile (\<lambda>e. \<not> live e) es"
  have lk: "dir_lookup name es = dir_lookup name ?d" unfolding dir_lookup_def find_dropWhile by (rule refl)
  show ?case
  proof (cases ?d)
    case Nil
    then obtain s' ino' where rd: "read_directory io fs s ino = Some (Inr (s', ino', - ENOENT, no_dirent))" "serves io fs V N s'"
      using read_directory_ok [OF less.prems] unfolding Nil list.case by blast
    have "find_entry io fs s ino nm cur = Some (Inr (s', ino', - ENOENT, cur))" by (subst find_entry.simps) (simp add: rd(1))
    then show ?thesis using rd(2) unfolding lk Nil by (simp add: dir_lookup_def)
  next
    case (Cons e es')
    then obtain s1 ino1 r where rd: "read_directory io fs s ino = Some (Inr (s1, ino1, r, dirent_of e))" "0 \<le> r"
        "dir_pos (io, fs, V, N, i0, n) es' s1 ino1"
      using read_directory_ok [OF less.prems] unfolding Cons list.case by blast
    have lv: "live e" using Cons hd_dropWhile [of "\<lambda>e. \<not> live e" es] by auto
    have "e \<in> set es" using Cons set_dropWhileD by (metis list.set_intros(1))
    then have ok: "dent_ok fs e" using less.prems by (simp add: dir_pos_def)
    have len: "length es' < length es" using Cons by (metis Suc_le_eq length_Cons length_dropWhile_le)
    have cmp: "kstrcmp (fst nm) (snd nm) (d_name (dirent_of e)) 0 = Inr (str_cmp name (e_name e))"
      by (rule kstrcmp_eq [OF assms(2) dirent_cstr [OF ok]])
    have z: "str_cmp name (e_name e) = 0 \<longleftrightarrow> e_name e = name"
      using str_cmp_zero [of name "e_name e"] assms(2) ok by (auto simp: cstr_def dent_ok_def)
    have sv: "serves io fs V N s1" using rd(3) by (auto simp: dir_pos_def ino_at_def)
    have r: "r \<noteq> - ENOENT" "\<not> r < 0" using rd(2) by (auto simp: ENOENT_def)
    show ?thesis
    proof (cases "e_name e = name")
      case True
      then have "find_entry io fs s ino nm cur = Some (Inr (s1, ino1, 0, unat (e_ino e)))"
        using r z by (subst find_entry.simps) (simp add: rd(1) cmp d_ino_of)
      then show ?thesis using sv True lv unfolding lk Cons by (simp add: dir_lookup_def)
    next
      case False
      then have "find_entry io fs s ino nm cur = find_entry io fs s1 ino1 nm (d_ino (dirent_of e))"
        using r z by (subst find_entry.simps) (simp add: rd(1) cmp)
      moreover have "dir_lookup name ?d = dir_lookup name es'" using False unfolding Cons by (simp add: dir_lookup_def)
      ultimately show ?thesis using less.hyps [OF len rd(3), of "d_ino (dirent_of e)"] unfolding lk by (simp only:)
    qed
  qed
qed

subsection \<open>Inodes on the volume\<close>

text \<open>The block of the group descriptor of an inode, its offset there, and the block and the offset of the inode.\<close>

definition desc_slot :: "fscontext \<Rightarrow> nat \<Rightarrow> nat \<times> nat" where
  "desc_slot fs i = (let b = (i - 1) div inodes_in_block_group fs * 32 in (blk_group_descriptor_blk fs + b div bsz fs, b mod bsz fs))"

definition inode_slot :: "(nat \<Rightarrow> u8 list) \<Rightarrow> fscontext \<Rightarrow> nat \<Rightarrow> nat \<times> nat" where
  "inode_slot V fs i =
     (let (db, off) = desc_slot fs i;
          b = (i - 1) mod inodes_in_block_group fs * inode_size fs in
      (unat (le32 (drop (off + 8) (V db))) + b div bsz fs, b mod bsz fs))"

definition inode_ok :: "(nat \<Rightarrow> u8 list) \<Rightarrow> nat \<Rightarrow> fscontext \<Rightarrow> nat \<Rightarrow> bool" where
  "inode_ok V N fs i \<longleftrightarrow> 0 < i \<and> i < 2 ^ 32 \<and> 0 < inodes_in_block_group fs \<and> 0 < inode_size fs \<and>
     (i - 1) div inodes_in_block_group fs < size_max div 32 \<and> (i - 1) mod inodes_in_block_group fs < size_max div inode_size fs \<and>
     fst (desc_slot fs i) < N \<and> snd (desc_slot fs i) + 32 \<le> bsz fs \<and> fst (inode_slot V fs i) < N"

lemma int_sdiv_smod: "int a sdiv int b = int (a div b)" "int a smod int b = int (a mod b)"
  by (simp_all add: signed_divide_int_def signed_modulo_int_def sgn_if zdiv_int zmod_int)

lemma descriptor_ok:
  assumes "length d \<ge> 32"
  shows "\<exists>bg. descriptor_at d = Inr bg \<and> inodetable bg = le32 (drop 8 d)"
proof -
  have u16: "\<exists>h. u16le_at (drop k d) = Inr h" if "k + 2 \<le> 32" for k
    using assms that by (simp add: u16le_at_def load_def)
  obtain x y z where "u16le_at (drop 12 d) = Inr x" "u16le_at (drop 14 d) = Inr y" "u16le_at (drop 16 d) = Inr z"
    using u16 [of 12] u16 [of 14] u16 [of 16] by auto
  moreover have "u32le_at (drop 0 d) = Inr (le32 (drop 0 d))" "u32le_at (drop 4 d) = Inr (le32 (drop 4 d))" "u32le_at (drop 8 d) = Inr (le32 (drop 8 d))"
    using assms by (simp_all add: u32le_le32)
  ultimately show ?thesis by (simp add: descriptor_at_def)
qed

lemma locate_ok:
  assumes sv: "serves io fs V N s" and i: "inode_ok V N fs i"
  shows "\<exists>s'. locate_inode io fs s i = Inr (s', 0, of_nat (fst (inode_slot V fs i)), int (snd (inode_slot V fs i))) \<and> serves io fs V N s'"
proof -
  note g = geometry_facts [OF serves_geometry [OF sv]]
  define gr idx where "gr = (i - 1) div inodes_in_block_group fs" and "idx = (i - 1) mod inodes_in_block_group fs"
  have ok: "0 < i" "i < 2 ^ 32" "0 < inodes_in_block_group fs" "0 < inode_size fs" "gr < size_max div 32" "idx < size_max div inode_size fs"
      "fst (desc_slot fs i) < N" "snd (desc_slot fs i) + 32 \<le> bsz fs"
    using i by (auto simp: inode_ok_def gr_def idx_def)
  define db off where "db = fst (desc_slot fs i)" and "off = snd (desc_slot fs i)"
  have ds: "db = blk_group_descriptor_blk fs + gr * 32 div bsz fs" "off = gr * 32 mod bsz fs"
    by (simp_all add: db_def off_def desc_slot_def gr_def Let_def)
  have N: "N < 2 ^ 31" by (rule serves_small [OF sv])
  have sub: "sz_sub i 1 = i - 1" using ok by (intro sz_sub_no_wrap) auto
  have grl: "gr < 2 ^ 32" using ok(5) by (simp add: size_max_def)
  have bg: "block_group_of_inode fs i = Inr (of_nat gr)" using ok(3) unfolding block_group_of_inode_def div_res_def sub by (simp add: gr_def)
  have ug: "unat (of_nat gr :: u32) = gr" using grl by (simp add: unat_of_nat)
  define bo :: u32 where "bo = word_of_int (int (gr * 32) sdiv blocksize fs)"
  have "bo = of_nat (gr * 32 div bsz fs)" unfolding bo_def g(2) int_sdiv_smod by simp
  moreover have qd: "gr * 32 div bsz fs < 2 ^ 31" using ds(1) ok(7) N db_def by linarith
  ultimately have ub: "unat bo = gr * 32 div bsz fs" by (simp add: unat_of_nat)
  have as1: "unat bo < sz_sub size_max (blk_group_descriptor_blk fs)"
  proof -
    have "blk_group_descriptor_blk fs < 2 ^ 31" using ds(1) ok(7) N db_def by linarith
    then have "sz_sub size_max (blk_group_descriptor_blk fs) = size_max - blk_group_descriptor_blk fs" by (intro sz_sub_no_wrap) (simp_all add: size_max_def)
    moreover have "unat bo + blk_group_descriptor_blk fs < 2147483648" using ub ds(1) ok(7) N db_def by simp
    ultimately show ?thesis by (simp add: size_max_def)
  qed
  have uadd: "unat (bo + of_nat (blk_group_descriptor_blk fs)) = db"
  proof -
    have "bo + of_nat (blk_group_descriptor_blk fs) = of_nat (gr * 32 div bsz fs + blk_group_descriptor_blk fs)"
      using \<open>bo = of_nat (gr * 32 div bsz fs)\<close> by simp
    then have "unat (bo + of_nat (blk_group_descriptor_blk fs)) = (gr * 32 div bsz fs + blk_group_descriptor_blk fs) mod 2 ^ 32"
      by (simp only: unat_of_nat) simp
    then show ?thesis using ds(1) ok(7) N db_def by simp
  qed
  have dbN: "unat (bo + of_nat (blk_group_descriptor_blk fs)) < N" using uadd ok(7) db_def by simp
  obtain s1 where s1: "readblocks_alloc io fs s (bo + of_nat (blk_group_descriptor_blk fs)) 1 = Inr (s1, 0, Some (V db))" "serves io fs V N s1"
    using readblocks_alloc_serves [OF sv dbN] unfolding uadd by blast
  have "length (V db) = bsz fs" using serves_block_len [OF sv] ok(7) db_def by simp
  then have "32 \<le> length (drop off (V db))" using ok(8) off_def by simp
  then obtain d where d: "descriptor_at (drop off (V db)) = Inr d" "inodetable d = le32 (drop (off + 8) (V db))"
    using descriptor_ok by (metis add.commute drop_drop)
  have offn: "nat (int (gr * 32) smod blocksize fs) = off" unfolding g(2) int_sdiv_smod nat_int by (simp add: ds(2))
  have bs0: "blocksize fs \<noteq> 0" using g(2,3) by simp
  have rd: "read_block_group_descriptor io fs s (of_nat gr) = Inr (xfree (Some (V db)) s1, 0, Some d)"
  proof -
    have e: "int (unat (of_nat gr :: u32)) * int DESCRIPTOR_SIZE = int (gr * 32)" unfolding ug by (simp add: DESCRIPTOR_SIZE_def)
    have a0: "unat (of_nat gr :: u32) < size_max div DESCRIPTOR_SIZE" using ok(5) ug by (simp add: DESCRIPTOR_SIZE_def)
    show ?thesis unfolding read_block_group_descriptor_def Let_def e if_not_P [OF bs0] bo_def [symmetric] offn
      using a0 as1 s1(1) d(1) by (simp add: buf_of_def)
  qed
  let ?t = "unat (le32 (drop (off + 8) (V db)))" and ?b = "idx * inode_size fs"
  have slot: "inode_slot V fs i = (?t + ?b div bsz fs, ?b mod bsz fs)"
    by (simp add: inode_slot_def db_def off_def idx_def Let_def split: prod.splits)
  have "locate_inode io fs s i = Inr (xfree (Some (V db)) s1, 0,
      word_of_int (int (unat (inodetable d)) + int ?b sdiv blocksize fs), int ?b smod blocksize fs)"
    unfolding locate_inode_def bg bind_res_Inr rd prod.case sub idx_def [symmetric] using ok(4,6) by (simp add: div_res_def Let_def)
  moreover have "(word_of_int (int (unat (inodetable d)) + int ?b sdiv blocksize fs) :: u32) = of_nat (?t + ?b div bsz fs)"
  proof -
    have "int (unat (inodetable d)) + int ?b sdiv blocksize fs = int (?t + ?b div bsz fs)" unfolding d(2) g(2) int_sdiv_smod by simp
    then show ?thesis by (simp only: of_int_of_nat_eq)
  qed
  moreover have "int ?b smod blocksize fs = int (?b mod bsz fs)" unfolding g(2) int_sdiv_smod by (rule refl)
  ultimately show ?thesis using s1(2) slot by simp
qed

text \<open>Inode \<open>i\<close> of the volume describes a file of \<open>n\<close> blocks; \<open>ino\<close> is the inode as it is stored.\<close>

definition file_at :: "(nat \<Rightarrow> u8 list) \<Rightarrow> nat \<Rightarrow> fscontext \<Rightarrow> nat \<Rightarrow> ino_context \<Rightarrow> nat \<Rightarrow> bool" where
  "file_at V N fs i ino n \<longleftrightarrow> inode_ok V N fs i \<and> 0 < n \<and> mapped V N (bsz fs div 4) ino n \<and>
     inode_at fs (drop (snd (inode_slot V fs i)) (V (fst (inode_slot V fs i)))) = Inr (Some ino)"

lemma fresh_inode:
  assumes "inode_at fs b = Inr (Some ino)"
  shows "block_pos V p ino 0" and "blockbuf ino = no_buf"
proof -
  have f: "next_direct_ptr_index ino = 0 \<and> \<not> singly_indirect_used ino \<and> \<not> doubly_indirect_used ino \<and> \<not> triply_indirect_used ino \<and>
      singly_indirect_buf ino = no_buf \<and> doubly_indirect_buf ino = no_buf \<and> triply_indirect_buf ino = no_buf \<and> blockbuf ino = no_buf"
    using assms by (auto simp: inode_at_def bind_res_eq_Inr split: if_splits)
  then show "block_pos V p ino 0" by (simp add: block_pos_def singly_pos_def doubly_pos_def triply_pos_def)
  show "blockbuf ino = no_buf" using f by simp
qed

lemma openinode_ok:
  assumes sv: "serves io fs V N s" and f: "file_at V N fs i ino n"
  shows "\<exists>s' ino'. openinode io True fs s i = Inr (s', 0, Some ino') \<and> same_file ino ino' \<and> serves io fs V N s' \<and> byte_pos V N fs ino' n 0"
proof -
  let ?p = "bsz fs div 4"
  have i: "inode_ok V N fs i" "0 < n" "mapped V N ?p ino n"
    "inode_at fs (drop (snd (inode_slot V fs i)) (V (fst (inode_slot V fs i)))) = Inr (Some ino)"
    using f by (auto simp: file_at_def)
  define b off where "b = fst (inode_slot V fs i)" and "off = snd (inode_slot V fs i)"
  obtain s1 where s1: "locate_inode io fs s i = Inr (s1, 0, of_nat b, int off)" "serves io fs V N s1"
    using locate_ok [OF sv i(1)] unfolding b_def off_def by blast
  have "N < 2 ^ 31" by (rule serves_small [OF sv])
  moreover have bN: "b < N" using i(1) by (simp add: inode_ok_def b_def)
  ultimately have ub: "unat (of_nat b :: u32) = b" by (simp add: unat_of_nat)
  obtain s2 where s2: "readblocks_alloc io fs s1 (of_nat b) 1 = Inr (s2, 0, Some (V b))" "serves io fs V N s2"
    using readblocks_alloc_serves [OF s1(2), of "of_nat b"] ub bN by auto
  note fr = fresh_inode [OF i(4)]
  obtain s3 ino3 where nb: "next_inode_block io fs s2 ino = Inr (s3, ino3, 0)" "serves io fs V N s3" "block_pos V ?p ino3 1"
      "same_file ino ino3" "blockbuf ino3 = blockbuf ino"
    using next_block [OF s2(2) refl i(3) fr(1) i(2)] by auto
  have "at_pos V N fs ino3 n 1 0"
    using nb fr(2) i(2,3) same_file_addr(4) [OF nb(4)] by (simp add: at_pos_def no_buf_def)
  then have "byte_pos V N fs ino3 n 0" unfolding byte_pos_def by (intro exI [of _ 1] exI [of _ 0]) simp
  moreover have "openinode io True fs s i = Inr (xfree (Some (V b)) s3, 0, Some ino3)"
    using s1(1) s2(1) nb(1) i(4) by (simp add: openinode_def buf_of_def b_def [symmetric] off_def [symmetric])
  ultimately show ?thesis using nb(2,4) by auto
qed

subsection \<open>Paths\<close>

text \<open>Inode \<open>i\<close> is a directory with the entries \<open>es\<close>.\<close>

definition is_dir :: "(nat \<Rightarrow> u8 list) \<Rightarrow> nat \<Rightarrow> fscontext \<Rightarrow> nat \<Rightarrow> dent list \<Rightarrow> bool" where
  "is_dir V N fs i es \<longleftrightarrow> (\<exists>ino n. file_at V N fs i ino n \<and> typeandpermissions ino AND INODE_TYPE_MASK = INODE_TYPE_DIRECTORY \<and>
     file_end V (bsz fs div 4) ino n \<and> (\<forall>e\<in>set es. dent_ok fs e) \<and> content V (bsz fs div 4) ino n = concat (map dent_bytes es))"

lemma open_directory_ok:
  assumes sv: "serves io fs V N s" and d: "is_dir V N fs i es"
  shows "\<exists>s' ino i0 n. open_directory io fs s i = Inr (s', 0, Some ino) \<and> dir_pos (io, fs, V, N, i0, n) es s' ino"
proof -
  obtain i0 n where f: "file_at V N fs i i0 n" "typeandpermissions i0 AND INODE_TYPE_MASK = INODE_TYPE_DIRECTORY"
      "file_end V (bsz fs div 4) i0 n" "\<forall>e\<in>set es. dent_ok fs e" "content V (bsz fs div 4) i0 n = concat (map dent_bytes es)"
    using d unfolding is_dir_def by blast
  let ?s = "s\<lparr>x_allocs := x_allocs s + 1, x_live := x_live s + 1\<rparr>"
  have al: "xalloc io s = (?s, True)" using sv by (simp add: xalloc_def serves_def)
  have "serves io fs V N ?s" by (rule serves_mem [OF sv]) simp
  then obtain s' ino where o: "openinode io True fs ?s i = Inr (s', 0, Some ino)" "same_file i0 ino" "serves io fs V N s'" "byte_pos V N fs ino n 0"
    using openinode_ok [OF _ f(1)] by blast
  have "typeandpermissions ino = typeandpermissions i0" using o(2) by (simp add: same_file_def)
  then have "open_directory io fs s i = Inr (s', 0, Some ino)" using o(1) f(2) al by (simp add: open_directory_def)
  moreover have "ino_at (io, fs, V, N, i0, n) (content V (bsz fs div 4) i0 n) 0 s' ino" using o by (simp add: ino_at_def)
  then have "dir_pos (io, fs, V, N, i0, n) es s' ino" unfolding dir_pos_def prod.case using f by (metis drop0)
  ultimately show ?thesis by blast
qed

text \<open>The reference: the components of a path are looked up one after the other, starting from directory \<open>i\<close>.\<close>

inductive walk :: "(nat \<Rightarrow> u8 list) \<Rightarrow> nat \<Rightarrow> fscontext \<Rightarrow> u8 list list \<Rightarrow> nat \<Rightarrow> nat \<Rightarrow> bool" for V N fs where
  walk_here: "walk V N fs [] i i"
| walk_step: "is_dir V N fs i es \<Longrightarrow> dir_lookup c es = Some k \<Longrightarrow> walk V N fs cs k j \<Longrightarrow> walk V N fs (c # cs) i j"

lemma dirent_name_cstr: "name_at r p c \<Longrightarrow> cstr (fst (name_loc r p)) (snd (name_loc r p)) c"
  by (cases p) (simp_all add: name_at_def name_loc_def)

lemma serves_close [simp]: "serves io fs V N (close_directory d s) = serves io fs V N s"
  by (cases d) (simp_all add: close_directory_def closeinode_def)

text \<open>One component of the path.\<close>

lemma resolve_step:
  assumes sv: "serves io fs V N s" and r: "reads r str" and l: "\<forall>c\<in>set (components str). length c \<le> NAME_MAX"
    and cs: "components str = c # cs" and d: "is_dir V N fs i es"
  shows "\<exists>s' r' str' j. reads r' str' \<and> components str' = cs \<and> serves io fs V N s' \<and>
    resolve_names io fs s r i = (case dir_lookup c es of None \<Rightarrow> Some (Inr (s', - ENOENT, j)) | Some k \<Rightarrow> resolve_names io fs s' r' k)"
proof -
  obtain r' p str' where nx: "pathreader_next r = Inr (r', 0, Some p)" "name_at r' p c" "reads r' str'" "components str' = cs"
    using pathreader_next_spec [OF r l] unfolding cs list.case by blast
  obtain s1 d1 i0 n where od: "open_directory io fs s i = Inr (s1, 0, Some d1)" "dir_pos (io, fs, V, N, i0, n) es s1 d1"
    using open_directory_ok [OF sv d] by blast
  note fe = find_entry_ok [OF od(2) dirent_name_cstr [OF nx(2)], of i]
  have z: "(0 :: int) \<noteq> - ENOENT" "\<not> - ENOENT \<ge> (0 :: int)" by (simp_all add: ENOENT_def)
  show ?thesis
  proof (cases "dir_lookup c es")
    case None
    then obtain s2 d2 j where f: "find_entry io fs s1 d1 (name_loc r' p) i = Some (Inr (s2, d2, - ENOENT, j))" "serves io fs V N s2"
      using fe by auto
    have "resolve_names io fs s r i = Some (Inr (close_directory (Some d2) s2, - ENOENT, j))"
      using nx(1) od(1) f(1) z by (subst resolve_names.simps) (simp add: Let_def)
    then show ?thesis using None f(2) nx(3,4) by (intro exI [of _ "close_directory (Some d2) s2"]) auto
  next
    case (Some k)
    then obtain s2 d2 where f: "find_entry io fs s1 d1 (name_loc r' p) i = Some (Inr (s2, d2, 0, k))" "serves io fs V N s2"
      using fe by auto
    have "resolve_names io fs s r i = resolve_names io fs (close_directory (Some d2) s2) r' k"
      using nx(1) od(1) f(1) z by (subst resolve_names.simps) (simp add: Let_def)
    then show ?thesis using Some f(2) nx(3,4) by (intro exI [of _ "close_directory (Some d2) s2"]) auto
  qed
qed

lemma resolve_ok:
  assumes "walk V N fs cs i j" and "components str = cs" and "serves io fs V N s" and "reads r str" and "\<forall>c\<in>set cs. length c \<le> NAME_MAX"
  shows "\<exists>s'. resolve_names io fs s r i = Some (Inr (s', 0, j)) \<and> serves io fs V N s'"
  using assms
proof (induction arbitrary: str s r rule: walk.induct)
  case (walk_here i)
  then obtain r' where "pathreader_next r = Inr (r', - ENOENT, None)" using pathreader_next_spec [of r str] by auto
  then have "resolve_names io fs s r i = Some (Inr (s, 0, i))" by (subst resolve_names.simps) simp
  then show ?case using walk_here by blast
next
  case (walk_step i es c k cs j)
  have l: "\<forall>c\<in>set (components str). length c \<le> NAME_MAX" using walk_step.prems by simp
  obtain s' r' str' where st: "reads r' str'" "components str' = cs" "serves io fs V N s'"
      "resolve_names io fs s r i = resolve_names io fs s' r' k"
    using resolve_step [OF walk_step.prems(2,3) l walk_step.prems(1) walk_step.hyps(1)] walk_step.hyps(2) by auto
  then show ?case using walk_step.IH [OF st(2,3,1)] walk_step.prems(4) by simp
qed

text \<open>A component that is missing in its directory.\<close>

lemma resolve_missing:
  assumes "walk V N fs cs i j" and "components str = cs @ c # cs'" and "is_dir V N fs j es" and "dir_lookup c es = None"
    and "serves io fs V N s" and "reads r str" and "\<forall>c\<in>set (components str). length c \<le> NAME_MAX"
  shows "\<exists>s' k. resolve_names io fs s r i = Some (Inr (s', - ENOENT, k)) \<and> serves io fs V N s'"
  using assms
proof (induction arbitrary: str s r rule: walk.induct)
  case (walk_here i)
  have cs: "components str = c # cs'" using walk_here.prems(1) by simp
  show ?case using resolve_step [OF walk_here.prems(4,5,6) cs walk_here.prems(2)] walk_here.prems(3) by auto
next
  case (walk_step i es1 c1 k cs j)
  have cs: "components str = c1 # (cs @ c # cs')" using walk_step.prems(1) by simp
  obtain s' r' str' where st: "reads r' str'" "components str' = cs @ c # cs'" "serves io fs V N s'"
      "resolve_names io fs s r i = resolve_names io fs s' r' k"
    using resolve_step [OF walk_step.prems(4,5,6) cs walk_step.hyps(1)] walk_step.hyps(2) by auto
  then show ?case using walk_step.IH [OF st(2) walk_step.prems(2,3) st(3,1)] walk_step.prems(6) unfolding cs by simp
qed

end
