(* ===== verification/Ext2_Mem.thy ===== *)
theory Ext2_Mem
  imports Ext2_Fs
begin

text \<open>
  The memory of the ext2 driver. Every operation, on every path and for every behaviour of the disk and the allocator,
  accounts for the blocks it holds: the number of live blocks less the buffers of the inode stays the same.
\<close>

definition held1 :: "'a option \<Rightarrow> int" where
  "held1 b = (if b = None then 0 else 1)"

definition held :: "ino_context \<Rightarrow> int" where
  "held ino = held1 (buf (blockbuf ino)) + held1 (buf (singly_indirect_buf ino)) +
     held1 (buf (doubly_indirect_buf ino)) + held1 (buf (triply_indirect_buf ino))"

definition net :: "'d xs \<Rightarrow> ino_context \<Rightarrow> int" where
  "net s ino = x_live s - held ino"

lemma live_xfree [simp]: "x_live (xfree p s) = x_live s - held1 p"
  by (cases p) (auto simp: xfree_def held1_def)

lemma held1_simps [simp]: "held1 None = 0" "held1 (Some x) = 1" "buf no_buf = None"
  by (simp_all add: held1_def no_buf_def)

lemma held_upd [simp]:
  "held (ino\<lparr>blockbuf := b\<rparr>) = held ino - held1 (buf (blockbuf ino)) + held1 (buf b)"
  "held (ino\<lparr>singly_indirect_buf := b\<rparr>) = held ino - held1 (buf (singly_indirect_buf ino)) + held1 (buf b)"
  "held (ino\<lparr>doubly_indirect_buf := b\<rparr>) = held ino - held1 (buf (doubly_indirect_buf ino)) + held1 (buf b)"
  "held (ino\<lparr>triply_indirect_buf := b\<rparr>) = held ino - held1 (buf (triply_indirect_buf ino)) + held1 (buf b)"
  "held (ino\<lparr>singly_indirect_used := u\<rparr>) = held ino" "held (ino\<lparr>doubly_indirect_used := u\<rparr>) = held ino"
  "held (ino\<lparr>triply_indirect_used := u\<rparr>) = held ino" "held (ino\<lparr>next_direct_ptr_index := i\<rparr>) = held ino"
  "held (ino\<lparr>current_block_addr := a\<rparr>) = held ino" "held (ino\<lparr>cnt := i\<rparr>) = held ino"
  by (simp_all add: held_def)

lemma live_read_blocks: "read_blocks io fs s b n = Inr (s', ret, bytes) \<Longrightarrow> x_live s' = x_live s"
  by (cases "ldisk_read_exact (x_ops io) (x_dev s) (fs_disk fs) (sz_mul (unat b) (to_size (blocksize fs) div block_size (fs_physdisk fs)))
        (sz_mul n (to_size (blocksize fs) div block_size (fs_physdisk fs)))")
    (auto simp: read_blocks_def Let_def bind_res_eq_Inr div_res_def split: if_splits)

lemma live_readblocks_alloc:
  assumes "readblocks_alloc io fs s b n = Inr (s', ret, p)"
  shows "x_live s' = x_live s + held1 p" and "ret < 0 \<longleftrightarrow> p = None"
proof -
  obtain s1 ok where a: "alloc_block_buf io fs s n = Inr (s1, ok)"
    using assms by (auto simp: readblocks_alloc_def bind_res_eq_Inr)
  have l: "x_live s1 = x_live s + (if ok then 1 else 0)"
    using a by (auto simp: alloc_block_buf_def xalloc_def bind_res_eq_Inr split: if_splits)
  have "x_live s' = x_live s + held1 p \<and> (ret < 0 \<longleftrightarrow> p = None)"
  proof (cases ok)
    case False
    then show ?thesis using assms a l by (auto simp: readblocks_alloc_def ENOMEM_def)
  next
    case True
    then obtain s2 r bytes where "read_blocks io fs s1 b n = Inr (s2, r, bytes)"
      using assms a by (auto simp: readblocks_alloc_def bind_res_eq_Inr)
    then show ?thesis using assms a l True live_read_blocks by (fastforce simp: readblocks_alloc_def split: if_splits)
  qed
  then show "x_live s' = x_live s + held1 p" and "ret < 0 \<longleftrightarrow> p = None" by auto
qed

subsection \<open>The iterator\<close>

lemma net_load_table:
  assumes "bind_res (readblocks_alloc io fs s ta n) (\<lambda>(s, ret, nt). if ret < 0 then Inr (s, ino, ret) else Inr (xfree old s, upd nt, r0)) = Inr (s', ino', ret')"
    and "\<And>nt. held (upd nt) = held ino - held1 old + held1 nt"
  shows "net s' ino' = net s ino"
proof -
  obtain s1 r nt where rb: "readblocks_alloc io fs s ta n = Inr (s1, r, nt)"
    using assms(1) by (cases "readblocks_alloc io fs s ta n") auto
  note l = live_readblocks_alloc [OF rb]
  show ?thesis
  proof (cases "r < 0")
    case True
    then show ?thesis using assms(1) rb l by (simp add: net_def)
  next
    case False
    then have "s' = xfree old s1" "ino' = upd nt" using assms(1) rb by simp_all
    then show ?thesis using l(1) assms(2) by (simp add: net_def)
  qed
qed

lemma net_triply_table:
  assumes "next_triply_indirect_table io fs s ino = Inr (s', ino', ret)"
  shows "net s' ino' = net s ino"
proof (cases "triply_indirect_used ino \<or> triplyindirecttable ino = 0")
  case True
  then show ?thesis using assms by (auto simp: next_triply_indirect_table_def net_def split: if_splits)
next
  case False
  then have u: "\<not> triply_indirect_used ino" "triplyindirecttable ino \<noteq> 0" by auto
  show ?thesis
    by (rule net_load_table [OF assms [unfolded next_triply_indirect_table_def if_not_P [OF u(1)] Let_def if_not_P [OF u(2)]]]) simp
qed

lemma net_triply_ptr:
  assumes "next_triply_block_ptr io fs s ino a0 = Inr (s', ino', ret, a)"
  shows "net s' ino' = net s ino"
proof -
  obtain s1 ino1 ret1 where t: "(if used_up fs (triply_indirect_buf ino) then next_triply_indirect_table io fs s ino else Inr (s, ino, - ENOENT)) = Inr (s1, ino1, ret1)"
    and r: "(s', ino') = (s1, ino1) \<or> (\<exists>off. (s', ino') = (s1, ino1\<lparr>triply_indirect_used := True, triply_indirect_buf := (triply_indirect_buf ino1)\<lparr>offset_in_buf := off\<rparr>\<rparr>))"
    using assms by (auto simp: next_triply_block_ptr_def bind_res_eq_Inr Let_def split: if_splits)
  have "net s1 ino1 = net s ino" using t net_triply_table by (auto split: if_splits)
  then show ?thesis using r by (auto simp: net_def)
qed

lemma net_doubly_table:
  assumes "next_doubly_indirect_table io fs s ino = Inr (s', ino', ret)"
  shows "net s' ino' = net s ino"
proof -
  obtain s1 ino1 ret1 ta where t: "(if \<not> doubly_indirect_used ino then
          Inr (s, ino\<lparr>doubly_indirect_used := True\<rparr>, if doublyindirecttable ino \<noteq> 0 then 0 else - ENOENT, doublyindirecttable ino)
        else next_triply_block_ptr io fs s ino 0) = Inr (s1, ino1, ret1, ta)"
    using assms unfolding next_doubly_indirect_table_def bind_res_eq_Inr by auto
  have "net s1 ino1 = net s ino" using t net_triply_ptr by (auto simp: net_def split: if_splits)
  moreover have "net s' ino' = net s1 ino1"
  proof (cases "ret1 < 0")
    case True
    then show ?thesis using assms unfolding next_doubly_indirect_table_def t bind_res_Inr prod.case by (auto simp: net_def)
  next
    case False
    show ?thesis
      by (rule net_load_table [OF assms [unfolded next_doubly_indirect_table_def t bind_res_Inr prod.case if_not_P [OF False]]]) simp
  qed
  ultimately show ?thesis by simp
qed

lemma net_doubly_ptr:
  assumes "next_doubly_block_ptr io fs s ino a0 = Inr (s', ino', ret, a)"
  shows "net s' ino' = net s ino"
proof -
  obtain s1 ino1 ret1 where t: "(if used_up fs (doubly_indirect_buf ino) then next_doubly_indirect_table io fs s ino else Inr (s, ino, - ENOENT)) = Inr (s1, ino1, ret1)"
    and r: "(s', ino') = (s1, ino1) \<or> (\<exists>off. (s', ino') = (s1, ino1\<lparr>doubly_indirect_buf := (doubly_indirect_buf ino1)\<lparr>offset_in_buf := off\<rparr>\<rparr>))"
    using assms by (auto simp: next_doubly_block_ptr_def bind_res_eq_Inr Let_def split: if_splits)
  have "net s1 ino1 = net s ino" using t net_doubly_table by (auto split: if_splits)
  then show ?thesis using r by (auto simp: net_def)
qed

lemma net_singly_table:
  assumes "next_singly_indirect_table io fs s ino = Inr (s', ino', ret)"
  shows "net s' ino' = net s ino"
proof -
  obtain s1 ino1 ret1 ta where t: "(if \<not> singly_indirect_used ino then
          Inr (s, ino, if singly_indirect_table ino \<noteq> 0 then 0 else - ENOENT, singly_indirect_table ino)
        else next_doubly_block_ptr io fs s ino 0) = Inr (s1, ino1, ret1, ta)"
    using assms unfolding next_singly_indirect_table_def bind_res_eq_Inr by auto
  have "net s1 ino1 = net s ino" using t net_doubly_ptr by (auto split: if_splits)
  moreover have "net s' ino' = net s1 ino1"
  proof (cases "ret1 < 0")
    case True
    then show ?thesis using assms unfolding next_singly_indirect_table_def t bind_res_Inr prod.case by (auto simp: net_def)
  next
    case False
    show ?thesis
      by (rule net_load_table [OF assms [unfolded next_singly_indirect_table_def t bind_res_Inr prod.case if_not_P [OF False]]]) simp
  qed
  ultimately show ?thesis by simp
qed

lemma net_singly_ptr:
  assumes "next_singly_block_ptr io fs s ino a0 = Inr (s', ino', ret, a)"
  shows "net s' ino' = net s ino"
proof -
  obtain s1 ino1 ret1 where t: "(if used_up fs (singly_indirect_buf ino) then next_singly_indirect_table io fs s ino else Inr (s, ino, - ENOENT)) = Inr (s1, ino1, ret1)"
    and r: "(s', ino') = (s1, ino1) \<or> (\<exists>off. (s', ino') = (s1, ino1\<lparr>singly_indirect_buf := (singly_indirect_buf ino1)\<lparr>offset_in_buf := off\<rparr>\<rparr>))"
    using assms by (auto simp: next_singly_block_ptr_def bind_res_eq_Inr Let_def split: if_splits)
  have "net s1 ino1 = net s ino" using t net_singly_table by (auto split: if_splits)
  then show ?thesis using r by (auto simp: net_def)
qed

lemma net_next_block:
  assumes "next_inode_block io fs s ino = Inr (s', ino', ret)"
  shows "net s' ino' = net s ino"
proof -
  define X where "X = (if next_direct_ptr_index ino < DIRECT_BLOCK_POINTER_COUNT then
          bind_res (next_direct_block_ptr ino 0) (\<lambda>(self, ret, a). Inr (s, self, ret, a))
        else next_singly_block_ptr io fs s ino 0)"
  note body = assms [unfolded next_inode_block_def, folded X_def]
  obtain s1 ino1 r a where X: "X = Inr (s1, ino1, r, a)" using body by (cases X) auto
  have "net s1 ino1 = net s ino"
  proof (cases "next_direct_ptr_index ino < DIRECT_BLOCK_POINTER_COUNT")
    case True
    then have nd: "bind_res (next_direct_block_ptr ino 0) (\<lambda>(self, ret, a). Inr (s, self, ret, a)) = Inr (s1, ino1, r, a)"
      using X by (simp add: X_def)
    then obtain p where "load (direct_block_ptrs ino) (next_direct_ptr_index ino) = Inr p"
      by (cases "load (direct_block_ptrs ino) (next_direct_ptr_index ino)") (auto simp: next_direct_block_ptr_def)
    then show ?thesis using nd by (cases "p = 0") (simp_all add: next_direct_block_ptr_def net_def, (metis held_upd(8))?)
  next
    case False
    then show ?thesis using X net_singly_ptr by (simp add: X_def)
  qed
  moreover have "s' = s1" "ino' = (if r = 0 then ino1\<lparr>current_block_addr := a, cnt := sz_add (cnt ino1) 1\<rparr> else ino1)"
    using body [unfolded X bind_res_Inr prod.case sum.inject prod.inject] by metis+
  ultimately show ?thesis by (cases "r = 0") (simp_all add: net_def)
qed

lemma net_step_block: "step_block io fs s ino ret = Inr (s', ino', ret') \<Longrightarrow> net s' ino' = net s ino"
  by (auto simp: step_block_def next_inode_block_and_reset_blockbuf_def bind_res_eq_Inr net_def split: if_splits
      dest!: net_next_block [unfolded net_def])

lemma net_rewind: "rewindinode io fs s ino = Inr (s', ino') \<Longrightarrow> net s' ino' = net s ino"
  by (auto simp: rewindinode_def free_bufs_def bind_res_eq_Inr Let_def net_def dest!: net_next_block [unfolded net_def])

lemma net_skip_blocks: "skip_blocks n io fs s ino ret = Inr (s', ino', ret') \<Longrightarrow> net s' ino' = net s ino"
proof (induction n arbitrary: s ino ret)
  case (Suc n)
  then show ?case by (auto simp: bind_res_eq_Inr split: if_splits dest!: net_next_block)
qed auto

lemma net_skip_whole: "skip_whole io fs s ino ret r = Inr (s', ino', ret', r') \<Longrightarrow> net s' ino' = net s ino"
  by (auto simp: skip_whole_def bind_res_eq_Inr Let_def net_def split: if_splits dest!: net_skip_blocks [unfolded net_def])

lemma net_advance [simp]: "net s (advance n ino) = net s ino"
  by (simp add: net_def held_def advance_def)

lemma net_skip_loop: "skipread_loop io fs s ino ret r = Inr (s', ino', ret') \<Longrightarrow> net s' ino' = net s ino"
proof (induction r arbitrary: s ino ret rule: less_induct)
  case (less r)
  show ?case
  proof (cases "r = 0")
    case True
    then show ?thesis using less.prems by (simp add: skipread_loop.simps)
  next
    case False
    obtain s1 ino1 ret1 where st: "step_block io fs s ino ret = Inr (s1, ino1, ret1)"
      using less.prems False by (auto simp: skipread_loop.simps [of io fs s] bind_res_eq_Inr)
    note n1 = net_step_block [OF st]
    show ?thesis
    proof (cases "ret1 < 0")
      case True
      then show ?thesis using less.prems False st n1 by (simp add: skipread_loop.simps [of io fs s])
    next
      case ok1: False
      obtain s2 ino2 ret2 r2 where wh: "skip_whole io fs s1 ino1 ret1 r = Inr (s2, ino2, ret2, r2)"
        using less.prems False st ok1 by (auto simp: skipread_loop.simps [of io fs s] bind_res_eq_Inr)
      note n2 = net_skip_whole [OF wh] and le = skip_whole_le [OF wh]
      let ?c = "chunk_len fs ino2 r2"
      have "(s', ino') = (s2, ino2) \<or> (?c \<noteq> 0 \<and> r2 \<noteq> 0 \<and> skipread_loop io fs s2 (advance ?c ino2) ret2 (r2 - ?c) = Inr (s', ino', ret'))"
        using less.prems False st ok1 wh
        by (auto simp: skipread_loop.simps [of io fs s] bind_res_eq_Inr assert_res_eq_Inr Let_def split: if_splits)
      moreover have "r2 - ?c < r" if "?c \<noteq> 0" "r2 \<noteq> 0" using that le by linarith
      ultimately show ?thesis using less.IH n1 n2 by (metis net_advance prod.inject)
    qed
  qed
qed

lemma net_skip: "skipread_inode io fs s ino len = Inr (s', ino', ret') \<Longrightarrow> net s' ino' = net s ino"
  by (auto simp: skipread_inode_def bind_res_eq_Inr dest!: net_skip_loop)

lemma net_seek_loop: "seek_set_loop io fs s ino ret r = Inr (s', ino', ret') \<Longrightarrow> net s' ino' = net s ino"
proof (induction io fs s ino ret r rule: seek_set_loop.induct)
  case (1 io fs s ino ret r)
  show ?case
  proof (cases "r = 0")
    case True
    then show ?thesis using "1.prems" by (simp add: seek_set_loop.simps [of io fs s])
  next
    case False
    let ?k = "if int size_max < r then int size_max else r"
    obtain s1 ino1 ret1 where sk: "skipread_inode io fs s ino (to_size ?k) = Inr (s1, ino1, ret1)"
      using "1.prems" False by (auto simp: seek_set_loop.simps [of io fs s] bind_res_eq_Inr Let_def)
    have "(s', ino') = (s1, ino1) \<or> (ret1 \<noteq> - ENOENT \<and> \<not> ret1 < 0 \<and> seek_set_loop io fs s1 ino1 ret1 (r - ?k) = Inr (s', ino', ret'))"
      using "1.prems" False sk by (auto simp: seek_set_loop.simps [of io fs s] Let_def split: if_splits)
    then show ?thesis using "1.IH" [OF False refl sk refl refl] net_skip [OF sk] by auto
  qed
qed

lemma net_seek: "seek_inode io fs s ino off w = Inr (s', ino', ret') \<Longrightarrow> net s' ino' = net s ino"
  by (auto simp: seek_inode_def bind_res_eq_Inr split: if_splits dest!: net_seek_loop net_rewind)

subsection \<open>Reading\<close>

lemma net_gather: "gather_loop n io fs s ino ret lb c dest r = Inr (s', ino', rest) \<Longrightarrow> net s' ino' = net s ino"
proof (induction n arbitrary: s ino ret lb c dest r)
  case (Suc n)
  obtain s1 ino1 ret1 where nb: "next_inode_block io fs s ino = Inr (s1, ino1, ret1)" using Suc.prems by (auto simp: bind_res_eq_Inr)
  note n1 = net_next_block [OF nb]
  have rb: "net s2 ino1 = net s1 ino1" if "read_blocks io fs s1 lb c = Inr (s2, ret2, bytes)" for s2 ret2 bytes
    using live_read_blocks [OF that] by (simp add: net_def)
  show ?case using Suc.prems nb n1 rb
    by (auto simp: bind_res_eq_Inr Let_def split: if_splits dest!: Suc.IH simp del: One_nat_def)
qed auto

lemma net_read_blocks:
  assumes "read_inode_blocks io fs s ino count dest r = Inr (s', ino', rest)"
  shows "net s' ino' = net s ino"
proof -
  obtain s1 ino1 ret1 lb c dest1 r1 where g: "gather_loop (sz_sub count 1) io fs s ino (- ENOENT) (current_block_addr ino) 1 dest r =
      Inr (s1, ino1, ret1, lb, c, dest1, r1)"
    using assms by (cases "gather_loop (sz_sub count 1) io fs s ino (- ENOENT) (current_block_addr ino) 1 dest r") (auto simp: read_inode_blocks_def)
  note n1 = net_gather [OF g]
  show ?thesis
  proof (cases "sz_sub count 1 \<noteq> 0 \<and> ret1 < 0")
    case True
    then show ?thesis using assms n1 unfolding read_inode_blocks_def g bind_res_Inr prod.case if_P [OF True] by auto
  next
    case False
    obtain s2 ret2 bytes where rb: "read_blocks io fs s1 lb c = Inr (s2, ret2, bytes)"
      using assms unfolding read_inode_blocks_def g bind_res_Inr prod.case if_not_P [OF False] by (cases "read_blocks io fs s1 lb c") auto
    note l = live_read_blocks [OF rb]
    show ?thesis
    proof (cases "ret2 < 0")
      case True
      then show ?thesis
        using assms n1 l unfolding read_inode_blocks_def g bind_res_Inr prod.case if_not_P [OF False] rb if_P [OF True] by (auto simp: net_def)
    next
      case ok: False
      let ?s = "xfree (buf (blockbuf ino1)) s2" and ?ino = "ino1\<lparr>blockbuf := (blockbuf ino1)\<lparr>buf := None\<rparr>\<rparr>"
      have nb: "\<exists>ret. next_inode_block io fs ?s ?ino = Inr (s', ino', ret)"
        using assms unfolding read_inode_blocks_def g bind_res_Inr prod.case if_not_P [OF False] rb if_not_P [OF ok] Let_def
        by (cases "next_inode_block io fs ?s ?ino") auto
      then have "net s' ino' = net ?s ?ino" using net_next_block by blast
      then show ?thesis using n1 l by (simp add: net_def)
    qed
  qed
qed

lemma net_read_whole:
  assumes "read_whole io fs s ino ret dest r = Inr (s', ino', ret', dest', r')"
  shows "net s' ino' = net s ino"
proof (cases "offset_in_buf (blockbuf ino) = 0 \<and> to_size (blocksize fs) \<le> r")
  case True
  obtain count where d: "div_res r (to_size (blocksize fs)) = Inr count"
    using assms unfolding read_whole_def if_P [OF True] by (cases "div_res r (to_size (blocksize fs))") auto
  obtain s1 ino1 rest where rb: "read_inode_blocks io fs s ino count dest r = Inr (s1, ino1, rest)"
    using assms unfolding read_whole_def if_P [OF True] d bind_res_Inr by (cases "read_inode_blocks io fs s ino count dest r") auto
  have "s' = s1" "ino' = ino1"
    using assms unfolding read_whole_def if_P [OF True] d bind_res_Inr rb
    by (auto simp: bind_res_eq_Inr split: prod.splits if_splits)
  then show ?thesis using net_read_blocks [OF rb] by simp
qed (use assms in \<open>auto simp: read_whole_def\<close>)

lemma net_fill:
  assumes "fill_blockbuf io fs s ino ret = Inr (s', ino', ret')"
  shows "net s' ino' = net s ino"
proof (cases "buf (blockbuf ino) = None")
  case True
  obtain s1 r nt where rb: "readblocks_alloc io fs s (current_block_addr ino) 1 = Inr (s1, r, nt)"
    using assms unfolding fill_blockbuf_def if_P [OF True] by (cases "readblocks_alloc io fs s (current_block_addr ino) 1") auto
  show ?thesis using assms live_readblocks_alloc [OF rb] True unfolding fill_blockbuf_def if_P [OF True] rb
    by (auto simp: net_def split: if_splits)
qed (use assms in \<open>auto simp: fill_blockbuf_def\<close>)

lemma net_read_loop: "read_loop io fs s ino ret dest r = Inr (s', ino', ret', dest') \<Longrightarrow> net s' ino' = net s ino"
proof (induction r arbitrary: s ino ret dest rule: less_induct)
  case (less r)
  show ?case
  proof (cases "r = 0")
    case True
    then show ?thesis using less.prems by (simp add: read_loop.simps)
  next
    case r0: False
    note body = less.prems [unfolded read_loop.simps [of io fs s] if_not_P [OF r0]]
    obtain s1 ino1 ret1 where st: "step_block io fs s ino ret = Inr (s1, ino1, ret1)"
      using body by (cases "step_block io fs s ino ret") auto
    note n1 = net_step_block [OF st] and body = body [unfolded st bind_res_Inr prod.case]
    show ?thesis
    proof (cases "ret1 < 0")
      case True
      then show ?thesis using body n1 by simp
    next
      case ok1: False
      note body = body [unfolded if_not_P [OF ok1]]
      obtain s2 ino2 ret2 dest2 r2 where wh: "read_whole io fs s1 ino1 ret1 dest r = Inr (s2, ino2, ret2, dest2, r2)"
        using body by (cases "read_whole io fs s1 ino1 ret1 dest r") auto
      note n2 = net_read_whole [OF wh] and le = read_whole_le [OF wh] and body = body [unfolded wh bind_res_Inr prod.case]
      show ?thesis
      proof (cases "ret2 < 0 \<or> r2 = 0")
        case True
        then show ?thesis using body n1 n2 by (auto split: if_splits)
      next
        case False
        then have ok2: "\<not> ret2 < 0" "r2 \<noteq> 0" by auto
        note body = body [unfolded if_not_P [OF ok2(1)] if_not_P [OF ok2(2)]]
        obtain s3 ino3 ret3 where fl: "fill_blockbuf io fs s2 ino2 ret2 = Inr (s3, ino3, ret3)"
          using body by (cases "fill_blockbuf io fs s2 ino2 ret2") auto
        note n3 = net_fill [OF fl] and body = body [unfolded fl bind_res_Inr prod.case]
        let ?c = "chunk_len fs ino3 r2"
        have "(s', ino') = (s3, ino3) \<or> (?c \<noteq> 0 \<and> (\<exists>d. read_loop io fs s3 (advance ?c ino3) ret3 d (r2 - ?c) = Inr (s', ino', ret', dest')))"
          using body by (auto simp: bind_res_eq_Inr assert_res_eq_Inr Let_def split: if_splits)
        moreover have "r2 - ?c < r" if "?c \<noteq> 0" using that le ok2 by linarith
        ultimately show ?thesis using less.IH n1 n2 n3 by (metis net_advance prod.inject)
      qed
    qed
  qed
qed

lemma net_read: "read_inode io fs s ino len = Inr (s', ino', ret', bytes) \<Longrightarrow> net s' ino' = net s ino"
  unfolding read_inode_def by (auto simp: bind_res_eq_Inr dest!: net_read_loop)

subsection \<open>Opening\<close>

lemma live_descriptor:
  assumes "read_block_group_descriptor io fs s g = Inr (s', ret, bg)"
  shows "x_live s' = x_live s"
proof -
  define bo where "bo = (word_of_int (int (unat g) * int DESCRIPTOR_SIZE sdiv blocksize fs) :: u32) + of_nat (blk_group_descriptor_blk fs)"
  obtain s1 r b where rb: "readblocks_alloc io fs s bo 1 = Inr (s1, r, b)"
    using assms by (cases "readblocks_alloc io fs s bo 1")
      (auto simp: read_block_group_descriptor_def bo_def Let_def assert_res_def split: if_splits)
  have "s' = xfree b s1"
    using assms rb by (auto simp: read_block_group_descriptor_def bo_def Let_def assert_res_def bind_res_eq_Inr split: if_splits)
  then show ?thesis using live_readblocks_alloc(1) [OF rb] by simp
qed

lemma live_locate:
  assumes "locate_inode io fs s i = Inr (s', ret, a, off)"
  shows "x_live s' = x_live s"
proof -
  obtain g where g: "block_group_of_inode fs i = Inr g" using assms by (cases "block_group_of_inode fs i") (auto simp: locate_inode_def)
  obtain s1 r bg where bg: "read_block_group_descriptor io fs s g = Inr (s1, r, bg)"
    using assms g by (cases "read_block_group_descriptor io fs s g") (auto simp: locate_inode_def)
  have "s' = s1" using assms unfolding locate_inode_def g bg bind_res_Inr prod.case Let_def
    by (auto simp: bind_res_eq_Inr assert_res_eq_Inr split: if_splits option.splits)
  then show ?thesis using live_descriptor [OF bg] by simp
qed

definition held_opt :: "ino_context option \<Rightarrow> int" where
  "held_opt p = (case p of None \<Rightarrow> 0 | Some i \<Rightarrow> held i)"

lemma held_opt_simps [simp]: "held_opt None = 0" "held_opt (Some i) = held i"
  by (simp_all add: held_opt_def)

lemma live_closeinode [simp]: "x_live (closeinode p s) = x_live s - held_opt p"
  by (cases p) (simp_all add: closeinode_def free_bufs_def held_def)

lemma fresh_held: "inode_at fs b = Inr (Some i) \<Longrightarrow> held i = 0"
  by (auto simp: inode_at_def bind_res_eq_Inr held_def split: if_splits)

lemma live_open:
  assumes "openinode io valid fs s i = Inr (s', ret, p)"
  shows "x_live s' = x_live s + held_opt p" and "ret < 0 \<longleftrightarrow> p = None"
proof -
  obtain s1 r1 a off where l: "locate_inode io fs s i = Inr (s1, r1, a, off)"
    using assms by (cases "locate_inode io fs s i") (auto simp: openinode_def)
  note b1 = assms [unfolded openinode_def l bind_res_Inr prod.case] and n1 = live_locate [OF l]
  have "x_live s' = x_live s + held_opt p \<and> (ret < 0 \<longleftrightarrow> p = None)"
  proof (cases "r1 < 0")
    case True
    then show ?thesis using b1 n1 by auto
  next
    case ok1: False
    note b2 = b1 [unfolded if_not_P [OF ok1]]
    obtain s2 r2 b where rb: "readblocks_alloc io fs s1 a 1 = Inr (s2, r2, b)" using b2 by (cases "readblocks_alloc io fs s1 a 1") auto
    note b3 = b2 [unfolded rb bind_res_Inr prod.case] and n2 = live_readblocks_alloc [OF rb]
    show ?thesis
    proof (cases "r2 < 0")
      case True
      then show ?thesis using b3 n1 n2 by auto
    next
      case ok2: False
      obtain bytes where bb: "b = Some bytes" using n2(2) ok2 by auto
      have valid using b3 ok2 by (auto split: if_splits)
      note b4 = b3 [unfolded if_not_P [OF ok2] bb buf_of_def option.case bind_res_Inr]
      obtain q where q: "inode_at fs (drop (nat off) bytes) = Inr q"
        using b4 \<open>valid\<close> by (cases "inode_at fs (drop (nat off) bytes)") auto
      show ?thesis
      proof (cases q)
        case None
        then show ?thesis using b4 \<open>valid\<close> q n1 n2 bb by (auto simp: EINVAL_def)
      next
        case (Some ino)
        obtain s3 ino3 r3 where nb: "next_inode_block io fs s2 ino = Inr (s3, ino3, r3)"
          using b4 \<open>valid\<close> q Some by (cases "next_inode_block io fs s2 ino") auto
        have "s' = xfree b s3" "p = Some ino3" "0 \<le> ret"
          using b4 \<open>valid\<close> q Some nb bb by (auto simp: bind_res_eq_Inr assert_res_eq_Inr)
        moreover have "x_live s3 = x_live s2 + held ino3"
          using net_next_block [OF nb] fresh_held [OF q [unfolded Some]] by (simp add: net_def)
        ultimately show ?thesis using n1 n2 bb by auto
      qed
    qed
  qed
  then show "x_live s' = x_live s + held_opt p" and "ret < 0 \<longleftrightarrow> p = None" by auto
qed

lemma live_open_directory:
  assumes "open_directory io fs s i = Inr (s', ret, p)"
  shows "x_live s' = x_live s + held_opt p + held1 p" and "ret < 0 \<longleftrightarrow> p = None"
proof -
  have "x_live s' = x_live s + held_opt p + held1 p \<and> (ret < 0 \<longleftrightarrow> p = None)"
  proof (cases "x_oom io (x_allocs s)")
    case True
    then show ?thesis using assms by (auto simp: open_directory_def xalloc_def ENOMEM_def)
  next
    case False
    let ?s = "s\<lparr>x_allocs := x_allocs s + 1, x_live := x_live s + 1\<rparr>"
    have b: "bind_res (openinode io True fs ?s i) (\<lambda>(s, ret, ino).
        if ret < 0 then Inr (xfree (Some ()) s, ret, None)
        else
          (case ino of None \<Rightarrow> Inl Null_deref
           | Some i \<Rightarrow>
               if typeandpermissions i AND INODE_TYPE_MASK \<noteq> INODE_TYPE_DIRECTORY
               then Inr (xfree (Some ()) (closeinode (Some i) s), - ENOTDIR, None)
               else Inr (s, ret, Some i))) = Inr (s', ret, p)"
      using assms False by (simp add: open_directory_def xalloc_def)
    obtain s1 r1 q where o: "openinode io True fs ?s i = Inr (s1, r1, q)" using b by (cases "openinode io True fs ?s i") auto
    note l = live_open [OF o] and b1 = b [unfolded o bind_res_Inr prod.case]
    show ?thesis using b1 l by (cases q) (auto simp: ENOTDIR_def split: if_splits)
  qed
  then show "x_live s' = x_live s + held_opt p + held1 p" and "ret < 0 \<longleftrightarrow> p = None" by auto
qed

lemma net_read_entry:
  assumes "read_entry io fs s ino = Inr (s', ino', ret, out, again)"
  shows "net s' ino' = net s ino"
proof -
  obtain s1 ino1 r1 h where rd: "read_inode io fs s ino 8 = Inr (s1, ino1, r1, h)"
    using assms by (cases "read_inode io fs s ino 8") (auto simp: read_entry_def)
  note n1 = net_read [OF rd] and b1 = assms [unfolded read_entry_def rd bind_res_Inr prod.case Let_def]
  have "(s', ino') = (s1, ino1) \<or> (\<exists>n s2 ino2 r2 nm. read_inode io fs s1 ino1 n = Inr (s2, ino2, r2, nm) \<and>
      ((s', ino') = (s2, ino2) \<or> (\<exists>k r3. skipread_inode io fs s2 ino2 k = Inr (s', ino', r3))))"
    using b1 by (auto simp: bind_res_eq_Inr split: if_splits) (metis)+
  then show ?thesis using n1 net_read net_skip by (metis prod.inject)
qed

lemma net_read_directory:
  assumes "read_directory io fs s ino = Some (Inr (s', ino', ret, out))"
  shows "net s' ino' = net s ino"
proof -
  have "\<forall>s' ino' ret out. y = Inr (s', ino', ret, out) \<longrightarrow> net s' ino' = net s ino" if "read_directory io fs s ino = Some y" for y
  proof (rule read_directory.raw_induct [of "\<lambda>io fs s ino y. \<forall>s' ino' ret out. y = Inr (s', ino', ret, out) \<longrightarrow> net s' ino' = net s ino", OF _ that])
    fix rec io fs s ino y
    assume ih: "\<And>io fs s ino y. rec io fs s ino = Some y \<Longrightarrow> \<forall>s' ino' ret out. y = Inr (s', ino', ret, out) \<longrightarrow> net s' ino' = net s ino"
      and b: "(case read_entry io fs s ino of Inl e \<Rightarrow> Some (Inl e)
        | Inr (s, ino, ret, out, again) \<Rightarrow> if again then rec io fs s ino else Some (Inr (s, ino, ret, out))) = Some y"
    then show "\<forall>s' ino' ret out. y = Inr (s', ino', ret, out) \<longrightarrow> net s' ino' = net s ino"
      by (auto split: sum.splits if_splits dest!: net_read_entry ih)
  qed
  then show ?thesis using assms by blast
qed

lemma net_find_entry:
  assumes "find_entry io fs s ino name cur = Some (Inr (s', ino', ret, out))"
  shows "net s' ino' = net s ino"
proof -
  have "\<forall>s' ino' ret out. y = Inr (s', ino', ret, out) \<longrightarrow> net s' ino' = net s ino" if "find_entry io fs s ino name cur = Some y" for y
  proof (rule find_entry.raw_induct [of "\<lambda>io fs s ino name cur y. \<forall>s' ino' ret out. y = Inr (s', ino', ret, out) \<longrightarrow> net s' ino' = net s ino", OF _ that])
    fix rec io fs s dir name current_ino y
    assume ih: "\<And>io fs s ino name cur y. rec io fs s ino name cur = Some y \<Longrightarrow> \<forall>s' ino' ret out. y = Inr (s', ino', ret, out) \<longrightarrow> net s' ino' = net s ino"
      and b: "(case read_directory io fs s dir of None \<Rightarrow> None
        | Some (Inl e) \<Rightarrow> Some (Inl e)
        | Some (Inr (s, dir, ret, ent)) \<Rightarrow>
            if ret = - ENOENT then Some (Inr (s, dir, - ENOENT, current_ino))
            else if ret < 0 then Some (Inr (s, dir, ret, current_ino))
            else
              (case kstrcmp (fst name) (snd name) (d_name ent) 0 of
                 Inl e \<Rightarrow> Some (Inl e)
               | Inr d \<Rightarrow> if d = 0 then Some (Inr (s, dir, 0, d_ino ent)) else rec io fs s dir name (d_ino ent))) = Some y"
    then show "\<forall>s' ino' ret out. y = Inr (s', ino', ret, out) \<longrightarrow> net s' ino' = net s dir"
      by (auto split: option.splits sum.splits if_splits dest!: net_read_directory ih)
  qed
  then show ?thesis using assms by blast
qed

lemma live_close_directory [simp]: "x_live (close_directory (Some d) s) = x_live s - held d - 1"
  by (simp add: close_directory_def)

lemma live_resolve: "resolve_names io fs s reader cur = Some (Inr (s', ret, i)) \<Longrightarrow> x_live s' = x_live s"
proof (induction io fs s reader cur rule: resolve_names.induct)
  case (1 io fs s reader cur)
  obtain reader' r name where pn: "pathreader_next reader = Inr (reader', r, name)"
    using "1.prems" by (cases "pathreader_next reader") (auto simp: resolve_names.simps [of io fs s])
  note b = "1.prems" [unfolded resolve_names.simps [of io fs s] pn sum.case prod.case]
  show ?case
  proof (cases "r = - ENOENT \<or> r < 0")
    case True
    then show ?thesis using b by (auto split: if_splits)
  next
    case False
    then have ok: "r \<noteq> - ENOENT" "\<not> r < 0" by auto
    note b1 = b [unfolded if_not_P [OF ok(1)] if_not_P [OF ok(2)]]
    obtain p where p: "name = Some p" using b1 by (cases name) auto
    note b2 = b1 [unfolded p option.case]
    obtain s1 r1 dir where od: "open_directory io fs s cur = Inr (s1, r1, dir)" using b2 by (cases "open_directory io fs s cur") auto
    note b3 = b2 [unfolded od sum.case prod.case] and l = live_open_directory [OF od]
    show ?thesis
    proof (cases "r1 < 0")
      case True
      then show ?thesis using b3 l by auto
    next
      case ok1: False
      then obtain d where d: "dir = Some d" using l by auto
      note b4 = b3 [unfolded if_not_P [OF ok1] d option.case]
      obtain s2 d2 r2 c2 where fe: "find_entry io fs s1 d (name_loc reader' p) cur = Some (Inr (s2, d2, r2, c2))"
        using b4 by (auto split: option.splits sum.splits)
      note n = net_find_entry [OF fe] and b5 = b4 [unfolded fe option.case sum.case prod.case Let_def]
      have live: "x_live (close_directory (Some d2) s2) = x_live s" using n l d by (simp add: net_def)
      show ?thesis
      proof (cases "r2 < 0")
        case True
        then show ?thesis using b5 live by auto
      next
        case False
        then show ?thesis using b5 live "1.IH" [OF pn refl refl ok p od refl refl ok1 d fe refl refl refl refl refl False] by auto
      qed
    qed
  qed
qed

lemma live_openfile:
  assumes "openfile io valid fs s i = Inr (s', ret, p)"
  shows "x_live s' = x_live s + held_opt p" and "ret < 0 \<longleftrightarrow> p = None"
proof -
  obtain s1 r1 q where o: "openinode io valid fs s i = Inr (s1, r1, q)"
    using assms by (cases "openinode io valid fs s i") (auto simp: openfile_def)
  note l = live_open [OF o] and b = assms [unfolded openfile_def o bind_res_Inr prod.case]
  have "x_live s' = x_live s + held_opt p \<and> (ret < 0 \<longleftrightarrow> p = None)"
    using b l by (cases q) (auto simp: EISDIR_def assert_res_def split: if_splits)
  then show "x_live s' = x_live s + held_opt p" and "ret < 0 \<longleftrightarrow> p = None" by auto
qed

lemma openfile_valid: "openfile io valid fs s i = Inr (s', ret, Some c) \<Longrightarrow> valid"
proof (rule ccontr)
  assume o: "openfile io valid fs s i = Inr (s', ret, Some c)" and "\<not> valid"
  then obtain s1 r1 q where "openinode io False fs s i = Inr (s1, r1, Some q)"
    by (cases "openinode io False fs s i") (auto simp: openfile_def bind_res_eq_Inr split: if_splits option.splits)
  then show False by (auto simp: openinode_def bind_res_eq_Inr split: if_splits)
qed

lemma live_vfs_open:
  assumes "vfs_op_open io reader0 fs ops self data path p s v = Some (Inr (s', v', ret, f))"
  shows "x_live s' = x_live s + (case f of None \<Rightarrow> 0 | Some c \<Rightarrow> held (fd_ino c) + 1)"
proof -
  obtain s0 ok where al: "xalloc io s = (s0, ok)" by (cases "xalloc io s")
  have l0: "x_live s0 = x_live s + (if ok then 1 else 0)" using al by (auto simp: xalloc_def split: if_splits)
  let ?c = "if ok then Some () else None"
  note b = assms [unfolded vfs_op_open_def al Let_def prod.case]
  obtain s1 r1 i where rs: "ext2_resolve_path io reader0 fs s0 INODE_ROOTDIRECTORY path p = Some (Inr (s1, r1, i))"
    using b by (auto split: option.splits sum.splits)
  have l1: "x_live s1 = x_live s0" using rs live_resolve by (auto simp: ext2_resolve_path_def)
  note b1 = b [unfolded rs option.case sum.case prod.case]
  show ?thesis
  proof (cases "r1 < 0")
    case True
    then show ?thesis using b1 l0 l1 by (auto simp: held1_def)
  next
    case ok1: False
    note b2 = b1 [unfolded if_not_P [OF ok1] option.inject]
    obtain s2 r2 q where o: "openfile io ok fs s1 i = Inr (s2, r2, q)" using b2 by (cases "openfile io ok fs s1 i") auto
    note l2 = live_openfile [OF o] and b3 = b2 [unfolded o bind_res_Inr prod.case]
    show ?thesis
    proof (cases "r2 < 0")
      case True
      then show ?thesis using b3 l0 l1 l2 by (auto simp: held1_def)
    next
      case False
      then obtain ino where q: "q = Some ino" using l2 by auto
      have ok using openfile_valid [OF o [unfolded q]] by simp
      obtain v1 fl r3 where rf: "vfs_register_file ops self data v = Inr (v1, fl, r3)" using b3 False q by (cases "vfs_register_file ops self data v") auto
      then have "r3 = 0" by (auto simp: vfs_register_file_def Let_def split: if_splits)
      then have "s' = s2" "f = Some \<lparr>fd_ino = ino, fd_file = fl, cursorpos = 0\<rparr>" using b3 False q rf by simp_all
      then show ?thesis using \<open>ok\<close> l0 l1 l2 q by simp
    qed
  qed
qed

subsection \<open>Sessions\<close>

text \<open>The calls on an open file that return: reads and seeks, in any order and with any outcome.\<close>

inductive fd_steps :: "'d xio \<Rightarrow> fscontext \<Rightarrow> 'd xs \<times> openfdcontext \<Rightarrow> 'd xs \<times> openfdcontext \<Rightarrow> bool" for io fs where
  fd_done: "fd_steps io fs x x"
| fd_read: "fd_op_read io fs s c len = Inr (s1, c1, n, bytes) \<Longrightarrow> fd_steps io fs (s1, c1) y \<Longrightarrow> fd_steps io fs (s, c) y"
| fd_seek: "fd_op_seek io fs s c off whence = Inr (s1, c1, ret) \<Longrightarrow> fd_steps io fs (s1, c1) y \<Longrightarrow> fd_steps io fs (s, c) y"

lemma net_fd_read:
  assumes "fd_op_read io fs s c len = Inr (s1, c1, n, bytes)"
  shows "net s1 (fd_ino c1) = net s (fd_ino c)" and "fd_file c1 = fd_file c"
proof -
  let ?l = "if ino_size (fd_ino c) - cursorpos c < int len then to_size (ino_size (fd_ino c) - cursorpos c) else len"
  obtain s2 ino2 r2 b2 where rd: "read_inode io fs s (fd_ino c) ?l = Inr (s2, ino2, r2, b2)"
    using assms by (cases "read_inode io fs s (fd_ino c) ?l") (auto simp: fd_op_read_def Let_def assert_res_def split: if_splits)
  have "s1 = s2" "fd_ino c1 = ino2" "fd_file c1 = fd_file c"
    using assms rd unfolding fd_op_read_def Let_def by (auto simp: assert_res_def split: if_splits)
  then show "net s1 (fd_ino c1) = net s (fd_ino c)" and "fd_file c1 = fd_file c" using net_read [OF rd] by auto
qed

lemma net_fd_seek:
  assumes "fd_op_seek io fs s c off w = Inr (s1, c1, ret)"
  shows "net s1 (fd_ino c1) = net s (fd_ino c)"
proof -
  obtain s2 ino2 r2 where sk: "seek_inode io fs s (fd_ino c) off w = Inr (s2, ino2, r2)"
    using assms by (cases "seek_inode io fs s (fd_ino c) off w") (auto simp: fd_op_seek_def)
  have "s1 = s2" "fd_ino c1 = ino2" using assms unfolding fd_op_seek_def sk by (auto simp: assert_res_def split: if_splits)
  then show ?thesis using net_seek [OF sk] by simp
qed

lemma net_fd_steps: "fd_steps io fs x y \<Longrightarrow> net (fst y) (fd_ino (snd y)) = net (fst x) (fd_ino (snd x))"
  by (induction rule: fd_steps.induct) (auto dest!: net_fd_read(1) net_fd_seek)

lemma session_balanced:
  assumes "vfs_op_open io reader0 fs ops self data path p s v = Some (Inr (s1, v1, ret, f))"
  shows "f = None \<Longrightarrow> x_live s1 = x_live s"
    and "f = Some c \<Longrightarrow> fd_steps io fs (s1, c) (s2, c2) \<Longrightarrow> x_live (fst (fd_op_close c2 s2 v2)) = x_live s"
proof -
  note l = live_vfs_open [OF assms]
  show "x_live s1 = x_live s" if "f = None" using l that by simp
  show "x_live (fst (fd_op_close c2 s2 v2)) = x_live s" if "f = Some c" "fd_steps io fs (s1, c) (s2, c2)"
    using l that(1) net_fd_steps [OF that(2)] by (simp add: fd_op_close_def closefile_def net_def)
qed

end
