(* ===== verification/Ext2_Files.thy ===== *)
theory Ext2_Files
  imports Ext2_Dir Ext2_Mem
begin

text \<open>
  Files of a mounted ext2 volume: opening a path and reading it returns the bytes of the file, from the superblock and
  the group descriptors down to the blocks; what a mount accepts; and the operations that fail on ordinary files.
\<close>

subsection \<open>Open files\<close>

text \<open>The bytes of a file of \<open>n\<close> blocks: its content up to its size.\<close>

definition file_bytes :: "(nat \<Rightarrow> u8 list) \<Rightarrow> fscontext \<Rightarrow> ino_context \<Rightarrow> nat \<Rightarrow> u8 list" where
  "file_bytes V fs ino n = take (nat (ino_size ino)) (content V (bsz fs div 4) ino n)"

definition sized :: "(nat \<Rightarrow> u8 list) \<Rightarrow> nat \<Rightarrow> fscontext \<Rightarrow> ino_context \<Rightarrow> nat \<Rightarrow> bool" where
  "sized V N fs ino n \<longleftrightarrow> mapped V N (bsz fs div 4) ino n \<and> file_end V (bsz fs div 4) ino n \<and> 0 < n \<and> 0 \<le> ino_size ino \<and>
     ino_size ino \<le> int (n * bsz fs)"

text \<open>The file \<open>i0\<close> is open and its cursor is at \<open>q\<close>. At the end of the file the inode may stand anywhere.\<close>

definition fd_at :: "'d xio \<Rightarrow> fscontext \<Rightarrow> (nat \<Rightarrow> u8 list) \<Rightarrow> nat \<Rightarrow> ino_context \<Rightarrow> nat \<Rightarrow> 'd xs \<Rightarrow> openfdcontext \<Rightarrow> nat \<Rightarrow> bool" where
  "fd_at io fs V N i0 n s c q \<longleftrightarrow> serves io fs V N s \<and> same_file i0 (fd_ino c) \<and> sized V N fs i0 n \<and>
     cursorpos c = int q \<and> q \<le> length (file_bytes V fs i0 n) \<and>
     (byte_pos V N fs (fd_ino c) n q \<or> q = length (file_bytes V fs i0 n))"

lemma file_bytes_len:
  assumes "serves io fs V N s" and "sized V N fs i0 n"
  shows "length (file_bytes V fs i0 n) = nat (ino_size i0)"
proof -
  have "length (content V (bsz fs div 4) i0 n) = n * bsz fs" using content_length [OF assms(1)] assms(2) by (simp add: sized_def)
  moreover have "nat (ino_size i0) \<le> n * bsz fs" using assms(2) by (simp add: sized_def nat_le_iff)
  ultimately show ?thesis by (simp add: file_bytes_def)
qed

lemma take_drop_take: "take m (drop q xs) = take m (drop q (take k xs))" if "q + m \<le> k"
  using that by (simp add: drop_take)

lemma fd_read_ok:
  assumes at: "fd_at io fs V N i0 n s c q" and len: "len \<le> STREAM_MAX_TRANSFER_SIZE"
  defines "bytes \<equiv> take len (drop q (file_bytes V fs i0 n))"
  shows "\<exists>s' c'. fd_op_read io fs s c len = Inr (s', c', int (length bytes), bytes) \<and> fd_at io fs V N i0 n s' c' (q + length bytes)"
proof -
  let ?d = "file_bytes V fs i0 n" and ?p = "bsz fs div 4" and ?m = "length bytes"
  have a: "serves io fs V N s" "same_file i0 (fd_ino c)" "sized V N fs i0 n" "cursorpos c = int q" "q \<le> length ?d"
      "byte_pos V N fs (fd_ino c) n q \<or> q = length ?d"
    using at by (auto simp: fd_at_def)
  note dl = file_bytes_len [OF a(1,3)]
  have sz: "ino_size (fd_ino c) = ino_size i0" "0 \<le> ino_size i0" "nat (ino_size i0) \<le> n * bsz fs" "file_end V ?p i0 n"
    using a(2,3) by (auto simp: same_file_def sized_def nat_le_iff)
  have m: "?m = min len (length ?d - q)" by (simp add: bytes_def)
  have mb: "?m \<le> len" "q + ?m \<le> length ?d" "?m < 2 ^ 31" using m a(5) len by (auto simp: STREAM_MAX_TRANSFER_SIZE_def)
  have mx: "ino_size (fd_ino c) - cursorpos c = int (length ?d - q)" using sz a(4,5) dl by simp
  have rl: "(if ino_size (fd_ino c) - cursorpos c < int len then to_size (ino_size (fd_ino c) - cursorpos c) else len) = ?m"
    unfolding mx using len by (auto simp: m STREAM_MAX_TRANSFER_SIZE_def to_size_of_nat)
  have rd: "\<exists>s' ino' r. read_inode io fs s (fd_ino c) ?m = Inr (s', ino', r, bytes) \<and> 0 \<le> r \<and> serves io fs V N s' \<and>
      same_file (fd_ino c) ino' \<and> (byte_pos V N fs ino' n (q + ?m) \<or> q + ?m = length ?d)"
  proof (cases "?m = 0")
    case True
    then have "read_inode io fs s (fd_ino c) ?m = Inr (s, fd_ino c, 0, [])" by (simp add: read_inode_def read_loop.simps)
    then show ?thesis using True a by auto
  next
    case False
    then have "q \<noteq> length ?d" using mb by auto
    then have bp: "byte_pos V N fs (fd_ino c) n q" using a(6) by blast
    have q: "q + ?m \<le> n * bsz fs" using mb(2) dl sz(3) by simp
    have l: "?m \<le> STREAM_MAX_TRANSFER_SIZE" using mb(1) len by simp
    have e: "file_end V ?p (fd_ino c) n" using sz(4) file_end_same [OF a(2)] by simp
    obtain s' ino' r where o: "read_inode io fs s (fd_ino c) ?m = Inr (s', ino', r, take ?m (drop q (content V ?p (fd_ino c) n)))" "0 \<le> r"
        "serves io fs V N s'" "same_file (fd_ino c) ino'" "?m < bsz fs \<or> q + ?m < n * bsz fs \<longrightarrow> byte_pos V N fs ino' n (q + ?m)"
      using read_ok [OF a(1) bp q l] e by blast
    have "take ?m (drop q (content V ?p (fd_ino c) n)) = take ?m (drop q ?d)"
      unfolding file_bytes_def content_same [OF a(2)] by (rule take_drop_take) (use mb(2) dl in simp)
    also have "\<dots> = bytes" unfolding bytes_def by (simp add: min_def)
    finally have tb: "take ?m (drop q (content V ?p (fd_ino c) n)) = bytes" .
    have "byte_pos V N fs ino' n (q + ?m) \<or> q + ?m = length ?d"
      using o(5) q mb(2) dl sz(3) by linarith
    then show ?thesis using o(1-4) by (auto simp: tb)
  qed
  then obtain s' ino' r where o: "read_inode io fs s (fd_ino c) ?m = Inr (s', ino', r, bytes)" "0 \<le> r" "serves io fs V N s'"
      "same_file (fd_ino c) ino'" "byte_pos V N fs ino' n (q + ?m) \<or> q + ?m = length ?d"
    by blast
  let ?c = "c\<lparr>fd_ino := ino', cursorpos := cursorpos c + int ?m\<rparr>"
  have "fd_op_read io fs s c len = Inr (s', ?c, int ?m, bytes)"
    unfolding fd_op_read_def Let_def rl using len o(1,2) mb(3) by (simp add: ENOENT_def to_ssize_small)
  moreover have "fd_at io fs V N i0 n s' ?c (q + ?m)"
    using a o mb(2) same_file_trans [OF a(2) o(4)] by (simp add: fd_at_def)
  ultimately show ?thesis by blast
qed

text \<open>A sequence of reads; the results are the bytes of all of them.\<close>

fun fd_reads :: "'d xio \<Rightarrow> fscontext \<Rightarrow> 'd xs \<Rightarrow> openfdcontext \<Rightarrow> nat list \<Rightarrow> ('d xs \<times> openfdcontext \<times> u8 list) res" where
  "fd_reads io fs s c [] = Inr (s, c, [])"
| "fd_reads io fs s c (l # ls) =
     bind_res (fd_op_read io fs s c l) (\<lambda>(s, c, n, bytes).
     bind_res (fd_reads io fs s c ls) (\<lambda>(s, c, rest). Inr (s, c, bytes @ rest)))"

lemma fd_reads_ok:
  assumes "fd_at io fs V N i0 n s c q" and "\<forall>l\<in>set ls. l \<le> STREAM_MAX_TRANSFER_SIZE"
  shows "\<exists>s' c'. fd_reads io fs s c ls = Inr (s', c', take (sum_list ls) (drop q (file_bytes V fs i0 n)))"
  using assms
proof (induction ls arbitrary: s c q)
  case (Cons l ls)
  let ?d = "file_bytes V fs i0 n"
  let ?b = "take l (drop q ?d)"
  obtain s1 c1 where r: "fd_op_read io fs s c l = Inr (s1, c1, int (length ?b), ?b)" "fd_at io fs V N i0 n s1 c1 (q + length ?b)"
    using fd_read_ok [OF Cons.prems(1), of l] Cons.prems(2) by (metis list.set_intros(1))
  obtain s2 c2 where f: "fd_reads io fs s1 c1 ls = Inr (s2, c2, take (sum_list ls) (drop (q + length ?b) ?d))"
    using Cons.IH [OF r(2)] Cons.prems(2) by auto
  have "?b @ take (sum_list ls) (drop (q + length ?b) ?d) = take (l + sum_list ls) (drop q ?d)"
    by (cases "l \<le> length ?d - q") (simp_all add: slice_add min_def)
  then show ?case using r(1) f by simp
qed simp

lemma open_ok:
  assumes sv: "serves io fs V N s" and path: "cstr path p str" and rb: "length (name_buf rdr) = NAME_MAX + 1"
    and cl: "\<forall>c\<in>set (components str). length c \<le> NAME_MAX" and w: "walk V N fs (components str) INODE_ROOTDIRECTORY j"
    and f: "file_at V N fs j i0 n" and sz: "sized V N fs i0 n"
    and ty: "typeandpermissions i0 AND INODE_TYPE_MASK \<noteq> INODE_TYPE_DIRECTORY" and v: "s_next_fd_num v \<noteq> 2 ^ 31 - 1"
  shows "\<exists>s' v' c. vfs_op_open io rdr fs ops self data path p s v = Some (Inr (s', v', 0, Some c)) \<and> fd_at io fs V N i0 n s' c 0"
proof -
  let ?s = "s\<lparr>x_allocs := x_allocs s + 1, x_live := x_live s + 1\<rparr>"
  have al: "xalloc io s = (?s, True)" using sv by (simp add: xalloc_def serves_def)
  have "serves io fs V N ?s" by (rule serves_mem [OF sv]) simp
  moreover have "reads (pathreader_init rdr path p) str" using path rb by (simp add: reads_def pathreader_init_def)
  ultimately obtain s1 where s1: "ext2_resolve_path io rdr fs ?s INODE_ROOTDIRECTORY path p = Some (Inr (s1, 0, j))" "serves io fs V N s1"
    using resolve_ok [OF w refl _ _ cl] unfolding ext2_resolve_path_def by blast
  obtain s2 ino where o: "openinode io True fs s1 j = Inr (s2, 0, Some ino)" "same_file i0 ino" "serves io fs V N s2" "byte_pos V N fs ino n 0"
    using openinode_ok [OF s1(2) f] by blast
  have "typeandpermissions ino = typeandpermissions i0" using o(2) by (simp add: same_file_def)
  then have opf: "openfile io True fs s1 j = Inr (s2, 0, Some ino)" using o(1) ty by (simp add: openfile_def ENOENT_def)
  obtain v' fl where rf: "vfs_register_file ops self data v = Inr (v', fl, 0)" using v by (auto simp: vfs_register_file_def Let_def)
  let ?c = "\<lparr>fd_ino = ino, fd_file = fl, cursorpos = 0\<rparr>"
  have "vfs_op_open io rdr fs ops self data path p s v = Some (Inr (s2, v', 0, Some ?c))"
    unfolding vfs_op_open_def al Let_def prod.case if_True s1(1) using opf rf by simp
  moreover have "fd_at io fs V N i0 n s2 ?c 0" using o sz by (simp add: fd_at_def)
  ultimately show ?thesis by blast
qed

text \<open>Seeking to the start moves the inode but not the cursor.\<close>

lemma fd_seek_start:
  assumes at: "fd_at io fs V N i0 n s c q"
  shows "\<exists>s' c' ret. fd_op_seek io fs s c 0 SEEK_SET = Inr (s', c', ret) \<and> 0 \<le> ret \<and> serves io fs V N s' \<and> same_file i0 (fd_ino c') \<and>
    byte_pos V N fs (fd_ino c') n 0 \<and> cursorpos c' = int q"
proof -
  have a: "serves io fs V N s" "same_file i0 (fd_ino c)" "mapped V N (bsz fs div 4) (fd_ino c) n" "0 < n" "cursorpos c = int q"
    using at same_file_addr(4) by (auto simp: fd_at_def sized_def)
  have "0 < n * bsz fs" using a(4) geometry_facts(3) [OF serves_geometry [OF a(1)]] by simp
  then obtain s' ino' ret where "seek_inode io fs s (fd_ino c) 0 SEEK_SET = Inr (s', ino', ret)" "0 \<le> ret" "serves io fs V N s'"
      "same_file (fd_ino c) ino'" "byte_pos V N fs ino' n 0"
    using seek_ok [OF a(1,3), of 0] by (auto simp: STREAM_MAX_TRANSFER_SIZE_def)
  then show ?thesis using a(5) same_file_trans [OF a(2)] by (auto simp: fd_op_seek_def ENOENT_def)
qed

subsection \<open>Mounting\<close>

lemma read_superblock_cases:
  assumes "read_superblock disk pd sb = Inr (Some c)"
  shows "\<exists>raw. u32le_at (drop 0x18 sb) = Inr raw \<and> raw \<le> 21 \<and> blocksize c = to_ssize (unat (push_bit (unat raw) (1024 :: u32))) \<and>
    blk_group_descriptor_blk c = (if blocksize c = 1024 then 2 else 1) \<and> signature c = EXT2_SIGNATURE \<and>
    fs_disk c = disk \<and> fs_physdisk c = pd \<and> 0 < blocks_in_block_group c \<and> 0 < inodes_in_block_group c \<and>
    required_features c AND NOT SUPPORTED_REQUIRED_FLAGS = 0 \<and> required_features_rw c AND NOT SUPPORTED_RWMOUNT_FLAGS = 0"
proof -
  obtain sig where sig: "u16le_at (drop 0x38 sb) = Inr sig" "sig = EXT2_SIGNATURE"
    using assms by (cases "u16le_at (drop 0x38 sb)") (auto simp: read_superblock_def Let_def split: if_splits)
  note b1 = assms [unfolded read_superblock_def sig(1) bind_res_Inr Let_def]
  obtain raw where raw: "u32le_at (drop 0x18 sb) = Inr raw" "\<not> 21 < raw"
    using b1 sig(2) by (cases "u32le_at (drop 0x18 sb)") (auto split: if_splits)
  let ?z = "(zero_context disk pd)\<lparr>signature := sig\<rparr>"
  have sg: "\<not> signature ?z \<noteq> EXT2_SIGNATURE" using sig(2) by simp
  note b2 = b1 [unfolded if_not_P [OF sg] raw(1) bind_res_Inr if_not_P [OF raw(2)]]
  obtain c1 where c1: "superblock_base sb raw ?z = Inr c1" using b2 by (cases "superblock_base sb raw ?z") auto
  note b3 = b2 [unfolded c1 bind_res_Inr]
  obtain c2 where c2: "superblock_ext sb c1 = Inr c2" using b3 by (cases "superblock_ext sb c1") auto
  note b4 = b3 [unfolded c2 bind_res_Inr]
  have f1: "blocksize c1 = to_ssize (unat (push_bit (unat raw) (1024 :: u32))) \<and> signature c1 = sig \<and> fs_disk c1 = disk \<and> fs_physdisk c1 = pd"
    using c1 unfolding superblock_base_def by (auto simp: bind_res_eq_Inr zero_context_def)
  have f2: "blocksize c2 = blocksize c1 \<and> signature c2 = signature c1 \<and> fs_disk c2 = fs_disk c1 \<and> fs_physdisk c2 = fs_physdisk c1"
    using c2 unfolding superblock_ext_def by (auto simp: bind_res_eq_Inr split: if_splits)
  have "blocks_in_block_group c2 \<noteq> 0" "inodes_in_block_group c2 \<noteq> 0"
    using b4 by (auto simp: size_to_blocks_def bind_res_eq_Inr assert_res_eq_Inr)
  moreover obtain cnt1 where "c = c2\<lparr>blk_group_count := cnt1, blk_group_descriptor_blk := if blocksize c2 = 1024 then 2 else 1\<rparr>"
      "required_features c2 AND NOT SUPPORTED_REQUIRED_FLAGS = 0" "required_features_rw c2 AND NOT SUPPORTED_RWMOUNT_FLAGS = 0"
    using b4 by (auto simp: bind_res_eq_Inr split: if_splits)
  ultimately show ?thesis using raw f1 f2 sig(2) by auto
qed

text \<open>The block size an exponent stands for.\<close>

lemma block_size_of:
  assumes "raw \<le> (21 :: u32)"
  shows "to_ssize (unat (push_bit (unat raw) (1024 :: u32))) = (if raw = 21 then - (2 ^ 31) else 1024 * 2 ^ unat raw)"
proof -
  have r: "unat raw \<le> 21" using assms by (simp add: word_le_nat_alt)
  have p: "push_bit k (1024 :: u32) = of_nat (2 ^ (k + 10))" for k by (simp add: push_bit_eq_mult power_add)
  have u: "unat (push_bit k (1024 :: u32)) = 2 ^ (k + 10)" if "k \<le> 21" for k
  proof -
    have "(2 :: nat) ^ (k + 10) < 2 ^ 32" using that by (intro power_strict_increasing) auto
    then show ?thesis unfolding p unat_of_nat by simp
  qed
  have "to_ssize (unat (push_bit (unat raw) (1024 :: u32))) = (if unat raw = 21 then - (2 ^ 31) else 1024 * 2 ^ unat raw)"
  proof (cases "unat raw = 21")
    case True
    then show ?thesis unfolding u [OF r] by (simp add: to_ssize_def)
  next
    case False
    then have "(2 :: nat) ^ (unat raw + 10) < 2 ^ 31" using r by (intro power_strict_increasing) auto
    then show ?thesis unfolding u [OF r] using False by (simp add: to_ssize_def power_add)
  qed
  moreover have "unat raw = 21 \<longleftrightarrow> raw = 21" using word_unat_eq_iff [of raw 21] by simp
  ultimately show ?thesis by simp
qed

lemma mounted_geometry:
  assumes rs: "read_superblock disk pd sb = Inr (Some c)" and pd: "0 < block_size pd" "1024 mod block_size pd = 0"
    and raw: "u32le_at (drop 0x18 sb) = Inr raw" "raw \<noteq> 21"
  shows "geometry_ok c"
proof -
  obtain r where r: "u32le_at (drop 0x18 sb) = Inr r" "r \<le> 21" "blocksize c = to_ssize (unat (push_bit (unat r) (1024 :: u32)))" "fs_physdisk c = pd"
    using read_superblock_cases [OF rs] by blast
  have rr: "r = raw" using r(1) raw(1) by simp
  have bs: "blocksize c = 1024 * 2 ^ unat raw" using block_size_of [OF r(2)] r(3) raw(2) rr by simp
  have "unat raw \<noteq> 21" using raw(2) word_unat_eq_iff [of raw 21] by simp
  moreover have "unat raw \<le> 21" using r(2) rr by (simp add: word_le_nat_alt)
  ultimately have k: "unat raw < 21" by simp
  have "(2 :: int) ^ (unat raw + 10) < 2 ^ 31" using k by (intro power_strict_increasing) auto
  then have lt: "blocksize c < 2 ^ 31" using bs by (simp add: power_add)
  have ge: "1024 \<le> blocksize c" using bs by simp
  have n: "bsz c = 1024 * 2 ^ unat raw" using bs by (simp add: bsz_def nat_mult_distrib nat_power_eq)
  have "block_size pd dvd 1024" using pd(2) by (simp add: mod_eq_0_iff_dvd)
  then have "block_size (fs_physdisk c) dvd bsz c" using n r(4) by simp
  moreover have "4 dvd bsz c" unfolding n by (rule dvd_mult2) simp
  ultimately show ?thesis using ge lt pd(1) r(4) by (simp add: geometry_ok_def)
qed

subsection \<open>The layout of an inode\<close>

text \<open>
  The 128 bytes of an inode with the given fields; \<open>osd\<close>, \<open>facl\<close> and \<open>tail\<close> are fields the driver does not read.
\<close>

definition inode_bytes :: "ino_context \<Rightarrow> u32 \<Rightarrow> u32 \<Rightarrow> u32 \<Rightarrow> u32 \<Rightarrow> u8 list \<Rightarrow> u8 list" where
  "inode_bytes i sizel sizeh osd facl tail =
     bytes_le16 (typeandpermissions i) @ bytes_le16 (ino_uid i) @ bytes_le32 sizel @ bytes_le32 (lastaccesstime i) @
     bytes_le32 (creationtime i) @ bytes_le32 (lastmodifiedtime i) @ bytes_le32 (deletiontime i) @
     bytes_le16 (ino_gid i) @ bytes_le16 (of_nat (hardlinks i)) @ bytes_le32 (of_nat (disksectors i)) @
     bytes_le32 (ino_flags i) @ bytes_le32 osd @ concat (map bytes_le32 (direct_block_ptrs i)) @
     bytes_le32 (singly_indirect_table i) @ bytes_le32 (doublyindirecttable i) @ bytes_le32 (triplyindirecttable i) @
     bytes_le32 (generationnumber i) @ bytes_le32 facl @ bytes_le32 sizeh @ tail"

lemma length_bytes [simp]: "length (bytes_le32 w) = 4" "length (bytes_le16 h) = 2"
  by (simp_all add: bytes_le32_def bytes_le16_def)

lemma length_ptrs: "length (concat (map bytes_le32 ps)) = 4 * length ps"
  by (induction ps) auto

lemma load_ptrs_at:
  assumes "drop (0x28 + 4 * i) b = concat (map bytes_le32 ps) @ rest"
  shows "load_ptrs b i (length ps) = Inr ps"
  using assms
proof (induction ps arbitrary: i)
  case (Cons p ps)
  have h: "drop (0x28 + 4 * i) b = bytes_le32 p @ (concat (map bytes_le32 ps) @ rest)" using Cons.prems by simp
  have "drop (0x28 + 4 * (i + 1)) b = drop 4 (drop (0x28 + 4 * i) b)" by (simp add: algebra_simps)
  then have "drop (0x28 + 4 * (i + 1)) b = concat (map bytes_le32 ps) @ rest" unfolding h by simp
  then have "load_ptrs b (i + 1) (length ps) = Inr ps" by (rule Cons.IH)
  moreover have "u32le_at (drop (0x28 + 4 * i) b) = Inr p" unfolding h by (rule u32le_bytes)
  ultimately show ?case by simp
qed simp

lemma inode_fields:
  assumes b: "b = inode_bytes i sizel sizeh osd facl tail @ rest" and d: "length (direct_block_ptrs i) = 12"
  shows "u16le_at (drop 0x00 b) = Inr (typeandpermissions i)" and "u16le_at (drop 0x02 b) = Inr (ino_uid i)"
    and "u32le_at (drop 0x04 b) = Inr sizel" and "u32le_at (drop 0x08 b) = Inr (lastaccesstime i)"
    and "u32le_at (drop 0x0c b) = Inr (creationtime i)" and "u32le_at (drop 0x10 b) = Inr (lastmodifiedtime i)"
    and "u32le_at (drop 0x14 b) = Inr (deletiontime i)" and "u16le_at (drop 0x18 b) = Inr (ino_gid i)"
    and "u16le_at (drop 0x1a b) = Inr (of_nat (hardlinks i))" and "u32le_at (drop 0x1c b) = Inr (of_nat (disksectors i))"
    and "u32le_at (drop 0x20 b) = Inr (ino_flags i)" and "load_ptrs b 0 12 = Inr (direct_block_ptrs i)"
    and "u32le_at (drop 0x58 b) = Inr (singly_indirect_table i)" and "u32le_at (drop 0x5c b) = Inr (doublyindirecttable i)"
    and "u32le_at (drop 0x60 b) = Inr (triplyindirecttable i)" and "u32le_at (drop 0x64 b) = Inr (generationnumber i)"
    and "u32le_at (drop 0x6c b) = Inr sizeh"
proof -
  have l: "length (concat (map bytes_le32 (direct_block_ptrs i))) = 48" using length_ptrs [of "direct_block_ptrs i"] d by simp
  have dr: "drop (0x28 + 4 * 0) b = concat (map bytes_le32 (direct_block_ptrs i)) @
      (bytes_le32 (singly_indirect_table i) @ bytes_le32 (doublyindirecttable i) @ bytes_le32 (triplyindirecttable i) @
       bytes_le32 (generationnumber i) @ bytes_le32 facl @ bytes_le32 sizeh @ tail @ rest)"
    unfolding b inode_bytes_def by (simp add: drop_append)
  show "load_ptrs b 0 12 = Inr (direct_block_ptrs i)" using load_ptrs_at [OF dr] d by simp
qed (simp_all add: b inode_bytes_def drop_append length_ptrs d u16le_bytes u32le_bytes)

text \<open>The inode as the driver opens it: the state of the iterator is cleared.\<close>

definition opened :: "ino_context \<Rightarrow> int \<Rightarrow> ino_context" where
  "opened i sz = i\<lparr>ino_size := sz, current_block_addr := 0, next_direct_ptr_index := 0, cnt := 0,
     singly_indirect_buf := no_buf, doubly_indirect_buf := no_buf, triply_indirect_buf := no_buf, blockbuf := no_buf,
     singly_indirect_used := False, doubly_indirect_used := False, triply_indirect_used := False\<rparr>"

lemma file_size_value:
  assumes "unat (h :: u32) < 2 ^ 31"
  shows "sint (push_bit 32 (ucast h) OR ucast l :: u64) = int (unat h) * 2 ^ 32 + int (unat (l :: u32))"
proof -
  let ?a = "push_bit 32 (ucast h) :: u64" and ?b = "ucast l :: u64"
  have o: "?a OR ?b = ?a + ?b" by (rule disjunctive_add [symmetric]) (auto simp: bit_simps dest: bit_imp_le_length)
  have a: "?a = of_nat (unat h * 2 ^ 32)" by (simp add: push_bit_eq_mult)
  have b: "?b = of_nat (unat l)" by simp
  have e: "?a OR ?b = of_nat (unat h * 2 ^ 32 + unat l)" by (simp only: o) (simp only: a b of_nat_add)
  have l: "unat l < 2 ^ 32" using unsigned_less [of l] by simp
  have s: "sint (of_nat n :: u64) = int n" if "n < 2 ^ 63" for n
    using that by (simp add: sint_uint signed_take_bit_int_eq_self uint_word_of_int_eq unsigned_of_nat take_bit_nat_eq_self)
  have "unat h * 2 ^ 32 + unat l < 2 ^ 63" using assms l by simp
  from s [OF this] show ?thesis unfolding e of_nat_add of_nat_mult by simp
qed

definition size_of :: "fscontext \<Rightarrow> u32 \<Rightarrow> u32 \<Rightarrow> int" where
  "size_of fs sizel sizeh =
     (if 1 \<le> major_ver fs \<and> required_features_rw fs AND RWMOUNT_FEATUREFLAG_64BIT_FILE_SIZE \<noteq> 0
      then int (unat sizeh) * 2 ^ 32 + int (unat sizel) else int (unat sizel))"

lemma inode_at_bytes:
  assumes d: "length (direct_block_ptrs i) = 12" and w: "hardlinks i < 2 ^ 16" "disksectors i < 2 ^ 32" and h: "unat sizeh < 2 ^ 31"
  shows "inode_at fs (inode_bytes i sizel sizeh osd facl tail @ rest) = Inr (Some (opened i (size_of fs sizel sizeh)))"
proof -
  let ?b = "inode_bytes i sizel sizeh osd facl tail @ rest"
  let ?h = "if 1 \<le> major_ver fs \<and> required_features_rw fs AND RWMOUNT_FEATUREFLAG_64BIT_FILE_SIZE \<noteq> 0 then sizeh else 0"
  note f = inode_fields [OF refl d, of sizel sizeh osd facl tail rest]
  have hw: "(if 1 \<le> major_ver fs \<and> required_features_rw fs AND RWMOUNT_FEATUREFLAG_64BIT_FILE_SIZE \<noteq> 0
      then u32le_at (drop 0x6c ?b) else Inr 0) = Inr ?h" using f(17) by simp
  have uh: "unat ?h < 2 ^ 31" using h by simp
  have "unat (drop_bit 31 ?h) = unat ?h div 2 ^ 31" by (rule trans [OF unat_drop_bit_eq drop_bit_eq_div])
  then have z: "drop_bit 31 ?h = 0" using uh by (metis div_less unat_eq_0)
  have sz: "sint (push_bit 32 (ucast ?h) OR ucast sizel :: u64) = size_of fs sizel sizeh"
    unfolding file_size_value [OF uh] by (simp add: size_of_def)
  have n: "unat (of_nat (hardlinks i) :: u16) = hardlinks i" "unat (of_nat (disksectors i) :: u32) = disksectors i"
    using w by (simp_all add: unat_of_nat)
  have "\<not> drop_bit 31 ?h \<noteq> 0" using z by simp
  note z' = if_not_P [OF this]
  show ?thesis unfolding inode_at_def f(1-16) bind_res_Inr hw z' sz n by (simp add: opened_def)
qed

subsection \<open>A small volume\<close>

text \<open>
  Seven blocks of 1024 bytes: the group descriptor in block 2, the inodes in block 3, the root directory (inode 2) in
  block 4 with the entry \<open>a\<close>, and the file \<open>a\<close> (inode 3) of 13 blocks, the last of them named by the table in block 6.
\<close>

definition demo_ino :: "u16 \<Rightarrow> u32 list \<Rightarrow> u32 \<Rightarrow> ino_context" where
  "demo_ino ty ptrs singly =
     \<lparr>ino_size = 0, hardlinks = 1, disksectors = 2, direct_block_ptrs = ptrs, singly_indirect_table = singly,
      doublyindirecttable = 0, triplyindirecttable = 0, lastaccesstime = 0, creationtime = 0, lastmodifiedtime = 0,
      deletiontime = 0, ino_flags = 0, generationnumber = 0, typeandpermissions = ty, ino_uid = 0, ino_gid = 0,
      current_block_addr = 0, next_direct_ptr_index = 0, cnt = 0, singly_indirect_buf = no_buf,
      doubly_indirect_buf = no_buf, triply_indirect_buf = no_buf, blockbuf = no_buf,
      singly_indirect_used = False, doubly_indirect_used = False, triply_indirect_used = False\<rparr>"

definition demo_root :: ino_context where "demo_root = demo_ino 0x4000 (4 # replicate 11 0) 0"
definition demo_file :: ino_context where "demo_file = demo_ino 0x8000 (replicate 12 5) 6"

definition demo_dent :: dent where
  "demo_dent = \<lparr>e_ino = 3, e_type = 1, e_name = [97], e_pad = replicate 1015 0\<rparr>"

definition demo_V :: "nat \<Rightarrow> u8 list" where
  "demo_V b =
     (if b = 2 then replicate 8 0 @ bytes_le32 3 @ replicate 1012 0
      else if b = 3 then
        replicate 128 0 @ inode_bytes demo_root 1024 0 0 0 (replicate 16 0) @ inode_bytes demo_file 13000 0 0 0 (replicate 16 0) @
        replicate 640 0
      else if b = 4 then dent_bytes demo_dent
      else if b = 6 then bytes_le32 5 @ replicate 1020 0
      else replicate 1024 7)"

definition demo_fs :: fscontext where
  "demo_fs = (zero_context \<lparr>physdisk = 1, startblockaddr = 0, block_count = 7\<rparr> \<lparr>pd_ops = 0, block_size = 1024, pd_data = 0\<rparr>)
     \<lparr>blocksize := 1024, inodes_in_block_group := 8, blocks_in_block_group := 8, inode_size := 128,
      blk_group_descriptor_blk := 2, required_features := 2\<rparr>"

definition demo_io :: "(u8 list list) xio" where
  "demo_io = \<lparr>x_ops = \<lparr>op_write = (\<lambda>d b first n. (overwrite d first (take n b), 0)), op_read = (\<lambda>d first n. (d, 0, take n (drop first d)))\<rparr>,
              x_oom = (\<lambda>_. False)\<rparr>"

definition demo_s :: "(u8 list list) xs" where
  "demo_s = \<lparr>x_dev = map demo_V [0..<7], x_allocs = 0, x_live = 0\<rparr>"

lemma length_inode_bytes: "length (inode_bytes i sl sh o1 f1 tail) = 64 + 4 * length (direct_block_ptrs i) + length tail"
  by (simp add: inode_bytes_def length_ptrs)

lemma demo_len: "length (demo_V b) = 1024"
  by (simp add: demo_V_def length_inode_bytes dent_bytes_def demo_dent_def demo_root_def demo_file_def demo_ino_def)

lemma demo_fields: "bsz demo_fs = 1024" "bsz demo_fs div 4 = 256" "disk_ratio demo_fs = 1" "blocksize demo_fs = 1024"
    "inodes_in_block_group demo_fs = 8" "inode_size demo_fs = 128" "blk_group_descriptor_blk demo_fs = 2" "required_features demo_fs = 2"
    "major_ver demo_fs = 0" "fs_disk demo_fs = \<lparr>physdisk = 1, startblockaddr = 0, block_count = 7\<rparr>" "block_size (fs_physdisk demo_fs) = 1024"
  by (simp_all add: demo_fs_def bsz_def disk_ratio_def zero_context_def)

lemma mem_serves:
  assumes W: "\<forall>b. length (W b) = 1024"
  shows "serves demo_io demo_fs W 7 \<lparr>x_dev = map W [0..<7], x_allocs = k, x_live = l\<rparr>"
proof -
  let ?s = "\<lparr>x_dev = map W [0..<7], x_allocs = k, x_live = l\<rparr>"
  have "block_device (x_ops demo_io) (\<lambda>d. d)" by (simp add: block_device_def demo_io_def)
  moreover have "fits (\<lambda>d. d) (fs_disk demo_fs) (x_dev ?s)" by (simp add: fits_def ldisk_ok_def demo_fields)
  moreover have "\<forall>x\<in>set (x_dev ?s). length x = block_size (fs_physdisk demo_fs)" using W by (auto simp: demo_fields)
  moreover have "\<forall>b<7. W b = vol_block (\<lambda>d. d) demo_fs (x_dev ?s) b"
  proof (intro allI impI)
    fix b :: nat
    assume b: "b < 7"
    have "part_blocks (\<lambda>d. d) (fs_disk demo_fs) (x_dev ?s) = map W [0..<7]" by (simp add: part_blocks_def demo_fields)
    moreover have "take 1 (drop b (map W [0..<7])) = [W b]" using b
      by (simp add: take_Suc_conv_app_nth hd_drop_conv_nth take_Suc del: upt_rec_numeral)
    ultimately show "W b = vol_block (\<lambda>d. d) demo_fs (x_dev ?s) b" by (simp add: vol_block_def demo_fields)
  qed
  moreover have "geometry_ok demo_fs" by (simp add: geometry_ok_def demo_fields)
  ultimately show ?thesis unfolding serves_def by (intro conjI exI [of _ "\<lambda>d. d"]) (simp_all add: demo_fields demo_io_def)
qed

lemma demo_serves: "serves demo_io demo_fs demo_V 7 demo_s"
  unfolding demo_s_def by (rule mem_serves) (simp add: demo_len)

lemma demo_slots: "desc_slot demo_fs i = (2, 0) \<Longrightarrow> 0 < i \<Longrightarrow> i \<le> 8 \<Longrightarrow> inode_slot demo_V demo_fs i = (3, (i - 1) * 128)"
  by (simp add: inode_slot_def demo_fields demo_V_def le32_def u32le_bytes)

lemma demo_desc: "0 < i \<Longrightarrow> i \<le> 8 \<Longrightarrow> desc_slot demo_fs i = (2, 0)"
  by (simp add: desc_slot_def demo_fields)

lemma demo_inode_ok: "0 < i \<Longrightarrow> i \<le> 8 \<Longrightarrow> inode_ok demo_V 7 demo_fs i"
  by (simp add: inode_ok_def demo_desc demo_slots demo_fields size_max_def)

lemma demo_size: "size_of demo_fs l h = int (unat l)"
  by (simp add: size_of_def demo_fields)

lemma demo_inode_at:
  "inode_at demo_fs (drop 128 (demo_V 3)) = Inr (Some (opened demo_root 1024))"
  "inode_at demo_fs (drop 256 (demo_V 3)) = Inr (Some (opened demo_file 13000))"
proof -
  let ?r = "inode_bytes demo_root 1024 0 0 0 (replicate 16 0)" and ?f = "inode_bytes demo_file 13000 0 0 0 (replicate 16 0)"
  have l: "length (direct_block_ptrs demo_root) = 12" "length (direct_block_ptrs demo_file) = 12"
    "hardlinks demo_root = 1" "hardlinks demo_file = 1" "disksectors demo_root = 2" "disksectors demo_file = 2"
    by (simp_all add: demo_root_def demo_file_def demo_ino_def)
  have "drop 128 (demo_V 3) = ?r @ (?f @ replicate 640 0)" by (simp add: demo_V_def)
  then show "inode_at demo_fs (drop 128 (demo_V 3)) = Inr (Some (opened demo_root 1024))"
    using inode_at_bytes [of demo_root 0 demo_fs 1024 0 0 "replicate 16 0" "?f @ replicate 640 0"] l by (simp add: demo_size)
  have "drop 256 (demo_V 3) = ?f @ replicate 640 0" using l(1) by (simp add: demo_V_def drop_append length_inode_bytes)
  then show "inode_at demo_fs (drop 256 (demo_V 3)) = Inr (Some (opened demo_file 13000))"
    using inode_at_bytes [of demo_file 0 demo_fs 13000 0 0 "replicate 16 0" "replicate 640 0"] l by (simp add: demo_size)
qed

lemma demo_ptrs:
  "direct_block_ptrs (opened demo_root z) = 4 # replicate 11 0" "direct_block_ptrs (opened demo_file z) = replicate 12 5"
  "singly_indirect_table (opened demo_file z) = 6" "ino_size (opened i z) = z"
  "typeandpermissions (opened demo_root z) = 0x4000" "typeandpermissions (opened demo_file z) = 0x8000"
  by (simp_all add: opened_def demo_root_def demo_file_def demo_ino_def)

lemma demo_blocks:
  "file_block demo_V 256 (opened demo_root z) 0 = 4"
  "k < 13 \<Longrightarrow> file_block demo_V 256 (opened demo_file z) k = 5"
  "file_block demo_V 256 (opened demo_file z) 13 = 0"
proof -
  show "file_block demo_V 256 (opened demo_root z) 0 = 4" by (simp add: file_block_def demo_ptrs)
  have "table_entry demo_V 6 0 = 5" by (simp add: table_entry_def demo_V_def le32_def u32le_bytes)
  then show "file_block demo_V 256 (opened demo_file z) k = 5" if "k < 13"
    using that by (cases "k < 12") (auto simp: file_block_def demo_ptrs singly_addr_def less_Suc_eq)
  have "u32le_at (drop 4 (demo_V 6)) = Inr 0" by (simp add: demo_V_def u32le_at_def load_def)
  then have "table_entry demo_V 6 1 = 0" by (simp add: table_entry_def le32_def)
  then show "file_block demo_V 256 (opened demo_file z) 13 = 0" by (simp add: file_block_def demo_ptrs singly_addr_def)
qed

lemma demo_mapped:
  "mapped demo_V 7 256 (opened demo_root z) 1" "mapped demo_V 7 256 (opened demo_file z) 13"
proof -
  show "mapped demo_V 7 256 (opened demo_root z) 1" by (simp add: mapped_def demo_ptrs demo_blocks good_ptr_def)
  have "t = 0" if "12 + t * 256 < (13 :: nat)" for t using that by simp
  moreover have "\<not> 12 + (1 + u * 256) * 256 < (13 :: nat)" for u by simp
  ultimately show "mapped demo_V 7 256 (opened demo_file z) 13"
    by (auto simp: mapped_def demo_ptrs demo_blocks good_ptr_def singly_addr_def)
qed

lemma demo_ends: "file_end demo_V 256 (opened demo_root z) 1" "file_end demo_V 256 (opened demo_file z) 13"
  by (simp_all add: file_end_def demo_ptrs demo_blocks)

lemma demo_file_at: "file_at demo_V 7 demo_fs 2 (opened demo_root 1024) 1" "file_at demo_V 7 demo_fs 3 (opened demo_file 13000) 13"
  unfolding file_at_def demo_fields(2) using demo_mapped demo_inode_at
  by (simp_all add: demo_inode_ok demo_slots demo_desc)

lemma demo_dir: "is_dir demo_V 7 demo_fs 2 [demo_dent]"
proof -
  have "dent_ok demo_fs demo_dent"
    by (simp add: dent_ok_def demo_dent_def dent_size_def NAME_MAX_def demo_fields REQUIRED_FEATUREFLAG_DIRENTRY_CONTAINS_TYPE_FIELD_def)
  moreover have "content demo_V 256 (opened demo_root 1024) 1 = dent_bytes demo_dent"
    by (simp add: content_def blk_def demo_blocks(1) demo_V_def)
  ultimately show ?thesis unfolding is_dir_def demo_fields(2)
    using demo_file_at(1) demo_ends(1) by (intro exI [of _ "opened demo_root 1024"] exI [of _ 1]) (simp add: demo_ptrs INODE_TYPE_MASK_def INODE_TYPE_DIRECTORY_def)
qed

lemma demo_walk: "walk demo_V 7 demo_fs [[97]] 2 3"
  by (rule walk_step [OF demo_dir _ walk_here]) (simp add: dir_lookup_def demo_dent_def live_def)

lemma demo_sized: "sized demo_V 7 demo_fs (opened demo_file 13000) 13"
  using demo_mapped(2) demo_ends(2) by (simp add: sized_def demo_fields demo_ptrs)

lemma demo_path: "cstr [47, 97, 0] 0 [47, 97]" "components [47, 97] = [[97]]"
  by (simp_all add: cstr_def components_def)

definition demo_reader :: path_reader where
  "demo_reader = \<lparr>pr_path = [], remaining_path = 0, name_buf = replicate 256 0\<rparr>"

definition demo_vfs :: "nat vfs" where
  "demo_vfs = \<lparr>s_next_fd_num = 0, s_fstypes = [], s_mounts = [], drivers = 0\<rparr>"

lemma demo_open:
  "\<exists>s' v' c. vfs_op_open demo_io demo_reader demo_fs 1 2 3 [47, 97, 0] 0 demo_s demo_vfs = Some (Inr (s', v', 0, Some c)) \<and>
    fd_at demo_io demo_fs demo_V 7 (opened demo_file 13000) 13 s' c 0"
proof (rule open_ok [OF demo_serves demo_path(1)])
  show "walk demo_V 7 demo_fs (components [47, 97]) INODE_ROOTDIRECTORY 3" using demo_walk by (simp add: demo_path INODE_ROOTDIRECTORY_def)
  show "typeandpermissions (opened demo_file 13000) AND INODE_TYPE_MASK \<noteq> INODE_TYPE_DIRECTORY"
    by (simp add: demo_ptrs INODE_TYPE_MASK_def INODE_TYPE_DIRECTORY_def)
qed (use demo_file_at demo_sized in \<open>simp_all add: demo_reader_def demo_vfs_def demo_path NAME_MAX_def\<close>)

subsection \<open>Properties\<close>

text \<open>
  Claim C1. Opening a path and reading it returns the bytes of the file: on a driver that serves the volume, when the
  components of the path lead from the root directory to inode \<open>j\<close>, whose tables map \<open>n\<close> blocks, the open succeeds and
  any sequence of reads returns, together, the first bytes of the file, up to its size. Superblock geometry, group
  descriptors, inode table, directories, indirect tables and block runs are all on the way.
\<close>

theorem open_and_read:
  assumes "serves io fs V N s" and "cstr path p str" and "length (name_buf rdr) = NAME_MAX + 1"
    and "\<forall>c\<in>set (components str). length c \<le> NAME_MAX" and "walk V N fs (components str) INODE_ROOTDIRECTORY j"
    and "file_at V N fs j i0 n" and "sized V N fs i0 n"
    and "typeandpermissions i0 AND INODE_TYPE_MASK \<noteq> INODE_TYPE_DIRECTORY" and "s_next_fd_num v \<noteq> 2 ^ 31 - 1"
    and "\<forall>l\<in>set ls. l \<le> STREAM_MAX_TRANSFER_SIZE"
  shows "\<exists>s1 v1 c s2 c2. vfs_op_open io rdr fs ops self data path p s v = Some (Inr (s1, v1, 0, Some c)) \<and>
    fd_reads io fs s1 c ls = Inr (s2, c2, take (sum_list ls) (file_bytes V fs i0 n))"
proof -
  obtain s1 v1 c where o: "vfs_op_open io rdr fs ops self data path p s v = Some (Inr (s1, v1, 0, Some c))" "fd_at io fs V N i0 n s1 c 0"
    using open_ok [OF assms(1-9)] by blast
  then show ?thesis using fd_reads_ok [OF o(2) assms(10)] by auto
qed

theorem open_and_read_witness:
  "\<exists>s1 v1 c s2 c2. vfs_op_open demo_io demo_reader demo_fs 1 2 3 [47, 97, 0] 0 demo_s demo_vfs = Some (Inr (s1, v1, 0, Some c)) \<and>
    fd_reads demo_io demo_fs s1 c [5, 4096, 700] = Inr (s2, c2, take 4801 (file_bytes demo_V demo_fs (opened demo_file 13000) 13))"
proof -
  have "walk demo_V 7 demo_fs (components [47, 97]) INODE_ROOTDIRECTORY 3" using demo_walk by (simp add: demo_path INODE_ROOTDIRECTORY_def)
  moreover have "typeandpermissions (opened demo_file 13000) AND INODE_TYPE_MASK \<noteq> INODE_TYPE_DIRECTORY"
    by (simp add: demo_ptrs INODE_TYPE_MASK_def INODE_TYPE_DIRECTORY_def)
  ultimately show ?thesis
    using open_and_read [OF demo_serves demo_path(1), where rdr = demo_reader and j = 3 and ls = "[5, 4096, 700]" and v = demo_vfs]
      demo_file_at(2) demo_sized
    by (simp add: demo_reader_def demo_vfs_def demo_path NAME_MAX_def STREAM_MAX_TRANSFER_SIZE_def)
qed

text \<open>
  Claim C3. The iterator over the blocks of an inode agrees with random access: on a freshly opened inode of a file with
  \<open>n\<close> mapped blocks, call number \<open>k + 1\<close> of next_inode_block makes block \<open>k\<close> of the file current, through the twelve direct
  pointers and the singly, doubly and triply indirect tables.
\<close>

theorem block_iterator:
  assumes "serves io fs V N s" and "mapped V N (bsz fs div 4) ino n" and "inode_at fs b = Inr (Some ino)" and "k < n"
  shows "\<exists>s' ino' ret. skip_blocks (k + 1) io fs s ino 0 = Inr (s', ino', ret) \<and> 0 \<le> ret \<and>
    current_block_addr ino' = file_block V (bsz fs div 4) ino k"
proof -
  have k: "0 + (k + 1) \<le> n" using assms(4) by simp
  obtain s' ino' ret where o: "skip_blocks (k + 1) io fs s ino 0 = Inr (s', ino', ret)" "0 \<le> ret" "same_file ino ino'"
      "block_pos V (bsz fs div 4) ino' (0 + (k + 1))"
    using skip_blocks_ok [OF assms(1,2) fresh_inode(1) [OF assms(3)] k, of 0] by blast
  then show ?thesis using same_file_addr(3) [OF o(3)] by (simp add: block_pos_def)
qed

theorem block_iterator_witness:
  "\<exists>s' ino' ret. skip_blocks 13 demo_io demo_fs demo_s (opened demo_file 13000) 0 = Inr (s', ino', ret) \<and> current_block_addr ino' = 5"
  using block_iterator [OF demo_serves _ demo_inode_at(2), of 13 12] demo_mapped(2) demo_blocks(2) [of 12]
  by (auto simp: demo_fields)

text \<open>
  Claim C18. Path lookup agrees with a walk over the directories: when the first components lead to inode \<open>j\<close> and there are
  no more, the lookup returns \<open>j\<close>; when the next component is not a live entry of directory \<open>j\<close>, it returns -ENOENT.
\<close>

theorem path_resolution:
  assumes "serves io fs V N s" and "cstr path p str" and "length (name_buf rdr) = NAME_MAX + 1"
    and "\<forall>c\<in>set (components str). length c \<le> NAME_MAX" and "walk V N fs cs i j"
  shows "(components str = cs \<longrightarrow> (\<exists>s'. ext2_resolve_path io rdr fs s i path p = Some (Inr (s', 0, j)))) \<and>
    (\<forall>c cs' es. components str = cs @ c # cs' \<longrightarrow> is_dir V N fs j es \<longrightarrow> dir_lookup c es = None \<longrightarrow>
      (\<exists>s' k. ext2_resolve_path io rdr fs s i path p = Some (Inr (s', - ENOENT, k))))"
proof -
  have r: "reads (pathreader_init rdr path p) str" using assms(2,3) by (simp add: reads_def pathreader_init_def)
  show ?thesis unfolding ext2_resolve_path_def
    using resolve_ok [OF assms(5) _ assms(1) r] resolve_missing [OF assms(5) _ _ _ assms(1) r assms(4)] assms(4) by blast
qed

theorem path_resolution_witness:
  "(\<exists>s'. ext2_resolve_path demo_io demo_reader demo_fs demo_s 2 [47, 97, 0] 0 = Some (Inr (s', 0, 3))) \<and>
   (\<exists>s' k. ext2_resolve_path demo_io demo_reader demo_fs demo_s 2 [98, 0] 0 = Some (Inr (s', - ENOENT, k)))"
proof
  show "\<exists>s'. ext2_resolve_path demo_io demo_reader demo_fs demo_s 2 [47, 97, 0] 0 = Some (Inr (s', 0, 3))"
    using path_resolution [OF demo_serves demo_path(1) _ _ demo_walk, of demo_reader]
    by (simp add: demo_path demo_reader_def NAME_MAX_def)
  have b: "cstr [98, 0] 0 [98]" "components [98] = [] @ [98] # []" by (simp_all add: cstr_def components_def)
  have "dir_lookup [98] [demo_dent] = None" by (simp add: dir_lookup_def demo_dent_def)
  then show "\<exists>s' k. ext2_resolve_path demo_io demo_reader demo_fs demo_s 2 [98, 0] 0 = Some (Inr (s', - ENOENT, k))"
    using path_resolution [OF demo_serves b(1) _ _ walk_here, of demo_reader 2] b(2) demo_dir
    by (auto simp: demo_reader_def NAME_MAX_def)
qed

text \<open>
  Claim C19. Memory is accounted for on every path: opening a file, reading and seeking in it in any order and closing it
  leaves the number of live heap blocks as it was, whatever the disk returns and the allocator refuses; an open that fails
  leaves it at once. The claim covers the error paths of the driver, the tables of all levels included.
\<close>

theorem file_session_balanced:
  assumes "vfs_op_open io rdr fs ops self data path p s v = Some (Inr (s1, v1, ret, f))"
  shows "(f = None \<longrightarrow> x_live s1 = x_live s) \<and>
    (\<forall>c s2 c2 v2. f = Some c \<longrightarrow> fd_steps io fs (s1, c) (s2, c2) \<longrightarrow> x_live (fst (fd_op_close c2 s2 (v2 :: 'w vfs))) = x_live s)"
  using session_balanced [OF assms] by blast

theorem file_session_balanced_witness:
  "\<exists>s1 v1 c s2 c2 n bytes. vfs_op_open demo_io demo_reader demo_fs 1 2 3 [47, 97, 0] 0 demo_s demo_vfs = Some (Inr (s1, v1, 0, Some c)) \<and>
    fd_op_read demo_io demo_fs s1 c 2000 = Inr (s2, c2, n, bytes) \<and> x_live (fst (fd_op_close c2 s2 v1)) = 0"
proof -
  obtain s1 v1 c where o: "vfs_op_open demo_io demo_reader demo_fs 1 2 3 [47, 97, 0] 0 demo_s demo_vfs = Some (Inr (s1, v1, 0, Some c))"
      "fd_at demo_io demo_fs demo_V 7 (opened demo_file 13000) 13 s1 c 0"
    using demo_open by blast
  have "(2000 :: nat) \<le> STREAM_MAX_TRANSFER_SIZE" by (simp add: STREAM_MAX_TRANSFER_SIZE_def)
  then obtain s2 c2 n bytes where r: "fd_op_read demo_io demo_fs s1 c 2000 = Inr (s2, c2, n, bytes)" using fd_read_ok [OF o(2)] by blast
  have "fd_steps demo_io demo_fs (s1, c) (s2, c2)" by (rule fd_read [OF r fd_done])
  then have "x_live (fst (fd_op_close c2 s2 v1)) = x_live demo_s" using file_session_balanced [OF o(1)] by blast
  then show ?thesis using o(1) r by (auto simp: demo_s_def)
qed

text \<open>
  Opening an inode reads back what its layout on the disk holds: from the bytes of an inode with twelve direct
  pointers, counters of their width and a size below 2 ^ 63, inode_at returns the inode with every field and with a cleared
  iterator; the upper half of the size counts only where the file system has the 64-bit size feature.
\<close>

lemma inode_roundtrip:
  assumes "length (direct_block_ptrs i) = 12" and "hardlinks i < 2 ^ 16" and "disksectors i < 2 ^ 32" and "unat sizeh < 2 ^ 31"
  shows "inode_at fs (inode_bytes i sizel sizeh osd facl tail @ rest) = Inr (Some (opened i (size_of fs sizel sizeh)))"
  by (rule inode_at_bytes [OF assms])

text \<open>
  Claim C20. A mounted context is well formed: with a disk block size that divides 1024, a superblock that vfs_op_mount
  accepts and whose block size exponent is not 21 gives a context with a block size of 1024 times a power of two below
  2 ^ 31, the descriptor table in the block behind the superblock, nonzero group sizes and no unsupported feature. The
  exponent 21 is accepted as well and gives the negative block size - 2 ^ 31.
\<close>

theorem mount_context_ok:
  assumes "read_superblock disk pd sb = Inr (Some c)" and "0 < block_size pd" and "1024 mod block_size pd = 0"
    and "u32le_at (drop 0x18 sb) = Inr raw"
  shows "(raw \<noteq> 21 \<longrightarrow> geometry_ok c \<and> blocksize c = 1024 * 2 ^ unat raw) \<and> (raw = 21 \<longrightarrow> blocksize c = - (2 ^ 31)) \<and>
    blk_group_descriptor_blk c = (if blocksize c = 1024 then 2 else 1) \<and> 0 < blocks_in_block_group c \<and> 0 < inodes_in_block_group c \<and>
    required_features c AND NOT SUPPORTED_REQUIRED_FLAGS = 0 \<and> required_features_rw c AND NOT SUPPORTED_RWMOUNT_FLAGS = 0"
proof -
  obtain r where r: "u32le_at (drop 0x18 sb) = Inr r" "r \<le> 21" "blocksize c = to_ssize (unat (push_bit (unat r) (1024 :: u32)))"
      "blk_group_descriptor_blk c = (if blocksize c = 1024 then 2 else 1)" "0 < blocks_in_block_group c" "0 < inodes_in_block_group c"
      "required_features c AND NOT SUPPORTED_REQUIRED_FLAGS = 0" "required_features_rw c AND NOT SUPPORTED_RWMOUNT_FLAGS = 0"
    using read_superblock_cases [OF assms(1)] by blast
  have "r = raw" using r(1) assms(4) by simp
  then show ?thesis using r mounted_geometry [OF assms] block_size_of [OF r(2)] by auto
qed

text \<open>A superblock with the given exponent of the block size.\<close>

definition demo_sb :: "u32 \<Rightarrow> u8 list" where
  "demo_sb raw = bytes_le32 8 @ bytes_le32 8 @ replicate 16 0 @ bytes_le32 raw @ replicate 4 0 @ bytes_le32 8 @ replicate 4 0 @ bytes_le32 8 @
     replicate 12 0 @ bytes_le16 0xef53 @ replicate 966 0"

lemma demo_sb_fields:
  "length (demo_sb raw) = 1024" "u32le_at (drop 0x18 (demo_sb raw)) = Inr raw" "u16le_at (drop 0x38 (demo_sb raw)) = Inr 0xef53"
  "u32le_at (drop 0x00 (demo_sb raw)) = Inr 8" "u32le_at (drop 0x04 (demo_sb raw)) = Inr 8"
  "u32le_at (drop 0x20 (demo_sb raw)) = Inr 8" "u32le_at (drop 0x28 (demo_sb raw)) = Inr 8" "u32le_at (drop 0x4c (demo_sb raw)) = Inr 0"
  by (simp_all add: demo_sb_def u32le_bytes u16le_bytes drop_append) (simp add: u32le_at_def load_def)

lemma demo_mount: "raw \<le> 21 \<Longrightarrow> \<exists>c. read_superblock \<lparr>physdisk = 1, startblockaddr = 0, block_count = 64\<rparr> \<lparr>pd_ops = 0, block_size = 512, pd_data = 0\<rparr> (demo_sb raw) = Inr (Some c)"
proof -
  assume raw: "raw \<le> 21"
  let ?d = "\<lparr>physdisk = 1, startblockaddr = 0, block_count = 64\<rparr>" and ?p = "\<lparr>pd_ops = 0, block_size = 512, pd_data = 0\<rparr>"
  let ?z = "(zero_context ?d ?p)\<lparr>signature := 0xef53\<rparr>"
  have u32: "\<exists>w. u32le_at (drop k (demo_sb raw)) = Inr w" if "k + 4 \<le> 1024" for k
    using that u32le_le32 [of "drop k (demo_sb raw)"] demo_sb_fields(1) by auto
  have u16: "\<exists>w. u16le_at (drop k (demo_sb raw)) = Inr w" if "k + 2 \<le> 1024" for k
    using that demo_sb_fields(1) [of raw] by (simp add: u16le_at_def load_def)
  obtain a1 a2 a3 a4 where a: "u32le_at (drop 0x08 (demo_sb raw)) = Inr a1" "u32le_at (drop 0x0c (demo_sb raw)) = Inr a2"
      "u32le_at (drop 0x10 (demo_sb raw)) = Inr a3" "u32le_at (drop 0x14 (demo_sb raw)) = Inr a4"
    using u32 [of "0x08"] u32 [of "0x0c"] u32 [of "0x10"] u32 [of "0x14"] by auto
  obtain b1 b2 b3 b4 b5 where b: "u32le_at (drop 0x2c (demo_sb raw)) = Inr b1" "u32le_at (drop 0x30 (demo_sb raw)) = Inr b2"
      "u32le_at (drop 0x40 (demo_sb raw)) = Inr b3" "u32le_at (drop 0x44 (demo_sb raw)) = Inr b4" "u32le_at (drop 0x48 (demo_sb raw)) = Inr b5"
    using u32 [of "0x2c"] u32 [of "0x30"] u32 [of "0x40"] u32 [of "0x44"] u32 [of "0x48"] by auto
  obtain h1 h2 h3 h4 h5 h6 h7 where h: "u16le_at (drop 0x34 (demo_sb raw)) = Inr h1" "u16le_at (drop 0x36 (demo_sb raw)) = Inr h2"
      "u16le_at (drop 0x3a (demo_sb raw)) = Inr h3" "u16le_at (drop 0x3c (demo_sb raw)) = Inr h4" "u16le_at (drop 0x3e (demo_sb raw)) = Inr h5"
      "u16le_at (drop 0x50 (demo_sb raw)) = Inr h6" "u16le_at (drop 0x52 (demo_sb raw)) = Inr h7"
    using u16 [of "0x34"] u16 [of "0x36"] u16 [of "0x3a"] u16 [of "0x3c"] u16 [of "0x3e"] u16 [of "0x50"] u16 [of "0x52"] by auto
  have "\<exists>c1. superblock_base (demo_sb raw) raw ?z = Inr c1 \<and> major_ver c1 = 0 \<and> total_blocks c1 = 8 \<and> blocks_in_block_group c1 = 8 \<and>
      total_inodes c1 = 8 \<and> inodes_in_block_group c1 = 8 \<and> required_features c1 = 0 \<and> required_features_rw c1 = 0"
    unfolding superblock_base_def demo_sb_fields a b h bind_res_Inr by (simp add: zero_context_def)
  then obtain c1 where c1: "superblock_base (demo_sb raw) raw ?z = Inr c1" "major_ver c1 = 0" "total_blocks c1 = 8" "blocks_in_block_group c1 = 8"
      "total_inodes c1 = 8" "inodes_in_block_group c1 = 8" "required_features c1 = 0" "required_features_rw c1 = 0"
    by blast
  let ?c2 = "c1\<lparr>first_non_reserved_inode := 11, inode_size := 128\<rparr>"
  have c2: "superblock_ext (demo_sb raw) c1 = Inr ?c2" using c1(2) by (simp add: superblock_ext_def)
  have r: "\<not> 21 < raw" using raw by simp
  have sg: "\<not> signature ?z \<noteq> EXT2_SIGNATURE" by (simp add: EXT2_SIGNATURE_def)
  show ?thesis unfolding read_superblock_def demo_sb_fields bind_res_Inr Let_def if_not_P [OF sg] if_not_P [OF r] c1(1) c2
    using c1 by (simp add: size_to_blocks_def)
qed

theorem mount_context_ok_witness:
  "\<exists>c. read_superblock \<lparr>physdisk = 1, startblockaddr = 0, block_count = 64\<rparr> \<lparr>pd_ops = 0, block_size = 512, pd_data = 0\<rparr> (demo_sb 21) = Inr (Some c) \<and>
    blocksize c = - (2 ^ 31)"
proof -
  obtain c where c: "read_superblock \<lparr>physdisk = 1, startblockaddr = 0, block_count = 64\<rparr> \<lparr>pd_ops = 0, block_size = 512, pd_data = 0\<rparr> (demo_sb 21) = Inr (Some c)"
    using demo_mount [of 21] by auto
  then show ?thesis using mount_context_ok [OF c, of 21] demo_sb_fields(2) by auto
qed

text \<open>
  Claim C40. Seeking does not move the cursor that bounds the reads: once a file has been read to its end, a seek back to
  the start succeeds and puts the inode on byte 0, but every later read returns 0 bytes, although the whole file lies
  ahead.
\<close>

theorem seek_keeps_cursor:
  assumes "fd_at io fs V N i0 n s c (length (file_bytes V fs i0 n))" and "len \<le> STREAM_MAX_TRANSFER_SIZE"
  shows "\<exists>s1 c1 ret s2 c2. fd_op_seek io fs s c 0 SEEK_SET = Inr (s1, c1, ret) \<and> 0 \<le> ret \<and> byte_pos V N fs (fd_ino c1) n 0 \<and>
    fd_op_read io fs s1 c1 len = Inr (s2, c2, 0, [])"
proof -
  let ?q = "length (file_bytes V fs i0 n)"
  obtain s1 c1 ret where sk: "fd_op_seek io fs s c 0 SEEK_SET = Inr (s1, c1, ret)" "0 \<le> ret" "serves io fs V N s1" "same_file i0 (fd_ino c1)"
      "byte_pos V N fs (fd_ino c1) n 0" "cursorpos c1 = int ?q"
    using fd_seek_start [OF assms(1)] by blast
  have "fd_at io fs V N i0 n s1 c1 ?q" using sk assms(1) by (simp add: fd_at_def)
  then show ?thesis using fd_read_ok [of io fs V N i0 n s1 c1 ?q len] assms(2) sk(1,2,5) by auto
qed

theorem seek_keeps_cursor_witness:
  "\<exists>s c s1 c1 ret s2 c2. fd_op_seek demo_io demo_fs s c 0 SEEK_SET = Inr (s1, c1, ret) \<and> byte_pos demo_V 7 demo_fs (fd_ino c1) 13 0 \<and>
    fd_op_read demo_io demo_fs s1 c1 100 = Inr (s2, c2, 0, [])"
proof -
  let ?f = "file_bytes demo_V demo_fs (opened demo_file 13000) 13"
  obtain s0 c0 where o: "fd_at demo_io demo_fs demo_V 7 (opened demo_file 13000) 13 s0 c0 0" using demo_open by blast
  have l: "length ?f = 13000" using file_bytes_len [OF demo_serves demo_sized] by (simp add: demo_ptrs)
  have "(13000 :: nat) \<le> STREAM_MAX_TRANSFER_SIZE" by (simp add: STREAM_MAX_TRANSFER_SIZE_def)
  then obtain s c where at: "fd_at demo_io demo_fs demo_V 7 (opened demo_file 13000) 13 s c (length ?f)"
    using fd_read_ok [OF o, of 13000] l by auto
  have "(100 :: nat) \<le> STREAM_MAX_TRANSFER_SIZE" by (simp add: STREAM_MAX_TRANSFER_SIZE_def)
  from seek_keeps_cursor [OF at this] show ?thesis by blast
qed

text \<open>
  A file without blocks stops the kernel: opening an inode whose first block pointer is zero, as an empty file
  has it, reaches the assertion that moving to the first block cannot fail.
\<close>

lemma empty_file_asserts:
  assumes "serves io fs V N s" and "inode_ok V N fs i"
    and "inode_at fs (drop (snd (inode_slot V fs i)) (V (fst (inode_slot V fs i)))) = Inr (Some ino)"
    and "direct_block_ptrs ino = 0 # ptrs"
  shows "openinode io True fs s i = Inl Assert_fail"
proof -
  define b off where "b = fst (inode_slot V fs i)" and "off = snd (inode_slot V fs i)"
  obtain s1 where s1: "locate_inode io fs s i = Inr (s1, 0, of_nat b, int off)" "serves io fs V N s1"
    using locate_ok [OF assms(1,2)] unfolding b_def off_def by blast
  have bN: "b < N" using assms(2) by (simp add: inode_ok_def b_def)
  have ub: "unat (of_nat b :: u32) = b" using bN serves_small [OF assms(1)] by (simp add: unat_of_nat)
  obtain s2 where s2: "readblocks_alloc io fs s1 (of_nat b) 1 = Inr (s2, 0, Some (V b))"
    using readblocks_alloc_serves [OF s1(2), of "of_nat b"] ub bN by auto
  have "next_direct_ptr_index ino = 0" using fresh_inode(1) [OF assms(3)] by (simp add: block_pos_def)
  then have "next_inode_block io fs s2 ino = Inr (s2, ino, - ENOENT)"
    using assms(4) by (simp add: next_inode_block_def DIRECT_BLOCK_POINTER_COUNT_def next_direct_block_ptr_def ENOENT_def)
  then show ?thesis using s1(1) s2 assms(3) by (simp add: openinode_def buf_of_def b_def [symmetric] off_def [symmetric] ENOENT_def)
qed

text \<open>The volume with an empty file as inode 4.\<close>

definition demo_empty :: ino_context where "demo_empty = demo_ino 0x8000 (replicate 12 0) 0"

definition demo_V2 :: "nat \<Rightarrow> u8 list" where
  "demo_V2 = demo_V(3 := replicate 384 0 @ inode_bytes demo_empty 0 0 0 0 (replicate 16 0) @ replicate 512 0)"

end
