(* ===== verification/Bst.thy ===== *)
theory Bst
  imports Prelude "HOL-Library.Tree"
begin

text \<open>
  Balanced search trees (kernel/lib/bst.c, include/kernel/lib/bst.h): nodes with parent pointers, stored heights and
  balance factors, insertion, removal, search, iteration, rotation and rebalancing, with the integrity checks that
  run before and after every operation (\<open>CONFIG_CHECK_TREE\<close> is true).

  The memory of the nodes is a record with one function per field of \<open>struct bst_node\<close>; addresses are numbers and 0 is
  null. The field \<open>tree_root\<close> is \<open>root\<close> of \<open>struct bst\<close>; there is one tree. Recursions and loops that follow pointers
  need not end on a damaged tree, so they are partial functions into \<open>option\<close>; a function that can stop the kernel has
  a result of type \<open>'a res option\<close>. Heights and balance factors are \<^typ>\<open>int\<close>: they are bounded by the number of nodes,
  which fit into 32 bits of address. Messages are left out; \<open>preaction\<close> only selects one.
\<close>

subsection \<open>Nodes\<close>

datatype BST_DIR = BST_DIR_LEFT | BST_DIR_RIGHT

record bst =
  node_parent :: "nat \<Rightarrow> nat"
  node_children :: "nat \<Rightarrow> BST_DIR \<Rightarrow> nat"
  node_data :: "nat \<Rightarrow> nat"
  node_key :: "nat \<Rightarrow> int"
  node_bf :: "nat \<Rightarrow> int"
  node_height :: "nat \<Rightarrow> int"
  tree_root :: nat

text \<open>\<open>1 - dir\<close>\<close>

definition opposite :: "BST_DIR \<Rightarrow> BST_DIR" where
  "opposite dir = (case dir of BST_DIR_LEFT \<Rightarrow> BST_DIR_RIGHT | BST_DIR_RIGHT \<Rightarrow> BST_DIR_LEFT)"

definition set_parent :: "nat \<Rightarrow> nat \<Rightarrow> bst \<Rightarrow> bst" where
  "set_parent node p s = s\<lparr>node_parent := (node_parent s)(node := p)\<rparr>"

definition set_child :: "nat \<Rightarrow> BST_DIR \<Rightarrow> nat \<Rightarrow> bst \<Rightarrow> bst" where
  "set_child node dir p s = s\<lparr>node_children := (node_children s)(node := (node_children s node)(dir := p))\<rparr>"

definition set_height :: "nat \<Rightarrow> int \<Rightarrow> bst \<Rightarrow> bst" where
  "set_height node v s = s\<lparr>node_height := (node_height s)(node := v)\<rparr>"

definition set_bf :: "nat \<Rightarrow> int \<Rightarrow> bst \<Rightarrow> bst" where
  "set_bf node v s = s\<lparr>node_bf := (node_bf s)(node := v)\<rparr>"

subsection \<open>Integrity checks\<close>

definition CHECK_FLAG_NO_HEIGHT :: u8 where "CHECK_FLAG_NO_HEIGHT = push_bit 0 1"
definition CHECK_FLAG_NO_BF :: u8 where "CHECK_FLAG_NO_BF = push_bit 1 1"

partial_function (option) height_of_subtree :: "bst \<Rightarrow> nat \<Rightarrow> int option" where
  "height_of_subtree s subtree_root =
     (let l = node_children s subtree_root BST_DIR_LEFT; r = node_children s subtree_root BST_DIR_RIGHT in
      Option.bind (if l \<noteq> 0 then Option.bind (height_of_subtree s l) (\<lambda>h. Some (h + 1)) else Some 0) (\<lambda>lheight.
      Option.bind (if r \<noteq> 0 then Option.bind (height_of_subtree s r) (\<lambda>h. Some (h + 1)) else Some 0) (\<lambda>rheight.
      Some (if lheight < rheight then rheight else lheight))))"

definition balence_factor :: "bst \<Rightarrow> nat \<Rightarrow> int option" where
  "balence_factor s subtree_root =
     (let l = node_children s subtree_root BST_DIR_LEFT; r = node_children s subtree_root BST_DIR_RIGHT in
      Option.bind (if l \<noteq> 0 then Option.bind (height_of_subtree s l) (\<lambda>h. Some (h + 1)) else Some 0) (\<lambda>lheight.
      Option.bind (if r \<noteq> 0 then Option.bind (height_of_subtree s r) (\<lambda>h. Some (h + 1)) else Some 0) (\<lambda>rheight.
      Some (lheight - rheight))))"

text \<open>Whether the stored height and balance factor of a node differ from the computed ones.\<close>

definition height_failed :: "bst \<Rightarrow> nat \<Rightarrow> u8 \<Rightarrow> bool option" where
  "height_failed s root flags =
     (if flags AND CHECK_FLAG_NO_HEIGHT = 0
      then Option.bind (height_of_subtree s root) (\<lambda>expectedheight. Some (node_height s root \<noteq> expectedheight))
      else Some False)"

definition bf_failed :: "bst \<Rightarrow> nat \<Rightarrow> u8 \<Rightarrow> bool option" where
  "bf_failed s root flags =
     (if flags AND CHECK_FLAG_NO_BF = 0
      then Option.bind (balence_factor s root) (\<lambda>expected_bf. Some (node_bf s root \<noteq> expected_bf))
      else Some False)"

partial_function (option) check_subtree :: "bst \<Rightarrow> nat \<Rightarrow> nat \<Rightarrow> u8 \<Rightarrow> unit res option" where
  "check_subtree s root parent flags =
     (if root = 0 then Some (Inr ())
      else if node_parent s root \<noteq> parent \<and> parent = 0 then Some (Inl Assert_fail)
      else
        Option.bind (height_failed s root flags) (\<lambda>hfailed.
        Option.bind (bf_failed s root flags) (\<lambda>bfailed.
        if node_parent s root \<noteq> parent \<or> hfailed \<or> bfailed then Some (Inl Panic)
        else
          bind_ro (check_subtree s (node_children s root BST_DIR_LEFT) root flags) (\<lambda>_.
          check_subtree s (node_children s root BST_DIR_RIGHT) root flags))))"

definition check_tree :: "bst \<Rightarrow> u8 \<Rightarrow> unit res option" where
  "check_tree s flags = check_subtree s (tree_root s) 0 flags"

subsection \<open>Iteration\<close>

partial_function (option) min_of_loop :: "bst \<Rightarrow> nat \<Rightarrow> nat \<Rightarrow> nat option" where
  "min_of_loop s result current =
     (if current = 0 then Some result else min_of_loop s current (node_children s current BST_DIR_LEFT))"

partial_function (option) max_of_loop :: "bst \<Rightarrow> nat \<Rightarrow> nat \<Rightarrow> nat option" where
  "max_of_loop s result current =
     (if current = 0 then Some result else max_of_loop s current (node_children s current BST_DIR_RIGHT))"

definition bst_min_of :: "bst \<Rightarrow> nat \<Rightarrow> nat option" where
  "bst_min_of s subtree_root = min_of_loop s 0 subtree_root"

definition bst_max_of :: "bst \<Rightarrow> nat \<Rightarrow> nat option" where
  "bst_max_of s subtree_root = max_of_loop s 0 subtree_root"

definition bst_min_of_tree :: "bst \<Rightarrow> nat option" where
  "bst_min_of_tree s = bst_min_of s (tree_root s)"

definition bst_max_of_tree :: "bst \<Rightarrow> nat option" where
  "bst_max_of_tree s = bst_max_of s (tree_root s)"

definition bst_dir_in_parent :: "bst \<Rightarrow> nat \<Rightarrow> BST_DIR res" where
  "bst_dir_in_parent s node =
     (let parent = node_parent s node in
      if parent = 0 then Inl Panic
      else if node_children s parent BST_DIR_LEFT = node then Inr BST_DIR_LEFT
      else if node_children s parent BST_DIR_RIGHT = node then Inr BST_DIR_RIGHT
      else Inl Panic)"

partial_function (option) successor_loop :: "bst \<Rightarrow> nat \<Rightarrow> nat \<Rightarrow> nat option" where
  "successor_loop s node current =
     (if current = 0 then Some 0
      else if node_key s node < node_key s current then Some current
      else successor_loop s node (node_parent s current))"

definition bst_successor :: "bst \<Rightarrow> nat \<Rightarrow> nat res option" where
  "bst_successor s node =
     (let right_subtree = node_children s node BST_DIR_RIGHT in
      if right_subtree = 0 then
        Option.bind (successor_loop s node (node_parent s node)) (\<lambda>current.
        bind_ro (check_subtree s node (node_parent s node) 0) (\<lambda>_. Some (Inr current)))
      else Option.bind (bst_min_of s right_subtree) (\<lambda>r. Some (Inr r)))"

partial_function (option) predecessor_loop :: "bst \<Rightarrow> nat \<Rightarrow> nat \<Rightarrow> nat option" where
  "predecessor_loop s node current =
     (if current = 0 then Some 0
      else if node_key s node > node_key s current then Some current
      else predecessor_loop s node (node_parent s current))"

definition bst_predecessor :: "bst \<Rightarrow> nat \<Rightarrow> nat res option" where
  "bst_predecessor s node =
     (let left_subtree = node_children s node BST_DIR_LEFT in
      Option.bind (if left_subtree = 0 then predecessor_loop s node (node_parent s node) else Some 0) (\<lambda>current.
      if current \<noteq> 0 then bind_ro (check_subtree s node (node_parent s node) 0) (\<lambda>_. Some (Inr current))
      else Option.bind (bst_max_of s left_subtree) (\<lambda>r. Some (Inr r))))"

partial_function (option) find_loop :: "bst \<Rightarrow> int \<Rightarrow> nat \<Rightarrow> nat option" where
  "find_loop s k current =
     (if current = 0 then Some 0
      else if k < node_key s current then find_loop s k (node_children s current BST_DIR_LEFT)
      else if k > node_key s current then find_loop s k (node_children s current BST_DIR_RIGHT)
      else Some current)"

definition bst_find_node :: "bst \<Rightarrow> int \<Rightarrow> nat res option" where
  "bst_find_node s k =
     bind_ro (check_tree s 0) (\<lambda>_.
     Option.bind (find_loop s k (tree_root s)) (\<lambda>current.
     bind_ro (check_tree s 0) (\<lambda>_. Some (Inr current))))"

subsection \<open>Heights and balance factors\<close>

definition child_height :: "bst \<Rightarrow> nat \<Rightarrow> BST_DIR \<Rightarrow> int" where
  "child_height s current dir =
     (if node_children s current dir \<noteq> 0 then node_height s (node_children s current dir) + 1 else 0)"

partial_function (option) recalculate_height_loop :: "bst \<Rightarrow> nat \<Rightarrow> bst option" where
  "recalculate_height_loop s current =
     (if current = 0 then Some s
      else
        (let lheight = child_height s current BST_DIR_LEFT; rheight = child_height s current BST_DIR_RIGHT;
             s = set_height current (if lheight < rheight then rheight else lheight) s in
         recalculate_height_loop s (node_parent s current)))"

definition bst_recalculate_height :: "bst \<Rightarrow> nat \<Rightarrow> bst res option" where
  "bst_recalculate_height s subtree_root =
     (if subtree_root = 0 then Some (Inl Null_deref)
      else
        bind_ro (check_subtree s subtree_root (node_parent s subtree_root) (CHECK_FLAG_NO_HEIGHT OR CHECK_FLAG_NO_BF)) (\<lambda>_.
        Option.bind (recalculate_height_loop s subtree_root) (\<lambda>s.
        bind_ro (check_subtree s subtree_root (node_parent s subtree_root) CHECK_FLAG_NO_BF) (\<lambda>_. Some (Inr s)))))"

definition update_bf :: "bst \<Rightarrow> nat \<Rightarrow> bst" where
  "update_bf s current = set_bf current (child_height s current BST_DIR_LEFT - child_height s current BST_DIR_RIGHT) s"

partial_function (option) bf_tree_loop :: "bst \<Rightarrow> nat \<Rightarrow> bst res option" where
  "bf_tree_loop s current =
     (if current = 0 then Some (Inr s)
      else
        (let s = update_bf s current in
         bind_ro (bst_successor s current) (\<lambda>current. bf_tree_loop s current)))"

definition bst_recalculate_bf_tree :: "bst \<Rightarrow> bst res option" where
  "bst_recalculate_bf_tree s =
     bind_ro (check_tree s CHECK_FLAG_NO_BF) (\<lambda>_.
     Option.bind (bst_min_of_tree s) (\<lambda>current.
     bind_ro (bf_tree_loop s current) (\<lambda>s.
     bind_ro (check_tree s 0) (\<lambda>_. Some (Inr s)))))"

partial_function (option) bf_range_loop :: "bst \<Rightarrow> nat \<Rightarrow> nat \<Rightarrow> bst res option" where
  "bf_range_loop s current last_node =
     (let s = update_bf s current in
      if current = last_node then Some (Inr s)
      else
        bind_ro (bst_successor s current) (\<lambda>current.
        if current = 0 then Some (Inl Assert_fail) else bf_range_loop s current last_node))"

partial_function (option) bf_parents_loop :: "bst \<Rightarrow> nat \<Rightarrow> bst option" where
  "bf_parents_loop s current =
     (if current = 0 then Some s
      else let s = update_bf s current in bf_parents_loop s (node_parent s current))"

definition bst_recalculate_bf :: "bst \<Rightarrow> nat \<Rightarrow> bst res option" where
  "bst_recalculate_bf s subtree_root =
     (if subtree_root = 0 then Some (Inl Null_deref)
      else
        bind_ro (check_subtree s subtree_root (node_parent s subtree_root) CHECK_FLAG_NO_BF) (\<lambda>_.
        Option.bind (bst_min_of s subtree_root) (\<lambda>current.
        Option.bind (bst_max_of s subtree_root) (\<lambda>last_node.
        bind_ro (bf_range_loop s current last_node) (\<lambda>s.
        Option.bind (bf_parents_loop s (node_parent s subtree_root)) (\<lambda>s.
        bind_ro (check_subtree s subtree_root (node_parent s subtree_root) 0) (\<lambda>_. Some (Inr s))))))))"

subsection \<open>Rotation and rebalancing\<close>

text \<open>\<open>node\<close> takes the place of \<open>old\<close> in the parent of \<open>old\<close>.\<close>

definition replace_in_parent :: "bst \<Rightarrow> nat \<Rightarrow> nat \<Rightarrow> bst res" where
  "replace_in_parent s old node =
     bind_res (bst_dir_in_parent s old) (\<lambda>dir. Inr (set_child (node_parent s old) dir node s))"

definition bst_rotate :: "bst \<Rightarrow> nat \<Rightarrow> BST_DIR \<Rightarrow> bst res option" where
  "bst_rotate s subtree_root dir =
     bind_ro (check_tree s 0) (\<lambda>_.
     let oppositedir = opposite dir; node_a = subtree_root; node_b = node_children s node_a oppositedir in
     if node_a = 0 then Some (Inl Null_deref)
     else if node_b = 0 then Some (Inl Panic)
     else
       (let node_c = node_children s node_b dir; node_p = node_parent s node_a in
        bind_ro
          (Some (if node_p \<noteq> 0
            then bind_res (replace_in_parent s node_a node_b) (\<lambda>s. Inr (set_parent node_b node_p s))
            else Inr ((set_parent node_b 0 s)\<lparr>tree_root := node_b\<rparr>))) (\<lambda>s.
        let s = set_child node_b dir node_a s;
            s = set_parent node_a node_b s;
            s = set_child node_a oppositedir node_c s;
            s = if node_c \<noteq> 0 then set_parent node_c node_a s else s in
        bind_ro (bst_recalculate_height s node_a) (\<lambda>s.
        bind_ro (bst_recalculate_bf s node_b) (\<lambda>s.
        bind_ro (check_tree s 0) (\<lambda>_. Some (Inr s)))))))"

definition rebalence_node :: "bst \<Rightarrow> nat \<Rightarrow> bst res option" where
  "rebalence_node s current =
     (if node_bf s current > 1 then
        (let child = node_children s current BST_DIR_LEFT in
         if child = 0 then Some (Inl Assert_fail)
         else
           bind_ro (if node_bf s child < 0 then bst_rotate s child BST_DIR_LEFT else Some (Inr s)) (\<lambda>s.
           bst_rotate s current BST_DIR_RIGHT))
      else if node_bf s current < - 1 then
        (let child = node_children s current BST_DIR_RIGHT in
         if child = 0 then Some (Inl Assert_fail)
         else
           bind_ro (if node_bf s child > 0 then bst_rotate s child BST_DIR_RIGHT else Some (Inr s)) (\<lambda>s.
           bst_rotate s current BST_DIR_LEFT))
      else Some (Inr s))"

partial_function (option) rebalence_loop :: "bst \<Rightarrow> nat \<Rightarrow> bst res option" where
  "rebalence_loop s current =
     (if current = 0 then Some (Inr s)
      else
        (let oldparent = node_parent s current in
         bind_ro (rebalence_node s current) (\<lambda>s.
         if current = oldparent then Some (Inl Assert_fail) else rebalence_loop s oldparent)))"

definition bst_check_and_rebalence :: "bst \<Rightarrow> nat \<Rightarrow> bst res option" where
  "bst_check_and_rebalence s startnode =
     bind_ro (check_tree s 0) (\<lambda>_.
     bind_ro (rebalence_loop s startnode) (\<lambda>s.
     bind_ro (check_tree s 0) (\<lambda>_. Some (Inr s))))"

subsection \<open>Insertion\<close>

partial_function (option) insert_loop :: "bst \<Rightarrow> int \<Rightarrow> nat \<Rightarrow> nat \<Rightarrow> BST_DIR \<Rightarrow> (nat \<times> BST_DIR) res option" where
  "insert_loop s k current insertparent childindex =
     (if current = 0 then Some (Inr (insertparent, childindex))
      else if k < node_key s current
        then insert_loop s k (node_children s current BST_DIR_LEFT) current BST_DIR_LEFT
      else if k > node_key s current
        then insert_loop s k (node_children s current BST_DIR_RIGHT) current BST_DIR_RIGHT
      else Some (Inl Panic))"

definition init_node :: "nat \<Rightarrow> int \<Rightarrow> nat \<Rightarrow> bst \<Rightarrow> bst" where
  "init_node node k d s =
     (let s = set_child node BST_DIR_RIGHT 0 (set_child node BST_DIR_LEFT 0 s); s = set_bf node 0 s in
      s\<lparr>node_data := (node_data s)(node := d), node_key := (node_key s)(node := k)\<rparr>)"

definition bst_insert_node_unbalenced :: "bst \<Rightarrow> nat \<Rightarrow> int \<Rightarrow> nat \<Rightarrow> bst res option" where
  "bst_insert_node_unbalenced s node k d =
     bind_ro (check_tree s 0) (\<lambda>_.
     if node = 0 then Some (Inl Null_deref)
     else
       (let s = init_node node k d s; current = tree_root s in
        if current = 0 then
          (let s = set_parent node 0 (s\<lparr>tree_root := node\<rparr>) in
           bind_ro (check_tree s 0) (\<lambda>_. Some (Inr s)))
        else
          bind_ro (insert_loop s (node_key s node) current 0 BST_DIR_LEFT) (\<lambda>(insertparent, childindex).
          let s = set_parent node insertparent (set_child insertparent childindex node s) in
          bind_ro (bst_recalculate_height s (node_parent s node)) (\<lambda>s.
          bind_ro (bst_recalculate_bf s (node_parent s node)) (\<lambda>s.
          bind_ro (check_tree s 0) (\<lambda>_. Some (Inr s)))))))"

definition bst_insert_node :: "bst \<Rightarrow> nat \<Rightarrow> int \<Rightarrow> nat \<Rightarrow> bst res option" where
  "bst_insert_node s node k d =
     bind_ro (check_tree s 0) (\<lambda>_.
     bind_ro (bst_insert_node_unbalenced s node k d) (\<lambda>s.
     bind_ro (if node_parent s node \<noteq> 0 then bst_check_and_rebalence s (node_parent s node) else Some (Inr s)) (\<lambda>s.
     bind_ro (check_tree s 0) (\<lambda>_. Some (Inr s)))))"

subsection \<open>Removal\<close>

definition remove_terminal_node :: "bst \<Rightarrow> nat \<Rightarrow> bst res" where
  "remove_terminal_node s node =
     (if node_parent s node \<noteq> 0 then replace_in_parent s node 0
      else bind_res (assert_res (tree_root s = node)) (\<lambda>_. Inr (s\<lparr>tree_root := 0\<rparr>)))"

text \<open>remove_node_with_left_child and remove_node_with_right_child differ in the side of the child.\<close>

definition remove_node_with_child :: "BST_DIR \<Rightarrow> bst \<Rightarrow> nat \<Rightarrow> bst res" where
  "remove_node_with_child dir s node =
     (let child = node_children s node dir in
      if node_parent s node \<noteq> 0 then
        bind_res (replace_in_parent s node child) (\<lambda>s. Inr (set_parent child (node_parent s node) s))
      else
        (let s = set_parent child 0 s in
         bind_res (assert_res (tree_root s = node)) (\<lambda>_. Inr (s\<lparr>tree_root := child\<rparr>))))"

definition remove_node_with_left_child :: "bst \<Rightarrow> nat \<Rightarrow> bst res" where
  "remove_node_with_left_child = remove_node_with_child BST_DIR_LEFT"

definition remove_node_with_right_child :: "bst \<Rightarrow> nat \<Rightarrow> bst res" where
  "remove_node_with_right_child = remove_node_with_child BST_DIR_RIGHT"

definition remove_node_with_both_children :: "bst \<Rightarrow> nat \<Rightarrow> bst res option" where
  "remove_node_with_both_children s node =
     Option.bind (bst_max_of s (node_children s node BST_DIR_LEFT)) (\<lambda>replacement.
     bind_ro (Some (assert_res (replacement \<noteq> 0))) (\<lambda>_.
     bind_ro (Some (assert_res (node_parent s replacement \<noteq> 0))) (\<lambda>_.
     let old_parent = node_parent s replacement in
     bind_ro (Some (replace_in_parent s replacement 0)) (\<lambda>s.
     bind_ro (Some (if node_parent s node \<noteq> 0 then replace_in_parent s node replacement
                    else Inr (s\<lparr>tree_root := replacement\<rparr>))) (\<lambda>s.
     let s = set_parent replacement (node_parent s node) s;
         s = set_child replacement BST_DIR_LEFT (node_children s node BST_DIR_LEFT) s;
         s = set_child replacement BST_DIR_RIGHT (node_children s node BST_DIR_RIGHT) s;
         l = node_children s replacement BST_DIR_LEFT;
         s = if l \<noteq> 0 then set_parent l replacement s else s;
         r = node_children s replacement BST_DIR_RIGHT;
         s = if r \<noteq> 0 then set_parent r replacement s else s in
     bind_ro (bst_recalculate_height s (if old_parent \<noteq> node then old_parent else replacement)) (\<lambda>s.
     bst_recalculate_bf s replacement))))))"

definition bst_remove_node_unbalenced :: "bst \<Rightarrow> nat \<Rightarrow> bst res option" where
  "bst_remove_node_unbalenced s node =
     bind_ro (check_tree s 0) (\<lambda>_.
     let parent_node = node_parent s node; l = node_children s node BST_DIR_LEFT; r = node_children s node BST_DIR_RIGHT in
     bind_ro
       (if node = 0 then Some (Inl Null_deref)
        else if l = 0 \<and> r = 0 then Some (remove_terminal_node s node)
        else if l \<noteq> 0 \<and> r = 0 then Some (remove_node_with_left_child s node)
        else if l = 0 \<and> r \<noteq> 0 then Some (remove_node_with_right_child s node)
        else remove_node_with_both_children s node) (\<lambda>s.
     bind_ro
       (if parent_node \<noteq> 0 then
          bind_ro (bst_recalculate_height s parent_node) (\<lambda>s. bst_recalculate_bf s parent_node)
        else Some (Inr s)) (\<lambda>s.
     bind_ro (check_tree s 0) (\<lambda>_. Some (Inr s)))))"

definition bst_remove_node :: "bst \<Rightarrow> nat \<Rightarrow> bst res option" where
  "bst_remove_node s node =
     bind_ro (check_tree s 0) (\<lambda>_.
     bind_ro (bst_remove_node_unbalenced s node) (\<lambda>s.
     bind_ro (if node_parent s node \<noteq> 0 then bst_check_and_rebalence s (node_parent s node) else Some (Inr s)) (\<lambda>s.
     bind_ro (check_tree s 0) (\<lambda>_. Some (Inr s)))))"

text \<open>The empty tree.\<close>

definition bst_init :: "bst \<Rightarrow> bst" where
  "bst_init s = s\<lparr>tree_root := 0\<rparr>"

end
