(* ===== verification/Bst_Tree.thy ===== *)
theory Bst_Tree
  imports Bst
begin

text \<open>
  The relation between the memory of a search tree and a tree of addresses, contexts (the path from a node to the
  root), and the functions that check, search, iterate over, and recompute a tree, against its inorder sequence.
\<close>

subsection \<open>Trees in memory\<close>

text \<open>\<open>mk d t a u\<close>: node \<open>a\<close> with \<open>t\<close> on side \<open>d\<close> and \<open>u\<close> on the other side.\<close>

definition mk :: "BST_DIR \<Rightarrow> 'a tree \<Rightarrow> 'a \<Rightarrow> 'a tree \<Rightarrow> 'a tree" where
  "mk d t a u = (case d of BST_DIR_LEFT \<Rightarrow> \<langle>t, a, u\<rangle> | BST_DIR_RIGHT \<Rightarrow> \<langle>u, a, t\<rangle>)"

fun shape :: "bst \<Rightarrow> nat tree \<Rightarrow> nat \<Rightarrow> nat \<Rightarrow> bool" where
  "shape s \<langle>\<rangle> p q \<longleftrightarrow> p = 0"
| "shape s \<langle>l, a, r\<rangle> p q \<longleftrightarrow> p = a \<and> a \<noteq> 0 \<and> node_parent s a = q \<and>
     shape s l (node_children s a BST_DIR_LEFT) a \<and> shape s r (node_children s a BST_DIR_RIGHT) a"

fun hts :: "bst \<Rightarrow> nat tree \<Rightarrow> bool" where
  "hts s \<langle>\<rangle> \<longleftrightarrow> True"
| "hts s \<langle>l, a, r\<rangle> \<longleftrightarrow> node_height s a = int (max (height l) (height r)) \<and> hts s l \<and> hts s r"

fun bfs :: "bst \<Rightarrow> nat tree \<Rightarrow> bool" where
  "bfs s \<langle>\<rangle> \<longleftrightarrow> True"
| "bfs s \<langle>l, a, r\<rangle> \<longleftrightarrow> node_bf s a = int (height l) - int (height r) \<and> bfs s l \<and> bfs s r"

fun avl :: "'a tree \<Rightarrow> bool" where
  "avl \<langle>\<rangle> \<longleftrightarrow> True"
| "avl \<langle>l, a, r\<rangle> \<longleftrightarrow> \<bar>int (height l) - int (height r)\<bar> \<le> 1 \<and> avl l \<and> avl r"

definition by_key :: "bst \<Rightarrow> nat list \<Rightarrow> bool" where
  "by_key s xs \<longleftrightarrow> sorted_wrt (\<lambda>a b. node_key s a < node_key s b) xs"

definition tree_rep :: "bst \<Rightarrow> nat tree \<Rightarrow> bool" where
  "tree_rep s t \<longleftrightarrow> shape s t (tree_root s) 0 \<and> by_key s (inorder t) \<and> hts s t \<and> bfs s t"

lemma opposite_simps [simp]:
  "opposite BST_DIR_LEFT = BST_DIR_RIGHT" "opposite BST_DIR_RIGHT = BST_DIR_LEFT" "opposite (opposite d) = d" "opposite d \<noteq> d" "d \<noteq> opposite d"
  by (cases d; simp add: opposite_def)+

lemma mk_simps [simp]: "mk BST_DIR_LEFT t a u = \<langle>t, a, u\<rangle>" "mk BST_DIR_RIGHT t a u = \<langle>u, a, t\<rangle>"
  by (simp_all add: mk_def)

lemma mk_not_Leaf [simp]: "mk d t a u \<noteq> \<langle>\<rangle>"
  by (cases d) simp_all

lemma mk_opposite: "mk (opposite d) u a t = mk d t a u"
  by (cases d) simp_all

lemma mk_facts [simp]:
  "shape s (mk d t a u) p q \<longleftrightarrow> p = a \<and> a \<noteq> 0 \<and> node_parent s a = q \<and>
     shape s t (node_children s a d) a \<and> shape s u (node_children s a (opposite d)) a"
  "hts s (mk d t a u) \<longleftrightarrow> node_height s a = int (max (height t) (height u)) \<and> hts s t \<and> hts s u"
  "bfs s (mk d t a u) \<longleftrightarrow> node_bf s a = (if d = BST_DIR_LEFT then 1 else - 1) * (int (height t) - int (height u)) \<and> bfs s t \<and> bfs s u"
  "avl (mk d t a u) \<longleftrightarrow> \<bar>int (height t) - int (height u)\<bar> \<le> 1 \<and> avl t \<and> avl u"
  "height (mk d t a u) = max (height t) (height u) + 1"
  "set_tree (mk d t a u) = insert a (set_tree t \<union> set_tree u)"
  by (cases d; auto)+

lemma shape_frame:
  assumes "\<forall>a\<in>set_tree t. node_parent s' a = node_parent s a \<and> node_children s' a = node_children s a"
  shows "shape s' t p q \<longleftrightarrow> shape s t p q"
  using assms by (induction t arbitrary: p q) auto

lemma hts_frame: "\<forall>a\<in>set_tree t. node_height s' a = node_height s a \<Longrightarrow> hts s' t \<longleftrightarrow> hts s t"
  by (induction t) auto

lemma bfs_frame: "\<forall>a\<in>set_tree t. node_bf s' a = node_bf s a \<Longrightarrow> bfs s' t \<longleftrightarrow> bfs s t"
  by (induction t) auto

lemma by_key_frame: "\<forall>a\<in>set xs. node_key s' a = node_key s a \<Longrightarrow> by_key s' xs \<longleftrightarrow> by_key s xs"
  unfolding by_key_def by (induction xs) auto

lemma by_key_distinct: "by_key s xs \<Longrightarrow> distinct xs"
  unfolding by_key_def by (induction xs) auto

lemma shape_zero: "shape s t p q \<Longrightarrow> 0 \<notin> set_tree t"
  by (induction t arbitrary: p q) auto

lemma shape_ptr: "shape s t p q \<Longrightarrow> p = 0 \<longleftrightarrow> t = \<langle>\<rangle>"
  by (cases t) auto

text \<open>Changes of one kind of field leave the others alone.\<close>

lemma shape_other [simp]:
  "shape (s\<lparr>node_height := H\<rparr>) t p q = shape s t p q" "shape (s\<lparr>node_bf := B\<rparr>) t p q = shape s t p q"
  "shape (s\<lparr>tree_root := r\<rparr>) t p q = shape s t p q"
  by (rule shape_frame; simp)+

lemma hts_other [simp]:
  "hts (s\<lparr>node_bf := B\<rparr>) t = hts s t" "hts (s\<lparr>tree_root := r\<rparr>) t = hts s t"
  "hts (s\<lparr>node_parent := P\<rparr>) t = hts s t" "hts (s\<lparr>node_children := C\<rparr>) t = hts s t"
  by (rule hts_frame; simp)+

lemma bfs_other [simp]:
  "bfs (s\<lparr>node_height := H\<rparr>) t = bfs s t" "bfs (s\<lparr>tree_root := r\<rparr>) t = bfs s t"
  "bfs (s\<lparr>node_parent := P\<rparr>) t = bfs s t" "bfs (s\<lparr>node_children := C\<rparr>) t = bfs s t"
  by (rule bfs_frame; simp)+

lemma by_key_other [simp]:
  "by_key (s\<lparr>node_height := H\<rparr>) t = by_key s t" "by_key (s\<lparr>tree_root := r\<rparr>) t = by_key s t" "by_key (s\<lparr>node_bf := B\<rparr>) t = by_key s t"
  "by_key (s\<lparr>node_parent := P\<rparr>) t = by_key s t" "by_key (s\<lparr>node_children := C\<rparr>) t = by_key s t"
  by (rule by_key_frame; simp)+

subsection \<open>Contexts\<close>

text \<open>The path from a position to the root: at each step the side of the position, the node, and its other subtree.\<close>

type_synonym ctx = "(BST_DIR \<times> nat \<times> nat tree) list"

fun plug :: "ctx \<Rightarrow> nat tree \<Rightarrow> nat tree" where
  "plug [] t = t"
| "plug ((d, a, u) # c) t = plug c (mk d t a u)"

fun in_ctx :: "bst \<Rightarrow> ctx \<Rightarrow> nat \<Rightarrow> nat \<Rightarrow> nat \<Rightarrow> bool" where
  "in_ctx s [] p q rt \<longleftrightarrow> p = rt \<and> q = 0"
| "in_ctx s ((d, a, u) # c) p q rt \<longleftrightarrow> q = a \<and> a \<noteq> 0 \<and> node_children s a d = p \<and>
     shape s u (node_children s a (opposite d)) a \<and> in_ctx s c a (node_parent s a) rt"

fun before :: "ctx \<Rightarrow> nat list" where
  "before [] = []"
| "before ((d, a, u) # c) = before c @ (if d = BST_DIR_RIGHT then inorder u @ [a] else [])"

fun after :: "ctx \<Rightarrow> nat list" where
  "after [] = []"
| "after ((d, a, u) # c) = (if d = BST_DIR_LEFT then a # inorder u else []) @ after c"

fun ctx_nodes :: "ctx \<Rightarrow> nat set" where
  "ctx_nodes [] = {}"
| "ctx_nodes ((d, a, u) # c) = insert a (set_tree u) \<union> ctx_nodes c"

fun ctx_hts :: "bst \<Rightarrow> ctx \<Rightarrow> bool" where
  "ctx_hts s [] \<longleftrightarrow> True"
| "ctx_hts s ((d, a, u) # c) \<longleftrightarrow> hts s u \<and> ctx_hts s c"

fun ctx_bfs :: "bst \<Rightarrow> ctx \<Rightarrow> bool" where
  "ctx_bfs s [] \<longleftrightarrow> True"
| "ctx_bfs s ((d, a, u) # c) \<longleftrightarrow> bfs s u \<and> ctx_bfs s c"

lemma shape_plug: "shape s (plug c t) rt 0 \<longleftrightarrow> (\<exists>p q. in_ctx s c p q rt \<and> shape s t p q)"
proof (induction c arbitrary: t)
  case (Cons x c)
  obtain d a u where x: "x = (d, a, u)" by (cases x)
  show ?case unfolding x by (simp add: Cons) blast
qed simp

lemma inorder_plug: "inorder (plug c t) = before c @ inorder t @ after c"
proof (induction c arbitrary: t)
  case (Cons x c)
  obtain d a u where x: "x = (d, a, u)" by (cases x)
  show ?case unfolding x by (cases d) (simp_all add: Cons)
qed simp

lemma ctx_nodes_seq: "ctx_nodes c = set (before c) \<union> set (after c)"
proof (induction c)
  case (Cons x c)
  obtain d a u where x: "x = (d, a, u)" by (cases x)
  show ?case unfolding x by (cases d) (auto simp: Cons)
qed simp

lemma hts_plug: "hts s (plug c t) \<Longrightarrow> hts s t \<and> ctx_hts s c"
  by (induction c t rule: plug.induct) auto

lemma bfs_plug: "bfs s (plug c t) \<Longrightarrow> bfs s t \<and> ctx_bfs s c"
  by (induction c t rule: plug.induct) auto

lemma in_ctx_frame:
  assumes "\<forall>a\<in>ctx_nodes c. node_parent s' a = node_parent s a \<and> node_children s' a = node_children s a"
  shows "in_ctx s' c p q rt \<longleftrightarrow> in_ctx s c p q rt"
  using assms
proof (induction c arbitrary: p q)
  case (Cons x c)
  obtain d a u where x: "x = (d, a, u)" by (cases x)
  show ?case using Cons.prems unfolding x by (simp add: Cons.IH shape_frame [of u s' s])
qed simp

lemma ctx_hts_frame: "\<forall>a\<in>ctx_nodes c. node_height s' a = node_height s a \<Longrightarrow> ctx_hts s' c \<longleftrightarrow> ctx_hts s c"
  by (induction c rule: ctx_nodes.induct) (auto simp: hts_frame [of _ s' s])

lemma ctx_bfs_frame: "\<forall>a\<in>ctx_nodes c. node_bf s' a = node_bf s a \<Longrightarrow> ctx_bfs s' c \<longleftrightarrow> ctx_bfs s c"
  by (induction c rule: ctx_nodes.induct) (auto simp: bfs_frame [of _ s' s])

lemma in_ctx_other [simp]:
  "in_ctx (s\<lparr>node_height := H\<rparr>) c p q rt = in_ctx s c p q rt" "in_ctx (s\<lparr>node_bf := B\<rparr>) c p q rt = in_ctx s c p q rt"
  "in_ctx (s\<lparr>tree_root := r\<rparr>) c p q rt = in_ctx s c p q rt"
  by (rule in_ctx_frame; simp)+

lemma ctx_other [simp]:
  "ctx_hts (s\<lparr>node_bf := B\<rparr>) c = ctx_hts s c" "ctx_bfs (s\<lparr>node_height := H\<rparr>) c = ctx_bfs s c"
  by (rule ctx_hts_frame ctx_bfs_frame; simp)+

lemma in_ctx_parent: "in_ctx s c p q rt \<Longrightarrow> q = 0 \<longleftrightarrow> c = []"
  by (cases "(s, c, p, q, rt)" rule: in_ctx.cases) auto

lemma plug_append: "plug (c @ [(d, a, u)]) t = mk d (plug c t) a u"
  by (induction c t rule: plug.induct) simp_all

text \<open>Every node of a tree has a context.\<close>

lemma node_context: "a \<in> set_tree t \<Longrightarrow> \<exists>c l r. t = plug c \<langle>l, a, r\<rangle>"
proof (induction t)
  case (Node l b r)
  consider "a = b" | "a \<in> set_tree l" | "a \<in> set_tree r" using Node.prems by auto
  then show ?case
  proof cases
    case 1
    have "\<langle>l, b, r\<rangle> = plug [] \<langle>l, a, r\<rangle>" using 1 by simp
    then show ?thesis by blast
  next
    case 2
    then obtain c l' r' where "l = plug c \<langle>l', a, r'\<rangle>" using Node.IH(1) by blast
    then have "\<langle>l, b, r\<rangle> = plug (c @ [(BST_DIR_LEFT, b, r)]) \<langle>l', a, r'\<rangle>" by (simp add: plug_append)
    then show ?thesis by blast
  next
    case 3
    then obtain c l' r' where "r = plug c \<langle>l', a, r'\<rangle>" using Node.IH(2) by blast
    then have "\<langle>l, b, r\<rangle> = plug (c @ [(BST_DIR_RIGHT, b, l)]) \<langle>l', a, r'\<rangle>" by (simp add: plug_append)
    then show ?thesis by blast
  qed
qed simp

subsection \<open>The checks\<close>

lemma subtree_height:
  assumes "shape s u x a" and "u \<noteq> \<langle>\<rangle> \<Longrightarrow> height_of_subtree s x = Some (int (height u) - 1)"
  shows "(if x \<noteq> 0 then Option.bind (height_of_subtree s x) (\<lambda>h. Some (h + 1)) else Some 0) = Some (int (height u))"
  using assms(2) shape_ptr [OF assms(1)] by (cases "u = \<langle>\<rangle>") auto

lemma height_of_subtree_ok: "shape s t p q \<Longrightarrow> t \<noteq> \<langle>\<rangle> \<Longrightarrow> height_of_subtree s p = Some (int (height t) - 1)"
proof (induction t arbitrary: p q)
  case (Node l a r)
  have a: "p = a" "shape s l (node_children s a BST_DIR_LEFT) a" "shape s r (node_children s a BST_DIR_RIGHT) a"
    using Node.prems(1) by simp_all
  note sides = subtree_height [OF a(2) Node.IH(1), OF a(2), simplified] subtree_height [OF a(3) Node.IH(2), OF a(3), simplified]
  show ?case
    by (subst height_of_subtree.simps) (simp add: Let_def a(1) sides)
qed simp

lemma balence_factor_ok: "shape s \<langle>l, a, r\<rangle> p q \<Longrightarrow> balence_factor s p = Some (int (height l) - int (height r))"
proof -
  assume "shape s \<langle>l, a, r\<rangle> p q"
  then have a: "p = a" "shape s l (node_children s a BST_DIR_LEFT) a" "shape s r (node_children s a BST_DIR_RIGHT) a"
    by simp_all
  note sides = subtree_height [OF a(2) height_of_subtree_ok, OF a(2), simplified] subtree_height [OF a(3) height_of_subtree_ok, OF a(3), simplified]
  show ?thesis by (simp add: balence_factor_def Let_def a(1) sides)
qed

lemma check_subtree_ok:
  assumes "shape s t p q" and "flags AND CHECK_FLAG_NO_HEIGHT = 0 \<Longrightarrow> hts s t" and "flags AND CHECK_FLAG_NO_BF = 0 \<Longrightarrow> bfs s t"
  shows "check_subtree s p q flags = Some (Inr ())"
  using assms
proof (induction t arbitrary: p q)
  case Leaf
  then show ?case by (subst check_subtree.simps) simp
next
  case (Node l a r)
  have p: "p = a" "a \<noteq> 0" "node_parent s a = q" using Node.prems(1) by simp_all
  have "height_failed s p flags = Some False"
    using height_of_subtree_ok [OF Node.prems(1)] Node.prems(2) p by (simp add: height_failed_def)
  moreover have "bf_failed s p flags = Some False"
    using balence_factor_ok [OF Node.prems(1)] Node.prems(3) p by (simp add: bf_failed_def)
  moreover have "check_subtree s (node_children s a BST_DIR_LEFT) a flags = Some (Inr ())"
    by (rule Node.IH(1)) (use Node.prems in auto)
  moreover have "check_subtree s (node_children s a BST_DIR_RIGHT) a flags = Some (Inr ())"
    by (rule Node.IH(2)) (use Node.prems in auto)
  ultimately show ?case by (subst check_subtree.simps) (simp add: p)
qed

lemma check_tree_ok: "tree_rep s t \<Longrightarrow> check_tree s flags = Some (Inr ())"
  unfolding check_tree_def tree_rep_def by (blast intro: check_subtree_ok)

subsection \<open>Iteration and search\<close>

definition first_of :: "nat list \<Rightarrow> nat" where
  "first_of xs = (case xs of [] \<Rightarrow> 0 | x # _ \<Rightarrow> x)"

definition last_of :: "nat list \<Rightarrow> nat" where
  "last_of xs = (if xs = [] then 0 else last xs)"

lemma first_of_simps [simp]: "first_of [] = 0" "first_of (x # xs) = x" "xs \<noteq> [] \<Longrightarrow> first_of (xs @ ys) = first_of xs"
  by (auto simp: first_of_def split: list.splits)

lemma last_of_simps [simp]: "last_of [] = 0" "last_of (xs @ [x]) = x" "ys \<noteq> [] \<Longrightarrow> last_of (xs @ ys) = last_of ys"
  by (auto simp: last_of_def)

lemma min_of_ok: "shape s t p q \<Longrightarrow> min_of_loop s result p = Some (if t = \<langle>\<rangle> then result else first_of (inorder t))"
proof (induction t arbitrary: p q result)
  case Leaf
  then show ?case by (subst min_of_loop.simps) simp
next
  case (Node l a r)
  have "shape s l (node_children s a BST_DIR_LEFT) a" "p = a" "a \<noteq> 0" using Node.prems by simp_all
  then show ?case using Node.IH(1) by (subst min_of_loop.simps) auto
qed

lemma max_of_ok: "shape s t p q \<Longrightarrow> max_of_loop s result p = Some (if t = \<langle>\<rangle> then result else last_of (inorder t))"
proof (induction t arbitrary: p q result)
  case Leaf
  then show ?case by (subst max_of_loop.simps) simp
next
  case (Node l a r)
  have "shape s r (node_children s a BST_DIR_RIGHT) a" "p = a" "a \<noteq> 0" using Node.prems by simp_all
  moreover have "last_of (inorder l @ a # inorder r) = (if r = \<langle>\<rangle> then a else last_of (inorder r))"
    by (cases "r = \<langle>\<rangle>") (simp_all add: last_of_def)
  ultimately show ?case using Node.IH(2) by (subst max_of_loop.simps) simp
qed

lemma bst_min_of_ok: "shape s t p q \<Longrightarrow> bst_min_of s p = Some (first_of (inorder t))"
  by (auto simp: bst_min_of_def min_of_ok)

lemma bst_max_of_ok: "shape s t p q \<Longrightarrow> bst_max_of s p = Some (last_of (inorder t))"
  by (auto simp: bst_max_of_def max_of_ok)

lemma successor_loop_ok:
  assumes "in_ctx s c p q rt" and "\<forall>a\<in>set (before c). node_key s a < node_key s x" and "\<forall>a\<in>set (after c). node_key s x < node_key s a"
  shows "successor_loop s x q = Some (first_of (after c))"
  using assms
proof (induction c arbitrary: p q)
  case Nil
  then show ?case by (subst successor_loop.simps) simp
next
  case (Cons y c)
  obtain d a u where y: "y = (d, a, u)" by (cases y)
  show ?case
  proof (cases d)
    case BST_DIR_LEFT
    then show ?thesis using Cons.prems unfolding y by (subst successor_loop.simps) simp
  next
    case BST_DIR_RIGHT
    have i: "in_ctx s c a (node_parent s a) rt" and a: "q = a" "a \<noteq> 0" "node_key s a < node_key s x"
      using Cons.prems BST_DIR_RIGHT unfolding y by simp_all
    have "successor_loop s x (node_parent s a) = Some (first_of (after c))"
      by (rule Cons.IH [OF i]) (use Cons.prems BST_DIR_RIGHT in \<open>auto simp: y\<close>)
    then show ?thesis using a BST_DIR_RIGHT unfolding y by (subst successor_loop.simps) simp
  qed
qed

lemma predecessor_loop_ok:
  assumes "in_ctx s c p q rt" and "\<forall>a\<in>set (before c). node_key s a < node_key s x" and "\<forall>a\<in>set (after c). node_key s x < node_key s a"
  shows "predecessor_loop s x q = Some (last_of (before c))"
  using assms
proof (induction c arbitrary: p q)
  case Nil
  then show ?case by (subst predecessor_loop.simps) simp
next
  case (Cons y c)
  obtain d a u where y: "y = (d, a, u)" by (cases y)
  show ?case
  proof (cases d)
    case BST_DIR_RIGHT
    then show ?thesis using Cons.prems unfolding y by (subst predecessor_loop.simps) (simp add: last_of_def)
  next
    case BST_DIR_LEFT
    have i: "in_ctx s c a (node_parent s a) rt" and a: "q = a" "a \<noteq> 0" "node_key s x < node_key s a"
      using Cons.prems BST_DIR_LEFT unfolding y by simp_all
    have "predecessor_loop s x (node_parent s a) = Some (last_of (before c))"
      by (rule Cons.IH [OF i]) (use Cons.prems BST_DIR_LEFT in \<open>auto simp: y\<close>)
    then show ?thesis using a BST_DIR_LEFT unfolding y by (subst predecessor_loop.simps) simp
  qed
qed

lemma by_key_around:
  assumes "by_key s (xs @ x # ys)"
  shows "\<forall>a\<in>set xs. node_key s a < node_key s x" and "\<forall>a\<in>set ys. node_key s x < node_key s a"
  using assms by (auto simp: by_key_def sorted_wrt_append)

lemma successor_ok:
  assumes sh: "in_ctx s c p q rt" "shape s \<langle>l, x, r\<rangle> p q" and k: "by_key s (inorder (plug c \<langle>l, x, r\<rangle>))"
    and ok: "r = \<langle>\<rangle> \<Longrightarrow> hts s \<langle>l, x, r\<rangle> \<and> bfs s \<langle>l, x, r\<rangle>"
  shows "bst_successor s x = Some (Inr (first_of (inorder r @ after c)))"
proof -
  have px: "p = x" "node_parent s x = q" "shape s r (node_children s x BST_DIR_RIGHT) x" using sh(2) by simp_all
  show ?thesis
  proof (cases "r = \<langle>\<rangle>")
    case True
    have "by_key s ((before c @ inorder l) @ x # (inorder r @ after c))" using k by (simp add: inorder_plug)
    note around = by_key_around [OF this]
    have "successor_loop s x q = Some (first_of (after c))" by (rule successor_loop_ok [OF sh(1)]) (use around in auto)
    moreover have "check_subtree s x q 0 = Some (Inr ())"
      using check_subtree_ok [OF sh(2)] ok [OF True] px(1) by blast
    ultimately show ?thesis using True px by (simp add: bst_successor_def)
  next
    case False
    then show ?thesis using px shape_ptr [OF px(3)] bst_min_of_ok [OF px(3)] by (simp add: bst_successor_def)
  qed
qed

lemma predecessor_ok:
  assumes sh: "in_ctx s c p q rt" "shape s \<langle>l, x, r\<rangle> p q" and k: "by_key s (inorder (plug c \<langle>l, x, r\<rangle>))"
    and ok: "l = \<langle>\<rangle> \<Longrightarrow> hts s \<langle>l, x, r\<rangle> \<and> bfs s \<langle>l, x, r\<rangle>"
  shows "bst_predecessor s x = Some (Inr (last_of (before c @ inorder l)))"
proof -
  have px: "p = x" "node_parent s x = q" "shape s l (node_children s x BST_DIR_LEFT) x" using sh(2) by simp_all
  show ?thesis
  proof (cases "l = \<langle>\<rangle>")
    case True
    have "by_key s ((before c @ inorder l) @ x # (inorder r @ after c))" using k by (simp add: inorder_plug)
    note around = by_key_around [OF this]
    have "predecessor_loop s x q = Some (last_of (before c))" by (rule predecessor_loop_ok [OF sh(1)]) (use around in auto)
    moreover have "check_subtree s x q 0 = Some (Inr ())"
      using check_subtree_ok [OF sh(2)] ok [OF True] px(1) by blast
    moreover have "bst_max_of s 0 = Some 0" using bst_max_of_ok [of s "\<langle>\<rangle>" 0 0] by simp
    ultimately show ?thesis using True px by (simp add: bst_predecessor_def)
  next
    case False
    then show ?thesis using px shape_ptr [OF px(3)] bst_max_of_ok [OF px(3)] by (simp add: bst_predecessor_def)
  qed
qed

lemma find_loop_ok:
  assumes "shape s t p q" and "by_key s (inorder t)"
  shows "\<exists>x. find_loop s k p = Some x \<and> (if k \<in> node_key s ` set_tree t then x \<in> set_tree t \<and> node_key s x = k else x = 0)"
  using assms
proof (induction t arbitrary: p q)
  case Leaf
  then show ?case by (subst find_loop.simps) simp
next
  case (Node l a r)
  have p: "p = a" "a \<noteq> 0" "shape s l (node_children s a BST_DIR_LEFT) a" "shape s r (node_children s a BST_DIR_RIGHT) a"
    using Node.prems(1) by simp_all
  have k: "by_key s (inorder l)" "by_key s (inorder r)" using Node.prems(2) by (simp_all add: by_key_def sorted_wrt_append)
  have around: "\<forall>b\<in>set_tree l. node_key s b < node_key s a" "\<forall>b\<in>set_tree r. node_key s a < node_key s b"
    using by_key_around [of s "inorder l" a "inorder r"] Node.prems(2) by simp_all
  consider "k < node_key s a" | "node_key s a < k" | "k = node_key s a" by linarith
  then show ?case
  proof cases
    case 1
    have "k \<in> node_key s ` set_tree \<langle>l, a, r\<rangle> \<longleftrightarrow> k \<in> node_key s ` set_tree l" using 1 around by force
    then show ?thesis using Node.IH(1) [OF p(3) k(1)] 1 p(1,2) by (subst find_loop.simps) auto
  next
    case 2
    have "k \<in> node_key s ` set_tree \<langle>l, a, r\<rangle> \<longleftrightarrow> k \<in> node_key s ` set_tree r" using 2 around by force
    then show ?thesis using Node.IH(2) [OF p(4) k(2)] 2 p(1,2) by (subst find_loop.simps) auto
  next
    case 3
    then show ?thesis using p(1,2) by (subst find_loop.simps) simp
  qed
qed

lemma find_node_ok:
  assumes "tree_rep s t"
  shows "\<exists>x. bst_find_node s k = Some (Inr x) \<and> (if k \<in> node_key s ` set_tree t then x \<in> set_tree t \<and> node_key s x = k else x = 0)"
proof -
  have "shape s t (tree_root s) 0" "by_key s (inorder t)" using assms by (simp_all add: tree_rep_def)
  from find_loop_ok [OF this, of k] show ?thesis
    using check_tree_ok [OF assms, of 0] by (auto simp: bst_find_node_def)
qed

end
