(* ===== verification/Bst_Balance.thy ===== *)
theory Bst_Balance
  imports Bst_Tree
begin

text \<open>
  Recomputing heights and balance factors along the path to the root, rotation, and rebalancing: on a well-formed
  tree all of them succeed (no check fails), rotations keep the inorder sequence, and rebalancing restores the AVL
  property after a change of height by one.
\<close>

subsection \<open>What an operation leaves alone\<close>

definition frame :: "bst \<Rightarrow> bst \<Rightarrow> nat set \<Rightarrow> bool" where
  "frame s s' X \<longleftrightarrow> node_key s' = node_key s \<and> node_data s' = node_data s \<and>
     (\<forall>x. x \<notin> X \<longrightarrow> node_parent s' x = node_parent s x \<and> node_children s' x = node_children s x \<and>
       node_height s' x = node_height s x \<and> node_bf s' x = node_bf s x)"

lemma frame_refl [simp]: "frame s s X"
  by (simp add: frame_def)

lemma frame_trans: "frame s s1 X \<Longrightarrow> frame s1 s2 X \<Longrightarrow> frame s s2 X"
  by (simp add: frame_def)

lemma frame_other [simp]:
  "frame s (s\<lparr>node_height := H\<rparr>) X \<longleftrightarrow> (\<forall>x. x \<notin> X \<longrightarrow> H x = node_height s x)"
  "frame s (s\<lparr>node_bf := B\<rparr>) X \<longleftrightarrow> (\<forall>x. x \<notin> X \<longrightarrow> B x = node_bf s x)"
  "frame s (s\<lparr>tree_root := r\<rparr>) X"
  by (auto simp: frame_def)

lemma by_key_of_frame: "frame s s' X \<Longrightarrow> by_key s' xs = by_key s xs"
  by (rule by_key_frame) (simp add: frame_def)

subsection \<open>Disjointness\<close>

lemma distinct_mk:
  assumes "distinct (inorder (mk d t a u))"
  shows "a \<notin> set_tree t" "a \<notin> set_tree u" "set_tree t \<inter> set_tree u = {}" "distinct (inorder t)" "distinct (inorder u)"
  using assms by (cases d; auto)+

lemma distinct_plug:
  assumes "distinct (inorder (plug c t))"
  shows "distinct (inorder t)" "set_tree t \<inter> ctx_nodes c = {}" "distinct (before c @ after c)"
  using assms by (auto simp: inorder_plug ctx_nodes_seq)

lemma set_plug: "set_tree (plug c t) = set_tree t \<union> ctx_nodes c"
  using arg_cong [OF inorder_plug [of c t], of set] by (auto simp: ctx_nodes_seq)

lemma plug_plug: "plug c (plug c' t) = plug (c' @ c) t"
  by (induction c' t rule: plug.induct) simp_all

subsection \<open>Recomputing heights\<close>

lemma child_height_ok: "shape s t (node_children s a d) a \<Longrightarrow> hts s t \<Longrightarrow> child_height s a d = int (height t)"
  by (cases t) (auto simp: child_height_def)

lemma set_height_frame [simp]:
  "shape (set_height a v s) t p q = shape s t p q" "in_ctx (set_height a v s) c p q rt = in_ctx s c p q rt"
  "a \<notin> set_tree t \<Longrightarrow> hts (set_height a v s) t = hts s t" "a \<notin> ctx_nodes c \<Longrightarrow> ctx_hts (set_height a v s) c = ctx_hts s c"
  by (simp_all add: set_height_def) (rule hts_frame ctx_hts_frame; auto)+

lemma height_climb:
  assumes "shape s (mk d t a u) a q" and "in_ctx s c a q rt" and "distinct (inorder (plug c (mk d t a u)))"
    and "hts s t" and "hts s u" and "ctx_hts s c"
  shows "\<exists>H. recalculate_height_loop s a = Some (s\<lparr>node_height := H\<rparr>) \<and> hts (s\<lparr>node_height := H\<rparr>) (plug c (mk d t a u)) \<and>
    (\<forall>x. x \<notin> set_tree (plug c (mk d t a u)) \<longrightarrow> H x = node_height s x)"
  using assms
proof (induction c arbitrary: s d t a u q)
  case Nil
  let ?v = "int (max (height t) (height u))"
  note dm = distinct_mk [OF distinct_plug(1) [OF Nil(3)]]
  have ch: "child_height s a d = int (height t)" "child_height s a (opposite d) = int (height u)"
    using Nil by (auto intro: child_height_ok)
  have v: "(if child_height s a BST_DIR_LEFT < child_height s a BST_DIR_RIGHT then child_height s a BST_DIR_RIGHT
      else child_height s a BST_DIR_LEFT) = ?v"
    using ch by (cases d) auto
  have l: "recalculate_height_loop s a = recalculate_height_loop (set_height a ?v s) (node_parent s a)"
    using Nil(1) by (subst recalculate_height_loop.simps) (simp only: v Let_def, simp add: set_height_def)
  have "node_parent s a = 0" using Nil(1,2) by simp
  then have "recalculate_height_loop s a = Some (set_height a ?v s)"
    unfolding l by (subst recalculate_height_loop.simps) simp
  moreover have "hts (set_height a ?v s) (plug [] (mk d t a u))"
    using Nil(4,5) dm(1,2) by simp (simp add: set_height_def)
  moreover have "\<forall>x. x \<notin> set_tree (plug [] (mk d t a u)) \<longrightarrow> ((node_height s)(a := ?v)) x = node_height s x" by simp
  ultimately show ?case unfolding set_height_def by blast
next
  case (Cons y c)
  obtain e b w where y: "y = (e, b, w)" by (cases y)
  let ?v = "int (max (height t) (height u))"
  let ?s = "set_height a ?v s"
  let ?t = "mk d t a u"
  note dp = distinct_plug [OF Cons.prems(3)]
  note dm = distinct_mk [OF dp(1)]
  have a: "a \<notin> set_tree w" "a \<notin> ctx_nodes c" "a \<noteq> b" using dp(2) by (auto simp: y)
  have ch: "child_height s a d = int (height t)" "child_height s a (opposite d) = int (height u)"
    using Cons.prems by (auto intro: child_height_ok)
  have v: "(if child_height s a BST_DIR_LEFT < child_height s a BST_DIR_RIGHT then child_height s a BST_DIR_RIGHT
      else child_height s a BST_DIR_LEFT) = ?v"
    using ch by (cases d) auto
  have l: "recalculate_height_loop s a = recalculate_height_loop ?s (node_parent s a)"
    using Cons.prems(1) by (subst recalculate_height_loop.simps) (simp only: v Let_def, simp add: set_height_def)
  have p: "node_parent s a = b" using Cons.prems(1,2) by (simp add: y)
  have ht: "hts ?s ?t" using Cons.prems(4,5) dm(1,2) by simp (simp add: set_height_def)
  have "\<exists>H. recalculate_height_loop ?s b = Some (?s\<lparr>node_height := H\<rparr>) \<and> hts (?s\<lparr>node_height := H\<rparr>) (plug c (mk e ?t b w)) \<and>
      (\<forall>x. x \<notin> set_tree (plug c (mk e ?t b w)) \<longrightarrow> H x = node_height ?s x)"
  proof (rule Cons.IH)
    show "shape ?s (mk e ?t b w) b (node_parent s b)"
      using Cons.prems(1,2) unfolding y by (simp add: set_height_def)
    show "in_ctx ?s c b (node_parent s b) rt" using Cons.prems(2) unfolding y by simp
    show "distinct (inorder (plug c (mk e ?t b w)))" using Cons.prems(3) by (simp add: y)
    show "hts ?s ?t" by (rule ht)
    show "hts ?s w" "ctx_hts ?s c" using Cons.prems(6) a by (simp_all add: y)
  qed
  then show ?case unfolding l p by (auto simp: y set_height_def set_plug)
qed

lemma check_flags [simp]:
  "(CHECK_FLAG_NO_HEIGHT OR CHECK_FLAG_NO_BF) AND CHECK_FLAG_NO_HEIGHT \<noteq> 0" "(CHECK_FLAG_NO_HEIGHT OR CHECK_FLAG_NO_BF) AND CHECK_FLAG_NO_BF \<noteq> 0"
  "CHECK_FLAG_NO_HEIGHT \<noteq> 0" "CHECK_FLAG_NO_BF \<noteq> 0"
  by (simp_all add: CHECK_FLAG_NO_HEIGHT_def CHECK_FLAG_NO_BF_def)

lemma recalculate_height_ok:
  assumes "shape s (mk d t a u) a q" and "in_ctx s c a q rt" and "distinct (inorder (plug c (mk d t a u)))"
    and "hts s t" and "hts s u" and "ctx_hts s c"
  shows "\<exists>H. bst_recalculate_height s a = Some (Inr (s\<lparr>node_height := H\<rparr>)) \<and> hts (s\<lparr>node_height := H\<rparr>) (plug c (mk d t a u)) \<and>
    frame s (s\<lparr>node_height := H\<rparr>) (set_tree (plug c (mk d t a u)))"
proof -
  obtain H where H: "recalculate_height_loop s a = Some (s\<lparr>node_height := H\<rparr>)" "hts (s\<lparr>node_height := H\<rparr>) (plug c (mk d t a u))"
      "\<forall>x. x \<notin> set_tree (plug c (mk d t a u)) \<longrightarrow> H x = node_height s x"
    using height_climb [OF assms] by blast
  have q: "node_parent s a = q" "a \<noteq> 0" using assms(1) by simp_all
  have "check_subtree s a q (CHECK_FLAG_NO_HEIGHT OR CHECK_FLAG_NO_BF) = Some (Inr ())"
    by (rule check_subtree_ok [OF assms(1)]) simp_all
  moreover have "check_subtree (s\<lparr>node_height := H\<rparr>) a q CHECK_FLAG_NO_BF = Some (Inr ())"
    by (rule check_subtree_ok [where t = "mk d t a u"]) (use assms(1) hts_plug [OF H(2)] in simp_all)
  ultimately show ?thesis using H q unfolding bst_recalculate_height_def by (intro exI [of _ H]) simp
qed

subsection \<open>Recomputing balance factors\<close>

lemma bfs_iff:
  assumes "shape s t p q" and "hts s t"
  shows "bfs s t \<longleftrightarrow> (\<forall>a\<in>set_tree t. node_bf s a = child_height s a BST_DIR_LEFT - child_height s a BST_DIR_RIGHT)"
  using assms by (induction t arbitrary: p q) (auto simp: child_height_ok)

lemma child_height_other [simp]: "child_height (s\<lparr>node_bf := B\<rparr>) a d = child_height s a d"
  by (simp add: child_height_def)

lemma update_bf_eq: "update_bf s a = s\<lparr>node_bf := (node_bf s)(a := child_height s a BST_DIR_LEFT - child_height s a BST_DIR_RIGHT)\<rparr>"
  by (simp add: update_bf_def set_bf_def)

lemma unique_split: "distinct (xs @ x # ys) \<Longrightarrow> xs @ x # ys = xs' @ x # ys' \<Longrightarrow> xs = xs' \<and> ys = ys'"
  by (metis append_Cons_eq_iff distinct.simps(2) distinct_append disjoint_iff list.set_intros(1))

lemma successor_within:
  assumes sh: "shape s (plug c t) rt 0" and k: "by_key s (inorder (plug c t))" and h: "hts s t"
    and x: "inorder t = xs @ x # z # zs"
    and fin: "\<forall>a\<in>insert x (set xs). node_bf s a = child_height s a BST_DIR_LEFT - child_height s a BST_DIR_RIGHT"
  shows "bst_successor s x = Some (Inr z)"
proof -
  have "x \<in> set (inorder t)" by (simp add: x)
  then have "x \<in> set_tree t" by simp
  then obtain c' l r where t: "t = plug c' \<langle>l, x, r\<rangle>" using node_context by blast
  have T: "plug c t = plug (c' @ c) \<langle>l, x, r\<rangle>" by (simp add: t plug_plug)
  obtain p q where i: "in_ctx s (c' @ c) p q rt" "shape s \<langle>l, x, r\<rangle> p q" using sh unfolding T shape_plug by blast
  have "distinct (inorder (plug c t))" using k by (rule by_key_distinct)
  then have dt: "distinct (xs @ x # z # zs)" using distinct_plug(1) by (simp add: x [symmetric])
  have e: "xs @ x # z # zs = (before c' @ inorder l) @ x # inorder r @ after c'"
    using x unfolding t inorder_plug by simp
  have l: "xs = before c' @ inorder l" and r: "z # zs = inorder r @ after c'" using unique_split [OF dt e] by simp_all
  have ht: "hts s \<langle>l, x, r\<rangle>" using h hts_plug unfolding t by blast
  have "bst_successor s x = Some (Inr (first_of (inorder r @ after (c' @ c))))"
  proof (rule successor_ok [OF i k [unfolded T]])
    assume "r = \<langle>\<rangle>"
    then show "hts s \<langle>l, x, r\<rangle> \<and> bfs s \<langle>l, x, r\<rangle>" using ht bfs_iff [OF i(2) ht] fin by (simp add: l)
  qed
  also have "inorder r @ after (c' @ c) = z # zs @ after c"
  proof -
    have "after (c' @ c) = after c' @ after c" by (induction c' rule: after.induct) simp_all
    then have "inorder r @ after (c' @ c) = (inorder r @ after c') @ after c" by simp
    then show ?thesis unfolding r [symmetric] by simp
  qed
  finally show ?thesis by simp
qed

lemma bf_range:
  assumes "shape s (plug c t) rt 0" and "by_key s (inorder (plug c t))" and "hts s t"
    and "inorder t = xs @ x # zs" and "\<forall>a\<in>set xs. node_bf s a = child_height s a BST_DIR_LEFT - child_height s a BST_DIR_RIGHT"
  shows "\<exists>B. bf_range_loop s x (last_of (inorder t)) = Some (Inr (s\<lparr>node_bf := B\<rparr>)) \<and>
    (\<forall>a\<in>set_tree t. B a = child_height s a BST_DIR_LEFT - child_height s a BST_DIR_RIGHT) \<and>
    (\<forall>a. a \<notin> set_tree t \<longrightarrow> B a = node_bf s a)"
  using assms
proof (induction zs arbitrary: s x xs)
  case Nil
  have set: "set_tree t = insert x (set xs)" using arg_cong [OF Nil(4), of set] by auto
  have "last_of (inorder t) = x" by (simp add: Nil(4))
  then show ?case using Nil(5) by (subst bf_range_loop.simps) (auto simp: update_bf_eq set)
next
  case (Cons z zs)
  let ?s = "update_bf s x"
  have s: "?s = s\<lparr>node_bf := (node_bf s)(x := child_height s x BST_DIR_LEFT - child_height s x BST_DIR_RIGHT)\<rparr>"
    by (rule update_bf_eq)
  have t: "set_tree t = insert x (insert z (set xs \<union> set zs))" using arg_cong [OF Cons.prems(4), of set] by auto
  have sh: "shape s (plug c t) rt 0" "shape ?s (plug c t) rt 0" using Cons.prems(1) by (simp_all add: s)
  have k: "by_key ?s (inorder (plug c t))" using Cons.prems(2) by (simp add: s)
  have h: "hts ?s t" using Cons.prems(3) by (simp add: s)
  have d: "distinct (xs @ x # z # zs)" using distinct_plug(1) [OF by_key_distinct [OF Cons.prems(2)]] by (simp add: Cons.prems(4))
  have fin: "\<forall>a\<in>insert x (set xs). node_bf ?s a = child_height ?s a BST_DIR_LEFT - child_height ?s a BST_DIR_RIGHT"
    using Cons.prems(5) d by (auto simp: s)
  note su = successor_within [OF sh(2) k h Cons.prems(4) fin]
  have ne: "x \<noteq> last_of (inorder t)" using d by (auto simp: Cons.prems(4) last_of_def)
  have z: "z \<noteq> 0" using shape_zero [OF sh(1)] by (auto simp: set_plug t)
  obtain B where B: "bf_range_loop ?s z (last_of (inorder t)) = Some (Inr (?s\<lparr>node_bf := B\<rparr>))"
      "\<forall>a\<in>set_tree t. B a = child_height ?s a BST_DIR_LEFT - child_height ?s a BST_DIR_RIGHT"
      "\<forall>a. a \<notin> set_tree t \<longrightarrow> B a = node_bf ?s a"
    using Cons.IH [OF sh(2) k h, of "xs @ [x]" z] Cons.prems(4) fin by auto
  have "bf_range_loop s x (last_of (inorder t)) = Some (Inr (?s\<lparr>node_bf := B\<rparr>))"
    using su ne z B(1) by (subst bf_range_loop.simps) (simp add: Let_def)
  then show ?case using B(2,3) by (intro exI [of _ B]) (auto simp: s t)
qed

lemma bf_climb:
  assumes "shape s t p q" and "in_ctx s c p q rt" and "distinct (inorder (plug c t))" and "hts s (plug c t)" and "bfs s t" and "ctx_bfs s c"
  shows "\<exists>B. bf_parents_loop s q = Some (s\<lparr>node_bf := B\<rparr>) \<and> bfs (s\<lparr>node_bf := B\<rparr>) (plug c t) \<and>
    (\<forall>x. x \<notin> set_tree (plug c t) \<longrightarrow> B x = node_bf s x)"
  using assms
proof (induction c arbitrary: s t p q)
  case Nil
  then show ?case by (subst bf_parents_loop.simps) (auto intro!: exI [of _ "node_bf s"])
next
  case (Cons y c)
  obtain e b w where y: "y = (e, b, w)" by (cases y)
  let ?s = "update_bf s b" and ?t = "mk e t b w"
  note dm = distinct_mk [OF distinct_plug(1), of c e t b w]
  note dp = distinct_plug(2) [of c ?t]
  have D: "distinct (inorder (plug c ?t))" using Cons.prems(3) by (simp add: y)
  have b: "q = b" "b \<noteq> 0" "b \<notin> ctx_nodes c" using Cons.prems(2) dp [OF D] by (auto simp: y)
  have sh: "shape s ?t b (node_parent s b)" "in_ctx s c b (node_parent s b) rt" using Cons.prems(1,2) by (auto simp: y)
  have h: "hts s ?t" "hts s (plug c ?t)" using hts_plug [of s c ?t] Cons.prems(4) by (simp_all add: y)
  have "bfs (s\<lparr>node_bf := (node_bf s)(b := v)\<rparr>) t" "bfs (s\<lparr>node_bf := (node_bf s)(b := v)\<rparr>) w" for v
    using Cons.prems(5,6) dm(1,2) [OF D] bfs_frame [of t "s\<lparr>node_bf := (node_bf s)(b := v)\<rparr>" s]
      bfs_frame [of w "s\<lparr>node_bf := (node_bf s)(b := v)\<rparr>" s] by (auto simp: y)
  moreover have "child_height s b e = int (height t)" "child_height s b (opposite e) = int (height w)"
    using sh(1) h(1) by (auto intro: child_height_ok)
  ultimately have bf: "bfs ?s ?t" by (cases e) (simp_all add: update_bf_eq)
  have cb: "ctx_bfs ?s c" using Cons.prems(6) b(3) ctx_bfs_frame [of c ?s s] by (auto simp: y update_bf_eq)
  obtain B where "bf_parents_loop ?s (node_parent s b) = Some (?s\<lparr>node_bf := B\<rparr>)" "bfs (?s\<lparr>node_bf := B\<rparr>) (plug c ?t)"
      "\<forall>x. x \<notin> set_tree (plug c ?t) \<longrightarrow> B x = node_bf ?s x"
    using Cons.IH [of ?s ?t b "node_parent s b"] sh h(2) D bf cb by (auto simp: update_bf_eq)
  then show ?case using b(1,2)
    by (subst bf_parents_loop.simps) (auto simp: y update_bf_eq set_plug Let_def intro!: exI [of _ B])
qed

lemma recalculate_bf_ok:
  assumes "shape s t p q" and "in_ctx s c p q rt" and "t \<noteq> \<langle>\<rangle>" and "by_key s (inorder (plug c t))" and "hts s (plug c t)" and "ctx_bfs s c"
  shows "\<exists>B. bst_recalculate_bf s p = Some (Inr (s\<lparr>node_bf := B\<rparr>)) \<and> bfs (s\<lparr>node_bf := B\<rparr>) (plug c t) \<and>
    frame s (s\<lparr>node_bf := B\<rparr>) (set_tree (plug c t))"
proof -
  have D: "distinct (inorder (plug c t))" using assms(4) by (rule by_key_distinct)
  have p: "p \<noteq> 0" "node_parent s p = q" using assms(1,3) by (cases t; simp)+
  have T: "shape s (plug c t) rt 0" using assms(1,2) shape_plug by blast
  have h: "hts s t" using hts_plug [OF assms(5)] by blast
  obtain x zs where x: "inorder t = x # zs" using assms(3) by (cases "inorder t") auto
  obtain B where B: "bf_range_loop s x (last_of (inorder t)) = Some (Inr (s\<lparr>node_bf := B\<rparr>))"
      "\<forall>a\<in>set_tree t. B a = child_height s a BST_DIR_LEFT - child_height s a BST_DIR_RIGHT"
      "\<forall>a. a \<notin> set_tree t \<longrightarrow> B a = node_bf s a"
    using bf_range [OF T assms(4) h, of "[]" x zs] x by auto
  let ?s = "s\<lparr>node_bf := B\<rparr>"
  have bf: "bfs ?s t" using bfs_iff [of ?s t p q] assms(1) h B(2) by simp
  have cb: "ctx_bfs ?s c" using assms(6) B(3) distinct_plug(2) [OF D] ctx_bfs_frame [of c ?s s] by auto
  obtain B' where B': "bf_parents_loop ?s q = Some (?s\<lparr>node_bf := B'\<rparr>)" "bfs (?s\<lparr>node_bf := B'\<rparr>) (plug c t)"
      "\<forall>x. x \<notin> set_tree (plug c t) \<longrightarrow> B' x = node_bf ?s x"
    using bf_climb [of ?s t p q c rt] assms(1,2,5) D bf cb by auto
  have "check_subtree s p q CHECK_FLAG_NO_BF = Some (Inr ())" by (rule check_subtree_ok [OF assms(1)]) (use h in simp_all)
  moreover have "check_subtree (?s\<lparr>node_bf := B'\<rparr>) p q 0 = Some (Inr ())"
    by (rule check_subtree_ok [where t = t]) (use assms(1) h bfs_plug [OF B'(2)] in simp_all)
  ultimately show ?thesis
    using B B' p bst_min_of_ok [OF assms(1)] bst_max_of_ok [OF assms(1)] x
    by (intro exI [of _ B']) (simp add: bst_recalculate_bf_def set_plug)
qed

subsection \<open>Relinking\<close>

text \<open>What stands at the position of a context becomes \<open>b\<close>.\<close>

definition relink :: "bst \<Rightarrow> ctx \<Rightarrow> nat \<Rightarrow> bst" where
  "relink s c b = (case c of [] \<Rightarrow> s\<lparr>tree_root := b\<rparr> | (d, a, u) # _ \<Rightarrow> set_child a d b s)"

lemma relink_fields [simp]:
  "node_parent (relink s c b) = node_parent s" "node_key (relink s c b) = node_key s" "node_data (relink s c b) = node_data s"
  "node_height (relink s c b) = node_height s" "node_bf (relink s c b) = node_bf s"
  "x \<notin> ctx_nodes c \<Longrightarrow> node_children (relink s c b) x = node_children s x"
  by (auto simp: relink_def set_child_def split: list.splits prod.splits)

lemma set_link_fields [simp]:
  "node_parent (set_child a d b s) = node_parent s" "node_key (set_child a d b s) = node_key s" "node_data (set_child a d b s) = node_data s"
  "node_height (set_child a d b s) = node_height s" "node_bf (set_child a d b s) = node_bf s" "tree_root (set_child a d b s) = tree_root s"
  "node_children (set_parent a b s) = node_children s" "node_key (set_parent a b s) = node_key s" "node_data (set_parent a b s) = node_data s"
  "node_height (set_parent a b s) = node_height s" "node_bf (set_parent a b s) = node_bf s" "tree_root (set_parent a b s) = tree_root s"
  "node_parent (set_parent a b s) = (node_parent s)(a := b)"
  "node_children (set_child a d b s) = (node_children s)(a := (node_children s a)(d := b))"
  by (simp_all add: set_child_def set_parent_def)

lemma in_ctx_relink:
  assumes "in_ctx s c a q (tree_root s)" and "distinct (before c @ after c)"
  shows "in_ctx (relink s c b) c b q (tree_root (relink s c b))"
proof (cases c)
  case (Cons y c')
  obtain d p u where y: "y = (d, p, u)" by (cases y)
  have p: "p \<notin> set_tree u" "p \<notin> ctx_nodes c'" using assms(2) by (cases d; auto simp: Cons y ctx_nodes_seq)+
  have "shape (set_child p d b s) u x z = shape s u x z" for x z by (rule shape_frame) (use p in auto)
  moreover have "in_ctx (set_child p d b s) c' x z w = in_ctx s c' x z w" for x z w by (rule in_ctx_frame) (use p in auto)
  ultimately show ?thesis using assms(1) by (simp add: Cons y relink_def)
qed (use assms in \<open>simp add: relink_def\<close>)

lemma replace_in_parent_ok:
  assumes "in_ctx s c a q rt" and "c \<noteq> []" and "a \<noteq> 0" and "a \<notin> ctx_nodes c" and "node_parent s a = q"
  shows "replace_in_parent s a b = Inr (relink s c b)"
proof -
  obtain d p u c' where c: "c = (d, p, u) # c'" using assms(2) by (cases c) auto
  have p: "q = p" "p \<noteq> 0" "node_children s p d = a" "shape s u (node_children s p (opposite d)) p" using assms(1) by (simp_all add: c)
  have "node_children s p (opposite d) \<noteq> a"
    using p(4) assms(3,4) by (cases u) (auto simp: c)
  then have "bst_dir_in_parent s a = Inr d" using p assms(5) by (cases d) (simp_all add: bst_dir_in_parent_def)
  then show ?thesis using p(1) assms(5) by (simp add: replace_in_parent_def relink_def c)
qed

text \<open>The root of a subtree gets a new parent.\<close>

definition reparent :: "bst \<Rightarrow> nat \<Rightarrow> nat \<Rightarrow> bst" where
  "reparent s p q = (if p \<noteq> 0 then set_parent p q s else s)"

lemma reparent_fields [simp]:
  "node_children (reparent s p q) = node_children s" "node_key (reparent s p q) = node_key s" "node_data (reparent s p q) = node_data s"
  "node_height (reparent s p q) = node_height s" "node_bf (reparent s p q) = node_bf s" "tree_root (reparent s p q) = tree_root s"
  "node_parent (reparent s p q) x = (if x = p \<and> p \<noteq> 0 then q else node_parent s x)"
  by (simp_all add: reparent_def)

lemma shape_reparent:
  assumes "shape s t p q" and "distinct (inorder t)"
  shows "shape (reparent s p q') t p q'"
proof (cases t)
  case (Node l a r)
  have "shape (set_parent a q' s) u x y = shape s u x y" if "a \<notin> set_tree u" for u x y
    by (rule shape_frame) (use that in auto)
  then show ?thesis using assms by (simp add: Node reparent_def)
qed (use assms in simp)

subsection \<open>Rotation\<close>

lemma rotate_links:
  assumes rep: "tree_rep s (plug c (mk (opposite d) (mk d m b w) a l))"
  defines "q \<equiv> node_parent s a"
  defines "s1 \<equiv> set_child a (opposite d) (node_children s b d) (set_parent a b (set_child b d a (set_parent b q (relink s c b))))"
  defines "s2 \<equiv> reparent s1 (node_children s b d) a"
  shows "shape s2 (mk (opposite d) m a l) a b \<and> in_ctx s2 ((d, b, w) # c) a b (tree_root s2) \<and> hts s2 m \<and> hts s2 l \<and>
    ctx_hts s2 ((d, b, w) # c) \<and> ctx_bfs s2 c \<and> frame s s2 (set_tree (plug c (mk (opposite d) (mk d m b w) a l)))"
proof -
  let ?A = "mk (opposite d) (mk d m b w) a l"
  have k: "by_key s (inorder (plug c ?A))" and h: "hts s (plug c ?A)" and f: "bfs s (plug c ?A)" using rep by (simp_all add: tree_rep_def)
  note D = by_key_distinct [OF k]
  note dp = distinct_plug [OF D] and dA = distinct_mk [OF distinct_plug(1) [OF D]]
  note dB = distinct_mk [OF dA(4)]
  obtain p q' where i: "in_ctx s c p q' (tree_root s)" "shape s ?A p q'" using rep shape_plug by (auto simp: tree_rep_def)
  have A: "p = a" "q' = q" "a \<noteq> 0" "node_children s a (opposite d) = b" "b \<noteq> 0" "node_parent s b = a"
      "shape s m (node_children s b d) b" "shape s w (node_children s b (opposite d)) b" "shape s l (node_children s a d) a"
    using i(2) by (simp_all add: q_def)
  have dis: "a \<noteq> b" "a \<notin> set_tree m" "a \<notin> set_tree w" "b \<notin> set_tree m" "b \<notin> set_tree w" "a \<notin> set_tree l" "b \<notin> set_tree l"
      "a \<notin> ctx_nodes c" "b \<notin> ctx_nodes c" "set_tree m \<inter> set_tree w = {}" "set_tree m \<inter> set_tree l = {}" "set_tree w \<inter> set_tree l = {}"
      "set_tree m \<inter> ctx_nodes c = {}" "set_tree w \<inter> ctx_nodes c = {}" "set_tree l \<inter> ctx_nodes c = {}"
    using dp(2) dA dB by auto
  define r where "r = node_children s b d"
  have r: "r = 0 \<or> r \<in> set_tree m" using A(7) by (cases m) (auto simp: r_def)
  have z: "0 \<notin> set_tree w" "0 \<notin> set_tree l" "0 \<notin> ctx_nodes c"
    using shape_zero [OF A(8)] shape_zero [OF A(9)] shape_zero [of s "plug c ?A" "tree_root s" 0] rep by (auto simp: tree_rep_def set_plug)
  have ro: "r \<noteq> a" "r \<noteq> b" "r \<notin> set_tree w" "r \<notin> set_tree l" "r \<notin> ctx_nodes c" using r dis A(3,5) z by auto
  have ch: "node_children s1 x = (if x = a then (node_children s a)(opposite d := r) else if x = b then (node_children s b)(d := a)
      else node_children (relink s c b) x)" for x
    using dis by (auto simp: s1_def r_def)
  have pa: "node_parent s1 x = (if x = a then b else if x = b then q else node_parent s x)" for x
    using dis by (auto simp: s1_def)
  have keep: "shape s2 u x y = shape s u x y"
    if "a \<notin> set_tree u" "b \<notin> set_tree u" "r \<notin> set_tree u" "set_tree u \<inter> ctx_nodes c = {}" for u x y
    by (rule shape_frame) (use that in \<open>auto simp: s2_def r_def ch pa disjoint_iff\<close>)
  have "shape s1 m r b = shape s m r b" by (rule shape_frame) (use dis in \<open>auto simp: ch pa disjoint_iff\<close>)
  then have "shape s1 m r b" using A(7) by (simp add: r_def)
  then have sm: "shape s2 m r a" using shape_reparent dB(4) unfolding s2_def r_def by blast
  have nodes: "node_children s2 a = (node_children s a)(opposite d := r)" "node_children s2 b = (node_children s b)(d := a)"
      "node_parent s2 a = b" "node_parent s2 b = q"
    using ro dis by (auto simp: s2_def r_def [symmetric] ch pa)
  have "shape s2 (mk (opposite d) m a l) a b"
    using sm A(3,9) keep [of l] dis ro nodes by simp
  moreover have "in_ctx s2 c b q (tree_root s2)"
  proof -
    have "in_ctx (relink s c b) c b q (tree_root (relink s c b))" using in_ctx_relink [OF i(1) dp(3)] A(1,2) by simp
    moreover have "in_ctx s2 c x y t = in_ctx (relink s c b) c x y t" for x y t
      by (rule in_ctx_frame) (use dis ro in \<open>auto simp: s2_def r_def [symmetric] ch pa\<close>)
    moreover have "tree_root s2 = tree_root (relink s c b)" by (simp add: s2_def s1_def)
    ultimately show ?thesis by simp
  qed
  moreover have "shape s2 w (node_children s2 b (opposite d)) b" using keep [of w] dis ro nodes A(8) by simp
  moreover have "hts s2 u = hts s u" "bfs s2 u = bfs s u" for u
    by (rule hts_frame bfs_frame, simp add: s2_def s1_def)+
  moreover have "ctx_hts s2 c = ctx_hts s c" "ctx_bfs s2 c = ctx_bfs s c"
    by (rule ctx_hts_frame ctx_bfs_frame, simp add: s2_def s1_def)+
  moreover have "frame s s2 (set_tree (plug c ?A))"
    using r by (auto simp: frame_def set_plug s2_def r_def [symmetric] ch pa) (auto simp: s1_def)
  ultimately show ?thesis using hts_plug [OF h] bfs_plug [OF f] A(5) nodes by simp
qed

lemma inorder_rotate [simp]: "inorder (mk d (mk (opposite d) m a l) b w) = inorder (mk (opposite d) (mk d m b w) a l)"
  by (cases d) simp_all

lemma inorder_plug_cong: "inorder t = inorder t' \<Longrightarrow> inorder (plug c t) = inorder (plug c t')"
  by (simp add: inorder_plug)

lemma rotate_ok:
  assumes rep: "tree_rep s (plug c (mk (opposite d) (mk d m b w) a l))"
  shows "\<exists>s'. bst_rotate s a d = Some (Inr s') \<and> tree_rep s' (plug c (mk d (mk (opposite d) m a l) b w)) \<and>
    frame s s' (set_tree (plug c (mk (opposite d) (mk d m b w) a l)))"
proof -
  let ?A = "mk (opposite d) (mk d m b w) a l" and ?B = "mk (opposite d) m a l"
  let ?T = "plug c (mk d ?B b w)"
  define q where "q = node_parent s a"
  define s1 where "s1 = set_child a (opposite d) (node_children s b d) (set_parent a b (set_child b d a (set_parent b q (relink s c b))))"
  define s2 where "s2 = reparent s1 (node_children s b d) a"
  note links = rotate_links [OF rep, folded q_def, folded s1_def, folded s2_def]
  have k: "by_key s (inorder (plug c ?A))" using rep by (simp add: tree_rep_def)
  have io: "inorder ?T = inorder (plug c ?A)" by (rule inorder_plug_cong) simp
  have sets: "set_tree ?T = set_tree (plug c ?A)" by (auto simp: set_plug)
  obtain p q' where i: "in_ctx s c p q' (tree_root s)" "shape s ?A p q'" using rep shape_plug by (auto simp: tree_rep_def)
  have A: "p = a" "q' = q" "a \<noteq> 0" "node_children s a (opposite d) = b" "b \<noteq> 0" using i(2) by (simp_all add: q_def)
  have ac: "a \<notin> ctx_nodes c" using distinct_plug(2) [OF by_key_distinct [OF k]] by auto
  have first: "(if q \<noteq> 0 then bind_res (replace_in_parent s a b) (\<lambda>s. Inr (set_parent b q s))
      else Inr ((set_parent b 0 s)\<lparr>tree_root := b\<rparr>)) = Inr (set_parent b q (relink s c b))"
  proof (cases "c = []")
    case True
    then have "q = 0" using i(1) A(2) by simp
    then show ?thesis by (simp add: True relink_def set_parent_def)
  next
    case False
    then have "q \<noteq> 0" using in_ctx_parent [OF i(1)] A(2) by simp
    then show ?thesis using replace_in_parent_ok [of s c a q "tree_root s" b] i(1) A ac False by (simp add: q_def [symmetric])
  qed
  have D: "distinct (inorder (plug ((d, b, w) # c) ?B))" using by_key_distinct [OF k] io by simp
  obtain H where H: "bst_recalculate_height s2 a = Some (Inr (s2\<lparr>node_height := H\<rparr>))" "hts (s2\<lparr>node_height := H\<rparr>) ?T"
      "frame s2 (s2\<lparr>node_height := H\<rparr>) (set_tree ?T)"
    using recalculate_height_ok [of s2 "opposite d" m a l b "(d, b, w) # c" "tree_root s2"] links D by auto
  let ?s3 = "s2\<lparr>node_height := H\<rparr>"
  have f3: "frame s ?s3 (set_tree ?T)" using links H(3) frame_trans sets by metis
  have sh: "shape ?s3 (mk d ?B b w) b (node_parent ?s3 b)" "in_ctx ?s3 c b (node_parent ?s3 b) (tree_root s2)"
    using links by (auto simp: A)
  have k3: "by_key ?s3 (inorder ?T)" using k by_key_of_frame [OF f3] by (simp add: io)
  obtain B where B: "bst_recalculate_bf ?s3 b = Some (Inr (?s3\<lparr>node_bf := B\<rparr>))" "bfs (?s3\<lparr>node_bf := B\<rparr>) ?T"
      "frame ?s3 (?s3\<lparr>node_bf := B\<rparr>) (set_tree ?T)"
    using recalculate_bf_ok [OF sh mk_not_Leaf k3 H(2)] links by auto
  let ?s4 = "?s3\<lparr>node_bf := B\<rparr>"
  have "shape ?s4 ?T (tree_root ?s4) 0" using sh shape_plug by auto
  then have rep4: "tree_rep ?s4 ?T" using k3 H(2) B(2) by (simp add: tree_rep_def)
  have "bst_rotate s a d = Some (Inr ?s4)"
    by (simp only: bst_rotate_def Let_def check_tree_ok [OF rep] check_tree_ok [OF rep4] bind_ro_simps A(3-5) if_False
        q_def [symmetric] first s1_def [symmetric] reparent_def [symmetric] s2_def [symmetric] H(1) B(1))
  then show ?thesis using rep4 frame_trans [OF f3 B(3)] sets by auto
qed

subsection \<open>Rebalancing\<close>

lemma tree_rep_child:
  assumes "tree_rep s (plug c (mk d t a u))"
  shows "a \<noteq> 0" "shape s t (node_children s a d) a" "bfs s (mk d t a u)" "node_children s a d = 0 \<longleftrightarrow> t = \<langle>\<rangle>"
proof -
  obtain p q where i: "shape s (mk d t a u) p q" using assms shape_plug by (auto simp: tree_rep_def)
  then show "a \<noteq> 0" "shape s t (node_children s a d) a" "node_children s a d = 0 \<longleftrightarrow> t = \<langle>\<rangle>" using shape_ptr by auto
  show "bfs s (mk d t a u)" using assms bfs_plug unfolding tree_rep_def by blast
qed

lemma mk_cases: "t \<noteq> \<langle>\<rangle> \<Longrightarrow> \<exists>t1 b t2. t = mk d t1 b t2"
  by (cases t; cases d) (auto simp: mk_def)

lemma rotate_away:
  assumes "tree_rep s (plug c (mk d (mk d t1 b t2) a u))"
  shows "\<exists>s'. bst_rotate s a (opposite d) = Some (Inr s') \<and> tree_rep s' (plug c (mk d t1 b (mk d t2 a u))) \<and>
    frame s s' (set_tree (plug c (mk d (mk d t1 b t2) a u)))"
  using rotate_ok [of s c "opposite d" t2 b t1 a u] assms by (simp add: mk_opposite [of d])

lemma heavy_side:
  assumes rep: "tree_rep s (plug c (mk d (mk d t1 b t2) a u))" and av: "avl (mk d t1 b t2)" "avl u"
    and h: "height (mk d t1 b t2) = height u + 2"
  shows "\<exists>s' t'. bind_ro (if height t1 < height t2 then bst_rotate s b d else Some (Inr s)) (\<lambda>s. bst_rotate s a (opposite d)) = Some (Inr s') \<and>
    tree_rep s' (plug c t') \<and> avl t' \<and> inorder t' = inorder (mk d (mk d t1 b t2) a u) \<and> t' \<noteq> \<langle>\<rangle> \<and>
    (height t' = height u + 2 \<or> height t' = height u + 3) \<and> frame s s' (set_tree (plug c (mk d (mk d t1 b t2) a u)))"
proof (cases "height t1 < height t2")
  case False
  obtain s' where s': "bst_rotate s a (opposite d) = Some (Inr s')" "tree_rep s' (plug c (mk d t1 b (mk d t2 a u)))"
      "frame s s' (set_tree (plug c (mk d (mk d t1 b t2) a u)))"
    using rotate_away [OF rep] by blast
  have "bind_ro (if height t1 < height t2 then bst_rotate s b d else Some (Inr s)) (\<lambda>s. bst_rotate s a (opposite d)) = Some (Inr s')"
    using False s'(1) by simp
  have "avl (mk d t1 b (mk d t2 a u))" using av h False by auto
  have "height (mk d t1 b (mk d t2 a u)) = height u + 2 \<or> height (mk d t1 b (mk d t2 a u)) = height u + 3"
    using av h False by auto
  have "inorder (mk d t1 b (mk d t2 a u)) = inorder (mk d (mk d t1 b t2) a u)" by (cases d) simp_all
  show ?thesis
    by (rule exI [of _ s'], rule exI [of _ "mk d t1 b (mk d t2 a u)"], intro conjI) (fact | rule mk_not_Leaf)+
next
  case True
  then obtain m e w where t2: "t2 = mk d m e w" using mk_cases [of t2 d] by (cases "t2 = \<langle>\<rangle>") auto
  let ?t = "mk d (mk d t1 b m) e w"
  have rep': "tree_rep s (plug ((d, a, u) # c) (mk (opposite d) t2 b t1))" using rep by (simp add: mk_opposite)
  obtain s1 where s1: "bst_rotate s b d = Some (Inr s1)" "tree_rep s1 (plug c (mk d ?t a u))"
      "frame s s1 (set_tree (plug c (mk d (mk d t1 b t2) a u)))"
    using rotate_ok [OF rep' [unfolded t2], unfolded mk_opposite [of d] plug.simps] unfolding t2 by blast
  obtain s' where s': "bst_rotate s1 a (opposite d) = Some (Inr s')" "tree_rep s' (plug c (mk d (mk d t1 b m) e (mk d w a u)))"
      "frame s1 s' (set_tree (plug c (mk d ?t a u)))"
    using rotate_away [OF s1(2)] by blast
  have "set_tree (plug c (mk d ?t a u)) = set_tree (plug c (mk d (mk d t1 b t2) a u))" by (auto simp: set_plug t2)
  then have "frame s s' (set_tree (plug c (mk d (mk d t1 b t2) a u)))" using frame_trans [OF s1(3)] s'(3) by simp
  have "avl (mk d (mk d t1 b m) e (mk d w a u))" using av h True by (auto simp: t2)
  have "height (mk d (mk d t1 b m) e (mk d w a u)) = height u + 2" using av h True by (auto simp: t2)
  have "inorder (mk d (mk d t1 b m) e (mk d w a u)) = inorder (mk d (mk d t1 b t2) a u)" by (cases d) (simp_all add: t2)
  have "bind_ro (if height t1 < height t2 then bst_rotate s b d else Some (Inr s)) (\<lambda>s. bst_rotate s a (opposite d)) = Some (Inr s')"
    using True s1(1) s'(1) by simp
  show ?thesis
    by (rule exI [of _ s'], rule exI [of _ "mk d (mk d t1 b m) e (mk d w a u)"], intro conjI) (fact | rule mk_not_Leaf | rule disjI1)+
qed

lemma rebalence_node_ok:
  assumes rep: "tree_rep s (plug c \<langle>l, a, r\<rangle>)" and av: "avl l" "avl r" and h: "\<bar>int (height l) - int (height r)\<bar> \<le> 2"
  shows "\<exists>s' t'. rebalence_node s a = Some (Inr s') \<and> tree_rep s' (plug c t') \<and> avl t' \<and> inorder t' = inorder \<langle>l, a, r\<rangle> \<and> t' \<noteq> \<langle>\<rangle> \<and>
    (height t' = max (height l) (height r) + 1 \<or> \<bar>int (height l) - int (height r)\<bar> = 2 \<and> height t' = max (height l) (height r)) \<and>
    frame s s' (set_tree (plug c \<langle>l, a, r\<rangle>))"
proof -
  note L = tree_rep_child [of s c BST_DIR_LEFT l a r, simplified, OF rep]
  note R = tree_rep_child [of s c BST_DIR_RIGHT r a l, simplified, OF rep]
  have bf: "node_bf s a = int (height l) - int (height r)" using L(3) by simp
  consider (left) "height l = height r + 2" | (right) "height r = height l + 2" | (none) "\<bar>int (height l) - int (height r)\<bar> \<le> 1"
    using h by linarith
  then show ?thesis
  proof cases
    case left
    then obtain t1 b t2 where l: "l = \<langle>t1, b, t2\<rangle>" by (cases l) auto
    have c: "node_children s a BST_DIR_LEFT = b" "b \<noteq> 0" "node_bf s b = int (height t1) - int (height t2)" using L by (simp_all add: l)
    have "rebalence_node s a = bind_ro (if height t1 < height t2 then bst_rotate s b BST_DIR_LEFT else Some (Inr s)) (\<lambda>s. bst_rotate s a BST_DIR_RIGHT)"
      using bf left c by (simp add: rebalence_node_def)
    moreover have "height t' = max (height l) (height r) + 1 \<or> height t' = max (height l) (height r)"
      if "height t' = height r + 2 \<or> height t' = height r + 3" for t' :: "nat tree" using that left by auto
    ultimately show ?thesis using heavy_side [of s c BST_DIR_LEFT t1 b t2 a r] rep av left unfolding l by fastforce
  next
    case right
    then obtain t1 b t2 where r: "r = \<langle>t2, b, t1\<rangle>" by (cases r) auto
    have c: "node_children s a BST_DIR_RIGHT = b" "b \<noteq> 0" "node_bf s b = int (height t2) - int (height t1)" using R by (simp_all add: r)
    have "rebalence_node s a = bind_ro (if height t1 < height t2 then bst_rotate s b BST_DIR_RIGHT else Some (Inr s)) (\<lambda>s. bst_rotate s a BST_DIR_LEFT)"
      using bf right c by (simp add: rebalence_node_def)
    moreover have "height t' = max (height l) (height r) + 1 \<or> height t' = max (height l) (height r)"
      if "height t' = height l + 2 \<or> height t' = height l + 3" for t' :: "nat tree" using that right by auto
    ultimately show ?thesis using heavy_side [of s c BST_DIR_RIGHT t1 b t2 a l] rep av right unfolding r by fastforce
  next
    case none
    then have "\<not> 1 < node_bf s a" "\<not> node_bf s a < - 1" using bf by linarith+
    then have "rebalence_node s a = Some (Inr s)" by (simp add: rebalence_node_def)
    then show ?thesis using rep av none by (intro exI [of _ s] exI [of _ "\<langle>l, a, r\<rangle>"]) simp
  qed
qed

text \<open>A context whose tree is AVL when its position holds an AVL tree of height \<open>h\<close>.\<close>

fun ctx_avl :: "ctx \<Rightarrow> nat \<Rightarrow> bool" where
  "ctx_avl [] h \<longleftrightarrow> True"
| "ctx_avl ((d, a, u) # c) h \<longleftrightarrow> avl u \<and> \<bar>int h - int (height u)\<bar> \<le> 1 \<and> ctx_avl c (max h (height u) + 1)"

lemma avl_plug: "avl (plug c t) \<longleftrightarrow> avl t \<and> ctx_avl c (height t)"
  by (induction c t rule: plug.induct) auto

lemma rebalence_loop_ok:
  assumes "tree_rep s (plug c \<langle>l, a, r\<rangle>)" and "avl l" and "avl r" and "\<bar>int (height l) - int (height r)\<bar> \<le> 2" and "ctx_avl c h"
    and "\<bar>int (height l) - int (height r)\<bar> \<le> 1 \<Longrightarrow> \<bar>int (max (height l) (height r)) + 1 - int h\<bar> \<le> 1"
    and "\<bar>int (height l) - int (height r)\<bar> = 2 \<Longrightarrow> h = max (height l) (height r) \<or> h = max (height l) (height r) + 1"
  shows "\<exists>s' t'. rebalence_loop s a = Some (Inr s') \<and> tree_rep s' t' \<and> avl t' \<and> inorder t' = inorder (plug c \<langle>l, a, r\<rangle>) \<and>
    frame s s' (set_tree (plug c \<langle>l, a, r\<rangle>))"
  using assms
proof (induction c arbitrary: s l a r h)
  case Nil
  obtain s' t' where st: "rebalence_node s a = Some (Inr s')" "tree_rep s' t'" "avl t'" "inorder t' = inorder \<langle>l, a, r\<rangle>"
      "frame s s' (set_tree \<langle>l, a, r\<rangle>)"
    using rebalence_node_ok [OF Nil(1-4)] by auto
  have p: "a \<noteq> 0" "node_parent s a = 0" using Nil(1) by (simp_all add: tree_rep_def)
  have "rebalence_loop s' 0 = Some (Inr s')" by (subst rebalence_loop.simps) simp
  then have "rebalence_loop s a = Some (Inr s')" using p st(1) by (subst rebalence_loop.simps) (simp add: Let_def)
  then show ?case using st by auto
next
  case (Cons y c)
  obtain d b u where y: "y = (d, b, u)" by (cases y)
  obtain s' t' where st: "rebalence_node s a = Some (Inr s')" "tree_rep s' (plug (y # c) t')" "avl t'" "inorder t' = inorder \<langle>l, a, r\<rangle>"
      "frame s s' (set_tree (plug (y # c) \<langle>l, a, r\<rangle>))"
      "height t' = max (height l) (height r) + 1 \<or> \<bar>int (height l) - int (height r)\<bar> = 2 \<and> height t' = max (height l) (height r)"
    using rebalence_node_ok [OF Cons.prems(1-4)] by blast
  have H: "\<bar>int (height t') - int h\<bar> \<le> 1" using st(6) Cons.prems(4,6,7) by linarith
  have p: "a \<noteq> 0" "node_parent s a = b" "a \<noteq> b"
  proof -
    obtain p q where "in_ctx s (y # c) p q (tree_root s)" "shape s \<langle>l, a, r\<rangle> p q" using Cons.prems(1) shape_plug by (auto simp: tree_rep_def)
    then show "a \<noteq> 0" "node_parent s a = b" by (auto simp: y)
    have "by_key s (inorder (plug (y # c) \<langle>l, a, r\<rangle>))" using Cons.prems(1) by (simp add: tree_rep_def)
    from distinct_plug(2) [OF by_key_distinct [OF this]] show "a \<noteq> b" by (auto simp: y)
  qed
  have cu: "avl u" "\<bar>int h - int (height u)\<bar> \<le> 1" "ctx_avl c (max h (height u) + 1)" using Cons.prems(5) by (simp_all add: y)
  obtain l' r' where lr: "mk d t' b u = \<langle>l', b, r'\<rangle>" "height l' = height t' \<and> height r' = height u \<or> height l' = height u \<and> height r' = height t'" "avl l'" "avl r'"
    using st(3) cu(1) by (cases d) auto
  have "\<exists>s2 t2. rebalence_loop s' b = Some (Inr s2) \<and> tree_rep s2 t2 \<and> avl t2 \<and> inorder t2 = inorder (plug c \<langle>l', b, r'\<rangle>) \<and>
      frame s' s2 (set_tree (plug c \<langle>l', b, r'\<rangle>))"
  proof (rule Cons.IH)
    show "tree_rep s' (plug c \<langle>l', b, r'\<rangle>)" using st(2) by (simp add: y lr(1))
    show "\<bar>int (height l') - int (height r')\<bar> \<le> 2" using lr(2) H cu(2) by linarith
    show "\<bar>int (max (height l') (height r')) + 1 - int (max h (height u) + 1)\<bar> \<le> 1" using lr(2) H by auto
    show "max h (height u) + 1 = max (height l') (height r') \<or> max h (height u) + 1 = max (height l') (height r') + 1"
      if "\<bar>int (height l') - int (height r')\<bar> = 2" using that lr(2) H cu(2) by linarith
  qed (use lr cu in auto)
  then obtain s2 t2 where s2: "rebalence_loop s' b = Some (Inr s2)" "tree_rep s2 t2" "avl t2" "inorder t2 = inorder (plug c \<langle>l', b, r'\<rangle>)"
      "frame s' s2 (set_tree (plug c \<langle>l', b, r'\<rangle>))"
    by blast
  have io: "inorder (plug c \<langle>l', b, r'\<rangle>) = inorder (plug (y # c) \<langle>l, a, r\<rangle>)"
    using inorder_plug_cong [OF st(4), of "y # c"] by (simp add: y lr(1))
  have "set_tree (plug c \<langle>l', b, r'\<rangle>) = set_tree (plug (y # c) \<langle>l, a, r\<rangle>)" using arg_cong [OF io, of set] by simp
  then have "frame s s2 (set_tree (plug (y # c) \<langle>l, a, r\<rangle>))" using frame_trans st(5) s2(5) by metis
  moreover have "rebalence_loop s a = Some (Inr s2)" using p st(1) s2(1) by (subst rebalence_loop.simps) (simp add: Let_def)
  ultimately show ?case using s2 io by auto
qed

lemma check_and_rebalence_ok:
  assumes "tree_rep s (plug c \<langle>l, a, r\<rangle>)" and "avl l" and "avl r" and "\<bar>int (height l) - int (height r)\<bar> \<le> 2" and "ctx_avl c h"
    and "\<bar>int (height l) - int (height r)\<bar> \<le> 1 \<Longrightarrow> \<bar>int (max (height l) (height r)) + 1 - int h\<bar> \<le> 1"
    and "\<bar>int (height l) - int (height r)\<bar> = 2 \<Longrightarrow> h = max (height l) (height r) \<or> h = max (height l) (height r) + 1"
  shows "\<exists>s' t'. bst_check_and_rebalence s a = Some (Inr s') \<and> tree_rep s' t' \<and> avl t' \<and> inorder t' = inorder (plug c \<langle>l, a, r\<rangle>) \<and>
    frame s s' (set_tree (plug c \<langle>l, a, r\<rangle>))"
  using rebalence_loop_ok [OF assms] check_tree_ok [OF assms(1), of 0]
  by (auto simp: bst_check_and_rebalence_def check_tree_ok)

end
