(* ===== verification/Bst_Ops.thy ===== *)
theory Bst_Ops
  imports Bst_Balance
begin

text \<open>
  Insertion and removal on balanced search trees, the interface of a search tree as a finite map, and the properties.
\<close>

subsection \<open>Insertion\<close>

lemma before_after_append: "before (c @ c') = before c' @ before c" "after (c @ c') = after c @ after c'"
  by (induction c rule: before.induct) simp_all

lemma insert_loop_ok:
  assumes "shape s t p q" and "by_key s (inorder t)" and "t \<noteq> \<langle>\<rangle>" and "k \<notin> node_key s ` set_tree t"
  shows "\<exists>c d b u. insert_loop s k p ip ci = Some (Inr (b, d)) \<and> t = plug ((d, b, u) # c) \<langle>\<rangle> \<and>
    (\<forall>x\<in>set (before ((d, b, u) # c)). node_key s x < k) \<and> (\<forall>x\<in>set (after ((d, b, u) # c)). k < node_key s x)"
  using assms
proof (induction t arbitrary: p q ip ci)
  case (Node l a r)
  have p: "p = a" "a \<noteq> 0" "shape s l (node_children s a BST_DIR_LEFT) a" "shape s r (node_children s a BST_DIR_RIGHT) a"
    using Node.prems(1) by simp_all
  have k: "by_key s (inorder l)" "by_key s (inorder r)" using Node.prems(2) by (simp_all add: by_key_def sorted_wrt_append)
  have around: "\<forall>b\<in>set_tree l. node_key s b < node_key s a" "\<forall>b\<in>set_tree r. node_key s a < node_key s b"
    using by_key_around [of s "inorder l" a "inorder r"] Node.prems(2) by simp_all
  have kl: "k \<notin> node_key s ` set_tree l" "k \<notin> node_key s ` set_tree r" using Node.prems(4) by auto
  have stop: "insert_loop s k 0 a d = Some (Inr (a, d))" for d by (subst insert_loop.simps) simp
  consider "k < node_key s a" | "node_key s a < k" using Node.prems(4) by force
  then show ?case
  proof cases
    case 1
    have step: "insert_loop s k p ip ci = insert_loop s k (node_children s a BST_DIR_LEFT) a BST_DIR_LEFT"
      using 1 p by (subst insert_loop.simps) simp
    show ?thesis
    proof (cases "l = \<langle>\<rangle>")
      case True
      then have "insert_loop s k p ip ci = Some (Inr (a, BST_DIR_LEFT))" using step stop p(3) by simp
      then show ?thesis using 1 around True
        by (intro exI [of _ "[]"] exI [of _ BST_DIR_LEFT] exI [of _ a] exI [of _ r]) force
    next
      case False
      obtain c d b u where c: "insert_loop s k (node_children s a BST_DIR_LEFT) a BST_DIR_LEFT = Some (Inr (b, d))"
          "l = plug ((d, b, u) # c) \<langle>\<rangle>" "\<forall>x\<in>set (before ((d, b, u) # c)). node_key s x < k" "\<forall>x\<in>set (after ((d, b, u) # c)). k < node_key s x"
        using Node.IH(1) [OF p(3) k(1) False kl(1)] by blast
      have "\<langle>l, a, r\<rangle> = plug ((d, b, u) # (c @ [(BST_DIR_LEFT, a, r)])) \<langle>\<rangle>" using c(2) plug_append [of "(d, b, u) # c"] by simp
      moreover have "before ((d, b, u) # (c @ [(BST_DIR_LEFT, a, r)])) = before ((d, b, u) # c)"
          "after ((d, b, u) # (c @ [(BST_DIR_LEFT, a, r)])) = after ((d, b, u) # c) @ a # inorder r"
        by (simp_all add: before_after_append)
      moreover have "\<forall>x\<in>set (after ((d, b, u) # c) @ a # inorder r). k < node_key s x" using c(4) 1 around by fastforce
      ultimately show ?thesis using c(1,3) step by metis
    qed
  next
    case 2
    have step: "insert_loop s k p ip ci = insert_loop s k (node_children s a BST_DIR_RIGHT) a BST_DIR_RIGHT"
      using 2 p by (subst insert_loop.simps) simp
    show ?thesis
    proof (cases "r = \<langle>\<rangle>")
      case True
      then have "insert_loop s k p ip ci = Some (Inr (a, BST_DIR_RIGHT))" using step stop p(4) by simp
      then show ?thesis using 2 around True
        by (intro exI [of _ "[]"] exI [of _ BST_DIR_RIGHT] exI [of _ a] exI [of _ l]) force
    next
      case False
      obtain c d b u where c: "insert_loop s k (node_children s a BST_DIR_RIGHT) a BST_DIR_RIGHT = Some (Inr (b, d))"
          "r = plug ((d, b, u) # c) \<langle>\<rangle>" "\<forall>x\<in>set (before ((d, b, u) # c)). node_key s x < k" "\<forall>x\<in>set (after ((d, b, u) # c)). k < node_key s x"
        using Node.IH(2) [OF p(4) k(2) False kl(2)] by blast
      have "\<langle>l, a, r\<rangle> = plug ((d, b, u) # (c @ [(BST_DIR_RIGHT, a, l)])) \<langle>\<rangle>" using c(2) plug_append [of "(d, b, u) # c"] by simp
      moreover have "after ((d, b, u) # (c @ [(BST_DIR_RIGHT, a, l)])) = after ((d, b, u) # c)"
          "before ((d, b, u) # (c @ [(BST_DIR_RIGHT, a, l)])) = inorder l @ a # before ((d, b, u) # c)"
        by (simp_all add: before_after_append)
      moreover have "\<forall>x\<in>set (inorder l @ a # before ((d, b, u) # c)). node_key s x < k" using c(3) 2 around by fastforce
      ultimately show ?thesis using c(1,4) step by metis
    qed
  qed
qed simp

lemma insert_loop_duplicate:
  assumes "shape s t p q" and "by_key s (inorder t)" and "k \<in> node_key s ` set_tree t"
  shows "insert_loop s k p ip ci = Some (Inl Panic)"
  using assms
proof (induction t arbitrary: p q ip ci)
  case (Node l a r)
  have p: "p = a" "a \<noteq> 0" "shape s l (node_children s a BST_DIR_LEFT) a" "shape s r (node_children s a BST_DIR_RIGHT) a"
    using Node.prems(1) by simp_all
  have k: "by_key s (inorder l)" "by_key s (inorder r)" using Node.prems(2) by (simp_all add: by_key_def sorted_wrt_append)
  have around: "\<forall>b\<in>set_tree l. node_key s b < node_key s a" "\<forall>b\<in>set_tree r. node_key s a < node_key s b"
    using by_key_around [of s "inorder l" a "inorder r"] Node.prems(2) by simp_all
  consider "k < node_key s a" | "node_key s a < k" | "k = node_key s a" by linarith
  then show ?case
  proof cases
    case 1
    then have "k \<in> node_key s ` set_tree l" using Node.prems(3) around by force
    then show ?thesis using Node.IH(1) [OF p(3) k(1)] 1 p by (subst insert_loop.simps) simp
  next
    case 2
    then have "k \<in> node_key s ` set_tree r" using Node.prems(3) around by force
    then show ?thesis using Node.IH(2) [OF p(4) k(2)] 2 p by (subst insert_loop.simps) simp
  next
    case 3
    then show ?thesis using p by (subst insert_loop.simps) simp
  qed
qed simp

lemma init_node_fields [simp]:
  "node_parent (init_node n k d s) = node_parent s" "node_height (init_node n k d s) = node_height s" "tree_root (init_node n k d s) = tree_root s"
  "node_key (init_node n k d s) = (node_key s)(n := k)" "node_data (init_node n k d s) = (node_data s)(n := d)"
  "node_bf (init_node n k d s) = (node_bf s)(n := 0)"
  "x \<noteq> n \<Longrightarrow> node_children (init_node n k d s) x = node_children s x" "node_children (init_node n k d s) n dir = 0"
  by (simp_all add: init_node_def Let_def set_bf_def) (cases dir; simp)

lemma init_node_rep:
  assumes "tree_rep s t" and "n \<notin> set_tree t"
  shows "tree_rep (init_node n k d s) t"
proof -
  have ne: "a \<noteq> n" if "a \<in> set_tree t" for a using that assms(2) by blast
  have "shape (init_node n k d s) t (tree_root s) 0 = shape s t (tree_root s) 0" by (rule shape_frame) (simp add: ne)
  moreover have "hts (init_node n k d s) t = hts s t" by (rule hts_frame) simp
  moreover have "bfs (init_node n k d s) t = bfs s t" by (rule bfs_frame) (simp add: ne)
  moreover have "by_key (init_node n k d s) (inorder t) = by_key s (inorder t)" by (rule by_key_frame) (simp add: ne)
  ultimately show ?thesis using assms(1) by (simp add: tree_rep_def)
qed

lemma insert_between:
  fixes f :: "'a \<Rightarrow> int"
  assumes "\<forall>x\<in>set xs. f x < f n" and "\<forall>x\<in>set ys. f n < f x"
  shows "insort_key f n (xs @ ys) = xs @ n # ys"
proof (use assms in \<open>induction xs\<close>)
  case Nil
  then show ?case by (cases ys) auto
qed auto

lemma frame_mono: "frame s s' X \<Longrightarrow> X \<subseteq> Y \<Longrightarrow> frame s s' Y"
  by (auto simp: frame_def)

text \<open>Heights and balance factors after a change at the position of a context: the caller recomputes both from the parent.\<close>

lemma recompute_ok:
  assumes "in_ctx s ((d, b, u) # c) p b (tree_root s)" and "shape s t p b" and "by_key s (inorder (plug ((d, b, u) # c) t))"
    and "hts s t" and "ctx_hts s ((d, b, u) # c)" and "bfs s t" and "ctx_bfs s ((d, b, u) # c)"
  shows "\<exists>s1 s2. bst_recalculate_height s b = Some (Inr s1) \<and> bst_recalculate_bf s1 b = Some (Inr s2) \<and>
    node_parent s1 = node_parent s \<and>
    tree_rep s2 (plug ((d, b, u) # c) t) \<and> frame s s2 (set_tree (plug ((d, b, u) # c) t))"
proof -
  let ?t = "mk d t b u"
  let ?T = "plug c ?t"
  have sh: "shape s ?t b (node_parent s b)" "in_ctx s c b (node_parent s b) (tree_root s)" using assms(1,2) by simp_all
  have D: "distinct (inorder ?T)" using by_key_distinct [OF assms(3)] by simp
  obtain H where H: "bst_recalculate_height s b = Some (Inr (s\<lparr>node_height := H\<rparr>))" "hts (s\<lparr>node_height := H\<rparr>) ?T"
      "frame s (s\<lparr>node_height := H\<rparr>) (set_tree ?T)"
    using recalculate_height_ok [OF sh D] assms(4,5) by auto
  let ?s = "s\<lparr>node_height := H\<rparr>"
  have sh': "shape ?s ?t b (node_parent s b)" "in_ctx ?s c b (node_parent s b) (tree_root s)" "by_key ?s (inorder ?T)" using sh assms(3) by simp_all
  have "ctx_bfs ?s c" using assms(7) by simp
  then obtain B where B: "bst_recalculate_bf ?s b = Some (Inr (?s\<lparr>node_bf := B\<rparr>))" "bfs (?s\<lparr>node_bf := B\<rparr>) ?T"
      "frame ?s (?s\<lparr>node_bf := B\<rparr>) (set_tree ?T)"
    using recalculate_bf_ok [OF sh'(1,2) mk_not_Leaf sh'(3) H(2)] by blast
  have "shape (?s\<lparr>node_bf := B\<rparr>) ?T (tree_root s) 0" using sh shape_plug by auto
  then have "tree_rep (?s\<lparr>node_bf := B\<rparr>) ?T" using sh'(3) H(2) B(2) by (simp add: tree_rep_def)
  then show ?thesis using H B frame_trans [OF H(3) B(3)] by (intro exI [of _ ?s] exI [of _ "?s\<lparr>node_bf := B\<rparr>"]) simp
qed

lemma insert_unbalenced_ok:
  assumes rep: "tree_rep s t" and n: "n \<noteq> 0" "n \<notin> set_tree t" "node_height s n = 0" and k: "k \<notin> node_key s ` set_tree t" and ne: "t \<noteq> \<langle>\<rangle>"
  shows "\<exists>s' d b u c. bst_insert_node_unbalenced s n k dd = Some (Inr s') \<and> t = plug ((d, b, u) # c) \<langle>\<rangle> \<and>
    tree_rep s' (plug ((d, b, u) # c) \<langle>\<langle>\<rangle>, n, \<langle>\<rangle>\<rangle>) \<and> node_parent s' n = b \<and> b \<noteq> 0 \<and>
    inorder (plug ((d, b, u) # c) \<langle>\<langle>\<rangle>, n, \<langle>\<rangle>\<rangle>) = insort_key (node_key s') n (inorder t) \<and>
    frame (init_node n k dd s) s' (insert n (set_tree t))"
proof -
  let ?s = "init_node n k dd s"
  have r0: "tree_rep ?s t" by (rule init_node_rep [OF rep n(2)])
  have sh: "shape ?s t (tree_root s) 0" and bk: "by_key ?s (inorder t)" using r0 by (simp_all add: tree_rep_def)
  have rt: "tree_root s \<noteq> 0" using shape_ptr [OF sh] ne by simp
  have k': "k \<notin> node_key ?s ` set_tree t" using k n(2) by auto
  obtain c d b u where c: "insert_loop ?s k (tree_root s) 0 BST_DIR_LEFT = Some (Inr (b, d))" "t = plug ((d, b, u) # c) \<langle>\<rangle>"
      "\<forall>x\<in>set (before ((d, b, u) # c)). node_key ?s x < k" "\<forall>x\<in>set (after ((d, b, u) # c)). k < node_key ?s x"
    using insert_loop_ok [OF sh bk ne k'] by blast
  let ?c = "(d, b, u) # c" and ?N = "\<langle>\<langle>\<rangle>, n, \<langle>\<rangle>\<rangle>"
  define s1 where "s1 = set_parent n b (set_child b d n ?s)"
  have nc: "n \<notin> ctx_nodes ?c" using n(2) unfolding c(2) set_plug by simp
  obtain p q where i: "in_ctx ?s ?c p q (tree_root s)" using sh unfolding c(2) shape_plug by blast
  have q: "q = b" "b \<noteq> 0" using i by simp_all
  have "in_ctx (relink ?s ?c n) ?c n b (tree_root (relink ?s ?c n))"
    using in_ctx_relink [of ?s ?c p q n] i q(1) distinct_plug(3) [OF by_key_distinct [OF bk [unfolded c(2)]]] by simp
  moreover have "in_ctx s1 ?c x y z = in_ctx (relink ?s ?c n) ?c x y z" for x y z
    by (rule in_ctx_frame) (use nc in \<open>auto simp: s1_def relink_def\<close>)
  moreover have "tree_root s1 = tree_root (relink ?s ?c n)" by (simp add: s1_def relink_def)
  ultimately have i1: "in_ctx s1 ?c n b (tree_root s1)" by (simp only:)
  have sn: "shape s1 ?N n b" using n(1) nc by (auto simp: s1_def)
  have io: "inorder (plug ?c ?N) = insort_key (node_key ?s) n (inorder t)"
    using insert_between [of "before ?c" "node_key ?s" n "after ?c"] c(3,4) unfolding c(2) inorder_plug by simp
  have "by_key ?s (before ?c @ n # after ?c)"
    using bk c(3,4) unfolding c(2) inorder_plug by (simp add: by_key_def sorted_wrt_append)
  moreover have "inorder (plug ?c ?N) = before ?c @ n # after ?c" unfolding inorder_plug [of ?c] by simp
  moreover have "by_key s1 xs = by_key ?s xs" for xs by (rule by_key_frame) (simp add: s1_def)
  ultimately have k1: "by_key s1 (inorder (plug ?c ?N))" by (simp only:)
  have h0: "hts ?s t" "bfs ?s t" using r0 by (simp_all add: tree_rep_def)
  have "ctx_hts s1 ?c = ctx_hts ?s ?c" by (rule ctx_hts_frame) (simp add: s1_def)
  then have ch: "ctx_hts s1 ?c" using hts_plug h0(1) unfolding c(2) by blast
  have "ctx_bfs s1 ?c = ctx_bfs ?s ?c" by (rule ctx_bfs_frame) (simp add: s1_def)
  then have cb: "ctx_bfs s1 ?c" using bfs_plug h0(2) unfolding c(2) by blast
  have hn: "hts s1 ?N" "bfs s1 ?N" using n(3) by (simp_all add: s1_def)
  obtain s2 s3 where s3: "bst_recalculate_height s1 b = Some (Inr s2)" "bst_recalculate_bf s2 b = Some (Inr s3)"
      "node_parent s2 = node_parent s1" "tree_rep s3 (plug ?c ?N)" "frame s1 s3 (set_tree (plug ?c ?N))"
    using recompute_ok [OF i1 sn k1 hn(1) ch hn(2) cb] by blast
  have p1: "node_parent s1 n = b" and p2: "node_parent s2 n = b" using s3(3) by (simp_all add: s1_def)
  have p3: "node_parent s3 n = b" using s3(4) shape_plug by (auto simp: tree_rep_def)
  have "bst_insert_node_unbalenced s n k dd = Some (Inr s3)"
    using check_tree_ok [OF rep, of 0] check_tree_ok [OF s3(4), of 0] n(1) rt c(1) s3(1,2) p1 p2
    by (simp add: bst_insert_node_unbalenced_def Let_def s1_def [symmetric])
  moreover have "frame ?s s3 (insert n (set_tree t))"
  proof -
    have "set_tree (plug ?c ?N) = insert n (set_tree t)" unfolding c(2) set_plug by auto
    moreover have "frame ?s s1 (insert n (set_tree t))" unfolding c(2) by (auto simp: frame_def s1_def set_plug)
    ultimately show ?thesis using s3(5) frame_trans by metis
  qed
  moreover have "node_key s3 = node_key ?s" using s3(5) by (simp add: frame_def s1_def)
  ultimately show ?thesis using c(2) s3(4) p3 q(2) io by metis
qed

lemma insert_empty:
  assumes "tree_rep s \<langle>\<rangle>" and "n \<noteq> 0" and "node_height s n = 0"
  shows "\<exists>s'. bst_insert_node s n k dd = Some (Inr s') \<and> tree_rep s' \<langle>\<langle>\<rangle>, n, \<langle>\<rangle>\<rangle> \<and> frame (init_node n k dd s) s' {n}"
proof -
  define s1 where "s1 = set_parent n 0 ((init_node n k dd s)\<lparr>tree_root := n\<rparr>)"
  have r1: "tree_rep s1 \<langle>\<langle>\<rangle>, n, \<langle>\<rangle>\<rangle>" using assms(2,3) by (simp add: tree_rep_def s1_def by_key_def)
  have "tree_root s = 0" using assms(1) by (simp add: tree_rep_def)
  then have "bst_insert_node_unbalenced s n k dd = Some (Inr s1)"
    using check_tree_ok [OF assms(1), of 0] check_tree_ok [OF r1, of 0] assms(2)
    by (simp add: bst_insert_node_unbalenced_def Let_def s1_def [symmetric])
  moreover have "node_parent s1 n = 0" by (simp add: s1_def)
  ultimately have "bst_insert_node s n k dd = Some (Inr s1)"
    using check_tree_ok [OF assms(1), of 0] check_tree_ok [OF r1, of 0] by (simp add: bst_insert_node_def)
  moreover have "frame (init_node n k dd s) s1 {n}" by (auto simp: frame_def s1_def)
  ultimately show ?thesis using r1 by blast
qed

lemma insert_ok:
  assumes rep: "tree_rep s t" and av: "avl t" and n: "n \<noteq> 0" "n \<notin> set_tree t" "node_height s n = 0" and k: "k \<notin> node_key s ` set_tree t"
  shows "\<exists>s' t'. bst_insert_node s n k dd = Some (Inr s') \<and> tree_rep s' t' \<and> avl t' \<and>
    inorder t' = insort_key (node_key s') n (inorder t) \<and> frame (init_node n k dd s) s' (insert n (set_tree t))"
proof (cases "t = \<langle>\<rangle>")
  case True
  then obtain s' where "bst_insert_node s n k dd = Some (Inr s')" "tree_rep s' \<langle>\<langle>\<rangle>, n, \<langle>\<rangle>\<rangle>" "frame (init_node n k dd s) s' {n}"
    using insert_empty rep n by blast
  then show ?thesis using True by (intro exI [of _ s'] exI [of _ "\<langle>\<langle>\<rangle>, n, \<langle>\<rangle>\<rangle>"]) simp
next
  case False
  obtain s1 d b u c where s1: "bst_insert_node_unbalenced s n k dd = Some (Inr s1)" "t = plug ((d, b, u) # c) \<langle>\<rangle>"
      "tree_rep s1 (plug ((d, b, u) # c) \<langle>\<langle>\<rangle>, n, \<langle>\<rangle>\<rangle>)" "node_parent s1 n = b" "b \<noteq> 0"
      "inorder (plug ((d, b, u) # c) \<langle>\<langle>\<rangle>, n, \<langle>\<rangle>\<rangle>) = insort_key (node_key s1) n (inorder t)"
      "frame (init_node n k dd s) s1 (insert n (set_tree t))"
    using insert_unbalenced_ok [OF rep n k False, of dd] by blast
  let ?N = "\<langle>\<langle>\<rangle>, n, \<langle>\<rangle>\<rangle>"
  have cu: "avl u" "height u \<le> 1" "ctx_avl c (height u + 1)" using av unfolding s1(2) avl_plug by simp_all
  obtain l r where lr: "mk d ?N b u = \<langle>l, b, r\<rangle>" "avl l" "avl r" "height l = 1 \<and> height r = height u \<or> height l = height u \<and> height r = 1"
    using cu(1) by (cases d) auto
  have rep1: "tree_rep s1 (plug c \<langle>l, b, r\<rangle>)" using s1(3) by (simp add: lr(1))
  have "\<exists>s' t'. bst_check_and_rebalence s1 b = Some (Inr s') \<and> tree_rep s' t' \<and> avl t' \<and> inorder t' = inorder (plug c \<langle>l, b, r\<rangle>) \<and>
    frame s1 s' (set_tree (plug c \<langle>l, b, r\<rangle>))"
    by (rule check_and_rebalence_ok [OF rep1 lr(2,3) _ cu(3)]) (use lr(4) cu(2) in auto)
  then obtain s2 t2 where s2: "bst_check_and_rebalence s1 b = Some (Inr s2)" "tree_rep s2 t2" "avl t2"
      "inorder t2 = inorder (plug c \<langle>l, b, r\<rangle>)" "frame s1 s2 (set_tree (plug c \<langle>l, b, r\<rangle>))"
    by blast
  have T: "plug ((d, b, u) # c) ?N = plug c \<langle>l, b, r\<rangle>" by (simp add: lr(1))
  have "set_tree (plug c \<langle>l, b, r\<rangle>) = insert n (set_tree t)" unfolding T [symmetric] s1(2) set_plug by auto
  then have "frame (init_node n k dd s) s2 (insert n (set_tree t))" using frame_trans s1(7) s2(5) by metis
  moreover have "node_key s2 = node_key s1" using s2(5) by (simp add: frame_def)
  moreover have "bst_insert_node s n k dd = Some (Inr s2)"
    using check_tree_ok [OF rep, of 0] check_tree_ok [OF s2(2), of 0] s1(1,4,5) s2(1) by (simp add: bst_insert_node_def)
  ultimately show ?thesis using s2(2-4) s1(6) unfolding T by metis
qed

lemma insert_duplicate:
  assumes rep: "tree_rep s t" and n: "n \<noteq> 0" "n \<notin> set_tree t" and k: "k \<in> node_key s ` set_tree t"
  shows "bst_insert_node s n k dd = Some (Inl Panic)"
proof -
  let ?s = "init_node n k dd s"
  have r0: "tree_rep ?s t" by (rule init_node_rep [OF rep n(2)])
  have sh: "shape ?s t (tree_root s) 0" and bk: "by_key ?s (inorder t)" using r0 by (simp_all add: tree_rep_def)
  have "t \<noteq> \<langle>\<rangle>" using k by auto
  then have rt: "tree_root s \<noteq> 0" using shape_ptr [OF sh] by simp
  obtain x where x: "x \<in> set_tree t" "node_key s x = k" using k by auto
  then have "node_key ?s x = k" using n(2) by auto
  then have "k \<in> node_key ?s ` set_tree t" using x(1) by (metis imageI)
  then have "insert_loop ?s k (tree_root s) 0 BST_DIR_LEFT = Some (Inl Panic)" using insert_loop_duplicate [OF sh bk] by blast
  then show ?thesis using check_tree_ok [OF rep, of 0] n(1) rt
    by (simp add: bst_insert_node_def bst_insert_node_unbalenced_def Let_def)
qed

subsection \<open>Removal of a node with at most one child\<close>

lemma inorder_remove:
  assumes "distinct (inorder (plug c \<langle>l, x, r\<rangle>))"
  shows "before c @ (inorder l @ inorder r) @ after c = remove1 x (inorder (plug c \<langle>l, x, r\<rangle>))"
  using assms by (auto simp: inorder_plug remove1_append)

lemma unlink_ok:
  assumes rep: "tree_rep s (plug c \<langle>l, x, r\<rangle>)" and t: "l = \<langle>\<rangle> \<and> t = r \<and> ch = node_children s x BST_DIR_RIGHT \<or> r = \<langle>\<rangle> \<and> t = l \<and> ch = node_children s x BST_DIR_LEFT"
  defines "s1 \<equiv> reparent (relink s c ch) ch (node_parent s x)"
  shows "in_ctx s1 c ch (node_parent s x) (tree_root s1)" "shape s1 t ch (node_parent s x)" "by_key s1 (inorder (plug c t))"
    "hts s1 t" "ctx_hts s1 c" "bfs s1 t" "ctx_bfs s1 c" "frame s s1 (set_tree (plug c t))" "node_parent s1 x = node_parent s x"
    "x \<notin> set_tree (plug c t)" "inorder (plug c t) = remove1 x (inorder (plug c \<langle>l, x, r\<rangle>))" "0 < height t \<longleftrightarrow> ch \<noteq> 0"
proof -
  let ?T = "plug c \<langle>l, x, r\<rangle>"
  have k: "by_key s (inorder ?T)" and h: "hts s ?T" and f: "bfs s ?T" using rep by (simp_all add: tree_rep_def)
  note D = by_key_distinct [OF k]
  obtain p q where i: "in_ctx s c p q (tree_root s)" "shape s \<langle>l, x, r\<rangle> p q" using rep shape_plug by (auto simp: tree_rep_def)
  have px: "p = x" "node_parent s x = q" "x \<noteq> 0" using i(2) by simp_all
  have sub: "set_tree t \<subseteq> set_tree \<langle>l, x, r\<rangle>" "x \<notin> set_tree t" "distinct (inorder t)" using t distinct_plug(1) [OF D] by auto
  have dc: "set_tree t \<inter> ctx_nodes c = {}" "x \<notin> ctx_nodes c" using distinct_plug(2) [OF D] sub(1) by auto
  have st: "shape s t ch x" using i(2) t by auto
  have chm: "ch = 0 \<or> ch \<in> set_tree t" using st by (cases t) auto
  have z: "0 \<notin> ctx_nodes c" "0 \<notin> set_tree t" using shape_zero [of s ?T "tree_root s" 0] sub(1) rep by (auto simp: tree_rep_def set_plug)
  have chc: "ch \<notin> ctx_nodes c" "ch \<noteq> x" using chm dc sub(2) z px(3) by auto
  show "0 < height t \<longleftrightarrow> ch \<noteq> 0" using shape_ptr [OF st] by (cases t) auto
  have "in_ctx (relink s c ch) c ch q (tree_root (relink s c ch))" using in_ctx_relink [OF i(1) distinct_plug(3) [OF D]] by blast
  moreover have "in_ctx s1 c y z w = in_ctx (relink s c ch) c y z w" for y z w
    by (rule in_ctx_frame) (use chc in \<open>auto simp: s1_def\<close>)
  moreover have "tree_root s1 = tree_root (relink s c ch)" by (simp add: s1_def)
  ultimately show "in_ctx s1 c ch (node_parent s x) (tree_root s1)" by (simp only: px)
  have "shape (relink s c ch) t ch x = shape s t ch x" by (rule shape_frame) (use dc in \<open>auto simp: disjoint_iff\<close>)
  then show "shape s1 t ch (node_parent s x)" using shape_reparent [of "relink s c ch" t ch x] st sub(3) by (simp add: s1_def)
  have io: "inorder (plug c t) = before c @ (inorder l @ inorder r) @ after c" using t by (auto simp: inorder_plug)
  also have "\<dots> = remove1 x (inorder ?T)" by (rule inorder_remove [OF D])
  finally show io': "inorder (plug c t) = remove1 x (inorder ?T)" .
  have "by_key s (inorder (plug c t))" using k unfolding io by (auto simp: by_key_def inorder_plug sorted_wrt_append)
  moreover have "by_key s1 xs = by_key s xs" for xs by (rule by_key_frame) (simp add: s1_def)
  ultimately show "by_key s1 (inorder (plug c t))" by simp
  have "hts s t" "bfs s t" using hts_plug [OF h] bfs_plug [OF f] t by auto
  moreover have "hts s1 t = hts s t" "bfs s1 t = bfs s t" by (rule hts_frame bfs_frame, simp add: s1_def)+
  ultimately show "hts s1 t" "bfs s1 t" by simp_all
  have "ctx_hts s1 c = ctx_hts s c" "ctx_bfs s1 c = ctx_bfs s c" by (rule ctx_hts_frame ctx_bfs_frame, simp add: s1_def)+
  then show "ctx_hts s1 c" "ctx_bfs s1 c" using hts_plug [OF h] bfs_plug [OF f] by simp_all
  show "frame s s1 (set_tree (plug c t))" using chm by (auto simp: frame_def s1_def set_plug)
  show "node_parent s1 x = node_parent s x" using chc by (simp add: s1_def)
  show "x \<notin> set_tree (plug c t)" using sub dc by (simp add: set_plug)
qed

lemma unlink_call:
  assumes rep: "tree_rep s (plug c \<langle>l, x, r\<rangle>)" and t: "l = \<langle>\<rangle> \<and> t = r \<and> ch = node_children s x BST_DIR_RIGHT \<or> r = \<langle>\<rangle> \<and> t = l \<and> ch = node_children s x BST_DIR_LEFT"
  shows "(if x = 0 then Some (Inl Null_deref)
     else if node_children s x BST_DIR_LEFT = 0 \<and> node_children s x BST_DIR_RIGHT = 0 then Some (remove_terminal_node s x)
     else if node_children s x BST_DIR_LEFT \<noteq> 0 \<and> node_children s x BST_DIR_RIGHT = 0 then Some (remove_node_with_left_child s x)
     else if node_children s x BST_DIR_LEFT = 0 \<and> node_children s x BST_DIR_RIGHT \<noteq> 0 then Some (remove_node_with_right_child s x)
     else remove_node_with_both_children s x) = Some (Inr (reparent (relink s c ch) ch (node_parent s x)))"
proof -
  obtain p q where i: "in_ctx s c p q (tree_root s)" "shape s \<langle>l, x, r\<rangle> p q" using rep shape_plug by (auto simp: tree_rep_def)
  have px: "p = x" "node_parent s x = q" "x \<noteq> 0" and kids: "node_children s x BST_DIR_LEFT = 0 \<longleftrightarrow> l = \<langle>\<rangle>" "node_children s x BST_DIR_RIGHT = 0 \<longleftrightarrow> r = \<langle>\<rangle>"
    using i(2) shape_ptr by auto
  have "by_key s (inorder (plug c \<langle>l, x, r\<rangle>))" using rep by (simp add: tree_rep_def)
  from distinct_plug(2) [OF by_key_distinct [OF this]] have xc: "x \<notin> ctx_nodes c" by simp
  have par: "q \<noteq> 0 \<longleftrightarrow> c \<noteq> []" using in_ctx_parent [OF i(1)] by simp
  have rp: "replace_in_parent s x b = Inr (relink s c b)" if "c \<noteq> []" for b
    using replace_in_parent_ok [of s c x q] i(1) that px xc by simp
  have rt: "tree_root s = x" "relink s c b = s\<lparr>tree_root := b\<rparr>" if "c = []" for b using i(1) px(1) that by (simp_all add: relink_def)
  have terminal: "remove_terminal_node s x = Inr (relink s c 0)"
    using par rp rt px by (cases "c = []") (simp_all add: remove_terminal_node_def)
  have child: "remove_node_with_child d s x = Inr (set_parent (node_children s x d) q (relink s c (node_children s x d)))" for d
    using par rp rt px by (cases "c = []") (simp_all add: remove_node_with_child_def Let_def set_parent_def)
  show ?thesis
  proof (cases "t = \<langle>\<rangle>")
    case True
    then have "ch = 0" "l = \<langle>\<rangle>" "r = \<langle>\<rangle>" using t kids by auto
    then show ?thesis using kids px terminal by (simp add: reparent_def)
  next
    case False
    then have ch: "ch \<noteq> 0" using t kids by auto
    show ?thesis
    proof (cases "l = \<langle>\<rangle>")
      case True
      then have "ch = node_children s x BST_DIR_RIGHT" "r \<noteq> \<langle>\<rangle>" using t False by auto
      then show ?thesis using True ch kids px child by (simp add: remove_node_with_right_child_def reparent_def)
    next
      case nl: False
      then have "ch = node_children s x BST_DIR_LEFT" "r = \<langle>\<rangle>" using t by auto
      then show ?thesis using nl ch kids px child by (simp add: remove_node_with_left_child_def reparent_def)
    qed
  qed
qed

lemma remove_ok:
  assumes rep: "tree_rep s (plug c \<langle>l, x, r\<rangle>)" and av: "avl (plug c \<langle>l, x, r\<rangle>)" and one: "l = \<langle>\<rangle> \<or> r = \<langle>\<rangle>"
  shows "\<exists>s' t'. bst_remove_node s x = Some (Inr s') \<and> tree_rep s' t' \<and> avl t' \<and>
    inorder t' = remove1 x (inorder (plug c \<langle>l, x, r\<rangle>)) \<and> frame s s' (set_tree t')"
proof -
  obtain t ch where t: "l = \<langle>\<rangle> \<and> t = r \<and> ch = node_children s x BST_DIR_RIGHT \<or> r = \<langle>\<rangle> \<and> t = l \<and> ch = node_children s x BST_DIR_LEFT"
    using one by blast
  define s1 where "s1 = reparent (relink s c ch) ch (node_parent s x)"
  note u = unlink_ok [OF rep t, folded s1_def]
  note call = unlink_call [OF rep t, folded s1_def]
  note pre = check_tree_ok [OF rep, of 0]
  have avt: "avl t" "ctx_avl c (height t + 1)" using av t unfolding avl_plug by auto
  show ?thesis
  proof (cases c)
    case Nil
    have q: "node_parent s x = 0" using u(1) by (simp add: Nil)
    have r1: "tree_rep s1 t" using u(1-7) by (simp add: Nil tree_rep_def q)
    have "bst_remove_node_unbalenced s x = Some (Inr s1)"
      using pre call q check_tree_ok [OF r1, of 0] by (simp add: bst_remove_node_unbalenced_def Let_def)
    then have "bst_remove_node s x = Some (Inr s1)"
      using pre check_tree_ok [OF r1, of 0] u(9) q by (simp add: bst_remove_node_def)
    then show ?thesis using r1 avt u(8,11) by (intro exI [of _ s1] exI [of _ t]) (simp add: Nil)
  next
    case (Cons y c')
    obtain d b w where y: "y = (d, b, w)" by (cases y)
    have q: "node_parent s x = b" "b \<noteq> 0" using u(1) by (simp_all add: Cons y)
    obtain s2 s3 where s3: "bst_recalculate_height s1 b = Some (Inr s2)" "bst_recalculate_bf s2 b = Some (Inr s3)"
        "tree_rep s3 (plug c t)" "frame s1 s3 (set_tree (plug c t))"
      using recompute_ok [of s1 d b w c' ch t] u(1-7) q unfolding Cons y by blast
    have un: "bst_remove_node_unbalenced s x = Some (Inr s3)"
      using pre call q s3(1,2) check_tree_ok [OF s3(3), of 0] by (simp add: bst_remove_node_unbalenced_def Let_def)
    have p3: "node_parent s3 x = b" using s3(4) u(9,10) q(1) by (simp add: frame_def)
    have cu: "avl w" "\<bar>int (height t + 1) - int (height w)\<bar> \<le> 1" "ctx_avl c' (max (height t + 1) (height w) + 1)"
      using avt(2) by (simp_all add: Cons y)
    obtain l' r' where lr: "mk d t b w = \<langle>l', b, r'\<rangle>" "avl l'" "avl r'" "height l' = height t \<and> height r' = height w \<or> height l' = height w \<and> height r' = height t"
      using cu(1) avt(1) by (cases d) auto
    have T: "plug c t = plug c' \<langle>l', b, r'\<rangle>" by (simp add: Cons y lr(1))
    have "\<exists>s' t'. bst_check_and_rebalence s3 b = Some (Inr s') \<and> tree_rep s' t' \<and> avl t' \<and> inorder t' = inorder (plug c' \<langle>l', b, r'\<rangle>) \<and>
        frame s3 s' (set_tree (plug c' \<langle>l', b, r'\<rangle>))"
      by (rule check_and_rebalence_ok [OF s3(3) [unfolded T] lr(2,3) _ cu(3)]) (use lr(4) cu(2) in linarith)+
    then obtain s4 t4 where s4: "bst_check_and_rebalence s3 b = Some (Inr s4)" "tree_rep s4 t4" "avl t4" "inorder t4 = inorder (plug c t)"
        "frame s3 s4 (set_tree (plug c t))"
      unfolding T by blast
    have "bst_remove_node s x = Some (Inr s4)"
      using pre un p3 q(2) s4(1) check_tree_ok [OF s4(2), of 0] by (simp add: bst_remove_node_def)
    moreover have "set_tree t4 = set_tree (plug c t)" using arg_cong [OF s4(4), of set] by simp
    ultimately show ?thesis using s4(2-4) u(11) frame_trans [OF frame_trans [OF u(8) s3(4)] s4(5)] by auto
  qed
qed

end
