(* ===== verification/Bst_Remove.thy ===== *)
theory Bst_Remove
  imports Bst_Ops
begin

text \<open>
  Removal of a node with two children: the tree that results, in which the replacement (the largest node of the left
  subtree) has lost its own left subtree.
\<close>

text \<open>A context below a given pointer and parent.\<close>

fun seg :: "bst \<Rightarrow> ctx \<Rightarrow> nat \<Rightarrow> nat \<Rightarrow> nat \<Rightarrow> nat \<Rightarrow> bool" where
  "seg s [] p q P Q \<longleftrightarrow> p = P \<and> q = Q"
| "seg s ((d, a, u) # c) p q P Q \<longleftrightarrow> q = a \<and> a \<noteq> 0 \<and> node_children s a d = p \<and>
     shape s u (node_children s a (opposite d)) a \<and> seg s c a (node_parent s a) P Q"

lemma shape_seg: "shape s (plug c t) P Q \<longleftrightarrow> (\<exists>p q. seg s c p q P Q \<and> shape s t p q)"
proof (induction c arbitrary: t)
  case (Cons x c)
  obtain d a u where x: "x = (d, a, u)" by (cases x)
  show ?case unfolding x by (simp add: Cons) blast
qed simp

lemma seg_frame:
  assumes "\<forall>a\<in>ctx_nodes c. node_parent s' a = node_parent s a \<and> node_children s' a = node_children s a"
  shows "seg s' c p q P Q \<longleftrightarrow> seg s c p q P Q"
  using assms
proof (induction c arbitrary: p q)
  case (Cons x c)
  obtain d a u where x: "x = (d, a, u)" by (cases x)
  show ?case using Cons.prems unfolding x by (simp add: Cons.IH shape_frame [of u s' s])
qed simp

lemma ctx_append:
  "ctx_nodes (c @ c') = ctx_nodes c \<union> ctx_nodes c'" "ctx_hts s (c @ c') \<longleftrightarrow> ctx_hts s c \<and> ctx_hts s c'" "ctx_bfs s (c @ c') \<longleftrightarrow> ctx_bfs s c \<and> ctx_bfs s c'"
  by (induction c rule: ctx_nodes.induct) auto

lemma rightmost: "l \<noteq> \<langle>\<rangle> \<Longrightarrow> \<exists>cl ll y. l = plug cl \<langle>ll, y, \<langle>\<rangle>\<rangle> \<and> after cl = []"
proof (induction l)
  case (Node l a r)
  show ?case
  proof (cases "r = \<langle>\<rangle>")
    case True
    then have "\<langle>l, a, r\<rangle> = plug [] \<langle>l, a, \<langle>\<rangle>\<rangle>" by simp
    then show ?thesis using after.simps(1) by blast
  next
    case False
    then obtain cl ll y where "r = plug cl \<langle>ll, y, \<langle>\<rangle>\<rangle>" "after cl = []" using Node.IH(2) by blast
    then have "\<langle>l, a, r\<rangle> = plug (cl @ [(BST_DIR_RIGHT, a, l)]) \<langle>ll, y, \<langle>\<rangle>\<rangle>" "after (cl @ [(BST_DIR_RIGHT, a, l)]) = []"
      by (simp_all add: plug_append before_after_append)
    then show ?thesis by blast
  qed
qed simp

text \<open>Taking the replacement out of the left subtree.\<close>

lemma cut_replacement:
  fixes r :: "nat tree" and c :: ctx
  assumes sh: "shape s (plug cl \<langle>ll, y, \<langle>\<rangle>\<rangle>) (node_children s x BST_DIR_LEFT) x" and x: "x \<notin> set_tree (plug cl \<langle>ll, y, \<langle>\<rangle>\<rangle>)"
    and D: "distinct (inorder (plug cl \<langle>ll, y, \<langle>\<rangle>\<rangle>))"
  defines "sA \<equiv> relink s (cl @ (BST_DIR_LEFT, x, r) # c) 0"
  shows "shape sA (plug cl \<langle>\<rangle>) (node_children sA x BST_DIR_LEFT) x" "node_children sA x BST_DIR_RIGHT = node_children s x BST_DIR_RIGHT"
    "node_parent sA = node_parent s" "tree_root sA = tree_root s"
    "z \<notin> insert x (set_tree (plug cl \<langle>\<rangle>)) \<Longrightarrow> node_children sA z = node_children s z"
proof -
  show "node_parent sA = node_parent s" by (simp add: sA_def)
  show "tree_root sA = tree_root s" by (cases cl) (auto simp: sA_def relink_def split: prod.splits)
  have "shape sA (plug cl \<langle>\<rangle>) (node_children sA x BST_DIR_LEFT) x \<and> node_children sA x BST_DIR_RIGHT = node_children s x BST_DIR_RIGHT \<and>
    (z \<notin> insert x (set_tree (plug cl \<langle>\<rangle>)) \<longrightarrow> node_children sA z = node_children s z)"
  proof (cases cl)
    case Nil
    then show ?thesis by (simp add: sA_def relink_def)
  next
    case (Cons w cl')
    obtain d b u where w: "w = (d, b, u)" by (cases w)
    let ?p = "node_children s x BST_DIR_LEFT"
    have sA: "sA = set_child b d 0 s" by (simp add: sA_def relink_def Cons w)
    obtain p q where i: "seg s cl p q ?p x" using sh shape_seg by blast
    have b: "b \<noteq> x" "b \<notin> set_tree u" "b \<notin> ctx_nodes cl'"
      using x distinct_mk(2) [OF distinct_plug(1), of cl' d "\<langle>ll, y, \<langle>\<rangle>\<rangle>" b u] D distinct_plug(2) [of cl' "mk d \<langle>ll, y, \<langle>\<rangle>\<rangle> b u"]
      by (auto simp: Cons w set_plug)
    have "shape sA u y z = shape s u y z" for y z by (rule shape_frame) (use b in \<open>auto simp: sA\<close>)
    moreover have "seg sA cl' y z P Q = seg s cl' y z P Q" for y z P Q by (rule seg_frame) (use b in \<open>auto simp: sA\<close>)
    ultimately have "seg sA cl 0 b ?p x" using i by (simp add: Cons w) (simp add: sA)
    then have "shape sA (plug cl \<langle>\<rangle>) ?p x" using shape_seg by fastforce
    then show ?thesis using b(1) by (auto simp: sA Cons w set_plug)
  qed
  then show "shape sA (plug cl \<langle>\<rangle>) (node_children sA x BST_DIR_LEFT) x" "node_children sA x BST_DIR_RIGHT = node_children s x BST_DIR_RIGHT"
    "z \<notin> insert x (set_tree (plug cl \<langle>\<rangle>)) \<Longrightarrow> node_children sA z = node_children s z" by simp_all
qed

text \<open>The relinking of remove_node_with_both_children, after its two replacements in parents.\<close>

definition take_place :: "bst \<Rightarrow> ctx \<Rightarrow> nat \<Rightarrow> nat \<Rightarrow> bst" where
  "take_place sA c x y =
     (let l = node_children sA x BST_DIR_LEFT; r = node_children sA x BST_DIR_RIGHT in
      reparent (reparent (set_child y BST_DIR_RIGHT r (set_child y BST_DIR_LEFT l (set_parent y (node_parent sA x) (relink sA c y)))) l y) r y)"

lemma take_place_ok:
  assumes i: "in_ctx sA c x (node_parent sA x) (tree_root sA)" and l: "shape sA t (node_children sA x BST_DIR_LEFT) x"
    and r: "shape sA r (node_children sA x BST_DIR_RIGHT) x" and y: "y \<noteq> 0"
    and D: "distinct (inorder (plug c \<langle>t, y, r\<rangle>))" and x: "x \<notin> set_tree (plug c \<langle>t, y, r\<rangle>)"
  defines "s' \<equiv> take_place sA c x y"
  shows "shape s' (plug c \<langle>t, y, r\<rangle>) (tree_root s') 0" "node_height s' = node_height sA" "node_bf s' = node_bf sA" "node_key s' = node_key sA"
    "node_data s' = node_data sA" "frame sA s' (set_tree (plug c \<langle>t, y, r\<rangle>))" "node_parent s' x = node_parent sA x"
proof -
  define lp rp q where "lp = node_children sA x BST_DIR_LEFT" and "rp = node_children sA x BST_DIR_RIGHT" and "q = node_parent sA x"
  define sC where "sC = set_child y BST_DIR_RIGHT rp (set_child y BST_DIR_LEFT lp (set_parent y q (relink sA c y)))"
  have s': "s' = reparent (reparent sC lp y) rp y" by (simp add: s'_def take_place_def Let_def sC_def lp_def rp_def q_def)
  note dp = distinct_plug [OF D]
  have dis: "y \<notin> set_tree t" "y \<notin> set_tree r" "set_tree t \<inter> set_tree r = {}" "distinct (inorder t)" "distinct (inorder r)"
      "y \<notin> ctx_nodes c" "set_tree t \<inter> ctx_nodes c = {}" "set_tree r \<inter> ctx_nodes c = {}" "x \<noteq> y" "x \<notin> set_tree t" "x \<notin> set_tree r" "x \<notin> ctx_nodes c"
    using dp(1,2) x by (auto simp: set_plug)
  have m: "lp = 0 \<or> lp \<in> set_tree t" "rp = 0 \<or> rp \<in> set_tree r"
    using l r unfolding lp_def rp_def by (cases t; cases r; auto)+
  have z: "0 \<notin> set_tree t" "0 \<notin> set_tree r" using shape_zero l r by blast+
  have cC: "node_children sC u = (if u = y then (node_children sA y)(BST_DIR_LEFT := lp, BST_DIR_RIGHT := rp) else node_children (relink sA c y) u)" for u
    using dis(6) by (simp add: sC_def)
  have "shape sC t lp x = shape sA t lp x" "shape sC r rp x = shape sA r rp x"
    by (rule shape_frame; use dis in \<open>auto simp: cC disjoint_iff sC_def\<close>)+
  then have "shape sC t lp x" "shape sC r rp x" using l r by (simp_all add: lp_def rp_def)
  moreover have "shape (reparent sC lp y) r rp x = shape sC r rp x" by (rule shape_frame) (use m dis(3) z in auto)
  ultimately have tl: "shape (reparent sC lp y) t lp y" and rr: "shape (reparent sC lp y) r rp x"
    using shape_reparent [of sC t lp x y] dis(4) by auto
  have "shape s' t lp y = shape (reparent sC lp y) t lp y" unfolding s' by (rule shape_frame) (use m dis(3) z in auto)
  then have "shape s' \<langle>t, y, r\<rangle> y q"
    using tl shape_reparent [OF rr dis(5), of y] m dis(1,2) y by (auto simp: s' cC) (auto simp: sC_def)
  moreover have "in_ctx s' c y q (tree_root s')"
  proof -
    have "in_ctx (relink sA c y) c y q (tree_root (relink sA c y))" using in_ctx_relink [OF i dp(3)] by (simp add: q_def)
    moreover have "lp \<notin> ctx_nodes c \<or> lp = 0" "rp \<notin> ctx_nodes c \<or> rp = 0" using m dis(7,8) by auto
    then have "in_ctx s' c p u v = in_ctx (relink sA c y) c p u v" for p u v
      by (intro in_ctx_frame) (use dis(6) in \<open>auto simp: s' cC sC_def\<close>)
    moreover have "tree_root s' = tree_root (relink sA c y)" by (simp add: s' sC_def)
    ultimately show ?thesis by (simp only:)
  qed
  ultimately show "shape s' (plug c \<langle>t, y, r\<rangle>) (tree_root s') 0" using shape_plug by blast
  show "node_height s' = node_height sA" "node_bf s' = node_bf sA" "node_key s' = node_key sA" "node_data s' = node_data sA"
    by (simp_all add: s' sC_def)
  show "frame sA s' (set_tree (plug c \<langle>t, y, r\<rangle>))" using m by (auto simp: frame_def s' cC set_plug) (auto simp: sC_def)
  show "node_parent s' x = node_parent sA x" using m dis(9-11) by (auto simp: s' sC_def)
qed

text \<open>The situation: \<open>x\<close> has two children, and \<open>y\<close> is the rightmost node of its left subtree.\<close>

definition two_children :: "bst \<Rightarrow> ctx \<Rightarrow> nat \<Rightarrow> ctx \<Rightarrow> nat tree \<Rightarrow> nat \<Rightarrow> nat tree \<Rightarrow> bool" where
  "two_children s c x cl ll y r \<longleftrightarrow> tree_rep s (plug c \<langle>plug cl \<langle>ll, y, \<langle>\<rangle>\<rangle>, x, r\<rangle>) \<and> after cl = [] \<and> r \<noteq> \<langle>\<rangle>"

lemma two_children_facts:
  assumes "two_children s c x cl ll y r"
  defines "sA \<equiv> relink s (cl @ (BST_DIR_LEFT, x, r) # c) 0" and "q \<equiv> node_parent s x"
  shows "by_key s (inorder (plug c \<langle>plug cl \<langle>\<rangle>, y, r\<rangle>))" "x \<notin> set_tree (plug c \<langle>plug cl \<langle>\<rangle>, y, r\<rangle>)" "y \<noteq> 0" "x \<noteq> 0" "x \<noteq> y"
    "shape sA (plug cl \<langle>\<rangle>) (node_children sA x BST_DIR_LEFT) x" "shape sA r (node_children sA x BST_DIR_RIGHT) x"
    "in_ctx sA c x q (tree_root sA)" "node_parent sA = node_parent s" "replace_in_parent s y 0 = Inr sA" "node_parent s y \<noteq> 0"
    "bst_max_of s (node_children s x BST_DIR_LEFT) = Some y" "node_children s x BST_DIR_LEFT \<noteq> 0" "node_children s x BST_DIR_RIGHT \<noteq> 0"
    "node_parent s y = (case cl of [] \<Rightarrow> x | (d, b, u) # _ \<Rightarrow> b)" "x \<notin> ctx_nodes c" "frame s sA (insert x (set_tree (plug c \<langle>plug cl \<langle>\<rangle>, y, r\<rangle>)))"
    "node_height sA = node_height s" "node_bf sA = node_bf s"
proof -
  let ?L = "plug cl \<langle>ll, y, \<langle>\<rangle>\<rangle>" and ?C = "cl @ (BST_DIR_LEFT, x, r) # c"
  let ?T = "plug c \<langle>?L, x, r\<rangle>"
  have rep: "tree_rep s ?T" and cl: "after cl = []" and r: "r \<noteq> \<langle>\<rangle>" using assms(1) by (simp_all add: two_children_def)
  have k: "by_key s (inorder ?T)" using rep by (simp add: tree_rep_def)
  note D = by_key_distinct [OF k]
  have TC: "?T = plug ?C \<langle>ll, y, \<langle>\<rangle>\<rangle>" by (simp add: plug_plug [symmetric])
  have N: "plug c \<langle>plug cl \<langle>\<rangle>, y, r\<rangle> = plug (cl @ (BST_DIR_LEFT, y, r) # c) \<langle>\<rangle>" by (simp add: plug_plug [symmetric])
  have io: "inorder ?T = before c @ before cl @ inorder ll @ y # x # inorder r @ after c"
    and ioN: "inorder (plug c \<langle>plug cl \<langle>\<rangle>, y, r\<rangle>) = before c @ before cl @ y # inorder r @ after c"
    using cl by (simp_all add: inorder_plug)
  show "by_key s (inorder (plug c \<langle>plug cl \<langle>\<rangle>, y, r\<rangle>))" using k unfolding io ioN by (auto simp: by_key_def sorted_wrt_append)
  have "x \<notin> set (inorder (plug c \<langle>plug cl \<langle>\<rangle>, y, r\<rangle>))" using D unfolding io ioN by auto
  then show xN: "x \<notin> set_tree (plug c \<langle>plug cl \<langle>\<rangle>, y, r\<rangle>)" by simp
  obtain p q' where i: "in_ctx s c p q' (tree_root s)" "shape s \<langle>?L, x, r\<rangle> p q'" using rep shape_plug by (auto simp: tree_rep_def)
  have px: "p = x" "q' = q" "x \<noteq> 0" "shape s ?L (node_children s x BST_DIR_LEFT) x" "shape s r (node_children s x BST_DIR_RIGHT) x"
    using i(2) by (simp_all add: q_def)
  obtain p2 q2 where i2: "in_ctx s ?C p2 q2 (tree_root s)" "shape s \<langle>ll, y, \<langle>\<rangle>\<rangle> p2 q2"
    using rep shape_plug unfolding TC by (auto simp: tree_rep_def)
  have py: "p2 = y" "y \<noteq> 0" "node_parent s y = q2" using i2(2) by simp_all
  show "y \<noteq> 0" "x \<noteq> 0" by (rule py(2), rule px(3))
  show "x \<noteq> y" using D unfolding io by auto
  have xL: "x \<notin> set_tree ?L" "distinct (inorder ?L)" and xc: "x \<notin> ctx_nodes c" using distinct_plug [OF D] by auto
  then show "x \<notin> ctx_nodes c" by simp
  note cut = cut_replacement [OF px(4) xL, where r = r and c = c, folded sA_def]
  show "shape sA (plug cl \<langle>\<rangle>) (node_children sA x BST_DIR_LEFT) x" by (rule cut(1))
  show par: "node_parent sA = node_parent s" by (rule cut(3))
  have ctx_out: "set_tree r \<inter> insert x (set_tree (plug cl \<langle>\<rangle>)) = {}" "ctx_nodes c \<inter> insert x (set_tree (plug cl \<langle>\<rangle>)) = {}"
    using distinct_plug [OF D] by (auto simp: set_plug)
  have same: "node_parent sA a = node_parent s a \<and> node_children sA a = node_children s a" if "a \<notin> insert x (set_tree (plug cl \<langle>\<rangle>))" for a
    using cut(3) cut(5) [OF that] by simp
  have "shape sA r u v = shape s r u v" for u v
    by (rule shape_frame, intro ballI same) (use ctx_out(1) in auto)
  then show "shape sA r (node_children sA x BST_DIR_RIGHT) x" using px(5) cut(2) by simp
  have "in_ctx sA c u v w = in_ctx s c u v w" for u v w
    by (rule in_ctx_frame, intro ballI same) (use ctx_out(2) in auto)
  then show "in_ctx sA c x q (tree_root sA)" using i(1) px(1,2) cut(4) by simp
  have yC: "y \<notin> ctx_nodes ?C" using distinct_plug(2) [OF D [unfolded TC]] by simp
  show "replace_in_parent s y 0 = Inr sA" using replace_in_parent_ok [of s ?C y q2] i2(1) py yC by (simp add: sA_def)
  show "node_parent s y \<noteq> 0" using in_ctx_parent [OF i2(1)] py(3) by simp
  show "node_parent s y = (case cl of [] \<Rightarrow> x | (d, b, u) # _ \<Rightarrow> b)" using i2(1) py(3) by (cases cl) auto
  have "last_of (inorder ?L) = y" using cl by (simp add: inorder_plug)
  then show "bst_max_of s (node_children s x BST_DIR_LEFT) = Some y" using bst_max_of_ok [OF px(4)] by simp
  have "?L \<noteq> \<langle>\<rangle>" by (metis append_is_Nil_conv inorder.simps inorder_plug list.distinct(1))
  then show "node_children s x BST_DIR_LEFT \<noteq> 0" using shape_ptr [OF px(4)] by simp
  show "node_children s x BST_DIR_RIGHT \<noteq> 0" using shape_ptr [OF px(5)] r by simp
  show "frame s sA (insert x (set_tree (plug c \<langle>plug cl \<langle>\<rangle>, y, r\<rangle>)))"
    using cut(3,5) by (auto simp: frame_def set_plug) (auto simp: sA_def)
  show "node_height sA = node_height s" "node_bf sA = node_bf s" by (simp_all add: sA_def)
qed

lemma both_call:
  assumes two: "two_children s c x cl ll y r"
  shows "remove_node_with_both_children s x =
    bind_ro (bst_recalculate_height (take_place (relink s (cl @ (BST_DIR_LEFT, x, r) # c) 0) c x y)
      (if node_parent s y \<noteq> x then node_parent s y else y)) (\<lambda>s. bst_recalculate_bf s y)"
proof -
  define sA where "sA = relink s (cl @ (BST_DIR_LEFT, x, r) # c) 0"
  note f = two_children_facts [OF two, folded sA_def]
  have second: "(if node_parent s x \<noteq> 0 then replace_in_parent sA x y else Inr (sA\<lparr>tree_root := y\<rparr>)) = Inr (relink sA c y)"
  proof (cases "c = []")
    case True
    then have "node_parent s x = 0" using in_ctx_parent [OF f(8)] by simp
    then show ?thesis by (simp add: True relink_def)
  next
    case False
    then have "node_parent s x \<noteq> 0" using in_ctx_parent [OF f(8)] by simp
    then show ?thesis using replace_in_parent_ok [OF f(8) False f(4) f(16)] f(9) by simp
  qed
  define lp rp where "lp = node_children sA x BST_DIR_LEFT" and "rp = node_children sA x BST_DIR_RIGHT"
  have kids: "node_children (relink sA c y) x BST_DIR_LEFT = lp" "node_children (relink sA c y) x BST_DIR_RIGHT = rp"
    using f(16) by (simp_all add: lp_def rp_def)
  have "take_place sA c x y = reparent (reparent (set_child y BST_DIR_RIGHT rp (set_child y BST_DIR_LEFT lp
      (set_parent y (node_parent s x) (relink sA c y)))) lp y) rp y"
    by (simp add: take_place_def Let_def lp_def rp_def f(9))
  then show ?thesis
    unfolding remove_node_with_both_children_def sA_def [symmetric]
    using f(3,5,9-12) second kids by (simp add: Let_def reparent_def)
qed

lemma two_children_ctx:
  assumes two: "two_children s c x cl ll y r"
  shows "ctx_hts s (cl @ [(BST_DIR_LEFT, y, r)]) \<and> ctx_hts s c \<and> ctx_bfs s c"
proof -
  have T: "plug c \<langle>plug cl \<langle>ll, y, \<langle>\<rangle>\<rangle>, x, r\<rangle> = plug (cl @ (BST_DIR_LEFT, x, r) # c) \<langle>ll, y, \<langle>\<rangle>\<rangle>" by (simp add: plug_plug [symmetric])
  have "hts s (plug (cl @ (BST_DIR_LEFT, x, r) # c) \<langle>ll, y, \<langle>\<rangle>\<rangle>)" "bfs s (plug (cl @ (BST_DIR_LEFT, x, r) # c) \<langle>ll, y, \<langle>\<rangle>\<rangle>)"
    using two by (simp_all add: two_children_def tree_rep_def T [symmetric])
  from hts_plug [OF this(1)] bfs_plug [OF this(2)] show ?thesis by (simp add: ctx_append)
qed

lemma both_children_ok:
  assumes two: "two_children s c x cl ll y r"
  shows "\<exists>s'. remove_node_with_both_children s x = Some (Inr s') \<and> tree_rep s' (plug c \<langle>plug cl \<langle>\<rangle>, y, r\<rangle>) \<and>
    node_parent s' x = node_parent s x \<and> frame s s' (insert x (set_tree (plug c \<langle>plug cl \<langle>\<rangle>, y, r\<rangle>)))"
proof -
  define sA where "sA = relink s (cl @ (BST_DIR_LEFT, x, r) # c) 0"
  define s2 where "s2 = take_place sA c x y"
  let ?t = "plug cl \<langle>\<rangle>"
  let ?N = "plug c \<langle>?t, y, r\<rangle>"
  note f = two_children_facts [OF two, folded sA_def]
  have fr: "frame s sA (insert x (set_tree ?N))" by (rule f(17))
  have D: "distinct (inorder ?N)" using f(1) by (rule by_key_distinct)
  note tp = take_place_ok [OF f(8) [folded f(9)] f(6,7,3) D f(2), folded s2_def]
  have f2: "frame s s2 (insert x (set_tree ?N))" using frame_trans [OF fr] tp(6) frame_mono by blast
  have k2: "by_key s2 (inorder ?N)" using f(1) by_key_of_frame [OF f2] by simp
  have hb: "node_height s2 = node_height s" "node_bf s2 = node_bf s" using tp(2,3) f(18,19) by simp_all
  have cs: "ctx_hts s2 (cl @ [(BST_DIR_LEFT, y, r)])" "ctx_hts s2 c" "ctx_bfs s2 c"
    using two_children_ctx [OF two] ctx_hts_frame [of _ s2 s] ctx_bfs_frame [of c s2 s] hb by auto
  have "\<exists>H. bst_recalculate_height s2 (if node_parent s y \<noteq> x then node_parent s y else y) = Some (Inr (s2\<lparr>node_height := H\<rparr>)) \<and>
      hts (s2\<lparr>node_height := H\<rparr>) ?N \<and> frame s2 (s2\<lparr>node_height := H\<rparr>) (set_tree ?N)"
  proof (cases cl)
    case Nil
    obtain p q where i: "in_ctx s2 c p q (tree_root s2)" "shape s2 \<langle>\<langle>\<rangle>, y, r\<rangle> p q" using tp(1) shape_plug by (auto simp: Nil)
    then show ?thesis using recalculate_height_ok [of s2 BST_DIR_LEFT "\<langle>\<rangle>" y r q c "tree_root s2"] D cs f(15) by (auto simp: Nil)
  next
    case (Cons w cl')
    obtain d b u where w: "w = (d, b, u)" by (cases w)
    let ?C = "cl' @ (BST_DIR_LEFT, y, r) # c"
    have N: "?N = plug ?C (mk d \<langle>\<rangle> b u)" by (simp add: Cons w plug_plug [symmetric])
    obtain p q where i: "in_ctx s2 ?C p q (tree_root s2)" "shape s2 (mk d \<langle>\<rangle> b u) p q"
      using tp(1) shape_plug unfolding N by auto
    have "x \<noteq> b" using f(2) unfolding N set_plug by auto
    then have "(if node_parent s y \<noteq> x then node_parent s y else y) = b" using f(15) by (simp add: Cons w)
    then show ?thesis
      using recalculate_height_ok [of s2 d "\<langle>\<rangle>" b u q ?C "tree_root s2"] i D cs unfolding N by (auto simp: Cons w ctx_append)
  qed
  then obtain H where H: "bst_recalculate_height s2 (if node_parent s y \<noteq> x then node_parent s y else y) = Some (Inr (s2\<lparr>node_height := H\<rparr>))"
      "hts (s2\<lparr>node_height := H\<rparr>) ?N" "frame s2 (s2\<lparr>node_height := H\<rparr>) (set_tree ?N)"
    by blast
  let ?s = "s2\<lparr>node_height := H\<rparr>"
  obtain p q where i: "in_ctx ?s c p q (tree_root s2)" "shape ?s \<langle>?t, y, r\<rangle> p q" using tp(1) shape_plug by auto
  have "p = y" using i(2) by simp
  have "by_key ?s (inorder ?N)" "ctx_bfs ?s c" using k2 cs(3) by simp_all
  then obtain B where B: "bst_recalculate_bf ?s y = Some (Inr (?s\<lparr>node_bf := B\<rparr>))" "bfs (?s\<lparr>node_bf := B\<rparr>) ?N"
      "frame ?s (?s\<lparr>node_bf := B\<rparr>) (set_tree ?N)"
    using recalculate_bf_ok [OF i(2,1) _ _ H(2)] \<open>p = y\<close> by auto
  have "tree_rep (?s\<lparr>node_bf := B\<rparr>) ?N" using tp(1) k2 H(2) B(2) by (simp add: tree_rep_def)
  moreover have "remove_node_with_both_children s x = Some (Inr (?s\<lparr>node_bf := B\<rparr>))"
    using both_call [OF two] H(1) B(1) by (simp add: sA_def [symmetric] s2_def [symmetric])
  moreover have "node_parent (?s\<lparr>node_bf := B\<rparr>) x = node_parent s x" using tp(7) f(9) by simp
  moreover have "frame s (?s\<lparr>node_bf := B\<rparr>) (insert x (set_tree ?N))"
    using frame_trans [OF f2] frame_trans [OF H(3) B(3)] frame_mono by blast
  ultimately show ?thesis by blast
qed

lemma remove_two_ok:
  assumes two: "two_children s c x cl ll y r"
  shows "\<exists>s'. bst_remove_node_unbalenced s x = Some (Inr s') \<and> tree_rep s' (plug c \<langle>plug cl \<langle>\<rangle>, y, r\<rangle>) \<and>
    frame s s' (insert x (set_tree (plug c \<langle>plug cl \<langle>\<rangle>, y, r\<rangle>)))"
proof -
  let ?t = "\<langle>plug cl \<langle>\<rangle>, y, r\<rangle>"
  note f = two_children_facts [OF two]
  have pre: "check_tree s 0 = Some (Inr ())" using two check_tree_ok by (auto simp: two_children_def)
  obtain s1 where s1: "remove_node_with_both_children s x = Some (Inr s1)" "tree_rep s1 (plug c ?t)" "node_parent s1 x = node_parent s x"
      "frame s s1 (insert x (set_tree (plug c ?t)))"
    using both_children_ok [OF two] by blast
  show ?thesis
  proof (cases c)
    case Nil
    then have "node_parent s x = 0" using f(8) by simp
    then have "bst_remove_node_unbalenced s x = Some (Inr s1)"
      using pre s1(1) check_tree_ok [OF s1(2), of 0] f(4,13,14) by (simp add: bst_remove_node_unbalenced_def Let_def)
    then show ?thesis using s1 by blast
  next
    case (Cons w c')
    obtain d b u where w: "w = (d, b, u)" by (cases w)
    have b: "node_parent s x = b" "b \<noteq> 0" using f(8) by (simp_all add: Cons w)
    obtain p q where i: "in_ctx s1 c p q (tree_root s1)" "shape s1 ?t p q" using s1(2) shape_plug by (auto simp: tree_rep_def)
    have q: "q = b" using i(1) by (simp add: Cons w)
    have rep: "by_key s1 (inorder (plug c ?t))" "hts s1 (plug c ?t)" "bfs s1 (plug c ?t)" using s1(2) by (simp_all add: tree_rep_def)
    obtain s2 s3 where s3: "bst_recalculate_height s1 b = Some (Inr s2)" "bst_recalculate_bf s2 b = Some (Inr s3)"
        "tree_rep s3 (plug c ?t)" "frame s1 s3 (set_tree (plug c ?t))"
      using recompute_ok [of s1 d b u c' p ?t] i rep(1) hts_plug [OF rep(2)] bfs_plug [OF rep(3)] unfolding q Cons w by blast
    have "bst_remove_node_unbalenced s x = Some (Inr s3)"
      using pre s1(1) s3(1,2) b check_tree_ok [OF s3(3), of 0] f(4,13,14) by (simp add: bst_remove_node_unbalenced_def Let_def)
    moreover have "frame s s3 (insert x (set_tree (plug c ?t)))" using frame_trans [OF s1(4)] s3(4) frame_mono by blast
    ultimately show ?thesis using s3(3) by blast
  qed
qed

end
