(* ===== verification/Bst_Map.thy ===== *)
theory Bst_Map
  imports Bst_Remove
begin

text \<open>
  The search tree as a finite map from keys to nodes (the locale \<open>keyed_index\<close> and its interpretation), and the
  properties of the search tree.
\<close>

subsection \<open>The interface\<close>

primrec insert_all :: "('s \<Rightarrow> nat \<Rightarrow> int \<Rightarrow> nat \<Rightarrow> 's res option) \<Rightarrow> (nat \<times> int \<times> nat) list \<Rightarrow> 's \<Rightarrow> 's res option" where
  "insert_all ins [] s = Some (Inr s)"
| "insert_all ins (e # es) s = bind_ro (ins s (fst e) (fst (snd e)) (snd (snd e))) (\<lambda>s. insert_all ins es s)"

definition found :: "(int \<Rightarrow> nat option) \<Rightarrow> int \<Rightarrow> nat" where
  "found M k = (case M k of None \<Rightarrow> 0 | Some x \<Rightarrow> x)"

definition entries :: "(nat \<times> int \<times> nat) list \<Rightarrow> int \<Rightarrow> nat option" where
  "entries es = map_of (map (\<lambda>e. (fst (snd e), fst e)) es)"

locale keyed_index =
  fixes rep :: "'s \<Rightarrow> (int \<Rightarrow> nat option) \<Rightarrow> bool" and blank :: "'s \<Rightarrow> nat \<Rightarrow> bool"
    and find :: "'s \<Rightarrow> int \<Rightarrow> nat res option" and ins :: "'s \<Rightarrow> nat \<Rightarrow> int \<Rightarrow> nat \<Rightarrow> 's res option"
  assumes find_ok: "rep s M \<Longrightarrow> find s k = Some (Inr (found M k))"
    and ins_ok: "rep s M \<Longrightarrow> blank s n \<Longrightarrow> n \<notin> ran M \<Longrightarrow> M k = None \<Longrightarrow>
      \<exists>s'. ins s n k d = Some (Inr s') \<and> rep s' (M(k \<mapsto> n)) \<and> (\<forall>m. m \<notin> ran M \<longrightarrow> m \<noteq> n \<longrightarrow> blank s m \<longrightarrow> blank s' m)"
begin

lemma insert_all_rep:
  assumes "rep s M" and "\<forall>e\<in>set es. blank s (fst e) \<and> fst e \<notin> ran M \<and> M (fst (snd e)) = None"
    and "distinct (map fst es)" and "distinct (map (fst \<circ> snd) es)"
  shows "\<exists>s'. insert_all ins es s = Some (Inr s') \<and> rep s' (M ++ entries es)"
  using assms
proof (induction es arbitrary: s M)
  case (Cons e es)
  obtain n k d where e: "e = (n, k, d)" by (cases e)
  obtain s1 where s1: "ins s n k d = Some (Inr s1)" "rep s1 (M(k \<mapsto> n))" "\<forall>m. m \<notin> ran M \<longrightarrow> m \<noteq> n \<longrightarrow> blank s m \<longrightarrow> blank s1 m"
    using ins_ok [OF Cons.prems(1), of n k d] Cons.prems(2) by (auto simp: e)
  have M: "M k = None" using Cons.prems(2) by (simp add: e)
  have "\<forall>f\<in>set es. blank s1 (fst f) \<and> fst f \<notin> ran (M(k \<mapsto> n)) \<and> (M(k \<mapsto> n)) (fst (snd f)) = None"
  proof
    fix f assume f: "f \<in> set es"
    then have "fst f \<noteq> n" "fst (snd f) \<noteq> k" using Cons.prems(3,4) by (force simp: e)+
    then show "blank s1 (fst f) \<and> fst f \<notin> ran (M(k \<mapsto> n)) \<and> (M(k \<mapsto> n)) (fst (snd f)) = None"
      using Cons.prems(2) f s1(3) M by (simp add: e)
  qed
  note entries_ok = this
  obtain s' where s': "insert_all ins es s1 = Some (Inr s')" "rep s' (M(k \<mapsto> n) ++ entries es)"
    using Cons.IH [OF s1(2) entries_ok] Cons.prems(3,4) unfolding list.map distinct.simps by blast
  have "k \<notin> dom (entries es)" using Cons.prems(4) by (auto simp: e entries_def dom_map_of_conv_image_fst image_image)
  then have "M(k \<mapsto> n) ++ entries es = M ++ entries (e # es)"
    by (auto simp: e entries_def map_add_def fun_eq_iff split: option.splits)
  then show ?case using s1(1) s' by (simp add: e)
qed (simp add: entries_def)

lemma insert_all_find:
  assumes "rep s M" and "\<forall>e\<in>set es. blank s (fst e) \<and> fst e \<notin> ran M \<and> M (fst (snd e)) = None"
    and "distinct (map fst es)" and "distinct (map (fst \<circ> snd) es)"
  shows "\<exists>s'. insert_all ins es s = Some (Inr s') \<and> (\<forall>k. find s' k = Some (Inr (found (M ++ entries es) k)))"
  using insert_all_rep [OF assms] find_ok by blast

end

subsection \<open>The tree provides it\<close>

definition represents :: "bst \<Rightarrow> (int \<Rightarrow> nat option) \<Rightarrow> bool" where
  "represents s M \<longleftrightarrow> (\<exists>t. tree_rep s t \<and> avl t \<and> (\<forall>k x. M k = Some x \<longleftrightarrow> x \<in> set_tree t \<and> node_key s x = k))"

definition blank_node :: "bst \<Rightarrow> nat \<Rightarrow> bool" where
  "blank_node s n \<longleftrightarrow> n \<noteq> 0 \<and> node_height s n = 0"

lemma find_represents: "represents s M \<Longrightarrow> bst_find_node s k = Some (Inr (found M k))"
proof -
  assume "represents s M"
  then obtain t where t: "tree_rep s t" "\<forall>k x. M k = Some x \<longleftrightarrow> x \<in> set_tree t \<and> node_key s x = k" by (auto simp: represents_def)
  obtain x where x: "bst_find_node s k = Some (Inr x)" "if k \<in> node_key s ` set_tree t then x \<in> set_tree t \<and> node_key s x = k else x = 0"
    using find_node_ok [OF t(1)] by blast
  have "found M k = x"
  proof (cases "M k")
    case None
    then have "k \<notin> node_key s ` set_tree t" using t(2) by (metis imageE option.distinct(1))
    then show ?thesis using x(2) None by (simp add: found_def)
  next
    case (Some z)
    then have "z \<in> set_tree t" "node_key s z = k" using t(2) by blast+
    then have "M k = Some x" using x(2) t(2) by (metis imageI)
    then show ?thesis by (simp add: found_def)
  qed
  then show ?thesis using x(1) by simp
qed

lemma insert_represents:
  assumes "represents s M" and "blank_node s n" and "n \<notin> ran M" and "M k = None"
  shows "\<exists>s'. bst_insert_node s n k d = Some (Inr s') \<and> represents s' (M(k \<mapsto> n)) \<and>
    (\<forall>m. m \<notin> ran M \<longrightarrow> m \<noteq> n \<longrightarrow> blank_node s m \<longrightarrow> blank_node s' m)"
proof -
  obtain t where t: "tree_rep s t" "avl t" "\<forall>k x. M k = Some x \<longleftrightarrow> x \<in> set_tree t \<and> node_key s x = k"
    using assms(1) by (auto simp: represents_def)
  have ran: "ran M = set_tree t" using t(3) by (auto simp: ran_def)
  have k: "k \<notin> node_key s ` set_tree t" using t(3) assms(4) by (metis imageE option.distinct(1))
  obtain s' t' where s': "bst_insert_node s n k d = Some (Inr s')" "tree_rep s' t'" "avl t'" "inorder t' = insort_key (node_key s') n (inorder t)"
      "frame (init_node n k d s) s' (insert n (set_tree t))"
    using insert_ok [OF t(1,2) _ _ _ k, of n d] assms(2,3) ran by (auto simp: blank_node_def)
  have "set_tree t' = insert n (set_tree t)" using arg_cong [OF s'(4), of set] by (simp add: set_insort_key)
  moreover have "node_key s' = (node_key s)(n := k)" using s'(5) by (simp add: frame_def)
  moreover have "n \<notin> set_tree t" using assms(3) ran by simp
  ultimately have "(M(k \<mapsto> n)) j = Some x \<longleftrightarrow> x \<in> set_tree t' \<and> node_key s' x = j" for j x
    using t(3) [rule_format, of j x] assms(4) by (cases "x = n"; cases "j = k") auto
  moreover have "\<forall>m. m \<notin> ran M \<longrightarrow> m \<noteq> n \<longrightarrow> blank_node s m \<longrightarrow> blank_node s' m"
    using s'(5) ran by (auto simp: blank_node_def frame_def)
  ultimately show ?thesis using s'(1-3) unfolding represents_def by blast
qed

interpretation bst_index: keyed_index represents blank_node bst_find_node bst_insert_node
  by unfold_locales (fact find_represents, fact insert_represents)

subsection \<open>Example memory\<close>

text \<open>Two nodes: 1 with key 10 and its right child 2 with key 20.\<close>

definition empty_memory :: bst where
  "empty_memory = \<lparr>node_parent = (\<lambda>_. 0), node_children = (\<lambda>_ _. 0), node_data = (\<lambda>_. 0), node_key = (\<lambda>_. 0), node_bf = (\<lambda>_. 0),
     node_height = (\<lambda>_. 0), tree_root = 0\<rparr>"

definition two_nodes :: bst where
  "two_nodes = empty_memory\<lparr>node_parent := (\<lambda>_. 0)(2 := 1), node_children := (\<lambda>_ _. 0)(1 := (\<lambda>_. 0)(BST_DIR_RIGHT := 2)),
     node_key := (\<lambda>_. 0)(1 := 10, 2 := 20), node_bf := (\<lambda>_. 0)(1 := - 1), node_height := (\<lambda>_. 0)(1 := 1), tree_root := 1\<rparr>"

definition two_tree :: "nat tree" where
  "two_tree = \<langle>\<langle>\<rangle>, 1, \<langle>\<langle>\<rangle>, 2, \<langle>\<rangle>\<rangle>\<rangle>"

lemma two_nodes_rep: "tree_rep two_nodes two_tree" "avl two_tree"
  by (simp_all add: tree_rep_def two_nodes_def two_tree_def empty_memory_def by_key_def)

text \<open>Node 4 with the children 2 and 5, and 1 as the left child of 2.\<close>

definition four_nodes :: bst where
  "four_nodes = empty_memory\<lparr>node_parent := (\<lambda>_. 0)(2 := 4, 5 := 4, 1 := 2),
     node_children := (\<lambda>_ _. 0)(4 := (\<lambda>d. if d = BST_DIR_LEFT then 2 else 5), 2 := (\<lambda>_. 0)(BST_DIR_LEFT := 1)),
     node_key := (\<lambda>_. 0)(1 := 10, 2 := 20, 4 := 40, 5 := 50), node_bf := (\<lambda>_. 0)(4 := 1, 2 := 1),
     node_height := (\<lambda>_. 0)(4 := 2, 2 := 1), tree_root := 4\<rparr>"

definition four_tree :: "nat tree" where
  "four_tree = \<langle>\<langle>\<langle>\<langle>\<rangle>, 1, \<langle>\<rangle>\<rangle>, 2, \<langle>\<rangle>\<rangle>, 4, \<langle>\<langle>\<rangle>, 5, \<langle>\<rangle>\<rangle>\<rangle>"

lemma four_nodes_rep: "tree_rep four_nodes four_tree" "avl four_tree"
  by (simp_all add: tree_rep_def four_nodes_def four_tree_def empty_memory_def by_key_def)

subsection \<open>Properties\<close>

text \<open>
  Claim C4. Insertion keeps the tree correct: into a well-formed AVL tree (links, keys in order, stored heights and balance
  factors right) a new node with a zero height field is inserted so that every integrity check passes, the result is a
  well-formed AVL tree again, its inorder sequence is the old one with the node at the place of its key, and no other node's
  key or data changes. A key that is in the tree stops the kernel.
\<close>

theorem bst_insert_correct:
  assumes "tree_rep s t" and "avl t" and "n \<noteq> 0" and "n \<notin> set_tree t" and "node_height s n = 0"
  shows "if k \<in> node_key s ` set_tree t then bst_insert_node s n k d = Some (Inl Panic)
    else \<exists>s' t'. bst_insert_node s n k d = Some (Inr s') \<and> tree_rep s' t' \<and> avl t' \<and> inorder t' = insort_key (node_key s') n (inorder t) \<and>
      node_key s' = (node_key s)(n := k) \<and> node_data s' = (node_data s)(n := d)"
proof (cases "k \<in> node_key s ` set_tree t")
  case True
  then show ?thesis using insert_duplicate [OF assms(1,3,4)] by simp
next
  case False
  obtain s' t' where "bst_insert_node s n k d = Some (Inr s')" "tree_rep s' t'" "avl t'" "inorder t' = insort_key (node_key s') n (inorder t)"
      "frame (init_node n k d s) s' (insert n (set_tree t))"
    using insert_ok [OF assms False] by blast
  then show ?thesis using False by (auto simp: frame_def)
qed

theorem bst_insert_correct_witness:
  "\<exists>s' t'. bst_insert_node two_nodes 3 30 7 = Some (Inr s') \<and> tree_rep s' t' \<and> avl t' \<and> inorder t' = [1, 2, 3] \<and> node_data s' 3 = 7"
proof -
  have "(30 :: int) \<notin> node_key two_nodes ` set_tree two_tree" by (simp add: two_nodes_def two_tree_def)
  then obtain s' t' where s': "bst_insert_node two_nodes 3 30 7 = Some (Inr s')" "tree_rep s' t'" "avl t'"
      "inorder t' = insort_key (node_key s') 3 (inorder two_tree)" "node_key s' = (node_key two_nodes)(3 := 30)" "node_data s' = (node_data two_nodes)(3 := 7)"
    using bst_insert_correct [OF two_nodes_rep, of 3 30 7] by (auto simp: two_tree_def two_nodes_def empty_memory_def)
  have "insort_key (node_key s') 3 (inorder two_tree) = [1, 2, 3]" unfolding s'(5) by (simp add: two_tree_def two_nodes_def)
  then show ?thesis using s' by auto
qed

text \<open>
  Claim C21. Removal of a node that has at most one child keeps the tree correct: every check passes, the result is a well-formed
  AVL tree whose inorder sequence is the old one without the node, and no key or data changes.
\<close>

theorem bst_remove_correct:
  assumes "tree_rep s t" and "avl t" and "x \<in> set_tree t" and "node_children s x BST_DIR_LEFT = 0 \<or> node_children s x BST_DIR_RIGHT = 0"
  shows "\<exists>s' t'. bst_remove_node s x = Some (Inr s') \<and> tree_rep s' t' \<and> avl t' \<and> inorder t' = remove1 x (inorder t) \<and>
    node_key s' = node_key s \<and> node_data s' = node_data s"
proof -
  obtain c l r where t: "t = plug c \<langle>l, x, r\<rangle>" using node_context [OF assms(3)] by blast
  have "l = \<langle>\<rangle> \<or> r = \<langle>\<rangle>" using assms(1,4) shape_ptr unfolding t tree_rep_def shape_plug by fastforce
  from remove_ok [OF assms(1,2) [unfolded t] this] show ?thesis unfolding t by (auto simp: frame_def)
qed

theorem bst_remove_correct_witness:
  "\<exists>s' t'. bst_remove_node two_nodes 1 = Some (Inr s') \<and> tree_rep s' t' \<and> avl t' \<and> inorder t' = [2]"
  using bst_remove_correct [OF two_nodes_rep, of 1] by (auto simp: two_tree_def two_nodes_def)

text \<open>
  Claim C24. Removal of a node with two children loses nodes: the largest node \<open>y\<close> of the left subtree takes the place of \<open>x\<close>, but
  its own left subtree (the nodes \<open>ls\<close>, not empty exactly when \<open>y\<close> has a left child) is no longer in the tree, although only
  \<open>x\<close> was to be removed. The checks pass: what remains is a well-formed search tree.
\<close>

theorem bst_remove_two_children:
  assumes "tree_rep s t" and "x \<in> set_tree t" and "node_children s x BST_DIR_LEFT \<noteq> 0" and "node_children s x BST_DIR_RIGHT \<noteq> 0"
  shows "\<exists>s' t' xs ls y ys. bst_remove_node_unbalenced s x = Some (Inr s') \<and> tree_rep s' t' \<and>
    inorder t = xs @ ls @ y # x # ys \<and> inorder t' = xs @ y # ys \<and> (ls = [] \<longleftrightarrow> node_children s y BST_DIR_LEFT = 0)"
proof -
  obtain c l r where t: "t = plug c \<langle>l, x, r\<rangle>" using node_context [OF assms(2)] by blast
  obtain p q where sx: "shape s \<langle>l, x, r\<rangle> p q" using assms(1) unfolding t tree_rep_def shape_plug by blast
  have ne: "l \<noteq> \<langle>\<rangle>" "r \<noteq> \<langle>\<rangle>" using sx assms(3,4) shape_ptr by auto
  obtain cl ll y where l: "l = plug cl \<langle>ll, y, \<langle>\<rangle>\<rangle>" "after cl = []" using rightmost [OF ne(1)] by blast
  have two: "two_children s c x cl ll y r" using assms(1) ne(2) l by (simp add: two_children_def t)
  obtain s' where s': "bst_remove_node_unbalenced s x = Some (Inr s')" "tree_rep s' (plug c \<langle>plug cl \<langle>\<rangle>, y, r\<rangle>)"
    using remove_two_ok [OF two] by blast
  have "shape s l (node_children s x BST_DIR_LEFT) x" using sx by simp
  then obtain p' q' where "shape s \<langle>ll, y, \<langle>\<rangle>\<rangle> p' q'" unfolding l(1) shape_seg by blast
  then have "inorder ll = [] \<longleftrightarrow> node_children s y BST_DIR_LEFT = 0" using shape_ptr by auto
  moreover have "inorder t = (before c @ before cl) @ inorder ll @ y # x # (inorder r @ after c)"
      "inorder (plug c \<langle>plug cl \<langle>\<rangle>, y, r\<rangle>) = (before c @ before cl) @ y # (inorder r @ after c)"
    using l(2) by (simp_all add: t l(1) inorder_plug)
  ultimately show ?thesis using s' by metis
qed

theorem bst_remove_two_children_witness:
  "\<exists>s' t'. bst_remove_node_unbalenced four_nodes 4 = Some (Inr s') \<and> tree_rep s' t' \<and> inorder t' = [2, 5]"
proof -
  have four: "4 \<in> set_tree four_tree" "node_children four_nodes 4 BST_DIR_LEFT \<noteq> 0" "node_children four_nodes 4 BST_DIR_RIGHT \<noteq> 0"
    by (simp_all add: four_tree_def four_nodes_def)
  obtain s' t' xs ls y ys where "bst_remove_node_unbalenced four_nodes 4 = Some (Inr s') \<and> tree_rep s' t' \<and>
      inorder four_tree = xs @ ls @ y # 4 # ys \<and> inorder t' = xs @ y # ys \<and> (ls = [] \<longleftrightarrow> node_children four_nodes y BST_DIR_LEFT = 0)"
    using bst_remove_two_children [OF four_nodes_rep(1) four] by (elim exE)
  then have r: "bst_remove_node_unbalenced four_nodes 4 = Some (Inr s')" "tree_rep s' t'"
      "inorder four_tree = xs @ ls @ y # 4 # ys" "inorder t' = xs @ y # ys" "ls = [] \<longleftrightarrow> node_children four_nodes y BST_DIR_LEFT = 0"
    by blast+
  have e: "[1, 2] @ 4 # [5] = (xs @ ls @ [y]) @ 4 # ys" using r(3) by (simp add: four_tree_def)
  have "[1, 2] = (xs @ ls) @ [y] \<and> [5] = ys" using unique_split [OF _ e] by simp
  then have y: "y = 2" "xs @ ls = [1]" "ys = [5]" by (simp_all add: append_eq_Cons_conv split: if_splits)
  then have "ls \<noteq> []" using r(5) by (simp add: four_nodes_def)
  then have "xs = []" using y(2) by (cases xs) auto
  then show ?thesis using r(1,2,4) y by auto
qed

text \<open>
  Claim C23. Iteration and search agree with the inorder sequence: the successor and the predecessor of a node are its
  neighbours in the sequence (null at the ends), minimum and maximum are its ends, and a search returns the node with
  the key, or null.
\<close>

theorem bst_iteration:
  assumes "tree_rep s t" and "inorder t = xs @ x # ys"
  shows "bst_successor s x = Some (Inr (first_of ys)) \<and> bst_predecessor s x = Some (Inr (last_of xs)) \<and>
    bst_min_of_tree s = Some (first_of (xs @ [x])) \<and> bst_max_of_tree s = Some (last_of (x # ys)) \<and> bst_find_node s (node_key s x) = Some (Inr x) \<and>
    (\<forall>k. k \<notin> node_key s ` set_tree t \<longrightarrow> bst_find_node s k = Some (Inr 0))"
proof -
  have sh: "shape s t (tree_root s) 0" and k: "by_key s (inorder t)" and h: "hts s t" and f: "bfs s t" using assms(1) by (simp_all add: tree_rep_def)
  have xt: "x \<in> set_tree t" using arg_cong [OF assms(2), of set] by auto
  obtain c l r where t: "t = plug c \<langle>l, x, r\<rangle>" using node_context [OF xt] by blast
  obtain p q where i: "in_ctx s c p q (tree_root s)" "shape s \<langle>l, x, r\<rangle> p q" using sh unfolding t shape_plug by blast
  have ok: "hts s \<langle>l, x, r\<rangle> \<and> bfs s \<langle>l, x, r\<rangle>" using hts_plug bfs_plug h f unfolding t by blast
  have d: "distinct (xs @ x # ys)" using by_key_distinct [OF k] by (simp add: assms(2))
  have "xs @ x # ys = (before c @ inorder l) @ x # (inorder r @ after c)" using assms(2) by (simp add: t inorder_plug)
  from unique_split [OF d this] have e: "xs = before c @ inorder l" "ys = inorder r @ after c" by simp_all
  have "bst_successor s x = Some (Inr (first_of ys))" using successor_ok [OF i k [unfolded t]] ok e by simp
  moreover have "bst_predecessor s x = Some (Inr (last_of xs))" using predecessor_ok [OF i k [unfolded t]] ok e by simp
  moreover have "bst_min_of_tree s = Some (first_of (xs @ [x]))"
    using bst_min_of_ok [OF sh] by (cases xs) (simp_all add: bst_min_of_tree_def assms(2))
  moreover have "bst_max_of_tree s = Some (last_of (x # ys))" using bst_max_of_ok [OF sh] by (simp add: bst_max_of_tree_def assms(2))
  moreover have "bst_find_node s (node_key s x) = Some (Inr x)"
  proof -
    obtain z where z: "bst_find_node s (node_key s x) = Some (Inr z)" "z \<in> set_tree t" "node_key s z = node_key s x"
      using find_node_ok [OF assms(1), of "node_key s x"] xt by auto
    have "z \<in> set (xs @ x # ys)" using z(2) by (simp add: assms(2) [symmetric])
    then have "z = x" using by_key_around [OF k [unfolded assms(2)]] z(3) by fastforce
    then show ?thesis using z(1) by simp
  qed
  moreover have "\<forall>k. k \<notin> node_key s ` set_tree t \<longrightarrow> bst_find_node s k = Some (Inr 0)" using find_node_ok [OF assms(1)] by metis
  ultimately show ?thesis by simp
qed

theorem bst_iteration_witness:
  "bst_successor four_nodes 2 = Some (Inr 4) \<and> bst_predecessor four_nodes 2 = Some (Inr 1) \<and> bst_find_node four_nodes 20 = Some (Inr 2)"
  using bst_iteration [OF four_nodes_rep(1), of "[1]" 2 "[4, 5]"] by (simp add: four_tree_def four_nodes_def last_of_def)

text \<open>
  Claim C22. The tree is a map: starting from an empty tree, any sequence of insertions of distinct nodes with zero height
  fields under distinct keys succeeds, and a search then returns the node inserted under the key, or null when there is none.
\<close>

theorem bst_is_map:
  assumes "tree_root s = 0" and "\<forall>e\<in>set es. blank_node s (fst e)" and "distinct (map fst es)" and "distinct (map (fst \<circ> snd) es)"
  shows "\<exists>s'. insert_all bst_insert_node es s = Some (Inr s') \<and> (\<forall>k. bst_find_node s' k = Some (Inr (found (entries es) k)))"
proof -
  have "represents s Map.empty" using assms(1) by (auto simp: represents_def tree_rep_def by_key_def intro!: exI [of _ "\<langle>\<rangle>"])
  from bst_index.insert_all_find [OF this, of es] show ?thesis using assms(2-4) by simp
qed

theorem bst_is_map_witness:
  "\<exists>s'. insert_all bst_insert_node [(1, 30, 0), (2, 10, 0), (3, 20, 0)] empty_memory = Some (Inr s') \<and>
    bst_find_node s' 20 = Some (Inr 3) \<and> bst_find_node s' 25 = Some (Inr 0)"
  using bst_is_map [of empty_memory "[(1, 30, 0), (2, 10, 0), (3, 20, 0)]"]
  by (auto simp: empty_memory_def blank_node_def found_def entries_def)

end
