(* ===== verification/Spec2Isabelle.thy ===== *)
theory Spec2Isabelle
  imports MiscMath Bitmap Pmm Vmm_Pages Linked_List Strutil Path_Reader Queue Sched Iodev Kbd Ps2kbd Disk Ata_Disk Tty_Screen Pci_Space Pstring Stream_Printf Mmu Heap Vfs Ext2_Files Bst_Map
begin

text \<open>
  Verification of the YJK/OS kernel (src/kernel, C, for i586).

  \<^bold>\<open>The program.\<close> A small kernel. The memory side is a physical page allocator (mem/pmm.c, buddy pools over
  bitmaps), the page tables (arch/i586/mmu.c), a heap of 64 byte blocks (mem/heap.c) and a virtual memory
  manager (mem/vmm.c). Threads run under a cooperative scheduler with priorities and mutexes (tasks/). Devices
  register with io/iodev.c; keyboards report scan codes (dev/ps2kbd.c) that io/kbd.c turns into key events; disks
  (dev/atadisk.c) are split into partitions by io/disk.c; text goes through io/stream.c. File systems (fs/), a
  shell and graphics sit on top. Support code is in lib/ (bitmaps, lists, queues, strings, paths, search trees).

  \<^bold>\<open>Theories.\<close>
  \<^item> \<open>Prelude\<close>: machine types, the faults, the error sum \<open>'a res\<close> with its bind and assertion, array access, 32-bit
    size arithmetic with wrap-around.
  \<^item> \<open>MiscMath\<close> (lib/miscmath.c): alignment, block counts, little-endian readers.
  \<^item> \<open>Bitmap\<close> (lib/bitmap.c): the word array; the searches equal a first-fit reference, the range operations
    change exactly their range; the contract is the locale \<open>flag_store\<close>.
  \<^item> \<open>Buddy\<close>, \<open>Pmm\<close> (mem/pmm.c): the abstract buddy system and the bit pools that implement it. Allocation and
    release are correct with respect to the set of free page frames (locale \<open>page_allocator\<close>); registration
    covers the given range.
  \<^item> \<open>Heap\<close> (mem/heap.c): block pools, headers and poison bytes over a byte memory. Allocation, release, resizing
    and adding memory keep the invariant and the contents of live regions (locale \<open>byte_allocator\<close>).
  \<^item> \<open>Mmu\<close> (arch/i586/mmu.c): page directory, tables and TLB; mapping, remapping and unmapping change exactly the
    translation of their range and leave no stale TLB entry.
  \<^item> \<open>Linked_List\<close> (lib/list.c): doubly linked lists in a heap of nodes refine HOL lists (locale \<open>node_sequence\<close>);
    later theories use HOL lists for kernel lists on this ground.
  \<^item> \<open>Bst\<close> (lib/bst.c): balanced search trees with parent pointers and integrity checks. \<open>Bst_Tree\<close>: memory against trees and
    contexts, checks, search and iteration; \<open>Bst_Balance\<close>: heights, balance factors, rotation, rebalancing; \<open>Bst_Ops\<close>,
    \<open>Bst_Remove\<close>: insertion and removal; \<open>Bst_Map\<close>: the tree as a finite map (locale \<open>keyed_index\<close>) and its properties.
  \<^item> \<open>Queue\<close> (lib/queue.c): the ring buffer refines a bounded queue (locale \<open>bounded_fifo\<close>).
  \<^item> \<open>Strutil\<close> (lib/strutil.c, lib/libc/ctype.c), \<open>Path_Reader\<close> (lib/pathreader.c): string functions on buffers against
    their specification on strings; path iteration against splitting at slashes.
  \<^item> \<open>Sched\<close> (tasks/): run queues, mutex wait list, thread switches. The step relation \<open>sched_step\<close> has
    mutual exclusion as an invariant; the choice of the next thread terminates and is sound.
  \<^item> \<open>Iodev\<close> (io/iodev.c), \<open>Kbd\<close> (io/kbd.c), \<open>Ps2kbd\<close> (dev/ps2kbd.c): device registry; key state, modifier flags and
    events; decoding of scan code streams and the command queue.
  \<^item> \<open>Disk\<close> (io/disk.c): partition confinement and the boot record. \<open>Stream_Printf\<close> (io/stream.c): the format
    interpreter against a denotation of format strings.
  \<^item> \<open>Ata\<close>, \<open>Ata_Disk\<close> (dev/atadisk.c): every function of the ATA driver over the operations of the bus. On a drive that
    follows the PIO protocol requests transfer exactly their sectors; lock and DMA session are released on every path.
  \<^item> \<open>Tty\<close> (io/vt100tty.c, arch/i586/vgatty.c): text consoles. \<open>Tty_Screen\<close>: both show the last lines of the text, wrapped
    (locale \<open>text_console\<close>), and a flush of the terminal draws every cell that has changed.
  \<^item> \<open>Pci\<close>, \<open>Pci_Space\<close> (dev/pci.c, arch/i586/pci.c): configuration space and probing, which reports every function present.
  \<^item> \<open>Pstring\<close> (lib/pstring.c): copies from and to physical memory, page by page, are copies of bytes.
  \<^item> \<open>Vmm\<close>, \<open>Vmm_Pages\<close> (mem/vmm.c): address spaces as lists of free and used ranges over \<open>Mmu\<close> and \<open>Pmm\<close>; allocation
    and release keep the partition of the address range, and a page fault on an allocated page commits it.
  \<^item> \<open>Vfs\<close> (fs/vfs.c): normal forms of paths, the mount table and the choice of the mount for a path.
  \<^item> \<open>Ext2\<close>, \<open>Ext2_Fs\<close> (fs/fs_ext2.c): every function of the ext2 driver, over \<open>Disk\<close>, \<open>Path_Reader\<close> and \<open>Vfs\<close>.
    \<open>Ext2_Blocks\<close>: the block iterator against random access to the block map. \<open>Ext2_Read\<close>: reading, skipping and seeking
    against the bytes of the file. \<open>Ext2_Dir\<close>: directories as byte streams (locale \<open>byte_stream\<close>) and path lookup
    against a walk. \<open>Ext2_Mem\<close>: the balance of heap blocks on all paths. \<open>Ext2_Files\<close>: opening, mounting, the properties.

  \<^bold>\<open>Correspondence.\<close> A C function keeps its name (a suffix or prefix is added where HOL or another component has the
  name); its loops are separate functions named after it. A C pointer is a number with 0 as null; a structure is a
  record; a kernel list is a HOL list of identifiers. Panics, failed assertions, accesses outside an array, null
  dereferences, unmapped pages and divisions by zero are values of \<open>fault\<close>. Error codes are integers.

  \<^bold>\<open>Bounds and fuel.\<close> No function uses fuel: loops recurse structurally or with a measure; the loops of the ext2
  driver over directory entries, those that follow pointers in search trees, PCI probing, the VGA scroll loop and those of the ATA driver that wait for the drive,
  which do not end on some damaged volumes or trees, cyclic buses or when the clock stands still, are partial functions into \<open>option\<close>; the
  theorems about what they compute show that they return. Sizes and addresses are below
  \<open>2 ^ 32\<close>; where the C code computes without a bound the wrap-around is part of the model. Theorems about
  allocators assume what the boot code guarantees (ranges that do not wrap, structure sizes of the ABI).

  \<^bold>\<open>Parameters.\<close> Disk and file system drivers behind function pointers, the operations of the IDE bus, of a screen and of ports, the clock,
  transmission of bytes, the outcome of memory requests, the sizes the compiler
  gives to the heap's structures and the mapping that \<open>heap_expand\<close> receives are arguments of the definitions.

  \<^bold>\<open>Not modelled.\<close> Assembly and port I/O (start-up, descriptor tables, interrupt controller, timer, serial port, IDE bus,
  PS/2 controller), debugging output, the self tests, graphics and the interactive programs. Interrupts do
  not occur inside the modelled operations (the code disables them); waiting loops for them are left out, but for
  those of the ATA driver.
\<close>

end
